(* ===== verification/Prelude.thy ===== *)
theory Prelude
  imports Main "HOL-Library.Word" "HOL-Library.Monad_Syntax"
begin

unbundle bit_operations_syntax

text \<open>
  What every component of the development shares: the types that stand for the C types,
  the option monad in which \<open>None\<close> is a fault of the C program (an access outside an
  object, a failed \<open>assert\<close>, a signed overflow), checked memory reads and writes, and the
  arithmetic of big-endian bit and octet strings with its simplification rules.

  The data model is LP64: \<open>int\<close> has 32 bits, \<open>long\<close>, \<open>size_t\<close>, \<open>ssize_t\<close>,
  \<open>intmax_t\<close> and \<open>uintmax_t\<close> have 64.
\<close>

named_theorems bits "Big-endian bit strings: lengths, values and splits"
named_theorems mem "Checked reads and writes"

section \<open>C types\<close>

type_synonym u8 = "8 word"
type_synonym u32 = "32 word"
type_synonym u64 = "64 word"

text \<open>The result codes of \<open>asn_codecs.h\<close>.\<close>

datatype asn_dec_rval_code = RC_OK | RC_WMORE | RC_FAIL

text \<open>
  Signed arithmetic that would overflow is undefined in C: \<open>s32\<close>, \<open>s64\<close> let a value
  through when it is in range and are a fault otherwise.
\<close>

definition INT_MAX :: int where "INT_MAX = 2147483647"
definition INT_MIN :: int where "INT_MIN = -2147483648"
definition INTMAX_MAX :: int where "INTMAX_MAX = 9223372036854775807"
definition INTMAX_MIN :: int where "INTMAX_MIN = -9223372036854775808"

lemmas limits_defs = INT_MAX_def INT_MIN_def INTMAX_MAX_def INTMAX_MIN_def

definition s32 :: "int \<Rightarrow> int option" where
  "s32 x = (if INT_MIN \<le> x \<and> x \<le> INT_MAX then Some x else None)"

definition s64 :: "int \<Rightarrow> int option" where
  "s64 x = (if INTMAX_MIN \<le> x \<and> x \<le> INTMAX_MAX then Some x else None)"

text \<open>\<open>memcpy\<close> into and out of an object at an offset.\<close>

definition mem_store :: "'a list \<Rightarrow> nat \<Rightarrow> 'a list \<Rightarrow> 'a list option" where
  "mem_store m i bs =
     (if i + length bs \<le> length m then Some (take i m @ bs @ drop (i + length bs) m) else None)"

definition mem_load :: "'a list \<Rightarrow> nat \<Rightarrow> nat \<Rightarrow> 'a list option" where
  "mem_load m i n = (if i + n \<le> length m then Some (take n (drop i m)) else None)"

lemma mem_store_length: "mem_store m i bs = Some m' \<Longrightarrow> length m' = length m"
  by (auto simp: mem_store_def split: if_splits)

lemma mem_store_take: "mem_store m i bs = Some m' \<Longrightarrow> take (i + length bs) m' = take i m @ bs"
  by (auto simp: mem_store_def split: if_splits)

text \<open>A failed \<open>assert\<close> is a fault.\<close>

definition c_assert :: "bool \<Rightarrow> unit option" where
  "c_assert b = (if b then Some () else None)"

lemma c_assert_simps [simp]: "c_assert True = Some ()" "c_assert False = None"
  by (simp_all add: c_assert_def)

section \<open>Checked memory\<close>

definition rd :: "'a list \<Rightarrow> nat \<Rightarrow> 'a option" where
  "rd xs i = (if i < length xs then Some (xs ! i) else None)"

definition wr :: "'a list \<Rightarrow> nat \<Rightarrow> 'a \<Rightarrow> 'a list option" where
  "wr xs i v = (if i < length xs then Some (xs[i := v]) else None)"

lemma rd_in [simp, mem]: "i < length xs \<Longrightarrow> rd xs i = Some (xs ! i)"
  by (simp add: rd_def)

lemma wr_in [simp, mem]: "i < length xs \<Longrightarrow> wr xs i v = Some (xs[i := v])"
  by (simp add: wr_def)

lemma rd_Some_iff: "rd xs i = Some x \<longleftrightarrow> i < length xs \<and> xs ! i = x"
  by (auto simp: rd_def)

lemma rd_Cons_0 [simp, mem]: "rd (x # xs) 0 = Some x"
  by (simp add: rd_def)

lemma rd_Cons_Suc [simp, mem]: "rd (x # xs) (Suc i) = rd xs i"
  by (simp add: rd_def)

lemma wr_length: "wr xs i v = Some ys \<Longrightarrow> length ys = length xs"
  by (auto simp: wr_def split: if_splits)

section \<open>Big-endian bit strings\<close>

primrec be_bits :: "nat \<Rightarrow> nat \<Rightarrow> bool list" where
  "be_bits 0 v = []"
| "be_bits (Suc n) v = be_bits n (v div 2) @ [odd v]"

definition be_val :: "bool list \<Rightarrow> nat" where
  "be_val bs = foldl (\<lambda>a b. 2 * a + of_bool b) 0 bs"

lemma length_be_bits [simp, bits]: "length (be_bits n v) = n"
  by (induction n arbitrary: v) auto

lemma be_bits_eq_Nil [simp]: "be_bits n v = [] \<longleftrightarrow> n = 0"
  by (cases n) auto

lemma be_val_Nil [simp, bits]: "be_val [] = 0"
  by (simp add: be_val_def)

lemma be_val_snoc [simp, bits]: "be_val (bs @ [b]) = 2 * be_val bs + of_bool b"
  by (simp add: be_val_def)

lemma be_val_append [bits]: "be_val (xs @ ys) = be_val xs * 2 ^ length ys + be_val ys"
proof (induction ys rule: rev_induct)
  case (snoc y ys)
  have "be_val (xs @ ys @ [y]) = 2 * be_val (xs @ ys) + of_bool y"
    using be_val_snoc [of "xs @ ys" y] by simp
  with snoc show ?case by simp
qed simp

lemma be_val_Cons [bits]: "be_val (b # bs) = of_bool b * 2 ^ length bs + be_val bs"
  using be_val_append [of "[b]" bs] be_val_snoc [of "[]" b] by simp

lemma be_val_less [bits]: "be_val bs < 2 ^ length bs"
  by (induction bs rule: rev_induct) auto

lemma be_val_be_bits [simp, bits]: "be_val (be_bits n v) = v mod 2 ^ n"
proof (induction n arbitrary: v)
  case (Suc n)
  have "be_val (be_bits (Suc n) v) = 2 * (v div 2 mod 2 ^ n) + v mod 2"
    by (simp add: Suc mod_2_eq_odd)
  also have "\<dots> = v mod 2 ^ Suc n"
    using mod_mult2_eq [of v 2 "2 ^ n"] by simp
  finally show ?case .
qed simp

lemma be_bits_be_val [simp, bits]: "be_bits (length bs) (be_val bs) = bs"
  by (induction bs rule: rev_induct) auto

lemma be_bits_add [bits]: "be_bits (n + m) v = be_bits n (v div 2 ^ m) @ be_bits m v"
  by (induction m arbitrary: v) (auto simp: div_mult2_eq)

lemma be_bits_mod: "n \<le> k \<Longrightarrow> be_bits n (v mod 2 ^ k) = be_bits n v"
proof (induction n arbitrary: k v)
  case (Suc n)
  then obtain k' where k: "k = Suc k'" by (cases k) auto
  have "v mod 2 ^ Suc k' div 2 = v div 2 mod 2 ^ k'"
    using mod_mult2_eq [of v 2 "2 ^ k'"] by simp
  moreover have "odd (v mod 2 ^ Suc k') = odd v"
    by (simp add: dvd_mod_iff)
  ultimately show ?case using Suc.IH [of k' "v div 2"] Suc.prems k by simp
qed simp

lemma be_bits_mod_self [simp, bits]: "be_bits n (v mod 2 ^ n) = be_bits n v"
  by (simp add: be_bits_mod)

lemma be_bits_split:
  assumes "v < 2 ^ m"
  shows "be_bits (n + m) (a * 2 ^ m + v) = be_bits n a @ be_bits m v"
proof -
  have "(a * 2 ^ m + v) div 2 ^ m = a" "(a * 2 ^ m + v) mod 2 ^ m = v" using assms by simp_all
  then show ?thesis using be_bits_mod_self [of m "a * 2 ^ m + v"] by (simp add: be_bits_add)
qed

lemma be_bits_rec: "0 < n \<Longrightarrow> be_bits n v = be_bits (n - 1) (v div 2) @ [odd v]"
  by (cases n) simp_all

lemma be_bits_inj: "v < 2 ^ n \<Longrightarrow> w < 2 ^ n \<Longrightarrow> be_bits n v = be_bits n w \<Longrightarrow> v = w"
  by (metis be_val_be_bits mod_less)

lemma take_be_bits [bits]: "k \<le> n \<Longrightarrow> take k (be_bits n v) = be_bits k (v div 2 ^ (n - k))"
  using be_bits_add [of k "n - k" v] by simp

lemma drop_be_bits [bits]: "k \<le> n \<Longrightarrow> drop k (be_bits n v) = be_bits (n - k) v"
  using be_bits_add [of k "n - k" v] by simp

lemma be_bits_0 [simp, bits]: "be_bits n 0 = replicate n False"
  by (induction n) (auto simp: replicate_append_same)

lemma be_val_replicate_False [simp, bits]: "be_val (replicate n False) = 0"
  by (induction n) (simp_all add: be_val_Cons)

lemma be_val_0_iff: "be_val bs = 0 \<longleftrightarrow> bs = replicate (length bs) False"
  by (metis be_bits_0 be_bits_be_val be_val_replicate_False)

text \<open>\<open>(a << k) | b\<close> with \<open>b\<close> below \<open>2 ^ k\<close> is a sum.\<close>

lemma or_low_add:
  fixes a b :: "'a :: semiring_bit_operations"
  assumes "take_bit k b = b"
  shows "(a * 2 ^ k) OR b = a * 2 ^ k + b"
proof -
  have "\<not> bit (push_bit k a) n \<or> \<not> bit b n" for n
    by (metis assms bit_push_bit_iff bit_take_bit_iff not_le)
  then show ?thesis
    by (simp add: push_bit_eq_mult disjunctive_add [symmetric])
qed

lemma or_low_add_nat: "(b::nat) < 2 ^ k \<Longrightarrow> (a * 2 ^ k) OR b = a * 2 ^ k + b"
  by (rule or_low_add) (simp add: take_bit_nat_eq_self)

lemma or_low_add_int: "0 \<le> (b::int) \<Longrightarrow> b < 2 ^ k \<Longrightarrow> (a * 2 ^ k) OR b = a * 2 ^ k + b"
  by (rule or_low_add) (simp add: take_bit_int_eq_self)

lemma and_7_mod_8: "(n::int) AND 7 = n mod 8"
  using take_bit_eq_mask [of 3 n] by (simp add: take_bit_eq_mod mask_eq_exp_minus_1)

lemma and_not_7: "(n::int) AND NOT 7 = 8 * (n div 8)"
proof -
  have "n AND NOT (mask 3) = push_bit 3 (drop_bit 3 n)"
    by (rule bit_eqI) (auto simp: bit_simps)
  then show ?thesis by (simp add: push_bit_eq_mult drop_bit_eq_div mask_eq_exp_minus_1)
qed

text \<open>Masks and single bits of an \<open>int\<close>.\<close>

lemma int_masks:
  fixes n :: int
  shows "n AND 1 = n mod 2" "n AND 31 = n mod 32" "n AND 63 = n mod 64" "n AND 127 = n mod 128"
    "n AND 255 = n mod 256"
  using take_bit_eq_mask [of 1 n] take_bit_eq_mask [of 5 n] take_bit_eq_mask [of 6 n]
    take_bit_eq_mask [of 7 n] take_bit_eq_mask [of 8 n]
  by (simp_all add: take_bit_eq_mod mask_eq_exp_minus_1)

lemma int_bit_tests:
  fixes n :: int
  shows "n AND 32 = 0 \<longleftrightarrow> even (n div 32)" "n AND 64 = 0 \<longleftrightarrow> even (n div 64)"
    "n AND 128 = 0 \<longleftrightarrow> even (n div 128)"
  using and_exp_eq_0_iff_not_bit [of n 5] and_exp_eq_0_iff_not_bit [of n 6]
    and_exp_eq_0_iff_not_bit [of n 7]
  by (simp_all add: bit_iff_odd)

lemma unat_shift_right: "unat (drop_bit j w) = unat w div 2 ^ j"
  by (simp only: unat_drop_bit_eq) (simp only: drop_bit_eq_div)

text \<open>The octets that \<open>n\<close> bits occupy.\<close>

lemma octets_for_bits:
  assumes "k = (n + 7) div (8::nat)"
  shows "n mod 8 \<noteq> 0 \<Longrightarrow> 8 * k - n = 8 - n mod 8" and "n mod 8 = 0 \<Longrightarrow> 8 * k - n = 0"
    and "n \<le> 8 * k" and "8 * k - n < 8"
proof -
  define q r where "q = n div 8" and "r = n mod 8"
  then have qr: "n = 8 * q + r" "r < 8" by simp_all
  have "(r + 7) div 8 = (if r = 0 then 0 else 1)" using qr(2) by simp linarith
  moreover have "k = q + (r + 7) div 8" unfolding assms by (subst qr(1)) simp
  ultimately have "k = (if r = 0 then q else q + 1)" by simp
  with qr show "n mod 8 \<noteq> 0 \<Longrightarrow> 8 * k - n = 8 - n mod 8" "n mod 8 = 0 \<Longrightarrow> 8 * k - n = 0"
    "n \<le> 8 * k" "8 * k - n < 8" by (simp_all split: if_splits)
qed

section \<open>Octet strings\<close>

definition octets_bits :: "u8 list \<Rightarrow> bool list" where
  "octets_bits bs = concat (map (\<lambda>b. be_bits 8 (unat b)) bs)"

definition octets_val :: "u8 list \<Rightarrow> nat" where
  "octets_val bs = foldl (\<lambda>a b. 256 * a + unat b) 0 bs"

lemma unat_u8_less [simp]: "unat (b :: u8) < 256"
  using unsigned_less [of b] by simp

lemma octets_bits_Nil [simp, bits]: "octets_bits [] = []"
  by (simp add: octets_bits_def)

lemma octets_bits_Cons [bits]: "octets_bits (b # bs) = be_bits 8 (unat b) @ octets_bits bs"
  by (simp add: octets_bits_def)

lemma octets_bits_append [simp, bits]: "octets_bits (xs @ ys) = octets_bits xs @ octets_bits ys"
  by (simp add: octets_bits_def)

lemma length_octets_bits [simp, bits]: "length (octets_bits bs) = 8 * length bs"
  by (induction bs) (auto simp: octets_bits_Cons)

lemma octets_val_Nil [simp, bits]: "octets_val [] = 0"
  by (simp add: octets_val_def)

lemma octets_val_snoc [simp, bits]: "octets_val (bs @ [b]) = 256 * octets_val bs + unat b"
  by (simp add: octets_val_def)

lemma octets_val_append [bits]:
  "octets_val (xs @ ys) = octets_val xs * 256 ^ length ys + octets_val ys"
proof (induction ys rule: rev_induct)
  case (snoc y ys)
  have "octets_val (xs @ ys @ [y]) = 256 * octets_val (xs @ ys) + unat y"
    using octets_val_snoc [of "xs @ ys" y] by simp
  with snoc show ?case by simp
qed simp

lemma octets_val_Cons [bits]: "octets_val (b # bs) = unat b * 256 ^ length bs + octets_val bs"
  using octets_val_append [of "[b]" bs] octets_val_snoc [of "[]" b] by simp

lemma octets_val_less [bits]: "octets_val bs < 256 ^ length bs"
proof (induction bs rule: rev_induct)
  case (snoc b bs)
  have "256 * octets_val bs + unat b < 256 * (octets_val bs + 1)" by simp
  also have "\<dots> \<le> 256 * 256 ^ length bs" using snoc by (simp only: mult_le_mono2 Suc_leI Suc_eq_plus1 [symmetric])
  finally show ?case by simp
qed simp

lemma octets_bits_val: "octets_bits bs = be_bits (8 * length bs) (octets_val bs)"
proof (induction bs)
  case (Cons b bs)
  have "(256::nat) ^ length bs = 2 ^ (8 * length bs)"
    by (simp add: power_mult)
  moreover have "be_bits (8 * length bs) (unat b * 2 ^ (8 * length bs) + octets_val bs)
      = be_bits (8 * length bs) (octets_val bs)"
    by (metis be_bits_mod_self mod_mult_self3)
  moreover have "(unat b * 2 ^ (8 * length bs) + octets_val bs) div 2 ^ (8 * length bs) = unat b"
    using octets_val_less [of bs] by (simp add: power_mult)
  ultimately show ?case
    using Cons be_bits_add [of 8 "8 * length bs" "octets_val (b # bs)"]
    by (simp add: octets_bits_Cons octets_val_Cons add.commute)
qed simp

lemma be_val_octets_bits [simp, bits]: "be_val (octets_bits bs) = octets_val bs"
  using octets_val_less [of bs] by (simp add: octets_bits_val power_mult)

lemma octets_bits_inj: "octets_bits xs = octets_bits ys \<Longrightarrow> xs = ys"
proof (induction xs arbitrary: ys)
  case Nil
  then show ?case by (cases ys) (auto simp: octets_bits_Cons)
next
  case (Cons x xs)
  then obtain y ys' where ys: "ys = y # ys'"
    by (cases ys) (auto simp: octets_bits_Cons)
  with Cons.prems have "be_bits 8 (unat x) = be_bits 8 (unat y)"
    and "octets_bits xs = octets_bits ys'"
    by (simp_all add: octets_bits_Cons)
  moreover have "unat x = unat y"
    using be_bits_inj [of "unat x" 8 "unat y"] \<open>be_bits 8 (unat x) = be_bits 8 (unat y)\<close> by simp
  ultimately show ?case using Cons.IH ys by (simp add: unsigned_word_eqI)
qed

lemma take_octets_bits: "take (8 * k) (octets_bits bs) = octets_bits (take k bs)"
proof (induction bs arbitrary: k)
  case (Cons b bs)
  then show ?case by (cases k) (auto simp: octets_bits_Cons)
qed simp

lemma drop_octets_bits: "drop (8 * k) (octets_bits bs) = octets_bits (drop k bs)"
proof (induction bs arbitrary: k)
  case (Cons b bs)
  then show ?case by (cases k) (auto simp: octets_bits_Cons)
qed simp

text \<open>The bits of a run of octets, read as a number: a shift and a mask of its value.\<close>

lemma be_val_slice:
  assumes "off + n \<le> 8 * length bs"
  shows "be_val (take n (drop off (octets_bits bs))) =
    octets_val bs div 2 ^ (8 * length bs - off - n) mod 2 ^ n"
  using assms by (simp add: octets_bits_val take_be_bits drop_be_bits)


text \<open>The octets of a number, most significant first: what every shift-and-store loop writes.\<close>

primrec be_octets :: "nat \<Rightarrow> nat \<Rightarrow> u8 list" where
  "be_octets 0 v = []"
| "be_octets (Suc n) v = be_octets n (v div 256) @ [of_nat v]"

lemma length_be_octets [simp, bits]: "length (be_octets n v) = n"
  by (induction n arbitrary: v) auto

lemma octets_bits_be_octets [simp, bits]: "octets_bits (be_octets n v) = be_bits (8 * n) v"
proof (induction n arbitrary: v)
  case (Suc n)
  have "be_bits (8 * Suc n) v = be_bits (8 * n + 8) v" by (simp add: add.commute)
  then show ?case
    by (simp only: be_bits_add be_octets.simps octets_bits_append Suc octets_bits_Cons octets_bits_Nil
        append_Nil2) (simp add: unsigned_of_nat take_bit_eq_mod be_bits_mod [of 8 8 v, simplified])
qed simp

lemma octets_val_be_octets [simp, bits]: "octets_val (be_octets n v) = v mod 256 ^ n"
  using be_val_octets_bits [of "be_octets n v"] be_val_be_bits [of "8 * n" v]
  by (simp add: power_mult)

lemma be_octets_octets_val [simp, bits]: "be_octets (length bs) (octets_val bs) = bs"
  by (rule octets_bits_inj) (simp add: octets_bits_val [of bs])

lemma be_octets_add: "be_octets (n + m) v = be_octets n (v div 256 ^ m) @ be_octets m v"
  by (induction m arbitrary: v) (auto simp: div_mult2_eq)

lemma be_octets_rec: "0 < n \<Longrightarrow> be_octets n s = be_octets (n - 1) (s div 256) @ [of_nat s]"
  by (cases n) simp_all

lemma be_octets_numerals:
  "be_octets 1 s = [of_nat s]"
  "be_octets 2 s = [of_nat (s div 256), of_nat s]"
  "be_octets 3 s = [of_nat (s div 65536), of_nat (s div 256), of_nat s]"
  "be_octets 4 s = [of_nat (s div 16777216), of_nat (s div 65536), of_nat (s div 256), of_nat s]"
  by (simp_all add: be_octets_rec div_mult2_eq [symmetric])


lemma be_octets_eqI: "length bs = n \<Longrightarrow> octets_val bs = v \<Longrightarrow> be_octets n v = bs"
  using be_octets_octets_val by blast

lemma top_bit_u8: "(c :: u8) AND 0x80 = 0 \<longleftrightarrow> unat c < 128" "drop_bit 7 (c :: u8) = 0 \<longleftrightarrow> unat c < 128"
proof -
  have b: "bit c 7 \<longleftrightarrow> 128 \<le> unat c"
  proof -
    have "bit (unat c) 7 = bit c 7" by (simp add: bit_unsigned_iff)
    then have "bit c 7 \<longleftrightarrow> odd (unat c div 2 ^ 7)" by (simp add: bit_iff_odd)
    moreover have "unat c div 128 < 2" by (rule less_mult_imp_div_less) simp
    ultimately show ?thesis by (cases "128 \<le> unat c") (auto simp: div_less le_div_geq)
  qed
  show "c AND 0x80 = 0 \<longleftrightarrow> unat c < 128"
    using and_exp_eq_0_iff_not_bit [of c 7] b by (simp add: not_le)
  have "drop_bit 7 c = 0 \<longleftrightarrow> unat (drop_bit 7 c) = 0" by (simp only: unsigned_eq_0_iff)
  also have "\<dots> \<longleftrightarrow> unat c < 128" by (simp only: unat_shift_right div_eq_0_iff) simp
  finally show "drop_bit 7 c = 0 \<longleftrightarrow> unat c < 128" .
qed

end
