(* ===== verification/Bit_Data.thy ===== *)
theory Bit_Data
  imports Prelude
begin

unbundle bit_operations_syntax

text \<open>
  The bit streams of \<open>skeletons/asn_bit_data.c\<close>: the reader \<open>asn_bit_data_t\<close> and the
  buffered writer \<open>asn_bit_outp_t\<close>. The reader is abstracted to the list of bits it still
  holds, the writer to the list of bits handed to it so far; every operation is a list
  operation under these abstractions and never leaves the objects it points into.
\<close>

section \<open>Reading\<close>

text \<open>
  \<open>asn_bit_data_t\<close>. A pointer is an object and an offset: \<open>pd_mem\<close> is the octet object,
  \<open>pd_buffer\<close> the offset of \<open>buffer\<close> in it. The \<open>refill\<close> callback is only ever installed
  by \<open>uper_open_type_get_complex\<close>, which nothing calls (\<open>CC_NOTUSED\<close>); every stream that the
  code creates has a null \<open>refill\<close>, and so have the streams here.
\<close>

record bit_data =
  pd_mem :: "u8 list"
  pd_buffer :: nat
  pd_nboff :: nat
  pd_nbits :: nat
  pd_moved :: u64

definition asn_bit_data_new_contiguous :: "u8 list \<Rightarrow> nat \<Rightarrow> bit_data option" where
  "asn_bit_data_new_contiguous data size_bits =
     (let size_bytes = (size_bits + 7) div 8 in
      if size_bytes \<le> length data
      then Some \<lparr>pd_mem = take size_bytes data @ [0], pd_buffer = 0, pd_nboff = 0,
                 pd_nbits = size_bits, pd_moved = 0\<rparr>
      else None)"

text \<open>The assertion of the first branch repeats the test that led there, so it always holds.\<close>

definition asn_get_undo :: "bit_data \<Rightarrow> int \<Rightarrow> bit_data" where
  "asn_get_undo pd n =
     (if int (pd_nboff pd) < n then pd
      else pd\<lparr>pd_nboff := nat (int (pd_nboff pd) - n), pd_moved := pd_moved pd - of_int n\<rparr>)"

text \<open>The step that \<open>asn_get_few_bits\<close> calls "Normalize position indicator".\<close>

definition pd_normalize :: "bit_data \<Rightarrow> bit_data" where
  "pd_normalize pd =
     (if 8 \<le> pd_nboff pd
      then pd\<lparr>pd_buffer := pd_buffer pd + drop_bit 3 (pd_nboff pd),
              pd_nbits := pd_nbits pd - 8 * drop_bit 3 (pd_nboff pd),
              pd_nboff := take_bit 3 (pd_nboff pd)\<rparr>
      else pd)"

lemma pd_normalize_nboff [simp]: "pd_nboff (pd_normalize pd) < 8"
  by (simp add: pd_normalize_def take_bit_eq_mod)

function asn_get_few_bits :: "bit_data \<Rightarrow> int \<Rightarrow> (int \<times> bit_data) option" where
  "asn_get_few_bits pd0 n =
     (if n < 0 then Some (-1, pd0)
      else if int (pd_nbits pd0) - int (pd_nboff pd0) < n then Some (-1, pd0)
      else
        let pdn = pd_normalize pd0;
            pd = pdn\<lparr>pd_moved := pd_moved pdn + of_int n, pd_nboff := pd_nboff pdn + nat n\<rparr>;
            off = pd_nboff pd;
            buf = (\<lambda>i. map_option (\<lambda>b. ucast b :: u32) (rd (pd_mem pd) (pd_buffer pd + i)));
            finish = (\<lambda>accum :: u32. (sint (accum AND (push_bit (nat n) 1 - 1)), pd))
        in if off \<le> 8 then
             (if n \<noteq> 0 then do { b0 \<leftarrow> buf 0; Some (finish (drop_bit (8 - off) b0)) }
              else Some (finish 0))
           else if off \<le> 16 then do {
             b0 \<leftarrow> buf 0; b1 \<leftarrow> buf 1;
             Some (finish (drop_bit (16 - off) (push_bit 8 b0 + b1))) }
           else if off \<le> 24 then do {
             b0 \<leftarrow> buf 0; b1 \<leftarrow> buf 1; b2 \<leftarrow> buf 2;
             Some (finish (drop_bit (24 - off) (push_bit 16 b0 + push_bit 8 b1 + b2))) }
           else if off \<le> 31 then do {
             b0 \<leftarrow> buf 0; b1 \<leftarrow> buf 1; b2 \<leftarrow> buf 2; b3 \<leftarrow> buf 3;
             Some (finish (drop_bit (32 - off)
               (push_bit 24 b0 + push_bit 16 b1 + push_bit 8 b2 + b3))) }
           else if n \<le> 31 then
             (case asn_get_few_bits (asn_get_undo pd n) (n - 24) of
                None \<Rightarrow> None
              | Some (hi, tpd) \<Rightarrow>
                 (case asn_get_few_bits tpd 24 of
                    None \<Rightarrow> None
                  | Some (lo, tpd) \<Rightarrow>
                      Some (finish (of_int (hi * 2 ^ 24) OR of_int lo))))
           else Some (-1, asn_get_undo pd n))"
  by pat_completeness auto
termination
proof (relation "measure (\<lambda>(pd, n). nat n)", goal_cases)
  case (2 pd0 n)
  then show ?case using pd_normalize_nboff [of pd0]
    by (auto simp: not_le simp del: pd_normalize_nboff)
next
  case (3 pd0 n)
  then show ?case using pd_normalize_nboff [of pd0]
    by (auto simp: not_le simp del: pd_normalize_nboff)
qed auto

declare asn_get_few_bits.simps [simp del]

text \<open>\<open>*dst++ = value >> k\<close>: the octet of an \<open>int\<close> at a bit position.\<close>

definition octet_at :: "int \<Rightarrow> nat \<Rightarrow> u8" where
  "octet_at v k = of_int (drop_bit k v)"

text \<open>The last round of the loop, fewer than 24 bits: \<open>value\<close> is moved to the left of its octets.\<close>

definition get_many_bits_tail :: "int \<Rightarrow> int \<Rightarrow> u8 list" where
  "get_many_bits_tail value0 n =
     (let r = n AND 7;
          value = (if r \<noteq> 0 then push_bit (nat (8 - r)) value0 else value0);
          m = (if r \<noteq> 0 then n + (8 - r) else n)
      in (if r \<noteq> 0 \<and> 24 < m then [octet_at value 24] else [])
         @ (if 16 < m then [octet_at value 16] else [])
         @ (if 8 < m then [octet_at value 8] else [])
         @ [octet_at value 0])"

text \<open>
  The loop of \<open>asn_get_many_bits\<close>; the octets stored through \<open>dst\<close> are returned in the
  order of their addresses, those already stored included when the stream starves.
\<close>

function asn_get_many_bits_loop :: "bit_data \<Rightarrow> u8 list \<Rightarrow> int \<Rightarrow> (int \<times> u8 list \<times> bit_data) option" where
  "asn_get_many_bits_loop pd dst n =
     (if n = 0 then Some (0, dst, pd)
      else if 24 \<le> n then
        (case asn_get_few_bits pd 24 of
           None \<Rightarrow> None
         | Some (value, pd) \<Rightarrow>
             if value < 0 then Some (-1, dst, pd)
             else asn_get_many_bits_loop pd
                    (dst @ [octet_at value 16, octet_at value 8, octet_at value 0]) (n - 24))
      else
        (case asn_get_few_bits pd n of
           None \<Rightarrow> None
         | Some (value, pd) \<Rightarrow>
             if value < 0 then Some (-1, dst, pd)
             else Some (0, dst @ get_many_bits_tail value n, pd)))"
  by pat_completeness auto
termination
  by (relation "measure (\<lambda>(pd, dst, n). nat n)") auto

declare asn_get_many_bits_loop.simps [simp del]

definition asn_get_many_bits :: "bit_data \<Rightarrow> bool \<Rightarrow> int \<Rightarrow> (int \<times> u8 list \<times> bit_data) option" where
  "asn_get_many_bits pd alright n =
     (if alright \<and> n AND 7 \<noteq> 0 then
        (case asn_get_few_bits pd (n AND 7) of
           None \<Rightarrow> None
         | Some (value, pd) \<Rightarrow>
             if value < 0 then Some (-1, [], pd)
             else asn_get_many_bits_loop pd [octet_at value 0] (n AND NOT 7))
      else asn_get_many_bits_loop pd [] n)"

subsection \<open>The reader as a list of bits\<close>

definition pd_inv :: "bit_data \<Rightarrow> bool" where
  "pd_inv pd \<longleftrightarrow> pd_nboff pd \<le> pd_nbits pd \<and>
     8 * pd_buffer pd + pd_nbits pd \<le> 8 * length (pd_mem pd)"

definition pd_bits :: "bit_data \<Rightarrow> bool list" where
  "pd_bits pd = take (pd_nbits pd - pd_nboff pd)
     (drop (8 * pd_buffer pd + pd_nboff pd) (octets_bits (pd_mem pd)))"

lemma length_pd_bits: "pd_inv pd \<Longrightarrow> length (pd_bits pd) = pd_nbits pd - pd_nboff pd"
  by (auto simp: pd_bits_def pd_inv_def min_def)

lemma pd_normalize_inv [simp]: "pd_inv pd \<Longrightarrow> pd_inv (pd_normalize pd)"
  by (auto simp: pd_normalize_def pd_inv_def drop_bit_eq_div take_bit_eq_mod)
     (use mult_div_mod_eq [of 8 "pd_nboff pd"] in linarith)+


lemma normalize_arith: "8 * (b div 8) + b mod 8 = (b::nat)"
  by simp

lemma pd_normalize_bits [simp]: "pd_bits (pd_normalize pd) = pd_bits pd"
  by (auto simp: pd_normalize_def pd_bits_def drop_bit_eq_div take_bit_eq_mod algebra_simps
      normalize_arith)

lemma pd_bits_slice:
  assumes "off + n \<le> 8 * k" "bp + k \<le> length m"
  shows "take n (drop (8 * bp + off) (octets_bits m)) = take n (drop off (octets_bits (take k (drop bp m))))"
proof -
  have "drop (8 * bp + off) (octets_bits m) = drop off (octets_bits (drop bp m))"
    by (metis add.commute drop_drop drop_octets_bits)
  moreover have "take n (drop off (octets_bits (take k (drop bp m)))) = take n (drop off (octets_bits (drop bp m)))"
    using assms(1) by (simp add: take_octets_bits [symmetric] drop_take min_def)
  ultimately show ?thesis by simp
qed

lemma take_drop_rd:
  "bp + 1 \<le> length m \<Longrightarrow> take 1 (drop bp m) = [m ! bp]"
  "bp + 2 \<le> length m \<Longrightarrow> take 2 (drop bp m) = [m ! bp, m ! (bp + 1)]"
  "bp + 3 \<le> length m \<Longrightarrow> take 3 (drop bp m) = [m ! bp, m ! (bp + 1), m ! (bp + 2)]"
  "bp + 4 \<le> length m \<Longrightarrow> take 4 (drop bp m) = [m ! bp, m ! (bp + 1), m ! (bp + 2), m ! (bp + 3)]"
  by (auto simp: list_eq_iff_nth_eq less_Suc_eq nth_Cons' numeral_eq_Suc)

lemma of_nat_octets_val:
  "(ucast b0 :: u32) = of_nat (octets_val [b0])"
  "(push_bit 8 (ucast b0) + ucast b1 :: u32) = of_nat (octets_val [b0, b1])"
  "(push_bit 16 (ucast b0) + push_bit 8 (ucast b1) + ucast b2 :: u32) = of_nat (octets_val [b0, b1, b2])"
  "(push_bit 24 (ucast b0) + push_bit 16 (ucast b1) + push_bit 8 (ucast b2) + ucast b3 :: u32)
     = of_nat (octets_val [b0, b1, b2, b3])"
  by (simp_all add: octets_val_def push_bit_eq_mult unsigned_ucast_eq)

lemma sint_mask31:
  assumes "n \<le> 31"
  shows "sint ((x :: u32) AND (push_bit n 1 - 1)) = int (unat x mod 2 ^ n)"
proof -
  have m: "(push_bit n 1 - 1 :: u32) = mask n"
    by (simp add: mask_eq_exp_minus_1)
  have e: "x AND mask n = take_bit n x" by (simp add: take_bit_eq_mask)
  have u: "unat (take_bit n x) = unat x mod 2 ^ n"
    by (simp only: unsigned_take_bit_eq) (simp only: take_bit_eq_mod)
  have "unat x mod 2 ^ n < 2 ^ n" by simp
  also have "(2::nat) ^ n \<le> 2 ^ 31" using power_increasing [OF assms, of "2::nat"] by simp
  finally have "uint (take_bit n x) < 2 ^ 31"
    by (simp add: uint_nat u)
  moreover have "- (2 ^ 31) \<le> uint (take_bit n x)"
    by (rule order_trans [of _ 0]) simp_all
  ultimately have "signed_take_bit 31 (uint (take_bit n x)) = uint (take_bit n x)"
    by (intro signed_take_bit_int_eq_self)
  then have "sint (take_bit n x) = uint (take_bit n x)"
    by (simp add: sint_uint)
  with u show ?thesis by (simp only: m e) (simp add: uint_nat)
qed


lemma word_or_nat:
  "(of_int (int a * 2 ^ 24) OR of_int (int b) :: u32) = of_nat (a * 2 ^ 24 OR b)"
  by (simp add: of_nat_or_eq)

lemma sint_accum:
  assumes "off = o' + n" "off \<le> 8 * length bs" "length bs \<le> 4" "n \<le> 31"
  shows "sint (drop_bit (8 * length bs - off) (of_nat (octets_val bs) :: u32) AND (push_bit n 1 - 1))
    = int (be_val (take n (drop o' (octets_bits bs))))"
proof -
  have "(256::nat) ^ length bs \<le> 256 ^ 4"
    using assms(3) by (intro power_increasing) auto
  then have "octets_val bs < 2 ^ 32"
    using octets_val_less [of bs] by simp
  then have "unat (drop_bit (8 * length bs - off) (of_nat (octets_val bs) :: u32))
      = octets_val bs div 2 ^ (8 * length bs - off)"
    by (simp only: unat_drop_bit_eq unsigned_of_nat) (simp add: take_bit_nat_eq_self drop_bit_eq_div)
  then show ?thesis
    using assms by (simp add: sint_mask31 be_val_slice diff_diff_left del: push_bit_of_1)
qed

text \<open>The non-recursive branches: at most 31 bits including the offset into the first octet.\<close>

lemma get_few_bits_small:
  assumes inv: "pd_inv pd" and n: "n \<le> length (pd_bits pd)"
    and small: "pd_nboff (pd_normalize pd) + n \<le> 31"
  shows "asn_get_few_bits pd (int n) = Some (int (be_val (take n (pd_bits pd))),
    (pd_normalize pd)\<lparr>pd_moved := pd_moved pd + of_nat n,
                     pd_nboff := pd_nboff (pd_normalize pd) + n\<rparr>)"
proof -
  define q where "q = pd_normalize pd"
  define o' where "o' = pd_nboff q"
  define m where "m = pd_mem q"
  define bp where "bp = pd_buffer q"
  have q: "pd_inv q" "pd_bits q = pd_bits pd" "o' < 8"
    using inv by (simp_all add: q_def o'_def)
  have ni: "n \<le> pd_nbits q - o'"
    using n length_pd_bits [OF q(1)] by (simp add: q(2) o'_def)
  then have room: "8 * bp + (o' + n) \<le> 8 * length m \<or> n = 0"
    using q(1) by (auto simp: pd_inv_def bp_def m_def o'_def)
  have notbig: "\<not> int (pd_nbits pd) - int (pd_nboff pd) < int n"
    using n length_pd_bits [OF inv] inv by (auto simp: pd_inv_def)
  have moved: "pd_moved q = pd_moved pd"
    by (simp add: q_def pd_normalize_def)
  have bits_n: "take n (pd_bits pd) = take n (drop (8 * bp + o') (octets_bits m))"
    using ni by (subst q(2) [symmetric]) (simp add: pd_bits_def bp_def o'_def m_def min_def)
  have val: "sint (drop_bit (8 * length bs - (o' + n)) (of_nat (octets_val bs) :: u32) AND (push_bit n 1 - 1))
      = int (be_val (take n (pd_bits pd)))"
    if "bs = take k (drop bp m)" "length bs = k" "k \<le> 4" "o' + n \<le> 8 * k" for bs k
  proof -
    have bpk: "bp + k \<le> length m \<or> k = 0" using that by auto
    have "take n (pd_bits pd) = take n (drop o' (octets_bits bs))"
      using that bpk bits_n pd_bits_slice [of o' n k bp m] by auto
    with that small show ?thesis
      by (subst sint_accum [where o' = o']) (auto simp: q_def o'_def)
  qed
  define finish where "finish = (\<lambda>accum :: u32. (sint (accum AND (push_bit n 1 - 1)),
    q\<lparr>pd_moved := pd_moved q + of_nat n, pd_nboff := o' + n\<rparr>))"
  define buf where "buf = (\<lambda>i. map_option (\<lambda>b. ucast b :: u32) (rd m (bp + i)))"
  have eq: "asn_get_few_bits pd (int n) =
      (if o' + n \<le> 8 then
         (if n \<noteq> 0 then do { b0 \<leftarrow> buf 0; Some (finish (drop_bit (8 - (o' + n)) b0)) } else Some (finish 0))
       else if o' + n \<le> 16 then do { b0 \<leftarrow> buf 0; b1 \<leftarrow> buf 1;
         Some (finish (drop_bit (16 - (o' + n)) (push_bit 8 b0 + b1))) }
       else if o' + n \<le> 24 then do { b0 \<leftarrow> buf 0; b1 \<leftarrow> buf 1; b2 \<leftarrow> buf 2;
         Some (finish (drop_bit (24 - (o' + n)) (push_bit 16 b0 + push_bit 8 b1 + b2))) }
       else do { b0 \<leftarrow> buf 0; b1 \<leftarrow> buf 1; b2 \<leftarrow> buf 2; b3 \<leftarrow> buf 3;
         Some (finish (drop_bit (32 - (o' + n))
           (push_bit 24 b0 + push_bit 16 b1 + push_bit 8 b2 + b3))) })"
    using notbig small
    by (subst asn_get_few_bits.simps)
       (simp add: Let_def q_def o'_def m_def bp_def finish_def buf_def)
  have fin: "finish (drop_bit (8 * k - (o' + n)) (of_nat (octets_val (take k (drop bp m)))))
      = (int (be_val (take n (pd_bits pd))), q\<lparr>pd_moved := pd_moved pd + of_nat n, pd_nboff := o' + n\<rparr>)"
    if "bp + k \<le> length m" "k \<le> 4" "o' + n \<le> 8 * k" for k
    using val [of "take k (drop bp m)" k] that moved by (simp add: finish_def)
  have "asn_get_few_bits pd (int n) = Some (int (be_val (take n (pd_bits pd))),
      q\<lparr>pd_moved := pd_moved pd + of_nat n, pd_nboff := o' + n\<rparr>)"
  proof (cases "n = 0")
    case True
    with q(3) moved eq show ?thesis by (simp add: finish_def)
  next
    case False
    with room have r: "8 * bp + (o' + n) \<le> 8 * length m" by simp
    consider "o' + n \<le> 8" | "8 < o' + n" "o' + n \<le> 16" | "16 < o' + n" "o' + n \<le> 24"
      | "24 < o' + n" "o' + n \<le> 31" using small by (fastforce simp: o'_def q_def)
    then show ?thesis
    proof cases
      case 1
      with r False fin [of 1] show ?thesis
        by (simp add: eq buf_def take_drop_rd(1) [unfolded One_nat_def] of_nat_octets_val(1))
    next
      case 2
      with r fin [of 2] show ?thesis
        by (simp add: eq buf_def take_drop_rd of_nat_octets_val(2))
    next
      case 3
      with r fin [of 3] show ?thesis
        by (simp add: eq buf_def take_drop_rd of_nat_octets_val(3))
    next
      case 4
      with r fin [of 4] show ?thesis
        by (simp add: eq buf_def take_drop_rd of_nat_octets_val(4))
    qed
  qed
  then show ?thesis by (simp add: q_def o'_def)
qed


text \<open>Moving the position over bits that are there.\<close>

lemma pd_advance:
  assumes "pd_inv pd" "n \<le> length (pd_bits pd)"
  shows "pd_inv (pd\<lparr>pd_moved := mv, pd_nboff := pd_nboff pd + n\<rparr>)"
    and "pd_bits (pd\<lparr>pd_moved := mv, pd_nboff := pd_nboff pd + n\<rparr>) = drop n (pd_bits pd)"
  using assms length_pd_bits [OF assms(1)]
  by (auto simp: pd_inv_def pd_bits_def drop_take algebra_simps)

lemma pd_normalize_advance:
  assumes "pd_inv pd" "n \<le> length (pd_bits pd)"
  shows "pd_inv ((pd_normalize pd)\<lparr>pd_moved := mv, pd_nboff := pd_nboff (pd_normalize pd) + n\<rparr>)"
    and "pd_bits ((pd_normalize pd)\<lparr>pd_moved := mv, pd_nboff := pd_nboff (pd_normalize pd) + n\<rparr>)
      = drop n (pd_bits pd)"
  using pd_advance [of "pd_normalize pd" n mv] assms by simp_all

text \<open>
  The position after \<open>n\<close> bits: the normalised start, moved. The whole of
  \<open>asn_get_few_bits\<close>, the recursive branch included, is this move and the value of the bits.
\<close>

definition pd_skip :: "nat \<Rightarrow> bit_data \<Rightarrow> bit_data" where
  "pd_skip n pd = (pd_normalize pd)\<lparr>pd_moved := pd_moved pd + of_nat n,
                                   pd_nboff := pd_nboff (pd_normalize pd) + n\<rparr>"

lemma pd_skip_inv [simp]: "pd_inv pd \<Longrightarrow> n \<le> length (pd_bits pd) \<Longrightarrow> pd_inv (pd_skip n pd)"
  by (simp add: pd_skip_def pd_normalize_advance)

lemma pd_skip_bits [simp]:
  "pd_inv pd \<Longrightarrow> n \<le> length (pd_bits pd) \<Longrightarrow> pd_bits (pd_skip n pd) = drop n (pd_bits pd)"
  by (simp add: pd_skip_def pd_normalize_advance)

theorem get_few_bits_value:
  assumes "pd_inv pd" "n \<le> length (pd_bits pd)" "n \<le> 31"
  shows "asn_get_few_bits pd (int n) = Some (int (be_val (take n (pd_bits pd))), pd_skip n pd)"
proof (cases "pd_nboff (pd_normalize pd) + n \<le> 31")
  case True
  with assms show ?thesis by (simp add: get_few_bits_small pd_skip_def)
next
  case False
  then have big: "25 \<le> n" using pd_normalize_nboff [of pd] by linarith
  define q where "q = pd_normalize pd"
  have qn: "pd_normalize q = q" "pd_moved q = pd_moved pd" "pd_nboff q < 8" "31 < pd_nboff q + n"
    using False by (auto simp: q_def) (auto simp: pd_normalize_def take_bit_eq_mod)
  have q: "pd_inv q" "pd_bits q = pd_bits pd" using assms by (simp_all add: q_def)
  have hi: "asn_get_few_bits q (int (n - 24)) =
      Some (int (be_val (take (n - 24) (pd_bits pd))), pd_skip (n - 24) q)"
    using assms q qn by (subst get_few_bits_small) (auto simp: pd_skip_def)
  have lo: "asn_get_few_bits (pd_skip (n - 24) q) (int 24) =
      Some (int (be_val (take 24 (drop (n - 24) (pd_bits pd)))), pd_skip 24 (pd_skip (n - 24) q))"
    using assms q qn big pd_normalize_nboff [of "pd_skip (n - 24) q"]
    by (subst get_few_bits_small) (auto simp: pd_skip_def [of 24] simp del: pd_normalize_nboff)
  have undo: "asn_get_undo (q\<lparr>pd_moved := pd_moved q + of_nat n, pd_nboff := pd_nboff q + n\<rparr>) (int n) = q"
    by (simp add: asn_get_undo_def)
  define v where "v = be_val (take n (pd_bits pd))"
  have vsum: "be_val (take (n - 24) (pd_bits pd)) * 2 ^ 24 + be_val (take 24 (drop (n - 24) (pd_bits pd))) = v"
  proof -
    have "take n (pd_bits pd) = take (n - 24) (pd_bits pd) @ take 24 (drop (n - 24) (pd_bits pd))"
      using take_add [of "n - 24" 24 "pd_bits pd"] big by simp
    then show ?thesis using assms big by (simp add: v_def be_val_append)
  qed
  have low: "be_val (take 24 (drop (n - 24) (pd_bits pd))) < 2 ^ 24"
    using be_val_less [of "take 24 (drop (n - 24) (pd_bits pd))"] assms big by simp
  have accum: "(of_int (int (be_val (take (n - 24) (pd_bits pd))) * 2 ^ 24) OR
      of_int (int (be_val (take 24 (drop (n - 24) (pd_bits pd))))) :: u32) = of_nat v"
    using or_low_add_nat [OF low] vsum by (simp only: word_or_nat)
  have "v < 2 ^ n" using be_val_less [of "take n (pd_bits pd)"] assms by (simp add: v_def)
  moreover have "(2::nat) ^ n \<le> 2 ^ 31" using power_increasing [OF assms(3), of "2::nat"] by simp
  ultimately have val: "sint ((of_nat v :: u32) AND (push_bit n 1 - 1)) = int v"
    using assms(3) by (simp add: sint_mask31 unsigned_of_nat take_bit_nat_eq_self del: push_bit_of_1)
  have notbig: "\<not> int (pd_nbits pd) - int (pd_nboff pd) < int n"
    using assms length_pd_bits [OF assms(1)] by (auto simp: pd_inv_def)
  define pd1 where "pd1 = q\<lparr>pd_moved := pd_moved q + of_nat n, pd_nboff := pd_nboff q + n\<rparr>"
  define hi_v where "hi_v = int (be_val (take (n - 24) (pd_bits pd)))"
  define lo_v where "lo_v = int (be_val (take 24 (drop (n - 24) (pd_bits pd))))"
  have "asn_get_few_bits pd (int n) =
     (case asn_get_few_bits (asn_get_undo pd1 (int n)) (int n - 24) of
        None \<Rightarrow> None
      | Some (hi, tpd) \<Rightarrow>
         (case asn_get_few_bits tpd 24 of
            None \<Rightarrow> None
          | Some (lo, tpd) \<Rightarrow>
              Some (sint ((of_int (hi * 2 ^ 24) OR of_int lo :: u32) AND (push_bit n 1 - 1)), pd1)))"
    using notbig assms(3) qn(4) unfolding pd1_def q_def
    by (subst asn_get_few_bits.simps) (simp add: Let_def del: push_bit_of_1)
  also have "\<dots> = (case asn_get_few_bits (pd_skip (n - 24) q) 24 of None \<Rightarrow> None
      | Some (lo, tpd) \<Rightarrow> Some (sint ((of_int (hi_v * 2 ^ 24) OR of_int lo :: u32) AND (push_bit n 1 - 1)), pd1))"
    using hi undo big unfolding pd1_def hi_v_def by (simp add: of_nat_diff del: push_bit_of_1)
  also have "\<dots> = Some (sint ((of_int (hi_v * 2 ^ 24) OR of_int lo_v :: u32) AND (push_bit n 1 - 1)), pd1)"
    using lo by (simp add: lo_v_def del: push_bit_of_1)
  also have "\<dots> = Some (int v, pd1)"
    using accum val by (simp only: hi_v_def lo_v_def)
  also have "pd1 = pd_skip n pd"
    using qn(2) by (simp add: pd1_def pd_skip_def q_def)
  finally show ?thesis by (simp only: v_def)
qed


theorem get_few_bits_starved:
  assumes "pd_inv pd" "length (pd_bits pd) < n"
  shows "asn_get_few_bits pd (int n) = Some (-1, pd)"
  using assms length_pd_bits [OF assms(1)]
  by (subst asn_get_few_bits.simps) (auto simp: pd_inv_def)

lemma get_few_bits_negative: "n < 0 \<Longrightarrow> asn_get_few_bits pd n = Some (-1, pd)"
  by (subst asn_get_few_bits.simps) simp

text \<open>More than 31 bits at a time are refused, whether or not the stream holds them.\<close>

lemma get_few_bits_too_many:
  assumes "pd_inv pd" "32 \<le> n" "n \<le> length (pd_bits pd)"
  shows "asn_get_few_bits pd (int n) = Some (-1, pd_skip 0 pd)"
proof -
  have "\<not> int (pd_nbits pd) - int (pd_nboff pd) < int n"
    using assms length_pd_bits [OF assms(1)] by (auto simp: pd_inv_def)
  with assms(2) show ?thesis
    by (subst asn_get_few_bits.simps)
       (simp add: Let_def asn_get_undo_def pd_skip_def, simp add: pd_normalize_def)
qed

section \<open>Reading as a relation\<close>

text \<open>
  \<open>pd_consumes pd bs pd'\<close>: the stream \<open>pd\<close> starts with the bits \<open>bs\<close>, and \<open>pd'\<close> is the same
  stream after them. The position (in bits from the start of the object) decides the
  alignment in the aligned PER encodings.
\<close>

definition pd_pos :: "bit_data \<Rightarrow> nat" where
  "pd_pos pd = 8 * pd_buffer pd + pd_nboff pd"

definition pd_end :: "bit_data \<Rightarrow> nat" where
  "pd_end pd = 8 * pd_buffer pd + pd_nbits pd"

definition pd_consumes :: "bit_data \<Rightarrow> bool list \<Rightarrow> bit_data \<Rightarrow> bool" where
  "pd_consumes pd bs pd' \<longleftrightarrow> pd_inv pd \<and> pd_inv pd' \<and> pd_bits pd = bs @ pd_bits pd' \<and>
     pd_pos pd' = pd_pos pd + length bs \<and> pd_mem pd' = pd_mem pd \<and> pd_end pd' = pd_end pd \<and>
     pd_moved pd' = pd_moved pd + of_nat (length bs)"

lemma pd_consumes_trans:
  "pd_consumes pd xs pd1 \<Longrightarrow> pd_consumes pd1 ys pd2 \<Longrightarrow> pd_consumes pd (xs @ ys) pd2"
  by (simp add: pd_consumes_def)

lemma pd_consumes_refl [simp]: "pd_consumes pd [] pd \<longleftrightarrow> pd_inv pd"
  by (simp add: pd_consumes_def)

lemma pd_consumesD:
  assumes "pd_consumes pd bs pd'"
  shows "pd_inv pd" "pd_inv pd'" "pd_bits pd = bs @ pd_bits pd'" "pd_pos pd' = pd_pos pd + length bs"
  using assms by (simp_all add: pd_consumes_def)

lemma pd_normalize_pos [simp]: "pd_pos (pd_normalize pd) = pd_pos pd"
  using mult_div_mod_eq [of 8 "pd_nboff pd"]
  by (simp add: pd_normalize_def pd_pos_def drop_bit_eq_div take_bit_eq_mod algebra_simps)

lemma pd_normalize_end [simp]: "pd_inv pd \<Longrightarrow> pd_end (pd_normalize pd) = pd_end pd"
  using mult_div_mod_eq [of 8 "pd_nboff pd"]
  by (auto simp add: pd_normalize_def pd_end_def pd_inv_def drop_bit_eq_div take_bit_eq_mod algebra_simps)

lemma pd_skip_fields:
  "pd_pos (pd_skip n pd) = pd_pos pd + n" "pd_mem (pd_skip n pd) = pd_mem pd"
  "pd_moved (pd_skip n pd) = pd_moved pd + of_nat n"
  using pd_normalize_pos [of pd]
  by (simp_all add: pd_skip_def pd_pos_def) (simp add: pd_normalize_def)

lemma pd_skip_end: "pd_inv pd \<Longrightarrow> pd_end (pd_skip n pd) = pd_end pd"
  using pd_normalize_end [of pd] by (simp add: pd_skip_def pd_end_def)

lemma pd_skip_consumes:
  assumes "pd_inv pd" "n \<le> length (pd_bits pd)"
  shows "pd_consumes pd (take n (pd_bits pd)) (pd_skip n pd)"
  using assms by (simp add: pd_consumes_def pd_skip_fields pd_skip_end)

text \<open>The law of the reader in the form that its callers use.\<close>

theorem get_few_bits_consumes:
  assumes "pd_inv pd" "n \<le> 31"
  shows "asn_get_few_bits pd (int n) =
    (if n \<le> length (pd_bits pd) then Some (int (be_val (take n (pd_bits pd))), pd_skip n pd)
     else Some (-1, pd))"
  using assms get_few_bits_value get_few_bits_starved by (simp add: not_le)

lemma get_few_bits_be:
  assumes "pd_inv pd" "pd_bits pd = be_bits k v @ rest" "k \<le> 31" "n = int k"
  shows "asn_get_few_bits pd n = Some (int (v mod 2 ^ k), pd_skip k pd)"
    and "pd_consumes pd (be_bits k v) (pd_skip k pd)" and "pd_bits (pd_skip k pd) = rest"
  using assms pd_skip_consumes [of pd k] get_few_bits_value [of pd k] by simp_all

lemma get_few_bits_total:
  assumes "pd_inv pd" "0 \<le> n" "n \<le> 31"
  obtains (got) v pd' where "asn_get_few_bits pd n = Some (v, pd')" "0 \<le> v" "v < 2 ^ nat n"
      "pd_consumes pd (be_bits (nat n) (nat v)) pd'"
    | (starved) "asn_get_few_bits pd n = Some (-1, pd)" "length (pd_bits pd) < nat n"
proof -
  define k where "k = nat n"
  have n: "n = int k" "k \<le> 31" using assms by (simp_all add: k_def)
  show thesis
  proof (cases "k \<le> length (pd_bits pd)")
    case True
    define bs where "bs = take k (pd_bits pd)"
    have "length bs = k" using True by (simp add: bs_def)
    with True get_few_bits_consumes [OF assms(1) n(2)] pd_skip_consumes [OF assms(1) True]
      be_val_less [of bs] be_bits_be_val [of bs]
    show thesis by (intro got [of "int (be_val bs)" "pd_skip k pd"]) (auto simp: n bs_def)
  next
    case False
    with get_few_bits_consumes [OF assms(1) n(2)] show thesis by (intro starved) (auto simp: n)
  qed
qed

text \<open>A number at the head of the stream.\<close>

lemma get_number:
  assumes "pd_inv pd" "pd_bits pd = be_bits k v @ rest" "k \<le> 31" "n = int k" "v < 2 ^ k"
  shows "asn_get_few_bits pd n = Some (int v, pd_skip k pd)" and "pd_consumes pd (be_bits k v) (pd_skip k pd)"
    and "pd_bits (pd_skip k pd) = rest" and "pd_inv (pd_skip k pd)"
  using get_few_bits_be [OF assms(1-4)] assms(5) pd_consumesD(2) by auto

section \<open>Reading many bits\<close>

lemma octet_at_nat: "octet_at (int v) k = of_nat (v div 2 ^ k)"
  by (simp add: octet_at_def drop_bit_eq_div flip: zdiv_int)
     (metis of_int_of_nat_eq of_nat_div of_nat_numeral of_nat_power)

text \<open>The octets that \<open>n\<close> bits fill from the left; the rest of the last octet is zero.\<close>

definition left_octets :: "bool list \<Rightarrow> u8 list" where
  "left_octets bs = (let k = (length bs + 7) div 8 in be_octets k (be_val bs * 2 ^ (8 * k - length bs)))"

lemma length_left_octets [simp]: "length (left_octets bs) = (length bs + 7) div 8"
  by (simp add: left_octets_def Let_def)

lemma octets_bits_left_octets:
  "octets_bits (left_octets bs) = bs @ replicate (8 * ((length bs + 7) div 8) - length bs) False"
proof -
  define k where "k = (length bs + 7) div 8"
  have "length bs + (8 * k - length bs) = 8 * k" unfolding k_def by linarith
  then have "be_bits (8 * k) (be_val bs * 2 ^ (8 * k - length bs)) =
      be_bits (length bs) (be_val bs) @ be_bits (8 * k - length bs) (be_val bs * 2 ^ (8 * k - length bs))"
    using be_bits_add [of "length bs" "8 * k - length bs" "be_val bs * 2 ^ (8 * k - length bs)"] by simp
  moreover have "be_bits (8 * k - length bs) (be_val bs * 2 ^ (8 * k - length bs)) = replicate (8 * k - length bs) False"
    by (metis be_bits_0 be_bits_mod_self mod_mult_self2_is_0)
  ultimately show ?thesis by (simp add: left_octets_def Let_def k_def)
qed

lemma left_octets_octets [simp]: "left_octets (octets_bits bs) = bs"
  by (rule octets_bits_inj) (simp add: octets_bits_left_octets)

lemma left_octets_append: "left_octets (octets_bits xs @ bs) = xs @ left_octets bs"
proof (rule octets_bits_inj)
  have "(8 * length xs + length bs + 7) div 8 = length xs + (length bs + 7) div 8" by simp
  then show "octets_bits (left_octets (octets_bits xs @ bs)) = octets_bits (xs @ left_octets bs)"
    by (simp add: octets_bits_left_octets diff_mult_distrib2 [symmetric] algebra_simps)
qed

lemma octets_of_24:
  assumes "length bs = 24"
  shows "[octet_at (int (be_val bs)) 16, octet_at (int (be_val bs)) 8, octet_at (int (be_val bs)) 0]
    = be_octets 3 (be_val bs)" and "octets_bits (be_octets 3 (be_val bs)) = bs"
proof -
  show "[octet_at (int (be_val bs)) 16, octet_at (int (be_val bs)) 8, octet_at (int (be_val bs)) 0]
    = be_octets 3 (be_val bs)" by (simp add: octet_at_nat be_octets_numerals(3))
  show "octets_bits (be_octets 3 (be_val bs)) = bs"
    using be_bits_be_val [of bs] by (simp add: assms)
qed

text \<open>The last, incomplete round: at most 23 bits, stored from the left.\<close>

lemma tail_octets:
  assumes n: "length bs = n" "0 < n" "n < 24"
  shows "get_many_bits_tail (int (be_val bs)) (int n) = left_octets bs"
proof -
  define k where "k = (n + 7) div 8"
  define w where "w = be_val bs * 2 ^ (8 * k - n)"
  have k: "k = 1 \<or> k = 2 \<or> k = 3" using n(2,3) unfolding k_def by presburger
  have r: "int n AND 7 = int (n mod 8)" by (simp add: and_7_mod_8 zmod_int)
  have m: "(if int (n mod 8) \<noteq> 0 then int n + (8 - int (n mod 8)) else int n) = int (8 * k)"
    unfolding k_def by (cases "n mod 8 = 0") (simp_all, presburger+)
  have j: "n mod 8 \<noteq> 0 \<Longrightarrow> nat (8 - int (n mod 8)) = 8 * k - n" "n mod 8 = 0 \<Longrightarrow> 8 * k - n = 0"
    using octets_for_bits(1,2) [OF k_def] by (simp_all add: nat_diff_distrib)
  have v: "(if int (n mod 8) \<noteq> 0 then push_bit (nat (8 - int (n mod 8))) (int (be_val bs)) else int (be_val bs)) = int w"
    using j by (auto simp: w_def push_bit_eq_mult)
  have "left_octets bs = be_octets k w" by (simp add: left_octets_def Let_def k_def w_def n)
  with k show ?thesis
    unfolding get_many_bits_tail_def r Let_def m v by (elim disjE) (simp_all add: octet_at_nat be_octets_numerals)
qed

lemma get_many_bits_loop:
  assumes "pd_inv pd" "n \<le> length (pd_bits pd)"
  shows "\<exists>pd'. asn_get_many_bits_loop pd dst (int n) = Some (0, dst @ left_octets (take n (pd_bits pd)), pd')
    \<and> pd_consumes pd (take n (pd_bits pd)) pd'"
  using assms
proof (induction n arbitrary: pd dst rule: less_induct)
  case (less n)
  consider "n = 0" | "24 \<le> n" | "0 < n" "n < 24" by linarith
  then show ?case
  proof cases
    case 1
    with less.prems show ?thesis
      by (subst asn_get_many_bits_loop.simps) (simp add: left_octets_def)
  next
    case 2
    define b1 where "b1 = take 24 (pd_bits pd)"
    have l1: "length b1 = 24" using 2 less.prems by (simp add: b1_def)
    have g: "asn_get_few_bits pd 24 = Some (int (be_val b1), pd_skip 24 pd)" "pd_consumes pd b1 (pd_skip 24 pd)"
      using get_few_bits_value [of pd 24] pd_skip_consumes [of pd 24] 2 less.prems by (simp_all add: b1_def)
    have "n - 24 \<le> length (pd_bits (pd_skip 24 pd))" "n - 24 < n" "pd_inv (pd_skip 24 pd)"
      using 2 less.prems by simp_all
    from less.IH [OF this(2,3,1), of "dst @ be_octets 3 (be_val b1)"] obtain pd' where
      pd': "asn_get_many_bits_loop (pd_skip 24 pd) (dst @ be_octets 3 (be_val b1)) (int (n - 24))
        = Some (0, (dst @ be_octets 3 (be_val b1)) @ left_octets (take (n - 24) (pd_bits (pd_skip 24 pd))), pd')"
      "pd_consumes (pd_skip 24 pd) (take (n - 24) (pd_bits (pd_skip 24 pd))) pd'" by blast
    have t: "take n (pd_bits pd) = b1 @ take (n - 24) (pd_bits (pd_skip 24 pd))"
      using take_add [of 24 "n - 24" "pd_bits pd"] 2 less.prems by (simp add: b1_def)
    have lo: "left_octets (take n (pd_bits pd)) =
        be_octets 3 (be_val b1) @ left_octets (take (n - 24) (pd_bits (pd_skip 24 pd)))"
      using left_octets_append [of "be_octets 3 (be_val b1)" "take (n - 24) (pd_bits (pd_skip 24 pd))"]
        octets_of_24(2) [OF l1] by (simp only: t)
    have i: "int n - 24 = int (n - 24)" using 2 by simp
    have "asn_get_many_bits_loop pd dst (int n) = Some (0, dst @ left_octets (take n (pd_bits pd)), pd')"
      using 2 by (subst asn_get_many_bits_loop.simps) (simp add: g(1) octets_of_24(1) [OF l1] pd'(1) [unfolded i [symmetric]] lo)
    moreover have "pd_consumes pd (take n (pd_bits pd)) pd'"
      unfolding t by (rule pd_consumes_trans [OF g(2) pd'(2)])
    ultimately show ?thesis by blast
  next
    case 3
    define bs where "bs = take n (pd_bits pd)"
    have l: "length bs = n" using less.prems by (simp add: bs_def)
    have g: "asn_get_few_bits pd (int n) = Some (int (be_val bs), pd_skip n pd)" "pd_consumes pd bs (pd_skip n pd)"
      using get_few_bits_value [of pd n] pd_skip_consumes [of pd n] 3 less.prems by (simp_all add: bs_def)
    have "asn_get_many_bits_loop pd dst (int n) = Some (0, dst @ left_octets bs, pd_skip n pd)"
      using 3 by (subst asn_get_many_bits_loop.simps) (simp add: g(1) tail_octets [OF l 3])
    with g show ?thesis by (auto simp: bs_def)
  qed
qed

theorem get_many_bits_left:
  assumes "pd_inv pd" "n \<le> length (pd_bits pd)"
  shows "\<exists>pd'. asn_get_many_bits pd False (int n) = Some (0, left_octets (take n (pd_bits pd)), pd')
    \<and> pd_consumes pd (take n (pd_bits pd)) pd'"
  using get_many_bits_loop [OF assms, of "[]"] by (simp add: asn_get_many_bits_def)

lemma get_many_bits_loop_starved:
  assumes "pd_inv pd" "length (pd_bits pd) < n"
  shows "\<exists>dst' pd'. asn_get_many_bits_loop pd dst (int n) = Some (-1, dst', pd') \<and> pd_inv pd'"
  using assms
proof (induction n arbitrary: pd dst rule: less_induct)
  case (less n)
  show ?case
  proof (cases "24 \<le> n \<and> 24 \<le> length (pd_bits pd)")
    case True
    have g: "asn_get_few_bits pd 24 = Some (int (be_val (take 24 (pd_bits pd))), pd_skip 24 pd)"
      using get_few_bits_value [of pd 24] True less.prems by simp
    have "length (pd_bits (pd_skip 24 pd)) < n - 24" using True less.prems by (simp, linarith)
    then show ?thesis using True less.prems less.IH [of "n - 24" "pd_skip 24 pd"]
      by (subst asn_get_many_bits_loop.simps) (simp add: g)
  next
    case False
    define m where "m = (if 24 \<le> n then 24 else n)"
    have "asn_get_few_bits pd (int m) = Some (-1, pd)"
      using get_few_bits_starved [of pd m] False less.prems by (auto simp: m_def)
    then show ?thesis using less.prems
      by (subst asn_get_many_bits_loop.simps) (auto simp: m_def split: if_splits)
  qed
qed

theorem get_many_bits_starved:
  assumes "pd_inv pd" "length (pd_bits pd) < n"
  shows "\<exists>dst pd'. asn_get_many_bits pd False (int n) = Some (-1, dst, pd') \<and> pd_inv pd'"
  using get_many_bits_loop_starved [OF assms, of "[]"] by (simp add: asn_get_many_bits_def)

end
