(* ===== verification/Consumer.thy ===== *)
theory Consumer
  imports Prelude
begin

text \<open>
  The interface through which every encoder delivers its octets: the callback type
  \<open>asn_app_consume_bytes_f\<close> of \<open>asn_application.h\<close>. A callback is a function of its key
  and the octets; it returns the \<open>int\<close> of the C function and the key afterwards, or a
  fault. Encoders rely on one law: a callback that does not return a negative number has
  taken all the octets. Four providers in the code are modelled: the bounded and the growing
  buffer of the PER encoders, and the two buffers of \<open>asn_application.c\<close>.
\<close>

type_synonym 'k consumer = "'k \<Rightarrow> u8 list \<Rightarrow> (int \<times> 'k) option"

section \<open>The interfaces\<close>

text \<open>A callback that counts the octets it is given.\<close>

locale counting_consumer =
  fixes cb :: "'k consumer" and counted :: "'k \<Rightarrow> nat" and key_inv :: "'k \<Rightarrow> bool"
  assumes safe: "key_inv k \<Longrightarrow> \<exists>r k'. cb k bs = Some (r, k') \<and> key_inv k'"
    and counts: "key_inv k \<Longrightarrow> cb k bs = Some (r, k') \<Longrightarrow> 0 \<le> r \<Longrightarrow> counted k' = counted k + length bs"
begin

lemma keeps_inv: "key_inv k \<Longrightarrow> cb k bs = Some (r, k') \<Longrightarrow> key_inv k'"
  using safe [of k bs] by auto

lemma cb_cases:
  assumes "key_inv k"
  obtains r k' where "cb k bs = Some (r, k')" "key_inv k'"
    "0 \<le> r \<Longrightarrow> counted k' = counted k + length bs"
  using assms safe [of k bs] counts by blast

end

text \<open>\<open>taken k\<close>: the octets that the callback has accepted when its key is \<open>k\<close>.\<close>

locale bytes_consumer =
  fixes cb :: "'k consumer" and taken :: "'k \<Rightarrow> u8 list" and key_inv :: "'k \<Rightarrow> bool"
  assumes safe: "key_inv k \<Longrightarrow> \<exists>r k'. cb k bs = Some (r, k') \<and> key_inv k'"
    and accepted: "key_inv k \<Longrightarrow> cb k bs = Some (r, k') \<Longrightarrow> 0 \<le> r \<Longrightarrow> taken k' = taken k @ bs"

sublocale bytes_consumer \<subseteq> counting: counting_consumer cb "\<lambda>k. length (taken k)" key_inv
  by unfold_locales (simp_all add: safe accepted)

section \<open>The bounded buffer of \<open>uper_encode_to_buffer\<close>\<close>

text \<open>
  \<open>enc_to_buf_arg\<close>: \<open>tb_buffer\<close> is the offset of the next octet in the caller's object
  \<open>tb_mem\<close>, \<open>tb_left\<close> the room that the caller declared.
\<close>

record enc_to_buf_arg =
  tb_mem :: "u8 list"
  tb_buffer :: nat
  tb_left :: nat

definition encode_to_buffer_cb :: "enc_to_buf_arg consumer" where
  "encode_to_buffer_cb arg bs =
     (if tb_left arg < length bs then Some (-1, arg)
      else do {
        m \<leftarrow> mem_store (tb_mem arg) (tb_buffer arg) bs;
        Some (0, arg\<lparr>tb_mem := m, tb_buffer := tb_buffer arg + length bs,
                     tb_left := tb_left arg - length bs\<rparr>) })"

text \<open>The caller told the truth about its buffer: the declared room exists.\<close>

definition to_buf_inv :: "enc_to_buf_arg \<Rightarrow> bool" where
  "to_buf_inv arg \<longleftrightarrow> tb_buffer arg + tb_left arg \<le> length (tb_mem arg)"

definition to_buf_taken :: "enc_to_buf_arg \<Rightarrow> u8 list" where
  "to_buf_taken arg = take (tb_buffer arg) (tb_mem arg)"

interpretation to_buf: bytes_consumer encode_to_buffer_cb to_buf_taken to_buf_inv
  by unfold_locales
     (auto simp: encode_to_buffer_cb_def to_buf_inv_def to_buf_taken_def mem_store_def
       split: if_splits option.splits)

section \<open>The growing buffer of \<open>uper_encode_to_new_buffer\<close>\<close>

text \<open>
  \<open>enc_dyn_arg\<close> of \<open>per_encoder.h\<close>. \<open>REALLOC\<close> may fail: \<open>can_alloc n\<close> says whether the
  allocator grants \<open>n\<close> octets. The octets of a grown object beyond the old ones are
  indeterminate in C; they are zero here, and no property reads one before it is written.
\<close>

record enc_dyn_arg =
  dy_buffer :: "u8 list"
  dy_length :: nat
  dy_allocated :: nat

text \<open>\<open>do { new_size <<= 2; } while(length + size >= new_size)\<close>\<close>

function grow_dyn :: "nat \<Rightarrow> nat \<Rightarrow> nat" where
  "grow_dyn need new_size =
     (if new_size = 0 then 0
      else let new_size = push_bit 2 new_size
           in if new_size \<le> need then grow_dyn need new_size else new_size)"
  by pat_completeness auto
termination
  by (relation "measure (\<lambda>(need, n). need - n)") (auto simp: push_bit_eq_mult)

declare grow_dyn.simps [simp del]

text \<open>
  The reallocation inside \<open>encode_dyn_cb\<close>; \<open>None\<close> when \<open>REALLOC\<close> returns a null pointer.
  The sizes are natural numbers: the doubling wraps only above \<open>2 ^ 62\<close> octets.
\<close>

definition dyn_grow :: "(nat \<Rightarrow> bool) \<Rightarrow> enc_dyn_arg \<Rightarrow> nat \<Rightarrow> enc_dyn_arg option" where
  "dyn_grow can_alloc arg sz =
     (if dy_allocated arg \<le> dy_length arg + sz then
        let new_size = grow_dyn (dy_length arg + sz)
                         (if dy_allocated arg \<noteq> 0 then dy_allocated arg else 8)
        in if can_alloc new_size
           then Some (arg\<lparr>dy_buffer := dy_buffer arg @ replicate (new_size - length (dy_buffer arg)) 0,
                          dy_allocated := new_size\<rparr>)
           else None
      else Some arg)"

definition encode_dyn_cb :: "(nat \<Rightarrow> bool) \<Rightarrow> enc_dyn_arg consumer" where
  "encode_dyn_cb can_alloc arg bs =
     (case dyn_grow can_alloc arg (length bs) of
        None \<Rightarrow> Some (-1, \<lparr>dy_buffer = [], dy_length = 0, dy_allocated = 0\<rparr>)
      | Some arg \<Rightarrow> do {
          m \<leftarrow> mem_store (dy_buffer arg) (dy_length arg) bs;
          Some (0, arg\<lparr>dy_buffer := m, dy_length := dy_length arg + length bs\<rparr>) })"

definition dyn_inv :: "enc_dyn_arg \<Rightarrow> bool" where
  "dyn_inv arg \<longleftrightarrow> length (dy_buffer arg) = dy_allocated arg \<and> dy_length arg \<le> dy_allocated arg"

definition dyn_taken :: "enc_dyn_arg \<Rightarrow> u8 list" where
  "dyn_taken arg = take (dy_length arg) (dy_buffer arg)"

lemma grow_dyn_gt: "0 < n \<Longrightarrow> need < grow_dyn need n \<and> n \<le> grow_dyn need n"
proof (induction need n rule: grow_dyn.induct)
  case (1 need n)
  then show ?case
    by (subst (1 2) grow_dyn.simps) (auto simp: Let_def push_bit_eq_mult)
qed

lemma dyn_grow_room:
  assumes "dyn_inv arg" "dyn_grow ca arg n = Some arg'"
  shows "dyn_inv arg' \<and> dy_length arg' = dy_length arg \<and> dyn_taken arg' = dyn_taken arg \<and>
    dy_length arg' + n < dy_allocated arg'"
  using assms grow_dyn_gt [of "if dy_allocated arg \<noteq> 0 then dy_allocated arg else 8" "dy_length arg + n"]
  by (auto simp: dyn_grow_def dyn_inv_def dyn_taken_def Let_def split: if_splits)

lemma encode_dyn_cb_step:
  assumes "dyn_inv arg"
  shows "\<exists>r arg'. encode_dyn_cb ca arg bs = Some (r, arg') \<and> dyn_inv arg' \<and>
    (0 \<le> r \<longrightarrow> dyn_taken arg' = dyn_taken arg @ bs)"
proof (cases "dyn_grow ca arg (length bs)")
  case None
  then show ?thesis by (simp add: encode_dyn_cb_def dyn_inv_def)
next
  case (Some arg1)
  with dyn_grow_room [OF assms, of ca "length bs" arg1]
  have g: "dyn_inv arg1" "dyn_taken arg1 = dyn_taken arg" "dy_length arg1 + length bs < dy_allocated arg1"
    by auto
  then obtain m where m: "mem_store (dy_buffer arg1) (dy_length arg1) bs = Some m"
    by (auto simp: mem_store_def dyn_inv_def)
  from mem_store_length [OF m] mem_store_take [OF m] g Some m show ?thesis
    by (auto simp: encode_dyn_cb_def dyn_inv_def dyn_taken_def)
qed

interpretation dyn: bytes_consumer "encode_dyn_cb can_alloc" dyn_taken dyn_inv
proof unfold_locales
  fix k bs assume "dyn_inv k"
  then show "\<exists>r k'. encode_dyn_cb can_alloc k bs = Some (r, k') \<and> dyn_inv k'"
    using encode_dyn_cb_step [of k can_alloc bs] by blast
next
  fix k bs r k'
  assume "dyn_inv k" "encode_dyn_cb can_alloc k bs = Some (r, k')" "0 \<le> r"
  then show "dyn_taken k' = dyn_taken k @ bs"
    using encode_dyn_cb_step [of k can_alloc bs] by auto
qed

section \<open>The buffers of \<open>asn_application.c\<close>\<close>

text \<open>
  \<open>overrun_encoder_cb\<close> writes into a fixed buffer and goes on counting when it is full;
  after the first overrun it stores nothing more.
\<close>

record overrun_encoder_key =
  ov_buffer :: "u8 list"
  ov_buffer_size :: nat
  ov_computed_size :: nat

definition overrun_encoder_cb :: "overrun_encoder_key consumer" where
  "overrun_encoder_cb key bs =
     (if ov_buffer_size key < ov_computed_size key + length bs
      then Some (0, key\<lparr>ov_buffer_size := 0, ov_computed_size := ov_computed_size key + length bs\<rparr>)
      else do {
        m \<leftarrow> mem_store (ov_buffer key) (ov_computed_size key) bs;
        Some (0, key\<lparr>ov_buffer := m, ov_computed_size := ov_computed_size key + length bs\<rparr>) })"

definition overrun_inv :: "overrun_encoder_key \<Rightarrow> bool" where
  "overrun_inv key \<longleftrightarrow> ov_buffer_size key \<le> length (ov_buffer key)"

interpretation overrun: counting_consumer overrun_encoder_cb ov_computed_size overrun_inv
  by unfold_locales
     (auto simp: overrun_encoder_cb_def overrun_inv_def mem_store_def split: if_splits)

text \<open>
  \<open>dynamic_encoder_cb\<close> doubles its buffer, drops it when an allocation fails and goes on
  counting. \<open>dk_buffer = None\<close> is the null pointer.
\<close>

record dynamic_encoder_key =
  dk_buffer :: "u8 list option"
  dk_buffer_size :: nat
  dk_computed_size :: nat

function grow_dynamic :: "nat \<Rightarrow> nat \<Rightarrow> nat" where
  "grow_dynamic need new_size =
     (if new_size = 0 then 0
      else let new_size = new_size * 2
           in if new_size \<le> need then grow_dynamic need new_size else new_size)"
  by pat_completeness auto
termination
  by (relation "measure (\<lambda>(need, n). need - n)") auto

declare grow_dynamic.simps [simp del]

definition dynamic_encoder_cb :: "(nat \<Rightarrow> bool) \<Rightarrow> dynamic_encoder_key consumer" where
  "dynamic_encoder_cb can_alloc key bs =
     (let counted = (\<lambda>key. key\<lparr>dk_computed_size := dk_computed_size key + length bs\<rparr>);
          store = (\<lambda>key b. do {
            m \<leftarrow> mem_store b (dk_computed_size key) bs;
            Some (0, counted (key\<lparr>dk_buffer := Some m\<rparr>)) })
      in case dk_buffer key of
           None \<Rightarrow> Some (0, counted key)
         | Some b \<Rightarrow>
             if dk_buffer_size key \<le> dk_computed_size key + length bs then
               let new_size = grow_dynamic (dk_computed_size key + length bs) (dk_buffer_size key)
               in if can_alloc new_size
                  then store (key\<lparr>dk_buffer_size := new_size\<rparr>) (b @ replicate (new_size - length b) 0)
                  else Some (0, counted (key\<lparr>dk_buffer := None, dk_buffer_size := 0\<rparr>))
             else store key b)"

text \<open>\<open>asn_encode_to_new_buffer\<close> starts with 16 octets, so a live buffer is never empty.\<close>

definition dynamic_inv :: "dynamic_encoder_key \<Rightarrow> bool" where
  "dynamic_inv key \<longleftrightarrow> (case dk_buffer key of None \<Rightarrow> True
     | Some b \<Rightarrow> length b = dk_buffer_size key \<and> 0 < dk_buffer_size key \<and>
                 dk_computed_size key < dk_buffer_size key)"

definition dynamic_taken :: "dynamic_encoder_key \<Rightarrow> u8 list" where
  "dynamic_taken key = (case dk_buffer key of None \<Rightarrow> [] | Some b \<Rightarrow> take (dk_computed_size key) b)"

lemma grow_dynamic_gt: "0 < n \<Longrightarrow> need < grow_dynamic need n \<and> n \<le> grow_dynamic need n"
proof (induction need n rule: grow_dynamic.induct)
  case (1 need n)
  then show ?case
    by (subst (1 2) grow_dynamic.simps) (auto simp: Let_def)
qed

lemma dynamic_encoder_cb_step:
  assumes "dynamic_inv key"
  shows "\<exists>key'. dynamic_encoder_cb ca key bs = Some (0, key') \<and> dynamic_inv key' \<and>
    dk_computed_size key' = dk_computed_size key + length bs \<and>
    (dk_buffer key' \<noteq> None \<longrightarrow> dynamic_taken key' = dynamic_taken key @ bs)"
proof (cases "dk_buffer key")
  case None
  then show ?thesis by (simp add: dynamic_encoder_cb_def dynamic_inv_def)
next
  case (Some b)
  define nsz where "nsz = grow_dynamic (dk_computed_size key + length bs) (dk_buffer_size key)"
  have "dk_computed_size key + length bs < nsz" "dk_buffer_size key \<le> nsz"
    using grow_dynamic_gt [of "dk_buffer_size key"] assms Some by (auto simp: nsz_def dynamic_inv_def)
  with assms Some show ?thesis
    by (cases "ca nsz"; cases "dk_buffer_size key \<le> dk_computed_size key + length bs")
       (auto simp: dynamic_encoder_cb_def Let_def nsz_def [symmetric] mem_store_def dynamic_inv_def
         dynamic_taken_def)
qed

interpretation dynamic: counting_consumer "dynamic_encoder_cb can_alloc" dk_computed_size dynamic_inv
proof unfold_locales
  fix k bs assume "dynamic_inv k"
  then show "\<exists>r k'. dynamic_encoder_cb can_alloc k bs = Some (r, k') \<and> dynamic_inv k'"
    using dynamic_encoder_cb_step [of k can_alloc bs] by blast
next
  fix k bs r k'
  assume "dynamic_inv k" "dynamic_encoder_cb can_alloc k bs = Some (r, k')" "0 \<le> r"
  then show "dk_computed_size k' = dk_computed_size k + length bs"
    using dynamic_encoder_cb_step [of k can_alloc bs] by auto
qed

section \<open>Sinks of octets\<close>

text \<open>
  \<open>holds key bs\<close>: the callback has been given the octets \<open>bs\<close> when its key is \<open>key\<close>. A callback
  that only counts is a sink too.
\<close>

locale octet_sink =
  fixes cb :: "'k consumer" and holds :: "'k \<Rightarrow> u8 list \<Rightarrow> bool"
  assumes step: "holds k xs \<Longrightarrow> \<exists>r k'. cb k bs = Some (r, k') \<and> (0 \<le> r \<longrightarrow> holds k' (xs @ bs))"

sublocale bytes_consumer \<subseteq> sink: octet_sink cb "\<lambda>k xs. key_inv k \<and> taken k = xs"
  using safe accepted by unfold_locales fastforce

definition sink_refuses :: "'k consumer \<Rightarrow> ('k \<Rightarrow> u8 list \<Rightarrow> bool) \<Rightarrow> bool" where
  "sink_refuses cb holds \<longleftrightarrow> (\<exists>k xs bs r k'. holds k xs \<and> cb k bs = Some (r, k') \<and> r < 0)"

text \<open>An encoder delivers \<open>bs\<close> and returns their number, or fails because the callback refuses.\<close>

definition sink_puts :: "'k consumer \<Rightarrow> ('k \<Rightarrow> u8 list \<Rightarrow> bool) \<Rightarrow> u8 list \<Rightarrow> u8 list \<Rightarrow> (int \<times> 'k) option \<Rightarrow> bool" where
  "sink_puts cb holds xs bs res \<longleftrightarrow> (\<exists>r k. res = Some (r, k) \<and>
     (r = int (length bs) \<and> holds k (xs @ bs) \<or> r = -1 \<and> sink_refuses cb holds))"

lemma sink_putsE:
  assumes "sink_puts cb holds xs bs res"
  obtains k where "res = Some (int (length bs), k)" "holds k (xs @ bs)"
    | k where "res = Some (-1, k)" "sink_refuses cb holds"
  using assms unfolding sink_puts_def by blast

context octet_sink begin

lemma cb_step:
  assumes "holds k xs"
  obtains r k' where "cb k bs = Some (r, k')" "0 \<le> r" "holds k' (xs @ bs)"
    | r k' where "cb k bs = Some (r, k')" "r < 0" "sink_refuses cb holds"
proof -
  from step [OF assms, of bs] obtain r k' where s: "cb k bs = Some (r, k')" "0 \<le> r \<longrightarrow> holds k' (xs @ bs)" by blast
  show thesis
  proof (cases "0 \<le> r")
    case False
    with assms s(1) have "sink_refuses cb holds" unfolding sink_refuses_def by force
    with s(1) False that(2) show thesis by simp
  qed (use s that(1) in blast)
qed

end

end
