(* ===== verification/Bit_Outp.thy ===== *)
theory Bit_Outp
  imports Bit_Data Consumer
begin

unbundle bit_operations_syntax

text \<open>
  The writing half of \<open>skeletons/asn_bit_data.c\<close>: \<open>asn_bit_outp_t\<close>, a 32-octet buffer in
  front of a callback. The bits handed to a writer so far are those of the octets that the
  callback has taken and of the buffered ones. Every operation appends to this list.
\<close>

section \<open>The writer\<close>

text \<open>
  \<open>po_buffer\<close> is the offset of \<open>buffer\<close> in \<open>tmpspace\<close>: every writer that the code creates
  starts with \<open>buffer = tmpspace\<close>, so the pointer is never null.
\<close>

record 'k bit_outp =
  po_buffer :: nat
  po_nboff :: nat
  po_nbits :: nat
  po_tmpspace :: "u8 list"
  po_output :: "'k consumer"
  po_op_key :: 'k
  po_flushed_bytes :: nat

definition po_normalize :: "'k bit_outp \<Rightarrow> 'k bit_outp" where
  "po_normalize po =
     (if 8 \<le> po_nboff po
      then po\<lparr>po_buffer := po_buffer po + drop_bit 3 (po_nboff po),
              po_nbits := po_nbits po - 8 * drop_bit 3 (po_nboff po),
              po_nboff := take_bit 3 (po_nboff po)\<rparr>
      else po)"

lemma po_normalize_nboff [simp]: "po_nboff (po_normalize po) < 8"
  by (simp add: po_normalize_def take_bit_eq_mod)

text \<open>The block "Flush whole-bytes output, if necessary": \<open>Inl\<close> when the callback refuses.\<close>

definition po_make_room :: "'k bit_outp \<Rightarrow> nat \<Rightarrow> ('k bit_outp + 'k bit_outp) option" where
  "po_make_room po obits =
     (if po_nbits po < po_nboff po + obits then do {
        let complete_bytes = po_buffer po;
        chunk \<leftarrow> mem_load (po_tmpspace po) 0 complete_bytes;
        (r, key) \<leftarrow> po_output po (po_op_key po) chunk;
        if r < 0 then Some (Inl (po\<lparr>po_op_key := key\<rparr>))
        else do {
          tmp \<leftarrow> (if po_nboff po \<noteq> 0
                  then do { b \<leftarrow> rd (po_tmpspace po) (po_buffer po); wr (po_tmpspace po) 0 b }
                  else Some (po_tmpspace po));
          Some (Inr (po\<lparr>po_tmpspace := tmp, po_buffer := 0, po_nbits := 8 * length tmp,
                        po_op_key := key,
                        po_flushed_bytes := po_flushed_bytes po + complete_bytes\<rparr>)) } }
      else Some (Inr po))"

lemma po_make_room_nboff: "po_make_room po n = Some (Inr po') \<Longrightarrow> po_nboff po' = po_nboff po"
  by (auto simp: po_make_room_def Let_def bind_eq_Some_conv split: if_splits prod.splits)

text \<open>\<open>buf[i] = v\<close> for the octets at \<open>buffer\<close>; \<open>buf[0]\<close> keeps the bits under \<open>omsk\<close>.\<close>

definition po_store :: "'k bit_outp \<Rightarrow> nat \<Rightarrow> u8 \<Rightarrow> 'k bit_outp option" where
  "po_store po i v = do {
     tmp \<leftarrow> wr (po_tmpspace po) (po_buffer po + i) v;
     Some (po\<lparr>po_tmpspace := tmp\<rparr>) }"

definition po_merge :: "'k bit_outp \<Rightarrow> u32 \<Rightarrow> u32 \<Rightarrow> 'k bit_outp option" where
  "po_merge po omsk v = do {
     b \<leftarrow> rd (po_tmpspace po) (po_buffer po);
     po_store po 0 (ucast ((ucast b AND omsk) OR v)) }"

function asn_put_few_bits :: "'k bit_outp \<Rightarrow> u32 \<Rightarrow> int \<Rightarrow> (int \<times> 'k bit_outp) option" where
  "asn_put_few_bits po0 bits0 obits =
     (if obits \<le> 0 \<or> 32 \<le> obits then Some (if obits \<noteq> 0 then -1 else 0, po0)
      else
        case po_make_room (po_normalize po0) (nat obits) of
          None \<Rightarrow> None
        | Some (Inl po) \<Rightarrow> Some (-1, po)
        | Some (Inr po) \<Rightarrow>
            let omsk = NOT (push_bit (8 - po_nboff po) 1 - 1) :: u32;
                off = po_nboff po + nat obits;
                bits = bits0 AND (push_bit (nat obits) 1 - 1);
                po' = po\<lparr>po_nboff := off\<rparr>
            in if off \<le> 8 then do {
                 let bits = push_bit (8 - off) bits;
                 po \<leftarrow> po_merge po' omsk bits;
                 Some (0, po) }
               else if off \<le> 16 then do {
                 let bits = push_bit (16 - off) bits;
                 po \<leftarrow> po_merge po' omsk (drop_bit 8 bits);
                 po \<leftarrow> po_store po 1 (ucast bits);
                 Some (0, po) }
               else if off \<le> 24 then do {
                 let bits = push_bit (24 - off) bits;
                 po \<leftarrow> po_merge po' omsk (drop_bit 16 bits);
                 po \<leftarrow> po_store po 1 (ucast (drop_bit 8 bits));
                 po \<leftarrow> po_store po 2 (ucast bits);
                 Some (0, po) }
               else if off \<le> 31 then do {
                 let bits = push_bit (32 - off) bits;
                 po \<leftarrow> po_merge po' omsk (drop_bit 24 bits);
                 po \<leftarrow> po_store po 1 (ucast (drop_bit 16 bits));
                 po \<leftarrow> po_store po 2 (ucast (drop_bit 8 bits));
                 po \<leftarrow> po_store po 3 (ucast bits);
                 Some (0, po) }
               else
                 (case asn_put_few_bits po (drop_bit (nat (obits - 24)) bits) 24 of
                    None \<Rightarrow> None
                  | Some (r, po) \<Rightarrow>
                      if r \<noteq> 0 then Some (-1, po)
                      else
                        case asn_put_few_bits po bits (obits - 24) of
                          None \<Rightarrow> None
                        | Some (r, po) \<Rightarrow> Some (if r \<noteq> 0 then -1 else 0, po)))"
  by pat_completeness auto
termination
proof (relation "measure (\<lambda>(po, bits, n). nat n)", goal_cases)
  case (2 po0 bits0 obits)
  then show ?case using po_normalize_nboff [of po0]
    by (auto simp: not_le dest!: po_make_room_nboff simp del: po_normalize_nboff)
next
  case (3 po0 bits0 obits)
  then show ?case using po_normalize_nboff [of po0]
    by (auto simp: not_le dest!: po_make_room_nboff simp del: po_normalize_nboff)
qed auto

declare asn_put_few_bits.simps [simp del]

text \<open>\<open>src\<close> is the object that the pointer has reached, from there on.\<close>

function asn_put_many_bits :: "'k bit_outp \<Rightarrow> u8 list \<Rightarrow> int \<Rightarrow> (int \<times> 'k bit_outp) option" where
  "asn_put_many_bits po src nbits =
     (if nbits = 0 then Some (0, po)
      else if 24 \<le> nbits then do {
        s0 \<leftarrow> rd src 0; s1 \<leftarrow> rd src 1; s2 \<leftarrow> rd src 2;
        (r, po) \<leftarrow> asn_put_few_bits po (push_bit 16 (ucast s0) OR push_bit 8 (ucast s1) OR ucast s2) 24;
        if r \<noteq> 0 then Some (-1, po) else asn_put_many_bits po (drop 3 src) (nbits - 24) }
      else do {
        s0 \<leftarrow> rd src 0;
        let value = ucast s0;
        value \<leftarrow> (if 8 < nbits then do { s1 \<leftarrow> rd src 1; Some (push_bit 8 value OR ucast s1) } else Some value);
        value \<leftarrow> (if 16 < nbits then do { s2 \<leftarrow> rd src 2; Some (push_bit 8 value OR ucast s2) } else Some value);
        let value = (if nbits AND 7 \<noteq> 0 then drop_bit (nat (8 - (nbits AND 7))) value else value);
        (r, po) \<leftarrow> asn_put_few_bits po value nbits;
        Some (if r \<noteq> 0 then -1 else 0, po) })"
  by pat_completeness auto
termination
  by (relation "measure (\<lambda>(po, src, n). nat n)") auto

declare asn_put_many_bits.simps [simp del]

definition asn_put_aligned_flush :: "'k bit_outp \<Rightarrow> (int \<times> 'k bit_outp) option" where
  "asn_put_aligned_flush po =
     (let unused_bits = take_bit 3 (8 - take_bit 3 (po_nboff po));
          complete_bytes = po_buffer po + drop_bit 3 (po_nboff po + 7)
      in do {
        po \<leftarrow> (if unused_bits \<noteq> 0 then do {
                 b \<leftarrow> rd (po_tmpspace po) (po_buffer po + drop_bit 3 (po_nboff po));
                 po_store po (drop_bit 3 (po_nboff po)) (b AND ucast (push_bit unused_bits (NOT 0 :: u32))) }
               else Some po);
        chunk \<leftarrow> mem_load (po_tmpspace po) 0 complete_bytes;
        (r, key) \<leftarrow> po_output po (po_op_key po) chunk;
        if r < 0 then Some (-1, po\<lparr>po_op_key := key\<rparr>)
        else Some (0, po\<lparr>po_buffer := 0, po_nboff := 0, po_nbits := 8 * length (po_tmpspace po),
                        po_op_key := key, po_flushed_bytes := po_flushed_bytes po + complete_bytes\<rparr>) })"

section \<open>One store into the buffer\<close>

text \<open>
  \<open>k\<close> octets are overwritten from offset \<open>bp\<close>: the first keeps its first \<open>o'\<close> bits, the
  number \<open>w\<close> fills the rest.
\<close>

lemma list_update_run:
  assumes "bp + length ys \<le> length xs"
  shows "fold (\<lambda>i m. m[bp + i := ys ! i]) [0..<length ys] xs = take bp xs @ ys @ drop (bp + length ys) xs"
  using assms
proof (induction ys rule: rev_induct)
  case (snoc y ys)
  have "fold (\<lambda>i m. m[bp + i := (ys @ [y]) ! i]) [0..<length ys] xs
      = fold (\<lambda>i m. m[bp + i := ys ! i]) [0..<length ys] xs"
    by (rule fold_cong) (auto simp: nth_append)
  moreover have "drop (bp + length ys) xs = xs ! (bp + length ys) # drop (bp + Suc (length ys)) xs"
    using snoc.prems by (simp add: Cons_nth_drop_Suc)
  ultimately show ?case using snoc by (simp add: list_update_append)
qed simp

lemma unat_keep_bits:
  fixes b :: u8 and w :: u32
  assumes "j \<le> 8" "unat w < 2 ^ j"
  shows "unat (ucast ((ucast b AND NOT (push_bit j 1 - 1)) OR w) :: u8) = unat b div 2 ^ j * 2 ^ j + unat w"
proof -
  have e: "(ucast b AND NOT (push_bit j 1 - 1) :: u32) = push_bit j (drop_bit j (ucast b))"
    by (rule bit_word_eqI)
       (auto simp: bit_simps mask_eq_exp_minus_1 [symmetric])
  have lt: "unat b < 256" by simp
  have "unat b < 2 ^ 32" using less_trans [OF lt, of "2 ^ 32"] by simp
  then have tb: "take_bit 32 (unat b) = unat b" by (rule take_bit_nat_eq_self)
  have bj: "unat (push_bit j (drop_bit j (ucast b)) :: u32) = unat b div 2 ^ j * 2 ^ j"
  proof -
    have "unat b div 2 ^ j * 2 ^ j \<le> unat b" by (simp add: mult.commute)
    from le_less_trans [OF this lt] have "unat b div 2 ^ j * 2 ^ j < 2 ^ 32" by simp
    then show ?thesis
      by (simp only: unsigned_push_bit_eq unat_drop_bit_eq unsigned_ucast_eq)
         (simp add: take_bit_nat_eq_self push_bit_eq_mult drop_bit_eq_div tb)
  qed
  have "unat (push_bit j (drop_bit j (ucast b)) OR w :: u32) = unat b div 2 ^ j * 2 ^ j + unat w"
    using or_low_add_nat [OF assms(2), of "unat b div 2 ^ j"] by (simp only: unsigned_or_eq bj)
  moreover have "unat b div 2 ^ j * 2 ^ j + unat w < 256"
  proof -
    have "unat b div 2 ^ j < 2 ^ (8 - j)"
      using lt assms(1) by (simp add: less_mult_imp_div_less power_add [symmetric])
    then have "unat b div 2 ^ j + 1 \<le> 2 ^ (8 - j)" by simp
    then have "(unat b div 2 ^ j + 1) * 2 ^ j \<le> 2 ^ (8 - j) * 2 ^ j" by (rule mult_le_mono1)
    also have "\<dots> = 256" using assms(1) by (simp add: power_add [symmetric])
    finally show ?thesis using assms(2) by (simp add: algebra_simps)
  qed
  ultimately show ?thesis
    by (simp only: e unsigned_ucast_eq) (simp add: take_bit_nat_eq_self)
qed

lemma merged_octets_bits:
  assumes k: "octets = y # be_octets (k - 1) s" "0 < k" "o' \<le> 8"
    and y: "unat y = unat b div 2 ^ (8 - o') * 2 ^ (8 - o') + s div 2 ^ (8 * (k - 1))"
    and s: "s < 2 ^ (8 * k - o')"
  shows "octets_bits octets = take o' (be_bits 8 (unat b)) @ be_bits (8 * k - o') s"
proof -
  define t where "t = s div 2 ^ (8 * (k - 1))"
  have "8 * k - o' = (8 - o') + 8 * (k - 1)" using k(2,3) by (cases k) auto
  with s have t: "t < 2 ^ (8 - o')"
    by (simp add: t_def less_mult_imp_div_less power_add)
  have "be_bits 8 (unat y) = be_bits o' (unat b div 2 ^ (8 - o')) @ be_bits (8 - o') t"
  proof -
    have y': "unat y = unat b div 2 ^ (8 - o') * 2 ^ (8 - o') + t" by (simp add: y t_def)
    then have "unat y div 2 ^ (8 - o') = unat b div 2 ^ (8 - o')" using t by simp
    moreover have "be_bits (8 - o') (unat y) = be_bits (8 - o') t"
      using be_bits_mod_self [of "8 - o'" "unat y"] be_bits_mod_self [of "8 - o'" t] by (simp add: y')
    ultimately show ?thesis using be_bits_add [of o' "8 - o'" "unat y"] k(3) by simp
  qed
  then have "octets_bits octets = be_bits o' (unat b div 2 ^ (8 - o')) @ be_bits (8 - o') t @ be_bits (8 * (k - 1)) s"
    by (simp add: k(1) octets_bits_Cons)
  also have "be_bits (8 - o') t @ be_bits (8 * (k - 1)) s = be_bits (8 * k - o') s"
    using \<open>8 * k - o' = (8 - o') + 8 * (k - 1)\<close> by (simp add: be_bits_add t_def)
  finally show ?thesis using k(3) by (simp add: take_be_bits)
qed

lemma merged_prefix:
  assumes len: "length octets = k" "bp + k \<le> length tmp"
    and bits: "octets_bits octets = take o' (be_bits 8 (unat (tmp ! bp))) @ be_bits (8 * k - o') (v * 2 ^ (8 * k - (o' + n)))"
    and o: "o' \<le> 8" "o' + n \<le> 8 * k" "0 < k"
  shows "take (8 * bp + (o' + n)) (octets_bits (take bp tmp @ octets @ drop (bp + k) tmp))
    = take (8 * bp + o') (octets_bits tmp) @ be_bits n v"
proof -
  have "tmp = take bp tmp @ tmp ! bp # drop (Suc bp) tmp"
    using len o(3) by (simp add: id_take_nth_drop [symmetric])
  then have "octets_bits tmp = octets_bits (take bp tmp) @ be_bits 8 (unat (tmp ! bp)) @ octets_bits (drop (Suc bp) tmp)"
    by (metis octets_bits_Cons octets_bits_append)
  then have old: "take (8 * bp + o') (octets_bits tmp) = octets_bits (take bp tmp) @ take o' (be_bits 8 (unat (tmp ! bp)))"
    using len o by simp
  have "take n (be_bits (8 * k - o') (v * 2 ^ (8 * k - (o' + n)))) = be_bits n v"
    using o by (simp add: take_be_bits)
  then show ?thesis using old len o by (simp add: bits)
qed

section \<open>The writer as a list of bits\<close>

definition po_inv :: "'k bit_outp \<Rightarrow> bool" where
  "po_inv po \<longleftrightarrow> length (po_tmpspace po) = 32 \<and> 8 * po_buffer po + po_nbits po = 256 \<and>
     po_nboff po \<le> po_nbits po"

definition po_pending :: "'k bit_outp \<Rightarrow> bool list" where
  "po_pending po = take (8 * po_buffer po + po_nboff po) (octets_bits (po_tmpspace po))"

text \<open>All bits handed to the writer: \<open>taken\<close> reads the octets that the callback has accepted.\<close>

definition po_bits :: "('k \<Rightarrow> u8 list) \<Rightarrow> 'k bit_outp \<Rightarrow> bool list" where
  "po_bits taken po = octets_bits (taken (po_op_key po)) @ po_pending po"

text \<open>The number of bits that \<open>uper_encode\<close> reports.\<close>

definition po_count :: "'k bit_outp \<Rightarrow> nat" where
  "po_count po = 8 * po_flushed_bytes po + 8 * po_buffer po + po_nboff po"

definition po_emits :: "('k \<Rightarrow> u8 list) \<Rightarrow> 'k bit_outp \<Rightarrow> bool list \<Rightarrow> 'k bit_outp \<Rightarrow> bool" where
  "po_emits taken po bs po' \<longleftrightarrow> po_bits taken po' = po_bits taken po @ bs \<and>
     po_count po' = po_count po + length bs \<and> po_output po' = po_output po"

lemma po_emits_trans:
  "po_emits taken po xs po1 \<Longrightarrow> po_emits taken po1 ys po2 \<Longrightarrow> po_emits taken po (xs @ ys) po2"
  by (simp add: po_emits_def)

lemma po_emits_refl [simp]: "po_emits taken po [] po"
  by (simp add: po_emits_def)

lemma length_po_pending: "po_inv po \<Longrightarrow> length (po_pending po) = 8 * po_buffer po + po_nboff po"
  by (simp add: po_inv_def po_pending_def)

lemma po_normalize_inv [simp]: "po_inv po \<Longrightarrow> po_inv (po_normalize po)"
  by (auto simp: po_normalize_def po_inv_def drop_bit_eq_div take_bit_eq_mod)
     (use mult_div_mod_eq [of 8 "po_nboff po"] in linarith)+

lemma po_normalize_emits [simp]: "po_emits taken po [] (po_normalize po)"
  using mult_div_mod_eq [of 8 "po_nboff po"]
  by (simp add: po_normalize_def po_emits_def po_bits_def po_pending_def po_count_def drop_bit_eq_div
      take_bit_eq_mod algebra_simps)

lemma po_normalize_same [simp]:
  "po_output (po_normalize po) = po_output po" "po_op_key (po_normalize po) = po_op_key po"
  by (simp_all add: po_normalize_def)

text \<open>A store of \<open>k\<close> octets at the write position appends \<open>n\<close> bits.\<close>

lemma po_store_emits:
  assumes inv: "po_inv po" and off: "po_nboff po < 8" "po_nboff po + n \<le> 8 * k" "0 < k"
    and fits: "po_nboff po + n \<le> po_nbits po" "po_buffer po + k \<le> 32"
    and octets: "octets = y # be_octets (k - 1) (v * 2 ^ (8 * k - (po_nboff po + n)))"
    and v: "v < 2 ^ n"
    and y: "unat y = unat (po_tmpspace po ! po_buffer po) div 2 ^ (8 - po_nboff po) * 2 ^ (8 - po_nboff po)
      + v * 2 ^ (8 * k - (po_nboff po + n)) div 2 ^ (8 * (k - 1))"
    and po': "po' = po\<lparr>po_nboff := po_nboff po + n,
      po_tmpspace := take (po_buffer po) (po_tmpspace po) @ octets @ drop (po_buffer po + k) (po_tmpspace po)\<rparr>"
  shows "po_inv po'" and "po_emits taken po (be_bits n v) po'"
proof -
  have len: "length octets = k" using octets off(3) by simp
  show "po_inv po'" using inv fits len by (simp add: po_inv_def po')
  have "v * 2 ^ (8 * k - (po_nboff po + n)) < 2 ^ (8 * k - po_nboff po)"
  proof -
    have "v * 2 ^ (8 * k - (po_nboff po + n)) < 2 ^ n * 2 ^ (8 * k - (po_nboff po + n))"
      using v by simp
    also have "\<dots> = 2 ^ (8 * k - po_nboff po)" using off(2) by (simp add: power_add [symmetric])
    finally show ?thesis .
  qed
  with merged_octets_bits [OF octets off(3) _ y] off(1)
  have "octets_bits octets = take (po_nboff po) (be_bits 8 (unat (po_tmpspace po ! po_buffer po)))
      @ be_bits (8 * k - po_nboff po) (v * 2 ^ (8 * k - (po_nboff po + n)))" by simp
  from merged_prefix [OF len _ this] fits inv off
  show "po_emits taken po (be_bits n v) po'"
    by (simp add: po_emits_def po_bits_def po_pending_def po_count_def po' po_inv_def algebra_simps)
qed

lemma list_update_runs:
  "bp + 1 \<le> length xs \<Longrightarrow> xs[bp := a] = take bp xs @ [a] @ drop (bp + 1) xs"
  "bp + 2 \<le> length xs \<Longrightarrow> xs[bp := a, bp + 1 := b] = take bp xs @ [a, b] @ drop (bp + 2) xs"
  "bp + 3 \<le> length xs \<Longrightarrow> xs[bp := a, bp + 1 := b, bp + 2 := c] = take bp xs @ [a, b, c] @ drop (bp + 3) xs"
  "bp + 4 \<le> length xs \<Longrightarrow>
     xs[bp := a, bp + 1 := b, bp + 2 := c, bp + 3 := d] = take bp xs @ [a, b, c, d] @ drop (bp + 4) xs"
  using list_update_run [of bp "[a]" xs] list_update_run [of bp "[a, b]" xs]
    list_update_run [of bp "[a, b, c]" xs] list_update_run [of bp "[a, b, c, d]" xs]
  by (simp_all add: upt_rec eval_nat_numeral)

lemma unat_shifted:
  assumes "n + j \<le> 32"
  shows "unat (push_bit j (bits AND (push_bit n 1 - 1)) :: u32) = (unat bits mod 2 ^ n) * 2 ^ j"
proof -
  have m: "(push_bit n 1 - 1 :: u32) = mask n" by (simp add: mask_eq_exp_minus_1)
  have "unat bits mod 2 ^ n * 2 ^ j < 2 ^ n * 2 ^ j" by simp
  also have "(2::nat) ^ n * 2 ^ j \<le> 2 ^ 32" using assms using power_increasing [OF assms, of "2::nat"] by (simp add: power_add)
  finally have "take_bit 32 (unat bits mod 2 ^ n * 2 ^ j) = unat bits mod 2 ^ n * 2 ^ j"
    by (rule take_bit_nat_eq_self)
  then show ?thesis
    by (simp only: m take_bit_eq_mask [symmetric] unsigned_push_bit_eq unsigned_take_bit_eq)
       (simp add: take_bit_eq_mod [of n] push_bit_eq_mult)
qed

lemma ucast_u8: "(ucast (w :: u32) :: u8) = of_nat (unat w)"
  by (simp only: of_nat_unat)

lemma ucast_drop_bit_u8: "(ucast (drop_bit j (w :: u32)) :: u8) = of_nat (unat w div 2 ^ j)"
  by (simp only: ucast_u8 unat_shift_right)

text \<open>The non-recursive branches of \<open>asn_put_few_bits\<close>, once there is room.\<close>

definition put_octets :: "'k bit_outp \<Rightarrow> u32 \<Rightarrow> nat \<Rightarrow> nat \<Rightarrow> 'k bit_outp option" where
  "put_octets po bits n k =
     (let off = po_nboff po + n;
          omsk = NOT (push_bit (8 - po_nboff po) 1 - 1);
          w = push_bit (8 * k - off) (bits AND (push_bit n 1 - 1)) in do {
        po \<leftarrow> po_merge (po\<lparr>po_nboff := off\<rparr>) omsk (drop_bit (8 * (k - 1)) w);
        po \<leftarrow> (if 2 \<le> k then po_store po 1 (ucast (drop_bit (8 * (k - 2)) w)) else Some po);
        po \<leftarrow> (if 3 \<le> k then po_store po 2 (ucast (drop_bit (8 * (k - 3)) w)) else Some po);
        (if 4 \<le> k then po_store po 3 (ucast w) else Some po) })"

lemma put_octets_emits:
  assumes inv: "po_inv po" and off: "po_nboff po < 8" "po_nboff po + n \<le> 8 * k"
    and k: "8 * (k - 1) < po_nboff po + n" "0 < k" "k \<le> 4" and n: "n \<le> 31"
    and fits: "po_nboff po + n \<le> po_nbits po"
  shows "\<exists>po'. put_octets po bits n k = Some po' \<and> po_inv po' \<and> po_emits taken po (be_bits n (unat bits)) po' \<and>
    po_op_key po' = po_op_key po"
proof -
  define bp where "bp = po_buffer po"
  define tmp where "tmp = po_tmpspace po"
  define o' where "o' = po_nboff po"
  define v where "v = unat bits mod 2 ^ n"
  define w where "w = push_bit (8 * k - (o' + n)) (bits AND (push_bit n 1 - 1))"
  define s where "s = v * 2 ^ (8 * k - (o' + n))"
  define y where "y = (ucast ((ucast (tmp ! bp) AND NOT (push_bit (8 - o') 1 - 1)) OR drop_bit (8 * (k - 1)) w) :: u8)"
  define octets where "octets = y # be_octets (k - 1) s"
  have bpk: "bp + k \<le> 32" using inv fits k by (auto simp: po_inv_def bp_def)
  have tl: "length tmp = 32" using inv by (simp add: po_inv_def tmp_def)
  have ws: "unat w = s" unfolding w_def s_def v_def o'_def
    by (rule unat_shifted) (use off k n in linarith)
  have "s < 2 ^ (8 * (k - 1)) * 2 ^ (8 - o')"
  proof -
    have "v * 2 ^ (8 * k - (o' + n)) < 2 ^ n * 2 ^ (8 * k - (o' + n))" by (simp add: v_def)
    also have "\<dots> = 2 ^ (8 * k - o')" using off(2) by (simp add: power_add [symmetric] o'_def)
    also have "8 * k - o' = 8 * (k - 1) + (8 - o')" using off(1) k(2) by (cases k) (auto simp: o'_def)
    finally show ?thesis by (simp add: s_def power_add)
  qed
  then have "s div 2 ^ (8 * (k - 1)) < 2 ^ (8 - o')"
    by (simp add: less_mult_imp_div_less mult.commute)
  then have y: "unat y = unat (tmp ! bp) div 2 ^ (8 - o') * 2 ^ (8 - o') + s div 2 ^ (8 * (k - 1))"
    using unat_keep_bits [of "8 - o'" "drop_bit (8 * (k - 1)) w" "tmp ! bp"]
    by (simp only: y_def unat_shift_right ws)
  define po' where "po' = po\<lparr>po_nboff := o' + n, po_tmpspace := take bp tmp @ octets @ drop (bp + k) tmp\<rparr>"
  have em: "po_inv po'" "po_emits taken po (be_bits n v) po'"
    using po_store_emits(1) [OF inv off k(2) fits, of octets y v po']
      po_store_emits(2) [OF inv off k(2) fits, of octets y v po' taken] bpk y
    by (simp_all add: bp_def tmp_def o'_def s_def octets_def po'_def v_def)
  have oct: "(ucast (drop_bit j w) :: u8) = of_nat (s div 2 ^ j)" "(ucast w :: u8) = of_nat s" for j
    by (simp_all only: ucast_u8 unat_shift_right ws)
  have step: "put_octets po bits n k = do {
      po \<leftarrow> Some (po\<lparr>po_nboff := o' + n, po_tmpspace := tmp[bp := y]\<rparr>);
      po \<leftarrow> (if 2 \<le> k then po_store po 1 (of_nat (s div 2 ^ (8 * (k - 2)))) else Some po);
      po \<leftarrow> (if 3 \<le> k then po_store po 2 (of_nat (s div 2 ^ (8 * (k - 3)))) else Some po);
      (if 4 \<le> k then po_store po 3 (of_nat s) else Some po) }"
    using tl bpk k(2) oct unfolding put_octets_def Let_def w_def [symmetric] o'_def [symmetric]
    by (simp add: po_merge_def po_store_def bp_def [symmetric] tmp_def [symmetric] y_def)
  consider "k = 1" | "k = 2" | "k = 3" | "k = 4" using k by linarith
  then have "put_octets po bits n k = Some po'"
  proof cases
    case 1
    with tl bpk show ?thesis
      using list_update_runs(1) [of bp tmp y]
      unfolding step by (simp add: po'_def octets_def bp_def [symmetric] tmp_def [symmetric])
  next
    case 2
    with tl bpk show ?thesis
      using list_update_runs(2) [of bp tmp y "of_nat s"]
      unfolding step by (simp add: po'_def octets_def po_store_def bp_def [symmetric] tmp_def [symmetric])
  next
    case 3
    with tl bpk show ?thesis
      using list_update_runs(3) [of bp tmp y "of_nat (s div 256)" "of_nat s"]
      unfolding step by (simp add: po'_def octets_def po_store_def bp_def [symmetric] tmp_def [symmetric]
          be_octets_numerals)
  next
    case 4
    with tl bpk show ?thesis
      using list_update_runs(4) [of bp tmp y "of_nat (s div 65536)" "of_nat (s div 256)" "of_nat s"]
      unfolding step by (simp add: po'_def octets_def po_store_def bp_def [symmetric] tmp_def [symmetric]
          be_octets_numerals)
  qed
  with em show ?thesis by (auto simp: po'_def v_def)
qed

lemma put_few_bits_octets:
  assumes "0 < n" "n \<le> 31"
    and room: "po_make_room (po_normalize po0) n = Some (Inr po)"
    and k: "8 * (k - 1) < po_nboff po + n" "po_nboff po + n \<le> 8 * k" "k \<le> 4" "po_nboff po + n \<le> 31" "0 < k"
  shows "asn_put_few_bits po0 bits (int n) = map_option (\<lambda>po. (0, po)) (put_octets po bits n k)"
proof -
  consider "k = 1" | "k = 2" | "k = 3" | "k = 4" using k by linarith
  then show ?thesis
    using assms
    by cases
      (subst asn_put_few_bits.simps,
       simp add: Let_def put_octets_def map_conv_bind_option bind_assoc comp_def del: push_bit_of_1)+
qed

text \<open>A writer in good order on a given callback.\<close>

definition po_ok :: "'k consumer \<Rightarrow> ('k \<Rightarrow> bool) \<Rightarrow> 'k bit_outp \<Rightarrow> bool" where
  "po_ok cb kinv po \<longleftrightarrow> po_inv po \<and> po_output po = cb \<and> kinv (po_op_key po)"

text \<open>The callback turns octets down in some state.\<close>

definition cb_refuses :: "'k consumer \<Rightarrow> ('k \<Rightarrow> bool) \<Rightarrow> bool" where
  "cb_refuses cb kinv \<longleftrightarrow> (\<exists>k bs r k'. kinv k \<and> cb k bs = Some (r, k') \<and> r < 0)"

text \<open>
  \<open>res\<close> is what a writing function returns: it never faults, it keeps the writer in order, and
  it returns \<open>ok\<close> having appended exactly \<open>bs\<close>, or \<open>-1\<close> because the callback refused.
\<close>

definition po_puts ::
  "'k consumer \<Rightarrow> ('k \<Rightarrow> u8 list) \<Rightarrow> ('k \<Rightarrow> bool) \<Rightarrow> 'k bit_outp \<Rightarrow> int \<Rightarrow> bool list \<Rightarrow> (int \<times> 'k bit_outp) option \<Rightarrow> bool" where
  "po_puts cb taken kinv po ok bs res \<longleftrightarrow> (\<exists>r po'. res = Some (r, po') \<and> po_ok cb kinv po' \<and>
     (r = ok \<and> po_emits taken po bs po' \<or> r = -1 \<and> cb_refuses cb kinv))"

text \<open>One write after another, as the code chains them: a failure of the first is returned.\<close>

lemma po_puts_then:
  assumes "po_puts cb taken kinv po 0 xs res"
    and "\<And>po1. po_ok cb kinv po1 \<Longrightarrow> po_puts cb taken kinv po1 ok ys (g po1)"
  shows "po_puts cb taken kinv po ok (xs @ ys) (res \<bind> (\<lambda>(r, po). if r \<noteq> 0 then Some (-1, po) else g po))"
  using assms(1) unfolding po_puts_def
proof (elim exE conjE disjE)
  fix r po1 assume 1: "res = Some (r, po1)" "po_ok cb kinv po1" "r = 0" "po_emits taken po xs po1"
  from assms(2) [OF 1(2)] obtain r2 po2 where
    2: "g po1 = Some (r2, po2)" "po_ok cb kinv po2" "r2 = ok \<and> po_emits taken po1 ys po2 \<or> r2 = -1 \<and> cb_refuses cb kinv"
    unfolding po_puts_def by blast
  with 1 po_emits_trans [OF 1(4)] show "\<exists>r po'. res \<bind> (\<lambda>(r, po). if r \<noteq> 0 then Some (-1, po) else g po) = Some (r, po') \<and>
      po_ok cb kinv po' \<and> (r = ok \<and> po_emits taken po (xs @ ys) po' \<or> r = -1 \<and> cb_refuses cb kinv)"
    by auto
qed auto

text \<open>Only the zero result matters to a caller that tests for it.\<close>

lemma po_puts_result:
  assumes "po_puts cb taken kinv po 0 bs res"
  shows "po_puts cb taken kinv po ok bs (res \<bind> (\<lambda>(r, po). Some (if r \<noteq> 0 then -1 else ok, po)))"
  using assms unfolding po_puts_def by auto

lemma po_puts_Nil: "po_ok cb kinv po \<Longrightarrow> po_puts cb taken kinv po ok [] (Some (ok, po))"
  by (simp add: po_puts_def)

context bytes_consumer begin

abbreviation refuses :: bool where
  "refuses \<equiv> cb_refuses cb key_inv"

lemma make_room_ok:
  assumes ok: "po_ok cb key_inv po" and n: "po_nboff po < 8" "n \<le> 31"
  shows "(\<exists>po'. po_make_room po n = Some (Inl po') \<and> po_ok cb key_inv po' \<and> refuses) \<or>
    (\<exists>po'. po_make_room po n = Some (Inr po') \<and> po_ok cb key_inv po' \<and> po_emits taken po [] po' \<and>
       po_nboff po' = po_nboff po \<and> po_nboff po' + n \<le> po_nbits po')"
proof (cases "po_nbits po < po_nboff po + n")
  case False
  with ok show ?thesis by (auto simp: po_make_room_def)
next
  case True
  define bp where "bp = po_buffer po"
  define tmp where "tmp = po_tmpspace po"
  have inv: "length tmp = 32" "8 * bp + po_nbits po = 256" "po_nboff po \<le> po_nbits po"
    using ok by (simp_all add: po_ok_def po_inv_def tmp_def bp_def)
  then have bp: "bp \<le> 32" "po_nboff po \<noteq> 0 \<Longrightarrow> bp < 32" by linarith+
  have load: "mem_load tmp 0 bp = Some (take bp tmp)"
    using inv bp by (simp add: mem_load_def)
  from ok have ki: "key_inv (po_op_key po)" by (simp add: po_ok_def)
  from safe [OF this, of "take bp tmp"] obtain r key where
    cbk: "cb (po_op_key po) (take bp tmp) = Some (r, key)" "key_inv key" by blast
  show ?thesis
  proof (cases "r < 0")
    case True
    with cbk ki have refuses unfolding cb_refuses_def by blast
    with True \<open>po_nbits po < po_nboff po + n\<close> load cbk ok show ?thesis
      by (auto simp: po_make_room_def bp_def [symmetric] tmp_def [symmetric] po_ok_def po_inv_def)
  next
    case False
    with accepted [OF ki cbk(1)] have tk: "taken key = taken (po_op_key po) @ take bp tmp" by simp
    define tmp' where "tmp' = (if po_nboff po \<noteq> 0 then tmp[0 := tmp ! bp] else tmp)"
    define po' where "po' = po\<lparr>po_tmpspace := tmp', po_buffer := 0, po_nbits := 256, po_op_key := key,
      po_flushed_bytes := po_flushed_bytes po + bp\<rparr>"
    have l': "length tmp' = 32" using inv by (simp add: tmp'_def)
    have "po_make_room po n = Some (Inr po')"
      using \<open>po_nbits po < po_nboff po + n\<close> load cbk ok False bp inv l'
      by (simp add: po_make_room_def bp_def [symmetric] tmp_def [symmetric] po_ok_def tmp'_def po'_def)
    moreover have "take (po_nboff po) (octets_bits tmp') = drop (8 * bp) (take (8 * bp + po_nboff po) (octets_bits tmp))"
    proof (cases "po_nboff po = 0")
      case False
      with bp inv have "bp < length tmp" "tmp \<noteq> []" by auto
      then have "octets_bits (drop bp tmp) = be_bits 8 (unat (tmp ! bp)) @ octets_bits (drop (Suc bp) tmp)"
        by (simp add: octets_bits_Cons flip: Cons_nth_drop_Suc)
      moreover have "octets_bits tmp' = be_bits 8 (unat (tmp ! bp)) @ octets_bits (drop 1 tmp)"
        using \<open>tmp \<noteq> []\<close> False by (cases tmp) (auto simp: tmp'_def octets_bits_Cons nth_Cons')
      ultimately show ?thesis using n by (simp add: drop_take drop_octets_bits)
    qed simp
    then have "po_emits taken po [] po'"
      using tk inv bp take_octets_bits [of bp tmp]
      by (simp add: po_emits_def po_bits_def po_pending_def po_count_def po'_def bp_def tmp_def)
         (metis add_diff_cancel_left' le_add1 take_drop take_add drop_take)
    moreover have "po_ok cb key_inv po'"
      using l' ok cbk n by (simp add: po_ok_def po_inv_def po'_def)
    ultimately show ?thesis using n by (auto simp: po'_def)
  qed
qed

theorem put_few_bits_ok:
  assumes "po_ok cb key_inv po0" "n \<le> 31"
  shows "\<exists>r po'. asn_put_few_bits po0 bits (int n) = Some (r, po') \<and> po_ok cb key_inv po' \<and>
    (r = 0 \<and> po_emits taken po0 (be_bits n (unat bits)) po' \<or> r = -1 \<and> refuses)"
  using assms
proof (induction n arbitrary: po0 bits rule: less_induct)
  case (less n)
  show ?case
  proof (cases "n = 0")
    case True
    with less.prems show ?thesis by (subst asn_put_few_bits.simps) simp
  next
    case False
    have okn: "po_ok cb key_inv (po_normalize po0)" "po_nboff (po_normalize po0) < 8"
      using less.prems(1) by (simp_all add: po_ok_def)
    from make_room_ok [OF okn less.prems(2)] show ?thesis
    proof (elim disjE exE conjE)
      fix po' assume "po_make_room (po_normalize po0) n = Some (Inl po')" "po_ok cb key_inv po'" refuses
      with less.prems(2) False show ?thesis by (subst asn_put_few_bits.simps) simp
    next
      fix po assume room: "po_make_room (po_normalize po0) n = Some (Inr po)" "po_ok cb key_inv po"
        and e0: "po_emits taken (po_normalize po0) [] po"
        and nb: "po_nboff po = po_nboff (po_normalize po0)" "po_nboff po + n \<le> po_nbits po"
      have lt8: "po_nboff po < 8" using nb(1) by simp
      have e1: "po_emits taken po0 [] po"
        using po_emits_trans [OF po_normalize_emits e0] by simp
      show ?thesis
      proof (cases "po_nboff po + n \<le> 31")
        case True
        define k where "k = (po_nboff po + n + 7) div 8"
        have k: "8 * (k - 1) < po_nboff po + n" "po_nboff po + n \<le> 8 * k" "k \<le> 4" "0 < k"
          using False True unfolding k_def by linarith+
        have inv: "po_inv po" using room(2) by (simp add: po_ok_def)
        from put_octets_emits [OF inv lt8 k(2) k(1) k(4) k(3) less.prems(2) nb(2), of bits taken]
        obtain po' where po': "put_octets po bits n k = Some po'" "po_inv po'"
          "po_emits taken po (be_bits n (unat bits)) po'" "po_op_key po' = po_op_key po" by blast
        have "asn_put_few_bits po0 bits (int n) = Some (0, po')"
          using put_few_bits_octets [OF _ less.prems(2) room(1) k(1-3) True k(4)] False po'(1) by simp
        moreover have "po_ok cb key_inv po'" using room(2) po' by (simp add: po_ok_def po_emits_def)
        ultimately show ?thesis using po_emits_trans [OF e1 po'(3)] by simp
      next
        case big: False
        then have n24: "24 < n" using lt8 by linarith
        define w where "w = bits AND (push_bit n 1 - 1)"
        have w: "unat w = unat bits mod 2 ^ n"
          using unat_shifted [of n 0 bits] less.prems(2) by (simp add: w_def)
        have hi: "be_bits 24 (unat (drop_bit (n - 24) w)) @ be_bits (n - 24) (unat w) = be_bits n (unat bits)"
          using be_bits_add [of 24 "n - 24" "unat w"] n24 by (simp add: unat_shift_right w)
        have i: "int (n - 24) = int n - 24" using n24 by simp
        have eq: "asn_put_few_bits po0 bits (int n) =
          (case asn_put_few_bits po (drop_bit (n - 24) w) (int 24) of
             None \<Rightarrow> None
           | Some (r, po) \<Rightarrow>
               if r \<noteq> 0 then Some (-1, po)
               else case asn_put_few_bits po w (int (n - 24)) of
                      None \<Rightarrow> None
                    | Some (r, po) \<Rightarrow> Some (if r \<noteq> 0 then -1 else 0, po))"
          using room(1) less.prems(2) big n24 unfolding w_def i
          by (subst asn_put_few_bits.simps)
             (simp add: Let_def of_nat_diff nat_diff_distrib del: push_bit_of_1)
        from less.IH [of 24 po "drop_bit (n - 24) w"] n24 room(2)
        obtain r po1 where s1: "asn_put_few_bits po (drop_bit (n - 24) w) (int 24) = Some (r, po1)"
          "po_ok cb key_inv po1"
          "r = 0 \<and> po_emits taken po (be_bits 24 (unat (drop_bit (n - 24) w))) po1 \<or> r = -1 \<and> refuses"
          by auto
        show ?thesis
        proof (cases "r = 0")
          case False
          then have "asn_put_few_bits po0 bits (int n) = Some (-1, po1)" unfolding eq s1(1) by simp
          with False s1(2,3) show ?thesis by auto
        next
          case True
          have "n - 24 < n" "n - 24 \<le> 31" using less.prems(2) n24 by auto
          from less.IH [OF this(1) s1(2) this(2), of w]
          obtain r2 po2 where s2: "asn_put_few_bits po1 w (int (n - 24)) = Some (r2, po2)"
            "po_ok cb key_inv po2"
            "r2 = 0 \<and> po_emits taken po1 (be_bits (n - 24) (unat w)) po2 \<or> r2 = -1 \<and> refuses"
            by auto
          from True s1(3) have e24: "po_emits taken po0 (be_bits 24 (unat (drop_bit (n - 24) w))) po1"
            using po_emits_trans [OF e1] by simp
          have em: "po_emits taken po0 (be_bits n (unat bits)) po2" if "r2 = 0"
            using po_emits_trans [OF e24, of "be_bits (n - 24) (unat w)" po2] that s2(3) by (simp add: hi)
          have "asn_put_few_bits po0 bits (int n) = Some (if r2 \<noteq> 0 then -1 else 0, po2)"
            using True unfolding eq s1(1) by (simp add: s2(1))
          with em s2(2,3) show ?thesis by auto
        qed
      qed
    qed
  qed
qed

end

section \<open>Writing many bits\<close>

lemma or_octet: "push_bit 8 (w :: u32) OR ucast (b :: u8) = push_bit 8 w + ucast b"
proof -
  have "take_bit 8 (ucast b :: u32) = ucast b"
    by (rule bit_word_eqI) (auto simp: bit_simps dest: bit_imp_le_length)
  then show ?thesis using or_low_add [of 8 "ucast b :: u32" w] by (simp add: push_bit_eq_mult)
qed

lemma or_octets_val:
  "(push_bit 8 (ucast b0) OR ucast b1 :: u32) = of_nat (octets_val [b0, b1])"
  "(push_bit 8 (of_nat (octets_val [b0, b1])) OR ucast b2 :: u32) = of_nat (octets_val [b0, b1, b2])"
  "(push_bit 16 (ucast b0) OR push_bit 8 (ucast b1) OR ucast b2 :: u32) = of_nat (octets_val [b0, b1, b2])"
proof -
  show "(push_bit 8 (ucast b0) OR ucast b1 :: u32) = of_nat (octets_val [b0, b1])"
    using or_octet [of "ucast b0" b1] of_nat_octets_val(2) [of b0 b1] by simp
  show "(push_bit 8 (of_nat (octets_val [b0, b1])) OR ucast b2 :: u32) = of_nat (octets_val [b0, b1, b2])"
    by (simp only: or_octet) (simp add: octets_val_def unsigned_ucast_eq push_bit_eq_mult)
  have e: "(push_bit 16 (ucast b0) OR push_bit 8 (ucast b1) :: u32) = push_bit 8 (push_bit 8 (ucast b0) OR ucast b1)"
    by (simp add: push_bit_or)
  have "(push_bit 16 (ucast b0) OR push_bit 8 (ucast b1)) OR ucast b2 = (push_bit 8 (push_bit 8 (ucast b0) + ucast b1) + ucast b2 :: u32)"
    by (simp only: e or_octet)
  also have "\<dots> = of_nat (octets_val [b0, b1, b2])"
    by (simp add: octets_val_def unsigned_ucast_eq push_bit_eq_mult)
  finally show "(push_bit 16 (ucast b0) OR push_bit 8 (ucast b1) OR ucast b2 :: u32) = of_nat (octets_val [b0, b1, b2])"
    by (simp only: or.assoc)
qed

lemma unat_octets_val: "length bs \<le> 4 \<Longrightarrow> unat (of_nat (octets_val bs) :: u32) = octets_val bs"
proof -
  assume "length bs \<le> 4"
  then have "(256::nat) ^ length bs \<le> 256 ^ 4" by (intro power_increasing) auto
  then have "octets_val bs < 2 ^ 32" using octets_val_less [of bs] by simp
  then show ?thesis by (simp add: unsigned_of_nat take_bit_nat_eq_self)
qed

lemma first_octets:
  "1 \<le> length src \<Longrightarrow> take 1 src = [src ! 0]"
  "2 \<le> length src \<Longrightarrow> take 2 src = [src ! 0, src ! 1]"
  "3 \<le> length src \<Longrightarrow> take 3 src = [src ! 0, src ! 1, src ! 2]"
  using take_drop_rd [of 0 src] by (simp_all add: numeral_2_eq_2)

text \<open>The value that the last round hands to \<open>asn_put_few_bits\<close>.\<close>

lemma put_many_bits_tail:
  assumes n: "0 < n" "n < 24" "n \<le> 8 * length src"
  shows "\<exists>v. asn_put_many_bits po src (int n) = do {
      (r, po) \<leftarrow> asn_put_few_bits po v (int n); Some (if r \<noteq> 0 then -1 else 0, po) } \<and>
    be_bits n (unat v) = take n (octets_bits src)"
proof -
  define k where "k = (n + 7) div 8"
  have k: "n \<le> 8 * k" "k = 1 \<or> k = 2 \<or> k = 3" "k \<le> length src" "8 * k - n < 8" "8 < n \<longleftrightarrow> 2 \<le> k" "16 < n \<longleftrightarrow> 3 \<le> k"
    using n unfolding k_def by linarith+
  define bs where "bs = take k src"
  define v where "v = drop_bit (8 * k - n) (of_nat (octets_val bs) :: u32)"
  have lbs: "length bs = k" using k by (simp add: bs_def)
  have "unat v = octets_val bs div 2 ^ (8 * k - n)"
    using k lbs unfolding v_def unat_shift_right by (subst unat_octets_val) auto
  then have "be_bits n (unat v) = take n (octets_bits bs)"
    using k by (simp add: octets_bits_val take_be_bits lbs)
  also have "\<dots> = take n (octets_bits src)"
    using k take_octets_bits [of k src] by (simp add: bs_def min_def flip: take_octets_bits)
  finally have bits: "be_bits n (unat v) = take n (octets_bits src)" .
  have r: "int n AND 7 = int (n mod 8)" by (simp add: and_7_mod_8 zmod_int)
  have j: "(if int n AND 7 \<noteq> 0 then drop_bit (nat (8 - (int n AND 7))) w else w) = drop_bit (8 * k - n) w" for w :: u32
  proof -
    show ?thesis using octets_for_bits(1,2) [OF k_def] unfolding r by (auto simp: nat_diff_distrib)
  qed
  have "asn_put_many_bits po src (int n) = do {
      (r, po) \<leftarrow> asn_put_few_bits po v (int n); Some (if r \<noteq> 0 then -1 else 0, po) }"
  proof -
    have u: "v = drop_bit (8 * k - n) (of_nat (octets_val (take k src)))" by (simp add: v_def bs_def)
    have "rd src 0 = Some (src ! 0)" using n by (auto simp: rd_def)
    note s0 = this
    from k(2) show ?thesis
    proof (elim disjE)
      assume "k = 1"
      with n k show ?thesis using s0 first_octets(1) [of src] of_nat_octets_val(1) [of "src ! 0"]
        unfolding u by (subst asn_put_many_bits.simps) (simp add: j del: drop_bit_or push_bit_or)
    next
      assume "k = 2"
      with n k show ?thesis using s0 first_octets(2) [of src] or_octets_val(1) [of "src ! 0" "src ! 1"]
        unfolding u by (subst asn_put_many_bits.simps) (simp add: j del: drop_bit_or push_bit_or)
    next
      assume "k = 3"
      with n k show ?thesis using s0 first_octets(3) [of src] or_octets_val(1) [of "src ! 0" "src ! 1"]
          or_octets_val(2) [of "src ! 0" "src ! 1" "src ! 2"]
        unfolding u by (subst asn_put_many_bits.simps) (simp add: j del: drop_bit_or push_bit_or)
    qed
  qed
  with bits show ?thesis by blast
qed

context bytes_consumer begin

theorem put_many_bits_ok:
  assumes "po_ok cb key_inv po" "n \<le> 8 * length src"
  shows "\<exists>r po'. asn_put_many_bits po src (int n) = Some (r, po') \<and> po_ok cb key_inv po' \<and>
    (r = 0 \<and> po_emits taken po (take n (octets_bits src)) po' \<or> r = -1 \<and> refuses)"
  using assms
proof (induction n arbitrary: po src rule: less_induct)
  case (less n)
  consider "n = 0" | "24 \<le> n" | "0 < n" "n < 24" by linarith
  then show ?case
  proof cases
    case 1
    with less.prems show ?thesis by (subst asn_put_many_bits.simps) simp
  next
    case 2
    have l: "3 \<le> length src" using 2 less.prems by simp
    define v where "v = (of_nat (octets_val (take 3 src)) :: u32)"
    have "unat v = octets_val (take 3 src)" unfolding v_def by (rule unat_octets_val) simp
    then have vb: "be_bits 24 (unat v) = octets_bits (take 3 src)" using l by (simp add: octets_bits_val)
    from put_few_bits_ok [OF less.prems(1), of 24 v]
    obtain r po1 where 1: "asn_put_few_bits po v 24 = Some (r, po1)" "po_ok cb key_inv po1"
      "r = 0 \<and> po_emits taken po (octets_bits (take 3 src)) po1 \<or> r = -1 \<and> refuses" by (auto simp: vb)
    have s0: "rd src 0 = Some (src ! 0)" "rd src (Suc 0) = Some (src ! 1)" "rd src 2 = Some (src ! 2)"
      using l by (auto simp: rd_def)
    have eq: "asn_put_many_bits po src (int n) =
        (if r \<noteq> 0 then Some (-1, po1) else asn_put_many_bits po1 (drop 3 src) (int (n - 24)))"
      using 2 l 1(1) first_octets(3) [OF l] or_octets_val(3) [of "src ! 0" "src ! 1" "src ! 2"]
      by (subst asn_put_many_bits.simps) (simp add: v_def of_nat_diff s0)
    show ?thesis
    proof (cases "r = 0")
      case False
      with 1 eq show ?thesis by auto
    next
      case True
      have "n - 24 < n" "n - 24 \<le> 8 * length (drop 3 src)" using 2 less.prems by auto
      from less.IH [OF this(1) 1(2) this(2)] obtain r2 po2 where
        2: "asn_put_many_bits po1 (drop 3 src) (int (n - 24)) = Some (r2, po2)" "po_ok cb key_inv po2"
        "r2 = 0 \<and> po_emits taken po1 (take (n - 24) (octets_bits (drop 3 src))) po2 \<or> r2 = -1 \<and> refuses"
        by blast
      have "take n (octets_bits src) = octets_bits (take 3 src) @ take (n - 24) (octets_bits (drop 3 src))"
      proof -
        have "octets_bits src = octets_bits (take 3 src) @ octets_bits (drop 3 src)"
          by (metis append_take_drop_id octets_bits_append)
        then show ?thesis using \<open>24 \<le> n\<close> l by simp
      qed
      with True 1 2 eq po_emits_trans [of taken po "octets_bits (take 3 src)" po1] show ?thesis by auto
    qed
  next
    case 3
    from put_many_bits_tail [OF 3 less.prems(2)] obtain v where
      v: "asn_put_many_bits po src (int n) = do {
        (r, po) \<leftarrow> asn_put_few_bits po v (int n); Some (if r \<noteq> 0 then -1 else 0, po) }"
      "be_bits n (unat v) = take n (octets_bits src)" by blast
    from put_few_bits_ok [OF less.prems(1), of n v] 3 v show ?thesis by auto
  qed
qed

end

text \<open>The zero bits that \<open>asn_put_aligned_flush\<close> adds after \<open>n\<close> bits.\<close>

definition flush_pad :: "nat \<Rightarrow> nat" where
  "flush_pad n = (8 - n mod 8) mod 8"

lemma unat_keep_high:
  fixes b :: u8
  assumes "j < 8"
  shows "unat (b AND ucast (push_bit j (NOT 0 :: u32))) = unat b div 2 ^ j * 2 ^ j"
proof -
  have "b AND ucast (push_bit j (NOT 0 :: u32)) = push_bit j (drop_bit j b)"
    by (rule bit_word_eqI) (use assms in \<open>auto simp: bit_simps\<close>)
  moreover have "unat b div 2 ^ j * 2 ^ j < 2 ^ 8"
  proof -
    have "unat b div 2 ^ j * 2 ^ j \<le> unat b" by (simp add: mult.commute)
    also have "unat b < 2 ^ 8" by simp
    finally show ?thesis .
  qed
  ultimately show ?thesis
    by (simp only: unsigned_push_bit_eq unat_drop_bit_eq)
       (simp add: take_bit_nat_eq_self push_bit_eq_mult drop_bit_eq_div)
qed

lemma bits_keep_high:
  assumes "j \<le> 8"
  shows "be_bits 8 (x div 2 ^ j * 2 ^ j) = take (8 - j) (be_bits 8 x) @ replicate j False"
proof -
  have "be_bits (8 - j + j) (x div 2 ^ j * 2 ^ j) = be_bits (8 - j) (x div 2 ^ j) @ replicate j False"
    unfolding be_bits_add
    by (metis be_bits_0 be_bits_mod_self mod_mult_self2_is_0 nonzero_mult_div_cancel_right power_not_zero zero_neq_numeral)
  with assms show ?thesis by (simp add: take_be_bits)
qed

lemma flush_last_octet:
  assumes i: "i < length tmp" "r < 8"
    and b: "be_bits 8 (unat b') = take r (be_bits 8 (unat (tmp ! i))) @ replicate (8 - r) False"
  shows "octets_bits (take (Suc i) (tmp[i := b'])) = take (8 * i + r) (octets_bits tmp) @ replicate (8 - r) False"
proof -
  have "octets_bits tmp = octets_bits (take i tmp) @ be_bits 8 (unat (tmp ! i)) @ octets_bits (drop (Suc i) tmp)"
    using i by (metis id_take_nth_drop octets_bits_append octets_bits_Cons)
  then have "take (8 * i + r) (octets_bits tmp) = octets_bits (take i tmp) @ take r (be_bits 8 (unat (tmp ! i)))"
    using i by simp
  moreover have "take (Suc i) (tmp[i := b']) = take i tmp @ [b']"
    using i by (simp add: take_Suc_conv_app_nth)
  ultimately show ?thesis by (simp add: octets_bits_Cons b)
qed

text \<open>
  What a flush hands to the callback: \<open>flush_count\<close> octets of the buffer with the unused bits
  of the last one cleared.
\<close>

definition flush_count :: "'k bit_outp \<Rightarrow> nat" where
  "flush_count po = po_buffer po + po_nboff po div 8 + (if po_nboff po mod 8 = 0 then 0 else 1)"

definition flush_mem :: "'k bit_outp \<Rightarrow> u8 list" where
  "flush_mem po =
     (let i = po_buffer po + po_nboff po div 8 in
      if po_nboff po mod 8 = 0 then po_tmpspace po
      else (po_tmpspace po)[i := po_tmpspace po ! i AND ucast (push_bit (flush_pad (po_nboff po)) (NOT 0 :: u32))])"

lemma flush_pad_cases: "flush_pad n = (if n mod 8 = 0 then 0 else 8 - n mod 8)" "flush_pad n < 8"
  using mod_less_divisor [of 8 n] by (auto simp: flush_pad_def)

lemma flush_facts:
  assumes inv: "po_inv po"
  shows "length (flush_mem po) = 32" "flush_count po \<le> 32"
    "po_nboff po mod 8 \<noteq> 0 \<Longrightarrow> po_buffer po + po_nboff po div 8 < 32"
    "octets_bits (take (flush_count po) (flush_mem po)) = po_pending po @ replicate (flush_pad (po_nboff po)) False"
    "8 * flush_count po = 8 * po_buffer po + po_nboff po + flush_pad (po_nboff po)"
proof -
  define bp where "bp = po_buffer po"
  define tmp where "tmp = po_tmpspace po"
  define q r where "q = po_nboff po div 8" and "r = po_nboff po mod 8"
  have n: "po_nboff po = 8 * q + r" "r < 8" by (simp_all add: q_def r_def)
  have i: "length tmp = 32" "8 * bp + po_nbits po = 256" "po_nboff po \<le> po_nbits po"
    using inv by (simp_all add: po_inv_def tmp_def bp_def)
  have u: "flush_pad (po_nboff po) = (if r = 0 then 0 else 8 - r)" by (simp add: flush_pad_cases(1) r_def)
  have c: "flush_count po = (if r = 0 then bp + q else Suc (bp + q))"
    by (simp add: flush_count_def bp_def q_def r_def)
  have m: "flush_mem po = (if r = 0 then tmp else tmp[bp + q := tmp ! (bp + q) AND ucast (push_bit (8 - r) (NOT 0 :: u32))])"
    by (simp add: flush_mem_def Let_def flush_pad_cases(1) bp_def tmp_def q_def r_def)
  have lt: "r \<noteq> 0 \<Longrightarrow> bp + q < 32" using i n by auto
  then show "po_nboff po mod 8 \<noteq> 0 \<Longrightarrow> po_buffer po + po_nboff po div 8 < 32" by (simp add: bp_def q_def r_def)
  show "length (flush_mem po) = 32" using i by (simp add: m)
  show "flush_count po \<le> 32" using lt i n by (auto simp: c)
  show "8 * flush_count po = 8 * po_buffer po + po_nboff po + flush_pad (po_nboff po)"
    using n unfolding u c by (auto simp: bp_def)
  show "octets_bits (take (flush_count po) (flush_mem po)) = po_pending po @ replicate (flush_pad (po_nboff po)) False"
  proof (cases "r = 0")
    case True
    then have "flush_pad (po_nboff po) = 0" by (simp add: u)
    with True show ?thesis using n
      by (simp add: c m po_pending_def bp_def [symmetric] tmp_def [symmetric] add_mult_distrib2 flip: take_octets_bits)
  next
    case False
    with n(2) have "be_bits 8 (unat (tmp ! (bp + q) AND ucast (push_bit (8 - r) (NOT 0 :: u32))))
        = take r (be_bits 8 (unat (tmp ! (bp + q)))) @ replicate (8 - r) False"
      using unat_keep_high [of "8 - r" "tmp ! (bp + q)"] bits_keep_high [of "8 - r" "unat (tmp ! (bp + q))"] by simp
    moreover have "flush_pad (po_nboff po) = 8 - r" using False by (simp add: u)
    ultimately show ?thesis using flush_last_octet [of "bp + q" tmp r] lt [OF False] False i(1) n
      by (simp add: c m po_pending_def bp_def [symmetric] tmp_def [symmetric] add_mult_distrib2 ac_simps)
  qed
qed

context bytes_consumer begin

lemma aligned_flush_ok:
  assumes ok: "po_ok cb key_inv po"
  shows "\<exists>r po'. asn_put_aligned_flush po = Some (r, po') \<and> po_ok cb key_inv po' \<and>
    (r = 0 \<and> po_emits taken po (replicate (flush_pad (po_nboff po)) False) po' \<and> po_pending po' = [] \<or>
     r = -1 \<and> refuses)"
proof -
  have inv: "po_inv po" and ki: "key_inv (po_op_key po)" using ok by (simp_all add: po_ok_def)
  note F = flush_facts [OF inv]
  have u: "take_bit 3 (8 - take_bit 3 (po_nboff po)) = flush_pad (po_nboff po)"
    by (simp add: take_bit_eq_mod flush_pad_def)
  have q: "drop_bit 3 (po_nboff po) = po_nboff po div 8" by (simp add: drop_bit_eq_div)
  have c: "po_buffer po + drop_bit 3 (po_nboff po + 7) = flush_count po"
    using octets_for_bits(1,2) [of _ "po_nboff po", OF refl]
    by (auto simp: flush_count_def drop_bit_eq_div)
  from safe [OF ki, of "take (flush_count po) (flush_mem po)"] obtain rc key where
    cbk: "cb (po_op_key po) (take (flush_count po) (flush_mem po)) = Some (rc, key)" "key_inv key" by blast
  have eq: "asn_put_aligned_flush po =
     (if rc < 0 then Some (-1, po\<lparr>po_tmpspace := flush_mem po, po_op_key := key\<rparr>)
      else Some (0, po\<lparr>po_tmpspace := flush_mem po, po_buffer := 0, po_nboff := 0, po_nbits := 256,
                       po_op_key := key, po_flushed_bytes := po_flushed_bytes po + flush_count po\<rparr>))"
    using cbk ok F(1-3) inv flush_pad_cases [of "po_nboff po"] unfolding asn_put_aligned_flush_def Let_def u c q
    by (auto simp: po_ok_def flush_mem_def Let_def mem_load_def po_store_def po_inv_def split: if_splits)
  show ?thesis
  proof (cases "rc < 0")
    case True
    with cbk ki have refuses unfolding cb_refuses_def by blast
    with True eq ok cbk F(1) show ?thesis by (simp add: po_ok_def po_inv_def)
  next
    case False
    with accepted [OF ki cbk(1)] F(4)
    have "octets_bits (taken key) = po_bits taken po @ replicate (flush_pad (po_nboff po)) False"
      by (simp add: po_bits_def)
    then show ?thesis using False eq ok cbk F(1,5)
      by (simp add: po_ok_def po_inv_def po_emits_def po_bits_def po_pending_def po_count_def)
  qed
qed

end

context bytes_consumer begin

abbreviation puts where "puts \<equiv> po_puts cb taken key_inv"

lemma put_few_bits_puts:
  "po_ok cb key_inv po \<Longrightarrow> n \<le> 31 \<Longrightarrow> puts po 0 (be_bits n (unat bits)) (asn_put_few_bits po bits (int n))"
  using put_few_bits_ok [of po n bits] by (simp add: po_puts_def)

lemma be_bits_u32: "n \<le> 32 \<Longrightarrow> be_bits n (unat (of_nat v :: u32)) = be_bits n v"
  using be_bits_mod [of n 32 v] by (simp add: unsigned_of_nat take_bit_eq_mod)

text \<open>A number is handed over as an \<open>uint32_t\<close>; the bits written are those of the number.\<close>

lemma put_number:
  assumes "po_ok cb key_inv po" "n = int k" "k \<le> 31"
  shows "puts po 0 (be_bits k v) (asn_put_few_bits po (of_nat v) n)"
  using put_few_bits_puts [OF assms(1,3), of "of_nat v"] assms by (simp add: be_bits_u32)

lemma put_many_bits_puts:
  "po_ok cb key_inv po \<Longrightarrow> n \<le> 8 * length src \<Longrightarrow> puts po 0 (take n (octets_bits src)) (asn_put_many_bits po src (int n))"
  using put_many_bits_ok [of po n src] by (simp add: po_puts_def)

lemma aligned_flush_puts:
  "po_ok cb key_inv po \<Longrightarrow> puts po 0 (replicate (flush_pad (po_nboff po)) False) (asn_put_aligned_flush po)"
  using aligned_flush_ok [of po] by (auto simp: po_puts_def)

end

text \<open>The bits that were appended between two states of a writer.\<close>

definition po_new :: "('k \<Rightarrow> u8 list) \<Rightarrow> 'k bit_outp \<Rightarrow> 'k bit_outp \<Rightarrow> bool list" where
  "po_new taken po po' = drop (length (po_bits taken po)) (po_bits taken po')"

lemma po_puts_new:
  assumes "po_puts cb taken kinv po ok bs (Some (r, po'))" "r \<noteq> -1"
  shows "r = ok" "po_new taken po po' = bs" "po_ok cb kinv po'"
  using assms by (auto simp: po_puts_def po_new_def po_emits_def)

lemma dyn_never_refuses: "\<not> cb_refuses (encode_dyn_cb (\<lambda>_. True)) dyn_inv"
proof
  assume "cb_refuses (encode_dyn_cb (\<lambda>_. True)) dyn_inv"
  then obtain k bs r k' where 1: "dyn_inv k" "encode_dyn_cb (\<lambda>_. True) k bs = Some (r, k')" "r < 0"
    unfolding cb_refuses_def by blast
  have "dyn_grow (\<lambda>_. True) k (length bs) \<noteq> None" by (simp add: dyn_grow_def Let_def)
  with 1 show False by (auto simp: encode_dyn_cb_def bind_eq_Some_conv split: option.splits)
qed

text \<open>The stream over freshly written octets.\<close>

lemma new_contiguous:
  assumes "n \<le> 8 * length data"
  obtains pd where "asn_bit_data_new_contiguous data n = Some pd" "pd_inv pd"
    "pd_bits pd = take n (octets_bits data)" "pd_pos pd = 0"
proof -
  define k where "k = (n + 7) div 8"
  have k: "k \<le> length data" "n \<le> 8 * k" using assms unfolding k_def by linarith+
  then have "take n (octets_bits (take k data @ [0])) = take n (octets_bits data)"
    by (simp add: min_def flip: take_octets_bits)
  with k show thesis
    by (intro that [of "\<lparr>pd_mem = take k data @ [0], pd_buffer = 0, pd_nboff = 0, pd_nbits = n, pd_moved = 0\<rparr>"])
       (simp_all add: asn_bit_data_new_contiguous_def k_def [symmetric] Let_def pd_inv_def pd_bits_def pd_pos_def)
qed

section \<open>Properties of the bit streams\<close>

text \<open>A writer as every caller in the code sets it up.\<close>

definition po_start :: "'k consumer \<Rightarrow> 'k \<Rightarrow> 'k bit_outp" where
  "po_start cb key = \<lparr>po_buffer = 0, po_nboff = 0, po_nbits = 256, po_tmpspace = replicate 32 0,
     po_output = cb, po_op_key = key, po_flushed_bytes = 0\<rparr>"

definition dyn_start :: enc_dyn_arg where
  "dyn_start = \<lparr>dy_buffer = [], dy_length = 0, dy_allocated = 0\<rparr>"

lemma po_start_ok [simp]: "kinv key \<Longrightarrow> po_ok cb kinv (po_start cb key)"
  by (simp add: po_ok_def po_start_def po_inv_def)

lemma po_start_bits: "po_bits taken (po_start cb key) = octets_bits (taken key)"
  by (simp add: po_start_def po_bits_def po_pending_def)

text \<open>The growing buffer of an allocator that never fails accepts every write.\<close>

abbreviation "grow_cb \<equiv> encode_dyn_cb (\<lambda>_. True)"

definition dyn_writer :: "enc_dyn_arg bit_outp" where
  "dyn_writer = po_start grow_cb dyn_start"

lemma dyn_total:
  "po_puts grow_cb dyn_taken dyn_inv po ok bs res \<Longrightarrow>
     \<exists>po'. res = Some (ok, po') \<and> po_ok grow_cb dyn_inv po' \<and> po_emits dyn_taken po bs po' \<and> po_new dyn_taken po po' = bs"
  using dyn_never_refuses by (auto simp: po_puts_def po_new_def po_emits_def)

lemma dyn_start_inv [simp]: "dyn_inv dyn_start" "dyn_taken dyn_start = []"
  by (simp_all add: dyn_start_def dyn_inv_def dyn_taken_def)

text \<open>As a sink: what a run of an encoder delivers to the growing buffer.\<close>

lemma dyn_sink_never: "\<not> sink_refuses (encode_dyn_cb (\<lambda>_. True)) (\<lambda>k xs. dyn_inv k \<and> dyn_taken k = xs)"
  using dyn_never_refuses unfolding sink_refuses_def cb_refuses_def by blast

lemma dyn_delivered:
  assumes "sink_puts (encode_dyn_cb ca) (\<lambda>k xs. dyn_inv k \<and> dyn_taken k = xs) xs bs (Some (r, k'))" "0 \<le> r"
  shows "r = int (length bs)" "dyn_taken k' = xs @ bs"
  using assms by (auto simp: sink_puts_def)

lemma dyn_puts_total:
  assumes "sink_puts (encode_dyn_cb (\<lambda>_. True)) (\<lambda>k xs. dyn_inv k \<and> dyn_taken k = xs) xs bs res"
  obtains k' where "res = Some (int (length bs), k')" "dyn_inv k'" "dyn_taken k' = xs @ bs"
  using assms dyn_sink_never by (rule_tac sink_putsE [OF assms]) auto

lemma dyn_holds_start: "dyn_inv dyn_start \<and> dyn_taken dyn_start = []"
  by simp

lemma dyn_writer_ok [simp]: "po_ok grow_cb dyn_inv dyn_writer" "po_bits dyn_taken dyn_writer = []"
  by (simp_all add: dyn_writer_def po_start_bits)

text \<open>
  C16: reading up to 31 bits from a stream in good order never faults: it returns the value of
  the first \<open>n\<close> bits and moves past them, or, when fewer are left, \<open>-1\<close> and the stream as it was.
\<close>

theorem few_bits_read:
  assumes "pd_inv pd" "n \<le> 31"
  shows "if n \<le> length (pd_bits pd)
    then \<exists>pd'. asn_get_few_bits pd (int n) = Some (int (be_val (take n (pd_bits pd))), pd') \<and>
           pd_consumes pd (take n (pd_bits pd)) pd'
    else asn_get_few_bits pd (int n) = Some (-1, pd)"
  using get_few_bits_consumes [OF assms] pd_skip_consumes [OF assms(1)] by auto

definition pd_sample :: bit_data where
  "pd_sample = \<lparr>pd_mem = [0xA5, 0x0F, 0xFF], pd_buffer = 0, pd_nboff = 3, pd_nbits = 24, pd_moved = 0\<rparr>"

lemma pd_sample_facts: "pd_inv pd_sample" "length (pd_bits pd_sample) = 21"
  by (simp_all add: pd_sample_def pd_inv_def pd_bits_def)

theorem few_bits_read_witness:
  "\<exists>pd'. asn_get_few_bits pd_sample (int 7) = Some (int (be_val (take 7 (pd_bits pd_sample))), pd') \<and>
     pd_consumes pd_sample (take 7 (pd_bits pd_sample)) pd'"
  using few_bits_read [OF pd_sample_facts(1), of 7] by (simp add: pd_sample_facts(2) del: of_nat_numeral)

text \<open>
  \<open>asn_get_undo\<close> takes back a read of at most 31 bits: the stream holds the same bits again
  and \<open>moved\<close> is what it was.
\<close>

theorem undo_takes_back:
  assumes "pd_inv pd" "n \<le> 31" "n \<le> length (pd_bits pd)"
    and "asn_get_few_bits pd (int n) = Some (v, pd1)"
  shows "pd_inv (asn_get_undo pd1 (int n)) \<and> pd_bits (asn_get_undo pd1 (int n)) = pd_bits pd \<and>
    pd_moved (asn_get_undo pd1 (int n)) = pd_moved pd"
proof -
  have pd1: "pd1 = pd_skip n pd" using assms get_few_bits_consumes [OF assms(1,2)] by simp
  have q: "pd_inv (pd_normalize pd)" using assms(1) by simp
  have m: "pd_moved (pd_normalize pd) = pd_moved pd" by (simp add: pd_normalize_def)
  show ?thesis unfolding pd1
    using q pd_normalize_bits [of pd] m by (auto simp: asn_get_undo_def pd_skip_def pd_inv_def pd_bits_def)
qed

theorem undo_takes_back_witness:
  "\<exists>v pd1. asn_get_few_bits pd_sample (int 7) = Some (v, pd1) \<and> pd_bits (asn_get_undo pd1 (int 7)) = pd_bits pd_sample"
proof -
  obtain pd1 v where "asn_get_few_bits pd_sample (int 7) = Some (v, pd1)"
    using get_few_bits_consumes [OF pd_sample_facts(1), of 7] by (simp add: pd_sample_facts(2) del: of_nat_numeral)
  with undo_takes_back [OF pd_sample_facts(1) _ _ this] show ?thesis by (auto simp: pd_sample_facts(2))
qed

text \<open>
  C15: writing at most 31 bits through any callback that keeps the contract of
  \<open>asn_app_consume_bytes_f\<close> never faults: either exactly these bits are appended, or the
  callback refused and \<open>-1\<close> is returned. Shown for the growing buffer with an arbitrary
  allocator.
\<close>

theorem few_bits_written:
  assumes "po_ok (encode_dyn_cb can_alloc) dyn_inv po" "n \<le> 31"
  shows "\<exists>r po'. asn_put_few_bits po bits (int n) = Some (r, po') \<and>
    po_ok (encode_dyn_cb can_alloc) dyn_inv po' \<and>
    (r = 0 \<and> po_bits dyn_taken po' = po_bits dyn_taken po @ be_bits n (unat bits) \<and> po_count po' = po_count po + n
     \<or> r = -1 \<and> cb_refuses (encode_dyn_cb can_alloc) dyn_inv)"
  using dyn.put_few_bits_ok [OF assms, of bits] by (auto simp: po_emits_def)

theorem few_bits_written_witness:
  "\<exists>po'. asn_put_few_bits dyn_writer 5 (int 3) = Some (0, po') \<and> po_bits dyn_taken po' = [True, False, True]"
  using few_bits_written [OF dyn_writer_ok(1), of 3 5]
  by (auto simp: dyn_never_refuses be_bits_rec simp del: of_nat_numeral)

text \<open>
  C14: what \<open>asn_put_many_bits\<close> appends, \<open>asn_get_many_bits\<close> reads back: the same octets, the
  unused bits of the last one zero, whatever the bit position of the two streams.
\<close>

theorem many_bits_roundtrip:
  assumes "po_ok (encode_dyn_cb can_alloc) dyn_inv po" "n \<le> 8 * length src"
    and "asn_put_many_bits po src (int n) = Some (0, po')"
    and "pd_inv pd" "pd_bits pd = po_new dyn_taken po po' @ rest"
  shows "\<exists>pd'. asn_get_many_bits pd False (int n) = Some (0, left_octets (take n (octets_bits src)), pd') \<and>
    pd_inv pd' \<and> pd_bits pd' = rest"
proof -
  have new: "po_new dyn_taken po po' = take n (octets_bits src)"
    using po_puts_new(2) dyn.put_many_bits_puts [OF assms(1,2)] assms(3) by fastforce
  have len: "length (take n (octets_bits src)) = n" using assms(2) by simp
  with assms(5) new have "n \<le> length (pd_bits pd)" "take n (pd_bits pd) = take n (octets_bits src)" by simp_all
  with get_many_bits_left [OF assms(4), of n] show ?thesis
    using assms(5) new by (auto simp: pd_consumes_def)
qed

theorem many_bits_roundtrip_witness:
  "\<exists>po' pd pd'. asn_put_many_bits dyn_writer [0xDE, 0xAD, 0xBE, 0xEF] (int 32) = Some (0, po') \<and>
     asn_get_many_bits pd False (int 32) = Some (0, [0xDE, 0xAD, 0xBE, 0xEF], pd') \<and> pd_bits pd' = []"
proof -
  let ?src = "[0xDE, 0xAD, 0xBE, 0xEF] :: u8 list"
  from dyn_total [OF dyn.put_many_bits_puts [OF dyn_writer_ok(1), of 32 ?src]] obtain po' where
    po': "asn_put_many_bits dyn_writer ?src (int 32) = Some (0, po')" "po_new dyn_taken dyn_writer po' = octets_bits ?src"
    by auto
  from new_contiguous [of 32 ?src] obtain pd where pd: "pd_inv pd" "pd_bits pd = octets_bits ?src" by auto
  from many_bits_roundtrip [OF dyn_writer_ok(1) _ po'(1) pd(1), of "[]"] po' pd show ?thesis by auto
qed

text \<open>
  A stream that holds fewer bits than asked for makes \<open>asn_get_many_bits\<close> return \<open>-1\<close>; it
  never reads outside the object.
\<close>

theorem many_bits_starved:
  assumes "pd_inv pd" "length (pd_bits pd) < n"
  shows "\<exists>dst pd'. asn_get_many_bits pd False (int n) = Some (-1, dst, pd') \<and> pd_inv pd'"
  using get_many_bits_starved [OF assms] .

theorem many_bits_starved_witness:
  "\<exists>dst pd'. asn_get_many_bits pd_sample False (int 40) = Some (-1, dst, pd') \<and> pd_inv pd'"
  using many_bits_starved [OF pd_sample_facts(1), of 40] by (simp add: pd_sample_facts(2) del: of_nat_numeral)

text \<open>
  \<open>Asn_put_aligned_flush\<close> delivers everything written, with the last octet filled up by zero
  bits, and leaves an empty buffer; afterwards the callback has a whole number of octets.
\<close>

theorem aligned_flush_delivers:
  assumes "po_ok (encode_dyn_cb can_alloc) dyn_inv po"
    and "asn_put_aligned_flush po = Some (0, po')"
  shows "octets_bits (dyn_taken (po_op_key po')) = po_bits dyn_taken po @ replicate (flush_pad (po_nboff po)) False \<and>
    po_pending po' = [] \<and> po_ok (encode_dyn_cb can_alloc) dyn_inv po'"
  using dyn.aligned_flush_ok [OF assms(1)] assms(2) by (auto simp: po_emits_def po_bits_def)

theorem aligned_flush_delivers_witness:
  "\<exists>po1 po2. asn_put_few_bits dyn_writer 5 (int 3) = Some (0, po1) \<and>
     asn_put_aligned_flush po1 = Some (0, po2) \<and> po_pending po2 = []"
proof -
  from dyn_total [OF dyn.put_few_bits_puts [OF dyn_writer_ok(1), of 3 5]] obtain po1 where
    1: "asn_put_few_bits dyn_writer 5 (int 3) = Some (0, po1)" "po_ok grow_cb dyn_inv po1" by auto
  from dyn_total [OF dyn.aligned_flush_puts [OF 1(2)]] obtain po2 where
    "asn_put_aligned_flush po1 = Some (0, po2)" by auto
  with 1 aligned_flush_delivers [OF 1(2) this] show ?thesis by auto
qed

end
