(* ===== verification/Uper_Support.thy ===== *)
theory Uper_Support
  imports Bit_Outp
begin

unbundle bit_operations_syntax

text \<open>
  \<open>skeletons/uper_support.c\<close>: the length determinants, the (normally) small numbers and the
  constrained whole numbers of unaligned PER, and the rebasing of a signed range onto an
  unsigned one. Each encoding has a specification, the list of bits that X.691 asks for; the
  writing function appends exactly this list, the reading function inverts it.
\<close>


section \<open>Length determinants and small numbers\<close>

text \<open>
  \<open>*repeat\<close>, \<open>*need_eom\<close> and \<open>*out_value\<close> are returned next to the C result. A \<open>size_t\<close> that
  is added to an \<open>ssize_t\<close> makes the sum an unsigned 64-bit one.
\<close>

definition uper_get_length :: "bit_data \<Rightarrow> int \<Rightarrow> u64 \<Rightarrow> (int \<times> int \<times> bit_data) option" where
  "uper_get_length pd ebits lower_bound =
     (if 0 \<le> ebits \<and> ebits \<le> 16 then do {
        (value, pd) \<leftarrow> asn_get_few_bits pd ebits;
        Some (if 0 \<le> value then sint (of_int value + lower_bound) else value, 0, pd) }
      else do {
        (value, pd) \<leftarrow> asn_get_few_bits pd 8;
        if value AND 0x80 = 0 then Some (value AND 0x7F, 0, pd)
        else if value AND 0x40 = 0 then do {
          (low, pd) \<leftarrow> asn_get_few_bits pd 8;
          Some (push_bit 8 (value AND 0x3F) OR low, 0, pd) }
        else if value < 0 then Some (-1, 0, pd)
        else let value = value AND 0x3F
             in if value < 1 \<or> 4 < value then Some (-1, 0, pd)
                else Some (16384 * value, 1, pd) })"

definition uper_get_nslength :: "bit_data \<Rightarrow> (int \<times> bit_data) option" where
  "uper_get_nslength pd = do {
     (b, pd) \<leftarrow> asn_get_few_bits pd 1;
     if b = 0 then do {
       (v, pd) \<leftarrow> asn_get_few_bits pd 6;
       let len = v + 1;
       Some (if len \<le> 0 then -1 else len, pd) }
     else do {
       (len, repeat, pd) \<leftarrow> uper_get_length pd (-1) 0;
       Some (if 0 \<le> len \<and> repeat = 0 then len else -1, pd) } }"

definition uper_get_nsnnwn :: "bit_data \<Rightarrow> (int \<times> bit_data) option" where
  "uper_get_nsnnwn pd = do {
     (value, pd) \<leftarrow> asn_get_few_bits pd 7;
     if value AND 64 \<noteq> 0 then do {
       let value = push_bit 2 (value AND 63);
       (low, pd) \<leftarrow> asn_get_few_bits pd 2;
       let value = value OR low;
       if value AND 128 \<noteq> 0 then Some (-1, pd)
       else if value = 0 then Some (0, pd)
       else if 3 \<le> value then Some (-1, pd)
       else asn_get_few_bits pd (8 * value) }
     else Some (value, pd) }"

definition uper_put_nsnnwn :: "'k bit_outp \<Rightarrow> int \<Rightarrow> (int \<times> 'k bit_outp) option" where
  "uper_put_nsnnwn po n =
     (if n \<le> 63 then
        if n < 0 then Some (-1, po) else asn_put_few_bits po (of_int n) 7
      else
        let put = (\<lambda>bytes. do {
              (r, po) \<leftarrow> asn_put_few_bits po (of_int bytes) 8;
              if r \<noteq> 0 then Some (-1, po) else asn_put_few_bits po (of_int n) (8 * bytes) })
        in if n < 256 then put 1
           else if n < 65536 then put 2
           else if n < 256 * 65536 then put 3
           else Some (-1, po))"

function uper_get_constrained_whole_number ::
  "bit_data \<Rightarrow> u64 \<Rightarrow> int \<Rightarrow> (int \<times> u64 \<times> bit_data) option" where
  "uper_get_constrained_whole_number pd out_value nbits =
     (if nbits \<le> 31 then do {
        (half, pd) \<leftarrow> asn_get_few_bits pd nbits;
        if half < 0 then Some (-1, out_value, pd) else Some (0, of_int half, pd) }
      else if 64 < nbits then Some (-1, out_value, pd)
      else do {
        (half, pd) \<leftarrow> asn_get_few_bits pd 31;
        if half < 0 then Some (-1, out_value, pd)
        else do {
          (r, lhalf, pd) \<leftarrow> uper_get_constrained_whole_number pd 0 (nbits - 31);
          if r \<noteq> 0 then Some (-1, out_value, pd)
          else Some (0, push_bit (nat (nbits - 31)) (of_int half) OR lhalf, pd) } })"
  by pat_completeness auto
termination
  by (relation "measure (\<lambda>(pd, v, n). nat n)") auto

declare uper_get_constrained_whole_number.simps [simp del]

function uper_put_constrained_whole_number_u ::
  "'k bit_outp \<Rightarrow> u64 \<Rightarrow> int \<Rightarrow> (int \<times> 'k bit_outp) option" where
  "uper_put_constrained_whole_number_u po v nbits =
     (if nbits \<le> 31 then asn_put_few_bits po (ucast v) nbits
      else do {
        (r, po) \<leftarrow> uper_put_constrained_whole_number_u po (drop_bit 31 v) (nbits - 31);
        if r \<noteq> 0 then Some (-1, po) else asn_put_few_bits po (ucast v) 31 })"
  by pat_completeness auto
termination
  by (relation "measure (\<lambda>(po, v, n). nat n)") auto

declare uper_put_constrained_whole_number_u.simps [simp del]

definition uper_put_length :: "'k bit_outp \<Rightarrow> nat \<Rightarrow> (int \<times> int \<times> 'k bit_outp) option" where
  "uper_put_length po len =
     (if len \<le> 127 then do {
        (r, po) \<leftarrow> asn_put_few_bits po (of_nat len) 8;
        Some (if r \<noteq> 0 then -1 else int len, 0, po) }
      else if len < 16384 then do {
        (r, po) \<leftarrow> asn_put_few_bits po (of_nat (len OR 0x8000)) 16;
        Some (if r \<noteq> 0 then -1 else int len, 0, po) }
      else do {
        let need_eom = (if len AND 16383 = 0 then 1 else 0);
        let blocks = drop_bit 14 len;
        let need_eom = (if 4 < blocks then 0 else need_eom);
        let blocks = (if 4 < blocks then 4 else blocks);
        (r, po) \<leftarrow> asn_put_few_bits po (of_nat (0xC0 OR blocks)) 8;
        Some (if r \<noteq> 0 then -1 else int (push_bit 14 blocks), need_eom, po) })"

definition uper_put_nslength :: "'k bit_outp \<Rightarrow> nat \<Rightarrow> (int \<times> 'k bit_outp) option" where
  "uper_put_nslength po len =
     (if len \<le> 64 then
        if len = 0 then Some (-1, po)
        else do {
          (r, po) \<leftarrow> asn_put_few_bits po (of_nat (len - 1)) 7;
          Some (if r \<noteq> 0 then -1 else 0, po) }
      else do {
        (r, need_eom, po) \<leftarrow> uper_put_length po len;
        Some (if r \<noteq> int len \<or> need_eom \<noteq> 0 then -1 else 0, po) })"

section \<open>Ranges\<close>

definition per__imax_range :: "int \<Rightarrow> int \<Rightarrow> (int \<times> u64) option" where
  "per__imax_range lb ub =
     (if (ub < 0) = (lb < 0) then do { d \<leftarrow> s64 (ub - lb); Some (0, of_int d) }
      else if lb < 0 then do {
        c_assert (0 \<le> ub);
        l1 \<leftarrow> s64 (lb + 1); n \<leftarrow> s64 (- l1);
        Some (0, 1 + (of_int ub + of_int n)) }
      else None)"

definition per_imax_range_rebase :: "int \<Rightarrow> int \<Rightarrow> int \<Rightarrow> u64 \<Rightarrow> (int \<times> u64) option" where
  "per_imax_range_rebase v lb ub output' = do {
     c_assert (lb \<le> ub);
     if v < lb \<or> ub < v then Some (-1, output')
     else do {
       (r, range) \<leftarrow> per__imax_range lb ub;
       if r < 0 then Some (-1, output')
       else if (v < 0) = (lb < 0) then do { d \<leftarrow> s64 (v - lb); Some (0, of_int d) }
       else if v < 0 then do {
         v1 \<leftarrow> s64 (v + 1); n \<leftarrow> s64 (- v1);
         let rebased = 1 + of_int n + of_int lb;
         c_assert (rebased \<le> range);
         Some (0, rebased) }
       else if lb < 0 then do {
         l1 \<leftarrow> s64 (lb + 1); n \<leftarrow> s64 (- l1);
         let rebased = 1 + of_int n + of_int v;
         c_assert (rebased \<le> range);
         Some (0, rebased) }
       else None } }"

text \<open>\<open>long\<close> and \<open>intmax_t\<close> have the same width, so the two wrappers copy their values.\<close>

definition per_long_range_rebase :: "int \<Rightarrow> int \<Rightarrow> int \<Rightarrow> u64 \<Rightarrow> (int \<times> u64) option" where
  "per_long_range_rebase v lb ub output' = per_imax_range_rebase v lb ub output'"

definition per_imax_range_unrebase :: "u64 \<Rightarrow> int \<Rightarrow> int \<Rightarrow> int \<Rightarrow> (int \<times> int) option" where
  "per_imax_range_unrebase inp lb ub outp = do {
     (r, range) \<leftarrow> per__imax_range lb ub;
     if r \<noteq> 0 then Some (-1, outp)
     else if range < inp then Some (-1, outp)
     else if uint inp \<le> INTMAX_MAX then do { v \<leftarrow> s64 (uint inp + lb); Some (0, v) }
     else do {
       a \<leftarrow> s64 (lb + INTMAX_MAX); b \<leftarrow> s64 (a + 1);
       v \<leftarrow> s64 (b + sint (inp - of_int INTMAX_MAX - 1));
       Some (0, v) } }"

definition per_long_range_unrebase :: "u64 \<Rightarrow> int \<Rightarrow> int \<Rightarrow> int \<Rightarrow> (int \<times> int) option" where
  "per_long_range_unrebase inp lb ub outp = per_imax_range_unrebase inp lb ub outp"

lemma s64_in [simp]: "INTMAX_MIN \<le> x \<Longrightarrow> x \<le> INTMAX_MAX \<Longrightarrow> s64 x = Some x"
  by (simp add: s64_def)

lemma uint_of_int_u64: "0 \<le> a \<Longrightarrow> a < 2 ^ 64 \<Longrightarrow> uint (of_int a :: u64) = a"
  by (simp add: unsigned_of_int take_bit_int_eq_self)

lemma imax_range:
  assumes "INTMAX_MIN \<le> lb" "lb \<le> ub" "ub \<le> INTMAX_MAX"
  shows "per__imax_range lb ub = Some (0, of_int (ub - lb))"
  using assms by (auto simp: per__imax_range_def limits_defs s64_def)

lemma u64_le: "0 \<le> a \<Longrightarrow> a \<le> b \<Longrightarrow> b < 2 ^ 64 \<Longrightarrow> (of_int a :: u64) \<le> of_int b"
  by (simp add: word_le_def unsigned_of_int take_bit_int_eq_self)

lemma imax_rebase:
  assumes "INTMAX_MIN \<le> lb" "lb \<le> ub" "ub \<le> INTMAX_MAX"
  shows "per_imax_range_rebase v lb ub out =
    (if lb \<le> v \<and> v \<le> ub then Some (0, of_int (v - lb)) else Some (-1, out))"
proof (cases "lb \<le> v \<and> v \<le> ub")
  case False
  with assms show ?thesis by (auto simp: per_imax_range_rebase_def)
next
  case True
  with assms have le: "(of_int (v - lb) :: u64) \<le> of_int (ub - lb)"
    by (intro u64_le) (auto simp: limits_defs)
  show ?thesis
    using assms True le unfolding per_imax_range_rebase_def imax_range [OF assms]
    by (auto simp: limits_defs s64_def Let_def)
qed

lemma imax_unrebase:
  assumes b: "INTMAX_MIN \<le> lb" "lb \<le> ub" "ub \<le> INTMAX_MAX"
  shows "per_imax_range_unrebase inp lb ub out =
    (if uint inp \<le> ub - lb then Some (0, lb + uint inp) else Some (-1, out))"
proof -
  have r: "(of_int (ub - lb) :: u64) < inp \<longleftrightarrow> \<not> uint inp \<le> ub - lb"
    using b uint_of_int_u64 [of "ub - lb"] by (simp add: word_less_def limits_defs not_le del: of_int_diff)
  have "0 \<le> uint inp" by simp
  then have nn: "INTMAX_MIN \<le> uint inp + lb" using b by linarith
  show ?thesis
  proof (cases "uint inp \<le> ub - lb")
    case False
    then show ?thesis unfolding per_imax_range_unrebase_def imax_range [OF b] using r by simp
  next
    case le: True
    show ?thesis
    proof (cases "uint inp \<le> INTMAX_MAX")
      case True
      with le r b nn show ?thesis unfolding per_imax_range_unrebase_def imax_range [OF b]
        by (simp add: limits_defs s64_def)
    next
      case False
      have "inp = of_int (uint inp)" by simp
      then have "inp - of_int INTMAX_MAX - 1 = of_int (uint inp - INTMAX_MAX - 1)" by simp
      moreover have "sint (of_int (uint inp - INTMAX_MAX - 1) :: u64) = uint inp - INTMAX_MAX - 1"
        using False unsigned_less [of inp, where ?'a = int]
        by (subst signed_of_int) (auto intro!: signed_take_bit_int_eq_self simp: limits_defs)
      ultimately show ?thesis using False le r b nn unfolding per_imax_range_unrebase_def imax_range [OF b]
        by (simp add: limits_defs s64_def)
    qed
  qed
qed

subsection \<open>Length determinants\<close>

definition uper_length_bits :: "nat \<Rightarrow> bool list" where
  "uper_length_bits n =
     (if n \<le> 127 then be_bits 8 n
      else if n < 16384 then [True, False] @ be_bits 14 n
      else [True, True] @ be_bits 6 (min 4 (n div 16384)))"

text \<open>The items that follow the determinant.\<close>

definition uper_length_unit :: "nat \<Rightarrow> nat" where
  "uper_length_unit n = (if n < 16384 then n else 16384 * min 4 (n div 16384))"

lemma be_bits_consts:
  "be_bits 2 2 = [True, False]" "be_bits 2 3 = [True, True]"
  by (simp_all add: be_bits_rec)

lemma length_bits_16: "n < 16384 \<Longrightarrow> [True, False] @ be_bits 14 n = be_bits 16 (n OR 0x8000)"
  using be_bits_split [of n 14 2 2] or_low_add_nat [of n 15 1]
  by (simp add: be_bits_consts or.commute add.commute)

lemma length_bits_8: "b < 64 \<Longrightarrow> [True, True] @ be_bits 6 b = be_bits 8 (0xC0 OR b)"
  using be_bits_split [of b 6 2 3] or_low_add_nat [of b 6 3]
  by (simp add: be_bits_consts)

context bytes_consumer begin

lemma put_length_ok:
  assumes "po_ok cb key_inv po"
  shows "\<exists>r po'. uper_put_length po n =
      Some (r, if 16384 \<le> n \<and> n div 16384 \<le> 4 \<and> n mod 16384 = 0 then 1 else 0, po') \<and>
    po_ok cb key_inv po' \<and>
    (r = int (uper_length_unit n) \<and> po_emits taken po (uper_length_bits n) po' \<or> r = -1 \<and> refuses)"
proof -
  consider "n \<le> 127" | "127 < n" "n < 16384" | "16384 \<le> n" by linarith
  then show ?thesis
  proof cases
    case 1
    with put_number [OF assms, of 8 8 n] show ?thesis
      by (auto simp: po_puts_def uper_put_length_def uper_length_bits_def uper_length_unit_def)
  next
    case 2
    with put_number [OF assms, of 16 16 "n OR 0x8000"] show ?thesis
      by (auto simp: po_puts_def uper_put_length_def uper_length_bits_def uper_length_unit_def length_bits_16
          simp del: append_Cons)
  next
    case 3
    have d: "drop_bit 14 n = n div 16384" "push_bit 14 m = 16384 * m" for m :: nat
      by (simp_all add: drop_bit_eq_div push_bit_eq_mult)
    have m: "n AND 16383 = n mod 16384"
      using take_bit_eq_mask [of 14 n] by (simp add: take_bit_eq_mod mask_eq_exp_minus_1)
    have e: "(if 4 < n div 16384 then 4 else n div 16384) = min 4 (n div 16384)" by simp
    have l: "[True, True] @ be_bits 6 (min 4 (n div 16384)) = be_bits 8 (0xC0 OR min 4 (n div 16384))"
      by (rule length_bits_8) simp
    have s: "uper_length_bits n = be_bits 8 (0xC0 OR min 4 (n div 16384))"
      using 3 l by (simp add: uper_length_bits_def)
    from put_number [OF assms, of 8 8 "0xC0 OR min 4 (n div 16384)"] obtain r po' where
      p: "asn_put_few_bits po (of_nat (0xC0 OR min 4 (n div 16384))) 8 = Some (r, po')" "po_ok cb key_inv po'"
      "r = 0 \<and> po_emits taken po (uper_length_bits n) po' \<or> r = -1 \<and> refuses"
      by (auto simp: po_puts_def s)
    with 3 show ?thesis
      by (auto simp: uper_put_length_def uper_length_unit_def d m e Let_def simp del: of_nat_or_eq)
  qed
qed

end

lemma get_length_ok:
  assumes "pd_inv pd" "pd_bits pd = uper_length_bits n @ rest"
  obtains pd' where "uper_get_length pd (-1) lb = Some (int (uper_length_unit n), if n < 16384 then 0 else 1, pd')"
    "pd_consumes pd (uper_length_bits n) pd'" "pd_bits pd' = rest"
proof -
  consider "n \<le> 127" | "127 < n" "n < 16384" | "16384 \<le> n" by linarith
  then show thesis
  proof cases
    case 1
    have "uper_length_bits n = be_bits 8 n" using 1 by (simp add: uper_length_bits_def)
    with get_number [OF assms(1), of 8 n rest 8] assms 1 show thesis
      by (intro that [of "pd_skip 8 pd"])
         (auto simp: uper_get_length_def uper_length_unit_def int_bit_tests int_masks)
  next
    case 2
    have s: "uper_length_bits n = be_bits 8 (128 + n div 256) @ be_bits 8 (n mod 256)"
    proof -
      have "n OR 0x8000 = (128 + n div 256) * 2 ^ 8 + n mod 256"
        using 2 or_low_add_nat [of n 15 1] by (simp add: or.commute)
      with 2 length_bits_16 [of n] be_bits_split [of "n mod 256" 8 8 "128 + n div 256"]
      show ?thesis by (simp add: uper_length_bits_def)
    qed
    have "128 + n div 256 < 256" using 2 by linarith
    with get_number [OF assms(1), of 8 "128 + n div 256" "be_bits 8 (n mod 256) @ rest" 8] assms(2)
    have 1: "asn_get_few_bits pd 8 = Some (int (128 + n div 256), pd_skip 8 pd)"
        "pd_consumes pd (be_bits 8 (128 + n div 256)) (pd_skip 8 pd)"
        "pd_bits (pd_skip 8 pd) = be_bits 8 (n mod 256) @ rest" "pd_inv (pd_skip 8 pd)" by (simp_all add: s)
    note second = get_number [OF 1(4,3), of 8, simplified]
    define h where "h = n div 256"
    have h: "h < 64" "n = h * 256 + n mod 256" using 2 by (simp_all add: h_def)
    have t: "(128 + int h) AND 128 \<noteq> 0" "(128 + int h) AND 64 = 0" "(128 + int h) AND 63 = int h"
    proof -
      have "(128 + int h) div 128 = 1" "(128 + int h) div 64 = 2"
        using h(1) by linarith+
      moreover from this have "(128 + int h) mod 64 = int h" by (simp add: minus_div_mult_eq_mod [symmetric])
      ultimately show "(128 + int h) AND 128 \<noteq> 0" "(128 + int h) AND 64 = 0" "(128 + int h) AND 63 = int h"
        by (simp_all add: int_bit_tests int_masks)
    qed
    have "push_bit 8 (int h) OR int (n mod 256) = int n"
      using or_low_add_int [of "int (n mod 256)" 8 "int h"] by (subst (2) h(2)) (simp add: push_bit_eq_mult)
    with 1(1) second(1) 2 t have "uper_get_length pd (-1) lb = Some (int n, 0, pd_skip 8 (pd_skip 8 pd))"
      by (simp add: uper_get_length_def h_def [symmetric])
    with pd_consumes_trans [OF 1(2) second(2)] 2 second(3) show thesis
      by (intro that) (simp_all add: uper_length_unit_def s)
  next
    case 3
    define b where "b = min 4 (n div 16384)"
    have b: "1 \<le> b" "b \<le> 4" using 3 by (auto simp: b_def)
    have s: "uper_length_bits n = be_bits 8 (192 + b)"
      using 3 b length_bits_8 [of b] or_low_add_nat [of b 6 3] by (simp add: uper_length_bits_def b_def [symmetric])
    have "192 + b < 256" using b by simp
    with get_number [OF assms(1), of 8 "192 + b" rest 8] assms(2)
    have 1: "asn_get_few_bits pd 8 = Some (int (192 + b), pd_skip 8 pd)"
        "pd_consumes pd (be_bits 8 (192 + b)) (pd_skip 8 pd)" "pd_bits (pd_skip 8 pd) = rest" by (simp_all add: s)
    have t: "(192 + int b) AND 128 \<noteq> 0" "(192 + int b) AND 64 \<noteq> 0" "(192 + int b) AND 63 = int b"
    proof -
      have "b = 1 \<or> b = 2 \<or> b = 3 \<or> b = 4" using b by linarith
      then show "(192 + int b) AND 128 \<noteq> 0" "(192 + int b) AND 64 \<noteq> 0" "(192 + int b) AND 63 = int b"
        by auto
    qed
    with 1 3 b show thesis
      by (intro that [of "pd_skip 8 pd"]) (auto simp: uper_get_length_def uper_length_unit_def s b_def [symmetric])
  qed
qed

subsection \<open>Normally small lengths and numbers\<close>

lemma be_bits_7: "v < 64 \<Longrightarrow> be_bits 7 v = be_bits 1 0 @ be_bits 6 v"
  using be_bits_split [of v 6 1 0] by simp

text \<open>The octets of a number from 64 on, and their count in an octet of its own.\<close>

definition nsnnwn_octets :: "nat \<Rightarrow> nat" where
  "nsnnwn_octets n = (if n < 256 then 1 else if n < 65536 then 2 else 3)"

context bytes_consumer begin

lemma put_nslength_small:
  "po_ok cb key_inv po \<Longrightarrow> 1 \<le> n \<Longrightarrow> n \<le> 64 \<Longrightarrow> puts po 0 (be_bits 7 (n - 1)) (uper_put_nslength po n)"
  using po_puts_result [OF put_number [of po 7 7 "n - 1"]] by (simp add: uper_put_nslength_def)

lemma put_nslength_large:
  assumes "po_ok cb key_inv po" "64 < n" "n < 16384"
  shows "puts po 0 (uper_length_bits n) (uper_put_nslength po n)"
  using put_length_ok [OF assms(1), of n] assms
  by (auto simp: uper_put_nslength_def po_puts_def uper_length_unit_def)

lemma put_nslength_refused:
  assumes "po_ok cb key_inv po" "n = 0 \<or> 16384 \<le> n"
  shows "\<exists>po'. uper_put_nslength po n = Some (-1, po') \<and> po_ok cb key_inv po'"
proof (cases "n = 0")
  case False
  with assms have n: "16384 \<le> n" by simp
  from put_length_ok [OF assms(1), of n] obtain r po' where
    p: "uper_put_length po n = Some (r, if 16384 \<le> n \<and> n div 16384 \<le> 4 \<and> n mod 16384 = 0 then 1 else 0, po')"
    "po_ok cb key_inv po'" "r = int (uper_length_unit n) \<or> r = -1" by blast
  have "uper_length_unit n = n \<Longrightarrow> n div 16384 \<le> 4 \<and> n mod 16384 = 0"
    using n minus_mult_div_eq_mod [of n 16384] by (auto simp: uper_length_unit_def min_def split: if_splits)
  with p n show ?thesis by (auto simp: uper_put_nslength_def)
qed (use assms in \<open>simp add: uper_put_nslength_def\<close>)

lemma put_nsnnwn_small:
  assumes "po_ok cb key_inv po" "n < 64"
  shows "puts po 0 (be_bits 7 n) (uper_put_nsnnwn po (int n))"
  using put_number [OF assms(1), of 7 7 n] assms(2) by (simp add: uper_put_nsnnwn_def)

lemma put_nsnnwn_large:
  assumes "po_ok cb key_inv po" "64 \<le> n" "n < 2 ^ 24"
  shows "puts po 0 (be_bits 8 (nsnnwn_octets n) @ be_bits (8 * nsnnwn_octets n) n) (uper_put_nsnnwn po (int n))"
proof -
  define k where "k = nsnnwn_octets n"
  have k: "k \<le> 3" "1 \<le> k" by (auto simp: k_def nsnnwn_octets_def)
  have "uper_put_nsnnwn po (int n) = asn_put_few_bits po (of_nat k) 8 \<bind>
      (\<lambda>(r, po). if r \<noteq> 0 then Some (-1, po) else asn_put_few_bits po (of_nat n) (int (8 * k)))"
    using assms(2,3) by (auto simp: uper_put_nsnnwn_def k_def nsnnwn_octets_def cong del: if_weak_cong)
  moreover have "puts po 0 (be_bits 8 k @ be_bits (8 * k) n) (asn_put_few_bits po (of_nat k) 8 \<bind>
      (\<lambda>(r, po). if r \<noteq> 0 then Some (-1, po) else asn_put_few_bits po (of_nat n) (int (8 * k))))"
    by (rule po_puts_then) (use assms(1) k in \<open>auto intro!: put_number\<close>)
  ultimately show ?thesis by (simp add: k_def)
qed

lemma put_cwn:
  "po_ok cb key_inv po \<Longrightarrow> puts po 0 (be_bits n (unat v)) (uper_put_constrained_whole_number_u po v (int n))"
proof (induction n arbitrary: po v rule: less_induct)
  case (less n)
  have u: "ucast v = (of_nat (unat v) :: u32)" by simp
  show ?case
  proof (cases "n \<le> 31")
    case True
    with less.prems put_number [OF less.prems, of "int n" n "unat v"] show ?thesis
      by (subst uper_put_constrained_whole_number_u.simps) (simp add: u del: of_nat_unat)
  next
    case False
    then have n: "be_bits n (unat v) = be_bits (n - 31) (unat (drop_bit 31 v)) @ be_bits 31 (unat v)"
      using be_bits_add [of "n - 31" 31 "unat v"] by (simp add: unat_shift_right)
    have "int n - 31 = int (n - 31)" using False by simp
    then have "uper_put_constrained_whole_number_u po v (int n) =
        uper_put_constrained_whole_number_u po (drop_bit 31 v) (int (n - 31)) \<bind>
          (\<lambda>(r, po). if r \<noteq> 0 then Some (-1, po) else asn_put_few_bits po (ucast v) 31)"
      using False by (subst uper_put_constrained_whole_number_u.simps) simp
    moreover have "puts po 0 (be_bits (n - 31) (unat (drop_bit 31 v)) @ be_bits 31 (unat v))
       (uper_put_constrained_whole_number_u po (drop_bit 31 v) (int (n - 31)) \<bind>
          (\<lambda>(r, po). if r \<noteq> 0 then Some (-1, po) else asn_put_few_bits po (ucast v) 31))"
    proof (rule po_puts_then)
      show "puts po 0 (be_bits (n - 31) (unat (drop_bit 31 v)))
          (uper_put_constrained_whole_number_u po (drop_bit 31 v) (int (n - 31)))"
        by (rule less.IH) (use less.prems False in auto)
      show "puts po1 0 (be_bits 31 (unat v)) (asn_put_few_bits po1 (ucast v) 31)" if "po_ok cb key_inv po1" for po1
        using put_number [OF that, of 31 31 "unat v"] by (simp add: u del: of_nat_unat)
    qed
    ultimately show ?thesis by (simp only: n)
  qed
qed

end

lemma get_nslength_small:
  assumes "pd_inv pd" "1 \<le> n" "n \<le> 64" "pd_bits pd = be_bits 7 (n - 1) @ rest"
  obtains pd' where "uper_get_nslength pd = Some (int n, pd')" "pd_consumes pd (be_bits 7 (n - 1)) pd'" "pd_bits pd' = rest"
proof -
  have s: "be_bits 7 (n - 1) = be_bits 1 0 @ be_bits 6 (n - 1)" using assms by (intro be_bits_7) simp
  have 1: "asn_get_few_bits pd 1 = Some (int 0, pd_skip 1 pd)" "pd_consumes pd (be_bits 1 0) (pd_skip 1 pd)"
    "pd_bits (pd_skip 1 pd) = be_bits 6 (n - 1) @ rest" "pd_inv (pd_skip 1 pd)"
    using get_number [OF assms(1) assms(4) [unfolded s append_assoc]] by simp_all
  have lt: "n - 1 < 2 ^ 6" using assms by simp
  have second: "asn_get_few_bits (pd_skip 1 pd) 6 = Some (int (n - 1), pd_skip 6 (pd_skip 1 pd))"
    "pd_consumes (pd_skip 1 pd) (be_bits 6 (n - 1)) (pd_skip 6 (pd_skip 1 pd))"
    "pd_bits (pd_skip 6 (pd_skip 1 pd)) = rest"
    using get_number [OF 1(4,3) _ _ lt, of 6] by simp_all
  show thesis
  proof (rule that)
    show "uper_get_nslength pd = Some (int n, pd_skip 6 (pd_skip 1 pd))"
      using 1(1) second(1) assms(2) by (simp add: uper_get_nslength_def of_nat_diff)
  qed (use second(3) pd_consumes_trans [OF 1(2) second(2)] in \<open>simp_all only: s\<close>)
qed

lemma get_nsnnwn_small:
  assumes "pd_inv pd" "n < 64" "pd_bits pd = be_bits 7 n @ rest"
  shows "uper_get_nsnnwn pd = Some (int n, pd_skip 7 pd)" "pd_consumes pd (be_bits 7 n) (pd_skip 7 pd)"
    "pd_bits (pd_skip 7 pd) = rest"
  using get_number [OF assms(1,3), of 7] assms(2) by (simp_all add: uper_get_nsnnwn_def int_bit_tests)

text \<open>
  What the reader makes of a number from 64 on: it takes the first seven bits of the count for
  the number.
\<close>

lemma get_nsnnwn_large:
  assumes "pd_inv pd" "64 \<le> n" "pd_bits pd = (be_bits 8 (nsnnwn_octets n) @ be_bits (8 * nsnnwn_octets n) n) @ rest"
  shows "uper_get_nsnnwn pd = Some (int (nsnnwn_octets n div 2), pd_skip 7 pd)"
proof -
  have k: "nsnnwn_octets n < 4" by (simp add: nsnnwn_octets_def)
  have "be_bits 8 (nsnnwn_octets n) = be_bits 7 (nsnnwn_octets n div 2) @ be_bits 1 (nsnnwn_octets n)"
    using be_bits_add [of 7 1 "nsnnwn_octets n"] by simp
  with assms(3) get_nsnnwn_small(1) [OF assms(1), of "nsnnwn_octets n div 2"] k show ?thesis by simp
qed

lemma u64_join:
  assumes "v < 2 ^ (m + k)" "m + k \<le> 64"
  shows "push_bit k (of_nat (v div 2 ^ k)) OR of_nat (v mod 2 ^ k) = (of_nat v :: u64)"
proof -
  have "push_bit k (of_nat (v div 2 ^ k)) OR of_nat (v mod 2 ^ k)
      = (of_nat ((v div 2 ^ k) * 2 ^ k OR v mod 2 ^ k) :: u64)"
    by (simp add: of_nat_or_eq push_bit_eq_mult)
  also have "(v div 2 ^ k) * 2 ^ k OR v mod 2 ^ k = v" 
  proof -
    have "v mod 2 ^ k < 2 ^ k" by simp
    then show ?thesis by (simp only: or_low_add_nat div_mult_mod_eq)
  qed
  finally show ?thesis .
qed

lemma get_cwn:
  assumes "pd_inv pd" "n \<le> 64" "v < 2 ^ n" "pd_bits pd = be_bits n v @ rest"
  shows "\<exists>pd'. uper_get_constrained_whole_number pd out (int n) = Some (0, of_nat v, pd') \<and>
    pd_consumes pd (be_bits n v) pd' \<and> pd_bits pd' = rest"
  using assms
proof (induction n arbitrary: pd v out rule: less_induct)
  case (less n)
  show ?case
  proof (cases "n \<le> 31")
    case True
    with less.prems get_number [OF less.prems(1,4), of "int n"] show ?thesis
      by (subst uper_get_constrained_whole_number.simps) auto
  next
    case False
    define k where "k = n - 31"
    have k: "n = 31 + k" "k < n" "k \<le> 64" using False less.prems by (simp_all add: k_def)
    have s: "be_bits n v = be_bits 31 (v div 2 ^ k) @ be_bits k (v mod 2 ^ k)"
      using be_bits_add [of 31 k v] by (simp add: k(1))
    have "v div 2 ^ k < 2 ^ 31" using less.prems(3) by (simp add: k(1) power_add less_mult_imp_div_less)
    with get_number [OF less.prems(1), of 31 "v div 2 ^ k" "be_bits k (v mod 2 ^ k) @ rest" 31] less.prems(4)
    have 1: "asn_get_few_bits pd 31 = Some (int (v div 2 ^ k), pd_skip 31 pd)"
      "pd_consumes pd (be_bits 31 (v div 2 ^ k)) (pd_skip 31 pd)"
      "pd_bits (pd_skip 31 pd) = be_bits k (v mod 2 ^ k) @ rest" "pd_inv (pd_skip 31 pd)"
      unfolding s by simp_all
    have "v mod 2 ^ k < 2 ^ k" by simp
    from less.IH [OF k(2) 1(4) k(3) this 1(3), of 0] obtain pd' where
      2: "uper_get_constrained_whole_number (pd_skip 31 pd) 0 (int k) = Some (0, of_nat (v mod 2 ^ k), pd')"
      "pd_consumes (pd_skip 31 pd) (be_bits k (v mod 2 ^ k)) pd'" "pd_bits pd' = rest" by blast
    have "uper_get_constrained_whole_number pd out (int n) = Some (0, of_nat v, pd')"
      using False less.prems(2) 1(1) 2(1) u64_join [of v 31 k] less.prems(3) k
      by (subst uper_get_constrained_whole_number.simps) simp
    with pd_consumes_trans [OF 1(2) 2(2)] 2(3) show ?thesis unfolding s by blast
  qed
qed

section \<open>Properties of the UPER support functions\<close>

lemma get_octet_cases:
  assumes "pd_inv pd"
  obtains (starved) "asn_get_few_bits pd 8 = Some (-1, pd)"
    | (got) v pd1 where "asn_get_few_bits pd 8 = Some (v, pd1)" "0 \<le> v" "v < 256" "pd_inv pd1"
        "length (pd_bits pd1) \<le> length (pd_bits pd)"
proof (rule get_few_bits_total [OF assms, of 8])
  fix v pd' assume "asn_get_few_bits pd 8 = Some (v, pd')" "0 \<le> v" "v < 2 ^ nat 8"
    "pd_consumes pd (be_bits (nat 8) (nat v)) pd'"
  then show thesis by (intro got [of v pd']) (auto simp: pd_consumes_def)
qed (use starved in auto)

lemma get_length_total:
  assumes "pd_inv pd"
  shows "\<exists>v repeat pd'. uper_get_length pd (-1) lb = Some (v, repeat, pd') \<and> pd_inv pd' \<and>
    length (pd_bits pd') \<le> length (pd_bits pd) \<and>
    (v = -1 \<and> repeat = 0 \<or> 0 \<le> v \<and> v < 16384 \<and> repeat = 0 \<or>
     (\<exists>m\<in>{1..4}. v = 16384 * m) \<and> repeat = 1)"
proof -
  from assms show ?thesis
  proof (cases rule: get_octet_cases)
    case starved
    then show ?thesis using assms by (simp add: uper_get_length_def)
  next
    case (got v pd1)
    note i1 = got(4,5)
    consider "v AND 128 = 0" | "v AND 128 \<noteq> 0" "v AND 64 = 0" | "v AND 128 \<noteq> 0" "v AND 64 \<noteq> 0" by blast
    then show ?thesis
    proof cases
      case 1
      moreover have "v mod 128 < 16384" using pos_mod_bound [of 128 v] by linarith
      ultimately show ?thesis using got i1 by (simp add: uper_get_length_def int_masks)
    next
      case 2
      from i1(1) show ?thesis
      proof (cases rule: get_octet_cases)
        case starved
        then show ?thesis using \<open>asn_get_few_bits pd 8 = Some (v, pd1)\<close> i1 2 by (simp add: uper_get_length_def)
      next
        case (got w pd2)
        define h where "h = v mod 64"
        have h: "0 \<le> h" "h < 64" by (simp_all add: h_def)
        have "push_bit 8 h OR w = h * 256 + w"
          using or_low_add_int [of w 8 h] got by (simp add: push_bit_eq_mult)
        with h got 2 i1 \<open>asn_get_few_bits pd 8 = Some (v, pd1)\<close> show ?thesis
          by (simp add: uper_get_length_def int_masks h_def [symmetric])
      qed
    next
      case 3
      with got i1 show ?thesis by (auto simp: uper_get_length_def int_masks Let_def)
    qed
  qed
qed

text \<open>
  C17: the length determinant of X.691 #11.9 round trips through writer and reader for every
  length: below 16384 the length itself comes back, from there on the size of the next
  fragment with \<open>repeat\<close> set; \<open>need_eom\<close> is raised exactly when the fragments announced end
  at the length.
\<close>

theorem uper_length_roundtrip:
  assumes "po_ok (encode_dyn_cb can_alloc) dyn_inv po"
    and "uper_put_length po n = Some (r, need_eom, po')" "0 \<le> r"
    and "pd_inv pd" "pd_bits pd = po_new dyn_taken po po' @ rest"
  shows "r = int (uper_length_unit n) \<and>
    (need_eom = 1 \<longleftrightarrow> 16384 \<le> n \<and> uper_length_unit n = n) \<and>
    (\<exists>pd'. uper_get_length pd (-1) lb = Some (r, if n < 16384 then 0 else 1, pd') \<and>
       pd_inv pd' \<and> pd_bits pd' = rest)"
proof -
  from dyn.put_length_ok [OF assms(1), of n] assms(2,3) have
    p: "r = int (uper_length_unit n)" "po_emits dyn_taken po (uper_length_bits n) po'"
       "need_eom = (if 16384 \<le> n \<and> n div 16384 \<le> 4 \<and> n mod 16384 = 0 then 1 else 0)" by auto
  from p(2) assms(5) have "pd_bits pd = uper_length_bits n @ rest" by (simp add: po_new_def po_emits_def)
  from get_length_ok [OF assms(4) this, of lb] obtain pd' where
    "uper_get_length pd (-1) lb = Some (int (uper_length_unit n), if n < 16384 then 0 else 1, pd')"
    "pd_consumes pd (uper_length_bits n) pd'" "pd_bits pd' = rest" by blast
  moreover have "16384 \<le> n \<Longrightarrow> uper_length_unit n = n \<longleftrightarrow> n div 16384 \<le> 4 \<and> n mod 16384 = 0"
    using minus_mult_div_eq_mod [of n 16384] mult_div_mod_eq [of 16384 n]
    by (auto simp: uper_length_unit_def min_def split: if_splits)
  ultimately show ?thesis using p by (auto simp: pd_consumes_def)
qed

theorem uper_length_roundtrip_witness:
  "\<exists>po' pd pd'. uper_put_length dyn_writer 300 = Some (300, 0, po') \<and>
     uper_get_length pd (-1) 0 = Some (300, 0, pd') \<and> pd_bits pd' = []"
proof -
  from dyn.put_length_ok [OF dyn_writer_ok(1), of 300] obtain po' where
    po': "uper_put_length dyn_writer 300 = Some (300, 0, po')" "po_new dyn_taken dyn_writer po' = uper_length_bits 300"
    by (auto simp: dyn_never_refuses uper_length_unit_def po_new_def po_emits_def)
  have "uper_length_bits 300 = octets_bits [0x81, 0x2C]" by (simp add: octets_bits_Cons be_bits_rec uper_length_bits_def del: be_bits_0)
  with new_contiguous [of 16 "[0x81, 0x2C]"] obtain pd where "pd_inv pd" "pd_bits pd = uper_length_bits 300" by auto
  with uper_length_roundtrip [OF dyn_writer_ok(1) po'(1) _ this(1), of "[]" 0] po' show ?thesis by auto
qed

text \<open>
  The reader of length determinants never faults on any stream. Its results are \<open>-1\<close>, a
  length below 16384, or a fragment of one to four times 16384 items with \<open>repeat\<close> set.
\<close>

theorem uper_get_length_safe:
  assumes "pd_inv pd"
  shows "\<exists>v repeat pd'. uper_get_length pd (-1) lb = Some (v, repeat, pd') \<and> pd_inv pd' \<and>
    (v = -1 \<and> repeat = 0 \<or> 0 \<le> v \<and> v < 16384 \<and> repeat = 0 \<or>
     v \<in> {16384, 32768, 49152, 65536} \<and> repeat = 1)"
  using get_length_total [OF assms, of lb] by (fastforce simp: numeral_eq_Suc atLeastAtMost_insertL[symmetric])

theorem uper_get_length_safe_witness:
  "\<exists>v repeat pd'. uper_get_length pd_sample (-1) 0 = Some (v, repeat, pd') \<and> pd_inv pd'"
  using uper_get_length_safe [OF pd_sample_facts(1), of 0] by blast

text \<open>
  Normally small lengths (X.691 #11.9.3.4) from 1 to 64 round trip.
\<close>

theorem uper_nslength_roundtrip:
  assumes "po_ok (encode_dyn_cb can_alloc) dyn_inv po" "1 \<le> n" "n \<le> 64"
    and "uper_put_nslength po n = Some (0, po')"
    and "pd_inv pd" "pd_bits pd = po_new dyn_taken po po' @ rest"
  shows "\<exists>pd'. uper_get_nslength pd = Some (int n, pd') \<and> pd_inv pd' \<and> pd_bits pd' = rest"
proof -
  have "po_new dyn_taken po po' = be_bits 7 (n - 1)"
    using po_puts_new(2) dyn.put_nslength_small [OF assms(1-3)] assms(4) by fastforce
  with get_nslength_small [OF assms(5,2,3)] assms(6) show ?thesis by (metis pd_consumes_def)
qed

theorem uper_nslength_roundtrip_witness:
  "\<exists>po' pd pd'. uper_put_nslength dyn_writer 64 = Some (0, po') \<and> uper_get_nslength pd = Some (64, pd')"
proof -
  from dyn_total [OF dyn.put_nslength_small [OF dyn_writer_ok(1), of 64]] obtain po' where
    po': "uper_put_nslength dyn_writer 64 = Some (0, po')" "po_new dyn_taken dyn_writer po' = be_bits 7 63" by auto
  have "take 7 (octets_bits [0x7E]) = be_bits 7 63" by (simp add: octets_bits_Cons be_bits_rec del: be_bits_0)
  with new_contiguous [of 7 "[0x7E]"] obtain pd where "pd_inv pd" "pd_bits pd = be_bits 7 63" by auto
  with uper_nslength_roundtrip [OF dyn_writer_ok(1) _ _ po'(1) this(1), of "[]"] po' show ?thesis by auto
qed

lemma length_bits_small_first:
  "n \<le> 127 \<Longrightarrow> uper_length_bits n = be_bits 7 (n div 2) @ be_bits 1 n"
  using be_bits_add [of 7 1 n] by (simp add: uper_length_bits_def)

text \<open>
  For 65 to 127 extensions the two functions disagree. \<open>uper_put_nslength\<close> writes the
  length determinant without the bit that announces it, and \<open>uper_get_nslength\<close> takes its first
  seven bits for a small length: it returns \<open>n div 2 + 1\<close> and leaves one bit unread.
\<close>

theorem uper_nslength_mismatch:
  assumes "po_ok (encode_dyn_cb can_alloc) dyn_inv po" "64 < n" "n \<le> 127"
    and "uper_put_nslength po n = Some (0, po')"
    and "pd_inv pd" "pd_bits pd = po_new dyn_taken po po' @ rest"
  shows "\<exists>pd'. uper_get_nslength pd = Some (int (n div 2 + 1), pd') \<and> pd_bits pd' = odd n # rest"
proof -
  have "po_new dyn_taken po po' = uper_length_bits n"
    using po_puts_new(2) dyn.put_nslength_large [OF assms(1,2)] assms(3,4) by fastforce
  with assms(3,6) have "pd_bits pd = be_bits 7 ((n div 2 + 1) - 1) @ (odd n # rest)"
    by (simp add: length_bits_small_first)
  moreover have "1 \<le> n div 2 + 1" "n div 2 + 1 \<le> 64" using assms(3) by simp_all
  ultimately show ?thesis using get_nslength_small [OF assms(5)] by (metis pd_consumes_def)
qed

theorem uper_nslength_mismatch_witness:
  "\<exists>po' pd pd'. uper_put_nslength dyn_writer 100 = Some (0, po') \<and> uper_get_nslength pd = Some (51, pd')"
proof -
  from dyn_total [OF dyn.put_nslength_large [OF dyn_writer_ok(1), of 100]] obtain po' where
    po': "uper_put_nslength dyn_writer 100 = Some (0, po')" "po_new dyn_taken dyn_writer po' = uper_length_bits 100" by auto
  have "uper_length_bits 100 = octets_bits [100]" by (simp add: octets_bits_Cons be_bits_rec uper_length_bits_def del: be_bits_0)
  with new_contiguous [of 8 "[100]"] obtain pd where "pd_inv pd" "pd_bits pd = uper_length_bits 100" by auto
  with uper_nslength_mismatch [OF dyn_writer_ok(1) _ _ po'(1) this(1), of "[]"] po' show ?thesis by auto
qed

text \<open>
  Normally small non-negative whole numbers (X.691 #10.6) below 64 round trip.
\<close>

theorem uper_nsnnwn_roundtrip:
  assumes "po_ok (encode_dyn_cb can_alloc) dyn_inv po" "n < 64"
    and "uper_put_nsnnwn po (int n) = Some (0, po')"
    and "pd_inv pd" "pd_bits pd = po_new dyn_taken po po' @ rest"
  shows "\<exists>pd'. uper_get_nsnnwn pd = Some (int n, pd') \<and> pd_inv pd' \<and> pd_bits pd' = rest"
proof -
  have "po_new dyn_taken po po' = be_bits 7 n"
    using po_puts_new(2) dyn.put_nsnnwn_small [OF assms(1,2)] assms(3) by fastforce
  with get_nsnnwn_small [OF assms(4,2)] assms(5) show ?thesis by (metis pd_consumes_def)
qed

theorem uper_nsnnwn_roundtrip_witness:
  "\<exists>po' pd pd'. uper_put_nsnnwn dyn_writer 63 = Some (0, po') \<and> uper_get_nsnnwn pd = Some (63, pd')"
proof -
  from dyn_total [OF dyn.put_nsnnwn_small [OF dyn_writer_ok(1), of 63]] obtain po' where
    po': "uper_put_nsnnwn dyn_writer (int 63) = Some (0, po')" "po_new dyn_taken dyn_writer po' = be_bits 7 63" by auto
  have "take 7 (octets_bits [0x7E]) = be_bits 7 63" by (simp add: octets_bits_Cons be_bits_rec del: be_bits_0)
  with new_contiguous [of 7 "[0x7E]"] obtain pd where "pd_inv pd" "pd_bits pd = be_bits 7 63" by auto
  with uper_nsnnwn_roundtrip [OF dyn_writer_ok(1) _ po'(1) this(1), of "[]"] po' show ?thesis by auto
qed

text \<open>
  From 64 on they do not: the writer omits the leading one bit of the large form, so the
  reader sees a small number, half the count of octets, and returns 0 or 1 whatever \<open>n\<close> is.
\<close>

theorem uper_nsnnwn_mismatch:
  assumes "po_ok (encode_dyn_cb can_alloc) dyn_inv po" "64 \<le> n" "n < 2 ^ 24"
    and "uper_put_nsnnwn po (int n) = Some (0, po')"
    and "pd_inv pd" "pd_bits pd = po_new dyn_taken po po' @ rest"
  shows "\<exists>pd'. uper_get_nsnnwn pd = Some (if n < 256 then 0 else 1, pd')"
proof -
  have "po_new dyn_taken po po' = be_bits 8 (nsnnwn_octets n) @ be_bits (8 * nsnnwn_octets n) n"
    using po_puts_new(2) dyn.put_nsnnwn_large [OF assms(1-3)] assms(4) by fastforce
  with get_nsnnwn_large [OF assms(5,2)] assms(6) show ?thesis by (simp add: nsnnwn_octets_def)
qed

theorem uper_nsnnwn_mismatch_witness:
  "\<exists>po' pd pd'. uper_put_nsnnwn dyn_writer 64 = Some (0, po') \<and> uper_get_nsnnwn pd = Some (0, pd')"
proof -
  from dyn_total [OF dyn.put_nsnnwn_large [OF dyn_writer_ok(1), of 64]] obtain po' where
    po': "uper_put_nsnnwn dyn_writer (int 64) = Some (0, po')" "po_new dyn_taken dyn_writer po' = be_bits 8 1 @ be_bits 8 64"
    by (auto simp: nsnnwn_octets_def simp del: be_bits.simps)
  have "octets_bits [1, 64] = be_bits 8 1 @ be_bits 8 64" by (simp add: octets_bits_Cons be_bits_rec del: be_bits_0)
  with new_contiguous [of 16 "[1, 64]"] obtain pd where "pd_inv pd" "pd_bits pd = be_bits 8 1 @ be_bits 8 64"
    by (auto simp del: be_bits.simps)
  with uper_nsnnwn_mismatch [OF dyn_writer_ok(1) _ _ po'(1) this(1), of "[]"] po' show ?thesis by (auto simp del: be_bits.simps)
qed

text \<open>
  C19: a constrained whole number of up to 64 bits round trips through
  \<open>uper_put_constrained_whole_number_u\<close> and \<open>uper_get_constrained_whole_number\<close>, which split it
  into parts of 31 bits.
\<close>

theorem uper_cwn_roundtrip:
  assumes "po_ok (encode_dyn_cb can_alloc) dyn_inv po" "n \<le> 64" "unat v < 2 ^ n"
    and "uper_put_constrained_whole_number_u po v (int n) = Some (0, po')"
    and "pd_inv pd" "pd_bits pd = po_new dyn_taken po po' @ rest"
  shows "\<exists>pd'. uper_get_constrained_whole_number pd out (int n) = Some (0, v, pd') \<and> pd_inv pd' \<and> pd_bits pd' = rest"
proof -
  have "po_new dyn_taken po po' = be_bits n (unat v)"
    using po_puts_new(2) dyn.put_cwn [OF assms(1), of n v] assms(4) by fastforce
  with get_cwn [OF assms(5,2,3)] assms(6) show ?thesis by (auto simp: pd_consumes_def)
qed

theorem uper_cwn_roundtrip_witness:
  "\<exists>po' pd pd'. uper_put_constrained_whole_number_u dyn_writer 0x123456789A 40 = Some (0, po') \<and>
     uper_get_constrained_whole_number pd 0 40 = Some (0, 0x123456789A, pd')"
proof -
  from dyn_total [OF dyn.put_cwn [OF dyn_writer_ok(1), of 40 "0x123456789A"]] obtain po' where
    po': "uper_put_constrained_whole_number_u dyn_writer 0x123456789A (int 40) = Some (0, po')"
    "po_new dyn_taken dyn_writer po' = be_bits 40 0x123456789A" by auto
  have "octets_bits [0x12, 0x34, 0x56, 0x78, 0x9A] = be_bits 40 0x123456789A" by (simp add: octets_bits_Cons be_bits_rec del: be_bits_0)
  with new_contiguous [of 40 "[0x12, 0x34, 0x56, 0x78, 0x9A]"] obtain pd where
    "pd_inv pd" "pd_bits pd = be_bits 40 0x123456789A" by auto
  with uper_cwn_roundtrip [OF dyn_writer_ok(1) _ _ po'(1) this(1), of "[]" 0] po' show ?thesis by auto
qed

text \<open>
  C20: rebasing into a range of \<open>intmax_t\<close> and back is the identity on the range; a value outside
  it is refused, and so is an offset beyond the range. No signed operation overflows and no
  assertion fails, even for the range of all 64-bit numbers.
\<close>

theorem range_rebase_roundtrip:
  assumes "INTMAX_MIN \<le> lb" "lb \<le> ub" "ub \<le> INTMAX_MAX"
  shows "per_imax_range_rebase v lb ub out =
      (if lb \<le> v \<and> v \<le> ub then Some (0, of_int (v - lb)) else Some (-1, out)) \<and>
    per_imax_range_unrebase inp lb ub outp =
      (if uint inp \<le> ub - lb then Some (0, lb + uint inp) else Some (-1, outp)) \<and>
    (lb \<le> v \<and> v \<le> ub \<longrightarrow> per_imax_range_unrebase (of_int (v - lb)) lb ub outp = Some (0, v))"
proof -
  have "lb \<le> v \<and> v \<le> ub \<longrightarrow> uint (of_int (v - lb) :: u64) = v - lb"
    using assms uint_of_int_u64 [of "v - lb"] by (simp add: limits_defs del: of_int_diff)
  then show ?thesis
    using imax_rebase [OF assms] imax_unrebase [OF assms] by (simp del: of_int_diff)
qed

theorem range_rebase_roundtrip_witness:
  "per_imax_range_rebase 5 INTMAX_MIN INTMAX_MAX 0 = Some (0, of_int (5 - INTMAX_MIN)) \<and>
   per_imax_range_unrebase (of_int (5 - INTMAX_MIN)) INTMAX_MIN INTMAX_MAX 0 = Some (0, 5)"
  using range_rebase_roundtrip [of INTMAX_MIN INTMAX_MAX 5 0 0 0] by (simp add: limits_defs)

end
