(* ===== verification/Per_Codec.thy ===== *)
theory Per_Codec
  imports Uper_Support
begin

unbundle bit_operations_syntax


text \<open>
  The entry points of unaligned PER: \<open>skeletons/uper_encoder.c\<close>, \<open>uper_decoder.c\<close>,
  \<open>uper_opentype.c\<close> and \<open>per_opentype.c\<close>. The encoder and the decoder of a type descriptor
  (\<open>td->op->uper_encoder\<close>, \<open>td->op->uper_decoder\<close>) are function parameters.
\<close>

section \<open>Encoding\<close>

text \<open>
  An encoder returns \<open>er.encoded\<close>, \<open>-1\<close> for a failure; a decoder returns a code and the value
  behind \<open>*sptr\<close>. \<open>None\<close> in place of an operation is the null pointer in \<open>td->op\<close>.
\<close>

type_synonym ('v, 'k) uper_encoder = "'v \<Rightarrow> 'k bit_outp \<Rightarrow> (int \<times> 'k bit_outp) option"
type_synonym 'v uper_decoder = "bit_data \<Rightarrow> (asn_dec_rval_code \<times> 'v option \<times> bit_data) option"

definition ignore_output :: "'k consumer" where
  "ignore_output key data = Some (0, key)"

definition uper_encode_flush_outp :: "'k bit_outp \<Rightarrow> (int \<times> 'k bit_outp) option" where
  "uper_encode_flush_outp po =
     (if po_nboff po = 0 \<and> po_buffer po = 0 then Some (0, po)
      else do {
        let buf = po_buffer po + drop_bit 3 (po_nboff po);
        let low = take_bit 3 (po_nboff po);
        (po, buf) \<leftarrow>
          (if low \<noteq> 0 then do {
             b \<leftarrow> rd (po_tmpspace po) buf;
             tmp \<leftarrow> wr (po_tmpspace po) buf (b AND ucast (push_bit (8 - low) (0xFF :: u32)));
             Some (po\<lparr>po_tmpspace := tmp\<rparr>, buf + 1) }
           else Some (po, buf));
        chunk \<leftarrow> mem_load (po_tmpspace po) 0 buf;
        (r, key) \<leftarrow> po_output po (po_op_key po) chunk;
        Some (r, po\<lparr>po_op_key := key\<rparr>) })"

definition uper_encode ::
  "('v, 'k) uper_encoder option \<Rightarrow> 'v \<Rightarrow> 'k consumer option \<Rightarrow> 'k \<Rightarrow> (int \<times> 'k) option" where
  "uper_encode op sptr cb app_key =
     (case op of
        None \<Rightarrow> Some (-1, app_key)
      | Some encoder \<Rightarrow> do {
          let po = \<lparr>po_buffer = 0, po_nboff = 0, po_nbits = 8 * 32, po_tmpspace = replicate 32 0,
                    po_output = (case cb of Some cb \<Rightarrow> cb | None \<Rightarrow> ignore_output),
                    po_op_key = app_key, po_flushed_bytes = 0\<rparr>;
          (encoded, po) \<leftarrow> encoder sptr po;
          if encoded \<noteq> -1 then do {
            let bits_to_flush = push_bit 3 (po_buffer po) + po_nboff po;
            let encoded = int (push_bit 3 (po_flushed_bytes po) + bits_to_flush);
            (r, po) \<leftarrow> uper_encode_flush_outp po;
            Some (if r \<noteq> 0 then -1 else encoded, po_op_key po) }
          else Some (encoded, po_op_key po) })"

definition uper_encode_to_buffer ::
  "('v, enc_to_buf_arg) uper_encoder option \<Rightarrow> 'v \<Rightarrow> u8 list \<Rightarrow> nat \<Rightarrow> nat \<Rightarrow> (int \<times> enc_to_buf_arg) option" where
  "uper_encode_to_buffer op sptr mem' buffer buffer_size =
     uper_encode op sptr (Some encode_to_buffer_cb) \<lparr>tb_mem = mem', tb_buffer = buffer, tb_left = buffer_size\<rparr>"

text \<open>The buffer is returned as its octets; the second component is \<open>*buffer_r\<close>, set on success only.\<close>

definition uper_encode_to_new_buffer ::
  "(nat \<Rightarrow> bool) \<Rightarrow> ('v, enc_dyn_arg) uper_encoder option \<Rightarrow> 'v \<Rightarrow> (int \<times> u8 list option) option" where
  "uper_encode_to_new_buffer can_alloc op sptr = do {
     (encoded, key) \<leftarrow> uper_encode op sptr (Some (encode_dyn_cb can_alloc))
       \<lparr>dy_buffer = [], dy_length = 0, dy_allocated = 0\<rparr>;
     Some (if encoded = -1 then (-1, None)
           else if encoded = 0 then (if can_alloc 1 then (1, Some [0]) else (-1, None))
           else (drop_bit 3 (encoded + 7), Some (dy_buffer key))) }"

section \<open>Decoding\<close>

text \<open>\<open>None\<close> in the last component of the result of a decoder: nothing was stored.\<close>

definition uper_decode ::
  "'v uper_decoder option \<Rightarrow> u8 list \<Rightarrow> nat \<Rightarrow> int \<Rightarrow> int \<Rightarrow> (asn_dec_rval_code \<times> nat \<times> 'v option) option" where
  "uper_decode op buffer sz skip_bits unused_bits =
     (if skip_bits < 0 \<or> 7 < skip_bits \<or> unused_bits < 0 \<or> 7 < unused_bits \<or> (0 < unused_bits \<and> sz = 0)
      then Some (RC_FAIL, 0, None)
      else
        let pd = \<lparr>pd_mem = buffer, pd_buffer = 0, pd_nboff = nat skip_bits,
                  pd_nbits = 8 * sz - nat unused_bits, pd_moved = 0\<rparr>
        in if pd_nbits pd < pd_nboff pd then Some (RC_FAIL, 0, None)
           else
             case op of
               None \<Rightarrow> Some (RC_FAIL, 0, None)
             | Some decoder \<Rightarrow> do {
                 (code, v, pd) \<leftarrow> decoder pd;
                 if code = RC_OK then do {
                   let consumed = push_bit 3 (pd_buffer pd) + pd_nboff pd - nat skip_bits;
                   c_assert (of_nat consumed = pd_moved pd);
                   Some (RC_OK, consumed, v) }
                 else Some (code, 0, v) })"

definition uper_decode_complete ::
  "'v uper_decoder option \<Rightarrow> u8 list \<Rightarrow> nat \<Rightarrow> (asn_dec_rval_code \<times> nat \<times> 'v option) option" where
  "uper_decode_complete op buffer sz = do {
     (code, consumed, v) \<leftarrow> uper_decode op buffer sz 0 0;
     if consumed \<noteq> 0 then Some (code, drop_bit 3 (consumed + 7), v)
     else if code = RC_OK then
       if sz \<noteq> 0 then do {
         b \<leftarrow> rd buffer 0;
         Some (if b = 0 then (RC_OK, 1, v) else (RC_FAIL, 0, v)) }
       else Some (RC_WMORE, 0, v)
     else Some (code, consumed, v) }"

section \<open>Open types\<close>

lemma put_length_progress:
  assumes "uper_put_length po n = Some (r, e, po')" "0 \<le> r" "0 < n"
  shows "0 < nat r" "nat r \<le> n"
proof -
  have d: "drop_bit 14 n = n div 16384" "push_bit 14 m = 16384 * m" for m :: nat
    by (simp_all add: drop_bit_eq_div push_bit_eq_mult)
  have "r = int n \<or> 16384 \<le> n \<and> r = int (16384 * (if 4 < n div 16384 then 4 else n div 16384))"
    using assms(1,2) by (auto simp: uper_put_length_def d Let_def bind_eq_Some_conv split: if_splits)
  moreover have "16384 \<le> n \<Longrightarrow> 1 \<le> n div 16384" "16384 * (n div 16384) \<le> n" by (simp_all add: less_eq_div_iff_mult_less_eq)
  ultimately show "0 < nat r" "nat r \<le> n" using assms(3) by (auto split: if_splits)
qed

function open_type_put_loop :: "'k bit_outp \<Rightarrow> u8 list \<Rightarrow> nat \<Rightarrow> (int \<times> 'k bit_outp) option" where
  "open_type_put_loop po bptr sz =
     (case uper_put_length po sz of
        None \<Rightarrow> None
      | Some (may_save, need_eom, po1) \<Rightarrow>
          if may_save < 0 then Some (if sz \<noteq> 0 then -1 else 0, po1)
          else do {
            (r, po2) \<leftarrow> asn_put_many_bits po1 bptr (may_save * 8);
            if r \<noteq> 0 then Some (if sz \<noteq> 0 then -1 else 0, po2)
            else do {
              (r, po3) \<leftarrow>
                (if need_eom \<noteq> 0 then do { (r, e, po) \<leftarrow> uper_put_length po2 0; Some (r, po) } else Some (0, po2));
              if r \<noteq> 0 then Some (-1, po3)
              else if sz - nat may_save = 0 then Some (0, po3)
              else open_type_put_loop po3 (drop (nat may_save) bptr) (sz - nat may_save) } })"
  by pat_completeness auto
termination
proof (relation "measure (\<lambda>(po, b, n). n)", goal_cases)
  case (2 po bptr sz a may_save b need_eom po1 r po2 r' po3)
  then have "0 < sz" by simp
  with put_length_progress [of po sz may_save need_eom po1] 2 show ?case by auto
qed simp

definition uper_open_type_put ::
  "(nat \<Rightarrow> bool) \<Rightarrow> ('v, enc_dyn_arg) uper_encoder option \<Rightarrow> 'v \<Rightarrow> 'k bit_outp \<Rightarrow> (int \<times> 'k bit_outp) option" where
  "uper_open_type_put can_alloc op sptr po = do {
     (sz, buf) \<leftarrow> uper_encode_to_new_buffer can_alloc op sptr;
     if sz \<le> 0 then Some (-1, po)
     else do { buf \<leftarrow> buf; open_type_put_loop po buf (nat sz) } }"

text \<open>
  The loop over length-delimited chunks that \<open>uper_open_type_get_simple\<close> and
  \<open>INTEGER_decode_uper\<close> share. \<open>alloc\<close> is the allocation in front of the read: from the octets
  collected, those announced and the size of the buffer it makes the size of the new buffer,
  or \<open>None\<close> when \<open>REALLOC\<close> fails. \<open>Inl\<close> is the code of an early return, \<open>Inr\<close> the octets
  collected. A read beyond the end of the buffer is a fault.
\<close>

type_synonym chunk_alloc = "nat \<Rightarrow> nat \<Rightarrow> nat \<Rightarrow> nat option"

partial_function (option) per_chunks ::
  "chunk_alloc \<Rightarrow> bit_data \<Rightarrow> u8 list \<Rightarrow> nat \<Rightarrow> ((asn_dec_rval_code + u8 list) \<times> bit_data) option" where
  [code]: "per_chunks alloc pd buf bufSize =
     (case uper_get_length pd (-1) 0 of
        None \<Rightarrow> None
      | Some (chunk_bytes, repeat, pd) \<Rightarrow>
          if chunk_bytes < 0 then Some (Inl RC_WMORE, pd)
          else
            case alloc (length buf) (nat chunk_bytes) bufSize of
              None \<Rightarrow> Some (Inl RC_FAIL, pd)
            | Some bufSize \<Rightarrow>
                if bufSize < length buf + nat chunk_bytes then None
                else
                  case asn_get_many_bits pd False (chunk_bytes * 8) of
                    None \<Rightarrow> None
                  | Some (r, octets, pd) \<Rightarrow>
                      if r \<noteq> 0 then Some (Inl RC_WMORE, pd)
                      else if repeat \<noteq> 0 then per_chunks alloc pd (buf @ octets) bufSize
                      else Some (Inr (buf @ octets), pd))"

text \<open>The buffer of an open type grows by a factor of four and the chunk.\<close>

definition open_type_alloc :: "(nat \<Rightarrow> bool) \<Rightarrow> chunk_alloc" where
  "open_type_alloc can_alloc bufLen chunk_bytes bufSize =
     (if bufSize < bufLen + chunk_bytes then
        let bufSize = chunk_bytes + push_bit 2 bufSize in if can_alloc bufSize then Some bufSize else None
      else Some bufSize)"

definition open_type_chunks ::
  "(nat \<Rightarrow> bool) \<Rightarrow> bit_data \<Rightarrow> ((asn_dec_rval_code + u8 list) \<times> bit_data) option" where
  "open_type_chunks can_alloc pd = per_chunks (open_type_alloc can_alloc) pd [] 0"

definition uper_open_type_get_simple ::
  "bool \<Rightarrow> (nat \<Rightarrow> bool) \<Rightarrow> 'v uper_decoder \<Rightarrow> 'v uper_decoder" where
  "uper_open_type_get_simple stack_ok can_alloc decoder pd =
     (if \<not> stack_ok then Some (RC_FAIL, None, pd)
      else do {
        (res, pd) \<leftarrow> open_type_chunks can_alloc pd;
        case res of
          Inl code \<Rightarrow> Some (code, None, pd)
        | Inr buf \<Rightarrow> do {
            (code, v, spd) \<leftarrow> decoder \<lparr>pd_mem = buf, pd_buffer = 0, pd_nboff = 0,
                                       pd_nbits = 8 * length buf, pd_moved = 0\<rparr>;
            if code = RC_OK then do {
              let padding = int (pd_nbits spd) - int (pd_nboff spd);
              cool \<leftarrow> (if 0 < padding \<and> padding < 8 \<or> pd_nboff spd = 0 \<and> pd_nbits spd = 8 \<and> pd_buffer spd = 0
                       then do { (p, spd) \<leftarrow> asn_get_few_bits spd padding; Some (p = 0) }
                       else Some False);
              if cool then Some (code, v, pd)
              else if 8 \<le> padding then Some (RC_FAIL, v, pd)
              else Some (code, v, pd) }
            else Some (RC_FAIL, v, pd) } })"

definition uper_open_type_get :: "bool \<Rightarrow> (nat \<Rightarrow> bool) \<Rightarrow> 'v uper_decoder \<Rightarrow> 'v uper_decoder" where
  "uper_open_type_get stack_ok can_alloc decoder pd = uper_open_type_get_simple stack_ok can_alloc decoder pd"

text \<open>\<open>uper_sot_suck\<close> of \<open>per_opentype.c\<close>, the decoder that reads everything.\<close>

partial_function (option) sot_suck_loop :: "bit_data \<Rightarrow> bit_data option" where
  [code]: "sot_suck_loop pd =
     (case asn_get_few_bits pd 1 of
        None \<Rightarrow> None
      | Some (b, pd) \<Rightarrow> if 0 \<le> b then sot_suck_loop pd else Some pd)"

definition uper_sot_suck :: "unit uper_decoder" where
  "uper_sot_suck pd = do { pd \<leftarrow> sot_suck_loop pd; Some (RC_OK, Some (), pd) }"

definition uper_open_type_skip :: "bool \<Rightarrow> (nat \<Rightarrow> bool) \<Rightarrow> bit_data \<Rightarrow> (int \<times> bit_data) option" where
  "uper_open_type_skip stack_ok can_alloc pd = do {
     (code, v, pd) \<leftarrow> uper_open_type_get stack_ok can_alloc uper_sot_suck pd;
     Some (if code \<noteq> RC_OK then -1 else 0, pd) }"

function skip_bits_loop :: "bit_data \<Rightarrow> int \<Rightarrow> int \<Rightarrow> (int \<times> bit_data) option" where
  "skip_bits_loop pd skip_nbits hasNonZeroBits =
     (if 0 < skip_nbits then
        let skip = (if skip_nbits < 24 then skip_nbits else 24) in
        case asn_get_few_bits pd skip of
          None \<Rightarrow> None
        | Some (v, pd) \<Rightarrow>
            if v = -1 then Some (-1, pd)
            else skip_bits_loop pd (skip_nbits - skip) (if v = 0 then hasNonZeroBits else 1)
      else Some (hasNonZeroBits, pd))"
  by pat_completeness auto
termination
  by (relation "measure (\<lambda>(pd, n, h). nat n)") auto

definition per_skip_bits :: "bit_data \<Rightarrow> int \<Rightarrow> (int \<times> bit_data) option" where
  "per_skip_bits pd skip_nbits = skip_bits_loop pd skip_nbits 0"

declare open_type_put_loop.simps [simp del] skip_bits_loop.simps [simp del]

section \<open>The interface of a type to PER\<close>

text \<open>
  \<open>val\<close> is the abstract value that a C object represents, \<open>repr a\<close> the bit string that X.691
  assigns to the abstract value \<open>a\<close>, when it has one. A decoder inverts it in front of any
  further bits; an encoder appends exactly it.
\<close>

locale uper_reader =
  fixes decoder :: "'v uper_decoder" and val :: "'v \<Rightarrow> 'a" and repr :: "'a \<Rightarrow> bool list option"
  assumes decodes: "repr a = Some bs \<Longrightarrow> pd_inv pd \<Longrightarrow> pd_bits pd = bs @ rest \<Longrightarrow>
    \<exists>w pd'. decoder pd = Some (RC_OK, Some w, pd') \<and> val w = a \<and> pd_consumes pd bs pd'"

locale uper_codec = bytes_consumer cb taken key_inv + uper_reader decoder val repr
  for cb :: "'k consumer" and taken key_inv and decoder :: "'v uper_decoder" and val :: "'v \<Rightarrow> 'a" and repr +
  fixes encoder :: "('v, 'k) uper_encoder"
  assumes encodes: "repr (val v) = Some bs \<Longrightarrow> po_ok cb key_inv po \<Longrightarrow> po_puts cb taken key_inv po 0 bs (encoder v po)"

section \<open>The complete encoding\<close>

lemma mask_FF: "(ucast (push_bit j (0xFF :: u32)) :: u8) = ucast (push_bit j (NOT 0 :: u32))"
proof -
  have "(ucast (push_bit j (mask 8 :: u32)) :: u8) = ucast (push_bit j (NOT 0 :: u32))"
    by (rule bit_word_eqI) (auto simp: bit_simps)
  moreover have "(mask 8 :: u32) = 0xFF" by (simp add: mask_eq_exp_minus_1)
  ultimately show ?thesis by (simp only:)
qed

context bytes_consumer begin

lemma encode_flush_ok:
  assumes ok: "po_ok cb key_inv po"
  shows "\<exists>r po'. uper_encode_flush_outp po = Some (r, po') \<and> key_inv (po_op_key po') \<and>
    (0 \<le> r \<longrightarrow> octets_bits (taken (po_op_key po')) = po_bits taken po @ replicate (flush_pad (po_nboff po)) False)
    \<and> (r < 0 \<longrightarrow> refuses)"
proof (cases "po_nboff po = 0 \<and> po_buffer po = 0")
  case True
  with ok show ?thesis by (simp add: uper_encode_flush_outp_def po_bits_def po_pending_def flush_pad_def po_ok_def)
next
  case False
  have inv: "po_inv po" and ki: "key_inv (po_op_key po)" using ok by (simp_all add: po_ok_def)
  note F = flush_facts [OF inv]
  have u: "take_bit 3 (po_nboff po) \<noteq> 0 \<Longrightarrow> 8 - take_bit 3 (po_nboff po) = flush_pad (po_nboff po)"
    by (simp add: take_bit_eq_mod flush_pad_cases)
  have low: "take_bit 3 (po_nboff po) = po_nboff po mod 8" by (simp add: take_bit_eq_mod)
  have q: "drop_bit 3 (po_nboff po) = po_nboff po div 8" by (simp add: drop_bit_eq_div)
  from safe [OF ki, of "take (flush_count po) (flush_mem po)"] obtain r key where
    cbk: "cb (po_op_key po) (take (flush_count po) (flush_mem po)) = Some (r, key)" "key_inv key" by blast
  have "uper_encode_flush_outp po = Some (r, po\<lparr>po_tmpspace := flush_mem po, po_op_key := key\<rparr>)"
  proof (cases "po_nboff po mod 8 = 0")
    case True
    with cbk ok F(1,2) show ?thesis
      unfolding uper_encode_flush_outp_def if_not_P [OF False]
      by (simp add: low q flush_mem_def flush_count_def po_ok_def mem_load_def)
  next
    case nz: False
    have m: "flush_mem po = (po_tmpspace po)[po_buffer po + po_nboff po div 8 :=
        po_tmpspace po ! (po_buffer po + po_nboff po div 8) AND ucast (push_bit (8 - po_nboff po mod 8) (0xFF :: u32))]"
      using nz by (simp add: flush_mem_def Let_def flush_pad_cases(1) mask_FF del: push_bit_numeral)
    have c: "flush_count po = po_buffer po + po_nboff po div 8 + 1" using nz by (simp add: flush_count_def)
    from nz cbk ok F(1-3) inv show ?thesis
      unfolding uper_encode_flush_outp_def if_not_P [OF False]
      by (simp add: low q m c po_ok_def po_inv_def mem_load_def Let_def)
  qed
  moreover have "r < 0 \<Longrightarrow> refuses" using cbk ki unfolding cb_refuses_def by blast
  moreover have "0 \<le> r \<Longrightarrow> octets_bits (taken key) = po_bits taken po @ replicate (flush_pad (po_nboff po)) False"
    using accepted [OF ki cbk(1)] F(4) by (simp add: po_bits_def)
  ultimately show ?thesis using cbk(2) by simp
qed

end

lemma flush_pad_mod: "m mod 8 = n mod 8 \<Longrightarrow> flush_pad m = flush_pad n"
  by (simp add: flush_pad_def)

lemma flush_pad_octets: "flush_pad n = 8 * ((n + 7) div 8) - n"
  using octets_for_bits(1,2) [of "(n + 7) div 8" n] by (auto simp: flush_pad_cases(1))

lemma padded_left_octets: "octets_bits os = bs @ replicate (flush_pad (length bs)) False \<longleftrightarrow> os = left_octets bs"
  by (metis flush_pad_octets octets_bits_inj octets_bits_left_octets)

text \<open>X.691 #10.1: the complete encoding has at least one octet.\<close>

definition per_complete :: "bool list \<Rightarrow> u8 list" where
  "per_complete bs = (if bs = [] then [0] else left_octets bs)"

lemma flush_calls:
  assumes "uper_encode_flush_outp po = Some (r, po')" "\<not> (po_nboff po = 0 \<and> po_buffer po = 0)"
  shows "\<exists>xs. po_output po (po_op_key po) xs = Some (r, po_op_key po')"
  using assms(1) unfolding uper_encode_flush_outp_def if_not_P [OF assms(2)]
  by (auto simp: bind_eq_Some_conv Let_def split: if_splits)

context bytes_consumer begin

lemma uper_encode_ok:
  assumes puts: "puts (po_start cb key) 0 bs (encoder v (po_start cb key))"
    and key: "key_inv key"
    and nonpos: "\<And>k xs r k'. key_inv k \<Longrightarrow> cb k xs = Some (r, k') \<Longrightarrow> r \<le> 0"
  shows "\<exists>r key'. uper_encode (Some encoder) v (Some cb) key = Some (r, key') \<and> key_inv key' \<and>
    (r = int (length bs) \<and> taken key' = taken key @ left_octets bs \<or> r = -1 \<and> refuses)"
proof -
  have start: "\<lparr>po_buffer = 0, po_nboff = 0, po_nbits = 256, po_tmpspace = replicate 32 0,
      po_output = cb, po_op_key = key, po_flushed_bytes = 0\<rparr> = po_start cb key"
    by (simp add: po_start_def)
  from puts obtain r po where e: "encoder v (po_start cb key) = Some (r, po)" "po_ok cb key_inv po"
    "r = 0 \<and> po_emits taken (po_start cb key) bs po \<or> r = -1 \<and> refuses"
    unfolding po_puts_def by blast
  show ?thesis
  proof (cases "r = -1")
    case True
    with e show ?thesis by (simp add: uper_encode_def start po_ok_def)
  next
    case False
    with e(3) have r: "r = 0" and em: "po_emits taken (po_start cb key) bs po" by auto
    have c0: "po_count (po_start cb key) = 0" by (simp add: po_count_def po_start_def)
    then have cnt: "po_count po = length bs" using em by (simp add: po_emits_def)
    then have "length bs = po_nboff po + 8 * (po_flushed_bytes po + po_buffer po)" by (simp add: po_count_def)
    then have "po_nboff po mod 8 = length bs mod 8" by (simp only: mod_mult_self2)
    then have pad: "flush_pad (po_nboff po) = flush_pad (length bs)" by (rule flush_pad_mod)
    have bits: "po_bits taken po = octets_bits (taken key) @ bs"
      using em by (simp add: po_emits_def po_start_bits)
    from encode_flush_ok [OF e(2)] obtain r2 po2 where
      f: "uper_encode_flush_outp po = Some (r2, po2)" "key_inv (po_op_key po2)"
      "0 \<le> r2 \<longrightarrow> octets_bits (taken (po_op_key po2)) = po_bits taken po @ replicate (flush_pad (po_nboff po)) False"
      "r2 < 0 \<longrightarrow> refuses" by blast
    have le: "r2 \<le> 0"
    proof (cases "po_nboff po = 0 \<and> po_buffer po = 0")
      case True
      with f(1) show ?thesis by (simp add: uper_encode_flush_outp_def)
    next
      case False
      from flush_calls [OF f(1) False] obtain xs where "cb (po_op_key po) xs = Some (r2, po_op_key po2)"
        using e(2) by (auto simp: po_ok_def)
      with nonpos [of "po_op_key po"] e(2) show ?thesis by (simp add: po_ok_def)
    qed
    have "octets_bits (taken (po_op_key po2)) = octets_bits (taken key @ left_octets bs)" if "r2 = 0"
      using f(3) that pad bits padded_left_octets [of "left_octets bs" bs] by simp
    then have "r2 = 0 \<Longrightarrow> taken (po_op_key po2) = taken key @ left_octets bs" by (metis octets_bits_inj)
    moreover have "int (push_bit 3 (po_flushed_bytes po) + (push_bit 3 (po_buffer po) + po_nboff po)) = int (length bs)"
      using cnt by (simp add: po_count_def push_bit_eq_mult)
    then have "uper_encode (Some encoder) v (Some cb) key = Some (if r2 \<noteq> 0 then -1 else int (length bs), po_op_key po2)"
      using e(1) f(1) r by (simp add: uper_encode_def start Let_def)
    ultimately show ?thesis using f(2,4) le by auto
  qed
qed

end

lemma dyn_nonpos: "dyn_inv k \<Longrightarrow> encode_dyn_cb ca k xs = Some (r, k') \<Longrightarrow> r \<le> 0"
  by (auto simp: encode_dyn_cb_def bind_eq_Some_conv split: option.splits)

lemma to_buf_nonpos: "to_buf_inv k \<Longrightarrow> encode_to_buffer_cb k xs = Some (r, k') \<Longrightarrow> r \<le> 0"
  by (auto simp: encode_to_buffer_cb_def bind_eq_Some_conv split: if_splits)

lemma new_buffer_ok:
  assumes "\<And>po. po_ok (encode_dyn_cb ca) dyn_inv po \<Longrightarrow> po_puts (encode_dyn_cb ca) dyn_taken dyn_inv po 0 bs (encoder v po)"
  shows "\<exists>r buf. uper_encode_to_new_buffer ca (Some encoder) v = Some (r, buf) \<and>
    (r = int (length (per_complete bs)) \<and> (\<exists>b. buf = Some b \<and> length (per_complete bs) \<le> length b \<and>
       take (length (per_complete bs)) b = per_complete bs) \<or>
     r = -1 \<and> (cb_refuses (encode_dyn_cb ca) dyn_inv \<or> \<not> ca 1))"
proof -
  have start: "\<lparr>dy_buffer = [], dy_length = 0, dy_allocated = 0\<rparr> = dyn_start" by (simp add: dyn_start_def)
  have "\<exists>r key. uper_encode (Some encoder) v (Some (encode_dyn_cb ca)) dyn_start = Some (r, key) \<and> dyn_inv key \<and>
    (r = int (length bs) \<and> dyn_taken key = dyn_taken dyn_start @ left_octets bs \<or>
     r = -1 \<and> cb_refuses (encode_dyn_cb ca) dyn_inv)"
    by (rule dyn.uper_encode_ok) (use assms dyn_nonpos in auto)
  then obtain r key where
    e: "uper_encode (Some encoder) v (Some (encode_dyn_cb ca)) dyn_start = Some (r, key)" "dyn_inv key"
    "r = int (length bs) \<and> dyn_taken key = left_octets bs \<or> r = -1 \<and> cb_refuses (encode_dyn_cb ca) dyn_inv"
    by auto
  have s: "drop_bit 3 (int (length bs) + 7) = int ((length bs + 7) div 8)"
    by (simp add: drop_bit_eq_div zdiv_int)
  show ?thesis
  proof (cases "r = -1")
    case True
    with e show ?thesis by (auto simp: uper_encode_to_new_buffer_def start)
  next
    case False
    with e(3) have r: "r = int (length bs)" and t: "dyn_taken key = left_octets bs" by auto
    show ?thesis
    proof (cases "bs = []")
      case True
      with e(1) r show ?thesis by (cases "ca 1") (simp_all add: uper_encode_to_new_buffer_def start per_complete_def)
    next
      case False
      have "dy_length key \<le> length (dy_buffer key)" using e(2) by (simp add: dyn_inv_def)
      then have "length (dyn_taken key) = dy_length key" by (simp add: dyn_taken_def)
      then have "dy_length key = (length bs + 7) div 8" by (simp add: t)
      moreover have "take (dy_length key) (dy_buffer key) = left_octets bs" using t by (simp only: dyn_taken_def)
      ultimately have "dy_length key = (length bs + 7) div 8" "take ((length bs + 7) div 8) (dy_buffer key) = left_octets bs"
        by simp_all
      with e(1) r False s \<open>dy_length key \<le> _\<close> show ?thesis
        by (simp add: uper_encode_to_new_buffer_def start per_complete_def)
    qed
  qed
qed

section \<open>Fragmented octets\<close>

text \<open>
  X.691 #11.9.3.8: fragments of at most 64K octets, each behind its length, the last one
  shorter than 16K octets, if need be empty.
\<close>

lemma unit_bounds: "0 < n \<Longrightarrow> 0 < uper_length_unit n" "uper_length_unit n \<le> n"
  "16384 \<le> n \<Longrightarrow> 16384 \<le> uper_length_unit n"
proof -
  have "16384 \<le> n \<Longrightarrow> 1 \<le> n div 16384" by (simp add: less_eq_div_iff_mult_less_eq)
  moreover have "16384 * (n div 16384) \<le> n" by simp
  ultimately show "0 < n \<Longrightarrow> 0 < uper_length_unit n" "uper_length_unit n \<le> n"
    "16384 \<le> n \<Longrightarrow> 16384 \<le> uper_length_unit n"
    by (auto simp: uper_length_unit_def min_def)
qed

lemma unit_exact: "16384 \<le> n \<Longrightarrow> uper_length_unit n = n \<longleftrightarrow> n div 16384 \<le> 4 \<and> n mod 16384 = 0"
  using minus_mult_div_eq_mod [of n 16384] mult_div_mod_eq [of 16384 n]
  by (auto simp: uper_length_unit_def min_def split: if_splits)

function fragments_bits :: "u8 list \<Rightarrow> bool list" where
  "fragments_bits os =
     (let n = length os; u = uper_length_unit n in
      uper_length_bits n @ octets_bits (take u os) @
      (if n < 16384 then [] else if u = n then uper_length_bits 0 else fragments_bits (drop u os)))"
  by pat_completeness auto
termination
proof (relation "measure length", goal_cases)
  case (2 os n u)
  then have "0 < length os" by auto
  with 2 show ?case using unit_bounds(1) [of "length os"] by simp
qed simp

declare fragments_bits.simps [simp del]

context bytes_consumer begin

lemma put_length_zero:
  assumes "po_ok cb key_inv po"
  shows "puts po 0 (uper_length_bits 0) (do { (r, e, po) \<leftarrow> uper_put_length po 0; Some (r, po) })"
  using put_length_ok [OF assms, of 0] by (auto simp: po_puts_def uper_length_unit_def)

lemma open_type_put_loop_ok:
  assumes "po_ok cb key_inv po" "0 < sz" "sz \<le> length bptr"
  shows "puts po 0 (fragments_bits (take sz bptr)) (open_type_put_loop po bptr sz)"
  using assms
proof (induction sz arbitrary: po bptr rule: less_induct)
  case (less sz)
  define u where "u = uper_length_unit sz"
  define eom where "eom = (if 16384 \<le> sz \<and> sz div 16384 \<le> 4 \<and> sz mod 16384 = 0 then 1 else 0 :: int)"
  have u: "0 < u" "u \<le> sz" using unit_bounds [of sz] less.prems by (simp_all add: u_def)
  have eom: "eom \<noteq> 0 \<longleftrightarrow> 16384 \<le> sz \<and> u = sz" using unit_exact [of sz] by (auto simp: eom_def u_def)
  from put_length_ok [OF less.prems(1), of sz] obtain r1 po1 where
    1: "uper_put_length po sz = Some (r1, eom, po1)" "po_ok cb key_inv po1"
    "r1 = int u \<and> po_emits taken po (uper_length_bits sz) po1 \<or> r1 = -1 \<and> refuses"
    unfolding u_def eom_def by blast
  show ?case
  proof (cases "r1 = -1")
    case True
    with 1 less.prems show ?thesis by (subst open_type_put_loop.simps) (simp add: po_puts_def)
  next
    case False
    with 1(3) have r1: "r1 = int u" "po_emits taken po (uper_length_bits sz) po1" by auto
    have "8 * u \<le> 8 * length bptr" using u less.prems by simp
    from put_many_bits_ok [OF 1(2) this] obtain r2 po2 where
      2: "asn_put_many_bits po1 bptr (int u * 8) = Some (r2, po2)" "po_ok cb key_inv po2"
      "r2 = 0 \<and> po_emits taken po1 (octets_bits (take u bptr)) po2 \<or> r2 = -1 \<and> refuses"
      using take_octets_bits [of u bptr] by (auto simp: mult.commute)
    have step: "open_type_put_loop po bptr sz =
      (if r2 \<noteq> 0 then Some (-1, po2)
       else do {
         (r, po3) \<leftarrow> (if eom \<noteq> 0 then do { (r, e, po) \<leftarrow> uper_put_length po2 0; Some (r, po) } else Some (0, po2));
         if r \<noteq> 0 then Some (-1, po3)
         else if sz - u = 0 then Some (0, po3) else open_type_put_loop po3 (drop u bptr) (sz - u) })"
      using less.prems u by (subst open_type_put_loop.simps) (simp add: 1(1) r1(1) 2(1) cong del: if_weak_cong)
    show ?thesis
    proof (cases "r2 = 0")
      case False
      with 2 step show ?thesis by (auto simp: po_puts_def)
    next
      case True
      with 2(3) have e2: "po_emits taken po (uper_length_bits sz @ octets_bits (take u bptr)) po2"
        using po_emits_trans [OF r1(2)] by auto
      define tl where "tl = (if sz < 16384 then [] else if u = sz then uper_length_bits 0
        else fragments_bits (drop u (take sz bptr)))"
      have frag: "fragments_bits (take sz bptr) = (uper_length_bits sz @ octets_bits (take u bptr)) @ tl"
        using less.prems u by (subst fragments_bits.simps) (simp add: Let_def u_def [symmetric] tl_def min_def)
      have "puts po2 0 tl (do {
         (r, po3) \<leftarrow> (if eom \<noteq> 0 then do { (r, e, po) \<leftarrow> uper_put_length po2 0; Some (r, po) } else Some (0, po2));
         if r \<noteq> 0 then Some (-1, po3)
         else if sz - u = 0 then Some (0, po3) else open_type_put_loop po3 (drop u bptr) (sz - u) })"
      proof (cases "eom \<noteq> 0")
        case True
        then have s: "16384 \<le> sz" "u = sz" using eom by simp_all
        have "puts po2 0 (uper_length_bits 0 @ []) ((do { (r, e, po) \<leftarrow> uper_put_length po2 0; Some (r, po) }) \<bind>
            (\<lambda>(r, po3). if r \<noteq> 0 then Some (-1, po3) else Some (0, po3)))"
          by (rule po_puts_then) (use put_length_zero [OF 2(2)] po_puts_Nil in auto)
        then show ?thesis using True s by (simp add: tl_def cong del: if_weak_cong)
      next
        case False
        then have s: "sz < 16384 \<or> u \<noteq> sz" using eom by auto
        show ?thesis
        proof (cases "u = sz")
          case True
          then have "sz < 16384" using s by simp
          with True False show ?thesis using po_puts_Nil [OF 2(2)] by (simp add: tl_def)
        next
          case ne: False
          then have "16384 \<le> sz" using u by (auto simp: u_def uper_length_unit_def split: if_splits)
          moreover have "puts po2 0 (fragments_bits (take (sz - u) (drop u bptr))) (open_type_put_loop po2 (drop u bptr) (sz - u))"
            by (rule less.IH) (use u ne less.prems 2(2) in auto)
          ultimately show ?thesis using ne False u by (simp add: tl_def drop_take)
        qed
      qed
      with e2 True po_emits_trans [OF e2] show ?thesis unfolding frag step po_puts_def by auto
    qed
  qed
qed

end

lemma left_octets_length8: "8 * n \<le> length bs \<Longrightarrow> length (left_octets (take (8 * n) bs)) = n"
  by simp

text \<open>The loop collects exactly the octets that were cut into fragments.\<close>

lemma per_chunks_ok:
  assumes "pd_inv pd" "pd_bits pd = fragments_bits os @ rest" "length buf \<le> bufSize"
    and alloc: "\<And>l c n. l \<le> n \<Longrightarrow> \<exists>n'. alloc l c n = Some n' \<and> l + c \<le> n'"
  shows "\<exists>pd'. per_chunks alloc pd buf bufSize = Some (Inr (buf @ os), pd') \<and> pd_consumes pd (fragments_bits os) pd'"
  using assms(1-3)
proof (induction "length os" arbitrary: os pd buf bufSize rule: less_induct)
  case less
  define n where "n = length os"
  define u where "u = uper_length_unit n"
  define tl where "tl = (if n < 16384 then [] else if u = n then uper_length_bits 0 else fragments_bits (drop u os))"
  have ul: "u \<le> n" using unit_bounds [of n] by (simp add: u_def)
  have frag: "fragments_bits os = uper_length_bits n @ octets_bits (take u os) @ tl"
    by (subst fragments_bits.simps) (simp add: Let_def n_def u_def tl_def)
  from get_length_ok [of pd n "octets_bits (take u os) @ tl @ rest" 0] less.prems(1,2) obtain pd1 where
    1: "uper_get_length pd (-1) 0 = Some (int u, if n < 16384 then 0 else 1, pd1)"
      "pd_consumes pd (uper_length_bits n) pd1" "pd_bits pd1 = octets_bits (take u os) @ tl @ rest"
    by (auto simp: frag u_def)
  have i1: "pd_inv pd1" using 1(2) by (simp add: pd_consumes_def)
  have lu: "length (octets_bits (take u os)) = 8 * u" using ul by (simp add: n_def)
  from get_many_bits_left [OF i1, of "8 * u"] 1(3) lu obtain pd2 where
    2: "asn_get_many_bits pd1 False (int (8 * u)) = Some (0, take u os, pd2)" "pd_consumes pd1 (octets_bits (take u os)) pd2"
    by auto
  have i2: "pd_inv pd2" and b2: "pd_bits pd2 = tl @ rest"
    using 2(2) 1(3) by (simp_all add: pd_consumes_def)
  have c12: "pd_consumes pd (uper_length_bits n @ octets_bits (take u os)) pd2"
    by (rule pd_consumes_trans [OF 1(2) 2(2)])
  from alloc [OF less.prems(3), of u] obtain n' where n': "alloc (length buf) u bufSize = Some n'" "length buf + u \<le> n'"
    by blast
  have lt: "length (take u os) = u" using ul by (simp add: n_def)
  have step: "per_chunks alloc pd buf bufSize =
      (if n < 16384 then Some (Inr (buf @ take u os), pd2) else per_chunks alloc pd2 (buf @ take u os) n')"
  proof -
    have "asn_get_many_bits pd1 False (int u * 8) = Some (0, take u os, pd2)" using 2(1) by (simp add: mult.commute)
    then show ?thesis using n' by (subst per_chunks.simps) (simp add: 1(1))
  qed
  show ?case
  proof (cases "n < 16384")
    case True
    then have "u = n" by (simp add: u_def uper_length_unit_def)
    with True step c12 show ?thesis by (simp add: frag tl_def n_def)
  next
    case False
    define os' where "os' = (if u = n then [] else drop u os)"
    have tl: "tl = fragments_bits os'" and cat: "take u os @ os' = os"
      using False by (auto simp: tl_def os'_def n_def fragments_bits.simps [of "[]"])
    have "0 < u" using False unit_bounds(1) [of n] by (simp add: u_def)
    then have "length os' < length os" using False by (auto simp: os'_def n_def)
    from less.hyps [OF this i2, of "buf @ take u os" n'] b2 n'(2) lt obtain pd3 where
      "per_chunks alloc pd2 (buf @ take u os) n' = Some (Inr ((buf @ take u os) @ os'), pd3)"
      "pd_consumes pd2 (fragments_bits os') pd3" by (auto simp: tl)
    with False step pd_consumes_trans [OF c12] cat show ?thesis
      by (auto simp: frag tl)
  qed
qed

lemma open_type_alloc_ok:
  assumes "l \<le> n" "\<And>n. ca n"
  shows "\<exists>n'. open_type_alloc ca l c n = Some n' \<and> l + c \<le> n'"
  using assms by (simp add: open_type_alloc_def Let_def push_bit_eq_mult)

lemma open_type_chunks_ok:
  assumes "pd_inv pd" "pd_bits pd = fragments_bits os @ rest" "\<And>n. ca n"
  shows "\<exists>pd'. open_type_chunks ca pd = Some (Inr os, pd') \<and> pd_consumes pd (fragments_bits os) pd'"
  using per_chunks_ok [OF assms(1,2), of "[]" 0 "open_type_alloc ca"] open_type_alloc_ok assms(3)
  by (auto simp: open_type_chunks_def)

text \<open>On any stream the loop ends without a fault.\<close>

lemma get_many_octets_total:
  assumes "pd_inv pd"
  shows "\<exists>r octets pd'. asn_get_many_bits pd False (int n * 8) = Some (r, octets, pd') \<and> pd_inv pd' \<and>
    (r = 0 \<longrightarrow> length octets = n \<and> length (pd_bits pd) = 8 * n + length (pd_bits pd')) \<and> (r = 0 \<or> r = -1)"
proof -
  have n: "int n * 8 = int (8 * n)" by simp
  show ?thesis
  proof (cases "8 * n \<le> length (pd_bits pd)")
    case True
    from get_many_bits_left [OF assms True] obtain pd' where
      pd': "asn_get_many_bits pd False (int (8 * n)) = Some (0, left_octets (take (8 * n) (pd_bits pd)), pd')"
      "pd_consumes pd (take (8 * n) (pd_bits pd)) pd'" by blast
    have "length (pd_bits pd) = 8 * n + length (pd_bits pd')"
      using pd_consumesD(3) [OF pd'(2)] True by (metis length_append length_take min.absorb2)
    with pd'(1) pd_consumesD(2) [OF pd'(2)] left_octets_length8 [OF True] show ?thesis
      unfolding n by blast
  next
    case False
    with get_many_bits_starved [OF assms, of "8 * n"] show ?thesis unfolding n by auto
  qed
qed

lemma per_chunks_total:
  assumes "pd_inv pd" "length buf \<le> bufSize" and alloc: "\<And>l c n n'. l \<le> n \<Longrightarrow> alloc l c n = Some n' \<Longrightarrow> l + c \<le> n'"
  shows "\<exists>res pd'. per_chunks alloc pd buf bufSize = Some (res, pd') \<and> pd_inv pd'"
  using assms(1,2)
proof (induction "length (pd_bits pd)" arbitrary: pd buf bufSize rule: less_induct)
  case less
  from get_length_total [OF less.prems(1), of 0] obtain v repeat pd1 where
    1: "uper_get_length pd (-1) 0 = Some (v, repeat, pd1)" "pd_inv pd1" "length (pd_bits pd1) \<le> length (pd_bits pd)"
      "v = -1 \<or> 0 \<le> v \<and> repeat = 0 \<or> 16384 \<le> v" by fastforce
  show ?case
  proof (cases "v = -1")
    case True
    with 1 show ?thesis by (subst per_chunks.simps) simp
  next
    case False
    define m where "m = nat v"
    have v: "v = int m" using 1(4) False by (auto simp: m_def)
    show ?thesis
    proof (cases "alloc (length buf) m bufSize")
      case None
      with 1 v show ?thesis by (subst per_chunks.simps) simp
    next
      case (Some n')
      note room = alloc [OF less.prems(2) Some]
      from get_many_octets_total [OF 1(2), of m] obtain r octets pd2 where
        2: "asn_get_many_bits pd1 False (int m * 8) = Some (r, octets, pd2)" "pd_inv pd2"
          "r = 0 \<Longrightarrow> length octets = m" "r = 0 \<Longrightarrow> length (pd_bits pd1) = 8 * m + length (pd_bits pd2)" "r = 0 \<or> r = -1"
        by blast
      have step: "per_chunks alloc pd buf bufSize =
        (if r \<noteq> 0 then Some (Inl RC_WMORE, pd2)
         else if repeat \<noteq> 0 then per_chunks alloc pd2 (buf @ octets) n' else Some (Inr (buf @ octets), pd2))"
        using Some room 2(1) by (subst per_chunks.simps) (simp add: 1(1) v)
      show ?thesis
      proof (cases "r \<noteq> 0 \<or> repeat = 0")
        case True
        with step 2(2) show ?thesis by (auto split: if_splits)
      next
        case False
        then have "16384 \<le> v" using 1(4) \<open>v \<noteq> -1\<close> by auto
        then have "length (pd_bits pd2) < length (pd_bits pd)" using 1(3) 2(4) False v by simp
        from less.hyps [OF this 2(2), of "buf @ octets" n'] room 2(3) False step show ?thesis by auto
      qed
    qed
  qed
qed

context uper_reader begin

lemma decode_whole:
  assumes v: "repr a = Some bs" and buf: "take (length (per_complete bs)) buffer = per_complete bs"
    and sz: "length (per_complete bs) \<le> sz" "sz \<le> length buffer"
  shows "\<exists>w. uper_decode_complete (Some decoder) buffer sz = Some (RC_OK, length (per_complete bs), Some w) \<and> val w = a"
proof -
  define pd where "pd = \<lparr>pd_mem = buffer, pd_buffer = 0, pd_nboff = 0, pd_nbits = 8 * sz, pd_moved = 0\<rparr>"
  have inv: "pd_inv pd" using sz by (simp add: pd_def pd_inv_def)
  have bits: "pd_bits pd = octets_bits (take sz buffer)" by (simp add: pd_def pd_bits_def take_octets_bits)
  have "take sz buffer = per_complete bs @ drop (length (per_complete bs)) (take sz buffer)"
    using buf sz by (metis append_take_drop_id min.absorb1 take_take)
  then have split: "pd_bits pd = octets_bits (per_complete bs) @ octets_bits (drop (length (per_complete bs)) (take sz buffer))"
    unfolding bits by (metis octets_bits_append)
  have "\<exists>rest. pd_bits pd = bs @ rest"
    using split by (cases "bs = []") (auto simp: per_complete_def octets_bits_left_octets)
  then obtain rest where "pd_bits pd = bs @ rest" by blast
  from decodes [OF v inv this] obtain w pd' where
    d: "decoder pd = Some (RC_OK, Some w, pd')" "pd_consumes pd bs pd'" "val w = a" by blast
  have cons: "8 * pd_buffer pd' + pd_nboff pd' = length bs" "pd_moved pd' = of_nat (length bs)"
    using d(2) by (simp_all add: pd_consumes_def pd_pos_def pd_def)
  then have "uper_decode (Some decoder) buffer sz 0 0 = Some (RC_OK, length bs, Some w)"
  proof -
    have "push_bit 3 (pd_buffer pd') + pd_nboff pd' = length bs" using cons(1) by (simp add: push_bit_eq_mult)
    then show ?thesis using d(1) cons(2) by (simp add: uper_decode_def pd_def del: of_nat_add)
  qed
  moreover have "drop_bit 3 (length bs + 7) = (length bs + 7) div 8" by (simp add: drop_bit_eq_div)
  moreover have "bs = [] \<Longrightarrow> rd buffer 0 = Some 0 \<and> sz \<noteq> 0"
    using buf sz by (cases buffer) (auto simp: per_complete_def)
  ultimately show ?thesis using d(3)
    by (cases "bs = []") (auto simp: uper_decode_complete_def per_complete_def)
qed

lemma open_type_get_ok:
  assumes v: "repr a = Some bs" and pd: "pd_inv pd" "pd_bits pd = fragments_bits (per_complete bs) @ rest"
    and ca: "\<And>n. ca n"
  shows "\<exists>w pd'. uper_open_type_get True ca decoder pd = Some (RC_OK, Some w, pd') \<and> val w = a \<and>
    pd_consumes pd (fragments_bits (per_complete bs)) pd'"
proof -
  define buf where "buf = per_complete bs"
  from open_type_chunks_ok [of pd "per_complete bs" rest ca, OF pd ca] obtain pd1 where
    c: "open_type_chunks ca pd = Some (Inr buf, pd1)" "pd_consumes pd (fragments_bits buf) pd1"
    by (auto simp: buf_def)
  define spd where "spd = \<lparr>pd_mem = buf, pd_buffer = 0, pd_nboff = 0, pd_nbits = 8 * length buf, pd_moved = 0\<rparr>"
  have inv: "pd_inv spd" by (simp add: spd_def pd_inv_def)
  define pad where "pad = (if bs = [] then 8 else flush_pad (length bs))"
  have bits: "pd_bits spd = bs @ replicate pad False"
    by (simp add: spd_def pd_bits_def buf_def per_complete_def pad_def octets_bits_left_octets flush_pad_octets
        octets_bits_Cons)
  from decodes [OF v inv bits] obtain w spd' where
    d: "decoder spd = Some (RC_OK, Some w, spd')" "pd_consumes spd bs spd'" "val w = a" by blast
  have i': "pd_inv spd'" "pd_bits spd' = replicate pad False" using d(2) bits by (simp_all add: pd_consumes_def)
  have padding: "int (pd_nbits spd') - int (pd_nboff spd') = int pad"
    using length_pd_bits [OF i'(1)] i' by (simp add: pd_inv_def)
  have "pad \<le> 8" using flush_pad_cases(2) [of "length bs"] by (simp add: pad_def)
  then have few: "asn_get_few_bits spd' (int pad) = Some (0, pd_skip pad spd')"
    using get_few_bits_consumes [OF i'(1), of pad] i'(2) by simp
  have nil: "pd_nboff spd' = 0 \<and> pd_nbits spd' = 8 \<and> pd_buffer spd' = 0" if "bs = []"
  proof -
    have "pd_pos spd' = 0" "pd_end spd' = 8" using d(2) that
      by (simp_all add: pd_consumes_def pd_pos_def pd_end_def spd_def buf_def per_complete_def)
    then show ?thesis by (simp add: pd_pos_def pd_end_def)
  qed
  have "pad < 8 \<or> bs = []" using flush_pad_cases(2) [of "length bs"] by (simp add: pad_def)
  then have "uper_open_type_get True ca decoder pd = Some (RC_OK, Some w, pd1)"
    using c(1) d(1) few nil padding unfolding uper_open_type_get_def uper_open_type_get_simple_def
    by (auto simp: spd_def [symmetric] Let_def)
  with c(2) d(3) show ?thesis by (simp add: buf_def)
qed

end

end
