(* ===== verification/Integer.thy ===== *)
theory Integer
  imports Uper_Support
begin

unbundle bit_operations_syntax


text \<open>
  \<open>skeletons/INTEGER.c\<close>: the INTEGER type, a two's complement number of any size, its
  conversions from and to the C integer types, the parsing of decimal strings, comparison and
  copying.
\<close>

section \<open>The type\<close>

text \<open>
  \<open>buf = None\<close> is the null pointer. The buffer object may be longer than \<open>size\<close>; the octets of
  a fresh allocation that are not written are left out of the list.
\<close>

record INTEGER_t =
  int_buf :: "u8 list option"
  int_size :: nat

definition INTEGER_of :: "u8 list \<Rightarrow> INTEGER_t" where
  "INTEGER_of bs = \<lparr>int_buf = Some bs, int_size = length bs\<rparr>"

section \<open>Conversions\<close>

definition asn__integer_convert :: "u8 list \<Rightarrow> u64 option" where
  "asn__integer_convert bs = do {
     b0 \<leftarrow> rd bs 0;
     let value = (if drop_bit 7 b0 \<noteq> 0 then - 1 else 0);
     Some (foldl (\<lambda>value b. push_bit 8 value OR ucast b) value bs) }"

text \<open>The loop over the insignificant leading octets; the last octet is never skipped.\<close>

fun skip_insignificant :: "u8 list \<Rightarrow> u8 list" where
  "skip_insignificant (b # c # bs) =
     (if b = 0 \<and> c AND 0x80 = 0 \<or> b = 0xFF \<and> c AND 0x80 \<noteq> 0
      then skip_insignificant (c # bs) else b # c # bs)"
| "skip_insignificant bs = bs"

definition asn_INTEGER2imax :: "INTEGER_t \<Rightarrow> int \<Rightarrow> (int \<times> int) option" where
  "asn_INTEGER2imax iptr lptr =
     (case int_buf iptr of
        None \<Rightarrow> Some (-1, lptr)
      | Some buf \<Rightarrow> do {
          b \<leftarrow> mem_load buf 0 (int_size iptr);
          let b = (if 8 < int_size iptr then skip_insignificant b else b);
          if 8 < length b then Some (-1, lptr)
          else if b = [] then Some (0, 0)
          else do { v \<leftarrow> asn__integer_convert b; Some (0, sint v) } })"

text \<open>The loop over the extra leading octets: \<open>None\<close> when one of them is not zero.\<close>

fun umax_strip :: "u8 list \<Rightarrow> u8 list option" where
  "umax_strip (b # bs) = (if 8 < length (b # bs) then (if b \<noteq> 0 then None else umax_strip bs) else Some (b # bs))"
| "umax_strip [] = Some []"

definition asn_INTEGER2umax :: "INTEGER_t \<Rightarrow> u64 \<Rightarrow> (int \<times> u64) option" where
  "asn_INTEGER2umax iptr lptr =
     (case int_buf iptr of
        None \<Rightarrow> Some (-1, lptr)
      | Some buf \<Rightarrow> do {
          b \<leftarrow> mem_load buf 0 (int_size iptr);
          case umax_strip b of
            None \<Rightarrow> Some (-1, lptr)
          | Some b \<Rightarrow> Some (0, foldl (\<lambda>value b. push_bit 8 value OR ucast b) 0 b) })"

text \<open>
  \<open>value\<close> is read octet by octet in memory, from the most significant one on either byte order.
\<close>

definition asn_imax2INTEGER :: "(nat \<Rightarrow> bool) \<Rightarrow> INTEGER_t \<Rightarrow> int \<Rightarrow> int \<times> INTEGER_t" where
  "asn_imax2INTEGER can_alloc st value =
     (if \<not> can_alloc 8 then (-1, st)
      else let bytes = skip_insignificant (be_octets 8 (unat (of_int value :: u64)))
           in (0, st\<lparr>int_buf := Some bytes, int_size := length bytes\<rparr>))"

text \<open>The loop that stores \<open>value >> shr\<close> for \<open>shr = 56, 48, ..., 0\<close>.\<close>

fun store_shr :: "u64 \<Rightarrow> nat \<Rightarrow> u8 list" where
  "store_shr value shr = ucast (drop_bit shr value) # (if shr < 8 then [] else store_shr value (shr - 8))"

declare store_shr.simps [simp del]

definition asn_umax2INTEGER :: "(nat \<Rightarrow> bool) \<Rightarrow> INTEGER_t \<Rightarrow> u64 \<Rightarrow> int \<times> INTEGER_t" where
  "asn_umax2INTEGER can_alloc st value =
     (if value \<le> drop_bit 1 (NOT 0) then asn_imax2INTEGER can_alloc st (sint value)
      else if \<not> can_alloc 9 then (-1, st)
      else (0, st\<lparr>int_buf := Some (0 # store_shr value 56), int_size := 9\<rparr>))"

text \<open>\<open>long\<close> and \<open>int64_t\<close> have the range of \<open>intmax_t\<close>, their unsigned counterparts that of \<open>uintmax_t\<close>.\<close>

definition asn_INTEGER2long :: "INTEGER_t \<Rightarrow> int \<Rightarrow> (int \<times> int) option" where
  "asn_INTEGER2long iptr l = do {
     (r, v) \<leftarrow> asn_INTEGER2imax iptr 0;
     if r = 0 then (if v < INTMAX_MIN \<or> INTMAX_MAX < v then Some (-1, l) else Some (0, v)) else Some (-1, l) }"

definition asn_INTEGER2ulong :: "INTEGER_t \<Rightarrow> u64 \<Rightarrow> (int \<times> u64) option" where
  "asn_INTEGER2ulong iptr l = do {
     (r, v) \<leftarrow> asn_INTEGER2umax iptr 0;
     if r = 0 then (if - 1 < v then Some (-1, l) else Some (0, v)) else Some (-1, l) }"

definition asn_long2INTEGER :: "(nat \<Rightarrow> bool) \<Rightarrow> INTEGER_t \<Rightarrow> int \<Rightarrow> int \<times> INTEGER_t" where
  "asn_long2INTEGER can_alloc st value = asn_imax2INTEGER can_alloc st value"

text \<open>The call converts \<open>unsigned long\<close> to the \<open>intmax_t\<close> parameter of \<open>asn_imax2INTEGER\<close>.\<close>

definition asn_ulong2INTEGER :: "(nat \<Rightarrow> bool) \<Rightarrow> INTEGER_t \<Rightarrow> u64 \<Rightarrow> int \<times> INTEGER_t" where
  "asn_ulong2INTEGER can_alloc st value = asn_imax2INTEGER can_alloc st (sint value)"

definition asn_INTEGER2int64 :: "INTEGER_t \<Rightarrow> int \<Rightarrow> (int \<times> int) option" where
  "asn_INTEGER2int64 st value = do {
     (r, v) \<leftarrow> asn_INTEGER2imax st 0;
     if r = 0 then (if v < INTMAX_MIN \<or> INTMAX_MAX < v then Some (-1, value) else Some (0, v)) else Some (-1, value) }"

definition asn_INTEGER2uint64 :: "INTEGER_t \<Rightarrow> u64 \<Rightarrow> (int \<times> u64) option" where
  "asn_INTEGER2uint64 st value = do {
     (r, v) \<leftarrow> asn_INTEGER2umax st 0;
     if r = 0 then (if - 1 < v then Some (-1, value) else Some (0, v)) else Some (-1, value) }"

definition asn_int642INTEGER :: "(nat \<Rightarrow> bool) \<Rightarrow> INTEGER_t \<Rightarrow> int \<Rightarrow> int \<times> INTEGER_t" where
  "asn_int642INTEGER can_alloc st value =
     (if \<not> can_alloc 8 then (-1, st)
      else let bytes = skip_insignificant (be_octets 8 (unat (of_int value :: u64)))
           in (0, st\<lparr>int_buf := Some bytes, int_size := length bytes\<rparr>))"

definition asn_uint642INTEGER :: "(nat \<Rightarrow> bool) \<Rightarrow> INTEGER_t \<Rightarrow> u64 \<Rightarrow> int \<times> INTEGER_t" where
  "asn_uint642INTEGER can_alloc st value =
     (if value \<le> of_int INTMAX_MAX then asn_int642INTEGER can_alloc st (sint value)
      else if \<not> can_alloc 9 then (-1, st)
      else (0, st\<lparr>int_buf := Some (0 # store_shr value 56), int_size := 9\<rparr>))"

section \<open>Two's complement\<close>

definition twos_val :: "u8 list \<Rightarrow> int" where
  "twos_val bs = int (octets_val bs) - (if bs \<noteq> [] \<and> 128 \<le> unat (hd bs) then 256 ^ length bs else 0)"

text \<open>X.690 #8.3.2: the first nine bits are not all alike.\<close>

definition minimal_twos :: "u8 list \<Rightarrow> bool" where
  "minimal_twos bs \<longleftrightarrow> bs \<noteq> [] \<and> skip_insignificant bs = bs"

lemma twos_val_Nil [simp]: "twos_val [] = 0"
  by (simp add: twos_val_def)

lemma twos_val_single: "twos_val [b] = (if 128 \<le> unat b then int (unat b) - 256 else int (unat b))"
  by (simp add: twos_val_def octets_val_Cons)

lemma twos_val_skip1:
  assumes "b = 0 \<and> c AND 0x80 = 0 \<or> b = 0xFF \<and> c AND 0x80 \<noteq> 0"
  shows "twos_val (b # c # bs) = twos_val (c # bs)"
  using assms
proof
  assume "b = 0 \<and> c AND 0x80 = 0"
  then show ?thesis by (simp add: twos_val_def octets_val_Cons top_bit_u8)
next
  assume "b = 0xFF \<and> c AND 0x80 \<noteq> 0"
  then have "unat b = 255" "128 \<le> unat c" using top_bit_u8(1) [of c] by simp_all
  then show ?thesis by (simp add: twos_val_def octets_val_Cons algebra_simps)
qed

lemma twos_val_skip [simp]: "twos_val (skip_insignificant bs) = twos_val bs"
  by (induction bs rule: skip_insignificant.induct) (auto simp: twos_val_skip1)

lemma length_skip: "length (skip_insignificant bs) \<le> length bs"
  by (induction bs rule: skip_insignificant.induct) auto

lemma skip_eq_Nil [simp]: "skip_insignificant bs = [] \<longleftrightarrow> bs = []"
  by (induction bs rule: skip_insignificant.induct) auto

lemma skip_idem [simp]: "skip_insignificant (skip_insignificant bs) = skip_insignificant bs"
  by (induction bs rule: skip_insignificant.induct) auto

lemma minimal_skip: "bs \<noteq> [] \<Longrightarrow> minimal_twos (skip_insignificant bs)"
  by (simp add: minimal_twos_def)

lemma minimal_twos_Cons [simp]:
  "minimal_twos (b # c # bs) \<longleftrightarrow> \<not> (b = 0 \<and> c AND 0x80 = 0 \<or> b = 0xFF \<and> c AND 0x80 \<noteq> 0)" "minimal_twos [b]"
  using length_skip [of "c # bs"] by (auto simp: minimal_twos_def)

lemma octets_val_int: "int (octets_val bs) < 256 ^ length bs"
proof -
  have "int (octets_val bs) < int (256 ^ length bs)" using octets_val_less [of bs] by (simp only: of_nat_less_iff)
  then show ?thesis by simp
qed

text \<open>\<open>n\<close> octets hold the numbers below \<open>2 ^ (8 n - 1)\<close> in magnitude.\<close>

lemma twos_val_bounds:
  assumes "bs \<noteq> []"
  shows "- (128 * 256 ^ (length bs - 1)) \<le> twos_val bs" "twos_val bs < 128 * 256 ^ (length bs - 1)"
proof -
  obtain b r where bs: "bs = b # r" using assms by (cases bs) auto
  have r: "int (octets_val r) < 256 ^ length r" "0 \<le> int (octets_val r)"
    using octets_val_int [of r] by simp_all
  have b: "unat b < 256" by simp
  define P where "P = (256::int) ^ length r"
  have P: "0 < P" by (simp add: P_def)
  define nb where "nb = unat b"
  have v: "twos_val bs = (if 128 \<le> nb then int nb - 256 else int nb) * P + int (octets_val r)"
    by (simp add: bs twos_val_def octets_val_Cons P_def nb_def algebra_simps)
  define h where "h = (if 128 \<le> nb then int nb - 256 else int nb)"
  have h: "- 128 \<le> h" "h \<le> 127" using b by (auto simp: h_def nb_def [symmetric])
  have "- 128 * P \<le> h * P" "h * P \<le> 127 * P"
    using mult_right_mono [OF h(1), of P] mult_right_mono [OF h(2), of P] P by simp_all
  moreover have "twos_val bs = h * P + int (octets_val r)" "int (octets_val r) < P" "0 \<le> int (octets_val r)"
    using r v by (simp_all add: h_def P_def)
  ultimately have "- (128 * P) \<le> twos_val bs" "twos_val bs < 128 * P" by linarith+
  then show "- (128 * 256 ^ (length bs - 1)) \<le> twos_val bs" "twos_val bs < 128 * 256 ^ (length bs - 1)"
    by (simp_all add: bs P_def)
qed

lemma minimal_twos_large:
  assumes "minimal_twos bs" "2 \<le> length bs"
  shows "twos_val bs < - (128 * 256 ^ (length bs - 2)) \<or> 128 * 256 ^ (length bs - 2) \<le> twos_val bs"
proof -
  obtain b c r where bs: "bs = b # c # r" using assms(2) by (cases bs; cases "tl bs") auto
  have nz: "\<not> (b = 0 \<and> c AND 0x80 = 0 \<or> b = 0xFF \<and> c AND 0x80 \<noteq> 0)" using assms(1) by (simp add: bs)
  have r: "int (octets_val r) < 256 ^ length r" "0 \<le> int (octets_val r)"
    using octets_val_int [of r] by simp_all
  define P where "P = (256::int) ^ length r"
  define nb nc where "nb = unat b" and "nc = unat c"
  define h where "h = (if 128 \<le> nb then int nb - 256 else int nb) * 256 + int nc"
  have v: "twos_val bs = h * P + int (octets_val r)"
    by (simp add: bs twos_val_def octets_val_Cons P_def h_def nb_def nc_def algebra_simps)
  have b: "nb < 256" "nc < 256" by (simp_all add: nb_def nc_def)
  have "h \<le> - 129 \<or> 128 \<le> h"
  proof (cases "128 \<le> nb")
    case True
    have "nb \<noteq> 255 \<or> nc < 128"
      using nz top_bit_u8(1) [of c] unsigned_word_eqI [of b 255] by (auto simp: nb_def nc_def)
    then show ?thesis using True b by (auto simp: h_def)
  next
    case False
    have "nb \<noteq> 0 \<or> 128 \<le> nc" using nz top_bit_u8(1) [of c] by (auto simp: nb_def nc_def unsigned_eq_0_iff)
    then show ?thesis using False by (auto simp: h_def)
  qed
  moreover have P: "0 < P" by (simp add: P_def)
  have "h \<le> - 129 \<Longrightarrow> h * P \<le> - 129 * P" "128 \<le> h \<Longrightarrow> 128 * P \<le> h * P"
    using mult_right_mono [of h "-129" P] mult_right_mono [of 128 h P] P by simp_all
  moreover have "int (octets_val r) < P" using r by (simp add: P_def)
  ultimately have "twos_val bs < - (128 * P) \<or> 128 * P \<le> twos_val bs" using r(2) v by linarith
  then show ?thesis by (simp add: bs P_def)
qed

text \<open>The octets and the value of a well-formed INTEGER.\<close>

definition INTEGER_inv :: "INTEGER_t \<Rightarrow> bool" where
  "INTEGER_inv st \<longleftrightarrow> (case int_buf st of None \<Rightarrow> False | Some buf \<Rightarrow> int_size st \<le> length buf)"

definition INTEGER_octets :: "INTEGER_t \<Rightarrow> u8 list" where
  "INTEGER_octets st = (case int_buf st of None \<Rightarrow> [] | Some buf \<Rightarrow> take (int_size st) buf)"

definition INTEGER_val :: "INTEGER_t \<Rightarrow> int" where
  "INTEGER_val st = twos_val (INTEGER_octets st)"

lemma INTEGER_of_simps [simp]:
  "INTEGER_inv (INTEGER_of bs)" "INTEGER_octets (INTEGER_of bs) = bs" "INTEGER_val (INTEGER_of bs) = twos_val bs"
  by (simp_all add: INTEGER_inv_def INTEGER_octets_def INTEGER_val_def INTEGER_of_def)

lemma or_octet_64: "push_bit 8 (w :: u64) OR ucast (b :: u8) = w * 256 + ucast b"
proof -
  have "take_bit 8 (ucast b :: u64) = ucast b"
    by (rule bit_word_eqI) (auto simp: bit_simps dest: bit_imp_le_length)
  then show ?thesis using or_low_add [of 8 "ucast b :: u64" w] by (simp add: push_bit_eq_mult)
qed

lemma foldl_octets:
  "foldl (\<lambda>value b. push_bit 8 value OR ucast b) (v :: u64) bs = v * 256 ^ length bs + of_nat (octets_val bs)"
proof (induction bs rule: rev_induct)
  case (snoc b bs)
  then show ?case by (simp add: or_octet_64 algebra_simps unsigned_ucast_eq)
qed simp

lemma integer_convert: "bs \<noteq> [] \<Longrightarrow> asn__integer_convert bs = Some (of_int (twos_val bs))"
  by (cases bs) (simp_all add: asn__integer_convert_def foldl_octets top_bit_u8 twos_val_def not_less)

lemma sint_of_int_64: "INTMAX_MIN \<le> x \<Longrightarrow> x \<le> INTMAX_MAX \<Longrightarrow> sint (of_int x :: u64) = x"
  by (subst signed_of_int) (auto intro!: signed_take_bit_int_eq_self simp: limits_defs)

lemma pow_256_mono: "k \<le> n \<Longrightarrow> (128::int) * 256 ^ k \<le> 128 * 256 ^ n"
  by (simp add: power_increasing)

lemma twos_val_fits:
  assumes "length bs \<le> 8"
  shows "INTMAX_MIN \<le> twos_val bs \<and> twos_val bs \<le> INTMAX_MAX"
proof (cases "bs = []")
  case False
  have "length bs - 1 \<le> 7" using assms by simp
  from pow_256_mono [OF this] twos_val_bounds [OF False] show ?thesis by (simp add: limits_defs)
qed (simp add: limits_defs)

lemma twos_val_too_big:
  assumes "minimal_twos bs" "8 < length bs"
  shows "\<not> (INTMAX_MIN \<le> twos_val bs \<and> twos_val bs \<le> INTMAX_MAX)"
proof -
  have "7 \<le> length bs - 2" "2 \<le> length bs" using assms(2) by simp_all
  from minimal_twos_large [OF assms(1) this(2)] pow_256_mono [OF this(1)] show ?thesis
    by (auto simp: limits_defs)
qed

lemma INTEGER2imax:
  assumes "INTEGER_inv st"
  shows "asn_INTEGER2imax st lptr =
    Some (if INTMAX_MIN \<le> INTEGER_val st \<and> INTEGER_val st \<le> INTMAX_MAX then (0, INTEGER_val st) else (-1, lptr))"
proof -
  define bs where "bs = INTEGER_octets st"
  obtain buf where buf: "int_buf st = Some buf" "int_size st \<le> length buf" "mem_load buf 0 (int_size st) = Some bs"
    "length bs = int_size st"
    using assms by (auto simp: INTEGER_inv_def bs_def INTEGER_octets_def mem_load_def split: option.splits)
  define cs where "cs = (if 8 < int_size st then skip_insignificant bs else bs)"
  have v: "INTEGER_val st = twos_val cs" by (simp add: INTEGER_val_def bs_def cs_def)
  have big: "8 < length cs \<Longrightarrow> minimal_twos cs" using buf(4) minimal_skip [of bs] by (cases "bs = []") (auto simp: cs_def split: if_splits)
  have "asn_INTEGER2imax st lptr = (if 8 < length cs then Some (-1, lptr) else if cs = [] then Some (0, 0)
      else do { v \<leftarrow> asn__integer_convert cs; Some (0, sint v) })"
    unfolding asn_INTEGER2imax_def by (simp add: buf cs_def)
  also have "\<dots> = Some (if INTMAX_MIN \<le> twos_val cs \<and> twos_val cs \<le> INTMAX_MAX then (0, twos_val cs) else (-1, lptr))"
    using twos_val_too_big [OF big] twos_val_fits [of cs] by (auto simp: integer_convert sint_of_int_64 limits_defs)
  finally show ?thesis by (simp only: v)
qed

lemma twos_val_be8:
  assumes "INTMAX_MIN \<le> v" "v \<le> INTMAX_MAX"
  shows "twos_val (be_octets 8 (unat (of_int v :: u64))) = v"
proof -
  have "asn__integer_convert (be_octets 8 (unat (of_int v :: u64))) = Some (of_int v)"
  proof -
    define bs where "bs = be_octets 8 (unat (of_int v :: u64))"
    have l: "length bs = 8" by (simp add: bs_def)
    have "of_nat (octets_val bs) = (of_int v :: u64)"
      using unsigned_less [of "of_int v :: u64", where ?'a = nat] by (simp add: bs_def)
    moreover have "(-1 :: u64) * 256 ^ 8 = 0" by simp
    ultimately show ?thesis using l unfolding bs_def [symmetric]
      by (cases bs) (simp_all add: asn__integer_convert_def foldl_octets)
  qed
  moreover have "be_octets 8 (unat (of_int v :: u64)) \<noteq> []" using length_be_octets [of 8] by (metis list.size(3) zero_neq_numeral)
  ultimately have "(of_int (twos_val (be_octets 8 (unat (of_int v :: u64)))) :: u64) = of_int v"
    by (simp add: integer_convert)
  then have "sint (of_int (twos_val (be_octets 8 (unat (of_int v :: u64)))) :: u64) = sint (of_int v :: u64)" by simp
  moreover have "INTMAX_MIN \<le> twos_val (be_octets 8 (unat (of_int v :: u64)))
      \<and> twos_val (be_octets 8 (unat (of_int v :: u64))) \<le> INTMAX_MAX" by (rule twos_val_fits) simp
  ultimately show ?thesis using assms by (simp add: sint_of_int_64)
qed

lemma imax2INTEGER:
  assumes "INTMAX_MIN \<le> v" "v \<le> INTMAX_MAX" "can_alloc 8"
  shows "\<exists>st'. asn_imax2INTEGER can_alloc st v = (0, st') \<and> INTEGER_inv st' \<and> INTEGER_val st' = v \<and>
    minimal_twos (INTEGER_octets st') \<and> length (INTEGER_octets st') \<le> 8"
proof -
  have "be_octets 8 (unat (of_int v :: u64)) \<noteq> []" using length_be_octets [of 8] by (metis list.size(3) zero_neq_numeral)
  with assms twos_val_be8 [OF assms(1,2)] minimal_skip length_skip [of "be_octets 8 (unat (of_int v :: u64))"] show ?thesis
    by (simp add: asn_imax2INTEGER_def Let_def INTEGER_inv_def INTEGER_val_def INTEGER_octets_def)
qed

text \<open>The octets that the encoders of a native number start from.\<close>

lemma native_octets:
  assumes "INTMAX_MIN \<le> n" "n \<le> INTMAX_MAX"
  defines "os \<equiv> skip_insignificant (be_octets 8 (unat (of_int n :: u64)))"
  shows "twos_val os = n" "minimal_twos os" "os \<noteq> []" "length os \<le> 8"
proof -
  have b: "length (be_octets 8 (unat (of_int n :: u64))) = 8" by simp
  then have e: "be_octets 8 (unat (of_int n :: u64)) \<noteq> []" by (metis list.size(3) zero_neq_numeral)
  show "twos_val os = n" "minimal_twos os" "os \<noteq> []" "length os \<le> 8"
    using twos_val_be8 [OF assms(1,2)] minimal_skip [OF e] length_skip [of "be_octets 8 (unat (of_int n :: u64))"] b e
    by (simp_all only: os_def twos_val_skip skip_eq_Nil not_False_eq_True)
qed

lemma ucast_of_nat_64: "(ucast (w :: u64) :: u8) = of_nat (unat w)"
  by (simp only: of_nat_unat)

lemma ucast_shift_64: "(ucast (drop_bit j (w :: u64)) :: u8) = of_nat (unat w div 2 ^ j)"
  by (simp only: ucast_of_nat_64 unat_shift_right)

lemma store_shr: "store_shr v (8 * n) = be_octets (Suc n) (unat v)"
proof (induction n)
  case 0
  show ?case by (subst store_shr.simps) (simp add: be_octets_rec)
next
  case (Suc n)
  have "store_shr v (8 * Suc n) = ucast (drop_bit (8 * Suc n) v) # store_shr v (8 * n)"
    by (subst store_shr.simps) simp
  also have "\<dots> = be_octets (1 + Suc n) (unat v)"
    unfolding be_octets_add Suc.IH by (simp only: ucast_shift_64 be_octets_numerals power_mult) simp
  finally show ?case by simp
qed

lemma twos_val_0_Cons: "twos_val (0 # bs) = int (octets_val bs)"
  by (simp add: twos_val_def octets_val_Cons)

lemma umax2INTEGER_big:
  assumes "of_int INTMAX_MAX < v"
  shows "minimal_twos (0 # store_shr v 56)" "twos_val (0 # store_shr v 56) = int (unat v)"
proof -
  have s: "store_shr v 56 = be_octets 8 (unat v)" using store_shr [of v 7] by simp
  have v: "2 ^ 63 \<le> unat v" using assms by (simp add: word_less_nat_alt limits_defs)
  have lt: "unat v < 256 ^ 8" using unsigned_less [of v, where ?'a = nat] by simp
  show "twos_val (0 # store_shr v 56) = int (unat v)" using lt by (simp add: s twos_val_0_Cons)
  have "be_octets 8 (unat v) = of_nat (unat v div 256 ^ 7) # be_octets 7 (unat v)"
    using be_octets_add [of 1 7 "unat v"] by (simp only: be_octets_numerals) simp
  moreover have "128 \<le> unat (of_nat (unat v div 256 ^ 7) :: u8)"
  proof -
    have "unat v div 256 ^ 7 < 256" using lt by (simp add: less_mult_imp_div_less)
    moreover have "128 \<le> unat v div 256 ^ 7" using v by (simp add: less_eq_div_iff_mult_less_eq)
    ultimately show ?thesis by (simp add: unsigned_of_nat take_bit_nat_eq_self)
  qed
  ultimately show "minimal_twos (0 # store_shr v 56)" by (simp add: minimal_twos_def s top_bit_u8)
qed

lemma u64_le_half: "v \<le> drop_bit 1 (NOT 0) \<longleftrightarrow> (v :: u64) \<le> of_int INTMAX_MAX"
proof -
  have "drop_bit 1 (NOT 0) = (of_int INTMAX_MAX :: u64)" by (simp add: limits_defs mask_eq_exp_minus_1)
  then show ?thesis by simp
qed

lemma umax2INTEGER:
  assumes "can_alloc 8" "can_alloc 9"
  shows "\<exists>st'. asn_umax2INTEGER can_alloc st v = (0, st') \<and> INTEGER_inv st' \<and> INTEGER_val st' = int (unat v) \<and>
    minimal_twos (INTEGER_octets st')"
proof (cases "v \<le> of_int INTMAX_MAX")
  case True
  have "sint v = int (unat v)"
  proof -
    have "uint v \<le> INTMAX_MAX" using True by (simp add: word_le_def limits_defs)
    then show ?thesis using sint_of_int_64 [of "uint v"] order_trans [of INTMAX_MIN 0 "uint v"]
      by (simp add: limits_defs)
  qed
  moreover have "uint v \<le> INTMAX_MAX" using True by (simp add: word_le_def limits_defs)
  ultimately show ?thesis using imax2INTEGER [of "int (unat v)" can_alloc st] assms(1) True order_trans [of INTMAX_MIN 0 "uint v"]
    by (auto simp: asn_umax2INTEGER_def u64_le_half [simplified] limits_defs)
next
  case False
  then have "of_int INTMAX_MAX < v" by simp
  from umax2INTEGER_big [OF this] assms False show ?thesis
    by (simp add: asn_umax2INTEGER_def u64_le_half [simplified] INTEGER_inv_def INTEGER_val_def INTEGER_octets_def
        store_shr [of v 7, simplified])
qed

section \<open>Decimal strings\<close>

datatype asn_strtox_result_e =
  ASN_STRTOX_ERROR_RANGE | ASN_STRTOX_ERROR_INVAL | ASN_STRTOX_EXPECT_MORE | ASN_STRTOX_OK | ASN_STRTOX_EXTRA_DATA

text \<open>
  The string is the list of its character codes up to \<open>*end\<close>. The functions return the
  result code, \<open>*end\<close> as an offset and \<open>*intp\<close>.
\<close>

definition is_digit :: "u8 \<Rightarrow> bool" where
  "is_digit c \<longleftrightarrow> 0x30 \<le> c \<and> c \<le> 0x39"

text \<open>\<open>*str - '0'\<close>\<close>

definition digit_of :: "u8 \<Rightarrow> int" where
  "digit_of c = uint c - 48"

fun strtoimax_loop :: "int \<Rightarrow> int \<Rightarrow> int \<Rightarrow> nat \<Rightarrow> u8 list \<Rightarrow> int \<Rightarrow> (asn_strtox_result_e \<times> nat \<times> int) option" where
  "strtoimax_loop sign last_digit_max value pos [] intp = do {
     v \<leftarrow> s64 (sign * value); Some (ASN_STRTOX_OK, pos, v) }"
| "strtoimax_loop sign last_digit_max value pos (c # cs) intp =
     (if is_digit c then
        let d = digit_of c in
        if value < INTMAX_MAX div 10 then do {
          t \<leftarrow> s64 (value * 10); v \<leftarrow> s64 (t + d);
          strtoimax_loop sign last_digit_max v (pos + 1) cs intp }
        else if value = INTMAX_MAX div 10 then
          if d \<le> last_digit_max then do {
            (sign, value) \<leftarrow>
              (if 0 < sign then do { t \<leftarrow> s64 (value * 10); v \<leftarrow> s64 (t + d); Some (sign, v) }
               else do { t \<leftarrow> s64 (- value * 10); v \<leftarrow> s64 (t - d); Some (1, v) });
            case cs of
              [] \<Rightarrow> do { v \<leftarrow> s64 (sign * value); Some (ASN_STRTOX_OK, pos + 1, v) }
            | c2 # cs2 \<Rightarrow>
                if is_digit c2 then Some (ASN_STRTOX_ERROR_RANGE, pos + 1, intp)
                else do { v \<leftarrow> s64 (sign * value); Some (ASN_STRTOX_EXTRA_DATA, pos + 1, v) } }
          else Some (ASN_STRTOX_ERROR_RANGE, pos, intp)
        else Some (ASN_STRTOX_ERROR_RANGE, pos, intp)
      else do { v \<leftarrow> s64 (sign * value); Some (ASN_STRTOX_EXTRA_DATA, pos, v) })"

definition asn_strtoimax_lim :: "u8 list \<Rightarrow> int \<Rightarrow> (asn_strtox_result_e \<times> nat \<times> int) option" where
  "asn_strtoimax_lim str intp =
     (let last_digit_max = INTMAX_MAX mod 10 in
      case str of
        [] \<Rightarrow> Some (ASN_STRTOX_ERROR_INVAL, 0, intp)
      | c # cs \<Rightarrow>
          if c = 0x2D \<or> c = 0x2B then
            if cs = [] then Some (ASN_STRTOX_EXPECT_MORE, 1, intp)
            else if c = 0x2D then strtoimax_loop (-1) (last_digit_max + 1) 0 1 cs intp
            else strtoimax_loop 1 last_digit_max 0 1 cs intp
          else strtoimax_loop 1 last_digit_max 0 0 (c # cs) intp)"

fun strtoumax_loop :: "u64 \<Rightarrow> nat \<Rightarrow> u8 list \<Rightarrow> u64 \<Rightarrow> asn_strtox_result_e \<times> nat \<times> u64" where
  "strtoumax_loop value pos [] uintp = (ASN_STRTOX_OK, pos, value)"
| "strtoumax_loop value pos (c # cs) uintp =
     (if is_digit c then
        let d = ucast c - 48 in
        if value < (- 1) div 10 then strtoumax_loop (value * 10 + d) (pos + 1) cs uintp
        else if value = (- 1) div 10 then
          if d \<le> (- 1) mod 10 then
            let value = value * 10 + d in
            case cs of
              [] \<Rightarrow> (ASN_STRTOX_OK, pos + 1, value)
            | c2 # cs2 \<Rightarrow>
                if is_digit c2 then (ASN_STRTOX_ERROR_RANGE, pos + 1, uintp)
                else (ASN_STRTOX_EXTRA_DATA, pos + 1, value)
          else (ASN_STRTOX_ERROR_RANGE, pos, uintp)
        else (ASN_STRTOX_ERROR_RANGE, pos, uintp)
      else (ASN_STRTOX_EXTRA_DATA, pos, value))"

definition asn_strtoumax_lim :: "u8 list \<Rightarrow> u64 \<Rightarrow> asn_strtox_result_e \<times> nat \<times> u64" where
  "asn_strtoumax_lim str uintp =
     (case str of
        [] \<Rightarrow> (ASN_STRTOX_ERROR_INVAL, 0, uintp)
      | c # cs \<Rightarrow>
          if c = 0x2D then (ASN_STRTOX_ERROR_INVAL, length str, uintp)
          else if c = 0x2B then
            if cs = [] then (ASN_STRTOX_EXPECT_MORE, 1, uintp) else strtoumax_loop 0 1 cs uintp
          else strtoumax_loop 0 0 (c # cs) uintp)"

definition asn_strtol_lim :: "u8 list \<Rightarrow> int \<Rightarrow> (asn_strtox_result_e \<times> nat \<times> int) option" where
  "asn_strtol_lim str lp = do {
     (r, end', value) \<leftarrow> asn_strtoimax_lim str 0;
     Some (if r = ASN_STRTOX_OK \<or> r = ASN_STRTOX_EXTRA_DATA
           then if INTMAX_MIN \<le> value \<and> value \<le> INTMAX_MAX then (r, end', value)
                else (ASN_STRTOX_ERROR_RANGE, end', lp)
           else (r, end', lp)) }"

definition asn_strtoul_lim :: "u8 list \<Rightarrow> u64 \<Rightarrow> asn_strtox_result_e \<times> nat \<times> u64" where
  "asn_strtoul_lim str ulp =
     (let (r, end', value) = asn_strtoumax_lim str 0 in
      if r = ASN_STRTOX_OK \<or> r = ASN_STRTOX_EXTRA_DATA
      then if value \<le> - 1 then (r, end', value) else (ASN_STRTOX_ERROR_RANGE, end', ulp)
      else (r, end', ulp))"

section \<open>Comparison and copy\<close>

text \<open>\<open>memcmp\<close>: only its sign is specified; here it is \<open>-1\<close>, \<open>0\<close> or \<open>1\<close>.\<close>

fun memcmp :: "u8 list \<Rightarrow> u8 list \<Rightarrow> int" where
  "memcmp (x # xs) (y # ys) = (if x < y then -1 else if y < x then 1 else memcmp xs ys)"
| "memcmp _ _ = 0"

definition INTEGER_rd :: "INTEGER_t \<Rightarrow> nat \<Rightarrow> u8 option" where
  "INTEGER_rd st i = do { buf \<leftarrow> int_buf st; rd buf i }"

definition INTEGER_mem :: "INTEGER_t \<Rightarrow> nat \<Rightarrow> u8 list option" where
  "INTEGER_mem st n = do { buf \<leftarrow> int_buf st; mem_load buf 0 n }"

definition INTEGER_sign :: "INTEGER_t \<Rightarrow> int option" where
  "INTEGER_sign st = do { b \<leftarrow> INTEGER_rd st 0; Some (if b AND 0x80 \<noteq> 0 then -1 else 1) }"

definition INTEGER_compare :: "INTEGER_t option \<Rightarrow> INTEGER_t option \<Rightarrow> int option" where
  "INTEGER_compare aptr bptr =
     (case (aptr, bptr) of
        (Some a, Some b) \<Rightarrow>
          if int_size a \<noteq> 0 \<and> int_size b \<noteq> 0 then do {
            sign_a \<leftarrow> INTEGER_sign a; sign_b \<leftarrow> INTEGER_sign b;
            if sign_a < sign_b then Some (-1)
            else if sign_b < sign_a then Some 1
            else if int_size a < int_size b then Some (-1 * sign_a)
            else if int_size b < int_size a then Some (1 * sign_b)
            else do {
              x \<leftarrow> INTEGER_mem a (int_size a); y \<leftarrow> INTEGER_mem b (int_size a);
              Some (sign_a * memcmp x y) } }
          else if int_size a \<noteq> 0 then do { sign \<leftarrow> INTEGER_sign a; Some (1 * sign) }
          else if int_size b \<noteq> 0 then do { sign \<leftarrow> INTEGER_sign a; Some (-1 * sign) }
          else Some 0
      | (None, None) \<Rightarrow> Some 0
      | (None, Some _) \<Rightarrow> Some (-1)
      | (Some _, None) \<Rightarrow> Some 1)"

definition INTEGER_copy :: "(nat \<Rightarrow> bool) \<Rightarrow> INTEGER_t option \<Rightarrow> INTEGER_t option \<Rightarrow> (int \<times> INTEGER_t option) option" where
  "INTEGER_copy can_alloc aptr bptr =
     (case bptr of
        None \<Rightarrow> Some (0, None)
      | Some b \<Rightarrow>
          case (case aptr of Some a \<Rightarrow> Some a
                | None \<Rightarrow> if can_alloc 16 then Some \<lparr>int_buf = None, int_size = 0\<rparr> else None) of
            None \<Rightarrow> Some (-1, None)
          | Some a \<Rightarrow>
              if int_size b \<noteq> 0 then
                if \<not> can_alloc (int_size b) then Some (-1, Some a)
                else do {
                  bytes \<leftarrow> INTEGER_mem b (int_size b);
                  Some (0, Some (a\<lparr>int_buf := Some bytes, int_size := int_size b\<rparr>)) }
              else Some (0, Some (a\<lparr>int_buf := None, int_size := 0\<rparr>)))"

section \<open>Enumeration maps\<close>

record asn_INTEGER_enum_map =
  nat_value :: int
  enum_len :: nat
  enum_name :: string

record asn_INTEGER_specifics =
  value2enum :: "asn_INTEGER_enum_map list"
  enum2value :: "nat list"
  map_count :: nat
  extension :: int
  strict_enumeration :: bool
  field_width :: int
  field_unsigned :: bool

definition INTEGER__compar_value2enum :: "int \<Rightarrow> asn_INTEGER_enum_map \<Rightarrow> int" where
  "INTEGER__compar_value2enum a el = (if a < nat_value el then -1 else if a = nat_value el then 0 else 1)"

text \<open>\<open>bsearch\<close> of the C library on the elements \<open>lo .. hi - 1\<close>.\<close>

function bsearch :: "('e \<Rightarrow> int) \<Rightarrow> 'e list \<Rightarrow> nat \<Rightarrow> nat \<Rightarrow> nat option" where
  "bsearch cmp xs lo hi =
     (if hi \<le> lo then None
      else let mid = (lo + hi) div 2; c = cmp (xs ! mid)
           in if c < 0 then bsearch cmp xs lo mid
              else if 0 < c then bsearch cmp xs (mid + 1) hi
              else Some mid)"
  by pat_completeness auto
termination
  by (relation "measure (\<lambda>(cmp, xs, lo, hi). hi - lo)") auto

declare bsearch.simps [simp del]

definition INTEGER_map_value2enum :: "asn_INTEGER_specifics option \<Rightarrow> int \<Rightarrow> asn_INTEGER_enum_map option option" where
  "INTEGER_map_value2enum specs value =
     (case specs of
        None \<Rightarrow> Some None
      | Some specs \<Rightarrow>
          if map_count specs = 0 then Some None
          else if map_count specs \<le> length (value2enum specs)
          then Some (map_option (\<lambda>i. value2enum specs ! i)
                 (bsearch (INTEGER__compar_value2enum value) (value2enum specs) 0 (map_count specs)))
          else None)"

section \<open>Parsing decimal strings\<close>

definition dec_val :: "u8 list \<Rightarrow> int" where
  "dec_val ds = foldl (\<lambda>v c. v * 10 + digit_of c) 0 ds"

definition digits :: "u8 list \<Rightarrow> bool" where
  "digits ds \<longleftrightarrow> list_all is_digit ds"

lemma is_digit_iff: "is_digit c \<longleftrightarrow> 48 \<le> unat c \<and> unat c \<le> 57"
  by (simp add: is_digit_def word_le_nat_alt)

lemma digit_of_bounds: "is_digit c \<Longrightarrow> 0 \<le> digit_of c \<and> digit_of c \<le> 9"
  by (auto simp: is_digit_def digit_of_def word_le_def)

lemma foldl_dec: "foldl (\<lambda>v c. v * 10 + digit_of c) a ds = a * 10 ^ length ds + foldl (\<lambda>v c. v * 10 + digit_of c) 0 ds"
proof (induction ds arbitrary: a)
  case (Cons d ds)
  from Cons [of "a * 10 + digit_of d"] Cons [of "digit_of d"] show ?case by (simp add: algebra_simps)
qed simp

lemma dec_val_Nil [simp]: "dec_val [] = 0"
  by (simp add: dec_val_def)

lemma dec_val_Cons: "dec_val (d # ds) = digit_of d * 10 ^ length ds + dec_val ds"
  using foldl_dec [of "digit_of d" ds] by (simp add: dec_val_def)

lemma dec_val_nonneg: "digits ds \<Longrightarrow> 0 \<le> dec_val ds"
proof (induction ds)
  case (Cons d ds)
  then have "0 \<le> digit_of d" "0 \<le> dec_val ds" using digit_of_bounds [of d] by (simp_all add: digits_def)
  then show ?case unfolding dec_val_Cons by (intro add_nonneg_nonneg mult_nonneg_nonneg) simp_all
qed simp

text \<open>A number in front of more digits only grows.\<close>

lemma dec_grows: "0 \<le> a \<Longrightarrow> digits ds \<Longrightarrow> a \<le> a * 10 ^ length ds + dec_val ds"
  using dec_val_nonneg [of ds] mult_left_mono [of 1 "10 ^ length ds" a] by (simp add: add_increasing2)

definition strtox_limit :: "int \<Rightarrow> int" where
  "strtox_limit sign = (if sign = 1 then INTMAX_MAX else INTMAX_MAX + 1)"

lemma strtoimax_loop:
  assumes "digits ds" "rest = [] \<or> \<not> is_digit (hd rest)" "0 \<le> w" "w \<le> INTMAX_MAX"
    and sign: "sign = 1 \<and> ldm = 7 \<or> sign = -1 \<and> ldm = 8"
  shows "\<exists>p. strtoimax_loop sign ldm w pos (ds @ rest) intp =
    (let v = w * 10 ^ length ds + dec_val ds in
     Some (if v \<le> strtox_limit sign
       then (if rest = [] then ASN_STRTOX_OK else ASN_STRTOX_EXTRA_DATA, pos + length ds, sign * v)
       else (ASN_STRTOX_ERROR_RANGE, p, intp)))"
  using assms(1,3,4)
proof (induction ds arbitrary: w pos)
  case Nil
  then have "s64 (sign * w) = Some (sign * w)" using sign by (auto simp: limits_defs)
  then show ?case using Nil assms(2) sign
    by (cases rest) (auto simp: strtox_limit_def limits_defs)
next
  case (Cons d ds)
  define k where "k = digit_of d"
  have dig: "is_digit d" "digits ds" using Cons.prems by (simp_all add: digits_def)
  then have k: "0 \<le> k" "k \<le> 9" using digit_of_bounds [of d] by (simp_all add: k_def)
  have v: "w * 10 ^ length (d # ds) + dec_val (d # ds) = (w * 10 + k) * 10 ^ length ds + dec_val ds"
    by (simp add: dec_val_Cons k_def algebra_simps)
  have grows: "w * 10 + k \<le> (w * 10 + k) * 10 ^ length ds + dec_val ds"
    using dec_grows [of "w * 10 + k" ds] dig Cons.prems k by simp
  have U: "INTMAX_MAX div 10 = 922337203685477580" by (simp add: limits_defs)
  have lim: "strtox_limit sign = 9223372036854775800 + ldm" using sign by (auto simp: strtox_limit_def limits_defs)
  consider "w < INTMAX_MAX div 10" | "w = INTMAX_MAX div 10" "k \<le> ldm"
    | "w = INTMAX_MAX div 10" "ldm < k" | "INTMAX_MAX div 10 < w" by linarith
  then show ?case
  proof cases
    case 1
    then have "0 \<le> w * 10 + k" "w * 10 + k \<le> INTMAX_MAX" "s64 (w * 10) = Some (w * 10)"
      "s64 (w * 10 + k) = Some (w * 10 + k)"
      using k Cons.prems U by (simp_all add: limits_defs)
    note step = this
    from Cons.IH [OF dig(2) step(1,2), of "pos + 1"] obtain p where
      "strtoimax_loop sign ldm (w * 10 + k) (pos + 1) (ds @ rest) intp =
        (let v = (w * 10 + k) * 10 ^ length ds + dec_val ds in
         Some (if v \<le> strtox_limit sign
           then (if rest = [] then ASN_STRTOX_OK else ASN_STRTOX_EXTRA_DATA, pos + 1 + length ds, sign * v)
           else (ASN_STRTOX_ERROR_RANGE, p, intp)))" by blast
    with step 1 dig(1) show ?thesis
      unfolding v by (intro exI [of _ p]) (simp add: k_def [symmetric] Let_def)
  next
    case 2
    have big: "s64 (sign * (w * 10 + k)) = Some (sign * (w * 10 + k))"
      "s64 (w * 10) = Some (w * 10)" "s64 (- w * 10) = Some (- w * 10)"
      "sign = 1 \<Longrightarrow> s64 (w * 10 + k) = Some (w * 10 + k)" 
      "sign = -1 \<Longrightarrow> s64 (- w * 10 - k) = Some (- w * 10 - k)"
      using 2 U sign k by (auto simp: limits_defs s64_def)
    show ?thesis
    proof (cases ds)
      case Nil
      then show ?thesis using 2 U sign big dig k assms(2) lim
        by (cases rest) (auto simp: k_def [symmetric] Let_def dec_val_Cons)
    next
      case (Cons d2 ds2)
      then have "is_digit d2" using dig by (simp add: digits_def)
      moreover have "\<not> (w * 10 + k) * 10 ^ length ds + dec_val ds \<le> strtox_limit sign"
      proof -
        have "(w * 10 + k) * 10 \<le> (w * 10 + k) * 10 ^ length ds"
          using Cons.prems k by (intro mult_left_mono) (auto simp: \<open>ds = _\<close> self_le_power)
        then show ?thesis using dec_val_nonneg [OF dig(2)] 2 U sign k lim by auto
      qed
      ultimately show ?thesis using 2 U sign big dig Cons
        unfolding v by (auto simp: k_def [symmetric] Let_def)
    qed
  next
    case 3
    then have "\<not> (w * 10 + k) * 10 ^ length ds + dec_val ds \<le> strtox_limit sign"
      using grows U lim by simp
    then show ?thesis using 3 U dig unfolding v by (simp add: k_def [symmetric] Let_def)
  next
    case 4
    then have "\<not> (w * 10 + k) * 10 ^ length ds + dec_val ds \<le> strtox_limit sign"
      using grows U lim k sign by auto
    then show ?thesis using 4 U dig unfolding v by (simp add: k_def [symmetric] Let_def)
  qed
qed

section \<open>Comparing\<close>

lemma octets_val_less_lex:
  assumes "length xs = length ys" "x < y"
  shows "octets_val (x # xs) < octets_val (y # ys)"
proof -
  have "unat x + 1 \<le> unat y" using assms(2) by (simp add: word_less_nat_alt)
  then have "(unat x + 1) * 256 ^ length xs \<le> unat y * 256 ^ length xs" by (rule mult_le_mono1)
  then show ?thesis using octets_val_less [of xs] assms(1) by (simp add: octets_val_Cons)
qed

lemma memcmp_sgn:
  "length xs = length ys \<Longrightarrow> memcmp xs ys = sgn (int (octets_val xs) - int (octets_val ys))"
proof (induction xs ys rule: memcmp.induct)
  case (1 x xs y ys)
  show ?case
  proof (cases x y rule: linorder_cases)
    case less
    then show ?thesis using octets_val_less_lex [of xs ys x y] 1 by (simp add: sgn_if)
  next
    case equal
    then show ?thesis using 1 by (simp add: octets_val_Cons)
  next
    case greater
    then have "octets_val (y # ys) < octets_val (x # xs)" "\<not> x < y" using octets_val_less_lex [of ys xs y x] 1 by simp_all
    with greater show ?thesis by (simp add: sgn_if)
  qed
qed auto

lemma twos_val_neg: "twos_val bs < 0 \<longleftrightarrow> bs \<noteq> [] \<and> 128 \<le> unat (hd bs)"
  using octets_val_int [of bs] by (auto simp: twos_val_def)

lemma twos_val_nonneg: "0 \<le> twos_val os \<Longrightarrow> twos_val os = int (octets_val os)"
  using octets_val_int [of os] by (auto simp: twos_val_def split: if_splits)

definition INTEGER_canon :: "INTEGER_t \<Rightarrow> bool" where
  "INTEGER_canon st \<longleftrightarrow> INTEGER_inv st \<and> minimal_twos (INTEGER_octets st)"

lemma INTEGER_accessors:
  assumes "INTEGER_inv st"
  shows "INTEGER_mem st (int_size st) = Some (INTEGER_octets st)" "length (INTEGER_octets st) = int_size st"
    "0 < int_size st \<Longrightarrow> INTEGER_sign st = Some (if INTEGER_val st < 0 then -1 else 1)"
proof -
  obtain buf where buf: "int_buf st = Some buf" "int_size st \<le> length buf"
    using assms by (auto simp: INTEGER_inv_def split: option.splits)
  show "INTEGER_mem st (int_size st) = Some (INTEGER_octets st)" "length (INTEGER_octets st) = int_size st"
    using buf by (simp_all add: INTEGER_mem_def INTEGER_octets_def mem_load_def)
  assume n: "0 < int_size st"
  with buf have "buf \<noteq> []" "hd (take (int_size st) buf) = buf ! 0" "take (int_size st) buf \<noteq> []"
    by (cases buf; auto)+
  with n buf show "INTEGER_sign st = Some (if INTEGER_val st < 0 then -1 else 1)"
    by (simp add: INTEGER_sign_def INTEGER_rd_def rd_def INTEGER_val_def INTEGER_octets_def twos_val_neg top_bit_u8 not_less)
qed

text \<open>Canonical numbers of different sizes and of one sign are ordered by their sizes.\<close>

lemma shorter_is_smaller:
  assumes "minimal_twos xs" "minimal_twos ys" "length xs < length ys" "twos_val xs < 0 \<longleftrightarrow> twos_val ys < 0"
  shows "if twos_val ys < 0 then twos_val ys < twos_val xs else twos_val xs < twos_val ys"
proof -
  have "xs \<noteq> []" "2 \<le> length ys" using assms(1,3) by (auto simp: minimal_twos_def neq_Nil_conv)
  have "length xs - 1 \<le> length ys - 2" using assms(3) by simp
  define A B where "A = (128::int) * 256 ^ (length xs - 1)" and "B = (128::int) * 256 ^ (length ys - 2)"
  have "A \<le> B" "0 < A" using pow_256_mono [OF \<open>length xs - 1 \<le> length ys - 2\<close>] by (simp_all add: A_def B_def)
  moreover have "- A \<le> twos_val xs" "twos_val xs < A"
    using twos_val_bounds [OF \<open>xs \<noteq> []\<close>] by (simp_all add: A_def)
  moreover have "twos_val ys < - B \<or> B \<le> twos_val ys"
    using minimal_twos_large [OF assms(2) \<open>2 \<le> length ys\<close>] by (simp add: B_def)
  ultimately show ?thesis using assms(4) by auto
qed

lemma INTEGER_compare_canon:
  assumes "INTEGER_canon a" "INTEGER_canon b"
  shows "INTEGER_compare (Some a) (Some b) = Some
    (if INTEGER_val a < 0 \<and> INTEGER_val b < 0 \<and> int_size a = int_size b
     then sgn (INTEGER_val b - INTEGER_val a) else sgn (INTEGER_val a - INTEGER_val b))"
proof -
  have inv: "INTEGER_inv a" "INTEGER_inv b" and min: "minimal_twos (INTEGER_octets a)" "minimal_twos (INTEGER_octets b)"
    using assms by (simp_all add: INTEGER_canon_def)
  note A = INTEGER_accessors [OF inv(1)] and B = INTEGER_accessors [OF inv(2)]
  have pos: "0 < int_size a" "0 < int_size b" using min A(2) B(2) unfolding minimal_twos_def by (metis length_greater_0_conv)+
  note sa = A(3) [OF pos(1)] and sb = B(3) [OF pos(2)]
  show ?thesis
  proof (cases "(INTEGER_val a < 0) = (INTEGER_val b < 0)")
    case False
    then show ?thesis using pos sa sb by (auto simp: INTEGER_compare_def)
  next
    case same: True
    consider "int_size a < int_size b" | "int_size b < int_size a" | "int_size a = int_size b" by linarith
    then show ?thesis
    proof cases
      case 1
      then show ?thesis using pos sa sb same A(2) B(2) shorter_is_smaller [OF min]
        by (auto simp: INTEGER_compare_def INTEGER_val_def split: if_splits)
    next
      case 2
      then show ?thesis using pos sa sb same A(2) B(2) shorter_is_smaller [OF min(2,1)]
        by (auto simp: INTEGER_compare_def INTEGER_val_def split: if_splits)
    next
      case 3
      have d: "INTEGER_val a - INTEGER_val b = int (octets_val (INTEGER_octets a)) - int (octets_val (INTEGER_octets b))"
        using same A(2) B(2) 3 unfolding INTEGER_val_def twos_val_neg by (auto simp: twos_val_def)
      have m: "memcmp (INTEGER_octets a) (INTEGER_octets b) = sgn (INTEGER_val a - INTEGER_val b)"
        using memcmp_sgn [of "INTEGER_octets a" "INTEGER_octets b"] A(2) B(2) 3 by (simp add: d)
      have "sgn (INTEGER_val b - INTEGER_val a) = - sgn (INTEGER_val a - INTEGER_val b)"
        by (simp add: sgn_if)
      then show ?thesis using 3 pos same A(1) B(1) m unfolding INTEGER_compare_def
        by (simp add: sa sb)
    qed
  qed
qed

section \<open>Searching an enumeration map\<close>

lemma bsearch_step:
  "lo < hi \<Longrightarrow> bsearch cmp xs lo hi = (let mid = (lo + hi) div 2; c = cmp (xs ! mid)
     in if c < 0 then bsearch cmp xs lo mid else if 0 < c then bsearch cmp xs (mid + 1) hi else Some mid)"
  by (subst bsearch.simps) (simp only: not_le [symmetric] if_False)

lemma bsearch_spec:
  assumes "sorted_wrt (\<lambda>x y. nat_value x < nat_value y) xs" "hi \<le> length xs"
  shows "case bsearch (INTEGER__compar_value2enum a) xs lo hi of
      None \<Rightarrow> \<forall>i\<in>{lo..<hi}. nat_value (xs ! i) \<noteq> a
    | Some i \<Rightarrow> lo \<le> i \<and> i < hi \<and> nat_value (xs ! i) = a"
  using assms(2)
proof (induction "hi - lo" arbitrary: lo hi rule: less_induct)
  case (less lo hi)
  define mid where "mid = (lo + hi) div 2"
  show ?case
  proof (cases "hi \<le> lo")
    case True
    then show ?thesis by (subst bsearch.simps) simp
  next
    case False
    then have mid: "lo \<le> mid" "mid < hi" "mid < length xs" using less.prems by (auto simp: mid_def)
    have ord: "nat_value (xs ! i) < nat_value (xs ! j)" if "i < j" "j < hi" for i j
      using sorted_wrt_nth_less [OF assms(1) that(1)] that less.prems by simp
    have eq: "bsearch (INTEGER__compar_value2enum a) xs lo hi =
        (if a < nat_value (xs ! mid) then bsearch (INTEGER__compar_value2enum a) xs lo mid
         else if a = nat_value (xs ! mid) then Some mid else bsearch (INTEGER__compar_value2enum a) xs (mid + 1) hi)"
      using False unfolding bsearch_step [of lo hi "INTEGER__compar_value2enum a" xs, OF False [unfolded not_le]] Let_def
        mid_def [symmetric]
      by (simp add: INTEGER__compar_value2enum_def)
    consider "a < nat_value (xs ! mid)" | "nat_value (xs ! mid) < a" | "nat_value (xs ! mid) = a" by linarith
    then show ?thesis
    proof cases
      case 1
      have "nat_value (xs ! i) \<noteq> a" if "mid \<le> i" "i < hi" for i
        using that 1 ord [of mid i] by (cases "i = mid") auto
      then have "nat_value (xs ! i) \<noteq> a" if "i \<in> {lo..<hi}" "i \<notin> {lo..<mid}" for i
        using that by simp
      moreover have "case bsearch (INTEGER__compar_value2enum a) xs lo mid of
          None \<Rightarrow> \<forall>i\<in>{lo..<mid}. nat_value (xs ! i) \<noteq> a | Some i \<Rightarrow> lo \<le> i \<and> i < mid \<and> nat_value (xs ! i) = a"
        by (rule less.hyps) (use mid less.prems in auto)
      ultimately have "case bsearch (INTEGER__compar_value2enum a) xs lo mid of
          None \<Rightarrow> \<forall>i\<in>{lo..<hi}. nat_value (xs ! i) \<noteq> a | Some i \<Rightarrow> lo \<le> i \<and> i < hi \<and> nat_value (xs ! i) = a"
        using mid(2) by (cases "bsearch (INTEGER__compar_value2enum a) xs lo mid") (auto simp del: atLeastLessThan_iff)
      then show ?thesis unfolding eq if_P [OF 1] .
    next
      case 2
      have "nat_value (xs ! i) \<noteq> a" if "i \<le> mid" for i
        using that 2 ord [of i mid] mid by (cases "i = mid") auto
      then have "nat_value (xs ! i) \<noteq> a" if "i \<in> {lo..<hi}" "i \<notin> {mid + 1..<hi}" for i
        using that by simp
      moreover have "case bsearch (INTEGER__compar_value2enum a) xs (mid + 1) hi of
          None \<Rightarrow> \<forall>i\<in>{mid + 1..<hi}. nat_value (xs ! i) \<noteq> a
        | Some i \<Rightarrow> mid + 1 \<le> i \<and> i < hi \<and> nat_value (xs ! i) = a"
        by (rule less.hyps) (use mid less.prems in auto)
      ultimately have c: "case bsearch (INTEGER__compar_value2enum a) xs (mid + 1) hi of
          None \<Rightarrow> \<forall>i\<in>{lo..<hi}. nat_value (xs ! i) \<noteq> a | Some i \<Rightarrow> lo \<le> i \<and> i < hi \<and> nat_value (xs ! i) = a"
        using mid(1) by (cases "bsearch (INTEGER__compar_value2enum a) xs (mid + 1) hi") (auto simp del: atLeastLessThan_iff)
      have "\<not> a < nat_value (xs ! mid)" "a \<noteq> nat_value (xs ! mid)" using 2 by simp_all
      then show ?thesis using c unfolding eq by (simp only: if_False)
    next
      case 3
      with mid show ?thesis unfolding eq by simp
    qed
  qed
qed

section \<open>Properties of INTEGER\<close>

lemma umax_strip:
  "case umax_strip bs of None \<Rightarrow> 2 ^ 64 \<le> octets_val bs
     | Some r \<Rightarrow> octets_val bs < 2 ^ 64 \<and> octets_val r = octets_val bs"
proof (induction bs rule: umax_strip.induct)
  case (1 b bs)
  show ?case
  proof (cases "8 < length (b # bs)")
    case False
    then have "(256::nat) ^ length (b # bs) \<le> 256 ^ 8" by (intro power_increasing) auto
    with octets_val_less [of "b # bs"] False show ?thesis by simp
  next
    case True
    show ?thesis
    proof (cases "b = 0")
      case False
      then have "1 \<le> unat b" by (simp add: Suc_le_eq unat_gt_0)
      moreover have "(256::nat) ^ 8 \<le> 256 ^ length bs" using True by (intro power_increasing) auto
      ultimately have "1 * 256 ^ 8 \<le> unat b * 256 ^ length bs" by (rule mult_le_mono)
      then show ?thesis using True False by (simp add: octets_val_Cons)
    next
      case zero: True
      then have "octets_val (b # bs) = octets_val bs" by (simp add: octets_val_Cons)
      with zero 1 True show ?thesis by (auto split: option.splits)
    qed
  qed
qed simp

lemma INTEGER2umax:
  assumes "INTEGER_inv st"
  shows "asn_INTEGER2umax st l = Some (if octets_val (INTEGER_octets st) < 2 ^ 64
    then (0, of_nat (octets_val (INTEGER_octets st))) else (-1, l))"
proof -
  obtain buf where buf: "int_buf st = Some buf" "int_size st \<le> length buf"
    using assms by (auto simp: INTEGER_inv_def split: option.splits)
  then have o: "mem_load buf 0 (int_size st) = Some (INTEGER_octets st)" by (simp add: mem_load_def INTEGER_octets_def)
  then show ?thesis using umax_strip [of "INTEGER_octets st"] buf
    by (auto simp: asn_INTEGER2umax_def foldl_octets split: option.splits)
qed

text \<open>
  C18: \<open>asn_INTEGER2imax\<close> succeeds on a well-formed INTEGER exactly when its value is in the range
  of \<open>intmax_t\<close>, however many insignificant octets precede it, and then returns this value.
\<close>

theorem INTEGER2imax_exact:
  assumes "INTEGER_inv st"
  shows "asn_INTEGER2imax st lptr =
    Some (if INTMAX_MIN \<le> INTEGER_val st \<and> INTEGER_val st \<le> INTMAX_MAX then (0, INTEGER_val st) else (-1, lptr))"
  by (rule INTEGER2imax [OF assms])

theorem INTEGER2imax_exact_witness:
  "asn_INTEGER2imax (INTEGER_of [0xFF, 0xFF, 0xFF, 0xFF, 0xFF, 0xFF, 0xFF, 0xFF, 0xFF, 0x38]) 0 = Some (0, -200)"
  using INTEGER2imax_exact [of "INTEGER_of [0xFF, 0xFF, 0xFF, 0xFF, 0xFF, 0xFF, 0xFF, 0xFF, 0xFF, 0x38]" 0]
  by (simp add: twos_val_def octets_val_Cons limits_defs)

text \<open>
  \<open>Asn_imax2INTEGER\<close> produces the shortest two's complement encoding of every
  \<open>intmax_t\<close>, and \<open>asn_INTEGER2imax\<close> reads the number back.
\<close>

theorem imax_roundtrip:
  assumes "INTMAX_MIN \<le> v" "v \<le> INTMAX_MAX" "can_alloc 8"
  shows "\<exists>st'. asn_imax2INTEGER can_alloc st v = (0, st') \<and> minimal_twos (INTEGER_octets st') \<and>
    length (INTEGER_octets st') \<le> 8 \<and> asn_INTEGER2imax st' lptr = Some (0, v)"
  using imax2INTEGER [of v can_alloc st] INTEGER2imax assms by fastforce

theorem imax_roundtrip_witness:
  "\<exists>st'. asn_imax2INTEGER (\<lambda>_. True) (INTEGER_of []) (-129) = (0, st') \<and> asn_INTEGER2imax st' 0 = Some (0, -129)"
  using imax_roundtrip [of "-129" "\<lambda>_. True" "INTEGER_of []" 0] by (auto simp: limits_defs)

text \<open>
  \<open>Asn_umax2INTEGER\<close> encodes every \<open>uintmax_t\<close> as a non-negative number in the shortest
  form, with a zero octet in front when the top bit is set, and \<open>asn_INTEGER2umax\<close> reads it back.
\<close>

theorem umax_roundtrip:
  assumes "can_alloc 8" "can_alloc 9"
  shows "\<exists>st'. asn_umax2INTEGER can_alloc st v = (0, st') \<and> INTEGER_val st' = int (unat v) \<and>
    minimal_twos (INTEGER_octets st') \<and> asn_INTEGER2umax st' l = Some (0, v)"
proof -
  from umax2INTEGER [OF assms, of st v] obtain st' where
    st': "asn_umax2INTEGER can_alloc st v = (0, st')" "INTEGER_inv st'" "INTEGER_val st' = int (unat v)"
    "minimal_twos (INTEGER_octets st')" by blast
  have "0 \<le> INTEGER_val st'" using st'(3) by simp
  then have "int (octets_val (INTEGER_octets st')) = int (unat v)"
    using st'(3) twos_val_neg [of "INTEGER_octets st'"] by (simp add: INTEGER_val_def twos_val_def split: if_splits)
  then have "octets_val (INTEGER_octets st') = unat v" by (simp only: of_nat_eq_iff)
  with INTEGER2umax [OF st'(2), of l] st' unsigned_less [of v, where ?'a = nat] show ?thesis by auto
qed

theorem umax_roundtrip_witness:
  "\<exists>st'. asn_umax2INTEGER (\<lambda>_. True) (INTEGER_of []) (- 1) = (0, st') \<and> asn_INTEGER2umax st' 0 = Some (0, - 1)"
  using umax_roundtrip [of "\<lambda>_. True" "INTEGER_of []" "- 1" 0] by auto

text \<open>
  \<open>Asn_ulong2INTEGER\<close> passes its argument to \<open>asn_imax2INTEGER\<close>, so every \<open>unsigned long\<close>
  above \<open>LONG_MAX\<close> is encoded as a negative number, \<open>2 ^ 64\<close> too small.
\<close>

theorem ulong2INTEGER_negative:
  assumes "can_alloc 8" "2 ^ 63 \<le> unat v"
  shows "\<exists>st'. asn_ulong2INTEGER can_alloc st v = (0, st') \<and> INTEGER_val st' = int (unat v) - 2 ^ 64 \<and>
    INTEGER_val st' < 0"
proof -
  have lt: "int (unat v) < 2 ^ 64" using unsigned_less [of v, where ?'a = int] by simp
  have v: "(of_int (int (unat v) - 2 ^ 64) :: u64) = v"
  proof -
    have "(2 ^ 64 :: u64) = 0" by simp
    then show ?thesis by simp
  qed
  have r: "INTMAX_MIN \<le> int (unat v) - 2 ^ 64" "int (unat v) - 2 ^ 64 \<le> INTMAX_MAX"
  proof -
    have "(2::int) ^ 63 \<le> int (unat v)" using assms(2) by (simp only: of_nat_le_iff [where 'a = int, symmetric] of_nat_power of_nat_numeral)
    with lt show "INTMAX_MIN \<le> int (unat v) - 2 ^ 64" "int (unat v) - 2 ^ 64 \<le> INTMAX_MAX"
      by (simp_all add: limits_defs)
  qed
  have "sint v = int (unat v) - 2 ^ 64" using sint_of_int_64 [OF r] by (simp only: v)
  with imax2INTEGER [of "int (unat v) - 2 ^ 64" can_alloc st] r assms(1) lt show ?thesis by (auto simp: asn_ulong2INTEGER_def)
qed

theorem ulong2INTEGER_negative_witness:
  "\<exists>st'. asn_ulong2INTEGER (\<lambda>_. True) (INTEGER_of []) (- 1) = (0, st') \<and> INTEGER_val st' = -1"
  using ulong2INTEGER_negative [of "\<lambda>_. True" "- 1" "INTEGER_of []"]
  by (auto simp: unsigned_minus_1_eq_mask mask_eq_exp_minus_1)

text \<open>
  C21: \<open>asn_strtoimax_lim\<close> on an optional sign and decimal digits followed by the end or by a
  character that is no digit: it returns the number, OK or EXTRA\_DATA, and the offset after
  the digits whenever the number is in the range of \<open>intmax_t\<close>, leading zeros included, and
  ERROR\_RANGE with \<open>*intp\<close> untouched otherwise. No intermediate result overflows.
\<close>

theorem strtoimax_correct:
  assumes "digits ds" "rest = [] \<or> \<not> is_digit (hd rest)" "ds \<noteq> []" "pre = [] \<or> pre = [0x2D] \<or> pre = [0x2B]"
  shows "let v = (if pre = [0x2D] then - dec_val ds else dec_val ds) in
    if INTMAX_MIN \<le> v \<and> v \<le> INTMAX_MAX
    then asn_strtoimax_lim (pre @ ds @ rest) intp =
      Some (if rest = [] then ASN_STRTOX_OK else ASN_STRTOX_EXTRA_DATA, length pre + length ds, v)
    else \<exists>p. asn_strtoimax_lim (pre @ ds @ rest) intp = Some (ASN_STRTOX_ERROR_RANGE, p, intp)"
proof -
  obtain d dt where ds: "ds = d # dt" using assms(3) by (cases ds) auto
  then have "is_digit d" using assms(1) by (simp add: digits_def)
  then have nd: "d \<noteq> 0x2D" "d \<noteq> 0x2B" by (auto simp: is_digit_def word_le_def)
  have m: "INTMAX_MAX mod 10 = 7" by (simp add: limits_defs)
  have nn: "0 \<le> dec_val ds" by (rule dec_val_nonneg [OF assms(1)])
  note pos = strtoimax_loop [OF assms(1,2), of 0 1 7 _ intp, simplified]
  note neg = strtoimax_loop [OF assms(1,2), of 0 "-1" 8 _ intp, simplified]
  consider "pre = []" | "pre = [0x2D]" | "pre = [0x2B]" using assms(4) by blast
  then show ?thesis
  proof cases
    case 1
    then have "asn_strtoimax_lim (pre @ ds @ rest) intp = strtoimax_loop 1 7 0 0 (ds @ rest) intp"
      using nd m by (simp add: asn_strtoimax_lim_def ds del: strtoimax_loop.simps)
    with pos [of 0] nn 1 show ?thesis by (auto simp: strtox_limit_def limits_defs split: if_splits)
  next
    case 2
    then have "asn_strtoimax_lim (pre @ ds @ rest) intp = strtoimax_loop (-1) 8 0 1 (ds @ rest) intp"
      using m by (simp add: asn_strtoimax_lim_def ds del: strtoimax_loop.simps)
    with neg [of 1] nn 2 show ?thesis by (auto simp: strtox_limit_def limits_defs split: if_splits)
  next
    case 3
    then have "asn_strtoimax_lim (pre @ ds @ rest) intp = strtoimax_loop 1 7 0 1 (ds @ rest) intp"
      using m by (simp add: asn_strtoimax_lim_def ds del: strtoimax_loop.simps)
    with pos [of 1] nn 3 show ?thesis by (auto simp: strtox_limit_def limits_defs split: if_splits)
  qed
qed

theorem strtoimax_correct_witness:
  "asn_strtoimax_lim [0x2D, 0x30, 0x34, 0x32, 0x78] 0 = Some (ASN_STRTOX_EXTRA_DATA, 4, -42)"
  using strtoimax_correct [of "[0x30, 0x34, 0x32]" "[0x78]" "[0x2D]" 0]
  by (simp add: digits_def is_digit_def dec_val_Cons digit_of_def limits_defs)

text \<open>
  \<open>INTEGER_compare\<close> on shortest encodings returns the sign of the difference, except for two
  negative numbers of equal size: there \<open>Memcmp\<close> already orders two's complement octets as
  numbers and the multiplication by the sign reverses the result.
\<close>

theorem INTEGER_compare_sign:
  assumes "INTEGER_canon a" "INTEGER_canon b"
  shows "INTEGER_compare (Some a) (Some b) = Some
    (if INTEGER_val a < 0 \<and> INTEGER_val b < 0 \<and> int_size a = int_size b
     then sgn (INTEGER_val b - INTEGER_val a) else sgn (INTEGER_val a - INTEGER_val b))"
  by (rule INTEGER_compare_canon [OF assms])

theorem INTEGER_compare_sign_witness:
  "INTEGER_compare (Some (INTEGER_of [0xFF])) (Some (INTEGER_of [0xFE])) = Some (-1) \<and>
   INTEGER_val (INTEGER_of [0xFE]) < INTEGER_val (INTEGER_of [0xFF])"
  using INTEGER_compare_sign [of "INTEGER_of [0xFF]" "INTEGER_of [0xFE]"]
  by (simp add: INTEGER_canon_def minimal_twos_def twos_val_single) (simp add: INTEGER_of_def)

text \<open>
  Comparing an INTEGER without octets with one that has some reads \<open>a->buf[0]\<close> of the empty
  one: a fault when its buffer is the null pointer, as it is after \<open>INTEGER_copy\<close> of an empty
  number.
\<close>

theorem INTEGER_compare_empty_faults:
  "INTEGER_copy can_alloc (Some a) (Some (INTEGER_of [])) = Some (0, Some \<lparr>int_buf = None, int_size = 0\<rparr>) \<and>
   INTEGER_compare (Some \<lparr>int_buf = None, int_size = 0\<rparr>) (Some (INTEGER_of (x # xs))) = None"
  by (simp add: INTEGER_copy_def INTEGER_compare_def INTEGER_of_def INTEGER_sign_def INTEGER_rd_def)

text \<open>
  \<open>INTEGER_map_value2enum\<close> finds the element with the wanted value in a map sorted by value,
  and returns null exactly when there is none; it stays inside the map.
\<close>

theorem value2enum_finds:
  assumes "sorted_wrt (\<lambda>x y. nat_value x < nat_value y) (value2enum specs)" "map_count specs = length (value2enum specs)"
  shows "\<exists>r. INTEGER_map_value2enum (Some specs) v = Some r \<and>
    (case r of None \<Rightarrow> v \<notin> nat_value ` set (value2enum specs)
     | Some el \<Rightarrow> el \<in> set (value2enum specs) \<and> nat_value el = v)"
proof (cases "map_count specs = 0")
  case True
  with assms(2) show ?thesis by (simp add: INTEGER_map_value2enum_def)
next
  case False
  with bsearch_spec [OF assms(1) order_refl, where a = v and lo = 0] assms(2) show ?thesis
    by (auto simp: INTEGER_map_value2enum_def in_set_conv_nth Ball_def split: option.splits)
qed

theorem value2enum_finds_witness:
  "\<exists>r. INTEGER_map_value2enum (Some \<lparr>value2enum = [\<lparr>nat_value = 1, enum_len = 1, enum_name = ''a''\<rparr>,
       \<lparr>nat_value = 5, enum_len = 1, enum_name = ''b''\<rparr>], enum2value = [0, 1], map_count = 2, extension = 0,
       strict_enumeration = True, field_width = 0, field_unsigned = False\<rparr>) 3 = Some r"
  using value2enum_finds [of "\<lparr>value2enum = [\<lparr>nat_value = 1, enum_len = 1, enum_name = ''a''\<rparr>,
       \<lparr>nat_value = 5, enum_len = 1, enum_name = ''b''\<rparr>], enum2value = [0, 1], map_count = 2, extension = 0,
       strict_enumeration = True, field_width = 0, field_unsigned = False\<rparr>" 3] by auto

end
