(* ===== verification/Set_Of_Array.thy ===== *)
theory Set_Of_Array
  imports Consumer "HOL-Library.Multiset" "HOL-Library.Sublist"
begin

unbundle bit_operations_syntax

text \<open>
  The growing array behind SET OF and SEQUENCE OF: \<open>skeletons/asn_SET_OF.c\<close> and
  \<open>asn_SEQUENCE_OF.c\<close>. The contract is that of a list of pointers; what the two delete operations
  do to the order of the elements is their only difference.
\<close>

section \<open>The structure and its operations\<close>

text \<open>
  \<open>as_array\<close> is the allocated memory, \<open>[]\<close> the null pointer; an element is a pointer, \<open>None\<close> the null
  pointer or a slot never written. \<open>as_free\<close> tells whether the field \<open>free\<close> is set. Operations that
  call it return the pointers given to it, in the order of the calls.
\<close>

record 'v asn_anonymous_set =
  as_array :: "'v option list"
  as_count :: int
  as_size :: int
  as_free :: bool

definition asn_set_add ::
  "(nat \<Rightarrow> bool) \<Rightarrow> 'v asn_anonymous_set \<Rightarrow> 'v option \<Rightarrow> (int \<times> 'v asn_anonymous_set) option" where
  "asn_set_add can_alloc as ptr =
     (if ptr = None then Some (-1, as)
      else do {
        (r, as) \<leftarrow>
          (if as_count as = as_size as then do {
             newsize \<leftarrow> (if as_size as \<noteq> 0 then s32 (push_bit 1 (as_size as)) else Some 4);
             if can_alloc (nat newsize * 8)
             then Some (0 :: int, as\<lparr>as_array := as_array as @ replicate (nat newsize - length (as_array as)) None, as_size := newsize\<rparr>)
             else Some (-1, as) }
           else Some (0, as));
        if r \<noteq> 0 then Some (-1, as)
        else do {
          array \<leftarrow> wr (as_array as) (nat (as_count as)) ptr;
          Some (0, as\<lparr>as_array := array, as_count := as_count as + 1\<rparr>) } })"

definition asn_set_del ::
  "'v asn_anonymous_set \<Rightarrow> int \<Rightarrow> bool \<Rightarrow> ('v list \<times> 'v asn_anonymous_set) option" where
  "asn_set_del as number do_free =
     (if number < 0 \<or> as_count as \<le> number then Some ([], as)
      else do {
        ptr \<leftarrow> (if do_free \<and> as_free as then rd (as_array as) (nat number) else Some None);
        last_ptr \<leftarrow> rd (as_array as) (nat (as_count as - 1));
        array \<leftarrow> wr (as_array as) (nat number) last_ptr;
        Some (case ptr of Some p \<Rightarrow> [p] | None \<Rightarrow> [], as\<lparr>as_array := array, as_count := as_count as - 1\<rparr>) })"

function shift_left :: "'v option list \<Rightarrow> nat \<Rightarrow> nat \<Rightarrow> 'v option list option" where
  "shift_left array n cnt =
     (if n < cnt then do {
        p \<leftarrow> rd array (n + 1);
        array \<leftarrow> wr array n p;
        shift_left array (n + 1) cnt }
      else Some array)"
  by pat_completeness auto
termination by (relation "measure (\<lambda>(a, n, c). c - n)") auto

declare shift_left.simps [simp del]

definition asn_sequence_del ::
  "'v asn_anonymous_set \<Rightarrow> int \<Rightarrow> bool \<Rightarrow> ('v list \<times> 'v asn_anonymous_set) option" where
  "asn_sequence_del as number do_free =
     (if number < 0 \<or> as_count as \<le> number then Some ([], as)
      else do {
        ptr \<leftarrow> (if do_free \<and> as_free as then rd (as_array as) (nat number) else Some None);
        array \<leftarrow> shift_left (as_array as) (nat number) (nat (as_count as - 1));
        Some (case ptr of Some p \<Rightarrow> [p] | None \<Rightarrow> [], as\<lparr>as_array := array, as_count := as_count as - 1\<rparr>) })"

primrec free_down :: "'v option list \<Rightarrow> nat \<Rightarrow> 'v list option" where
  "free_down array 0 = Some []"
| "free_down array (Suc n) = do {
     ptr \<leftarrow> rd array n;
     rest \<leftarrow> free_down array n;
     Some (case ptr of Some p \<Rightarrow> p # rest | None \<Rightarrow> rest) }"

text \<open>A negative count would run the loop below the start of the array.\<close>

definition asn_set_empty :: "'v asn_anonymous_set \<Rightarrow> ('v list \<times> 'v asn_anonymous_set) option" where
  "asn_set_empty as = do {
     (freed, array) \<leftarrow>
       (if as_array as \<noteq> [] then do {
          freed \<leftarrow> (if as_free as then (if as_count as < 0 then None else free_down (as_array as) (nat (as_count as)))
                   else Some []);
          Some (freed, []) }
        else Some ([], as_array as));
     Some (freed, as\<lparr>as_array := array, as_count := 0, as_size := 0\<rparr>) }"

section \<open>The list it stands for\<close>

definition as_elems :: "'v asn_anonymous_set \<Rightarrow> 'v list" where
  "as_elems as = map the (take (nat (as_count as)) (as_array as))"

definition as_inv :: "'v asn_anonymous_set \<Rightarrow> bool" where
  "as_inv as \<longleftrightarrow> 0 \<le> as_count as \<and> as_count as \<le> as_size as \<and> as_size as = int (length (as_array as)) \<and>
     as_size as \<le> INT_MAX \<and> None \<notin> set (take (nat (as_count as)) (as_array as))"

definition as_new :: "bool \<Rightarrow> 'v asn_anonymous_set" where
  "as_new free = \<lparr>as_array = [], as_count = 0, as_size = 0, as_free = free\<rparr>"

lemma as_new [simp]: "as_inv (as_new f)" "as_elems (as_new f) = []"
  by (simp_all add: as_new_def as_inv_def as_elems_def limits_defs)

lemma as_new_free [simp]: "as_free (as_new f) = f"
  by (simp add: as_new_def)

lemma as_inv_length: "as_inv as \<Longrightarrow> as_count as = int (length (as_elems as))"
  by (auto simp: as_inv_def as_elems_def)

lemma as_elems_nth:
  assumes "as_inv as" "i < length (as_elems as)"
  shows "rd (as_array as) i = Some (Some (as_elems as ! i))" "i < length (as_array as)"
proof -
  have i: "i < nat (as_count as)" "i < length (as_array as)"
    using assms by (auto simp: as_elems_def)
  have "as_array as ! i \<in> set (take (nat (as_count as)) (as_array as))"
    using i by (auto simp: in_set_conv_nth intro!: exI [of _ i])
  with assms(1) have "as_array as ! i \<noteq> None" by (metis as_inv_def)
  with i show "rd (as_array as) i = Some (Some (as_elems as ! i))" "i < length (as_array as)"
    by (auto simp: as_elems_def)
qed

lemma as_store:
  assumes "length array = nat sz" "0 \<le> sz" "sz \<le> INT_MAX" "xs = map Some ys" "take (length ys) array = xs" "length ys \<le> nat sz"
  shows "as_inv (as\<lparr>as_array := array, as_count := int (length ys), as_size := sz\<rparr>)"
    "as_elems (as\<lparr>as_array := array, as_count := int (length ys), as_size := sz\<rparr>) = ys"
  using assms by (auto simp: as_inv_def as_elems_def)

lemma as_inv_take: "as_inv as \<Longrightarrow> take (length (as_elems as)) (as_array as) = map Some (as_elems as)"
proof (rule nth_equalityI)
  assume a: "as_inv as"
  then show "length (take (length (as_elems as)) (as_array as)) = length (map Some (as_elems as))"
    by (auto simp: as_elems_def)
  fix i assume "i < length (take (length (as_elems as)) (as_array as))"
  then have i: "i < length (as_elems as)" by simp
  from as_elems_nth [OF a i] show "take (length (as_elems as)) (as_array as) ! i = map Some (as_elems as) ! i"
    using i by (simp add: rd_Some_iff)
qed

lemma as_inv_size: "as_inv as \<Longrightarrow> length (as_array as) = nat (as_size as) \<and> 0 \<le> as_size as \<and> as_size as \<le> INT_MAX \<and>
    length (as_elems as) \<le> length (as_array as)"
  by (auto simp: as_inv_def as_elems_def)

text \<open>An addition fails on a null pointer, without memory, and at \<open>2 ^ 30\<close> elements overflows.\<close>

lemma set_add_ok:
  assumes inv: "as_inv as" and room: "as_count as = as_size as \<longrightarrow> as_count as < 2 ^ 30" and ca: "\<And>n. ca n"
  shows "\<exists>as'. asn_set_add ca as (Some p) = Some (0, as') \<and> as_inv as' \<and> as_elems as' = as_elems as @ [p] \<and>
    as_free as' = as_free as"
proof -
  note s = as_inv_size [OF inv] and c = as_inv_length [OF inv] and t = as_inv_take [OF inv]
  define sz where "sz = (if as_count as = as_size as then (if as_size as \<noteq> 0 then 2 * as_size as else 4) else as_size as)"
  define arr where "arr = as_array as @ replicate (nat sz - length (as_array as)) None"
  have sz: "as_size as \<le> sz" "as_count as < sz" "sz \<le> INT_MAX"
    using s c room inv by (auto simp: sz_def limits_defs as_inv_def)
  have la: "length arr = nat sz" using s sz(1) by (auto simp: arr_def)
  have ta: "take (length (as_elems as)) arr = map Some (as_elems as)" using t s by (simp add: arr_def)
  have n: "nat (as_count as) = length (as_elems as)" using c by simp
  have nl: "nat (as_count as) < length arr" using sz(2) s c by (simp add: la)
  have e: "asn_set_add ca as (Some p) =
      Some (0, as\<lparr>as_array := arr[length (as_elems as) := Some p], as_count := int (length (as_elems as @ [p])), as_size := sz\<rparr>)"
  proof (cases "as_count as = as_size as")
    case True
    moreover have "as_size as \<noteq> 0 \<Longrightarrow> s32 (2 * as_size as) = Some (2 * as_size as)"
      using room s True by (auto simp: s32_def limits_defs)
    ultimately show ?thesis using nl ca n c
      by (cases "as_size as = 0")
         (auto simp: asn_set_add_def sz_def arr_def push_bit_eq_mult algebra_simps wr_def)
  next
    case False
    then have "arr = as_array as" "sz = as_size as" using s by (simp_all add: arr_def sz_def)
    with False nl n c show ?thesis by (simp add: asn_set_add_def wr_def)
  qed
  have "take (length (as_elems as @ [p])) (arr[length (as_elems as) := Some p]) = map Some (as_elems as @ [p])"
    using ta nl n by (simp add: take_Suc_conv_app_nth)
  from as_store [OF _ _ sz(3) refl this, of as] show ?thesis
    using e la nl n sz s by simp
qed

lemma set_add_null: "asn_set_add ca as None = Some (-1, as)"
  by (simp add: asn_set_add_def)

lemma set_add_cases:
  assumes inv: "as_inv as" and e: "asn_set_add ca as ptr = Some (r, as')"
  shows "r = -1 \<and> as' = as \<or>
    (\<exists>p. ptr = Some p \<and> r = 0 \<and> as_inv as' \<and> as_elems as' = as_elems as @ [p] \<and> as_free as' = as_free as)"
proof (cases ptr)
  case None
  with e show ?thesis by (simp add: asn_set_add_def)
next
  case (Some p)
  show ?thesis
  proof (cases "r = 0")
    case False
    with e Some show ?thesis by (auto simp: asn_set_add_def bind_eq_Some_conv split: if_splits)
  next
    case True
    note s = as_inv_size [OF inv] and c = as_inv_length [OF inv]
    have "asn_set_add (\<lambda>_. True) as ptr = Some (r, as')"
      using e True by (auto simp: asn_set_add_def bind_eq_Some_conv split: if_splits)
    moreover have "as_count as = as_size as \<longrightarrow> as_count as < 2 ^ 30"
    proof (intro impI, rule ccontr)
      assume "as_count as = as_size as" "\<not> as_count as < 2 ^ 30"
      with e Some show False by (auto simp: asn_set_add_def s32_def push_bit_eq_mult limits_defs)
    qed
    ultimately show ?thesis using set_add_ok [OF inv, of "\<lambda>_. True" p] Some by auto
  qed
qed

section \<open>Deletion\<close>

text \<open>The last element takes the place of the deleted one, or the rest moves up.\<close>

definition del_swap :: "'v list \<Rightarrow> nat \<Rightarrow> 'v list" where
  "del_swap xs i = butlast (xs[i := last xs])"

definition del_nth :: "'v list \<Rightarrow> nat \<Rightarrow> 'v list" where
  "del_nth xs i = take i xs @ drop (Suc i) xs"

lemma as_slot: "as_inv as \<Longrightarrow> i < length (as_elems as) \<Longrightarrow> as_array as ! i = Some (as_elems as ! i)"
  using as_elems_nth(1) by (auto simp: rd_Some_iff)

lemma set_del_ok:
  assumes inv: "as_inv as" and i: "0 \<le> number" "number < as_count as"
  shows "\<exists>as'. asn_set_del as number f = Some (if f \<and> as_free as then [as_elems as ! nat number] else [], as') \<and>
    as_inv as' \<and> as_elems as' = del_swap (as_elems as) (nat number) \<and> as_free as' = as_free as"
proof -
  note s = as_inv_size [OF inv] and c = as_inv_length [OF inv] and t = as_inv_take [OF inv]
  define n where "n = nat number"
  define xs where "xs = as_elems as"
  have n: "n < length xs" using i c by (simp add: n_def xs_def)
  then have last: "rd (as_array as) (nat (as_count as - 1)) = Some (Some (last xs))"
  proof -
    have "xs \<noteq> []" "nat (as_count as - 1) = length xs - 1" using n c by (auto simp: xs_def)
    then show ?thesis using as_elems_nth(1) [OF inv, of "length xs - 1"] n
      by (simp add: xs_def [symmetric] last_conv_nth)
  qed
  have nl: "n < length (as_array as)" using n s by (simp add: xs_def)
  define arr where "arr = (as_array as)[n := Some (last xs)]"
  have e: "asn_set_del as number f = Some (if f \<and> as_free as then [xs ! n] else [],
      as\<lparr>as_array := arr, as_count := int (length (del_swap xs n)), as_size := as_size as\<rparr>)"
    using i last nl n c as_slot [OF inv, of n] unfolding asn_set_del_def
    by (auto simp: n_def [symmetric] xs_def [symmetric] arr_def del_swap_def wr_def of_nat_diff)
  have "take (length (del_swap xs n)) arr = map Some (del_swap xs n)"
    using arg_cong [OF t, of "\<lambda>l. take (length xs - 1) (l[n := Some (last xs)])"] n
    by (simp add: arr_def del_swap_def xs_def [symmetric] butlast_conv_take take_update_swap map_update [symmetric] take_map)
  from as_store [OF _ _ _ refl this, of "as_size as" as] e s show ?thesis
    by (auto simp: arr_def del_swap_def xs_def n_def)
qed

lemma shift_left:
  "i \<le> k \<Longrightarrow> k < length arr \<Longrightarrow>
    shift_left arr i k = Some (take i arr @ take (k - i) (drop (Suc i) arr) @ drop k arr)"
proof (induction "k - i" arbitrary: i arr)
  case 0
  then show ?case by (subst shift_left.simps) simp
next
  case (Suc d)
  then have i: "i < k" "Suc i < length arr" "d = k - Suc i" by simp_all
  have "take (Suc i) (arr[i := arr ! Suc i]) = take i arr @ [arr ! Suc i]"
    using i by (simp add: take_Suc_conv_app_nth)
  moreover have "take (k - Suc i) (drop (Suc (Suc i)) (arr[i := arr ! Suc i])) = take (k - Suc i) (drop (Suc (Suc i)) arr)"
    by simp
  moreover have "[arr ! Suc i] @ take (k - Suc i) (drop (Suc (Suc i)) arr) = take (k - i) (drop (Suc i) arr)"
  proof -
    have "drop (Suc i) arr = arr ! Suc i # drop (Suc (Suc i)) arr" using i by (simp add: Cons_nth_drop_Suc)
    moreover have "k - i = Suc (k - Suc i)" using i by simp
    ultimately show ?thesis by simp
  qed
  moreover have "drop k (arr[i := arr ! Suc i]) = drop k arr" using i by simp
  ultimately show ?case
    using Suc.hyps(1) [of "Suc i" "arr[i := arr ! Suc i]"] Suc.prems i
    by (subst shift_left.simps) (simp add: wr_def rd_def)
qed

lemma sequence_del_ok:
  assumes inv: "as_inv as" and i: "0 \<le> number" "number < as_count as"
  shows "\<exists>as'. asn_sequence_del as number f = Some (if f \<and> as_free as then [as_elems as ! nat number] else [], as') \<and>
    as_inv as' \<and> as_elems as' = del_nth (as_elems as) (nat number) \<and> as_free as' = as_free as"
proof -
  note s = as_inv_size [OF inv] and c = as_inv_length [OF inv] and t = as_inv_take [OF inv]
  define n where "n = nat number"
  define xs where "xs = as_elems as"
  have n: "n < length xs" using i c by (simp add: n_def xs_def)
  have k: "nat (as_count as - 1) = length xs - 1" using c by (simp add: xs_def)
  define arr where "arr = take n (as_array as) @ take (length xs - 1 - n) (drop (Suc n) (as_array as)) @ drop (length xs - 1) (as_array as)"
  have sh: "shift_left (as_array as) n (length xs - 1) = Some arr"
    unfolding arr_def by (rule shift_left) (use n s in \<open>auto simp: xs_def\<close>)
  have len: "length (del_nth xs n) = length xs - 1" "length arr = length (as_array as)"
    using n s by (auto simp: del_nth_def arr_def xs_def min_def)
  have e: "asn_sequence_del as number f = Some (if f \<and> as_free as then [xs ! n] else [],
      as\<lparr>as_array := arr, as_count := int (length (del_nth xs n)), as_size := as_size as\<rparr>)"
    using i n c sh k as_slot [OF inv, of n] as_elems_nth(2) [OF inv, of n] unfolding asn_sequence_del_def len
    by (auto simp: n_def [symmetric] xs_def [symmetric] of_nat_diff)
  have "length (take n (as_array as) @ take (length xs - 1 - n) (drop (Suc n) (as_array as))) = length xs - 1"
    using n s by (auto simp: xs_def)
  then have "take (length xs - 1) arr = take n (as_array as) @ take (length xs - 1 - n) (drop (Suc n) (as_array as))"
    unfolding arr_def append_assoc [symmetric] by (metis append_eq_conv_conj)
  also have "\<dots> = take n (take (length xs) (as_array as)) @ drop (Suc n) (take (length xs) (as_array as))"
    using n by (simp add: drop_take min_def)
  also have "\<dots> = map Some (del_nth xs n)"
    using t by (simp add: xs_def del_nth_def take_map drop_map)
  finally have "take (length (del_nth xs n)) arr = map Some (del_nth xs n)" by (simp only: len)
  from as_store [OF _ _ _ refl this, of "as_size as" as] e s len n show ?thesis
    by (auto simp: xs_def n_def)
qed

lemma del_outside:
  "number < 0 \<or> as_count as \<le> number \<Longrightarrow> asn_set_del as number f = Some ([], as)"
  "number < 0 \<or> as_count as \<le> number \<Longrightarrow> asn_sequence_del as number f = Some ([], as)"
  by (simp_all add: asn_set_del_def asn_sequence_del_def)

lemma free_down: "as_inv as \<Longrightarrow> n \<le> length (as_elems as) \<Longrightarrow> free_down (as_array as) n = Some (rev (take n (as_elems as)))"
  by (induction n) (simp_all add: as_elems_nth(1) take_Suc_conv_app_nth)

lemma set_empty_ok:
  assumes inv: "as_inv as"
  shows "asn_set_empty as = Some (if as_free as then rev (as_elems as) else [], as_new (as_free as))"
proof -
  have "as_array as = [] \<Longrightarrow> as_elems as = []" by (simp add: as_elems_def)
  moreover have "\<not> as_count as < 0" "nat (as_count as) = length (as_elems as)"
    using inv as_inv_length [OF inv] by (simp_all add: as_inv_def)
  ultimately show ?thesis using free_down [OF inv, of "length (as_elems as)"]
    by (auto simp: asn_set_empty_def as_new_def)
qed

section \<open>Runs of operations\<close>

text \<open>
  What a program does with the structure is a list of operations. Each addition has an allocator of
  its own, and its pointer may be null. \<open>set_operation\<close> returns the pointers that the structure took
  over (one when \<open>asn_set_add\<close> returns 0), those that it passed to \<open>free\<close>, and the structure;
  \<open>None\<close> as soon as an operation faults.
\<close>

datatype 'v set_op = Add "nat \<Rightarrow> bool" "'v option" | Del int | Del_seq int | Empty

definition set_operation ::
  "'v set_op \<Rightarrow> 'v asn_anonymous_set \<Rightarrow> ('v list \<times> 'v list \<times> 'v asn_anonymous_set) option" where
  "set_operation opn as = (case opn of
     Add ca ptr \<Rightarrow> do {
       (r, as) \<leftarrow> asn_set_add ca as ptr;
       Some (if r = 0 then (case ptr of Some p \<Rightarrow> [p] | None \<Rightarrow> []) else [], [], as) }
   | Del i \<Rightarrow> do { (freed, as) \<leftarrow> asn_set_del as i True; Some ([], freed, as) }
   | Del_seq i \<Rightarrow> do { (freed, as) \<leftarrow> asn_sequence_del as i True; Some ([], freed, as) }
   | Empty \<Rightarrow> do { (freed, as) \<leftarrow> asn_set_empty as; Some ([], freed, as) })"

fun set_operations ::
  "'v set_op list \<Rightarrow> 'v asn_anonymous_set \<Rightarrow> ('v list \<times> 'v list \<times> 'v asn_anonymous_set) option" where
  "set_operations [] as = Some ([], [], as)"
| "set_operations (opn # ops) as = do {
     (g, l, as) \<leftarrow> set_operation opn as;
     (gs, ls, as) \<leftarrow> set_operations ops as;
     Some (g @ gs, l @ ls, as) }"

fun offered :: "'v set_op \<Rightarrow> 'v list" where
  "offered (Add ca (Some p)) = [p]"
| "offered _ = []"

fun has_memory :: "'v set_op \<Rightarrow> bool" where
  "has_memory (Add ca ptr) \<longleftrightarrow> (\<forall>n. ca n)"
| "has_memory _ \<longleftrightarrow> True"

lemma mset_del_swap: "i < length xs \<Longrightarrow> mset xs = {#xs ! i#} + mset (del_swap xs i)"
proof -
  assume i: "i < length xs"
  then have "xs \<noteq> []" by auto
  then obtain ys y where xs: "xs = ys @ [y]" by (cases xs rule: rev_cases) auto
  show ?thesis
  proof (cases "i = length ys")
    case True
    then show ?thesis by (simp add: xs del_swap_def)
  next
    case False
    then have i': "i < length ys" using i xs by simp
    then have "mset (ys[i := y]) = add_mset y (mset ys - {#ys ! i#})" by (rule mset_update)
    moreover have "mset ys = add_mset (ys ! i) (mset ys - {#ys ! i#})" using i' by simp
    ultimately show ?thesis using i' by (simp add: xs del_swap_def nth_append list_update_append)
  qed
qed

lemma mset_del_nth: "i < length xs \<Longrightarrow> mset xs = {#xs ! i#} + mset (del_nth xs i)"
  using arg_cong [OF id_take_nth_drop, of i xs mset] by (simp add: del_nth_def)

lemma del_lost:
  assumes "as_inv as" "asn_set_del as i True = Some (l, as') \<or> asn_sequence_del as i True = Some (l, as')" "as_free as"
  shows "as_inv as' \<and> as_free as' \<and> mset (as_elems as) = mset l + mset (as_elems as')"
proof (cases "i < 0 \<or> as_count as \<le> i")
  case True
  with assms del_outside [OF True] show ?thesis by auto
next
  case False
  then have i: "0 \<le> i" "i < as_count as" "nat i < length (as_elems as)" using as_inv_length [OF assms(1)] by auto
  from assms(2) show ?thesis
  proof
    assume "asn_set_del as i True = Some (l, as')"
    with set_del_ok [OF assms(1) i(1,2), of True] mset_del_swap [OF i(3)] assms(3) show ?thesis by auto
  next
    assume "asn_sequence_del as i True = Some (l, as')"
    with sequence_del_ok [OF assms(1) i(1,2), of True] mset_del_nth [OF i(3)] assms(3) show ?thesis by auto
  qed
qed

lemma del_defined:
  assumes "as_inv as"
  shows "\<exists>l as'. asn_set_del as i True = Some (l, as')" "\<exists>l as'. asn_sequence_del as i True = Some (l, as')"
proof -
  consider "i < 0 \<or> as_count as \<le> i" | "0 \<le> i" "i < as_count as" by linarith
  then have "(\<exists>l as'. asn_set_del as i True = Some (l, as')) \<and> (\<exists>l as'. asn_sequence_del as i True = Some (l, as'))"
  proof cases
    case 1
    then show ?thesis using del_outside [of i as True] by simp
  next
    case 2
    from set_del_ok [OF assms 2, of True] sequence_del_ok [OF assms 2, of True] show ?thesis by blast
  qed
  then show "\<exists>l as'. asn_set_del as i True = Some (l, as')" "\<exists>l as'. asn_sequence_del as i True = Some (l, as')"
    by blast+
qed

text \<open>Without memory the addition leaves the structure as it is; it does not fault below \<open>2 ^ 30\<close> elements.\<close>

lemma set_add_defined:
  assumes inv: "as_inv as" and room: "length (as_elems as) < 2 ^ 30"
  shows "\<exists>r as'. asn_set_add ca as ptr = Some (r, as')"
proof (cases ptr)
  case None
  then show ?thesis by (simp add: asn_set_add_def)
next
  case (Some p)
  have room': "as_count as < 2 ^ 30" using as_inv_length [OF inv] room by simp
  obtain as' where ok: "asn_set_add (\<lambda>_. True) as ptr = Some (0, as')"
    using set_add_ok [OF inv, of "\<lambda>_. True" p] room' Some by auto
  have "\<exists>newsize. as_count as = as_size as \<longrightarrow>
      (if as_size as \<noteq> 0 then s32 (push_bit 1 (as_size as)) else Some 4) = Some newsize"
    using ok Some by (auto simp: asn_set_add_def bind_eq_Some_conv)
  then obtain newsize where "as_count as = as_size as \<longrightarrow>
      (if as_size as \<noteq> 0 then s32 (push_bit 1 (as_size as)) else Some 4) = Some newsize" by blast
  then have "asn_set_add ca as ptr = Some (-1, as) \<or> asn_set_add ca as ptr = asn_set_add (\<lambda>_. True) as ptr"
    using Some by (cases "ca (nat newsize * 8)") (simp_all add: asn_set_add_def)
  with ok show ?thesis by auto
qed

lemma set_operation_ok:
  assumes inv: "as_inv as" and fr: "as_free as" and room: "length (as_elems as) < 2 ^ 30"
  shows "\<exists>g l as'. set_operation opn as = Some (g, l, as') \<and> as_inv as' \<and> as_free as' \<and>
    mset (as_elems as) + mset g = mset l + mset (as_elems as') \<and> length (as_elems as') \<le> Suc (length (as_elems as)) \<and>
    subseq g (offered opn) \<and> (has_memory opn \<longrightarrow> g = offered opn)"
proof -
  have small: "length xs \<le> Suc n" if "mset ys + mset g = mset l + mset xs" "length g \<le> 1" "length ys = n"
    for xs ys g l :: "'a list" and n
    using arg_cong [OF that(1), of size] that(2,3) by simp
  show ?thesis
  proof (cases opn)
    case (Add ca ptr)
    obtain r as' where e: "asn_set_add ca as ptr = Some (r, as')" using set_add_defined [OF inv room] by blast
    from set_add_cases [OF inv e] show ?thesis
    proof (elim disjE exE conjE)
      assume f: "r = -1" "as' = as"
      have "\<not> (\<forall>n. ca n) \<or> ptr = None"
        using set_add_ok [OF inv, of ca "the ptr"] as_inv_length [OF inv] room e f by (cases ptr) auto
      with e f Add inv fr show ?thesis by (cases ptr) (auto simp: set_operation_def)
    next
      fix p assume "ptr = Some p" "r = 0" "as_inv as'" "as_elems as' = as_elems as @ [p]" "as_free as' = as_free as"
      with e Add fr show ?thesis by (simp add: set_operation_def)
    qed
  next
    case (Del i)
    obtain l as' where e: "asn_set_del as i True = Some (l, as')" using del_defined(1) [OF inv] by blast
    from del_lost [OF inv _ fr] e
    have "as_inv as' \<and> as_free as' \<and> mset (as_elems as) = mset l + mset (as_elems as')" by blast
    with e Del small [of "as_elems as" "[]" l "as_elems as'"] show ?thesis by (simp add: set_operation_def)
  next
    case (Del_seq i)
    obtain l as' where e: "asn_sequence_del as i True = Some (l, as')" using del_defined(2) [OF inv] by blast
    from del_lost [OF inv _ fr] e
    have "as_inv as' \<and> as_free as' \<and> mset (as_elems as) = mset l + mset (as_elems as')" by blast
    with e Del_seq small [of "as_elems as" "[]" l "as_elems as'"] show ?thesis by (simp add: set_operation_def)
  next
    case Empty
    with set_empty_ok [OF inv] fr show ?thesis by (simp add: set_operation_def)
  qed
qed

lemma set_operations_ok:
  "as_inv as \<Longrightarrow> as_free as \<Longrightarrow> length (as_elems as) + length ops \<le> 2 ^ 30 \<Longrightarrow>
    \<exists>gained lost as'. set_operations ops as = Some (gained, lost, as') \<and> as_inv as' \<and>
      mset (as_elems as) + mset gained = mset lost + mset (as_elems as') \<and>
      subseq gained (concat (map offered ops)) \<and>
      ((\<forall>opn\<in>set ops. has_memory opn) \<longrightarrow> gained = concat (map offered ops))"
proof (induction ops arbitrary: as)
  case Nil
  then show ?case by simp
next
  case (Cons opn ops)
  then obtain g l as1 where 1: "set_operation opn as = Some (g, l, as1)" "as_inv as1" "as_free as1"
      "mset (as_elems as) + mset g = mset l + mset (as_elems as1)" "length (as_elems as1) \<le> Suc (length (as_elems as))"
      "subseq g (offered opn)" "has_memory opn \<longrightarrow> g = offered opn"
    using set_operation_ok [of as opn] by auto
  moreover have "length (as_elems as1) + length ops \<le> 2 ^ 30" using 1(5) Cons.prems(3) by simp
  from Cons.IH [OF 1(2,3) this] obtain gs ls as2 where 2: "set_operations ops as1 = Some (gs, ls, as2)" "as_inv as2"
      "mset (as_elems as1) + mset gs = mset ls + mset (as_elems as2)" "subseq gs (concat (map offered ops))"
      "(\<forall>opn\<in>set ops. has_memory opn) \<longrightarrow> gs = concat (map offered ops)"
    by blast
  moreover have "mset (as_elems as) + mset (g @ gs) = mset (l @ ls) + mset (as_elems as2)"
    using 1(4) 2(3) by (metis (no_types, lifting) add.assoc add.commute mset_append)
  ultimately show ?case by (auto intro: list_emb_append_mono)
qed

section \<open>Properties\<close>

text \<open>
  C10: whatever additions, deletions (by exchange or by shifting) and emptyings a program does, up to
  \<open>2 ^ 30\<close> of them, in any order and with any allocation failing: no operation reads or writes outside
  the array or overflows the size, the structure stays well formed (its count within its size, no
  null pointer among its elements) and every pointer it took over is in exactly one place, among the
  elements or among those given to \<open>free\<close>: nothing leaks and nothing is freed twice. The pointers
  taken over are some of the non-null ones offered, and all of them when no allocation fails.
\<close>

theorem set_of_conserves_pointers:
  assumes "length ops \<le> 2 ^ 30"
  shows "\<exists>gained lost as. set_operations ops (as_new True) = Some (gained, lost, as) \<and> as_inv as \<and>
    mset gained = mset (as_elems as) + mset lost \<and> subseq gained (concat (map offered ops)) \<and>
    ((\<forall>opn\<in>set ops. has_memory opn) \<longrightarrow> gained = concat (map offered ops))"
  using set_operations_ok [of "as_new True" ops] assms by (simp add: union_commute)

text \<open>
  Six additions, the fifth of which doubles the array and the fourth of which offers a null pointer,
  the deletion of the second element by exchange and of the second by a shift.
\<close>

definition sample_ops :: "nat set_op list" where
  "sample_ops = map (Add (\<lambda>_. True)) [Some 1, Some 2, Some 3, None, Some 4, Some 5] @ [Del 1, Del_seq 1]"

lemma sample_ops_run:
  "set_operations sample_ops (as_new True) =
     Some ([1, 2, 3, 4, 5], [2, 5],
       \<lparr>as_array = [Some 1, Some 3, Some 4, Some 4, Some 5, None, None, None], as_count = 3, as_size = 8, as_free = True\<rparr>)"
  by code_simp

theorem set_of_conserves_pointers_witness:
  "\<exists>as. set_operations sample_ops (as_new True) = Some ([1, 2, 3, 4, 5], [2, 5], as) \<and> as_inv as \<and>
     mset [1, 2, 3, 4, 5] = mset (as_elems as) + mset [2, 5]"
  using set_of_conserves_pointers [of sample_ops] by (simp add: sample_ops_run) (simp add: sample_ops_def)
end
