(* ===== verification/Uper_Set_Of.thy ===== *)
theory Uper_Set_Of
  imports Uper_Types Set_Of_Array "HOL-Library.List_Lexorder"
begin

unbundle bit_operations_syntax

text \<open>
  SEQUENCE OF in unaligned PER: \<open>skeletons/constr_SEQUENCE_OF_uper.c\<close> and the decoder in
  \<open>constr_SET_OF_uper.c\<close>, which serves SET OF as well. The codec of the element is a parameter.
\<close>

section \<open>Operations\<close>

text \<open>
  A decoder of an element also reports \<open>rv.consumed\<close>, which the decoder of a list looks at: the
  value behind \<open>*sptr\<close> is paired with it. \<open>counted n\<close> makes one of a decoder that always reports \<open>n\<close>.
\<close>

type_synonym 'v per_decoder = "('v \<times> nat) uper_decoder"

definition counted :: "nat \<Rightarrow> 'v uper_decoder \<Rightarrow> 'v per_decoder" where
  "counted n decoder pd = do {
     (code, v, pd) \<leftarrow> decoder pd;
     Some (code, map_option (\<lambda>w. (w, n)) v, pd) }"

definition size_constraint :: "asn_per_constraints option \<Rightarrow> asn_per_constraints option \<Rightarrow> asn_per_constraint option" where
  "size_constraint td_constraints constraints =
     (case constraints of Some c \<Rightarrow> Some (pc_size c) | None \<Rightarrow> map_option pc_size td_constraints)"

definition fixed_size :: "asn_per_constraint option \<Rightarrow> bool" where
  "fixed_size ct = (case ct of Some c \<Rightarrow> 0 \<le> ct_effective_bits c | None \<Rightarrow> False)"

text \<open>The loop over the elements of one chunk, and the loop over the chunks.\<close>

fun set_of_items ::
  "(nat \<Rightarrow> bool) \<Rightarrow> 'v per_decoder \<Rightarrow> int \<Rightarrow> nat \<Rightarrow> 'v asn_anonymous_set \<Rightarrow> bit_data \<Rightarrow>
     (asn_dec_rval_code \<times> 'v asn_anonymous_set \<times> bit_data) option" where
  "set_of_items can_alloc elm_decoder nelems 0 list pd = Some (RC_OK, list, pd)"
| "set_of_items can_alloc elm_decoder nelems (Suc i) list pd = do {
     (code, ptr, pd) \<leftarrow> elm_decoder pd;
     if code = RC_OK then do {
       (r, list) \<leftarrow> asn_set_add can_alloc list (map_option fst ptr);
       if r = 0 then
         if (case ptr of Some (v, consumed) \<Rightarrow> consumed = 0 | None \<Rightarrow> True) \<and> 200 < nelems
         then Some (RC_FAIL, list, pd)
         else set_of_items can_alloc elm_decoder nelems i list pd
       else Some (RC_FAIL, list, pd) }
     else Some (code, list, pd) }"

partial_function (option) set_of_chunks ::
  "(nat \<Rightarrow> bool) \<Rightarrow> 'v per_decoder \<Rightarrow> int \<Rightarrow> int \<Rightarrow> 'v asn_anonymous_set \<Rightarrow> bit_data \<Rightarrow>
     (asn_dec_rval_code \<times> 'v asn_anonymous_set \<times> bit_data) option" where
  [code]: "set_of_chunks can_alloc elm_decoder nelems repeat list pd =
     (case (if nelems < 0 then uper_get_length pd (-1) 0 else Some (nelems, repeat, pd)) of
        None \<Rightarrow> None
      | Some (nelems, repeat, pd) \<Rightarrow>
          if nelems < 0 then Some (RC_WMORE, list, pd)
          else
            case set_of_items can_alloc elm_decoder nelems (nat nelems) list pd of
              None \<Rightarrow> None
            | Some (code, list, pd) \<Rightarrow>
                if code \<noteq> RC_OK then Some (code, list, pd)
                else if repeat \<noteq> 0 then set_of_chunks can_alloc elm_decoder (-1) repeat list pd
                else Some (RC_OK, list, pd))"

definition SET_OF_decode_uper ::
  "bool \<Rightarrow> (nat \<Rightarrow> bool) \<Rightarrow> nat \<Rightarrow> asn_per_constraints option \<Rightarrow> asn_per_constraints option \<Rightarrow> 'v per_decoder \<Rightarrow>
     'v asn_anonymous_set per_decoder" where
  "SET_OF_decode_uper stack_ok can_alloc struct_size td_constraints constraints elm_decoder pd =
     (if \<not> stack_ok then Some (RC_FAIL, None, pd)
      else if \<not> can_alloc struct_size then Some (RC_FAIL, None, pd)
      else do {
        let st = as_new False;
        let ct = size_constraint td_constraints constraints;
        (v, pd) \<leftarrow> (case ct of Some c \<Rightarrow> if ct_has c APC_EXTENSIBLE then asn_get_few_bits pd 1 else Some (0, pd) | None \<Rightarrow> Some (0, pd));
        if v < 0 then Some (RC_WMORE, Some (st, 0), pd)
        else do {
          let ct = (if v \<noteq> 0 then None else ct);
          (starved, nelems, pd) \<leftarrow>
            (case ct of
               Some c \<Rightarrow>
                 if 0 \<le> ct_effective_bits c then do {
                   (n, pd) \<leftarrow> asn_get_few_bits pd (ct_effective_bits c);
                   if n < 0 then Some (True, n, pd)
                   else do { n \<leftarrow> s64 (n + ct_lower_bound c); Some (False, n, pd) } }
                 else Some (False, -1, pd)
             | None \<Rightarrow> Some (False, -1, pd));
          if starved then Some (RC_WMORE, Some (st, 0), pd)
          else do {
            (code, list, pd) \<leftarrow> set_of_chunks can_alloc elm_decoder nelems 0 st pd;
            Some (code, Some (list, 0), pd) } } })"

text \<open>
  The encoders. \<open>er\<close> is \<open>er.encoded\<close> of the last element. \<open>put_size_root\<close> writes the extension bit of a
  size constraint and tells which constraint stays in force.
\<close>

definition put_size_root ::
  "asn_per_constraint option \<Rightarrow> int \<Rightarrow> 'k bit_outp \<Rightarrow> (int \<times> asn_per_constraint option \<times> 'k bit_outp) option" where
  "put_size_root ct cnt po =
     (case ct of
        None \<Rightarrow> Some (0, None, po)
      | Some c \<Rightarrow>
          let not_in_root = (cnt < ct_lower_bound c \<or> ct_upper_bound c < cnt) in
          if ct_has c APC_EXTENSIBLE then do {
            (r, po) \<leftarrow> asn_put_few_bits po (if not_in_root then 1 else 0) 1;
            Some (if r \<noteq> 0 then -1 else 0, if not_in_root then None else Some c, po) }
          else Some (if not_in_root \<and> 0 \<le> ct_effective_bits c then -1 else 0, Some c, po))"

fun put_elements ::
  "('v, 'k) uper_encoder \<Rightarrow> 'v option list \<Rightarrow> nat \<Rightarrow> nat \<Rightarrow> int \<Rightarrow> 'k bit_outp \<Rightarrow> (int \<times> 'k bit_outp) option" where
  "put_elements elm_encoder array edx 0 er po = Some (er, po)"
| "put_elements elm_encoder array edx (Suc n) er po = do {
     memb_ptr \<leftarrow> rd array edx;
     case memb_ptr of
       None \<Rightarrow> Some (-1, po)
     | Some v \<Rightarrow> do {
         (er, po) \<leftarrow> elm_encoder v po;
         if er = -1 then Some (-1, po) else put_elements elm_encoder array (edx + 1) n er po } }"

function put_chunks ::
  "(nat \<Rightarrow> nat \<Rightarrow> int \<Rightarrow> 'k bit_outp \<Rightarrow> (int \<times> 'k bit_outp) option) \<Rightarrow> bool \<Rightarrow> int \<Rightarrow> nat \<Rightarrow> int \<Rightarrow> 'k bit_outp \<Rightarrow>
     (int \<times> 'k bit_outp) option" where
  "put_chunks items fixed cnt encoded_edx er po =
     (if int encoded_edx < cnt then
        case (if fixed then Some (cnt, 0, po) else uper_put_length po (nat (cnt - int encoded_edx))) of
          None \<Rightarrow> None
        | Some (may_encode, need_eom, po) \<Rightarrow>
            if may_encode < 0 then Some (-1, po)
            else do {
              (er, po) \<leftarrow> items encoded_edx (nat may_encode) er po;
              if er = -1 then Some (-1, po)
              else do {
                (r, po) \<leftarrow> (if need_eom \<noteq> 0 then do { (r, e, po) \<leftarrow> uper_put_length po 0; Some (r, po) } else Some (0, po));
                if r \<noteq> 0 then Some (-1, po)
                else put_chunks items fixed cnt (encoded_edx + nat may_encode) er po } }
      else Some (er, po))"
  by pat_completeness auto
termination
proof (relation "measure (\<lambda>(items, fixed, cnt, edx, er, po). nat (cnt - int edx))", goal_cases)
  case (2 items fixed cnt edx er po r1 may re need_eom po1 x er1 po2 y r po3)
  then have "0 < nat may"
    using put_length_progress(1) [of po "nat (cnt - int edx)" may need_eom po1] by (auto split: if_splits)
  with 2 show ?case by auto
qed simp

declare put_chunks.simps [simp del]

definition put_fixed_size :: "asn_per_constraint option \<Rightarrow> int \<Rightarrow> 'k bit_outp \<Rightarrow> (int \<times> 'k bit_outp) option" where
  "put_fixed_size ct cnt po =
     (case ct of
        Some c \<Rightarrow> if 0 \<le> ct_effective_bits c
          then do { (r, po) \<leftarrow> asn_put_few_bits po (of_int (cnt - ct_lower_bound c)) (ct_effective_bits c);
                    Some (if r \<noteq> 0 then -1 else 0, po) }
          else Some (0, po)
      | None \<Rightarrow> Some (0, po))"

definition SEQUENCE_OF_encode_uper ::
  "asn_per_constraints option \<Rightarrow> asn_per_constraints option \<Rightarrow> ('v, 'k) uper_encoder \<Rightarrow> ('v asn_anonymous_set, 'k) uper_encoder" where
  "SEQUENCE_OF_encode_uper td_constraints constraints elm_encoder list po = do {
     (r, ct, po) \<leftarrow> put_size_root (size_constraint td_constraints constraints) (as_count list) po;
     if r \<noteq> 0 then Some (-1, po)
     else do {
       (r, po) \<leftarrow> put_fixed_size ct (as_count list) po;
       if r \<noteq> 0 then Some (-1, po)
       else if \<not> fixed_size ct \<and> as_count list = 0 then do {
         (r, e, po) \<leftarrow> uper_put_length po 0;
         Some (if r \<noteq> 0 then -1 else 0, po) }
       else put_chunks (put_elements elm_encoder (as_array list)) (fixed_size ct) (as_count list) 0 0 po } }"


section \<open>What an encoding stands for\<close>

text \<open>
  \<open>writes\<close>: the encoder appends exactly the bits. \<open>reads\<close>: the decoder inverts them in front of any
  further bits and reports whether \<open>rv.consumed\<close> is positive. A coding of a value: its bits, that
  flag and the value that is read back.
\<close>

type_synonym 'v coding = "bool list \<times> bool \<times> 'v"

definition writes :: "('v, enc_dyn_arg) uper_encoder \<Rightarrow> 'v \<Rightarrow> bool list \<Rightarrow> bool" where
  "writes encoder v bs \<longleftrightarrow> (\<forall>po. po_ok grow_cb dyn_inv po \<longrightarrow> po_puts grow_cb dyn_taken dyn_inv po 0 bs (encoder v po))"

definition reads :: "'v per_decoder \<Rightarrow> 'v coding \<Rightarrow> bool" where
  "reads decoder x \<longleftrightarrow> (\<forall>pd rest. pd_inv pd \<longrightarrow> pd_bits pd = fst x @ rest \<longrightarrow>
     (\<exists>n pd'. decoder pd = Some (RC_OK, Some (snd (snd x), n), pd') \<and> (0 < n \<longleftrightarrow> fst (snd x)) \<and> pd_consumes pd (fst x) pd'))"

lemma readsE:
  assumes "reads decoder (bs, c, w)" "pd_inv pd" "pd_bits pd = bs @ rest"
  obtains n pd' where "decoder pd = Some (RC_OK, Some (w, n), pd')" "0 < n \<longleftrightarrow> c" "pd_consumes pd bs pd'"
    "pd_inv pd'" "pd_bits pd' = rest"
proof -
  from assms(1) [unfolded reads_def, rule_format, of pd rest] assms(2,3) obtain n pd' where
    *: "decoder pd = Some (RC_OK, Some (w, n), pd')" "0 < n \<longleftrightarrow> c" "pd_consumes pd bs pd'" by auto
  have "pd_bits pd' = rest" using pd_consumesD(3) [OF *(3)] assms(3) by simp
  then show thesis by (rule that [OF * pd_consumesD(2) [OF *(3)]])
qed

lemma writesD: "writes encoder v bs \<Longrightarrow> po_ok grow_cb dyn_inv po \<Longrightarrow> po_puts grow_cb dyn_taken dyn_inv po 0 bs (encoder v po)"
  by (simp add: writes_def)

section \<open>The list of a SEQUENCE OF\<close>

text \<open>X.691 #20: fragments of elements, each behind its count, like those of octets.\<close>

function element_fragments :: "bool list list \<Rightarrow> bool list" where
  "element_fragments bss =
     (let n = length bss; u = uper_length_unit n in
      uper_length_bits n @ concat (take u bss) @
      (if n < 16384 then [] else if u = n then uper_length_bits 0 else element_fragments (drop u bss)))"
  by pat_completeness auto
termination
proof (relation "measure length", goal_cases)
  case (2 bss n u)
  then have "0 < length bss" by auto
  with 2 show ?case using unit_bounds(1) [of "length bss"] by simp
qed simp

declare element_fragments.simps [simp del]

text \<open>
  The bits of a list from the codings of its elements. The bound of 200 elements is that of the
  decoder: a longer list is refused unless each of its elements reports what it consumed.
\<close>

definition list_readable :: "'v coding list \<Rightarrow> bool" where
  "list_readable xs \<longleftrightarrow> length xs < 2 ^ 30 \<and> (200 < length xs \<longrightarrow> (\<forall>x\<in>set xs. fst (snd x)))"

definition list_body :: "asn_per_constraint option \<Rightarrow> bool list list \<Rightarrow> bool list option" where
  "list_body ct bss =
     (case ct of
        Some c \<Rightarrow>
          if 0 \<le> ct_effective_bits c then
            if ct_effective_bits c \<le> 31 \<and> ct_lower_bound c \<le> int (length bss) \<and> int (length bss) \<le> ct_upper_bound c \<and>
               \<bar>ct_lower_bound c\<bar> < 2 ^ 31 \<and> int (length bss) - ct_lower_bound c < 2 ^ nat (ct_effective_bits c)
            then Some (be_bits (nat (ct_effective_bits c)) (nat (int (length bss) - ct_lower_bound c)) @ concat bss)
            else None
          else Some (element_fragments bss)
      | None \<Rightarrow> Some (element_fragments bss))"

definition list_bits :: "asn_per_constraint option \<Rightarrow> bool list list \<Rightarrow> bool list option" where
  "list_bits ct bss =
     (case ct of
        Some c \<Rightarrow>
          if ct_has c APC_EXTENSIBLE then
            if ct_lower_bound c \<le> int (length bss) \<and> int (length bss) \<le> ct_upper_bound c
            then map_option (\<lambda>bs. False # bs) (list_body (Some c) bss)
            else map_option (\<lambda>bs. True # bs) (list_body None bss)
          else list_body (Some c) bss
      | None \<Rightarrow> list_body None bss)"

abbreviation coded_values :: "'v coding list \<Rightarrow> 'v list" where
  "coded_values xs \<equiv> map (\<lambda>x. snd (snd x)) xs"

lemma set_of_items_ok:
  assumes "\<forall>x\<in>set xs. reads elm x" "as_inv list" "length (as_elems list) + length xs < 2 ^ 30"
    and "200 < nelems \<longrightarrow> (\<forall>x\<in>set xs. fst (snd x))" "pd_inv pd" "pd_bits pd = concat (map fst xs) @ rest"
  shows "\<exists>list' pd'. set_of_items (\<lambda>_. True) elm nelems (length xs) list pd = Some (RC_OK, list', pd') \<and> as_inv list' \<and>
    as_elems list' = as_elems list @ coded_values xs \<and> pd_consumes pd (concat (map fst xs)) pd'"
  using assms
proof (induction xs arbitrary: list pd)
  case (Cons x xs)
  obtain bs c w where x: "x = (bs, c, w)" by (cases x) auto
  have "reads elm (bs, c, w)" "pd_bits pd = bs @ concat (map fst xs) @ rest" using Cons.prems x by auto
  from readsE [OF this(1) Cons.prems(5) this(2)] obtain n pd1 where
    1: "elm pd = Some (RC_OK, Some (w, n), pd1)" "0 < n \<longleftrightarrow> c" "pd_consumes pd bs pd1" "pd_inv pd1"
      "pd_bits pd1 = concat (map fst xs) @ rest" by metis
  from set_add_ok [OF Cons.prems(2), of "\<lambda>_. True" w] as_inv_length [OF Cons.prems(2)] Cons.prems(3)
  obtain list1 where 2: "asn_set_add (\<lambda>_. True) list (Some w) = Some (0, list1)" "as_inv list1" "as_elems list1 = as_elems list @ [w]"
    by auto
  from Cons.IH [of list1 pd1] Cons.prems 1(4,5) 2(2,3) obtain list' pd' where
    3: "set_of_items (\<lambda>_. True) elm nelems (length xs) list1 pd1 = Some (RC_OK, list', pd')" "as_inv list'"
      "as_elems list' = as_elems list @ coded_values (x # xs)" "pd_consumes pd1 (concat (map fst xs)) pd'"
    by (auto simp: x)
  have "\<not> (n = 0 \<and> 200 < nelems)" using Cons.prems(4) 1(2) x by auto
  with 1(1) 2(1) 3 pd_consumes_trans [OF 1(3) 3(4)] show ?case by (auto simp: x)
qed (auto simp: as_inv_def)

lemma set_of_fragments_ok:
  assumes "\<forall>x\<in>set xs. reads elm x" "as_inv list" "length (as_elems list) + length xs < 2 ^ 30"
    and "200 < length xs \<longrightarrow> (\<forall>x\<in>set xs. fst (snd x))" "pd_inv pd" "pd_bits pd = element_fragments (map fst xs) @ rest"
  shows "\<exists>list' pd'. set_of_chunks (\<lambda>_. True) elm (-1) repeat list pd = Some (RC_OK, list', pd') \<and> as_inv list' \<and>
    as_elems list' = as_elems list @ coded_values xs \<and> pd_consumes pd (element_fragments (map fst xs)) pd'"
  using assms
proof (induction "length xs" arbitrary: xs list pd repeat rule: less_induct)
  case less
  define n where "n = length xs"
  define u where "u = uper_length_unit n"
  define tl where "tl = (if n < 16384 then [] else if u = n then uper_length_bits 0 else element_fragments (map fst (drop u xs)))"
  have ul: "u \<le> n" using unit_bounds [of n] by (simp add: u_def)
  have frag: "element_fragments (map fst xs) = uper_length_bits n @ concat (map fst (take u xs)) @ tl"
    by (subst element_fragments.simps) (simp add: Let_def n_def u_def tl_def take_map drop_map)
  from get_length_ok [of pd n "concat (map fst (take u xs)) @ tl @ rest" 0] less.prems(5,6) obtain pd1 where
    1: "uper_get_length pd (-1) 0 = Some (int u, if n < 16384 then 0 else 1, pd1)"
      "pd_consumes pd (uper_length_bits n) pd1" "pd_bits pd1 = concat (map fst (take u xs)) @ tl @ rest"
    by (auto simp: frag u_def)
  have i1: "pd_inv pd1" using 1(2) by (simp add: pd_consumes_def)
  have lu: "length (take u xs) = u" using ul by (simp add: n_def)
  have "200 < int u \<longrightarrow> (\<forall>x\<in>set (take u xs). fst (snd x))" using less.prems(4) ul by (auto simp: n_def dest: in_set_takeD)
  moreover have "\<forall>x\<in>set (take u xs). reads elm x" using less.prems(1) by (auto dest: in_set_takeD)
  moreover have "length (as_elems list) + length (take u xs) < 2 ^ 30" using less.prems(3) ul lu by (simp add: n_def)
  ultimately obtain list2 pd2 where
    2: "set_of_items (\<lambda>_. True) elm (int u) u list pd1 = Some (RC_OK, list2, pd2)" "as_inv list2"
      "as_elems list2 = as_elems list @ coded_values (take u xs)" "pd_consumes pd1 (concat (map fst (take u xs))) pd2"
    using set_of_items_ok [of "take u xs" elm list "int u" pd1 "tl @ rest"] less.prems(2) i1 1(3) lu by auto
  have i2: "pd_inv pd2" and b2: "pd_bits pd2 = tl @ rest" using 2(4) 1(3) by (simp_all add: pd_consumes_def)
  have c12: "pd_consumes pd (uper_length_bits n @ concat (map fst (take u xs))) pd2" by (rule pd_consumes_trans [OF 1(2) 2(4)])
  have step: "set_of_chunks (\<lambda>_. True) elm (-1) repeat list pd =
      (if n < 16384 then Some (RC_OK, list2, pd2) else set_of_chunks (\<lambda>_. True) elm (-1) 1 list2 pd2)"
    by (subst set_of_chunks.simps) (simp add: 1(1) 2(1))
  show ?case
  proof (cases "n < 16384")
    case True
    then have "u = n" by (simp add: u_def uper_length_unit_def)
    with True step c12 2(2,3) show ?thesis by (simp add: frag tl_def n_def)
  next
    case False
    define xs' where "xs' = (if u = n then [] else drop u xs)"
    have tl: "tl = element_fragments (map fst xs')" and cat: "take u xs @ xs' = xs"
      using False by (auto simp: tl_def xs'_def n_def element_fragments.simps [of "[]"])
    have "0 < u" using False unit_bounds(1) [of n] by (simp add: u_def)
    then have lt: "length xs' < length xs" using False by (auto simp: xs'_def n_def)
    have "\<forall>x\<in>set xs'. reads elm x" "200 < length xs' \<longrightarrow> (\<forall>x\<in>set xs'. fst (snd x))"
      using less.prems(1,4) lt by (auto simp: xs'_def dest: in_set_dropD)
    moreover have "length (as_elems list2) + length xs' < 2 ^ 30"
      using less.prems(3) 2(3) arg_cong [OF cat, of length] lu by simp
    ultimately obtain list3 pd3 where
      "set_of_chunks (\<lambda>_. True) elm (-1) 1 list2 pd2 = Some (RC_OK, list3, pd3)" "as_inv list3"
      "as_elems list3 = as_elems list2 @ coded_values xs'" "pd_consumes pd2 (element_fragments (map fst xs')) pd3"
      using less.hyps [OF lt, of list2 pd2 1] 2(2) i2 b2 by (auto simp: tl)
    with False step pd_consumes_trans [OF c12] 2(3) arg_cong [OF cat, of coded_values] show ?thesis
      by (auto simp: frag tl)
  qed
qed

text \<open>The decoder of both types reads a list back.\<close>

lemma set_of_decode_ok:
  assumes "\<forall>x\<in>set xs. reads elm x" "list_readable xs" "list_bits (size_constraint tdc cs) (map fst xs) = Some bs"
    and "pd_inv pd" "pd_bits pd = bs @ rest"
  shows "\<exists>list pd'. SET_OF_decode_uper True (\<lambda>_. True) sz tdc cs elm pd = Some (RC_OK, Some (list, 0), pd') \<and> as_inv list \<and>
    as_elems list = coded_values xs \<and> pd_consumes pd bs pd'"
proof -
  define ct where "ct = size_constraint tdc cs"
  define new :: "'a asn_anonymous_set" where "new = as_new False"
  have n: "as_inv new" "as_elems new = []" by (simp_all add: new_def)
  have rd: "length xs < 2 ^ 30" "200 < length xs \<longrightarrow> (\<forall>x\<in>set xs. fst (snd x))" using assms(2) by (simp_all add: list_readable_def)
  define sized where "sized ct pd = (case ct of
               Some c \<Rightarrow>
                 if 0 \<le> ct_effective_bits c then do {
                   (n, pd) \<leftarrow> asn_get_few_bits pd (ct_effective_bits c);
                   if n < 0 then Some (True, n, pd)
                   else do { n \<leftarrow> s64 (n + ct_lower_bound c); Some (False, n, pd) } }
                 else Some (False, -1, pd)
             | None \<Rightarrow> Some (False, -1, pd))" for ct :: "asn_per_constraint option" and pd :: bit_data
  have body: "\<exists>nelems pd1 list pd'. sized ct pd = Some (False, nelems, pd1) \<and>
      set_of_chunks (\<lambda>_. True) elm nelems 0 new pd1 = Some (RC_OK, list, pd') \<and> as_inv list \<and>
      as_elems list = coded_values xs \<and> pd_consumes pd bs pd'"
    if b: "list_body ct (map fst xs) = Some bs" "pd_inv pd" "pd_bits pd = bs @ rest" for ct bs pd
  proof (cases "fixed_size ct")
    case False
    then have "bs = element_fragments (map fst xs)" "sized ct pd = Some (False, -1, pd)"
      using b(1) by (auto simp: fixed_size_def list_body_def sized_def split: option.splits)
    with set_of_fragments_ok [OF assms(1) n(1) _ rd(2) b(2), of rest 0] n(2) rd(1) b(3) show ?thesis by auto
  next
    case True
    then obtain c where c: "ct = Some c" "0 \<le> ct_effective_bits c" by (auto simp: fixed_size_def split: option.splits)
    define e where "e = nat (ct_effective_bits c)"
    define k where "k = nat (int (length xs) - ct_lower_bound c)"
    have e: "ct_effective_bits c = int e" "e \<le> 31" "ct_lower_bound c \<le> int (length xs)" "\<bar>ct_lower_bound c\<bar> < 2 ^ 31"
      "bs = be_bits e k @ concat (map fst xs)" "int (length xs) - ct_lower_bound c < 2 ^ e"
      using b(1) c by (auto simp: list_body_def e_def k_def split: if_splits)
    have k: "k < 2 ^ e" "int k + ct_lower_bound c = int (length xs)" using e(3,6) by (simp_all add: k_def nat_less_iff)
    from b(3) e(5) have pb: "pd_bits pd = be_bits e k @ concat (map fst xs) @ rest" by simp
    note g = get_number [OF b(2) pb e(2) e(1) k(1)]
    have "s64 (int (length xs)) = Some (int (length xs))" using rd(1) by (simp add: s64_def limits_defs)
    then have sd: "sized ct pd = Some (False, int (length xs), pd_skip e pd)" using c g(1) k(2) by (simp add: sized_def)
    from set_of_items_ok [OF assms(1) n(1) _ _ g(4,3), of "int (length xs)"] rd n(2) obtain list pd' where
      "set_of_items (\<lambda>_. True) elm (int (length xs)) (length xs) new (pd_skip e pd) = Some (RC_OK, list, pd')" "as_inv list"
      "as_elems list = coded_values xs" "pd_consumes (pd_skip e pd) (concat (map fst xs)) pd'" by auto
    with sd pd_consumes_trans [OF g(2)] e(5) show ?thesis
      by (auto simp: set_of_chunks.simps [of _ _ "int (length xs)"])
  qed
  obtain ext b ct' bs' where h: "bs = (if ext then [b] else []) @ bs'" "list_body ct' (map fst xs) = Some bs'"
    "ext = (case ct of Some c \<Rightarrow> ct_has c APC_EXTENSIBLE | None \<Rightarrow> False)" "ct' = (if ext \<and> b then None else ct)"
  proof (cases ct)
    case None
    with assms(3) show ?thesis by (intro that [of False False bs None]) (auto simp: list_bits_def ct_def)
  next
    case (Some c)
    show ?thesis
    proof (cases "ct_has c APC_EXTENSIBLE")
      case False
      with Some assms(3) show ?thesis by (intro that [of False False bs ct]) (auto simp: list_bits_def ct_def)
    next
      case True
      show ?thesis
        by (rule that [of True "\<not> (ct_lower_bound c \<le> int (length xs) \<and> int (length xs) \<le> ct_upper_bound c)" "tl bs"
              "if ct_lower_bound c \<le> int (length xs) \<and> int (length xs) \<le> ct_upper_bound c then ct else None"])
          (use Some True assms(3) in \<open>auto simp: list_bits_def ct_def split: if_splits\<close>)
    qed
  qed
  from h(1) assms(5) have "pd_bits pd = (if ext then [b] else []) @ bs' @ rest" by simp
  from get_ext [OF assms(4) this] obtain pd1 where
    x: "(if ext then asn_get_few_bits pd 1 else Some (0, pd)) = Some (of_bool (ext \<and> b), pd1)"
      "pd_consumes pd (if ext then [b] else []) pd1" "pd_inv pd1" "pd_bits pd1 = bs' @ rest" by blast
  from body [OF h(2) x(3,4)] obtain nelems pd2 list pd' where
    y: "sized ct' pd1 = Some (False, nelems, pd2)" "set_of_chunks (\<lambda>_. True) elm nelems 0 new pd2 = Some (RC_OK, list, pd')"
      "as_inv list" "as_elems list = coded_values xs" "pd_consumes pd1 bs' pd'" by blast
  have "(case ct of Some c \<Rightarrow> if ct_has c APC_EXTENSIBLE then asn_get_few_bits pd 1 else Some (0, pd) | None \<Rightarrow> Some (0, pd)) =
      Some (of_bool (ext \<and> b), pd1)"
    using x(1) h(3) by (cases ct) (simp_all split del: if_split)
  then have "SET_OF_decode_uper True (\<lambda>_. True) sz tdc cs elm pd = Some (RC_OK, Some (list, 0), pd')"
    unfolding SET_OF_decode_uper_def ct_def [symmetric] sized_def [symmetric] new_def [symmetric] Let_def
    using y(1,2) h(4) by (cases "ext \<and> b") auto
  with y(3,4) pd_consumes_trans [OF x(2) y(5)] show ?thesis by (auto simp: h(1))
qed

section \<open>Writing a list\<close>

lemma put_elements_ok:
  assumes "list_all2 (writes enc) vs bss" "\<And>i. i < length vs \<Longrightarrow> rd array (edx + i) = Some (Some (vs ! i))"
    and "po_ok grow_cb dyn_inv po"
  shows "po_puts grow_cb dyn_taken dyn_inv po 0 (concat bss) (put_elements enc array edx (length vs) 0 po)"
  using assms
proof (induction vs bss arbitrary: edx po rule: list_all2_induct)
  case Nil
  then show ?case by (simp add: po_puts_Nil)
next
  case (Cons v vs bs bss)
  from writesD [OF Cons.hyps(1) Cons.prems(2)] obtain po1 where
    1: "enc v po = Some (0, po1)" "po_ok grow_cb dyn_inv po1" "po_emits dyn_taken po bs po1"
    using dyn_never_refuses by (auto simp: po_puts_def)
  have "rd array (Suc edx + i) = Some (Some (vs ! i))" if "i < length vs" for i
    using Cons.prems(1) [of "Suc i"] that by simp
  from Cons.IH [OF this 1(2)] have "po_puts grow_cb dyn_taken dyn_inv po1 0 (concat bss) (put_elements enc array (Suc edx) (length vs) 0 po1)" .
  moreover have "rd array edx = Some (Some v)" using Cons.prems(1) [of 0] by simp
  ultimately show ?case using 1(1) po_emits_trans [OF 1(3)] unfolding po_puts_def by auto
qed

text \<open>The loop over the chunks with any body that writes the bits of the elements of a chunk.\<close>

definition items_ok :: "(nat \<Rightarrow> nat \<Rightarrow> int \<Rightarrow> enc_dyn_arg bit_outp \<Rightarrow> (int \<times> enc_dyn_arg bit_outp) option) \<Rightarrow> bool list list \<Rightarrow> bool" where
  "items_ok items bss \<longleftrightarrow> (\<forall>edx n po. edx + n \<le> length bss \<longrightarrow> po_ok grow_cb dyn_inv po \<longrightarrow>
     po_puts grow_cb dyn_taken dyn_inv po 0 (concat (take n (drop edx bss))) (items edx n 0 po))"

lemma items_okE:
  assumes "items_ok items bss" "edx + n \<le> length bss" "po_ok grow_cb dyn_inv po"
  obtains po' where "items edx n 0 po = Some (0, po')" "po_ok grow_cb dyn_inv po'"
    "po_emits dyn_taken po (concat (take n (drop edx bss))) po'"
  using assms dyn_never_refuses unfolding items_ok_def po_puts_def by blast

lemma put_length_dyn:
  assumes "po_ok grow_cb dyn_inv po"
  obtains po' where "uper_put_length po n = Some (int (uper_length_unit n), of_bool (16384 \<le> n \<and> uper_length_unit n = n), po')"
    "po_ok grow_cb dyn_inv po'" "po_emits dyn_taken po (uper_length_bits n) po'"
proof -
  from dyn.put_length_ok [OF assms, of n] dyn_never_refuses obtain po' where
    "uper_put_length po n = Some (int (uper_length_unit n), if 16384 \<le> n \<and> n div 16384 \<le> 4 \<and> n mod 16384 = 0 then 1 else 0, po')"
    "po_ok grow_cb dyn_inv po'" "po_emits dyn_taken po (uper_length_bits n) po'" by blast
  moreover have "(if 16384 \<le> n \<and> n div 16384 \<le> 4 \<and> n mod 16384 = 0 then 1 else 0) = (of_bool (16384 \<le> n \<and> uper_length_unit n = n) :: int)"
    using unit_exact [of n] by auto
  ultimately show thesis using that by simp
qed

lemma put_chunks_ok:
  assumes "items_ok items bss" "po_ok grow_cb dyn_inv po" "edx < length bss"
  shows "po_puts grow_cb dyn_taken dyn_inv po 0 (element_fragments (drop edx bss))
    (put_chunks items False (int (length bss)) edx 0 po)"
  using assms(2,3)
proof (induction "length bss - edx" arbitrary: edx po rule: less_induct)
  case less
  define n where "n = length bss - edx"
  define u where "u = uper_length_unit n"
  have n: "0 < n" "length (drop edx bss) = n" "nat (int (length bss) - int edx) = n" using less.prems(2) by (simp_all add: n_def)
  have u: "0 < u" "u \<le> n" using unit_bounds [of n] n by (simp_all add: u_def)
  from put_length_dyn [OF less.prems(1), of n] obtain po1 where
    1: "uper_put_length po n = Some (int u, of_bool (16384 \<le> n \<and> u = n), po1)" "po_ok grow_cb dyn_inv po1"
      "po_emits dyn_taken po (uper_length_bits n) po1" unfolding u_def by blast
  have "edx + u \<le> length bss" using u by (simp add: n_def)
  from items_okE [OF assms(1) this 1(2)] obtain po2 where
    2: "items edx u 0 po1 = Some (0, po2)" "po_ok grow_cb dyn_inv po2" "po_emits dyn_taken po1 (concat (take u (drop edx bss))) po2" .
  note e2 = po_emits_trans [OF 1(3) 2(3)]
  define tl where "tl = (if n < 16384 then [] else if u = n then uper_length_bits 0 else element_fragments (drop u (drop edx bss)))"
  have frag: "element_fragments (drop edx bss) = (uper_length_bits n @ concat (take u (drop edx bss))) @ tl"
    by (subst element_fragments.simps) (simp only: Let_def n(2) u_def [symmetric] tl_def append_assoc)
  define fin where "fin = put_chunks items False (int (length bss)) (edx + u) 0"
  have step: "put_chunks items False (int (length bss)) edx 0 po =
    (if 16384 \<le> n \<and> u = n then do { (r, e, po) \<leftarrow> uper_put_length po2 0; Some (r, po) } else Some (0, po2)) \<bind>
      (\<lambda>(r, po). if r \<noteq> 0 then Some (-1, po) else fin po)"
    using less.prems(2) u by (subst put_chunks.simps) (simp add: n(3) 1(1) 2(1) fin_def cong del: if_weak_cong)
  have last: "fin po = Some (0, po)" if "u = n" for po
    using that less.prems(2) unfolding fin_def by (subst put_chunks.simps) (simp add: n_def)
  have "po_puts grow_cb dyn_taken dyn_inv po2 0 tl
     ((if 16384 \<le> n \<and> u = n then do { (r, e, po) \<leftarrow> uper_put_length po2 0; Some (r, po) } else Some (0, po2)) \<bind>
      (\<lambda>(r, po). if r \<noteq> 0 then Some (-1, po) else fin po))"
  proof (cases "u = n")
    case True
    have "po_puts grow_cb dyn_taken dyn_inv po2 0 (tl @ []) ((if 16384 \<le> n \<and> u = n then do { (r, e, po) \<leftarrow> uper_put_length po2 0; Some (r, po) } else Some (0, po2)) \<bind>
        (\<lambda>(r, po). if r \<noteq> 0 then Some (-1, po) else fin po))"
      by (rule po_puts_then) (use True dyn.put_length_zero [OF 2(2)] po_puts_Nil [OF 2(2)] last po_puts_Nil in \<open>auto simp: tl_def\<close>)
    then show ?thesis by simp
  next
    case False
    then have "16384 \<le> n" using u(2) by (auto simp: u_def uper_length_unit_def split: if_splits)
    moreover have "po_puts grow_cb dyn_taken dyn_inv po2 0 (element_fragments (drop (edx + u) bss)) (fin po2)"
      unfolding fin_def by (rule less.hyps) (use u False n_def 2(2) in auto)
    ultimately show ?thesis using False by (simp add: tl_def add.commute)
  qed
  with e2 show ?case unfolding frag step po_puts_def using po_emits_trans [OF e2] by auto
qed

lemma list_body_puts:
  assumes items: "items_ok items bss" and b: "list_body ct bss = Some bs" and po: "po_ok grow_cb dyn_inv po"
  shows "po_puts grow_cb dyn_taken dyn_inv po 0 bs (do {
       (r, po) \<leftarrow> put_fixed_size ct (int (length bss)) po;
       if r \<noteq> 0 then Some (-1, po)
       else if \<not> fixed_size ct \<and> int (length bss) = 0 then do {
         (r, e, po) \<leftarrow> uper_put_length po 0;
         Some (if r \<noteq> 0 then -1 else 0, po) }
       else put_chunks items (fixed_size ct) (int (length bss)) 0 0 po })"
proof (cases "fixed_size ct")
  case False
  then have s: "bs = element_fragments bss" "put_fixed_size ct (int (length bss)) po = Some (0, po)"
    using b by (auto simp: fixed_size_def list_body_def put_fixed_size_def split: option.splits)
  show ?thesis
  proof (cases "bss = []")
    case True
    then have "bs = uper_length_bits 0" using s(1) by (simp add: element_fragments.simps [of "[]"])
    moreover from put_length_dyn [OF po, of 0] obtain po' where
      "uper_put_length po 0 = Some (0, 0, po')" "po_ok grow_cb dyn_inv po'" "po_emits dyn_taken po (uper_length_bits 0) po'"
      by (auto simp: uper_length_unit_def)
    ultimately show ?thesis using False s(2) True by (simp add: po_puts_def)
  next
    case ne: False
    with put_chunks_ok [OF items po, of 0] False s show ?thesis by simp
  qed
next
  case True
  then obtain c where c: "ct = Some c" "0 \<le> ct_effective_bits c" by (auto simp: fixed_size_def split: option.splits)
  define e where "e = nat (ct_effective_bits c)"
  define k where "k = nat (int (length bss) - ct_lower_bound c)"
  have e: "ct_effective_bits c = int e" "e \<le> 31" "ct_lower_bound c \<le> int (length bss)" "bs = be_bits e k @ concat bss"
    using b c by (auto simp: list_body_def e_def k_def split: if_splits)
  have k: "(of_int (int (length bss) - ct_lower_bound c) :: u32) = of_nat k" using e(3) by (simp add: k_def)
  have put: "po_puts grow_cb dyn_taken dyn_inv po 0 (be_bits e k) (put_fixed_size ct (int (length bss)) po)"
    using po_puts_result [OF dyn.put_number [OF po e(1,2), of k]] c k by (simp add: put_fixed_size_def del: of_int_diff)
  have rest: "po_puts grow_cb dyn_taken dyn_inv po1 0 (concat bss) (put_chunks items True (int (length bss)) 0 0 po1)"
    if po1: "po_ok grow_cb dyn_inv po1" for po1
  proof (cases "bss = []")
    case True
    with po_puts_Nil [OF po1] show ?thesis by (subst put_chunks.simps) simp
  next
    case False
    from items_okE [OF items _ po1, of 0 "length bss"] obtain po2 where
      2: "items 0 (length bss) 0 po1 = Some (0, po2)" "po_ok grow_cb dyn_inv po2" "po_emits dyn_taken po1 (concat bss) po2" by auto
    have fin: "put_chunks items True (int (length bss)) (length bss) 0 po2 = Some (0, po2)" by (subst put_chunks.simps) simp
    have "put_chunks items True (int (length bss)) 0 0 po1 = Some (0, po2)"
      using False 2(1) fin by (subst put_chunks.simps) simp
    with 2 show ?thesis by (simp add: po_puts_def)
  qed
  from po_puts_then [OF put rest] show ?thesis by (simp only: e(4) True not_True_eq_False simp_thms if_False)
qed

lemma list_bits_puts:
  assumes items: "items_ok items bss" and b: "list_bits ct bss = Some bs" and po: "po_ok grow_cb dyn_inv po"
  shows "po_puts grow_cb dyn_taken dyn_inv po 0 bs (do {
     (r, ct, po) \<leftarrow> put_size_root ct (int (length bss)) po;
     if r \<noteq> 0 then Some (-1, po)
     else do {
       (r, po) \<leftarrow> put_fixed_size ct (int (length bss)) po;
       if r \<noteq> 0 then Some (-1, po)
       else if \<not> fixed_size ct \<and> int (length bss) = 0 then do {
         (r, e, po) \<leftarrow> uper_put_length po 0;
         Some (if r \<noteq> 0 then -1 else 0, po) }
       else put_chunks items (fixed_size ct) (int (length bss)) 0 0 po } })"
proof -
  obtain ext b ct' bs' where h: "bs = (if ext then [b] else []) @ bs'" "list_body ct' bss = Some bs'"
    "put_size_root ct (int (length bss)) po = do {
       (r, po) \<leftarrow> (if ext then asn_put_few_bits po (if b then 1 else 0) 1 else Some (0, po));
       Some (if r \<noteq> 0 then -1 else 0, ct', po) }"
  proof (cases ct)
    case None
    with b show ?thesis by (intro that [of False False bs None]) (auto simp: list_bits_def put_size_root_def)
  next
    case (Some c)
    show ?thesis
    proof (cases "ct_has c APC_EXTENSIBLE")
      case False
      with Some b show ?thesis
        by (intro that [of False False bs ct]) (auto simp: list_bits_def put_size_root_def list_body_def split: if_splits)
    next
      case True
      define root where "root \<longleftrightarrow> ct_lower_bound c \<le> int (length bss) \<and> int (length bss) \<le> ct_upper_bound c"
      have nr: "(int (length bss) < ct_lower_bound c \<or> ct_upper_bound c < int (length bss)) \<longleftrightarrow> \<not> root" by (auto simp: root_def)
      have p: "put_size_root ct (int (length bss)) po = do {
         (r, po) \<leftarrow> asn_put_few_bits po (if \<not> root then 1 else 0) 1;
         Some (if r \<noteq> 0 then -1 else 0, if root then ct else None, po) }"
        by (simp only: put_size_root_def Some True if_True nr Let_def option.case if_not_P if_P split: if_split) simp
      show ?thesis
      proof (rule that [of True "\<not> root" "tl bs" "if root then ct else None"])
        show "bs = (if True then [\<not> root] else []) @ tl bs" "list_body (if root then ct else None) bss = Some (tl bs)"
          using b Some True by (cases root; auto simp: list_bits_def root_def)+
      qed (simp add: p)
    qed
  qed
  define body where "body ct po = do {
       (r, po) \<leftarrow> put_fixed_size ct (int (length bss)) po;
       if r \<noteq> 0 then Some (-1, po)
       else if \<not> fixed_size ct \<and> int (length bss) = 0 then do {
         (r, e, po) \<leftarrow> uper_put_length po 0;
         Some (if r \<noteq> 0 then -1 else 0, po) }
       else put_chunks items (fixed_size ct) (int (length bss)) 0 0 po }" for ct po
  have "po_puts grow_cb dyn_taken dyn_inv po 0 bs ((if ext then asn_put_few_bits po (if b then 1 else 0) 1 else Some (0, po)) \<bind>
      (\<lambda>(r, po). if r \<noteq> 0 then Some (-1, po) else body ct' po))"
    unfolding h(1) body_def by (rule po_puts_then [OF dyn.put_ext [OF po, of ext b] list_body_puts [OF items h(2)]])
  also have "(if ext then asn_put_few_bits po (if b then 1 else 0) 1 else Some (0, po)) \<bind>
      (\<lambda>(r, po). if r \<noteq> 0 then Some (-1, po) else body ct' po) =
    put_size_root ct (int (length bss)) po \<bind> (\<lambda>(r, ct, po). if r \<noteq> 0 then Some (-1, po) else body ct po)"
    unfolding h(3) by (cases "if ext then asn_put_few_bits po (if b then 1 else 0) 1 else Some (0, po)") auto
  finally show ?thesis by (simp only: body_def)
qed

lemma sequence_of_encode_ok:
  assumes "list_all2 (writes enc) (as_elems list) bss" "as_inv list" "list_bits (size_constraint tdc cs) bss = Some bs"
  shows "writes (SEQUENCE_OF_encode_uper tdc cs enc) list bs"
  unfolding writes_def
proof (intro allI impI)
  fix po assume po: "po_ok grow_cb dyn_inv po"
  have len: "as_count list = int (length bss)" using as_inv_length [OF assms(2)] list_all2_lengthD [OF assms(1)] by simp
  have "items_ok (put_elements enc (as_array list)) bss"
    unfolding items_ok_def
  proof (intro allI impI)
    fix edx n po assume e: "edx + n \<le> length bss" "po_ok grow_cb dyn_inv po"
    then have l: "length (take n (drop edx (as_elems list))) = n" using list_all2_lengthD [OF assms(1)] by simp
    have all: "list_all2 (writes enc) (take n (drop edx (as_elems list))) (take n (drop edx bss))"
      using assms(1) by (simp add: list_all2_takeI list_all2_dropI)
    have "rd (as_array list) (edx + i) = Some (Some (take n (drop edx (as_elems list)) ! i))"
      if "i < length (take n (drop edx (as_elems list)))" for i
    proof -
      have "edx + i < length (as_elems list)" "edx \<le> length (as_elems list)" "i < n" using that by auto
      then show ?thesis using as_elems_nth(1) [OF assms(2), of "edx + i"] by (simp only: nth_take nth_drop)
    qed
    from put_elements_ok [OF all this e(2)] l
    show "po_puts grow_cb dyn_taken dyn_inv po 0 (concat (take n (drop edx bss))) (put_elements enc (as_array list) edx n 0 po)"
      by simp
  qed
  from list_bits_puts [OF this assms(3) po] show "po_puts grow_cb dyn_taken dyn_inv po 0 bs (SEQUENCE_OF_encode_uper tdc cs enc list po)"
    by (simp only: SEQUENCE_OF_encode_uper_def len)
qed
end
