(* ===== verification/Set_Of_Sorted.thy ===== *)
theory Set_Of_Sorted
  imports Uper_Set_Of
begin
unbundle bit_operations_syntax

text \<open>
  SET OF in canonical unaligned PER, \<open>SET_OF_encode_uper\<close> of \<open>skeletons/constr_SET_OF_uper.c\<close>, with the
  sorted encodings of \<open>constr_SET_OF.c\<close>; and the properties of both kinds of list. What a list needs
  of its element is the locale \<open>uper_element\<close>, interpreted on \<open>NativeInteger\<close>, and for a SET OF its
  extension \<open>uper_set_element\<close>, interpreted on the types with native values.
\<close>

section \<open>The sorted encodings of a SET OF\<close>

text \<open>\<open>struct _el_buffer\<close> of \<open>constr_SET_OF.h\<close> and the callback that fills it.\<close>

record el_buffer =
  el_buf :: "u8 list"
  el_length :: nat
  el_bits_unused :: nat
  el_allocated_size :: nat

function grow_el :: "nat \<Rightarrow> nat \<Rightarrow> nat" where
  "grow_el need new_size =
     (if new_size = 0 then 0
      else let new_size = push_bit 2 new_size in if new_size < need then grow_el need new_size else new_size)"
  by pat_completeness auto
termination
  by (relation "measure (\<lambda>(need, n). need - n)") (auto simp: push_bit_eq_mult)

declare grow_el.simps [simp del]

definition el_grow :: "(nat \<Rightarrow> bool) \<Rightarrow> el_buffer \<Rightarrow> nat \<Rightarrow> el_buffer option" where
  "el_grow can_alloc el sz =
     (if el_allocated_size el < el_length el + sz then
        let new_size = grow_el (el_length el + sz) (if el_allocated_size el \<noteq> 0 then el_allocated_size el else 8)
        in if can_alloc new_size
           then Some (el\<lparr>el_buf := el_buf el @ replicate (new_size - length (el_buf el)) 0, el_allocated_size := new_size\<rparr>)
           else None
      else Some el)"

definition el_addbytes :: "(nat \<Rightarrow> bool) \<Rightarrow> el_buffer consumer" where
  "el_addbytes can_alloc el bs =
     (case el_grow can_alloc el (length bs) of
        None \<Rightarrow> Some (-1, el)
      | Some el \<Rightarrow> do {
          m \<leftarrow> mem_store (el_buf el) (el_length el) bs;
          Some (0, el\<lparr>el_buf := m, el_length := el_length el + length bs\<rparr>) })"

definition assert_unused_bits :: "el_buffer \<Rightarrow> unit option" where
  "assert_unused_bits p =
     (if el_length p \<noteq> 0 then do {
        b \<leftarrow> rd (el_buf p) (el_length p - 1);
        c_assert (ucast b AND NOT (push_bit (el_bits_unused p) (0xFF :: u32)) = 0) }
      else c_assert (el_bits_unused p = 0))"

definition el_buf_cmp :: "el_buffer \<Rightarrow> el_buffer \<Rightarrow> int option" where
  "el_buf_cmp a b = do {
     let common_len = (if el_length a < el_length b then el_length a else el_length b);
     ret \<leftarrow> (if el_buf a \<noteq> [] \<and> el_buf b \<noteq> [] then do {
               x \<leftarrow> mem_load (el_buf a) 0 common_len;
               y \<leftarrow> mem_load (el_buf b) 0 common_len;
               Some (memcmp x y) }
             else Some 0);
     if ret = 0 then do {
       let ret = (if el_length a < el_length b then -1 else if el_length b < el_length a then 1 else ret);
       u \<leftarrow> assert_unused_bits a;
       u \<leftarrow> assert_unused_bits b;
       Some ret }
     else Some ret }"

text \<open>
  \<open>qsort\<close>: an insertion sort that calls the comparison function. The C standard leaves the order of
  equal elements open; here it is that of the array.
\<close>

primrec qsort_insert :: "('a \<Rightarrow> 'a \<Rightarrow> int option) \<Rightarrow> 'a \<Rightarrow> 'a list \<Rightarrow> 'a list option" where
  "qsort_insert cmp x [] = Some [x]"
| "qsort_insert cmp x (y # ys) = do {
     c \<leftarrow> cmp x y;
     if c \<le> 0 then Some (x # y # ys) else do { zs \<leftarrow> qsort_insert cmp x ys; Some (y # zs) } }"

primrec qsort :: "('a \<Rightarrow> 'a \<Rightarrow> int option) \<Rightarrow> 'a list \<Rightarrow> 'a list option" where
  "qsort cmp [] = Some []"
| "qsort cmp (x # xs) = do { ys \<leftarrow> qsort cmp xs; qsort_insert cmp x ys }"

text \<open>
  \<open>encode_member\<close> is the branch of the \<open>switch\<close> over the encoding method; \<open>soes_cuper\<close> that of unaligned
  PER. \<open>Some None\<close> is the null pointer that tells of a failure.
\<close>

definition el_empty :: el_buffer where
  "el_empty = \<lparr>el_buf = [], el_length = 0, el_bits_unused = 0, el_allocated_size = 0\<rparr>"

definition soes_cuper :: "(nat \<Rightarrow> bool) \<Rightarrow> ('v, el_buffer) uper_encoder option \<Rightarrow> 'v \<Rightarrow> el_buffer \<Rightarrow> (int \<times> el_buffer) option" where
  "soes_cuper can_alloc op memb_ptr encoding_el = do {
     (encoded, el) \<leftarrow> uper_encode op memb_ptr (Some (el_addbytes can_alloc)) encoding_el;
     if encoded \<noteq> -1 then do {
       u \<leftarrow> c_assert (int (el_length el) = (encoded + 7) div 8);
       Some (encoded, el\<lparr>el_bits_unused := nat ((8 - encoded mod 8) AND 7)\<rparr>) }
     else Some (encoded, el) }"

fun encode_elements ::
  "('v \<Rightarrow> el_buffer \<Rightarrow> (int \<times> el_buffer) option) \<Rightarrow> 'v option list \<Rightarrow> nat \<Rightarrow> nat \<Rightarrow> el_buffer list option option" where
  "encode_elements encode_member array edx 0 = Some (Some [])"
| "encode_elements encode_member array edx (Suc n) = do {
     memb_ptr \<leftarrow> rd array edx;
     case memb_ptr of
       None \<Rightarrow> Some None
     | Some v \<Rightarrow> do {
         (encoded, el) \<leftarrow> encode_member v el_empty;
         if encoded < 0 then Some None
         else do {
           els \<leftarrow> encode_elements encode_member array (edx + 1) n;
           Some (map_option (\<lambda>els. el # els) els) } } }"

definition SET_OF__encode_sorted ::
  "(nat \<Rightarrow> bool) \<Rightarrow> ('v \<Rightarrow> el_buffer \<Rightarrow> (int \<times> el_buffer) option) \<Rightarrow> 'v asn_anonymous_set \<Rightarrow> el_buffer list option option" where
  "SET_OF__encode_sorted can_alloc encode_member list =
     (if \<not> can_alloc (nat (as_count list) * 32) then Some None
      else do {
        els \<leftarrow> encode_elements encode_member (as_array list) 0 (nat (as_count list));
        case els of
          None \<Rightarrow> Some None
        | Some els \<Rightarrow> do { sorted \<leftarrow> qsort el_buf_cmp els; Some (Some sorted) } })"

text \<open>
  The loop over the elements of a chunk. A failed write leaves the loop only: the caller goes on as
  if the chunk had been written. A null pointer in place of the encodings is a fault.
\<close>

fun put_encoded :: "el_buffer list option \<Rightarrow> nat \<Rightarrow> nat \<Rightarrow> int \<Rightarrow> 'k bit_outp \<Rightarrow> (int \<times> 'k bit_outp) option" where
  "put_encoded encoded_els edx 0 er po = Some (er, po)"
| "put_encoded encoded_els edx (Suc n) er po = do {
     els \<leftarrow> encoded_els;
     el \<leftarrow> rd els edx;
     (r, po) \<leftarrow> asn_put_many_bits po (el_buf el) (8 * int (el_length el) - int (el_bits_unused el));
     if r < 0 then Some (er, po) else put_encoded encoded_els (edx + 1) n er po }"

definition SET_OF_encode_uper ::
  "(nat \<Rightarrow> bool) \<Rightarrow> asn_per_constraints option \<Rightarrow> asn_per_constraints option \<Rightarrow> ('v, el_buffer) uper_encoder option \<Rightarrow>
     ('v asn_anonymous_set, 'k) uper_encoder" where
  "SET_OF_encode_uper can_alloc td_constraints constraints op list po = do {
     (r, ct, po) \<leftarrow> put_size_root (size_constraint td_constraints constraints) (as_count list) po;
     if r \<noteq> 0 then Some (-1, po)
     else do {
       (r, po) \<leftarrow> put_fixed_size ct (as_count list) po;
       if r \<noteq> 0 then Some (-1, po)
       else if \<not> fixed_size ct \<and> as_count list = 0 then do {
         (r, e, po) \<leftarrow> uper_put_length po 0;
         Some (if r \<noteq> 0 then -1 else 0, po) }
       else do {
         encoded_els \<leftarrow> SET_OF__encode_sorted can_alloc (soes_cuper can_alloc op) list;
         put_chunks (put_encoded encoded_els) (fixed_size ct) (as_count list) 0 0 po } } }"

section \<open>The encodings\<close>

definition el_inv :: "el_buffer \<Rightarrow> bool" where
  "el_inv el \<longleftrightarrow> length (el_buf el) = el_allocated_size el \<and> el_length el \<le> el_allocated_size el"

definition el_taken :: "el_buffer \<Rightarrow> u8 list" where
  "el_taken el = take (el_length el) (el_buf el)"

lemma grow_el_ge: "0 < n \<Longrightarrow> need \<le> grow_el need n"
  by (induction need n rule: grow_el.induct) (subst grow_el.simps, auto simp: Let_def push_bit_eq_mult)

lemma el_grow_room:
  assumes "el_inv el" "el_grow ca el n = Some el'"
  shows "el_inv el' \<and> el_length el' = el_length el \<and> el_taken el' = el_taken el \<and> el_length el' + n \<le> el_allocated_size el'"
  using assms grow_el_ge [of "if el_allocated_size el \<noteq> 0 then el_allocated_size el else 8" "el_length el + n"]
  by (auto simp: el_grow_def el_inv_def el_taken_def Let_def split: if_splits)

lemma el_addbytes_step:
  assumes "el_inv el"
  shows "\<exists>r el'. el_addbytes ca el bs = Some (r, el') \<and> el_inv el' \<and> (0 \<le> r \<longrightarrow> el_taken el' = el_taken el @ bs) \<and>
    (r = 0 \<or> r = -1 \<and> \<not> (\<forall>n. ca n))"
proof (cases "el_grow ca el (length bs)")
  case None
  with assms show ?thesis by (auto simp: el_addbytes_def el_grow_def Let_def split: if_splits)
next
  case (Some el1)
  note g = el_grow_room [OF assms Some]
  then obtain m where m: "mem_store (el_buf el1) (el_length el1) bs = Some m" by (auto simp: mem_store_def el_inv_def)
  from mem_store_length [OF m] mem_store_take [OF m] g Some m show ?thesis
    by (auto simp: el_addbytes_def el_inv_def el_taken_def)
qed

interpretation el: bytes_consumer "el_addbytes can_alloc" el_taken el_inv
proof unfold_locales
  fix k bs assume "el_inv k"
  then show "\<exists>r k'. el_addbytes can_alloc k bs = Some (r, k') \<and> el_inv k'"
    using el_addbytes_step [of k can_alloc bs] by blast
next
  fix k bs r k' assume "el_inv k" "el_addbytes can_alloc k bs = Some (r, k')" "0 \<le> r"
  then show "el_taken k' = el_taken k @ bs" using el_addbytes_step [of k can_alloc bs] by auto
qed

abbreviation "el_cb \<equiv> el_addbytes (\<lambda>_. True)"

lemma el_never_refuses: "\<not> cb_refuses el_cb el_inv"
proof
  assume "cb_refuses el_cb el_inv"
  then obtain k bs r k' where "el_inv k" "el_cb k bs = Some (r, k')" "r < 0" by (auto simp: cb_refuses_def)
  with el_addbytes_step [of k "\<lambda>_. True" bs] show False by auto
qed

definition el_writes :: "('v, el_buffer) uper_encoder \<Rightarrow> 'v \<Rightarrow> bool list \<Rightarrow> bool" where
  "el_writes encoder v bs \<longleftrightarrow> (\<forall>po. po_ok el_cb el_inv po \<longrightarrow> po_puts el_cb el_taken el_inv po 0 bs (encoder v po))"

text \<open>The buffer holds the bits, filled up with zero bits to octets.\<close>

definition el_holds :: "el_buffer \<Rightarrow> bool list \<Rightarrow> bool" where
  "el_holds el bs \<longleftrightarrow> el_inv el \<and> el_taken el = left_octets bs \<and> el_length el = (length bs + 7) div 8 \<and>
     el_bits_unused el = flush_pad (length bs)"

lemma el_holdsD:
  assumes "el_holds el bs"
  shows "take (el_length el) (el_buf el) = left_octets bs" "el_length el = length (left_octets bs)"
    "el_length el \<le> length (el_buf el)" "el_bits_unused el = flush_pad (length bs)"
proof -
  show "take (el_length el) (el_buf el) = left_octets bs" using assms unfolding el_holds_def el_taken_def by blast
qed (use assms in \<open>simp_all add: el_holds_def el_inv_def\<close>)

lemma soes_cuper_ok:
  assumes "el_writes enc v bs"
  shows "\<exists>el. soes_cuper (\<lambda>_. True) (Some enc) v el_empty = Some (int (length bs), el) \<and> el_holds el bs"
proof -
  have e: "el_inv el_empty" "el_taken el_empty = []" by (simp_all add: el_inv_def el_taken_def el_empty_def)
  have np: "r \<le> 0" if "el_inv k" "el_cb k xs = Some (r, k')" for k xs r k'
    using el_addbytes_step [OF that(1), of "\<lambda>_. True" xs] that(2) by auto
  have "\<exists>r key'. uper_encode (Some enc) v (Some el_cb) el_empty = Some (r, key') \<and> el_inv key' \<and>
    (r = int (length bs) \<and> el_taken key' = el_taken el_empty @ left_octets bs \<or> r = -1 \<and> cb_refuses el_cb el_inv)"
    by (rule el.uper_encode_ok) (use assms e np po_start_ok in \<open>auto simp: el_writes_def\<close>)
  with el_never_refuses e(2) obtain el where
    u: "uper_encode (Some enc) v (Some el_cb) el_empty = Some (int (length bs), el)" "el_inv el" "el_taken el = left_octets bs"
    by auto
  have l: "el_length el = (length bs + 7) div 8"
    using arg_cong [OF u(3), of length] u(2) by (simp add: el_taken_def el_inv_def)
  have "(int (length bs) + 7) div 8 = int ((length bs + 7) div 8)" by (simp add: zdiv_int)
  moreover have "nat ((8 - int (length bs) mod 8) AND 7) = flush_pad (length bs)"
  proof -
    define k where "k = length bs mod 8"
    have k: "k < 8" "int (length bs) mod 8 = int k" by (simp_all add: k_def zmod_int)
    show ?thesis
    proof (cases "k = 0")
      case True
      then show ?thesis unfolding k(2) flush_pad_cases(1) k_def [symmetric] by (simp add: and_7_mod_8)
    next
      case False
      have "(8 - int k) mod 8 = 8 - int k" by (rule mod_pos_pos_trivial) (use False k(1) in auto)
      then show ?thesis unfolding k(2) flush_pad_cases(1) k_def [symmetric] and_7_mod_8 using False k(1) by (simp only: if_False)
    qed
  qed
  ultimately show ?thesis using u l
    by (simp add: soes_cuper_def el_holds_def el_inv_def el_taken_def)
qed

text \<open>The comparison is the lexicographic order of the padded encodings.\<close>

lemma memcmp_lex:
  fixes xs ys :: "u8 list"
  defines "k \<equiv> min (length xs) (length ys)"
  shows "(memcmp (take k xs) (take k ys) < 0 \<or> memcmp (take k xs) (take k ys) = 0 \<and> length xs \<le> length ys) \<longleftrightarrow> xs \<le> ys"
    and "memcmp (take k xs) (take k ys) = 0 \<and> length xs = length ys \<longleftrightarrow> xs = ys"
proof -
  have "(memcmp (take k xs) (take k ys) < 0 \<or> memcmp (take k xs) (take k ys) = 0 \<and> length xs \<le> length ys \<longleftrightarrow> xs \<le> ys) \<and>
    (memcmp (take k xs) (take k ys) = 0 \<and> length xs = length ys \<longleftrightarrow> xs = ys)"
    unfolding k_def
  proof (induction xs ys rule: memcmp.induct)
    case (1 x xs y ys)
    then show ?case by (cases "x < y"; cases "y < x") auto
  qed auto
  then show "(memcmp (take k xs) (take k ys) < 0 \<or> memcmp (take k xs) (take k ys) = 0 \<and> length xs \<le> length ys) \<longleftrightarrow> xs \<le> ys"
    and "memcmp (take k xs) (take k ys) = 0 \<and> length xs = length ys \<longleftrightarrow> xs = ys" by blast+
qed

lemma el_unused_ok:
  assumes "el_holds el bs"
  shows "assert_unused_bits el = Some ()"
proof (cases "bs = []")
  case True
  with assms show ?thesis by (simp add: assert_unused_bits_def el_holds_def flush_pad_def)
next
  case False
  define n where "n = (length bs + 7) div 8"
  define p where "p = flush_pad (length bs)"
  define b where "b = left_octets bs ! (n - 1)"
  have n: "0 < n" "el_length el = n" "length (left_octets bs) = n"
    using False assms by (auto simp: el_holds_def n_def div_greater_zero_iff Suc_le_eq length_greater_0_conv)
  have p: "p < 8" "el_bits_unused el = p" using assms flush_pad_cases(2) by (simp_all add: el_holds_def p_def)
  have r: "rd (el_buf el) (n - 1) = Some b"
  proof -
    have t: "take n (el_buf el) = left_octets bs" "n \<le> length (el_buf el)"
      using el_holdsD(1,3) [OF assms] unfolding n(2) by blast+
    then show ?thesis using n(1) unfolding b_def t(1) [symmetric] by (simp add: rd_def)
  qed
  have "octets_bits (left_octets bs) = bs @ replicate p False" by (simp add: octets_bits_left_octets p_def flush_pad_octets)
  moreover have "octets_bits (left_octets bs) = octets_bits (take (n - 1) (left_octets bs)) @ be_bits 8 (unat b)"
  proof -
    have "left_octets bs = take (n - 1) (left_octets bs) @ [b]"
      using n by (metis Suc_diff_1 b_def lessI take_Suc_conv_app_nth take_all order_refl)
    then show ?thesis by (metis octets_bits_Cons octets_bits_Nil octets_bits_append append_Nil2)
  qed
  ultimately have "drop (8 - p) (be_bits 8 (unat b)) = replicate p False"
  proof -
    assume a: "octets_bits (left_octets bs) = bs @ replicate p False"
      "octets_bits (left_octets bs) = octets_bits (take (n - 1) (left_octets bs)) @ be_bits 8 (unat b)"
    define l where "l = length (octets_bits (left_octets bs))"
    have "8 * n = length bs + p" using arg_cong [OF a(1), of length] n(3) by simp
    then have "drop (8 * (n - 1) + (8 - p)) (octets_bits (left_octets bs)) = replicate p False"
      unfolding a(1) using n(1) p(1) by (simp add: algebra_simps)
    then show ?thesis unfolding a(2) using n(3) p(1) by simp
  qed
  then have "be_bits p (unat b) = be_bits p 0" using p(1) by (simp add: drop_be_bits)
  then have "unat b mod 2 ^ p = 0" by (metis be_val_be_bits mod_0)
  then have "(ucast b :: u32) AND NOT (push_bit p 0xFF) = 0"
  proof -
    assume z: "unat b mod 2 ^ p = 0"
    have zb: "\<not> bit b i" if "i < p" for i
    proof -
      have "take_bit p (unat b) = 0" using z by (simp add: take_bit_eq_mod)
      then have "\<not> bit (take_bit p (unat b)) i" by simp
      then show ?thesis using that by (simp add: bit_take_bit_iff bit_unsigned_iff)
    qed
    have zb': "bit b i \<Longrightarrow> p \<le> i" for i using zb [of i] by (cases "i < p") auto
    have m: "(0xFF :: u32) = mask 8" by (simp add: mask_eq_exp_minus_1)
    show ?thesis
      by (rule bit_word_eqI) (use zb' p(1) in \<open>auto simp: m bit_simps dest: bit_imp_le_length\<close>)
  qed
  then show ?thesis using n r p(2) by (simp add: assert_unused_bits_def)
qed

lemma el_buf_cmp_ok:
  assumes "el_holds a xs" "el_holds b ys"
  shows "\<exists>c. el_buf_cmp a b = Some c \<and> (c \<le> 0 \<longleftrightarrow> left_octets xs \<le> left_octets ys)"
proof -
  define k where "k = min (length (left_octets xs)) (length (left_octets ys))"
  have t: "take (el_length a) (el_buf a) = left_octets xs" "take (el_length b) (el_buf b) = left_octets ys"
    "el_length a = length (left_octets xs)" "el_length b = length (left_octets ys)"
    "el_length a \<le> length (el_buf a)" "el_length b \<le> length (el_buf b)"
    using el_holdsD [OF assms(1)] el_holdsD [OF assms(2)] by blast+
  have c: "(if el_length a < el_length b then el_length a else el_length b) = k" by (simp add: k_def t(3,4))
  have ta: "take k (el_buf a) = take k (left_octets xs)" "take k (el_buf b) = take k (left_octets ys)"
    unfolding t(1,2) [symmetric] using t(3,4) by (simp_all add: k_def min_def)
  have ka: "k \<le> length (el_buf a)" "k \<le> length (el_buf b)" using t(3-6) by (simp_all add: k_def)
  define m where "m = memcmp (take k (left_octets xs)) (take k (left_octets ys))"
  have ret: "(if el_buf a \<noteq> [] \<and> el_buf b \<noteq> [] then do {
               x \<leftarrow> mem_load (el_buf a) 0 k;
               y \<leftarrow> mem_load (el_buf b) 0 k;
               Some (memcmp x y) }
             else Some 0) = Some m"
  proof (cases "el_buf a \<noteq> [] \<and> el_buf b \<noteq> []")
    case True
    with ka ta show ?thesis by (simp add: mem_load_def m_def)
  next
    case False
    then have "k = 0" using t(3-6) by (auto simp: k_def)
    with False show ?thesis by (auto simp: m_def)
  qed
  have u: "assert_unused_bits a = Some ()" "assert_unused_bits b = Some ()" using el_unused_ok assms by blast+
  have "el_buf_cmp a b = Some (if m = 0 then (if el_length a < el_length b then -1 else if el_length b < el_length a then 1 else 0) else m)"
    unfolding el_buf_cmp_def Let_def c ret using u by simp
  with memcmp_lex(1) [of "left_octets xs" "left_octets ys"] t(3,4) show ?thesis
    unfolding k_def [symmetric] m_def [symmetric] by (auto split: if_splits)
qed

lemma qsort_insert_ok:
  assumes "el_holds a xs" "list_all2 el_holds els bss"
  shows "\<exists>els'. qsort_insert el_buf_cmp a els = Some els' \<and> list_all2 el_holds els' (insort_key left_octets xs bss)"
  using assms(2)
proof (induction els bss rule: list_all2_induct)
  case Nil
  with assms(1) show ?case by simp
next
  case (Cons b els ys bss)
  from el_buf_cmp_ok [OF assms(1) Cons.hyps(1)] obtain c where
    "el_buf_cmp a b = Some c" "c \<le> 0 \<longleftrightarrow> left_octets xs \<le> left_octets ys" by blast
  with Cons assms(1) show ?case by auto
qed

lemma qsort_ok:
  "list_all2 el_holds els bss \<Longrightarrow>
    \<exists>els'. qsort el_buf_cmp els = Some els' \<and> list_all2 el_holds els' (sort_key left_octets bss)"
proof (induction els bss rule: list_all2_induct)
  case (Cons a els xs bss)
  then obtain els' where "qsort el_buf_cmp els = Some els'" "list_all2 el_holds els' (sort_key left_octets bss)" by blast
  with qsort_insert_ok [OF Cons.hyps(1)] show ?case by fastforce
qed simp

lemma encode_elements_ok:
  assumes "list_all2 (el_writes enc) vs bss" "\<And>i. i < length vs \<Longrightarrow> rd array (edx + i) = Some (Some (vs ! i))"
  shows "\<exists>els. encode_elements (soes_cuper (\<lambda>_. True) (Some enc)) array edx (length vs) = Some (Some els) \<and> list_all2 el_holds els bss"
  using assms
proof (induction vs bss arbitrary: edx rule: list_all2_induct)
  case (Cons v vs bs bss)
  have "rd array (Suc edx + i) = Some (Some (vs ! i))" if "i < length vs" for i
    using Cons.prems [of "Suc i"] that by simp
  from Cons.IH [OF this] obtain els where
    "encode_elements (soes_cuper (\<lambda>_. True) (Some enc)) array (Suc edx) (length vs) = Some (Some els)" "list_all2 el_holds els bss"
    by blast
  moreover obtain el where "soes_cuper (\<lambda>_. True) (Some enc) v el_empty = Some (int (length bs), el)" "el_holds el bs"
    using soes_cuper_ok [OF Cons.hyps(1)] by blast
  moreover have "rd array edx = Some (Some v)" using Cons.prems [of 0] by simp
  ultimately show ?case by simp
qed simp

lemma encode_sorted_ok:
  assumes "list_all2 (el_writes enc) (as_elems list) bss" "as_inv list"
  shows "\<exists>els. SET_OF__encode_sorted (\<lambda>_. True) (soes_cuper (\<lambda>_. True) (Some enc)) list = Some (Some els) \<and>
    list_all2 el_holds els (sort_key left_octets bss)"
proof -
  have "nat (as_count list) = length (as_elems list)" using as_inv_length [OF assms(2)] by simp
  moreover from encode_elements_ok [OF assms(1), of "as_array list" 0] as_elems_nth(1) [OF assms(2)] obtain els where
    "encode_elements (soes_cuper (\<lambda>_. True) (Some enc)) (as_array list) 0 (length (as_elems list)) = Some (Some els)"
    "list_all2 el_holds els bss" by auto
  moreover obtain els' where "qsort el_buf_cmp els = Some els'" "list_all2 el_holds els' (sort_key left_octets bss)"
    using qsort_ok [OF calculation(3)] by blast
  ultimately show ?thesis by (simp add: SET_OF__encode_sorted_def)
qed

lemma put_encoded_el:
  assumes "el_holds el bs" "po_ok grow_cb dyn_inv po"
  shows "\<exists>po'. asn_put_many_bits po (el_buf el) (8 * int (el_length el) - int (el_bits_unused el)) = Some (0, po') \<and>
    po_ok grow_cb dyn_inv po' \<and> po_emits dyn_taken po bs po'"
proof -
  note h = el_holdsD [OF assms(1)]
  have n: "8 * int (el_length el) - int (el_bits_unused el) = int (length bs)"
  proof -
    have "octets_bits (left_octets bs) = bs @ replicate (flush_pad (length bs)) False"
      by (simp add: octets_bits_left_octets flush_pad_octets)
    from arg_cong [OF this, of length] show ?thesis by (simp add: h(2,4))
  qed
  have "length bs \<le> 8 * el_length el" using n by linarith
  then have le: "length bs \<le> 8 * length (el_buf el)" using h(3) by linarith
  have "take (length bs) (octets_bits (el_buf el)) = take (length bs) (take (8 * el_length el) (octets_bits (el_buf el)))"
    using \<open>length bs \<le> 8 * el_length el\<close> by (simp add: min_def)
  also have "\<dots> = take (length bs) (octets_bits (left_octets bs))" by (simp only: take_octets_bits h(1))
  also have "\<dots> = bs" by (simp add: octets_bits_left_octets)
  finally have "take (length bs) (octets_bits (el_buf el)) = bs" .
  with dyn.put_many_bits_puts [OF assms(2) le] n dyn_never_refuses show ?thesis by (auto simp: po_puts_def)
qed

lemma put_encoded_ok:
  assumes "list_all2 el_holds els' bss" "\<And>i. i < length els' \<Longrightarrow> rd els (edx + i) = Some (els' ! i)" "po_ok grow_cb dyn_inv po"
  shows "po_puts grow_cb dyn_taken dyn_inv po 0 (concat bss) (put_encoded (Some els) edx (length els') 0 po)"
  using assms
proof (induction els' bss arbitrary: edx po rule: list_all2_induct)
  case Nil
  then show ?case by (simp add: po_puts_Nil)
next
  case (Cons el els' bs bss)
  from put_encoded_el [OF Cons.hyps(1) Cons.prems(2)] obtain po1 where
    1: "asn_put_many_bits po (el_buf el) (8 * int (el_length el) - int (el_bits_unused el)) = Some (0, po1)"
      "po_ok grow_cb dyn_inv po1" "po_emits dyn_taken po bs po1" by blast
  have "rd els (Suc edx + i) = Some (els' ! i)" if "i < length els'" for i
    using Cons.prems(1) [of "Suc i"] that by simp
  from Cons.IH [OF this 1(2)] have "po_puts grow_cb dyn_taken dyn_inv po1 0 (concat bss) (put_encoded (Some els) (Suc edx) (length els') 0 po1)" .
  moreover have "rd els edx = Some el" using Cons.prems(1) [of 0] by simp
  ultimately show ?case using 1(1) po_emits_trans [OF 1(3)] unfolding po_puts_def by auto
qed

text \<open>The encoder of SET OF writes the list of the sorted encodings.\<close>

lemma set_of_encode_ok:
  assumes "list_all2 (el_writes enc) (as_elems list) bss" "as_inv list"
    and "list_bits (size_constraint tdc cs) (sort_key left_octets bss) = Some bs"
  shows "writes (SET_OF_encode_uper (\<lambda>_. True) tdc cs (Some enc)) list bs"
  unfolding writes_def
proof (intro allI impI)
  fix po assume po: "po_ok grow_cb dyn_inv po"
  define sbs where "sbs = sort_key left_octets bss"
  have len: "as_count list = int (length sbs)"
    using as_inv_length [OF assms(2)] list_all2_lengthD [OF assms(1)] by (simp add: sbs_def)
  from encode_sorted_ok [OF assms(1,2)] obtain els where
    e: "SET_OF__encode_sorted (\<lambda>_. True) (soes_cuper (\<lambda>_. True) (Some enc)) list = Some (Some els)" "list_all2 el_holds els sbs"
    unfolding sbs_def by blast
  have "items_ok (put_encoded (Some els)) sbs"
    unfolding items_ok_def
  proof (intro allI impI)
    fix edx n po assume i: "edx + n \<le> length sbs" "po_ok grow_cb dyn_inv po"
    have l: "length els = length sbs" using e(2) by (rule list_all2_lengthD)
    then have n: "length (take n (drop edx els)) = n" using i(1) by simp
    have all: "list_all2 el_holds (take n (drop edx els)) (take n (drop edx sbs))"
      using e(2) by (simp add: list_all2_takeI list_all2_dropI)
    have "rd els (edx + j) = Some (take n (drop edx els) ! j)" if "j < length (take n (drop edx els))" for j
    proof -
      have "edx + j < length els" "edx \<le> length els" "j < n" using that by auto
      then show ?thesis by (simp only: nth_take nth_drop rd_in)
    qed
    from put_encoded_ok [OF all this i(2)] n
    show "po_puts grow_cb dyn_taken dyn_inv po 0 (concat (take n (drop edx sbs))) (put_encoded (Some els) edx n 0 po)" by simp
  qed
  from list_bits_puts [OF this assms(3) [folded sbs_def] po]
  show "po_puts grow_cb dyn_taken dyn_inv po 0 bs (SET_OF_encode_uper (\<lambda>_. True) tdc cs (Some enc) list po)"
    by (simp only: SET_OF_encode_uper_def len e(1) bind.bind_lunit)
qed

text \<open>
  Encodings that a decoder tells apart are prefix-free, so that no two of them are the same octets.
\<close>

lemma reads_prefix_free:
  assumes "reads elm (xs, c, v)" "reads elm (ys, d, w)" "left_octets xs = left_octets ys"
  shows "xs = ys"
proof -
  define pd where "pd = pd_of (left_octets xs)"
  have inv: "pd_inv pd" by (simp add: pd_def pd_of)
  have x: "pd_bits pd = xs @ replicate (8 * ((length xs + 7) div 8) - length xs) False"
    by (simp add: pd_def pd_of octets_bits_left_octets)
  have y: "pd_bits pd = ys @ replicate (8 * ((length ys + 7) div 8) - length ys) False"
    by (simp add: pd_def pd_of octets_bits_left_octets assms(3))
  from readsE [OF assms(1) inv x] obtain n pd1 where 1: "elm pd = Some (RC_OK, Some (v, n), pd1)" "pd_consumes pd xs pd1" by metis
  from readsE [OF assms(2) inv y] obtain m pd2 where 2: "elm pd = Some (RC_OK, Some (w, m), pd2)" "pd_consumes pd ys pd2" by metis
  have "pd1 = pd2" using 1(1) 2(1) by simp
  with pd_consumesD(4) [OF 1(2)] pd_consumesD(4) [OF 2(2)] have "length xs = length ys" by simp
  with x y show ?thesis by (metis append_eq_append_conv)
qed

text \<open>Sets of equal elements have the same encoding.\<close>

lemma sort_bits_canonical:
  assumes "mset bss = mset bss'" "inj_on left_octets (set bss)"
  shows "sort_key left_octets bss = sort_key left_octets bss'"
proof (rule sort_key_inj_key_eq)
  show "mset bss = mset (sort_key left_octets bss')" using assms(1) by simp
  show "inj_on left_octets (set bss)" by (rule assms(2))
  show "sorted (map left_octets (sort_key left_octets bss'))" by simp
qed

section \<open>Lists of a given element\<close>

text \<open>
  What a list relies on: \<open>ebits v\<close> are the bits of an element, \<open>counts\<close> tells whether its decoder
  reports what it consumed.
\<close>

definition seq_of_bits :: "('v \<Rightarrow> bool list option) \<Rightarrow> ('v \<Rightarrow> bool) \<Rightarrow> asn_per_constraint option \<Rightarrow> 'v list \<Rightarrow> bool list option" where
  "seq_of_bits ebits counts ct vs =
     (if (\<forall>v\<in>set vs. ebits v \<noteq> None) \<and> length vs < 2 ^ 30 \<and> (200 < length vs \<longrightarrow> (\<forall>v\<in>set vs. counts v))
      then list_bits ct (map (\<lambda>v. the (ebits v)) vs) else None)"

locale uper_element =
  fixes elm_decoder :: "'v per_decoder" and ebits :: "'v \<Rightarrow> bool list option" and counts :: "'v \<Rightarrow> bool"
  assumes elm_reads: "ebits v = Some bs \<Longrightarrow> reads elm_decoder (bs, counts v, v)"
begin

lemma list_reader:
  "uper_reader (SET_OF_decode_uper True (\<lambda>_. True) sz tdc cs elm_decoder) (\<lambda>x. as_elems (fst x))
     (seq_of_bits ebits counts (size_constraint tdc cs))"
proof
  fix vs bs and pd :: bit_data and rest
  assume a: "seq_of_bits ebits counts (size_constraint tdc cs) vs = Some bs" "pd_inv pd" "pd_bits pd = bs @ rest"
  define xs where "xs = map (\<lambda>v. (the (ebits v), counts v, v)) vs"
  have v: "\<forall>v\<in>set vs. ebits v \<noteq> None" "list_bits (size_constraint tdc cs) (map fst xs) = Some bs" "list_readable xs"
    using a(1) by (auto simp: seq_of_bits_def xs_def list_readable_def comp_def split: if_splits)
  have "\<forall>x\<in>set xs. reads elm_decoder x" using v(1) elm_reads by (fastforce simp: xs_def)
  from set_of_decode_ok [OF this v(3,2) a(2,3), of sz] obtain list pd' where
    "SET_OF_decode_uper True (\<lambda>_. True) sz tdc cs elm_decoder pd = Some (RC_OK, Some (list, 0), pd')"
    "as_elems list = coded_values xs" "pd_consumes pd bs pd'" by blast
  then show "\<exists>w pd'. SET_OF_decode_uper True (\<lambda>_. True) sz tdc cs elm_decoder pd = Some (RC_OK, Some w, pd') \<and>
      as_elems (fst w) = vs \<and> pd_consumes pd bs pd'"
    by (auto simp: xs_def comp_def)
qed

lemma list_decodes:
  assumes "seq_of_bits ebits counts (size_constraint tdc cs) vs = Some bs"
    and "take (length (per_complete bs)) buffer = per_complete bs" "length (per_complete bs) \<le> sz" "sz \<le> length buffer"
  shows "\<exists>list n. uper_decode_complete (Some (SET_OF_decode_uper True (\<lambda>_. True) ssz tdc cs elm_decoder)) buffer sz =
      Some (RC_OK, length (per_complete bs), Some (list, n)) \<and> as_elems list = vs"
  using uper_reader.decode_whole [OF list_reader assms] by fastforce

lemma ebits_inj: "ebits v = Some xs \<Longrightarrow> ebits w = Some ys \<Longrightarrow> left_octets xs = left_octets ys \<Longrightarrow> xs = ys"
  using reads_prefix_free elm_reads by metis

lemma sorted_bits:
  assumes "mset vs = mset vs'" "\<forall>v\<in>set vs. ebits v \<noteq> None"
  shows "sort_key left_octets (map (\<lambda>v. the (ebits v)) vs) = sort_key left_octets (map (\<lambda>v. the (ebits v)) vs')"
proof (rule sort_bits_canonical)
  show "mset (map (\<lambda>v. the (ebits v)) vs) = mset (map (\<lambda>v. the (ebits v)) vs')"
    using assms(1) by simp
  show "inj_on left_octets (set (map (\<lambda>v. the (ebits v)) vs))"
  proof (rule inj_onI)
    fix xs ys assume "xs \<in> set (map (\<lambda>v. the (ebits v)) vs)" "ys \<in> set (map (\<lambda>v. the (ebits v)) vs)"
      and eq: "left_octets xs = left_octets ys"
    then obtain v w where "ebits v = Some xs" "ebits w = Some ys" using assms(2) by auto
    then show "xs = ys" using ebits_inj eq by blast
  qed
qed

end

lemma writes_new_buffer:
  assumes "writes enc v bs"
  obtains buf where "uper_encode_to_new_buffer (\<lambda>_. True) (Some enc) v = Some (int (length (per_complete bs)), Some buf)"
    "length (per_complete bs) \<le> length buf" "take (length (per_complete bs)) buf = per_complete bs"
  using new_buffer_ok [of "\<lambda>_. True" bs enc v] assms dyn_never_refuses unfolding writes_def by blast

text \<open>An element of a SET OF, whose encoder also fills the buffer of one element.\<close>

locale uper_set_element = uper_element elm_decoder ebits counts
  for elm_decoder :: "'v per_decoder" and ebits :: "'v \<Rightarrow> bool list option" and counts :: "'v \<Rightarrow> bool" +
  fixes elm_encoder :: "('v, el_buffer) uper_encoder"
  assumes elm_writes: "ebits v = Some bs \<Longrightarrow> el_writes elm_encoder v bs"
begin

lemma set_encodes:
  assumes "as_inv list" "\<forall>v\<in>set (as_elems list). ebits v \<noteq> None"
    and "list_bits (size_constraint tdc cs) (sort_key left_octets (map (\<lambda>v. the (ebits v)) (as_elems list))) = Some bs"
  shows "\<exists>buf. uper_encode_to_new_buffer (\<lambda>_. True) (Some (SET_OF_encode_uper (\<lambda>_. True) tdc cs (Some elm_encoder))) list =
      Some (int (length (per_complete bs)), Some buf) \<and> length (per_complete bs) \<le> length buf \<and>
    take (length (per_complete bs)) buf = per_complete bs"
proof -
  have "list_all2 (el_writes elm_encoder) (as_elems list) (map (\<lambda>v. the (ebits v)) (as_elems list))"
    using assms(2) elm_writes by (fastforce simp: list.rel_map intro!: list.rel_refl_strong)
  from writes_new_buffer [OF set_of_encode_ok [OF this assms(1,3)]] show ?thesis by metis
qed

lemma set_decodes:
  assumes "\<forall>v\<in>set vs. ebits v \<noteq> None" "length vs < 2 ^ 30" "200 < length vs \<longrightarrow> (\<forall>v\<in>set vs. counts v)"
    and "list_bits (size_constraint tdc cs) (sort_key left_octets (map (\<lambda>v. the (ebits v)) vs)) = Some bs"
    and "take (length (per_complete bs)) buf = per_complete bs" "length (per_complete bs) \<le> length buf"
  shows "\<exists>dec m. uper_decode_complete (Some (SET_OF_decode_uper True (\<lambda>_. True) ssz tdc cs elm_decoder)) buf (length (per_complete bs)) =
      Some (RC_OK, length (per_complete bs), Some (dec, m)) \<and> mset (as_elems dec) = mset vs"
proof -
  define e where "e = (\<lambda>v. the (ebits v))"
  define ws where "ws = sort_key (\<lambda>v. left_octets (e v)) vs"
  have inj: "inj_on left_octets (set (map e vs))"
  proof (rule inj_onI)
    fix xs ys assume "xs \<in> set (map e vs)" "ys \<in> set (map e vs)" and eq: "left_octets xs = left_octets ys"
    then obtain v w where "ebits v = Some xs" "ebits w = Some ys" using assms(1) by (auto simp: e_def)
    then show "xs = ys" using ebits_inj eq by blast
  qed
  have "sort_key left_octets (map e vs) = map e ws"
  proof (rule sort_key_inj_key_eq [OF _ inj])
    show "mset (map e vs) = mset (map e ws)" by (simp add: ws_def)
    have "sorted (map (\<lambda>v. left_octets (e v)) (sort_key (\<lambda>v. left_octets (e v)) vs))" by simp
    then show "sorted (map left_octets (map e ws))" by (simp add: ws_def comp_def)
  qed
  with assms(1-4) have "seq_of_bits ebits counts (size_constraint tdc cs) ws = Some bs"
    by (simp add: seq_of_bits_def e_def ws_def)
  from list_decodes [OF this assms(5) order_refl assms(6), of ssz] show ?thesis by (auto simp: ws_def)
qed

end

lemma native_reads: "native_bits td cs v = Some bs \<Longrightarrow> reads (counted 0 (NativeInteger_decode_uper (\<lambda>_. True) td cs)) (bs, False, v)"
  unfolding reads_def counted_def
  using uper_reader.decodes [OF native_reader, of td cs v bs] by fastforce

interpretation native_element: uper_element "counted 0 (NativeInteger_decode_uper (\<lambda>_. True) td cs)" "native_bits td cs" "\<lambda>_. False"
  for td cs
  by unfold_locales (rule native_reads)

lemma native_writes: "native_bits td cs v = Some bs \<Longrightarrow> writes (NativeInteger_encode_uper (\<lambda>_. True) td cs) v bs"
  using uper_codec.encodes [OF dyn.native_codec] by (auto simp: writes_def)

lemma native_el_writes: "native_bits td cs v = Some bs \<Longrightarrow> el_writes (NativeInteger_encode_uper (\<lambda>_. True) td cs) v bs"
  using uper_codec.encodes [OF el.native_codec] by (auto simp: el_writes_def)

lemma enum_reads: "enum_bits td cs i = Some bs \<Longrightarrow> reads (counted 0 (NativeEnumerated_decode_uper (\<lambda>_. True) td cs)) (bs, False, i)"
  unfolding reads_def counted_def
  using uper_reader.decodes [OF enum_reader, of td cs i bs] by fastforce

lemma enum_el_writes: "enum_bits td cs v = Some bs \<Longrightarrow> el_writes (NativeEnumerated_encode_uper td cs) v bs"
  using uper_codec.encodes [OF el.enum_codec] by (auto simp: el_writes_def)

text \<open>The element types with native values: INTEGER and ENUMERATED, each with its codec and its X.691 bits.\<close>

datatype native_type =
    Native_Integer asn_TYPE_descriptor "asn_per_constraints option"
  | Native_Enumerated asn_TYPE_descriptor "asn_per_constraints option"

fun native_encoder :: "native_type \<Rightarrow> (int, 'k) uper_encoder" where
  "native_encoder (Native_Integer td cs) = NativeInteger_encode_uper (\<lambda>_. True) td cs"
| "native_encoder (Native_Enumerated td cs) = NativeEnumerated_encode_uper td cs"

fun native_decoder :: "native_type \<Rightarrow> int per_decoder" where
  "native_decoder (Native_Integer td cs) = counted 0 (NativeInteger_decode_uper (\<lambda>_. True) td cs)"
| "native_decoder (Native_Enumerated td cs) = counted 0 (NativeEnumerated_decode_uper (\<lambda>_. True) td cs)"

fun native_type_bits :: "native_type \<Rightarrow> int \<Rightarrow> bool list option" where
  "native_type_bits (Native_Integer td cs) = native_bits td cs"
| "native_type_bits (Native_Enumerated td cs) = enum_bits td cs"

interpretation native_set: uper_set_element "native_decoder t" "native_type_bits t" "\<lambda>_. False" "native_encoder t"
  for t
proof unfold_locales
  show "native_type_bits t v = Some bs \<Longrightarrow> reads (native_decoder t) (bs, False, v)" for v bs
    by (cases t) (simp_all add: native_reads enum_reads)
  show "native_type_bits t v = Some bs \<Longrightarrow> el_writes (native_encoder t) v bs" for v bs
    by (cases t) (simp_all add: native_el_writes enum_el_writes)
qed

section \<open>Properties\<close>

text \<open>
  A SEQUENCE OF INTEGER of at most 200 elements survives the complete unaligned PER encoding,
  under any size constraint: \<open>uper_encode_to_new_buffer\<close> yields the octets of X.691 (extension bit,
  count in its fixed width or fragments behind their counts, then the elements), and
  \<open>uper_decode_complete\<close> returns a list of the same elements in the same order.
\<close>

theorem sequence_of_roundtrip:
  assumes "as_inv list" "seq_of_bits (native_bits td ecs) (\<lambda>_. False) (size_constraint tdc cs) (as_elems list) = Some bs"
  shows "\<exists>n buf list' m.
     uper_encode_to_new_buffer (\<lambda>_. True) (Some (SEQUENCE_OF_encode_uper tdc cs (NativeInteger_encode_uper (\<lambda>_. True) td ecs))) list =
       Some (int n, Some buf) \<and> n \<le> length buf \<and> take n buf = per_complete bs \<and>
     uper_decode_complete (Some (SET_OF_decode_uper True (\<lambda>_. True) sz tdc cs (counted 0 (NativeInteger_decode_uper (\<lambda>_. True) td ecs)))) buf n =
       Some (RC_OK, n, Some (list', m)) \<and> as_elems list' = as_elems list"
proof -
  have e: "\<forall>v\<in>set (as_elems list). native_bits td ecs v \<noteq> None"
    and b: "list_bits (size_constraint tdc cs) (map (\<lambda>v. the (native_bits td ecs v)) (as_elems list)) = Some bs"
    using assms(2) by (auto simp: seq_of_bits_def split: if_splits)
  have "list_all2 (writes (NativeInteger_encode_uper (\<lambda>_. True) td ecs)) (as_elems list) (map (\<lambda>v. the (native_bits td ecs v)) (as_elems list))"
    using e native_writes by (fastforce simp: list.rel_map intro!: list.rel_refl_strong)
  from writes_new_buffer [OF sequence_of_encode_ok [OF this assms(1) b]] obtain buf where
    "uper_encode_to_new_buffer (\<lambda>_. True) (Some (SEQUENCE_OF_encode_uper tdc cs (NativeInteger_encode_uper (\<lambda>_. True) td ecs))) list =
       Some (int (length (per_complete bs)), Some buf)"
    "length (per_complete bs) \<le> length buf" "take (length (per_complete bs)) buf = per_complete bs" .
  with native_element.list_decodes [OF assms(2) this(3) order_refl this(2), of sz] show ?thesis by blast
qed

definition set_of_list :: "'v list \<Rightarrow> 'v asn_anonymous_set" where
  "set_of_list vs = \<lparr>as_array = map Some vs, as_count = int (length vs), as_size = int (length vs), as_free = False\<rparr>"

lemma set_of_list: "int (length vs) \<le> INT_MAX \<Longrightarrow> as_inv (set_of_list vs)" "as_elems (set_of_list vs) = vs"
  by (auto simp: set_of_list_def as_inv_def as_elems_def)

lemma sample_list_bits:
  "seq_of_bits (native_bits (sample_int_td 2 3 0 7) None) (\<lambda>_. False) None [5, 2] =
     Some (be_bits 8 2 @ [True, False, True] @ [False, True, False])"
  by (simp add: seq_of_bits_def native_bits_def integer_bits_def sample_int_td_simps limits_defs int_constraint_ok_def
      ext_bit_def ct_has_def be_bits_rec list_bits_def list_body_def element_fragments.simps [of "[_, _]"] Let_def
      uper_length_unit_def uper_length_bits_def)

theorem sequence_of_roundtrip_witness:
  "\<exists>n buf list' m.
     uper_encode_to_new_buffer (\<lambda>_. True)
       (Some (SEQUENCE_OF_encode_uper None None (NativeInteger_encode_uper (\<lambda>_. True) (sample_int_td 2 3 0 7) None))) (set_of_list [5, 2]) =
       Some (int n, Some buf) \<and> n \<le> length buf \<and> take n buf = per_complete (be_bits 8 2 @ [True, False, True] @ [False, True, False]) \<and>
     uper_decode_complete (Some (SET_OF_decode_uper True (\<lambda>_. True) 48 None None
         (counted 0 (NativeInteger_decode_uper (\<lambda>_. True) (sample_int_td 2 3 0 7) None)))) buf n =
       Some (RC_OK, n, Some (list', m)) \<and> as_elems list' = as_elems (set_of_list [5, 2])"
  by (rule sequence_of_roundtrip) (simp_all add: set_of_list size_constraint_def limits_defs sample_list_bits)

text \<open>
  C8: the encoding of a SET OF INTEGER or ENUMERATED, of any length, is canonical: two structures with the
  same elements in any order, each as often, are encoded into the same octets, the list of the
  sorted encodings of the elements. Up to 200 elements the decoder returns from them a list with these
  elements, each as often; longer lists are encoded but not read back.
\<close>

theorem set_of_canonical:
  assumes "as_inv list" "as_inv list'" "mset (as_elems list) = mset (as_elems list')"
    and "\<forall>v\<in>set (as_elems list). native_type_bits t v \<noteq> None"
    and "list_bits (size_constraint tdc cs) (sort_key left_octets (map (\<lambda>v. the (native_type_bits t v)) (as_elems list))) = Some bs"
  shows "\<exists>n buf buf'.
     uper_encode_to_new_buffer (\<lambda>_. True) (Some (SET_OF_encode_uper (\<lambda>_. True) tdc cs (Some (native_encoder t)))) list = Some (int n, Some buf) \<and>
     uper_encode_to_new_buffer (\<lambda>_. True) (Some (SET_OF_encode_uper (\<lambda>_. True) tdc cs (Some (native_encoder t)))) list' = Some (int n, Some buf') \<and>
     take n buf = per_complete bs \<and> take n buf' = per_complete bs \<and>
     (length (as_elems list) \<le> 200 \<longrightarrow>
       (\<exists>dec m. uper_decode_complete (Some (SET_OF_decode_uper True (\<lambda>_. True) sz tdc cs (native_decoder t))) buf n = Some (RC_OK, n, Some (dec, m)) \<and>
          mset (as_elems dec) = mset (as_elems list)))"
proof -
  have s': "set (as_elems list') = set (as_elems list)" using assms(3) by (metis set_mset_mset)
  note b' = assms(5) [unfolded native_set.sorted_bits [OF assms(3,4)]]
  from native_set.set_encodes [OF assms(1,4,5)] obtain buf where
    1: "uper_encode_to_new_buffer (\<lambda>_. True) (Some (SET_OF_encode_uper (\<lambda>_. True) tdc cs (Some (native_encoder t)))) list =
      Some (int (length (per_complete bs)), Some buf)" "length (per_complete bs) \<le> length buf"
      "take (length (per_complete bs)) buf = per_complete bs" by blast
  from native_set.set_encodes [OF assms(2) _ b'] s' assms(4) obtain buf' where
    2: "uper_encode_to_new_buffer (\<lambda>_. True) (Some (SET_OF_encode_uper (\<lambda>_. True) tdc cs (Some (native_encoder t)))) list' =
      Some (int (length (per_complete bs)), Some buf')" "take (length (per_complete bs)) buf' = per_complete bs" by auto
  have "length (as_elems list) \<le> 200 \<longrightarrow>
      (\<exists>dec m. uper_decode_complete (Some (SET_OF_decode_uper True (\<lambda>_. True) sz tdc cs (native_decoder t))) buf (length (per_complete bs)) =
         Some (RC_OK, length (per_complete bs), Some (dec, m)) \<and> mset (as_elems dec) = mset (as_elems list))"
    using native_set.set_decodes [OF assms(4) _ _ assms(5) 1(3,2), of sz] by simp
  with 1(1,3) 2 show ?thesis by blast
qed

lemma sample_set_bits:
  "native_bits (sample_int_td 2 3 0 7) None v = (if 0 \<le> v \<and> v \<le> 7 then Some (be_bits 3 (nat v)) else None)"
  by (auto simp: native_bits_def integer_bits_def sample_int_td_simps limits_defs int_constraint_ok_def ext_bit_def ct_has_def)

theorem set_of_canonical_witness:
  "\<exists>n buf buf' dec m.
     uper_encode_to_new_buffer (\<lambda>_. True) (Some (SET_OF_encode_uper (\<lambda>_. True) None None
       (Some (NativeInteger_encode_uper (\<lambda>_. True) (sample_int_td 2 3 0 7) None)))) (set_of_list [5, 2]) = Some (int n, Some buf) \<and>
     uper_encode_to_new_buffer (\<lambda>_. True) (Some (SET_OF_encode_uper (\<lambda>_. True) None None
       (Some (NativeInteger_encode_uper (\<lambda>_. True) (sample_int_td 2 3 0 7) None)))) (set_of_list [2, 5]) = Some (int n, Some buf') \<and>
     take n buf = take n buf' \<and>
     uper_decode_complete (Some (SET_OF_decode_uper True (\<lambda>_. True) 48 None None
         (counted 0 (NativeInteger_decode_uper (\<lambda>_. True) (sample_int_td 2 3 0 7) None)))) buf n =
       Some (RC_OK, n, Some (dec, m)) \<and> mset (as_elems dec) = mset (as_elems (set_of_list [5, 2]))"
proof -
  have b: "list_bits (size_constraint None None) (sort_key left_octets
      (map (\<lambda>v. the (native_type_bits (Native_Integer (sample_int_td 2 3 0 7) None) v)) (as_elems (set_of_list [5, 2])))) =
      Some (element_fragments (sort_key left_octets [be_bits 3 5, be_bits 3 2]))"
    by (simp add: set_of_list limits_defs sample_set_bits size_constraint_def list_bits_def list_body_def)
  show ?thesis
    using set_of_canonical [OF _ _ _ _ b, of "set_of_list [2, 5]" 48]
    by (simp add: set_of_list limits_defs sample_set_bits add_mset_commute) metis
qed

text \<open>
  C35: more than 200 elements in one piece are written but never read: the guard against lists of
  \<open>NULL\<close> takes \<open>rv.consumed\<close> of the element's decoder for the bits that it read, but the decoder of an
  INTEGER, like most, reports \<open>0\<close>. So the first element already ends the decoding with \<open>RC_FAIL\<close>.
\<close>

theorem sequence_of_over_200_refused:
  assumes "as_inv list" "\<forall>v\<in>set (as_elems list). native_bits td ecs v \<noteq> None"
    and "200 < length (as_elems list)" "length (as_elems list) < 16384"
    and "size_constraint tdc cs = None" "bs = element_fragments (map (\<lambda>v. the (native_bits td ecs v)) (as_elems list))"
    and "pd_inv pd" "pd_bits pd = bs @ rest" "po_ok grow_cb dyn_inv po"
  shows "\<exists>po' list' pd'.
     SEQUENCE_OF_encode_uper tdc cs (NativeInteger_encode_uper (\<lambda>_. True) td ecs) list po = Some (0, po') \<and> po_emits dyn_taken po bs po' \<and>
     SET_OF_decode_uper True (\<lambda>_. True) sz tdc cs (counted 0 (NativeInteger_decode_uper (\<lambda>_. True) td ecs)) pd =
       Some (RC_FAIL, Some (list', 0), pd')"
proof -
  define e where "e = (\<lambda>v. the (native_bits td ecs v))"
  define dec where "dec = counted 0 (NativeInteger_decode_uper (\<lambda>_. True) td ecs)"
  have "list_all2 (writes (NativeInteger_encode_uper (\<lambda>_. True) td ecs)) (as_elems list) (map e (as_elems list))"
    using assms(2) native_writes by (fastforce simp: e_def list.rel_map intro!: list.rel_refl_strong)
  moreover have "list_bits (size_constraint tdc cs) (map e (as_elems list)) = Some bs"
    using assms(5,6) by (simp add: list_bits_def list_body_def e_def)
  ultimately have "writes (SEQUENCE_OF_encode_uper tdc cs (NativeInteger_encode_uper (\<lambda>_. True) td ecs)) list bs"
    using sequence_of_encode_ok assms(1) by blast
  with assms(9) dyn_never_refuses have w: "\<exists>po'. SEQUENCE_OF_encode_uper tdc cs (NativeInteger_encode_uper (\<lambda>_. True) td ecs) list po = Some (0, po') \<and>
      po_emits dyn_taken po bs po'" unfolding writes_def po_puts_def by blast
  define n where "n = length (as_elems list)"
  obtain v vs where vs: "as_elems list = v # vs" using assms(3) by (cases "as_elems list") auto
  have u: "uper_length_unit n = n" using assms(4) by (simp add: uper_length_unit_def n_def)
  have "bs = uper_length_bits n @ concat (map e (as_elems list))"
    unfolding assms(6) using assms(4) u by (subst element_fragments.simps) (simp add: Let_def n_def e_def)
  then have "pd_bits pd = uper_length_bits n @ e v @ concat (map e vs) @ rest" using assms(8) vs by simp
  from get_length_ok [OF assms(7) this, of 0] obtain pd1 where
    1: "uper_get_length pd (-1) 0 = Some (int n, 0, pd1)" "pd_consumes pd (uper_length_bits n) pd1" "pd_bits pd1 = e v @ concat (map e vs) @ rest"
    using u assms(4) by (auto simp: n_def)
  have "native_bits td ecs v = Some (e v)" using assms(2) vs by (auto simp: e_def)
  from readsE [OF native_reads [OF this] pd_consumesD(2) [OF 1(2)] 1(3)] obtain pd2 where
    2: "dec pd1 = Some (RC_OK, Some (v, 0), pd2)" by (auto simp: dec_def)
  define new :: "int asn_anonymous_set" where "new = as_new False"
  obtain list1 where 3: "asn_set_add (\<lambda>_. True) new (Some v) = Some (0, list1)"
    using set_add_ok [of new "\<lambda>_. True" v] by (auto simp: new_def as_new_def as_inv_def limits_defs)
  obtain k where nn: "n = Suc k" "200 < int n" using assms(3) by (cases n) (simp_all add: n_def)
  have "set_of_items (\<lambda>_. True) dec (int n) (nat (int n)) new pd1 = Some (RC_FAIL, list1, pd2)"
    unfolding nat_int nn(1) using 2 3 nn by simp
  then have "set_of_chunks (\<lambda>_. True) dec (-1) 0 new pd = Some (RC_FAIL, list1, pd2)"
    using 1(1) by (subst set_of_chunks.simps) simp
  with w show ?thesis by (auto simp: SET_OF_decode_uper_def assms(5) dec_def [symmetric] new_def [symmetric])
qed

theorem sequence_of_over_200_refused_witness:
  "\<exists>po' list' pd'.
     SEQUENCE_OF_encode_uper None None (NativeInteger_encode_uper (\<lambda>_. True) (sample_int_td 2 3 0 7) None) (set_of_list (replicate 201 5)) dyn_writer =
       Some (0, po') \<and>
     po_emits dyn_taken dyn_writer (element_fragments (map (\<lambda>v. the (native_bits (sample_int_td 2 3 0 7) None v)) (replicate 201 5))) po' \<and>
     SET_OF_decode_uper True (\<lambda>_. True) 48 None None (counted 0 (NativeInteger_decode_uper (\<lambda>_. True) (sample_int_td 2 3 0 7) None))
       (pd_of (left_octets (element_fragments (map (\<lambda>v. the (native_bits (sample_int_td 2 3 0 7) None v)) (replicate 201 5))))) =
       Some (RC_FAIL, Some (list', 0), pd')"
  by (rule sequence_of_over_200_refused [OF _ _ _ _ _ _ pd_of(1), where rest = "replicate (8 * ((length (element_fragments
        (map (\<lambda>v. the (native_bits (sample_int_td 2 3 0 7) None v)) (replicate 201 5))) + 7) div 8) - length (element_fragments
        (map (\<lambda>v. the (native_bits (sample_int_td 2 3 0 7) None v)) (replicate 201 5)))) False"])
    (auto simp: set_of_list limits_defs sample_set_bits size_constraint_def pd_of octets_bits_left_octets)

lemma set_of_refused_element:
  assumes "as_inv list" "as_elems list = v # vs" "size_constraint tdc cs = None" "po_ok grow_cb dyn_inv po"
    and "\<And>po. enc v po = Some (-1, po)"
  shows "SET_OF_encode_uper (\<lambda>_. True) tdc cs (Some enc) list po = None"
proof -
  define n where "n = length (as_elems list)"
  have n: "as_count list = int n" "n = Suc (length vs)" using as_inv_length [OF assms(1)] assms(2) by (simp_all add: n_def)
  have r: "rd (as_array list) 0 = Some (Some v)" using as_elems_nth(1) [OF assms(1), of 0] assms(2) by simp
  have "soes_cuper (\<lambda>_. True) (Some enc) v el_empty = Some (-1, el_empty)"
    using assms(5) by (simp add: soes_cuper_def uper_encode_def)
  then have s: "SET_OF__encode_sorted (\<lambda>_. True) (soes_cuper (\<lambda>_. True) (Some enc)) list = Some None"
  proof -
    have "nat (as_count list) = Suc (length vs)" using n by simp
    with \<open>soes_cuper _ _ v _ = _\<close> r show ?thesis by (simp add: SET_OF__encode_sorted_def)
  qed
  from put_length_dyn [OF assms(4), of n] obtain po1 where
    p: "uper_put_length po n = Some (int (uper_length_unit n), of_bool (16384 \<le> n \<and> uper_length_unit n = n), po1)" .
  obtain k where k: "uper_length_unit n = Suc k"
    using unit_bounds(1) [of n] n(2) by (cases "uper_length_unit n") auto
  have "0 < n" using n by simp
  have "put_encoded None 0 (nat (int (uper_length_unit n))) 0 po1 = None" unfolding nat_int k by simp
  then have "put_chunks (put_encoded None) False (int n) 0 0 po = None"
    using \<open>0 < n\<close> p by (subst put_chunks.simps) (simp del: put_encoded.simps)
  with s n show ?thesis
    by (simp add: SET_OF_encode_uper_def assms(3) put_size_root_def put_fixed_size_def fixed_size_def)
qed

lemma native_refuses:
  assumes "value_constraint td cs = Some c" "\<not> field_is_unsigned td" "\<not> ct_has c APC_EXTENSIBLE" "\<not> ct_has c APC_SEMI_CONSTRAINED"
    and "0 \<le> ct_range_bits c" "v < ct_lower_bound c \<or> ct_upper_bound c < v" "INTMAX_MIN \<le> v" "v \<le> INTMAX_MAX"
  shows "NativeInteger_encode_uper (\<lambda>_. True) td cs v po = Some (-1, po)"
proof -
  define st where "st = \<lparr>int_buf = Some (int_octets v), int_size = length (int_octets v)\<rparr>"
  have st: "INTEGER_inv st" "int_size st \<noteq> 0" "INTEGER_val st = v"
    using int_octets(1,3) [OF assms(7,8)] by (simp_all add: st_def INTEGER_inv_def INTEGER_octets_def INTEGER_val_def)
  have "asn_INTEGER2imax st 0 = Some (0, v)" using INTEGER2imax [OF st(1), of 0] st(3) assms(7,8) by simp
  then have "INTEGER_encode_uper td cs st po = Some (-1, po)"
    using assms st(2) by (auto simp: INTEGER_encode_uper_def Let_def)
  then show ?thesis using assms(2) int_octets(4) [OF assms(7,8)]
    by (simp add: NativeInteger_encode_uper_def asn_long2INTEGER_def st_def)
qed

text \<open>
  C36: a first element outside the range of its constraint makes the encoder of SET OF fault, while that
  of SEQUENCE OF returns a failure: \<open>SET_OF__encode_sorted\<close> returns a null pointer for the
  encodings, which its caller does not look at before it takes the first of them.
\<close>

theorem set_of_unencodable_faults:
  assumes "as_inv list" "as_elems list = v # vs" "size_constraint tdc cs = None" "po_ok grow_cb dyn_inv po"
    and "value_constraint td ecs = Some c" "\<not> field_is_unsigned td" "\<not> ct_has c APC_EXTENSIBLE" "\<not> ct_has c APC_SEMI_CONSTRAINED"
    and "0 \<le> ct_range_bits c" "v < ct_lower_bound c \<or> ct_upper_bound c < v" "INTMAX_MIN \<le> v" "v \<le> INTMAX_MAX"
  shows "SET_OF_encode_uper (\<lambda>_. True) tdc cs (Some (NativeInteger_encode_uper (\<lambda>_. True) td ecs)) list po = None \<and>
    (\<exists>po'. SEQUENCE_OF_encode_uper tdc cs (NativeInteger_encode_uper (\<lambda>_. True) td ecs) list po = Some (-1, po'))"
proof
  note refuses = native_refuses [OF assms(5-12)]
  show "SET_OF_encode_uper (\<lambda>_. True) tdc cs (Some (NativeInteger_encode_uper (\<lambda>_. True) td ecs)) list po = None"
    by (rule set_of_refused_element [OF assms(1-4)], rule refuses)
  define n where "n = length (as_elems list)"
  have n: "as_count list = int n" "0 < n" using as_inv_length [OF assms(1)] assms(2) by (simp_all add: n_def)
  have r: "rd (as_array list) 0 = Some (Some v)" using as_elems_nth(1) [OF assms(1), of 0] assms(2) by simp
  from put_length_dyn [OF assms(4), of n] obtain po1 where
    p: "uper_put_length po n = Some (int (uper_length_unit n), of_bool (16384 \<le> n \<and> uper_length_unit n = n), po1)" .
  obtain k where k: "uper_length_unit n = Suc k"
    using unit_bounds(1) [of n] n(2) by (cases "uper_length_unit n") auto
  have "put_elements (NativeInteger_encode_uper (\<lambda>_. True) td ecs) (as_array list) 0 (nat (int (uper_length_unit n))) 0 po1 = Some (-1, po1)"
    unfolding nat_int k using r by (simp add: refuses)
  then have "put_chunks (put_elements (NativeInteger_encode_uper (\<lambda>_. True) td ecs) (as_array list)) False (int n) 0 0 po = Some (-1, po1)"
    using n(2) p by (subst put_chunks.simps) (simp del: put_elements.simps)
  then show "\<exists>po'. SEQUENCE_OF_encode_uper tdc cs (NativeInteger_encode_uper (\<lambda>_. True) td ecs) list po = Some (-1, po')"
    using n by (simp add: SEQUENCE_OF_encode_uper_def assms(3) put_size_root_def put_fixed_size_def fixed_size_def)
qed

theorem set_of_unencodable_faults_witness:
  "SET_OF_encode_uper (\<lambda>_. True) None None (Some (NativeInteger_encode_uper (\<lambda>_. True) (sample_int_td 2 3 0 7) None)) (set_of_list [9]) dyn_writer = None \<and>
    (\<exists>po'. SEQUENCE_OF_encode_uper None None (NativeInteger_encode_uper (\<lambda>_. True) (sample_int_td 2 3 0 7) None) (set_of_list [9]) dyn_writer =
       Some (-1, po'))"
  by (rule set_of_unencodable_faults [where v = 9 and vs = "[]", OF _ _ _ _ sample_int_td_simps(1)])
     (simp_all add: set_of_list size_constraint_def limits_defs sample_int_td_simps ct_has_def)
end
