(* ===== verification/Uper_Struct.thy ===== *)
theory Uper_Struct
  imports Set_Of_Sorted
begin

unbundle bit_operations_syntax

text \<open>
  CHOICE and SEQUENCE in unaligned PER: \<open>skeletons/constr_CHOICE_uper.c\<close> and
  \<open>constr_SEQUENCE_uper.c\<close>. A structure is the list of its members' slots, a slot the value
  that a pointer member points to (\<open>None\<close> for a null pointer) or that an inline member holds.
\<close>

section \<open>Members\<close>

text \<open>
  \<open>asn_TYPE_member_t\<close> of \<open>constr_TYPE.h\<close>, with the operations of the member's type.
  \<open>elm_zero\<close> is what zeroed memory means as a value of an inline member; \<open>elm_open_encoder\<close> is the
  encoder on the callback that \<open>uper_open_type_put\<close> hands it, the same C function as \<open>elm_encoder\<close>.
  \<open>elm_open_type_get\<close> is \<open>OPEN_TYPE_uper_get\<close> of a member with \<open>ATF_OPEN_TYPE\<close>, which selects the type
  by the other members. The default functions are generated code: \<open>elm_default_cmp\<close> compares a value
  with the default, \<open>elm_default_set\<close> makes a slot hold it.
\<close>

record ('v, 'k) asn_TYPE_member =
  elm_pointer :: bool
  elm_optional :: bool
  elm_zero :: 'v
  elm_default_cmp :: "('v \<Rightarrow> int) option"
  elm_default_set :: "('v option \<Rightarrow> int \<times> 'v option) option"
  elm_decoder :: "'v per_decoder"
  elm_open_type_get :: "('v option list \<Rightarrow> 'v per_decoder) option"
  elm_encoder :: "('v, 'k) uper_encoder"
  elm_open_encoder :: "('v, enc_dyn_arg) uper_encoder"

definition slot_init :: "('v, 'k) asn_TYPE_member \<Rightarrow> 'v option" where
  "slot_init elm = (if elm_pointer elm then None else Some (elm_zero elm))"

text \<open>What \<open>*memb_ptr2\<close> is after a decoder stored through it.\<close>

definition slot_store :: "'v option \<Rightarrow> ('v \<times> nat) option \<Rightarrow> 'v option" where
  "slot_store old v = (case v of Some (w, n) \<Rightarrow> Some w | None \<Rightarrow> old)"

section \<open>CHOICE\<close>

text \<open>The presence index counts from one; zero is no member. \<open>ch_memb\<close> is the active member of the union.\<close>

record 'v choice_struct =
  ch_present :: nat
  ch_memb :: "'v option"

record asn_CHOICE_specifics =
  ch_struct_size :: nat
  to_canonical_order :: "nat list option"
  from_canonical_order :: "nat list option"
  ext_start :: int

definition choice_constraint :: "asn_per_constraints option \<Rightarrow> asn_per_constraints option \<Rightarrow> asn_per_constraint option" where
  "choice_constraint td_constraints constraints =
     (case constraints of Some c \<Rightarrow> Some (pc_value c) | None \<Rightarrow> map_option pc_value td_constraints)"

text \<open>\<open>ct && ct->range_bits >= 0\<close>.\<close>

definition ranged :: "asn_per_constraint option \<Rightarrow> asn_per_constraint option" where
  "ranged ct = (case ct of Some c \<Rightarrow> if 0 \<le> ct_range_bits c then Some c else None | None \<Rightarrow> None)"

text \<open>The index on the wire: a code other than \<open>RC_OK\<close> ends the decoding.\<close>

definition CHOICE_get_index ::
  "asn_CHOICE_specifics \<Rightarrow> nat \<Rightarrow> asn_per_constraint option \<Rightarrow> bit_data \<Rightarrow> (asn_dec_rval_code \<times> int \<times> bit_data) option" where
  "CHOICE_get_index specs elements_count ct pd =
     (case ranged ct of
        Some c \<Rightarrow> do {
          (v, pd) \<leftarrow> asn_get_few_bits pd (ct_range_bits c);
          Some (if v < 0 then RC_WMORE else if ct_upper_bound c < v then RC_FAIL else RC_OK, v, pd) }
      | None \<Rightarrow>
          if ext_start specs = -1 then Some (RC_FAIL, -1, pd)
          else do {
            (v, pd) \<leftarrow> uper_get_nsnnwn pd;
            if v < 0 then Some (RC_WMORE, v, pd)
            else do {
              v \<leftarrow> s32 (v + ext_start specs);
              Some (if v < 0 \<or> int elements_count \<le> v then RC_FAIL else RC_OK, v, pd) } })"

definition CHOICE_decode_uper ::
  "bool \<Rightarrow> (nat \<Rightarrow> bool) \<Rightarrow> asn_CHOICE_specifics \<Rightarrow> ('v, 'k) asn_TYPE_member list \<Rightarrow> asn_per_constraints option \<Rightarrow>
     asn_per_constraints option \<Rightarrow> 'v choice_struct per_decoder" where
  "CHOICE_decode_uper stack_ok can_alloc specs elements td_constraints constraints pd =
     (if \<not> stack_ok then Some (RC_FAIL, None, pd)
      else if \<not> can_alloc (ch_struct_size specs) then Some (RC_FAIL, None, pd)
      else do {
        let st = \<lparr>ch_present = 0, ch_memb = None\<rparr>;
        let ct = choice_constraint td_constraints constraints;
        (v, pd) \<leftarrow> (case ct of Some c \<Rightarrow> if ct_has c APC_EXTENSIBLE then asn_get_few_bits pd 1 else Some (0, pd) | None \<Rightarrow> Some (0, pd));
        if v < 0 then Some (RC_WMORE, Some (st, 0), pd)
        else do {
          let ct = (if v \<noteq> 0 then None else ct);
          (code, v, pd) \<leftarrow> CHOICE_get_index specs (length elements) ct pd;
          if code \<noteq> RC_OK then Some (code, Some (st, 0), pd)
          else do {
            v \<leftarrow> (case from_canonical_order specs of Some order \<Rightarrow> rd order (nat v) | None \<Rightarrow> Some (nat v));
            elm \<leftarrow> rd elements v;
            (code, w, pd) \<leftarrow>
              (if ranged ct \<noteq> None then elm_decoder elm pd
               else uper_open_type_get stack_ok can_alloc (elm_decoder elm) pd);
            Some (code, Some (\<lparr>ch_present = v + 1, ch_memb = slot_store (slot_init elm) w\<rparr>,
                              case w of Some (x, n) \<Rightarrow> n | None \<Rightarrow> 0), pd) } } })"

text \<open>The extension bit, and the constraint that stays in force.\<close>

definition CHOICE_put_root ::
  "asn_per_constraint option \<Rightarrow> int \<Rightarrow> 'k bit_outp \<Rightarrow> (int \<times> asn_per_constraint option \<times> 'k bit_outp) option" where
  "CHOICE_put_root ct present_enc po = do {
     (r, ct, po) \<leftarrow>
       (case ct of
          Some c \<Rightarrow>
            if 0 \<le> ct_range_bits c \<and> (present_enc < ct_lower_bound c \<or> ct_upper_bound c < present_enc) then
              if ct_has c APC_EXTENSIBLE then do { (r, po) \<leftarrow> asn_put_few_bits po 1 1; Some (r, None, po) }
              else Some (-1, None, po)
            else Some (0, Some c, po)
        | None \<Rightarrow> Some (0, None, po));
     if r \<noteq> 0 then Some (-1, ct, po)
     else case ct of
        Some c \<Rightarrow>
          if ct_has c APC_EXTENSIBLE then do { (r, po) \<leftarrow> asn_put_few_bits po 0 1; Some (if r \<noteq> 0 then -1 else 0, ct, po) }
          else Some (0, ct, po)
      | None \<Rightarrow> Some (0, ct, po) }"

definition CHOICE_encode_uper ::
  "(nat \<Rightarrow> bool) \<Rightarrow> asn_CHOICE_specifics \<Rightarrow> ('v, 'k) asn_TYPE_member list \<Rightarrow> asn_per_constraints option \<Rightarrow>
     asn_per_constraints option \<Rightarrow> ('v choice_struct, 'k) uper_encoder" where
  "CHOICE_encode_uper can_alloc specs elements td_constraints constraints st po =
     (if ch_present st = 0 \<or> length elements < ch_present st then Some (-1, po)
      else do {
        let present = ch_present st - 1;
        present_enc \<leftarrow> (case to_canonical_order specs of Some order \<Rightarrow> rd order present | None \<Rightarrow> Some present);
        (r, ct, po) \<leftarrow> CHOICE_put_root (choice_constraint td_constraints constraints) (int present_enc) po;
        if r \<noteq> 0 then Some (-1, po)
        else do {
          elm \<leftarrow> rd elements present;
          case ch_memb st of
            None \<Rightarrow> Some (-1, po)
          | Some v \<Rightarrow>
              (case ranged ct of
                 Some c \<Rightarrow> do {
                   (r, po) \<leftarrow> asn_put_few_bits po (of_nat present_enc) (ct_range_bits c);
                   if r \<noteq> 0 then Some (-1, po) else elm_encoder elm v po }
               | None \<Rightarrow>
                   if ext_start specs = -1 then Some (-1, po)
                   else do {
                     (r, po) \<leftarrow> uper_put_nsnnwn po (int present_enc - ext_start specs);
                     if r \<noteq> 0 then Some (-1, po)
                     else do {
                       (r, po) \<leftarrow> uper_open_type_put can_alloc (Some (elm_open_encoder elm)) v po;
                       Some (if r \<noteq> 0 then -1 else 0, po) } }) } })"

section \<open>SEQUENCE\<close>

text \<open>\<open>first_extension\<close> is negative for a type that is not extensible.\<close>

record asn_SEQUENCE_specifics =
  sq_struct_size :: nat
  oms :: "nat list"
  roms_count :: nat
  aoms_count :: nat
  first_extension :: int

definition root_count :: "asn_SEQUENCE_specifics \<Rightarrow> 'm list \<Rightarrow> nat" where
  "root_count specs elements = (if first_extension specs < 0 then length elements else nat (first_extension specs))"

definition empty_map :: bit_data where
  "empty_map = \<lparr>pd_mem = [], pd_buffer = 0, pd_nboff = 0, pd_nbits = 0, pd_moved = 0\<rparr>"

definition map_of_bits :: "u8 list \<Rightarrow> nat \<Rightarrow> bit_data" where
  "map_of_bits octets nbits = \<lparr>pd_mem = octets, pd_buffer = 0, pd_nboff = 0, pd_nbits = nbits, pd_moved = 0\<rparr>"

text \<open>
  The three loops of the decoder: over the members of the root, over the extensions that this
  version knows, over those it does not. \<open>slots\<close> is the structure, \<open>opmd\<close> and \<open>epmd\<close> the maps.
\<close>

fun decode_root ::
  "('v, 'k) asn_TYPE_member list \<Rightarrow> nat \<Rightarrow> nat \<Rightarrow> 'v option list \<Rightarrow> bit_data \<Rightarrow> bit_data \<Rightarrow>
     (asn_dec_rval_code \<times> 'v option list \<times> bit_data) option" where
  "decode_root elements edx 0 slots opmd pd = Some (RC_OK, slots, pd)"
| "decode_root elements edx (Suc n) slots opmd pd = do {
     elm \<leftarrow> rd elements edx;
     slot \<leftarrow> rd slots edx;
     (present, opmd) \<leftarrow> (if elm_optional elm then asn_get_few_bits opmd 1 else Some (1, opmd));
     if present = 0 then
       case elm_default_set elm of
         Some default_value_set \<Rightarrow>
           let (r, slot) = default_value_set slot in
           if r \<noteq> 0 then Some (RC_FAIL, slots[edx := slot], pd)
           else decode_root elements (edx + 1) n (slots[edx := slot]) opmd pd
       | None \<Rightarrow> decode_root elements (edx + 1) n slots opmd pd
     else do {
       (code, v, pd) \<leftarrow> (case elm_open_type_get elm of Some get \<Rightarrow> get slots pd | None \<Rightarrow> elm_decoder elm pd);
       if code \<noteq> RC_OK then Some (code, slots[edx := slot_store slot v], pd)
       else decode_root elements (edx + 1) n (slots[edx := slot_store slot v]) opmd pd } }"

fun decode_extensions ::
  "bool \<Rightarrow> (nat \<Rightarrow> bool) \<Rightarrow> ('v, 'k) asn_TYPE_member list \<Rightarrow> nat \<Rightarrow> nat \<Rightarrow> 'v option list \<Rightarrow> bit_data \<Rightarrow> bit_data \<Rightarrow>
     (asn_dec_rval_code \<times> 'v option list \<times> bit_data \<times> bit_data) option" where
  "decode_extensions stack_ok can_alloc elements edx 0 slots epmd pd = Some (RC_OK, slots, epmd, pd)"
| "decode_extensions stack_ok can_alloc elements edx (Suc n) slots epmd pd = do {
     elm \<leftarrow> rd elements edx;
     slot \<leftarrow> rd slots edx;
     (present, epmd) \<leftarrow> asn_get_few_bits epmd 1;
     if present < 0 then Some (RC_OK, slots, epmd, pd)
     else if present = 0 then decode_extensions stack_ok can_alloc elements (edx + 1) n slots epmd pd
     else do {
       (code, v, pd) \<leftarrow> uper_open_type_get stack_ok can_alloc (elm_decoder elm) pd;
       if code \<noteq> RC_OK then Some (code, slots[edx := slot_store slot v], epmd, pd)
       else decode_extensions stack_ok can_alloc elements (edx + 1) n (slots[edx := slot_store slot v]) epmd pd } }"

partial_function (option) skip_extensions ::
  "bool \<Rightarrow> (nat \<Rightarrow> bool) \<Rightarrow> bit_data \<Rightarrow> bit_data \<Rightarrow> (asn_dec_rval_code \<times> bit_data) option" where
  [code]: "skip_extensions stack_ok can_alloc epmd pd =
     (case asn_get_few_bits epmd 1 of
        None \<Rightarrow> None
      | Some (b, epmd) \<Rightarrow>
          if b = -1 then Some (RC_OK, pd)
          else if b = 0 then skip_extensions stack_ok can_alloc epmd pd
          else
            case uper_open_type_skip stack_ok can_alloc pd of
              None \<Rightarrow> None
            | Some (r, pd) \<Rightarrow>
                if r \<noteq> 0 then Some (RC_WMORE, pd) else skip_extensions stack_ok can_alloc epmd pd)"

text \<open>DEFAULT members among the extensions that were not present.\<close>

fun fill_defaults :: "('v, 'k) asn_TYPE_member list \<Rightarrow> nat list \<Rightarrow> 'v option list \<Rightarrow> (int \<times> 'v option list) option" where
  "fill_defaults elements [] slots = Some (0, slots)"
| "fill_defaults elements (edx # is) slots = do {
     elm \<leftarrow> rd elements edx;
     slot \<leftarrow> rd slots edx;
     case elm_default_set elm of
       None \<Rightarrow> fill_defaults elements is slots
     | Some default_value_set \<Rightarrow>
         if \<not> elm_pointer elm \<or> slot \<noteq> None then fill_defaults elements is slots
         else
           let (r, slot) = default_value_set slot in
           if r \<noteq> 0 then Some (-1, slots[edx := slot]) else fill_defaults elements is (slots[edx := slot]) }"

definition decode_ext_part ::
  "bool \<Rightarrow> (nat \<Rightarrow> bool) \<Rightarrow> asn_SEQUENCE_specifics \<Rightarrow> ('v, 'k) asn_TYPE_member list \<Rightarrow> 'v option list \<Rightarrow> bit_data \<Rightarrow>
     (asn_dec_rval_code \<times> 'v option list \<times> bit_data) option" where
  "decode_ext_part stack_ok can_alloc specs elements slots pd = do {
     (bmlength, pd) \<leftarrow> uper_get_nslength pd;
     if bmlength < 0 then Some (RC_WMORE, slots, pd)
     else if \<not> can_alloc (drop_bit 3 (nat bmlength + 15)) then Some (RC_WMORE, slots, pd)
     else do {
       (r, epres, pd) \<leftarrow> asn_get_many_bits pd False bmlength;
       if r \<noteq> 0 then Some (RC_WMORE, slots, pd)
       else do {
         let edx = nat (first_extension specs);
         (code, slots, epmd, pd) \<leftarrow> decode_extensions stack_ok can_alloc elements edx (length elements - edx) slots
            (map_of_bits epres (nat bmlength)) pd;
         if code \<noteq> RC_OK then Some (code, slots, pd)
         else do {
           (code, pd) \<leftarrow> skip_extensions stack_ok can_alloc epmd pd;
           Some (code, slots, pd) } } } }"

definition SEQUENCE_decode_uper ::
  "bool \<Rightarrow> (nat \<Rightarrow> bool) \<Rightarrow> asn_SEQUENCE_specifics \<Rightarrow> ('v, 'k) asn_TYPE_member list \<Rightarrow> 'v option list per_decoder" where
  "SEQUENCE_decode_uper stack_ok can_alloc specs elements pd =
     (if \<not> stack_ok then Some (RC_FAIL, None, pd)
      else if \<not> can_alloc (sq_struct_size specs) then Some (RC_FAIL, None, pd)
      else do {
        let st = map slot_init elements;
        let ret = (\<lambda>code slots pd. Some (code, Some (slots, 0), pd));
        (extpresent, pd) \<leftarrow> (if first_extension specs < 0 then Some (0, pd) else asn_get_few_bits pd 1);
        if extpresent < 0 then ret RC_WMORE st pd
        else if roms_count specs \<noteq> 0 \<and> \<not> can_alloc (drop_bit 3 (roms_count specs + 7) + 1) then ret RC_FAIL st pd
        else do {
          (r, opmd, pd) \<leftarrow>
            (if roms_count specs \<noteq> 0 then do {
               (r, opres, pd) \<leftarrow> asn_get_many_bits pd False (int (roms_count specs));
               Some (r, map_of_bits opres (roms_count specs), pd) }
             else Some (0, empty_map, pd));
          if r \<noteq> 0 then ret RC_WMORE st pd
          else do {
            (code, slots, pd) \<leftarrow> decode_root elements 0 (root_count specs elements) st opmd pd;
            if code \<noteq> RC_OK then ret code slots pd
            else do {
              (code, slots, pd) \<leftarrow>
                (if extpresent \<noteq> 0 then decode_ext_part stack_ok can_alloc specs elements slots pd
                 else Some (RC_OK, slots, pd));
              if code \<noteq> RC_OK then ret code slots pd
              else do {
                (r, slots) \<leftarrow>
                  (if 0 \<le> first_extension specs
                   then do {
                     is \<leftarrow> mem_load (oms specs) (roms_count specs) (aoms_count specs);
                     fill_defaults elements is slots }
                   else Some (0, slots));
                ret (if r \<noteq> 0 then RC_FAIL else RC_OK) slots pd } } } } })"

text \<open>
  \<open>po1\<close> receives the presence bits, \<open>po2\<close> the open types; a null pointer receives nothing. The
  result is the number of extensions when one is present, else zero.
\<close>

fun handle_extensions ::
  "(nat \<Rightarrow> bool) \<Rightarrow> ('v, 'k) asn_TYPE_member list \<Rightarrow> 'v option list \<Rightarrow> nat \<Rightarrow> nat \<Rightarrow> 'k bit_outp option \<Rightarrow> 'k bit_outp option \<Rightarrow>
     int \<Rightarrow> int \<Rightarrow> (int \<times> 'k bit_outp option \<times> 'k bit_outp option) option" where
  "handle_extensions can_alloc elements slots edx 0 po1 po2 exts_present exts_count =
     Some (if exts_present \<noteq> 0 then exts_count else 0, po1, po2)"
| "handle_extensions can_alloc elements slots edx (Suc n) po1 po2 exts_present exts_count = do {
     elm \<leftarrow> rd elements edx;
     slot \<leftarrow> rd slots edx;
     let present = (if elm_pointer elm then slot \<noteq> None else True);
     (r, po1) \<leftarrow> (case po1 of
         Some po \<Rightarrow> do { (r, po) \<leftarrow> asn_put_few_bits po (if present then 1 else 0) 1; Some (r, Some po) }
       | None \<Rightarrow> Some (0, None));
     if r \<noteq> 0 then Some (-1, po1, po2)
     else do {
       (r, po2) \<leftarrow> (case po2 of
           Some po \<Rightarrow>
             if present then do {
               v \<leftarrow> slot;
               (r, po) \<leftarrow> uper_open_type_put can_alloc (Some (elm_open_encoder elm)) v po;
               Some (r, Some po) }
             else Some (0, Some po)
         | None \<Rightarrow> Some (0, None));
       if r \<noteq> 0 then Some (-1, po1, po2)
       else handle_extensions can_alloc elements slots (edx + 1) n po1 po2
              (exts_present + (if present then 1 else 0)) (exts_count + 1) } }"

definition SEQUENCE__handle_extensions ::
  "(nat \<Rightarrow> bool) \<Rightarrow> asn_SEQUENCE_specifics \<Rightarrow> ('v, 'k) asn_TYPE_member list \<Rightarrow> 'v option list \<Rightarrow> 'k bit_outp option \<Rightarrow>
     'k bit_outp option \<Rightarrow> (int \<times> 'k bit_outp option \<times> 'k bit_outp option) option" where
  "SEQUENCE__handle_extensions can_alloc specs elements slots po1 po2 =
     (if first_extension specs < 0 then Some (0, po1, po2)
      else let edx = nat (first_extension specs) in
        handle_extensions can_alloc elements slots edx (length elements - edx) po1 po2 0 0)"

text \<open>The value of a present member equals its default.\<close>

definition is_default :: "('v, 'k) asn_TYPE_member \<Rightarrow> 'v \<Rightarrow> bool" where
  "is_default elm v = (case elm_default_cmp elm of Some default_value_cmp \<Rightarrow> default_value_cmp v = 0 | None \<Rightarrow> False)"

fun put_presence ::
  "('v, 'k) asn_TYPE_member list \<Rightarrow> 'v option list \<Rightarrow> nat list \<Rightarrow> 'k bit_outp \<Rightarrow> (int \<times> 'k bit_outp) option" where
  "put_presence elements slots [] po = Some (0, po)"
| "put_presence elements slots (edx # is) po = do {
     elm \<leftarrow> rd elements edx;
     slot \<leftarrow> rd slots edx;
     let present = (case slot of Some v \<Rightarrow> \<not> is_default elm v | None \<Rightarrow> False);
     (r, po) \<leftarrow> asn_put_few_bits po (if present then 1 else 0) 1;
     if r \<noteq> 0 then Some (-1, po) else put_presence elements slots is po }"

fun put_members ::
  "('v, 'k) asn_TYPE_member list \<Rightarrow> 'v option list \<Rightarrow> nat \<Rightarrow> nat \<Rightarrow> int \<Rightarrow> 'k bit_outp \<Rightarrow> (int \<times> 'k bit_outp) option" where
  "put_members elements slots edx 0 er po = Some (er, po)"
| "put_members elements slots edx (Suc n) er po = do {
     elm \<leftarrow> rd elements edx;
     slot \<leftarrow> rd slots edx;
     case slot of
       None \<Rightarrow> if elm_optional elm then put_members elements slots (edx + 1) n er po else Some (-1, po)
     | Some v \<Rightarrow>
         if is_default elm v then put_members elements slots (edx + 1) n er po
         else do {
           (er, po) \<leftarrow> elm_encoder elm v po;
           if er = -1 then Some (-1, po) else put_members elements slots (edx + 1) n er po } }"

definition SEQUENCE_encode_uper ::
  "(nat \<Rightarrow> bool) \<Rightarrow> asn_SEQUENCE_specifics \<Rightarrow> ('v, 'k) asn_TYPE_member list \<Rightarrow> ('v option list, 'k) uper_encoder" where
  "SEQUENCE_encode_uper can_alloc specs elements slots po = do {
     (n_extensions, no1, no2) \<leftarrow> SEQUENCE__handle_extensions can_alloc specs elements slots (None :: 'k bit_outp option) None;
     if n_extensions < 0 then Some (-1, po)
     else do {
       (r, po) \<leftarrow> (if first_extension specs < 0 then Some (0, po)
                  else asn_put_few_bits po (if n_extensions \<noteq> 0 then 1 else 0) 1);
       if r \<noteq> 0 then Some (-1, po)
       else do {
         is \<leftarrow> mem_load (oms specs) 0 (roms_count specs);
         (r, po) \<leftarrow> put_presence elements slots is po;
         if r \<noteq> 0 then Some (-1, po)
         else do {
           (er, po) \<leftarrow> put_members elements slots 0 (root_count specs elements) 0 po;
           if er = -1 then Some (-1, po)
           else if n_extensions = 0 then Some (er, po)
           else do {
             (r, po) \<leftarrow> uper_put_nslength po (nat n_extensions);
             if r \<noteq> 0 then Some (-1, po)
             else do {
               (n1, po1, x) \<leftarrow> SEQUENCE__handle_extensions can_alloc specs elements slots (Some po) None;
               po \<leftarrow> po1;
               if n1 \<noteq> n_extensions then Some (-1, po)
               else do {
                 (n2, x, po2) \<leftarrow> SEQUENCE__handle_extensions can_alloc specs elements slots None (Some po);
                 po \<leftarrow> po2;
                 if n2 \<noteq> n_extensions then Some (-1, po) else Some (er, po) } } } } } } }"

section \<open>Open types of readable values\<close>

lemma reads_reader:
  "reads dec (bs, c, w) \<Longrightarrow> uper_reader dec (\<lambda>x. (fst x, 0 < snd x)) (\<lambda>a. if a = (w, c) then Some bs else None)"
proof
  fix a bs' and pd :: bit_data and rest
  assume r: "reads dec (bs, c, w)" and a: "(if a = (w, c) then Some bs else None) = Some bs'" "pd_inv pd" "pd_bits pd = bs' @ rest"
  then have e: "a = (w, c)" "bs' = bs" by (auto split: if_splits)
  from readsE [OF r a(2) a(3) [unfolded e(2)]] obtain n pd' where
    "dec pd = Some (RC_OK, Some (w, n), pd')" "0 < n \<longleftrightarrow> c" "pd_consumes pd bs pd'" .
  with e show "\<exists>x pd'. dec pd = Some (RC_OK, Some x, pd') \<and> (fst x, 0 < snd x) = a \<and> pd_consumes pd bs' pd'" by auto
qed

definition open_bits :: "bool list \<Rightarrow> bool list" where
  "open_bits bs = fragments_bits (per_complete bs)"

lemma reads_open_type: "reads dec (bs, c, w) \<Longrightarrow> reads (uper_open_type_get True (\<lambda>_. True) dec) (open_bits bs, c, w)"
  unfolding reads_def [of "uper_open_type_get _ _ _"]
proof (intro allI impI)
  fix pd :: bit_data and rest
  assume r: "reads dec (bs, c, w)" and pd: "pd_inv pd" "pd_bits pd = fst (open_bits bs, c, w) @ rest"
  from uper_reader.open_type_get_ok [OF reads_reader [OF r], of "(w, c)" bs pd rest "\<lambda>_. True"] pd
  show "\<exists>n pd'. uper_open_type_get True (\<lambda>_. True) dec pd = Some (RC_OK, Some (snd (snd (open_bits bs, c, w)), n), pd') \<and>
      (0 < n \<longleftrightarrow> fst (snd (open_bits bs, c, w))) \<and> pd_consumes pd (fst (open_bits bs, c, w)) pd'"
    by (auto simp: open_bits_def)
qed

lemma writes_open_type: "writes enc v bs \<Longrightarrow> writes (\<lambda>v. uper_open_type_put (\<lambda>_. True) (Some enc) v) v (open_bits bs)"
  unfolding writes_def [of "\<lambda>v. uper_open_type_put _ _ v"]
proof (intro allI impI)
  fix po assume w: "writes enc v bs" and po: "po_ok grow_cb dyn_inv po"
  obtain buf where b: "uper_encode_to_new_buffer (\<lambda>_. True) (Some enc) v = Some (int (length (per_complete bs)), Some buf)"
    "length (per_complete bs) \<le> length buf" "take (length (per_complete bs)) buf = per_complete bs"
    using writes_new_buffer [OF w] .
  have n: "0 < length (per_complete bs)" by (cases bs) (auto simp: per_complete_def simp del: list.size(3))
  from dyn.open_type_put_loop_ok [OF po n b(2)] b n
  show "po_puts grow_cb dyn_taken dyn_inv po 0 (open_bits bs) (uper_open_type_put (\<lambda>_. True) (Some enc) v po)"
    by (simp add: uper_open_type_put_def open_bits_def)
qed

text \<open>Skipping does not need the type.\<close>

lemma skip_open_type:
  assumes "pd_inv pd" "pd_bits pd = open_bits bs @ rest"
  shows "\<exists>pd'. uper_open_type_skip True (\<lambda>_. True) pd = Some (0, pd') \<and> pd_consumes pd (open_bits bs) pd'"
proof -
  from open_type_chunks_ok [OF assms(1), of "per_complete bs" rest "\<lambda>_. True"] assms(2) obtain pd1 where
    c: "open_type_chunks (\<lambda>_. True) pd = Some (Inr (per_complete bs), pd1)" "pd_consumes pd (open_bits bs) pd1"
    by (auto simp: open_bits_def)
  obtain spd where s: "sot_suck_loop \<lparr>pd_mem = per_complete bs, pd_buffer = 0, pd_nboff = 0, pd_nbits = 8 * length (per_complete bs), pd_moved = 0\<rparr> = Some spd"
    "pd_inv spd" "pd_bits spd = []"
    using sot_suck_ok [of "\<lparr>pd_mem = per_complete bs, pd_buffer = 0, pd_nboff = 0, pd_nbits = 8 * length (per_complete bs), pd_moved = 0\<rparr>"]
    by (auto simp: pd_inv_def)
  have "pd_nbits spd = pd_nboff spd" using s(2) length_pd_bits [OF s(2)] s(3) by (simp add: pd_inv_def)
  with c s(1) show ?thesis
    by (auto simp: uper_open_type_skip_def uper_open_type_get_def uper_open_type_get_simple_def uper_sot_suck_def Let_def)
qed

section \<open>The bits of a CHOICE\<close>

text \<open>X.691 #23: the index among the root alternatives in its width, or an extension in an open type.\<close>

definition choice_index :: "asn_CHOICE_specifics \<Rightarrow> nat \<Rightarrow> nat" where
  "choice_index specs p = (case to_canonical_order specs of Some order \<Rightarrow> order ! p | None \<Rightarrow> p)"

definition choice_extension :: "asn_CHOICE_specifics \<Rightarrow> nat \<Rightarrow> nat \<Rightarrow> bool list \<Rightarrow> bool list option" where
  "choice_extension specs elements_count q bs =
     (if 0 \<le> ext_start specs \<and> ext_start specs \<le> int q \<and> int q < ext_start specs + 64 \<and> q < elements_count \<and> int q \<le> INT_MAX
      then Some (be_bits 7 (nat (int q - ext_start specs)) @ open_bits bs) else None)"

definition choice_bits :: "asn_CHOICE_specifics \<Rightarrow> nat \<Rightarrow> asn_per_constraint option \<Rightarrow> nat \<Rightarrow> bool list \<Rightarrow> bool list option" where
  "choice_bits specs elements_count ct p bs =
     (let q = choice_index specs p; extension = choice_extension specs elements_count q bs in
      case ct of
        None \<Rightarrow> extension
      | Some c \<Rightarrow>
          if 0 \<le> ct_range_bits c then
            if ct_lower_bound c \<le> int q \<and> int q \<le> ct_upper_bound c then
              if ct_range_bits c \<le> 31 \<and> q < 2 ^ nat (ct_range_bits c)
              then Some (ext_bit c False @ be_bits (nat (ct_range_bits c)) q @ bs) else None
            else if ct_has c APC_EXTENSIBLE then map_option (\<lambda>bs. True # bs) extension else None
          else map_option (\<lambda>bs. ext_bit c False @ bs) extension)"

definition canonical_order_ok :: "asn_CHOICE_specifics \<Rightarrow> nat \<Rightarrow> bool" where
  "canonical_order_ok specs p =
     (case (to_canonical_order specs, from_canonical_order specs) of
        (None, None) \<Rightarrow> True
      | (Some to, Some from) \<Rightarrow> p < length to \<and> to ! p < length from \<and> from ! (to ! p) = p
      | _ \<Rightarrow> False)"

lemma choice_bitsE:
  assumes "choice_bits specs n ct p bs = Some xs" and q: "q = choice_index specs p"
  obtains ext b ct' ys where "xs = (if ext then [b] else []) @ ys" "ext = (case ct of Some c \<Rightarrow> ct_has c APC_EXTENSIBLE | None \<Rightarrow> False)"
    "ct' = (if ext \<and> b then None else ct)"
    "\<forall>po :: 'k bit_outp. CHOICE_put_root ct (int q) po = do {
        (r, po) \<leftarrow> (if ext then asn_put_few_bits po (if b then 1 else 0) 1 else Some (0, po));
        Some (if r \<noteq> 0 then -1 else 0, ct', po) }"
    "(\<exists>c. ranged ct' = Some c \<and> ct_range_bits c \<le> 31 \<and> q < 2 ^ nat (ct_range_bits c) \<and> 0 \<le> ct_range_bits c \<and>
        int q \<le> ct_upper_bound c \<and> ys = be_bits (nat (ct_range_bits c)) q @ bs) \<or>
     ranged ct' = None \<and> 0 \<le> ext_start specs \<and> ext_start specs \<le> int q \<and>
       int q < ext_start specs + 64 \<and> q < n \<and> int q \<le> INT_MAX \<and>
       ys = be_bits 7 (nat (int q - ext_start specs)) @ open_bits bs"
proof -
  have xt: "choice_extension specs n q bs = Some ys \<Longrightarrow> 0 \<le> ext_start specs \<and> ext_start specs \<le> int q \<and>
       int q < ext_start specs + 64 \<and> q < n \<and> int q \<le> INT_MAX \<and>
       ys = be_bits 7 (nat (int q - ext_start specs)) @ open_bits bs" for ys
    by (simp add: choice_extension_def split: if_splits)
  show thesis
  proof (cases ct)
    case None
    with assms have "choice_extension specs n q bs = Some xs" by (simp add: choice_bits_def Let_def)
    note e = xt [OF this]
    have "\<forall>po :: 'k bit_outp. CHOICE_put_root ct (int q) po = do {
        (r, po) \<leftarrow> (if False then asn_put_few_bits po (if False then 1 else 0) 1 else Some (0, po));
        Some (if r \<noteq> 0 then -1 else 0, None, po) }"
      by (simp add: CHOICE_put_root_def None)
    then show ?thesis by (rule that [of False False xs None, rotated 3]) (use e in \<open>simp_all add: ranged_def None\<close>)
  next
    case (Some c)
    show ?thesis
    proof (cases "0 \<le> ct_range_bits c \<and> \<not> (ct_lower_bound c \<le> int q \<and> int q \<le> ct_upper_bound c)")
      case True
      then have out: "int q < ct_lower_bound c \<or> ct_upper_bound c < int q" by auto
      from True Some assms have e: "ct_has c APC_EXTENSIBLE" "map_option (\<lambda>bs. True # bs) (choice_extension specs n q bs) = Some xs"
        by (simp_all add: choice_bits_def Let_def split: if_splits)
      from e(2) obtain ys where ys: "xs = True # ys" "choice_extension specs n q bs = Some ys" by auto
      show ?thesis
      proof (rule that [of True True ys None])
        show "\<forall>po :: 'k bit_outp. CHOICE_put_root ct (int q) po = do {
            (r, po) \<leftarrow> (if True then asn_put_few_bits po (if True then 1 else 0) 1 else Some (0, po));
            Some (if r \<noteq> 0 then -1 else 0, None, po) }"
        proof
          fix po :: "'k bit_outp"
          show "CHOICE_put_root ct (int q) po = do {
            (r, po) \<leftarrow> (if True then asn_put_few_bits po (if True then 1 else 0) 1 else Some (0, po));
            Some (if r \<noteq> 0 then -1 else 0, None, po) }"
            using out True e(1) by (cases "asn_put_few_bits po 1 1") (auto simp: CHOICE_put_root_def Some)
        qed
      qed (use ys(1) xt [OF ys(2)] e(1) Some in \<open>simp_all add: ranged_def\<close>)
    next
      case False
      have in_root: "\<not> (0 \<le> ct_range_bits c \<and> (int q < ct_lower_bound c \<or> ct_upper_bound c < int q))" using False by auto
      have put: "\<forall>po :: 'k bit_outp. CHOICE_put_root ct (int q) po = do {
            (r, po) \<leftarrow> (if ct_has c APC_EXTENSIBLE then asn_put_few_bits po (if False then 1 else 0) 1 else Some (0, po));
            Some (if r \<noteq> 0 then -1 else 0, ct, po) }"
        unfolding CHOICE_put_root_def Some option.case if_not_P [OF in_root] by simp
      show ?thesis
      proof (cases "0 \<le> ct_range_bits c")
        case True
        with False Some assms have "xs = ext_bit c False @ be_bits (nat (ct_range_bits c)) q @ bs" "ct_range_bits c \<le> 31"
          "q < 2 ^ nat (ct_range_bits c)" "int q \<le> ct_upper_bound c"
          by (simp_all add: choice_bits_def Let_def split: if_splits)
        with put True Some show ?thesis
          by (intro that [of "ct_has c APC_EXTENSIBLE" False "be_bits (nat (ct_range_bits c)) q @ bs" ct]) (simp_all add: ext_bit_def ranged_def)
      next
        case neg: False
        with Some assms obtain ys where ys: "choice_extension specs n q bs = Some ys" "xs = ext_bit c False @ ys"
          by (auto simp: choice_bits_def Let_def)
        show ?thesis
          by (rule that [of "ct_has c APC_EXTENSIBLE" False ys ct]) (use put neg Some ys(2) xt [OF ys(1)] in \<open>simp_all add: ext_bit_def ranged_def\<close>)
      qed
    qed
  qed
qed

text \<open>The alternative \<open>p\<close> of a choice, with the coding of its value.\<close>

lemma choice_codes:
  assumes "choice_bits specs (length elements) (choice_constraint tdc cs) p bs = Some xs"
    and p: "p < length elements" "canonical_order_ok specs p"
    and m: "writes (elm_encoder (elements ! p)) v bs" "writes (elm_open_encoder (elements ! p)) v bs"
      "reads (elm_decoder (elements ! p)) (bs, c, w)"
  shows "writes (CHOICE_encode_uper (\<lambda>_. True) specs elements tdc cs) \<lparr>ch_present = p + 1, ch_memb = Some v\<rparr> xs"
    and "reads (CHOICE_decode_uper True (\<lambda>_. True) specs elements tdc cs) (xs, c, \<lparr>ch_present = p + 1, ch_memb = Some w\<rparr>)"
proof -
  define q where "q = choice_index specs p"
  define elm where "elm = elements ! p"
  define ct where "ct = choice_constraint tdc cs"
  have order: "(case to_canonical_order specs of Some order \<Rightarrow> rd order p | None \<Rightarrow> Some p) = Some q"
    "(case from_canonical_order specs of Some order \<Rightarrow> rd order q | None \<Rightarrow> Some q) = Some p"
    using p(2) by (auto simp: canonical_order_ok_def q_def choice_index_def split: option.splits)
  have elm: "rd elements p = Some elm" using p(1) by (simp add: elm_def)
  obtain ext b ct' ys where h: "xs = (if ext then [b] else []) @ ys"
    "ext = (case ct of Some c \<Rightarrow> ct_has c APC_EXTENSIBLE | None \<Rightarrow> False)" "ct' = (if ext \<and> b then None else ct)"
    "\<forall>po :: enc_dyn_arg bit_outp. CHOICE_put_root ct (int q) po = do {
        (r, po) \<leftarrow> (if ext then asn_put_few_bits po (if b then 1 else 0) 1 else Some (0, po));
        Some (if r \<noteq> 0 then -1 else 0, ct', po) }"
    and k: "(\<exists>c. ranged ct' = Some c \<and> ct_range_bits c \<le> 31 \<and> q < 2 ^ nat (ct_range_bits c) \<and> 0 \<le> ct_range_bits c \<and>
        int q \<le> ct_upper_bound c \<and> ys = be_bits (nat (ct_range_bits c)) q @ bs) \<or>
     ranged ct' = None \<and> 0 \<le> ext_start specs \<and> ext_start specs \<le> int q \<and> int q < ext_start specs + 64 \<and> q < length elements \<and>
       int q \<le> INT_MAX \<and> ys = be_bits 7 (nat (int q - ext_start specs)) @ open_bits bs"
    by (rule choice_bitsE [OF assms(1) [folded ct_def] q_def])
  show "writes (CHOICE_encode_uper (\<lambda>_. True) specs elements tdc cs) \<lparr>ch_present = p + 1, ch_memb = Some v\<rparr> xs"
    unfolding writes_def
  proof (intro allI impI)
    fix po assume po: "po_ok grow_cb dyn_inv po"
    define body where "body po = (case ranged ct' of
                 Some c \<Rightarrow> do {
                   (r, po) \<leftarrow> asn_put_few_bits po (of_nat q) (ct_range_bits c);
                   if r \<noteq> 0 then Some (-1, po) else elm_encoder elm v po }
               | None \<Rightarrow>
                   if ext_start specs = -1 then Some (-1, po)
                   else do {
                     (r, po) \<leftarrow> uper_put_nsnnwn po (int q - ext_start specs);
                     if r \<noteq> 0 then Some (-1, po)
                     else do {
                       (r, po) \<leftarrow> uper_open_type_put (\<lambda>_. True) (Some (elm_open_encoder elm)) v po;
                       Some (if r \<noteq> 0 then -1 else 0, po) } })" for po
    have enc: "CHOICE_encode_uper (\<lambda>_. True) specs elements tdc cs \<lparr>ch_present = p + 1, ch_memb = Some v\<rparr> po =
      (if ext then asn_put_few_bits po (if b then 1 else 0) 1 else Some (0, po)) \<bind> (\<lambda>(r, po). if r \<noteq> 0 then Some (-1, po) else body po)"
      using p(1) order(1) elm unfolding CHOICE_encode_uper_def ct_def [symmetric]
      by (cases "if ext then asn_put_few_bits po (if b then 1 else 0) 1 else Some (0, po)") (auto simp: h(4) [rule_format] body_def)
    have "po_puts grow_cb dyn_taken dyn_inv po1 0 ys (body po1)" if po1: "po_ok grow_cb dyn_inv po1" for po1
      using k
    proof (elim disjE exE conjE)
      fix c assume c: "ranged ct' = Some c" "ct_range_bits c \<le> 31" "0 \<le> ct_range_bits c"
        "ys = be_bits (nat (ct_range_bits c)) q @ bs"
      have n: "ct_range_bits c = int (nat (ct_range_bits c))" "nat (ct_range_bits c) \<le> 31" using c by simp_all
      have "po_puts grow_cb dyn_taken dyn_inv po1 0 ys (asn_put_few_bits po1 (of_nat q) (ct_range_bits c) \<bind>
          (\<lambda>(r, po). if r \<noteq> 0 then Some (-1, po) else elm_encoder elm v po))"
        unfolding c(4) by (rule po_puts_then [OF dyn.put_number [OF po1 n(1,2)]]) (rule writesD [OF m(1) [folded elm_def]])
      then show ?thesis by (simp add: body_def c(1))
    next
      assume c: "ranged ct' = None" "0 \<le> ext_start specs" "ext_start specs \<le> int q" "int q < ext_start specs + 64"
        "ys = be_bits 7 (nat (int q - ext_start specs)) @ open_bits bs"
      have n: "int q - ext_start specs = int (nat (int q - ext_start specs))" "nat (int q - ext_start specs) < 64" using c by simp_all
      have "po_puts grow_cb dyn_taken dyn_inv po1 0 ys (uper_put_nsnnwn po1 (int (nat (int q - ext_start specs))) \<bind>
          (\<lambda>(r, po). if r \<noteq> 0 then Some (-1, po) else uper_open_type_put (\<lambda>_. True) (Some (elm_open_encoder elm)) v po \<bind>
              (\<lambda>(r, po). Some (if r \<noteq> 0 then -1 else 0, po))))"
        unfolding c(5)
        by (rule po_puts_then [OF dyn.put_nsnnwn_small [OF po1 n(2)]], rule po_puts_result,
            rule writesD [OF writes_open_type [OF m(2) [folded elm_def]]])
      then show ?thesis using c(1,2) unfolding n(1) [symmetric] by (simp add: body_def)
    qed
    from po_puts_then [OF dyn.put_ext [OF po, of ext b] this]
    show "po_puts grow_cb dyn_taken dyn_inv po 0 xs
        (CHOICE_encode_uper (\<lambda>_. True) specs elements tdc cs \<lparr>ch_present = p + 1, ch_memb = Some v\<rparr> po)"
      unfolding enc h(1) .
  qed
  show "reads (CHOICE_decode_uper True (\<lambda>_. True) specs elements tdc cs) (xs, c, \<lparr>ch_present = p + 1, ch_memb = Some w\<rparr>)"
    unfolding reads_def fst_conv snd_conv
  proof (intro allI impI)
    fix pd rest assume pd: "pd_inv pd" "pd_bits pd = xs @ rest"
    from pd(2) h(1) have "pd_bits pd = (if ext then [b] else []) @ ys @ rest" by simp
    from get_ext [OF pd(1) this] obtain pd1 where
      x: "(if ext then asn_get_few_bits pd 1 else Some (0, pd)) = Some (of_bool (ext \<and> b), pd1)"
        "pd_consumes pd (if ext then [b] else []) pd1" "pd_inv pd1" "pd_bits pd1 = ys @ rest" by blast
    have bit: "(case ct of Some c \<Rightarrow> if ct_has c APC_EXTENSIBLE then asn_get_few_bits pd 1 else Some (0, pd) | None \<Rightarrow> Some (0, pd)) =
        Some (of_bool (ext \<and> b), pd1)"
      using x(1) h(2) by (cases ct) (simp_all split del: if_split)
    have "\<exists>pd2 n pd3. CHOICE_get_index specs (length elements) ct' pd1 = Some (RC_OK, int q, pd2) \<and>
        (if ranged ct' \<noteq> None then elm_decoder elm pd2 else uper_open_type_get True (\<lambda>_. True) (elm_decoder elm) pd2) =
          Some (RC_OK, Some (w, n), pd3) \<and> (0 < n \<longleftrightarrow> c) \<and> pd_consumes pd1 ys pd3"
      using k
    proof (elim disjE exE conjE)
      fix d assume d: "ranged ct' = Some d" "ct_range_bits d \<le> 31" "0 \<le> ct_range_bits d" "q < 2 ^ nat (ct_range_bits d)"
        "int q \<le> ct_upper_bound d" "ys = be_bits (nat (ct_range_bits d)) q @ bs"
      have n: "ct_range_bits d = int (nat (ct_range_bits d))" "nat (ct_range_bits d) \<le> 31" using d by simp_all
      have "pd_bits pd1 = be_bits (nat (ct_range_bits d)) q @ bs @ rest" using x(4) d(6) by simp
      note g = get_number [OF x(3) this n(2,1) d(4)]
      from readsE [OF m(3) [folded elm_def] g(4,3)] obtain n pd3 where
        "elm_decoder elm (pd_skip (nat (ct_range_bits d)) pd1) = Some (RC_OK, Some (w, n), pd3)" "0 < n \<longleftrightarrow> c"
        "pd_consumes (pd_skip (nat (ct_range_bits d)) pd1) bs pd3" .
      with d g(1) pd_consumes_trans [OF g(2)] show ?thesis by (auto simp: CHOICE_get_index_def)
    next
      assume d: "ranged ct' = None" "0 \<le> ext_start specs" "ext_start specs \<le> int q" "int q < ext_start specs + 64" "q < length elements"
        "int q \<le> INT_MAX" "ys = be_bits 7 (nat (int q - ext_start specs)) @ open_bits bs"
      define j where "j = nat (int q - ext_start specs)"
      have j: "j < 64" "int j + ext_start specs = int q" using d by (simp_all add: j_def)
      have "pd_bits pd1 = be_bits 7 j @ open_bits bs @ rest" using x(4) d(7) by (simp add: j_def)
      note g = get_nsnnwn_small [OF x(3) j(1) this]
      from readsE [OF reads_open_type [OF m(3) [folded elm_def]] pd_consumesD(2) [OF g(2)] g(3)] obtain n pd3 where
        "uper_open_type_get True (\<lambda>_. True) (elm_decoder elm) (pd_skip 7 pd1) = Some (RC_OK, Some (w, n), pd3)" "0 < n \<longleftrightarrow> c"
        "pd_consumes (pd_skip 7 pd1) (open_bits bs) pd3" .
      moreover have "s32 (int j + ext_start specs) = Some (int q)" using j(2) d(6) by (simp add: s32_def limits_defs)
      ultimately show ?thesis using d(1,2,5,7) g(1) j pd_consumes_trans [OF g(2)]
        by (auto simp: CHOICE_get_index_def j_def [symmetric])
    qed
    then obtain pd2 n pd3 where y: "CHOICE_get_index specs (length elements) ct' pd1 = Some (RC_OK, int q, pd2)"
        "(if ranged ct' \<noteq> None then elm_decoder elm pd2 else uper_open_type_get True (\<lambda>_. True) (elm_decoder elm) pd2) =
          Some (RC_OK, Some (w, n), pd3)" "0 < n \<longleftrightarrow> c" "pd_consumes pd1 ys pd3" by blast
    define eb :: int where "eb = of_bool (ext \<and> b)"
    have eb: "\<not> eb < 0" "(if eb \<noteq> 0 then None else ct) = ct'" using h(3) by (simp_all add: eb_def)
    have oq: "(case from_canonical_order specs of Some order \<Rightarrow> rd order (nat (int q)) | None \<Rightarrow> Some (nat (int q))) = Some p"
      unfolding nat_int by (rule order(2))
    have "CHOICE_decode_uper True (\<lambda>_. True) specs elements tdc cs pd =
        Some (RC_OK, Some (\<lparr>ch_present = p + 1, ch_memb = Some w\<rparr>, n), pd3)"
      unfolding CHOICE_decode_uper_def ct_def [symmetric] Let_def bit eb_def [symmetric]
      using elm oq by (simp add: eb y(1,2) slot_store_def del: nat_int not_None_eq split del: if_split)
    with y(3) pd_consumes_trans [OF x(2) y(4)]
    show "\<exists>n pd'. CHOICE_decode_uper True (\<lambda>_. True) specs elements tdc cs pd =
        Some (RC_OK, Some (\<lparr>ch_present = p + 1, ch_memb = Some w\<rparr>, n), pd') \<and> (0 < n \<longleftrightarrow> c) \<and> pd_consumes pd xs pd'"
      by (auto simp: h(1))
  qed
qed

end
