(* ===== verification/Uper_Sequence.thy ===== *)
theory Uper_Sequence
  imports Uper_Struct
begin

unbundle bit_operations_syntax

text \<open>
  What the encoder of a SEQUENCE writes and its decoder reads, from the codings of its members; the
  reader may know fewer or more extensions than the writer.
\<close>

section \<open>The bits of a SEQUENCE\<close>

text \<open>
  The coding of a member is \<open>None\<close> when the encoding leaves the member out, because its slot is empty or
  holds the default. \<open>member_codes\<close> relates a slot to its coding in the root, \<open>addition_codes\<close> among the
  extensions, where a default value is written like any other; \<open>member_read\<close> is the slot that is read back.
\<close>

definition member_codes :: "('v, enc_dyn_arg) asn_TYPE_member \<Rightarrow> 'v option \<Rightarrow> 'v coding option \<Rightarrow> bool" where
  "member_codes elm slot x \<longleftrightarrow> elm_open_type_get elm = None \<and>
     (case x of
        None \<Rightarrow> elm_optional elm \<and> (case slot of Some v \<Rightarrow> is_default elm v | None \<Rightarrow> True) \<and>
          (case elm_default_set elm of Some dflt \<Rightarrow> fst (dflt (slot_init elm)) = 0 | None \<Rightarrow> True)
      | Some (bs, c, w) \<Rightarrow> (\<exists>v. slot = Some v \<and> \<not> is_default elm v \<and> writes (elm_encoder elm) v bs \<and> reads (elm_decoder elm) (bs, c, w)))"

definition addition_codes :: "('v, enc_dyn_arg) asn_TYPE_member \<Rightarrow> 'v option \<Rightarrow> 'v coding option \<Rightarrow> bool" where
  "addition_codes elm slot x \<longleftrightarrow>
     (case x of
        None \<Rightarrow> elm_pointer elm \<and> slot = None \<and> (case elm_default_set elm of Some dflt \<Rightarrow> fst (dflt None) = 0 | None \<Rightarrow> True)
      | Some (bs, c, w) \<Rightarrow> (\<exists>v. slot = Some v \<and> writes (elm_open_encoder elm) v bs \<and> reads (elm_decoder elm) (bs, c, w)))"

definition member_read :: "('v, 'k) asn_TYPE_member \<Rightarrow> 'v coding option \<Rightarrow> 'v option" where
  "member_read elm x =
     (case x of
        Some (bs, c, w) \<Rightarrow> Some w
      | None \<Rightarrow> (case elm_default_set elm of Some dflt \<Rightarrow> snd (dflt (slot_init elm)) | None \<Rightarrow> slot_init elm))"

definition root_bits :: "'v coding option \<Rightarrow> bool list" where
  "root_bits x = (case x of Some (bs, c, w) \<Rightarrow> bs | None \<Rightarrow> [])"

definition addition_bits :: "'v coding option \<Rightarrow> bool list" where
  "addition_bits x = (case x of Some (bs, c, w) \<Rightarrow> open_bits bs | None \<Rightarrow> [])"

lemma list_update_prefix:
  "k < length xs \<Longrightarrow> take k (xs[k := v]) @ ys @ drop (k + Suc n) (xs[k := v]) = take k xs @ ys @ drop (k + Suc n) xs"
  by simp

lemma slots_step:
  assumes "k < length xs"
  shows "take (Suc k) (xs[k := v]) @ ys @ drop (Suc k + n) (xs[k := v]) = take k xs @ (v # ys) @ drop (k + Suc n) xs"
  using assms by (simp add: take_Suc_conv_app_nth)

lemma slots_same:
  assumes "k < length xs" "xs ! k = v"
  shows "take (Suc k) xs @ ys @ drop (Suc k + n) xs = take k xs @ (v # ys) @ drop (k + Suc n) xs"
  using slots_step [OF assms(1), of v ys n] assms by (metis list_update_id)

text \<open>The root members: the encoder's presence bits and members, then the decoder's loop.\<close>

lemma put_presence_ok:
  assumes "\<forall>i\<in>set is. i < length E \<and> i < length S \<and> member_codes (E ! i) (S ! i) (X ! i)" "po_ok grow_cb dyn_inv po"
  shows "po_puts grow_cb dyn_taken dyn_inv po 0 (map (\<lambda>i. X ! i \<noteq> None) is) (put_presence E S is po)"
  using assms
proof (induction "is" arbitrary: po)
  case Nil
  then show ?case by (simp add: po_puts_Nil)
next
  case (Cons i "is")
  then have i: "i < length E" "i < length S" "member_codes (E ! i) (S ! i) (X ! i)" by auto
  have p: "(case S ! i of Some v \<Rightarrow> \<not> is_default (E ! i) v | None \<Rightarrow> False) = (X ! i \<noteq> None)"
    using i(3) by (auto simp: member_codes_def split: option.splits)
  have "po_puts grow_cb dyn_taken dyn_inv po 0 ([X ! i \<noteq> None] @ map (\<lambda>i. X ! i \<noteq> None) is)
    (asn_put_few_bits po (if X ! i \<noteq> None then 1 else 0) 1 \<bind> (\<lambda>(r, po). if r \<noteq> 0 then Some (-1, po) else put_presence E S is po))"
    by (rule po_puts_then [OF dyn.put_bit [OF Cons.prems(2)]]) (use Cons in auto)
  then show ?case using i(1,2) p by (simp add: Let_def)
qed

lemma put_members_ok:
  assumes "\<forall>i\<in>{edx..<edx + n}. i < length E \<and> i < length S \<and> member_codes (E ! i) (S ! i) (X ! i)" "po_ok grow_cb dyn_inv po"
  shows "po_puts grow_cb dyn_taken dyn_inv po 0 (concat (map (\<lambda>i. root_bits (X ! i)) [edx..<edx + n])) (put_members E S edx n 0 po)"
  using assms
proof (induction n arbitrary: edx po)
  case 0
  then show ?case by (simp add: po_puts_Nil)
next
  case (Suc n)
  then have i: "edx < length E" "edx < length S" "member_codes (E ! edx) (S ! edx) (X ! edx)" by auto
  have l: "[edx..<edx + Suc n] = edx # [Suc edx..<Suc edx + n]" by (simp add: upt_conv_Cons)
  have IH: "po_puts grow_cb dyn_taken dyn_inv po 0 (concat (map (\<lambda>i. root_bits (X ! i)) [Suc edx..<Suc edx + n]))
      (put_members E S (Suc edx) n 0 po)" if "po_ok grow_cb dyn_inv po" for po
    by (rule Suc.IH) (use Suc.prems that in auto)
  show ?case
  proof (cases "X ! edx")
    case None
    with i(3) have "elm_optional (E ! edx)" "case S ! edx of Some v \<Rightarrow> is_default (E ! edx) v | None \<Rightarrow> True"
      by (simp_all add: member_codes_def)
    with IH [OF Suc.prems(2)] i(1,2) show ?thesis unfolding l
      by (cases "S ! edx") (simp_all add: None root_bits_def)
  next
    case (Some x)
    obtain bs c w where x: "x = (bs, c, w)" by (cases x) auto
    with i(3) Some obtain v where v: "S ! edx = Some v" "\<not> is_default (E ! edx) v" "writes (elm_encoder (E ! edx)) v bs"
      by (auto simp: member_codes_def)
    from writesD [OF v(3) Suc.prems(2)] obtain po1 where
      1: "elm_encoder (E ! edx) v po = Some (0, po1)" "po_ok grow_cb dyn_inv po1" "po_emits dyn_taken po bs po1"
      using dyn_never_refuses by (auto simp: po_puts_def)
    define T where "T = concat (map (\<lambda>i. root_bits (X ! i)) [Suc edx..<Suc edx + n])"
    have b: "concat (map (\<lambda>i. root_bits (X ! i)) [edx..<edx + Suc n]) = bs @ T"
      unfolding l by (simp add: T_def Some x root_bits_def)
    have "put_members E S edx (Suc n) 0 po = put_members E S (Suc edx) n 0 po1" using i(1,2) v 1(1) by simp
    with IH [OF 1(2)] show ?thesis unfolding b T_def [symmetric]
      using po_emits_trans [OF 1(3)] by (auto simp: po_puts_def)
  qed
qed

lemma decode_root_ok:
  assumes "\<forall>i\<in>{edx..<edx + n}. i < length E \<and> member_codes (E ! i) (S ! i) (X ! i) \<and> slots ! i = slot_init (E ! i)"
    and "length slots = length E" "edx + n \<le> length E" "pd_inv opmd" "pd_inv pd"
    and "pd_bits opmd = map (\<lambda>i. X ! i \<noteq> None) (filter (\<lambda>i. elm_optional (E ! i)) [edx..<edx + n]) @ r"
    and "pd_bits pd = concat (map (\<lambda>i. root_bits (X ! i)) [edx..<edx + n]) @ rest"
  shows "\<exists>pd'. decode_root E edx n slots opmd pd =
      Some (RC_OK, take edx slots @ map (\<lambda>i. member_read (E ! i) (X ! i)) [edx..<edx + n] @ drop (edx + n) slots, pd') \<and>
    pd_consumes pd (concat (map (\<lambda>i. root_bits (X ! i)) [edx..<edx + n])) pd'"
  using assms
proof (induction n arbitrary: edx slots opmd pd)
  case 0
  then show ?case by simp
next
  case (Suc n)
  define elm where "elm = E ! edx"
  have i: "edx < length E" "edx < length slots" "member_codes elm (S ! edx) (X ! edx)" "slots ! edx = slot_init elm"
    using Suc.prems(1-3) by (auto simp: elm_def)
  have l: "[edx..<edx + Suc n] = edx # [Suc edx..<Suc edx + n]" by (simp add: upt_conv_Cons)
  have ot: "elm_open_type_get elm = None" using i(3) by (simp add: member_codes_def)
  obtain present opmd' where p: "(if elm_optional elm then asn_get_few_bits opmd 1 else Some (1, opmd)) = Some (present, opmd')"
    "present = 0 \<longleftrightarrow> X ! edx = None" "pd_inv opmd'"
    "pd_bits opmd' = map (\<lambda>i. X ! i \<noteq> None) (filter (\<lambda>i. elm_optional (E ! i)) [Suc edx..<Suc edx + n]) @ r"
  proof (cases "elm_optional elm")
    case False
    then have "X ! edx \<noteq> None" using i(3) by (cases "X ! edx") (auto simp: member_codes_def)
    with False Suc.prems(4,6) show ?thesis unfolding l by (intro that [of 1 opmd]) (simp_all add: elm_def)
  next
    case True
    with Suc.prems(6) have "pd_bits opmd = (X ! edx \<noteq> None) # map (\<lambda>i. X ! i \<noteq> None) (filter (\<lambda>i. elm_optional (E ! i)) [Suc edx..<Suc edx + n]) @ r"
      unfolding l by (simp add: elm_def)
    from get_bit [OF Suc.prems(4) this] obtain opmd1 where
      "asn_get_few_bits opmd 1 = Some (of_bool (X ! edx \<noteq> None), opmd1)" "pd_inv opmd1"
      "pd_bits opmd1 = map (\<lambda>i. X ! i \<noteq> None) (filter (\<lambda>i. elm_optional (E ! i)) [Suc edx..<Suc edx + n]) @ r" by blast
    with True show ?thesis
      by (intro that [of "of_bool (X ! edx \<noteq> None)" opmd1]) (simp_all del: not_None_eq)
  qed
  have IH: "\<exists>pd'. decode_root E (Suc edx) n slots' opmd' pd1 =
      Some (RC_OK, take (Suc edx) slots' @ map (\<lambda>i. member_read (E ! i) (X ! i)) [Suc edx..<Suc edx + n] @ drop (Suc edx + n) slots', pd') \<and>
    pd_consumes pd1 (concat (map (\<lambda>i. root_bits (X ! i)) [Suc edx..<Suc edx + n])) pd'"
    if "\<forall>i\<in>{Suc edx..<Suc edx + n}. slots' ! i = slots ! i" "length slots' = length slots" "pd_inv pd1"
      "pd_bits pd1 = concat (map (\<lambda>i. root_bits (X ! i)) [Suc edx..<Suc edx + n]) @ rest" for slots' pd1
    by (rule Suc.IH) (use Suc.prems(1-3) that p(3,4) in auto)
  show ?case
  proof (cases "X ! edx")
    case None
    then have b: "root_bits (X ! edx) = []" by (simp add: root_bits_def)
    define slots' where "slots' = (case elm_default_set elm of Some dflt \<Rightarrow> slots[edx := snd (dflt (slot_init elm))] | None \<Rightarrow> slots)"
    have pd: "pd_bits pd = concat (map (\<lambda>i. root_bits (X ! i)) [Suc edx..<Suc edx + n]) @ rest"
      using Suc.prems(7) unfolding l by (simp add: b)
    have mr: "slots' ! edx = member_read elm (X ! edx)" "length slots' = length slots" "\<forall>j. j \<noteq> edx \<longrightarrow> slots' ! j = slots ! j"
      "take edx slots' = take edx slots" "drop (edx + Suc n) slots' = drop (edx + Suc n) slots"
      using i(2,4) None by (auto simp: slots'_def member_read_def split: option.splits)
    have d0: "case elm_default_set elm of Some dflt \<Rightarrow> fst (dflt (slot_init elm)) = 0 | None \<Rightarrow> True"
      using i(3) None by (simp add: member_codes_def)
    have "decode_root E edx (Suc n) slots opmd pd = decode_root E (Suc edx) n slots' opmd' pd"
    proof (cases "elm_default_set elm")
      case None
      with i(1,2) p(1,2) \<open>X ! edx = None\<close> show ?thesis
        by (simp add: slots'_def elm_def [symmetric] split del: if_split)
    next
      case (Some dflt)
      obtain sl where "dflt (slot_init elm) = (0, sl)" using d0 Some by (cases "dflt (slot_init elm)") simp
      with i(1,2,4) p(1,2) Some \<open>X ! edx = None\<close> show ?thesis
        by (simp add: slots'_def elm_def [symmetric] split del: if_split)
    qed
    with IH [of slots' pd] mr(2,3) Suc.prems(5) pd slots_same [of edx slots'] mr i(2) show ?thesis
      unfolding l by (auto simp: b elm_def)
  next
    case (Some x)
    obtain bs c w where x: "x = (bs, c, w)" by (cases x) auto
    with i(3) Some have r: "reads (elm_decoder elm) (bs, c, w)" by (auto simp: member_codes_def)
    have b: "root_bits (X ! edx) = bs" by (simp add: Some x root_bits_def)
    have "pd_bits pd = bs @ concat (map (\<lambda>i. root_bits (X ! i)) [Suc edx..<Suc edx + n]) @ rest"
      using Suc.prems(7) unfolding l by (simp add: b)
    from readsE [OF r Suc.prems(5) this] obtain k pd1 where
      1: "elm_decoder elm pd = Some (RC_OK, Some (w, k), pd1)" "pd_consumes pd bs pd1" "pd_inv pd1"
        "pd_bits pd1 = concat (map (\<lambda>i. root_bits (X ! i)) [Suc edx..<Suc edx + n]) @ rest" by metis
    have mr: "member_read elm (X ! edx) = Some w" by (simp add: Some x member_read_def)
    have "decode_root E edx (Suc n) slots opmd pd = decode_root E (Suc edx) n (slots[edx := Some w]) opmd' pd1"
      using i(1,2) p(1,2) Some 1(1) ot by (simp add: elm_def [symmetric] slot_store_def split del: if_split)
    moreover from IH [of "slots[edx := Some w]" pd1] 1(3,4) obtain pd2 where
      "decode_root E (Suc edx) n (slots[edx := Some w]) opmd' pd1 =
        Some (RC_OK, take (Suc edx) (slots[edx := Some w]) @ map (\<lambda>i. member_read (E ! i) (X ! i)) [Suc edx..<Suc edx + n] @
          drop (Suc edx + n) (slots[edx := Some w]), pd2)"
      "pd_consumes pd1 (concat (map (\<lambda>i. root_bits (X ! i)) [Suc edx..<Suc edx + n])) pd2" by auto
    ultimately show ?thesis using slots_step [OF i(2), of "Some w"] pd_consumes_trans [OF 1(2)] unfolding l
      by (auto simp: b mr [unfolded elm_def])
  qed
qed

text \<open>The extensions: what the encoder counts, its presence bits and its open types.\<close>

lemma addition_present:
  "addition_codes elm slot x \<Longrightarrow> (if elm_pointer elm then slot \<noteq> None else True) = (x \<noteq> None)"
  by (auto simp: addition_codes_def split: option.splits)

lemma count_additions:
  assumes "\<forall>i\<in>{edx..<edx + n}. i < length E \<and> i < length S \<and> addition_codes (E ! i) (S ! i) (X ! i)" "0 \<le> a"
  shows "handle_extensions ca E S edx n None None a b =
    Some (if a \<noteq> 0 \<or> (\<exists>i\<in>{edx..<edx + n}. X ! i \<noteq> None) then b + int n else 0, None, None)"
  using assms
proof (induction n arbitrary: edx a b)
  case (Suc n)
  then have i: "edx < length E" "edx < length S" "addition_codes (E ! edx) (S ! edx) (X ! edx)" by auto
  have "{edx..<edx + Suc n} = insert edx {Suc edx..<Suc edx + n}" by auto
  then have ex: "(\<exists>i\<in>{edx..<edx + Suc n}. X ! i \<noteq> None) \<longleftrightarrow> X ! edx \<noteq> None \<or> (\<exists>i\<in>{Suc edx..<Suc edx + n}. X ! i \<noteq> None)" by simp
  have IH: "handle_extensions ca E S (Suc edx) n None None a' (b + 1) =
      Some (if a' \<noteq> 0 \<or> (\<exists>i\<in>{Suc edx..<Suc edx + n}. X ! i \<noteq> None) then b + 1 + int n else 0, None, None)" if "0 \<le> a'" for a'
    by (rule Suc.IH) (use Suc.prems that in auto)
  show ?case unfolding ex
    using i(1,2) IH [of a] IH [of "a + 1"] Suc.prems(2) addition_present [OF i(3)] by (cases "X ! edx") auto
qed simp

lemma put_addition_map:
  assumes "\<forall>i\<in>{edx..<edx + n}. i < length E \<and> i < length S \<and> addition_codes (E ! i) (S ! i) (X ! i)" "po_ok grow_cb dyn_inv po"
  shows "\<exists>r po'. handle_extensions ca E S edx n (Some po) None a b = Some (r, Some po', None) \<and>
    handle_extensions ca E S edx n (None :: enc_dyn_arg bit_outp option) None a b = Some (r, None, None) \<and>
    po_ok grow_cb dyn_inv po' \<and> po_emits dyn_taken po (map (\<lambda>i. X ! i \<noteq> None) [edx..<edx + n]) po'"
  using assms
proof (induction n arbitrary: edx po a b)
  case (Suc n)
  then have i: "edx < length E" "edx < length S" "addition_codes (E ! edx) (S ! edx) (X ! edx)" by auto
  have l: "[edx..<edx + Suc n] = edx # [Suc edx..<Suc edx + n]" by (simp add: upt_conv_Cons)
  from dyn.put_bit [OF Suc.prems(2), of "X ! edx \<noteq> None"] dyn_never_refuses obtain po1 where
    1: "asn_put_few_bits po (if X ! edx \<noteq> None then 1 else 0) 1 = Some (0, po1)" "po_ok grow_cb dyn_inv po1"
      "po_emits dyn_taken po [X ! edx \<noteq> None] po1" by (auto simp: po_puts_def)
  define a' where "a' = a + (if X ! edx \<noteq> None then 1 else 0)"
  obtain r po' where 2: "handle_extensions ca E S (Suc edx) n (Some po1) None a' (b + 1) = Some (r, Some po', None)"
    "handle_extensions ca E S (Suc edx) n (None :: enc_dyn_arg bit_outp option) None a' (b + 1) = Some (r, None, None)"
    "po_ok grow_cb dyn_inv po'" "po_emits dyn_taken po1 (map (\<lambda>i. X ! i \<noteq> None) [Suc edx..<Suc edx + n]) po'"
    using Suc.IH [of "Suc edx" po1 a' "b + 1"] Suc.prems(1) 1(2) by (auto simp del: upt_Suc)
  have "handle_extensions ca E S edx (Suc n) (Some po) None a b = Some (r, Some po', None)"
    "handle_extensions ca E S edx (Suc n) (None :: enc_dyn_arg bit_outp option) None a b = Some (r, None, None)"
    using i(1,2) 1(1) 2(1,2) unfolding a'_def
    by (simp_all add: Let_def addition_present [OF i(3)] del: not_None_eq split del: if_split)
  with 2(3) po_emits_trans [OF 1(3) 2(4)] show ?case unfolding l by (auto simp del: upt_Suc)
qed simp

lemma put_addition_types:
  assumes "\<forall>i\<in>{edx..<edx + n}. i < length E \<and> i < length S \<and> addition_codes (E ! i) (S ! i) (X ! i)" "po_ok grow_cb dyn_inv po"
  shows "\<exists>r po'. handle_extensions (\<lambda>_. True) E S edx n None (Some po) a b = Some (r, None, Some po') \<and>
    handle_extensions (\<lambda>_. True) E S edx n (None :: enc_dyn_arg bit_outp option) None a b = Some (r, None, None) \<and>
    po_ok grow_cb dyn_inv po' \<and> po_emits dyn_taken po (concat (map (\<lambda>i. addition_bits (X ! i)) [edx..<edx + n])) po'"
  using assms
proof (induction n arbitrary: edx po a b)
  case (Suc n)
  define slot where "slot = S ! edx"
  from Suc have i: "edx < length E" "rd S edx = Some slot" "addition_codes (E ! edx) slot (X ! edx)" by (auto simp: slot_def)
  have l: "[edx..<edx + Suc n] = edx # [Suc edx..<Suc edx + n]" by (simp add: upt_conv_Cons)
  obtain po1 where 1: "po_ok grow_cb dyn_inv po1" "po_emits dyn_taken po (addition_bits (X ! edx)) po1"
    "(if X ! edx \<noteq> None then do {
        v \<leftarrow> slot;
        (r, po) \<leftarrow> uper_open_type_put (\<lambda>_. True) (Some (elm_open_encoder (E ! edx))) v po;
        Some (r, Some po) }
      else Some (0, Some po)) = Some (0, Some po1)"
  proof (cases "X ! edx")
    case None
    with Suc.prems(2) show ?thesis by (intro that [of po]) (simp_all add: addition_bits_def)
  next
    case (Some x)
    obtain bs c w where x: "x = (bs, c, w)" by (cases x) auto
    with i(3) Some obtain v where v: "slot = Some v" "writes (elm_open_encoder (E ! edx)) v bs"
      by (auto simp: addition_codes_def)
    from writesD [OF writes_open_type [OF v(2)] Suc.prems(2)] dyn_never_refuses obtain po1 where
      "uper_open_type_put (\<lambda>_. True) (Some (elm_open_encoder (E ! edx))) v po = Some (0, po1)" "po_ok grow_cb dyn_inv po1"
      "po_emits dyn_taken po (open_bits bs) po1" by (auto simp: po_puts_def)
    with Some v(1) x show ?thesis by (intro that [of po1]) (simp_all add: addition_bits_def)
  qed
  define a' where "a' = a + (if X ! edx \<noteq> None then 1 else 0)"
  obtain r po' where 2: "handle_extensions (\<lambda>_. True) E S (Suc edx) n None (Some po1) a' (b + 1) = Some (r, None, Some po')"
    "handle_extensions (\<lambda>_. True) E S (Suc edx) n (None :: enc_dyn_arg bit_outp option) None a' (b + 1) = Some (r, None, None)"
    "po_ok grow_cb dyn_inv po'" "po_emits dyn_taken po1 (concat (map (\<lambda>i. addition_bits (X ! i)) [Suc edx..<Suc edx + n])) po'"
    using Suc.IH [of "Suc edx" po1 a' "b + 1"] Suc.prems(1) 1(1) by (auto simp del: upt_Suc)
  have "handle_extensions (\<lambda>_. True) E S edx (Suc n) None (Some po) a b = Some (r, None, Some po')"
    "handle_extensions (\<lambda>_. True) E S edx (Suc n) (None :: enc_dyn_arg bit_outp option) None a b = Some (r, None, None)"
    using i(1,2) 2(1,2) unfolding a'_def
    by (simp_all add: Let_def addition_present [OF i(3)] 1(3) del: not_None_eq split del: if_split)
  with 2(3) po_emits_trans [OF 1(2) 2(4)] show ?case unfolding l by (auto simp del: upt_Suc)
qed simp

text \<open>
  The extensions that are read: the presence bits may be fewer than the members that the reader knows, or
  more; \<open>m\<close> of them are for known members.
\<close>

definition addition_slot :: "('v, 'k) asn_TYPE_member \<Rightarrow> 'v coding option \<Rightarrow> 'v option" where
  "addition_slot elm x = (case x of Some (bs, c, w) \<Rightarrow> Some w | None \<Rightarrow> slot_init elm)"

lemma decode_extensions_ok:
  assumes "\<forall>i\<in>{edx..<edx + m}. addition_codes (E ! i) (S ! i) (X ! i) \<and> slots ! i = slot_init (E ! i)"
    and "length slots = length E" "edx + n \<le> length E" "m \<le> n" "m = n \<or> r = []" "pd_inv epmd" "pd_inv pd"
    and "pd_bits epmd = map (\<lambda>i. X ! i \<noteq> None) [edx..<edx + m] @ r"
    and "pd_bits pd = concat (map (\<lambda>i. addition_bits (X ! i)) [edx..<edx + m]) @ rest"
  shows "\<exists>epmd' pd'. decode_extensions True (\<lambda>_. True) E edx n slots epmd pd =
      Some (RC_OK, take edx slots @ map (\<lambda>i. addition_slot (E ! i) (X ! i)) [edx..<edx + m] @ drop (edx + m) slots, epmd', pd') \<and>
    pd_inv epmd' \<and> pd_bits epmd' = r \<and> pd_consumes pd (concat (map (\<lambda>i. addition_bits (X ! i)) [edx..<edx + m])) pd'"
  using assms
proof (induction n arbitrary: edx m slots epmd pd)
  case 0
  then show ?case by simp
next
  case (Suc n)
  define elm where "elm = E ! edx"
  have e: "rd E edx = Some elm" "edx < length slots" using Suc.prems(2,3) by (auto simp: elm_def)
  show ?case
  proof (cases m)
    case 0
    then have "pd_bits epmd = []" using Suc.prems(5,8) by simp
    then have "asn_get_few_bits epmd 1 = Some (-1, epmd)"
      by (intro get_few_bits_starved [of epmd 1, simplified]) (use Suc.prems(6) in simp_all)
    with 0 e Suc.prems(6,7,8) \<open>pd_bits epmd = []\<close> show ?thesis by simp
  next
    case m: (Suc k)
    have l: "[edx..<edx + m] = edx # [Suc edx..<Suc edx + k]" unfolding m by (simp add: upt_conv_Cons)
    have i: "addition_codes elm (S ! edx) (X ! edx)" "slots ! edx = slot_init elm" using Suc.prems(1) m by (auto simp: elm_def)
    from Suc.prems(8) have "pd_bits epmd = (X ! edx \<noteq> None) # map (\<lambda>i. X ! i \<noteq> None) [Suc edx..<Suc edx + k] @ r"
      unfolding l by simp
    from get_bit [OF Suc.prems(6) this] obtain epmd1 where
      p: "asn_get_few_bits epmd 1 = Some (of_bool (X ! edx \<noteq> None), epmd1)" "pd_inv epmd1"
        "pd_bits epmd1 = map (\<lambda>i. X ! i \<noteq> None) [Suc edx..<Suc edx + k] @ r" by blast
    define val where "val = addition_slot elm (X ! edx)"
    define slots' where "slots' = slots[edx := val]"
    have IH: "\<exists>epmd' pd'. decode_extensions True (\<lambda>_. True) E (Suc edx) n slots' epmd1 pd1 =
        Some (RC_OK, take (Suc edx) slots' @ map (\<lambda>i. addition_slot (E ! i) (X ! i)) [Suc edx..<Suc edx + k] @ drop (Suc edx + k) slots', epmd', pd') \<and>
      pd_inv epmd' \<and> pd_bits epmd' = r \<and> pd_consumes pd1 (concat (map (\<lambda>i. addition_bits (X ! i)) [Suc edx..<Suc edx + k])) pd'"
      if "pd_inv pd1" "pd_bits pd1 = concat (map (\<lambda>i. addition_bits (X ! i)) [Suc edx..<Suc edx + k]) @ rest" for pd1
      by (rule Suc.IH) (use Suc.prems(1-5) that p(2,3) m in \<open>auto simp: slots'_def\<close>)
    obtain pd1 where 1: "decode_extensions True (\<lambda>_. True) E edx (Suc n) slots epmd pd =
        decode_extensions True (\<lambda>_. True) E (Suc edx) n slots' epmd1 pd1"
      "pd_consumes pd (addition_bits (X ! edx)) pd1" "pd_inv pd1"
      "pd_bits pd1 = concat (map (\<lambda>i. addition_bits (X ! i)) [Suc edx..<Suc edx + k]) @ rest"
    proof (cases "X ! edx")
      case None
      then have "slots' = slots" using i(2) e(2) by (simp add: slots'_def val_def addition_slot_def flip: i(2))
      with None e p(1) Suc.prems(7,9) show ?thesis
        by (intro that [of pd]) (simp_all add: l addition_bits_def del: upt_Suc)
    next
      case (Some x)
      obtain bs c w where x: "x = (bs, c, w)" by (cases x) auto
      with i(1) Some have "reads (elm_decoder elm) (bs, c, w)" by (auto simp: addition_codes_def)
      note r = reads_open_type [OF this]
      have "pd_bits pd = open_bits bs @ concat (map (\<lambda>i. addition_bits (X ! i)) [Suc edx..<Suc edx + k]) @ rest"
        using Suc.prems(9) unfolding l by (simp add: Some x addition_bits_def)
      from readsE [OF r Suc.prems(7) this] obtain j pd1 where
        "uper_open_type_get True (\<lambda>_. True) (elm_decoder elm) pd = Some (RC_OK, Some (w, j), pd1)" "pd_consumes pd (open_bits bs) pd1"
        "pd_inv pd1" "pd_bits pd1 = concat (map (\<lambda>i. addition_bits (X ! i)) [Suc edx..<Suc edx + k]) @ rest" by metis
      with Some x e p(1) show ?thesis
        by (intro that [of pd1]) (simp_all add: slots'_def val_def slot_store_def addition_slot_def addition_bits_def del: upt_Suc)
    qed
    from IH [OF 1(3,4)] obtain epmd' pd' where
      2: "decode_extensions True (\<lambda>_. True) E (Suc edx) n slots' epmd1 pd1 =
        Some (RC_OK, take (Suc edx) slots' @ map (\<lambda>i. addition_slot (E ! i) (X ! i)) [Suc edx..<Suc edx + k] @ drop (Suc edx + k) slots', epmd', pd')"
      "pd_inv epmd'" "pd_bits epmd' = r" "pd_consumes pd1 (concat (map (\<lambda>i. addition_bits (X ! i)) [Suc edx..<Suc edx + k])) pd'" by blast
    have "take (Suc edx) slots' @ map (\<lambda>i. addition_slot (E ! i) (X ! i)) [Suc edx..<Suc edx + k] @ drop (Suc edx + k) slots' =
        take edx slots @ map (\<lambda>i. addition_slot (E ! i) (X ! i)) [edx..<edx + m] @ drop (edx + m) slots"
      unfolding l slots'_def slots_step [OF e(2)] by (simp add: val_def elm_def m del: upt_Suc)
    with 1(1) 2 pd_consumes_trans [OF 1(2) 2(4)] show ?thesis unfolding l by (auto simp del: upt_Suc)
  qed
qed

lemma skip_extensions_ok:
  assumes "pd_inv epmd" "pd_inv pd" "pd_bits epmd = map (\<lambda>x. x \<noteq> None) xs" "pd_bits pd = concat (map addition_bits xs) @ rest"
  shows "\<exists>pd'. skip_extensions True (\<lambda>_. True) epmd pd = Some (RC_OK, pd') \<and> pd_consumes pd (concat (map addition_bits xs)) pd'"
  using assms
proof (induction xs arbitrary: epmd pd)
  case Nil
  then have "asn_get_few_bits epmd 1 = Some (-1, epmd)"
    by (intro get_few_bits_starved [of epmd 1, simplified]) simp_all
  with Nil show ?case by (subst skip_extensions.simps) simp
next
  case (Cons x xs)
  have "pd_bits epmd = (x \<noteq> None) # map (\<lambda>x. x \<noteq> None) xs" using Cons.prems(3) by simp
  from get_bit [OF Cons.prems(1) this] obtain epmd1 where
    p: "asn_get_few_bits epmd 1 = Some (of_bool (x \<noteq> None), epmd1)" "pd_inv epmd1" "pd_bits epmd1 = map (\<lambda>x. x \<noteq> None) xs" by blast
  show ?case
  proof (cases x)
    case None
    then have "addition_bits x = []" by (simp add: addition_bits_def)
    with Cons.IH [OF p(2) Cons.prems(2) p(3)] Cons.prems(4) p(1) None show ?thesis
      by (subst skip_extensions.simps) simp
  next
    case (Some y)
    obtain bs c w where y: "y = (bs, c, w)" by (cases y) auto
    have nz: "(x = None) = False" by (simp add: Some)
    have b: "addition_bits x = open_bits bs" by (simp add: Some y addition_bits_def)
    have "pd_bits pd = open_bits bs @ concat (map addition_bits xs) @ rest" using Cons.prems(4) by (simp add: b)
    from skip_open_type [OF Cons.prems(2) this] obtain pd1 where
      1: "uper_open_type_skip True (\<lambda>_. True) pd = Some (0, pd1)" "pd_consumes pd (open_bits bs) pd1" by blast
    have "pd_bits pd1 = concat (map addition_bits xs) @ rest"
      using pd_consumesD(3) [OF 1(2)] Cons.prems(4) by (simp add: b)
    from Cons.IH [OF p(2) pd_consumesD(2) [OF 1(2)] p(3) this] obtain pd' where
      "skip_extensions True (\<lambda>_. True) epmd1 pd1 = Some (RC_OK, pd')" "pd_consumes pd1 (concat (map addition_bits xs)) pd'" by blast
    with p(1) 1 pd_consumes_trans [OF 1(2)] show ?thesis
      by (subst skip_extensions.simps) (auto simp: b nz simp del: not_None_eq)
  qed
qed

lemma fill_defaults_ok:
  assumes "\<forall>i\<in>set is. i < length E" "length slots = length E" "distinct is"
    and "\<forall>i\<in>set is. elm_pointer (E ! i) \<and> slots ! i = None \<longrightarrow>
      (case elm_default_set (E ! i) of Some dflt \<Rightarrow> fst (dflt None) = 0 | None \<Rightarrow> True)"
  shows "\<exists>slots'. fill_defaults E is slots = Some (0, slots') \<and> length slots' = length E \<and>
    (\<forall>j<length E. slots' ! j = (if j \<in> set is \<and> elm_pointer (E ! j) \<and> slots ! j = None
       then (case elm_default_set (E ! j) of Some dflt \<Rightarrow> snd (dflt None) | None \<Rightarrow> None) else slots ! j))"
  using assms
proof (induction "is" arbitrary: slots)
  case (Cons i "is")
  then have i: "i < length E" "i < length slots" by auto
  show ?case
  proof (cases "elm_default_set (E ! i) = None \<or> \<not> elm_pointer (E ! i) \<or> slots ! i \<noteq> None")
    case True
    have "\<exists>slots'. fill_defaults E is slots = Some (0, slots') \<and> length slots' = length E \<and>
      (\<forall>j<length E. slots' ! j = (if j \<in> set is \<and> elm_pointer (E ! j) \<and> slots ! j = None
         then (case elm_default_set (E ! j) of Some dflt \<Rightarrow> snd (dflt None) | None \<Rightarrow> None) else slots ! j))"
      by (rule Cons.IH) (use Cons.prems in auto)
    moreover have "fill_defaults E (i # is) slots = fill_defaults E is slots"
      using True i by (auto split: option.split)
    ultimately show ?thesis using True by auto
  next
    case False
    then obtain dflt where d: "elm_default_set (E ! i) = Some dflt" "elm_pointer (E ! i)" "slots ! i = None" by auto
    obtain sl where sl: "dflt None = (0, sl)" using Cons.prems(4) d by (cases "dflt None") auto
    have other: "\<forall>j\<in>set is. slots[i := sl] ! j = slots ! j" 
    proof
      fix j assume "j \<in> set is"
      with Cons.prems(3) have "i \<noteq> j" by auto
      then show "slots[i := sl] ! j = slots ! j" by simp
    qed
    have "\<exists>slots'. fill_defaults E is (slots[i := sl]) = Some (0, slots') \<and> length slots' = length E \<and>
      (\<forall>j<length E. slots' ! j = (if j \<in> set is \<and> elm_pointer (E ! j) \<and> slots[i := sl] ! j = None
         then (case elm_default_set (E ! j) of Some dflt \<Rightarrow> snd (dflt None) | None \<Rightarrow> None) else slots[i := sl] ! j))"
      by (rule Cons.IH) (use Cons.prems other in auto)
    moreover have "fill_defaults E (i # is) slots = fill_defaults E is (slots[i := sl])"
      using d i sl by simp
    ultimately show ?thesis using Cons.prems(3) d sl i by (auto simp: nth_list_update)
  qed
qed simp

section \<open>The complete SEQUENCE\<close>

text \<open>The tables of the type: the optional members of the root in order, those among the extensions.\<close>

definition sequence_ok :: "asn_SEQUENCE_specifics \<Rightarrow> ('v, 'k) asn_TYPE_member list \<Rightarrow> bool" where
  "sequence_ok specs E \<longleftrightarrow>
     root_count specs E \<le> length E \<and> length E \<le> root_count specs E + 64 \<and>
     mem_load (oms specs) 0 (roms_count specs) = Some (filter (\<lambda>i. elm_optional (E ! i)) [0..<root_count specs E]) \<and>
     (0 \<le> first_extension specs \<longrightarrow>
        (case mem_load (oms specs) (roms_count specs) (aoms_count specs) of
           None \<Rightarrow> False
         | Some aoms \<Rightarrow> distinct aoms \<and> (\<forall>i\<in>set aoms. root_count specs E \<le> i \<and> i < length E) \<and>
             (\<forall>i\<in>{root_count specs E..<length E}. elm_pointer (E ! i) \<and> elm_default_set (E ! i) \<noteq> None \<longrightarrow> i \<in> set aoms)))"

definition any_addition :: "nat \<Rightarrow> 'v coding option list \<Rightarrow> bool" where
  "any_addition R X \<longleftrightarrow> (\<exists>i\<in>{R..<length X}. X ! i \<noteq> None)"

definition addition_part :: "nat \<Rightarrow> 'v coding option list \<Rightarrow> bool list" where
  "addition_part R X =
     (if any_addition R X
      then be_bits 7 (length X - R - 1) @ map (\<lambda>i. X ! i \<noteq> None) [R..<length X] @ concat (map (\<lambda>i. addition_bits (X ! i)) [R..<length X])
      else [])"

text \<open>X.691 #19: extension bit, presence bits, root members, extensions.\<close>

definition sequence_bits :: "asn_SEQUENCE_specifics \<Rightarrow> ('v, 'k) asn_TYPE_member list \<Rightarrow> 'v coding option list \<Rightarrow> bool list" where
  "sequence_bits specs E X =
     (let R = root_count specs E in
      (if first_extension specs < 0 then [] else [any_addition R X]) @
      map (\<lambda>i. X ! i \<noteq> None) (filter (\<lambda>i. elm_optional (E ! i)) [0..<R]) @
      concat (map (\<lambda>i. root_bits (X ! i)) [0..<R]) @ addition_part R X)"

definition sequence_codes :: "asn_SEQUENCE_specifics \<Rightarrow> ('v, enc_dyn_arg) asn_TYPE_member list \<Rightarrow> 'v option list \<Rightarrow> 'v coding option list \<Rightarrow> bool" where
  "sequence_codes specs E S X \<longleftrightarrow> length S = length E \<and> length X = length E \<and>
     (\<forall>i<root_count specs E. member_codes (E ! i) (S ! i) (X ! i)) \<and>
     (\<forall>i\<in>{root_count specs E..<length E}. addition_codes (E ! i) (S ! i) (X ! i))"

text \<open>The chaining of writes that tests for \<open>-1\<close> and keeps the result.\<close>

lemma po_puts_er:
  assumes "po_puts cb taken kinv po 0 xs res"
    and "\<And>po1. po_ok cb kinv po1 \<Longrightarrow> po_puts cb taken kinv po1 0 ys (g 0 po1)"
  shows "po_puts cb taken kinv po 0 (xs @ ys) (res \<bind> (\<lambda>(er, po). if er = -1 then Some (-1, po) else g er po))"
  using assms(1) unfolding po_puts_def
proof (elim exE conjE disjE)
  fix r po1 assume 1: "res = Some (r, po1)" "po_ok cb kinv po1" "r = 0" "po_emits taken po xs po1"
  from assms(2) [OF 1(2)] 1 po_emits_trans [OF 1(4)]
  show "\<exists>r po'. res \<bind> (\<lambda>(er, po). if er = -1 then Some (-1, po) else g er po) = Some (r, po') \<and>
      po_ok cb kinv po' \<and> (r = 0 \<and> po_emits taken po (xs @ ys) po' \<or> r = -1 \<and> cb_refuses cb kinv)"
    unfolding po_puts_def by auto
qed auto

lemma root_count_all: "first_extension specs < 0 \<Longrightarrow> root_count specs E = length E"
  by (simp add: root_count_def)

lemma sequence_writes:
  assumes ok: "sequence_ok specs E" and codes: "sequence_codes specs E S X"
  shows "writes (SEQUENCE_encode_uper (\<lambda>_. True) specs E) S (sequence_bits specs E X)"
  unfolding writes_def
proof (intro allI impI)
  fix po assume po: "po_ok grow_cb dyn_inv po"
  define R where "R = root_count specs E"
  define L where "L = length E"
  define any where "any = any_addition R X"
  define omap where "omap = filter (\<lambda>i. elm_optional (E ! i)) [0..<R]"
  have R: "R \<le> L" "L \<le> R + 64" "mem_load (oms specs) 0 (roms_count specs) = Some omap"
    using ok by (simp_all add: sequence_ok_def R_def L_def omap_def)
  have len: "length S = L" "length X = L" using codes by (simp_all add: sequence_codes_def L_def)
  have mem: "\<forall>i\<in>{0..<0 + R}. i < length E \<and> i < length S \<and> member_codes (E ! i) (S ! i) (X ! i)"
    using codes R(1) by (auto simp: sequence_codes_def R_def L_def)
  have add: "\<forall>i\<in>{R..<R + (L - R)}. i < length E \<and> i < length S \<and> addition_codes (E ! i) (S ! i) (X ! i)"
    using codes R(1) by (auto simp: sequence_codes_def R_def L_def)
  have nat_R: "0 \<le> first_extension specs \<Longrightarrow> nat (first_extension specs) = R" by (simp add: R_def root_count_def)
  have neg: "first_extension specs < 0 \<Longrightarrow> R = L \<and> \<not> any"
    using len by (auto simp: R_def L_def root_count_def any_def any_addition_def)
  define cnt where "cnt = (if any then int (L - R) else 0)"
  have he: "SEQUENCE__handle_extensions (\<lambda>_. True) specs E S (None :: enc_dyn_arg bit_outp option) None = Some (cnt, None, None)"
  proof (cases "first_extension specs < 0")
    case True
    with neg show ?thesis by (simp add: SEQUENCE__handle_extensions_def cnt_def)
  next
    case False
    with count_additions [OF add, of 0 "\<lambda>_. True" 0] nat_R R(1) len show ?thesis
      by (simp add: SEQUENCE__handle_extensions_def cnt_def any_def any_addition_def L_def [symmetric] Let_def)
  qed
  have cnt: "\<not> cnt < 0" "cnt \<noteq> 0 \<longleftrightarrow> any"
  proof -
    have "any \<Longrightarrow> R < L" using len by (auto simp: any_def any_addition_def)
    then show "\<not> cnt < 0" "cnt \<noteq> 0 \<longleftrightarrow> any" by (auto simp: cnt_def)
  qed
  define fin where "fin er po = (if cnt = 0 then Some (er, po)
           else do {
             (r, po) \<leftarrow> uper_put_nslength po (nat cnt);
             if r \<noteq> 0 then Some (-1, po)
             else do {
               (n1, po1, x) \<leftarrow> SEQUENCE__handle_extensions (\<lambda>_. True) specs E S (Some po) None;
               po \<leftarrow> po1;
               if n1 \<noteq> cnt then Some (-1, po)
               else do {
                 (n2, x, po2) \<leftarrow> SEQUENCE__handle_extensions (\<lambda>_. True) specs E S None (Some po);
                 po \<leftarrow> po2;
                 if n2 \<noteq> cnt then Some (-1, po) else Some (er, po) } } })" for er :: int and po :: "enc_dyn_arg bit_outp"
  have fin: "po_puts grow_cb dyn_taken dyn_inv po 0 (addition_part R X) (fin 0 po)" if po: "po_ok grow_cb dyn_inv po" for po
  proof (cases any)
    case False
    with cnt(2) po_puts_Nil [OF po] show ?thesis by (simp add: fin_def addition_part_def any_def)
  next
    case True
    then have RL: "R < L" and f: "\<not> first_extension specs < 0" using neg len by (auto simp: any_def any_addition_def)
    define n where "n = L - R"
    have n: "1 \<le> n" "n \<le> 64" "R + n = L" "cnt = int n" using RL R(2) True by (simp_all add: n_def cnt_def)
    from dyn.put_nslength_small [OF po n(1,2)] dyn_never_refuses obtain po1 where
      1: "uper_put_nslength po n = Some (0, po1)" "po_ok grow_cb dyn_inv po1" "po_emits dyn_taken po (be_bits 7 (n - 1)) po1"
      by (auto simp: po_puts_def)
    note add' = add [folded n_def]
    from he f nat_R have h0: "handle_extensions (\<lambda>_. True) E S R n (None :: enc_dyn_arg bit_outp option) None 0 0 = Some (cnt, None, None)"
      by (simp add: SEQUENCE__handle_extensions_def Let_def n_def L_def)
    from put_addition_map [OF add' 1(2), of "\<lambda>_. True" 0 0] h0 obtain po2 where
      2: "handle_extensions (\<lambda>_. True) E S R n (Some po1) None 0 0 = Some (cnt, Some po2, None)" "po_ok grow_cb dyn_inv po2"
        "po_emits dyn_taken po1 (map (\<lambda>i. X ! i \<noteq> None) [R..<L]) po2" unfolding n(3) by auto
    from put_addition_types [OF add' 2(2), of 0 0] h0 obtain po3 where
      3: "handle_extensions (\<lambda>_. True) E S R n None (Some po2) 0 0 = Some (cnt, None, Some po3)" "po_ok grow_cb dyn_inv po3"
        "po_emits dyn_taken po2 (concat (map (\<lambda>i. addition_bits (X ! i)) [R..<L])) po3" unfolding n(3) by auto
    have "fin 0 po = Some (0, po3)"
      using 1(1) 2(1) 3(1) n(1,4) f nat_R
      by (simp add: fin_def SEQUENCE__handle_extensions_def Let_def n_def [symmetric] L_def [symmetric])
    moreover have "addition_part R X = be_bits 7 (n - 1) @ map (\<lambda>i. X ! i \<noteq> None) [R..<L] @ concat (map (\<lambda>i. addition_bits (X ! i)) [R..<L])"
      using True by (simp add: addition_part_def any_def len n_def)
    ultimately show ?thesis using 3(2) po_emits_trans [OF 1(3) po_emits_trans [OF 2(3) 3(3)]] by (simp add: po_puts_def)
  qed
  have root: "po_puts grow_cb dyn_taken dyn_inv po 0 (map (\<lambda>i. X ! i \<noteq> None) omap @ concat (map (\<lambda>i. root_bits (X ! i)) [0..<R]) @ addition_part R X)
     (put_presence E S omap po \<bind> (\<lambda>(r, po). if r \<noteq> 0 then Some (-1, po)
       else put_members E S 0 R 0 po \<bind> (\<lambda>(er, po). if er = -1 then Some (-1, po) else fin er po)))"
    if po: "po_ok grow_cb dyn_inv po" for po
  proof (rule po_puts_then)
    show "po_puts grow_cb dyn_taken dyn_inv po 0 (map (\<lambda>i. X ! i \<noteq> None) omap) (put_presence E S omap po)"
      by (rule put_presence_ok) (use mem po in \<open>auto simp: omap_def\<close>)
    fix po1 assume po1: "po_ok grow_cb dyn_inv po1"
    show "po_puts grow_cb dyn_taken dyn_inv po1 0 (concat (map (\<lambda>i. root_bits (X ! i)) [0..<R]) @ addition_part R X)
        (put_members E S 0 R 0 po1 \<bind> (\<lambda>(er, po). if er = -1 then Some (-1, po) else fin er po))"
      by (rule po_puts_er [where g = fin, OF put_members_ok [OF mem po1, simplified] fin])
  qed
  have first: "po_puts grow_cb dyn_taken dyn_inv po 0 (if first_extension specs < 0 then [] else [any])
      (if first_extension specs < 0 then Some (0, po) else asn_put_few_bits po (if cnt \<noteq> 0 then 1 else 0) 1)"
    using dyn.put_bit [OF po, of any] po_puts_Nil [OF po] unfolding cnt(2) by simp
  have "po_puts grow_cb dyn_taken dyn_inv po 0 (sequence_bits specs E X)
     ((if first_extension specs < 0 then Some (0, po) else asn_put_few_bits po (if cnt \<noteq> 0 then 1 else 0) 1) \<bind>
      (\<lambda>(r, po). if r \<noteq> 0 then Some (-1, po) else put_presence E S omap po \<bind> (\<lambda>(r, po). if r \<noteq> 0 then Some (-1, po)
       else put_members E S 0 R 0 po \<bind> (\<lambda>(er, po). if er = -1 then Some (-1, po) else fin er po))))"
    using po_puts_then [OF first root] by (simp only: sequence_bits_def Let_def R_def [symmetric] any_def omap_def)
  moreover have "SEQUENCE_encode_uper (\<lambda>_. True) specs E S po =
     (if first_extension specs < 0 then Some (0, po) else asn_put_few_bits po (if cnt \<noteq> 0 then 1 else 0) 1) \<bind>
      (\<lambda>(r, po). if r \<noteq> 0 then Some (-1, po) else put_presence E S omap po \<bind> (\<lambda>(r, po). if r \<noteq> 0 then Some (-1, po)
       else put_members E S 0 R 0 po \<bind> (\<lambda>(er, po). if er = -1 then Some (-1, po) else fin er po)))"
    using cnt(1) by (simp only: SEQUENCE_encode_uper_def fin_def he R(3) R_def [symmetric] bind.bind_lunit split_conv if_False)
  ultimately show "po_puts grow_cb dyn_taken dyn_inv po 0 (sequence_bits specs E X) (SEQUENCE_encode_uper (\<lambda>_. True) specs E S po)"
    by (simp only:)
qed

lemma map_of_bits_ok: "pd_inv (map_of_bits (left_octets bs) (length bs))" "pd_bits (map_of_bits (left_octets bs) (length bs)) = bs"
  by (simp_all add: map_of_bits_def pd_inv_def pd_bits_def octets_bits_left_octets)

lemma empty_map_ok: "pd_inv empty_map" "pd_bits empty_map = []"
  by (simp_all add: empty_map_def pd_inv_def pd_bits_def)

lemma get_map:
  assumes "pd_inv pd" "pd_bits pd = bs @ rest"
  obtains pd' where "asn_get_many_bits pd False (int (length bs)) = Some (0, left_octets bs, pd')" "pd_consumes pd bs pd'"
    "pd_inv pd'" "pd_bits pd' = rest"
proof -
  from get_many_bits_left [OF assms(1), of "length bs"] assms(2) obtain pd' where
    g: "asn_get_many_bits pd False (int (length bs)) = Some (0, left_octets bs, pd')" "pd_consumes pd bs pd'" by auto
  from pd_consumesD(2,3) [OF g(2)] assms(2) show thesis by (intro that [OF g]) auto
qed

text \<open>What a reader of its own version \<open>E'\<close> makes of the codings of the writer.\<close>

definition read_slots :: "('v, 'k) asn_TYPE_member list \<Rightarrow> 'v coding option list \<Rightarrow> 'v option list" where
  "read_slots E' X = map (\<lambda>i. member_read (E' ! i) (if i < length X then X ! i else None)) [0..<length E']"

definition readable_by :: "asn_SEQUENCE_specifics \<Rightarrow> ('v, enc_dyn_arg) asn_TYPE_member list \<Rightarrow> 'v option list \<Rightarrow> 'v coding option list \<Rightarrow> bool" where
  "readable_by specs' E' S X \<longleftrightarrow>
     root_count specs' E' \<le> length X \<and> length X \<le> root_count specs' E' + 64 \<and>
     (first_extension specs' < 0 \<longrightarrow> length X = length E') \<and>
     (\<forall>i<root_count specs' E'. member_codes (E' ! i) (S ! i) (X ! i)) \<and>
     (\<forall>i\<in>{root_count specs' E'..<length E'}.
        if i < length X then addition_codes (E' ! i) (S ! i) (X ! i) else addition_codes (E' ! i) None None)"

lemma get_additions:
  assumes E: "root_count specs' E' \<le> length E'" "0 \<le> first_extension specs'" and rb: "readable_by specs' E' S X"
    and any: "any_addition (root_count specs' E') X"
    and slots: "length slots = length E'" "\<forall>i\<in>{root_count specs' E'..<length E'}. slots ! i = slot_init (E' ! i)"
    and pd: "pd_inv pd" "pd_bits pd = addition_part (root_count specs' E') X @ rest"
  shows "\<exists>slots' pd'. decode_ext_part True (\<lambda>_. True) specs' E' slots pd = Some (RC_OK, slots', pd') \<and> length slots' = length E' \<and>
    (\<forall>i<root_count specs' E'. slots' ! i = slots ! i) \<and>
    (\<forall>i\<in>{root_count specs' E'..<length E'}. slots' ! i = addition_slot (E' ! i) (if i < length X then X ! i else None)) \<and>
    pd_consumes pd (addition_part (root_count specs' E') X) pd'"
proof -
  define R where "R = root_count specs' E'"
  define n where "n = length X - R"
  define m where "m = min n (length E' - R)"
  have R: "nat (first_extension specs') = R" using E(2) by (simp add: R_def root_count_def)
  have n: "1 \<le> n" "n \<le> 64" "R + n = length X"
    using any rb by (auto simp: n_def R_def readable_by_def any_addition_def)
  define flags where "flags = map (\<lambda>i. X ! i \<noteq> None) [R..<length X]"
  have part: "addition_part R X = be_bits 7 (n - 1) @ flags @ concat (map (\<lambda>i. addition_bits (X ! i)) [R..<length X])"
    using any by (simp add: addition_part_def R_def [symmetric] n_def flags_def)
  have lf: "length flags = n" by (simp add: flags_def n_def)
  from get_nslength_small [OF pd(1) n(1,2), of "flags @ concat (map (\<lambda>i. addition_bits (X ! i)) [R..<length X]) @ rest"] pd(2)
  obtain pd1 where 1: "uper_get_nslength pd = Some (int n, pd1)" "pd_consumes pd (be_bits 7 (n - 1)) pd1"
    "pd_bits pd1 = flags @ concat (map (\<lambda>i. addition_bits (X ! i)) [R..<length X]) @ rest"
    by (auto simp: part R_def [symmetric])
  from get_map [OF pd_consumesD(2) [OF 1(2)] 1(3)] lf obtain pd2 where
    2: "asn_get_many_bits pd1 False (int n) = Some (0, left_octets flags, pd2)" "pd_consumes pd1 flags pd2" "pd_inv pd2"
      "pd_bits pd2 = concat (map (\<lambda>i. addition_bits (X ! i)) [R..<length X]) @ rest" by metis
  have split: "[R..<length X] = [R..<R + m] @ [R + m..<length X]"
    using n(3) by (simp add: m_def upt_add_eq_append [symmetric] flip: n(3)) (metis le_add_diff_inverse2 add.commute min.cobounded1 upt_add_eq_append le_add1 add.assoc)
  define unknown where "unknown = map ((!) X) [R + m..<length X]"
  have E1: "\<forall>i\<in>{R..<R + m}. addition_codes (E' ! i) (S ! i) (X ! i) \<and> slots ! i = slot_init (E' ! i)"
    using rb slots(2) n(3) by (auto simp: readable_by_def R_def [symmetric] m_def)
  have mle: "m \<le> length E' - R" by (simp add: m_def)
  have r: "m = length E' - R \<or> map (\<lambda>x. x \<noteq> None) unknown = []" using n(3) by (auto simp: m_def unknown_def min_def)
  have e1: "pd_bits (map_of_bits (left_octets flags) n) = map (\<lambda>i. X ! i \<noteq> None) [R..<R + m] @ map (\<lambda>x. x \<noteq> None) unknown"
    using map_of_bits_ok(2) [of flags] lf by (simp add: flags_def unknown_def split comp_def)
  have e2: "pd_bits pd2 = concat (map (\<lambda>i. addition_bits (X ! i)) [R..<R + m]) @ concat (map addition_bits unknown) @ rest"
    unfolding 2(4) split by (simp add: unknown_def comp_def)
  have inv: "pd_inv (map_of_bits (left_octets flags) n)" using map_of_bits_ok(1) [of flags] lf by simp
  have RE: "R + (length E' - R) \<le> length E'" using E(1) by (simp add: R_def)
  from decode_extensions_ok [OF E1 slots(1) RE mle r inv 2(3) e1 e2] obtain epmd' pd3 where
    3: "decode_extensions True (\<lambda>_. True) E' R (length E' - R) slots (map_of_bits (left_octets flags) n) pd2 =
      Some (RC_OK, take R slots @ map (\<lambda>i. addition_slot (E' ! i) (X ! i)) [R..<R + m] @ drop (R + m) slots, epmd', pd3)"
      "pd_inv epmd'" "pd_bits epmd' = map (\<lambda>x. x \<noteq> None) unknown" "pd_consumes pd2 (concat (map (\<lambda>i. addition_bits (X ! i)) [R..<R + m])) pd3"
    by blast
  have e3: "pd_bits pd3 = concat (map addition_bits unknown) @ rest" using pd_consumesD(3) [OF 3(4)] e2 by simp
  from skip_extensions_ok [OF 3(2) pd_consumesD(2) [OF 3(4)] 3(3) e3] obtain pd4 where
    4: "skip_extensions True (\<lambda>_. True) epmd' pd3 = Some (RC_OK, pd4)" "pd_consumes pd3 (concat (map addition_bits unknown)) pd4" by blast
  define slots' where "slots' = take R slots @ map (\<lambda>i. addition_slot (E' ! i) (X ! i)) [R..<R + m] @ drop (R + m) slots"
  have "decode_ext_part True (\<lambda>_. True) specs' E' slots pd = Some (RC_OK, slots', pd4)"
    using 1(1) 2(1) 3(1) 4(1) by (simp add: decode_ext_part_def R Let_def slots'_def)
  moreover have "pd_consumes pd (addition_part R X) pd4"
    using pd_consumes_trans [OF 1(2) pd_consumes_trans [OF 2(2) pd_consumes_trans [OF 3(4) 4(2)]]]
    by (simp add: part split unknown_def comp_def)
  moreover have Rm: "R + m \<le> length slots" using E(1) slots(1) by (simp add: m_def R_def)
  then have "length slots' = length E'" using slots(1) by (simp add: slots'_def)
  moreover have "\<forall>i<R. slots' ! i = slots ! i" using Rm by (simp add: slots'_def nth_append)
  moreover have "slots' ! i = addition_slot (E' ! i) (if i < length X then X ! i else None)" if "i \<in> {R..<length E'}" for i
  proof (cases "i < R + m")
    case True
    then have "i < length X" using n(3) by (simp add: m_def)
    moreover have "i - R < m" "R \<le> i" "R + (i - R) = i" using True that by auto
    moreover have "R \<le> length slots" using Rm by simp
    ultimately show ?thesis by (simp add: slots'_def nth_append min_absorb2)
  next
    case False
    then have "\<not> i < length X" using that n(3) by (auto simp: m_def min_def split: if_splits)
    moreover have "slots' ! i = slots ! i" using False Rm that slots(1) by (auto simp: slots'_def nth_append)
    ultimately show ?thesis using slots(2) that by (simp add: addition_slot_def R_def)
  qed
  ultimately show ?thesis unfolding R_def by blast
qed

lemma additions_defaulted:
  assumes E: "sequence_ok specs' E'" "0 \<le> first_extension specs'" and rb: "readable_by specs' E' S X"
    and slots: "length slots = length E'" "\<forall>i<root_count specs' E'. slots ! i = member_read (E' ! i) (X ! i)"
      "\<forall>i\<in>{root_count specs' E'..<length E'}. slots ! i = addition_slot (E' ! i) (if i < length X then X ! i else None)"
  shows "\<exists>is. mem_load (oms specs') (roms_count specs') (aoms_count specs') = Some is \<and> fill_defaults E' is slots = Some (0, read_slots E' X)"
proof -
  define R where "R = root_count specs' E'"
  define Y where "Y i = (if i < length X then X ! i else None)" for i
  obtain "is" where "is": "mem_load (oms specs') (roms_count specs') (aoms_count specs') = Some is" "distinct is"
    "\<forall>i\<in>set is. R \<le> i \<and> i < length E'"
    "\<forall>i\<in>{R..<length E'}. elm_pointer (E' ! i) \<and> elm_default_set (E' ! i) \<noteq> None \<longrightarrow> i \<in> set is"
  proof (cases "mem_load (oms specs') (roms_count specs') (aoms_count specs')")
    case None
    with E show thesis by (simp add: sequence_ok_def)
  next
    case (Some js)
    from E(1) have "0 \<le> first_extension specs' \<longrightarrow> (case mem_load (oms specs') (roms_count specs') (aoms_count specs') of
         None \<Rightarrow> False
       | Some aoms \<Rightarrow> distinct aoms \<and> (\<forall>i\<in>set aoms. R \<le> i \<and> i < length E') \<and>
           (\<forall>i\<in>{R..<length E'}. elm_pointer (E' ! i) \<and> elm_default_set (E' ! i) \<noteq> None \<longrightarrow> i \<in> set aoms))"
      unfolding sequence_ok_def R_def by blast
    from mp [OF this E(2), unfolded Some option.case] Some show thesis by (elim conjE) (rule that)
  qed
  have absent: "elm_pointer (E' ! i) \<and> (case elm_default_set (E' ! i) of Some dflt \<Rightarrow> fst (dflt None) = 0 | None \<Rightarrow> True)"
    if "R \<le> i" "i < length E'" "Y i = None" for i
  proof -
    have "\<forall>i\<in>{R..<length E'}. if i < length X then addition_codes (E' ! i) (S ! i) (X ! i) else addition_codes (E' ! i) None None"
      using rb by (simp add: readable_by_def R_def)
    with that(1,2) have "if i < length X then addition_codes (E' ! i) (S ! i) (X ! i) else addition_codes (E' ! i) None None" by simp
    with that(3) have "addition_codes (E' ! i) (S ! i) None \<or> addition_codes (E' ! i) None None" by (auto simp: Y_def split: if_splits)
    then show ?thesis by (auto simp: addition_codes_def)
  qed
  have slot: "slots ! i = addition_slot (E' ! i) (Y i)" if "R \<le> i" "i < length E'" for i
    using slots(3) that by (simp add: R_def Y_def)
  have "\<exists>slots'. fill_defaults E' is slots = Some (0, slots') \<and> length slots' = length E' \<and>
    (\<forall>j<length E'. slots' ! j = (if j \<in> set is \<and> elm_pointer (E' ! j) \<and> slots ! j = None
       then (case elm_default_set (E' ! j) of Some dflt \<Rightarrow> snd (dflt None) | None \<Rightarrow> None) else slots ! j))"
  proof (rule fill_defaults_ok)
    show "\<forall>i\<in>set is. elm_pointer (E' ! i) \<and> slots ! i = None \<longrightarrow>
      (case elm_default_set (E' ! i) of Some dflt \<Rightarrow> fst (dflt None) = 0 | None \<Rightarrow> True)"
    proof (intro ballI impI, elim conjE)
      fix i assume i: "i \<in> set is" "slots ! i = None"
      with slot [of i] "is"(3) have "Y i = None" by (auto simp: addition_slot_def split: option.splits)
      with absent [of i] "is"(3) i(1) show "case elm_default_set (E' ! i) of Some dflt \<Rightarrow> fst (dflt None) = 0 | None \<Rightarrow> True" by blast
    qed
  qed (use "is"(2,3) slots(1) in auto)
  then obtain slots' where f: "fill_defaults E' is slots = Some (0, slots')" "length slots' = length E'"
    "\<forall>j<length E'. slots' ! j = (if j \<in> set is \<and> elm_pointer (E' ! j) \<and> slots ! j = None
       then (case elm_default_set (E' ! j) of Some dflt \<Rightarrow> snd (dflt None) | None \<Rightarrow> None) else slots ! j)" by blast
  have "slots' ! i = read_slots E' X ! i" if i: "i < length E'" for i
  proof (cases "i < R")
    case True
    with "is"(3) have "i \<notin> set is" by auto
    moreover have "i < length X" using True rb by (simp add: readable_by_def R_def)
    ultimately show ?thesis using f(3) i slots(2) True by (simp add: R_def read_slots_def)
  next
    case False
    have r: "read_slots E' X ! i = member_read (E' ! i) (Y i)" using i by (simp add: read_slots_def Y_def)
    show ?thesis
    proof (cases "Y i")
      case None
      with absent [of i] False i have p: "elm_pointer (E' ! i)" by simp
      with None slot [of i] False i have "slots ! i = None" by (simp add: addition_slot_def slot_init_def)
      with f(3) i p "is"(4) False None show ?thesis unfolding r
        by (auto simp: member_read_def slot_init_def split: option.splits)
    next
      case (Some x)
      with slot [of i] False i have "slots ! i = member_read (E' ! i) (Y i)" "slots ! i \<noteq> None"
        by (simp_all add: addition_slot_def member_read_def split: prod.splits)
      with f(3) i show ?thesis unfolding r by auto
    qed
  qed
  with f have "slots' = read_slots E' X" by (intro nth_equalityI) (simp_all add: read_slots_def)
  with f(1) "is"(1) show ?thesis by blast
qed

lemma sequence_reads:
  assumes E: "sequence_ok specs' E'" and rb: "readable_by specs' E' S X"
    and same: "root_count specs' E' = root_count specs E" "first_extension specs' < 0 \<longleftrightarrow> first_extension specs < 0"
      "\<forall>i<root_count specs E. elm_optional (E' ! i) = elm_optional (E ! i)"
  shows "reads (SEQUENCE_decode_uper True (\<lambda>_. True) specs' E') (sequence_bits specs E X, False, read_slots E' X)"
  unfolding reads_def fst_conv snd_conv
proof (intro allI impI)
  fix pd rest assume pd: "pd_inv pd" "pd_bits pd = sequence_bits specs E X @ rest"
  define R where "R = root_count specs' E'"
  define any where "any = any_addition R X"
  define x where "x = (\<not> first_extension specs' < 0)"
  define omap where "omap = map (\<lambda>i. X ! i \<noteq> None) (filter (\<lambda>i. elm_optional (E' ! i)) [0..<R])"
  define roots where "roots = concat (map (\<lambda>i. root_bits (X ! i)) [0..<R])"
  have RE: "R \<le> length E'" using E by (simp add: sequence_ok_def R_def)
  have roms: "roms_count specs' = length omap"
    using E by (auto simp: sequence_ok_def R_def omap_def mem_load_def dest!: arg_cong [where f = length] split: if_splits)
  have rootfilter: "filter (\<lambda>i. elm_optional (E ! i)) [0..<R] = filter (\<lambda>i. elm_optional (E' ! i)) [0..<R]"
    by (rule filter_cong) (use same(1,3) in \<open>auto simp: R_def\<close>)
  have nany: "any \<Longrightarrow> x" using rb RE by (auto simp: any_def any_addition_def x_def R_def readable_by_def root_count_def)
  have bits: "sequence_bits specs E X = (if x then [any] else []) @ omap @ roots @ addition_part R X"
    using same(2) by (simp add: sequence_bits_def Let_def rootfilter same(1) [symmetric, folded R_def] x_def any_def omap_def roots_def
      del: not_None_eq)
  from pd(2) have "pd_bits pd = (if x then [any] else []) @ omap @ roots @ addition_part R X @ rest" by (simp add: bits)
  from get_ext [OF pd(1) this] obtain pd1 where
    1: "(if x then asn_get_few_bits pd 1 else Some (0, pd)) = Some (of_bool (x \<and> any), pd1)"
      "pd_consumes pd (if x then [any] else []) pd1" "pd_inv pd1" "pd_bits pd1 = omap @ roots @ addition_part R X @ rest" by blast
  obtain opmd pd2 where 2: "(if roms_count specs' \<noteq> 0 then do {
               (r, opres, pd) \<leftarrow> asn_get_many_bits pd1 False (int (roms_count specs'));
               Some (r, map_of_bits opres (roms_count specs'), pd) }
             else Some (0, empty_map, pd1)) = Some (0 :: int, opmd, pd2)" "pd_inv opmd" "pd_bits opmd = omap"
     "pd_consumes pd1 omap pd2" "pd_inv pd2" "pd_bits pd2 = roots @ addition_part R X @ rest"
  proof (cases "omap = []")
    case True
    with 1(3,4) show thesis by (intro that [of empty_map pd1]) (simp_all add: roms empty_map_ok)
  next
    case False
    from get_map [OF 1(3,4)] obtain pd2 where "asn_get_many_bits pd1 False (int (length omap)) = Some (0, left_octets omap, pd2)"
      "pd_consumes pd1 omap pd2" "pd_inv pd2" "pd_bits pd2 = roots @ addition_part R X @ rest" by metis
    with False map_of_bits_ok [of omap] show thesis by (intro that [of "map_of_bits (left_octets omap) (length omap)" pd2]) (simp_all add: roms)
  qed
  define st where "st = map slot_init E'"
  have mem: "\<forall>i\<in>{0..<0 + R}. i < length E' \<and> member_codes (E' ! i) (S ! i) (X ! i) \<and> st ! i = slot_init (E' ! i)"
    using rb RE by (auto simp: readable_by_def R_def st_def)
  have b2: "pd_bits opmd = map (\<lambda>i. X ! i \<noteq> None) (filter (\<lambda>i. elm_optional (E' ! i)) [0..<0 + R]) @ []"
    "pd_bits pd2 = concat (map (\<lambda>i. root_bits (X ! i)) [0..<0 + R]) @ addition_part R X @ rest"
    using 2(3,6) by (simp_all add: omap_def roots_def)
  define slots1 where "slots1 = map (\<lambda>i. member_read (E' ! i) (X ! i)) [0..<R] @ drop R st"
  have lst: "length st = length E'" by (simp add: st_def)
  from decode_root_ok [OF mem lst _ 2(2,5) b2] RE obtain pd3 where
    3: "decode_root E' 0 R st opmd pd2 = Some (RC_OK, slots1, pd3)" "pd_consumes pd2 roots pd3"
    by (auto simp: slots1_def roots_def)
  have b3: "pd_bits pd3 = addition_part R X @ rest" using pd_consumesD(3) [OF 3(2)] 2(6) by simp
  have s1: "length slots1 = length E'" "\<forall>i<R. slots1 ! i = member_read (E' ! i) (X ! i)"
    "\<forall>i\<in>{R..<length E'}. slots1 ! i = slot_init (E' ! i)"
    using RE lst by (auto simp: slots1_def nth_append st_def)
  obtain slots2 pd4 where 4: "(if any then decode_ext_part True (\<lambda>_. True) specs' E' slots1 pd3 else Some (RC_OK, slots1, pd3)) =
      Some (RC_OK, slots2, pd4)" "length slots2 = length E'" "\<forall>i<R. slots2 ! i = slots1 ! i"
      "\<forall>i\<in>{R..<length E'}. slots2 ! i = addition_slot (E' ! i) (if i < length X then X ! i else None)"
      "pd_consumes pd3 (addition_part R X) pd4"
  proof (cases any)
    case True
    with nany have "0 \<le> first_extension specs'" by (simp add: x_def)
    from get_additions [OF RE [unfolded R_def] this rb True [unfolded any_def R_def] s1(1) s1(3) [unfolded R_def]
        pd_consumesD(2) [OF 3(2)] b3 [unfolded R_def], folded R_def] obtain slots' pd' where
      "decode_ext_part True (\<lambda>_. True) specs' E' slots1 pd3 = Some (RC_OK, slots', pd')" "length slots' = length E'"
      "\<forall>i<R. slots' ! i = slots1 ! i" "\<forall>i\<in>{R..<length E'}. slots' ! i = addition_slot (E' ! i) (if i < length X then X ! i else None)"
      "pd_consumes pd3 (addition_part R X) pd'" by blast
    with True show thesis by (intro that [of slots' pd']) simp_all
  next
    case False
    then have "\<forall>i\<in>{R..<length E'}. (if i < length X then X ! i else None) = None"
      unfolding any_def any_addition_def by (metis atLeastLessThan_iff)
    with False s1 pd_consumesD(2) [OF 3(2)] show thesis
      by (intro that [of slots1 pd3]) (simp_all add: addition_slot_def addition_part_def any_def)
  qed
  obtain slots3 where 5: "(if 0 \<le> first_extension specs' then do {
         is \<leftarrow> mem_load (oms specs') (roms_count specs') (aoms_count specs'); fill_defaults E' is slots2 }
      else Some (0, slots2)) = Some (0 :: int, slots3)" "slots3 = read_slots E' X"
  proof (cases "0 \<le> first_extension specs'")
    case False
    then have "R = length E'" by (simp add: R_def root_count_def)
    moreover have "R \<le> length X" using rb by (simp add: readable_by_def R_def)
    ultimately have "slots2 = read_slots E' X" using 4(2,3) s1(2) by (intro nth_equalityI) (simp_all add: read_slots_def)
    with False show thesis by (intro that [of slots2]) simp_all
  next
    case True
    from additions_defaulted [OF E True rb 4(2) _ 4(4) [unfolded R_def]] 4(3) s1(2) True show thesis unfolding R_def by (auto intro: that)
  qed
  have n1: "\<not> (of_bool (x \<and> any) :: int) < 0" "(of_bool (x \<and> any) :: int) \<noteq> 0 \<longleftrightarrow> any" using nany by auto
  have bit: "(if first_extension specs' < 0 then Some (0, pd) else asn_get_few_bits pd 1) = Some (of_bool (x \<and> any), pd1)"
    using 1(1) unfolding x_def by (cases "first_extension specs' < 0") simp_all
  have "SEQUENCE_decode_uper True (\<lambda>_. True) specs' E' pd = Some (RC_OK, Some (read_slots E' X, 0), pd4)"
    unfolding SEQUENCE_decode_uper_def Let_def bit
    using 2(1) 3(1) 4(1) 5 n1 by (simp add: st_def [symmetric] R_def [symmetric] split del: if_split)
  with pd_consumes_trans [OF 1(2) pd_consumes_trans [OF 2(4) pd_consumes_trans [OF 3(2) 4(5)]]]
  show "\<exists>n pd'. SEQUENCE_decode_uper True (\<lambda>_. True) specs' E' pd = Some (RC_OK, Some (read_slots E' X, n), pd') \<and>
      (0 < n \<longleftrightarrow> False) \<and> pd_consumes pd (sequence_bits specs E X) pd'" by (simp add: bits)
qed

end
