(* ===== verification/Uper_Octet_String.thy ===== *)
theory Uper_Octet_String
  imports Uper_Set_Of
begin

unbundle bit_operations_syntax

text \<open>
  OCTET STRING and the restricted character strings in unaligned PER: \<open>skeletons/OCTET_STRING_uper.c\<close> and
  the conversion of characters, \<open>OCTET_STRING_per_get_characters\<close> and \<open>OCTET_STRING_per_put_characters\<close> of
  \<open>OCTET_STRING.c\<close>. The loop over length-delimited chunks also serves BIT STRING.
\<close>

section \<open>Data\<close>

text \<open>\<open>os_buf\<close> is the part of the buffer that was written; the decoders append a zero octet behind the value.\<close>

record OCTET_STRING =
  os_buf :: "u8 list option"
  os_size :: nat

datatype os_subvariant = ASN_OSUBV_ANY | ASN_OSUBV_BIT | ASN_OSUBV_STR | ASN_OSUBV_U16 | ASN_OSUBV_U32

definition asn_DEF_OCTET_STRING_constraints :: asn_per_constraints where
  "asn_DEF_OCTET_STRING_constraints =
     \<lparr>pc_value = \<lparr>ct_flags = APC_CONSTRAINED, ct_range_bits = 8, ct_effective_bits = 8, ct_lower_bound = 0, ct_upper_bound = 255\<rparr>,
      pc_size = \<lparr>ct_flags = APC_SEMI_CONSTRAINED, ct_range_bits = -1, ct_effective_bits = -1, ct_lower_bound = 0, ct_upper_bound = 0\<rparr>,
      pc_value2code = None, pc_code2value = None\<rparr>"

text \<open>The conversion of a \<open>long\<close> to \<open>int32_t\<close>.\<close>

definition to_int32 :: "int \<Rightarrow> int" where
  "to_int32 x = sint (word_of_int x :: u32)"

section \<open>Characters\<close>

text \<open>
  X.691 27.5.4 as the code tests it: \<open>ub <= 2 << (unit_bits - 1)\<close> in \<open>unsigned long\<close>. \<open>unit_bits - 1\<close> is of
  type \<open>unsigned int\<close>; a shift by 64 or more is undefined, a fault.
\<close>

definition per_as_is :: "nat \<Rightarrow> int \<Rightarrow> bool option" where
  "per_as_is unit_bits ub =
     (let shift = unat (of_nat unit_bits - 1 :: u32) in
      if 64 \<le> shift then None else Some ((word_of_int ub :: u64) \<le> push_bit shift 2))"

text \<open>The octets that \<open>switch(bpc)\<close> stores for a character, and the number that it reads.\<close>

definition char_octets :: "nat \<Rightarrow> int \<Rightarrow> u8 list" where
  "char_octets bpc v =
     (if bpc = 1 then [word_of_int v]
      else if bpc = 2 then [word_of_int (drop_bit 8 v), word_of_int v]
      else if bpc = 4 then [word_of_int (drop_bit 24 v), word_of_int (drop_bit 16 v), word_of_int (drop_bit 8 v), word_of_int v]
      else [])"

definition char_value :: "nat \<Rightarrow> u8 list \<Rightarrow> int option" where
  "char_value bpc buf =
     (if bpc = 1 then do { b0 \<leftarrow> rd buf 0; Some (uint b0) }
      else if bpc = 2 then do { b0 \<leftarrow> rd buf 0; b1 \<leftarrow> rd buf 1; Some (push_bit 8 (uint b0) OR uint b1) }
      else do {
        b0 \<leftarrow> rd buf 0; b1 \<leftarrow> rd buf 1; b2 \<leftarrow> rd buf 2; b3 \<leftarrow> rd buf 3;
        high \<leftarrow> s32 (push_bit 24 (uint b0));
        Some (high OR push_bit 16 (uint b1) OR push_bit 8 (uint b2) OR uint b3) })"

fun get_mapped_characters :: "(nat \<Rightarrow> int) \<Rightarrow> nat \<Rightarrow> nat \<Rightarrow> nat \<Rightarrow> bit_data \<Rightarrow> (int \<times> u8 list \<times> bit_data) option" where
  "get_mapped_characters code2value bpc unit_bits 0 pd = Some (0, [], pd)"
| "get_mapped_characters code2value bpc unit_bits (Suc n) pd = do {
     (code, pd) \<leftarrow> asn_get_few_bits pd (int unit_bits);
     if code < 0 then Some (-1, [], pd)
     else let v = code2value (nat code) in
       if v < 0 then Some (1, [], pd)
       else do {
         (r, octets, pd) \<leftarrow> get_mapped_characters code2value bpc unit_bits n pd;
         Some (r, char_octets bpc v @ octets, pd) } }"

fun get_plain_characters :: "int \<Rightarrow> int \<Rightarrow> nat \<Rightarrow> nat \<Rightarrow> nat \<Rightarrow> bit_data \<Rightarrow> (int \<times> u8 list \<times> bit_data) option" where
  "get_plain_characters lb ub bpc unit_bits 0 pd = Some (0, [], pd)"
| "get_plain_characters lb ub bpc unit_bits (Suc n) pd = do {
     (code, pd) \<leftarrow> asn_get_few_bits pd (int unit_bits);
     sum \<leftarrow> s64 (code + lb);
     let ch = to_int32 sum;
     if code < 0 then Some (-1, [], pd)
     else if ub < ch then Some (1, [], pd)
     else do {
       (r, octets, pd) \<leftarrow> get_plain_characters lb ub bpc unit_bits n pd;
       Some (r, char_octets bpc ch @ octets, pd) } }"

definition OCTET_STRING_per_get_characters ::
  "bit_data \<Rightarrow> nat \<Rightarrow> nat \<Rightarrow> nat \<Rightarrow> int \<Rightarrow> int \<Rightarrow> asn_per_constraints option \<Rightarrow> (int \<times> u8 list \<times> bit_data) option" where
  "OCTET_STRING_per_get_characters pd units bpc unit_bits lb ub pc = do {
     as_is \<leftarrow> per_as_is unit_bits ub;
     let lb = (if as_is then 0 else lb);
     case (if as_is then None else pc \<bind> pc_code2value) of
       Some code2value \<Rightarrow>
         if 16 < unit_bits then Some (1, [], pd) else get_mapped_characters code2value bpc unit_bits units pd
     | None \<Rightarrow>
         if lb = 0 \<and> unit_bits = 8 * bpc then do { n \<leftarrow> s32 (int (unit_bits * units)); asn_get_many_bits pd False n }
         else get_plain_characters lb ub bpc unit_bits units pd }"

fun put_mapped_characters :: "(nat \<Rightarrow> int) \<Rightarrow> nat \<Rightarrow> nat \<Rightarrow> nat \<Rightarrow> u8 list \<Rightarrow> 'k bit_outp \<Rightarrow> (int \<times> 'k bit_outp) option" where
  "put_mapped_characters value2code bpc unit_bits 0 buf po = Some (0, po)"
| "put_mapped_characters value2code bpc unit_bits (Suc n) buf po =
     (if bpc \<noteq> 1 \<and> bpc \<noteq> 2 \<and> bpc \<noteq> 4 then Some (-1, po)
      else do {
        v \<leftarrow> char_value bpc buf;
        let code = value2code (nat v);
        if code < 0 then Some (-1, po)
        else do {
          (r, po) \<leftarrow> asn_put_few_bits po (word_of_int code) (int unit_bits);
          if r \<noteq> 0 then Some (-1, po) else put_mapped_characters value2code bpc unit_bits n (drop bpc buf) po } })"

fun put_plain_characters :: "int \<Rightarrow> int \<Rightarrow> nat \<Rightarrow> nat \<Rightarrow> nat \<Rightarrow> u8 list \<Rightarrow> 'k bit_outp \<Rightarrow> (int \<times> 'k bit_outp) option" where
  "put_plain_characters lb width bpc unit_bits 0 buf po = Some (0, po)"
| "put_plain_characters lb width bpc unit_bits (Suc n) buf po =
     (if bpc \<noteq> 1 \<and> bpc \<noteq> 2 \<and> bpc \<noteq> 4 then Some (-1, po)
      else do {
        v \<leftarrow> char_value bpc buf;
        diff \<leftarrow> s64 (v - lb);
        let ch = to_int32 diff;
        if ch < 0 \<or> width < ch then Some (-1, po)
        else do {
          (r, po) \<leftarrow> asn_put_few_bits po (word_of_int ch) (int unit_bits);
          if r \<noteq> 0 then Some (-1, po) else put_plain_characters lb width bpc unit_bits n (drop bpc buf) po } })"

text \<open>Behind the loop over mapped characters the code goes on with \<open>buf\<close> at the end of the string.\<close>

definition OCTET_STRING_per_put_characters ::
  "'k bit_outp \<Rightarrow> u8 list \<Rightarrow> nat \<Rightarrow> nat \<Rightarrow> nat \<Rightarrow> int \<Rightarrow> int \<Rightarrow> asn_per_constraints option \<Rightarrow> (int \<times> 'k bit_outp) option" where
  "OCTET_STRING_per_put_characters po buf units bpc unit_bits lb ub pc = do {
     as_is \<leftarrow> per_as_is unit_bits ub;
     let lb = (if as_is then 0 else lb);
     (r, left, buf, po) \<leftarrow>
       (case (if as_is then None else pc \<bind> pc_value2code) of
          Some value2code \<Rightarrow> do {
            (r, po) \<leftarrow> put_mapped_characters value2code bpc unit_bits units buf po;
            Some (r, 0, drop (units * bpc) buf, po) }
        | None \<Rightarrow> Some (0, units, buf, po));
     if r \<noteq> 0 then Some (-1, po)
     else if lb = 0 \<and> unit_bits = 8 * bpc then do { n \<leftarrow> s32 (int (unit_bits * units)); asn_put_many_bits po buf n }
     else do { width \<leftarrow> s64 (ub - lb); put_plain_characters lb width bpc unit_bits left buf po } }"

section \<open>The decoder\<close>

text \<open>
  The loop of \<open>OCTET_STRING_decode_uper\<close> and \<open>BIT_STRING_decode_uper\<close> over length-delimited chunks. \<open>cap\<close>
  is the size of the buffer, when there is one, \<open>octets\<close> what it holds, \<open>unused\<close> the member \<open>bits_unused\<close>,
  which \<open>set_unused\<close> updates. A chunk that does not fill what the size grows by, and the final zero behind
  the end of the buffer, are faults. \<open>Inl\<close> is the code of an early return.
\<close>

partial_function (option) string_chunks ::
  "(nat \<Rightarrow> bool) \<Rightarrow> (bit_data \<Rightarrow> (int \<times> int \<times> bit_data) option) \<Rightarrow> (nat \<Rightarrow> bit_data \<Rightarrow> (int \<times> u8 list \<times> bit_data) option) \<Rightarrow>
     (nat \<Rightarrow> nat) \<Rightarrow> (nat \<Rightarrow> nat \<Rightarrow> nat) \<Rightarrow> nat option \<Rightarrow> u8 list \<Rightarrow> nat \<Rightarrow> bit_data \<Rightarrow>
     ((asn_dec_rval_code + u8 list \<times> nat) \<times> bit_data) option" where
  [code]: "string_chunks can_alloc get_length get_units len_bytes set_unused cap octets unused pd =
     (case get_length pd of
        None \<Rightarrow> None
      | Some (raw_len, repeat, pd) \<Rightarrow>
          if raw_len < 0 then Some (Inl RC_WMORE, pd)
          else if raw_len = 0 \<and> cap \<noteq> None then
            if length octets < the cap then Some (Inr (octets, unused), pd) else None
          else
            let len = len_bytes (nat raw_len); unused = set_unused (nat raw_len) unused; cap = length octets + len + 1 in
            if \<not> can_alloc cap then Some (Inl RC_FAIL, pd)
            else
              case get_units (nat raw_len) pd of
                None \<Rightarrow> None
              | Some (r, chunk, pd) \<Rightarrow>
                  if 0 < r then Some (Inl RC_FAIL, pd)
                  else if r < 0 then Some (Inl RC_WMORE, pd)
                  else if length chunk \<noteq> len then None
                  else if repeat \<noteq> 0 then
                    string_chunks can_alloc get_length get_units len_bytes set_unused (Some cap) (octets @ chunk) unused pd
                  else Some (Inr (octets @ chunk, unused), pd))"

text \<open>\<open>canonical_unit_bits\<close> and \<open>bpc\<close> of a subvariant, and \<open>unit_bits\<close> under a constraint of the characters.\<close>

definition os_unit :: "os_subvariant \<Rightarrow> (nat \<times> nat) option" where
  "os_unit subvariant =
     (case subvariant of
        ASN_OSUBV_STR \<Rightarrow> Some (8, 1)
      | ASN_OSUBV_U16 \<Rightarrow> Some (16, 2)
      | ASN_OSUBV_U32 \<Rightarrow> Some (32, 4)
      | _ \<Rightarrow> None)"

definition os_unit_bits :: "nat \<Rightarrow> asn_per_constraint \<Rightarrow> nat" where
  "os_unit_bits canonical cval =
     (if ct_has cval APC_CONSTRAINED then unat (word_of_int (ct_range_bits cval) :: u32) else canonical)"

definition os_constraints :: "asn_per_constraints option \<Rightarrow> asn_per_constraints option \<Rightarrow> asn_per_constraints option" where
  "os_constraints td_constraints constraints = (case constraints of Some c \<Rightarrow> Some c | None \<Rightarrow> td_constraints)"

text \<open>
  \<open>OCTET_STRING_decode_uper\<close> into a new structure of \<open>struct_size\<close> octets. The buffer for a size
  constraint has \<open>upper_bound * bpc + 1\<close> octets. After a failure the structure is left to the destructor.
\<close>

definition OCTET_STRING_decode_uper ::
  "(nat \<Rightarrow> bool) \<Rightarrow> nat \<Rightarrow> os_subvariant \<Rightarrow> asn_per_constraints option \<Rightarrow> asn_per_constraints option \<Rightarrow> OCTET_STRING per_decoder" where
  "OCTET_STRING_decode_uper can_alloc struct_size subvariant td_constraints constraints pd =
     (let pc = os_constraints td_constraints constraints;
          cval = pc_value (case pc of Some c \<Rightarrow> c | None \<Rightarrow> asn_DEF_OCTET_STRING_constraints);
          csiz = pc_size (case pc of Some c \<Rightarrow> c | None \<Rightarrow> asn_DEF_OCTET_STRING_constraints) in
      case os_unit subvariant of
        None \<Rightarrow> Some (RC_FAIL, None, pd)
      | Some (canonical_unit_bits, bpc) \<Rightarrow>
          if \<not> can_alloc struct_size then Some (RC_FAIL, None, pd)
          else do {
            (inext, pd) \<leftarrow> (if ct_has csiz APC_EXTENSIBLE then asn_get_few_bits pd 1 else Some (0, pd));
            if inext < 0 then Some (RC_WMORE, None, pd)
            else do {
              let unit_bits = (if inext \<noteq> 0 then canonical_unit_bits else os_unit_bits canonical_unit_bits cval);
              let csiz = (if inext \<noteq> 0 then pc_size asn_DEF_OCTET_STRING_constraints else csiz);
              let get_units = (\<lambda>n pd. OCTET_STRING_per_get_characters pd n bpc unit_bits (ct_lower_bound cval) (ct_upper_bound cval) pc);
              (sz, cap) \<leftarrow>
                (if 0 \<le> ct_effective_bits csiz then do {
                   sz \<leftarrow> s64 (ct_upper_bound csiz * int bpc);
                   Some (unat (word_of_int sz :: u64), Some (unat (word_of_int (sz + 1) :: u64))) }
                 else Some (0, None));
              if (case cap of Some n \<Rightarrow> \<not> can_alloc n | None \<Rightarrow> False) then Some (RC_FAIL, None, pd)
              else if ct_effective_bits csiz = 0 then do {
                (r, octets, pd) \<leftarrow> get_units (unat (word_of_int (ct_upper_bound csiz) :: u64)) pd;
                if 0 < r then Some (RC_FAIL, None, pd)
                else if r < 0 then Some (RC_WMORE, None, pd)
                else if length octets \<noteq> sz \<or> the cap \<le> sz then None
                else Some (RC_OK, Some (\<lparr>os_buf = Some (octets @ [0]), os_size = sz\<rparr>, nat (int unit_bits * ct_upper_bound csiz)), pd) }
              else do {
                (res, pd) \<leftarrow> string_chunks can_alloc
                   (\<lambda>pd. uper_get_length pd (ct_effective_bits csiz) (word_of_int (ct_lower_bound csiz)))
                   get_units (\<lambda>n. n * bpc) (\<lambda>n unused. unused) cap [] 0 pd;
                case res of
                  Inl code \<Rightarrow> Some (code, None, pd)
                | Inr (octets, unused) \<Rightarrow>
                    Some (RC_OK, Some (\<lparr>os_buf = Some (octets @ [0]), os_size = length octets\<rparr>, 0), pd) } } })"

section \<open>The encoder\<close>

text \<open>
  The loop of the encoders of OCTET STRING and BIT STRING, \<open>do { ... } while(size)\<close>: \<open>put_units\<close> writes the
  units at the front of the buffer, \<open>advance\<close> is by how many octets the code moves on.
\<close>

function put_string_chunks ::
  "(u8 list \<Rightarrow> nat \<Rightarrow> 'k bit_outp \<Rightarrow> (int \<times> 'k bit_outp) option) \<Rightarrow> (nat \<Rightarrow> nat) \<Rightarrow> nat \<Rightarrow> u8 list \<Rightarrow> 'k bit_outp \<Rightarrow>
     (int \<times> 'k bit_outp) option" where
  "put_string_chunks put_units advance size_in_units buf po =
     (case uper_put_length po size_in_units of
        None \<Rightarrow> None
      | Some (may_save, need_eom, po) \<Rightarrow>
          if may_save < 0 then Some (-1, po)
          else do {
            (r, po) \<leftarrow> put_units buf (nat may_save) po;
            if r \<noteq> 0 then Some (-1, po)
            else do {
              let left = size_in_units - nat may_save;
              let buf = drop (advance (nat may_save)) buf;
              c_assert (may_save AND 7 = 0 \<or> left = 0);
              (r, po) \<leftarrow> (if need_eom \<noteq> 0 then do { (r, e, po) \<leftarrow> uper_put_length po 0; Some (r, po) } else Some (0, po));
              if r \<noteq> 0 then Some (-1, po)
              else if left = 0 then Some (0, po)
              else put_string_chunks put_units advance left buf po } })"
  by pat_completeness auto
termination
proof (relation "measure (\<lambda>(put_units, advance, n, buf, po). n)", goal_cases)
  case (2 put_units advance n buf po r1 may re need_eom po1 x r2 po2 left rest y z r3 po3)
  then have "0 < nat may"
    using put_length_progress(1) [of po n may need_eom po1] by auto
  with 2 show ?case by auto
qed simp

declare put_string_chunks.simps [simp del]

definition OCTET_STRING_encode_uper ::
  "os_subvariant \<Rightarrow> asn_per_constraints option \<Rightarrow> asn_per_constraints option \<Rightarrow> (OCTET_STRING, 'k) uper_encoder" where
  "OCTET_STRING_encode_uper subvariant td_constraints constraints st po =
     (let pc = os_constraints td_constraints constraints;
          cval = pc_value (case pc of Some c \<Rightarrow> c | None \<Rightarrow> asn_DEF_OCTET_STRING_constraints);
          csiz = pc_size (case pc of Some c \<Rightarrow> c | None \<Rightarrow> asn_DEF_OCTET_STRING_constraints);
          ct_extensible = ct_has csiz APC_EXTENSIBLE in
      if os_buf st = None \<and> os_size st \<noteq> 0 then Some (-1, po)
      else
        case os_unit subvariant of
          None \<Rightarrow> Some (-1, po)
        | Some (canonical_unit_bits, bpc) \<Rightarrow>
            if os_size st mod bpc \<noteq> 0 then Some (-1, po)
            else do {
              let size_in_units = os_size st div bpc;
              let outside = (0 \<le> ct_effective_bits csiz \<and>
                    (int size_in_units < ct_lower_bound csiz \<or> ct_upper_bound csiz < int size_in_units));
              let buf = (case os_buf st of Some buf \<Rightarrow> buf | None \<Rightarrow> []);
              let unit_bits = (if outside then canonical_unit_bits else os_unit_bits canonical_unit_bits cval);
              let put_units = (\<lambda>buf n po.
                    OCTET_STRING_per_put_characters po buf n bpc unit_bits (ct_lower_bound cval) (ct_upper_bound cval) pc);
              if outside \<and> \<not> ct_extensible then Some (-1, po)
              else do {
                (r, po) \<leftarrow> (if ct_extensible then asn_put_few_bits po (if outside then 1 else 0) 1 else Some (0, po));
                if r \<noteq> 0 then Some (-1, po)
                else if 0 \<le> ct_effective_bits csiz \<and> \<not> outside then do {
                  (r, po) \<leftarrow> asn_put_few_bits po (word_of_int (int size_in_units - ct_lower_bound csiz)) (ct_effective_bits csiz);
                  if r \<noteq> 0 then Some (-1, po)
                  else do {
                    (r, po) \<leftarrow> put_units buf size_in_units po;
                    Some (if r \<noteq> 0 then -1 else 0, po) } }
                else put_string_chunks put_units (\<lambda>n. n * bpc) size_in_units buf po } })"


section \<open>The bits of a character\<close>

text \<open>
  X.691 27.5 for a character with the number \<open>v\<close>: as it is, by its index in the alphabet, or by its
  distance from the first character. \<open>chars_ok\<close>: what the table of a constraint has to say.
\<close>

definition chars_ok :: "asn_per_constraints option \<Rightarrow> nat \<Rightarrow> nat \<Rightarrow> int \<Rightarrow> int \<Rightarrow> bool" where
  "chars_ok pc bpc unit_bits lb ub \<longleftrightarrow> bpc \<in> {1, 2, 4} \<and> 0 < unit_bits \<and> unit_bits \<le> 32 \<and> 0 \<le> lb \<and> lb < 2 ^ 31 \<and> 0 \<le> ub \<and> ub < 2 ^ 31 \<and>
     (ub \<le> 2 ^ unit_bits \<or> (pc \<bind> pc_value2code = None \<longleftrightarrow> pc \<bind> pc_code2value = None)) \<and>
     (2 ^ unit_bits < ub \<and> pc \<bind> pc_value2code \<noteq> None \<longrightarrow> unit_bits \<le> 16 \<and> \<not> (lb = 0 \<and> unit_bits = 8 * bpc))"

definition char_code :: "asn_per_constraints option \<Rightarrow> nat \<Rightarrow> nat \<Rightarrow> int \<Rightarrow> int \<Rightarrow> nat \<Rightarrow> bool list option" where
  "char_code pc bpc unit_bits lb ub v =
     (let as_is = (ub \<le> 2 ^ unit_bits); first = (if as_is then 0 else nat lb) in
      case (if as_is then None else pc \<bind> pc_value2code, if as_is then None else pc \<bind> pc_code2value) of
        (Some f, Some g) \<Rightarrow>
          if v < 2 ^ 31 \<and> 0 \<le> f v \<and> f v < 2 ^ unit_bits \<and> g (nat (f v)) = int v
          then Some (be_bits unit_bits (nat (f v))) else None
      | _ \<Rightarrow>
          if first = 0 \<and> unit_bits = 8 * bpc then Some (be_bits unit_bits v)
          else if unit_bits \<le> 31 \<and> first \<le> v \<and> int v \<le> ub \<and> v - first < 2 ^ unit_bits
          then Some (be_bits unit_bits (v - first)) else None)"

fun string_codes :: "(nat \<Rightarrow> bool list option) \<Rightarrow> nat \<Rightarrow> nat \<Rightarrow> u8 list \<Rightarrow> bool list list option" where
  "string_codes coding bpc 0 buf = Some []"
| "string_codes coding bpc (Suc n) buf = do {
     bs \<leftarrow> coding (octets_val (take bpc buf));
     bss \<leftarrow> string_codes coding bpc n (drop bpc buf);
     Some (bs # bss) }"

lemma string_codes_length: "string_codes coding bpc n buf = Some bss \<Longrightarrow> length bss = n"
  by (induction n arbitrary: buf bss) (auto split: bind_splits)

text \<open>The front and the rest of a string.\<close>

lemma string_codes_take:
  "string_codes coding bpc n buf = Some bss \<Longrightarrow> k \<le> n \<Longrightarrow> string_codes coding bpc k buf = Some (take k bss)"
proof (induction n arbitrary: k buf bss)
  case (Suc n)
  then show ?case by (cases k) (auto split: bind_splits)
qed simp

lemma string_codes_drop:
  "string_codes coding bpc n buf = Some bss \<Longrightarrow> k \<le> n \<Longrightarrow> string_codes coding bpc (n - k) (drop (k * bpc) buf) = Some (drop k bss)"
proof (induction n arbitrary: k buf bss)
  case (Suc n)
  then obtain bs xs where h: "string_codes coding bpc n (drop bpc buf) = Some xs" "bss = bs # xs" by (auto split: bind_splits)
  show ?case
  proof (cases k)
    case (Suc k')
    with Suc.IH [OF h(1), of k'] Suc.prems(2) h(2) show ?thesis by (simp add: add.commute)
  qed (use Suc.prems in simp)
qed simp

lemma per_as_is_ok:
  assumes "chars_ok pc bpc unit_bits lb ub"
  shows "per_as_is unit_bits ub = Some (ub \<le> 2 ^ unit_bits)"
proof -
  have b: "0 < unit_bits" "unit_bits \<le> 32" "0 \<le> ub" "ub < 2 ^ 31" using assms by (simp_all add: chars_ok_def)
  then have "(of_nat unit_bits - 1 :: u32) = of_nat (unit_bits - 1)" by (simp add: of_nat_diff)
  then have s: "unat (of_nat unit_bits - 1 :: u32) = unit_bits - 1"
    using b(1,2) by (simp only: unsigned_of_nat) (simp add: take_bit_eq_mod)
  have "push_bit (unit_bits - 1) (2 :: u64) = word_of_int (2 ^ unit_bits)"
    using b(1) by (cases unit_bits) (simp_all add: push_bit_eq_mult mult.commute)
  moreover have "(2 :: int) ^ unit_bits \<le> 2 ^ 32" by (rule power_increasing) (use b in auto)
  then have "uint (word_of_int (2 ^ unit_bits) :: u64) = 2 ^ unit_bits"
    by (simp only: uint_word_of_int) simp
  ultimately have "(word_of_int ub :: u64) \<le> push_bit (unit_bits - 1) 2 \<longleftrightarrow> ub \<le> 2 ^ unit_bits"
    using b(3,4) by (simp only: word_le_def) (simp add: uint_word_of_int)
  with s b show ?thesis by (simp add: per_as_is_def Let_def)
qed

lemma word_div_numeral: "(word_of_int (int v div numeral k) :: u8) = of_nat (v div numeral k)"
  by (metis of_int_of_nat_eq of_nat_numeral zdiv_int)

lemma char_octets_be: "bpc \<in> {1, 2, 4} \<Longrightarrow> char_octets bpc (int v) = be_octets bpc v"
  by (auto simp: char_octets_def be_octets_numerals drop_bit_eq_div word_div_numeral)

lemma s32_nonneg: "0 \<le> x \<Longrightarrow> x < 2 ^ 31 \<Longrightarrow> s32 x = Some x"
  by (simp add: s32_def limits_defs)

lemma octets_val_4: "octets_val [b0, b1, b2, b3] = unat b0 * 16777216 + (unat b1 * 65536 + (unat b2 * 256 + unat b3))"
proof -
  have "(256 :: nat) ^ 2 = 65536" "(256 :: nat) ^ 3 = 16777216" by simp_all
  then show ?thesis
    by (simp only: octets_val_Cons octets_val_Nil length_Cons list.size numeral_2_eq_2 numeral_3_eq_3 power_0 power_Suc0_right
        mult_1_right add_0_right One_nat_def)
qed

lemma char_value_ok:
  assumes "bpc \<in> {1, 2, 4}" "bpc \<le> length buf" "octets_val (take bpc buf) < 2 ^ 31"
  shows "char_value bpc buf = Some (int (octets_val (take bpc buf)))"
proof -
  note l = or_low_add_int [of _ 8] or_low_add_int [of _ 16] or_low_add_int [of _ 24]
  have u: "uint b < 256" "uint b = int (unat b)" for b :: u8 using uint_bounded [of b] by simp_all
  consider (one) "bpc = 1" | (two) "bpc = 2" | (four) "bpc = 4" using assms(1) by auto
  then show ?thesis
  proof cases
    case one
    with assms(2) obtain b0 r where "buf = b0 # r" by (cases buf) auto
    with one show ?thesis by (simp add: char_value_def octets_val_Cons)
  next
    case two
    have "Suc (Suc 0) \<le> length buf" using assms(2) two by simp
    then obtain b0 b1 r where "buf = b0 # b1 # r" by (auto simp: Suc_le_length_iff)
    with two show ?thesis
      by (simp add: char_value_def octets_val_Cons numeral_2_eq_2 push_bit_eq_mult l [simplified] u(1))
  next
    case four
    have "Suc (Suc (Suc (Suc 0))) \<le> length buf" using assms(2) four by simp
    then obtain b0 b1 b2 b3 r where b: "buf = b0 # b1 # b2 # b3 # r"
      by (auto simp: Suc_le_length_iff)
    then have t: "take 4 buf = [b0, b1, b2, b3]" by simp
    have v: "int (octets_val [b0, b1, b2, b3]) = uint b0 * 2 ^ 24 + (uint b1 * 2 ^ 16 + (uint b2 * 2 ^ 8 + uint b3))"
      by (simp only: octets_val_4 of_nat_add of_nat_mult of_nat_numeral uint_nat) simp
    have "int (octets_val [b0, b1, b2, b3]) < 2 ^ 31" using assms(3) four t by simp
    moreover have "0 \<le> uint b1 * 2 ^ 16" "0 \<le> uint b2 * 2 ^ 8" "0 \<le> uint b3" by simp_all
    ultimately have "uint b0 * 2 ^ 24 < 2 ^ 31" using v by linarith
    moreover have "0 \<le> uint b0 * 2 ^ 24" by simp
    ultimately have s: "s32 (push_bit 24 (uint b0)) = Some (uint b0 * 2 ^ 24)"
      unfolding push_bit_eq_mult by (intro s32_nonneg)
    have "uint b0 * 2 ^ 24 OR uint b1 * 2 ^ 16 OR uint b2 * 2 ^ 8 OR uint b3 = int (octets_val [b0, b1, b2, b3])"
    proof -
      have "uint b2 * 2 ^ 8 OR uint b3 = uint b2 * 2 ^ 8 + uint b3"
        by (rule or_low_add_int) (use u(1) [of b3] in simp_all)
      moreover have "uint b1 * 2 ^ 16 OR (uint b2 * 2 ^ 8 + uint b3) = uint b1 * 2 ^ 16 + (uint b2 * 2 ^ 8 + uint b3)"
        by (rule or_low_add_int) (use u(1) [of b2] u(1) [of b3] in simp_all)
      moreover have "uint b0 * 2 ^ 24 OR (uint b1 * 2 ^ 16 + (uint b2 * 2 ^ 8 + uint b3)) = uint b0 * 2 ^ 24 + (uint b1 * 2 ^ 16 + (uint b2 * 2 ^ 8 + uint b3))"
        by (rule or_low_add_int) (use u(1) [of b1] u(1) [of b2] u(1) [of b3] in simp_all)
      ultimately show ?thesis by (simp only: v)
    qed
    with four b t s show ?thesis
      by (simp only: char_value_def) (simp add: push_bit_eq_mult)
  qed
qed


text \<open>What the code does with the units of a string: the three ways of a character.\<close>

lemma char_code_cases:
  assumes c: "chars_ok pc bpc ub_bits lb ub"
  obtains (mapped) f g where "\<not> ub \<le> 2 ^ ub_bits" "pc \<bind> pc_value2code = Some f" "pc \<bind> pc_code2value = Some g" "ub_bits \<le> 16"
      "\<not> (lb = 0 \<and> ub_bits = 8 * bpc)"
      "\<And>v. char_code pc bpc ub_bits lb ub v = (if v < 2 ^ 31 \<and> 0 \<le> f v \<and> f v < 2 ^ ub_bits \<and> g (nat (f v)) = int v
          then Some (be_bits ub_bits (nat (f v))) else None)"
    | (raw) "(if ub \<le> 2 ^ ub_bits then 0 else lb) = 0" "ub_bits = 8 * bpc" "(if ub \<le> 2 ^ ub_bits then None else pc \<bind> pc_value2code) = None"
      "(if ub \<le> 2 ^ ub_bits then None else pc \<bind> pc_code2value) = None"
      "\<And>v. char_code pc bpc ub_bits lb ub v = Some (be_bits ub_bits v)"
    | (plain) first where "(if ub \<le> 2 ^ ub_bits then 0 else lb) = int first" "\<not> (first = 0 \<and> ub_bits = 8 * bpc)"
      "(if ub \<le> 2 ^ ub_bits then None else pc \<bind> pc_value2code) = None"
      "(if ub \<le> 2 ^ ub_bits then None else pc \<bind> pc_code2value) = None"
      "\<And>v. char_code pc bpc ub_bits lb ub v = (if ub_bits \<le> 31 \<and> first \<le> v \<and> int v \<le> ub \<and> v - first < 2 ^ ub_bits
          then Some (be_bits ub_bits (v - first)) else None)"
proof -
  define first where "first = (if ub \<le> 2 ^ ub_bits then 0 else nat lb)"
  have lb: "(if ub \<le> 2 ^ ub_bits then 0 else lb) = int first" using c by (auto simp: first_def chars_ok_def)
  show thesis
  proof (cases "\<not> ub \<le> 2 ^ ub_bits \<and> pc \<bind> pc_value2code \<noteq> None")
    case True
    then obtain f g where "pc \<bind> pc_value2code = Some f" "pc \<bind> pc_code2value = Some g" using c by (auto simp: chars_ok_def)
    with True c show thesis by (intro mapped [of f g]) (auto simp: char_code_def chars_ok_def Let_def)
  next
    case False
    then have n: "(if ub \<le> 2 ^ ub_bits then None else pc \<bind> pc_value2code) = None"
      "(if ub \<le> 2 ^ ub_bits then None else pc \<bind> pc_code2value) = None" using c by (auto simp: chars_ok_def)
    have code: "char_code pc bpc ub_bits lb ub v = (if first = 0 \<and> ub_bits = 8 * bpc then Some (be_bits ub_bits v)
        else if ub_bits \<le> 31 \<and> first \<le> v \<and> int v \<le> ub \<and> v - first < 2 ^ ub_bits then Some (be_bits ub_bits (v - first)) else None)" for v
      by (simp only: char_code_def Let_def n first_def [symmetric] prod.case option.case)
    show thesis
    proof (cases "first = 0 \<and> ub_bits = 8 * bpc")
      case True
      show thesis by (rule raw) (use True lb n code in auto)
    next
      case False
      show thesis by (rule plain [OF lb False n]) (use False code in auto)
    qed
  qed
qed

lemma raw_codes:
  assumes "string_codes (\<lambda>v. Some (be_bits (8 * bpc) v)) bpc n buf = Some bss" "n * bpc \<le> length buf"
  shows "concat bss = octets_bits (take (n * bpc) buf)"
  using assms
proof (induction n arbitrary: buf bss)
  case (Suc n)
  then obtain xs where x: "string_codes (\<lambda>v. Some (be_bits (8 * bpc) v)) bpc n (drop bpc buf) = Some xs"
    "bss = be_bits (8 * bpc) (octets_val (take bpc buf)) # xs" by (auto split: bind_splits)
  have "octets_bits (take bpc buf) = be_bits (8 * bpc) (octets_val (take bpc buf))"
    using octets_bits_val [of "take bpc buf"] Suc.prems(2) by simp
  moreover have "concat xs = octets_bits (take (n * bpc) (drop bpc buf))"
    by (rule Suc.IH [OF x(1)]) (use Suc.prems(2) in simp)
  moreover have "take (bpc + n * bpc) buf = take bpc buf @ take (n * bpc) (drop bpc buf)" by (rule take_add)
  ultimately show ?case by (simp add: x(2))
qed simp

lemma to_int32_id: "0 \<le> x \<Longrightarrow> x < 2 ^ 31 \<Longrightarrow> to_int32 x = x"
  by (simp add: to_int32_def signed_of_int signed_take_bit_int_eq_self)

lemma s64_small: "- (2 ^ 62) \<le> x \<Longrightarrow> x \<le> 2 ^ 62 \<Longrightarrow> s64 x = Some x"
  by (simp add: s64_def limits_defs)

lemma s32_size: "n * k < 2 ^ 31 \<Longrightarrow> s32 (int (k * n)) = Some (int (n * k))"
proof -
  assume "n * k < 2 ^ 31"
  then have "int (n * k) < int (2 ^ 31)" by (simp only: of_nat_less_iff)
  then have "s32 (int (n * k)) = Some (int (n * k))" by (intro s32_nonneg) simp_all
  then show ?thesis by (simp only: mult.commute)
qed

context bytes_consumer begin

lemma put_mapped_ok:
  assumes "string_codes coding bpc n buf = Some bss" "n * bpc \<le> length buf" "po_ok cb key_inv po" "bpc \<in> {1, 2, 4}" "ub_bits \<le> 16"
    and "\<And>v bs. coding v = Some bs \<Longrightarrow> v < 2 ^ 31 \<and> 0 \<le> f v \<and> bs = be_bits ub_bits (nat (f v))"
  shows "puts po 0 (concat bss) (put_mapped_characters f bpc ub_bits n buf po)"
  using assms(1-3)
proof (induction n arbitrary: buf bss po)
  case 0
  then show ?case by (simp add: po_puts_Nil)
next
  case (Suc n)
  define v where "v = octets_val (take bpc buf)"
  obtain bs xs where x: "coding v = Some bs" "string_codes coding bpc n (drop bpc buf) = Some xs" "bss = bs # xs"
    using Suc.prems(1) by (auto simp: v_def split: bind_splits)
  note v = assms(6) [OF x(1)]
  have cv: "char_value bpc buf = Some (int v)"
    using char_value_ok [OF assms(4), of buf] Suc.prems(2) v by (simp add: v_def)
  have w: "word_of_int (f v) = (of_nat (nat (f v)) :: u32)" using v by simp
  have "puts po 0 (bs @ concat xs) (asn_put_few_bits po (of_nat (nat (f v))) (int ub_bits) \<bind>
    (\<lambda>(r, po). if r \<noteq> 0 then Some (-1, po) else put_mapped_characters f bpc ub_bits n (drop bpc buf) po))"
  proof (rule po_puts_then)
    show "puts po 0 bs (asn_put_few_bits po (of_nat (nat (f v))) (int ub_bits))"
      using put_number [OF Suc.prems(3), of "int ub_bits" ub_bits "nat (f v)"] v assms(5) by simp
  qed (use Suc.IH x(2) Suc.prems(2) in auto)
  moreover have "\<not> (bpc \<noteq> 1 \<and> bpc \<noteq> 2 \<and> bpc \<noteq> 4)" "\<not> f v < 0" using assms(4) v by auto
  ultimately show ?case
    by (simp only: put_mapped_characters.simps if_False cv bind.bind_lunit Let_def w x(3) concat.simps nat_int)
qed

lemma put_plain_ok:
  assumes "string_codes coding bpc n buf = Some bss" "n * bpc \<le> length buf" "po_ok cb key_inv po" "bpc \<in> {1, 2, 4}" "ub < 2 ^ 31"
    and "\<And>v bs. coding v = Some bs \<Longrightarrow> ub_bits \<le> 31 \<and> first \<le> v \<and> int v \<le> ub \<and> bs = be_bits ub_bits (v - first)"
  shows "puts po 0 (concat bss) (put_plain_characters (int first) (ub - int first) bpc ub_bits n buf po)"
  using assms(1-3)
proof (induction n arbitrary: buf bss po)
  case 0
  then show ?case by (simp add: po_puts_Nil)
next
  case (Suc n)
  define v where "v = octets_val (take bpc buf)"
  obtain bs xs where x: "coding v = Some bs" "string_codes coding bpc n (drop bpc buf) = Some xs" "bss = bs # xs"
    using Suc.prems(1) by (auto simp: v_def split: bind_splits)
  note v = assms(6) [OF x(1)]
  have b: "int v < 2 ^ 31" using v assms(5) by linarith
  have cv: "char_value bpc buf = Some (int v)"
    using char_value_ok [OF assms(4), of buf] Suc.prems(2) b by (simp add: v_def)
  have d: "int v - int first = int (v - first)" using v by simp
  have s: "s64 (int (v - first)) = Some (int (v - first))" "to_int32 (int (v - first)) = int (v - first)"
    using b by (auto intro!: s64_small to_int32_id)
  have "puts po 0 (bs @ concat xs) (asn_put_few_bits po (of_nat (v - first)) (int ub_bits) \<bind>
    (\<lambda>(r, po). if r \<noteq> 0 then Some (-1, po) else put_plain_characters (int first) (ub - int first) bpc ub_bits n (drop bpc buf) po))"
  proof (rule po_puts_then)
    show "puts po 0 bs (asn_put_few_bits po (of_nat (v - first)) (int ub_bits))"
      using put_number [OF Suc.prems(3), of "int ub_bits" ub_bits "v - first"] v by simp
  qed (use Suc.IH x(2) Suc.prems(2) in auto)
  moreover have "\<not> (int (v - first) < 0 \<or> ub - int first < int (v - first))" using v by simp
  moreover have "\<not> (bpc \<noteq> 1 \<and> bpc \<noteq> 2 \<and> bpc \<noteq> 4)" using assms(4) by auto
  ultimately show ?case
    by (simp only: put_plain_characters.simps if_False cv bind.bind_lunit d s Let_def x(3) concat.simps of_int_of_nat_eq)
qed

lemma put_characters_ok:
  assumes c: "chars_ok pc bpc ub_bits lb ub" and codes: "string_codes (char_code pc bpc ub_bits lb ub) bpc n buf = Some bss"
    and len: "n * bpc \<le> length buf" "n * ub_bits < 2 ^ 31" and po: "po_ok cb key_inv po"
  shows "puts po 0 (concat bss) (OCTET_STRING_per_put_characters po buf n bpc ub_bits lb ub pc)"
proof -
  have b: "bpc \<in> {1, 2, 4}" "0 \<le> lb" "lb < 2 ^ 31" "0 \<le> ub" "ub < 2 ^ 31" using c by (simp_all add: chars_ok_def)
  note a = per_as_is_ok [OF c]
  from c show ?thesis
  proof (cases rule: char_code_cases)
    case (mapped f g)
    have w: "s64 (ub - lb) = Some (ub - lb)" using b by (intro s64_small) simp_all
    have "puts po 0 (concat bss) (put_mapped_characters f bpc ub_bits n buf po)"
      by (rule put_mapped_ok [OF codes len(1) po b(1) mapped(4)]) (auto simp: mapped(6) split: if_splits)
    then have "puts po 0 (concat bss @ []) (put_mapped_characters f bpc ub_bits n buf po \<bind>
        (\<lambda>(r, po). if r \<noteq> 0 then Some (-1, po) else Some (0, po)))"
      by (rule po_puts_then) (rule po_puts_Nil)
    moreover have "OCTET_STRING_per_put_characters po buf n bpc ub_bits lb ub pc = put_mapped_characters f bpc ub_bits n buf po \<bind>
        (\<lambda>(r, po). if r \<noteq> 0 then Some (-1, po) else Some (0, po))"
      by (cases "put_mapped_characters f bpc ub_bits n buf po")
        (simp_all only: OCTET_STRING_per_put_characters_def a bind.bind_lunit bind.bind_lzero Let_def mapped(1,2) not_False_eq_True if_False
           option.case w if_not_P [OF mapped(5)] split_def fst_conv snd_conv put_plain_characters.simps)
    ultimately show ?thesis by simp
  next
    case raw
    have "coding = (\<lambda>v. Some (be_bits (8 * bpc) v))" if "coding = char_code pc bpc ub_bits lb ub" for coding
      using raw(2,5) that by auto
    with codes have "string_codes (\<lambda>v. Some (be_bits (8 * bpc) v)) bpc n buf = Some bss" by simp
    from raw_codes [OF this len(1)] have cc: "concat bss = take (n * ub_bits) (octets_bits buf)"
      using take_octets_bits [of "n * bpc" buf] raw(2) by (simp add: ac_simps)
    have "s32 (int (ub_bits * n)) = Some (int (n * ub_bits))" by (rule s32_size) (rule len(2))
    moreover have "n * ub_bits \<le> 8 * length buf" using len(1) raw(2) by (simp add: mult.left_commute)
    moreover have "(0 :: int) \<noteq> 0 \<longleftrightarrow> False" by simp
    ultimately show ?thesis
      using put_many_bits_puts [OF po, of "n * ub_bits" buf]
      by (simp only: OCTET_STRING_per_put_characters_def a bind.bind_lunit Let_def raw(1,3) option.case prod.case cc if_False
          if_P [OF conjI [OF refl raw(2)]])
  next
    case (plain first)
    have "int first < 2 ^ 31" using plain(1) b(3) by (cases "ub \<le> 2 ^ ub_bits") simp_all
    then have w: "s64 (ub - int first) = Some (ub - int first)" using b by (intro s64_small) simp_all
    have "puts po 0 (concat bss) (put_plain_characters (int first) (ub - int first) bpc ub_bits n buf po)"
      by (rule put_plain_ok [OF codes len(1) po b(1,5)]) (auto simp: plain(5) split: if_splits)
    moreover have "\<not> (int first = 0 \<and> ub_bits = 8 * bpc)" using plain(2) by simp
    ultimately show ?thesis
      by (simp only: OCTET_STRING_per_put_characters_def a bind.bind_lunit Let_def plain(1,3) option.case prod.case w if_False) simp
  qed
qed

end

text \<open>Reading them back.\<close>

lemma take_unit: "bpc \<le> length buf \<Longrightarrow> be_octets bpc (octets_val (take bpc buf)) @ take (n * bpc) (drop bpc buf) = take (bpc + n * bpc) buf"
  using be_octets_octets_val [of "take bpc buf"] by (simp add: take_add)

lemma get_mapped_ok:
  assumes "string_codes coding bpc n buf = Some bss" "n * bpc \<le> length buf" "pd_inv pd" "pd_bits pd = concat bss @ rest"
    and "bpc \<in> {1, 2, 4}" "ub_bits \<le> 16"
    and "\<And>v bs. coding v = Some bs \<Longrightarrow> 0 \<le> f v \<and> f v < 2 ^ ub_bits \<and> g (nat (f v)) = int v \<and> bs = be_bits ub_bits (nat (f v))"
  shows "\<exists>pd'. get_mapped_characters g bpc ub_bits n pd = Some (0, take (n * bpc) buf, pd') \<and> pd_consumes pd (concat bss) pd'"
  using assms(1-4)
proof (induction n arbitrary: buf bss pd)
  case 0
  then show ?case by (simp add: pd_consumes_refl)
next
  case (Suc n)
  define v where "v = octets_val (take bpc buf)"
  obtain bs xs where x: "coding v = Some bs" "string_codes coding bpc n (drop bpc buf) = Some xs" "bss = bs # xs"
    using Suc.prems(1) by (auto simp: v_def split: bind_splits)
  note v = assms(7) [OF x(1)]
  then have "nat (f v) < 2 ^ ub_bits" by (simp add: nat_less_iff)
  from get_number [OF Suc.prems(3) _ _ refl this, of "concat xs @ rest"] Suc.prems(4) x(3) v assms(6)
  have g: "asn_get_few_bits pd (int ub_bits) = Some (int (nat (f v)), pd_skip ub_bits pd)" "pd_consumes pd bs (pd_skip ub_bits pd)"
    "pd_bits (pd_skip ub_bits pd) = concat xs @ rest" "pd_inv (pd_skip ub_bits pd)" by auto
  have "n * bpc \<le> length (drop bpc buf)" using Suc.prems(2) by simp
  from Suc.IH [OF x(2) this g(4,3)] obtain pd' where
    p: "get_mapped_characters g bpc ub_bits n (pd_skip ub_bits pd) = Some (0, take (n * bpc) (drop bpc buf), pd')"
      "pd_consumes (pd_skip ub_bits pd) (concat xs) pd'" by blast
  have "char_octets bpc (int v) @ take (n * bpc) (drop bpc buf) = take (Suc n * bpc) buf"
    using char_octets_be [OF assms(5), of v] take_unit [of bpc buf n] Suc.prems(2) by (simp add: v_def)
  with g(1) p(1) v pd_consumes_trans [OF g(2) p(2)] x(3) show ?case by (simp add: Let_def)
qed

lemma get_plain_ok:
  assumes "string_codes coding bpc n buf = Some bss" "n * bpc \<le> length buf" "pd_inv pd" "pd_bits pd = concat bss @ rest"
    and "bpc \<in> {1, 2, 4}" "ub < 2 ^ 31"
    and "\<And>v bs. coding v = Some bs \<Longrightarrow> ub_bits \<le> 31 \<and> first \<le> v \<and> int v \<le> ub \<and> v - first < 2 ^ ub_bits \<and> bs = be_bits ub_bits (v - first)"
  shows "\<exists>pd'. get_plain_characters (int first) ub bpc ub_bits n pd = Some (0, take (n * bpc) buf, pd') \<and> pd_consumes pd (concat bss) pd'"
  using assms(1-4)
proof (induction n arbitrary: buf bss pd)
  case 0
  then show ?case by (simp add: pd_consumes_refl)
next
  case (Suc n)
  define v where "v = octets_val (take bpc buf)"
  obtain bs xs where x: "coding v = Some bs" "string_codes coding bpc n (drop bpc buf) = Some xs" "bss = bs # xs"
    using Suc.prems(1) by (auto simp: v_def split: bind_splits)
  note v = assms(7) [OF x(1)]
  from get_number [OF Suc.prems(3) _ _ refl, of ub_bits "v - first" "concat xs @ rest"] Suc.prems(4) x(3) v
  have g: "asn_get_few_bits pd (int ub_bits) = Some (int (v - first), pd_skip ub_bits pd)" "pd_consumes pd bs (pd_skip ub_bits pd)"
    "pd_bits (pd_skip ub_bits pd) = concat xs @ rest" "pd_inv (pd_skip ub_bits pd)" by auto
  have s: "s64 (int (v - first) + int first) = Some (int v)" "to_int32 (int v) = int v"
    using v assms(6) by (auto simp: s64_small to_int32_id)
  have "n * bpc \<le> length (drop bpc buf)" using Suc.prems(2) by simp
  from Suc.IH [OF x(2) this g(4,3)] obtain pd' where
    p: "get_plain_characters (int first) ub bpc ub_bits n (pd_skip ub_bits pd) = Some (0, take (n * bpc) (drop bpc buf), pd')"
      "pd_consumes (pd_skip ub_bits pd) (concat xs) pd'" by blast
  have "char_octets bpc (int v) @ take (n * bpc) (drop bpc buf) = take (Suc n * bpc) buf"
    using char_octets_be [OF assms(5), of v] take_unit [of bpc buf n] Suc.prems(2) by (simp add: v_def)
  moreover have "\<not> int (v - first) < 0" "\<not> ub < int v" using v by auto
  ultimately have "get_plain_characters (int first) ub bpc ub_bits (Suc n) pd = Some (0, take (Suc n * bpc) buf, pd')"
    by (simp only: get_plain_characters.simps g(1) bind.bind_lunit split_conv s Let_def if_False p(1))
  with pd_consumes_trans [OF g(2) p(2)] x(3) show ?case by auto
qed

lemma get_characters_ok:
  assumes c: "chars_ok pc bpc ub_bits lb ub" and codes: "string_codes (char_code pc bpc ub_bits lb ub) bpc n buf = Some bss"
    and len: "n * bpc \<le> length buf" "n * ub_bits < 2 ^ 31" and pd: "pd_inv pd" "pd_bits pd = concat bss @ rest"
  shows "\<exists>pd'. OCTET_STRING_per_get_characters pd n bpc ub_bits lb ub pc = Some (0, take (n * bpc) buf, pd') \<and> pd_consumes pd (concat bss) pd'"
proof -
  have b: "bpc \<in> {1, 2, 4}" "ub < 2 ^ 31" using c by (simp_all add: chars_ok_def)
  note a = per_as_is_ok [OF c]
  from c show ?thesis
  proof (cases rule: char_code_cases)
    case (mapped f g)
    have "\<exists>pd'. get_mapped_characters g bpc ub_bits n pd = Some (0, take (n * bpc) buf, pd') \<and> pd_consumes pd (concat bss) pd'"
      by (rule get_mapped_ok [OF codes len(1) pd b(1) mapped(4), where f = f]) (auto simp: mapped(6) split: if_splits)
    then show ?thesis using mapped(4)
      by (simp only: OCTET_STRING_per_get_characters_def a bind.bind_lunit Let_def mapped(1,3) if_False not_False_eq_True option.case) simp
  next
    case raw
    have "coding = (\<lambda>v. Some (be_bits (8 * bpc) v))" if "coding = char_code pc bpc ub_bits lb ub" for coding
      using raw(2,5) that by auto
    with codes have "string_codes (\<lambda>v. Some (be_bits (8 * bpc) v)) bpc n buf = Some bss" by simp
    from raw_codes [OF this len(1)] have cc: "concat bss = octets_bits (take (n * bpc) buf)" .
    have s: "s32 (int (ub_bits * n)) = Some (int (n * ub_bits))" by (rule s32_size) (rule len(2))
    have l: "length (concat bss) = n * ub_bits" using len(1) raw(2) by (simp add: cc min_absorb2)
    with pd(2) have t: "take (n * ub_bits) (pd_bits pd) = concat bss" "n * ub_bits \<le> length (pd_bits pd)" by simp_all
    from get_many_bits_left [OF pd(1) t(2)] obtain pd' where
      "asn_get_many_bits pd False (int (n * ub_bits)) = Some (0, left_octets (concat bss), pd')" "pd_consumes pd (concat bss) pd'"
      unfolding t(1) by blast
    moreover have "left_octets (concat bss) = take (n * bpc) buf" by (simp add: cc)
    ultimately show ?thesis
      by (simp only: OCTET_STRING_per_get_characters_def a bind.bind_lunit Let_def raw(1,4) option.case s if_P [OF conjI [OF refl raw(2)]]) simp
  next
    case (plain first)
    have "\<exists>pd'. get_plain_characters (int first) ub bpc ub_bits n pd = Some (0, take (n * bpc) buf, pd') \<and> pd_consumes pd (concat bss) pd'"
      by (rule get_plain_ok [OF codes len(1) pd b]) (auto simp: plain(5) split: if_splits)
    moreover have "\<not> (int first = 0 \<and> ub_bits = 8 * bpc)" using plain(2) by simp
    ultimately show ?thesis
      by (simp only: OCTET_STRING_per_get_characters_def a bind.bind_lunit Let_def plain(1,4) option.case if_False)
  qed
qed


section \<open>Strings in chunks\<close>

text \<open>
  Both loops over any kind of unit. \<open>bss\<close> are the bits of the units; the chunks in front of the last
  have a multiple of 16384 units, so that a chunk starts at a multiple of eight.
\<close>

definition units_put ::
  "(u8 list \<Rightarrow> nat \<Rightarrow> enc_dyn_arg bit_outp \<Rightarrow> (int \<times> enc_dyn_arg bit_outp) option) \<Rightarrow> (nat \<Rightarrow> nat) \<Rightarrow> u8 list \<Rightarrow> bool list list \<Rightarrow> bool" where
  "units_put put_units advance buf bss \<longleftrightarrow>
     (\<forall>i n po. 8 dvd i \<longrightarrow> i + n \<le> length bss \<longrightarrow> n \<le> 65536 \<longrightarrow> po_ok grow_cb dyn_inv po \<longrightarrow>
        po_puts grow_cb dyn_taken dyn_inv po 0 (concat (take n (drop i bss))) (put_units (drop (advance i) buf) n po)) \<and>
     (\<forall>i n. 8 dvd i \<longrightarrow> advance (i + n) = advance i + advance n) \<and> advance 0 = 0"

lemma units_putD:
  assumes "units_put put_units advance buf bss"
  shows "8 dvd i \<Longrightarrow> i + n \<le> length bss \<Longrightarrow> n \<le> 65536 \<Longrightarrow> po_ok grow_cb dyn_inv po \<Longrightarrow>
      po_puts grow_cb dyn_taken dyn_inv po 0 (concat (take n (drop i bss))) (put_units (drop (advance i) buf) n po)"
    and "8 dvd i \<Longrightarrow> advance (i + n) = advance i + advance n" "advance 0 = 0"
  using assms by (simp_all add: units_put_def)

lemma unit_limit: "uper_length_unit n \<le> 65536"
  by (auto simp: uper_length_unit_def)

lemma unit_dvd: "16384 \<le> n \<Longrightarrow> 16384 dvd uper_length_unit n"
  by (auto simp: uper_length_unit_def)

lemma put_string_chunks_ok:
  assumes units: "units_put put_units advance buf bss" and po: "po_ok grow_cb dyn_inv po" and i: "8 dvd i" "i \<le> length bss"
  shows "po_puts grow_cb dyn_taken dyn_inv po 0 (element_fragments (drop i bss))
    (put_string_chunks put_units advance (length bss - i) (drop (advance i) buf) po)"
  using po i
proof (induction "length bss - i" arbitrary: i po rule: less_induct)
  case less
  define n where "n = length bss - i"
  define u where "u = uper_length_unit n"
  have n: "length (drop i bss) = n" by (simp add: n_def)
  have u: "u \<le> n" "u \<le> 65536" "n < 16384 \<Longrightarrow> u = n" using unit_bounds [of n] unit_limit [of n]
    by (auto simp: u_def uper_length_unit_def)
  have full: "16384 \<le> n \<Longrightarrow> 0 < u \<and> 8 dvd u" using unit_bounds(1) [of n] unit_dvd [of n] by (auto simp: u_def elim: dvd_trans [rotated])
  from put_length_dyn [OF less.prems(1), of n] obtain po1 where
    1: "uper_put_length po n = Some (int u, of_bool (16384 \<le> n \<and> u = n), po1)" "po_ok grow_cb dyn_inv po1"
      "po_emits dyn_taken po (uper_length_bits n) po1" unfolding u_def by blast
  have "i + u \<le> length bss" using u(1) less.prems(3) by (simp add: n_def)
  from units_putD(1) [OF units less.prems(2) this u(2) 1(2)] dyn_never_refuses obtain po2 where
    2: "put_units (drop (advance i) buf) u po1 = Some (0, po2)" "po_ok grow_cb dyn_inv po2"
      "po_emits dyn_taken po1 (concat (take u (drop i bss))) po2" unfolding po_puts_def by blast
  note e2 = po_emits_trans [OF 1(3) 2(3)]
  define tl where "tl = (if n < 16384 then [] else if u = n then uper_length_bits 0 else element_fragments (drop u (drop i bss)))"
  have frag: "element_fragments (drop i bss) = (uper_length_bits n @ concat (take u (drop i bss))) @ tl"
    by (subst element_fragments.simps) (simp only: Let_def n u_def [symmetric] tl_def append_assoc)
  have eom: "po_puts grow_cb dyn_taken dyn_inv po2 0 (if 16384 \<le> n \<and> u = n then uper_length_bits 0 else [])
      (if (of_bool (16384 \<le> n \<and> u = n) :: int) \<noteq> 0 then do { (r, e, po) \<leftarrow> uper_put_length po2 0; Some (r, po) } else Some (0, po2))"
    using dyn.put_length_zero [OF 2(2)] po_puts_Nil [OF 2(2)] by simp
  have seven: "int u AND 7 = 0 \<or> n - u = 0"
  proof (cases "n < 16384")
    case False
    then have "int u mod 8 = 0" using full by (auto simp: dvd_eq_mod_eq_0 simp flip: of_nat_mod)
    then show ?thesis by (simp add: and_7_mod_8)
  qed (use u(3) in simp)
  then have ca: "c_assert (int u AND 7 = 0 \<or> n - u = 0) = Some ()" by (simp only: c_assert_simps)
  define fin where "fin = (\<lambda>po. if n - u = 0 then Some (0, po)
    else put_string_chunks put_units advance (n - u) (drop (advance u) (drop (advance i) buf)) po)"
  have step: "put_string_chunks put_units advance (length bss - i) (drop (advance i) buf) po =
    (if (of_bool (16384 \<le> n \<and> u = n) :: int) \<noteq> 0 then do { (r, e, po) \<leftarrow> uper_put_length po2 0; Some (r, po) } else Some (0, po2)) \<bind>
      (\<lambda>(r, po). if r \<noteq> 0 then Some (-1, po) else fin po)"
    by (subst put_string_chunks.simps, simp only: n_def [symmetric] 1(1) option.case prod.case nat_int 2(1) bind.bind_lunit Let_def ca)
      (simp add: fin_def cong del: if_weak_cong)
  have "po_puts grow_cb dyn_taken dyn_inv po2 0 tl
      ((if (of_bool (16384 \<le> n \<and> u = n) :: int) \<noteq> 0 then do { (r, e, po) \<leftarrow> uper_put_length po2 0; Some (r, po) } else Some (0, po2)) \<bind>
      (\<lambda>(r, po). if r \<noteq> 0 then Some (-1, po) else fin po))"
  proof (cases "u = n")
    case True
    have "po_puts grow_cb dyn_taken dyn_inv po2 0 ((if 16384 \<le> n \<and> u = n then uper_length_bits 0 else []) @ [])
      ((if (of_bool (16384 \<le> n \<and> u = n) :: int) \<noteq> 0 then do { (r, e, po) \<leftarrow> uper_put_length po2 0; Some (r, po) } else Some (0, po2)) \<bind>
      (\<lambda>(r, po). if r \<noteq> 0 then Some (-1, po) else fin po))"
      by (rule po_puts_then [OF eom]) (use True po_puts_Nil in \<open>auto simp: fin_def\<close>)
    moreover have "tl = (if 16384 \<le> n \<and> u = n then uper_length_bits 0 else []) @ []" using True by (simp add: tl_def)
    ultimately show ?thesis by (simp only:)
  next
    case False
    then have big: "16384 \<le> n" using u(3) by linarith
    have "po_puts grow_cb dyn_taken dyn_inv po2 0 (element_fragments (drop (i + u) bss))
        (put_string_chunks put_units advance (length bss - (i + u)) (drop (advance (i + u)) buf) po2)"
      by (rule less.hyps) (use u(1) False full [OF big] n_def 2(2) less.prems(2,3) in auto)
    moreover have "n - u \<noteq> 0" using False u(1) by simp
    ultimately show ?thesis
      using False big by (simp add: tl_def fin_def n_def add.commute units_putD(2) [OF units less.prems(2)] diff_diff_left)
  qed
  with e2 show ?case unfolding frag step po_puts_def using po_emits_trans [OF e2] by auto
qed

text \<open>
  The reader: \<open>out i\<close> is what the buffer holds behind \<open>i\<close> units, \<open>un i\<close> the number of unused bits.
\<close>

definition units_got ::
  "(nat \<Rightarrow> bit_data \<Rightarrow> (int \<times> u8 list \<times> bit_data) option) \<Rightarrow> (nat \<Rightarrow> nat) \<Rightarrow> (nat \<Rightarrow> nat \<Rightarrow> nat) \<Rightarrow> (nat \<Rightarrow> u8 list) \<Rightarrow> (nat \<Rightarrow> nat) \<Rightarrow>
     bool list list \<Rightarrow> bool" where
  "units_got get_units len_bytes set_unused out un bss \<longleftrightarrow>
     (\<forall>i n pd rest. 8 dvd i \<longrightarrow> i + n \<le> length bss \<longrightarrow> n \<le> 65536 \<longrightarrow> pd_inv pd \<longrightarrow> pd_bits pd = concat (take n (drop i bss)) @ rest \<longrightarrow>
        (\<exists>chunk pd'. get_units n pd = Some (0, chunk, pd') \<and> out (i + n) = out i @ chunk \<and> length chunk = len_bytes n \<and>
           pd_consumes pd (concat (take n (drop i bss))) pd')) \<and>
     (\<forall>i n. 8 dvd i \<longrightarrow> set_unused n (un i) = un (i + n)) \<and> out 0 = []"

lemma units_gotE:
  assumes "units_got get_units len_bytes set_unused out un bss" "8 dvd i" "i + n \<le> length bss" "n \<le> 65536" "pd_inv pd"
    "pd_bits pd = concat (take n (drop i bss)) @ rest"
  obtains chunk pd' where "get_units n pd = Some (0, chunk, pd')" "out (i + n) = out i @ chunk" "length chunk = len_bytes n"
    "pd_consumes pd (concat (take n (drop i bss))) pd'" "pd_inv pd'" "pd_bits pd' = rest" "set_unused n (un i) = un (i + n)"
proof -
  note u = assms(1) [unfolded units_got_def]
  from u [THEN conjunct1, rule_format, OF assms(2-6)] obtain chunk pd' where
    *: "get_units n pd = Some (0, chunk, pd')" "out (i + n) = out i @ chunk" "length chunk = len_bytes n"
      "pd_consumes pd (concat (take n (drop i bss))) pd'" by blast
  have un: "set_unused n (un i) = un (i + n)" using u [THEN conjunct2, THEN conjunct1, rule_format, OF assms(2)] .
  have "pd_bits pd' = rest" "pd_inv pd'" using pd_consumesD(2,3) [OF *(4)] assms(6) by simp_all
  with * un show thesis by (intro that)
qed

lemma get_length_unbounded: "eb < 0 \<Longrightarrow> uper_get_length pd eb lb = uper_get_length pd (-1) lb"
  by (simp add: uper_get_length_def)

lemma string_fragments_ok:
  assumes units: "units_got get_units len_bytes set_unused out un bss" and eb: "eb < 0"
    and i: "8 dvd i" "i \<le> length bss" "case cap of Some c \<Rightarrow> length (out i) < c | None \<Rightarrow> True"
    and pd: "pd_inv pd" "pd_bits pd = element_fragments (drop i bss) @ rest"
  shows "\<exists>pd'. string_chunks (\<lambda>_. True) (\<lambda>pd. uper_get_length pd eb lb) get_units len_bytes set_unused cap (out i) (un i) pd =
      Some (Inr (out (length bss), un (length bss)), pd') \<and> pd_consumes pd (element_fragments (drop i bss)) pd'"
  using i pd
proof (induction "length bss - i" arbitrary: i cap pd rule: less_induct)
  case less
  define n where "n = length bss - i"
  define u where "u = uper_length_unit n"
  define tl where "tl = (if n < 16384 then [] else if u = n then uper_length_bits 0 else element_fragments (drop u (drop i bss)))"
  have n: "length (drop i bss) = n" by (simp add: n_def)
  have u: "u \<le> n" "u \<le> 65536" "n < 16384 \<Longrightarrow> u = n" using unit_bounds [of n] unit_limit [of n]
    by (auto simp: u_def uper_length_unit_def)
  have full: "16384 \<le> n \<Longrightarrow> 0 < u \<and> 8 dvd u" using unit_bounds(1) [of n] unit_dvd [of n] by (auto simp: u_def elim: dvd_trans [rotated])
  have frag: "element_fragments (drop i bss) = uper_length_bits n @ concat (take u (drop i bss)) @ tl"
    by (subst element_fragments.simps) (simp only: Let_def n u_def [symmetric] tl_def append_assoc)
  from less.prems(5) have "pd_bits pd = uper_length_bits n @ concat (take u (drop i bss)) @ tl @ rest" by (simp add: frag)
  from get_length_ok [OF less.prems(4) this, of lb] obtain pd1 where
    1: "uper_get_length pd eb lb = Some (int u, if n < 16384 then 0 else 1, pd1)"
      "pd_consumes pd (uper_length_bits n) pd1" "pd_bits pd1 = concat (take u (drop i bss)) @ tl @ rest"
    unfolding get_length_unbounded [OF eb] u_def by blast
  have i1: "pd_inv pd1" using 1(2) by (simp add: pd_consumes_def)
  have iu: "i + u \<le> length bss" using u(1) less.prems(2) by (simp add: n_def)
  show ?case
  proof (cases "u = 0 \<and> cap \<noteq> None")
    case True
    then have small: "n < 16384" using full by fastforce
    then have "n = 0" using u(3) True by simp
    then have "i = length bss" using less.prems(2) by (simp add: n_def)
    moreover from True less.prems(3) obtain c where "cap = Some c" "length (out i) < c" by auto
    ultimately show ?thesis using 1(1,2) True small \<open>n = 0\<close>
      by (subst string_chunks.simps) (simp add: element_fragments.simps [of "[]"])
  next
    case False
    from units_gotE [OF units less.prems(1) iu u(2) i1 1(3)] obtain chunk pd2 where
      2: "get_units u pd1 = Some (0, chunk, pd2)" "out (i + u) = out i @ chunk" "length chunk = len_bytes u"
        "pd_consumes pd1 (concat (take u (drop i bss))) pd2" "pd_inv pd2" "pd_bits pd2 = tl @ rest" "set_unused u (un i) = un (i + u)" .
    have c12: "pd_consumes pd (uper_length_bits n @ concat (take u (drop i bss))) pd2" by (rule pd_consumes_trans [OF 1(2) 2(4)])
    have step: "string_chunks (\<lambda>_. True) (\<lambda>pd. uper_get_length pd eb lb) get_units len_bytes set_unused cap (out i) (un i) pd =
      (if n < 16384 then Some (Inr (out (i + u), un (i + u)), pd2)
       else string_chunks (\<lambda>_. True) (\<lambda>pd. uper_get_length pd eb lb) get_units len_bytes set_unused
         (Some (length (out i) + len_bytes u + 1)) (out (i + u)) (un (i + u)) pd2)"
    proof -
      have c: "\<not> int u < 0" "\<not> (int u = 0 \<and> cap \<noteq> None)" "\<not> (0 :: int) < 0" "\<not> len_bytes u \<noteq> len_bytes u" using False by auto
      show ?thesis
        by (subst string_chunks.simps, simp only: 1(1) option.case prod.case nat_int Let_def 2(1) c if_False not_True_eq_False 2(2) [symmetric]
            2(3,7)) simp
    qed
    show ?thesis
    proof (cases "n < 16384")
      case True
      then have "i + u = length bss" using u(3) less.prems(2) by (simp add: n_def)
      with True step c12 show ?thesis by (simp add: frag tl_def)
    next
      case big: False
      have tl: "tl = element_fragments (drop (i + u) bss)"
        using big n by (cases "u = n") (simp_all add: tl_def n_def add.commute element_fragments.simps [of "[]"])
      have pos: "0 < u" using full big by simp
      from u(1) pos have lt: "length bss - (i + u) < length bss - i" unfolding n_def by linarith
      have dvd: "8 dvd i + u" using full big less.prems(1) by (simp add: dvd_add)
      obtain pd3 where "string_chunks (\<lambda>_. True) (\<lambda>pd. uper_get_length pd eb lb) get_units len_bytes set_unused
         (Some (length (out i) + len_bytes u + 1)) (out (i + u)) (un (i + u)) pd2 = Some (Inr (out (length bss), un (length bss)), pd3)"
        "pd_consumes pd2 (element_fragments (drop (i + u) bss)) pd3"
        using less.hyps [of "i + u" "Some (length (out i) + len_bytes u + 1)" pd2] lt dvd iu 2(2,3,5,6) tl by auto
      with step big pd_consumes_trans [OF c12] show ?thesis by (auto simp: frag tl)
    qed
  qed
qed

text \<open>A single chunk behind a length of at most sixteen bits.\<close>

lemma string_sized_ok:
  assumes units: "units_got get_units len_bytes set_unused out un bss" and eb: "eb = int e" "e \<le> 16"
    and lb: "\<bar>lb\<bar> < 2 ^ 31" "lb \<le> int (length bss)" "int (length bss) - lb < 2 ^ e" and n: "length bss \<le> 65536" and cap: "0 < cap"
    and pd: "pd_inv pd" "pd_bits pd = be_bits e (nat (int (length bss) - lb)) @ concat bss @ rest"
  shows "\<exists>pd'. string_chunks (\<lambda>_. True) (\<lambda>pd. uper_get_length pd eb (word_of_int lb)) get_units len_bytes set_unused (Some cap) [] (un 0) pd =
      Some (Inr (out (length bss), un (length bss)), pd') \<and>
      pd_consumes pd (be_bits e (nat (int (length bss) - lb)) @ concat bss) pd'"
proof -
  define k where "k = nat (int (length bss) - lb)"
  have k: "k < 2 ^ e" "int k + lb = int (length bss)" using lb(2,3) by (simp_all add: k_def nat_less_iff)
  have "e \<le> 31" using eb(2) by simp
  note g = get_number [OF pd(1) pd(2) [folded k_def] this eb(1) k(1)]
  have "sint (word_of_int (int k) + word_of_int lb :: u64) = int (length bss)"
    unfolding of_int_add [symmetric] k(2) using n by (simp add: signed_of_nat signed_take_bit_int_eq_self)
  then have len: "uper_get_length pd eb (word_of_int lb) = Some (int (length bss), 0, pd_skip e pd)"
    using g(1) eb by (simp add: uper_get_length_def)
  have "0 + length bss \<le> length bss" "pd_bits (pd_skip e pd) = concat (take (length bss) (drop 0 bss)) @ rest" using g(3) by simp_all
  from units_gotE [OF units dvd_0_right this(1) n g(4) this(2)] obtain chunk pd2 where
    "get_units (length bss) (pd_skip e pd) = Some (0, chunk, pd2)" "out (0 + length bss) = out 0 @ chunk" "length chunk = len_bytes (length bss)"
      "pd_consumes (pd_skip e pd) (concat (take (length bss) (drop 0 bss))) pd2" "pd_inv pd2" "pd_bits pd2 = rest"
      "set_unused (length bss) (un 0) = un (0 + length bss)" .
  then have 2: "get_units (length bss) (pd_skip e pd) = Some (0, chunk, pd2)" "out (length bss) = out 0 @ chunk" "length chunk = len_bytes (length bss)"
      "pd_consumes (pd_skip e pd) (concat bss) pd2" "set_unused (length bss) (un 0) = un (length bss)" by simp_all
  have out0: "out 0 = []" using units by (simp add: units_got_def)
  show ?thesis
  proof (cases "bss = []")
    case True
    with len cap g(2) out0 show ?thesis by (subst string_chunks.simps) (simp add: k_def del: be_bits_0)
  next
    case False
    with len 2 out0 pd_consumes_trans [OF g(2) 2(4)] show ?thesis
      by (subst string_chunks.simps) (simp add: Let_def k_def [symmetric])
  qed
qed


section \<open>The coding of a string\<close>

text \<open>
  X.691 #16, #17: a size within the constraint in a field of its own, any other size in fragments,
  behind a bit when the constraint can be extended. \<open>root\<close> and \<open>ext\<close> are the units in the two forms.
\<close>

definition size_fits :: "asn_per_constraint \<Rightarrow> nat \<Rightarrow> bool" where
  "size_fits c n \<longleftrightarrow> ct_effective_bits c \<le> 16 \<and> \<bar>ct_lower_bound c\<bar> < 2 ^ 31 \<and> ct_lower_bound c \<le> int n \<and> int n \<le> ct_upper_bound c \<and>
     ct_upper_bound c \<le> 65536 \<and> int n - ct_lower_bound c < 2 ^ nat (ct_effective_bits c) \<and>
     (ct_effective_bits c = 0 \<longrightarrow> int n = ct_upper_bound c)"

definition sized_bits :: "asn_per_constraint \<Rightarrow> bool \<Rightarrow> bool list list option \<Rightarrow> bool list list option \<Rightarrow> bool list option" where
  "sized_bits c inside root ext =
     (let flag = (\<lambda>b. if ct_has c APC_EXTENSIBLE then [b] else []) in
      if 0 \<le> ct_effective_bits c then
        if inside then do {
          bss \<leftarrow> root;
          if size_fits c (length bss)
          then Some (flag False @ be_bits (nat (ct_effective_bits c)) (nat (int (length bss) - ct_lower_bound c)) @ concat bss)
          else None }
        else if ct_has c APC_EXTENSIBLE then map_option (\<lambda>bss. flag True @ element_fragments bss) ext
        else None
      else map_option (\<lambda>bss. flag False @ element_fragments bss) root)"

lemma sized_bitsE:
  assumes "sized_bits c inside root ext = Some bs"
  obtains (sized) e bss where "ct_effective_bits c = int e" "e \<le> 16" "inside" "root = Some bss" "size_fits c (length bss)"
      "bs = (if ct_has c APC_EXTENSIBLE then [False] else []) @ be_bits e (nat (int (length bss) - ct_lower_bound c)) @ concat bss"
    | (outside) bss where "0 \<le> ct_effective_bits c" "\<not> inside" "ext = Some bss" "ct_has c APC_EXTENSIBLE"
      "bs = (if ct_has c APC_EXTENSIBLE then [True] else []) @ element_fragments bss"
    | (unbounded) bss where "ct_effective_bits c < 0" "root = Some bss" "bs = (if ct_has c APC_EXTENSIBLE then [False] else []) @ element_fragments bss"
proof (cases "0 \<le> ct_effective_bits c")
  case True
  define e where "e = nat (ct_effective_bits c)"
  have e: "ct_effective_bits c = int e" using True by (simp add: e_def)
  show thesis
  proof (cases inside)
    case i: True
    with True assms obtain bss where *: "root = Some bss" "size_fits c (length bss)"
      "bs = (if ct_has c APC_EXTENSIBLE then [False] else []) @ be_bits e (nat (int (length bss) - ct_lower_bound c)) @ concat bss"
      by (auto simp: sized_bits_def e_def split: bind_splits if_splits)
    from *(2) e have "e \<le> 16" by (simp add: size_fits_def)
    with sized [OF e this i *] show thesis by blast
  next
    case False
    with True assms obtain bss where "ext = Some bss" "ct_has c APC_EXTENSIBLE" "bs = (if ct_has c APC_EXTENSIBLE then [True] else []) @ element_fragments bss"
      by (auto simp: sized_bits_def split: if_splits)
    with outside [OF True False this(1,2)] show thesis by blast
  qed
next
  case False
  with assms obtain bss where "root = Some bss" "bs = (if ct_has c APC_EXTENSIBLE then [False] else []) @ element_fragments bss"
    by (auto simp: sized_bits_def)
  with False unbounded show thesis by simp
qed

definition os_mem :: "OCTET_STRING \<Rightarrow> u8 list" where
  "os_mem st = (case os_buf st of Some buf \<Rightarrow> buf | None \<Rightarrow> [])"

text \<open>The codes of the characters of a string of \<open>n\<close> units, when the table makes sense.\<close>

definition os_codes :: "asn_per_constraints option \<Rightarrow> asn_per_constraint \<Rightarrow> nat \<Rightarrow> nat \<Rightarrow> nat \<Rightarrow> u8 list \<Rightarrow> bool list list option" where
  "os_codes pc cval bpc unit_bits n buf =
     (if chars_ok pc bpc unit_bits (ct_lower_bound cval) (ct_upper_bound cval)
      then string_codes (char_code pc bpc unit_bits (ct_lower_bound cval) (ct_upper_bound cval)) bpc n buf else None)"

definition octet_string_coding ::
  "os_subvariant \<Rightarrow> asn_per_constraints option \<Rightarrow> asn_per_constraints option \<Rightarrow> OCTET_STRING \<Rightarrow> OCTET_STRING coding option" where
  "octet_string_coding subvariant td_constraints constraints st = do {
     (canonical, bpc) \<leftarrow> os_unit subvariant;
     let pc = os_constraints td_constraints constraints;
     let cs = (case pc of Some c \<Rightarrow> c | None \<Rightarrow> asn_DEF_OCTET_STRING_constraints);
     let n = os_size st div bpc;
     let unit_bits = os_unit_bits canonical (pc_value cs);
     if os_size st \<le> length (os_mem st) \<and> os_size st mod bpc = 0 then do {
       bs \<leftarrow> sized_bits (pc_size cs) (ct_lower_bound (pc_size cs) \<le> int n \<and> int n \<le> ct_upper_bound (pc_size cs))
         (os_codes pc (pc_value cs) bpc unit_bits n (os_mem st)) (os_codes pc (pc_value cs) bpc canonical n (os_mem st));
       Some (bs, ct_effective_bits (pc_size cs) = 0 \<and> ct_lower_bound (pc_size cs) \<le> int n \<and> int n \<le> ct_upper_bound (pc_size cs) \<and> 0 < n,
         \<lparr>os_buf = Some (take (os_size st) (os_mem st) @ [0]), os_size = os_size st\<rparr>) }
     else None }"

lemma os_codesD:
  assumes "os_codes pc cval bpc unit_bits n buf = Some bss" "n * bpc \<le> length buf"
  shows "length bss = n"
    and "0 < unit_bits"
    and "units_put (\<lambda>buf n po. OCTET_STRING_per_put_characters po buf n bpc unit_bits (ct_lower_bound cval) (ct_upper_bound cval) pc)
      (\<lambda>n. n * bpc) buf bss"
    and "units_got (\<lambda>n pd. OCTET_STRING_per_get_characters pd n bpc unit_bits (ct_lower_bound cval) (ct_upper_bound cval) pc)
      (\<lambda>n. n * bpc) (\<lambda>n unused. unused) (\<lambda>i. take (i * bpc) buf) (\<lambda>i. 0) bss"
proof -
  define coding where "coding = char_code pc bpc unit_bits (ct_lower_bound cval) (ct_upper_bound cval)"
  have c: "chars_ok pc bpc unit_bits (ct_lower_bound cval) (ct_upper_bound cval)" "string_codes coding bpc n buf = Some bss"
    using assms(1) by (auto simp: os_codes_def coding_def split: if_splits)
  show len: "length bss = n" by (rule string_codes_length [OF c(2)])
  show "0 < unit_bits" using c(1) by (simp add: chars_ok_def)
  have ub: "unit_bits \<le> 32" using c(1) by (simp add: chars_ok_def)
  have part: "string_codes coding bpc k (drop (i * bpc) buf) = Some (take k (drop i bss))" "k * bpc \<le> length (drop (i * bpc) buf)"
    "k * unit_bits < 2 ^ 31" if "i + k \<le> length bss" "k \<le> 65536" for i k
  proof -
    have ik: "i \<le> n" "k \<le> n - i" using that(1) len by simp_all
    show "string_codes coding bpc k (drop (i * bpc) buf) = Some (take k (drop i bss))"
      by (rule string_codes_take [OF string_codes_drop [OF c(2) ik(1)] ik(2)])
    have "(i + k) * bpc \<le> n * bpc" using that(1) len by (intro mult_le_mono1) simp
    with assms(2) show "k * bpc \<le> length (drop (i * bpc) buf)" by (simp add: add_mult_distrib)
    have "k * unit_bits \<le> 65536 * 32" using that(2) ub by (intro mult_le_mono)
    then show "k * unit_bits < 2 ^ 31" by simp
  qed
  show "units_put (\<lambda>buf n po. OCTET_STRING_per_put_characters po buf n bpc unit_bits (ct_lower_bound cval) (ct_upper_bound cval) pc)
      (\<lambda>n. n * bpc) buf bss"
    unfolding units_put_def
    using dyn.put_characters_ok [OF c(1) part(1) [unfolded coding_def] part(2,3)] by (auto simp: add_mult_distrib)
  have "\<exists>chunk pd'. OCTET_STRING_per_get_characters pd k bpc unit_bits (ct_lower_bound cval) (ct_upper_bound cval) pc = Some (0, chunk, pd') \<and>
      take ((i + k) * bpc) buf = take (i * bpc) buf @ chunk \<and> length chunk = k * bpc \<and> pd_consumes pd (concat (take k (drop i bss))) pd'"
    if "i + k \<le> length bss" "k \<le> 65536" "pd_inv pd" "pd_bits pd = concat (take k (drop i bss)) @ rest" for i k pd rest
    using get_characters_ok [OF c(1) part(1) [OF that(1,2), unfolded coding_def] part(2,3) [OF that(1,2)] that(3,4)] part(2) [OF that(1,2)]
    by (auto simp: add_mult_distrib take_add)
  then show "units_got (\<lambda>n pd. OCTET_STRING_per_get_characters pd n bpc unit_bits (ct_lower_bound cval) (ct_upper_bound cval) pc)
      (\<lambda>n. n * bpc) (\<lambda>n unused. unused) (\<lambda>i. take (i * bpc) buf) (\<lambda>i. 0) bss"
    unfolding units_got_def by simp
qed


lemma octet_string_codingE:
  assumes "octet_string_coding sub tdc cs st = Some (bs, c, w)"
  obtains canonical bpc pc cons n where "os_unit sub = Some (canonical, bpc)" "pc = os_constraints tdc cs"
    "cons = (case pc of Some c \<Rightarrow> c | None \<Rightarrow> asn_DEF_OCTET_STRING_constraints)" "os_size st = n * bpc" "n * bpc \<le> length (os_mem st)"
    "bpc \<in> {1, 2, 4}"
    "sized_bits (pc_size cons) (ct_lower_bound (pc_size cons) \<le> int n \<and> int n \<le> ct_upper_bound (pc_size cons))
       (os_codes pc (pc_value cons) bpc (os_unit_bits canonical (pc_value cons)) n (os_mem st))
       (os_codes pc (pc_value cons) bpc canonical n (os_mem st)) = Some bs"
    "c \<longleftrightarrow> ct_effective_bits (pc_size cons) = 0 \<and> ct_lower_bound (pc_size cons) \<le> int n \<and> int n \<le> ct_upper_bound (pc_size cons) \<and> 0 < n"
    "w = \<lparr>os_buf = Some (take (n * bpc) (os_mem st) @ [0]), os_size = n * bpc\<rparr>"
proof -
  obtain canonical bpc where u: "os_unit sub = Some (canonical, bpc)" using assms by (auto simp: octet_string_coding_def split: bind_splits)
  then have b: "bpc \<in> {1, 2, 4}" by (auto simp: os_unit_def split: os_subvariant.splits)
  define n where "n = os_size st div bpc"
  have "os_size st mod bpc = 0" using assms u by (auto simp: octet_string_coding_def Let_def split: bind_splits if_splits)
  then have n: "os_size st = n * bpc" using n_def by auto
  then have d: "n * bpc div bpc = n" using b by auto
  show thesis
    by (rule that [OF u refl refl n _ b]) (use assms u n d in \<open>auto simp: octet_string_coding_def Let_def split: bind_splits if_splits\<close>)
qed

lemma unat_u64: "0 \<le> x \<Longrightarrow> x < 2 ^ 64 \<Longrightarrow> unat (word_of_int x :: u64) = nat x"
  by (simp add: unsigned_of_int take_bit_int_eq_self)

lemma put_ext_bit:
  assumes "po_ok grow_cb dyn_inv po"
  shows "po_puts grow_cb dyn_taken dyn_inv po 0 (if e then [b] else []) (if e then asn_put_few_bits po (if b then 1 else 0) 1 else Some (0, po))"
  using dyn.put_ext [OF assms, of e b] .

lemma octet_string_writes:
  assumes "octet_string_coding sub tdc cs st = Some (bs, c, w)"
  shows "writes (OCTET_STRING_encode_uper sub tdc cs) st bs"
  unfolding writes_def
proof (intro allI impI)
  fix po assume po: "po_ok grow_cb dyn_inv po"
  from assms obtain canonical bpc pc cons n where h: "os_unit sub = Some (canonical, bpc)" "pc = os_constraints tdc cs"
    "cons = (case pc of Some c \<Rightarrow> c | None \<Rightarrow> asn_DEF_OCTET_STRING_constraints)" "os_size st = n * bpc" "n * bpc \<le> length (os_mem st)"
    "bpc \<in> {1, 2, 4}"
    "sized_bits (pc_size cons) (ct_lower_bound (pc_size cons) \<le> int n \<and> int n \<le> ct_upper_bound (pc_size cons))
       (os_codes pc (pc_value cons) bpc (os_unit_bits canonical (pc_value cons)) n (os_mem st))
       (os_codes pc (pc_value cons) bpc canonical n (os_mem st)) = Some bs"
    by (rule octet_string_codingE) blast
  define cval csiz where "cval = pc_value cons" and "csiz = pc_size cons"
  define outside where "outside \<longleftrightarrow> 0 \<le> ct_effective_bits csiz \<and> (int n < ct_lower_bound csiz \<or> ct_upper_bound csiz < int n)"
  define put where "put = (\<lambda>unit_bits buf n po.
    OCTET_STRING_per_put_characters po buf n bpc unit_bits (ct_lower_bound cval) (ct_upper_bound cval) pc :: (int \<times> enc_dyn_arg bit_outp) option)"
  define rest where "rest = (\<lambda>po. if 0 \<le> ct_effective_bits csiz \<and> \<not> outside then do {
                  (r, po) \<leftarrow> asn_put_few_bits po (word_of_int (int n - ct_lower_bound csiz)) (ct_effective_bits csiz);
                  if r \<noteq> 0 then Some (-1, po)
                  else do {
                    (r, po) \<leftarrow> put (if outside then canonical else os_unit_bits canonical cval) (os_mem st) n po;
                    Some (if r \<noteq> 0 then -1 else 0, po) } }
                else put_string_chunks (put (if outside then canonical else os_unit_bits canonical cval)) (\<lambda>n. n * bpc) n (os_mem st) po)"
  have d: "n * bpc mod bpc = 0" "n * bpc div bpc = n" using h(6) by auto
  have nn: "\<not> (os_buf st = None \<and> n * bpc \<noteq> 0)" using h(4,5) by (auto simp: os_mem_def)
  have enc: "OCTET_STRING_encode_uper sub tdc cs st po =
    (if outside \<and> \<not> ct_has csiz APC_EXTENSIBLE then Some (-1, po)
     else (if ct_has csiz APC_EXTENSIBLE then asn_put_few_bits po (if outside then 1 else 0) 1 else Some (0, po)) \<bind>
       (\<lambda>(r, po). if r \<noteq> 0 then Some (-1, po) else rest po))"
    by (simp only: OCTET_STRING_encode_uper_def Let_def h(1) h(2) [symmetric] h(3) [symmetric] if_not_P [OF nn] option.case prod.case h(4) d
        refl not_True_eq_False if_False os_mem_def [symmetric] cval_def [symmetric] csiz_def [symmetric] outside_def [symmetric] put_def rest_def)
  have inside: "(ct_lower_bound csiz \<le> int n \<and> int n \<le> ct_upper_bound csiz) \<longleftrightarrow> \<not> (int n < ct_lower_bound csiz \<or> ct_upper_bound csiz < int n)" by auto
  have chunks: "po_puts grow_cb dyn_taken dyn_inv po1 0 (element_fragments bss) (put_string_chunks (put ub) (\<lambda>n. n * bpc) n (os_mem st) po1)"
    if "os_codes pc cval bpc ub n (os_mem st) = Some bss" "po_ok grow_cb dyn_inv po1" for ub bss po1
    using put_string_chunks_ok [OF os_codesD(3) [OF that(1) h(5)] that(2), of 0] os_codesD(1) [OF that(1) h(5)] by (simp add: put_def)
  from h(7) show "po_puts grow_cb dyn_taken dyn_inv po 0 bs (OCTET_STRING_encode_uper sub tdc cs st po)"
    unfolding cval_def [symmetric] csiz_def [symmetric] inside
  proof (cases rule: sized_bitsE)
    case (sized e bss)
    define k where "k = nat (int n - ct_lower_bound csiz)"
    note units = os_codesD [OF sized(4) h(5)]
    have no: "\<not> outside" using sized(3) by (simp add: outside_def)
    have k: "(word_of_int (int n - ct_lower_bound csiz) :: u32) = of_nat k" using sized(3) by (simp add: k_def)
    have "n \<le> 65536" using sized(5) units(1) by (simp add: size_fits_def)
    from units_putD(1) [OF units(3), of 0 n] this units(1)
    have put: "po_puts grow_cb dyn_taken dyn_inv po2 0 (concat bss) (put (os_unit_bits canonical cval) (os_mem st) n po2)"
      if "po_ok grow_cb dyn_inv po2" for po2 using that by (simp add: put_def)
    have rest: "po_puts grow_cb dyn_taken dyn_inv po1 0 (be_bits e k @ concat bss) (rest po1)" if po1: "po_ok grow_cb dyn_inv po1" for po1
      unfolding rest_def
      using po_puts_then [OF dyn.put_number [OF po1 refl, of e k] po_puts_result [OF put]] sized(1,2) no k by simp
    from po_puts_then [OF put_ext_bit [OF po, of "ct_has csiz APC_EXTENSIBLE" False] rest] show ?thesis
      unfolding enc by (simp only: no simp_thms if_False sized(6) k_def units(1))
  next
    case (outside bss)
    have o: "outside" using outside(1,2) by (simp add: outside_def)
    have rest: "po_puts grow_cb dyn_taken dyn_inv po1 0 (element_fragments bss) (rest po1)" if po1: "po_ok grow_cb dyn_inv po1" for po1
      using chunks [OF outside(3) po1] o by (simp add: rest_def)
    from po_puts_then [OF put_ext_bit [OF po, of "ct_has csiz APC_EXTENSIBLE" True] rest] show ?thesis
      unfolding enc by (simp only: o outside(4,5) simp_thms if_False if_True)
  next
    case (unbounded bss)
    have no: "\<not> outside" "\<not> 0 \<le> ct_effective_bits csiz" using unbounded(1) by (simp_all add: outside_def)
    have rest: "po_puts grow_cb dyn_taken dyn_inv po1 0 (element_fragments bss) (rest po1)" if po1: "po_ok grow_cb dyn_inv po1" for po1
      using chunks [OF unbounded(2) po1] no by (simp add: rest_def)
    from po_puts_then [OF put_ext_bit [OF po, of "ct_has csiz APC_EXTENSIBLE" False] rest] show ?thesis
      unfolding enc by (simp only: no unbounded(3) simp_thms if_False)
  qed
qed


lemma octet_string_reads:
  assumes "octet_string_coding sub tdc cs st = Some (bs, c, w)"
  shows "reads (OCTET_STRING_decode_uper (\<lambda>_. True) sz sub tdc cs) (bs, c, w)"
  unfolding reads_def fst_conv snd_conv
proof (intro allI impI)
  fix pd tl assume pd: "pd_inv pd" "pd_bits pd = bs @ tl"
  from assms obtain canonical bpc pc cons n where h: "os_unit sub = Some (canonical, bpc)" "pc = os_constraints tdc cs"
    "cons = (case pc of Some c \<Rightarrow> c | None \<Rightarrow> asn_DEF_OCTET_STRING_constraints)" "os_size st = n * bpc" "n * bpc \<le> length (os_mem st)"
    "bpc \<in> {1, 2, 4}"
    "sized_bits (pc_size cons) (ct_lower_bound (pc_size cons) \<le> int n \<and> int n \<le> ct_upper_bound (pc_size cons))
       (os_codes pc (pc_value cons) bpc (os_unit_bits canonical (pc_value cons)) n (os_mem st))
       (os_codes pc (pc_value cons) bpc canonical n (os_mem st)) = Some bs"
    "c \<longleftrightarrow> ct_effective_bits (pc_size cons) = 0 \<and> ct_lower_bound (pc_size cons) \<le> int n \<and> int n \<le> ct_upper_bound (pc_size cons) \<and> 0 < n"
    "w = \<lparr>os_buf = Some (take (n * bpc) (os_mem st) @ [0]), os_size = n * bpc\<rparr>"
    by (rule octet_string_codingE) blast
  define cval csiz where "cval = pc_value cons" and "csiz = pc_size cons"
  define get where "get = (\<lambda>unit_bits n pd. OCTET_STRING_per_get_characters pd n bpc unit_bits (ct_lower_bound cval) (ct_upper_bound cval) pc)"
  define body where "body = (\<lambda>(csiz :: asn_per_constraint) unit_bits pd. do {
              (sz, cap) \<leftarrow>
                (if 0 \<le> ct_effective_bits csiz then do {
                   sz \<leftarrow> s64 (ct_upper_bound csiz * int bpc);
                   Some (unat (word_of_int sz :: u64), Some (unat (word_of_int (sz + 1) :: u64))) }
                 else Some (0, None));
              if (case cap of Some n \<Rightarrow> \<not> True | None \<Rightarrow> False) then Some (RC_FAIL, None, pd)
              else if ct_effective_bits csiz = 0 then do {
                (r, octets, pd) \<leftarrow> get unit_bits (unat (word_of_int (ct_upper_bound csiz) :: u64)) pd;
                if 0 < r then Some (RC_FAIL, None, pd)
                else if r < 0 then Some (RC_WMORE, None, pd)
                else if length octets \<noteq> sz \<or> the cap \<le> sz then None
                else Some (RC_OK, Some (\<lparr>os_buf = Some (octets @ [0]), os_size = sz\<rparr>, nat (int unit_bits * ct_upper_bound csiz)), pd) }
              else do {
                (res, pd) \<leftarrow> string_chunks (\<lambda>_. True)
                   (\<lambda>pd. uper_get_length pd (ct_effective_bits csiz) (word_of_int (ct_lower_bound csiz)))
                   (get unit_bits) (\<lambda>n. n * bpc) (\<lambda>n unused. unused) cap [] 0 pd;
                case res of
                  Inl code \<Rightarrow> Some (code, None, pd)
                | Inr (octets, unused) \<Rightarrow>
                    Some (RC_OK, Some (\<lparr>os_buf = Some (octets @ [0]), os_size = length octets\<rparr>, 0), pd) } })"
  have dec: "OCTET_STRING_decode_uper (\<lambda>_. True) sz sub tdc cs pd = do {
      (inext, pd) \<leftarrow> (if ct_has csiz APC_EXTENSIBLE then asn_get_few_bits pd 1 else Some (0, pd));
      if inext < 0 then Some (RC_WMORE, None, pd)
      else body (if inext \<noteq> 0 then pc_size asn_DEF_OCTET_STRING_constraints else csiz)
        (if inext \<noteq> 0 then canonical else os_unit_bits canonical cval) pd }"
    by (simp only: OCTET_STRING_decode_uper_def Let_def h(1) h(2) [symmetric] h(3) [symmetric] option.case prod.case not_True_eq_False if_False
        cval_def [symmetric] csiz_def [symmetric] get_def body_def)
  have inside: "(ct_lower_bound csiz \<le> int n \<and> int n \<le> ct_upper_bound csiz) = inside" if "inside = (ct_lower_bound csiz \<le> int n \<and> int n \<le> ct_upper_bound csiz)" for inside
    using that by simp
  have chunks: "\<exists>pd2. body cz ub pd1 = Some (RC_OK, Some (w, 0), pd2) \<and> pd_consumes pd1 (element_fragments bss) pd2"
    if codes: "os_codes pc cval bpc ub n (os_mem st) = Some bss" and eb: "ct_effective_bits cz < 0"
      and pd: "pd_inv pd1" "pd_bits pd1 = element_fragments bss @ tl" for cz ub bss pd1
  proof -
    note units = os_codesD [OF codes h(5)]
    have cap: "case None :: nat option of Some c \<Rightarrow> length (take (0 * bpc) (os_mem st)) < c | None \<Rightarrow> True" by simp
    have bits: "pd_bits pd1 = element_fragments (drop 0 bss) @ tl" using pd(2) by simp
    note s = string_fragments_ok [OF units(4) eb dvd_0_right le0 cap pd(1) bits, of "word_of_int (ct_lower_bound cz)"]
    have t0: "take (0 * bpc) (os_mem st) = []" by simp
    obtain pd2 where 2: "string_chunks (\<lambda>_. True) (\<lambda>pd. uper_get_length pd (ct_effective_bits cz) (word_of_int (ct_lower_bound cz))) (get ub) (\<lambda>n. n * bpc)
        (\<lambda>n unused. unused) None [] 0 pd1 = Some (Inr (take (n * bpc) (os_mem st), 0), pd2)" "pd_consumes pd1 (element_fragments bss) pd2"
      using s [unfolded t0 drop_0 units(1)] unfolding get_def by blast
    have c: "\<not> 0 \<le> ct_effective_bits cz" "ct_effective_bits cz \<noteq> 0" using eb by simp_all
    have l: "length (take (n * bpc) (os_mem st)) = n * bpc" using h(5) by simp
    have "body cz ub pd1 = Some (RC_OK, Some (w, 0), pd2)"
      by (simp only: body_def c if_False bind.bind_lunit option.case 2(1) split_conv sum.case l h(9) not_True_eq_False)
    with 2(2) show ?thesis by blast
  qed
  have ext: "\<exists>pd1. (if ct_has csiz APC_EXTENSIBLE then asn_get_few_bits pd 1 else Some (0, pd)) = Some (of_bool (ct_has csiz APC_EXTENSIBLE \<and> b), pd1) \<and>
      pd_consumes pd (if ct_has csiz APC_EXTENSIBLE then [b] else []) pd1 \<and> pd_inv pd1 \<and> pd_bits pd1 = bs' @ tl"
    if "bs = (if ct_has csiz APC_EXTENSIBLE then [b] else []) @ bs'" for b bs'
  proof -
    have "pd_bits pd = (if ct_has csiz APC_EXTENSIBLE then [b] else []) @ bs' @ tl" using pd(2) by (simp only: that append_assoc)
    from get_ext [OF pd(1) this] show ?thesis by blast
  qed
  from h(7) show "\<exists>m pd'. OCTET_STRING_decode_uper (\<lambda>_. True) sz sub tdc cs pd = Some (RC_OK, Some (w, m), pd') \<and> (0 < m) = c \<and> pd_consumes pd bs pd'"
    unfolding cval_def [symmetric] csiz_def [symmetric]
  proof (cases rule: sized_bitsE)
    case (outside bss)
    from ext [OF outside(5)] outside(4) obtain pd1 where 1: "(if ct_has csiz APC_EXTENSIBLE then asn_get_few_bits pd 1 else Some (0, pd)) = Some (1, pd1)"
      "pd_consumes pd (if ct_has csiz APC_EXTENSIBLE then [True] else []) pd1" "pd_inv pd1" "pd_bits pd1 = element_fragments bss @ tl" by auto
    from chunks [OF outside(3) _ 1(3,4), of "pc_size asn_DEF_OCTET_STRING_constraints"] obtain pd2 where
      "body (pc_size asn_DEF_OCTET_STRING_constraints) canonical pd1 = Some (RC_OK, Some (w, 0), pd2)" "pd_consumes pd1 (element_fragments bss) pd2"
      by (auto simp: asn_DEF_OCTET_STRING_constraints_def)
    moreover have "\<not> c" using h(8) outside(2) by (auto simp: csiz_def)
    ultimately show ?thesis using pd_consumes_trans [OF 1(2)] by (simp add: dec 1(1) outside(5))
  next
    case (unbounded bss)
    from ext [OF unbounded(3)] obtain pd1 where 1: "(if ct_has csiz APC_EXTENSIBLE then asn_get_few_bits pd 1 else Some (0, pd)) = Some (0, pd1)"
      "pd_consumes pd (if ct_has csiz APC_EXTENSIBLE then [False] else []) pd1" "pd_inv pd1" "pd_bits pd1 = element_fragments bss @ tl" by auto
    from chunks [OF unbounded(2,1) 1(3,4)] obtain pd2 where
      "body csiz (os_unit_bits canonical cval) pd1 = Some (RC_OK, Some (w, 0), pd2)" "pd_consumes pd1 (element_fragments bss) pd2" by blast
    moreover have "\<not> c" using h(8) unbounded(1) by (auto simp: csiz_def)
    ultimately show ?thesis using pd_consumes_trans [OF 1(2)] by (simp add: dec 1(1) unbounded(3))
  next
    case (sized e bss)
    note units = os_codesD [OF sized(4) h(5)]
    define k where "k = nat (int (length bss) - ct_lower_bound csiz)"
    from ext [OF sized(6)] obtain pd1 where 1: "(if ct_has csiz APC_EXTENSIBLE then asn_get_few_bits pd 1 else Some (0, pd)) = Some (0, pd1)"
      "pd_consumes pd (if ct_has csiz APC_EXTENSIBLE then [False] else []) pd1" "pd_inv pd1" "pd_bits pd1 = be_bits e k @ concat bss @ tl"
      by (auto simp: k_def)
    have ub: "int n \<le> ct_upper_bound csiz" "ct_upper_bound csiz \<le> 65536" "n \<le> 65536" using sized(5) units(1) by (simp_all add: size_fits_def)
    define z where "z = ct_upper_bound csiz * int bpc"
    have z: "0 \<le> z" "z \<le> 65536 * 4"
      unfolding z_def using ub(1,2) h(6) by (intro mult_nonneg_nonneg mult_mono; auto)+
    have s: "s64 z = Some z" "unat (word_of_int z :: u64) = nat z" "unat (word_of_int (z + 1) :: u64) = nat z + 1"
      using z by (simp_all add: s64_small unat_u64 nat_add_distrib del: of_int_add)
    have l: "length (take (n * bpc) (os_mem st)) = n * bpc" using h(5) by simp
    obtain m pd2 where 2: "body csiz (os_unit_bits canonical cval) pd1 = Some (RC_OK, Some (w, m), pd2)" "0 < m \<longleftrightarrow> c"
      "pd_consumes pd1 (be_bits e k @ concat bss) pd2"
    proof (cases "e = 0")
      case True
      then have u: "ct_upper_bound csiz = int n" using sized(1,5) units(1) by (simp add: size_fits_def)
      then have n: "ct_upper_bound csiz = int n" "unat (word_of_int (ct_upper_bound csiz) :: u64) = n" "z = int (n * bpc)"
        using ub(3) unat_u64 [of "int n"] by (simp_all only: u z_def of_nat_mult) simp_all
      from 1(4) True units(1) have "pd_bits pd1 = concat (take n (drop 0 bss)) @ tl" by simp
      moreover have "0 + n \<le> length bss" using units(1) by simp
      ultimately obtain chunk pd2 where
        3: "get (os_unit_bits canonical cval) n pd1 = Some (0, chunk, pd2)" "take ((0 + n) * bpc) (os_mem st) = take (0 * bpc) (os_mem st) @ chunk"
          "length chunk = n * bpc" "pd_consumes pd1 (concat (take n (drop 0 bss))) pd2"
        unfolding get_def by (metis units_gotE [OF units(4) dvd_0_right _ ub(3) 1(3)])
      have zn: "nat z = n * bpc" by (simp only: n(3) nat_int)
      have c: "c \<longleftrightarrow> 0 < n" using h(8) sized(1,3) True by (auto simp: csiz_def)
      have "0 < nat (int (os_unit_bits canonical cval) * ct_upper_bound csiz) \<longleftrightarrow> 0 < n" using units(2) n(1) by (auto simp: zero_less_mult_iff)
      moreover have "body csiz (os_unit_bits canonical cval) pd1 = Some (RC_OK, Some (w, nat (int (os_unit_bits canonical cval) * ct_upper_bound csiz)), pd2)"
        unfolding body_def z_def [symmetric] s n(2) using 3 sized(1) True zn by (simp add: s h(9) del: of_int_add)
      moreover have "pd_consumes pd1 (be_bits e k @ concat bss) pd2" using 3(4) True units(1) by simp
      ultimately show thesis
        by (intro that [of "nat (int (os_unit_bits canonical cval) * ct_upper_bound csiz)" pd2]) (simp_all only: c)
    next
      case False
      have "pd_bits pd1 = be_bits e (nat (int (length bss) - ct_lower_bound csiz)) @ concat bss @ tl" using 1(4) by (simp only: k_def)
      from string_sized_ok [OF units(4) sized(1,2) _ _ _ _ _ 1(3) this, of "nat z + 1"] sized(1,5) ub(3) units(1) obtain pd2 where
        "string_chunks (\<lambda>_. True) (\<lambda>pd. uper_get_length pd (ct_effective_bits csiz) (word_of_int (ct_lower_bound csiz))) (get (os_unit_bits canonical cval))
          (\<lambda>n. n * bpc) (\<lambda>n unused. unused) (Some (nat z + 1)) [] 0 pd1 = Some (Inr (take (length bss * bpc) (os_mem st), 0), pd2)"
        "pd_consumes pd1 (be_bits e k @ concat bss) pd2" unfolding get_def size_fits_def k_def by auto
      moreover have "c \<longleftrightarrow> False" using h(8) sized(1) False by (auto simp: csiz_def)
      moreover from calculation(1) have "body csiz (os_unit_bits canonical cval) pd1 = Some (RC_OK, Some (w, 0), pd2)"
        using False sized(1) h(5) by (simp add: body_def z_def [symmetric] s units(1) h(9) min_absorb2 del: of_int_add)
      ultimately show thesis by (intro that [of 0 pd2]) simp_all
    qed
    from 2 pd_consumes_trans [OF 1(2) 2(3)] show ?thesis by (simp add: dec 1(1) sized(6) k_def)
  qed
qed

end
