(* ===== verification/Uper_Bit_String.thy ===== *)
theory Uper_Bit_String
  imports Uper_Octet_String
begin

unbundle bit_operations_syntax

text \<open>
  BIT STRING: comparison and the removal of trailing zero bits (\<open>skeletons/BIT_STRING.c\<close>) and the codec for
  unaligned PER (\<open>skeletons/BIT_STRING_uper.c\<close>).
\<close>

section \<open>Data and operations\<close>

text \<open>\<open>bs_buf\<close> is the part of the buffer that was written, as for \<open>OCTET_STRING\<close>; \<open>bits_unused\<close> is an \<open>int\<close>.\<close>

record BIT_STRING =
  bs_buf :: "u8 list option"
  bs_size :: nat
  bs_unused :: int

text \<open>The loop from the end of the buffer to the last octet that is not zero, or to the first octet.\<close>

fun last_data :: "u8 list \<Rightarrow> nat \<Rightarrow> nat option" where
  "last_data buf 0 = Some 0"
| "last_data buf (Suc b) = do {
     v \<leftarrow> rd buf (Suc b);
     if v = 0 then last_data buf b else Some (Suc b) }"

text \<open>The trick that counts the zeros behind the last bit: \<open>v &= -(int8_t)v\<close> leaves that bit alone.\<close>

definition unused_behind :: "u8 \<Rightarrow> int" where
  "unused_behind v =
     (let v = v AND (- v) in
      7 - (if v AND 0x0F \<noteq> 0 then 4 else 0) - (if v AND 0x33 \<noteq> 0 then 2 else 0) - (if v AND 0x55 \<noteq> 0 then 1 else 0))"

definition BIT_STRING_compactify :: "BIT_STRING \<Rightarrow> BIT_STRING option" where
  "BIT_STRING_compactify st =
     (if bs_size st = 0 then do { c_assert (bs_unused st = 0); Some st }
      else do {
        buf \<leftarrow> bs_buf st;
        b \<leftarrow> last_data buf (bs_size st - 1);
        v \<leftarrow> rd buf b;
        Some (if v \<noteq> 0 then \<lparr>bs_buf = Some buf, bs_size = b + 1, bs_unused = unused_behind v\<rparr>
              else \<lparr>bs_buf = Some buf, bs_size = b, bs_unused = 0\<rparr>) })"

text \<open>\<open>specifics\<close> is the subvariant in \<open>td->specifics\<close>, \<open>None\<close> when that pointer is null.\<close>

definition BIT_STRING_compare :: "os_subvariant option \<Rightarrow> BIT_STRING option \<Rightarrow> BIT_STRING option \<Rightarrow> int option" where
  "BIT_STRING_compare specifics aptr bptr =
     (case (aptr, bptr) of
        (Some a, Some b) \<Rightarrow> do {
          a \<leftarrow> BIT_STRING_compactify a;
          b \<leftarrow> BIT_STRING_compactify b;
          c_assert (specifics = Some ASN_OSUBV_BIT);
          let n = min (bs_size a) (bs_size b);
          x \<leftarrow> mem_load (case bs_buf a of Some buf \<Rightarrow> buf | None \<Rightarrow> []) 0 n;
          y \<leftarrow> mem_load (case bs_buf b of Some buf \<Rightarrow> buf | None \<Rightarrow> []) 0 n;
          let ret = memcmp x y;
          Some (if ret = 0 then
                  if bs_size a < bs_size b then -1
                  else if bs_size b < bs_size a then 1
                  else if bs_unused b < bs_unused a then -1
                  else if bs_unused a < bs_unused b then 1
                  else 0
                else ret) }
      | _ \<Rightarrow> None)"

definition asn_DEF_BIT_STRING_constraint_size :: asn_per_constraint where
  "asn_DEF_BIT_STRING_constraint_size =
     \<lparr>ct_flags = APC_SEMI_CONSTRAINED, ct_range_bits = -1, ct_effective_bits = -1, ct_lower_bound = 0, ct_upper_bound = 0\<rparr>"

text \<open>\<open>BIT_STRING_decode_uper\<close> into a new structure, for the specifics with \<open>ASN_OSUBV_BIT\<close>.\<close>

definition BIT_STRING_decode_uper ::
  "(nat \<Rightarrow> bool) \<Rightarrow> nat \<Rightarrow> os_subvariant \<Rightarrow> asn_per_constraints option \<Rightarrow> asn_per_constraints option \<Rightarrow> BIT_STRING per_decoder" where
  "BIT_STRING_decode_uper can_alloc struct_size subvariant td_constraints constraints pd =
     (let csiz = (case os_constraints td_constraints constraints of Some pc \<Rightarrow> pc_size pc | None \<Rightarrow> asn_DEF_BIT_STRING_constraint_size) in
      if subvariant \<noteq> ASN_OSUBV_BIT then Some (RC_FAIL, None, pd)
      else if \<not> can_alloc struct_size then Some (RC_FAIL, None, pd)
      else do {
        (inext, pd) \<leftarrow> (if ct_has csiz APC_EXTENSIBLE then asn_get_few_bits pd 1 else Some (0, pd));
        if inext < 0 then Some (RC_WMORE, None, pd)
        else do {
          let csiz = (if inext \<noteq> 0 then asn_DEF_BIT_STRING_constraint_size else csiz);
          (sz, cap) \<leftarrow>
            (if 0 \<le> ct_effective_bits csiz then do {
               sum \<leftarrow> s64 (ct_upper_bound csiz + 7);
               let sz = drop_bit 3 sum;
               Some (unat (word_of_int sz :: u64), Some (unat (word_of_int (sz + 1) :: u64))) }
             else Some (0, None));
          if (case cap of Some n \<Rightarrow> \<not> can_alloc n | None \<Rightarrow> False) then Some (RC_FAIL, None, pd)
          else if ct_effective_bits csiz = 0 then do {
            n \<leftarrow> s32 (ct_upper_bound csiz);
            (r, octets, pd) \<leftarrow> asn_get_many_bits pd False n;
            if r < 0 then Some (RC_WMORE, None, pd)
            else if length octets \<noteq> sz \<or> the cap \<le> sz then None
            else Some (RC_OK, Some (\<lparr>bs_buf = Some (octets @ [0]), bs_size = sz,
                bs_unused = (8 - (ct_upper_bound csiz AND 7)) AND 7\<rparr>, nat (ct_upper_bound csiz)), pd) }
          else do {
            (res, pd) \<leftarrow> string_chunks can_alloc
               (\<lambda>pd. uper_get_length pd (ct_effective_bits csiz) (word_of_int (ct_lower_bound csiz)))
               (\<lambda>n pd. do { n \<leftarrow> s32 (int n); asn_get_many_bits pd False n })
               (\<lambda>n. drop_bit 3 (n + 7)) (\<lambda>n unused. if n AND 7 \<noteq> 0 then 8 - (n AND 7) else unused) cap [] 0 pd;
            case res of
              Inl code \<Rightarrow> Some (code, None, pd)
            | Inr (octets, unused) \<Rightarrow>
                Some (RC_OK, Some (\<lparr>bs_buf = Some (octets @ [0]), bs_size = length octets, bs_unused = int unused\<rparr>, 0), pd) } } })"

text \<open>The trailer: \<open>static const uint8_t zeros[16]\<close>, at most 128 bits at a time.\<close>

function put_zeros :: "nat \<Rightarrow> 'k bit_outp \<Rightarrow> (int \<times> 'k bit_outp) option" where
  "put_zeros trailing_zero_bits po =
     (if 0 < trailing_zero_bits then
        let n = (if 128 < trailing_zero_bits then 128 else trailing_zero_bits) in
        case asn_put_many_bits po (replicate 16 0) (int n) of
          None \<Rightarrow> None
        | Some (r, po) \<Rightarrow> if r \<noteq> 0 then Some (-1, po) else put_zeros (trailing_zero_bits - n) po
      else Some (0, po))"
  by pat_completeness auto
termination
  by (relation "measure fst") (auto split: if_splits)

declare put_zeros.simps [simp del]

definition BIT_STRING_encode_uper ::
  "os_subvariant \<Rightarrow> asn_per_constraints option \<Rightarrow> asn_per_constraints option \<Rightarrow> (BIT_STRING, 'k) uper_encoder" where
  "BIT_STRING_encode_uper subvariant td_constraints constraints st po =
     (let csiz = (case os_constraints td_constraints constraints of Some pc \<Rightarrow> pc_size pc | None \<Rightarrow> asn_DEF_BIT_STRING_constraint_size);
          ct_extensible = ct_has csiz APC_EXTENSIBLE in
      if bs_buf st = None \<and> bs_size st \<noteq> 0 then Some (-1, po)
      else if subvariant \<noteq> ASN_OSUBV_BIT then Some (-1, po)
      else if bs_size st = 0 \<and> bs_unused st \<noteq> 0 \<or> bs_unused st AND NOT 7 \<noteq> 0 then Some (-1, po)
      else do {
        st \<leftarrow> BIT_STRING_compactify st;
        let size_in_bits = nat (8 * int (bs_size st) - bs_unused st);
        let buf = (case bs_buf st of Some buf \<Rightarrow> buf | None \<Rightarrow> []);
        let outside = (0 \<le> ct_effective_bits csiz \<and> ct_upper_bound csiz < int size_in_bits);
        let put_units = (\<lambda>buf n po. do { n \<leftarrow> s32 (int n); asn_put_many_bits po buf n });
        if outside \<and> \<not> ct_extensible then Some (-1, po)
        else do {
          (r, po) \<leftarrow> (if ct_extensible then asn_put_few_bits po (if outside then 1 else 0) 1 else Some (0, po));
          if r \<noteq> 0 then Some (-1, po)
          else if 0 \<le> ct_effective_bits csiz \<and> \<not> outside then do {
            let add_trailer = (int size_in_bits < ct_lower_bound csiz);
            (r, po) \<leftarrow> asn_put_few_bits po (if add_trailer then 0 else word_of_int (int size_in_bits - ct_lower_bound csiz))
               (ct_effective_bits csiz);
            if r \<noteq> 0 then Some (-1, po)
            else do {
              (r, po) \<leftarrow> put_units buf size_in_bits po;
              if r \<noteq> 0 then Some (-1, po)
              else if add_trailer then put_zeros (nat (ct_lower_bound csiz - int size_in_bits)) po
              else Some (0, po) } }
          else put_string_chunks put_units (\<lambda>n. drop_bit 3 n) size_in_bits buf po } })"

section \<open>The bits of a value\<close>

text \<open>The bits up to the last one that is set.\<close>

definition strip :: "bool list \<Rightarrow> bool list" where
  "strip bs = rev (dropWhile Not (rev bs))"

lemma strip_Nil [simp]: "strip [] = []"
  by (simp add: strip_def)

lemma strip_zeros [simp]: "strip (bs @ replicate n False) = strip bs"
proof (induction n)
  case (Suc n)
  have "bs @ replicate (Suc n) False = (bs @ replicate n False) @ [False]" by (simp add: replicate_append_same)
  with Suc show ?case by (simp only: strip_def rev_append) simp
qed simp

lemma strip_replicate [simp]: "strip (replicate n False) = []"
  using strip_zeros [of "[]" n] by simp

lemma strip_append: "strip ys \<noteq> [] \<Longrightarrow> strip (xs @ ys) = xs @ strip ys"
  by (auto simp: strip_def dropWhile_append dropWhile_eq_Nil_conv)

lemma strip_split: obtains n where "bs = strip bs @ replicate n False"
proof -
  have "rev (takeWhile Not (rev bs)) = replicate (length (takeWhile Not (rev bs))) False"
    by (intro replicate_eqI) (auto dest: set_takeWhileD)
  moreover have "bs = strip bs @ rev (takeWhile Not (rev bs))"
    unfolding strip_def by (metis rev_append rev_rev_ident takeWhile_dropWhile_id)
  ultimately show thesis using that by metis
qed

lemma strip_last: "strip bs = [] \<or> last (strip bs)"
  using hd_dropWhile [of Not "rev bs"] by (auto simp: strip_def last_rev)

lemma strip_idem [simp]: "strip (strip bs) = strip bs"
  by (simp add: strip_def dropWhile_idem)

text \<open>One octet: the trick counts the zeros behind the last bit.\<close>

lemma odd_part: "0 < (n :: nat) \<Longrightarrow> \<exists>k m. n = 2 ^ k * (2 * m + 1)"
proof (induction n rule: less_induct)
  case (less n)
  show ?case
  proof (cases "even n")
    case True
    then obtain m where m: "n = 2 * m" by auto
    with less.prems less.IH [of m] obtain k j where "m = 2 ^ k * (2 * j + 1)" by auto
    with m have "n = 2 ^ Suc k * (2 * j + 1)" by simp
    then show ?thesis by blast
  next
    case False
    then obtain m where "n = 2 ^ 0 * (2 * m + 1)" by (auto elim: oddE)
    then show ?thesis by blast
  qed
qed

lemma lowest_bit:
  fixes w :: u8
  assumes "odd w"
  shows "push_bit k w AND - push_bit k w = push_bit k 1"
proof -
  have "even (NOT w)" using assms by simp
  then have "- w = NOT w OR 1" by (simp add: minus_eq_not_plus_1 or_one_eq)
  then have "w AND - w = w AND 1" by (simp add: bit.conj_disj_distrib)
  with assms have "w AND - w = 1" by (simp add: and_one_eq odd_iff_mod_2_eq_one)
  moreover have "- push_bit k w = push_bit k (- w)" by (simp add: push_bit_eq_mult)
  ultimately show ?thesis by (simp flip: push_bit_and)
qed

lemma unused_behind_ok:
  assumes "v \<noteq> 0"
  obtains k where "k < 8" "unused_behind v = int k" "strip (be_bits 8 (unat v)) = take (8 - k) (be_bits 8 (unat v))"
    "strip (be_bits 8 (unat v)) \<noteq> []"
proof -
  have "0 < unat v" using assms by (simp add: unat_gt_0)
  from odd_part [OF this] obtain k m where v: "unat v = 2 ^ k * (2 * m + 1)" by blast
  have "(2 :: nat) ^ k \<le> unat v" by (simp add: v)
  also have "\<dots> < 2 ^ 8" using unat_u8_less [of v] by simp
  finally have "(2 :: nat) ^ k < 2 ^ 8" .
  then have k: "k < 8" by (rule power_less_imp_less_exp [rotated]) simp
  have "v = of_nat (2 ^ k * (2 * m + 1))" unfolding v [symmetric] by simp
  then have "v = push_bit k (of_nat (2 * m + 1))" by (simp add: push_bit_eq_mult algebra_simps)
  moreover have "odd (of_nat (2 * m + 1) :: u8)" by simp
  ultimately have low: "v AND - v = push_bit k 1" using lowest_bit by metis
  have "k \<in> {0, 1, 2, 3, 4, 5, 6, 7}" using k by auto
  then have "unused_behind v = int k" by (auto simp: unused_behind_def low)
  moreover have bits: "be_bits 8 (unat v) = be_bits (8 - k) (2 * m + 1) @ replicate k False"
    using be_bits_add [of "8 - k" k "unat v"] be_bits_mod_self [of k "unat v"] k by (simp add: v)
  have l: "be_bits (8 - k) (2 * m + 1) = be_bits (7 - k) m @ [True]"
    using be_bits_rec [of "8 - k" "2 * m + 1"] k by simp
  have "strip (be_bits 8 (unat v)) = be_bits (8 - k) (2 * m + 1)"
    unfolding bits strip_zeros l by (simp add: strip_def)
  ultimately show thesis using that [of k] k l bits by simp
qed

text \<open>
  The data of a BIT STRING as these routines read it: all the bits of its octets without the trailing
  zeros. The count of unused bits plays no part, so an unused bit that is set is data.
\<close>

definition bs_mem :: "BIT_STRING \<Rightarrow> u8 list" where
  "bs_mem st = (case bs_buf st of Some buf \<Rightarrow> buf | None \<Rightarrow> [])"

definition bs_bits :: "BIT_STRING \<Rightarrow> bool list" where
  "bs_bits st = strip (octets_bits (take (bs_size st) (bs_mem st)))"

text \<open>What compacting promises: the same buffer, as many of its bits as the value has.\<close>

lemma last_data_ok:
  assumes "b < length buf"
  obtains i where "last_data buf b = Some i" "i \<le> b" "take (Suc b) buf = take (Suc i) buf @ replicate (b - i) 0" "i = 0 \<or> buf ! i \<noteq> 0"
  using assms
proof (induction b arbitrary: thesis)
  case 0
  then show ?case by (auto intro!: 0(1) [of 0])
next
  case (Suc b)
  show ?case
  proof (cases "buf ! Suc b = 0")
    case False
    with Suc.prems show ?thesis by (intro Suc.prems(1) [of "Suc b"]) auto
  next
    case True
    from Suc.IH Suc.prems(2) obtain i where
      i: "last_data buf b = Some i" "i \<le> b" "take (Suc b) buf = take (Suc i) buf @ replicate (b - i) 0" "i = 0 \<or> buf ! i \<noteq> 0" by auto
    have "take (Suc (Suc b)) buf = take (Suc b) buf @ [0]" using take_Suc_conv_app_nth [OF Suc.prems(2)] True by simp
    with i show ?thesis using Suc.prems(2) True
      by (intro Suc.prems(1) [of i]) (auto simp: Suc_diff_le replicate_append_same)
  qed
qed

lemma compactify_ok:
  assumes "bs_size st \<le> length (bs_mem st)" "bs_size st = 0 \<longrightarrow> bs_unused st = 0"
  obtains st' where "BIT_STRING_compactify st = Some st'" "8 * int (bs_size st') - bs_unused st' = int (length (bs_bits st))"
    "bs_mem st' = bs_mem st" "bs_size st' = (length (bs_bits st) + 7) div 8" "bs_size st' \<le> bs_size st"
    "bs_bits st = take (length (bs_bits st)) (octets_bits (bs_mem st))"
proof (cases "bs_size st")
  case 0
  with assms show thesis by (intro that [of st]) (simp_all add: BIT_STRING_compactify_def bs_bits_def)
next
  case (Suc b)
  with assms(1) obtain buf where buf: "bs_buf st = Some buf" "b < length buf" by (auto simp: bs_mem_def split: option.splits)
  from last_data_ok [OF buf(2)] obtain i where
    i: "last_data buf b = Some i" "i \<le> b" "take (Suc b) buf = take (Suc i) buf @ replicate (b - i) 0" "i = 0 \<or> buf ! i \<noteq> 0" .
  have mem: "bs_mem st = buf" by (simp add: bs_mem_def buf(1))
  have z: "octets_bits (replicate n 0) = replicate (8 * n) False" for n
    by (induction n) (simp_all add: octets_bits_Cons replicate_add)
  have ti: "take (Suc i) buf = take i buf @ [buf ! i]" using i(2) buf(2) by (intro take_Suc_conv_app_nth) simp
  have bits: "bs_bits st = strip (octets_bits (take i buf) @ be_bits 8 (unat (buf ! i)))"
    using strip_zeros [of "octets_bits (take i buf) @ be_bits 8 (unat (buf ! i))" "8 * (b - i)"]
    by (simp add: bs_bits_def Suc mem i(3) z ti octets_bits_Cons)
  have len: "length (octets_bits (take i buf)) = 8 * i" using i(2) buf(2) by simp
  have all: "octets_bits buf = octets_bits (take i buf) @ be_bits 8 (unat (buf ! i)) @ octets_bits (drop (Suc i) buf)"
    using id_take_nth_drop [of i buf] i(2) buf(2) by (metis octets_bits_Cons octets_bits_append le_less_trans)
  show thesis
  proof (cases "buf ! i = 0")
    case False
    from unused_behind_ok [OF this] obtain k where
      k: "k < 8" "unused_behind (buf ! i) = int k" "strip (be_bits 8 (unat (buf ! i))) = take (8 - k) (be_bits 8 (unat (buf ! i)))"
        "strip (be_bits 8 (unat (buf ! i))) \<noteq> []" .
    have b: "bs_bits st = octets_bits (take i buf) @ take (8 - k) (be_bits 8 (unat (buf ! i)))"
      using strip_append [OF k(4)] k(3) bits by simp
    then have l: "length (bs_bits st) = 8 * i + (8 - k)" using len by simp
    show thesis
    proof (rule that)
      show "BIT_STRING_compactify st = Some \<lparr>bs_buf = Some buf, bs_size = i + 1, bs_unused = int k\<rparr>"
        using False i buf Suc k(2) by (simp add: BIT_STRING_compactify_def)
      show "bs_bits st = take (length (bs_bits st)) (octets_bits (bs_mem st))"
        unfolding l mem all using b len k(1) by simp
    qed (use l k(1) i(2) Suc mem in \<open>auto simp: bs_mem_def\<close>)
  next
    case True
    then have "bs_bits st = []" using i(4) bits by simp
    moreover have "0 < length buf" using buf(2) by linarith
    ultimately show thesis using True i buf Suc mem
      by (intro that [of "\<lparr>bs_buf = Some buf, bs_size = i, bs_unused = 0\<rparr>"]) (simp_all add: BIT_STRING_compactify_def bs_mem_def)
  qed
qed


section \<open>The codec\<close>

text \<open>X.691 #16 with the trailing zeros removed, or added up to the lower bound of the size.\<close>

definition bit_units :: "bool list \<Rightarrow> bool list list" where
  "bit_units bs = map (\<lambda>b. [b]) bs"

lemma bit_units_simps [simp]: "concat (bit_units bs) = bs" "length (bit_units bs) = length bs"
  "take n (bit_units bs) = bit_units (take n bs)" "drop n (bit_units bs) = bit_units (drop n bs)"
  by (simp_all add: bit_units_def take_map drop_map)

definition bs_of_bits :: "bool list \<Rightarrow> BIT_STRING" where
  "bs_of_bits bs = \<lparr>bs_buf = Some (left_octets bs @ [0]), bs_size = (length bs + 7) div 8, bs_unused = int (8 * ((length bs + 7) div 8) - length bs)\<rparr>"

definition bs_padded :: "asn_per_constraint \<Rightarrow> bool list \<Rightarrow> bool list" where
  "bs_padded c bs = (if 0 \<le> ct_effective_bits c \<and> int (length bs) \<le> ct_upper_bound c
     then bs @ replicate (nat (ct_lower_bound c - int (length bs))) False else bs)"

definition bit_string_coding ::
  "asn_per_constraints option \<Rightarrow> asn_per_constraints option \<Rightarrow> BIT_STRING \<Rightarrow> BIT_STRING coding option" where
  "bit_string_coding td_constraints constraints st =
     (let c = (case os_constraints td_constraints constraints of Some pc \<Rightarrow> pc_size pc | None \<Rightarrow> asn_DEF_BIT_STRING_constraint_size);
          bits = bs_bits st; padded = bs_padded c bits; inside = (int (length bits) \<le> ct_upper_bound c) in
      if bs_size st \<le> length (bs_mem st) \<and> (bs_size st = 0 \<longrightarrow> bs_unused st = 0) \<and> 0 \<le> bs_unused st \<and> bs_unused st \<le> 7
      then map_option (\<lambda>bs. (bs, ct_effective_bits c = 0 \<and> inside \<and> padded \<noteq> [], bs_of_bits padded))
             (sized_bits c inside (Some (bit_units padded)) (Some (bit_units bits)))
      else None)"

lemma get_bits_units: "units_got (\<lambda>n pd. do { n \<leftarrow> s32 (int n); asn_get_many_bits pd False n }) (\<lambda>n. drop_bit 3 (n + 7))
    (\<lambda>n unused. if n AND 7 \<noteq> 0 then 8 - (n AND 7) else unused) (\<lambda>i. left_octets (take i bs)) (\<lambda>i. 8 * ((i + 7) div 8) - i) (bit_units bs)"
proof -
  have "\<exists>chunk pd'. s32 (int n) \<bind> asn_get_many_bits pd False = Some (0, chunk, pd') \<and>
      left_octets (take (i + n) bs) = left_octets (take i bs) @ chunk \<and> length chunk = drop_bit 3 (n + 7) \<and> pd_consumes pd (take n (drop i bs)) pd'"
    if h: "8 dvd i" "i + n \<le> length bs" "n \<le> 65536" "pd_inv pd" "pd_bits pd = take n (drop i bs) @ rest" for i n pd rest
  proof -
    have l: "length (take n (drop i bs)) = n" using h(2) by simp
    have "n \<le> length (pd_bits pd)" "take n (pd_bits pd) = take n (drop i bs)" using h(5) l by simp_all
    with get_many_bits_left [OF h(4) this(1)] obtain pd' where
      "asn_get_many_bits pd False (int n) = Some (0, left_octets (take n (drop i bs)), pd')" "pd_consumes pd (take n (drop i bs)) pd'" by auto
    moreover have "s32 (int n) = Some (int n)" using h(3) by (simp add: s32_def limits_defs)
    moreover obtain k where "i = 8 * k" using h(1) unfolding dvd_def by blast
    then have "octets_bits (left_octets (take i bs)) = take i bs" using h(2) by (simp add: octets_bits_left_octets min_absorb2)
    then have "left_octets (take (i + n) bs) = left_octets (take i bs) @ left_octets (take n (drop i bs))"
      by (metis left_octets_append take_add)
    ultimately show ?thesis using l by (simp add: drop_bit_eq_div)
  qed
  moreover have "(if n AND 7 \<noteq> 0 then 8 - (n AND 7) else 8 * ((i + 7) div 8) - i) = 8 * ((i + n + 7) div 8) - (i + n)" if h: "8 dvd i" for i n :: nat
  proof -
    obtain k where i: "i = 8 * k" using h unfolding dvd_def by blast
    have a: "n AND 7 = n mod 8" using take_bit_eq_mask [of 3 n] by (simp add: take_bit_eq_mod mask_eq_exp_minus_1)
    have d: "(8 * k + (n + 7)) div 8 = k + (n + 7) div 8" "(8 * k + 7) div 8 = k" by simp_all
    have "8 * ((n + 7) div 8) - n = (if n mod 8 \<noteq> 0 then 8 - n mod 8 else 0)"
      unfolding flush_pad_octets [symmetric] by (simp add: flush_pad_def)
    moreover have "8 * (k + (n + 7) div 8) - (8 * k + n) = 8 * ((n + 7) div 8) - n" by (simp add: algebra_simps)
    moreover have "8 * k + n + 7 = 8 * k + (n + 7)" by simp
    ultimately show ?thesis by (simp only: a i d) simp
  qed
  moreover have "left_octets [] = []" by (simp add: left_octets_def)
  ultimately show ?thesis by (simp add: units_got_def)
qed

lemma put_bits_units:
  assumes "length bs \<le> 8 * length mem" "bs = take (length bs) (octets_bits mem)"
  shows "units_put (\<lambda>buf n po. do { n \<leftarrow> s32 (int n); asn_put_many_bits po buf n }) (\<lambda>n. drop_bit 3 n) mem (bit_units bs)"
proof -
  have "po_puts grow_cb dyn_taken dyn_inv po 0 (take n (drop i bs)) (s32 (int n) \<bind> asn_put_many_bits po (drop (i div 8) mem))"
    if h: "8 dvd i" "i + n \<le> length bs" "n \<le> 65536" "po_ok grow_cb dyn_inv po" for i n po
  proof -
    obtain k where i: "i = 8 * k" using h(1) unfolding dvd_def by blast
    have "n \<le> 8 * length (drop k mem)" using h(2) assms(1) i by simp
    from dyn.put_many_bits_puts [OF h(4) this] have
      "po_puts grow_cb dyn_taken dyn_inv po 0 (take n (octets_bits (drop k mem))) (asn_put_many_bits po (drop k mem) (int n))" .
    moreover have "octets_bits (drop k mem) = drop i (octets_bits mem)" unfolding i by (simp add: drop_octets_bits)
    moreover have "take n (drop i bs) = take n (drop i (octets_bits mem))"
      by (subst assms(2)) (use h(2) in \<open>simp add: drop_take min_absorb1\<close>)
    moreover have "s32 (int n) = Some (int n)" using h(3) by (simp add: s32_def limits_defs)
    ultimately show ?thesis by (simp add: i)
  qed
  moreover have "drop_bit 3 (i + n) = drop_bit 3 i + drop_bit 3 n" if "8 dvd i" for i n :: nat
    using that by (auto simp: drop_bit_eq_div elim!: dvdE)
  ultimately show ?thesis by (simp add: units_put_def drop_bit_eq_div)
qed

lemma put_zeros_ok:
  assumes "po_ok grow_cb dyn_inv po"
  shows "po_puts grow_cb dyn_taken dyn_inv po 0 (replicate n False) (put_zeros n po)"
  using assms
proof (induction n arbitrary: po rule: less_induct)
  case (less n)
  show ?case
  proof (cases "n = 0")
    case True
    with po_puts_Nil [OF less.prems] show ?thesis by (subst put_zeros.simps) simp
  next
    case False
    define k where "k = (if 128 < n then 128 else n)"
    have k: "0 < k" "k \<le> n" "k \<le> 128" using False by (auto simp: k_def)
    have z: "octets_bits (replicate m 0) = replicate (8 * m) False" for m
      by (induction m) (simp_all add: octets_bits_Cons replicate_add)
    have "take k (octets_bits (replicate 16 0)) = replicate k False" using k(3) by (simp add: z)
    with dyn.put_many_bits_puts [OF less.prems, of k "replicate 16 0"] k(3) have
      "po_puts grow_cb dyn_taken dyn_inv po 0 (replicate k False) (asn_put_many_bits po (replicate 16 0) (int k))" by simp
    from po_puts_then [OF this less.IH, of "n - k"] k have
      "po_puts grow_cb dyn_taken dyn_inv po 0 (replicate k False @ replicate (n - k) False)
        (asn_put_many_bits po (replicate 16 0) (int k) \<bind> (\<lambda>(r, po). if r \<noteq> 0 then Some (-1, po) else put_zeros (n - k) po))" by simp
    moreover have "put_zeros n po = asn_put_many_bits po (replicate 16 0) (int k) \<bind> (\<lambda>(r, po). if r \<noteq> 0 then Some (-1, po) else put_zeros (n - k) po)"
      using False by (subst put_zeros.simps) (simp add: k_def [symmetric] Let_def split: option.splits cong: if_cong)
    moreover have "replicate k False @ replicate (n - k) False = replicate n False" using k(2) by (simp flip: replicate_add)
    ultimately show ?thesis by simp
  qed
qed


lemma bit_string_codingE:
  assumes "bit_string_coding tdc cs st = Some (bs, c, w)"
  obtains csiz bits padded where "csiz = (case os_constraints tdc cs of Some pc \<Rightarrow> pc_size pc | None \<Rightarrow> asn_DEF_BIT_STRING_constraint_size)"
    "bits = bs_bits st" "padded = bs_padded csiz bits" "bs_size st \<le> length (bs_mem st)" "bs_size st = 0 \<longrightarrow> bs_unused st = 0"
    "0 \<le> bs_unused st" "bs_unused st \<le> 7"
    "sized_bits csiz (int (length bits) \<le> ct_upper_bound csiz) (Some (bit_units padded)) (Some (bit_units bits)) = Some bs"
    "c \<longleftrightarrow> ct_effective_bits csiz = 0 \<and> int (length bits) \<le> ct_upper_bound csiz \<and> padded \<noteq> []" "w = bs_of_bits padded"
  by (rule that [OF refl refl refl]) (use assms in \<open>auto simp: bit_string_coding_def Let_def split: if_splits\<close>)

lemma bit_string_writes:
  assumes "bit_string_coding tdc cs st = Some (bs, c, w)"
  shows "writes (BIT_STRING_encode_uper ASN_OSUBV_BIT tdc cs) st bs"
  unfolding writes_def
proof (intro allI impI)
  fix po assume po: "po_ok grow_cb dyn_inv po"
  from assms obtain csiz bits padded where h: "csiz = (case os_constraints tdc cs of Some pc \<Rightarrow> pc_size pc | None \<Rightarrow> asn_DEF_BIT_STRING_constraint_size)"
    "bits = bs_bits st" "padded = bs_padded csiz bits" "bs_size st \<le> length (bs_mem st)" "bs_size st = 0 \<longrightarrow> bs_unused st = 0"
    "0 \<le> bs_unused st" "bs_unused st \<le> 7"
    "sized_bits csiz (int (length bits) \<le> ct_upper_bound csiz) (Some (bit_units padded)) (Some (bit_units bits)) = Some bs"
    "c \<longleftrightarrow> ct_effective_bits csiz = 0 \<and> int (length bits) \<le> ct_upper_bound csiz \<and> padded \<noteq> []" "w = bs_of_bits padded"
    by (rule bit_string_codingE)
  from compactify_ok [OF h(4,5)] obtain st' where c: "BIT_STRING_compactify st = Some st'"
    "8 * int (bs_size st') - bs_unused st' = int (length bits)" "bs_mem st' = bs_mem st"
    "bs_size st' = (length bits + 7) div 8" "bs_size st' \<le> bs_size st" "bits = take (length bits) (octets_bits (bs_mem st))"
    unfolding h(2) [symmetric] by blast
  define n where "n = length bits"
  have len: "n \<le> 8 * length (bs_mem st)" using c(6) by (metis length_octets_bits length_take min.cobounded1 n_def)
  note units = put_bits_units [OF len [unfolded n_def] c(6)]
  define outside where "outside \<longleftrightarrow> 0 \<le> ct_effective_bits csiz \<and> ct_upper_bound csiz < int n"
  define put where "put = (\<lambda>buf n po. do { n \<leftarrow> s32 (int n); asn_put_many_bits po buf n :: (int \<times> enc_dyn_arg bit_outp) option })"
  define rest where "rest = (\<lambda>po. if 0 \<le> ct_effective_bits csiz \<and> \<not> outside then do {
            (r, po) \<leftarrow> asn_put_few_bits po (if int n < ct_lower_bound csiz then 0 else word_of_int (int n - ct_lower_bound csiz))
               (ct_effective_bits csiz);
            if r \<noteq> 0 then Some (-1, po)
            else do {
              (r, po) \<leftarrow> put (bs_mem st) n po;
              if r \<noteq> 0 then Some (-1, po)
              else if int n < ct_lower_bound csiz then put_zeros (nat (ct_lower_bound csiz - int n)) po
              else Some (0, po) } }
          else put_string_chunks put (\<lambda>n. drop_bit 3 n) n (bs_mem st) po)"
  have nn: "\<not> (bs_buf st = None \<and> bs_size st \<noteq> 0)" using h(4) by (cases "bs_buf st") (simp_all add: bs_mem_def)
  have "bs_unused st AND NOT 7 = 0" using h(6,7) by (simp only: and_not_7) simp
  with h(5) have ok: "\<not> (bs_size st = 0 \<and> bs_unused st \<noteq> 0 \<or> bs_unused st AND NOT 7 \<noteq> 0)" by auto
  have sz: "nat (8 * int (bs_size st') - bs_unused st') = n" using c(2) by (simp add: n_def)
  have enc: "BIT_STRING_encode_uper ASN_OSUBV_BIT tdc cs st po =
    (if outside \<and> \<not> ct_has csiz APC_EXTENSIBLE then Some (-1, po)
     else (if ct_has csiz APC_EXTENSIBLE then asn_put_few_bits po (if outside then 1 else 0) 1 else Some (0, po)) \<bind>
       (\<lambda>(r, po). if r \<noteq> 0 then Some (-1, po) else rest po))"
    by (simp only: BIT_STRING_encode_uper_def Let_def h(1) [symmetric] if_not_P [OF nn] if_not_P [OF ok] simp_thms if_False c(1) bind.bind_lunit sz
        bs_mem_def [symmetric] c(3) outside_def [symmetric] put_def [symmetric] rest_def)
  have chunks: "po_puts grow_cb dyn_taken dyn_inv po1 0 (element_fragments (bit_units bits)) (put_string_chunks put (\<lambda>n. drop_bit 3 n) n (bs_mem st) po1)"
    if "po_ok grow_cb dyn_inv po1" for po1
    using put_string_chunks_ok [OF units that, of 0] by (simp add: put_def n_def)
  from h(8) show "po_puts grow_cb dyn_taken dyn_inv po 0 bs (BIT_STRING_encode_uper ASN_OSUBV_BIT tdc cs st po)"
  proof (cases rule: sized_bitsE)
    case (sized e bss)
    define z where "z = nat (ct_lower_bound csiz - int n)"
    define k where "k = nat (int (length bss) - ct_lower_bound csiz)"
    have pad: "padded = bits @ replicate z False" using sized(1,3) by (simp add: h(3) bs_padded_def z_def n_def)
    have "bss = bit_units padded" using sized(4) by simp
    then have bss: "bss = bit_units padded" "length bss = n + z" "concat bss = bits @ replicate z False" by (simp_all add: n_def pad)
    have no: "\<not> outside" using sized(3) by (simp add: outside_def n_def)
    have e31: "e \<le> 31" using sized(2) by simp
    have k: "(if int n < ct_lower_bound csiz then 0 else word_of_int (int n - ct_lower_bound csiz)) = (of_nat k :: u32)"
      using bss(2) by (auto simp: k_def z_def simp del: of_int_diff)
    have "n \<le> 65536" using sized(5) bss(2) by (simp add: size_fits_def)
    then have "po_puts grow_cb dyn_taken dyn_inv po2 0 bits (put (bs_mem st) n po2)" if "po_ok grow_cb dyn_inv po2" for po2
      using units_putD(1) [OF units, of 0 n po2] that by (simp add: put_def n_def)
    moreover have "po_puts grow_cb dyn_taken dyn_inv po3 0 (replicate z False)
        (if int n < ct_lower_bound csiz then put_zeros (nat (ct_lower_bound csiz - int n)) po3 else Some (0, po3))"
      if "po_ok grow_cb dyn_inv po3" for po3
      using put_zeros_ok [OF that, of z] po_puts_Nil [OF that] by (auto simp: z_def)
    ultimately have put: "po_puts grow_cb dyn_taken dyn_inv po2 0 (bits @ replicate z False) (put (bs_mem st) n po2 \<bind>
        (\<lambda>(r, po). if r \<noteq> 0 then Some (-1, po) else if int n < ct_lower_bound csiz then put_zeros (nat (ct_lower_bound csiz - int n)) po else Some (0, po)))"
      if "po_ok grow_cb dyn_inv po2" for po2 using that by (intro po_puts_then)
    have rest: "po_puts grow_cb dyn_taken dyn_inv po1 0 (be_bits e k @ bits @ replicate z False) (rest po1)" if po1: "po_ok grow_cb dyn_inv po1" for po1
      using po_puts_then [OF dyn.put_number [OF po1 sized(1) e31, of k] put] sized(1) no by (simp add: rest_def k)
    from po_puts_then [OF put_ext_bit [OF po, of "ct_has csiz APC_EXTENSIBLE" False] rest] show ?thesis
      unfolding enc by (simp only: no simp_thms if_False sized(6) k_def bss(3))
  next
    case (outside bss)
    have o: "outside" using outside(1,2) by (simp add: outside_def n_def)
    have rest: "po_puts grow_cb dyn_taken dyn_inv po1 0 (element_fragments bss) (rest po1)" if po1: "po_ok grow_cb dyn_inv po1" for po1
      using chunks [OF po1] o outside(3) by (simp add: rest_def)
    from po_puts_then [OF put_ext_bit [OF po, of "ct_has csiz APC_EXTENSIBLE" True] rest] show ?thesis
      unfolding enc by (simp only: o outside(4,5) simp_thms if_False if_True)
  next
    case (unbounded bss)
    have no: "\<not> outside" "\<not> 0 \<le> ct_effective_bits csiz" using unbounded(1) by (simp_all add: outside_def)
    have "padded = bits" using no(2) by (simp add: h(3) bs_padded_def)
    then have rest: "po_puts grow_cb dyn_taken dyn_inv po1 0 (element_fragments bss) (rest po1)" if po1: "po_ok grow_cb dyn_inv po1" for po1
      using chunks [OF po1] no unbounded(2) by (simp add: rest_def)
    from po_puts_then [OF put_ext_bit [OF po, of "ct_has csiz APC_EXTENSIBLE" False] rest] show ?thesis
      unfolding enc by (simp only: no unbounded(3) simp_thms if_False)
  qed
qed


lemma bit_string_reads:
  assumes "bit_string_coding tdc cs st = Some (bs, c, w)"
  shows "reads (BIT_STRING_decode_uper (\<lambda>_. True) sz ASN_OSUBV_BIT tdc cs) (bs, c, w)"
  unfolding reads_def fst_conv snd_conv
proof (intro allI impI)
  fix pd tl assume pd: "pd_inv pd" "pd_bits pd = bs @ tl"
  from assms obtain csiz bits padded where h: "csiz = (case os_constraints tdc cs of Some pc \<Rightarrow> pc_size pc | None \<Rightarrow> asn_DEF_BIT_STRING_constraint_size)"
    "bits = bs_bits st" "padded = bs_padded csiz bits" "bs_size st \<le> length (bs_mem st)" "bs_size st = 0 \<longrightarrow> bs_unused st = 0"
    "0 \<le> bs_unused st" "bs_unused st \<le> 7"
    "sized_bits csiz (int (length bits) \<le> ct_upper_bound csiz) (Some (bit_units padded)) (Some (bit_units bits)) = Some bs"
    "c \<longleftrightarrow> ct_effective_bits csiz = 0 \<and> int (length bits) \<le> ct_upper_bound csiz \<and> padded \<noteq> []" "w = bs_of_bits padded"
    by (rule bit_string_codingE)
  define get where "get = (\<lambda>n pd. do { n \<leftarrow> s32 (int n); asn_get_many_bits pd False n })"
  define set_unused where "set_unused = (\<lambda>(n :: nat) unused. if n AND 7 \<noteq> 0 then 8 - (n AND 7) else unused)"
  define body where "body = (\<lambda>(csiz :: asn_per_constraint) pd. do {
          (sz, cap) \<leftarrow>
            (if 0 \<le> ct_effective_bits csiz then do {
               sum \<leftarrow> s64 (ct_upper_bound csiz + 7);
               let sz = drop_bit 3 sum;
               Some (unat (word_of_int sz :: u64), Some (unat (word_of_int (sz + 1) :: u64))) }
             else Some (0, None));
          if (case cap of Some n \<Rightarrow> \<not> True | None \<Rightarrow> False) then Some (RC_FAIL, None, pd)
          else if ct_effective_bits csiz = 0 then do {
            n \<leftarrow> s32 (ct_upper_bound csiz);
            (r, octets, pd) \<leftarrow> asn_get_many_bits pd False n;
            if r < 0 then Some (RC_WMORE, None, pd)
            else if length octets \<noteq> sz \<or> the cap \<le> sz then None
            else Some (RC_OK, Some (\<lparr>bs_buf = Some (octets @ [0]), bs_size = sz,
                bs_unused = (8 - (ct_upper_bound csiz AND 7)) AND 7\<rparr>, nat (ct_upper_bound csiz)), pd) }
          else do {
            (res, pd) \<leftarrow> string_chunks (\<lambda>_. True)
               (\<lambda>pd. uper_get_length pd (ct_effective_bits csiz) (word_of_int (ct_lower_bound csiz)))
               get (\<lambda>n. drop_bit 3 (n + 7)) set_unused cap [] 0 pd;
            case res of
              Inl code \<Rightarrow> Some (code, None, pd)
            | Inr (octets, unused) \<Rightarrow>
                Some (RC_OK, Some (\<lparr>bs_buf = Some (octets @ [0]), bs_size = length octets, bs_unused = int unused\<rparr>, 0), pd) } })"
  have dec: "BIT_STRING_decode_uper (\<lambda>_. True) sz ASN_OSUBV_BIT tdc cs pd = do {
      (inext, pd) \<leftarrow> (if ct_has csiz APC_EXTENSIBLE then asn_get_few_bits pd 1 else Some (0, pd));
      if inext < 0 then Some (RC_WMORE, None, pd)
      else body (if inext \<noteq> 0 then asn_DEF_BIT_STRING_constraint_size else csiz) pd }"
    by (simp only: BIT_STRING_decode_uper_def Let_def h(1) [symmetric] simp_thms if_False body_def get_def set_unused_def)
  have ext: "\<exists>pd1. (if ct_has csiz APC_EXTENSIBLE then asn_get_few_bits pd 1 else Some (0, pd)) = Some (of_bool (ct_has csiz APC_EXTENSIBLE \<and> b), pd1) \<and>
      pd_consumes pd (if ct_has csiz APC_EXTENSIBLE then [b] else []) pd1 \<and> pd_inv pd1 \<and> pd_bits pd1 = bs' @ tl"
    if "bs = (if ct_has csiz APC_EXTENSIBLE then [b] else []) @ bs'" for b bs'
  proof -
    have "pd_bits pd = (if ct_has csiz APC_EXTENSIBLE then [b] else []) @ bs' @ tl" using pd(2) by (simp only: that append_assoc)
    from get_ext [OF pd(1) this] show ?thesis by blast
  qed
  note units = get_bits_units [folded get_def set_unused_def]
  have chunks: "\<exists>pd2. body cz pd1 = Some (RC_OK, Some (bs_of_bits xs, 0), pd2) \<and> pd_consumes pd1 (element_fragments (bit_units xs)) pd2"
    if eb: "ct_effective_bits cz < 0" and pd: "pd_inv pd1" "pd_bits pd1 = element_fragments (bit_units xs) @ tl" for cz xs pd1
  proof -
    have cap: "case None :: nat option of Some c \<Rightarrow> length (left_octets (take 0 xs)) < c | None \<Rightarrow> True" by simp
    have bits: "pd_bits pd1 = element_fragments (drop 0 (bit_units xs)) @ tl" using pd(2) by simp
    have z: "left_octets (take 0 xs) = []" "8 * ((0 + 7) div 8) - 0 = (0 :: nat)" by (simp_all add: left_octets_def)
    from string_fragments_ok [OF units eb dvd_0_right le0 cap pd(1) bits, of "word_of_int (ct_lower_bound cz)", unfolded z]
    obtain pd2 where 2: "string_chunks (\<lambda>_. True) (\<lambda>pd. uper_get_length pd (ct_effective_bits cz) (word_of_int (ct_lower_bound cz)))
       get (\<lambda>n. drop_bit 3 (n + 7)) set_unused None [] 0 pd1 = Some (Inr (left_octets xs, 8 * ((length xs + 7) div 8) - length xs), pd2)"
      "pd_consumes pd1 (element_fragments (bit_units xs)) pd2" by auto
    have c: "\<not> 0 \<le> ct_effective_bits cz" "ct_effective_bits cz \<noteq> 0" using eb by simp_all
    have "body cz pd1 = Some (RC_OK, Some (bs_of_bits xs, 0), pd2)"
      by (simp only: body_def c if_False bind.bind_lunit option.case 2(1) split_conv sum.case not_True_eq_False bs_of_bits_def length_left_octets)
    with 2(2) show ?thesis by blast
  qed
  from h(8) show "\<exists>m pd'. BIT_STRING_decode_uper (\<lambda>_. True) sz ASN_OSUBV_BIT tdc cs pd = Some (RC_OK, Some (w, m), pd') \<and> (0 < m) = c \<and> pd_consumes pd bs pd'"
  proof (cases rule: sized_bitsE)
    case (outside bss)
    from ext [OF outside(5)] outside(3,4) obtain pd1 where 1: "(if ct_has csiz APC_EXTENSIBLE then asn_get_few_bits pd 1 else Some (0, pd)) = Some (1, pd1)"
      "pd_consumes pd (if ct_has csiz APC_EXTENSIBLE then [True] else []) pd1" "pd_inv pd1" "pd_bits pd1 = element_fragments (bit_units bits) @ tl" by auto
    have "ct_effective_bits asn_DEF_BIT_STRING_constraint_size < 0" by (simp add: asn_DEF_BIT_STRING_constraint_size_def)
    from chunks [OF this 1(3,4)] obtain pd2 where
      "body asn_DEF_BIT_STRING_constraint_size pd1 = Some (RC_OK, Some (bs_of_bits bits, 0), pd2)" "pd_consumes pd1 (element_fragments (bit_units bits)) pd2" by blast
    moreover have "\<not> c" "padded = bits" using h(3,9) outside(2) by (auto simp: bs_padded_def)
    ultimately show ?thesis using pd_consumes_trans [OF 1(2)] outside(3) by (simp add: dec 1(1) outside(5) h(10))
  next
    case (unbounded bss)
    from ext [OF unbounded(3)] unbounded(2) obtain pd1 where 1: "(if ct_has csiz APC_EXTENSIBLE then asn_get_few_bits pd 1 else Some (0, pd)) = Some (0, pd1)"
      "pd_consumes pd (if ct_has csiz APC_EXTENSIBLE then [False] else []) pd1" "pd_inv pd1" "pd_bits pd1 = element_fragments (bit_units padded) @ tl" by auto
    from chunks [OF unbounded(1) 1(3,4)] obtain pd2 where
      "body csiz pd1 = Some (RC_OK, Some (bs_of_bits padded, 0), pd2)" "pd_consumes pd1 (element_fragments (bit_units padded)) pd2" by blast
    moreover have "\<not> c" using h(9) unbounded(1) by auto
    ultimately show ?thesis using pd_consumes_trans [OF 1(2)] unbounded(2) by (simp add: dec 1(1) unbounded(3) h(10))
  next
    case (sized e bss)
    define n where "n = length padded"
    define k where "k = nat (int (length bss) - ct_lower_bound csiz)"
    have "bss = bit_units padded" using sized(4) by simp
    then have bss: "bss = bit_units padded" "length bss = n" "concat bss = padded" by (simp_all add: n_def)
    from ext [OF sized(6)] obtain pd1 where 1: "(if ct_has csiz APC_EXTENSIBLE then asn_get_few_bits pd 1 else Some (0, pd)) = Some (0, pd1)"
      "pd_consumes pd (if ct_has csiz APC_EXTENSIBLE then [False] else []) pd1" "pd_inv pd1" "pd_bits pd1 = be_bits e k @ padded @ tl"
      by (auto simp: k_def bss(3))
    have ub: "int n \<le> ct_upper_bound csiz" "ct_upper_bound csiz \<le> 65536" "n \<le> 65536" using sized(5) bss(2) by (simp_all add: size_fits_def)
    define z where "z = drop_bit 3 (ct_upper_bound csiz + 7)"
    have z: "0 \<le> z" "z \<le> 8193" using ub(1,2) by (simp_all add: z_def drop_bit_eq_div)
    have s: "s64 (ct_upper_bound csiz + 7) = Some (ct_upper_bound csiz + 7)" "unat (word_of_int z :: u64) = nat z"
      "unat (word_of_int (z + 1) :: u64) = nat z + 1"
      using z ub(1,2) by (simp_all add: s64_small unat_u64 nat_add_distrib del: of_int_add)
    obtain m pd2 where 2: "body csiz pd1 = Some (RC_OK, Some (w, m), pd2)" "0 < m \<longleftrightarrow> c" "pd_consumes pd1 (be_bits e k @ padded) pd2"
    proof (cases "e = 0")
      case True
      then have u: "ct_upper_bound csiz = int n" using sized(1,5) bss(2) by (simp add: size_fits_def)
      have "n \<le> length (pd_bits pd1)" "take n (pd_bits pd1) = padded" using 1(4) True by (simp_all add: n_def)
      with get_many_bits_left [OF 1(3) this(1)] obtain pd2 where
        3: "asn_get_many_bits pd1 False (int n) = Some (0, left_octets padded, pd2)" "pd_consumes pd1 padded pd2" by auto
      have zn: "nat z = (n + 7) div 8" by (simp add: z_def u drop_bit_eq_div nat_div_distrib)
      have u': "s32 (ct_upper_bound csiz) = Some (int n)" "nat (ct_upper_bound csiz) = n"
        "(8 - (ct_upper_bound csiz AND 7)) AND 7 = int (8 * ((n + 7) div 8) - n)"
        using ub(3) unfolding u flush_pad_octets [symmetric] flush_pad_def and_7_mod_8
        by (simp_all add: s32_def limits_defs zmod_int of_nat_diff)
      have "body csiz pd1 = Some (RC_OK, Some (w, n), pd2)"
        unfolding body_def Let_def s z_def [symmetric] u' bind.bind_lunit using 3(1) True sized(1)
        by (simp add: Let_def s z_def [symmetric] zn u' h(10) bs_of_bits_def n_def [symmetric] del: of_int_add)
      moreover have "0 < n \<longleftrightarrow> c" using h(9) sized(1,3) True by (simp add: n_def)
      ultimately show thesis using 3(2) True by (intro that [of n pd2]) simp_all
    next
      case False
      have "pd_bits pd1 = be_bits e (nat (int (length (bit_units padded)) - ct_lower_bound csiz)) @ concat (bit_units padded) @ tl"
        using 1(4) by (simp add: k_def bss)
      from string_sized_ok [OF units sized(1,2) _ _ _ _ _ 1(3) this, of "nat z + 1"] sized(1,5) ub(3) bss obtain pd2 where
        4: "string_chunks (\<lambda>_. True) (\<lambda>pd. uper_get_length pd (ct_effective_bits csiz) (word_of_int (ct_lower_bound csiz)))
          get (\<lambda>n. drop_bit 3 (n + 7)) set_unused (Some (nat z + 1)) [] 0 pd1 =
          Some (Inr (left_octets padded, 8 * ((n + 7) div 8) - n), pd2)"
        "pd_consumes pd1 (be_bits e k @ padded) pd2" by (auto simp: size_fits_def k_def n_def)
      have "body csiz pd1 = Some (RC_OK, Some (w, 0), pd2)"
        using False sized(1) 4(1) by (simp add: body_def Let_def z_def [symmetric] s h(10) bs_of_bits_def n_def del: of_int_add)
      moreover have "c \<longleftrightarrow> False" using h(9) sized(1) False by auto
      ultimately show thesis using 4(2) by (intro that [of 0 pd2]) simp_all
    qed
    from 2 pd_consumes_trans [OF 1(2) 2(3)] show ?thesis by (simp add: dec 1(1) sized(6) k_def bss(3))
  qed
qed


section \<open>Comparison\<close>

text \<open>Values without trailing zeros are ordered like the numbers of their bits, padded to a common length.\<close>

lemma strip_Cons: "strip (b # bs) = b # bs \<Longrightarrow> strip bs = bs"
  by (metis last_ConsR strip_append strip_last strip_split append_Cons append_Nil append_self_conv last_append
      last_replicate replicate_0 strip_idem strip_zeros list.inject)

lemma strip_be_val: "strip bs = bs \<Longrightarrow> bs \<noteq> [] \<Longrightarrow> 0 < be_val bs"
  by (metis be_val_0_iff gr0I strip_replicate)

lemma stripped_less:
  assumes "strip A = A" "strip B = B" "length A + m = length B + k"
  shows "A < B \<longleftrightarrow> be_val (A @ replicate m False) < be_val (B @ replicate k False)"
  using assms
proof (induction A arbitrary: B)
  case Nil
  have "be_val (B @ replicate k False) = be_val B * 2 ^ k" "be_val ([] @ replicate m False) = 0" by (simp_all add: be_val_append)
  moreover have "[] < B \<longleftrightarrow> B \<noteq> []" by (cases B) simp_all
  moreover have "B \<noteq> [] \<longleftrightarrow> 0 < be_val B" using strip_be_val [OF Nil(2)] by (cases "B = []") simp_all
  ultimately show ?case by (simp only:) simp
next
  case (Cons a A)
  show ?case
  proof (cases B)
    case Nil
    then show ?thesis by simp
  next
    case (Cons b B')
    have len: "length (A @ replicate m False) = length (B' @ replicate k False)" using Cons.prems(3) Cons by simp
    note ih = Cons.IH [OF strip_Cons [OF Cons.prems(1)] strip_Cons [OF Cons.prems(2) [unfolded Cons]]]
    have lt: "be_val (A @ replicate m False) < 2 ^ length (B' @ replicate k False)" "be_val (B' @ replicate k False) < 2 ^ length (B' @ replicate k False)"
      unfolding len [symmetric] by (rule be_val_less, unfold len, rule be_val_less)
    show ?thesis
      using ih Cons.prems(3) lt unfolding Cons append_Cons be_val_Cons len
      by (cases a; cases b) (auto simp del: length_append length_replicate simp: less_bool_def)
  qed
qed

lemma compact_octets:
  assumes "bs_size st' \<le> bs_size st" "bs_mem st' = bs_mem st" "bs_size st' = (length (bs_bits st) + 7) div 8" "bs_size st \<le> length (bs_mem st)"
  shows "take (bs_size st') (bs_mem st') = left_octets (bs_bits st)"
proof (rule octets_bits_inj)
  obtain n where n: "octets_bits (take (bs_size st) (bs_mem st)) = bs_bits st @ replicate n False"
    unfolding bs_bits_def by (rule strip_split)
  define s where "s = bs_size st'"
  have len: "8 * bs_size st = length (bs_bits st) + n" using arg_cong [OF n, of length] assms(4) by simp
  have "octets_bits (take s (bs_mem st)) = take (8 * s) (octets_bits (take (bs_size st) (bs_mem st)))"
    using assms(1) by (simp add: take_octets_bits s_def min_absorb1)
  also have "\<dots> = bs_bits st @ replicate (min (8 * s - length (bs_bits st)) n) False"
    using assms(3) by (simp add: n s_def)
  also have "min (8 * s - length (bs_bits st)) n = 8 * ((length (bs_bits st) + 7) div 8) - length (bs_bits st)"
    using len assms(1,3) by (simp add: s_def)
  finally show "octets_bits (take (bs_size st') (bs_mem st')) = octets_bits (left_octets (bs_bits st))"
    by (simp add: octets_bits_left_octets s_def assms(2))
qed

text \<open>\<open>memcmp\<close> on the common part and then the sizes: the sign of the difference of the padded numbers.\<close>

lemma sgn_scaled: "(a :: int) \<noteq> b \<Longrightarrow> \<bar>c\<bar> < K \<Longrightarrow> sgn ((a - b) * K + c) = sgn (a - b)"
proof (cases "a < b")
  case True
  assume "\<bar>c\<bar> < K"
  moreover from this True have "(a - b) * K \<le> (- 1) * K" by (intro mult_right_mono) auto
  ultimately have "(a - b) * K + c < 0" by linarith
  with True show ?thesis by (simp add: sgn_if)
next
  case False
  assume "a \<noteq> b" "\<bar>c\<bar> < K"
  moreover from this False have "1 * K \<le> (a - b) * K" by (intro mult_right_mono) auto
  ultimately have "0 < (a - b) * K + c" by linarith
  with False \<open>a \<noteq> b\<close> show ?thesis by (simp add: sgn_if)
qed

lemma left_octets_tail:
  assumes "strip B = B" "left_octets B = y1 @ y2" "y2 \<noteq> []"
  shows "0 < octets_val y2"
proof (rule ccontr)
  assume "\<not> 0 < octets_val y2"
  then have "octets_bits y2 = replicate (8 * length y2) False"
    using be_val_0_iff [of "octets_bits y2"] by simp
  then have "octets_bits (left_octets B) = octets_bits y1 @ replicate (8 * length y2) False" using assms(2) by simp
  then have "strip (octets_bits (left_octets B)) = strip (octets_bits y1)" by simp
  moreover have "strip (octets_bits (left_octets B)) = B" unfolding octets_bits_left_octets strip_zeros by (rule assms(1))
  ultimately have "B = strip (octets_bits y1)" by simp
  moreover obtain n where "octets_bits y1 = strip (octets_bits y1) @ replicate n False" by (rule strip_split)
  ultimately have "length B \<le> 8 * length y1" by (metis length_append length_octets_bits le_add1)
  moreover have "(length B + 7) div 8 = length y1 + length y2" using arg_cong [OF assms(2), of length] by simp
  ultimately show False using assms(3) by (cases y2) simp_all
qed

definition pad_diff :: "u8 list \<Rightarrow> u8 list \<Rightarrow> int" where
  "pad_diff x y = int (octets_val x * 256 ^ (length y - length x)) - int (octets_val y * 256 ^ (length x - length y))"

lemma compare_sgn:
  assumes "strip A = A" "strip B = B"
  defines "x \<equiv> left_octets A" and "y \<equiv> left_octets B"
  defines "n \<equiv> min (length x) (length y)"
  defines "ret \<equiv> memcmp (take n x) (take n y)"
  shows "(if ret = 0 then if length x < length y then -1 else if length y < length x then 1 else 0 else ret) = sgn (pad_diff x y)"
proof -
  have m: "ret = sgn (int (octets_val (take n x)) - int (octets_val (take n y)))"
    unfolding ret_def by (rule memcmp_sgn) (simp add: n_def)
  have bound: "\<bar>int (octets_val z)\<bar> < 256 ^ length z" for z using octets_val_less [of z] by (simp flip: of_nat_less_iff)
  show ?thesis
  proof (cases "length x \<le> length y")
    case True
    define z where "z = drop n y"
    have n: "n = length x" "y = take n y @ z" "length z = length y - length x" using True by (simp_all add: n_def z_def)
    have vy: "octets_val y = octets_val (take n y) * 256 ^ length z + octets_val z" by (subst n(2)) (simp add: octets_val_append)
    have d: "pad_diff x y = (int (octets_val (take n x)) - int (octets_val (take n y))) * 256 ^ length z + (- int (octets_val z))"
      using True n by (simp add: pad_diff_def vy left_diff_distrib)
    show ?thesis
    proof (cases "ret = 0")
      case False
      then have "sgn (pad_diff x y) = ret" unfolding d using m bound [of z] by (subst sgn_scaled) (auto simp: sgn_0_0)
      with False show ?thesis by simp
    next
      case zero: True
      then have "pad_diff x y = - int (octets_val z)" unfolding d using m by (simp add: sgn_0_0)
      moreover have "length x < length y \<longleftrightarrow> z \<noteq> []" using n(3) by (simp add: length_greater_0_conv [symmetric] del: length_greater_0_conv)
      moreover have "z \<noteq> [] \<Longrightarrow> 0 < octets_val z" using left_octets_tail [OF assms(2)] n(2) by (simp add: y_def)
      ultimately show ?thesis using zero True by (cases "z = []") (auto simp: sgn_if)
    qed
  next
    case False
    define z where "z = drop n x"
    have n: "n = length y" "x = take n x @ z" "length z = length x - length y" using False by (simp_all add: n_def z_def)
    have vx: "octets_val x = octets_val (take n x) * 256 ^ length z + octets_val z" by (subst n(2)) (simp add: octets_val_append)
    have d: "pad_diff x y = (int (octets_val (take n x)) - int (octets_val (take n y))) * 256 ^ length z + int (octets_val z)"
      using False n by (simp add: pad_diff_def vx left_diff_distrib)
    show ?thesis
    proof (cases "ret = 0")
      case nz: False
      then have "sgn (pad_diff x y) = ret" unfolding d using m bound [of z] by (subst sgn_scaled) (auto simp: sgn_0_0)
      with nz show ?thesis by simp
    next
      case True
      then have "pad_diff x y = int (octets_val z)" unfolding d using m by (simp add: sgn_0_0)
      moreover have "z \<noteq> []" using n(3) False by auto
      moreover have "z \<noteq> [] \<Longrightarrow> 0 < octets_val z" using left_octets_tail [OF assms(1)] n(2) by (simp add: x_def)
      ultimately show ?thesis using True False by (auto simp: sgn_if)
    qed
  qed
qed

lemma pad_diff_less:
  assumes "strip A = A" "strip B = B"
  shows "sgn (pad_diff (left_octets A) (left_octets B)) = (if A < B then -1 else if B < A then 1 else 0)"
proof -
  define x y where "x = left_octets A" and "y = left_octets B"
  define m k where "m = 8 * max (length x) (length y) - length A" and "k = 8 * max (length x) (length y) - length B"
  have la: "length A \<le> 8 * length x" "length B \<le> 8 * length y" by (simp_all add: x_def y_def)
  have p: "octets_val z * 256 ^ (l - length z) = be_val (bs @ replicate (8 * l - length bs) False)" if z: "z = left_octets bs" "length z \<le> l" for z bs l
  proof -
    define j where "j = 8 * length z - length bs"
    have "length bs \<le> 8 * length z" by (simp add: z(1))
    then have e: "8 * l - length bs = j + 8 * (l - length z)" using z(2) by (simp add: j_def)
    have "octets_val z = be_val (bs @ replicate j False)"
      by (metis be_val_octets_bits octets_bits_left_octets z(1) length_left_octets j_def)
    then show ?thesis unfolding e by (simp add: replicate_add be_val_append power_mult power_add mult.assoc)
  qed
  have "octets_val x * 256 ^ (length y - length x) = be_val (A @ replicate m False)"
    "octets_val y * 256 ^ (length x - length y) = be_val (B @ replicate k False)"
  proof -
    have e: "length y - length x = max (length x) (length y) - length x" "length x - length y = max (length x) (length y) - length y"
      by (simp_all add: max_def)
    show "octets_val x * 256 ^ (length y - length x) = be_val (A @ replicate m False)"
      unfolding e(1) m_def by (rule p [OF x_def]) simp
    show "octets_val y * 256 ^ (length x - length y) = be_val (B @ replicate k False)"
      unfolding e(2) k_def by (rule p [OF y_def]) simp
  qed
  moreover have l: "length A + m = length B + k" using la by (simp add: m_def k_def max_def)
  ultimately show ?thesis
    using stripped_less [OF assms l] stripped_less [OF assms(2,1) l [symmetric]]
    by (simp add: pad_diff_def x_def [symmetric] y_def [symmetric] sgn_if)
qed


text \<open>A value that the operations may be applied to.\<close>

definition bs_valid :: "BIT_STRING \<Rightarrow> bool" where
  "bs_valid st \<longleftrightarrow> bs_size st \<le> length (bs_mem st) \<and> (bs_size st = 0 \<longrightarrow> bs_unused st = 0)"

lemma bs_bits_stripped: "strip (bs_bits st) = bs_bits st"
  by (simp add: bs_bits_def)

text \<open>
  The ASN.1 value leaves the unused bits out. It is the data that the comparison reads when those
  bits are zero, as they are in DER and after \<open>BIT_STRING_decode_uper\<close>; BER lets them have any value.
\<close>

definition bs_value :: "BIT_STRING \<Rightarrow> bool list" where
  "bs_value st = strip (take (8 * bs_size st - nat (bs_unused st)) (octets_bits (take (bs_size st) (bs_mem st))))"

definition bs_clean :: "BIT_STRING \<Rightarrow> bool" where
  "bs_clean st \<longleftrightarrow> True \<notin> set (drop (8 * bs_size st - nat (bs_unused st)) (octets_bits (take (bs_size st) (bs_mem st))))"

lemma bs_clean_value: "bs_clean st \<Longrightarrow> bs_value st = bs_bits st"
proof -
  define bs where "bs = octets_bits (take (bs_size st) (bs_mem st))"
  define n where "n = 8 * bs_size st - nat (bs_unused st)"
  assume "bs_clean st"
  then have "True \<notin> set (drop n bs)" by (simp add: bs_clean_def bs_def n_def)
  then have "drop n bs = replicate (length (drop n bs)) False" by (intro replicate_eqI) (metis (full_types))+
  then have "strip bs = strip (take n bs)" by (metis append_take_drop_id strip_zeros)
  then show ?thesis by (simp add: bs_value_def bs_bits_def bs_def n_def)
qed

definition lex_order :: "bool list \<Rightarrow> bool list \<Rightarrow> int" where
  "lex_order xs ys = (if xs < ys then -1 else if ys < xs then 1 else 0)"

lemma compare_data:
  assumes "bs_valid a" "bs_valid b"
  shows "BIT_STRING_compare (Some ASN_OSUBV_BIT) (Some a) (Some b) = Some (lex_order (bs_bits a) (bs_bits b))"
proof -
  from assms have v: "bs_size a \<le> length (bs_mem a)" "bs_size a = 0 \<longrightarrow> bs_unused a = 0"
    "bs_size b \<le> length (bs_mem b)" "bs_size b = 0 \<longrightarrow> bs_unused b = 0" by (simp_all add: bs_valid_def)
  from compactify_ok [OF v(1,2)] obtain a' where a: "BIT_STRING_compactify a = Some a'"
    "8 * int (bs_size a') - bs_unused a' = int (length (bs_bits a))" "bs_mem a' = bs_mem a" "bs_size a' = (length (bs_bits a) + 7) div 8"
    "bs_size a' \<le> bs_size a" by blast
  from compactify_ok [OF v(3,4)] obtain b' where b: "BIT_STRING_compactify b = Some b'"
    "8 * int (bs_size b') - bs_unused b' = int (length (bs_bits b))" "bs_mem b' = bs_mem b" "bs_size b' = (length (bs_bits b) + 7) div 8"
    "bs_size b' \<le> bs_size b" by blast
  define x y where "x = left_octets (bs_bits a)" and "y = left_octets (bs_bits b)"
  have x: "take (bs_size a') (bs_mem a') = x" "length x = bs_size a'" using compact_octets [OF a(5,3,4) v(1)] a(4) by (simp_all add: x_def)
  have y: "take (bs_size b') (bs_mem b') = y" "length y = bs_size b'" using compact_octets [OF b(5,3,4) v(3)] b(4) by (simp_all add: y_def)
  define n where "n = min (length x) (length y)"
  have ld: "mem_load (bs_mem a') 0 n = Some (take n x)" "mem_load (bs_mem b') 0 n = Some (take n y)"
    using x y a(3,5) b(3,5) v(1,3) by (auto simp: mem_load_def n_def simp flip: x(1) y(1))
  define ret where "ret = memcmp (take n x) (take n y)"
  have sgn: "(if ret = 0 then if length x < length y then -1 else if length y < length x then 1 else 0 else ret) =
      lex_order (bs_bits a) (bs_bits b)"
    unfolding ret_def n_def x_def y_def lex_order_def
    by (rule trans [OF compare_sgn pad_diff_less]) (rule bs_bits_stripped)+
  have cmp: "BIT_STRING_compare (Some ASN_OSUBV_BIT) (Some a) (Some b) = Some (if ret = 0 then if bs_size a' < bs_size b' then -1 else if bs_size b' < bs_size a' then 1
      else if bs_unused b' < bs_unused a' then -1 else if bs_unused a' < bs_unused b' then 1 else 0 else ret)"
    using ld by (simp add: BIT_STRING_compare_def a(1) b(1) Let_def bs_mem_def [symmetric] n_def x(2) y(2) ret_def)
  have eq: "bs_unused a' = bs_unused b'" if "ret = 0" "bs_size a' = bs_size b'"
  proof -
    have "\<not> bs_bits a < bs_bits b" "\<not> bs_bits b < bs_bits a" using sgn that x(2) y(2) by (auto simp: lex_order_def split: if_splits)
    then have "bs_bits a = bs_bits b" by simp
    with a(2) b(2) that(2) show ?thesis by simp
  qed
  show ?thesis unfolding cmp sgn [symmetric] x(2) y(2) using eq by auto
qed

lemma be_bits_8:
  "be_bits 8 v = [odd (v div 128), odd (v div 64), odd (v div 32), odd (v div 16), odd (v div 8), odd (v div 4), odd (v div 2), odd v]"
  by (simp add: be_bits_rec div_mult2_eq [symmetric])

text \<open>
  C11: \<open>BIT_STRING_compare\<close> orders the data of two BIT STRINGs as lists of bits, lexicographically, when
  trailing zeros are disregarded: the octets, the sizes and the counts of unused bits that it looks
  at after both operands were compacted decide as the first bit does in which the data differ. When the
  unused bits of both operands are zero this is the order of the ASN.1 values. When they are not,
  they are compared as data: operands of the same value whose unused bits differ are unequal.
\<close>

theorem bit_string_compare_order:
  assumes "bs_valid a" "bs_valid b"
  shows "BIT_STRING_compare (Some ASN_OSUBV_BIT) (Some a) (Some b) = Some (lex_order (bs_bits a) (bs_bits b)) \<and>
    (bs_clean a \<and> bs_clean b \<longrightarrow>
      BIT_STRING_compare (Some ASN_OSUBV_BIT) (Some a) (Some b) = Some (lex_order (bs_value a) (bs_value b)))"
  using compare_data [OF assms] by (simp add: bs_clean_value)

text \<open>
  The clean values \<open>'101'B\<close> and \<open>'101010'B\<close> in order, and the value \<open>'1010'B\<close> with a set bit among
  its four unused ones against the same value with none: greater.
\<close>

lemma sample_bit_strings:
  "bs_value \<lparr>bs_buf = Some [0xA0, 0x00], bs_size = 2, bs_unused = 3\<rparr> = [True, False, True]"
  "bs_value \<lparr>bs_buf = Some [0xA8], bs_size = 1, bs_unused = 2\<rparr> = [True, False, True, False, True]"
  "bs_value \<lparr>bs_buf = Some [0xA1], bs_size = 1, bs_unused = 4\<rparr> = [True, False, True]"
  "bs_value \<lparr>bs_buf = Some [0xA0], bs_size = 1, bs_unused = 4\<rparr> = [True, False, True]"
  "bs_bits \<lparr>bs_buf = Some [0xA0, 0x00], bs_size = 2, bs_unused = 3\<rparr> = [True, False, True]"
  "bs_bits \<lparr>bs_buf = Some [0xA8], bs_size = 1, bs_unused = 2\<rparr> = [True, False, True, False, True]"
  "bs_bits \<lparr>bs_buf = Some [0xA1], bs_size = 1, bs_unused = 4\<rparr> = [True, False, True, False, False, False, False, True]"
  "bs_bits \<lparr>bs_buf = Some [0xA0], bs_size = 1, bs_unused = 4\<rparr> = [True, False, True]"
  "bs_clean \<lparr>bs_buf = Some [0xA0, 0x00], bs_size = 2, bs_unused = 3\<rparr>"
  "bs_clean \<lparr>bs_buf = Some [0xA8], bs_size = 1, bs_unused = 2\<rparr>"
  by (simp_all add: bs_value_def bs_bits_def bs_clean_def bs_mem_def octets_bits_Cons be_bits_8 strip_def del: be_bits_0)

theorem bit_string_compare_order_witness:
  "BIT_STRING_compare (Some ASN_OSUBV_BIT) (Some \<lparr>bs_buf = Some [0xA0, 0x00], bs_size = 2, bs_unused = 3\<rparr>)
     (Some \<lparr>bs_buf = Some [0xA8], bs_size = 1, bs_unused = 2\<rparr>) = Some (-1) \<and>
   BIT_STRING_compare (Some ASN_OSUBV_BIT) (Some \<lparr>bs_buf = Some [0xA1], bs_size = 1, bs_unused = 4\<rparr>)
     (Some \<lparr>bs_buf = Some [0xA0], bs_size = 1, bs_unused = 4\<rparr>) = Some 1 \<and>
   bs_value \<lparr>bs_buf = Some [0xA1], bs_size = 1, bs_unused = 4\<rparr> = bs_value \<lparr>bs_buf = Some [0xA0], bs_size = 1, bs_unused = 4\<rparr>"
proof -
  have v: "bs_valid \<lparr>bs_buf = Some [0xA0, 0x00], bs_size = 2, bs_unused = 3\<rparr>" "bs_valid \<lparr>bs_buf = Some [0xA8], bs_size = 1, bs_unused = 2\<rparr>"
    "bs_valid \<lparr>bs_buf = Some [0xA1], bs_size = 1, bs_unused = 4\<rparr>" "bs_valid \<lparr>bs_buf = Some [0xA0], bs_size = 1, bs_unused = 4\<rparr>"
    by (simp_all add: bs_valid_def bs_mem_def)
  show ?thesis
    using bit_string_compare_order [OF v(1,2)] bit_string_compare_order [OF v(3,4)] by (simp add: sample_bit_strings lex_order_def del: One_nat_def)
qed

end
