(* ===== verification/Uper_Schema.thy ===== *)
theory Uper_Schema
  imports Uper_Sequence Uper_Bit_String
begin

unbundle bit_operations_syntax

text \<open>
  The composition: types built from the simple types, strings, SEQUENCE OF, CHOICE and SEQUENCE in any nesting,
  each with the operations table that its type descriptor names (\<open>asn_TYPE_operation_t\<close> of
  \<open>skeletons/constr_TYPE.h\<close>). One theorem says that every such type is a codec; two more relate the
  versions of an extensible SEQUENCE.
\<close>

section \<open>Types and values\<close>

text \<open>
  The values: a native integer (also a BOOLEAN, a NULL, an ENUMERATED), a string of octets or characters, a
  string of bits, the elements of a list, the alternative of a choice behind its presence index, the slots
  of a structure.
\<close>

datatype asn_value =
    VInt int
  | VOctets OCTET_STRING
  | VBits BIT_STRING
  | VList "asn_value list"
  | VChoice nat "asn_value option"
  | VSequence "asn_value option list"

text \<open>An entry of the table of members: its flags, its default and its type.\<close>

datatype 't asn_member = Member (mb_pointer: bool) (mb_optional: bool) (mb_default: "asn_value option") (mb_type: 't)

datatype per_type =
    TBoolean
  | TNull
  | TNativeInteger asn_TYPE_descriptor "asn_per_constraints option"
  | TNativeEnumerated asn_TYPE_descriptor "asn_per_constraints option"
  | TOctetString os_subvariant "asn_per_constraints option" "asn_per_constraints option"
  | TBitString "asn_per_constraints option" "asn_per_constraints option"
  | TSequenceOf "asn_per_constraints option" "asn_per_constraints option" per_type
  | TChoice asn_CHOICE_specifics "asn_per_constraints option" "asn_per_constraints option" "per_type list"
  | TSequence asn_SEQUENCE_specifics "per_type asn_member list"

lemma member_type_size [termination_simp]:
  "m \<in> set ms \<Longrightarrow> size (mb_type m) < Suc (size_list (size_asn_member size) ms)"
proof (induction ms)
  case (Cons a ms)
  then show ?case by (cases a) auto
qed simp

text \<open>What zeroed memory means as a value of a type.\<close>

fun zero_value :: "per_type \<Rightarrow> asn_value" where
  "zero_value (TOctetString sub tdc cs) = VOctets \<lparr>os_buf = None, os_size = 0\<rparr>"
| "zero_value (TBitString tdc cs) = VBits \<lparr>bs_buf = None, bs_size = 0, bs_unused = 0\<rparr>"
| "zero_value (TSequenceOf tdc cs t) = VList []"
| "zero_value (TChoice specs tdc cs ts) = VChoice 0 None"
| "zero_value (TSequence specs ms) = VSequence (map (\<lambda>m. if mb_pointer m then None else Some (zero_value (mb_type m))) ms)"
| "zero_value _ = VInt 0"

text \<open>\<open>asn_TYPE_operation_t\<close>, the part that unaligned PER uses.\<close>

record asn_TYPE_operation =
  op_uper_decoder :: "asn_value per_decoder"
  op_uper_encoder :: "(asn_value, enc_dyn_arg) uper_encoder"

text \<open>The generated comparison with a default looks at the contents of a string.\<close>

definition same_value :: "asn_value \<Rightarrow> asn_value \<Rightarrow> bool" where
  "same_value d v =
     (case (d, v) of
        (VOctets a, VOctets b) \<Rightarrow> os_size a = os_size b \<and> take (os_size a) (os_mem a) = take (os_size b) (os_mem b)
      | _ \<Rightarrow> v = d)"

definition type_member :: "bool \<Rightarrow> bool \<Rightarrow> asn_value option \<Rightarrow> asn_value \<Rightarrow> asn_TYPE_operation \<Rightarrow> (asn_value, enc_dyn_arg) asn_TYPE_member" where
  "type_member pointer optional dflt zero ops =
     \<lparr>elm_pointer = pointer, elm_optional = optional, elm_zero = zero,
      elm_default_cmp = map_option (\<lambda>d v. if same_value d v then 0 else 1) dflt,
      elm_default_set = map_option (\<lambda>d slot. (0, Some d)) dflt,
      elm_decoder = op_uper_decoder ops, elm_open_type_get = None,
      elm_encoder = op_uper_encoder ops, elm_open_encoder = op_uper_encoder ops\<rparr>"

definition viewed :: "('v \<Rightarrow> asn_value) \<Rightarrow> 'v per_decoder \<Rightarrow> asn_value per_decoder" where
  "viewed f decoder pd = do {
     (code, v, pd) \<leftarrow> decoder pd;
     Some (code, map_option (\<lambda>(w, n). (f w, n)) v, pd) }"

definition VList_of :: "asn_value asn_anonymous_set \<Rightarrow> asn_value" where
  "VList_of list = VList (as_elems list)"

definition VChoice_of :: "asn_value choice_struct \<Rightarrow> asn_value" where
  "VChoice_of st = VChoice (ch_present st) (ch_memb st)"

text \<open>Which decoder and encoder the operations table of a type names; a value of another type is no argument of them.\<close>

fun uper_ops :: "per_type \<Rightarrow> asn_TYPE_operation" where
  "uper_ops TBoolean =
     \<lparr>op_uper_decoder = viewed VInt (counted 0 (BOOLEAN_decode_uper (\<lambda>_. True))),
      op_uper_encoder = (\<lambda>v po. case v of VInt i \<Rightarrow> BOOLEAN_encode_uper i po | _ \<Rightarrow> None)\<rparr>"
| "uper_ops TNull =
     \<lparr>op_uper_decoder = viewed VInt (counted 0 (NULL_decode_uper (\<lambda>_. True))),
      op_uper_encoder = (\<lambda>v po. case v of VInt i \<Rightarrow> NULL_encode_uper i po | _ \<Rightarrow> None)\<rparr>"
| "uper_ops (TNativeInteger td cs) =
     \<lparr>op_uper_decoder = viewed VInt (counted 0 (NativeInteger_decode_uper (\<lambda>_. True) td cs)),
      op_uper_encoder = (\<lambda>v po. case v of VInt i \<Rightarrow> NativeInteger_encode_uper (\<lambda>_. True) td cs i po | _ \<Rightarrow> None)\<rparr>"
| "uper_ops (TNativeEnumerated td cs) =
     \<lparr>op_uper_decoder = viewed VInt (counted 0 (NativeEnumerated_decode_uper (\<lambda>_. True) td cs)),
      op_uper_encoder = (\<lambda>v po. case v of VInt i \<Rightarrow> NativeEnumerated_encode_uper td cs i po | _ \<Rightarrow> None)\<rparr>"
| "uper_ops (TOctetString sub tdc cs) =
     \<lparr>op_uper_decoder = viewed VOctets (OCTET_STRING_decode_uper (\<lambda>_. True) 40 sub tdc cs),
      op_uper_encoder = (\<lambda>v po. case v of VOctets st \<Rightarrow> OCTET_STRING_encode_uper sub tdc cs st po | _ \<Rightarrow> None)\<rparr>"
| "uper_ops (TBitString tdc cs) =
     \<lparr>op_uper_decoder = viewed VBits (BIT_STRING_decode_uper (\<lambda>_. True) 48 ASN_OSUBV_BIT tdc cs),
      op_uper_encoder = (\<lambda>v po. case v of VBits st \<Rightarrow> BIT_STRING_encode_uper ASN_OSUBV_BIT tdc cs st po | _ \<Rightarrow> None)\<rparr>"
| "uper_ops (TSequenceOf tdc cs t) =
     \<lparr>op_uper_decoder = viewed VList_of (SET_OF_decode_uper True (\<lambda>_. True) 24 tdc cs (op_uper_decoder (uper_ops t))),
      op_uper_encoder = (\<lambda>v po. case v of
         VList vs \<Rightarrow> SEQUENCE_OF_encode_uper tdc cs (op_uper_encoder (uper_ops t)) (set_of_list vs) po | _ \<Rightarrow> None)\<rparr>"
| "uper_ops (TChoice specs tdc cs ts) =
     (let elements = map (\<lambda>t. type_member False False None (zero_value t) (uper_ops t)) ts in
      \<lparr>op_uper_decoder = viewed VChoice_of (CHOICE_decode_uper True (\<lambda>_. True) specs elements tdc cs),
       op_uper_encoder = (\<lambda>v po. case v of
          VChoice present memb \<Rightarrow> CHOICE_encode_uper (\<lambda>_. True) specs elements tdc cs \<lparr>ch_present = present, ch_memb = memb\<rparr> po
        | _ \<Rightarrow> None)\<rparr>)"
| "uper_ops (TSequence specs ms) =
     (let elements = map (\<lambda>m. type_member (mb_pointer m) (mb_optional m) (mb_default m) (zero_value (mb_type m)) (uper_ops (mb_type m))) ms in
      \<lparr>op_uper_decoder = viewed VSequence (SEQUENCE_decode_uper True (\<lambda>_. True) specs elements),
       op_uper_encoder = (\<lambda>v po. case v of
          VSequence slots \<Rightarrow> SEQUENCE_encode_uper (\<lambda>_. True) specs elements slots po | _ \<Rightarrow> None)\<rparr>)"


section \<open>The coding of a value\<close>

text \<open>
  X.691 for these types: the bits of a value, whether its decoder reports octets consumed, and the
  value that is read back, which has the default in place of an absent member. \<open>None\<close> when the type does
  not allow the value. A member that is left out has no coding.
\<close>

definition int_coding :: "(int \<Rightarrow> bool list option) \<Rightarrow> (int \<Rightarrow> int) \<Rightarrow> asn_value \<Rightarrow> asn_value coding option" where
  "int_coding bits norm v = (case v of VInt i \<Rightarrow> map_option (\<lambda>bs. (bs, False, VInt (norm i))) (bits i) | _ \<Rightarrow> None)"

definition octets_coding :: "(OCTET_STRING \<Rightarrow> OCTET_STRING coding option) \<Rightarrow> asn_value \<Rightarrow> asn_value coding option" where
  "octets_coding coding v = (case v of VOctets st \<Rightarrow> map_option (\<lambda>(bs, c, w). (bs, c, VOctets w)) (coding st) | _ \<Rightarrow> None)"

definition bits_coding :: "(BIT_STRING \<Rightarrow> BIT_STRING coding option) \<Rightarrow> asn_value \<Rightarrow> asn_value coding option" where
  "bits_coding coding v = (case v of VBits st \<Rightarrow> map_option (\<lambda>(bs, c, w). (bs, c, VBits w)) (coding st) | _ \<Rightarrow> None)"

definition list_coding :: "asn_per_constraint option \<Rightarrow> (asn_value \<Rightarrow> asn_value coding option) \<Rightarrow> asn_value \<Rightarrow> asn_value coding option" where
  "list_coding ct coding v =
     (case v of
        VList vs \<Rightarrow> do {
          xs \<leftarrow> those (map coding vs);
          bs \<leftarrow> list_bits ct (map fst xs);
          if list_readable xs then Some (bs, False, VList (coded_values xs)) else None }
      | _ \<Rightarrow> None)"

definition choice_coding ::
  "asn_CHOICE_specifics \<Rightarrow> asn_per_constraint option \<Rightarrow> (asn_value \<Rightarrow> asn_value coding option) list \<Rightarrow> asn_value \<Rightarrow> asn_value coding option" where
  "choice_coding specs ct codings v =
     (case v of
        VChoice (Suc p) (Some memb) \<Rightarrow>
          if p < length codings \<and> canonical_order_ok specs p
          then do {
            (bs, c, w) \<leftarrow> (codings ! p) memb;
            xs \<leftarrow> choice_bits specs (length codings) ct p bs;
            Some (xs, c, VChoice (Suc p) (Some w)) }
          else None
      | _ \<Rightarrow> None)"

text \<open>The coding of a member, when it may be left out and when it is.\<close>

definition root_coding :: "(asn_value, 'k) asn_TYPE_member \<Rightarrow> (asn_value \<Rightarrow> asn_value coding option) \<Rightarrow> asn_value option \<Rightarrow>
    asn_value coding option option" where
  "root_coding elm coding slot =
     (case slot of
        Some v \<Rightarrow> if is_default elm v then (if elm_optional elm then Some None else None) else map_option Some (coding v)
      | None \<Rightarrow> if elm_optional elm then Some None else None)"

definition addition_coding :: "(asn_value, 'k) asn_TYPE_member \<Rightarrow> (asn_value \<Rightarrow> asn_value coding option) \<Rightarrow> asn_value option \<Rightarrow>
    asn_value coding option option" where
  "addition_coding elm coding slot =
     (case slot of Some v \<Rightarrow> map_option Some (coding v) | None \<Rightarrow> if elm_pointer elm then Some None else None)"

definition members_coding ::
  "asn_SEQUENCE_specifics \<Rightarrow> (asn_value, 'k) asn_TYPE_member list \<Rightarrow> (asn_value \<Rightarrow> asn_value coding option) list \<Rightarrow> asn_value option list \<Rightarrow>
    asn_value coding option list option" where
  "members_coding specs E codings slots =
     (if length slots = length E
      then those (map (\<lambda>i. (if i < root_count specs E then root_coding else addition_coding) (E ! i) (codings ! i) (slots ! i)) [0..<length E])
      else None)"

definition sequence_coding ::
  "asn_SEQUENCE_specifics \<Rightarrow> (asn_value, 'k) asn_TYPE_member list \<Rightarrow> (asn_value \<Rightarrow> asn_value coding option) list \<Rightarrow> asn_value \<Rightarrow>
    asn_value coding option" where
  "sequence_coding specs E codings v =
     (case v of
        VSequence slots \<Rightarrow>
          if sequence_ok specs E
          then do {
            X \<leftarrow> members_coding specs E codings slots;
            Some (sequence_bits specs E X, False, VSequence (read_slots E X)) }
          else None
      | _ \<Rightarrow> None)"

definition choice_members :: "per_type list \<Rightarrow> (asn_value, enc_dyn_arg) asn_TYPE_member list" where
  "choice_members ts = map (\<lambda>t. type_member False False None (zero_value t) (uper_ops t)) ts"

definition sequence_members :: "per_type asn_member list \<Rightarrow> (asn_value, enc_dyn_arg) asn_TYPE_member list" where
  "sequence_members ms =
     map (\<lambda>m. type_member (mb_pointer m) (mb_optional m) (mb_default m) (zero_value (mb_type m)) (uper_ops (mb_type m))) ms"

fun type_coding :: "per_type \<Rightarrow> asn_value \<Rightarrow> asn_value coding option" where
  "type_coding TBoolean = int_coding (\<lambda>i. Some [i \<noteq> 0]) (\<lambda>i. of_bool (i \<noteq> 0))"
| "type_coding TNull = int_coding (\<lambda>i. Some []) (\<lambda>i. 0)"
| "type_coding (TNativeInteger td cs) = int_coding (native_bits td cs) id"
| "type_coding (TNativeEnumerated td cs) = int_coding (enum_bits td cs) id"
| "type_coding (TOctetString sub tdc cs) = octets_coding (octet_string_coding sub tdc cs)"
| "type_coding (TBitString tdc cs) = bits_coding (bit_string_coding tdc cs)"
| "type_coding (TSequenceOf tdc cs t) = list_coding (size_constraint tdc cs) (type_coding t)"
| "type_coding (TChoice specs tdc cs ts) = choice_coding specs (choice_constraint tdc cs) (map (\<lambda>t. type_coding t) ts)"
| "type_coding (TSequence specs ms) = sequence_coding specs (sequence_members ms) (map (\<lambda>m. type_coding (mb_type m)) ms)"

section \<open>Every type is a codec\<close>

text \<open>The contract of an operations table: the encoder writes the coding, the decoder reads it.\<close>

definition codec_for :: "asn_TYPE_operation \<Rightarrow> (asn_value \<Rightarrow> asn_value coding option) \<Rightarrow> bool" where
  "codec_for ops coding \<longleftrightarrow> (\<forall>v bs c w. coding v = Some (bs, c, w) \<longrightarrow>
     writes (op_uper_encoder ops) v bs \<and> reads (op_uper_decoder ops) (bs, c, w))"

lemma codec_forD:
  "codec_for ops coding \<Longrightarrow> coding v = Some (bs, c, w) \<Longrightarrow> writes (op_uper_encoder ops) v bs"
  "codec_for ops coding \<Longrightarrow> coding v = Some (bs, c, w) \<Longrightarrow> reads (op_uper_decoder ops) (bs, c, w)"
  by (simp_all add: codec_for_def)

lemma reads_viewed: "reads dec (bs, c, w) \<Longrightarrow> reads (viewed f dec) (bs, c, f w)"
  unfolding reads_def viewed_def by fastforce

lemma int_codec:
  assumes "\<And>i bs. bits i = Some bs \<Longrightarrow> writes enc i bs" "\<And>i bs. bits i = Some bs \<Longrightarrow> reads dec (bs, False, norm i)"
  shows "codec_for \<lparr>op_uper_decoder = viewed VInt dec, op_uper_encoder = (\<lambda>v po. case v of VInt i \<Rightarrow> enc i po | _ \<Rightarrow> None)\<rparr>
    (int_coding bits norm)"
  unfolding codec_for_def
proof (intro allI impI)
  fix v bs c w assume "int_coding bits norm v = Some (bs, c, w)"
  then obtain i where i: "v = VInt i" "bits i = Some bs" "c = False" "w = VInt (norm i)"
    by (auto simp: int_coding_def split: asn_value.splits)
  from assms(1) [OF i(2)] reads_viewed [OF assms(2) [OF i(2)], of VInt]
  show "writes (op_uper_encoder \<lparr>op_uper_decoder = viewed VInt dec, op_uper_encoder = (\<lambda>v po. case v of VInt i \<Rightarrow> enc i po | _ \<Rightarrow> None)\<rparr>) v bs \<and>
    reads (op_uper_decoder \<lparr>op_uper_decoder = viewed VInt dec, op_uper_encoder = (\<lambda>v po. case v of VInt i \<Rightarrow> enc i po | _ \<Rightarrow> None)\<rparr>) (bs, c, w)"
    by (simp add: i writes_def)
qed


lemma octets_codec:
  assumes "\<And>st bs c w. coding st = Some (bs, c, w) \<Longrightarrow> writes enc st bs" "\<And>st bs c w. coding st = Some (bs, c, w) \<Longrightarrow> reads dec (bs, c, w)"
  shows "codec_for \<lparr>op_uper_decoder = viewed VOctets dec, op_uper_encoder = (\<lambda>v po. case v of VOctets st \<Rightarrow> enc st po | _ \<Rightarrow> None)\<rparr>
    (octets_coding coding)"
  unfolding codec_for_def octets_coding_def
  using assms reads_viewed [of dec _ _ _ VOctets] by (auto simp: writes_def split: asn_value.splits)

lemma bits_codec:
  assumes "\<And>st bs c w. coding st = Some (bs, c, w) \<Longrightarrow> writes enc st bs" "\<And>st bs c w. coding st = Some (bs, c, w) \<Longrightarrow> reads dec (bs, c, w)"
  shows "codec_for \<lparr>op_uper_decoder = viewed VBits dec, op_uper_encoder = (\<lambda>v po. case v of VBits st \<Rightarrow> enc st po | _ \<Rightarrow> None)\<rparr>
    (bits_coding coding)"
  unfolding codec_for_def bits_coding_def
  using assms reads_viewed [of dec _ _ _ VBits] by (auto simp: writes_def split: asn_value.splits)

lemma those_Some: "those xs = Some ys \<longleftrightarrow> xs = map Some ys"
proof (induction xs arbitrary: ys)
  case (Cons x xs)
  then show ?case by (cases ys) (auto split: option.splits)
qed auto

lemma boolean_codes:
  "writes BOOLEAN_encode_uper i [i \<noteq> 0]" "reads (counted 0 (BOOLEAN_decode_uper (\<lambda>_. True))) ([i \<noteq> 0], False, of_bool (i \<noteq> 0))"
proof -
  show "writes BOOLEAN_encode_uper i [i \<noteq> 0]"
    using uper_codec.encodes [OF dyn.boolean_codec, of i "[i \<noteq> 0]"] by (simp add: writes_def)
  show "reads (counted 0 (BOOLEAN_decode_uper (\<lambda>_. True))) ([i \<noteq> 0], False, of_bool (i \<noteq> 0))"
    unfolding reads_def fst_conv snd_conv
  proof (intro allI impI)
    fix pd :: bit_data and rest assume "pd_inv pd" "pd_bits pd = [i \<noteq> 0] @ rest"
    with Uper_Types.get_bit [of pd "i \<noteq> 0" rest] obtain pd' where
      "asn_get_few_bits pd 1 = Some (of_bool (i \<noteq> 0), pd')" "pd_consumes pd [i \<noteq> 0] pd'" by auto
    then show "\<exists>n pd'. counted 0 (BOOLEAN_decode_uper (\<lambda>_. True)) pd = Some (RC_OK, Some (of_bool (i \<noteq> 0), n), pd') \<and>
        (0 < n) = False \<and> pd_consumes pd [i \<noteq> 0] pd'"
      by (cases "i = 0") (simp_all add: counted_def BOOLEAN_decode_uper_def)
  qed
qed

lemma null_codes: "writes NULL_encode_uper i []" "reads (counted 0 (NULL_decode_uper (\<lambda>_. True))) ([], False, 0)"
  using uper_codec.encodes [OF dyn.null_codec, where v = i and bs = "[]"]
  by (auto simp: writes_def reads_def counted_def NULL_decode_uper_def)

lemma enum_writes: "enum_bits td cs i = Some bs \<Longrightarrow> writes (NativeEnumerated_encode_uper td cs) i bs"
  using uper_codec.encodes [OF dyn.enum_codec] by (auto simp: writes_def)

lemma list_codec:
  assumes "codec_for ops coding"
  shows "codec_for
    \<lparr>op_uper_decoder = viewed VList_of (SET_OF_decode_uper True (\<lambda>_. True) sz tdc cs (op_uper_decoder ops)),
     op_uper_encoder = (\<lambda>v po. case v of
       VList vs \<Rightarrow> SEQUENCE_OF_encode_uper tdc cs (op_uper_encoder ops) (set_of_list vs) po | _ \<Rightarrow> None)\<rparr>
    (list_coding (size_constraint tdc cs) coding)" (is "codec_for ?ops _")
  unfolding codec_for_def
proof (intro allI impI)
  fix v bs c w assume "list_coding (size_constraint tdc cs) coding v = Some (bs, c, w)"
  then obtain vs xs where v: "v = VList vs" "map coding vs = map Some xs" "list_bits (size_constraint tdc cs) (map fst xs) = Some bs"
    "list_readable xs" "c = False" "w = VList (coded_values xs)"
    by (auto simp: list_coding_def those_Some split: asn_value.splits bind_splits if_splits)
  have codes: "list_all2 (\<lambda>v x. coding v = Some x) vs xs" using v(2) by (simp add: list_all2_conv_all_nth list_eq_iff_nth_eq)
  have "length vs = length xs" using list_all2_lengthD [OF codes] .
  then have inv: "as_inv (set_of_list vs)" "as_elems (set_of_list vs) = vs"
    using v(4) by (auto intro!: set_of_list simp: list_readable_def limits_defs)
  have "list_all2 (writes (op_uper_encoder ops)) vs (map fst xs)"
    unfolding list.rel_map using codes by (rule list_all2_mono) (use codec_forD(1) [OF assms] in force)
  with sequence_of_encode_ok [OF _ inv(1) v(3)] inv(2)
  have w: "writes (SEQUENCE_OF_encode_uper tdc cs (op_uper_encoder ops)) (set_of_list vs) bs" by simp
  have "\<forall>x\<in>set xs. reads (op_uper_decoder ops) x"
    using codes codec_forD(2) [OF assms] by (fastforce simp: list_all2_conv_all_nth in_set_conv_nth)
  from set_of_decode_ok [OF this v(4,3), of _ _ sz]
  have r: "reads (viewed VList_of (SET_OF_decode_uper True (\<lambda>_. True) sz tdc cs (op_uper_decoder ops))) (bs, False, w)"
    by (fastforce simp: reads_def viewed_def VList_of_def v(6))
  show "writes (op_uper_encoder ?ops) v bs \<and> reads (op_uper_decoder ?ops) (bs, c, w)"
    using w r by (simp add: v(1,5) writes_def)
qed

lemma choice_codec:
  assumes "length codings = length E"
    and "\<And>p. p < length E \<Longrightarrow> codec_for \<lparr>op_uper_decoder = elm_decoder (E ! p), op_uper_encoder = elm_encoder (E ! p)\<rparr> (codings ! p)"
    and "\<And>p. p < length E \<Longrightarrow> elm_open_encoder (E ! p) = elm_encoder (E ! p)"
  shows "codec_for
    \<lparr>op_uper_decoder = viewed VChoice_of (CHOICE_decode_uper True (\<lambda>_. True) specs E tdc cs),
     op_uper_encoder = (\<lambda>v po. case v of
        VChoice present memb \<Rightarrow> CHOICE_encode_uper (\<lambda>_. True) specs E tdc cs \<lparr>ch_present = present, ch_memb = memb\<rparr> po
      | _ \<Rightarrow> None)\<rparr>
    (choice_coding specs (choice_constraint tdc cs) codings)" (is "codec_for ?ops _")
  unfolding codec_for_def
proof (intro allI impI)
  fix v xs c w' assume a: "choice_coding specs (choice_constraint tdc cs) codings v = Some (xs, c, w')"
  then obtain p memb where v: "v = VChoice (Suc p) (Some memb)"
    by (auto simp: choice_coding_def split: asn_value.splits nat.splits option.splits)
  from a obtain bs w where h: "p < length codings" "canonical_order_ok specs p" "(codings ! p) memb = Some (bs, c, w)"
    "choice_bits specs (length codings) (choice_constraint tdc cs) p bs = Some xs" "w' = VChoice (Suc p) (Some w)"
    by (auto simp: choice_coding_def v split: bind_splits if_splits)
  have p: "p < length E" using h(1) assms(1) by simp
  note m = codec_forD [OF assms(2) [OF p] h(3), simplified]
  from choice_codes [OF h(4) [unfolded assms(1)] p h(2) m(1) _ m(2)] m(1) assms(3) [OF p]
  have "writes (CHOICE_encode_uper (\<lambda>_. True) specs E tdc cs) \<lparr>ch_present = p + 1, ch_memb = Some memb\<rparr> xs"
    "reads (CHOICE_decode_uper True (\<lambda>_. True) specs E tdc cs) (xs, c, \<lparr>ch_present = p + 1, ch_memb = Some w\<rparr>)" by simp_all
  with reads_viewed [OF this(2), of VChoice_of]
  show "writes (op_uper_encoder ?ops) v xs \<and> reads (op_uper_decoder ?ops) (xs, c, w')"
    by (simp add: v h(5) writes_def VChoice_of_def)
qed

text \<open>What the codec of a SEQUENCE needs of its members.\<close>

definition members_codecs :: "(asn_value, enc_dyn_arg) asn_TYPE_member list \<Rightarrow> (asn_value \<Rightarrow> asn_value coding option) list \<Rightarrow> bool" where
  "members_codecs E codings \<longleftrightarrow> length codings = length E \<and> (\<forall>i<length E.
     codec_for \<lparr>op_uper_decoder = elm_decoder (E ! i), op_uper_encoder = elm_encoder (E ! i)\<rparr> (codings ! i) \<and>
     elm_open_encoder (E ! i) = elm_encoder (E ! i) \<and> elm_open_type_get (E ! i) = None \<and>
     (\<forall>slot. case elm_default_set (E ! i) of Some dflt \<Rightarrow> fst (dflt slot) = 0 | None \<Rightarrow> True))"

lemma members_codecsD:
  assumes "members_codecs E codings"
  shows "length codings = length E"
    "i < length E \<Longrightarrow> codec_for \<lparr>op_uper_decoder = elm_decoder (E ! i), op_uper_encoder = elm_encoder (E ! i)\<rparr> (codings ! i)"
    "i < length E \<Longrightarrow> elm_open_encoder (E ! i) = elm_encoder (E ! i) \<and> elm_open_type_get (E ! i) = None"
    "i < length E \<Longrightarrow> case elm_default_set (E ! i) of Some dflt \<Rightarrow> fst (dflt slot) = 0 | None \<Rightarrow> True"
  using assms by (simp_all add: members_codecs_def)

text \<open>The codings of the members are codings in the sense of the encoder and the decoder of the SEQUENCE.\<close>

lemma sequence_codingE:
  assumes mc: "members_codecs E codings" and "sequence_coding specs E codings v = Some (bs, c, w)"
  obtains S X where "v = VSequence S" "sequence_ok specs E" "sequence_codes specs E S X"
    "bs = sequence_bits specs E X" "c = False" "w = VSequence (read_slots E X)"
proof -
  from assms(2) obtain S X where h: "v = VSequence S" "sequence_ok specs E" "members_coding specs E codings S = Some X"
    "bs = sequence_bits specs E X" "c = False" "w = VSequence (read_slots E X)"
    by (auto simp: sequence_coding_def split: asn_value.splits bind_splits if_splits)
  define R where "R = root_count specs E"
  define f where "f i = (if i < R then root_coding else addition_coding) (E ! i) (codings ! i) (S ! i)" for i
  have m: "length S = length E" "map f [0..<length E] = map Some X"
    using h(3) by (simp_all only: members_coding_def those_Some f_def [abs_def] R_def split: if_splits) simp_all
  from arg_cong [OF m(2), of length] have len: "length S = length E" "length X = length E" using m(1) by simp_all
  have X: "(if i < R then root_coding else addition_coding) (E ! i) (codings ! i) (S ! i) = Some (X ! i)" if "i < length E" for i
    using arg_cong [OF m(2), of "\<lambda>ys. ys ! i"] that len(2) by (simp add: f_def)
  have R: "R \<le> length E" "length E \<le> R + 64" using h(2) by (simp_all add: sequence_ok_def R_def)
  have d0: "case elm_default_set (E ! i) of Some dflt \<Rightarrow> fst (dflt slot) = 0 | None \<Rightarrow> True" if "i < length E" for i slot
    using members_codecsD(4) [OF mc that] .
  have root: "member_codes (E ! i) (S ! i) (X ! i)" if i: "i < R" for i
  proof -
    have iE: "i < length E" using i R(1) by simp
    show ?thesis
    proof (cases "X ! i")
      case None
      with X [OF iE] i have "elm_optional (E ! i)" "case S ! i of Some v \<Rightarrow> is_default (E ! i) v | None \<Rightarrow> True"
        by (simp_all add: root_coding_def split: option.splits if_splits)
      with None d0 [OF iE] members_codecsD(3) [OF mc iE] show ?thesis by (simp add: member_codes_def)
    next
      case (Some x)
      obtain bs c w where x: "x = (bs, c, w)" by (cases x) auto
      with X [OF iE] i Some obtain m where "S ! i = Some m" "\<not> is_default (E ! i) m" "(codings ! i) m = Some (bs, c, w)"
        by (auto simp: root_coding_def split: option.splits if_splits)
      with codec_forD [OF members_codecsD(2) [OF mc iE] this(3)] members_codecsD(3) [OF mc iE] Some x show ?thesis by (simp add: member_codes_def)
    qed
  qed
  have add: "addition_codes (E ! i) (S ! i) (X ! i)" if i: "i \<in> {R..<length E}" for i
  proof -
    have iE: "i < length E" "\<not> i < R" using i by auto
    show ?thesis
    proof (cases "X ! i")
      case None
      with X [OF iE(1)] iE(2) have "S ! i = None" "elm_pointer (E ! i)"
        by (simp_all add: addition_coding_def split: option.splits if_splits)
      with None d0 [OF iE(1)] show ?thesis by (simp add: addition_codes_def)
    next
      case (Some x)
      obtain bs c w where x: "x = (bs, c, w)" by (cases x) auto
      with X [OF iE(1)] iE(2) Some obtain m where "S ! i = Some m" "(codings ! i) m = Some (bs, c, w)"
        by (auto simp: addition_coding_def split: option.splits if_splits)
      with codec_forD [OF members_codecsD(2) [OF mc iE(1)] this(2)] members_codecsD(3) [OF mc iE(1)] Some x show ?thesis by (simp add: addition_codes_def)
    qed
  qed
  have "sequence_codes specs E S X" using root add len by (simp add: sequence_codes_def R_def)
  with h that show thesis by blast
qed

lemma sequence_codec:
  assumes "members_codecs E codings"
  shows "codec_for
    \<lparr>op_uper_decoder = viewed VSequence (SEQUENCE_decode_uper True (\<lambda>_. True) specs E),
     op_uper_encoder = (\<lambda>v po. case v of
        VSequence slots \<Rightarrow> SEQUENCE_encode_uper (\<lambda>_. True) specs E slots po | _ \<Rightarrow> None)\<rparr>
    (sequence_coding specs E codings)" (is "codec_for ?ops _")
  unfolding codec_for_def
proof (intro allI impI)
  fix v bs c w assume "sequence_coding specs E codings v = Some (bs, c, w)"
  from sequence_codingE [OF assms this] obtain S X where h: "v = VSequence S" "sequence_ok specs E" "sequence_codes specs E S X"
    "bs = sequence_bits specs E X" "c = False" "w = VSequence (read_slots E X)" .
  from sequence_writes [OF h(2,3)] have w: "writes (SEQUENCE_encode_uper (\<lambda>_. True) specs E) S bs" by (simp add: h(4))
  have "readable_by specs E S X" using h(2,3) by (auto simp: readable_by_def sequence_codes_def sequence_ok_def)
  from sequence_reads [OF h(2) this refl refl] reads_viewed [of _ _ _ _ VSequence]
  have r: "reads (viewed VSequence (SEQUENCE_decode_uper True (\<lambda>_. True) specs E)) (bs, c, w)" by (simp add: h(4-6))
  show "writes (op_uper_encoder ?ops) v bs \<and> reads (op_uper_decoder ?ops) (bs, c, w)"
    using w r by (simp add: h(1) writes_def)
qed

lemma type_member_simps [simp]:
  "elm_decoder (type_member p o' d z ops) = op_uper_decoder ops"
  "elm_encoder (type_member p o' d z ops) = op_uper_encoder ops"
  "elm_open_encoder (type_member p o' d z ops) = op_uper_encoder ops"
  "elm_open_type_get (type_member p o' d z ops) = None"
  "elm_default_set (type_member p o' d z ops) = map_option (\<lambda>d slot. (0, Some d)) d"
  "elm_optional (type_member p o' d z ops) = o'"
  "elm_pointer (type_member p o' d z ops) = p"
  "elm_zero (type_member p o' d z ops) = z"
  "is_default (type_member p o' d z ops) v \<longleftrightarrow> (case d of Some d \<Rightarrow> same_value d v | None \<Rightarrow> False)"
  by (auto simp: type_member_def is_default_def split: option.splits)

lemma op_eta: "\<lparr>op_uper_decoder = op_uper_decoder ops, op_uper_encoder = op_uper_encoder ops\<rparr> = ops"
  by (cases ops) simp

lemma type_codec: "codec_for (uper_ops t) (type_coding t)"
proof (induction t rule: type_coding.induct)
  case 1
  show ?case by (simp only: uper_ops.simps type_coding.simps, rule int_codec) (use boolean_codes in auto)
next
  case 2
  show ?case by (simp only: uper_ops.simps type_coding.simps, rule int_codec) (use null_codes in auto)
next
  case (3 td cs)
  show ?case by (simp only: uper_ops.simps type_coding.simps, rule int_codec) (simp_all add: native_writes native_reads)
next
  case (4 td cs)
  show ?case by (simp only: uper_ops.simps type_coding.simps, rule int_codec) (simp_all add: enum_writes enum_reads)
next
  case (5 sub tdc cs)
  show ?case by (simp only: uper_ops.simps type_coding.simps, rule octets_codec) (blast intro: octet_string_writes octet_string_reads)+
next
  case (6 tdc cs)
  show ?case by (simp only: uper_ops.simps type_coding.simps, rule bits_codec) (blast intro: bit_string_writes bit_string_reads)+
next
  case (7 tdc cs t)
  then show ?case by (simp only: uper_ops.simps type_coding.simps) (rule list_codec)
next
  case (8 specs tdc cs ts)
  then show ?case unfolding uper_ops.simps type_coding.simps Let_def by (intro choice_codec) (simp_all add: op_eta)
next
  case (9 specs ms)
  then show ?case unfolding uper_ops.simps type_coding.simps Let_def sequence_members_def
    by (intro sequence_codec) (auto simp: op_eta members_codecs_def split: option.splits)
qed

text \<open>The complete encoding, in a new buffer and back.\<close>

lemma coded_roundtrip:
  assumes "writes enc v bs" "reads dec (bs, c, w)"
  shows "\<exists>n buf m. uper_encode_to_new_buffer (\<lambda>_. True) (Some enc) v = Some (int n, Some buf) \<and> n \<le> length buf \<and>
    take n buf = per_complete bs \<and> uper_decode_complete (Some dec) buf n = Some (RC_OK, n, Some (w, m))"
proof -
  obtain buf where b: "uper_encode_to_new_buffer (\<lambda>_. True) (Some enc) v = Some (int (length (per_complete bs)), Some buf)"
    "length (per_complete bs) \<le> length buf" "take (length (per_complete bs)) buf = per_complete bs"
    using writes_new_buffer [OF assms(1)] .
  from uper_reader.decode_whole [OF reads_reader [OF assms(2)] _ b(3) order_refl b(2), of "(w, c)"] obtain m where
    "uper_decode_complete (Some dec) buf (length (per_complete bs)) = Some (RC_OK, length (per_complete bs), Some (w, m))" by auto
  with b show ?thesis by blast
qed


section \<open>The values that the codecs support\<close>




























section \<open>Another version of a SEQUENCE\<close>

declare uper_ops.simps [simp del] type_coding.simps [simp del]

definition members_in :: "per_type asn_member list \<Rightarrow> (asn_value \<Rightarrow> asn_value coding option) list" where
  "members_in ms = map (\<lambda>m. type_coding (mb_type m)) ms"

lemma sequence_members_codecs: "members_codecs (sequence_members ms) (members_in ms)"
  using type_codec by (auto simp: members_codecs_def sequence_members_def members_in_def op_eta split: option.splits)

lemma sequence_members_simps:
  "length (sequence_members ms) = length ms" "sequence_members (take k ms) = take k (sequence_members ms)"
  "sequence_members (ms @ ns) = sequence_members ms @ sequence_members ns"
  by (simp_all add: sequence_members_def take_map)

lemma type_sequence_codingE:
  assumes "type_coding (TSequence specs ms) v = Some (bs, c, w)"
  obtains S X where "v = VSequence S" "sequence_ok specs (sequence_members ms)" "sequence_codes specs (sequence_members ms) S X"
    "bs = sequence_bits specs (sequence_members ms) X" "c = False" "w = VSequence (read_slots (sequence_members ms) X)"
    "writes (op_uper_encoder (uper_ops (TSequence specs ms))) v bs"
proof -
  from sequence_codingE [OF sequence_members_codecs assms [unfolded type_coding.simps, folded members_in_def]] obtain S X where
    "v = VSequence S" "sequence_ok specs (sequence_members ms)" "sequence_codes specs (sequence_members ms) S X"
    "bs = sequence_bits specs (sequence_members ms) X" "c = False" "w = VSequence (read_slots (sequence_members ms) X)" .
  from that [OF this codec_forD(1) [OF type_codec assms]] show thesis .
qed

lemma read_slots_take: "read_slots (take k E) X = take k (read_slots E X)"
  by (simp add: read_slots_def take_map min_def)

lemma read_other_version:
  assumes "sequence_ok specs' (sequence_members ms')" "readable_by specs' (sequence_members ms') S X"
    and "root_count specs' ms' = root_count specs ms" "first_extension specs' < 0 \<longleftrightarrow> first_extension specs < 0"
    and "\<forall>i<root_count specs ms. mb_optional (ms' ! i) = mb_optional (ms ! i)" "root_count specs ms \<le> length ms"
  shows "reads (op_uper_decoder (uper_ops (TSequence specs' ms')))
    (sequence_bits specs (sequence_members ms) X, False, VSequence (read_slots (sequence_members ms') X))"
proof -
  have r: "root_count specs (sequence_members ms) = root_count specs ms" for specs and ms :: "per_type asn_member list"
    by (simp add: root_count_def sequence_members_simps)
  have l: "root_count specs' ms' \<le> length ms'" using assms(1) by (simp add: sequence_ok_def r sequence_members_simps)
  have "\<forall>i<root_count specs ms. elm_optional (sequence_members ms' ! i) = elm_optional (sequence_members ms ! i)"
    using assms(3,5,6) l by (simp add: sequence_members_def)
  from sequence_reads [OF assms(1,2), of specs "sequence_members ms"] this assms(3,4)
  have "reads (SEQUENCE_decode_uper True (\<lambda>_. True) specs' (sequence_members ms'))
      (sequence_bits specs (sequence_members ms) X, False, read_slots (sequence_members ms') X)" by (simp add: r)
  from reads_viewed [OF this, of VSequence] show ?thesis by (simp add: sequence_members_def Let_def uper_ops.simps)
qed

section \<open>Properties\<close>


text \<open>
  C6: a receiver of an older version, which knows a prefix of the extensions of a SEQUENCE, decodes
  the encoding of a newer one: it reads the members it knows, steps over the others and ends where
  the encoding ends.
\<close>

theorem older_reader:
  assumes "type_coding (TSequence specs ms) v = Some (bs, c, VSequence slots)" "0 \<le> first_extension specs"
    and "nat (first_extension specs) \<le> k" "k \<le> length ms"
    and "first_extension specs' = first_extension specs" "sequence_ok specs' (sequence_members (take k ms))"
  shows "\<exists>n buf m. uper_encode_to_new_buffer (\<lambda>_. True) (Some (op_uper_encoder (uper_ops (TSequence specs ms)))) v = Some (int n, Some buf) \<and>
    uper_decode_complete (Some (op_uper_decoder (uper_ops (TSequence specs' (take k ms))))) buf n =
      Some (RC_OK, n, Some (VSequence (take k slots), m))"
proof -
  from type_sequence_codingE [OF assms(1)] obtain S X where h: "sequence_ok specs (sequence_members ms)"
    "sequence_codes specs (sequence_members ms) S X" "bs = sequence_bits specs (sequence_members ms) X"
    "slots = read_slots (sequence_members ms) X" "writes (op_uper_encoder (uper_ops (TSequence specs ms))) v bs"
    by (metis asn_value.inject(6))
  define R where "R = nat (first_extension specs)"
  have R: "root_count specs ns = R" "root_count specs' ns = R" for ns :: "(asn_value, enc_dyn_arg) asn_TYPE_member list"
    using assms(2,5) by (simp_all add: root_count_def R_def)
  have "readable_by specs' (sequence_members (take k ms)) S X"
    using h(1,2) assms(2-5) by (auto simp: readable_by_def sequence_codes_def sequence_ok_def sequence_members_simps R R_def [symmetric])
  from read_other_version [OF assms(6) this, of specs ms] assms(2-5)
  have "reads (op_uper_decoder (uper_ops (TSequence specs' (take k ms)))) (bs, False, VSequence (take k slots))"
    by (simp add: h(3,4) root_count_def sequence_members_simps(2) read_slots_take)
  from coded_roundtrip [OF h(5) this] show ?thesis by blast
qed


lemma absent_default:
  "i < length ms \<Longrightarrow> mb_pointer (ms ! i) \<Longrightarrow> member_read (sequence_members ms ! i) None = mb_default (ms ! i)"
  by (auto simp: member_read_def sequence_members_def slot_init_def split: option.splits)

text \<open>
  C7: a receiver of a newer version, which has further extensions at the end of a SEQUENCE, decodes the
  encoding of an older one: the members it has in common are read, the new extensions are absent or,
  with a DEFAULT, have that value.
\<close>

theorem newer_reader:
  assumes "type_coding (TSequence specs ms) v = Some (bs, c, VSequence slots)" "0 \<le> first_extension specs"
    and "first_extension specs' = first_extension specs" "sequence_ok specs' (sequence_members (ms @ added))"
    and "\<forall>m\<in>set added. mb_pointer m"
  shows "\<exists>n buf m. uper_encode_to_new_buffer (\<lambda>_. True) (Some (op_uper_encoder (uper_ops (TSequence specs ms)))) v = Some (int n, Some buf) \<and>
    uper_decode_complete (Some (op_uper_decoder (uper_ops (TSequence specs' (ms @ added))))) buf n =
      Some (RC_OK, n, Some (VSequence (slots @ map mb_default added), m))"
proof -
  from type_sequence_codingE [OF assms(1)] obtain S X where h: "sequence_ok specs (sequence_members ms)"
    "sequence_codes specs (sequence_members ms) S X" "bs = sequence_bits specs (sequence_members ms) X"
    "slots = read_slots (sequence_members ms) X" "writes (op_uper_encoder (uper_ops (TSequence specs ms))) v bs"
    by (metis asn_value.inject(6))
  define R where "R = nat (first_extension specs)"
  have R: "root_count specs ns = R" "root_count specs' ns = R" for ns :: "(asn_value, enc_dyn_arg) asn_TYPE_member list"
    using assms(2,3) by (simp_all add: root_count_def R_def)
  have len: "length X = length ms" "R \<le> length ms" "length ms \<le> R + 64"
    using h(1,2) by (simp_all add: sequence_codes_def sequence_ok_def sequence_members_simps R)
  have new: "addition_codes (sequence_members (ms @ added) ! i) None None" if "length ms \<le> i" "i < length ms + length added" for i
    using that assms(5) by (auto simp: sequence_members_def nth_append addition_codes_def split: option.splits)
  have old: "sequence_members (ms @ added) ! i = sequence_members ms ! i" if "i < length ms" for i
    using that by (simp add: sequence_members_def nth_append)
  have "readable_by specs' (sequence_members (ms @ added)) S X"
    unfolding readable_by_def R
  proof (intro conjI ballI allI impI)
    show "R \<le> length X" "length X \<le> R + 64" using len by simp_all
    show "length X = length (sequence_members (ms @ added))" if "first_extension specs' < 0" using that assms(2,3) by simp
    show "member_codes (sequence_members (ms @ added) ! i) (S ! i) (X ! i)" if "i < R" for i
      using h(2) that old [of i] len(2) by (simp add: sequence_codes_def R)
    show "if i < length X then addition_codes (sequence_members (ms @ added) ! i) (S ! i) (X ! i)
        else addition_codes (sequence_members (ms @ added) ! i) None None"
      if "i \<in> {R..<length (sequence_members (ms @ added))}" for i
      using h(2) that old [of i] new [of i] len by (simp add: sequence_codes_def R sequence_members_simps)
  qed
  moreover have "root_count specs' (ms @ added) = root_count specs ms" "root_count specs ms = R"
    using assms(2,3) by (simp_all add: root_count_def R_def)
  moreover have "read_slots (sequence_members (ms @ added)) X = slots @ map mb_default added"
  proof (rule nth_equalityI)
    show "length (read_slots (sequence_members (ms @ added)) X) = length (slots @ map mb_default added)"
      by (simp add: h(4) read_slots_def sequence_members_simps)
    fix i assume "i < length (read_slots (sequence_members (ms @ added)) X)"
    then have i: "i < length ms + length added" by (simp add: read_slots_def sequence_members_simps)
    show "read_slots (sequence_members (ms @ added)) X ! i = (slots @ map mb_default added) ! i"
    proof (cases "i < length ms")
      case True
      with i len(1) old show ?thesis by (simp add: h(4) read_slots_def sequence_members_simps nth_append)
    next
      case False
      with i len(1) assms(5) show ?thesis
        by (auto simp: h(4) read_slots_def sequence_members_simps nth_append absent_default)
    qed
  qed
  ultimately have "reads (op_uper_decoder (uper_ops (TSequence specs' (ms @ added)))) (bs, False, VSequence (slots @ map mb_default added))"
    using read_other_version [OF assms(4), of S X specs ms] assms(2,3) len by (simp add: h(3) nth_append)
  from coded_roundtrip [OF h(5) this] show ?thesis by blast
qed


text \<open>
  A sample: \<open>SEQUENCE { a INTEGER (0..7), b BOOLEAN DEFAULT FALSE, ..., c CHOICE { x NULL, y SEQUENCE OF INTEGER (0..7) } }\<close>,
  its version without \<open>c\<close>, and one with a further extension \<open>d BOOLEAN DEFAULT TRUE\<close>.
\<close>

definition sample_int :: per_type where
  "sample_int = TNativeInteger (sample_int_td 2 3 0 7) None"

definition sample_choice :: per_type where
  "sample_choice = TChoice \<lparr>ch_struct_size = 40, to_canonical_order = None, from_canonical_order = None, ext_start = -1\<rparr>
     (td_per_constraints (sample_int_td 2 1 0 1)) None [TNull, TSequenceOf None None sample_int]"

definition sample_members :: "per_type asn_member list" where
  "sample_members = [Member False False None sample_int, Member True True (Some (VInt 0)) TBoolean, Member True True None sample_choice]"

definition sample_added :: "per_type asn_member list" where
  "sample_added = [Member True True (Some (VInt 1)) TBoolean]"

definition sample_specs :: "nat list \<Rightarrow> asn_SEQUENCE_specifics" where
  "sample_specs aoms = \<lparr>sq_struct_size = 64, oms = 1 # aoms, roms_count = 1, aoms_count = length aoms, first_extension = 2\<rparr>"

definition sample_value :: "asn_value" where
  "sample_value = VSequence [Some (VInt 5), Some (VInt 0), Some (VChoice 2 (Some (VList [VInt 2])))]"

definition sample_bits :: "bool list" where
  "sample_bits = [True, False] @ [True, False, True] @ be_bits 7 0 @ [True] @ octets_bits [2, 0x80, 0xA0]"

lemma sample_seq_ok:
  "sequence_ok (sample_specs [2]) (sequence_members sample_members)"
  "sequence_ok (sample_specs []) (sequence_members (take 2 sample_members))"
  "sequence_ok (sample_specs [2, 3]) (sequence_members (sample_members @ sample_added))"
  by (simp_all add: sequence_ok_def sample_specs_def sequence_members_def sample_members_def sample_added_def root_count_def
      mem_load_def upt_conv_Cons type_member_def atLeastLessThan_upt)

lemma sample_int_coding:
  "type_coding sample_int (VInt 5) = Some ([True, False, True], False, VInt 5)"
  "type_coding sample_int (VInt 2) = Some ([False, True, False], False, VInt 2)"
  by (simp_all add: sample_int_def type_coding.simps int_coding_def native_bits_def integer_bits_def sample_int_td_simps limits_defs
      int_constraint_ok_def ext_bit_def ct_has_def be_bits_rec)

lemma sample_list_coding:
  "type_coding (TSequenceOf None None sample_int) (VList [VInt 2]) = Some (be_bits 8 1 @ [False, True, False], False, VList [VInt 2])"
  by (simp add: type_coding.simps list_coding_def sample_int_coding size_constraint_def list_bits_def list_body_def list_readable_def
      element_fragments.simps [of "[_]"] uper_length_unit_def uper_length_bits_def)

lemma choice_coding_2:
  "choice_coding specs ct codings (VChoice 2 (Some memb)) =
     (if 1 < length codings \<and> canonical_order_ok specs 1
      then do {
        (bs, c, w) \<leftarrow> (codings ! 1) memb;
        xs \<leftarrow> choice_bits specs (length codings) ct 1 bs;
        Some (xs, c, VChoice 2 (Some w)) }
      else None)"
  by (simp add: choice_coding_def numeral_2_eq_2)

lemma sample_choice_coding:
  "type_coding sample_choice (VChoice 2 (Some (VList [VInt 2]))) =
     Some (True # be_bits 8 1 @ [False, True, False], False, VChoice 2 (Some (VList [VInt 2])))"
proof -
  have n: "nat (1 :: int) = 1" by simp
  have b: "choice_bits \<lparr>ch_struct_size = 40, to_canonical_order = None, from_canonical_order = None, ext_start = -1\<rparr> (Suc (Suc 0))
      (choice_constraint (td_per_constraints (sample_int_td 2 1 0 1)) None) (Suc 0) bs = Some (True # bs)" for bs
    using n by (simp add: choice_bits_def choice_index_def choice_constraint_def sample_int_td_def ext_bit_def ct_has_def be_bits_rec)
  show ?thesis
    by (simp add: sample_choice_def type_coding.simps(8) choice_coding_2 canonical_order_ok_def sample_list_coding b del: be_bits_0)
qed

lemma sample_members_coding:
  "members_coding (sample_specs [2]) (sequence_members sample_members) (members_in sample_members)
     [Some (VInt 5), Some (VInt 0), Some (VChoice 2 (Some (VList [VInt 2])))] =
   Some [Some ([True, False, True], False, VInt 5), None,
     Some (True # be_bits 8 1 @ [False, True, False], False, VChoice 2 (Some (VList [VInt 2])))]"
  using sample_int_coding sample_choice_coding
  by (simp add: members_coding_def sequence_members_def sample_members_def members_in_def sample_specs_def root_count_def upt_conv_Cons
      root_coding_def addition_coding_def same_value_def)

lemma sample_open: "open_bits (True # be_bits 8 1 @ [False, True, False]) = octets_bits [2, 0x80, 0xA0]"
proof -
  have b: "True # be_bits 8 1 @ [False, True, False] =
      [True, False, False, False, False, False, False, False, True, False, True, False]"
    by (simp add: be_bits_rec del: be_bits_0)
  have "per_complete (True # be_bits 8 1 @ [False, True, False]) = [0x80, 0xA0]"
    unfolding b by (simp add: per_complete_def left_octets_def be_val_def be_octets_numerals)
  then show ?thesis
    by (simp add: open_bits_def fragments_bits.simps [of "[_, _]"] Let_def uper_length_unit_def uper_length_bits_def octets_bits_Cons
        flip: numeral_2_eq_2)
qed

lemma sample_coding:
  "type_coding (TSequence (sample_specs [2]) sample_members) sample_value = Some (sample_bits, False, sample_value)"
proof -
  define X :: "asn_value coding option list" where
    "X = [Some ([True, False, True], False, VInt 5), None,
     Some (True # be_bits 8 1 @ [False, True, False], False, VChoice 2 (Some (VList [VInt 2])))]"
  have any: "any_addition 2 X" by (auto simp: any_addition_def X_def intro!: bexI [of _ 2])
  have add: "addition_part 2 X = be_bits 7 0 @ [True] @ octets_bits [2, 0x80, 0xA0]"
    using any sample_open by (simp add: addition_part_def upt_conv_Cons X_def addition_bits_def del: not_None_eq split_paired_Ex)
  have R: "root_count (sample_specs [2]) (sequence_members sample_members) = 2" by (simp add: root_count_def sample_specs_def)
  have roots: "concat (map (\<lambda>i. root_bits (X ! i)) [0..<2]) = [True, False, True]"
    "map (\<lambda>i. X ! i \<noteq> None) (filter (\<lambda>i. elm_optional (sequence_members sample_members ! i)) [0..<2]) = [False]"
    by (simp_all add: upt_conv_Cons X_def root_bits_def sequence_members_def sample_members_def)
  have "sequence_bits (sample_specs [2]) (sequence_members sample_members) X = sample_bits"
    unfolding sequence_bits_def Let_def R add roots sample_bits_def using any by (simp add: sample_specs_def)
  moreover have "read_slots (sequence_members sample_members) X = [Some (VInt 5), Some (VInt 0), Some (VChoice 2 (Some (VList [VInt 2])))]"
    by (simp add: read_slots_def sequence_members_def sample_members_def upt_conv_Cons X_def member_read_def)
  ultimately show ?thesis using sample_seq_ok(1) sample_members_coding
    by (simp add: type_coding.simps sequence_coding_def sample_value_def X_def members_in_def)
qed


theorem older_reader_witness:
  "\<exists>n buf m. uper_encode_to_new_buffer (\<lambda>_. True) (Some (op_uper_encoder (uper_ops (TSequence (sample_specs [2]) sample_members)))) sample_value =
      Some (int n, Some buf) \<and>
    uper_decode_complete (Some (op_uper_decoder (uper_ops (TSequence (sample_specs []) (take 2 sample_members))))) buf n =
      Some (RC_OK, n, Some (VSequence [Some (VInt 5), Some (VInt 0)], m))"
  using older_reader [OF sample_coding [unfolded sample_value_def] _ _ _ _ sample_seq_ok(2)]
  by (simp add: sample_value_def sample_specs_def sample_members_def numeral_2_eq_2)

theorem newer_reader_witness:
  "\<exists>n buf m. uper_encode_to_new_buffer (\<lambda>_. True) (Some (op_uper_encoder (uper_ops (TSequence (sample_specs [2]) sample_members)))) sample_value =
      Some (int n, Some buf) \<and>
    uper_decode_complete (Some (op_uper_decoder (uper_ops (TSequence (sample_specs [2, 3]) (sample_members @ sample_added))))) buf n =
      Some (RC_OK, n, Some (VSequence [Some (VInt 5), Some (VInt 0), Some (VChoice 2 (Some (VList [VInt 2]))), Some (VInt 1)], m))"
  using newer_reader [OF sample_coding [unfolded sample_value_def] _ _ sample_seq_ok(3)]
  by (simp add: sample_value_def sample_specs_def sample_added_def)

end
