(* ===== verification/Uper_Alphabet.thy ===== *)
theory Uper_Alphabet
  imports Uper_Schema
begin

unbundle bit_operations_syntax

text \<open>
  Permitted alphabets at the limit of the test in \<open>OCTET_STRING_per_get_characters\<close> and
  \<open>OCTET_STRING_per_put_characters\<close> (\<open>skeletons/OCTET_STRING.c\<close>): an upper bound of exactly two to the number
  of bits, and an alphabet of one character, which has zero bits.
\<close>

section \<open>An alphabet of one character\<close>

text \<open>\<open>unit_bits - 1\<close> wraps around, and the shift by it is undefined.\<close>

lemma one_character_undefined:
  "OCTET_STRING_per_get_characters pd n bpc 0 lb ub pc = None"
  "OCTET_STRING_per_put_characters po buf n bpc 0 lb ub pc = None"
  by (simp_all add: OCTET_STRING_per_get_characters_def OCTET_STRING_per_put_characters_def per_as_is_def Let_def unsigned_minus_1_eq_mask mask_eq_exp_minus_1)

section \<open>The last character of an alphabet\<close>

text \<open>
  A string over an alphabet with a number of bits \<open>b\<close> and the upper bound \<open>2 ^ b\<close>, which the test of X.691
  27.5.4 takes for an alphabet that needs no translation.
\<close>

lemma octet_codes:
  "\<forall>x\<in>set s. unat x \<le> k \<Longrightarrow> string_codes (\<lambda>v. if v \<le> k then Some (f v) else None) 1 (length s) s = Some (map (\<lambda>x. f (unat x)) s)"
  by (induction s) (simp_all add: octets_val_Cons)

definition open_alphabet :: "asn_per_constraints \<Rightarrow> nat \<Rightarrow> bool" where
  "open_alphabet c b \<longleftrightarrow> 0 < b \<and> b < 8 \<and> ct_has (pc_value c) APC_CONSTRAINED \<and> ct_range_bits (pc_value c) = int b \<and>
     0 \<le> ct_lower_bound (pc_value c) \<and> ct_lower_bound (pc_value c) \<le> 2 ^ b \<and> ct_upper_bound (pc_value c) = 2 ^ b \<and>
     ct_effective_bits (pc_size c) < 0 \<and> \<not> ct_has (pc_size c) APC_EXTENSIBLE"

lemma open_alphabetD:
  assumes "open_alphabet c b"
  shows "chars_ok (Some c) 1 b (ct_lower_bound (pc_value c)) (2 ^ b)" "os_unit_bits 8 (pc_value c) = b" "b \<le> 7"
proof -
  have b: "0 < b" "b \<le> 7" using assms by (simp_all add: open_alphabet_def)
  have "(2 :: int) ^ b \<le> 2 ^ 7" by (rule power_increasing) (use b in simp_all)
  then show "chars_ok (Some c) 1 b (ct_lower_bound (pc_value c)) (2 ^ b)"
    using assms b unfolding chars_ok_def open_alphabet_def by simp
  show "os_unit_bits 8 (pc_value c) = b" using assms by (simp add: open_alphabet_def os_unit_bits_def unsigned_of_nat take_bit_eq_mod)
qed (use assms in \<open>simp add: open_alphabet_def\<close>)

lemma open_alphabet_put:
  assumes "open_alphabet c b" "\<forall>x\<in>set s. unat x \<le> 2 ^ b"
  shows "units_put (\<lambda>buf n po. OCTET_STRING_per_put_characters po buf n 1 b (ct_lower_bound (pc_value c)) (2 ^ b) (Some c)) (\<lambda>n. n * 1) s
    (map (\<lambda>x. be_bits b (unat x)) s)"
  unfolding units_put_def
proof (intro conjI allI impI)
  note c = open_alphabetD [OF assms(1)]
  have lim: "(2 :: int) ^ b \<le> 2 ^ 7" "0 < b" by (rule power_increasing) (use c(3) assms(1) in \<open>simp_all add: open_alphabet_def\<close>)
  fix i n and po :: "enc_dyn_arg bit_outp"
  assume h: "i + n \<le> length (map (\<lambda>x. be_bits b (unat x)) s)" "po_ok grow_cb dyn_inv po"
  define coding where "coding = (\<lambda>v. if v \<le> 2 ^ b then Some (be_bits b v) else None)"
  have "string_codes coding 1 (length s) s = Some (map (\<lambda>x. be_bits b (unat x)) s)"
    unfolding coding_def by (rule octet_codes [OF assms(2)])
  then have "string_codes coding 1 n (drop (i * 1) s) = Some (take n (drop i (map (\<lambda>x. be_bits b (unat x)) s)))"
    by (rule string_codes_take [OF string_codes_drop]) (use h(1) in simp_all)
  moreover have "n * 1 \<le> length (drop (i * 1) s)" using h(1) by simp
  ultimately have "po_puts grow_cb dyn_taken dyn_inv po 0 (concat (take n (drop i (map (\<lambda>x. be_bits b (unat x)) s))))
      (put_plain_characters 0 (2 ^ b - 0) 1 b n (drop (i * 1) s) po)"
    by (rule dyn.put_plain_ok [OF _ _ h(2), where first = 0 and ub = "2 ^ b", unfolded semiring_1_class.of_nat_0]) (use c(3) lim in \<open>auto simp: coding_def split: if_splits\<close>)
  moreover have "\<not> (0 = (0 :: int) \<and> b = 8 * 1)" using c(3) by simp
  moreover have "s64 (2 ^ b - 0) = Some (2 ^ b - 0)" using lim order_trans [OF _ zero_le_power [of "2 :: int" b]] by (subst s64_small) simp_all
  ultimately show "po_puts grow_cb dyn_taken dyn_inv po 0 (concat (take n (drop i (map (\<lambda>x. be_bits b (unat x)) s))))
      (OCTET_STRING_per_put_characters po (drop (i * 1) s) n 1 b (ct_lower_bound (pc_value c)) (2 ^ b) (Some c))"
    by (simp only: OCTET_STRING_per_put_characters_def per_as_is_ok [OF c(1)] bind.bind_lunit order_refl if_True Let_def option.case split_conv
        if_False of_nat_0 not_True_eq_False simp_thms)
qed simp_all

text \<open>
  C37: the last character of such an alphabet is lost. Take FROM (" ".."@"), of 33 characters, which has
  \<open>b = 6\<close>: a string over an alphabet with the upper bound \<open>2 ^ b\<close> is encoded without an error, and every
  such character is written as \<open>b\<close> zeros; what comes back has the number zero in its place.
\<close>

theorem last_character_lost:
  assumes "open_alphabet c b" "\<forall>x\<in>set s. unat x \<le> 2 ^ b"
  shows "\<exists>n buf m. uper_encode_to_new_buffer (\<lambda>_. True) (Some (OCTET_STRING_encode_uper ASN_OSUBV_STR (Some c) None))
      \<lparr>os_buf = Some s, os_size = length s\<rparr> = Some (int n, Some buf) \<and>
    uper_decode_complete (Some (OCTET_STRING_decode_uper (\<lambda>_. True) 40 ASN_OSUBV_STR (Some c) None)) buf n =
      Some (RC_OK, n, Some (\<lparr>os_buf = Some (map (\<lambda>x. if unat x = 2 ^ b then 0 else x) s @ [0]), os_size = length s\<rparr>, m))"
proof -
  note c = open_alphabetD [OF assms(1)]
  note a = assms(1) [unfolded open_alphabet_def]
  define bss where "bss = map (\<lambda>x. be_bits b (unat x)) s"
  define s' where "s' = map (\<lambda>x. if unat x = 2 ^ b then 0 else x) s"
  define st where "st = \<lparr>os_buf = Some s', os_size = length s\<rparr>"
  have w: "writes (OCTET_STRING_encode_uper ASN_OSUBV_STR (Some c) None) \<lparr>os_buf = Some s, os_size = length s\<rparr> (element_fragments bss)"
    unfolding writes_def
  proof (intro allI impI)
    fix po assume po: "po_ok grow_cb dyn_inv po"
    have "length bss = length s" by (simp add: bss_def)
    with put_string_chunks_ok [OF open_alphabet_put [OF assms] po, of 0]
    show "po_puts grow_cb dyn_taken dyn_inv po 0 (element_fragments bss)
      (OCTET_STRING_encode_uper ASN_OSUBV_STR (Some c) None \<lparr>os_buf = Some s, os_size = length s\<rparr> po)"
      using a c(2) by (simp add: OCTET_STRING_encode_uper_def os_unit_def os_constraints_def Let_def bss_def)
  qed
  have "\<forall>x\<in>set s'. unat x < 2 ^ b" using assms(2) by (auto simp: s'_def le_less)
  then have "string_codes (char_code (Some c) 1 b (ct_lower_bound (pc_value c)) (2 ^ b)) 1 (length s') s' = Some (map (\<lambda>x. be_bits b (unat x)) s')"
  proof (induction s')
    case (Cons x xs)
    have "unat x \<le> 2 ^ b" "b \<le> 31" "b \<noteq> 8" using Cons.prems c(3) by auto
    moreover from this(1) have "int (unat x) \<le> 2 ^ b" by (metis of_nat_le_iff of_nat_numeral of_nat_power)
    ultimately show ?case using Cons by (simp add: char_code_def octets_val_Cons)
  qed simp
  moreover have "map (\<lambda>x. be_bits b (unat x)) s' = bss"
    using be_bits_mod_self [of b "2 ^ b"] by (simp add: s'_def bss_def)
  moreover have "length s' = length s" by (simp add: s'_def)
  ultimately have "octet_string_coding ASN_OSUBV_STR (Some c) None st =
      Some (element_fragments bss, False, \<lparr>os_buf = Some (s' @ [0]), os_size = length s\<rparr>)"
    using a c(1,2) by (simp add: octet_string_coding_def os_unit_def os_constraints_def st_def os_mem_def sized_bits_def os_codes_def Let_def)
  from coded_roundtrip [OF w octet_string_reads [OF this]] show ?thesis unfolding s'_def by blast
qed

theorem last_character_lost_witness:
  "\<exists>n buf m. uper_encode_to_new_buffer (\<lambda>_. True) (Some (OCTET_STRING_encode_uper ASN_OSUBV_STR
        (Some (asn_DEF_OCTET_STRING_constraints\<lparr>pc_value := \<lparr>ct_flags = APC_CONSTRAINED, ct_range_bits = 6, ct_effective_bits = 6,
           ct_lower_bound = 32, ct_upper_bound = 64\<rparr>\<rparr>)) None)) \<lparr>os_buf = Some [0x21, 0x40], os_size = 2\<rparr> = Some (int n, Some buf) \<and>
    uper_decode_complete (Some (OCTET_STRING_decode_uper (\<lambda>_. True) 40 ASN_OSUBV_STR
        (Some (asn_DEF_OCTET_STRING_constraints\<lparr>pc_value := \<lparr>ct_flags = APC_CONSTRAINED, ct_range_bits = 6, ct_effective_bits = 6,
           ct_lower_bound = 32, ct_upper_bound = 64\<rparr>\<rparr>)) None)) buf n =
      Some (RC_OK, n, Some (\<lparr>os_buf = Some [0x21, 0, 0], os_size = 2\<rparr>, m))"
proof -
  define c where "c = asn_DEF_OCTET_STRING_constraints\<lparr>pc_value := \<lparr>ct_flags = APC_CONSTRAINED, ct_range_bits = 6, ct_effective_bits = 6,
           ct_lower_bound = 32, ct_upper_bound = 64\<rparr>\<rparr>"
  have "open_alphabet c 6" by (simp add: open_alphabet_def c_def asn_DEF_OCTET_STRING_constraints_def ct_has_def)
  from last_character_lost [OF this, of "[0x21, 0x40]"] show ?thesis unfolding c_def by (simp flip: numeral_2_eq_2)
qed

end
