(* ===== verification/Ber_Tlv.thy ===== *)
theory Ber_Tlv
  imports Prelude
begin

unbundle bit_operations_syntax

text \<open>
  Tags and lengths of BER: \<open>skeletons/ber_tlv_tag.c\<close> and \<open>ber_tlv_length.c\<close>. An input of \<open>size\<close>
  octets at \<open>ptr\<close> is the list of these octets; reading an octet behind them is a fault. Functions
  that store into a buffer return their result with the octets stored.
\<close>

section \<open>Tags\<close>

abbreviation BER_TAG_CLASS :: "u32 \<Rightarrow> u32" where "BER_TAG_CLASS tag \<equiv> tag AND 3"
abbreviation BER_TAG_VALUE :: "u32 \<Rightarrow> u32" where "BER_TAG_VALUE tag \<equiv> drop_bit 2 tag"
definition BER_TLV_CONSTRUCTED :: "u8 \<Rightarrow> bool" where "BER_TLV_CONSTRUCTED b \<longleftrightarrow> b AND 0x20 \<noteq> 0"

text \<open>The loop over the octets behind the first one; the result is the return value and \<open>*tag_r\<close>.\<close>

fun fetch_tag_loop :: "u32 \<Rightarrow> u32 \<Rightarrow> nat \<Rightarrow> u8 list \<Rightarrow> u32 \<Rightarrow> int \<times> u32" where
  "fetch_tag_loop tclass val skipped [] tag_r = (0, tag_r)"
| "fetch_tag_loop tclass val skipped (oct # ptr) tag_r =
     (if oct AND 0x80 \<noteq> 0 then
        let val = push_bit 7 val OR ucast (oct AND 0x7F) in
        if drop_bit (32 - 9) val \<noteq> 0 then (-1, tag_r)
        else fetch_tag_loop tclass val (skipped + 1) ptr tag_r
      else
        let val = push_bit 7 val OR ucast oct in
        (int skipped, push_bit 2 val OR tclass))"

definition ber_fetch_tag :: "u8 list \<Rightarrow> u32 \<Rightarrow> int \<times> u32" where
  "ber_fetch_tag ptr tag_r =
     (case ptr of
        [] \<Rightarrow> (0, tag_r)
      | b # bs \<Rightarrow>
          let val = ucast b; tclass = drop_bit 6 val; val = val AND 0x1F in
          if val \<noteq> 0x1F then (1, push_bit 2 val OR tclass)
          else fetch_tag_loop tclass 0 2 bs tag_r)"

text \<open>The loop that counts the octets; it leaves \<open>i\<close> and \<open>required_size\<close>.\<close>

function tag_required_size :: "u32 \<Rightarrow> nat \<Rightarrow> nat \<Rightarrow> nat \<times> nat" where
  "tag_required_size tval i required_size =
     (if i < 32 \<and> drop_bit i tval \<noteq> 0 then tag_required_size tval (i + 7) (required_size + 1)
      else (i, required_size))"
  by pat_completeness auto
termination
  by (relation "measure (\<lambda>(tval, i, r). 32 - i)") auto

declare tag_required_size.simps [simp del]

text \<open>The loop that stores \<open>n\<close> octets from \<open>buf\<close> to \<open>end\<close>.\<close>

fun tag_fill :: "u32 \<Rightarrow> nat \<Rightarrow> nat \<Rightarrow> u8 list" where
  "tag_fill tval i 0 = []"
| "tag_fill tval i (Suc n) = ucast (0x80 OR (drop_bit i tval AND 0x7F)) # tag_fill tval (i - 7) n"

definition ber_tlv_tag_serialize :: "u32 \<Rightarrow> nat \<Rightarrow> nat \<times> u8 list" where
  "ber_tlv_tag_serialize tag sz =
     (let tclass = BER_TAG_CLASS tag; tval = BER_TAG_VALUE tag in
      if tval \<le> 30 then (1, if sz \<noteq> 0 then [ucast (push_bit 6 tclass OR tval)] else [])
      else
        let first = (if sz \<noteq> 0 then [ucast (push_bit 6 tclass OR 0x1F)] else []);
            sz = sz - 1;
            (i, required_size) = tag_required_size tval 7 1
        in if sz < required_size then (required_size + 1, first)
           else (required_size + 1,
                 first @ tag_fill tval (i - 7) (required_size - 1) @ [ucast (tval AND 0x7F)]))"

text \<open>Tags as numbers of seven-bit groups.\<close>

lemma tag_group: "push_bit 7 (drop_bit (i + 7) t) OR (drop_bit i t AND 0x7F) = drop_bit i (t :: u32)"
proof -
  have "drop_bit i t AND 0x7F = take_bit 7 (drop_bit i t)" by (simp add: take_bit_eq_mask mask_eq_exp_minus_1)
  then show ?thesis by (intro bit_word_eqI) (auto simp: bit_simps)
qed

lemma group_u8: "ucast (ucast (0x80 OR (x AND 0x7F)) AND (0x7F :: u8)) = (x :: u32) AND 0x7F"
  "ucast (0x80 OR ((x :: u32) AND 0x7F)) AND (0x80 :: u8) \<noteq> 0"
  "ucast (ucast (x AND 0x7F) :: u8) = x AND 0x7F" "ucast ((x :: u32) AND 0x7F) AND (0x80 :: u8) = 0"
proof -
  have m: "(0x7F :: u32) = mask 7" "(0x7F :: u8) = mask 7" by (simp_all add: mask_eq_exp_minus_1)
  have "(0x80 :: u32) = 2 ^ 7" "(0x80 :: u8) = 2 ^ 7" "(0x80 :: int) = 2 ^ 7" "(0x80 :: nat) = 2 ^ 7" by simp_all
  then have b: "bit (0x80 :: u32) n \<longleftrightarrow> n = 7" "bit (0x80 :: u8) n \<longleftrightarrow> n = 7" "bit (0x80 :: int) n \<longleftrightarrow> n = 7"
    "bit (0x80 :: nat) n \<longleftrightarrow> n = 7" for n
    by (simp_all only: bit_exp_iff) auto
  show "ucast (ucast (0x80 OR (x AND 0x7F)) AND (0x7F :: u8)) = x AND 0x7F"
    unfolding m by (rule bit_word_eqI) (auto simp: bit_simps b)
  have "bit (ucast (0x80 OR (x AND 0x7F)) AND (0x80 :: u8)) 7" by (simp add: bit_simps b)
  then show "ucast (0x80 OR (x AND 0x7F)) AND (0x80 :: u8) \<noteq> 0" by (metis bit_0_eq bot_apply bot_bool_def)
  show "ucast (ucast (x AND 0x7F) :: u8) = x AND 0x7F"
    unfolding m by (rule bit_word_eqI) (auto simp: bit_simps)
  show "ucast (x AND 0x7F) AND (0x80 :: u8) = 0"
    unfolding m by (rule bit_word_eqI) (auto simp: bit_simps b)
qed

lemma fetch_fill:
  assumes "drop_bit 30 t = 0"
  shows "fetch_tag_loop tclass (drop_bit (7 * Suc n) t) sk (tag_fill t (7 * n) n @ ucast (t AND 0x7F) # rest) tag_r =
    (int (sk + n), push_bit 2 t OR tclass)"
proof (induction n arbitrary: sk)
  case 0
  then show ?case using tag_group [of 0 t] by (simp add: group_u8 Let_def)
next
  case (Suc n)
  have "drop_bit (7 * Suc n + 7) t = drop_bit (7 * Suc (Suc n)) t" by (simp add: algebra_simps)
  with tag_group [of "7 * Suc n" t] have e: "push_bit 7 (drop_bit (7 * Suc (Suc n)) t) OR
      (drop_bit (7 * Suc n) t AND 0x7F) = drop_bit (7 * Suc n) t" by simp
  have "drop_bit 23 (drop_bit (7 * Suc n) t) = drop_bit (7 * n) (drop_bit 30 t)"
    by (simp add: drop_bit_drop_bit algebra_simps)
  then have "drop_bit 23 (drop_bit (7 * Suc n) t) = 0" using assms by simp
  moreover have "7 * Suc n - 7 = 7 * n" by simp
  ultimately show ?case using Suc [of "sk + 1"]
    by (simp add: group_u8 Let_def e del: mult_Suc_right)
qed


lemma tag_required_size_ok:
  "\<exists>n. tag_required_size t (7 * k) k = (7 * n, n) \<and> k \<le> n \<and> drop_bit (7 * n) t = 0"
proof (induction "32 - 7 * k" arbitrary: k rule: less_induct)
  case less
  show ?case
  proof (cases "7 * k < 32 \<and> drop_bit (7 * k) t \<noteq> 0")
    case True
    then have "7 * k < 32" by simp
    then have "32 - 7 * (k + 1) < 32 - 7 * k" by arith
    from less.hyps [OF this] obtain n where
      n: "tag_required_size t (7 * (k + 1)) (k + 1) = (7 * n, n)" "k + 1 \<le> n" "drop_bit (7 * n) t = 0" by blast
    have "7 * (k + 1) = 7 * k + 7" by simp
    with n True have "tag_required_size t (7 * k) k = (7 * n, n)" by (subst tag_required_size.simps) (simp add: add.commute)
    with n(2,3) show ?thesis by (intro exI [of _ n]) simp
  next
    case False
    have "drop_bit (7 * k) t = 0" if "\<not> 7 * k < 32"
      using that by (intro bit_word_eqI) (auto simp: bit_simps)
    with False show ?thesis by (subst tag_required_size.simps) auto
  qed
qed

lemma tag_parts: "push_bit 2 (drop_bit 2 t) OR (t AND 3) = (t :: u32)" "drop_bit 30 (drop_bit 2 t) = (0 :: u32)"
proof -
  have "t AND 3 = take_bit 2 t" by (simp add: take_bit_eq_mask mask_eq_exp_minus_1)
  moreover have "2 \<le> n \<Longrightarrow> Suc (Suc (n - 2)) = n" for n by simp
  ultimately show "push_bit 2 (drop_bit 2 t) OR (t AND 3) = t" by (intro bit_word_eqI) (auto simp: bit_simps not_less)
  show "drop_bit 30 (drop_bit 2 t) = 0" by (rule bit_word_eqI) (auto simp: bit_simps)
qed

lemma identifier_octet:
  fixes c v :: u32
  assumes "v AND NOT 0x1F = 0" "c AND NOT 3 = 0"
  shows "drop_bit 6 (ucast (ucast (push_bit 6 c OR v) :: u8)) = c" "ucast (ucast (push_bit 6 c OR v) :: u8) AND 0x1F = v"
proof -
  have m: "(0x1F :: u32) = mask 5" "(3 :: u32) = mask 2" by (simp_all add: mask_eq_exp_minus_1)
  have v: "bit v n \<Longrightarrow> n < 5" and c: "bit c n \<Longrightarrow> n < 2" for n
    using assms [THEN arg_cong [where f = "\<lambda>w. bit w n"]] by (auto simp: m bit_simps dest: bit_imp_le_length)
  show "drop_bit 6 (ucast (ucast (push_bit 6 c OR v) :: u8)) = c"
    by (rule bit_word_eqI) (auto simp: bit_simps dest: v c)
  show "ucast (ucast (push_bit 6 c OR v) :: u8) AND 0x1F = v"
    unfolding m by (rule bit_word_eqI) (auto simp: bit_simps dest: v)
qed

lemma small_masks: "(v :: u32) \<le> 30 \<Longrightarrow> v AND NOT 0x1F = 0" "(t AND 3) AND NOT (3 :: u32) = 0"
proof -
  assume "v \<le> 30"
  then have "v < 2 ^ 5" by (simp add: word_le_nat_alt word_less_nat_alt)
  then have "take_bit 5 v = v" by (metis less_mask_eq take_bit_eq_mask mask_eq_exp_minus_1)
  moreover have "(0x1F :: u32) = mask 5" by (simp add: mask_eq_exp_minus_1)
  ultimately show "v AND NOT 0x1F = 0" by (metis bit.conj_cancel_right take_bit_eq_mask word_bw_assocs(1) word_and_not word_log_esimps(1) and_zero_eq)
next
  show "(t AND 3) AND NOT (3 :: u32) = 0" by (simp only: and.assoc bit.conj_cancel_right and_zero_eq)
qed


lemma length_tag_fill [simp]: "length (tag_fill t i n) = n"
  by (induction n arbitrary: i) simp_all

lemma tag_serialize_ok:
  assumes "ber_tlv_tag_serialize tag sz = (n, out)"
  shows "0 < n" "length out = (if n \<le> sz then n else if sz = 0 then 0 else 1)"
    "n \<le> sz \<Longrightarrow> ber_fetch_tag (out @ rest) tag_r = (int n, tag)"
proof -
  define v where "v = BER_TAG_VALUE tag"
  define c where "c = BER_TAG_CLASS tag"
  have tag: "push_bit 2 v OR c = tag" "drop_bit 30 v = 0" using tag_parts [of tag] by (simp_all add: v_def c_def)
  have c: "c AND NOT 3 = 0" unfolding c_def by (rule small_masks)
  have "0 < n \<and> length out = (if n \<le> sz then n else if sz = 0 then 0 else 1) \<and>
    (n \<le> sz \<longrightarrow> ber_fetch_tag (out @ rest) tag_r = (int n, tag))"
  proof (cases "v \<le> 30")
    case True
    then have "v \<noteq> 0x1F" by auto
    with True assms identifier_octet [OF small_masks(1) [OF True] c] tag show ?thesis
      by (auto simp: ber_tlv_tag_serialize_def Let_def ber_fetch_tag_def v_def [symmetric] c_def [symmetric] split: if_splits)
  next
    case False
    from tag_required_size_ok [of v 1] obtain r where
      r: "tag_required_size v 7 1 = (7 * r, r)" "1 \<le> r" "drop_bit (7 * r) v = 0" by auto
    obtain k where k: "r = Suc k" using r(2) by (cases r) auto
    have i: "drop_bit 6 (ucast (ucast (push_bit 6 c OR 0x1F) :: u8)) = c"
      "ucast (ucast (push_bit 6 c OR 0x1F) :: u8) AND 0x1F = (0x1F :: u32)"
      using identifier_octet [OF _ c, of "0x1F"] by simp_all
    have "ber_fetch_tag (ucast (push_bit 6 c OR 0x1F) # tag_fill v (7 * k) k @ ucast (v AND 0x7F) # rest) tag_r = (int (Suc r), tag)"
      using fetch_fill [OF tag(2), of c k 2 rest tag_r] r(3) i tag(1) by (simp add: ber_fetch_tag_def Let_def k)
    with False assms r(1) show ?thesis
      by (auto simp: ber_tlv_tag_serialize_def Let_def v_def [symmetric] c_def [symmetric] k split: if_splits)
  qed
  then show "0 < n" "length out = (if n \<le> sz then n else if sz = 0 then 0 else 1)"
    "n \<le> sz \<Longrightarrow> ber_fetch_tag (out @ rest) tag_r = (int n, tag)" by auto
qed

lemma fetch_tag_loop_bounds:
  "fetch_tag_loop tclass val sk ptr tag_r = (r, t) \<Longrightarrow>
   r = -1 \<or> r = 0 \<or> int sk \<le> r \<and> r < int (sk + length ptr)"
  by (induction tclass val sk ptr tag_r rule: fetch_tag_loop.induct) (fastforce simp: Let_def split: if_splits)+

lemma fetch_tag_loop_more:
  "fetch_tag_loop tclass val sk ptr tag_r = (r, t) \<Longrightarrow> r \<noteq> 0 \<Longrightarrow> fetch_tag_loop tclass val sk (ptr @ more) tag_r = (r, t)"
  by (induction tclass val sk ptr tag_r rule: fetch_tag_loop.induct) (auto simp: Let_def split: if_splits)

lemma fetch_tag_bounds: "ber_fetch_tag ptr tag_r = (r, t) \<Longrightarrow> r = -1 \<or> r = 0 \<or> 1 \<le> r \<and> r \<le> int (length ptr)"
  by (auto simp: ber_fetch_tag_def Let_def split: list.splits if_splits dest!: fetch_tag_loop_bounds)

lemma fetch_tag_more: "ber_fetch_tag ptr tag_r = (r, t) \<Longrightarrow> r \<noteq> 0 \<Longrightarrow> ber_fetch_tag (ptr @ more) tag_r = (r, t)"
  by (auto simp: ber_fetch_tag_def Let_def fetch_tag_loop_more split: list.splits if_splits)

section \<open>Lengths\<close>

text \<open>\<open>RSIZE_MAX\<close> and \<open>RSSIZE_MAX\<close> of \<open>asn_system.h\<close>.\<close>

definition RSIZE_MAX :: nat where "RSIZE_MAX = 2 ^ 63 - 1"
definition RSSIZE_MAX :: int where "RSSIZE_MAX = 2 ^ 62 - 1"

text \<open>
  The loop over the octets of a long length: \<open>len\<close>, \<open>skipped\<close> and \<open>oct\<close> when it ends, \<open>None\<close> for
  the return from within it.
\<close>

fun fetch_length_loop :: "int \<Rightarrow> nat \<Rightarrow> nat \<Rightarrow> u8 list \<Rightarrow> (int \<times> nat \<times> nat) option" where
  "fetch_length_loop len skipped 0 buf = Some (len, skipped, 0)"
| "fetch_length_loop len skipped (Suc oct) [] = Some (len, skipped + 1, Suc oct)"
| "fetch_length_loop len skipped (Suc oct) (b # buf) =
     (if drop_bit (64 - (8 + 1)) len = 0
      then fetch_length_loop (push_bit 8 len OR uint b) (skipped + 1) oct buf
      else None)"

definition ber_fetch_length :: "bool \<Rightarrow> u8 list \<Rightarrow> int \<Rightarrow> int \<times> int" where
  "ber_fetch_length is_constructed ptr len_r =
     (case ptr of
        [] \<Rightarrow> (0, len_r)
      | oct # buf \<Rightarrow>
          if oct AND 0x80 = 0 then (1, uint oct)
          else if is_constructed \<and> oct = 0x80 then (1, -1)
          else if oct = 0xFF then (-1, len_r)
          else
            case fetch_length_loop 0 1 (unat (oct AND 0x7F)) buf of
              None \<Rightarrow> (-1, len_r)
            | Some (len, skipped, oct) \<Rightarrow>
                if oct = 0 then
                  if len < 0 \<or> RSSIZE_MAX < len then (-1, len_r) else (int skipped, len)
                else (0, len_r))"

function length_required_size :: "int \<Rightarrow> nat \<Rightarrow> nat \<Rightarrow> nat \<times> nat" where
  "length_required_size len i required_size =
     (if i < 64 \<and> drop_bit i len \<noteq> 0 then length_required_size len (i + 8) (required_size + 1)
      else (i, required_size))"
  by pat_completeness auto
termination
  by (relation "measure (\<lambda>(len, i, r). 64 - i)") auto

declare length_required_size.simps [simp del]

fun length_fill :: "int \<Rightarrow> nat \<Rightarrow> nat \<Rightarrow> u8 list" where
  "length_fill len i 0 = []"
| "length_fill len i (Suc n) = of_int (drop_bit i len) # length_fill len (i - 8) n"

definition der_tlv_length_serialize :: "int \<Rightarrow> nat \<Rightarrow> nat \<times> u8 list" where
  "der_tlv_length_serialize len sz =
     (if len \<le> 127 then (1, if sz \<noteq> 0 then [of_int len] else [])
      else
        let (i, required_size) = length_required_size len 8 1
        in if sz \<le> required_size then (required_size + 1, [])
           else (required_size + 1, ucast (0x80 OR of_nat required_size :: u32) # length_fill len (i - 8) required_size))"

lemma octet_or: "0 \<le> len \<Longrightarrow> push_bit 8 len OR uint (b :: u8) = len * 256 + uint b"
  using or_low_add_int [of "uint b" 8 len] uint_lt2p [of b] by (simp add: push_bit_eq_mult)

lemma drop_55: "0 \<le> len \<Longrightarrow> drop_bit 55 len = 0 \<longleftrightarrow> len < 2 ^ 55" for len :: int
  by (auto simp: drop_bit_eq_div zdiv_eq_0_iff)

lemma fetch_length_loop_ok:
  assumes "0 \<le> len" "len * 256 ^ length bs + int (octets_val bs) < 2 ^ 62"
  shows "fetch_length_loop len sk (length bs) (bs @ rest) = Some (len * 256 ^ length bs + int (octets_val bs), sk + length bs, 0)"
  using assms
proof (induction bs arbitrary: len sk)
  case (Cons b bs)
  have p: "(1 :: int) \<le> 256 ^ length bs" by simp
  have "len * 256 \<le> len * 256 * 256 ^ length bs" using mult_left_mono [OF p, of "len * 256"] Cons.prems(1) by simp
  also have "\<dots> \<le> len * 256 ^ length (b # bs) + int (octets_val (b # bs))" by simp
  also have "\<dots> < 2 ^ 62" by (rule Cons.prems(2))
  finally have "len < 2 ^ 55" by simp
  moreover have u: "uint b = int (unat b)" by simp
  moreover have "(len * 256 + uint b) * 256 ^ length bs + int (octets_val bs) = len * 256 ^ length (b # bs) + int (octets_val (b # bs))"
    by (simp add: octets_val_Cons algebra_simps)
  ultimately show ?case using Cons.IH [of "len * 256 + uint b" "sk + 1"] Cons.prems
    by (simp add: octet_or drop_55)
qed simp

lemma fetch_length_loop_big:
  assumes "0 \<le> len" "fetch_length_loop len sk (length bs) (bs @ rest) = Some (v, sk', 0)"
  shows "v = len * 256 ^ length bs + int (octets_val bs)" "sk' = sk + length bs"
proof -
  have "v = len * 256 ^ length bs + int (octets_val bs) \<and> sk' = sk + length bs"
    using assms
  proof (induction bs arbitrary: len sk)
    case (Cons b bs)
    then have "fetch_length_loop (len * 256 + uint b) (sk + 1) (length bs) (bs @ rest) = Some (v, sk', 0)"
      by (auto simp: octet_or split: if_splits)
    from Cons.IH [OF _ this] Cons.prems(1) show ?case by (simp add: octets_val_Cons algebra_simps)
  qed simp
  then show "v = len * 256 ^ length bs + int (octets_val bs)" "sk' = sk + length bs" by auto
qed

lemma fetch_length_loop_all: "fetch_length_loop len sk (length bs) (bs @ rest) = None \<or>
    (\<exists>v sk'. fetch_length_loop len sk (length bs) (bs @ rest) = Some (v, sk', 0))"
  by (induction bs arbitrary: len sk) auto


lemma octet_flag: "n < 128 \<Longrightarrow> (of_nat (128 + n) :: u8) AND 0x80 \<noteq> 0"
  "n < 128 \<Longrightarrow> unat (of_nat (128 + n) AND (0x7F :: u8)) = n" "n < 128 \<Longrightarrow> unat (of_nat (128 + n) :: u8) = 128 + n"
proof -
  have m: "(0x7F :: u8) = mask 7" by (simp add: mask_eq_exp_minus_1)
  show u: "n < 128 \<Longrightarrow> unat (of_nat (128 + n) :: u8) = 128 + n"
    by (simp only: unsigned_of_nat take_bit_eq_mod) simp
  show "n < 128 \<Longrightarrow> (of_nat (128 + n) :: u8) AND 0x80 \<noteq> 0"
    unfolding top_bit_u8 u by simp
  have "unat (take_bit 7 w) = unat w mod 128" for w :: u8
    by (simp only: unsigned_take_bit_eq) (simp add: take_bit_eq_mod)
  then show "n < 128 \<Longrightarrow> unat (of_nat (128 + n) AND (0x7F :: u8)) = n"
    unfolding m take_bit_eq_mask [symmetric] using u by (simp only:) simp
qed


lemma length_required_size_ok:
  assumes "0 \<le> len" "len < 2 ^ 64" "1 \<le> k" "k \<le> 8" "2 ^ (8 * (k - 1)) \<le> len"
  shows "\<exists>n. length_required_size len (8 * k) k = (8 * n, n) \<and> k \<le> n \<and> n \<le> 8 \<and> len < 2 ^ (8 * n) \<and> 2 ^ (8 * (n - 1)) \<le> len"
  using assms(3-5)
proof (induction "64 - 8 * k" arbitrary: k rule: less_induct)
  case less
  have d: "drop_bit (8 * k) len = 0 \<longleftrightarrow> len < 2 ^ (8 * k)"
    using assms(1) by (auto simp: drop_bit_eq_div zdiv_eq_0_iff)
  show ?case
  proof (cases "8 * k < 64 \<and> drop_bit (8 * k) len \<noteq> 0")
    case True
    then have "8 * k < 64" by simp
    then have "64 - 8 * (k + 1) < 64 - 8 * k" "k + 1 \<le> 8" "1 \<le> k + 1" by arith+
    moreover have "2 ^ (8 * (k + 1 - 1)) \<le> len" using True d by simp
    ultimately obtain n where n: "length_required_size len (8 * (k + 1)) (k + 1) = (8 * n, n)" "k + 1 \<le> n" "n \<le> 8"
      "len < 2 ^ (8 * n)" "2 ^ (8 * (n - 1)) \<le> len"
      using less.hyps [of "k + 1"] by blast
    have "length_required_size len (8 * k) k = (8 * n, n)"
      using n(1) True by (subst length_required_size.simps) (simp add: add.commute)
    with n show ?thesis by (intro exI [of _ n]) simp
  next
    case False
    have "8 * k < 64 \<or> k = 8" using less.prems by auto
    with False d assms(2) have "len < 2 ^ (8 * k)" by auto
    with False less.prems show ?thesis by (subst length_required_size.simps) auto
  qed
qed

lemma length_fill: "0 \<le> len \<Longrightarrow> length_fill len (8 * n - 8) n = be_octets n (nat len)"
proof (induction n)
  case (Suc n)
  have "be_octets (Suc n) (nat len) = be_octets 1 (nat len div 256 ^ n) @ be_octets n (nat len)"
    using be_octets_add [of 1 n "nat len"] by simp
  moreover have "(of_int (drop_bit (8 * n) len) :: u8) = of_nat (nat len div 256 ^ n)"
  proof -
    have "drop_bit (8 * n) len = int (nat len div 256 ^ n)"
      using Suc.prems by (simp add: drop_bit_eq_div zdiv_int power_mult)
    then show ?thesis by simp
  qed
  ultimately show ?case using Suc by (simp add: be_octets_numerals)
qed simp

lemma length_serialize_ok:
  assumes "der_tlv_length_serialize len sz = (n, out)" "0 \<le> len" "len \<le> RSSIZE_MAX"
  shows "0 < n" "length out = (if n \<le> sz then n else 0)"
    "n \<le> sz \<Longrightarrow> ber_fetch_length is_constructed (out @ rest) len_r = (int n, len)"
proof -
  have "0 < n \<and> length out = (if n \<le> sz then n else 0) \<and>
    (n \<le> sz \<longrightarrow> ber_fetch_length is_constructed (out @ rest) len_r = (int n, len))"
  proof (cases "len \<le> 127")
    case True
    have "uint (of_int len :: u8) = len" using True assms(2) by (simp add: unsigned_of_int take_bit_int_eq_self)
    moreover from this have "unat (of_int len :: u8) < 128" using True assms(2) by (simp add: unat_eq_nat_uint)
    ultimately show ?thesis using True assms by (auto simp: der_tlv_length_serialize_def ber_fetch_length_def top_bit_u8)
  next
    case False
    have b: "len < 2 ^ 62" using assms(3) by (simp add: RSSIZE_MAX_def)
    then have "len < 2 ^ 64" by simp
    with length_required_size_ok [of len 1] False obtain r where
      r: "length_required_size len 8 1 = (8 * r, r)" "1 \<le> r" "r \<le> 8" "len < 2 ^ (8 * r)" by auto
    define o1 :: u8 where "o1 = ucast (0x80 OR of_nat r :: u32)"
    have o1: "o1 = of_nat (128 + r)"
    proof -
      have "r \<in> {1, 2, 3, 4, 5, 6, 7, 8}" using r by auto
      then show ?thesis by (auto simp: o1_def)
    qed
    have "int (octets_val (be_octets r (nat len))) = len"
    proof -
      have "nat len < 256 ^ r"
        using r(4) assms(2) by (simp add: nat_less_iff power_mult)
      then show ?thesis using assms(2) by simp
    qed
    then have "fetch_length_loop 0 1 r (be_octets r (nat len) @ rest) = Some (len, Suc r, 0)"
      using fetch_length_loop_ok [of 0 "be_octets r (nat len)" 1 rest] b by simp
    moreover have "o1 AND 0x80 \<noteq> 0" "unat (o1 AND 0x7F) = r" "unat o1 = 128 + r"
      unfolding o1 using octet_flag [of r] r(3) by simp_all
    moreover from this have "o1 \<noteq> 0x80" "o1 \<noteq> 0xFF" using r by auto
    ultimately have "ber_fetch_length is_constructed (o1 # be_octets r (nat len) @ rest) len_r = (int (Suc r), len)"
      using assms(2,3) by (simp add: ber_fetch_length_def)
    then show ?thesis using assms False r(1) length_fill [OF assms(2), of r]
      by (auto simp: der_tlv_length_serialize_def o1_def split: if_splits)
  qed
  then show "0 < n" "length out = (if n \<le> sz then n else 0)"
    "n \<le> sz \<Longrightarrow> ber_fetch_length is_constructed (out @ rest) len_r = (int n, len)" by auto
qed

text \<open>The loop stops inside the octets it has.\<close>

lemma fetch_length_loop_bounds:
  "0 \<le> len \<Longrightarrow> fetch_length_loop len sk n buf = Some (v, sk', n') \<Longrightarrow>
   0 \<le> v \<and> (n' = 0 \<longrightarrow> sk' = sk + n \<and> n \<le> length buf)"
  by (induction len sk n buf rule: fetch_length_loop.induct) (auto simp: octet_or split: if_splits)

lemma fetch_length_loop_more:
  "fetch_length_loop len sk n buf = Some (v, sk', 0) \<Longrightarrow> fetch_length_loop len sk n (buf @ more) = Some (v, sk', 0)"
  "fetch_length_loop len sk n buf = None \<Longrightarrow> fetch_length_loop len sk n (buf @ more) = None"
  by (induction len sk n buf rule: fetch_length_loop.induct) (auto split: if_splits)

lemma fetch_length_bounds:
  assumes "ber_fetch_length c ptr len_r = (r, v)"
  shows "r = -1 \<or> r = 0 \<or> 1 \<le> r \<and> r \<le> int (length ptr) \<and> (0 \<le> v \<and> v \<le> RSSIZE_MAX \<or> c \<and> v = -1)"
proof (cases ptr)
  case Nil
  with assms show ?thesis by (simp add: ber_fetch_length_def)
next
  case (Cons b bs)
  have "uint b \<le> RSSIZE_MAX" using uint_lt2p [of b] by (simp add: RSSIZE_MAX_def)
  moreover define n where "n = unat (b AND 0x7F)"
  ultimately show ?thesis using assms Cons fetch_length_loop_bounds [of 0 1 n bs]
    by (auto simp: ber_fetch_length_def n_def [symmetric] split: if_splits option.splits)
qed

lemma fetch_length_more:
  "ber_fetch_length c ptr len_r = (r, v) \<Longrightarrow> r \<noteq> 0 \<Longrightarrow> ber_fetch_length c (ptr @ more) len_r = (r, v)"
  by (auto simp: ber_fetch_length_def fetch_length_loop_more split: list.splits if_splits option.splits)

text \<open>
  Skipping a length and its contents. \<open>stack_ok d\<close> is the result of \<open>ASN__STACK_OVERFLOW_CHECK\<close>
  in the \<open>d\<close>-th nested call.
\<close>

lemma fetch_tag_pos: "0 < fst (ber_fetch_tag ptr t) \<Longrightarrow> ptr \<noteq> []"
  by (auto simp: ber_fetch_tag_def)

lemma fetch_length_pos: "0 < fst (ber_fetch_length c ptr l) \<Longrightarrow> ptr \<noteq> []"
  by (auto simp: ber_fetch_length_def)

function ber_skip_length :: "(nat \<Rightarrow> bool) \<Rightarrow> nat \<Rightarrow> bool \<Rightarrow> u8 list \<Rightarrow> int option"
  and skip_contents :: "(nat \<Rightarrow> bool) \<Rightarrow> nat \<Rightarrow> int \<Rightarrow> u8 list \<Rightarrow> int option" where
  "ber_skip_length stack_ok d is_constructed ptr =
     (if \<not> stack_ok d then Some (-1)
      else
        let (ll, vlen) = ber_fetch_length is_constructed ptr 0 in
        if ll \<le> 0 then Some ll
        else if 0 \<le> vlen then
          let skip = ll + vlen in Some (if int (length ptr) < skip then 0 else skip)
        else skip_contents stack_ok d ll (drop (nat ll) ptr))"
| "skip_contents stack_ok d skip ptr =
     (let (tl, tag) = ber_fetch_tag ptr 0 in
      if tl \<le> 0 then Some tl
      else
        case ber_skip_length stack_ok (d + 1) (BER_TLV_CONSTRUCTED (hd ptr)) (drop (nat tl) ptr) of
          None \<Rightarrow> None
        | Some ll \<Rightarrow>
            if ll \<le> 0 then Some ll
            else
              case rd ptr 1 of
                None \<Rightarrow> None
              | Some b1 \<Rightarrow>
                  if hd ptr = 0 \<and> b1 = 0 then Some (skip + tl + ll)
                  else skip_contents stack_ok d (skip + tl + ll) (drop (nat (tl + ll)) ptr))"
  by pat_completeness auto
termination
proof (relation "measure (\<lambda>x. case x of Inl (s, d, c, ptr) \<Rightarrow> length ptr | Inr (s, d, k, ptr) \<Rightarrow> length ptr)", goal_cases)
  case (2 s d c ptr x ll vlen)
  then have "fst (ber_fetch_length c ptr 0) = ll" by (metis fst_conv)
  with 2 show ?case using fetch_length_pos [of c ptr 0] by (cases ptr) auto
next
  case (3 s d k ptr x tl tag)
  then have "fst (ber_fetch_tag ptr 0) = tl" by (metis fst_conv)
  with 3 show ?case using fetch_tag_pos [of ptr 0] by (cases ptr) auto
next
  case (4 s d k ptr x tl tag ll b1)
  then have "fst (ber_fetch_tag ptr 0) = tl" by (metis fst_conv)
  with 4 show ?case using fetch_tag_pos [of ptr 0] by (cases ptr) auto
qed simp

declare ber_skip_length.simps [simp del] skip_contents.simps [simp del]

lemma skip_total:
  "\<exists>r. ber_skip_length s d c ptr = Some r \<and> (r = -1 \<or> r = 0 \<or> 1 \<le> r \<and> r \<le> int (length ptr))"
  "0 \<le> k \<Longrightarrow> \<exists>r. skip_contents s d k ptr = Some r \<and> (r = -1 \<or> r = 0 \<or> k + 2 \<le> r \<and> r \<le> k + int (length ptr))"
proof (induction s d c ptr and s d k ptr rule: ber_skip_length_skip_contents.induct)
  case (1 s d c ptr)
  obtain ll v where f: "ber_fetch_length c ptr 0 = (ll, v)" by fastforce
  note b = fetch_length_bounds [OF f]
  show ?case
  proof (cases "s d \<and> 0 < ll \<and> v < 0")
    case True
    then have "0 \<le> ll" "\<not> ll \<le> 0" by auto
    from 1 [OF _ f [symmetric] refl] True obtain r where
      "skip_contents s d ll (drop (nat ll) ptr) = Some r" "r = -1 \<or> r = 0 \<or> ll + 2 \<le> r \<and> r \<le> ll + int (length (drop (nat ll) ptr))"
      by auto
    moreover have "ll \<le> int (length ptr)" using b True by auto
    ultimately show ?thesis using True by (subst ber_skip_length.simps) (auto simp: f)
  next
    case False
    then show ?thesis using b by (subst ber_skip_length.simps) (auto simp: f Let_def)
  qed
next
  case (2 s d k ptr)
  obtain tl tag where f: "ber_fetch_tag ptr 0 = (tl, tag)" by fastforce
  note b = fetch_tag_bounds [OF f]
  show ?case
  proof (cases "0 < tl")
    case False
    then show ?thesis using b by (subst skip_contents.simps) (auto simp: f)
  next
    case True
    with "2.IH"(1) [OF f [symmetric] refl] obtain ll where
      l: "ber_skip_length s (d + 1) (BER_TLV_CONSTRUCTED (hd ptr)) (drop (nat tl) ptr) = Some ll"
        "ll = -1 \<or> ll = 0 \<or> 1 \<le> ll \<and> ll \<le> int (length (drop (nat tl) ptr))" by auto
    show ?thesis
    proof (cases "0 < ll")
      case False
      then show ?thesis using l True by (subst skip_contents.simps) (auto simp: f)
    next
      case pos: True
      then have len: "tl + ll \<le> int (length ptr)" using l(2) b True by auto
      then have "1 < length ptr" using True pos by linarith
      then have r1: "rd ptr 1 = Some (ptr ! 1)" by simp
      show ?thesis
      proof (cases "hd ptr = 0 \<and> ptr ! 1 = 0")
        case eoc: True
        then show ?thesis using l True pos r1 len by (subst skip_contents.simps) (auto simp: f)
      next
        case False
        have "\<exists>r. skip_contents s d (k + tl + ll) (drop (nat (tl + ll)) ptr) = Some r \<and>
            (r = -1 \<or> r = 0 \<or> k + tl + ll + 2 \<le> r \<and> r \<le> k + tl + ll + int (length (drop (nat (tl + ll)) ptr)))"
          using "2.IH"(2) [OF f [symmetric] refl _ l(1) _ r1 False] True pos "2.prems" by simp
        then obtain r where "skip_contents s d (k + tl + ll) (drop (nat (tl + ll)) ptr) = Some r"
          "r = -1 \<or> r = 0 \<or> k + tl + ll + 2 \<le> r \<and> r \<le> k + int (length ptr)" using len True pos by auto
        with l True pos r1 False show ?thesis by (subst skip_contents.simps) (auto simp: f)
      qed
    qed
  qed
qed

section \<open>The grammar of lengths and contents\<close>

text \<open>
  X.690 #8.1.3: the octets of a definite length, short or long, and the lengths with their contents.
  An indefinite length is followed by complete encodings up to the two zero octets.
\<close>

definition definite_length :: "nat \<Rightarrow> u8 list \<Rightarrow> bool" where
  "definite_length n l \<longleftrightarrow> int n \<le> RSSIZE_MAX \<and>
     (n < 128 \<and> l = [of_nat n] \<or>
      (\<exists>os. l = of_nat (128 + length os) # os \<and> 1 \<le> length os \<and> length os \<le> 126 \<and> octets_val os = n))"

inductive length_value :: "bool \<Rightarrow> u8 list \<Rightarrow> bool"
  and tlv_series :: "u8 list \<Rightarrow> bool" where
  definite: "definite_length (length v) l \<Longrightarrow> length_value c (l @ v)"
| indefinite: "tlv_series ws \<Longrightarrow> length_value True (0x80 # ws)"
| end_of_contents: "tlv_series [0, 0]"
| element: "ber_fetch_tag t 0 = (int (length t), tag) \<Longrightarrow> t \<noteq> [] \<Longrightarrow>
    length_value (BER_TLV_CONSTRUCTED (hd t)) w \<Longrightarrow> \<not> (hd t = 0 \<and> hd w = 0) \<Longrightarrow>
    tlv_series ws \<Longrightarrow> tlv_series (t @ w @ ws)"

inductive_cases length_valueE: "length_value c w"
inductive_cases tlv_seriesE: "tlv_series ws"

lemma definite_length_ok:
  assumes "definite_length n l"
  shows "ber_fetch_length c (l @ rest) len_r = (int (length l), int n)" "l \<noteq> []"
proof -
  have "ber_fetch_length c (l @ rest) len_r = (int (length l), int n) \<and> l \<noteq> []"
    using assms unfolding definite_length_def
  proof (elim conjE disjE exE)
    assume "n < 128" "l = [of_nat n]"
    then show ?thesis by (simp add: ber_fetch_length_def top_bit_u8 unsigned_of_nat take_bit_eq_mod)
  next
    fix os assume a: "int n \<le> RSSIZE_MAX" "l = of_nat (128 + length os) # os" "1 \<le> length os" "length os \<le> 126" "octets_val os = n"
    define b :: u8 where "b = of_nat (128 + length os)"
    have b: "b AND 0x80 \<noteq> 0" "unat (b AND 0x7F) = length os" "unat b = 128 + length os"
      using octet_flag [of "length os"] a(4) by (simp_all add: b_def)
    then have ne: "b \<noteq> 0x80" "b \<noteq> 0xFF" using a(3,4) by auto
    have "fetch_length_loop 0 1 (length os) (os @ rest) = Some (int n, 1 + length os, 0)"
      using fetch_length_loop_ok [of 0 os 1 rest] a(1,5) by (simp add: RSSIZE_MAX_def)
    then have "ber_fetch_length c (b # os @ rest) len_r = (int (1 + length os), int n)"
      using b ne a(1) by (simp add: ber_fetch_length_def)
    then show ?thesis using a(2) by (simp add: b_def)
  qed
  then show "ber_fetch_length c (l @ rest) len_r = (int (length l), int n)" "l \<noteq> []" by simp_all
qed

lemma zero_tag: "ber_fetch_tag t 0 = (int (length t), tag) \<Longrightarrow> t \<noteq> [] \<Longrightarrow> hd t = 0 \<Longrightarrow> t = [0]"
  by (cases t) (auto simp: ber_fetch_tag_def)

lemma length_value_ne: "length_value c w \<Longrightarrow> w \<noteq> []"
  by (erule length_valueE) (auto dest: definite_length_ok(2))

lemma skip_grammar:
  "length_value c w \<Longrightarrow> (\<And>d. s d) \<Longrightarrow> ber_skip_length s d c (w @ rest) = Some (int (length w))"
  "tlv_series ws \<Longrightarrow> (\<And>d. s d) \<Longrightarrow> skip_contents s d k (ws @ rest) = Some (k + int (length ws))"
proof (induction arbitrary: d rest and d k rest rule: length_value_tlv_series.inducts)
  case (definite v l c)
  from definite_length_ok(1) [OF definite.hyps, of c "v @ rest" 0] definite_length_ok(2) [OF definite.hyps] definite.prems show ?case
    by (subst ber_skip_length.simps) (simp add: Let_def)
next
  case (indefinite ws)
  have "skip_contents s d 1 (ws @ rest) = Some (1 + int (length ws))"
    by (rule indefinite.IH) (rule indefinite.prems)
  with indefinite.prems show ?case by (subst ber_skip_length.simps) (simp add: ber_fetch_length_def)
next
  case end_of_contents
  have "ber_fetch_tag (0 # 0 # rest) 0 = (1, 0)" by (simp add: ber_fetch_tag_def)
  moreover have "ber_skip_length s (d + 1) False (0 # rest) = Some 1"
    using end_of_contents by (subst ber_skip_length.simps) (simp add: ber_fetch_length_def)
  moreover have "\<not> BER_TLV_CONSTRUCTED 0" by (simp add: BER_TLV_CONSTRUCTED_def)
  ultimately show ?case by (subst skip_contents.simps) simp
next
  case (element t tag w ws)
  have t: "ber_fetch_tag (t @ w @ ws @ rest) 0 = (int (length t), tag)"
    using fetch_tag_more [OF element.hyps(1)] element.hyps(2) by simp
  have w: "ber_skip_length s (d + 1) (BER_TLV_CONSTRUCTED (hd t)) (w @ ws @ rest) = Some (int (length w))"
    by (rule element.IH(1)) (rule element.prems)
  have wn: "w \<noteq> []" by (rule length_value_ne [OF element.hyps(3)])
  have l: "0 < length t" "0 < length w" using element.hyps(2) wn by simp_all
  have n: "\<not> (hd t = 0 \<and> (t @ w @ ws @ rest) ! 1 = 0)"
    using zero_tag [OF element.hyps(1,2)] element.hyps(4) wn by (auto simp: hd_conv_nth nth_append)
  have "1 < length (t @ w @ ws @ rest)" using l unfolding length_append by linarith
  then have r: "rd (t @ w @ ws @ rest) 1 = Some ((t @ w @ ws @ rest) ! 1)" by (rule rd_in)
  have "nat (int (length t) + int (length w)) = length t + length w" by simp
  then have dr: "drop (nat (int (length t) + int (length w))) (t @ w @ ws @ rest) = ws @ rest" by simp
  have h: "hd (t @ w @ ws @ rest) = hd t" using element.hyps(2) by simp
  have "skip_contents s d k (t @ w @ ws @ rest) =
      skip_contents s d (k + int (length t) + int (length w)) (ws @ rest)"
    by (subst skip_contents.simps) (use t w l n r dr h in auto)
  also have "\<dots> = Some (k + int (length t) + int (length w) + int (length ws))"
    by (rule element.IH(2)) (rule element.prems)
  finally show ?case by simp
qed

section \<open>Properties\<close>

text \<open>
  C22: every BER tag round trips. The octets that \<open>ber_tlv_tag_serialize\<close> stores when there is
  room are read back by \<open>ber_fetch_tag\<close> as the same tag, whatever follows; the size returned is
  the number of octets needed, and a buffer that is too small is not overrun.
\<close>

theorem ber_tag_roundtrip:
  assumes "ber_tlv_tag_serialize tag sz = (n, out)"
  shows "length out \<le> sz \<and> (n \<le> sz \<longrightarrow> length out = n \<and> ber_fetch_tag (out @ rest) tag_r = (int n, tag))"
  using tag_serialize_ok [OF assms] by auto

theorem ber_tag_roundtrip_witness:
  "length [0x9F, 0x81, 0x00 :: u8] \<le> 4 \<and> ber_fetch_tag ([0x9F, 0x81, 0x00] @ [5]) 0 = (3, 0x202)"
proof -
  have "ber_tlv_tag_serialize 0x202 4 = (3, [0x9F, 0x81, 0x00])"
    by code_simp
  from ber_tag_roundtrip [OF this, of "[5]" 0] show ?thesis by simp
qed


text \<open>
  C23: every length up to \<open>RSSIZE_MAX\<close> round trips through \<open>der_tlv_length_serialize\<close> and
  \<open>ber_fetch_length\<close>, for primitive and constructed encodings; a buffer that is too small is left
  alone.
\<close>

theorem ber_length_roundtrip:
  assumes "der_tlv_length_serialize len sz = (n, out)" "0 \<le> len" "len \<le> RSSIZE_MAX"
  shows "length out \<le> sz \<and>
    (n \<le> sz \<longrightarrow> length out = n \<and> ber_fetch_length is_constructed (out @ rest) len_r = (int n, len))"
  using length_serialize_ok [OF assms] by auto

theorem ber_length_roundtrip_witness:
  "length [0x82, 0x01, 0x2C :: u8] \<le> 3 \<and> ber_fetch_length True ([0x82, 0x01, 0x2C] @ []) 0 = (int 3, 300)"
proof -
  have "der_tlv_length_serialize 300 3 = (3, [0x82, 0x01, 0x2C])" by code_simp
  from ber_length_roundtrip [OF this, of True "[]" 0] show ?thesis by (simp add: RSSIZE_MAX_def)
qed

text \<open>
  C24: both readers work on a growing input as their callers use them. On any octets they return
  \<open>-1\<close>, \<open>0\<close> for "want more", or a count inside the input, and a length between \<open>0\<close> and
  \<open>RSSIZE_MAX\<close> or, for constructed encodings, \<open>-1\<close>; a result other than \<open>0\<close> is final: more
  octets do not change it.
\<close>

theorem ber_fetch_restartable:
  assumes "ber_fetch_tag ptr tag_r = (r, tag)" "ber_fetch_length c ptr len_r = (l, len)"
  shows "(r = -1 \<or> 0 \<le> r \<and> r \<le> int (length ptr)) \<and> (r \<noteq> 0 \<longrightarrow> ber_fetch_tag (ptr @ more) tag_r = (r, tag)) \<and>
    (l = -1 \<or> 0 \<le> l \<and> l \<le> int (length ptr)) \<and> (0 < l \<longrightarrow> 0 \<le> len \<and> len \<le> RSSIZE_MAX \<or> c \<and> len = -1) \<and>
    (l \<noteq> 0 \<longrightarrow> ber_fetch_length c (ptr @ more) len_r = (l, len))"
  using fetch_tag_bounds [OF assms(1)] fetch_tag_more [OF assms(1)] fetch_length_bounds [OF assms(2)]
    fetch_length_more [OF assms(2)] by auto

theorem ber_fetch_restartable_witness:
  "ber_fetch_tag ([0x05, 0x00] @ [7]) 0 = (1, 0x14) \<and> ber_fetch_length False ([0x05, 0x00] @ [7]) 0 = (1, 5)"
proof -
  have "ber_fetch_tag [0x05, 0x00] 0 = (1, 0x14)" "ber_fetch_length False [0x05, 0x00] 0 = (1, 5)" by code_simp+
  from ber_fetch_restartable [OF this, of "[7]"] show ?thesis by simp
qed

text \<open>
  C25: \<open>ber_skip_length\<close> returns on every input, hostile ones included, without reading outside it:
  the recursion ends whatever the stack check does, and the result is \<open>-1\<close>, \<open>0\<close>, or a count of
  octets inside the input.
\<close>

theorem ber_skip_length_total:
  "\<exists>r. ber_skip_length stack_ok d c ptr = Some r \<and> (r = -1 \<or> r = 0 \<or> 1 \<le> r \<and> r \<le> int (length ptr))"
  by (rule skip_total)

text \<open>
  C26: \<open>ber_skip_length\<close> skips exactly one length with its contents: on every string of the grammar,
  nested indefinite lengths included, it returns its size and looks at nothing behind it.
\<close>

theorem ber_skip_length_exact:
  assumes "length_value c w" "\<And>d. stack_ok d"
  shows "ber_skip_length stack_ok 0 c (w @ rest) = Some (int (length w))"
  by (rule skip_grammar(1) [OF assms])

theorem ber_skip_length_exact_witness:
  "ber_skip_length (\<lambda>_. True) 0 True ([0x80, 0x05, 0x01, 0xFF, 0x00, 0x00] @ [9]) = Some 6"
proof -
  have d: "definite_length (length [0xFF :: u8]) [1]" by (simp add: definite_length_def RSSIZE_MAX_def)
  have "length_value False ([1] @ [0xFF])" by (rule definite [OF d])
  then have lv: "length_value (BER_TLV_CONSTRUCTED (hd [5])) [1, 0xFF]" by (simp add: BER_TLV_CONSTRUCTED_def)
  have "ber_fetch_tag [5] 0 = (int (length [5 :: u8]), 0x14)" by code_simp
  from element [OF this _ lv _ end_of_contents] have "tlv_series [5, 1, 0xFF, 0, 0]" by simp
  then have "length_value True [0x80, 5, 1, 0xFF, 0, 0]" by (rule indefinite)
  from ber_skip_length_exact [OF this, of "\<lambda>_. True" "[9]"] show ?thesis by simp
qed

end
