(* ===== verification/Der_Frame.thy ===== *)
theory Der_Frame
  imports Ber_Tlv Integer Consumer
begin

unbundle bit_operations_syntax

text \<open>
  The chain of tags and lengths around a value: \<open>skeletons/der_encoder.c\<close>, \<open>ber_check_tags\<close> of
  \<open>ber_decoder.c\<close>, the codecs of primitive types of \<open>asn_codecs_prim_ber.c\<close>, and those of INTEGER,
  NativeInteger and BOOLEAN. Of the type descriptor these functions read \<open>td->tags\<close>, the list
  \<open>tags\<close> here.
\<close>

section \<open>Writing tags and lengths\<close>

text \<open>\<open>cb\<close> is \<open>None\<close> when the size is only estimated.\<close>

definition der_write_TL :: "u32 \<Rightarrow> int \<Rightarrow> 'k consumer option \<Rightarrow> 'k \<Rightarrow> bool \<Rightarrow> (int \<times> 'k) option" where
  "der_write_TL tag len cb app_key constructed =
     (let buf_size = (case cb of Some _ \<Rightarrow> 32 | None \<Rightarrow> 0);
          (tmp, t) = ber_tlv_tag_serialize tag buf_size in
      if 32 < tmp then Some (-1, app_key)
      else
        let (tmp2, l) = der_tlv_length_serialize len (if buf_size \<noteq> 0 then buf_size - tmp else 0);
            sz = tmp + tmp2
        in if 32 < sz then Some (-1, app_key)
           else
             case cb of
               None \<Rightarrow> Some (int sz, app_key)
             | Some cb \<Rightarrow> do {
                 let buf = t @ l;
                 buf \<leftarrow> (if constructed then do { b \<leftarrow> rd buf 0; wr buf 0 (b OR 0x20) } else Some buf);
                 out \<leftarrow> mem_load buf 0 sz;
                 (r, app_key) \<leftarrow> cb app_key out;
                 Some (if r < 0 then -1 else int sz, app_key) })"

text \<open>
  The loop from right to left that fills \<open>lens\<close>; it leaves \<open>overall_length\<close>. \<open>Some None\<close> is the
  return of \<open>-1\<close> from within it.
\<close>

fun write_tags_lens :: "u32 list \<Rightarrow> int \<Rightarrow> (int list \<times> int) option option" where
  "write_tags_lens [] struct_length = Some (Some ([], struct_length))"
| "write_tags_lens (tag # tags) struct_length = do {
     res \<leftarrow> write_tags_lens tags struct_length;
     case res of
       None \<Rightarrow> Some None
     | Some (lens, overall_length) \<Rightarrow> do {
         (l, k) \<leftarrow> der_write_TL tag overall_length None () False;
         Some (if l = -1 then None else Some (overall_length # lens, overall_length + l)) } }"

fun write_tags_loop :: "bool \<Rightarrow> (u32 \<times> int) list \<Rightarrow> 'k consumer \<Rightarrow> 'k \<Rightarrow> (bool \<times> 'k) option" where
  "write_tags_loop last_tag_form [] cb app_key = Some (True, app_key)"
| "write_tags_loop last_tag_form ((tag, len) # rest) cb app_key = do {
     (l, app_key) \<leftarrow> der_write_TL tag len (Some cb) app_key (last_tag_form \<or> rest \<noteq> []);
     if l = -1 then Some (False, app_key) else write_tags_loop last_tag_form rest cb app_key }"

text \<open>
  The tags that are written: \<open>tag_mode\<close> is \<open>-1\<close> for IMPLICIT, \<open>1\<close> for EXPLICIT, \<open>0\<close> for neither. The \<open>size_t\<close> of
  \<open>overall_length\<close> is passed on and returned as an \<open>ssize_t\<close>; for the lengths of objects, below \<open>2 ^ 63\<close>, these are one number.
\<close>

definition effective_tags :: "u32 list \<Rightarrow> int \<Rightarrow> u32 \<Rightarrow> u32 list" where
  "effective_tags tags tag_mode tag =
     (if tag_mode \<noteq> 0 then tag # (if tag_mode = -1 \<and> tags \<noteq> [] then tl tags else tags) else tags)"

definition der_write_tags ::
  "u32 list \<Rightarrow> nat \<Rightarrow> int \<Rightarrow> bool \<Rightarrow> u32 \<Rightarrow> 'k consumer option \<Rightarrow> 'k \<Rightarrow> (int \<times> 'k) option" where
  "der_write_tags sd_tags struct_length tag_mode last_tag_form tag cb app_key =
     (if 4 < length sd_tags + 1 then Some (-1, app_key)
      else
        let tags = effective_tags sd_tags tag_mode tag in
        if tags = [] then Some (0, app_key)
        else do {
          res \<leftarrow> write_tags_lens tags (int struct_length);
          case res of
            None \<Rightarrow> Some (-1, app_key)
          | Some (lens, overall_length) \<Rightarrow>
              (case cb of
                 None \<Rightarrow> Some (overall_length - int struct_length, app_key)
               | Some cb \<Rightarrow> do {
                   (ok, app_key) \<leftarrow> write_tags_loop last_tag_form (zip tags lens) cb app_key;
                   Some (if ok then overall_length - int struct_length else -1, app_key) }) })"

section \<open>Checking tags and lengths\<close>

text \<open>The local variables of \<open>ber_check_tags\<close>; \<open>ts_ptr\<close> holds the \<open>size\<close> octets at \<open>ptr\<close>.\<close>

record tags_state =
  ts_step :: int
  ts_consumed :: nat
  ts_limit_len :: int
  ts_expect_00 :: int
  ts_tlv_constr :: int
  ts_tlv_len :: int
  ts_ptr :: "u8 list"

definition advance :: "int \<Rightarrow> tags_state \<Rightarrow> tags_state" where
  "advance n st = st\<lparr>ts_ptr := drop (nat n) (ts_ptr st), ts_consumed := ts_consumed st + nat n\<rparr>"

text \<open>\<open>switch(len)\<close> on a result of the two readers.\<close>

definition fetch_code :: "int \<Rightarrow> asn_dec_rval_code option" where
  "fetch_code n = (if n = -1 then Some RC_FAIL else if n = 0 then Some RC_WMORE else None)"

text \<open>The body of the loop; \<open>Inl\<close> is a \<open>RETURN\<close> from within it, always before the \<open>ADVANCE\<close>.\<close>

definition check_tags_step ::
  "u32 list \<Rightarrow> int \<Rightarrow> int \<Rightarrow> int \<Rightarrow> tags_state \<Rightarrow> (asn_dec_rval_code + tags_state) option" where
  "check_tags_step tags tag_mode last_tag_form tagno st =
     (let (tag_len, tlv_tag) = ber_fetch_tag (ts_ptr st) 0 in
      case fetch_code tag_len of
        Some code \<Rightarrow> Some (Inl code)
      | None \<Rightarrow> do {
          b0 \<leftarrow> rd (ts_ptr st) 0;
          let constr = BER_TLV_CONSTRUCTED b0;
          let tlv_constr = (if constr then 1 else 0 :: int);
          tag_ok \<leftarrow> (if tag_mode \<noteq> 0 \<and> ts_step st = 0 then Some True
                    else do { c_assert (0 \<le> tagno); t \<leftarrow> rd tags (nat tagno); Some (tlv_tag = t) });
          if \<not> tag_ok then Some (Inl RC_FAIL)
          else if (if tagno < int (length tags) - 1 then tlv_constr = 0
                   else last_tag_form \<noteq> tlv_constr \<and> last_tag_form \<noteq> -1) then Some (Inl RC_FAIL)
          else
            let (len_len, tlv_len) = ber_fetch_length constr (drop (nat tag_len) (ts_ptr st)) (ts_tlv_len st);
                st = st\<lparr>ts_tlv_constr := tlv_constr, ts_tlv_len := tlv_len\<rparr>
            in case fetch_code len_len of
                 Some code \<Rightarrow> Some (Inl code)
               | None \<Rightarrow>
                   if tlv_len = -1 then
                     if ts_limit_len st = -1
                     then Some (Inr (advance (tag_len + len_len) (st\<lparr>ts_expect_00 := ts_expect_00 st + 1\<rparr>)))
                     else Some (Inl RC_FAIL)
                   else if ts_expect_00 st \<noteq> 0 then Some (Inl RC_FAIL)
                   else do {
                     total \<leftarrow> s64 (tlv_len + tag_len + len_len);
                     if (if ts_limit_len st = -1 then total < 0 else ts_limit_len st \<noteq> total) then Some (Inl RC_FAIL)
                     else
                       let st = advance (tag_len + len_len) st;
                           limit_len = total - (tag_len + len_len)
                       in Some (Inr (st\<lparr>ts_limit_len := limit_len,
                                        ts_ptr := (if limit_len < int (length (ts_ptr st))
                                                   then take (nat limit_len) (ts_ptr st) else ts_ptr st)\<rparr>)) } })"

function check_tags_loop ::
  "u32 list \<Rightarrow> int \<Rightarrow> int \<Rightarrow> int \<Rightarrow> tags_state \<Rightarrow> (asn_dec_rval_code \<times> tags_state) option" where
  "check_tags_loop tags tag_mode last_tag_form tagno st =
     (if tagno < int (length tags) then
        case check_tags_step tags tag_mode last_tag_form tagno st of
          None \<Rightarrow> None
        | Some (Inl code) \<Rightarrow> Some (code, st)
        | Some (Inr st') \<Rightarrow> check_tags_loop tags tag_mode last_tag_form (tagno + 1) (st'\<lparr>ts_step := ts_step st' + 1\<rparr>)
      else Some (RC_OK, st))"
  by pat_completeness auto
termination
  by (relation "measure (\<lambda>(tags, m, f, n, st). nat (int (length tags) - n))") auto

declare check_tags_loop.simps [simp del]

text \<open>
  The result: the code, \<open>rval.consumed\<close>, \<open>*last_length\<close>, \<open>*opt_tlv_form\<close>, and \<open>opt_ctx->step\<close>
  when there is a context.
\<close>

type_synonym check_result = "asn_dec_rval_code \<times> nat \<times> int \<times> int \<times> int option"

definition check_return :: "int option \<Rightarrow> int \<Rightarrow> int \<Rightarrow> asn_dec_rval_code \<Rightarrow> tags_state \<Rightarrow> check_result" where
  "check_return opt_ctx last_length tlv_form code st =
     (code, if code = RC_OK \<or> opt_ctx \<noteq> None then ts_consumed st else 0, last_length, tlv_form,
      map_option (\<lambda>_. ts_step st) opt_ctx)"

definition ber_check_tags ::
  "bool \<Rightarrow> u32 list \<Rightarrow> int option \<Rightarrow> u8 list \<Rightarrow> int \<Rightarrow> int \<Rightarrow> int \<Rightarrow> int \<Rightarrow> check_result option" where
  "ber_check_tags stack_ok tags opt_ctx ptr tag_mode last_tag_form last_length opt_tlv_form =
     (let step = (case opt_ctx of Some s \<Rightarrow> s | None \<Rightarrow> 0);
          st = \<lparr>ts_step = step, ts_consumed = 0, ts_limit_len = -1, ts_expect_00 = 0, ts_tlv_constr = -1,
                ts_tlv_len = 0, ts_ptr = ptr\<rparr>;
          return = check_return opt_ctx last_length opt_tlv_form;
          tagno = step + (if tag_mode = 1 then -1 else 0)
      in if \<not> stack_ok then Some (return RC_FAIL st)
         else do {
           entered \<leftarrow>
             (if tag_mode = 0 \<and> tagno = int (length tags) then
                let (tag_len, tlv_tag) = ber_fetch_tag ptr 0 in
                case fetch_code tag_len of
                  Some code \<Rightarrow> Some (Inl code)
                | None \<Rightarrow> do {
                    b0 \<leftarrow> rd ptr 0;
                    let constr = BER_TLV_CONSTRUCTED b0;
                    let (len_len, tlv_len) = ber_fetch_length constr (drop (nat tag_len) ptr) 0;
                    Some (case fetch_code len_len of
                        Some code \<Rightarrow> Inl code
                      | None \<Rightarrow> Inr (advance (tag_len + len_len)
                                   (st\<lparr>ts_tlv_constr := (if constr then 1 else 0), ts_tlv_len := tlv_len\<rparr>))) }
              else do { c_assert (tagno < int (length tags)); Some (Inr st) });
           case entered of
             Inl code \<Rightarrow> Some (return code st)
           | Inr st \<Rightarrow> do {
               (code, st) \<leftarrow> check_tags_loop tags tag_mode last_tag_form tagno st;
               Some (if code \<noteq> RC_OK then return code st
                     else check_return opt_ctx
                            (if ts_expect_00 st \<noteq> 0 then - ts_expect_00 st else ts_tlv_len st)
                            (ts_tlv_constr st) RC_OK st) } })"

section \<open>Primitive types\<close>

text \<open>
  \<open>st->size = (int)length\<close>: the conversion to \<open>int\<close> and back to \<open>size_t\<close>. The check that
  follows it is compiled only where \<open>size_t\<close> and \<open>ssize_t\<close> differ in size.
\<close>

definition int_to_size :: "int \<Rightarrow> nat" where
  "int_to_size len = unat (scast (of_int len :: u32) :: u64)"

definition ber_decode_primitive ::
  "bool \<Rightarrow> (nat \<Rightarrow> bool) \<Rightarrow> u32 list \<Rightarrow> INTEGER_t option \<Rightarrow> u8 list \<Rightarrow> int \<Rightarrow>
   (asn_dec_rval_code \<times> nat \<times> INTEGER_t option) option" where
  "ber_decode_primitive stack_ok can_alloc tags sptr ptr tag_mode =
     (if sptr = None \<and> \<not> can_alloc 16 then Some (RC_FAIL, 0, None)
      else do {
        let st = (case sptr of Some st \<Rightarrow> st | None \<Rightarrow> \<lparr>int_buf = None, int_size = 0\<rparr>);
        (code, consumed, len, form, step) \<leftarrow> ber_check_tags stack_ok tags None ptr tag_mode 0 0 0;
        if code \<noteq> RC_OK then Some (code, consumed, Some st)
        else if int (length (drop consumed ptr)) < len then Some (RC_WMORE, 0, Some st)
        else if len < 0 then None
        else if \<not> can_alloc (nat len + 1) then Some (RC_FAIL, 0, Some (st\<lparr>int_buf := None, int_size := 0\<rparr>))
        else do {
          octets \<leftarrow> mem_load ptr consumed (nat len);
          Some (RC_OK, consumed + nat len, Some \<lparr>int_buf = Some (octets @ [0]), int_size = int_to_size len\<rparr>) } })"

definition der_encode_primitive ::
  "u32 list \<Rightarrow> INTEGER_t \<Rightarrow> int \<Rightarrow> u32 \<Rightarrow> 'k consumer option \<Rightarrow> 'k \<Rightarrow> (int \<times> 'k) option" where
  "der_encode_primitive tags st tag_mode tag cb app_key = do {
     (encoded, app_key) \<leftarrow> der_write_tags tags (int_size st) tag_mode False tag cb app_key;
     if encoded = -1 then Some (-1, app_key)
     else
       case (cb, int_buf st) of
         (Some cb, Some buf) \<Rightarrow> do {
           octets \<leftarrow> mem_load buf 0 (int_size st);
           (r, app_key) \<leftarrow> cb app_key octets;
           Some (if r < 0 then -1 else encoded + int (int_size st), app_key) }
       | _ \<Rightarrow> do {
           c_assert (int_buf st \<noteq> None \<or> int_size st = 0);
           Some (encoded + int (int_size st), app_key) } }"

definition INTEGER_encode_der ::
  "u32 list \<Rightarrow> INTEGER_t \<Rightarrow> int \<Rightarrow> u32 \<Rightarrow> 'k consumer option \<Rightarrow> 'k \<Rightarrow> (int \<times> 'k) option" where
  "INTEGER_encode_der tags st tag_mode tag cb app_key = do {
     st \<leftarrow> (case int_buf st of
         None \<Rightarrow> Some st
       | Some buf \<Rightarrow> do {
           octets \<leftarrow> mem_load buf 0 (int_size st);
           let shift = sint (of_nat (length octets - length (skip_insignificant octets)) :: u32);
           if shift < 0 then None
           else Some (if shift \<noteq> 0 then \<lparr>int_buf = Some (drop (nat shift) buf), int_size = int_size st - nat shift\<rparr> else st) });
     der_encode_primitive tags st tag_mode tag cb app_key }"

definition NativeInteger_decode_ber ::
  "bool \<Rightarrow> (nat \<Rightarrow> bool) \<Rightarrow> bool \<Rightarrow> u32 list \<Rightarrow> u8 list \<Rightarrow> int \<Rightarrow> (asn_dec_rval_code \<times> nat \<times> int option) option" where
  "NativeInteger_decode_ber stack_ok can_alloc field_uns tags ptr tag_mode =
     (if \<not> can_alloc 8 then Some (RC_FAIL, 0, None)
      else do {
        (code, consumed, len, form, step) \<leftarrow> ber_check_tags stack_ok tags None ptr tag_mode 0 0 0;
        if code \<noteq> RC_OK then Some (code, consumed, Some 0)
        else if int (length (drop consumed ptr)) < len then Some (RC_WMORE, 0, Some 0)
        else if len < 0 then None
        else do {
          let tmp = \<lparr>int_buf = Some (drop consumed ptr), int_size = nat len\<rparr>;
          (r, l) \<leftarrow> (if field_uns then do { (r, u) \<leftarrow> asn_INTEGER2ulong tmp 0; Some (r, sint u) }
                    else asn_INTEGER2long tmp 0);
          Some (if r \<noteq> 0 then (RC_FAIL, 0, Some 0) else (RC_OK, consumed + nat len, Some l)) } })"

text \<open>The loop that stores the octets of \<open>native\<close> from the last one back.\<close>

definition NativeInteger_encode_der ::
  "u32 list \<Rightarrow> int \<Rightarrow> int \<Rightarrow> u32 \<Rightarrow> 'k consumer option \<Rightarrow> 'k \<Rightarrow> (int \<times> 'k) option" where
  "NativeInteger_encode_der tags native tag_mode tag cb app_key =
     INTEGER_encode_der tags (INTEGER_of (be_octets 8 (unat (of_int native :: u64)))) tag_mode tag cb app_key"

text \<open>The loop over the contents of a BOOLEAN.\<close>

fun boolean_contents :: "u8 list \<Rightarrow> int \<Rightarrow> int" where
  "boolean_contents [] st = st"
| "boolean_contents (b # bs) st = (if st = 0 then boolean_contents bs (st OR uint b) else st)"

definition BOOLEAN_decode_ber ::
  "bool \<Rightarrow> (nat \<Rightarrow> bool) \<Rightarrow> u32 list \<Rightarrow> u8 list \<Rightarrow> int \<Rightarrow> (asn_dec_rval_code \<times> nat \<times> int option) option" where
  "BOOLEAN_decode_ber stack_ok can_alloc tags ptr tag_mode =
     (if \<not> can_alloc 4 then Some (RC_FAIL, 0, None)
      else do {
        (code, consumed, len, form, step) \<leftarrow> ber_check_tags stack_ok tags None ptr tag_mode 0 0 0;
        if code \<noteq> RC_OK then Some (code, consumed, Some 0)
        else if int (length (drop consumed ptr)) < len then Some (RC_WMORE, 0, Some 0)
        else do {
          octets \<leftarrow> mem_load ptr consumed (nat len);
          Some (RC_OK, consumed + nat len, Some (boolean_contents octets 0)) } })"

definition BOOLEAN_encode_der ::
  "u32 list \<Rightarrow> int \<Rightarrow> int \<Rightarrow> u32 \<Rightarrow> 'k consumer option \<Rightarrow> 'k \<Rightarrow> (int \<times> 'k) option" where
  "BOOLEAN_encode_der tags st tag_mode tag cb app_key = do {
     (encoded, app_key) \<leftarrow> der_write_tags tags 1 tag_mode False tag cb app_key;
     if encoded = -1 then Some (-1, app_key)
     else
       case cb of
         None \<Rightarrow> Some (encoded + 1, app_key)
       | Some cb \<Rightarrow> do {
           (r, app_key) \<leftarrow> cb app_key [if st \<noteq> 0 then 0xFF else 0];
           Some (if r < 0 then -1 else encoded + 1, app_key) } }"

definition NULL_decode_ber ::
  "bool \<Rightarrow> (nat \<Rightarrow> bool) \<Rightarrow> u32 list \<Rightarrow> u8 list \<Rightarrow> int \<Rightarrow> (asn_dec_rval_code \<times> nat \<times> int option) option" where
  "NULL_decode_ber stack_ok can_alloc tags ptr tag_mode =
     (if \<not> can_alloc 4 then Some (RC_FAIL, 0, None)
      else do {
        (code, consumed, len, form, step) \<leftarrow> ber_check_tags stack_ok tags None ptr tag_mode 0 0 0;
        Some (if code \<noteq> RC_OK then (code, consumed, Some 0)
              else if len \<noteq> 0 then (RC_FAIL, 0, Some 0) else (RC_OK, consumed, Some 0)) })"

definition NULL_encode_der :: "u32 list \<Rightarrow> int \<Rightarrow> u32 \<Rightarrow> 'k consumer option \<Rightarrow> 'k \<Rightarrow> (int \<times> 'k) option" where
  "NULL_encode_der tags tag_mode tag cb app_key = der_write_tags tags 0 tag_mode False tag cb app_key"

section \<open>The octets of a header\<close>

text \<open>The identifier octets of a tag with the constructed bit, and a chain of tags and lengths.\<close>

definition tag_octets :: "u32 \<Rightarrow> bool \<Rightarrow> u8 list" where
  "tag_octets tag constructed =
     (case snd (ber_tlv_tag_serialize tag 32) of
        [] \<Rightarrow> [] | b # bs \<Rightarrow> (if constructed then b OR 0x20 else b) # bs)"

definition length_octets :: "nat \<Rightarrow> u8 list" where
  "length_octets n = snd (der_tlv_length_serialize (int n) 32)"

fun header_octets :: "bool \<Rightarrow> u32 list \<Rightarrow> nat \<Rightarrow> u8 list" where
  "header_octets last_constructed [] n = []"
| "header_octets last_constructed (tag # tags) n =
     (let inner = header_octets last_constructed tags n
      in tag_octets tag (last_constructed \<or> tags \<noteq> []) @ length_octets (length inner + n) @ inner)"

lemma bit_0x20: "bit (0x20 :: u8) k \<longleftrightarrow> k = 5" "bit (0x20 :: nat) k \<longleftrightarrow> k = 5" "bit (0x20 :: int) k \<longleftrightarrow> k = 5"
proof -
  have "(0x20 :: u8) = 2 ^ 5" "(0x20 :: nat) = 2 ^ 5" "(0x20 :: int) = 2 ^ 5" by simp_all
  then show "bit (0x20 :: u8) k \<longleftrightarrow> k = 5" "bit (0x20 :: nat) k \<longleftrightarrow> k = 5" "bit (0x20 :: int) k \<longleftrightarrow> k = 5"
    by (simp_all only: bit_exp_iff) auto
qed

lemma tag_required_size_le:
  "tag_required_size t i k = (j, n) \<Longrightarrow> 7 * k \<le> i \<Longrightarrow> k \<le> 5 \<Longrightarrow> n \<le> 5"
proof (induction t i k rule: tag_required_size.induct)
  case (1 t i k)
  show ?case
  proof (cases "i < 32 \<and> drop_bit i t \<noteq> 0")
    case True
    then have "k + 1 \<le> 5" using "1.prems"(2) by linarith
    with True 1 show ?thesis by (subst (asm) (2) tag_required_size.simps) simp
  next
    case False
    with "1.prems" show ?thesis by (subst (asm) tag_required_size.simps) auto
  qed
qed

lemma tag_serialize_size:
  assumes "ber_tlv_tag_serialize tag sz = (n, out)"
  shows "n \<le> 6" "fst (ber_tlv_tag_serialize tag sz') = n"
proof -
  obtain j r where r: "tag_required_size (BER_TAG_VALUE tag) 7 1 = (j, r)" by fastforce
  with tag_required_size_le [OF this] assms show "n \<le> 6" "fst (ber_tlv_tag_serialize tag sz') = n"
    by (auto simp: ber_tlv_tag_serialize_def Let_def split: if_splits)
qed

lemma tag_first_octet:
  assumes "ber_tlv_tag_serialize tag 32 = (n, b # bs)"
  shows "b AND 0x20 = 0"
proof -
  have m: "(0x1F :: u32) = mask 5" by (simp add: mask_eq_exp_minus_1)
  have u: "ucast (push_bit 6 c OR v) AND (0x20 :: u8) = 0" if "v AND NOT 0x1F = 0" for c v :: u32
  proof -
    have "bit v n \<Longrightarrow> n < 5" for n
      using that [THEN arg_cong [where f = "\<lambda>w. bit w n"]] by (auto simp: m bit_simps dest: bit_imp_le_length)
    then show ?thesis by (intro bit_word_eqI) (auto simp: bit_simps bit_0x20)
  qed
  have "b = ucast (push_bit 6 (BER_TAG_CLASS tag) OR (if BER_TAG_VALUE tag \<le> 30 then BER_TAG_VALUE tag else 0x1F))"
    using assms by (auto simp: ber_tlv_tag_serialize_def Let_def split: if_splits prod.splits)
  then show ?thesis using small_masks(1) [of "BER_TAG_VALUE tag"] by (simp only:) (rule u, simp)
qed

lemma constructed_bit:
  "BER_TLV_CONSTRUCTED (b OR 0x20)" "ucast (b OR 0x20 :: u8) AND (0x1F :: u32) = ucast b AND 0x1F"
  "drop_bit 6 (ucast (b OR 0x20 :: u8) :: u32) = drop_bit 6 (ucast b)"
proof -
  have m: "(0x1F :: u32) = mask 5" by (simp add: mask_eq_exp_minus_1)
  have "bit ((b OR 0x20) AND 0x20) 5" by (simp add: bit_simps bit_0x20)
  then show "BER_TLV_CONSTRUCTED (b OR 0x20)" unfolding BER_TLV_CONSTRUCTED_def by (metis bit_0_eq bot_apply bot_bool_def)
  show "ucast (b OR 0x20) AND (0x1F :: u32) = ucast b AND 0x1F"
    unfolding m by (rule bit_word_eqI) (auto simp: bit_simps bit_0x20)
  show "drop_bit 6 (ucast (b OR 0x20) :: u32) = drop_bit 6 (ucast b)"
    by (rule bit_word_eqI) (auto simp: bit_simps bit_0x20)
qed

lemma fetch_constructed: "ber_fetch_tag ((b OR 0x20) # bs) t = ber_fetch_tag (b # bs) t"
  unfolding ber_fetch_tag_def list.case Let_def constructed_bit ..

lemma tag_octets_ok:
  shows "ber_fetch_tag (tag_octets tag c @ rest) t = (int (length (tag_octets tag c)), tag)"
    "tag_octets tag c \<noteq> []" "BER_TLV_CONSTRUCTED (hd (tag_octets tag c)) \<longleftrightarrow> c"
    "length (tag_octets tag c) = fst (ber_tlv_tag_serialize tag k)" "length (tag_octets tag c) \<le> 6"
proof -
  obtain n out where n: "ber_tlv_tag_serialize tag 32 = (n, out)" by fastforce
  then obtain b bs where s: "ber_tlv_tag_serialize tag 32 = (n, b # bs)" "n = length (b # bs)" "n \<le> 6"
    using tag_serialize_ok(1,2) [OF n] tag_serialize_size(1) [OF n] by (cases out) auto
  show "ber_fetch_tag (tag_octets tag c @ rest) t = (int (length (tag_octets tag c)), tag)"
    using tag_serialize_ok(3) [OF s(1), of rest t] s(2,3)
    by (simp add: tag_octets_def s(1) fetch_constructed)
  show "tag_octets tag c \<noteq> []" "length (tag_octets tag c) \<le> 6" using s by (auto simp: tag_octets_def)
  show "BER_TLV_CONSTRUCTED (hd (tag_octets tag c)) \<longleftrightarrow> c"
    using tag_first_octet [OF s(1)] by (auto simp: tag_octets_def s(1) constructed_bit BER_TLV_CONSTRUCTED_def [of b])
  show "length (tag_octets tag c) = fst (ber_tlv_tag_serialize tag k)"
    using tag_serialize_size(2) [OF s(1), of k] s(1,2) by (simp add: tag_octets_def)
qed


lemma length_octets_ok:
  assumes "int n \<le> RSSIZE_MAX"
  shows "ber_fetch_length c (length_octets n @ rest) l = (int (length (length_octets n)), int n)"
    "0 < length (length_octets n)" "length (length_octets n) \<le> 9"
    "fst (der_tlv_length_serialize (int n) k) = length (length_octets n)"
    "9 \<le> k \<Longrightarrow> der_tlv_length_serialize (int n) k = (length (length_octets n), length_octets n)"
proof -
  obtain m out where s: "der_tlv_length_serialize (int n) 32 = (m, out)" by fastforce
  have m9: "m \<le> 9 \<and> (\<forall>k. fst (der_tlv_length_serialize (int n) k) = m) \<and> (\<forall>k\<ge>9. der_tlv_length_serialize (int n) k = (m, out))"
  proof (cases "int n \<le> 127")
    case True
    with s show ?thesis by (auto simp: der_tlv_length_serialize_def)
  next
    case False
    have "int n < 2 ^ 64" using assms by (simp add: RSSIZE_MAX_def)
    with length_required_size_ok [of "int n" 1] False obtain r where
      r: "length_required_size (int n) 8 1 = (8 * r, r)" "r \<le> 8" by auto
    with s False show ?thesis by (auto simp: der_tlv_length_serialize_def)
  qed
  note ok = length_serialize_ok [OF s _ assms]
  have lo: "length_octets n = out" using s by (simp add: length_octets_def)
  have "length out = m" using ok(2) m9 by simp
  then show "ber_fetch_length c (length_octets n @ rest) l = (int (length (length_octets n)), int n)"
    "0 < length (length_octets n)" "length (length_octets n) \<le> 9"
    "fst (der_tlv_length_serialize (int n) k) = length (length_octets n)"
    "9 \<le> k \<Longrightarrow> der_tlv_length_serialize (int n) k = (length (length_octets n), length_octets n)"
    using ok(1,3) m9 by (auto simp: lo)
qed

lemma write_TL_size:
  assumes "int n \<le> RSSIZE_MAX"
  shows "der_write_TL tag (int n) None k c = Some (int (length (tag_octets tag d @ length_octets n)), k)"
proof -
  obtain t l where t: "ber_tlv_tag_serialize tag 0 = (length (tag_octets tag d), t)"
    and l: "der_tlv_length_serialize (int n) 0 = (length (length_octets n), l)"
    using tag_octets_ok(4) [of tag d 0] length_octets_ok(4) [OF assms, of 0] by (metis prod.collapse)
  show ?thesis using tag_octets_ok(5) [of tag d] length_octets_ok(3) [OF assms]
    by (simp add: der_write_TL_def t l)
qed

lemma write_TL_octets:
  assumes "int n \<le> RSSIZE_MAX"
  shows "der_write_TL tag (int n) (Some cb) k c = do {
    (r, k) \<leftarrow> cb k (tag_octets tag c @ length_octets n);
    Some (if r < 0 then -1 else int (length (tag_octets tag c @ length_octets n)), k) }"
proof -
  obtain b bs where t: "ber_tlv_tag_serialize tag 32 = (length (tag_octets tag c), b # bs)"
    and lt: "length (tag_octets tag c) = Suc (length bs)"
  proof -
    obtain n out where n: "ber_tlv_tag_serialize tag 32 = (n, out)" by fastforce
    moreover have "length out = n" "out \<noteq> []"
      using tag_serialize_ok(1,2) [OF n] tag_serialize_size(1) [OF n] by auto
    ultimately show ?thesis using that tag_octets_ok(4) [of tag c 32] by (cases out) auto
  qed
  have l: "der_tlv_length_serialize (int n) (32 - length (tag_octets tag c)) = (length (length_octets n), length_octets n)"
    using length_octets_ok(5) [OF assms] tag_octets_ok(5) [of tag c] by simp
  have "snd (ber_tlv_tag_serialize tag 32) = b # bs" by (simp only: t snd_conv)
  then have o1: "tag_octets tag c = (if c then b OR 0x20 else b) # bs" by (simp only: tag_octets_def list.case)
  have sz: "length (tag_octets tag c) + length (length_octets n) \<le> 32" "length (tag_octets tag c) \<le> 32"
    using tag_octets_ok(5) [of tag c] length_octets_ok(3) [OF assms] by simp_all
  have e: "(if c then do { x \<leftarrow> rd ((b # bs) @ length_octets n) 0; wr ((b # bs) @ length_octets n) 0 (x OR 0x20) }
      else Some ((b # bs) @ length_octets n)) = Some (tag_octets tag c @ length_octets n)"
    by (simp add: o1)
  have m: "mem_load (tag_octets tag c @ length_octets n) 0 (length (tag_octets tag c) + length (length_octets n)) =
      Some (tag_octets tag c @ length_octets n)" by (simp add: mem_load_def)
  have i: "(if (32 :: nat) \<noteq> 0 then 32 - length (tag_octets tag c) else 0) = 32 - length (tag_octets tag c)" by simp
  show ?thesis
    unfolding der_write_TL_def Let_def option.case t split_conv i l if_not_P [OF sz(1) [THEN leD]] if_not_P [OF sz(2) [THEN leD]]
      e bind.bind_lunit m length_append ..
qed

section \<open>Writing and checking a header\<close>

lemma write_tags_lens_ok:
  assumes "int (length (header_octets f tags n) + n) \<le> RSSIZE_MAX"
  shows "\<exists>lens. write_tags_lens tags (int n) = Some (Some (lens, int (length (header_octets f tags n) + n)))"
  using assms
proof (induction tags)
  case (Cons t ts)
  define inner where "inner = header_octets f ts n"
  have b: "int (length inner + n) \<le> RSSIZE_MAX"
    using Cons.prems by (simp add: Let_def inner_def)
  with Cons.IH obtain lens where "write_tags_lens ts (int n) = Some (Some (lens, int (length inner + n)))"
    by (auto simp: inner_def)
  with write_TL_size [OF b, of t "()" False "f \<or> ts \<noteq> []"] show ?case
    by (simp add: Let_def inner_def [symmetric])
qed simp

context bytes_consumer begin

lemma cb_puts:
  assumes "key_inv k"
  obtains r k' where "cb k bs = Some (r, k')" "key_inv k'" "0 \<le> r \<Longrightarrow> taken k' = taken k @ bs" "r < 0 \<Longrightarrow> refuses"
  using safe [OF assms, of bs] accepted [OF assms] assms unfolding cb_refuses_def by blast

lemma write_tags_loop_ok:
  assumes "write_tags_lens tags (int n) = Some (Some (lens, ov))" "key_inv k"
    and "int (length (header_octets f tags n) + n) \<le> RSSIZE_MAX"
  shows "\<exists>ok k'. write_tags_loop f (zip tags lens) cb k = Some (ok, k') \<and> key_inv k' \<and>
    (ok \<and> taken k' = taken k @ header_octets f tags n \<or> \<not> ok \<and> refuses)"
  using assms
proof (induction tags arbitrary: lens ov k)
  case (Cons t ts)
  define inner where "inner = header_octets f ts n"
  have b: "int (length inner + n) \<le> RSSIZE_MAX"
    using Cons.prems(3) by (simp add: Let_def inner_def)
  with write_tags_lens_ok [of f ts n] obtain lens1 where l1:
    "write_tags_lens ts (int n) = Some (Some (lens1, int (length inner + n)))" by (auto simp: inner_def)
  with Cons.prems(1) write_TL_size [OF b, of t "()" False "f \<or> ts \<noteq> []"]
  have lens: "lens = int (length inner + n) # lens1" by (auto simp: Let_def)
  have ne: "zip ts lens1 \<noteq> [] \<longleftrightarrow> ts \<noteq> []" using l1 by (cases ts) (auto simp: bind_eq_Some_conv split: option.splits prod.splits if_splits)
  define X where "X = tag_octets t (f \<or> ts \<noteq> []) @ length_octets (length inner + n)"
  have hdr: "header_octets f (t # ts) n = X @ inner" by (simp add: Let_def inner_def X_def)
  obtain r k1 where c: "cb k X = Some (r, k1)" "key_inv k1" "0 \<le> r \<Longrightarrow> taken k1 = taken k @ X" "r < 0 \<Longrightarrow> refuses"
    by (rule cb_puts [OF Cons.prems(2), of X]) blast
  have step: "write_tags_loop f (zip (t # ts) lens) cb k =
      (if r < 0 then Some (False, k1) else write_tags_loop f (zip ts lens1) cb k1)"
    unfolding lens zip_Cons_Cons write_tags_loop.simps ne write_TL_octets [OF b] X_def [symmetric] c(1) by simp
  show ?case
  proof (cases "r < 0")
    case True
    with c show ?thesis unfolding step by auto
  next
    case False
    from Cons.IH [OF l1 c(2)] b obtain ok k' where
      "write_tags_loop f (zip ts lens1) cb k1 = Some (ok, k')" "key_inv k'"
      "ok \<and> taken k' = taken k1 @ inner \<or> \<not> ok \<and> refuses" by (auto simp: inner_def)
    with False c(3) show ?thesis unfolding step hdr by auto
  qed
qed auto

lemma der_write_tags_ok:
  assumes "length tags \<le> 3" "key_inv k"
    and "int (length (header_octets f (effective_tags tags mode tag) n) + n) \<le> RSSIZE_MAX"
  shows "\<exists>r k'. der_write_tags tags n mode f tag (Some cb) k = Some (r, k') \<and> key_inv k' \<and>
    (r = int (length (header_octets f (effective_tags tags mode tag) n)) \<and>
       taken k' = taken k @ header_octets f (effective_tags tags mode tag) n \<or> r = -1 \<and> refuses)"
proof -
  obtain lens where l: "write_tags_lens (effective_tags tags mode tag) (int n) =
      Some (Some (lens, int (length (header_octets f (effective_tags tags mode tag) n) + n)))"
    using write_tags_lens_ok [OF assms(3)] by blast
  from write_tags_loop_ok [OF l assms(2,3)] show ?thesis
    using assms(1,2) l by (auto simp: der_write_tags_def Let_def)
qed

end

lemma fetch_code_pos [simp]: "0 < n \<Longrightarrow> fetch_code n = None"
  by (simp add: fetch_code_def)

lemma check_tags_loop_ok:
  assumes "int (length tags) - tagno = int (length ets)" "0 \<le> ts_step st"
    and "\<And>i. i < length ets \<Longrightarrow> mode \<noteq> 0 \<and> ts_step st = 0 \<and> i = 0 \<or> 0 \<le> tagno + int i \<and> ets ! i = tags ! nat (tagno + int i)"
    and "ts_expect_00 st = 0" "ts_ptr st = header_octets f ets n @ content @ rest" "length content = n"
    and "int (length (header_octets f ets n) + n) \<le> RSSIZE_MAX"
    and "ts_limit_len st = -1 \<or> ts_limit_len st = int (length (header_octets f ets n) + n) \<and> rest = []"
  shows "\<exists>st'. check_tags_loop tags mode (if f then 1 else 0) tagno st = Some (RC_OK, st') \<and>
    ts_consumed st' = ts_consumed st + length (header_octets f ets n) \<and> ts_expect_00 st' = 0 \<and>
    (ets \<noteq> [] \<longrightarrow> ts_tlv_len st' = int n \<and> ts_tlv_constr st' = (if f then 1 else 0))"
  using assms
proof (induction ets arbitrary: tagno st rest)
  case Nil
  then show ?case by (subst check_tags_loop.simps) simp
next
  case (Cons t ts)
  define inner where "inner = header_octets f ts n"
  define c where "c \<longleftrightarrow> f \<or> ts \<noteq> []"
  define T where "T = tag_octets t c"
  define L where "L = length_octets (length inner + n)"
  have hdr: "header_octets f (t # ts) n = T @ L @ inner" by (simp add: Let_def inner_def c_def T_def L_def)
  have b: "int (length inner + n) \<le> RSSIZE_MAX" using Cons.prems(7) unfolding hdr by simp
  have ptr: "ts_ptr st = T @ L @ inner @ content @ rest" using Cons.prems(5) unfolding hdr by simp
  note header_octets.simps(2) [simp del]
  have T: "ber_fetch_tag (ts_ptr st) 0 = (int (length T), t)" "T \<noteq> []" "BER_TLV_CONSTRUCTED (hd T) = c"
    unfolding ptr T_def by (rule tag_octets_ok)+
  then have b0: "rd (ts_ptr st) 0 = Some (hd T)" unfolding ptr by (cases T) simp_all
  have L: "ber_fetch_length c (L @ inner @ content @ rest) l = (int (length L), int (length inner + n))" "0 < length L" for l
    unfolding L_def using length_octets_ok(1,2) [OF b] by blast+
  have dr: "drop (nat (int (length T))) (ts_ptr st) = L @ inner @ content @ rest" unfolding ptr by simp
  have tagok: "(if mode \<noteq> 0 \<and> ts_step st = 0 then Some True
      else do { c_assert (0 \<le> tagno); t' \<leftarrow> rd tags (nat tagno); Some (t = t') }) = Some True"
  proof (cases "mode \<noteq> 0 \<and> ts_step st = 0")
    case False
    with Cons.prems(3) [of 0] have "0 \<le> tagno" "t = tags ! nat tagno" by auto
    moreover have "nat tagno < length tags" using Cons.prems(1) \<open>0 \<le> tagno\<close> by simp
    ultimately show ?thesis using False by simp
  qed simp
  have form: "\<not> (if tagno < int (length tags) - 1 then (if c then 1 else 0 :: int) = 0
      else (if f then 1 else 0) \<noteq> (if c then 1 else 0 :: int) \<and> (if f then 1 else 0 :: int) \<noteq> -1)"
  proof -
    have "tagno < int (length tags) - 1 \<longleftrightarrow> ts \<noteq> []" using Cons.prems(1) by (cases ts) auto
    then show ?thesis by (auto simp: c_def)
  qed
  define total where "total = int (length inner + n) + int (length T) + int (length L)"
  have s64: "s64 total = Some total" using Cons.prems(7) by (simp add: total_def hdr s64_def RSSIZE_MAX_def limits_defs)
  have tot: "total = int (length (header_octets f (t # ts) n) + n)" by (simp add: total_def hdr)
  have lim: "\<not> (if ts_limit_len st = -1 then total < 0 else ts_limit_len st \<noteq> total)"
    using Cons.prems(8) tot by auto
  define st1 where "st1 = st\<lparr>ts_tlv_constr := (if c then 1 else 0), ts_tlv_len := int (length inner + n),
    ts_ptr := inner @ content, ts_consumed := ts_consumed st + length T + length L, ts_limit_len := int (length inner + n)\<rparr>"
  have adv: "nat (int (length T) + int (length L)) = length T + length L" by simp
  have pos: "0 < int (length T)" "0 < int (length L)" using T(2) L(2) by simp_all
  have dr2: "drop (length T + length L) (T @ L @ inner @ content @ rest) = inner @ content @ rest" by simp
  have lim2: "total - (int (length T) + int (length L)) = int (length inner + n)" by (simp add: total_def)
  have cut: "(if int (length inner + n) < int (length (inner @ content @ rest)) then take (nat (int (length inner + n))) (inner @ content @ rest)
      else inner @ content @ rest) = inner @ content"
    using Cons.prems(6) by auto
  have tot1: "int (length inner + n) + int (length T) + int (length L) = total" by (simp add: total_def)
  have ne1: "int (length inner + n) \<noteq> -1" by linarith
  define st0 where "st0 = st\<lparr>ts_tlv_constr := (if c then 1 else 0), ts_tlv_len := int (length inner + n)\<rparr>"
  have st0: "ts_limit_len st0 = ts_limit_len st" "ts_expect_00 st0 = ts_expect_00 st" "ts_ptr st0 = ts_ptr st"
    by (simp_all add: st0_def)
  have "check_tags_step tags mode (if f then 1 else 0) tagno st =
      Some (Inr ((advance (int (length T) + int (length L)) st0)\<lparr>ts_limit_len := int (length inner + n), ts_ptr := inner @ content\<rparr>))"
    unfolding check_tags_step_def T(1) prod.case Let_def fetch_code_pos [OF pos(1)] option.case b0 bind.bind_lunit T(3) tagok
      not_True_eq_False if_False if_not_P [OF form] dr L(1) fetch_code_pos [OF pos(2)] if_not_P [OF ne1] st0_def [symmetric] st0
      Cons.prems(4) tot1 s64 if_not_P [OF lim] lim2
    using cut ptr by (simp add: advance_def adv dr2 st0 cong del: if_weak_cong)
  also have "(advance (int (length T) + int (length L)) st0)\<lparr>ts_limit_len := int (length inner + n), ts_ptr := inner @ content\<rparr> = st1"
    by (simp add: advance_def adv st1_def st0_def add.assoc)
  finally have "check_tags_step tags mode (if f then 1 else 0) tagno st = Some (Inr st1)" .
  moreover have "tagno < int (length tags)" using Cons.prems(1) by simp
  ultimately have step: "check_tags_loop tags mode (if f then 1 else 0) tagno st =
      check_tags_loop tags mode (if f then 1 else 0) (tagno + 1) (st1\<lparr>ts_step := ts_step st1 + 1\<rparr>)"
    by (subst check_tags_loop.simps) simp
  have "\<exists>st'. check_tags_loop tags mode (if f then 1 else 0) (tagno + 1) (st1\<lparr>ts_step := ts_step st1 + 1\<rparr>) = Some (RC_OK, st') \<and>
    ts_consumed st' = ts_consumed (st1\<lparr>ts_step := ts_step st1 + 1\<rparr>) + length (header_octets f ts n) \<and> ts_expect_00 st' = 0 \<and>
    (ts \<noteq> [] \<longrightarrow> ts_tlv_len st' = int n \<and> ts_tlv_constr st' = (if f then 1 else 0))"
  proof (rule Cons.IH [where rest = "[]"])
    fix i assume "i < length ts"
    with Cons.prems(3) [of "Suc i"] show "mode \<noteq> 0 \<and> ts_step (st1\<lparr>ts_step := ts_step st1 + 1\<rparr>) = 0 \<and> i = 0 \<or>
        0 \<le> tagno + 1 + int i \<and> ts ! i = tags ! nat (tagno + 1 + int i)" by (simp add: algebra_simps)
  qed (use Cons.prems b in \<open>auto simp: st1_def inner_def\<close>)
  then obtain st' where st': "check_tags_loop tags mode (if f then 1 else 0) tagno st = Some (RC_OK, st')"
    "ts_consumed st' = ts_consumed st + length T + length L + length inner" "ts_expect_00 st' = 0"
    "ts \<noteq> [] \<longrightarrow> ts_tlv_len st' = int n \<and> ts_tlv_constr st' = (if f then 1 else 0)"
    unfolding step by (auto simp: st1_def inner_def)
  moreover have "ts_tlv_len st' = int n \<and> ts_tlv_constr st' = (if f then 1 else 0)" if "ts = []"
  proof -
    have "tagno + 1 = int (length tags)" using Cons.prems(1) that by simp
    then have "st' = st1\<lparr>ts_step := ts_step st1 + 1\<rparr>"
      using st'(1) unfolding step by (subst (asm) check_tags_loop.simps) simp
    then show ?thesis using that by (simp add: st1_def inner_def c_def)
  qed
  ultimately show ?case by (auto simp: hdr)
qed

lemma length_header:
  "int (15 * length tags + n) \<le> RSSIZE_MAX \<Longrightarrow> length (header_octets f tags n) \<le> 15 * length tags"
proof (induction tags)
  case (Cons t ts)
  define inner where "inner = header_octets f ts n"
  have i: "length inner \<le> 15 * length ts" using Cons by (simp add: inner_def)
  then have "int (length inner + n) \<le> RSSIZE_MAX" using Cons.prems by simp
  from length_octets_ok(3) [OF this] tag_octets_ok(5) [of t "f \<or> ts \<noteq> []"] i show ?case
    by (simp add: Let_def inner_def)
qed simp

lemma length_effective: "length (effective_tags tags mode tag) \<le> length tags + 1"
  by (auto simp: effective_tags_def)

lemma header_fits:
  assumes "length tags \<le> 3" "n < 2 ^ 61"
  shows "int (length (header_octets f (effective_tags tags mode tag) n) + n) \<le> RSSIZE_MAX"
proof -
  have "15 * length (effective_tags tags mode tag) \<le> 60" using length_effective [of tags mode tag] assms(1) by linarith
  moreover from this have "int (15 * length (effective_tags tags mode tag) + n) \<le> RSSIZE_MAX"
    using assms(2) by (simp add: RSSIZE_MAX_def)
  ultimately show ?thesis using length_header [of "effective_tags tags mode tag" n f] assms(2)
    by (simp add: RSSIZE_MAX_def)
qed

lemma check_tags_ok:
  assumes "tags \<noteq> []" "length tags \<le> 3" "mode \<in> {-1, 0, 1}" "length content < 2 ^ 61"
  shows "ber_check_tags True tags None (header_octets f (effective_tags tags mode tag) (length content) @ content @ rest)
      mode (if f then 1 else 0) ll fo =
    Some (RC_OK, length (header_octets f (effective_tags tags mode tag) (length content)), int (length content), if f then 1 else 0, None)"
proof -
  define ets where "ets = effective_tags tags mode tag"
  define h where "h = header_octets f ets (length content)"
  define tagno :: int where "tagno = (if mode = 1 then -1 else 0)"
  define st where "st = \<lparr>ts_step = 0, ts_consumed = 0, ts_limit_len = -1, ts_expect_00 = 0, ts_tlv_constr = -1,
                ts_tlv_len = 0, ts_ptr = h @ content @ rest\<rparr>"
  have len: "int (length tags) - tagno = int (length ets)"
    using assms(1,3) by (cases tags) (auto simp: tagno_def ets_def effective_tags_def)
  have "\<exists>st'. check_tags_loop tags mode (if f then 1 else 0) tagno st = Some (RC_OK, st') \<and>
      ts_consumed st' = ts_consumed st + length (header_octets f ets (length content)) \<and> ts_expect_00 st' = 0 \<and>
      (ets \<noteq> [] \<longrightarrow> ts_tlv_len st' = int (length content) \<and> ts_tlv_constr st' = (if f then 1 else 0))"
  proof (rule check_tags_loop_ok [where content = content and rest = rest])
    fix i assume i: "i < length ets"
    show "mode \<noteq> 0 \<and> ts_step st = 0 \<and> i = 0 \<or> 0 \<le> tagno + int i \<and> ets ! i = tags ! nat (tagno + int i)"
    proof (cases "mode = 0")
      case True
      then show ?thesis by (simp add: tagno_def ets_def effective_tags_def)
    next
      case False
      show ?thesis
      proof (cases i)
        case 0
        then show ?thesis using False by (simp add: st_def)
      next
        case (Suc j)
        moreover have "nat (1 + int j) = Suc j" by simp
        ultimately show ?thesis using False assms(1,3) i
          by (auto simp: tagno_def ets_def effective_tags_def nth_tl split: if_splits)
      qed
    qed
  qed (use len header_fits [OF assms(2,4), of f mode tag] in \<open>simp_all add: st_def h_def ets_def\<close>)
  then obtain st' where l: "check_tags_loop tags mode (if f then 1 else 0) tagno st = Some (RC_OK, st')"
    "ts_consumed st' = length h" "ts_expect_00 st' = 0"
    "ets \<noteq> [] \<longrightarrow> ts_tlv_len st' = int (length content) \<and> ts_tlv_constr st' = (if f then 1 else 0)"
    by (auto simp: st_def h_def)
  have "ets \<noteq> []" using assms(1) by (auto simp: ets_def effective_tags_def)
  moreover have "\<not> (mode = 0 \<and> tagno = int (length tags))" "tagno < int (length tags)"
    using assms(1) by (auto simp: tagno_def)
  ultimately show ?thesis using l
    by (auto simp: ber_check_tags_def Let_def st_def [symmetric] tagno_def [symmetric] h_def [symmetric] ets_def [symmetric]
        check_return_def)
qed

text \<open>On any input the loop ends inside it; for a primitive type the length it leaves is definite.\<close>

lemma check_tags_step_total:
  assumes "mode \<noteq> 0 \<and> ts_step st = 0 \<or> 0 \<le> tagno" "tagno < int (length tags)" "length (ts_ptr st) < 2 ^ 61"
  shows "\<exists>res. check_tags_step tags mode form tagno st = Some res \<and> (case res of Inl code \<Rightarrow> code \<noteq> RC_OK
    | Inr st' \<Rightarrow> ts_consumed st' + length (ts_ptr st') \<le> ts_consumed st + length (ts_ptr st) \<and> ts_step st' = ts_step st \<and>
        (tagno = int (length tags) - 1 \<and> form = 0 \<longrightarrow> 0 \<le> ts_tlv_len st' \<and> ts_expect_00 st' = 0))"
proof -
  obtain tl t where T: "ber_fetch_tag (ts_ptr st) 0 = (tl, t)" by fastforce
  note tb = fetch_tag_bounds [OF T]
  show ?thesis
  proof (cases "0 < tl")
    case False
    then have "tl = -1 \<or> tl = 0" using tb by auto
    then show ?thesis by (auto simp: check_tags_step_def T fetch_code_def)
  next
    case True
    then have ne: "ts_ptr st \<noteq> []" using fetch_tag_pos [of "ts_ptr st" 0] T by simp
    define c where "c = BER_TLV_CONSTRUCTED (ts_ptr st ! 0)"
    have rd0: "rd (ts_ptr st) 0 = Some (ts_ptr st ! 0)" using ne by simp
    obtain tok where tok: "(if mode \<noteq> 0 \<and> ts_step st = 0 then Some True
        else do { c_assert (0 \<le> tagno); t' \<leftarrow> rd tags (nat tagno); Some (t = t') }) = Some tok"
      using assms(1,2) by (cases "mode \<noteq> 0 \<and> ts_step st = 0") (auto simp: nat_less_iff)
    obtain ll len where L: "ber_fetch_length c (drop (nat tl) (ts_ptr st)) (ts_tlv_len st) = (ll, len)" by fastforce
    note lb = fetch_length_bounds [OF L]
    have "s64 (len + tl + ll) = Some (len + tl + ll)" if "0 \<le> len" "0 < ll"
      using that True tb lb assms(3) by (auto simp: s64_def limits_defs RSSIZE_MAX_def)
    moreover have "nat (tl + ll) \<le> length (ts_ptr st)" if "0 < ll" using that lb tb True by auto
    ultimately show ?thesis using lb tb True tok
      by (auto simp: check_tags_step_def T rd0 c_def [symmetric] L fetch_code_def Let_def advance_def RSSIZE_MAX_def
          split: if_splits)
  qed
qed


lemma check_tags_loop_total:
  assumes "tagno < int (length tags) \<Longrightarrow> mode \<noteq> 0 \<and> ts_step st = 0 \<or> 0 \<le> tagno" "0 \<le> ts_step st" "-1 \<le> tagno"
    and "length (ts_ptr st) < 2 ^ 61" "ts_consumed st + length (ts_ptr st) = N" "N < 2 ^ 61"
  shows "\<exists>code st'. check_tags_loop tags mode form tagno st = Some (code, st') \<and> ts_consumed st' \<le> N \<and>
    (code = RC_OK \<and> tagno < int (length tags) \<and> form = 0 \<longrightarrow> 0 \<le> ts_tlv_len st' \<and> ts_expect_00 st' = 0)"
  using assms
proof (induction tags mode form tagno st arbitrary: N rule: check_tags_loop.induct)
  case (1 tags mode form tagno st)
  show ?case
  proof (cases "tagno < int (length tags)")
    case False
    then show ?thesis using "1.prems" by (subst check_tags_loop.simps) simp
  next
    case True
    obtain res where r: "check_tags_step tags mode form tagno st = Some res"
      "case res of Inl code \<Rightarrow> code \<noteq> RC_OK
       | Inr st' \<Rightarrow> ts_consumed st' + length (ts_ptr st') \<le> ts_consumed st + length (ts_ptr st) \<and> ts_step st' = ts_step st \<and>
          (tagno = int (length tags) - 1 \<and> form = 0 \<longrightarrow> 0 \<le> ts_tlv_len st' \<and> ts_expect_00 st' = 0)"
      using check_tags_step_total [OF "1.prems"(1) [OF True] True "1.prems"(4), of form] by blast
    show ?thesis
    proof (cases res)
      case (Inl code)
      with r True "1.prems" show ?thesis by (subst check_tags_loop.simps) auto
    next
      case (Inr st')
      define st2 where "st2 = st'\<lparr>ts_step := ts_step st' + 1\<rparr>"
      define N2 where "N2 = ts_consumed st2 + length (ts_ptr st2)"
      have f: "N2 \<le> N" "ts_step st2 = ts_step st + 1" using r(2) Inr "1.prems"(5) by (auto simp: N2_def st2_def)
      have "\<exists>code st'. check_tags_loop tags mode form (tagno + 1) st2 = Some (code, st') \<and> ts_consumed st' \<le> N2 \<and>
        (code = RC_OK \<and> tagno + 1 < int (length tags) \<and> form = 0 \<longrightarrow> 0 \<le> ts_tlv_len st' \<and> ts_expect_00 st' = 0)"
        unfolding st2_def
      proof (rule "1.IH" [OF True r(1) Inr], fold st2_def)
        show "length (ts_ptr st2) < 2 ^ 61" "N2 < 2 ^ 61" using f(1) "1.prems"(6) by (simp_all add: N2_def)
      qed (use "1.prems" f in \<open>auto simp: N2_def\<close>)
      then obtain code st3 where 3: "check_tags_loop tags mode form (tagno + 1) st2 = Some (code, st3)" "ts_consumed st3 \<le> N2"
        "code = RC_OK \<Longrightarrow> tagno + 1 < int (length tags) \<Longrightarrow> form = 0 \<Longrightarrow> 0 \<le> ts_tlv_len st3 \<and> ts_expect_00 st3 = 0" by blast
      have "0 \<le> ts_tlv_len st3 \<and> ts_expect_00 st3 = 0" if "code = RC_OK" "form = 0"
      proof (cases "tagno + 1 < int (length tags)")
        case False
        then have "tagno = int (length tags) - 1" using True by simp
        moreover have "st3 = st2" using 3(1) False by (subst (asm) check_tags_loop.simps) simp
        ultimately show ?thesis using r(2) Inr that by (simp add: st2_def)
      qed (use 3(3) that in auto)
      with 3(1,2) r(1) Inr True f(1) show ?thesis
        by (subst check_tags_loop.simps) (auto simp: st2_def)
    qed
  qed
qed

lemma check_tags_total:
  assumes "tags \<noteq> []" "mode \<in> {-1, 0, 1}" "length ptr < 2 ^ 61"
  shows "\<exists>code n len fo'. ber_check_tags stack_ok tags None ptr mode form ll fo = Some (code, n, len, fo', None) \<and> n \<le> length ptr \<and>
    (code = RC_OK \<and> form = 0 \<longrightarrow> 0 \<le> len)"
proof -
  define tagno :: int where "tagno = (if mode = 1 then -1 else 0)"
  define st where "st = \<lparr>ts_step = 0, ts_consumed = 0, ts_limit_len = -1, ts_expect_00 = 0, ts_tlv_constr = -1,
                ts_tlv_len = 0, ts_ptr = ptr\<rparr>"
  have t: "tagno < int (length tags)" "\<not> (mode = 0 \<and> tagno = int (length tags))" using assms(1) by (auto simp: tagno_def)
  have "\<exists>code st'. check_tags_loop tags mode form tagno st = Some (code, st') \<and> ts_consumed st' \<le> length ptr \<and>
    (code = RC_OK \<and> tagno < int (length tags) \<and> form = 0 \<longrightarrow> 0 \<le> ts_tlv_len st' \<and> ts_expect_00 st' = 0)"
    by (rule check_tags_loop_total) (use assms in \<open>auto simp: st_def tagno_def\<close>)
  then obtain code st' where l: "check_tags_loop tags mode form tagno st = Some (code, st')" "ts_consumed st' \<le> length ptr"
    "code = RC_OK \<Longrightarrow> form = 0 \<Longrightarrow> 0 \<le> ts_tlv_len st' \<and> ts_expect_00 st' = 0" using t by blast
  show ?thesis
  proof (cases stack_ok)
    case False
    then show ?thesis by (simp add: ber_check_tags_def check_return_def Let_def)
  next
    case True
    have "ber_check_tags stack_ok tags None ptr mode form ll fo =
      Some (if code \<noteq> RC_OK then check_return None ll fo code st'
            else check_return None (if ts_expect_00 st' \<noteq> 0 then - ts_expect_00 st' else ts_tlv_len st') (ts_tlv_constr st') RC_OK st')"
      using True t l(1) by (auto simp: ber_check_tags_def Let_def st_def [symmetric] tagno_def [symmetric])
    then show ?thesis using l(2,3) by (auto simp: check_return_def)
  qed
qed

section \<open>Primitive types\<close>

text \<open>The conversion through \<open>int\<close>, and the octets an encoder keeps.\<close>

lemma skip_suffix: "drop (length bs - length (skip_insignificant bs)) bs = skip_insignificant bs"
proof (induction bs rule: skip_insignificant.induct)
  case (1 b c bs)
  have "length (skip_insignificant (c # bs)) \<le> length (c # bs)" by (rule length_skip)
  then show ?case using 1 by (auto simp: Suc_diff_le)
qed simp_all

lemma sint_of_int_32: "- (2 ^ 31) \<le> x \<Longrightarrow> x < 2 ^ 31 \<Longrightarrow> sint (of_int x :: u32) = x"
  by (subst signed_of_int) (auto intro!: signed_take_bit_int_eq_self)

lemma scast_32_64: "(scast (w :: u32) :: u64) = of_int (sint w)"
  by simp

lemma int_to_size_small: "0 \<le> n \<Longrightarrow> n < 2 ^ 31 \<Longrightarrow> int_to_size n = nat n"
  unfolding int_to_size_def scast_32_64
  by (subst sint_of_int_32) (simp_all only: unat_eq_nat_uint uint_of_int_u64 order_trans, simp_all add: uint_of_int_u64)

lemma int_to_size_large:
  assumes "2 ^ 31 \<le> n" "n < 2 ^ 32"
  shows "int (int_to_size n) = n + 2 ^ 64 - 2 ^ 32"
proof -
  have "(of_int n :: u32) = of_int (n - 2 ^ 32)" by (simp only: of_int_diff) simp
  then have "sint (of_int n :: u32) = n - 2 ^ 32"
    using sint_of_int_32 [of "n - 2 ^ 32"] assms by (simp only:) simp
  then have "int_to_size n = unat (of_int (n - 2 ^ 32) :: u64)" by (simp only: int_to_size_def scast_32_64)
  also have "(of_int (n - 2 ^ 32) :: u64) = of_int (n + 2 ^ 64 - 2 ^ 32)" by (simp only: of_int_diff of_int_add) simp
  finally have "int (int_to_size n) = uint (of_int (n + 2 ^ 64 - 2 ^ 32) :: u64)" by (simp only: uint_nat)
  also have "\<dots> = n + 2 ^ 64 - 2 ^ 32" by (rule uint_of_int_u64) (use assms in auto)
  finally show ?thesis .
qed

lemma signed_of_nat_small: "n < 2 ^ 31 \<Longrightarrow> sint (of_nat n :: u32) = int n"
  by (simp add: signed_of_nat signed_take_bit_int_eq_self)

context bytes_consumer begin

lemma der_encode_primitive_ok:
  assumes "length tags \<le> 3" "key_inv k" "int_buf st = Some buf" "int_size st \<le> length buf" "int_size st < 2 ^ 61"
  shows "\<exists>r k'. der_encode_primitive tags st mode tag (Some cb) k = Some (r, k') \<and> key_inv k' \<and>
    (r = int (length (header_octets False (effective_tags tags mode tag) (int_size st)) + int_size st) \<and>
       taken k' = taken k @ header_octets False (effective_tags tags mode tag) (int_size st) @ take (int_size st) buf
     \<or> r = -1 \<and> refuses)"
proof -
  define h where "h = header_octets False (effective_tags tags mode tag) (int_size st)"
  from der_write_tags_ok [OF assms(1,2) header_fits [OF assms(1,5), of False mode tag]] obtain r k1 where
    w: "der_write_tags tags (int_size st) mode False tag (Some cb) k = Some (r, k1)" "key_inv k1"
      "r = int (length h) \<and> taken k1 = taken k @ h \<or> r = -1 \<and> refuses" by (auto simp: h_def)
  obtain r2 k2 where c: "cb k1 (take (int_size st) buf) = Some (r2, k2)" "key_inv k2"
    "0 \<le> r2 \<Longrightarrow> taken k2 = taken k1 @ take (int_size st) buf" "r2 < 0 \<Longrightarrow> refuses"
    by (rule cb_puts [OF w(2), of "take (int_size st) buf"]) blast
  have m: "mem_load buf 0 (int_size st) = Some (take (int_size st) buf)" using assms(4) by (simp add: mem_load_def)
  show ?thesis
  proof (cases "r = -1")
    case True
    with w show ?thesis by (auto simp: der_encode_primitive_def)
  next
    case False
    with w(3) have "r = int (length h)" "taken k1 = taken k @ h" by auto
    with c m w(1) assms(3) show ?thesis
      by (cases "r2 < 0") (auto simp: der_encode_primitive_def h_def [symmetric])
  qed
qed

text \<open>\<open>INTEGER_encode_der\<close> writes the header and the shortest octets of the number.\<close>

lemma INTEGER_encode_der_ok:
  assumes "length tags \<le> 3" "key_inv k" "INTEGER_inv st" "int_size st < 2 ^ 31"
  defines "os \<equiv> skip_insignificant (INTEGER_octets st)"
  shows "\<exists>r k'. INTEGER_encode_der tags st mode tag (Some cb) k = Some (r, k') \<and> key_inv k' \<and>
    (r = int (length (header_octets False (effective_tags tags mode tag) (length os) @ os)) \<and>
       taken k' = taken k @ header_octets False (effective_tags tags mode tag) (length os) @ os
     \<or> r = -1 \<and> refuses)"
proof -
  obtain buf where buf: "int_buf st = Some buf" "int_size st \<le> length buf"
    using assms(3) by (auto simp: INTEGER_inv_def split: option.splits)
  define oc where "oc = take (int_size st) buf"
  have oc: "INTEGER_octets st = oc" "length oc = int_size st" using buf by (simp_all add: INTEGER_octets_def oc_def)
  define shift where "shift = length oc - length os"
  have le: "length os \<le> length oc" using length_skip [of oc] by (simp add: os_def oc)
  have os: "os = drop shift oc"
    using skip_suffix [of oc] by (simp add: os_def oc(1) shift_def)
  define st1 where "st1 = (if shift \<noteq> 0 then \<lparr>int_buf = Some (drop shift buf), int_size = int_size st - shift\<rparr> else st)"
  have sz: "int_size st1 = length os" using le oc(2) by (simp add: st1_def shift_def)
  have "int_buf st1 = Some (drop shift buf)" using buf(1) by (simp add: st1_def)
  moreover have "int_size st1 \<le> length (drop shift buf)" using sz buf(2) oc(2) by (simp add: os)
  moreover have "int_size st1 < 2 ^ 61" using sz le oc(2) assms(4) by simp
  ultimately obtain r k' where "der_encode_primitive tags st1 mode tag (Some cb) k = Some (r, k')" "key_inv k'"
    "r = int (length (header_octets False (effective_tags tags mode tag) (length os)) + length os) \<and>
       taken k' = taken k @ header_octets False (effective_tags tags mode tag) (length os) @ take (length os) (drop shift buf)
     \<or> r = -1 \<and> refuses"
    using der_encode_primitive_ok [OF assms(1,2), of st1 "drop shift buf" mode tag] sz by auto
  moreover have "take (length os) (drop shift buf) = os"
    using buf(2) by (simp add: os oc_def drop_take min_def)
  moreover have "sint (of_nat shift :: u32) = int shift"
    by (rule signed_of_nat_small) (use assms(4) oc(2) in \<open>simp add: shift_def\<close>)
  then have "INTEGER_encode_der tags st mode tag (Some cb) k = der_encode_primitive tags st1 mode tag (Some cb) k"
    unfolding INTEGER_encode_der_def st1_def using buf
    by (simp add: mem_load_def oc_def [symmetric] Let_def shift_def [symmetric, unfolded os_def oc(1)])
  ultimately show ?thesis by auto
qed

end


lemma decode_primitive_ok:
  fixes tag :: u32 and rest :: "u8 list"
  assumes "tags \<noteq> []" "length tags \<le> 3" "mode \<in> {-1, 0, 1}" "length content < 2 ^ 31"
  defines "h \<equiv> header_octets False (effective_tags tags mode tag) (length content)"
  shows "ber_decode_primitive True (\<lambda>_. True) tags None (h @ content @ rest) mode =
    Some (RC_OK, length h + length content, Some \<lparr>int_buf = Some (content @ [0]), int_size = length content\<rparr>)"
proof -
  have l: "length content < 2 ^ 61" using assms(4) by simp
  have "ber_check_tags True tags None (h @ content @ rest) mode 0 0 0 = Some (RC_OK, length h, int (length content), 0, None)"
    using check_tags_ok [OF assms(1-3) l, of False tag rest 0 0] by (simp add: h_def)
  moreover have "mem_load (h @ content @ rest) (length h) (length content) = Some content" by (simp add: mem_load_def)
  moreover have "int_to_size (int (length content)) = length content" using int_to_size_small [of "int (length content)"] assms(4) by simp
  ultimately show ?thesis by (simp add: ber_decode_primitive_def)
qed

section \<open>Properties\<close>

text \<open>
  C9: an INTEGER round trips through DER under any chain of tags. What \<open>INTEGER_encode_der\<close>
  delivers is the header of the effective tags (the type's own, with an IMPLICIT or EXPLICIT tag in
  front or not) with exact nested lengths, followed by the shortest octets of the number; the
  return value counts them. \<open>ber_decode_primitive\<close> accepts them in front of anything else, consumes
  exactly them, and the INTEGER it builds has the same value.
\<close>

theorem INTEGER_der_roundtrip:
  assumes "tags \<noteq> []" "length tags \<le> 3" "mode \<in> {-1, 0, 1}" "INTEGER_inv st" "int_size st < 2 ^ 31"
    and "dyn_inv k" "INTEGER_encode_der tags st mode tag (Some (encode_dyn_cb can_alloc)) k = Some (r, k')" "0 \<le> r"
  shows "\<exists>enc st'. dyn_taken k' = dyn_taken k @ enc \<and> r = int (length enc) \<and>
    ber_decode_primitive True (\<lambda>_. True) tags None (enc @ rest) mode = Some (RC_OK, length enc, Some st') \<and>
    INTEGER_inv st' \<and> INTEGER_octets st' = skip_insignificant (INTEGER_octets st) \<and> INTEGER_val st' = INTEGER_val st"
proof -
  define os where "os = skip_insignificant (INTEGER_octets st)"
  define h where "h = header_octets False (effective_tags tags mode tag) (length os)"
  have "length os \<le> int_size st" using length_skip [of "INTEGER_octets st"] INTEGER_accessors(2) [OF assms(4)] by (simp add: os_def)
  then have lo: "length os < 2 ^ 31" using assms(5) by simp
  have "int_size st < 2 ^ 31" by (rule assms(5))
  from dyn.INTEGER_encode_der_ok [OF assms(2,6,4) this, where can_alloc = can_alloc and mode = mode and tag = tag] assms(7,8)
  have k': "dyn_taken k' = dyn_taken k @ h @ os" "r = int (length (h @ os))" by (auto simp: os_def h_def)
  define st' where "st' = \<lparr>int_buf = Some (os @ [0]), int_size = length os\<rparr>"
  have "ber_decode_primitive True (\<lambda>_. True) tags None (h @ os @ rest) mode = Some (RC_OK, length h + length os, Some st')"
    using decode_primitive_ok [OF assms(1-3) lo, of tag rest] by (simp add: h_def st'_def)
  moreover have "INTEGER_inv st'" "INTEGER_octets st' = os" by (simp_all add: st'_def INTEGER_inv_def INTEGER_octets_def)
  ultimately show ?thesis using k' by (intro exI [of _ "h @ os"] exI [of _ st']) (simp add: INTEGER_val_def os_def)
qed

theorem INTEGER_der_roundtrip_witness:
  "\<exists>r k' enc st'. INTEGER_encode_der [8] (INTEGER_of [0, 0, 5]) 1 6 (Some (encode_dyn_cb (\<lambda>_. True))) dyn_start = Some (r, k') \<and>
    dyn_taken k' = enc \<and> ber_decode_primitive True (\<lambda>_. True) [8] None (enc @ [1]) 1 = Some (RC_OK, length enc, Some st') \<and>
    INTEGER_val st' = 5"
proof -
  have i: "INTEGER_inv (INTEGER_of [0, 0, 5])" "int_size (INTEGER_of [0, 0, 5]) < 2 ^ 31" by (simp, simp add: INTEGER_of_def)
  have "length [8 :: u32] \<le> 3" "int_size (INTEGER_of [0, 0, 5]) < 2 ^ 31" by (simp_all add: INTEGER_of_def)
  from dyn.INTEGER_encode_der_ok [OF this(1) dyn_start_inv(1) i(1) this(2), where can_alloc = "\<lambda>_. True" and mode = 1 and tag = 6] dyn_never_refuses
  obtain r k' where e: "INTEGER_encode_der [8] (INTEGER_of [0, 0, 5]) 1 6 (Some (encode_dyn_cb (\<lambda>_. True))) dyn_start = Some (r, k')" "0 \<le> r"
    by auto
  from INTEGER_der_roundtrip [OF _ _ _ i dyn_start_inv(1) e, of "[1]"] e(1) show ?thesis
    by (auto simp: twos_val_def octets_val_Cons)
qed

text \<open>
  C27: decoding a primitive type is safe on hostile input: on any octets, for every chain of tags,
  every tag mode and every outcome of the allocations, \<open>ber_decode_primitive\<close> returns without a
  fault and consumes no more than the input.
\<close>

theorem ber_decode_primitive_safe:
  assumes "tags \<noteq> []" "mode \<in> {-1, 0, 1}" "length ptr < 2 ^ 61"
  shows "\<exists>code n st'. ber_decode_primitive stack_ok can_alloc tags sptr ptr mode = Some (code, n, st') \<and> n \<le> length ptr"
proof -
  obtain code n len fo where c: "ber_check_tags stack_ok tags None ptr mode 0 0 0 = Some (code, n, len, fo, None)" "n \<le> length ptr"
    "code = RC_OK \<Longrightarrow> 0 \<le> len" using check_tags_total [OF assms, of stack_ok 0 0 0] by auto
  have m: "mem_load ptr n (nat len) = Some (take (nat len) (drop n ptr))" "n + nat len \<le> length ptr"
    if "\<not> int (length (drop n ptr)) < len" "0 \<le> len"
    using that c(2) by (simp_all add: mem_load_def nat_le_iff)
  show ?thesis
  proof (cases "code = RC_OK")
    case True
    then show ?thesis using c m by (cases "int (length (drop n ptr)) < len") (auto simp: ber_decode_primitive_def Let_def simp del: length_drop)
  next
    case False
    then show ?thesis using c by (auto simp: ber_decode_primitive_def Let_def)
  qed
qed

theorem ber_decode_primitive_safe_witness:
  "\<exists>code n st'. ber_decode_primitive True (\<lambda>_. True) [8] None [2, 0x84, 0xFF, 0xFF, 0xFF, 0xFF] 0 = Some (code, n, st') \<and>
     n \<le> length [2 :: u8, 0x84, 0xFF, 0xFF, 0xFF, 0xFF]"
  by (rule ber_decode_primitive_safe) simp_all

text \<open>
  For contents of two to four gigabytes the size is truncated. \<open>st->size = (int)length\<close> makes
  it negative, the conversion to \<open>size_t\<close> makes it huge, and the check behind it is not compiled
  when the two types have equal size: the decoder reports success with an INTEGER whose \<open>size\<close> is far
  beyond its buffer.
\<close>

theorem primitive_size_truncated:
  assumes "ber_check_tags stack_ok tags None ptr mode 0 0 0 = Some (RC_OK, consumed, len, fo, step)"
    and "2 ^ 31 \<le> len" "len < 2 ^ 32" "consumed + nat len \<le> length ptr"
  shows "\<exists>st. ber_decode_primitive stack_ok (\<lambda>_. True) tags None ptr mode = Some (RC_OK, consumed + nat len, Some st) \<and>
    int (int_size st) = len + 2 ^ 64 - 2 ^ 32 \<and> \<not> INTEGER_inv st"
proof -
  have "int_to_size len > nat len + 1" using int_to_size_large [OF assms(2,3)] assms(2,3) by simp
  moreover have "\<not> int (length (drop consumed ptr)) < len" "\<not> len < 0" using assms(2,4) by simp_all
  moreover have "mem_load ptr consumed (nat len) = Some (take (nat len) (drop consumed ptr))"
    using assms(4) by (simp add: mem_load_def)
  ultimately show ?thesis using assms(1) int_to_size_large [OF assms(2,3)]
    by (simp add: ber_decode_primitive_def INTEGER_inv_def Let_def del: length_drop)
qed

theorem primitive_size_truncated_witness:
  "\<exists>n st. ber_decode_primitive True (\<lambda>_. True) [8] None (header_octets False [8] (2 ^ 31) @ replicate (2 ^ 31) 0) 0 =
     Some (RC_OK, n, Some st) \<and> int (int_size st) = 2 ^ 31 + 2 ^ 64 - 2 ^ 32 \<and> \<not> INTEGER_inv st"
proof -
  define h where "h = header_octets False [8] (2 ^ 31)"
  define content where "content = replicate (2 ^ 31) (0 :: u8)"
  have lc: "length content = 2 ^ 31" by (simp add: content_def)
  have "ber_check_tags True [8] None (h @ content @ []) 0 0 0 0 = Some (RC_OK, length h, 2 ^ 31, 0, None)"
    using check_tags_ok [of "[8]" 0 content False undefined "[]" 0 0] unfolding lc
    by (simp add: h_def effective_tags_def del: header_octets.simps)
  from primitive_size_truncated [OF this] lc show ?thesis unfolding h_def [symmetric] content_def [symmetric]
    by (auto simp: nat_power_eq)
qed

lemma NativeInteger_decode_ber_ok:
  fixes tag :: u32 and rest :: "u8 list"
  assumes "tags \<noteq> []" "length tags \<le> 3" "mode \<in> {-1, 0, 1}" "length os \<le> 8"
  defines "h \<equiv> header_octets False (effective_tags tags mode tag) (length os)"
  shows "NativeInteger_decode_ber True (\<lambda>_. True) field_uns tags ((h @ os) @ rest) mode =
    Some (RC_OK, length (h @ os), Some (if field_uns then sint (of_nat (octets_val os) :: u64) else twos_val os))"
proof -
  have l: "length os < 2 ^ 61" using assms(4) by simp
  have c: "ber_check_tags True tags None ((h @ os) @ rest) mode 0 0 0 = Some (RC_OK, length h, int (length os), 0, None)"
    using check_tags_ok [OF assms(1-3) l, of False tag rest 0 0] by (simp add: h_def)
  define tmp where "tmp = \<lparr>int_buf = Some (os @ rest), int_size = length os\<rparr>"
  have t: "INTEGER_inv tmp" "INTEGER_octets tmp = os" "INTEGER_val tmp = twos_val os"
    by (simp_all add: tmp_def INTEGER_inv_def INTEGER_octets_def INTEGER_val_def)
  have "octets_val os < 256 ^ length os" by (rule octets_val_less)
  also have "\<dots> \<le> 256 ^ 8" using assms(4) by (intro power_increasing) auto
  finally have u: "octets_val os < 2 ^ 64" by simp
  show ?thesis using c INTEGER2imax [OF t(1), of 0] INTEGER2umax [OF t(1), of 0] u twos_val_fits [OF assms(4)]
    by (simp add: NativeInteger_decode_ber_def Let_def t asn_INTEGER2long_def asn_INTEGER2ulong_def tmp_def [symmetric])
qed

text \<open>
  C28: a NativeInteger round trips through DER in a field that is signed, and in an unsigned one as
  long as the number is below \<open>2 ^ 63\<close>: the encoder delivers a header and at most eight octets,
  the shortest of the number, and the decoder consumes exactly them and stores the number again.
\<close>

theorem native_der_roundtrip:
  assumes "tags \<noteq> []" "length tags \<le> 3" "mode \<in> {-1, 0, 1}" "INTMAX_MIN \<le> n" "n \<le> INTMAX_MAX"
    and "field_uns \<longrightarrow> 0 \<le> n"
    and "dyn_inv k" "NativeInteger_encode_der tags n mode tag (Some (encode_dyn_cb can_alloc)) k = Some (r, k')" "0 \<le> r"
  shows "\<exists>h os. dyn_taken k' = dyn_taken k @ h @ os \<and> r = int (length (h @ os)) \<and>
    twos_val os = n \<and> minimal_twos os \<and> length os \<le> 8 \<and>
    NativeInteger_decode_ber True (\<lambda>_. True) field_uns tags ((h @ os) @ rest) mode = Some (RC_OK, length (h @ os), Some n)"
proof -
  define st where "st = INTEGER_of (be_octets 8 (unat (of_int n :: u64)))"
  define os where "os = skip_insignificant (INTEGER_octets st)"
  define h where "h = header_octets False (effective_tags tags mode tag) (length os)"
  note os = native_octets [OF assms(4,5)]
  have o: "os = skip_insignificant (be_octets 8 (unat (of_int n :: u64)))" by (simp add: os_def st_def)
  have "int_size st < 2 ^ 31" by (simp add: st_def INTEGER_of_def)
  moreover have "INTEGER_inv st" by (simp add: st_def)
  ultimately have k': "dyn_taken k' = dyn_taken k @ h @ os" "r = int (length (h @ os))"
    using dyn.INTEGER_encode_der_ok [OF assms(2,7), of st, where can_alloc = can_alloc and mode = mode and tag = tag] assms(8,9)
    by (auto simp: NativeInteger_encode_der_def st_def [symmetric] os_def h_def)
  have "field_uns \<Longrightarrow> sint (of_nat (octets_val os) :: u64) = n"
    using sint_of_int_64 [OF assms(4,5)] twos_val_nonneg [of os] assms(6) os(1) by (metis o of_int_of_nat_eq)
  with NativeInteger_decode_ber_ok [OF assms(1-3), of os field_uns tag rest] os k' show ?thesis
    by (intro exI [of _ h] exI [of _ os]) (auto simp: o h_def)
qed

theorem native_der_roundtrip_witness:
  "\<exists>r k' h os. NativeInteger_encode_der [8] (-5) 1 6 (Some (encode_dyn_cb (\<lambda>_. True))) dyn_start = Some (r, k') \<and>
    dyn_taken k' = h @ os \<and> twos_val os = -5 \<and>
    NativeInteger_decode_ber True (\<lambda>_. True) False [8] ((h @ os) @ [1]) 1 = Some (RC_OK, length (h @ os), Some (-5))"
proof -
  define st where "st = INTEGER_of (be_octets 8 (unat (of_int (-5) :: u64)))"
  have "length [8 :: u32] \<le> 3" "int_size st < 2 ^ 31" "INTEGER_inv st" by (simp_all add: st_def INTEGER_of_def INTEGER_inv_def)
  from dyn.INTEGER_encode_der_ok [OF this(1) dyn_start_inv(1) this(3,2), where can_alloc = "\<lambda>_. True" and mode = 1 and tag = 6]
    dyn_never_refuses
  obtain r k' where e: "NativeInteger_encode_der [8] (-5) 1 6 (Some (encode_dyn_cb (\<lambda>_. True))) dyn_start = Some (r, k')" "0 \<le> r"
    unfolding NativeInteger_encode_der_def st_def [symmetric] by auto
  have n: "INTMAX_MIN \<le> -5" "(-5) \<le> INTMAX_MAX" "False \<longrightarrow> (0::int) \<le> -5" by (simp_all add: limits_defs)
  from native_der_roundtrip [OF _ _ _ n dyn_start_inv(1) e, of "[1]"] e(1) show ?thesis by auto
qed

text \<open>
  An unsigned field whose value is in the top 128 of \<open>unsigned long\<close> does not survive DER.
  The encoder strips the octets \<open>FF\<close> as if the number were signed and writes a single octet; the
  decoder reads that octet as an unsigned number. The value \<open>2 ^ 64 - m\<close> comes back as \<open>256 - m\<close>.
\<close>

theorem unsigned_der_misread:
  assumes "tags \<noteq> []" "length tags \<le> 3" "mode \<in> {-1, 0, 1}" "-128 \<le> n" "n < 0"
    and "dyn_inv k" "NativeInteger_encode_der tags n mode tag (Some (encode_dyn_cb can_alloc)) k = Some (r, k')" "0 \<le> r"
  shows "\<exists>h b. dyn_taken k' = dyn_taken k @ h @ [b] \<and>
    NativeInteger_decode_ber True (\<lambda>_. True) True tags ((h @ [b]) @ rest) mode = Some (RC_OK, length (h @ [b]), Some (256 + n))"
proof -
  have n: "INTMAX_MIN \<le> n" "n \<le> INTMAX_MAX" using assms(4,5) by (simp_all add: limits_defs)
  from native_octets [OF n] obtain os where os: "os = skip_insignificant (be_octets 8 (unat (of_int n :: u64)))"
    "twos_val os = n" "minimal_twos os" "os \<noteq> []" "length os \<le> 8" by blast
  have "length os = 1"
  proof (rule ccontr)
    assume "length os \<noteq> 1"
    with os(4) obtain b c r where bcr: "os = b # c # r" by (cases os; cases "tl os") auto
    have "n < - (128 * 256 ^ length r) \<or> 128 * 256 ^ length r \<le> n"
      using minimal_twos_large [OF os(3)] unfolding os(2) by (simp add: bcr)
    moreover have "(1::int) \<le> 256 ^ length r" by simp
    ultimately show False using assms(4,5) by linarith
  qed
  then obtain b where b: "os = [b]" by (cases os) auto
  have v: "octets_val os = nat (256 + n)" using os(2) assms(5) by (auto simp: b twos_val_def split: if_splits)
  define st where "st = INTEGER_of (be_octets 8 (unat (of_int n :: u64)))"
  define h where "h = header_octets False (effective_tags tags mode tag) (length os)"
  have "int_size st < 2 ^ 31" by (simp add: st_def INTEGER_of_def)
  moreover have "INTEGER_inv st" "skip_insignificant (INTEGER_octets st) = os" by (simp_all add: st_def os(1))
  ultimately have k': "dyn_taken k' = dyn_taken k @ h @ os" "r = int (length (h @ os))"
    using dyn.INTEGER_encode_der_ok [OF assms(2,6), of st, where can_alloc = can_alloc and mode = mode and tag = tag] assms(7,8)
    by (auto simp: NativeInteger_encode_der_def st_def [symmetric] h_def)
  have "sint (of_nat (octets_val os) :: u64) = 256 + n"
    using sint_of_int_64 [of "256 + n"] assms(4,5) by (simp add: v limits_defs)
  with NativeInteger_decode_ber_ok [OF assms(1-3) os(5), of True tag rest] k' show ?thesis
    by (intro exI [of _ h] exI [of _ b]) (auto simp: h_def b)
qed

theorem unsigned_der_misread_witness:
  "\<exists>r k' h b. NativeInteger_encode_der [8] (-1) 0 0 (Some (encode_dyn_cb (\<lambda>_. True))) dyn_start = Some (r, k') \<and>
    dyn_taken k' = h @ [b] \<and>
    NativeInteger_decode_ber True (\<lambda>_. True) True [8] ((h @ [b]) @ []) 0 = Some (RC_OK, length (h @ [b]), Some 255)"
proof -
  define st where "st = INTEGER_of (be_octets 8 (unat (of_int (-1) :: u64)))"
  have "length [8 :: u32] \<le> 3" "int_size st < 2 ^ 31" "INTEGER_inv st" by (simp_all add: st_def INTEGER_of_def INTEGER_inv_def)
  from dyn.INTEGER_encode_der_ok [OF this(1) dyn_start_inv(1) this(3,2), where can_alloc = "\<lambda>_. True" and mode = 0 and tag = 0]
    dyn_never_refuses
  obtain r k' where e: "NativeInteger_encode_der [8] (-1) 0 0 (Some (encode_dyn_cb (\<lambda>_. True))) dyn_start = Some (r, k')" "0 \<le> r"
    unfolding NativeInteger_encode_der_def st_def [symmetric] by auto
  from unsigned_der_misread [OF _ _ _ _ _ dyn_start_inv(1) e, of "[]"] e(1) show ?thesis by auto
qed

end
