(* ===== verification/Oid.thy ===== *)
theory Oid
  imports Integer Consumer
begin

unbundle bit_operations_syntax

text \<open>
  OBJECT IDENTIFIER and RELATIVE-OID: \<open>skeletons/OBJECT_IDENTIFIER.c\<close> and \<open>RELATIVE-OID.c\<close>. Arcs are
  unsigned 32-bit numbers; they are stored in groups of seven bits, printed as numbers between dots
  and parsed back by a state machine over the characters.
\<close>

section \<open>Single arcs\<close>

text \<open>\<open>asn_oid_arc_t\<close> is \<open>uint32_t\<close>. A result that is not stored is 0 here.\<close>

definition ASN_OID_ARC_MAX :: u32 where "ASN_OID_ARC_MAX = NOT 0"

fun get_arc_loop :: "u32 \<Rightarrow> nat \<Rightarrow> u8 list \<Rightarrow> int \<times> u32" where
  "get_arc_loop accum n [] = (-1, 0)"
| "get_arc_loop accum n (b # bs) =
     (let accum = push_bit 7 accum OR ucast (b AND NOT 0x80) in
      if b AND 0x80 = 0 then
        if accum \<le> ASN_OID_ARC_MAX then (int (n + 1), accum) else (-1, 0)
      else if drop_bit 7 ASN_OID_ARC_MAX < accum then (-1, 0)
      else get_arc_loop accum (n + 1) bs)"

definition OBJECT_IDENTIFIER_get_single_arc :: "u8 list \<Rightarrow> int \<times> u32" where
  "OBJECT_IDENTIFIER_get_single_arc arcbuf = (if arcbuf = [] then (0, 0) else get_arc_loop 0 0 arcbuf)"

definition OBJECT_IDENTIFIER_get_first_arcs :: "u8 list \<Rightarrow> int \<times> u32 \<times> u32" where
  "OBJECT_IDENTIFIER_get_first_arcs arcbuf =
     (let (rd, v) = OBJECT_IDENTIFIER_get_single_arc arcbuf in
      if rd \<le> 0 then (rd, 0, 0)
      else if 80 \<le> v then (rd, 2, v - 80)
      else if 40 \<le> v then (rd, 1, v - 40)
      else (rd, 0, v))"

text \<open>The loop that fills \<open>scratch\<close> from its end; \<open>room\<close> octets are left in front of \<open>b\<close>.\<close>

fun set_arc_loop :: "nat \<Rightarrow> u8 \<Rightarrow> u32 \<Rightarrow> u8 list \<Rightarrow> u8 list option" where
  "set_arc_loop 0 msk v bs = None"
| "set_arc_loop (Suc room) msk v bs =
     (let b = msk OR ucast (v AND 0x7F); v = drop_bit 7 v in
      if v = 0 then Some (b # bs) else set_arc_loop room 0x80 v (b # bs))"

text \<open>The result is the return value with the octets stored at \<open>arcbuf\<close>.\<close>

definition OBJECT_IDENTIFIER_set_single_arc :: "nat \<Rightarrow> u32 \<Rightarrow> (int \<times> u8 list) option" where
  "OBJECT_IDENTIFIER_set_single_arc arcbuf_len v = do {
     bs \<leftarrow> set_arc_loop ((4 * 8 + 6) div 7) 0 v [];
     Some (if arcbuf_len < length bs then (-1, []) else (int (length bs), bs)) }"

section \<open>All arcs\<close>

text \<open>The loop over the remaining octets: \<open>off\<close> octets are read, \<open>num_arcs\<close> arcs found.\<close>

lemma get_arc_loop_bounds: "get_arc_loop a n bs = (r, v) \<Longrightarrow> r = -1 \<or> int n < r \<and> r \<le> int (n + length bs)"
proof (induction a n bs rule: get_arc_loop.induct)
  case (2 a n b bs)
  then show ?case by (auto simp: Let_def split: if_splits)
qed simp

lemma get_single_arc_bounds:
  "OBJECT_IDENTIFIER_get_single_arc bs = (r, v) \<Longrightarrow> r = -1 \<or> r = 0 \<and> bs = [] \<or> 0 < r \<and> r \<le> int (length bs)"
  using get_arc_loop_bounds [of 0 0 bs r v] by (auto simp: OBJECT_IDENTIFIER_get_single_arc_def split: if_splits)

function get_arcs_loop :: "u8 list \<Rightarrow> nat \<Rightarrow> nat \<Rightarrow> u32 list \<Rightarrow> nat \<Rightarrow> (int \<times> u32 list) option" where
  "get_arcs_loop buf off num_arcs arcs arc_slots =
     (let (rd, arc) = OBJECT_IDENTIFIER_get_single_arc (drop off buf) in
      if rd < 0 then Some (-1, arcs)
      else if rd = 0 then Some (if off \<noteq> length buf then -1 else int num_arcs, arcs)
      else do {
        arcs \<leftarrow> (if num_arcs < arc_slots then wr arcs num_arcs arc else Some arcs);
        get_arcs_loop buf (off + nat rd) (num_arcs + 1) arcs arc_slots })"
  by pat_completeness auto
termination
proof (relation "measure (\<lambda>(buf, off, n, a, s). length buf - off)", goal_cases)
  case (2 buf off num_arcs arcs arc_slots x rd arc arcs')
  then have "OBJECT_IDENTIFIER_get_single_arc (drop off buf) = (rd, arc)" by simp
  from get_single_arc_bounds [OF this] 2 show ?case by auto
qed simp

declare get_arcs_loop.simps [simp del]

definition OBJECT_IDENTIFIER_get_arcs :: "INTEGER_t option \<Rightarrow> u32 list \<Rightarrow> nat \<Rightarrow> (int \<times> u32 list) option" where
  "OBJECT_IDENTIFIER_get_arcs st arcs arc_slots =
     (case st of
        None \<Rightarrow> Some (-1, arcs)
      | Some st \<Rightarrow>
          (case int_buf st of
             None \<Rightarrow> Some (-1, arcs)
           | Some buf \<Rightarrow> do {
               buf \<leftarrow> mem_load buf 0 (int_size st);
               let (rd, arc0, arc1) = OBJECT_IDENTIFIER_get_first_arcs buf;
               if rd \<le> 0 then Some (-1, arcs)
               else do {
                 arcs \<leftarrow> (if 2 \<le> arc_slots then wr arcs 1 arc1 else Some arcs);
                 arcs \<leftarrow> (if 1 \<le> arc_slots then wr arcs 0 arc0 else Some arcs);
                 get_arcs_loop buf (nat rd) 2 arcs arc_slots } }))"

definition RELATIVE_OID_get_arcs :: "INTEGER_t option \<Rightarrow> u32 list \<Rightarrow> nat \<Rightarrow> (int \<times> u32 list) option" where
  "RELATIVE_OID_get_arcs st arcs arcs_count =
     (case st of
        None \<Rightarrow> Some (-1, arcs)
      | Some st \<Rightarrow>
          (case int_buf st of
             None \<Rightarrow> Some (-1, arcs)
           | Some buf \<Rightarrow> do {
               buf \<leftarrow> mem_load buf 0 (int_size st);
               get_arcs_loop buf 0 0 arcs arcs_count }))"

text \<open>
  The loop that stores the arcs into a buffer with room for \<open>sz\<close> more octets; \<open>None\<close> inside stands
  for the early return that frees the buffer.
\<close>

fun set_arcs_loop :: "u32 list \<Rightarrow> nat \<Rightarrow> u8 list option option" where
  "set_arcs_loop [] sz = Some (Some [])"
| "set_arcs_loop (arc # arcs) sz = do {
     (wrote, bs) \<leftarrow> OBJECT_IDENTIFIER_set_single_arc sz arc;
     if wrote \<le> 0 then Some None
     else do {
       c_assert (nat wrote \<le> sz);
       res \<leftarrow> set_arcs_loop arcs (sz - nat wrote);
       Some (map_option (\<lambda>rest. bs @ rest) res) } }"

definition OBJECT_IDENTIFIER_set_arcs ::
  "(nat \<Rightarrow> bool) \<Rightarrow> INTEGER_t option \<Rightarrow> u32 list \<Rightarrow> nat \<Rightarrow> (int \<times> INTEGER_t option) option" where
  "OBJECT_IDENTIFIER_set_arcs can_alloc st arcs arc_slots =
     (if st = None \<or> arc_slots < 2 then Some (-1, st)
      else do {
        arc0 \<leftarrow> rd arcs 0;
        arc1 \<leftarrow> rd arcs 1;
        if (if arc0 \<le> 1 then 40 \<le> arc1
            else if arc0 = 2 then ASN_OID_ARC_MAX - 80 < arc1
            else 2 < arc0) then Some (-1, st)
        else do {
          let sz = (4 * 8 + 6) div 7 * arc_slots;
          if \<not> can_alloc (sz + 1) then Some (-1, st)
          else do {
            arcs \<leftarrow> mem_load arcs 0 arc_slots;
            res \<leftarrow> set_arcs_loop ((arc0 * 40 + arc1) # drop 2 arcs) sz;
            Some (case res of
                None \<Rightarrow> (-1, st)
              | Some bs \<Rightarrow> (0, Some \<lparr>int_buf = Some (bs @ [0]), int_size = length bs\<rparr>)) } } })"

definition RELATIVE_OID_set_arcs ::
  "(nat \<Rightarrow> bool) \<Rightarrow> INTEGER_t option \<Rightarrow> u32 list \<Rightarrow> nat \<Rightarrow> (int \<times> INTEGER_t option) option" where
  "RELATIVE_OID_set_arcs can_alloc st arcs arcs_count =
     (if st = None then Some (-1, st)
      else do {
        let sz = (4 * 8 + 6) div 7 * arcs_count;
        if \<not> can_alloc (sz + 1) then Some (-1, st)
        else do {
          arcs \<leftarrow> mem_load arcs 0 arcs_count;
          res \<leftarrow> set_arcs_loop arcs sz;
          Some (case res of
              None \<Rightarrow> (-1, st)
            | Some bs \<Rightarrow> (0, Some \<lparr>int_buf = Some (bs @ [0]), int_size = length bs\<rparr>)) } })"

section \<open>Text\<close>

text \<open>\<open>snprintf\<close> with \<open>"%" PRIu32\<close>: decimal digits.\<close>

fun dec_text :: "nat \<Rightarrow> u8 list" where
  "dec_text n = (if n < 10 then [of_nat (48 + n)] else dec_text (n div 10) @ [of_nat (48 + n mod 10)])"

declare dec_text.simps [simp del]

function dump_loop :: "u8 list \<Rightarrow> nat \<Rightarrow> nat \<Rightarrow> 'k consumer \<Rightarrow> 'k \<Rightarrow> (int \<times> 'k) option" where
  "dump_loop buf off produced cb app_key =
     (let (rd, arc) = OBJECT_IDENTIFIER_get_single_arc (drop off buf) in
      if rd < 0 then Some (-1, app_key)
      else if rd = 0 then Some (if off \<noteq> length buf then -1 else int produced, app_key)
      else do {
        let off = off + nat rd;
        c_assert (off \<le> length buf);
        let scratch = 0x2E # dec_text (unat arc);
        if 32 \<le> length scratch then Some (-1, app_key)
        else do {
          (r, app_key) \<leftarrow> cb app_key scratch;
          if r < 0 then Some (-1, app_key) else dump_loop buf off (produced + length scratch) cb app_key } })"
  by pat_completeness auto
termination
proof (relation "measure (\<lambda>(buf, off, n, cb, k). length buf - off)", goal_cases)
  case (2 buf off produced cb k x rd arc)
  then have "OBJECT_IDENTIFIER_get_single_arc (drop off buf) = (rd, arc)" by simp
  from get_single_arc_bounds [OF this] 2 show ?case by auto
qed simp

declare dump_loop.simps [simp del]

definition OBJECT_IDENTIFIER__dump_body :: "INTEGER_t \<Rightarrow> 'k consumer \<Rightarrow> 'k \<Rightarrow> (int \<times> 'k) option" where
  "OBJECT_IDENTIFIER__dump_body st cb app_key = do {
     buf \<leftarrow> mem_load (case int_buf st of Some buf \<Rightarrow> buf | None \<Rightarrow> []) 0 (int_size st);
     let (rd, arc0, arc1) = OBJECT_IDENTIFIER_get_first_arcs buf;
     if rd \<le> 0 then Some (-1, app_key)
     else do {
       let scratch = dec_text (unat arc0) @ 0x2E # dec_text (unat arc1);
       if 32 \<le> length scratch then Some (-1, app_key)
       else do {
         (r, app_key) \<leftarrow> cb app_key scratch;
         if r < 0 then Some (-1, app_key) else dump_loop buf (nat rd) (length scratch) cb app_key } } }"

text \<open>\<open>RELATIVE_OID__dump_body\<close>: the dot stands in front of every arc but the first.\<close>

function relative_dump_loop :: "u8 list \<Rightarrow> nat \<Rightarrow> nat \<Rightarrow> 'k consumer \<Rightarrow> 'k \<Rightarrow> (int \<times> 'k) option" where
  "relative_dump_loop buf off produced cb app_key =
     (let (rd, arc) = OBJECT_IDENTIFIER_get_single_arc (drop off buf) in
      if rd < 0 then Some (-1, app_key)
      else if rd = 0 then Some (if off \<noteq> length buf then -1 else int produced, app_key)
      else do {
        let scratch = (if off \<noteq> 0 then [0x2E] else []) @ dec_text (unat arc);
        if 32 \<le> length scratch then Some (-1, app_key)
        else do {
          let off = off + nat rd;
          c_assert (off \<le> length buf);
          (r, app_key) \<leftarrow> cb app_key scratch;
          if r < 0 then Some (-1, app_key) else relative_dump_loop buf off (produced + length scratch) cb app_key } })"
  by pat_completeness auto
termination
proof (relation "measure (\<lambda>(buf, off, n, cb, k). length buf - off)", goal_cases)
  case (2 buf off produced cb k x rd arc)
  then have "OBJECT_IDENTIFIER_get_single_arc (drop off buf) = (rd, arc)" by simp
  from get_single_arc_bounds [OF this] 2 show ?case by auto
qed simp

declare relative_dump_loop.simps [simp del]

definition RELATIVE_OID__dump_body :: "INTEGER_t \<Rightarrow> 'k consumer \<Rightarrow> 'k \<Rightarrow> (int \<times> 'k) option" where
  "RELATIVE_OID__dump_body st cb app_key = do {
     buf \<leftarrow> mem_load (case int_buf st of Some buf \<Rightarrow> buf | None \<Rightarrow> []) 0 (int_size st);
     relative_dump_loop buf 0 0 cb app_key }"

datatype oid_state = ST_LEADSPACE | ST_TAILSPACE | ST_AFTERVALUE | ST_WAITDIGITS

text \<open>
  The loop over the characters at \<open>oid_text\<close>, \<open>pos\<close> characters behind the start. \<open>Inl\<close> is a
  \<open>return -1\<close> from within it, \<open>Inr\<close> the state when it ends or breaks; both carry the position for
  \<open>*opt_oid_text_end\<close> and the array.
\<close>

lemma strtoumax_loop_pos: "strtoumax_loop v p cs u = (r, e, w) \<Longrightarrow> p \<le> e"
proof (induction v p cs u rule: strtoumax_loop.induct)
  case (2 v p c cs u)
  then show ?case by (auto simp: Let_def split: if_splits list.splits)
qed simp

lemma strtoul_digit_pos:
  assumes "is_digit c" "asn_strtoul_lim (c # cs) u = (r, e, w)"
  shows "0 < e"
proof -
  obtain r' e' w' where s: "asn_strtoumax_lim (c # cs) 0 = (r', e', w')" by (cases "asn_strtoumax_lim (c # cs) 0")
  with assms(2) have "e = e'" by (auto simp: asn_strtoul_lim_def split: if_splits)
  moreover have "c \<noteq> 0x2D" "c \<noteq> 0x2B" using assms(1) by (auto simp: is_digit_def word_le_def)
  then have "strtoumax_loop (ucast c - 48) 1 cs 0 = (r', e', w')"
    using s assms(1) by (simp add: asn_strtoumax_lim_def)
  ultimately show ?thesis using strtoumax_loop_pos by fastforce
qed

function parse_arcs_loop ::
  "u32 list \<Rightarrow> nat \<Rightarrow> oid_state \<Rightarrow> nat \<Rightarrow> nat \<Rightarrow> u8 list \<Rightarrow> ((nat \<times> u32 list) + (oid_state \<times> nat \<times> nat \<times> u32 list)) option" where
  "parse_arcs_loop arcs arcs_count state num_arcs pos [] = Some (Inr (state, num_arcs, pos, arcs))"
| "parse_arcs_loop arcs arcs_count state num_arcs pos (c # cs) =
     (if c \<in> {0x09, 0x0A, 0x0D, 0x20} then
        (case state of
           ST_LEADSPACE \<Rightarrow> parse_arcs_loop arcs arcs_count state num_arcs (pos + 1) cs
         | ST_TAILSPACE \<Rightarrow> parse_arcs_loop arcs arcs_count state num_arcs (pos + 1) cs
         | ST_AFTERVALUE \<Rightarrow> parse_arcs_loop arcs arcs_count ST_TAILSPACE num_arcs (pos + 1) cs
         | ST_WAITDIGITS \<Rightarrow> Some (Inr (state, num_arcs, pos, arcs)))
      else if c = 0x2E then
        (case state of
           ST_AFTERVALUE \<Rightarrow> parse_arcs_loop arcs arcs_count ST_WAITDIGITS num_arcs (pos + 1) cs
         | _ \<Rightarrow> Some (Inl (pos, arcs)))
      else if is_digit c then
        if state = ST_TAILSPACE \<or> state = ST_AFTERVALUE then Some (Inl (pos, arcs))
        else
          let (r, endp, v) = asn_strtoul_lim (c # cs) 0 in
          if (r = ASN_STRTOX_OK \<or> r = ASN_STRTOX_EXTRA_DATA) \<and> v \<le> ucast ASN_OID_ARC_MAX then do {
            arcs \<leftarrow> (if num_arcs < arcs_count then wr arcs num_arcs (ucast v) else Some arcs);
            parse_arcs_loop arcs arcs_count ST_AFTERVALUE (num_arcs + 1) (pos + endp) (drop endp (c # cs)) }
          else Some (Inl (pos, arcs))
      else Some (Inr (ST_WAITDIGITS, num_arcs, pos, arcs)))"
  by pat_completeness auto
termination
proof (relation "measure (\<lambda>(a, n, s, k, p, cs). length cs)", goal_cases)
  case (6 arcs n state k p c cs x r y endp v arcs')
  then have "asn_strtoul_lim (c # cs) 0 = (r, endp, v)" "is_digit c" by simp_all
  from strtoul_digit_pos [OF this(2,1)] show ?case by simp
qed simp_all

declare parse_arcs_loop.simps(2) [simp del]

text \<open>
  \<open>oid_text\<close> is the object with the characters, \<open>oid_txt_length\<close> their number or \<open>-1\<close> for a
  terminated string; \<open>arcs\<close> is \<open>None\<close> for a null pointer. The result is the return value,
  \<open>*opt_oid_text_end\<close> as an offset, and the array.
\<close>

definition OBJECT_IDENTIFIER_parse_arcs ::
  "u8 list option \<Rightarrow> int \<Rightarrow> u32 list option \<Rightarrow> nat \<Rightarrow> (int \<times> nat \<times> u32 list option) option" where
  "OBJECT_IDENTIFIER_parse_arcs oid_text oid_txt_length arcs arcs_count =
     (case oid_text of
        None \<Rightarrow> Some (-1, 0, arcs)
      | Some obj \<Rightarrow>
          if oid_txt_length < -1 \<or> arcs_count \<noteq> 0 \<and> arcs = None then Some (-1, 0, arcs)
          else do {
            text \<leftarrow> (if oid_txt_length = -1 then (if 0 \<in> set obj then Some (takeWhile (\<lambda>c. c \<noteq> 0) obj) else None)
                     else mem_load obj 0 (nat oid_txt_length));
            res \<leftarrow> parse_arcs_loop (case arcs of Some a \<Rightarrow> a | None \<Rightarrow> []) arcs_count ST_LEADSPACE 0 0 text;
            Some (case res of
                Inl (pos, a) \<Rightarrow> (-1, pos, map_option (\<lambda>_. a) arcs)
              | Inr (state, num_arcs, pos, a) \<Rightarrow>
                  (case state of ST_LEADSPACE \<Rightarrow> 0 | ST_WAITDIGITS \<Rightarrow> -1 | _ \<Rightarrow> int num_arcs,
                   pos, map_option (\<lambda>_. a) arcs)) })"

section \<open>The octets of an arc\<close>

text \<open>The number that groups of seven bits denote, and X.690 #8.19.2: the groups of a number.\<close>

definition arc_val :: "nat \<Rightarrow> u8 list \<Rightarrow> nat" where
  "arc_val a bs = foldl (\<lambda>v b. v * 128 + unat (b AND 0x7F)) a bs"

fun arc_groups :: "nat \<Rightarrow> nat \<Rightarrow> u8 list" where
  "arc_groups m n = (if n < 128 then [] else arc_groups 128 (n div 128)) @ [of_nat (m + n mod 128)]"

declare arc_groups.simps [simp del]

abbreviation arc_octets :: "u32 \<Rightarrow> u8 list" where
  "arc_octets v \<equiv> arc_groups 0 (unat v)"

lemma arc_val_simps [simp]:
  "arc_val a [] = a" "arc_val a (b # bs) = arc_val (a * 128 + unat (b AND 0x7F)) bs"
  "arc_val a (bs @ [b]) = arc_val a bs * 128 + unat (b AND 0x7F)"
  by (simp_all add: arc_val_def)

lemma arc_val_grows: "a \<le> arc_val a bs"
proof (induction bs arbitrary: a)
  case (Cons b bs)
  have "a \<le> a * 128 + unat (b AND 0x7F)" by simp
  also have "\<dots> \<le> arc_val a (b # bs)" using Cons.IH by simp
  finally show ?case .
qed simp

lemma arc_val_grows_128: "bs \<noteq> [] \<Longrightarrow> a * 128 \<le> arc_val a bs"
  using arc_val_grows by (cases bs) (auto intro: order_trans [OF le_add1])

text \<open>Small numbers as words, and the group of an octet.\<close>

lemma unat_of_nat_small:
  "k < 256 \<Longrightarrow> unat (of_nat k :: u8) = k" "k < 2 ^ 32 \<Longrightarrow> unat (of_nat k :: u32) = k"
  by (simp_all only: unsigned_of_nat take_bit_eq_mod) simp_all

lemma and_7F: "w AND 0x7F = take_bit 7 (w :: u8)" "v AND 0x7F = take_bit 7 (v :: u32)"
  by (simp_all add: take_bit_eq_mask mask_eq_exp_minus_1)

lemma and_not_80: "b AND NOT 0x80 = b AND (0x7F :: u8)"
proof -
  have e: "NOT 0x80 = (0x7F :: u8)" by simp
  show ?thesis by (simp only: e)
qed

lemma unat_group: "unat (b AND (0x7F :: u8)) = unat b mod 128"
  unfolding and_7F by (simp only: unsigned_take_bit_eq) (simp add: take_bit_eq_mod)

lemma unat_group_less: "unat (b AND (0x7F :: u8)) < 128"
  by (simp only: unat_group)

lemma arc_limits: "drop_bit 7 ASN_OID_ARC_MAX = 0x1FFFFFF" "v \<le> ASN_OID_ARC_MAX"
proof -
  have e: "ASN_OID_ARC_MAX = 0xFFFFFFFF" by (simp add: ASN_OID_ARC_MAX_def)
  show "drop_bit 7 ASN_OID_ARC_MAX = 0x1FFFFFF" unfolding e by simp
  show "v \<le> ASN_OID_ARC_MAX" by (simp add: ASN_OID_ARC_MAX_def)
qed

text \<open>One step of the accumulator, while it has seven bits to spare.\<close>

lemma accum_step:
  assumes "a < 2 ^ 25"
  shows "push_bit 7 (of_nat a :: u32) OR ucast (b AND NOT 0x80) = of_nat (a * 128 + unat (b AND (0x7F :: u8)))"
proof -
  define g where "g = unat (b AND (0x7F :: u8))"
  have g: "g < 128" unfolding g_def by (rule unat_group_less)
  have u: "(ucast (b AND NOT 0x80) :: u32) = of_nat g" unfolding g_def and_not_80 by (simp only: of_nat_unat)
  have "take_bit 7 (of_nat g :: u32) = of_nat g" using g by (simp add: take_bit_of_nat take_bit_nat_eq_self)
  from or_low_add [OF this, of "of_nat a"] show ?thesis
    by (simp only: u push_bit_eq_mult g_def [symmetric] of_nat_add of_nat_mult) simp
qed

text \<open>The loop is exact: it overflows when the number of the groups does.\<close>

lemma get_arc_loop_exact:
  assumes "a < 2 ^ 25" "\<forall>b \<in> set ms. b AND 0x80 \<noteq> 0" "l AND 0x80 = 0"
  shows "get_arc_loop (of_nat a) n (ms @ l # rest) =
    (if arc_val a (ms @ [l]) < 2 ^ 32 then (int (n + length ms + 1), of_nat (arc_val a (ms @ [l]))) else (-1, 0))"
  using assms(1,2)
proof (induction ms arbitrary: a n)
  case Nil
  have g: "unat (l AND 0x7F) < 128" by (rule unat_group_less)
  then have "a * 128 + unat (l AND 0x7F) < 2 ^ 32" using Nil(1) by simp
  then show ?case using assms(3) accum_step [OF Nil(1), of l] arc_limits(2) by (simp add: Let_def)
next
  case (Cons b ms)
  define a' where "a' = a * 128 + unat (b AND 0x7F)"
  have g: "unat (b AND 0x7F) < 128" by (rule unat_group_less)
  then have a': "a' < 2 ^ 32" using Cons.prems(1) by (simp add: a'_def)
  have c: "drop_bit 7 ASN_OID_ARC_MAX < (of_nat a' :: u32) \<longleftrightarrow> 2 ^ 25 \<le> a'"
    unfolding arc_limits word_less_nat_alt unat_of_nat_small(2) [OF a'] by auto
  have e: "get_arc_loop (of_nat a) n ((b # ms) @ l # rest) =
      (if 2 ^ 25 \<le> a' then (-1, 0) else get_arc_loop (of_nat a') (n + 1) (ms @ l # rest))"
    using Cons.prems accum_step [OF Cons.prems(1), of b] c by (simp add: a'_def Let_def)
  show ?case
  proof (cases "2 ^ 25 \<le> a'")
    case True
    have "a' * 128 \<le> arc_val a' (ms @ [l])" by (rule arc_val_grows_128) simp
    with True have "\<not> arc_val a' (ms @ [l]) < 2 ^ 32" by simp
    with e True show ?thesis by (simp add: a'_def [symmetric] del: get_arc_loop.simps)
  next
    case False
    with Cons.IH [of a' "n + 1"] Cons.prems(2) e show ?thesis by (simp add: a'_def [symmetric] del: get_arc_loop.simps)
  qed
qed

text \<open>The groups of a number: all but the last one have the top bit.\<close>

lemma group_octet:
  assumes "m = 0 \<or> m = 128" "g < 128"
  shows "unat (of_nat (m + g) AND (0x7F :: u8)) = g" "(of_nat (m + g) :: u8) AND 0x80 = 0 \<longleftrightarrow> m = 0"
proof -
  have u: "unat (of_nat (m + g) :: u8) = m + g" using assms by (intro unat_of_nat_small(1)) auto
  show "(of_nat (m + g) :: u8) AND 0x80 = 0 \<longleftrightarrow> m = 0" unfolding top_bit_u8 u using assms by auto
  show "unat (of_nat (m + g) AND (0x7F :: u8)) = g" unfolding unat_group u using assms by auto
qed

lemma arc_groups_shape:
  assumes "m = 0 \<or> m = 128"
  shows "\<exists>ms l. arc_groups m n = ms @ [l] \<and> (\<forall>b \<in> set ms. b AND 0x80 \<noteq> 0) \<and> (l AND 0x80 = 0 \<longleftrightarrow> m = 0) \<and>
    arc_val 0 (arc_groups m n) = n"
  using assms
proof (induction m n rule: arc_groups.induct)
  case (1 m n)
  define l where "l = (of_nat (m + n mod 128) :: u8)"
  have l: "unat (l AND 0x7F) = n mod 128" "l AND 0x80 = 0 \<longleftrightarrow> m = 0"
    unfolding l_def by (rule group_octet [OF "1.prems"]; simp)+
  show ?case
  proof (cases "n < 128")
    case True
    then have e: "arc_groups m n = [l]" by (subst arc_groups.simps) (simp add: l_def)
    have "unat (l AND 0x7F) = n" using l(1) True by simp
    then show ?thesis unfolding e using l(2) by (intro exI [of _ "[]"] exI [of _ l]) simp
  next
    case False
    with 1(1) obtain ms k where k: "arc_groups 128 (n div 128) = ms @ [k]" "\<forall>b \<in> set ms. b AND 0x80 \<noteq> 0" "k AND 0x80 \<noteq> 0"
      "arc_val 0 (arc_groups 128 (n div 128)) = n div 128" by auto
    have e: "arc_groups m n = (ms @ [k]) @ [l]" using False by (subst arc_groups.simps) (simp add: k(1) l_def)
    have "arc_val 0 (ms @ [k]) = n div 128" using k(1,4) by simp
    then have "arc_val 0 (arc_groups m n) = n" unfolding e arc_val_simps(3) [of 0 "ms @ [k]"] l(1) by simp
    with e k(2,3) l(2) show ?thesis by (intro exI [of _ "ms @ [k]"] exI [of _ l]) auto
  qed
qed

lemma length_arc_groups: "n < 128 ^ k \<Longrightarrow> 0 < k \<Longrightarrow> length (arc_groups m n) \<le> k"
proof (induction m n arbitrary: k rule: arc_groups.induct)
  case (1 m n)
  show ?case
  proof (cases "n < 128")
    case True
    then show ?thesis using 1(3) by (subst arc_groups.simps) simp
  next
    case False
    then obtain j where j: "k = Suc j" "0 < j" using 1(2,3) by (cases k; cases "k - 1") auto
    then have "n div 128 < 128 ^ j" using 1(2) by (simp add: less_mult_imp_div_less mult.commute)
    with 1(1) [OF False, of j] j False show ?thesis by (subst arc_groups.simps) simp
  qed
qed

lemma set_arc_loop_ok:
  assumes "m = 0 \<or> m = 128" "n < 2 ^ 32" "length (arc_groups m n) \<le> room"
  shows "set_arc_loop room (of_nat m) (of_nat n) bs = Some (arc_groups m n @ bs)"
  using assms
proof (induction m n arbitrary: room bs rule: arc_groups.induct)
  case (1 m n)
  have "arc_groups m n \<noteq> []" by (subst arc_groups.simps) simp
  then obtain room' where r: "room = Suc room'" using "1.prems"(3) by (cases room) auto
  have t: "(of_nat n :: u32) AND 0x7F = of_nat (n mod 128)"
    unfolding and_7F by (simp only: take_bit_of_nat) (simp only: take_bit_eq_mod, simp)
  have l: "of_nat m OR ucast ((of_nat n :: u32) AND 0x7F) = (of_nat (m + n mod 128) :: u8)"
  proof -
    have "n mod 128 < 2 ^ 32" by (rule order_less_trans [of _ 128]) simp_all
    then have u: "(ucast (of_nat (n mod 128) :: u32) :: u8) = of_nat (n mod 128)"
      by (metis of_nat_unat unat_of_nat_small(2))
    have "take_bit 7 (of_nat (n mod 128) :: u8) = of_nat (n mod 128)"
      by (simp only: take_bit_of_nat) (simp only: take_bit_eq_mod, simp)
    from or_low_add [OF this, of "of_nat (m div 128)"] "1.prems"(1) show ?thesis unfolding t u by auto
  qed
  have n: "n < 2 ^ 32" by (rule "1.prems"(2))
  have n': "n div 128 < 2 ^ 32" using n by (rule order_le_less_trans [OF div_le_dividend])
  have d: "drop_bit 7 (of_nat n :: u32) = of_nat (n div 128)"
    by (simp only: word_unat_eq_iff unat_drop_bit_eq unat_of_nat_small(2) [OF n] unat_of_nat_small(2) [OF n']) (simp add: drop_bit_eq_div)
  have z: "(of_nat (n div 128) :: u32) = 0 \<longleftrightarrow> n < 128"
    by (simp only: word_unat_eq_iff unat_of_nat_small(2) [OF n'] unsigned_0) (simp add: div_eq_0_iff)
  show ?case
  proof (cases "n < 128")
    case True
    then show ?thesis using l d z by (subst arc_groups.simps) (simp add: r)
  next
    case False
    have ih: "set_arc_loop room' (of_nat 128) (of_nat (n div 128)) (of_nat (m + n mod 128) # bs) =
        Some (arc_groups 128 (n div 128) @ of_nat (m + n mod 128) # bs)"
    proof (rule 1(1) [OF False])
      show "length (arc_groups 128 (n div 128)) \<le> room'" using "1.prems"(3) False by (subst (asm) arc_groups.simps) (simp add: r)
    qed (use "1.prems"(2) in simp_all)
    moreover have "arc_groups m n = arc_groups 128 (n div 128) @ [of_nat (m + n mod 128)]"
      using False by (subst arc_groups.simps) simp
    ultimately show ?thesis using False l d z by (simp add: r)
  qed
qed

section \<open>Lists of arcs\<close>

lemma get_single_arc_ok:
  "OBJECT_IDENTIFIER_get_single_arc (arc_octets v @ rest) = (int (length (arc_octets v)), v)"
proof -
  from arc_groups_shape [of 0 "unat v"] obtain ms l where e: "arc_octets v = ms @ [l]" "\<forall>b \<in> set ms. b AND 0x80 \<noteq> 0"
    "l AND 0x80 = 0" "arc_val 0 (ms @ [l]) = unat v" by auto
  have v: "unat v < 2 ^ 32" using unsigned_less [of v, where ?'a = nat] by simp
  have "get_arc_loop (of_nat 0) 0 (ms @ l # rest) = (int (length (ms @ [l])), v)"
    using get_arc_loop_exact [OF _ e(2,3), of 0 0 rest] v unfolding e(4) by simp
  then show ?thesis by (simp add: e(1) OBJECT_IDENTIFIER_get_single_arc_def)
qed

lemma arc_octets_length: "length (arc_octets v) \<le> 5" "0 < length (arc_octets v)"
proof -
  have "unat v < 128 ^ 5" using unsigned_less [of v, where ?'a = nat] by (rule order_less_le_trans) simp
  then show "length (arc_octets v) \<le> 5" by (rule length_arc_groups) simp
  show "0 < length (arc_octets v)" by (subst arc_groups.simps) simp
qed

lemma set_single_arc_ok:
  assumes "length (arc_octets v) \<le> sz"
  shows "OBJECT_IDENTIFIER_set_single_arc sz v = Some (int (length (arc_octets v)), arc_octets v)"
proof -
  have "unat v < 2 ^ 32" using unsigned_less [of v, where ?'a = nat] by simp
  from set_arc_loop_ok [OF _ this, of 0 5 "[]"] arc_octets_length(1) [of v]
  have "set_arc_loop 5 0 v [] = Some (arc_octets v)" by simp
  then show ?thesis using assms by (simp add: OBJECT_IDENTIFIER_set_single_arc_def del: set_arc_loop.simps)
qed

text \<open>What a run stores into the caller's array: as many of the arcs as there are slots.\<close>

fun store_arcs :: "u32 list \<Rightarrow> nat \<Rightarrow> nat \<Rightarrow> u32 list \<Rightarrow> u32 list" where
  "store_arcs [] num_arcs arc_slots arcs = arcs"
| "store_arcs (v # vs) num_arcs arc_slots arcs =
     store_arcs vs (num_arcs + 1) arc_slots (if num_arcs < arc_slots then arcs[num_arcs := v] else arcs)"

lemma length_store_arcs [simp]: "length (store_arcs vs n slots arcs) = length arcs"
  by (induction vs n slots arcs rule: store_arcs.induct) simp_all

lemma store_arcs_all:
  "n + length vs \<le> slots \<Longrightarrow> slots \<le> length arcs \<Longrightarrow> take (n + length vs) (store_arcs vs n slots arcs) = take n arcs @ vs"
proof (induction vs n slots arcs rule: store_arcs.induct)
  case (2 v vs n slots arcs)
  have "take (n + 1) (arcs[n := v]) = take n arcs @ [v]" using 2(2,3) by (simp add: take_Suc_conv_app_nth)
  with 2 show ?case by simp
qed simp

lemma get_arcs_loop_ok:
  assumes "slots \<le> length arcs"
  shows "get_arcs_loop (pre @ concat (map arc_octets vs)) (length pre) n arcs slots = Some (int (n + length vs), store_arcs vs n slots arcs)"
  using assms
proof (induction vs arbitrary: pre n arcs)
  case Nil
  then show ?case by (subst get_arcs_loop.simps) (simp add: OBJECT_IDENTIFIER_get_single_arc_def)
next
  case (Cons v vs)
  have "wr arcs n v = Some (arcs[n := v])" if "n < slots" using that Cons.prems by simp
  then have w: "(if n < slots then wr arcs n v else Some arcs) = Some (if n < slots then arcs[n := v] else arcs)" by simp
  have "get_arcs_loop ((pre @ arc_octets v) @ concat (map arc_octets vs)) (length (pre @ arc_octets v)) (n + 1)
      (if n < slots then arcs[n := v] else arcs) slots =
      Some (int (n + 1 + length vs), store_arcs vs (n + 1) slots (if n < slots then arcs[n := v] else arcs))"
    by (rule Cons.IH) (use Cons.prems in simp)
  then show ?case using w get_single_arc_ok [of v "concat (map arc_octets vs)"] arc_octets_length(2) [of v]
    by (subst get_arcs_loop.simps) simp
qed

lemma set_arcs_loop_ok: "5 * length vs \<le> sz \<Longrightarrow> set_arcs_loop vs sz = Some (Some (concat (map arc_octets vs)))"
proof (induction vs arbitrary: sz)
  case (Cons v vs)
  have "length (arc_octets v) \<le> sz" "5 * length vs \<le> sz - length (arc_octets v)"
    using Cons.prems arc_octets_length(1) [of v] by simp_all
  with Cons.IH set_single_arc_ok [OF this(1)] arc_octets_length(2) [of v] show ?case by simp
qed simp

text \<open>The first two arcs in one number.\<close>

definition first_arcs_ok :: "u32 \<Rightarrow> u32 \<Rightarrow> bool" where
  "first_arcs_ok arc0 arc1 \<longleftrightarrow> arc0 \<le> 1 \<and> arc1 < 40 \<or> arc0 = 2 \<and> arc1 \<le> ASN_OID_ARC_MAX - 80"

lemma first_arcs_iff:
  "(if arc0 \<le> 1 then 40 \<le> arc1 else if arc0 = 2 then ASN_OID_ARC_MAX - 80 < arc1 else 2 < arc0) \<longleftrightarrow> \<not> first_arcs_ok arc0 arc1"
proof -
  have "2 < arc0" if "\<not> arc0 \<le> 1" "arc0 \<noteq> 2"
  proof -
    have "unat arc0 \<noteq> 2" using that(2) by (simp only: word_unat_eq_iff) simp
    then show ?thesis using that(1) by (simp add: word_le_nat_alt word_less_nat_alt)
  qed
  moreover have e: "((2 :: u32) \<le> 1) = False" by (simp add: word_le_nat_alt)
  ultimately show ?thesis by (cases "arc0 = 2") (auto simp: first_arcs_ok_def not_less not_le e)
qed

lemma first_arcs_back:
  assumes "first_arcs_ok arc0 arc1"
  shows "OBJECT_IDENTIFIER_get_first_arcs (arc_octets (arc0 * 40 + arc1) @ rest) =
    (int (length (arc_octets (arc0 * 40 + arc1))), arc0, arc1)"
proof -
  have g: "OBJECT_IDENTIFIER_get_single_arc (arc_octets (arc0 * 40 + arc1) @ rest) = (int (length (arc_octets (arc0 * 40 + arc1))), arc0 * 40 + arc1)"
    by (rule get_single_arc_ok)
  consider "arc0 = 0" "unat arc1 < 40" | "arc0 = 1" "unat arc1 < 40" | "arc0 = 2" "unat arc1 \<le> 2 ^ 32 - 81"
  proof -
    have e: "ASN_OID_ARC_MAX - 80 = 0xFFFFFFAF" by (simp add: ASN_OID_ARC_MAX_def)
    have "unat arc0 = 0 \<or> unat arc0 = 1" if "arc0 \<le> 1" using that by (simp add: word_le_nat_alt) linarith
    then have "arc0 = 0 \<or> arc0 = 1" if "arc0 \<le> 1" using that by (simp only: word_unat_eq_iff) simp
    then show ?thesis using assms that unfolding first_arcs_ok_def e by (auto simp: word_le_nat_alt word_less_nat_alt)
  qed
  then show ?thesis
  proof cases
    case 1
    then show ?thesis using g arc_octets_length(2) [of arc1] by (simp add: OBJECT_IDENTIFIER_get_first_arcs_def word_le_nat_alt Let_def)
  next
    case 2
    then have u: "unat (40 + arc1) = 40 + unat arc1" by (simp add: unat_word_ariths)
    show ?thesis using g arc_octets_length(2) [of "40 + arc1"] 2 u
      by (simp add: OBJECT_IDENTIFIER_get_first_arcs_def word_le_nat_alt Let_def)
  next
    case 3
    then have u: "unat (80 + arc1) = 80 + unat arc1" by (simp add: unat_word_ariths)
    show ?thesis using g arc_octets_length(2) [of "80 + arc1"] 3 u
      by (simp add: OBJECT_IDENTIFIER_get_first_arcs_def word_le_nat_alt Let_def)
  qed
qed


section \<open>Decimal text\<close>

lemma dec_val_snoc: "dec_val (ds @ [d]) = dec_val ds * 10 + digit_of d"
  by (simp add: dec_val_def)

lemma dec_octet: "d < 10 \<Longrightarrow> is_digit (of_nat (48 + d)) \<and> digit_of (of_nat (48 + d)) = int d"
proof -
  assume d: "d < 10"
  then have u: "unat (of_nat (48 + d) :: u8) = 48 + d" by (intro unat_of_nat_small(1)) simp
  then have "uint (of_nat (48 + d) :: u8) = 48 + int d" by (simp only: uint_nat)
  then show ?thesis using d unfolding is_digit_def digit_of_def word_le_nat_alt u by simp
qed

lemma dec_text_ok: "digits (dec_text n)" "dec_val (dec_text n) = int n" "dec_text n \<noteq> []"
proof -
  have "digits (dec_text n) \<and> dec_val (dec_text n) = int n \<and> dec_text n \<noteq> []"
  proof (induction n rule: dec_text.induct)
    case (1 n)
    show ?case
    proof (cases "n < 10")
      case True
      then show ?thesis using dec_octet [OF True] by (subst (1 2 3) dec_text.simps) (simp add: digits_def dec_val_Cons)
    next
      case False
      have "n mod 10 < 10" by simp
      moreover have "int (n div 10) * 10 + int (n mod 10) = int n"
        using arg_cong [OF div_mult_mod_eq [of n 10], of int] unfolding of_nat_add of_nat_mult by simp
      ultimately show ?thesis using dec_octet [of "n mod 10"] 1 [OF False] False
        by (subst (1 2 3) dec_text.simps) (simp add: digits_def dec_val_snoc del: of_nat_add)
    qed
  qed
  then show "digits (dec_text n)" "dec_val (dec_text n) = int n" "dec_text n \<noteq> []" by simp_all
qed

lemma length_dec_text: "n < 10 ^ k \<Longrightarrow> 0 < k \<Longrightarrow> length (dec_text n) \<le> k"
proof (induction n arbitrary: k rule: dec_text.induct)
  case (1 n)
  show ?case
  proof (cases "n < 10")
    case True
    then show ?thesis using 1(3) by (subst dec_text.simps) simp
  next
    case False
    then obtain j where j: "k = Suc j" "0 < j" using 1(2,3) by (cases k; cases "k - 1") auto
    then have "n div 10 < 10 ^ j" using 1(2) by (simp add: less_mult_imp_div_less mult.commute)
    with 1(1) [OF False, of j] j False show ?thesis by (subst dec_text.simps) simp
  qed
qed

text \<open>Numbers of 32 bits stay below the limits of \<open>asn_strtoumax_lim\<close>.\<close>

lemma strtoumax_loop_small:
  assumes "digits ds" "rest = [] \<or> \<not> is_digit (hd rest)" "0 \<le> w" "w * 10 ^ length ds + dec_val ds < 2 ^ 32"
  shows "strtoumax_loop (of_int w) pos (ds @ rest) u =
    (if rest = [] then ASN_STRTOX_OK else ASN_STRTOX_EXTRA_DATA, pos + length ds, of_int (w * 10 ^ length ds + dec_val ds))"
  using assms(1,3,4)
proof (induction ds arbitrary: w pos)
  case Nil
  then show ?case using assms(2) by (cases rest) auto
next
  case (Cons d ds)
  have d: "is_digit d" "digits ds" using Cons.prems by (simp_all add: digits_def)
  note k = digit_of_bounds [OF d(1)]
  have v: "w * 10 ^ length (d # ds) + dec_val (d # ds) = (w * 10 + digit_of d) * 10 ^ length ds + dec_val ds"
    by (simp add: dec_val_Cons algebra_simps)
  have "w * 10 + digit_of d \<le> (w * 10 + digit_of d) * 10 ^ length ds + dec_val ds"
    using dec_grows [of "w * 10 + digit_of d" ds] d(2) Cons.prems(2) k by simp
  then have w: "w * 10 + digit_of d < 2 ^ 32" using Cons.prems(3) v by simp
  have "uint (of_int w :: u64) = w" using w k Cons.prems(2) by (intro uint_of_int_u64) auto
  then have "of_int w < (0x1999999999999999 :: u64)" using w k Cons.prems(2) by (simp add: word_less_def)
  moreover have "(- 1 :: u64) div 10 = 0x1999999999999999" by simp
  moreover have "of_int w * 10 + (ucast d - 48) = (of_int (w * 10 + digit_of d) :: u64)"
    by (simp add: digit_of_def)
  ultimately have "strtoumax_loop (of_int w) pos ((d # ds) @ rest) u = strtoumax_loop (of_int (w * 10 + digit_of d)) (pos + 1) (ds @ rest) u"
    using d(1) by (simp add: Let_def)
  also have "\<dots> = (if rest = [] then ASN_STRTOX_OK else ASN_STRTOX_EXTRA_DATA, pos + 1 + length ds,
      of_int ((w * 10 + digit_of d) * 10 ^ length ds + dec_val ds))"
    by (rule Cons.IH) (use d(2) Cons.prems k v in auto)
  finally show ?case unfolding v by simp
qed

lemma strtoul_dec:
  assumes "n < 2 ^ 32" "rest = [] \<or> \<not> is_digit (hd rest)"
  shows "asn_strtoul_lim (dec_text n @ rest) u =
    (if rest = [] then ASN_STRTOX_OK else ASN_STRTOX_EXTRA_DATA, length (dec_text n), of_nat n)"
proof -
  note t = dec_text_ok [of n]
  obtain c cs where c: "dec_text n = c # cs" using t(3) by (cases "dec_text n") auto
  then have "is_digit c" using t(1) by (simp add: digits_def)
  then have nc: "c \<noteq> 0x2D" "c \<noteq> 0x2B" by (auto simp: is_digit_def word_le_def)
  have "asn_strtoumax_lim (dec_text n @ rest) 0 = strtoumax_loop (of_int 0) 0 (dec_text n @ rest) 0"
    using nc by (simp add: asn_strtoumax_lim_def c del: strtoumax_loop.simps)
  also have "\<dots> = (if rest = [] then ASN_STRTOX_OK else ASN_STRTOX_EXTRA_DATA, length (dec_text n), of_nat n)"
    using strtoumax_loop_small [OF t(1) assms(2), of 0 0 0] assms(1) by (simp add: t(2))
  finally show ?thesis by (simp add: asn_strtoul_lim_def)
qed

section \<open>Dumping and parsing\<close>

text \<open>The text of a list of arcs: numbers with dots between them.\<close>

definition dotted :: "u32 list \<Rightarrow> u8 list" where
  "dotted vs = concat (map (\<lambda>v. 0x2E # dec_text (unat v)) vs)"

fun oid_text :: "u32 list \<Rightarrow> u8 list" where
  "oid_text [] = []"
| "oid_text (v # vs) = dec_text (unat v) @ dotted vs"

lemma dotted_simps [simp]: "dotted [] = []" "dotted (v # vs) = 0x2E # oid_text (v # vs)"
  by (simp_all add: dotted_def)

lemma arc_text_short: "length (dec_text (unat (v :: u32))) \<le> 10"
proof -
  have "unat v < 10 ^ 10" using unsigned_less [of v, where ?'a = nat] by (rule order_less_le_trans) simp
  then show ?thesis by (rule length_dec_text) simp
qed

lemma strtoul_arc:
  assumes "rest = [] \<or> \<not> is_digit (hd rest)"
  obtains r where "asn_strtoul_lim (dec_text (unat (v :: u32)) @ rest) 0 = (r, length (dec_text (unat v)), ucast v)"
    "r = ASN_STRTOX_OK \<or> r = ASN_STRTOX_EXTRA_DATA"
proof -
  have "unat v < 2 ^ 32" using unsigned_less [of v, where ?'a = nat] by simp
  from strtoul_dec [OF this assms, of 0] that show thesis by (cases "rest = []") (simp_all only: of_nat_unat if_True if_False refl simp_thms)
qed

lemma ucast_arc: "ucast (ucast (v :: u32) :: u64) = v" "ucast (v :: u32) \<le> (ucast ASN_OID_ARC_MAX :: u64)"
proof -
  show "ucast (ucast (v :: u32) :: u64) = v" by (rule bit_word_eqI) (auto simp: bit_simps dest: bit_imp_le_length)
  have v: "unat v \<le> 4294967295" using unsigned_less [of v, where ?'a = nat] by simp
  then have "take_bit 64 (unat v) = unat v" by (intro take_bit_nat_eq_self) simp
  then have u: "unat (ucast v :: u64) = unat v" by (simp only: unsigned_ucast_eq) simp
  have e: "ASN_OID_ARC_MAX = 0xFFFFFFFF" by (simp add: ASN_OID_ARC_MAX_def)
  have m: "(ucast ASN_OID_ARC_MAX :: u64) = 0xFFFFFFFF" unfolding e by simp
  show "ucast (v :: u32) \<le> (ucast ASN_OID_ARC_MAX :: u64)" unfolding m word_le_nat_alt u using v by simp
qed

lemma parse_arc_step:
  assumes "slots \<le> length arcs" "state = ST_LEADSPACE \<or> state = ST_WAITDIGITS" "rest = [] \<or> \<not> is_digit (hd rest)"
  shows "parse_arcs_loop arcs slots state n pos (dec_text (unat v) @ rest) =
    parse_arcs_loop (if n < slots then arcs[n := v] else arcs) slots ST_AFTERVALUE (n + 1) (pos + length (dec_text (unat v))) rest"
proof -
  note t = dec_text_ok [of "unat v"]
  obtain c cs where c: "dec_text (unat v) = c # cs" using t(3) by (cases "dec_text (unat v)") auto
  then have d: "is_digit c" using t(1) by (simp add: digits_def)
  then have nc: "c \<notin> {0x09, 0x0A, 0x0D, 0x20}" "c \<noteq> 0x2E" by (auto simp: is_digit_def word_le_def)
  have w: "(if n < slots then wr arcs n v else Some arcs) = Some (if n < slots then arcs[n := v] else arcs)" using assms(1) by simp
  obtain r where s: "asn_strtoul_lim (c # cs @ rest) 0 = (r, length (c # cs), ucast v)" "r = ASN_STRTOX_OK \<or> r = ASN_STRTOX_EXTRA_DATA"
    using strtoul_arc [OF assms(3), of v] unfolding c append_Cons by blast
  have st: "\<not> (state = ST_TAILSPACE \<or> state = ST_AFTERVALUE)" using assms(2) by auto
  show ?thesis unfolding c append_Cons
    using s(2) ucast_arc(2) [of v] w
    by (subst parse_arcs_loop.simps(2)) (simp only: nc d st s(1) ucast_arc(1) simp_thms if_False if_True Let_def prod.case, simp)
qed

lemma parse_arcs_loop_ok:
  assumes "slots \<le> length arcs" "state = ST_LEADSPACE \<or> state = ST_WAITDIGITS"
  shows "parse_arcs_loop arcs slots state n pos (oid_text (v # vs)) =
    Some (Inr (ST_AFTERVALUE, n + length (v # vs), pos + length (oid_text (v # vs)), store_arcs (v # vs) n slots arcs))"
  using assms
proof (induction vs arbitrary: v state n pos arcs)
  case (Nil v)
  with parse_arc_step [of slots arcs state "[]" n pos v] show ?case by simp
next
  case (Cons u us v)
  have nd: "\<not> is_digit (0x2E)" by (simp add: is_digit_def word_le_def)
  define arcs' where "arcs' = (if n < slots then arcs[n := v] else arcs)"
  have "parse_arcs_loop arcs slots state n pos (oid_text (v # u # us)) =
      parse_arcs_loop arcs' slots ST_AFTERVALUE (n + 1) (pos + length (dec_text (unat v))) (0x2E # oid_text (u # us))"
    using parse_arc_step [OF Cons.prems, of "0x2E # oid_text (u # us)" n pos v] nd by (simp add: arcs'_def)
  also have "\<dots> = parse_arcs_loop arcs' slots ST_WAITDIGITS (n + 1) (pos + length (dec_text (unat v)) + 1) (oid_text (u # us))"
    by (subst parse_arcs_loop.simps(2)) (simp del: oid_text.simps)
  also have "\<dots> = Some (Inr (ST_AFTERVALUE, n + 1 + length (u # us),
      pos + length (dec_text (unat v)) + 1 + length (oid_text (u # us)), store_arcs (u # us) (n + 1) slots arcs'))"
    by (rule Cons.IH) (use Cons.prems in \<open>simp_all add: arcs'_def\<close>)
  finally show ?case by (simp add: arcs'_def)
qed

context octet_sink begin

lemma dump_loop_ok:
  assumes "holds k xs"
  shows "\<exists>r k'. dump_loop (pre @ concat (map arc_octets vs)) (length pre) p cb k = Some (r, k') \<and>
    (r = int (p + length (dotted vs)) \<and> holds k' (xs @ dotted vs) \<or> r = -1 \<and> sink_refuses cb holds)"
  using assms
proof (induction vs arbitrary: pre p k xs)
  case Nil
  then show ?case by (subst dump_loop.simps) (simp add: OBJECT_IDENTIFIER_get_single_arc_def)
next
  case (Cons v vs)
  define scratch where "scratch = 0x2E # dec_text (unat v)"
  have d: "dotted (v # vs) = scratch @ dotted vs" by (simp add: scratch_def dotted_def)
  have e: "dump_loop (pre @ concat (map arc_octets (v # vs))) (length pre) p cb k = do {
      (r, k) \<leftarrow> cb k scratch;
      if r < 0 then Some (-1, k)
      else dump_loop ((pre @ arc_octets v) @ concat (map arc_octets vs)) (length (pre @ arc_octets v)) (p + length scratch) cb k }"
    using get_single_arc_ok [of v "concat (map arc_octets vs)"] arc_octets_length(2) [of v] arc_text_short [of v]
    by (subst dump_loop.simps) (simp add: scratch_def cong del: if_weak_cong)
  show ?case
  proof (rule cb_step [OF Cons.prems, of scratch])
    fix r k1 assume 1: "cb k scratch = Some (r, k1)" "0 \<le> r" "holds k1 (xs @ scratch)"
    from Cons.IH [OF 1(3), of "pre @ arc_octets v" "p + length scratch"] 1 show ?thesis unfolding e d by (simp add: add.assoc)
  next
    fix r k1 assume "cb k scratch = Some (r, k1)" "r < 0" "sink_refuses cb holds"
    then show ?thesis unfolding e by simp
  qed
qed

lemma dump_body_ok:
  assumes "first_arcs_ok a0 a1" "INTEGER_octets st = arc_octets (a0 * 40 + a1) @ concat (map arc_octets vs)" "INTEGER_inv st" "holds k xs"
  shows "sink_puts cb holds xs (oid_text (a0 # a1 # vs)) (OBJECT_IDENTIFIER__dump_body st cb k)"
proof -
  define scratch where "scratch = dec_text (unat a0) @ 0x2E # dec_text (unat a1)"
  define f where "f = arc_octets (a0 * 40 + a1)"
  obtain buf where buf: "int_buf st = Some buf" "int_size st \<le> length buf"
    using assms(3) by (auto simp: INTEGER_inv_def split: option.splits)
  then have ld: "mem_load buf 0 (int_size st) = Some (f @ concat (map arc_octets vs))"
    using assms(2) by (simp add: mem_load_def INTEGER_octets_def f_def)
  have t: "oid_text (a0 # a1 # vs) = scratch @ dotted vs" by (simp add: scratch_def)
  have e: "OBJECT_IDENTIFIER__dump_body st cb k = do {
      (r, k) \<leftarrow> cb k scratch;
      if r < 0 then Some (-1, k) else dump_loop (f @ concat (map arc_octets vs)) (length f) (length scratch) cb k }"
    using first_arcs_back [OF assms(1), of "concat (map arc_octets vs)"] arc_octets_length(2) [of "a0 * 40 + a1"]
      arc_text_short [of a0] arc_text_short [of a1]
    by (simp add: OBJECT_IDENTIFIER__dump_body_def buf(1) ld f_def [symmetric] scratch_def cong del: if_weak_cong)
  show ?thesis
  proof (rule cb_step [OF assms(4), of scratch])
    fix r k1 assume 1: "cb k scratch = Some (r, k1)" "0 \<le> r" "holds k1 (xs @ scratch)"
    from dump_loop_ok [OF 1(3), of f vs "length scratch"] 1 show ?thesis unfolding e t sink_puts_def by simp
  next
    fix r k1 assume "cb k scratch = Some (r, k1)" "r < 0" "sink_refuses cb holds"
    then show ?thesis unfolding e sink_puts_def by simp
  qed
qed

end


section \<open>Properties\<close>

text \<open>What \<open>OBJECT_IDENTIFIER_set_arcs\<close> stores when it returns 0.\<close>

lemma set_arcs_result:
  assumes "OBJECT_IDENTIFIER_set_arcs can_alloc (Some st) arcs (length arcs) = Some (0, Some st')"
  obtains a0 a1 vs where "arcs = a0 # a1 # vs" "first_arcs_ok a0 a1" "INTEGER_inv st'"
    "INTEGER_octets st' = arc_octets (a0 * 40 + a1) @ concat (map arc_octets vs)"
    "int_buf st' = Some (INTEGER_octets st' @ [0])"
proof -
  have "2 \<le> length arcs" using assms by (auto simp: OBJECT_IDENTIFIER_set_arcs_def split: if_splits)
  then obtain a0 a1 vs where a: "arcs = a0 # a1 # vs" by (cases arcs; cases "tl arcs") auto
  define bs where "bs = arc_octets (a0 * 40 + a1) @ concat (map arc_octets vs)"
  have l: "set_arcs_loop ((a0 * 40 + a1) # vs) (5 * length arcs) = Some (Some bs)"
    using set_arcs_loop_ok [of "(a0 * 40 + a1) # vs" "5 * length arcs"] by (simp add: a bs_def del: set_arcs_loop.simps)
  have f: "first_arcs_ok a0 a1"
    using assms unfolding OBJECT_IDENTIFIER_set_arcs_def a by (simp add: first_arcs_iff split: if_splits)
  have "OBJECT_IDENTIFIER_set_arcs can_alloc (Some st) arcs (length arcs) =
      Some (if \<not> can_alloc (5 * length arcs + 1) then (-1, Some st) else (0, Some \<lparr>int_buf = Some (bs @ [0]), int_size = length bs\<rparr>))"
    using l f unfolding OBJECT_IDENTIFIER_set_arcs_def a
    by (simp add: first_arcs_iff mem_load_def Let_def del: set_arcs_loop.simps)
  then have "st' = \<lparr>int_buf = Some (bs @ [0]), int_size = length bs\<rparr>" using assms by (simp split: if_splits)
  with a f show thesis by (intro that) (simp_all add: bs_def INTEGER_inv_def INTEGER_octets_def)
qed

text \<open>
  C31: the arcs of an OBJECT IDENTIFIER round trip. Whatever \<open>OBJECT_IDENTIFIER_set_arcs\<close> accepts,
  \<open>OBJECT_IDENTIFIER_get_arcs\<close> reads back: it returns the number of arcs, and an array with enough
  slots holds exactly them. No arc of 32 bits, and no legal pair of first arcs, is lost.
\<close>

theorem oid_arcs_roundtrip:
  assumes "OBJECT_IDENTIFIER_set_arcs can_alloc (Some st) arcs (length arcs) = Some (0, Some st')"
    and "length arcs \<le> slots" "slots \<le> length out"
  shows "\<exists>out'. OBJECT_IDENTIFIER_get_arcs (Some st') out slots = Some (int (length arcs), out') \<and>
    length out' = length out \<and> take (length arcs) out' = arcs"
proof -
  obtain a0 a1 vs where a: "arcs = a0 # a1 # vs" "first_arcs_ok a0 a1" "INTEGER_inv st'"
    "INTEGER_octets st' = arc_octets (a0 * 40 + a1) @ concat (map arc_octets vs)" "int_buf st' = Some (INTEGER_octets st' @ [0])"
    by (rule set_arcs_result [OF assms(1)])
  define f where "f = arc_octets (a0 * 40 + a1)"
  define out1 where "out1 = out[1 := a1, 0 := a0]"
  have ld: "mem_load (INTEGER_octets st' @ [0]) 0 (int_size st') = Some (f @ concat (map arc_octets vs))"
    using INTEGER_accessors(2) [OF a(3)] a(4) by (simp add: mem_load_def f_def)
  have "1 < length out" "0 < length (out[1 := a1])" using assms(2,3) by (simp_all add: a(1) del: length_greater_0_conv)
  then have w: "wr out 1 a1 = Some (out[1 := a1])" "wr (out[1 := a1]) 0 a0 = Some out1" unfolding out1_def by (simp_all only: wr_in)
  have "OBJECT_IDENTIFIER_get_arcs (Some st') out slots = get_arcs_loop (f @ concat (map arc_octets vs)) (length f) 2 out1 slots"
    using first_arcs_back [OF a(2), of "concat (map arc_octets vs)"] arc_octets_length(2) [of "a0 * 40 + a1"] assms(2,3)
    by (simp add: OBJECT_IDENTIFIER_get_arcs_def a(1,5) ld f_def [symmetric] w del: wr_in One_nat_def)
  also have "\<dots> = Some (int (2 + length vs), store_arcs vs 2 slots out1)"
    by (rule get_arcs_loop_ok) (use assms(3) in \<open>simp add: out1_def\<close>)
  finally have g: "OBJECT_IDENTIFIER_get_arcs (Some st') out slots = Some (int (length arcs), store_arcs vs 2 slots out1)" by (simp add: a(1))
  have "take 2 out1 = [a0, a1]" using assms(2,3) by (cases out; cases "tl out") (auto simp: out1_def a(1) numeral_2_eq_2)
  then have "take (2 + length vs) (store_arcs vs 2 slots out1) = a0 # a1 # vs"
    using store_arcs_all [of 2 vs slots out1] assms(2,3) by (simp add: a(1) out1_def)
  with g show ?thesis by (simp add: a(1) out1_def)
qed

theorem oid_arcs_roundtrip_witness:
  "\<exists>st' out'. OBJECT_IDENTIFIER_set_arcs (\<lambda>_. True) (Some (INTEGER_of [])) [2, 999, 4294967295] 3 = Some (0, Some st') \<and>
    OBJECT_IDENTIFIER_get_arcs (Some st') [0, 0, 0, 7] 4 = Some (int 3, out') \<and> take 3 out' = [2, 999, 4294967295]"
proof -
  define arcs where "arcs = [2, 999, 4294967295 :: u32]"
  have "first_arcs_ok 2 999" by (simp add: first_arcs_ok_def ASN_OID_ARC_MAX_def word_le_nat_alt)
  then have "\<exists>st'. OBJECT_IDENTIFIER_set_arcs (\<lambda>_. True) (Some (INTEGER_of [])) arcs (length arcs) = Some (0, Some st')"
    using set_arcs_loop_ok [of "[2 * 40 + 999, 4294967295]" 15] unfolding OBJECT_IDENTIFIER_set_arcs_def arcs_def
    by (simp add: first_arcs_iff mem_load_def Let_def del: set_arcs_loop.simps)
  then obtain st' where s: "OBJECT_IDENTIFIER_set_arcs (\<lambda>_. True) (Some (INTEGER_of [])) arcs (length arcs) = Some (0, Some st')" ..
  have l: "length arcs = 3" by (simp add: arcs_def)
  from oid_arcs_roundtrip [OF s, of 4 "[0, 0, 0, 7]"] s show ?thesis unfolding l unfolding arcs_def by auto
qed

text \<open>
  Reading a single arc is exact. Octets with the top bit set followed by one without are read as
  the number of their groups of seven bits whenever it fits 32 bits, redundant leading groups
  included, and are an overflow otherwise; nothing behind them matters.
\<close>

theorem oid_single_arc_exact:
  assumes "\<forall>b \<in> set ms. b AND 0x80 \<noteq> 0" "l AND 0x80 = 0"
  shows "OBJECT_IDENTIFIER_get_single_arc (ms @ l # rest) =
    (if arc_val 0 (ms @ [l]) < 2 ^ 32 then (int (length ms + 1), of_nat (arc_val 0 (ms @ [l]))) else (-1, 0))"
  using get_arc_loop_exact [OF _ assms, of 0 0 rest] by (simp add: OBJECT_IDENTIFIER_get_single_arc_def)

theorem oid_single_arc_exact_witness:
  "OBJECT_IDENTIFIER_get_single_arc ([0x90, 0x80, 0x80, 0x80] @ 0x00 # [5]) = (-1, 0) \<and>
   OBJECT_IDENTIFIER_get_single_arc ([0x8F, 0xFF, 0xFF, 0xFF] @ 0x7F # [5]) = (5, 4294967295)"
  using oid_single_arc_exact [of "[0x90, 0x80, 0x80, 0x80]" "0x00" "[5]"]
    oid_single_arc_exact [of "[0x8F, 0xFF, 0xFF, 0xFF]" "0x7F" "[5]"] by simp

text \<open>
  C32: the text of an OBJECT IDENTIFIER round trips. What \<open>OBJECT_IDENTIFIER__dump_body\<close> delivers of
  an identifier that was set from arcs, the state machine of \<open>OBJECT_IDENTIFIER_parse_arcs\<close> reads
  to its end, and it finds the same arcs; the return values are the number of characters and the
  number of arcs.
\<close>

theorem oid_text_roundtrip:
  assumes "OBJECT_IDENTIFIER_set_arcs can_alloc (Some st) arcs (length arcs) = Some (0, Some st')"
    and "dyn_inv k" "OBJECT_IDENTIFIER__dump_body st' (encode_dyn_cb ca) k = Some (r, k')" "0 \<le> r"
    and "length arcs \<le> slots" "slots \<le> length out"
  shows "\<exists>text out'. dyn_taken k' = dyn_taken k @ text \<and> r = int (length text) \<and>
    OBJECT_IDENTIFIER_parse_arcs (Some text) (int (length text)) (Some out) slots = Some (int (length arcs), length text, Some out') \<and>
    take (length arcs) out' = arcs"
proof -
  obtain a0 a1 vs where a: "arcs = a0 # a1 # vs" "first_arcs_ok a0 a1" "INTEGER_inv st'"
    "INTEGER_octets st' = arc_octets (a0 * 40 + a1) @ concat (map arc_octets vs)"
    using set_arcs_result [OF assms(1)] by metis
  have "sink_puts (encode_dyn_cb ca) (\<lambda>k xs. dyn_inv k \<and> dyn_taken k = xs) (dyn_taken k) (oid_text arcs) (Some (r, k'))"
    unfolding assms(3) [symmetric] a(1) by (rule dyn.sink.dump_body_ok [OF a(2,4,3)]) (simp add: assms(2))
  then have d: "r = int (length (oid_text arcs))" "dyn_taken k' = dyn_taken k @ oid_text arcs"
    using assms(4) by (auto simp: sink_puts_def)
  have "OBJECT_IDENTIFIER_parse_arcs (Some (oid_text arcs)) (int (length (oid_text arcs))) (Some out) slots =
      Some (int (length arcs), length (oid_text arcs), Some (store_arcs arcs 0 slots out))"
    using parse_arcs_loop_ok [OF assms(6), of ST_LEADSPACE 0 0 a0 "a1 # vs"]
    by (simp add: OBJECT_IDENTIFIER_parse_arcs_def mem_load_def a(1) del: oid_text.simps)
  moreover have "take (length arcs) (store_arcs arcs 0 slots out) = arcs" using store_arcs_all [of 0 arcs slots out] assms(5,6) by simp
  ultimately show ?thesis using d by blast
qed

theorem oid_text_roundtrip_witness:
  "\<exists>st' r k' text out'. OBJECT_IDENTIFIER_set_arcs (\<lambda>_. True) (Some (INTEGER_of [])) [1, 3, 6] 3 = Some (0, Some st') \<and>
    OBJECT_IDENTIFIER__dump_body st' (encode_dyn_cb (\<lambda>_. True)) dyn_start = Some (r, k') \<and>
    dyn_taken k' = dyn_taken dyn_start @ text \<and> r = int (length text) \<and>
    OBJECT_IDENTIFIER_parse_arcs (Some text) (int (length text)) (Some [0, 0, 0]) 3 = Some (int 3, length text, Some out') \<and>
    take 3 out' = [1, 3, 6]"
proof -
  define arcs where "arcs = [1, 3, 6 :: u32]"
  have l: "length arcs = 3" by (simp add: arcs_def)
  have "first_arcs_ok 1 3" by (simp add: first_arcs_ok_def ASN_OID_ARC_MAX_def word_le_nat_alt)
  then have "\<exists>st'. OBJECT_IDENTIFIER_set_arcs (\<lambda>_. True) (Some (INTEGER_of [])) arcs (length arcs) = Some (0, Some st')"
    using set_arcs_loop_ok [of "[1 * 40 + 3, 6]" 15] unfolding OBJECT_IDENTIFIER_set_arcs_def arcs_def
    by (simp add: first_arcs_iff mem_load_def Let_def del: set_arcs_loop.simps)
  then obtain st' where s: "OBJECT_IDENTIFIER_set_arcs (\<lambda>_. True) (Some (INTEGER_of [])) arcs (length arcs) = Some (0, Some st')" ..
  obtain a0 a1 vs where a: "first_arcs_ok a0 a1" "INTEGER_inv st'"
    "INTEGER_octets st' = arc_octets (a0 * 40 + a1) @ concat (map arc_octets vs)"
    using set_arcs_result [OF s] by metis
  obtain k' where d: "OBJECT_IDENTIFIER__dump_body st' (encode_dyn_cb (\<lambda>_. True)) dyn_start = Some (int (length (oid_text (a0 # a1 # vs))), k')"
    by (rule dyn_puts_total [OF dyn.sink.dump_body_ok [OF a(1,3,2) dyn_holds_start]])
  from oid_text_roundtrip [OF s dyn_start_inv(1) d, of 3 "[0, 0, 0]"] d s show ?thesis
    unfolding l unfolding arcs_def by auto
qed

lemma strtoul_bounds: "asn_strtoul_lim cs u = (r, e, w) \<Longrightarrow> e \<le> length cs"
proof -
  have l: "strtoumax_loop v p ds x = (r', e', w') \<Longrightarrow> e' \<le> p + length ds" for v p ds x r' e' w'
    by (induction v p ds x rule: strtoumax_loop.induct) (auto simp: Let_def split: if_splits list.splits)
  assume a: "asn_strtoul_lim cs u = (r, e, w)"
  obtain r' e' w' where s: "asn_strtoumax_lim cs 0 = (r', e', w')" by (cases "asn_strtoumax_lim cs 0")
  with a have "e = e'" by (auto simp: asn_strtoul_lim_def split: if_splits)
  moreover have "e' \<le> length cs" using s by (auto simp: asn_strtoumax_lim_def split: list.splits if_splits dest!: l)
  ultimately show ?thesis by simp
qed

definition parsed_inside :: "nat \<Rightarrow> nat \<Rightarrow> ((nat \<times> u32 list) + (oid_state \<times> nat \<times> nat \<times> u32 list)) option \<Rightarrow> bool" where
  "parsed_inside m n res \<longleftrightarrow> (case res of
     Some (Inl (p, a)) \<Rightarrow> p \<le> m \<and> length a = n | Some (Inr (s, k, p, a)) \<Rightarrow> p \<le> m \<and> length a = n | None \<Rightarrow> False)"

lemma parse_arcs_loop_total:
  "slots \<le> length arcs \<Longrightarrow> parsed_inside (pos + length cs) (length arcs) (parse_arcs_loop arcs slots state n pos cs)"
proof (induction "length cs" arbitrary: arcs state n pos cs rule: less_induct)
  case less
  show ?case
  proof (cases cs)
    case Nil
    then show ?thesis by (simp add: parsed_inside_def)
  next
    case (Cons c ds)
    have ih: "parsed_inside (pos + length cs) (length arcs) (parse_arcs_loop arcs slots s n (pos + 1) ds)" for s
      using less.hyps [of ds arcs "pos + 1" s n] less.prems by (simp add: Cons)
    obtain r e v where s: "asn_strtoul_lim (c # ds) 0 = (r, e, v)" by (cases "asn_strtoul_lim (c # ds) 0")
    have e: "e \<le> length cs" using strtoul_bounds [OF s] by (simp add: Cons)
    have w: "(if n < slots then wr arcs n u else Some arcs) = Some (if n < slots then arcs[n := u] else arcs)" for u
      using less.prems by simp
    have ihd: "parsed_inside (pos + length cs) (length arcs)
        (parse_arcs_loop (if n < slots then arcs[n := u] else arcs) slots ST_AFTERVALUE (n + 1) (pos + e) (drop e cs))" if "is_digit c" for u
    proof -
      have "0 < e" by (rule strtoul_digit_pos [OF that s])
      then have "length (drop e cs) < length cs" by (simp add: Cons)
      from less.hyps [OF this, of "if n < slots then arcs[n := u] else arcs" "pos + e" ST_AFTERVALUE "n + 1"] less.prems e show ?thesis
        by (cases "n < slots") simp_all
    qed
    have "parse_arcs_loop arcs slots state n pos (c # ds) = (if c \<in> {0x09, 0x0A, 0x0D, 0x20} then
        (case state of ST_WAITDIGITS \<Rightarrow> Some (Inr (state, n, pos, arcs))
         | ST_AFTERVALUE \<Rightarrow> parse_arcs_loop arcs slots ST_TAILSPACE n (pos + 1) ds
         | _ \<Rightarrow> parse_arcs_loop arcs slots state n (pos + 1) ds)
      else if c = 0x2E then (case state of ST_AFTERVALUE \<Rightarrow> parse_arcs_loop arcs slots ST_WAITDIGITS n (pos + 1) ds | _ \<Rightarrow> Some (Inl (pos, arcs)))
      else if is_digit c then
        if state = ST_TAILSPACE \<or> state = ST_AFTERVALUE then Some (Inl (pos, arcs))
        else if (r = ASN_STRTOX_OK \<or> r = ASN_STRTOX_EXTRA_DATA) \<and> v \<le> ucast ASN_OID_ARC_MAX
          then parse_arcs_loop (if n < slots then arcs[n := ucast v] else arcs) slots ST_AFTERVALUE (n + 1) (pos + e) (drop e cs)
          else Some (Inl (pos, arcs))
      else Some (Inr (ST_WAITDIGITS, n, pos, arcs)))"
      unfolding parse_arcs_loop.simps(2) s w Let_def prod.case Option.bind.simps Cons by (cases state) simp_all
    moreover have "parsed_inside (pos + length cs) (length arcs) (Some (Inl (pos, arcs)))"
      "parsed_inside (pos + length cs) (length arcs) (Some (Inr (s', n, pos, arcs)))" for s' by (simp_all add: parsed_inside_def)
    ultimately show ?thesis unfolding Cons [symmetric] using ih ihd by (auto split: oid_state.splits)
  qed
qed

text \<open>
  Parsing is total and stays inside the array. On any characters and any array with the promised
  number of slots \<open>OBJECT_IDENTIFIER_parse_arcs\<close> returns, the end it reports is inside the text, and
  the array keeps its size.
\<close>

theorem oid_parse_total:
  assumes "slots \<le> length out"
  shows "\<exists>r p out'. OBJECT_IDENTIFIER_parse_arcs (Some chars) (int (length chars)) (Some out) slots = Some (r, p, Some out') \<and>
    -1 \<le> r \<and> p \<le> length chars \<and> length out' = length out"
proof -
  have "parsed_inside (length chars) (length out) (parse_arcs_loop out slots ST_LEADSPACE 0 0 chars)"
    using parse_arcs_loop_total [OF assms, of 0 chars ST_LEADSPACE 0] by simp
  then show ?thesis
    by (auto simp: parsed_inside_def OBJECT_IDENTIFIER_parse_arcs_def mem_load_def split: option.splits sum.splits oid_state.splits prod.splits)
qed

theorem oid_parse_total_witness:
  "\<exists>r p out'. OBJECT_IDENTIFIER_parse_arcs (Some [0x31, 0x2E, 0x2E]) (int (length [0x31 :: u8, 0x2E, 0x2E])) (Some [0]) 1 = Some (r, p, Some out') \<and>
    -1 \<le> r \<and> p \<le> length [0x31 :: u8, 0x2E, 0x2E] \<and> length out' = length [0 :: u32]"
  by (rule oid_parse_total) simp

text \<open>Behind the first arc the loop of RELATIVE-OID is the loop of OBJECT IDENTIFIER.\<close>

lemma relative_dump_loop_eq:
  "off \<noteq> 0 \<Longrightarrow> relative_dump_loop buf off produced cb k = dump_loop buf off produced cb k"
proof (induction buf off produced cb k rule: dump_loop.induct)
  case (1 buf off produced cb k)
  obtain r v where g: "OBJECT_IDENTIFIER_get_single_arc (drop off buf) = (r, v)" by (cases "OBJECT_IDENTIFIER_get_single_arc (drop off buf)")
  have c: "0 < r \<Longrightarrow> off + nat r \<le> length buf" using get_single_arc_bounds [OF g] by auto
  show ?case
  proof (cases "0 < r")
    case False
    then show ?thesis using g by (subst relative_dump_loop.simps, subst dump_loop.simps) simp
  next
    case True
    define scratch where "scratch = 0x2E # dec_text (unat v)"
    have ih: "relative_dump_loop buf (off + nat r) (produced + length scratch) cb k' =
        dump_loop buf (off + nat r) (produced + length scratch) cb k'"
      if "cb k scratch = Some (r', k')" "\<not> r' < 0" "\<not> 32 \<le> length scratch" for r' k'
      using 1(1) [OF g [symmetric] refl _ _ refl _ scratch_def that(3) that(1) refl that(2)] 1(2) True c by simp
    show ?thesis using g True c 1(2) ih [unfolded scratch_def]
      by (subst relative_dump_loop.simps, subst dump_loop.simps)
        (cases "cb k scratch"; auto simp: scratch_def Let_def cong del: if_weak_cong split: prod.splits)
  qed
qed

lemma get_arcs_all:
  assumes "length arcs \<le> slots" "slots \<le> length out"
  obtains out' where "get_arcs_loop (concat (map arc_octets arcs)) 0 0 out slots = Some (int (length arcs), out')"
    "length out' = length out" "take (length arcs) out' = arcs"
  using get_arcs_loop_ok [OF assms(2), of "[]" arcs 0] store_arcs_all [of 0 arcs slots out] assms by simp

context octet_sink begin

lemma relative_dump_ok:
  assumes "INTEGER_octets st = concat (map arc_octets vs)" "INTEGER_inv st" "holds k xs"
  shows "sink_puts cb holds xs (oid_text vs) (RELATIVE_OID__dump_body st cb k)"
proof -
  obtain buf where buf: "int_buf st = Some buf" "int_size st \<le> length buf"
    using assms(2) by (auto simp: INTEGER_inv_def split: option.splits)
  then have b: "RELATIVE_OID__dump_body st cb k = relative_dump_loop (concat (map arc_octets vs)) 0 0 cb k"
    using assms(1) by (simp add: RELATIVE_OID__dump_body_def mem_load_def INTEGER_octets_def)
  show ?thesis
  proof (cases vs)
    case Nil
    then show ?thesis using assms(3) unfolding b
      by (subst relative_dump_loop.simps) (simp add: OBJECT_IDENTIFIER_get_single_arc_def sink_puts_def)
  next
    case (Cons v us)
    define scratch where "scratch = dec_text (unat v)"
    have n: "arc_octets v \<noteq> []" "length scratch \<le> 10" using arc_octets_length(2) [of v] arc_text_short [of v] by (auto simp: scratch_def)
    have e: "RELATIVE_OID__dump_body st cb k = do {
        (r, k) \<leftarrow> cb k scratch;
        if r < 0 then Some (-1, k)
        else dump_loop (arc_octets v @ concat (map arc_octets us)) (length (arc_octets v)) (length scratch) cb k }"
      unfolding b Cons
      using get_single_arc_ok [of v "concat (map arc_octets us)"] n
      by (subst relative_dump_loop.simps) (simp add: Let_def scratch_def relative_dump_loop_eq cong del: if_weak_cong)
    show ?thesis
    proof (rule cb_step [OF assms(3), of scratch])
      fix r k1 assume 1: "cb k scratch = Some (r, k1)" "0 \<le> r" "holds k1 (xs @ scratch)"
      from dump_loop_ok [OF 1(3), of "arc_octets v" us "length scratch"] 1 show ?thesis
        unfolding e Cons sink_puts_def by (simp add: scratch_def)
    next
      fix r k1 assume "cb k scratch = Some (r, k1)" "r < 0" "sink_refuses cb holds"
      then show ?thesis unfolding e sink_puts_def by simp
    qed
  qed
qed

end

text \<open>
  A RELATIVE-OID keeps its arcs. Setting any array of arcs succeeds once the memory is there;
  then \<open>RELATIVE_OID_get_arcs\<close> reads them back, and \<open>RELATIVE_OID__dump_body\<close> delivers them to any
  sink that takes everything as decimal numbers with dots between them.
\<close>

theorem relative_oid_roundtrip:
  assumes "can_alloc (5 * length arcs + 1)" "length arcs \<le> slots" "slots \<le> length out"
  shows "\<exists>st' out' k'. RELATIVE_OID_set_arcs can_alloc (Some st) arcs (length arcs) = Some (0, Some st') \<and>
    RELATIVE_OID_get_arcs (Some st') out slots = Some (int (length arcs), out') \<and> take (length arcs) out' = arcs \<and>
    RELATIVE_OID__dump_body st' (encode_dyn_cb (\<lambda>_. True)) dyn_start = Some (int (length (oid_text arcs)), k') \<and>
    dyn_taken k' = oid_text arcs"
proof -
  define bs where "bs = concat (map arc_octets arcs)"
  define st' where "st' = \<lparr>int_buf = Some (bs @ [0]), int_size = length bs\<rparr>"
  have st': "INTEGER_octets st' = concat (map arc_octets arcs)" "INTEGER_inv st'"
    by (simp_all add: st'_def bs_def INTEGER_octets_def INTEGER_inv_def)
  have s: "RELATIVE_OID_set_arcs can_alloc (Some st) arcs (length arcs) = Some (0, Some st')"
    using assms(1) set_arcs_loop_ok [of arcs "5 * length arcs"]
    by (simp add: RELATIVE_OID_set_arcs_def mem_load_def Let_def st'_def bs_def)
  obtain out' where "get_arcs_loop bs 0 0 out slots = Some (int (length arcs), out')" "take (length arcs) out' = arcs"
    using get_arcs_all [OF assms(2,3)] unfolding bs_def by blast
  then have g: "RELATIVE_OID_get_arcs (Some st') out slots = Some (int (length arcs), out')" "take (length arcs) out' = arcs"
    by (simp_all add: RELATIVE_OID_get_arcs_def st'_def mem_load_def)
  obtain k' where "RELATIVE_OID__dump_body st' (encode_dyn_cb (\<lambda>_. True)) dyn_start = Some (int (length (oid_text arcs)), k')"
    "dyn_taken k' = oid_text arcs"
    by (rule dyn_puts_total [OF dyn.sink.relative_dump_ok [OF st' dyn_holds_start]]) simp
  with s g show ?thesis by blast
qed

theorem relative_oid_roundtrip_witness:
  "\<exists>st' out' k'. RELATIVE_OID_set_arcs (\<lambda>_. True) (Some (INTEGER_of [])) [4294967295, 8] (length [4294967295, 8 :: u32]) = Some (0, Some st') \<and>
    RELATIVE_OID_get_arcs (Some st') [0, 0] 2 = Some (int (length [4294967295, 8 :: u32]), out') \<and>
    take (length [4294967295, 8 :: u32]) out' = [4294967295, 8] \<and>
    RELATIVE_OID__dump_body st' (encode_dyn_cb (\<lambda>_. True)) dyn_start = Some (int (length (oid_text [4294967295, 8])), k') \<and>
    dyn_taken k' = oid_text [4294967295, 8]"
  by (rule relative_oid_roundtrip) simp_all

end
