(* ===== verification/Uper_Any.thy ===== *)
theory Uper_Any
  imports Uper_Schema
begin

unbundle bit_operations_syntax

text \<open>
  Input that nobody vouches for, the parts: what the readers of \<open>Bit_Data\<close>, \<open>Uper_Support\<close> and \<open>Per_Codec\<close> and
  the unaligned PER decoders of the simple types and the strings do on an arbitrary stream. Each of them ends
  without a fault; a decoder that reports success has a value of its type (\<open>robust\<close>).
\<close>

section \<open>The readers on any stream\<close>

text \<open>\<open>pd'\<close> is \<open>pd\<close> after some bits were read.\<close>

definition pd_after :: "bit_data \<Rightarrow> bit_data \<Rightarrow> bool" where
  "pd_after pd pd' \<longleftrightarrow> (\<exists>bs. pd_consumes pd bs pd')"

lemma pd_after_trans: "pd_after pd pd1 \<Longrightarrow> pd_after pd1 pd2 \<Longrightarrow> pd_after pd pd2"
  unfolding pd_after_def using pd_consumes_trans by blast

lemma pd_after_refl: "pd_inv pd \<Longrightarrow> pd_after pd pd"
  unfolding pd_after_def using pd_consumes_refl by blast

lemma pd_afterI: "pd_consumes pd bs pd' \<Longrightarrow> pd_after pd pd'"
  by (auto simp: pd_after_def)

lemma pd_afterD: "pd_after pd pd' \<Longrightarrow> pd_inv pd'" "pd_after pd pd' \<Longrightarrow> length (pd_bits pd') \<le> length (pd_bits pd)"
  using pd_consumesD(2,3) by (fastforce simp: pd_after_def)+

lemma few_bits_any:
  assumes "pd_inv pd" "n \<le> 31"
  obtains v pd' where "asn_get_few_bits pd n = Some (v, pd')" "pd_inv pd'" "v = -1 \<or> 0 \<le> v \<and> v < 2 ^ nat n"
    "v = -1 \<or> length (pd_bits pd) = nat n + length (pd_bits pd')" "pd_after pd pd'"
proof (cases "n < 0")
  case True
  with assms(1) show thesis by (intro that [of "-1" pd]) (simp_all add: asn_get_few_bits.simps [of pd n] pd_after_refl)
next
  case False
  then have "0 \<le> n" by simp
  from assms(1) this assms(2) show thesis
  proof (cases rule: get_few_bits_total)
    case (got v pd')
    then show thesis using pd_consumesD [OF got(4)] pd_afterI by (intro that [of v pd']) auto
  next
    case starved
    with assms(1) show thesis by (intro that [of "-1" pd]) (auto intro: pd_after_refl)
  qed
qed

lemma ext_bit_any:
  assumes "pd_inv pd"
  obtains v pd' where "(if e then asn_get_few_bits pd 1 else Some (0, pd)) = Some (v, pd')" "pd_inv pd'" "pd_after pd pd'"
proof (cases e)
  case True
  obtain v pd' where "asn_get_few_bits pd 1 = Some (v, pd')" "pd_inv pd'" "pd_after pd pd'" by (rule few_bits_any [OF assms, of 1]) auto
  with True show thesis by (intro that) simp_all
qed (use assms that pd_after_refl in auto)

lemma ct_ext_any:
  assumes "pd_inv pd"
  obtains v pd' where "(case ct of Some c \<Rightarrow> if ct_has c APC_EXTENSIBLE then asn_get_few_bits pd 1 else Some (0, pd) | None \<Rightarrow> Some (0, pd)) =
    Some (v, pd')" "pd_inv pd'" "pd_after pd pd'"
proof (cases ct)
  case None
  with that [of 0 pd] assms pd_after_refl show thesis by simp
next
  case (Some c)
  obtain v pd' where "(if ct_has c APC_EXTENSIBLE then asn_get_few_bits pd 1 else Some (0, pd)) = Some (v, pd')" "pd_inv pd'" "pd_after pd pd'"
    by (rule ext_bit_any [OF assms])
  with Some that show thesis by simp
qed

lemma many_bits_any:
  assumes "pd_inv pd" "0 \<le> n"
  obtains r octets pd' where "asn_get_many_bits pd False n = Some (r, octets, pd')" "pd_inv pd'"
    "r = 0 \<longrightarrow> nat n \<le> 8 * length octets \<and> pd_after pd pd'"
    "r = 0 \<longrightarrow> length octets = (nat n + 7) div 8 \<and> length (pd_bits pd) = nat n + length (pd_bits pd')" "r = 0 \<or> r = -1"
proof -
  have n: "n = int (nat n)" using assms(2) by simp
  show thesis
  proof (cases "nat n \<le> length (pd_bits pd)")
    case True
    define octets where "octets = left_octets (take (nat n) (pd_bits pd))"
    from get_many_bits_left [OF assms(1) True] n obtain pd' where
      m: "asn_get_many_bits pd False n = Some (0, octets, pd')"
      "pd_consumes pd (take (nat n) (pd_bits pd)) pd'" by (auto simp: octets_def)
    have l: "length octets = (nat n + 7) div 8" using True by (simp add: octets_def min_def)
    moreover have "nat n \<le> 8 * ((nat n + 7) div 8)" by linarith
    moreover have "length (pd_bits pd) = nat n + length (pd_bits pd')"
      using arg_cong [OF pd_consumesD(3) [OF m(2)], of length] True by (simp only: length_append length_take min_absorb2)
    ultimately show thesis using that [OF m(1) pd_consumesD(2) [OF m(2)]] pd_afterI [OF m(2)] by metis
  next
    case False
    with get_many_bits_starved [OF assms(1), of "nat n"] n that show thesis by fastforce
  qed
qed

lemma get_length_any:
  assumes "pd_inv pd"
  obtains v rep pd' where "uper_get_length pd (-1) 0 = Some (v, rep, pd')" "pd_inv pd'" "rep = 0 \<or> 200 < v" "pd_after pd pd'"
    "v < 0 \<or> length (pd_bits pd') < length (pd_bits pd)" "v \<le> 65536" "rep = 0 \<or> 16384 dvd v"
proof -
  from get_length_total [OF assms, of 0] obtain v rep pd' where
    l: "uper_get_length pd (-1) 0 = Some (v, rep, pd')" "pd_inv pd'" "rep = 0 \<or> 200 < v" "v \<le> 65536" "rep = 0 \<or> 16384 dvd v" by fastforce
  obtain b pd1 where 1: "asn_get_few_bits pd 8 = Some (b, pd1)" "pd_inv pd1" "pd_after pd pd1"
    "b = -1 \<or> length (pd_bits pd) = nat 8 + length (pd_bits pd1)" by (rule few_bits_any [OF assms, of 8]) auto
  obtain d pd2 where 2: "asn_get_few_bits pd1 8 = Some (d, pd2)" "pd_after pd1 pd2" by (rule few_bits_any [OF 1(2), of 8]) auto
  have c: "pd' = pd1 \<or> pd' = pd2" "b = -1 \<Longrightarrow> v = -1" using l(1) 1(1) 2(1) by (auto simp: uper_get_length_def Let_def split: if_splits)
  with 1(3) 2(2) pd_after_trans have "pd_after pd pd'" by blast
  moreover have "v < 0 \<or> length (pd_bits pd') < length (pd_bits pd)" using c 1(4) pd_afterD(2) [OF 2(2)] by auto
  ultimately show thesis using l that by blast
qed

lemma get_nslength_any:
  assumes "pd_inv pd"
  obtains v pd' where "uper_get_nslength pd = Some (v, pd')" "pd_inv pd'" "pd_after pd pd'"
proof -
  obtain b pd1 where 1: "asn_get_few_bits pd 1 = Some (b, pd1)" "pd_inv pd1" "pd_after pd pd1" by (rule few_bits_any [OF assms, of 1]) auto
  obtain v pd2 where 2: "asn_get_few_bits pd1 6 = Some (v, pd2)" "pd_inv pd2" "pd_after pd1 pd2" by (rule few_bits_any [OF 1(2), of 6]) auto
  obtain l r pd3 where 3: "uper_get_length pd1 (-1) 0 = Some (l, r, pd3)" "pd_inv pd3" "pd_after pd1 pd3"
    by (rule get_length_any [OF 1(2)])
  note after = pd_after_trans [OF 1(3) 2(3)] pd_after_trans [OF 1(3) 3(3)]
  show thesis
  proof (cases "b = 0")
    case True
    with 1 2 after show thesis by (intro that [of "if v + 1 \<le> 0 then -1 else v + 1" pd2]) (simp_all add: uper_get_nslength_def Let_def)
  next
    case False
    with 1 3 after show thesis by (intro that [of "if 0 \<le> l \<and> r = 0 then l else -1" pd3]) (simp_all add: uper_get_nslength_def)
  qed
qed

lemma get_nsnnwn_any:
  assumes "pd_inv pd"
  obtains v pd' where "uper_get_nsnnwn pd = Some (v, pd')" "pd_inv pd'" "v = -1 \<or> 0 \<le> v \<and> v < 2 ^ 16" "pd_after pd pd'"
proof -
  obtain v pd1 where 1: "asn_get_few_bits pd 7 = Some (v, pd1)" "pd_inv pd1" "v = -1 \<or> 0 \<le> v \<and> v < 128" "pd_after pd pd1"
    by (rule few_bits_any [OF assms, of 7]) auto
  obtain low pd2 where 2: "asn_get_few_bits pd1 2 = Some (low, pd2)" "pd_inv pd2" "pd_after pd1 pd2"
    by (rule few_bits_any [OF 1(2), of 2]) auto
  have after: "pd_after pd pd2" by (rule pd_after_trans [OF 1(4) 2(3)])
  define u where "u = (push_bit 2 (v AND 63)) OR low"
  have body: "uper_get_nsnnwn pd = (if v AND 64 \<noteq> 0
      then if u AND 128 \<noteq> 0 then Some (-1, pd2) else if u = 0 then Some (0, pd2) else if 3 \<le> u then Some (-1, pd2)
        else asn_get_few_bits pd2 (8 * u)
      else Some (v, pd1))"
    by (simp only: uper_get_nsnnwn_def 1(1) 2(1) bind.bind_lunit split_conv Let_def u_def)
  show thesis
  proof (cases "v AND 64 = 0 \<or> u AND 128 \<noteq> 0 \<or> u = 0 \<or> 3 \<le> u")
    case True
    define w where "w = (if v AND 64 = 0 then v else if u AND 128 \<noteq> 0 then -1 else if u = 0 then 0 else -1)"
    have "uper_get_nsnnwn pd = Some (w, if v AND 64 = 0 then pd1 else pd2)"
      using True by (auto simp: body w_def)
    moreover have "w = -1 \<or> 0 \<le> w \<and> w < 2 ^ 16" using 1(3) by (auto simp: w_def)
    ultimately show thesis using 1(2,4) 2(2) after by (intro that [of w "if v AND 64 = 0 then pd1 else pd2"]) auto
  next
    case False
    have "8 * u \<le> 31" using False by simp
    from few_bits_any [OF 2(2) this] obtain w pd3 where 3: "asn_get_few_bits pd2 (8 * u) = Some (w, pd3)" "pd_inv pd3"
      "w = -1 \<or> 0 \<le> w \<and> w < 2 ^ nat (8 * u)" "pd_after pd2 pd3" by metis
    have "u \<le> 2" using False by linarith
    then have "nat (8 * u) \<le> 16" by simp
    then have "(2 :: int) ^ nat (8 * u) \<le> 2 ^ 16" by (rule power_increasing) simp
    with 3(3) have "w = -1 \<or> 0 \<le> w \<and> w < 2 ^ 16" by linarith
    moreover have "uper_get_nsnnwn pd = Some (w, pd3)"
      using False 3(1) by (simp add: body)
    ultimately show thesis using 3(2) pd_after_trans [OF after 3(4)] by (intro that)
  qed
qed

lemma get_cwn_any:
  assumes "pd_inv pd" "n \<le> 64"
  shows "\<exists>r v pd'. uper_get_constrained_whole_number pd out n = Some (r, v, pd') \<and> pd_inv pd' \<and> pd_after pd pd'"
  using assms
proof (induction "nat n" arbitrary: pd n out rule: less_induct)
  case less
  show ?case
  proof (cases "n \<le> 31")
    case True
    obtain h pd1 where "asn_get_few_bits pd n = Some (h, pd1)" "pd_inv pd1" "pd_after pd pd1"
      by (rule few_bits_any [OF less.prems(1) True]) auto
    with True show ?thesis by (subst uper_get_constrained_whole_number.simps) auto
  next
    case False
    obtain h pd1 where 1: "asn_get_few_bits pd 31 = Some (h, pd1)" "pd_inv pd1" "pd_after pd pd1" by (rule few_bits_any [OF less.prems(1), of 31]) auto
    have "nat (n - 31) < nat n" "n - 31 \<le> 64" using False less.prems(2) by auto
    from less.hyps [OF this(1) 1(2) this(2), of 0] obtain r v pd2 where
      "uper_get_constrained_whole_number pd1 0 (n - 31) = Some (r, v, pd2)" "pd_inv pd2" "pd_after pd1 pd2" by blast
    with False less.prems(2) 1 pd_after_trans [OF 1(3)] show ?thesis by (subst uper_get_constrained_whole_number.simps) auto
  qed
qed

lemma fresh_inv: "pd_inv \<lparr>pd_mem = buf, pd_buffer = 0, pd_nboff = 0, pd_nbits = 8 * length buf, pd_moved = 0\<rparr>"
  by (simp add: pd_inv_def)

lemma per_chunks_code: "per_chunks alloc pd buf n = Some (res, pd') \<Longrightarrow> res \<noteq> Inl RC_OK"
proof -
  have "(\<lambda>alloc pd buf n y. fst y \<noteq> Inl RC_OK) alloc pd buf n y" if "per_chunks alloc pd buf n = Some y" for y
  proof (rule per_chunks.raw_induct [OF _ that], goal_cases)
    case (1 f alloc pd buf n y)
    note ih = 1(1) and step = 1(2)
    show ?case
    proof (cases "uper_get_length pd (-1) 0")
      case (Some x)
      with step ih show ?thesis by (cases x) (auto split: option.splits prod.splits if_splits)
    qed (use step in simp)
  qed
  then show "per_chunks alloc pd buf n = Some (res, pd') \<Longrightarrow> res \<noteq> Inl RC_OK" by fastforce
qed

text \<open>The octets of an open type are part of the stream, behind at least one length.\<close>

lemma per_chunks_after:
  assumes "per_chunks alloc pd buf n = Some (Inr octets, pd')" "pd_inv pd"
  shows "pd_after pd pd' \<and> 8 * length octets + length (pd_bits pd') < 8 * length buf + length (pd_bits pd)"
proof -
  have "pd_inv pd \<longrightarrow> (\<forall>octets pd'. y = (Inr octets, pd') \<longrightarrow>
      pd_after pd pd' \<and> 8 * length octets + length (pd_bits pd') < 8 * length buf + length (pd_bits pd))" if "per_chunks alloc pd buf n = Some y" for y
  proof (rule per_chunks.raw_induct [OF _ that], goal_cases)
    case (1 f alloc pd buf n y)
    note ih = 1(1) and step = 1(2)
    show ?case
    proof (intro impI allI)
      fix octets pd' assume pd: "pd_inv pd" and y: "y = (Inr octets, pd')"
      obtain v rep pd1 where l: "uper_get_length pd (-1) 0 = Some (v, rep, pd1)" "pd_inv pd1" "pd_after pd pd1"
        "v < 0 \<or> length (pd_bits pd1) < length (pd_bits pd)" by (rule get_length_any [OF pd])
      show "pd_after pd pd' \<and> 8 * length octets + length (pd_bits pd') < 8 * length buf + length (pd_bits pd)"
      proof (cases "v < 0")
        case False
        then have "0 \<le> v * 8" by simp
        obtain r os pd2 where m: "asn_get_many_bits pd1 False (v * 8) = Some (r, os, pd2)" "pd_inv pd2" "r = 0 \<longrightarrow> pd_after pd1 pd2"
          "r = 0 \<longrightarrow> length os = (nat (v * 8) + 7) div 8 \<and> length (pd_bits pd1) = nat (v * 8) + length (pd_bits pd2)"
          by (rule many_bits_any [OF l(2) \<open>0 \<le> v * 8\<close>]) auto
        from step l(1) m(1) False y have r: "r = 0" and
          c: "octets = buf @ os \<and> pd' = pd2 \<or> (\<exists>n'. f alloc pd2 (buf @ os) n' = Some (Inr octets, pd'))"
          by (auto split: option.splits if_splits)
        have a: "pd_after pd pd2" using pd_after_trans [OF l(3)] m(3) r by simp
        have "length os = nat v" "length (pd_bits pd1) = 8 * nat v + length (pd_bits pd2)"
          using m(4) r False by (simp_all add: nat_mult_distrib)
        then have b: "8 * length (buf @ os) + length (pd_bits pd2) < 8 * length buf + length (pd_bits pd)" using l(4) False by simp
        show ?thesis
        proof (cases "octets = buf @ os \<and> pd' = pd2")
          case False
          with c obtain n' where "f alloc pd2 (buf @ os) n' = Some (Inr octets, pd')" by blast
          from ih [OF this] m(2) have "pd_after pd2 pd'"
            "8 * length octets + length (pd_bits pd') < 8 * length (buf @ os) + length (pd_bits pd2)" by simp_all
          with a b show ?thesis using pd_after_trans by fastforce
        qed (use a b in simp)
      qed (use step l(1) y in simp)
    qed
  qed
  from this [OF assms(1)] assms(2) show ?thesis by simp
qed

lemma open_type_chunks_any:
  assumes "pd_inv pd"
  obtains res pd' where "open_type_chunks ca pd = Some (res, pd')" "pd_inv pd'" "res \<noteq> Inl RC_OK"
    "\<forall>os. res = Inr os \<longrightarrow> pd_after pd pd' \<and> 8 * length os + length (pd_bits pd') < length (pd_bits pd)"
proof -
  have "open_type_alloc ca l k n = Some n' \<Longrightarrow> l + k \<le> n'" if "l \<le> n" for l k n n'
    using that by (auto simp: open_type_alloc_def Let_def push_bit_eq_mult split: if_splits)
  with per_chunks_total [OF assms, of "[]" 0 "open_type_alloc ca"]
  obtain res pd1 where "open_type_chunks ca pd = Some (res, pd1)" "pd_inv pd1" unfolding open_type_chunks_def by auto
  moreover from this(1) have "res \<noteq> Inl RC_OK" unfolding open_type_chunks_def by (rule per_chunks_code)
  moreover have "\<forall>os. res = Inr os \<longrightarrow> pd_after pd pd1 \<and> 8 * length os + length (pd_bits pd1) < length (pd_bits pd)"
    using calculation(1) per_chunks_after [OF _ assms, of "open_type_alloc ca" "[]"] unfolding open_type_chunks_def by auto
  ultimately show thesis by (rule that)
qed

lemma open_type_skip_any:
  assumes "pd_inv pd"
  shows "\<exists>r pd'. uper_open_type_skip True ca pd = Some (r, pd') \<and> pd_inv pd' \<and> (r = 0 \<longrightarrow> pd_after pd pd')"
proof -
  from open_type_skip_total [OF assms, of ca] obtain r pd' where
    s: "uper_open_type_skip True ca pd = Some (r, pd')" "pd_inv pd'" by blast
  obtain res pd1 where c: "open_type_chunks ca pd = Some (res, pd1)" "pd_inv pd1" "res \<noteq> Inl RC_OK"
    "\<forall>os. res = Inr os \<longrightarrow> pd_after pd pd1 \<and> 8 * length os + length (pd_bits pd1) < length (pd_bits pd)"
    by (rule open_type_chunks_any [OF assms])
  have "r = 0 \<longrightarrow> pd_after pd pd'"
    using s(1) c by (cases res) (auto simp: uper_open_type_skip_def uper_open_type_get_def uper_open_type_get_simple_def uper_sot_suck_def
        Let_def split: bind_splits if_splits)
  with s show ?thesis by blast
qed

section \<open>A decoder on any stream\<close>

text \<open>
  The contract of a decoder for input that nobody vouches for: on every stream of less than \<open>2 ^ 29\<close> bits it
  ends without a fault, leaves a valid position, and reports \<open>RC_OK\<close> only with a value of its type. What
  it then reports as consumed is zero, or bits were consumed. The length of the stream bounds the
  number of elements of a list, whose counter is an \<open>int\<close>.
\<close>

definition pd_fit :: "bit_data \<Rightarrow> bool" where
  "pd_fit pd \<longleftrightarrow> pd_inv pd \<and> length (pd_bits pd) < 2 ^ 29"

lemma pd_fit_inv: "pd_fit pd \<Longrightarrow> pd_inv pd"
  by (simp add: pd_fit_def)

lemma pd_fit_after: "pd_fit pd \<Longrightarrow> pd_after pd pd' \<Longrightarrow> pd_fit pd'"
  using pd_afterD [of pd pd'] by (auto simp: pd_fit_def)

definition robust :: "'v per_decoder \<Rightarrow> ('v \<Rightarrow> bool) \<Rightarrow> bool" where
  "robust decoder P \<longleftrightarrow> (\<forall>pd. pd_fit pd \<longrightarrow> (\<exists>code r pd'. decoder pd = Some (code, r, pd') \<and> pd_inv pd' \<and>
     (code = RC_OK \<longrightarrow> pd_after pd pd' \<and>
        (\<exists>w n. r = Some (w, n) \<and> (n = 0 \<or> length (pd_bits pd') < length (pd_bits pd)) \<and> P w))))"

lemma robustE:
  assumes "robust decoder P" "pd_fit pd"
  obtains (ok) w n pd' where "decoder pd = Some (RC_OK, Some (w, n), pd')" "pd_fit pd'" "P w" "pd_after pd pd'"
      "n = 0 \<or> length (pd_bits pd') < length (pd_bits pd)"
    | (failed) code r pd' where "decoder pd = Some (code, r, pd')" "pd_inv pd'" "code \<noteq> RC_OK"
  using assms pd_fit_after unfolding robust_def by blast

lemma robustI:
  assumes "\<And>pd. pd_fit pd \<Longrightarrow> \<exists>code r pd'. decoder pd = Some (code, r, pd') \<and> pd_inv pd' \<and>
    (code = RC_OK \<longrightarrow> pd_after pd pd' \<and> (\<exists>w n. r = Some (w, n) \<and> (n = 0 \<or> length (pd_bits pd') < length (pd_bits pd)) \<and> P w))"
  shows "robust decoder P"
  using assms by (simp add: robust_def)

text \<open>Most decoders do not count what they consume.\<close>

lemma uncountedI:
  assumes "\<And>pd. pd_fit pd \<Longrightarrow> \<exists>code r pd'. decoder pd = Some (code, r, pd') \<and> pd_inv pd' \<and>
    (code = RC_OK \<longrightarrow> pd_after pd pd' \<and> (\<exists>w. r = Some (w, 0) \<and> P w))"
  shows "robust decoder P"
  using assms unfolding robust_def by blast

lemma robust_viewed:
  assumes "robust decoder P" "\<And>w. P w \<Longrightarrow> Q (f w)"
  shows "robust (viewed f decoder) Q"
proof (rule robustI)
  fix pd assume "pd_fit pd"
  with assms(1) show "\<exists>code r pd'. viewed f decoder pd = Some (code, r, pd') \<and> pd_inv pd' \<and>
      (code = RC_OK \<longrightarrow> pd_after pd pd' \<and> (\<exists>w n. r = Some (w, n) \<and> (n = 0 \<or> length (pd_bits pd') < length (pd_bits pd)) \<and> Q w))"
    by (cases rule: robustE) (auto simp: viewed_def assms(2) dest: pd_fit_inv)
qed

lemma robust_open_type:
  assumes "robust decoder P"
  shows "robust (uper_open_type_get True ca decoder) P"
proof (rule robustI)
  fix pd assume pd: "pd_fit pd"
  obtain res pd1 where c: "open_type_chunks ca pd = Some (res, pd1)" "pd_inv pd1" "res \<noteq> Inl RC_OK"
    "\<forall>os. res = Inr os \<longrightarrow> pd_after pd pd1 \<and> 8 * length os + length (pd_bits pd1) < length (pd_bits pd)"
    by (rule open_type_chunks_any [OF pd_fit_inv [OF pd]])
  show "\<exists>code r pd'. uper_open_type_get True ca decoder pd = Some (code, r, pd') \<and> pd_inv pd' \<and>
      (code = RC_OK \<longrightarrow> pd_after pd pd' \<and> (\<exists>w n. r = Some (w, n) \<and> (n = 0 \<or> length (pd_bits pd') < length (pd_bits pd)) \<and> P w))"
  proof (cases res)
    case (Inl code)
    with c show ?thesis by (simp add: uper_open_type_get_def uper_open_type_get_simple_def)
  next
    case (Inr buf)
    have "8 * length buf < 2 ^ 29" using c(4) Inr pd by (auto simp: pd_fit_def)
    with fresh_inv [of buf] have "pd_fit \<lparr>pd_mem = buf, pd_buffer = 0, pd_nboff = 0, pd_nbits = 8 * length buf, pd_moved = 0\<rparr>"
      by (simp add: pd_fit_def length_pd_bits)
    with assms show ?thesis
    proof (cases rule: robustE)
      case failed
      with c Inr show ?thesis by (simp add: uper_open_type_get_def uper_open_type_get_simple_def)
    next
      case (ok w n spd)
      define padding where "padding = int (pd_nbits spd) - int (pd_nboff spd)"
      define cond where "cond = (0 < padding \<and> padding < 8 \<or> pd_nboff spd = 0 \<and> pd_nbits spd = 8 \<and> pd_buffer spd = 0)"
      obtain cool where cool: "(if cond then do { (p, spd) \<leftarrow> asn_get_few_bits spd padding; Some (p = 0) } else Some False) = Some cool"
      proof (cases cond)
        case True
        then have "padding \<le> 31" by (auto simp: cond_def padding_def)
        from few_bits_any [OF pd_fit_inv [OF ok(2)] this] obtain v spd' where "asn_get_few_bits spd padding = Some (v, spd')" by metis
        with True show thesis by (intro that [of "v = 0"]) simp
      qed (use that in simp)
      have "uper_open_type_get True ca decoder pd = (if cool then Some (RC_OK, Some (w, n), pd1)
          else if 8 \<le> padding then Some (RC_FAIL, Some (w, n), pd1) else Some (RC_OK, Some (w, n), pd1))"
        by (simp only: uper_open_type_get_def uper_open_type_get_simple_def c(1) Inr sum.case bind.bind_lunit split_conv ok(1) Let_def
            padding_def [symmetric] cond_def [symmetric] cool refl if_True if_False not_True_eq_False)
      with c(2,4) Inr ok(3) show ?thesis by auto
    qed
  qed
qed


section \<open>The simple types\<close>

lemma robust_boolean: "robust (counted 0 (BOOLEAN_decode_uper (\<lambda>_. True))) (\<lambda>i. i = 0 \<or> i = 1)"
proof (rule uncountedI)
  fix pd :: bit_data assume "pd_fit pd"
  then have "pd_inv pd" by (rule pd_fit_inv)
  then obtain v pd' where "asn_get_few_bits pd 1 = Some (v, pd')" "pd_inv pd'" "pd_after pd pd'" by (rule few_bits_any [of pd 1]) auto
  then show "\<exists>code r pd'. counted 0 (BOOLEAN_decode_uper (\<lambda>_. True)) pd = Some (code, r, pd') \<and> pd_inv pd' \<and>
      (code = RC_OK \<longrightarrow> pd_after pd pd' \<and> (\<exists>w. r = Some (w, 0) \<and> (w = 0 \<or> w = 1)))"
    by (auto simp: counted_def BOOLEAN_decode_uper_def)
qed

lemma robust_null: "robust (counted 0 (NULL_decode_uper (\<lambda>_. True))) (\<lambda>i. i = 0)"
  by (rule uncountedI) (simp add: counted_def NULL_decode_uper_def pd_after_refl pd_fit_inv)

text \<open>The result of \<open>INTEGER_decode_uper\<close>: an \<open>INTEGER_t\<close> with memory behind it.\<close>

definition int_type_ok :: "asn_TYPE_descriptor \<Rightarrow> asn_per_constraints option \<Rightarrow> bool" where
  "int_type_ok td cs = (case value_constraint td cs of Some c \<Rightarrow> int_constraint_ok (field_is_unsigned td) c | None \<Rightarrow> True)"

lemma INTEGER_chunks_any:
  assumes "pd_inv pd" "case ct of Some c \<Rightarrow> ct_lower_bound c = 0 | None \<Rightarrow> True"
  shows "\<exists>code r pd'. INTEGER_decode_chunks (\<lambda>_. True) ct octets pd = Some (code, r, pd') \<and> pd_inv pd' \<and>
    (code = RC_OK \<longrightarrow> pd_after pd pd' \<and> (\<exists>st. r = Some st \<and> INTEGER_inv st))"
proof -
  have "INTEGER_chunk_alloc (\<lambda>_. True) l c n = Some n' \<Longrightarrow> l + c \<le> n'" for l c n n' by (auto simp: INTEGER_chunk_alloc_def)
  with per_chunks_total [OF assms(1), of octets "length octets" "INTEGER_chunk_alloc (\<lambda>_. True)"] obtain res pd' where
    "per_chunks (INTEGER_chunk_alloc (\<lambda>_. True)) pd octets (length octets) = Some (res, pd')" "pd_inv pd'" by auto
  moreover have "res \<noteq> Inl RC_OK" by (rule per_chunks_code) fact
  moreover have "\<And>os. res = Inr os \<Longrightarrow> pd_after pd pd'" using per_chunks_after calculation(1) assms(1) by blast
  moreover have "(case ct of Some c \<Rightarrow> ct_lower_bound c | None \<Rightarrow> 0) = 0" using assms(2) by (cases ct) simp_all
  ultimately show ?thesis by (cases res) (auto simp: INTEGER_decode_chunks_def Let_def decoded_INTEGER)
qed

lemma INTEGER_decode_any:
  assumes "pd_inv pd" "int_type_ok td cs"
  shows "\<exists>code r pd'. INTEGER_decode_uper (\<lambda>_. True) td cs pd = Some (code, r, pd') \<and> pd_inv pd' \<and>
    (code = RC_OK \<longrightarrow> pd_after pd pd' \<and> (\<exists>st. r = Some st \<and> INTEGER_inv st))"
proof (cases "value_constraint td cs")
  case None
  with INTEGER_chunks_any [OF assms(1), of None "[]"] show ?thesis by (simp add: INTEGER_decode_uper_def Let_def)
next
  case (Some c)
  define uns where "uns = field_is_unsigned td"
  have ok: "int_constraint_ok uns c" using assms(2) Some by (simp add: int_type_ok_def uns_def)
  obtain inext pd1 where 1: "(if ct_has c APC_EXTENSIBLE then asn_get_few_bits pd 1 else Some (0, pd)) = Some (inext, pd1)" "pd_inv pd1"
    "pd_after pd pd1" by (rule ext_bit_any [OF assms(1)])
  have chunks: "\<exists>code r pd'. INTEGER_decode_chunks (\<lambda>_. True) ct octets pd1 = Some (code, r, pd') \<and> pd_inv pd' \<and>
    (code = RC_OK \<longrightarrow> pd_after pd pd' \<and> (\<exists>st. r = Some st \<and> INTEGER_inv st))"
    if "case ct of Some c \<Rightarrow> ct_lower_bound c = 0 | None \<Rightarrow> True" for ct octets
    using INTEGER_chunks_any [OF 1(2) that, of octets] pd_after_trans [OF 1(3)] by blast
  consider "inext < 0" | "0 < inext" | "inext = 0" "ct_range_bits c < 0" | "inext = 0" "0 \<le> ct_range_bits c" by linarith
  then show ?thesis
  proof cases
    case 1
    with Some \<open>_ = Some (inext, pd1)\<close> \<open>pd_inv pd1\<close> show ?thesis by (simp add: INTEGER_decode_uper_def Let_def)
  next
    case 2
    with Some \<open>_ = Some (inext, pd1)\<close> chunks [of None "[]"] show ?thesis by (simp add: INTEGER_decode_uper_def Let_def)
  next
    case 3
    then have "ct_lower_bound c = 0" using ok by (simp add: int_constraint_ok_def)
    with 3 Some \<open>_ = Some (inext, pd1)\<close> chunks [of "Some c"] show ?thesis by (auto simp: INTEGER_decode_uper_def Let_def)
  next
    case 4
    then have c: "ct_flags c \<in> {2, 6}" "ct_range_bits c \<le> 64" and b: "INTMAX_MIN \<le> ct_lower_bound c"
      "ct_lower_bound c \<le> ct_upper_bound c" "ct_upper_bound c \<le> INTMAX_MAX"
      using ok by (auto simp: int_constraint_ok_def)
    have f: "ct_flags c \<noteq> 0" "\<not> ct_has c 1" "ct_has c 2" using c(1) by (auto simp: ct_has_def)
    obtain r v pd2 where g: "uper_get_constrained_whole_number pd1 0 (ct_range_bits c) = Some (r, v, pd2)" "pd_inv pd2" "pd_after pd pd2"
      using get_cwn_any [OF 1(2) c(2)] pd_after_trans [OF 1(3)] by blast
    define octets :: "u8 list" where "octets = replicate (nat (drop_bit 3 (ct_range_bits c + 7))) 0"
    have dec: "INTEGER_decode_uper (\<lambda>_. True) td cs pd =
       (if r \<noteq> 0 then Some (RC_WMORE, None, pd2)
        else if uns then let (r, st) = asn_umax2INTEGER (\<lambda>_. True) (INTEGER_of octets) (v + of_int (ct_lower_bound c))
               in if r \<noteq> 0 then Some (RC_FAIL, None, pd2) else Some (RC_OK, Some st, pd2)
        else do {
          (r, s) \<leftarrow> per_imax_range_unrebase v (ct_lower_bound c) (ct_upper_bound c) 0;
          if r \<noteq> 0 then Some (RC_FAIL, None, pd2)
          else let (r, st) = asn_imax2INTEGER (\<lambda>_. True) (INTEGER_of octets) s
               in if r \<noteq> 0 then Some (RC_FAIL, None, pd2) else Some (RC_OK, Some st, pd2) })"
      unfolding octets_def uns_def using Some 1(1) 4 f c(2) g(1) by (simp add: INTEGER_decode_uper_def Let_def)
    obtain st where u: "asn_umax2INTEGER (\<lambda>_. True) (INTEGER_of octets) (v + of_int (ct_lower_bound c)) = (0, st)" "INTEGER_inv st"
      using umax2INTEGER [of "\<lambda>_. True"] by blast
    note r = imax_unrebase [OF b, of v 0]
    show ?thesis
    proof (cases "uint v \<le> ct_upper_bound c - ct_lower_bound c")
      case True
      have "0 \<le> uint v" by simp
      then have "INTMAX_MIN \<le> ct_lower_bound c + uint v" "ct_lower_bound c + uint v \<le> INTMAX_MAX" using True b by linarith+
      then obtain st' where "asn_imax2INTEGER (\<lambda>_. True) (INTEGER_of octets) (ct_lower_bound c + uint v) = (0, st')" "INTEGER_inv st'"
        using imax2INTEGER [of _ "\<lambda>_. True"] by blast
      with g(2,3) u r True show ?thesis unfolding dec by (cases "r = 0") (auto simp: Let_def)
    next
      case False
      with g(2,3) u r show ?thesis unfolding dec by (cases "r = 0") (auto simp: Let_def)
    qed
  qed
qed

lemma robust_native:
  assumes "int_type_ok td cs"
  shows "robust (counted 0 (NativeInteger_decode_uper (\<lambda>_. True) td cs)) (\<lambda>i. INTMAX_MIN \<le> i \<and> i \<le> INTMAX_MAX)"
proof (rule uncountedI)
  fix pd assume "pd_fit pd"
  then have "pd_inv pd" by (rule pd_fit_inv)
  from INTEGER_decode_any [OF this assms] obtain code r pd' where
    d: "INTEGER_decode_uper (\<lambda>_. True) td cs pd = Some (code, r, pd')" "pd_inv pd'" "code = RC_OK \<longrightarrow> pd_after pd pd' \<and> (\<exists>st. r = Some st \<and> INTEGER_inv st)"
    by blast
  have range: "INTMAX_MIN \<le> sint (w :: u64) \<and> sint w \<le> INTMAX_MAX" for w
    using sint_ge [of w] sint_lt [of w] by (simp add: limits_defs)
  show "\<exists>code r pd'. counted 0 (NativeInteger_decode_uper (\<lambda>_. True) td cs) pd = Some (code, r, pd') \<and> pd_inv pd' \<and>
      (code = RC_OK \<longrightarrow> pd_after pd pd' \<and> (\<exists>w. r = Some (w, 0) \<and> INTMAX_MIN \<le> w \<and> w \<le> INTMAX_MAX))"
  proof (cases "code = RC_OK")
    case False
    with d show ?thesis by (simp add: counted_def NativeInteger_decode_uper_def)
  next
    case True
    with d(3) obtain st where st: "r = Some st" "INTEGER_inv st" by blast
    show ?thesis
    proof (cases "field_is_unsigned td")
      case u: True
      obtain r u where "asn_INTEGER2umax st 0 = Some (r, u)" using INTEGER2umax [OF st(2), of 0] by (metis surj_pair)
      with d True st u range show ?thesis by (auto simp: counted_def NativeInteger_decode_uper_def asn_INTEGER2ulong_def)
    next
      case False
      from INTEGER2imax [OF st(2), of 0] d True st False show ?thesis
        by (auto simp: counted_def NativeInteger_decode_uper_def asn_INTEGER2long_def)
    qed
  qed
qed

definition enum_type_ok :: "asn_TYPE_descriptor \<Rightarrow> asn_per_constraints option \<Rightarrow> bool" where
  "enum_type_ok td cs = (case (value_constraint td cs, td_specifics td) of (Some c, Some specs) \<Rightarrow> enum_ok c specs | _ \<Rightarrow> True)"

definition enum_values :: "asn_TYPE_descriptor \<Rightarrow> int list" where
  "enum_values td = (case td_specifics td of Some specs \<Rightarrow> map nat_value (value2enum specs) | None \<Rightarrow> [])"

lemma robust_enum:
  assumes "enum_type_ok td cs"
  shows "robust (counted 0 (NativeEnumerated_decode_uper (\<lambda>_. True) td cs)) (\<lambda>i. i \<in> set (enum_values td))"
proof (rule uncountedI)
  fix pd assume "pd_fit pd"
  then have pd: "pd_inv pd" by (rule pd_fit_inv)
  show "\<exists>code r pd'. counted 0 (NativeEnumerated_decode_uper (\<lambda>_. True) td cs) pd = Some (code, r, pd') \<and> pd_inv pd' \<and>
      (code = RC_OK \<longrightarrow> pd_after pd pd' \<and> (\<exists>w. r = Some (w, 0) \<and> w \<in> set (enum_values td)))"
  proof (cases "value_constraint td cs = None \<or> td_specifics td = None")
    case True
    with pd show ?thesis by (auto simp: counted_def NativeEnumerated_decode_uper_def split: option.splits)
  next
    case False
    then obtain c specs where c: "value_constraint td cs = Some c" "td_specifics td = Some specs" by auto
    have ok: "enum_ok c specs" using assms c by (simp add: enum_type_ok_def)
    obtain inext pd1 where 1: "(if ct_has c APC_EXTENSIBLE then asn_get_few_bits pd 1 else Some (0, pd)) = Some (inext, pd1)" "pd_inv pd1"
      "pd_after pd pd1" by (rule ext_bit_any [OF pd])
    obtain v pd2 where 2: "asn_get_few_bits pd1 (ct_range_bits c) = Some (v, pd2)" "pd_inv pd2" "v = -1 \<or> 0 \<le> v" "pd_after pd1 pd2"
      by (rule few_bits_any [OF 1(2), of "ct_range_bits c"]) (use ok in \<open>auto simp: enum_ok_def\<close>)
    obtain n pd3 where 3: "uper_get_nsnnwn pd1 = Some (n, pd3)" "pd_inv pd3" "n = -1 \<or> 0 \<le> n" "pd_after pd1 pd3"
      using get_nsnnwn_any [OF 1(2)] by metis
    have el: "\<exists>el. rd (value2enum specs) (nat i) = Some el \<and> nat_value el \<in> set (enum_values td)" if "0 \<le> i" "i < int (map_count specs)" for i
      using that ok c(2) by (auto simp: enum_ok_def enum_values_def rd_def)
    define ext where "ext = extension specs"
    have e: "0 \<le> ext" "ext \<noteq> 0 \<longrightarrow> ext - 1 \<le> int (map_count specs)" "0 \<le> ct_range_bits c"
      using ok by (auto simp: enum_ok_def enum_root_def ext_def split: if_splits)
    define idx where "idx = (if inext = 0 then v else n + (ext - 1))"
    define code where "code = (if inext = 0 then if v < 0 then RC_WMORE else if (if ext \<noteq> 0 then ext - 1 else int (map_count specs)) \<le> v then RC_FAIL else RC_OK
        else if ext = 0 then RC_FAIL else if n < 0 then RC_WMORE else if int (map_count specs) \<le> n + (ext - 1) then RC_FAIL else RC_OK)"
    define pd4 where "pd4 = (if inext = 0 then pd2 else if ext = 0 then pd1 else pd3)"
    have pd4: "pd_inv pd4" "pd_after pd pd4" using 1(2,3) 2(2,4) 3(2,4) pd_after_trans [OF 1(3)] by (simp_all add: pd4_def)
    have dec: "NativeEnumerated_decode_uper (\<lambda>_. True) td cs pd =
       (if inext < 0 then Some (RC_WMORE, None, pd1) else if code \<noteq> RC_OK then Some (code, None, pd4)
        else do { el \<leftarrow> (if idx < 0 then None else rd (value2enum specs) (nat idx)); Some (RC_OK, Some (nat_value el), pd4) })"
      using c 1(1) 2(1) 3(1) e(3) unfolding ext_def
      by (auto simp: NativeEnumerated_decode_uper_def Let_def code_def pd4_def idx_def ext_def)
    have "0 \<le> idx \<and> idx < int (map_count specs)" if "code = RC_OK"
      using that e by (auto simp: code_def idx_def split: if_splits)
    with el [of idx] 1(2) pd4 show ?thesis by (auto simp: counted_def dec)
  qed
qed

section \<open>Strings\<close>

text \<open>A length of either form.\<close>

lemma string_length_any:
  assumes "pd_inv pd" "eb \<le> 16" "0 \<le> eb \<longrightarrow> 0 \<le> lb \<and> lb \<le> 65536"
  shows "\<exists>v rep pd'. uper_get_length pd eb (word_of_int lb) = Some (v, rep, pd') \<and> pd_inv pd' \<and> pd_after pd pd' \<and> v \<le> 131072 \<and>
    (rep = 0 \<or> length (pd_bits pd') < length (pd_bits pd))"
proof (cases "0 \<le> eb")
  case True
  obtain v pd' where v: "asn_get_few_bits pd eb = Some (v, pd')" "pd_inv pd'" "v = -1 \<or> 0 \<le> v \<and> v < 2 ^ nat eb" "pd_after pd pd'"
    by (rule few_bits_any [OF assms(1), of eb]) (use assms(2) in auto)
  have "(2 :: int) ^ nat eb \<le> 2 ^ 16" by (rule power_increasing) (use assms(2) in auto)
  then have "v < 65536" using v(3) by auto
  then have "sint (of_int v + word_of_int lb :: u64) = v + lb" if "0 \<le> v"
    using that assms(3) True by (simp add: signed_of_int signed_take_bit_int_eq_self flip: of_int_add)
  with v True assms(2,3) \<open>v < 65536\<close> show ?thesis by (auto simp: uper_get_length_def)
next
  case False
  obtain v rep pd' where "uper_get_length pd (-1) 0 = Some (v, rep, pd')" "pd_inv pd'" "rep = 0 \<or> 200 < v" "pd_after pd pd'"
    "v < 0 \<or> length (pd_bits pd') < length (pd_bits pd)" "v \<le> 65536" by (rule get_length_any [OF assms(1)])
  moreover have "uper_get_length pd eb (word_of_int lb) = uper_get_length pd (-1) 0" using False by (simp add: uper_get_length_def)
  ultimately show ?thesis by auto
qed

text \<open>
  The loop over chunks. \<open>I\<close> is what the octets and the count of unused bits satisfy.
\<close>

lemma string_chunks_any:
  assumes len: "\<And>pd. pd_inv pd \<Longrightarrow> \<exists>v rep pd'. get_length pd = Some (v, rep, pd') \<and> pd_inv pd' \<and> pd_after pd pd' \<and> v \<le> 131072 \<and>
      (rep = 0 \<or> length (pd_bits pd') < length (pd_bits pd))"
    and units: "\<And>n pd. pd_inv pd \<Longrightarrow> n \<le> 131072 \<Longrightarrow> \<exists>r chunk pd'. get_units n pd = Some (r, chunk, pd') \<and> pd_inv pd' \<and>
      (r = 0 \<longrightarrow> length chunk = len_bytes n \<and> pd_after pd pd')"
    and inv: "\<And>octets chunk n u. I octets u \<Longrightarrow> length chunk = len_bytes n \<Longrightarrow> I (octets @ chunk) (set_unused n u)"
    and "pd_inv pd" "case cap of Some c \<Rightarrow> length octets < c | None \<Rightarrow> True" "I octets u"
  shows "\<exists>res pd'. string_chunks (\<lambda>_. True) get_length get_units len_bytes set_unused cap octets u pd = Some (res, pd') \<and> pd_inv pd' \<and>
    res \<noteq> Inl RC_OK \<and> (\<forall>octets' u'. res = Inr (octets', u') \<longrightarrow> pd_after pd pd' \<and> I octets' u')"
  using assms(4-6)
proof (induction "length (pd_bits pd)" arbitrary: pd cap octets u rule: less_induct)
  case less
  from len [OF less.prems(1)] obtain v rep pd1 where
    1: "get_length pd = Some (v, rep, pd1)" "pd_inv pd1" "pd_after pd pd1" "v \<le> 131072" "rep = 0 \<or> length (pd_bits pd1) < length (pd_bits pd)"
    by blast
  consider "v < 0" | "v = 0" "cap \<noteq> None" | "0 \<le> v" "\<not> (v = 0 \<and> cap \<noteq> None)" by linarith
  then show ?case
  proof cases
    case 3
    have "nat v \<le> 131072" using 1(4) by simp
    from units [OF 1(2) this] obtain r chunk pd2 where
      2: "get_units (nat v) pd1 = Some (r, chunk, pd2)" "pd_inv pd2" "r = 0 \<longrightarrow> length chunk = len_bytes (nat v) \<and> pd_after pd1 pd2" by blast
    define u1 where "u1 = set_unused (nat v) u"
    define cap1 where "cap1 = length octets + len_bytes (nat v) + 1"
    have step: "string_chunks (\<lambda>_. True) get_length get_units len_bytes set_unused cap octets u pd =
        (if 0 < r then Some (Inl RC_FAIL, pd2) else if r < 0 then Some (Inl RC_WMORE, pd2)
         else if length chunk \<noteq> len_bytes (nat v) then None
         else if rep \<noteq> 0 then string_chunks (\<lambda>_. True) get_length get_units len_bytes set_unused (Some cap1) (octets @ chunk) u1 pd2
         else Some (Inr (octets @ chunk, u1), pd2))"
    proof -
      have "\<not> v < 0" "\<not> (v = 0 \<and> cap \<noteq> None)" using 3 by auto
      then show ?thesis
        by (subst string_chunks.simps) (simp only: 1(1) 2(1) option.case prod.case if_False Let_def u1_def cap1_def not_True_eq_False)
    qed
    show ?thesis
    proof (cases "r = 0")
      case False
      then have "0 < r \<or> r < 0" by linarith
      with 2(2) show ?thesis unfolding step by auto
    next
      case True
      then have c: "length chunk = len_bytes (nat v)" "pd_after pd1 pd2" using 2(3) by simp_all
      note after = pd_after_trans [OF 1(3) c(2)]
      have I: "I (octets @ chunk) u1" unfolding u1_def by (rule inv [OF less.prems(3) c(1)])
      show ?thesis
      proof (cases "rep = 0")
        case True
        with \<open>r = 0\<close> c after I 2(2) show ?thesis unfolding step by simp
      next
        case False
        with 1(5) pd_afterD(2) [OF c(2)] have lt: "length (pd_bits pd2) < length (pd_bits pd)" by simp
        have "case Some cap1 of Some c \<Rightarrow> length (octets @ chunk) < c | None \<Rightarrow> True" using c(1) by (simp add: cap1_def)
        from less.hyps [OF lt 2(2) this I] False \<open>r = 0\<close> c pd_after_trans [OF after] show ?thesis unfolding step by auto
      qed
    qed
  qed (use 1 less.prems in \<open>subst string_chunks.simps, auto\<close>)+
qed


text \<open>Characters.\<close>

lemma length_char_octets: "bpc \<in> {1, 2, 4} \<Longrightarrow> length (char_octets bpc v) = bpc"
  by (auto simp: char_octets_def)

lemma get_mapped_any:
  assumes "pd_inv pd" "bpc \<in> {1, 2, 4}" "unit_bits \<le> 16"
  shows "\<exists>r chunk pd'. get_mapped_characters g bpc unit_bits n pd = Some (r, chunk, pd') \<and> pd_inv pd' \<and>
    (r = 0 \<longrightarrow> length chunk = n * bpc \<and> pd_after pd pd' \<and> length (pd_bits pd) = n * unit_bits + length (pd_bits pd'))"
  using assms(1)
proof (induction n arbitrary: pd)
  case 0
  then show ?case by (simp add: pd_after_refl)
next
  case (Suc n)
  obtain v pd1 where v: "asn_get_few_bits pd (int unit_bits) = Some (v, pd1)" "pd_inv pd1" "pd_after pd pd1"
    "v = -1 \<or> length (pd_bits pd) = nat (int unit_bits) + length (pd_bits pd1)"
    by (rule few_bits_any [OF Suc.prems, of "int unit_bits"]) (use assms(3) in auto)
  show ?case
  proof (cases "v < 0 \<or> g (nat v) < 0")
    case True
    with v show ?thesis by auto
  next
    case False
    from Suc.IH [OF v(2)] obtain r chunk pd2 where
      2: "get_mapped_characters g bpc unit_bits n pd1 = Some (r, chunk, pd2)" "pd_inv pd2"
      "r = 0 \<longrightarrow> length chunk = n * bpc \<and> pd_after pd1 pd2 \<and> length (pd_bits pd1) = n * unit_bits + length (pd_bits pd2)" by blast
    have "get_mapped_characters g bpc unit_bits (Suc n) pd = Some (r, char_octets bpc (g (nat v)) @ chunk, pd2)" using v(1) 2(1) False by simp
    moreover have "v \<noteq> -1" using False by auto
    ultimately show ?thesis using 2(2,3) v(4) pd_after_trans [OF v(3)] length_char_octets [OF assms(2)] by auto
  qed
qed

lemma get_plain_any:
  assumes "pd_inv pd" "bpc \<in> {1, 2, 4}" "unit_bits \<le> 31" "0 \<le> lb" "lb < 2 ^ 31"
  shows "\<exists>r chunk pd'. get_plain_characters lb ub bpc unit_bits n pd = Some (r, chunk, pd') \<and> pd_inv pd' \<and>
    (r = 0 \<longrightarrow> length chunk = n * bpc \<and> pd_after pd pd' \<and> length (pd_bits pd) = n * unit_bits + length (pd_bits pd'))"
  using assms(1)
proof (induction n arbitrary: pd)
  case 0
  then show ?case by (simp add: pd_after_refl)
next
  case (Suc n)
  obtain v pd1 where v: "asn_get_few_bits pd (int unit_bits) = Some (v, pd1)" "pd_inv pd1" "pd_after pd pd1"
    "v = -1 \<or> length (pd_bits pd) = nat (int unit_bits) + length (pd_bits pd1)" "v = -1 \<or> 0 \<le> v \<and> v < 2 ^ nat (int unit_bits)"
    by (rule few_bits_any [OF Suc.prems, of "int unit_bits"]) (use assms(3) in auto)
  have "(2 :: int) ^ unit_bits \<le> 2 ^ 31" by (rule power_increasing) (use assms(3) in auto)
  then have s: "s64 (v + lb) = Some (v + lb)" using v(5) assms(4,5) by (intro s64_small) auto
  define ch where "ch = to_int32 (v + lb)"
  show ?case
  proof (cases "v < 0 \<or> ub < ch")
    case True
    with v s show ?thesis by (auto simp: ch_def)
  next
    case False
    from Suc.IH [OF v(2)] obtain r chunk pd2 where
      2: "get_plain_characters lb ub bpc unit_bits n pd1 = Some (r, chunk, pd2)" "pd_inv pd2"
      "r = 0 \<longrightarrow> length chunk = n * bpc \<and> pd_after pd1 pd2 \<and> length (pd_bits pd1) = n * unit_bits + length (pd_bits pd2)" by blast
    have "get_plain_characters lb ub bpc unit_bits (Suc n) pd = Some (r, char_octets bpc ch @ chunk, pd2)"
      using v(1) 2(1) False s by (simp add: ch_def)
    moreover have "v \<noteq> -1" using False by auto
    ultimately show ?thesis using 2(2,3) v(4) pd_after_trans [OF v(3)] length_char_octets [OF assms(2)] by auto
  qed
qed

lemma get_characters_any:
  assumes c: "chars_ok pc bpc unit_bits lb ub" "unit_bits \<le> 31 \<or> unit_bits = 8 * bpc" and n: "n \<le> 131072" and pd: "pd_inv pd"
  shows "\<exists>r chunk pd'. OCTET_STRING_per_get_characters pd n bpc unit_bits lb ub pc = Some (r, chunk, pd') \<and> pd_inv pd' \<and>
    (r = 0 \<longrightarrow> length chunk = n * bpc \<and> pd_after pd pd' \<and> length (pd_bits pd) = n * unit_bits + length (pd_bits pd'))"
proof -
  have b: "bpc \<in> {1, 2, 4}" "0 \<le> lb" "lb < 2 ^ 31" "unit_bits \<le> 32" "ub < 2 ^ 31" using c(1) by (simp_all add: chars_ok_def)
  note a = per_as_is_ok [OF c(1)]
  from c(1) show ?thesis
  proof (cases rule: char_code_cases)
    case (mapped f g)
    have "OCTET_STRING_per_get_characters pd n bpc unit_bits lb ub pc = get_mapped_characters g bpc unit_bits n pd"
      using mapped(4) by (simp only: OCTET_STRING_per_get_characters_def a bind.bind_lunit Let_def mapped(1,3) if_False option.case) simp
    with get_mapped_any [OF pd b(1) mapped(4), of g n] show ?thesis by simp
  next
    case raw
    have "n * unit_bits \<le> 131072 * 32" using n b(4) by (intro mult_le_mono)
    then have "s32 (int (unit_bits * n)) = Some (int (n * unit_bits))" by (intro s32_size) simp
    then have get: "OCTET_STRING_per_get_characters pd n bpc unit_bits lb ub pc = asn_get_many_bits pd False (int (n * unit_bits))"
      by (simp only: OCTET_STRING_per_get_characters_def a bind.bind_lunit Let_def raw(1,4) option.case if_P [OF conjI [OF refl raw(2)]])
    obtain r octets pd' where "asn_get_many_bits pd False (int (n * unit_bits)) = Some (r, octets, pd')" "pd_inv pd'"
      "r = 0 \<longrightarrow> nat (int (n * unit_bits)) \<le> 8 * length octets \<and> pd_after pd pd'"
      "r = 0 \<longrightarrow> length octets = (nat (int (n * unit_bits)) + 7) div 8 \<and> length (pd_bits pd) = nat (int (n * unit_bits)) + length (pd_bits pd')"
      by (rule many_bits_any [OF pd of_nat_0_le_iff])
    moreover have "(n * unit_bits + 7) div 8 = n * bpc" using raw(2) by simp
    ultimately show ?thesis unfolding get nat_int by auto
  next
    case (plain first)
    have u: "unit_bits \<le> 31"
    proof (rule ccontr)
      assume "\<not> unit_bits \<le> 31"
      with c(2) b(4) have e: "unit_bits = 8 * bpc" "unit_bits = 32" by auto
      with plain(2) have "first \<noteq> 0" by simp
      with plain(1) have "\<not> ub \<le> 2 ^ unit_bits" by auto
      with e(2) b(5) show False by simp
    qed
    have f: "int first < 2 ^ 31" using plain(1) b(3) by (cases "ub \<le> 2 ^ unit_bits") simp_all
    have "\<not> (int first = 0 \<and> unit_bits = 8 * bpc)" using plain(2) by simp
    then have "OCTET_STRING_per_get_characters pd n bpc unit_bits lb ub pc = get_plain_characters (int first) ub bpc unit_bits n pd"
      by (simp only: OCTET_STRING_per_get_characters_def a bind.bind_lunit Let_def plain(1,4) option.case if_False)
    with get_plain_any [OF pd b(1) u _ f, of ub n] show ?thesis by simp
  qed
qed


text \<open>
  Sound tables: what PER needs of a size constraint, and of the alphabet in the bits of a character within and
  outside the root.
\<close>

definition string_size_ok :: "asn_per_constraint \<Rightarrow> bool" where
  "string_size_ok c \<longleftrightarrow> ct_effective_bits c \<le> 16 \<and>
     (0 \<le> ct_effective_bits c \<longrightarrow> 0 \<le> ct_lower_bound c \<and> ct_lower_bound c \<le> 65536 \<and> 0 \<le> ct_upper_bound c \<and> ct_upper_bound c \<le> 65536)"

definition octets_type_ok :: "os_subvariant \<Rightarrow> asn_per_constraints option \<Rightarrow> asn_per_constraints option \<Rightarrow> bool" where
  "octets_type_ok sub tdc cs \<longleftrightarrow>
     (let pc = os_constraints tdc cs; c = (case pc of Some c \<Rightarrow> c | None \<Rightarrow> asn_DEF_OCTET_STRING_constraints) in
      string_size_ok (pc_size c) \<and>
      (case os_unit sub of
         None \<Rightarrow> True
       | Some (canonical, bpc) \<Rightarrow>
           list_all (\<lambda>b. chars_ok pc bpc b (ct_lower_bound (pc_value c)) (ct_upper_bound (pc_value c)) \<and> (b \<le> 31 \<or> b = 8 * bpc))
             [canonical, os_unit_bits canonical (pc_value c)]))"

text \<open>The octets of whole characters, and the zero behind them.\<close>

definition octets_ok :: "os_subvariant \<Rightarrow> OCTET_STRING \<Rightarrow> bool" where
  "octets_ok sub st \<longleftrightarrow>
     (case (os_buf st, os_unit sub) of
        (Some buf, Some (_, bpc)) \<Rightarrow> length buf = os_size st + 1 \<and> last buf = 0 \<and> bpc dvd os_size st
      | _ \<Rightarrow> False)"

lemma octets_okI: "os_unit sub = Some (canonical, bpc) \<Longrightarrow> bpc dvd length octets \<Longrightarrow>
    octets_ok sub \<lparr>os_buf = Some (octets @ [0]), os_size = length octets\<rparr>"
  by (simp add: octets_ok_def)

lemma robust_octet_string:
  assumes "octets_type_ok sub tdc cs"
  shows "robust (OCTET_STRING_decode_uper (\<lambda>_. True) sz sub tdc cs) (octets_ok sub)"
proof (cases "os_unit sub")
  case None
  show ?thesis by (rule uncountedI) (simp add: OCTET_STRING_decode_uper_def None Let_def pd_fit_inv)
next
  case (Some u)
  obtain canonical bpc where u: "os_unit sub = Some (canonical, bpc)" using Some by (cases u) simp
  define pc where "pc = os_constraints tdc cs"
  define cons where "cons = (case pc of Some c \<Rightarrow> c | None \<Rightarrow> asn_DEF_OCTET_STRING_constraints)"
  define cval csiz where "cval = pc_value cons" and "csiz = pc_size cons"
  define root where "root = os_unit_bits canonical cval"
  define get where "get = (\<lambda>unit_bits n pd. OCTET_STRING_per_get_characters pd n bpc unit_bits (ct_lower_bound cval) (ct_upper_bound cval) pc)"
  have size: "string_size_ok csiz"
    and char: "chars_ok pc bpc b (ct_lower_bound cval) (ct_upper_bound cval)" "b \<le> 31 \<or> b = 8 * bpc" if "b \<in> {canonical, root}" for b
    using assms that by (auto simp: octets_type_ok_def u Let_def pc_def cons_def cval_def csiz_def root_def)
  have bpc: "bpc \<in> {1, 2, 4}" using char(1) [of root] by (simp add: chars_ok_def)
  have get: "\<exists>r chunk pd'. get b n pd = Some (r, chunk, pd') \<and> pd_inv pd' \<and>
      (r = 0 \<longrightarrow> length chunk = n * bpc \<and> pd_after pd pd' \<and> length (pd_bits pd) = n * b + length (pd_bits pd'))"
    if "b \<in> {canonical, root}" "n \<le> 131072" "pd_inv pd" for b n pd
    unfolding get_def by (rule get_characters_any [OF char [OF that(1)] that(2,3)])
  define body where "body = (\<lambda>(csiz :: asn_per_constraint) unit_bits pd. do {
              (sz, cap) \<leftarrow>
                (if 0 \<le> ct_effective_bits csiz then do {
                   sz \<leftarrow> s64 (ct_upper_bound csiz * int bpc);
                   Some (unat (word_of_int sz :: u64), Some (unat (word_of_int (sz + 1) :: u64))) }
                 else Some (0, None));
              if (case cap of Some n \<Rightarrow> \<not> True | None \<Rightarrow> False) then Some (RC_FAIL, None, pd)
              else if ct_effective_bits csiz = 0 then do {
                (r, octets, pd) \<leftarrow> get unit_bits (unat (word_of_int (ct_upper_bound csiz) :: u64)) pd;
                if 0 < r then Some (RC_FAIL, None, pd)
                else if r < 0 then Some (RC_WMORE, None, pd)
                else if length octets \<noteq> sz \<or> the cap \<le> sz then None
                else Some (RC_OK, Some (\<lparr>os_buf = Some (octets @ [0]), os_size = sz\<rparr>, nat (int unit_bits * ct_upper_bound csiz)), pd) }
              else do {
                (res, pd) \<leftarrow> string_chunks (\<lambda>_. True)
                   (\<lambda>pd. uper_get_length pd (ct_effective_bits csiz) (word_of_int (ct_lower_bound csiz)))
                   (get unit_bits) (\<lambda>n. n * bpc) (\<lambda>n unused. unused) cap [] 0 pd;
                case res of
                  Inl code \<Rightarrow> Some (code, None, pd)
                | Inr (octets, unused) \<Rightarrow>
                    Some (RC_OK, Some (\<lparr>os_buf = Some (octets @ [0]), os_size = length octets\<rparr>, 0), pd) } })"
  have dec: "OCTET_STRING_decode_uper (\<lambda>_. True) sz sub tdc cs pd = do {
      (inext, pd) \<leftarrow> (if ct_has csiz APC_EXTENSIBLE then asn_get_few_bits pd 1 else Some (0, pd));
      if inext < 0 then Some (RC_WMORE, None, pd)
      else body (if inext \<noteq> 0 then pc_size asn_DEF_OCTET_STRING_constraints else csiz)
        (if inext \<noteq> 0 then canonical else root) pd }" for pd
    by (simp only: OCTET_STRING_decode_uper_def Let_def u pc_def [symmetric] cons_def [symmetric] option.case prod.case not_True_eq_False if_False
        cval_def [symmetric] csiz_def [symmetric] get_def root_def body_def)
  have body: "\<exists>code r pd'. body cz b pd = Some (code, r, pd') \<and> pd_inv pd' \<and>
      (code = RC_OK \<longrightarrow> pd_after pd pd' \<and> (\<exists>w n. r = Some (w, n) \<and> (n = 0 \<or> length (pd_bits pd') < length (pd_bits pd)) \<and> octets_ok sub w))"
    if b: "b \<in> {canonical, root}" and cz: "string_size_ok cz" and pd: "pd_inv pd" for cz b pd
  proof -
    define z where "z = nat (ct_upper_bound cz) * bpc"
    obtain cap where cap: "(if 0 \<le> ct_effective_bits cz then do {
                   sz \<leftarrow> s64 (ct_upper_bound cz * int bpc);
                   Some (unat (word_of_int sz :: u64), Some (unat (word_of_int (sz + 1) :: u64))) }
                 else Some (0, None)) = Some (if 0 \<le> ct_effective_bits cz then z else 0, cap)" "0 \<le> ct_effective_bits cz \<longrightarrow> cap = Some (z + 1)"
      "case cap of Some c \<Rightarrow> length ([] :: u8 list) < c | None \<Rightarrow> True"
    proof (cases "0 \<le> ct_effective_bits cz")
      case True
      then have ub: "0 \<le> ct_upper_bound cz" "ct_upper_bound cz \<le> 65536" using cz by (auto simp: string_size_ok_def)
      define y where "y = ct_upper_bound cz * int bpc"
      have y: "0 \<le> y" "y \<le> 65536 * 4"
        unfolding y_def using ub bpc by (intro mult_nonneg_nonneg mult_mono; auto)+
      have "nat y = z" using ub(1) by (simp add: y_def z_def nat_mult_distrib)
      with y True show thesis
        by (intro that [of "Some (z + 1)"]) (simp_all add: y_def [symmetric] s64_small unat_u64 nat_add_distrib del: of_int_add)
    qed (use that in simp)
    show ?thesis
    proof (cases "ct_effective_bits cz = 0")
      case True
      then have ub: "0 \<le> ct_upper_bound cz" "ct_upper_bound cz \<le> 65536" using cz by (auto simp: string_size_ok_def)
      define n where "n = nat (ct_upper_bound cz)"
      have n: "unat (word_of_int (ct_upper_bound cz) :: u64) = n" "n \<le> 131072" "ct_upper_bound cz = int n" using ub by (simp_all add: n_def unat_u64)
      from get [OF b n(2) pd] obtain r octets pd' where
        g: "get b n pd = Some (r, octets, pd')" "pd_inv pd'"
          "r = 0 \<longrightarrow> length octets = n * bpc \<and> pd_after pd pd' \<and> length (pd_bits pd) = n * b + length (pd_bits pd')" by blast
      have e: "body cz b pd = (if 0 < r then Some (RC_FAIL, None, pd') else if r < 0 then Some (RC_WMORE, None, pd')
          else if length octets \<noteq> z \<or> z + 1 \<le> z then None
          else Some (RC_OK, Some (\<lparr>os_buf = Some (octets @ [0]), os_size = z\<rparr>, nat (int b * ct_upper_bound cz)), pd'))"
        unfolding body_def cap(1) bind.bind_lunit split_conv using True cap(2) by (simp add: n(1) g(1))
      show ?thesis
      proof (cases "r = 0")
        case False
        then have "0 < r \<or> r < 0" by linarith
        with g(2) show ?thesis unfolding e by auto
      next
        case r: True
        have z: "z = n * bpc" by (simp add: z_def n_def)
        have "octets_ok sub \<lparr>os_buf = Some (octets @ [0]), os_size = z\<rparr>" using g(3) r z by (simp add: octets_ok_def u)
        moreover have "nat (int b * ct_upper_bound cz) = 0 \<or> length (pd_bits pd') < length (pd_bits pd)"
          using g(3) r by (cases "n = 0"; cases "b = 0") (auto simp: n(3))
        ultimately show ?thesis unfolding e using r g z by simp
      qed
    next
      case False
      define gl where "gl = (\<lambda>pd. uper_get_length pd (ct_effective_bits cz) (word_of_int (ct_lower_bound cz)))"
      have "\<exists>res pd'. string_chunks (\<lambda>_. True) gl (get b) (\<lambda>n. n * bpc) (\<lambda>n unused. unused) cap [] 0 pd = Some (res, pd') \<and> pd_inv pd' \<and>
          res \<noteq> Inl RC_OK \<and> (\<forall>octets' u'. res = Inr (octets', u') \<longrightarrow> pd_after pd pd' \<and> bpc dvd length octets')"
      proof (rule string_chunks_any [OF _ _ _ pd cap(3)])
        show "\<exists>v rep pd'. gl pd = Some (v, rep, pd') \<and> pd_inv pd' \<and> pd_after pd pd' \<and> v \<le> 131072 \<and>
            (rep = 0 \<or> length (pd_bits pd') < length (pd_bits pd))" if "pd_inv pd" for pd
          unfolding gl_def by (rule string_length_any [OF that]) (use cz in \<open>auto simp: string_size_ok_def\<close>)
        show "\<exists>r chunk pd'. get b n pd = Some (r, chunk, pd') \<and> pd_inv pd' \<and> (r = 0 \<longrightarrow> length chunk = n * bpc \<and> pd_after pd pd')"
          if "pd_inv pd" "n \<le> 131072" for n pd using get [OF b that(2,1)] by blast
      qed simp_all
      then obtain res pd' where "string_chunks (\<lambda>_. True) gl (get b) (\<lambda>n. n * bpc) (\<lambda>n unused. unused) cap [] 0 pd = Some (res, pd')" "pd_inv pd'"
          "res \<noteq> Inl RC_OK" "\<forall>octets' u'. res = Inr (octets', u') \<longrightarrow> pd_after pd pd' \<and> bpc dvd length octets'" by blast
      with False show ?thesis
        unfolding body_def cap(1) bind.bind_lunit split_conv gl_def [symmetric]
        by (cases res) (auto intro: octets_okI [OF u] split: option.splits)
    qed
  qed
  show ?thesis
  proof (rule robustI)
    fix pd assume "pd_fit pd"
    then have pd: "pd_inv pd" by (rule pd_fit_inv)
    obtain v pd1 where 1: "(if ct_has csiz APC_EXTENSIBLE then asn_get_few_bits pd 1 else Some (0, pd)) = Some (v, pd1)" "pd_inv pd1" "pd_after pd pd1"
      by (rule ext_bit_any [OF pd])
    define cz b where "cz = (if v \<noteq> 0 then pc_size asn_DEF_OCTET_STRING_constraints else csiz)" and "b = (if v \<noteq> 0 then canonical else root)"
    have "b \<in> {canonical, root}" "string_size_ok cz"
      using size by (auto simp: b_def cz_def string_size_ok_def asn_DEF_OCTET_STRING_constraints_def)
    from body [OF this 1(2)] obtain code r pd2 where
      2: "body cz b pd1 = Some (code, r, pd2)" "pd_inv pd2"
        "code = RC_OK \<longrightarrow> pd_after pd1 pd2 \<and> (\<exists>w n. r = Some (w, n) \<and> (n = 0 \<or> length (pd_bits pd2) < length (pd_bits pd1)) \<and> octets_ok sub w)" by blast
    have "OCTET_STRING_decode_uper (\<lambda>_. True) sz sub tdc cs pd = (if v < 0 then Some (RC_WMORE, None, pd1) else Some (code, r, pd2))"
      by (simp only: dec 1(1) bind.bind_lunit split_conv cz_def [symmetric] b_def [symmetric] 2(1))
    moreover have "length (pd_bits pd1) \<le> length (pd_bits pd)" by (rule pd_afterD(2) [OF 1(3)])
    ultimately show "\<exists>code r pd'. OCTET_STRING_decode_uper (\<lambda>_. True) sz sub tdc cs pd = Some (code, r, pd') \<and> pd_inv pd' \<and>
        (code = RC_OK \<longrightarrow> pd_after pd pd' \<and>
           (\<exists>w n. r = Some (w, n) \<and> (n = 0 \<or> length (pd_bits pd') < length (pd_bits pd)) \<and> octets_ok sub w))"
      using 1(2) 2(2,3) pd_after_trans [OF 1(3)] by fastforce
  qed
qed


text \<open>The same for bit strings: whole octets but for the unused bits of the last one.\<close>

definition bits_type_ok :: "asn_per_constraints option \<Rightarrow> asn_per_constraints option \<Rightarrow> bool" where
  "bits_type_ok tdc cs \<longleftrightarrow>
     string_size_ok (case os_constraints tdc cs of Some pc \<Rightarrow> pc_size pc | None \<Rightarrow> asn_DEF_BIT_STRING_constraint_size)"

definition bits_ok :: "BIT_STRING \<Rightarrow> bool" where
  "bits_ok st \<longleftrightarrow>
     (case bs_buf st of
        Some buf \<Rightarrow> length buf = bs_size st + 1 \<and> last buf = 0 \<and> 0 \<le> bs_unused st \<and> bs_unused st \<le> 7 \<and> (bs_size st = 0 \<longrightarrow> bs_unused st = 0)
      | None \<Rightarrow> False)"

lemma get_bits_any:
  assumes "pd_inv pd" "n \<le> 131072"
  shows "\<exists>r chunk pd'. (do { n \<leftarrow> s32 (int n); asn_get_many_bits pd False n }) = Some (r, chunk, pd') \<and> pd_inv pd' \<and>
    (r = 0 \<longrightarrow> length chunk = drop_bit 3 (n + 7) \<and> pd_after pd pd' \<and> length (pd_bits pd) = n + length (pd_bits pd')) \<and> (r = 0 \<or> r = -1)"
proof -
  have s: "s32 (int n) = Some (int n)" using assms(2) by (intro s32_nonneg) simp_all
  obtain r octets pd' where "asn_get_many_bits pd False (int n) = Some (r, octets, pd')" "pd_inv pd'"
    "r = 0 \<longrightarrow> nat (int n) \<le> 8 * length octets \<and> pd_after pd pd'"
    "r = 0 \<longrightarrow> length octets = (nat (int n) + 7) div 8 \<and> length (pd_bits pd) = nat (int n) + length (pd_bits pd')" "r = 0 \<or> r = -1"
    by (rule many_bits_any [OF assms(1) of_nat_0_le_iff])
  then show ?thesis by (simp add: s drop_bit_eq_div)
qed

lemma and_7: "(n :: nat) AND 7 = n mod 8"
  using take_bit_eq_mask [of 3 n] by (simp add: mask_eq_exp_minus_1 take_bit_eq_mod)

lemma robust_bit_string:
  assumes "bits_type_ok tdc cs"
  shows "robust (BIT_STRING_decode_uper (\<lambda>_. True) sz ASN_OSUBV_BIT tdc cs) bits_ok"
proof -
  define csiz where "csiz = (case os_constraints tdc cs of Some pc \<Rightarrow> pc_size pc | None \<Rightarrow> asn_DEF_BIT_STRING_constraint_size)"
  have size: "string_size_ok csiz" using assms by (simp add: bits_type_ok_def csiz_def)
  define body where "body = (\<lambda>(csiz :: asn_per_constraint) pd. do {
          (sz, cap) \<leftarrow>
            (if 0 \<le> ct_effective_bits csiz then do {
               sum \<leftarrow> s64 (ct_upper_bound csiz + 7);
               let sz = drop_bit 3 sum;
               Some (unat (word_of_int sz :: u64), Some (unat (word_of_int (sz + 1) :: u64))) }
             else Some (0, None));
          if (case cap of Some n \<Rightarrow> \<not> True | None \<Rightarrow> False) then Some (RC_FAIL, None, pd)
          else if ct_effective_bits csiz = 0 then do {
            n \<leftarrow> s32 (ct_upper_bound csiz);
            (r, octets, pd) \<leftarrow> asn_get_many_bits pd False n;
            if r < 0 then Some (RC_WMORE, None, pd)
            else if length octets \<noteq> sz \<or> the cap \<le> sz then None
            else Some (RC_OK, Some (\<lparr>bs_buf = Some (octets @ [0]), bs_size = sz,
                bs_unused = (8 - (ct_upper_bound csiz AND 7)) AND 7\<rparr>, nat (ct_upper_bound csiz)), pd) }
          else do {
            (res, pd) \<leftarrow> string_chunks (\<lambda>_. True)
               (\<lambda>pd. uper_get_length pd (ct_effective_bits csiz) (word_of_int (ct_lower_bound csiz)))
               (\<lambda>n pd. do { n \<leftarrow> s32 (int n); asn_get_many_bits pd False n })
               (\<lambda>n. drop_bit 3 (n + 7)) (\<lambda>n unused. if n AND 7 \<noteq> 0 then 8 - (n AND 7) else unused) cap [] 0 pd;
            case res of
              Inl code \<Rightarrow> Some (code, None, pd)
            | Inr (octets, unused) \<Rightarrow>
                Some (RC_OK, Some (\<lparr>bs_buf = Some (octets @ [0]), bs_size = length octets, bs_unused = int unused\<rparr>, 0), pd) } })"
  have dec: "BIT_STRING_decode_uper (\<lambda>_. True) sz ASN_OSUBV_BIT tdc cs pd = do {
      (inext, pd) \<leftarrow> (if ct_has csiz APC_EXTENSIBLE then asn_get_few_bits pd 1 else Some (0, pd));
      if inext < 0 then Some (RC_WMORE, None, pd)
      else body (if inext \<noteq> 0 then asn_DEF_BIT_STRING_constraint_size else csiz) pd }" for pd
    by (simp only: BIT_STRING_decode_uper_def Let_def csiz_def [symmetric] body_def simp_thms not_True_eq_False if_False)
  have body: "\<exists>code r pd'. body cz pd = Some (code, r, pd') \<and> pd_inv pd' \<and>
      (code = RC_OK \<longrightarrow> pd_after pd pd' \<and> (\<exists>w n. r = Some (w, n) \<and> (n = 0 \<or> length (pd_bits pd') < length (pd_bits pd)) \<and> bits_ok w))"
    if cz: "string_size_ok cz" and pd: "pd_inv pd" for cz pd
  proof -
    define n where "n = nat (ct_upper_bound cz)"
    define z where "z = drop_bit 3 (n + 7)"
    have ub: "ct_upper_bound cz = int n" "n \<le> 65536" if "0 \<le> ct_effective_bits cz" using cz that by (auto simp: string_size_ok_def n_def)
    obtain cap where cap: "(if 0 \<le> ct_effective_bits cz then do {
               sum \<leftarrow> s64 (ct_upper_bound cz + 7);
               let sz = drop_bit 3 sum;
               Some (unat (word_of_int sz :: u64), Some (unat (word_of_int (sz + 1) :: u64))) }
             else Some (0, None)) = Some (if 0 \<le> ct_effective_bits cz then z else 0, cap)" "0 \<le> ct_effective_bits cz \<longrightarrow> cap = Some (z + 1)"
      "case cap of Some c \<Rightarrow> length ([] :: u8 list) < c | None \<Rightarrow> True"
    proof (cases "0 \<le> ct_effective_bits cz")
      case True
      have "drop_bit 3 (int n + 7) = int z" by (simp add: z_def drop_bit_eq_div zdiv_int)
      moreover have "s64 (int n + 7) = Some (int n + 7)" using ub(2) [OF True] by (intro s64_small) simp_all
      moreover have "z \<le> 65536" using ub(2) [OF True] by (simp add: z_def drop_bit_eq_div)
      ultimately show thesis using True ub(1) [OF True]
        by (intro that [of "Some (z + 1)"]) (simp_all add: unat_u64 nat_add_distrib unsigned_of_nat take_bit_nat_eq_self del: of_int_add)
    qed (use that in simp)
    show ?thesis
    proof (cases "ct_effective_bits cz = 0")
      case True
      then have u: "ct_upper_bound cz = int n" "n \<le> 131072" using ub by simp_all
      from get_bits_any [OF pd u(2)] obtain r octets pd' where
        g: "(do { n \<leftarrow> s32 (int n); asn_get_many_bits pd False n }) = Some (r, octets, pd')" "pd_inv pd'"
          "r = 0 \<longrightarrow> length octets = z \<and> pd_after pd pd' \<and> length (pd_bits pd) = n + length (pd_bits pd')" "r = 0 \<or> r = -1"
        unfolding z_def by blast
      have s: "s32 (int n) = Some (int n)" using u(2) by (intro s32_nonneg) simp_all
      have e: "body cz pd = (if r < 0 then Some (RC_WMORE, None, pd')
          else if length octets \<noteq> z \<or> z + 1 \<le> z then None
          else Some (RC_OK, Some (\<lparr>bs_buf = Some (octets @ [0]), bs_size = z, bs_unused = (8 - (int n AND 7)) AND 7\<rparr>, n), pd'))"
        unfolding body_def cap(1) bind.bind_lunit split_conv using True cap(2) g(1) by (simp add: u(1) s)
      show ?thesis
      proof (cases "r = 0")
        case False
        with g(2,4) show ?thesis unfolding e by auto
      next
        case r: True
        have 7: "int k AND 7 = int (k mod 8)" for k
          using take_bit_eq_mask [of 3 "int k"] by (simp add: mask_eq_exp_minus_1 take_bit_eq_mod zmod_int)
        have "(8 - (int n AND 7)) AND 7 = int ((8 - n mod 8) mod 8)"
          using 7 [of "8 - n mod 8"] by (simp add: 7 of_nat_diff)
        moreover have "n = 0" if "z = 0" using that by (simp add: z_def drop_bit_eq_div)
        ultimately have "bits_ok \<lparr>bs_buf = Some (octets @ [0]), bs_size = z, bs_unused = (8 - (int n AND 7)) AND 7\<rparr>"
          using g(3) r by (simp add: bits_ok_def)
        then show ?thesis unfolding e using r g by auto
      qed
    next
      case False
      define gl where "gl = (\<lambda>pd. uper_get_length pd (ct_effective_bits cz) (word_of_int (ct_lower_bound cz)))"
      define get where "get = (\<lambda>n pd. do { n \<leftarrow> s32 (int n); asn_get_many_bits pd False n })"
      define set_unused where "set_unused = (\<lambda>(n :: nat) unused :: nat. if n AND 7 \<noteq> 0 then 8 - (n AND 7) else unused)"
      define I where "I = (\<lambda>(octets :: u8 list) (u :: nat). u \<le> 7 \<and> (octets = [] \<longrightarrow> u = 0))"
      have "\<exists>res pd'. string_chunks (\<lambda>_. True) gl get (\<lambda>n. drop_bit 3 (n + 7)) set_unused cap [] 0 pd = Some (res, pd') \<and> pd_inv pd' \<and>
          res \<noteq> Inl RC_OK \<and> (\<forall>octets' u'. res = Inr (octets', u') \<longrightarrow> pd_after pd pd' \<and> I octets' u')"
      proof (rule string_chunks_any [OF _ _ _ pd cap(3)])
        show "\<exists>v rep pd'. gl pd = Some (v, rep, pd') \<and> pd_inv pd' \<and> pd_after pd pd' \<and> v \<le> 131072 \<and>
            (rep = 0 \<or> length (pd_bits pd') < length (pd_bits pd))" if "pd_inv pd" for pd
          unfolding gl_def by (rule string_length_any [OF that]) (use cz in \<open>auto simp: string_size_ok_def\<close>)
        show "\<exists>r chunk pd'. get n pd = Some (r, chunk, pd') \<and> pd_inv pd' \<and> (r = 0 \<longrightarrow> length chunk = drop_bit 3 (n + 7) \<and> pd_after pd pd')"
          if "pd_inv pd" "n \<le> 131072" for n pd using get_bits_any [OF that] unfolding get_def by blast
        show "I (octets @ chunk) (set_unused n u)" if "I octets u" "length chunk = drop_bit 3 (n + 7)" for octets chunk n u
        proof -
          have "chunk \<noteq> []" if "n mod 8 \<noteq> 0" using \<open>length chunk = _\<close> that by (auto simp: drop_bit_eq_div)
          with that(1) show ?thesis by (auto simp: I_def set_unused_def and_7)
        qed
      qed (simp add: I_def)
      then obtain res pd' where "string_chunks (\<lambda>_. True) gl get (\<lambda>n. drop_bit 3 (n + 7)) set_unused cap [] 0 pd = Some (res, pd')" "pd_inv pd'"
          "res \<noteq> Inl RC_OK" "\<forall>octets' u'. res = Inr (octets', u') \<longrightarrow> pd_after pd pd' \<and> I octets' u'" by blast
      moreover have "I octets u \<Longrightarrow> bits_ok \<lparr>bs_buf = Some (octets @ [0]), bs_size = length octets, bs_unused = int u\<rparr>" for octets u
        by (simp add: bits_ok_def I_def)
      ultimately show ?thesis using False
        unfolding body_def cap(1) bind.bind_lunit split_conv gl_def [symmetric] get_def [symmetric] set_unused_def [symmetric]
        by (cases res) (auto split: option.splits)
    qed
  qed
  show ?thesis
  proof (rule robustI)
    fix pd assume "pd_fit pd"
    then have pd: "pd_inv pd" by (rule pd_fit_inv)
    obtain v pd1 where 1: "(if ct_has csiz APC_EXTENSIBLE then asn_get_few_bits pd 1 else Some (0, pd)) = Some (v, pd1)" "pd_inv pd1" "pd_after pd pd1"
      by (rule ext_bit_any [OF pd])
    define cz where "cz = (if v \<noteq> 0 then asn_DEF_BIT_STRING_constraint_size else csiz)"
    have "string_size_ok cz" using size by (auto simp: cz_def string_size_ok_def asn_DEF_BIT_STRING_constraint_size_def)
    from body [OF this 1(2)] obtain code r pd2 where
      2: "body cz pd1 = Some (code, r, pd2)" "pd_inv pd2"
        "code = RC_OK \<longrightarrow> pd_after pd1 pd2 \<and> (\<exists>w n. r = Some (w, n) \<and> (n = 0 \<or> length (pd_bits pd2) < length (pd_bits pd1)) \<and> bits_ok w)" by blast
    have "BIT_STRING_decode_uper (\<lambda>_. True) sz ASN_OSUBV_BIT tdc cs pd = (if v < 0 then Some (RC_WMORE, None, pd1) else Some (code, r, pd2))"
      by (simp only: dec 1(1) bind.bind_lunit split_conv cz_def [symmetric] 2(1))
    moreover have "length (pd_bits pd1) \<le> length (pd_bits pd)" by (rule pd_afterD(2) [OF 1(3)])
    ultimately show "\<exists>code r pd'. BIT_STRING_decode_uper (\<lambda>_. True) sz ASN_OSUBV_BIT tdc cs pd = Some (code, r, pd') \<and> pd_inv pd' \<and>
        (code = RC_OK \<longrightarrow> pd_after pd pd' \<and>
           (\<exists>w n. r = Some (w, n) \<and> (n = 0 \<or> length (pd_bits pd') < length (pd_bits pd)) \<and> bits_ok w))"
      using 1(2) 2(2,3) pd_after_trans [OF 1(3)] by fastforce
  qed
qed

end
