(* ===== verification/Uper_Robust.thy ===== *)
theory Uper_Robust
  imports Uper_Any
begin

unbundle bit_operations_syntax

text \<open>
  Input that nobody vouches for, the whole: the decoders of lists, CHOICE and SEQUENCE over decoders that
  are \<open>robust\<close>, and one theorem about \<open>uper_decode_complete\<close> for every type of \<open>Uper_Schema\<close>.
\<close>

section \<open>Lists\<close>

text \<open>
  In a chunk of more than 200 elements each one must have counted what it consumed, so it took a bit
  from the stream: the list never outgrows its counter.
\<close>

lemma set_of_items_any:
  assumes "robust elm P" "pd_fit pd" "as_inv list" "list_all P (as_elems list)"
    and "length (as_elems list) + (if 200 < nelems then length (pd_bits pd) else i) < 2 ^ 30"
  shows "\<exists>code list' pd'. set_of_items (\<lambda>_. True) elm nelems i list pd = Some (code, list', pd') \<and> pd_inv pd' \<and>
    (code = RC_OK \<longrightarrow> pd_after pd pd' \<and> as_inv list' \<and> list_all P (as_elems list') \<and>
      (200 < nelems \<longrightarrow> length (as_elems list') + length (pd_bits pd') \<le> length (as_elems list) + length (pd_bits pd)))"
  using assms(2-5)
proof (induction i arbitrary: list pd)
  case 0
  then show ?case by (simp add: pd_after_refl pd_fit_inv)
next
  case (Suc i)
  from assms(1) Suc.prems(1) show ?case
  proof (cases rule: robustE)
    case failed
    then show ?thesis by auto
  next
    case (ok w n pd1)
    have "length (as_elems list) < 2 ^ 30" using Suc.prems(4) by (auto split: if_splits)
    with set_add_ok [OF Suc.prems(2), of "\<lambda>_. True" w] as_inv_length [OF Suc.prems(2)]
    obtain list1 where 1: "asn_set_add (\<lambda>_. True) list (Some w) = Some (0, list1)" "as_inv list1" "as_elems list1 = as_elems list @ [w]"
      by auto
    show ?thesis
    proof (cases "200 < nelems \<and> n = 0")
      case True
      with ok 1 show ?thesis by (simp add: pd_fit_inv)
    next
      case False
      then have less: "200 < nelems \<Longrightarrow> length (pd_bits pd1) < length (pd_bits pd)" using ok(5) by auto
      have "length (as_elems list1) + (if 200 < nelems then length (pd_bits pd1) else i) < 2 ^ 30"
        using Suc.prems(4) less by (auto simp: 1(3) split: if_splits)
      moreover have "list_all P (as_elems list1)" using Suc.prems(3) ok(3) by (simp add: 1(3))
      ultimately obtain code list' pd' where
        2: "set_of_items (\<lambda>_. True) elm nelems i list1 pd1 = Some (code, list', pd')" "pd_inv pd'"
          "code = RC_OK \<longrightarrow> pd_after pd1 pd' \<and> as_inv list' \<and> list_all P (as_elems list') \<and>
             (200 < nelems \<longrightarrow> length (as_elems list') + length (pd_bits pd') \<le> length (as_elems list1) + length (pd_bits pd1))"
        using Suc.IH [OF ok(2) 1(2)] by blast
      have "set_of_items (\<lambda>_. True) elm nelems (Suc i) list pd = Some (code, list', pd')" using ok(1) 1(1) False 2(1) by auto
      moreover have "code = RC_OK \<longrightarrow> 200 < nelems \<longrightarrow>
          length (as_elems list') + length (pd_bits pd') \<le> length (as_elems list) + length (pd_bits pd)"
        using 2(3) less by (auto simp: 1(3))
      ultimately show ?thesis using 2(2,3) pd_after_trans [OF ok(4)] by blast
    qed
  qed
qed

text \<open>A further chunk follows only one of more than 200 elements.\<close>

lemma set_of_chunks_any:
  assumes "robust elm P" "pd_fit pd" "as_inv list" "list_all P (as_elems list)" "length (as_elems list) + length (pd_bits pd) < 2 ^ 29"
    and "0 \<le> n \<longrightarrow> rep = 0"
  shows "\<exists>code list' pd'. set_of_chunks (\<lambda>_. True) elm n rep list pd = Some (code, list', pd') \<and> pd_inv pd' \<and>
    (code = RC_OK \<longrightarrow> pd_after pd pd' \<and> list_all P (as_elems list'))"
  using assms(2-6)
proof (induction "length (pd_bits pd)" arbitrary: n rep list pd rule: less_induct)
  case less
  obtain v rep1 pd1 where 1: "(if n < 0 then uper_get_length pd (-1) 0 else Some (n, rep, pd)) = Some (v, rep1, pd1)" "pd_inv pd1"
    "rep1 = 0 \<or> 200 < v" "pd_after pd pd1" "rep1 \<noteq> 0 \<longrightarrow> length (pd_bits pd1) < length (pd_bits pd)"
  proof (cases "n < 0")
    case True
    obtain v rep pd1 where "uper_get_length pd (-1) 0 = Some (v, rep, pd1)" "pd_inv pd1" "rep = 0 \<or> 200 < v" "pd_after pd pd1"
      "v < 0 \<or> length (pd_bits pd1) < length (pd_bits pd)" by (rule get_length_any [OF pd_fit_inv [OF less.prems(1)]])
    with True that [of v rep pd1] show thesis by auto
  next
    case False
    with that [of n rep pd] less.prems(1,5) show thesis by (simp add: pd_after_refl pd_fit_inv)
  qed
  have fit: "pd_fit pd1" by (rule pd_fit_after [OF less.prems(1) 1(4)])
  note le = pd_afterD(2) [OF 1(4)]
  have "nat v \<le> 200 \<or> 200 < v" by linarith
  then have "length (as_elems list) + (if 200 < v then length (pd_bits pd1) else nat v) < 2 ^ 30"
    using less.prems(4) le by auto
  from set_of_items_any [OF assms(1) fit less.prems(2,3) this] obtain code list2 pd2 where
    2: "set_of_items (\<lambda>_. True) elm v (nat v) list pd1 = Some (code, list2, pd2)" "pd_inv pd2"
      "code = RC_OK \<longrightarrow> pd_after pd1 pd2 \<and> as_inv list2 \<and> list_all P (as_elems list2) \<and>
         (200 < v \<longrightarrow> length (as_elems list2) + length (pd_bits pd2) \<le> length (as_elems list) + length (pd_bits pd1))" by blast
  show ?case
  proof (cases "v < 0 \<or> code \<noteq> RC_OK \<or> rep1 = 0")
    case True
    with 1 2 pd_after_trans [OF 1(4)] show ?thesis by (subst set_of_chunks.simps) auto
  next
    case False
    then have after: "pd_after pd1 pd2" using 2(3) by simp
    have lt: "length (pd_bits pd2) < length (pd_bits pd)" using pd_afterD(2) [OF after] 1(5) False by simp
    have room: "length (as_elems list2) + length (pd_bits pd2) < 2 ^ 29" using 2(3) 1(3) False le less.prems(4) by linarith
    obtain code' list' pd' where
      3: "set_of_chunks (\<lambda>_. True) elm (-1) rep1 list2 pd2 = Some (code', list', pd')" "pd_inv pd'"
        "code' = RC_OK \<longrightarrow> pd_after pd2 pd' \<and> list_all P (as_elems list')"
      using less.hyps [OF lt pd_fit_after [OF fit after] _ _ room, of "-1" rep1] 2(3) False by auto
    have "set_of_chunks (\<lambda>_. True) elm n rep list pd = Some (code', list', pd')"
      using 1(1) 2(1) 3(1) False by (subst set_of_chunks.simps) simp
    with 3 pd_after_trans [OF pd_after_trans [OF 1(4) after]] show ?thesis by blast
  qed
qed

definition size_ok :: "asn_per_constraint option \<Rightarrow> bool" where
  "size_ok ct = (case ct of Some c \<Rightarrow> ct_effective_bits c \<le> 31 \<and> \<bar>ct_lower_bound c\<bar> \<le> 2 ^ 62 | None \<Rightarrow> True)"

lemma robust_list:
  assumes "robust elm P" "size_ok (size_constraint tdc cs)"
  shows "robust (SET_OF_decode_uper True (\<lambda>_. True) sz tdc cs elm) (\<lambda>list. list_all P (as_elems list))"
proof (rule uncountedI)
  fix pd :: bit_data assume fit: "pd_fit pd"
  then have pd: "pd_inv pd" by (rule pd_fit_inv)
  define ct where "ct = size_constraint tdc cs"
  obtain v pd1 where 1: "(case ct of Some c \<Rightarrow> if ct_has c APC_EXTENSIBLE then asn_get_few_bits pd 1 else Some (0, pd) | None \<Rightarrow> Some (0, pd))
      = Some (v, pd1)" "pd_inv pd1" "pd_after pd pd1" by (rule ct_ext_any [OF pd])
  define ct1 where "ct1 = (if v \<noteq> 0 then None else ct)"
  obtain starved n pd2 where 2: "(case ct1 of
               Some c \<Rightarrow>
                 if 0 \<le> ct_effective_bits c then do {
                   (n, pd) \<leftarrow> asn_get_few_bits pd1 (ct_effective_bits c);
                   if n < 0 then Some (True, n, pd)
                   else do { n \<leftarrow> s64 (n + ct_lower_bound c); Some (False, n, pd) } }
                 else Some (False, -1, pd1)
             | None \<Rightarrow> Some (False, -1, pd1)) = Some (starved, n, pd2)" "pd_inv pd2" "pd_after pd1 pd2"
  proof (cases ct1)
    case None
    with 1(2) pd_after_refl show thesis by (intro that [of False "-1" pd1]) simp_all
  next
    case (Some c)
    then have c: "ct_effective_bits c \<le> 31" "\<bar>ct_lower_bound c\<bar> \<le> 2 ^ 62"
      using assms(2) by (auto simp: ct1_def ct_def size_ok_def split: if_splits)
    obtain k pd2 where k: "asn_get_few_bits pd1 (ct_effective_bits c) = Some (k, pd2)" "pd_inv pd2"
      "k = -1 \<or> 0 \<le> k \<and> k < 2 ^ nat (ct_effective_bits c)" "pd_after pd1 pd2" by (rule few_bits_any [OF 1(2) c(1)]) auto
    have "nat (ct_effective_bits c) \<le> 31" using c(1) by simp
    then have "(2 :: int) ^ nat (ct_effective_bits c) \<le> 2 ^ 31" by (rule power_increasing) simp
    then have "s64 (k + ct_lower_bound c) = Some (k + ct_lower_bound c)"
      using k(3) c(2) by (intro s64_in) (auto simp: limits_defs)
    with Some k 1(2) that pd_after_refl show thesis by (cases "0 \<le> ct_effective_bits c"; cases "k < 0") auto
  qed
  have fit2: "pd_fit pd2" by (rule pd_fit_after [OF fit pd_after_trans [OF 1(3) 2(3)]])
  have new: "as_inv (as_new False)" "as_elems (as_new False) = []" by simp_all
  obtain code list' pd3 where 3: "set_of_chunks (\<lambda>_. True) elm n 0 (as_new False) pd2 = Some (code, list', pd3)" "pd_inv pd3"
    "code = RC_OK \<longrightarrow> pd_after pd2 pd3 \<and> list_all P (as_elems list')" using set_of_chunks_any [OF assms(1) fit2, of "as_new False" n 0] fit2 new by (auto simp: pd_fit_def)
  have "SET_OF_decode_uper True (\<lambda>_. True) sz tdc cs elm pd =
      (if v < 0 then Some (RC_WMORE, Some (as_new False, 0), pd1) else if starved then Some (RC_WMORE, Some (as_new False, 0), pd2)
       else Some (code, Some (list', 0), pd3))"
    using 3(1) by (simp only: SET_OF_decode_uper_def Let_def ct_def [symmetric] 1(1) ct1_def [symmetric] 2(1) bind.bind_lunit split_conv
      not_True_eq_False if_False)
  with 1(2) 2(2) 3(2,3) pd_after_trans [OF pd_after_trans [OF 1(3) 2(3)]] show "\<exists>code r pd'. SET_OF_decode_uper True (\<lambda>_. True) sz tdc cs elm pd = Some (code, r, pd') \<and> pd_inv pd' \<and>
      (code = RC_OK \<longrightarrow> pd_after pd pd' \<and> (\<exists>w. r = Some (w, 0) \<and> list_all P (as_elems w)))" by auto
qed

section \<open>CHOICE\<close>

definition choice_ok :: "asn_CHOICE_specifics \<Rightarrow> asn_per_constraint option \<Rightarrow> nat \<Rightarrow> bool" where
  "choice_ok specs ct n \<longleftrightarrow> -1 \<le> ext_start specs \<and> ext_start specs \<le> 2 ^ 30 \<and>
     (case ranged ct of Some c \<Rightarrow> ct_range_bits c \<le> 31 \<and> ct_upper_bound c < int n | None \<Rightarrow> True) \<and>
     (case from_canonical_order specs of Some order \<Rightarrow> length order = n \<and> (\<forall>x\<in>set order. x < n) | None \<Rightarrow> True)"

lemma choice_index_any:
  assumes "pd_inv pd" "choice_ok specs ct n"
  shows "\<exists>code v pd'. CHOICE_get_index specs n ct pd = Some (code, v, pd') \<and> pd_inv pd' \<and>
    (code = RC_OK \<longrightarrow> pd_after pd pd' \<and> 0 \<le> v \<and> v < int n)"
proof (cases "ranged ct")
  case (Some c)
  then have c: "ct_range_bits c \<le> 31" "ct_upper_bound c < int n" using assms(2) by (simp_all add: choice_ok_def)
  obtain v pd' where "asn_get_few_bits pd (ct_range_bits c) = Some (v, pd')" "pd_inv pd'" "pd_after pd pd'"
    by (rule few_bits_any [OF assms(1) c(1)])
  with Some c(2) show ?thesis by (auto simp: CHOICE_get_index_def)
next
  case None
  obtain v pd' where v: "uper_get_nsnnwn pd = Some (v, pd')" "pd_inv pd'" "v = -1 \<or> 0 \<le> v \<and> v < 2 ^ 16"
    "pd_after pd pd'" by (rule get_nsnnwn_any [OF assms(1)])
  then have "s32 (v + ext_start specs) = Some (v + ext_start specs)"
    using assms(2) by (auto simp: choice_ok_def s32_def limits_defs)
  with None v(1,2,4) assms(1) show ?thesis by (auto simp: CHOICE_get_index_def)
qed

lemma choice_ok_None: "choice_ok specs ct n \<Longrightarrow> choice_ok specs None n"
  by (simp add: choice_ok_def ranged_def)

lemma robust_choice:
  assumes "\<And>p. p < length E \<Longrightarrow> robust (elm_decoder (E ! p)) (Ps p)" "choice_ok specs (choice_constraint tdc cs) (length E)"
  shows "robust (CHOICE_decode_uper True (\<lambda>_. True) specs E tdc cs)
    (\<lambda>st. \<exists>p w. st = \<lparr>ch_present = Suc p, ch_memb = Some w\<rparr> \<and> p < length E \<and> Ps p w)" (is "robust _ ?P")
proof (rule robustI)
  fix pd :: bit_data assume fit: "pd_fit pd"
  then have pd: "pd_inv pd" by (rule pd_fit_inv)
  define ct where "ct = choice_constraint tdc cs"
  define st where "st = \<lparr>ch_present = 0, ch_memb = None :: 'a option\<rparr>"
  obtain b pd1 where 1: "(case ct of Some c \<Rightarrow> if ct_has c APC_EXTENSIBLE then asn_get_few_bits pd 1 else Some (0, pd) | None \<Rightarrow> Some (0, pd))
      = Some (b, pd1)" "pd_inv pd1" "pd_after pd pd1" by (rule ct_ext_any [OF pd])
  define ct1 where "ct1 = (if b \<noteq> 0 then None else ct)"
  have "choice_ok specs ct1 (length E)" using assms(2) choice_ok_None by (auto simp: ct1_def ct_def)
  from choice_index_any [OF 1(2) this] obtain code v pd2 where
    2: "CHOICE_get_index specs (length E) ct1 pd1 = Some (code, v, pd2)" "pd_inv pd2" "code = RC_OK \<longrightarrow> pd_after pd pd2 \<and> 0 \<le> v \<and> v < int (length E)"
    using pd_after_trans [OF 1(3)] by blast
  have dec: "CHOICE_decode_uper True (\<lambda>_. True) specs E tdc cs pd =
      (if b < 0 then Some (RC_WMORE, Some (st, 0), pd1) else if code \<noteq> RC_OK then Some (code, Some (st, 0), pd2)
       else do {
            v \<leftarrow> (case from_canonical_order specs of Some order \<Rightarrow> rd order (nat v) | None \<Rightarrow> Some (nat v));
            elm \<leftarrow> rd E v;
            (code, w, pd) \<leftarrow> (if ranged ct1 \<noteq> None then elm_decoder elm pd2 else uper_open_type_get True (\<lambda>_. True) (elm_decoder elm) pd2);
            Some (code, Some (\<lparr>ch_present = v + 1, ch_memb = slot_store (slot_init elm) w\<rparr>, case w of Some (x, n) \<Rightarrow> n | None \<Rightarrow> 0), pd) })"
    by (simp only: CHOICE_decode_uper_def Let_def ct_def [symmetric] st_def [symmetric] 1(1) ct1_def [symmetric] 2(1) bind.bind_lunit
      split_conv not_True_eq_False if_False)
  show "\<exists>code r pd'. CHOICE_decode_uper True (\<lambda>_. True) specs E tdc cs pd = Some (code, r, pd') \<and> pd_inv pd' \<and>
      (code = RC_OK \<longrightarrow> pd_after pd pd' \<and> (\<exists>w n. r = Some (w, n) \<and> (n = 0 \<or> length (pd_bits pd') < length (pd_bits pd)) \<and> ?P w))"
  proof (cases "b < 0 \<or> code \<noteq> RC_OK")
    case True
    with 1(2) 2(2) show ?thesis by (auto simp: dec)
  next
    case False
    then have nv: "nat v < length E" using 2(3) by auto
    obtain p where p: "(case from_canonical_order specs of Some order \<Rightarrow> rd order (nat v) | None \<Rightarrow> Some (nat v)) = Some p" "p < length E"
      using assms(2) nv by (auto simp: choice_ok_def split: option.splits)
    have "robust (if ranged ct1 \<noteq> None then elm_decoder (E ! p) else uper_open_type_get True (\<lambda>_. True) (elm_decoder (E ! p))) (Ps p)"
      using assms(1) [OF p(2)] robust_open_type by auto
    moreover have after: "pd_after pd pd2" using 2(3) False by simp
    then have "pd_fit pd2" by (rule pd_fit_after [OF fit])
    ultimately show ?thesis
    proof (cases rule: robustE)
      case (ok w n pd3)
      then have "(if ranged ct1 \<noteq> None then elm_decoder (E ! p) pd2 else uper_open_type_get True (\<lambda>_. True) (elm_decoder (E ! p)) pd2) =
          Some (RC_OK, Some (w, n), pd3)" by (simp split: if_splits)
      with False p have "CHOICE_decode_uper True (\<lambda>_. True) specs E tdc cs pd =
          Some (RC_OK, Some (\<lparr>ch_present = Suc p, ch_memb = Some w\<rparr>, n), pd3)" by (simp add: dec slot_store_def split del: if_split)
      moreover have "n = 0 \<or> length (pd_bits pd3) < length (pd_bits pd)" using ok(5) pd_afterD(2) [OF after] by linarith
      ultimately show ?thesis using p(2) ok(2,3) pd_after_trans [OF after ok(4)] pd_fit_inv by auto
    next
      case (failed code' r pd3)
      then have "(if ranged ct1 \<noteq> None then elm_decoder (E ! p) pd2 else uper_open_type_get True (\<lambda>_. True) (elm_decoder (E ! p)) pd2) =
          Some (code', r, pd3)" by (simp split: if_splits)
      with False p failed show ?thesis by (simp add: dec slot_store_def split del: if_split)
    qed
  qed
qed


section \<open>SEQUENCE\<close>

text \<open>
  What a decoded slot holds: a value of the member's type; nothing only in a pointer, and in the root
  only of an OPTIONAL member without a default. \<open>Ps\<close> says which values the members' types have.
\<close>

definition slot_ok :: "('v, 'k) asn_TYPE_member \<Rightarrow> bool \<Rightarrow> ('v \<Rightarrow> bool) \<Rightarrow> 'v option \<Rightarrow> bool" where
  "slot_ok elm root P slot =
     (case slot of Some w \<Rightarrow> P w | None \<Rightarrow> elm_pointer elm \<and> (root \<longrightarrow> elm_optional elm \<and> elm_default_set elm = None))"

definition slots_ok :: "('v, 'k) asn_TYPE_member list \<Rightarrow> nat \<Rightarrow> (nat \<Rightarrow> 'v \<Rightarrow> bool) \<Rightarrow> 'v option list \<Rightarrow> bool" where
  "slots_ok E R Ps slots \<longleftrightarrow> length slots = length E \<and> (\<forall>i<length E. slot_ok (E ! i) (i < R) (Ps i) (slots ! i))"

definition members_robust :: "('v, 'k) asn_TYPE_member list \<Rightarrow> nat \<Rightarrow> (nat \<Rightarrow> 'v \<Rightarrow> bool) \<Rightarrow> bool" where
  "members_robust E R Ps \<longleftrightarrow> (\<forall>i<length E.
     robust (elm_decoder (E ! i)) (Ps i) \<and> elm_open_type_get (E ! i) = None \<and>
     (\<forall>dflt slot. elm_default_set (E ! i) = Some dflt \<longrightarrow> (\<exists>d. dflt slot = (0, Some d) \<and> Ps i d)) \<and>
     (\<not> elm_pointer (E ! i) \<longrightarrow> i < R \<and> (elm_optional (E ! i) \<longrightarrow> elm_default_set (E ! i) \<noteq> None)))"

lemma members_robustD:
  assumes "members_robust E R Ps" "i < length E"
  shows "robust (elm_decoder (E ! i)) (Ps i)" "elm_open_type_get (E ! i) = None"
    "elm_default_set (E ! i) = Some dflt \<Longrightarrow> \<exists>d. dflt slot = (0, Some d) \<and> Ps i d"
    "\<not> elm_pointer (E ! i) \<Longrightarrow> i < R \<and> (elm_optional (E ! i) \<longrightarrow> elm_default_set (E ! i) \<noteq> None)"
  using assms by (auto simp: members_robust_def)

lemma decode_root_any:
  assumes m: "members_robust E R Ps"
  shows "\<lbrakk>pd_inv opmd; pd_fit pd; length slots = length E; edx + n \<le> length E; edx + n \<le> R;
      \<forall>i<edx. slot_ok (E ! i) True (Ps i) (slots ! i); \<forall>i\<in>{edx..<length E}. slots ! i = slot_init (E ! i)\<rbrakk> \<Longrightarrow>
    \<exists>code slots' pd'. decode_root E edx n slots opmd pd = Some (code, slots', pd') \<and> pd_inv pd' \<and>
      (code = RC_OK \<longrightarrow> pd_after pd pd' \<and> length slots' = length E \<and> (\<forall>i<edx + n. slot_ok (E ! i) True (Ps i) (slots' ! i)) \<and>
        (\<forall>i\<in>{edx + n..<length E}. slots' ! i = slot_init (E ! i)))"
proof (induction n arbitrary: edx slots opmd pd)
  case 0
  then show ?case by (simp add: pd_after_refl pd_fit_inv)
next
  case (Suc n)
  define elm where "elm = E ! edx"
  have i: "edx < length E" "edx < R" "edx < length slots" "slots ! edx = slot_init elm" using Suc.prems(3-7) by (auto simp: elm_def)
  note mem = members_robustD [OF m i(1), folded elm_def]
  obtain present opmd' where p: "(if elm_optional elm then asn_get_few_bits opmd 1 else Some (1, opmd)) = Some (present, opmd')" "pd_inv opmd'"
    "\<not> elm_optional elm \<Longrightarrow> present = 1"
  proof (cases "elm_optional elm")
    case True
    obtain v pd' where "asn_get_few_bits opmd 1 = Some (v, pd')" "pd_inv pd'" by (rule few_bits_any [OF Suc.prems(1), of 1]) auto
    with True that show thesis by simp
  qed (use Suc.prems(1) that in auto)
  have IH: "\<exists>code slots' pd'. decode_root E (Suc edx) n (slots[edx := s]) opmd' pd1 = Some (code, slots', pd') \<and> pd_inv pd' \<and>
      (code = RC_OK \<longrightarrow> pd_after pd1 pd' \<and> length slots' = length E \<and> (\<forall>i<Suc edx + n. slot_ok (E ! i) True (Ps i) (slots' ! i)) \<and>
        (\<forall>i\<in>{Suc edx + n..<length E}. slots' ! i = slot_init (E ! i)))"
    if "slot_ok elm True (Ps edx) s" "pd_fit pd1" for s pd1
  proof (rule Suc.IH)
    show "\<forall>i<Suc edx. slot_ok (E ! i) True (Ps i) (slots[edx := s] ! i)"
      using Suc.prems(6) that(1) i(3) by (auto simp: less_Suc_eq elm_def)
    show "\<forall>i\<in>{Suc edx..<length E}. slots[edx := s] ! i = slot_init (E ! i)" using Suc.prems(7) by auto
  qed (use Suc.prems p(2) that(2) in auto)
  show ?case
  proof (cases "present = 0")
    case True
    then have opt: "elm_optional elm" using p(3) by auto
    show ?thesis
    proof (cases "elm_default_set elm")
      case None
      with mem(4) opt have "elm_pointer elm" by auto
      then have "slot_ok elm True (Ps edx) (slots ! edx)" using i(4) opt None by (simp add: slot_ok_def slot_init_def)
      from IH [OF this Suc.prems(2), unfolded list_update_id] True None i p(1) show ?thesis by (simp add: elm_def [symmetric] split del: if_split)
    next
      case (Some dflt)
      from mem(3) [OF this, of "slots ! edx"] obtain d where d: "dflt (slots ! edx) = (0, Some d)" "Ps edx d" by blast
      then have "slot_ok elm True (Ps edx) (Some d)" by (simp add: slot_ok_def)
      from IH [OF this Suc.prems(2)] True Some i p(1) d(1) show ?thesis by (simp add: elm_def [symmetric] split del: if_split)
    qed
  next
    case False
    from mem(1) Suc.prems(2) show ?thesis
    proof (cases rule: robustE)
      case (ok w m pd1)
      then have "slot_ok elm True (Ps edx) (Some w)" by (simp add: slot_ok_def)
      from IH [OF this ok(2)] pd_after_trans [OF ok(4)] False i p(1) ok(1) mem(2) show ?thesis
        by (fastforce simp: elm_def [symmetric] slot_store_def split del: if_split)
    next
      case (failed code r pd1)
      with False i p(1) mem(2) show ?thesis by (simp add: elm_def [symmetric] slot_store_def split del: if_split)
    qed
  qed
qed

lemma slots_ok_update:
  "slots_ok E R Ps slots \<Longrightarrow> i < length E \<Longrightarrow> Ps i w \<Longrightarrow> slots_ok E R Ps (slots[i := Some w])"
  by (auto simp: slots_ok_def slot_ok_def nth_list_update)

lemma decode_extensions_any:
  assumes m: "members_robust E R Ps"
  shows "\<lbrakk>pd_inv epmd; pd_fit pd; slots_ok E R Ps slots; edx + n \<le> length E\<rbrakk> \<Longrightarrow>
    \<exists>code slots' epmd' pd'. decode_extensions True (\<lambda>_. True) E edx n slots epmd pd = Some (code, slots', epmd', pd') \<and>
      pd_inv epmd' \<and> pd_inv pd' \<and> (code = RC_OK \<longrightarrow> pd_after pd pd' \<and> slots_ok E R Ps slots')"
proof (induction n arbitrary: edx slots epmd pd)
  case 0
  then show ?case by (simp add: pd_after_refl pd_fit_inv)
next
  case (Suc n)
  have i: "edx < length E" "edx < length slots" using Suc.prems(3,4) by (auto simp: slots_ok_def)
  note mem = members_robustD [OF m i(1)]
  obtain present epmd' where p: "asn_get_few_bits epmd 1 = Some (present, epmd')" "pd_inv epmd'"
    by (rule few_bits_any [OF Suc.prems(1), of 1]) auto
  show ?case
  proof (cases "present \<le> 0")
    case True
    show ?thesis
    proof (cases "present < 0")
      case True
      with i p Suc.prems show ?thesis by (simp add: pd_after_refl pd_fit_inv)
    next
      case False
      with True have "present = 0" by simp
      with i p Suc.IH [OF p(2) Suc.prems(2,3), of "edx + 1"] Suc.prems(4) show ?thesis by simp
    qed
  next
    case False
    from robust_open_type [OF mem(1), of "\<lambda>_. True"] Suc.prems(2) show ?thesis
    proof (cases rule: robustE)
      case (ok w m pd1)
      with Suc.IH [OF p(2) ok(2) slots_ok_update [OF Suc.prems(3) i(1) ok(3)], of "edx + 1"] i p(1) False Suc.prems(4)
        pd_after_trans [OF ok(4)] show ?thesis by (fastforce simp: slot_store_def)
    next
      case (failed code r pd1)
      with i p False show ?thesis by simp
    qed
  qed
qed

lemma skip_extensions_any:
  assumes "pd_inv epmd" "pd_inv pd"
  shows "\<exists>code pd'. skip_extensions True (\<lambda>_. True) epmd pd = Some (code, pd') \<and> pd_inv pd' \<and>
    (code = RC_OK \<longrightarrow> pd_after pd pd')"
  using assms
proof (induction "length (pd_bits epmd)" arbitrary: epmd pd rule: less_induct)
  case less
  obtain b epmd' where b: "asn_get_few_bits epmd 1 = Some (b, epmd')" "pd_inv epmd'" "b = -1 \<or> length (pd_bits epmd) = nat 1 + length (pd_bits epmd')"
    by (rule few_bits_any [OF less.prems(1), of 1]) auto
  show ?case
  proof (cases "b = -1")
    case True
    with b less.prems show ?thesis by (subst skip_extensions.simps) (simp add: pd_after_refl)
  next
    case False
    then have lt: "length (pd_bits epmd') < length (pd_bits epmd)" using b(3) by simp
    obtain r pd1 where s: "uper_open_type_skip True (\<lambda>_. True) pd = Some (r, pd1)" "pd_inv pd1"
      "r = 0 \<longrightarrow> pd_after pd pd1"
      using open_type_skip_any [OF less.prems(2), of "\<lambda>_. True"] by blast
    from less.hyps [OF lt b(2) less.prems(2)] less.hyps [OF lt b(2) s(2)] b(1) s False pd_after_trans [of pd pd1] show ?thesis
      by (subst skip_extensions.simps) fastforce
  qed
qed

lemma fill_defaults_any:
  assumes m: "members_robust E R Ps"
  shows "\<lbrakk>\<forall>i\<in>set is. i < length E; slots_ok E R Ps slots\<rbrakk> \<Longrightarrow>
    \<exists>slots'. fill_defaults E is slots = Some (0, slots') \<and> slots_ok E R Ps slots'"
proof (induction "is" arbitrary: slots)
  case (Cons i "is")
  then have i: "i < length E" "i < length slots" by (auto simp: slots_ok_def)
  show ?case
  proof (cases "elm_default_set (E ! i) = None \<or> \<not> elm_pointer (E ! i) \<or> slots ! i \<noteq> None")
    case True
    have "\<exists>slots'. fill_defaults E is slots = Some (0, slots') \<and> slots_ok E R Ps slots'" by (rule Cons.IH) (use Cons.prems in auto)
    moreover have "fill_defaults E (i # is) slots = fill_defaults E is slots"
      using True i by (cases "elm_default_set (E ! i)") (auto simp: Let_def)
    ultimately show ?thesis by simp
  next
    case False
    then obtain dflt where d: "elm_default_set (E ! i) = Some dflt" by auto
    from members_robustD(3) [OF m i(1) d, of "slots ! i"] obtain v where v: "dflt (slots ! i) = (0, Some v)" "Ps i v" by blast
    have "\<exists>slots'. fill_defaults E is (slots[i := Some v]) = Some (0, slots') \<and> slots_ok E R Ps slots'"
      by (rule Cons.IH) (use Cons.prems slots_ok_update [of E R Ps slots i v] i(1) v(2) in auto)
    moreover have "fill_defaults E (i # is) slots = fill_defaults E is (slots[i := Some v])"
      using False i d v(1) by simp
    ultimately show ?thesis by simp
  qed
qed simp


lemma map_of_bits_inv: "n \<le> 8 * length octets \<Longrightarrow> pd_inv (map_of_bits octets n)"
  by (simp add: map_of_bits_def pd_inv_def)

lemma decode_ext_part_any:
  assumes m: "members_robust E R Ps" and fit: "pd_fit pd" and "slots_ok E R Ps slots" "nat (first_extension specs) \<le> length E"
  shows "\<exists>code slots' pd'. decode_ext_part True (\<lambda>_. True) specs E slots pd = Some (code, slots', pd') \<and> pd_inv pd' \<and>
    (code = RC_OK \<longrightarrow> pd_after pd pd' \<and> slots_ok E R Ps slots')"
proof -
  obtain n pd1 where 1: "uper_get_nslength pd = Some (n, pd1)" "pd_inv pd1" "pd_after pd pd1" by (rule get_nslength_any [OF pd_fit_inv [OF fit]])
  show ?thesis
  proof (cases "n < 0")
    case True
    with 1 show ?thesis by (simp add: decode_ext_part_def)
  next
    case False
    then have "0 \<le> n" by simp
    obtain r octets pd2 where 2: "asn_get_many_bits pd1 False n = Some (r, octets, pd2)" "pd_inv pd2"
      "r = 0 \<longrightarrow> nat n \<le> 8 * length octets \<and> pd_after pd1 pd2"
      by (rule many_bits_any [OF 1(2) \<open>0 \<le> n\<close>])
    show ?thesis
    proof (cases "r = 0")
      case r: True
      define edx where "edx = nat (first_extension specs)"
      have le: "edx + (length E - edx) \<le> length E" using assms(4) by (simp add: edx_def)
      have "pd_fit pd2" using 2(3) r pd_fit_after [OF fit pd_after_trans [OF 1(3)]] by blast
      from decode_extensions_any [OF m map_of_bits_inv this assms(3) le, of "nat n" octets] 2(3) r obtain code slots1 epmd pd3 where
        3: "decode_extensions True (\<lambda>_. True) E edx (length E - edx) slots (map_of_bits octets (nat n)) pd2 = Some (code, slots1, epmd, pd3)"
          "pd_inv epmd" "pd_inv pd3" "code = RC_OK \<longrightarrow> pd_after pd2 pd3 \<and> slots_ok E R Ps slots1" by blast
      from skip_extensions_any [OF 3(2,3)] obtain code' pd4 where
        4: "skip_extensions True (\<lambda>_. True) epmd pd3 = Some (code', pd4)" "pd_inv pd4" "code' = RC_OK \<longrightarrow> pd_after pd3 pd4" by blast
      have "pd_after pd pd4" if "code = RC_OK" "code' = RC_OK"
        using pd_after_trans [OF 1(3) pd_after_trans [of pd1 pd2]] pd_after_trans [of pd2 pd3 pd4] 2(3) 3(4) 4(3) r that by blast
      with 1(1) False 2(1) r 3 4 show ?thesis by (simp add: decode_ext_part_def Let_def edx_def)
    next
      case nr: False
      with 1(1) False 2 show ?thesis by (simp add: decode_ext_part_def)
    qed
  qed
qed

definition tables_ok :: "asn_SEQUENCE_specifics \<Rightarrow> nat \<Rightarrow> nat \<Rightarrow> bool" where
  "tables_ok specs R n \<longleftrightarrow> R \<le> n \<and>
     (0 \<le> first_extension specs \<longrightarrow>
        (case mem_load (oms specs) (roms_count specs) (aoms_count specs) of None \<Rightarrow> False | Some aoms \<Rightarrow> \<forall>i\<in>set aoms. i < n))"

lemma robust_sequence:
  assumes m: "members_robust E R Ps" and R: "R = root_count specs E" and t: "tables_ok specs R (length E)"
  shows "robust (SEQUENCE_decode_uper True (\<lambda>_. True) specs E) (slots_ok E R Ps)"
proof (rule uncountedI)
  fix pd :: bit_data assume fit: "pd_fit pd"
  then have pd: "pd_inv pd" by (rule pd_fit_inv)
  define st where "st = map slot_init E"
  obtain b pd1 where 1: "(if first_extension specs < 0 then Some (0, pd) else asn_get_few_bits pd 1) = Some (b, pd1)" "pd_inv pd1"
    "pd_after pd pd1" using ext_bit_any [OF pd, of "\<not> first_extension specs < 0"] by (metis (full_types))
  obtain r opmd pd2 where 2: "(if roms_count specs \<noteq> 0 then do {
               (r, opres, pd) \<leftarrow> asn_get_many_bits pd1 False (int (roms_count specs));
               Some (r, map_of_bits opres (roms_count specs), pd) }
             else Some (0, empty_map, pd1)) = Some (r, opmd, pd2)" "pd_inv pd2" "r = 0 \<longrightarrow> pd_inv opmd \<and> pd_after pd pd2"
  proof (cases "roms_count specs = 0")
    case True
    with 1(2,3) empty_map_ok show thesis by (intro that [of 0 empty_map pd1]) simp_all
  next
    case False
    obtain r octets pd2 where "asn_get_many_bits pd1 False (int (roms_count specs)) = Some (r, octets, pd2)" "pd_inv pd2"
      "r = 0 \<longrightarrow> nat (int (roms_count specs)) \<le> 8 * length octets \<and> pd_after pd1 pd2" by (rule many_bits_any [OF 1(2) of_nat_0_le_iff])
    with False map_of_bits_inv [of "roms_count specs" octets] pd_after_trans [OF 1(3)] show thesis
      by (intro that [of r "map_of_bits octets (roms_count specs)" pd2]) simp_all
  qed
  show "\<exists>code r pd'. SEQUENCE_decode_uper True (\<lambda>_. True) specs E pd = Some (code, r, pd') \<and> pd_inv pd' \<and>
      (code = RC_OK \<longrightarrow> pd_after pd pd' \<and> (\<exists>w. r = Some (w, 0) \<and> slots_ok E R Ps w))"
  proof (cases "b < 0 \<or> r \<noteq> 0")
    case True
    with 1(2) 2(2) show ?thesis
      by (cases "b < 0") (simp_all only: SEQUENCE_decode_uper_def Let_def 1(1) 2(1) bind.bind_lunit split_conv, auto)
  next
    case False
    have RE: "0 + R \<le> length E" using t by (simp add: tables_ok_def)
    have "length st = length E" "\<forall>i<0. slot_ok (E ! i) True (Ps i) (st ! i)" "\<forall>i\<in>{0..<length E}. st ! i = slot_init (E ! i)"
      by (simp_all add: st_def)
    moreover have fit2: "pd_fit pd2" using 2(3) False pd_fit_after [OF fit] by blast
    ultimately obtain code slots1 pd3 where
      3: "decode_root E 0 R st opmd pd2 = Some (code, slots1, pd3)" "pd_inv pd3" "code = RC_OK \<longrightarrow> pd_after pd2 pd3 \<and> length slots1 = length E \<and>
        (\<forall>i<R. slot_ok (E ! i) True (Ps i) (slots1 ! i)) \<and> (\<forall>i\<in>{R..<length E}. slots1 ! i = slot_init (E ! i))"
      using decode_root_any [OF m _ fit2 _ RE, of opmd st] 2(3) False by auto
    have ok1: "slots_ok E R Ps slots1" if "code = RC_OK"
      unfolding slots_ok_def
    proof (intro conjI allI impI)
      show "length slots1 = length E" using 3(3) that by simp
      fix i assume i: "i < length E"
      show "slot_ok (E ! i) (i < R) (Ps i) (slots1 ! i)"
      proof (cases "i < R")
        case True
        with 3(3) that show ?thesis by simp
      next
        case False
        with members_robustD(4) [OF m i] have "elm_pointer (E ! i)" by blast
        moreover have "slots1 ! i = slot_init (E ! i)" using 3(3) that False i by simp
        ultimately show ?thesis using False by (simp add: slot_ok_def slot_init_def)
      qed
    qed
    show ?thesis
    proof (cases "code = RC_OK")
      case c: False
      with False 3(1,2) show ?thesis
        by (simp only: SEQUENCE_decode_uper_def Let_def 1(1) 2(1) st_def [symmetric] R [symmetric] bind.bind_lunit split_conv) auto
    next
      case c: True
      have fit3: "pd_fit pd3" using 3(3) c pd_fit_after [OF fit2] by blast
      have fe: "nat (first_extension specs) \<le> length E" using RE by (simp add: R root_count_def split: if_splits)
      obtain code2 slots2 pd4 where 4: "(if b \<noteq> 0 then decode_ext_part True (\<lambda>_. True) specs E slots1 pd3 else Some (RC_OK, slots1, pd3)) =
          Some (code2, slots2, pd4)" "pd_inv pd4" "code2 = RC_OK \<longrightarrow> pd_after pd3 pd4 \<and> slots_ok E R Ps slots2"
        using decode_ext_part_any [OF m fit3 ok1 [OF c] fe] ok1 [OF c] 3(2) pd_after_refl by (cases "b = 0") auto
      show ?thesis
      proof (cases "code2 = RC_OK")
        case c2: False
        with False c 3(1) 4(1,2) show ?thesis
          by (simp only: SEQUENCE_decode_uper_def Let_def 1(1) 2(1) st_def [symmetric] R [symmetric] bind.bind_lunit split_conv) auto
      next
        case c2: True
        obtain slots3 where 5: "(if 0 \<le> first_extension specs
             then do { is \<leftarrow> mem_load (oms specs) (roms_count specs) (aoms_count specs); fill_defaults E is slots2 }
             else Some (0, slots2)) = Some (0 :: int, slots3)" "slots_ok E R Ps slots3"
        proof (cases "0 \<le> first_extension specs")
          case True
          with t obtain "is" where "is": "mem_load (oms specs) (roms_count specs) (aoms_count specs) = Some is" "\<forall>i\<in>set is. i < length E"
            by (auto simp: tables_ok_def split: option.splits)
          from fill_defaults_any [OF m "is"(2), of slots2] 4(3) c2 "is"(1) True that show thesis by auto
        qed (use 4(3) c2 that in auto)
        have "SEQUENCE_decode_uper True (\<lambda>_. True) specs E pd = Some (RC_OK, Some (slots3, 0), pd4)"
          using False c c2 3(1) 4(1) 5(1)
          by (simp only: SEQUENCE_decode_uper_def Let_def 1(1) 2(1) st_def [symmetric] R [symmetric] bind.bind_lunit split_conv) auto
        moreover have "pd_after pd pd4"
          using pd_after_trans [of pd pd2 pd3] pd_after_trans [of pd pd3 pd4] 2(3) 3(3) 4(3) False c c2 by blast
        ultimately show ?thesis using 4(2) 5(2) by simp
      qed
    qed
  qed
qed


section \<open>Types and the values they have\<close>

text \<open>
  \<open>conforms t v\<close>: the value has the shape of the type: the right kind of value, its octets there, its members and
  alternatives in place, an enumerated number in the table. The bounds that a constraint puts on numbers, sizes and
  characters are not part of it, since the decoders do not enforce all of them. The tables of a type are sound (\<open>type_ok\<close>) when the
  indices in them stay within the members, a size constraint and an alphabet fit the numbers of bits that
  they are given, a value constraint fits \<open>intmax_t\<close> and has no lower bound
  alone, an inline member is mandatory or has a default, and defaults are values of their types.
\<close>

fun conforms :: "per_type \<Rightarrow> asn_value \<Rightarrow> bool" where
  "conforms TBoolean v = (case v of VInt i \<Rightarrow> i = 0 \<or> i = 1 | _ \<Rightarrow> False)"
| "conforms TNull v = (case v of VInt i \<Rightarrow> i = 0 | _ \<Rightarrow> False)"
| "conforms (TNativeInteger td cs) v = (case v of VInt i \<Rightarrow> INTMAX_MIN \<le> i \<and> i \<le> INTMAX_MAX | _ \<Rightarrow> False)"
| "conforms (TNativeEnumerated td cs) v = (case v of VInt i \<Rightarrow> i \<in> set (enum_values td) | _ \<Rightarrow> False)"
| "conforms (TOctetString sub tdc cs) v = (case v of VOctets st \<Rightarrow> octets_ok sub st | _ \<Rightarrow> False)"
| "conforms (TBitString tdc cs) v = (case v of VBits st \<Rightarrow> bits_ok st | _ \<Rightarrow> False)"
| "conforms (TSequenceOf tdc cs t) v = (case v of VList vs \<Rightarrow> list_all (\<lambda>v. conforms t v) vs | _ \<Rightarrow> False)"
| "conforms (TChoice specs tdc cs ts) v =
     (case v of
        VChoice (Suc p) (Some w) \<Rightarrow> p < length ts \<and> (map (\<lambda>t. conforms t) ts ! p) w
      | _ \<Rightarrow> False)"
| "conforms (TSequence specs ms) v =
     (case v of
        VSequence slots \<Rightarrow>
          slots_ok (sequence_members ms) (root_count specs ms) ((!) (map (\<lambda>m. conforms (mb_type m)) ms)) slots
      | _ \<Rightarrow> False)"

definition member_ok :: "nat \<Rightarrow> nat \<Rightarrow> per_type asn_member \<Rightarrow> bool" where
  "member_ok R i m \<longleftrightarrow> (case mb_default m of Some d \<Rightarrow> conforms (mb_type m) d | None \<Rightarrow> True) \<and>
     (\<not> mb_pointer m \<longrightarrow> i < R \<and> (mb_optional m \<longrightarrow> mb_default m \<noteq> None))"

fun type_ok :: "per_type \<Rightarrow> bool" where
  "type_ok (TNativeInteger td cs) = int_type_ok td cs"
| "type_ok (TNativeEnumerated td cs) = enum_type_ok td cs"
| "type_ok (TOctetString sub tdc cs) = octets_type_ok sub tdc cs"
| "type_ok (TBitString tdc cs) = bits_type_ok tdc cs"
| "type_ok (TSequenceOf tdc cs t) = (size_ok (size_constraint tdc cs) \<and> type_ok t)"
| "type_ok (TChoice specs tdc cs ts) = (choice_ok specs (choice_constraint tdc cs) (length ts) \<and> list_all (\<lambda>t. type_ok t) ts)"
| "type_ok (TSequence specs ms) =
     (tables_ok specs (root_count specs ms) (length ms) \<and>
      list_all (\<lambda>(i, m). member_ok (root_count specs ms) i m) (enumerate 0 ms) \<and> list_all (\<lambda>m. type_ok (mb_type m)) ms)"
| "type_ok _ = True"

lemma type_robust: "type_ok t \<Longrightarrow> robust (op_uper_decoder (uper_ops t)) (conforms t)"
proof (induction t rule: type_coding.induct)
  case 1
  show ?case unfolding uper_ops.simps asn_TYPE_operation.simps by (rule robust_viewed [OF robust_boolean]) simp
next
  case 2
  show ?case unfolding uper_ops.simps asn_TYPE_operation.simps by (rule robust_viewed [OF robust_null]) simp
next
  case (3 td cs)
  then show ?case unfolding uper_ops.simps asn_TYPE_operation.simps by (intro robust_viewed [OF robust_native]) simp_all
next
  case (4 td cs)
  then show ?case unfolding uper_ops.simps asn_TYPE_operation.simps by (intro robust_viewed [OF robust_enum]) simp_all
next
  case (5 sub tdc cs)
  then show ?case unfolding uper_ops.simps asn_TYPE_operation.simps by (intro robust_viewed [OF robust_octet_string]) simp_all
next
  case (6 tdc cs)
  then show ?case unfolding uper_ops.simps asn_TYPE_operation.simps by (intro robust_viewed [OF robust_bit_string]) simp_all
next
  case (7 tdc cs t)
  then show ?case unfolding uper_ops.simps asn_TYPE_operation.simps
    by (intro robust_viewed [OF robust_list]) (simp_all add: VList_of_def)
next
  case (8 specs tdc cs ts)
  define E where "E = map (\<lambda>t. type_member False False None (zero_value t) (uper_ops t)) ts"
  have "robust (CHOICE_decode_uper True (\<lambda>_. True) specs E tdc cs)
    (\<lambda>st. \<exists>p w. st = \<lparr>ch_present = Suc p, ch_memb = Some w\<rparr> \<and> p < length E \<and> conforms (ts ! p) w)"
    by (rule robust_choice) (use 8 in \<open>auto simp: E_def list_all_length\<close>)
  then show ?case unfolding uper_ops.simps Let_def asn_TYPE_operation.simps E_def [symmetric]
    by (rule robust_viewed) (auto simp: VChoice_of_def E_def)
next
  case (9 specs ms)
  define R where "R = root_count specs ms"
  define Ps where "Ps = (!) (map (\<lambda>m. conforms (mb_type m)) ms)"
  have mem: "member_ok R i (ms ! i)" "type_ok (mb_type (ms ! i))" if "i < length ms" for i
    using 9(2) that by (auto simp: list_all_length R_def nth_enumerate_eq)
  have "members_robust (sequence_members ms) R Ps"
    unfolding members_robust_def
  proof (intro allI impI)
    fix i assume "i < length (sequence_members ms)"
    then have i: "i < length ms" by (simp add: sequence_members_simps)
    then have "robust (op_uper_decoder (uper_ops (mb_type (ms ! i)))) (Ps i)"
      using 9(1) [of "ms ! i"] mem(2) by (simp add: Ps_def)
    with mem(1) [OF i] i show "robust (elm_decoder (sequence_members ms ! i)) (Ps i) \<and> elm_open_type_get (sequence_members ms ! i) = None \<and>
      (\<forall>dflt slot. elm_default_set (sequence_members ms ! i) = Some dflt \<longrightarrow> (\<exists>d. dflt slot = (0, Some d) \<and> Ps i d)) \<and>
      (\<not> elm_pointer (sequence_members ms ! i) \<longrightarrow>
        i < R \<and> (elm_optional (sequence_members ms ! i) \<longrightarrow> elm_default_set (sequence_members ms ! i) \<noteq> None))"
      by (auto simp: sequence_members_def member_ok_def Ps_def)
  qed
  moreover have "R = root_count specs (sequence_members ms)" by (simp add: R_def root_count_def sequence_members_simps)
  moreover have "tables_ok specs R (length (sequence_members ms))" using 9(2) by (simp add: R_def sequence_members_simps)
  ultimately have "robust (SEQUENCE_decode_uper True (\<lambda>_. True) specs (sequence_members ms)) (slots_ok (sequence_members ms) R Ps)"
    by (rule robust_sequence)
  then show ?case unfolding uper_ops.simps Let_def asn_TYPE_operation.simps sequence_members_def [symmetric]
    by (rule robust_viewed) (simp add: R_def Ps_def)
qed

section \<open>Properties\<close>

text \<open>
  C2: decoding is safe. On every buffer of less than 64 MB, whatever its octets, the unaligned PER decoder of a
  type with sound tables ends without a fault: no read or write out of bounds, no overflow of a signed number,
  no failed assertion, no endless loop. When it reports success it has consumed no more octets than
  there are (or the one octet that an empty encoding takes) and the value has the shape of the type.
\<close>

theorem uper_decode_safe:
  assumes "type_ok t" "sz \<le> length buffer" "sz < 2 ^ 26"
  shows "\<exists>code n r. uper_decode_complete (Some (op_uper_decoder (uper_ops t))) buffer sz = Some (code, n, r) \<and> n \<le> sz \<and>
    (code = RC_OK \<longrightarrow> (\<exists>v m. r = Some (v, m) \<and> conforms t v))"
proof -
  define pd where "pd = \<lparr>pd_mem = buffer, pd_buffer = 0, pd_nboff = 0, pd_nbits = 8 * sz, pd_moved = 0\<rparr>"
  have "pd_inv pd" using assms(2) by (simp add: pd_def pd_inv_def)
  with assms(3) have "pd_fit pd" by (simp add: pd_fit_def length_pd_bits) (simp add: pd_def)
  with type_robust [OF assms(1)] show ?thesis
  proof (cases rule: robustE)
    case (failed code r pd')
    then show ?thesis by (simp add: uper_decode_complete_def uper_decode_def pd_def [symmetric])
  next
    case (ok v m pd')
    then obtain bs where c: "pd_consumes pd bs pd'" by (auto simp: pd_after_def)
    then have pos: "push_bit 3 (pd_buffer pd') + pd_nboff pd' = length bs" "pd_moved pd' = of_nat (length bs)"
      "pd_end pd' = pd_end pd" by (simp_all add: pd_consumes_def pd_pos_def pd_def push_bit_eq_mult)
    have "length bs \<le> 8 * sz"
      using pos(1,3) pd_fit_inv [OF ok(2)] by (simp add: pd_end_def pd_def pd_inv_def push_bit_eq_mult)
    then have le: "(length bs + 7) div 8 \<le> sz" by linarith
    have dec: "uper_decode (Some (op_uper_decoder (uper_ops t))) buffer sz 0 0 = Some (RC_OK, length bs, Some (v, m))"
      using ok(1) pos(1,2) by (simp add: uper_decode_def pd_def c_assert_def del: of_nat_add)
    have "sz \<noteq> 0 \<Longrightarrow> \<exists>b. rd buffer 0 = Some b" using assms(2) by (cases buffer) auto
    with dec le ok(3) show ?thesis
      by (cases "length bs = 0"; cases "sz = 0") (auto simp: uper_decode_complete_def drop_bit_eq_div)
  qed
qed

lemma sample_type_ok: "type_ok sample_int" "type_ok sample_choice"
proof -
  show i: "type_ok sample_int"
    by (simp add: sample_int_def int_type_ok_def sample_int_td_simps int_constraint_ok_def limits_defs)
  have "choice_ok \<lparr>ch_struct_size = 40, to_canonical_order = None, from_canonical_order = None, ext_start = -1\<rparr>
      (choice_constraint (td_per_constraints (sample_int_td 2 1 0 1)) None) (Suc (Suc 0))"
    by (simp add: choice_ok_def choice_constraint_def ranged_def sample_int_td_def)
  then show "type_ok sample_choice" using i by (simp add: sample_choice_def size_ok_def size_constraint_def)
qed

lemma sample_strings_ok: "type_ok (TSequenceOf None None (TOctetString ASN_OSUBV_STR None None))" "type_ok (TBitString None None)"
  by (simp_all add: size_ok_def size_constraint_def octets_type_ok_def os_constraints_def asn_DEF_OCTET_STRING_constraints_def Let_def
      string_size_ok_def os_unit_def chars_ok_def os_unit_bits_def ct_has_def unsigned_of_nat take_bit_eq_mod bits_type_ok_def
      asn_DEF_BIT_STRING_constraint_size_def)

theorem uper_decode_safe_witness:
  "(\<exists>code n r. uper_decode_complete (Some (op_uper_decoder (uper_ops (TSequence (sample_specs [2]) sample_members)))) [0xFF, 0xFF, 0xFF] 3 =
      Some (code, n, r) \<and> n \<le> 3) \<and>
   (\<exists>code n r. uper_decode_complete (Some (op_uper_decoder (uper_ops (TSequenceOf None None (TOctetString ASN_OSUBV_STR None None)))))
      [2, 1, 0x41, 2, 0x42] 5 = Some (code, n, r) \<and> n \<le> 5)"
proof -
  have "type_ok (TSequence (sample_specs [2]) sample_members)"
    using sample_type_ok
    by (simp add: sample_specs_def sample_members_def tables_ok_def mem_load_def root_count_def member_ok_def)
  from uper_decode_safe [OF this, of 3 "[0xFF, 0xFF, 0xFF]"] uper_decode_safe [OF sample_strings_ok(1), of 5 "[2, 1, 0x41, 2, 0x42]"]
  show ?thesis by auto
qed

end
