(* ===== verification/Crange.thy ===== *)
theory Crange
  imports Prelude "HOL-Library.Multiset"
begin

text \<open>
  The ranges of the compiler's constraint checker: \<open>libasn1fix/asn1fix_crange.c\<close>, up to
  \<open>_range_canonicalize\<close>. A range has two edges and, when it is split, a flat array of parts. The
  operations copy, merge, split, intersect, unite and bring into canonical order; what they compute
  is set algebra on whole numbers, as the abstract specification at the end of the theory says.

  Allocation is taken to succeed (the code asserts it); what is freed is gone from the value.
  Messages on \<open>stderr\<close> are not modelled.
\<close>

section \<open>Data\<close>

datatype edge_kind = ARE_MIN | ARE_MAX | ARE_VALUE

record edge =
  edge_type :: edge_kind
  edge_lineno :: int
  edge_value :: int

datatype range_narrowing = NOT_NARROW | NARROW_DOUBLE64 | NARROW_FLOAT32

text \<open>Sorted from softest to strictest narrowing, as the comment in the source says.\<close>

definition narrowing_rank :: "range_narrowing \<Rightarrow> nat" where
  "narrowing_rank n = (case n of NOT_NARROW \<Rightarrow> 0 | NARROW_DOUBLE64 \<Rightarrow> 1 | NARROW_FLOAT32 \<Rightarrow> 2)"

instantiation range_narrowing :: linorder
begin

definition less_eq_range_narrowing :: "range_narrowing \<Rightarrow> range_narrowing \<Rightarrow> bool" where
  "less_eq_range_narrowing m n \<longleftrightarrow> narrowing_rank m \<le> narrowing_rank n"

definition less_range_narrowing :: "range_narrowing \<Rightarrow> range_narrowing \<Rightarrow> bool" where
  "less_range_narrowing m n \<longleftrightarrow> narrowing_rank m < narrowing_rank n"

instance
  by standard (auto simp: less_eq_range_narrowing_def less_range_narrowing_def narrowing_rank_def split: range_narrowing.splits)

end

text \<open>\<open>asn1cnst_range_t\<close>: the scalar fields, and the elements; \<open>el_size\<close> is memory management.\<close>

record range_info =
  left_edge :: edge
  right_edge :: edge
  narrowing :: range_narrowing
  empty_constraint :: bool
  extensible :: bool
  incompatible :: bool
  not_OER_visible :: bool
  not_PER_visible :: bool
  not_JER_visible :: bool

datatype crange = Range (info: range_info) (elements: "crange list")

primrec with_info :: "(range_info \<Rightarrow> range_info) \<Rightarrow> crange \<Rightarrow> crange" where
  "with_info f (Range i es) = Range (f i) es"

abbreviation left :: "crange \<Rightarrow> edge" where "left r \<equiv> left_edge (info r)"
abbreviation right :: "crange \<Rightarrow> edge" where "right r \<equiv> right_edge (info r)"

text \<open>\<open>asn1c_integer_t\<close> has 128 bits; overflow is a fault.\<close>

definition s128 :: "int \<Rightarrow> int option" where
  "s128 x = (if - (2 ^ 127) \<le> x \<and> x < 2 ^ 127 then Some x else None)"

text \<open>
  \<open>for(i = -1; i < el_count; i++)\<close> with a \<open>continue\<close> at \<open>-1\<close> when there are elements visits the range
  itself when it has no elements, and the elements otherwise.
\<close>

definition parts :: "crange \<Rightarrow> crange list" where
  "parts r = (if elements r = [] then [r] else elements r)"

section \<open>Construction\<close>

definition range_new :: crange where
  "range_new = Range \<lparr>left_edge = \<lparr>edge_type = ARE_MIN, edge_lineno = 0, edge_value = 0\<rparr>,
     right_edge = \<lparr>edge_type = ARE_MAX, edge_lineno = 0, edge_value = 0\<rparr>,
     narrowing = NOT_NARROW, empty_constraint = False, extensible = False, incompatible = False,
     not_OER_visible = False, not_PER_visible = False, not_JER_visible = False\<rparr> []"

definition range_remove_element :: "crange \<Rightarrow> nat \<Rightarrow> crange option" where
  "range_remove_element rng idx = do {
     e \<leftarrow> rd (elements rng) idx;
     c_assert (elements e = []);
     Some (Range (info rng) (take idx (elements rng) @ drop (idx + 1) (elements rng))) }"

definition range_insert :: "crange \<Rightarrow> crange \<Rightarrow> crange option" where
  "range_insert into cr = do {
     c_assert (elements cr = []);
     Some (Range (info into) (elements into @ [cr])) }"

fun range_clone :: "crange \<Rightarrow> crange option"
  and range_clone_elements :: "crange list \<Rightarrow> crange \<Rightarrow> crange option" where
  "range_clone (Range i es) = range_clone_elements es (Range i [])"
| "range_clone_elements [] clone = Some clone"
| "range_clone_elements (e # es) clone = do {
     r \<leftarrow> range_clone e;
     clone \<leftarrow> range_insert clone r;
     range_clone_elements es clone }"

section \<open>Comparison\<close>

definition edge_compare :: "edge \<Rightarrow> edge \<Rightarrow> int" where
  "edge_compare el er =
     (case edge_type el of
        ARE_MIN \<Rightarrow> (case edge_type er of ARE_MIN \<Rightarrow> 0 | ARE_MAX \<Rightarrow> -1 | ARE_VALUE \<Rightarrow> -1)
      | ARE_MAX \<Rightarrow> (case edge_type er of ARE_MIN \<Rightarrow> 1 | ARE_MAX \<Rightarrow> 0 | ARE_VALUE \<Rightarrow> 1)
      | ARE_VALUE \<Rightarrow>
          (case edge_type er of
             ARE_MIN \<Rightarrow> 1
           | ARE_MAX \<Rightarrow> -1
           | ARE_VALUE \<Rightarrow>
               if edge_value el < edge_value er then -1
               else if edge_value er < edge_value el then 1
               else 0))"

definition range_compare :: "crange \<Rightarrow> crange \<Rightarrow> int" where
  "range_compare ra rb =
     (let ret = edge_compare (left ra) (left rb) in
      if ret = 0 then edge_compare (right ra) (right rb) else ret)"

definition range_partial_compare :: "crange \<Rightarrow> crange \<Rightarrow> int" where
  "range_partial_compare ra rb = edge_compare (left ra) (left rb)"

definition edge_is_within :: "crange \<Rightarrow> edge \<Rightarrow> bool" where
  "edge_is_within rng edge =
     list_ex (\<lambda>r. edge_compare (left r) edge \<le> 0 \<and> 0 \<le> edge_compare (right r) edge) (parts rng)"

definition check_edges_within :: "crange \<Rightarrow> crange \<Rightarrow> int" where
  "check_edges_within rng r =
     (if \<not> edge_is_within rng (left r) then -1
      else if \<not> edge_is_within rng (right r) then -1
      else 0)"

definition strongest_narrowing :: "crange \<Rightarrow> crange \<Rightarrow> range_narrowing" where
  "strongest_narrowing ar br =
     (let an = narrowing (info ar); bn = narrowing (info br) in
      if an = NOT_NARROW then bn
      else if bn = NOT_NARROW then an
      else if bn < an then an else bn)"

definition softest_narrowing :: "crange \<Rightarrow> crange \<Rightarrow> range_narrowing" where
  "softest_narrowing ar br =
     (let an = narrowing (info ar); bn = narrowing (info br) in
      if an \<noteq> NOT_NARROW then
        if bn \<noteq> NOT_NARROW then (if an < bn then an else bn)
        else if edge_type (left br) = ARE_VALUE \<and> edge_type (right br) = ARE_VALUE then an
        else NOT_NARROW
      else if bn \<noteq> NOT_NARROW then
        if edge_type (left ar) = ARE_VALUE \<and> edge_type (right ar) = ARE_VALUE then bn
        else NOT_NARROW
      else NOT_NARROW)"

section \<open>Merging in\<close>

fun insert_all :: "crange \<Rightarrow> crange list \<Rightarrow> crange option" where
  "insert_all into [] = Some into"
| "insert_all into (r # rs) = do { into \<leftarrow> range_insert into r; insert_all into rs }"

definition range_merge_in :: "crange \<Rightarrow> crange \<Rightarrow> crange option" where
  "range_merge_in into cr =
     (let into = with_info (\<lambda>i. i\<lparr>
            not_OER_visible := not_OER_visible i \<or> not_OER_visible (info cr),
            not_PER_visible := not_PER_visible i \<or> not_PER_visible (info cr),
            not_JER_visible := not_JER_visible i \<or> not_JER_visible (info cr),
            extensible := extensible i \<or> extensible (info cr)\<rparr>) into;
          into = (if extensible (info into)
                  then with_info (\<lambda>i. i\<lparr>not_OER_visible := True, not_JER_visible := True\<rparr>) into else into);
          into = with_info (\<lambda>i. i\<lparr>narrowing := softest_narrowing into cr\<rparr>) into
      in insert_all into (parts cr))"

section \<open>Splitting\<close>

definition range_overlap :: "crange \<Rightarrow> crange \<Rightarrow> bool option" where
  "range_overlap ra rb = do {
     c_assert (edge_compare (left ra) (right ra) \<le> 0);
     c_assert (edge_compare (left rb) (right rb) \<le> 0);
     let lr = edge_compare (left ra) (right rb);
     let rl = edge_compare (right ra) (left rb);
     Some (if 0 < lr then False else if rl < 0 then False else True) }"

text \<open>
  \<open>qsort\<close> of the C library. It leaves the order of elements that compare equal open; the elements
  sorted here differ in line numbers at most when they do.
\<close>

fun qsort_insert :: "('a \<Rightarrow> 'a \<Rightarrow> int) \<Rightarrow> 'a \<Rightarrow> 'a list \<Rightarrow> 'a list" where
  "qsort_insert cmp x [] = [x]"
| "qsort_insert cmp x (y # ys) = (if cmp x y \<le> 0 then x # y # ys else y # qsort_insert cmp x ys)"

definition qsort :: "('a \<Rightarrow> 'a \<Rightarrow> int) \<Rightarrow> 'a list \<Rightarrow> 'a list" where
  "qsort cmp xs = foldr (qsort_insert cmp) xs []"

definition range_partial_sort_elements :: "crange \<Rightarrow> crange" where
  "range_partial_sort_elements r = Range (info r) (qsort range_partial_compare (elements r))"

text \<open>\<open>nr\<close> with its edges set.\<close>

definition new_part :: "edge \<Rightarrow> edge \<Rightarrow> crange" where
  "new_part l r = with_info (\<lambda>i. i\<lparr>left_edge := l, right_edge := r\<rparr>) range_new"

text \<open>The first two \<open>while\<close> loops, left by \<open>break\<close> in their first round.\<close>

definition split_left :: "crange \<Rightarrow> crange \<Rightarrow> crange \<Rightarrow> crange option" where
  "split_left ra rb rng =
     (if edge_type (left rb) = ARE_VALUE then
        if edge_value (left rb) = INTMAX_MIN then Some rng
        else do {
          v \<leftarrow> s128 (edge_value (left rb) - 1);
          range_insert rng (new_part (left ra) ((left rb)\<lparr>edge_value := v\<rparr>)) }
      else range_insert rng (new_part (left ra) (left rb)))"

definition split_right :: "crange \<Rightarrow> crange \<Rightarrow> crange \<Rightarrow> crange option" where
  "split_right ra rb rng =
     (if edge_type (right rb) = ARE_VALUE then
        if edge_value (right rb) = INTMAX_MAX then Some rng
        else do {
          v \<leftarrow> s128 (edge_value (right rb) + 1);
          range_insert rng (new_part ((right rb)\<lparr>edge_value := v\<rparr>) (right ra)) }
      else range_insert rng (new_part (right rb) (right ra)))"

text \<open>\<open>None\<close> inside is the null pointer: nothing to split.\<close>

definition range_split :: "crange \<Rightarrow> crange \<Rightarrow> crange option option" where
  "range_split ra rb = do {
     c_assert (elements ra = []);
     c_assert (elements rb = []);
     overlap \<leftarrow> range_overlap ra rb;
     if \<not> overlap then Some None
     else do {
       let ll = edge_compare (left ra) (left rb);
       let rr = edge_compare (right ra) (right rb);
       if 0 \<le> ll \<and> rr \<le> 0 then Some None
       else do {
         rng \<leftarrow> (if ll < 0 then split_left ra rb range_new else Some range_new);
         rng \<leftarrow> (if 0 < rr then split_right ra rb rng else Some rng);
         rng \<leftarrow> range_insert rng (new_part
            (if edge_compare (left ra) (left rb) < 0 then left rb else left ra)
            (if 0 < edge_compare (right ra) (right rb) then right rb else right ra));
         Some (Some (range_partial_sort_elements rng)) } } }"

section \<open>Intersection\<close>

text \<open>The inner loop over \<open>with\<close>: the first split that is not null.\<close>

fun first_split :: "crange \<Rightarrow> crange list \<Rightarrow> crange option option" where
  "first_split e [] = Some None"
| "first_split e (wel # wels) = do {
     r \<leftarrow> range_split e wel;
     case r of Some r \<Rightarrow> Some (Some r) | None \<Rightarrow> first_split e wels }"

text \<open>
  Splitting the range in pieces: pieces take the place of their element at the end of the array and
  the same index is visited again. Nothing in the code bounds this loop, so it may diverge, which is
  the value \<open>None\<close>, as a fault is.
\<close>

partial_function (option) split_loop :: "crange list \<Rightarrow> nat \<Rightarrow> crange \<Rightarrow> crange option" where
  "split_loop wels i rng =
     (if i < length (elements rng) then do {
        r \<leftarrow> first_split (elements rng ! i) wels;
        case r of
          None \<Rightarrow> split_loop wels (i + 1) rng
        | Some r \<Rightarrow> do {
            rng \<leftarrow> range_remove_element rng i;
            c_assert (elements r \<noteq> []);
            rng \<leftarrow> insert_all rng (elements r);
            split_loop wels i rng } }
      else Some rng)"

text \<open>Removing the pieces that do not overlap with any part.\<close>

fun overlaps_some :: "crange \<Rightarrow> crange list \<Rightarrow> bool option" where
  "overlaps_some e [] = Some False"
| "overlaps_some e (wel # wels) = do {
     overlap \<leftarrow> range_overlap e wel;
     if overlap then Some True else overlaps_some e wels }"

function remove_loop :: "crange list \<Rightarrow> nat \<Rightarrow> crange \<Rightarrow> crange option" where
  "remove_loop wels i rng =
     (if i < length (elements rng) then do {
        found \<leftarrow> overlaps_some (elements rng ! i) wels;
        if found then remove_loop wels (i + 1) rng
        else do {
          rng \<leftarrow> range_remove_element rng i;
          remove_loop wels i rng } }
      else Some rng)"
  by pat_completeness auto
termination
  by (relation "measure (\<lambda>(wels, i, rng). length (elements rng) - i)")
    (auto simp: range_remove_element_def rd_def split: if_splits Option.bind_splits)

declare remove_loop.simps [simp del]

fun check_edges_all :: "crange \<Rightarrow> crange list \<Rightarrow> int" where
  "check_edges_all rng [] = 0"
| "check_edges_all rng (r # rs) = (if check_edges_within rng r \<noteq> 0 then -1 else check_edges_all rng rs)"

text \<open>
  \<open>_range_intersection\<close>: the flags first. Behind the assertions of the branch for OER nothing of that
  branch is left to do.
\<close>

definition intersection_flags :: "crange \<Rightarrow> crange \<Rightarrow> bool \<Rightarrow> crange option" where
  "intersection_flags rng with is_oer = do {
     c_assert (\<not> incompatible (info rng));
     rng \<leftarrow>
       (if is_oer then do {
          c_assert (\<not> extensible (info rng));
          c_assert (\<not> not_OER_visible (info rng));
          c_assert (\<not> not_JER_visible (info rng));
          c_assert (\<not> extensible (info with));
          c_assert (\<not> not_OER_visible (info with));
          c_assert (\<not> not_JER_visible (info with));
          Some rng }
        else Some (with_info (\<lambda>i. i\<lparr>
               extensible := extensible i \<or> extensible (info with),
               not_OER_visible := not_OER_visible i \<or> extensible (info with),
               not_JER_visible := not_JER_visible i \<or> extensible (info with),
               not_PER_visible := not_PER_visible i \<or> not_PER_visible (info with)\<rparr>) rng));
     Some (with_info (\<lambda>i. i\<lparr>
       empty_constraint := empty_constraint i \<or> empty_constraint (info with),
       narrowing := strongest_narrowing rng with\<rparr>) rng) }"

text \<open>Then the parts: the return value with \<open>*range\<close>.\<close>

definition intersect_parts :: "crange \<Rightarrow> crange \<Rightarrow> bool \<Rightarrow> (int \<times> crange) option" where
  "intersect_parts rng with strict_edge_check = do {
     rng \<leftarrow> (if elements rng = [] then range_insert rng (new_part (left rng) (right rng)) else Some rng);
     if strict_edge_check \<and> check_edges_all rng (parts with) \<noteq> 0 then Some (-1, rng)
     else do {
       rng \<leftarrow> split_loop (parts with) 0 rng;
       c_assert (elements rng \<noteq> []);
       rng \<leftarrow> remove_loop (parts with) 0 rng;
       Some (0, if elements rng = [] then with_info (\<lambda>i. i\<lparr>empty_constraint := True\<rparr>) rng else rng) } }"

definition range_intersection :: "crange \<Rightarrow> crange \<Rightarrow> bool \<Rightarrow> bool \<Rightarrow> (int \<times> crange) option" where
  "range_intersection rng with strict_edge_check is_oer = do {
     rng \<leftarrow> intersection_flags rng with is_oer;
     if empty_constraint (info rng) then Some (0, rng)
     else intersect_parts rng with strict_edge_check }"

section \<open>Union and canonical form\<close>

text \<open>The sorted array from the element \<open>i - 1\<close> on: \<open>ra\<close> and \<open>rb\<close> are joined or \<open>ra\<close> is passed.\<close>

definition join_left :: "crange \<Rightarrow> crange \<Rightarrow> crange" where
  "join_left ra rb = with_info (\<lambda>i. i\<lparr>left_edge := left ra\<rparr>) rb"

fun union_loop :: "crange list \<Rightarrow> crange list option" where
  "union_loop (ra # rb # rest) = do {
     overlap \<leftarrow> range_overlap ra rb;
     if overlap then do {
       let rb = (if edge_compare (left ra) (left rb) < 0 then join_left ra rb else rb);
       let rb = (if 0 < edge_compare (right ra) (right rb)
                 then with_info (\<lambda>i. i\<lparr>right_edge := right ra\<rparr>) rb else rb);
       c_assert (elements ra = []);
       union_loop (rb # rest) }
     else if edge_type (right ra) = ARE_VALUE \<and> edge_type (left rb) = ARE_VALUE then do {
       gap \<leftarrow> s128 (edge_value (left rb) - edge_value (right ra));
       if gap = 1 then do {
         c_assert (elements ra = []);
         union_loop (join_left ra rb # rest) }
       else map_option (\<lambda>rs. ra # rs) (union_loop (rb # rest)) }
     else map_option (\<lambda>rs. ra # rs) (union_loop (rb # rest)) }"
| "union_loop rs = Some rs"

definition range_union :: "crange \<Rightarrow> crange option" where
  "range_union rng = do {
     es \<leftarrow> union_loop (qsort range_compare (elements rng));
     Some (Range (info rng) es) }"

definition range_canonicalize :: "crange \<Rightarrow> crange option" where
  "range_canonicalize rng =
     (if elements rng = [] then
        Some (if 0 < edge_compare (left rng) (right rng)
              then with_info (\<lambda>i. i\<lparr>left_edge := right_edge i, right_edge := left_edge i\<rparr>) rng
              else rng)
      else do {
        rng \<leftarrow> range_union rng;
        let rng = with_info (\<lambda>i. i\<lparr>left_edge := left (hd (elements rng)), right_edge := right (last (elements rng))\<rparr>) rng;
        if length (elements rng) = 1 then range_remove_element rng 0 else Some rng })"

section \<open>Whole numbers\<close>

text \<open>
  The abstract specification. An edge is a place on the line of whole numbers: \<open>MIN\<close> and \<open>MAX\<close> stand
  at the ends of what 128 bits hold. A part is an interval, and a range denotes the union of its
  parts. \<open>edge_in B\<close> keeps the values of a range away from the ends.
\<close>

definition place :: "edge \<Rightarrow> int" where
  "place e = (case edge_type e of ARE_MIN \<Rightarrow> - (2 ^ 127) | ARE_MAX \<Rightarrow> 2 ^ 127 | ARE_VALUE \<Rightarrow> edge_value e)"

definition edge_in :: "int \<Rightarrow> edge \<Rightarrow> bool" where
  "edge_in B e \<longleftrightarrow> (edge_type e = ARE_VALUE \<longrightarrow> \<bar>edge_value e\<bar> \<le> B)"

definition interval :: "crange \<Rightarrow> int set" where
  "interval r = {place (left r)..place (right r)}"

definition numbers :: "crange list \<Rightarrow> int set" where
  "numbers rs = (\<Union>r \<in> set rs. interval r)"

definition part_ok :: "int \<Rightarrow> crange \<Rightarrow> bool" where
  "part_ok B r \<longleftrightarrow> elements r = [] \<and> edge_type (left r) \<noteq> ARE_MAX \<and> edge_type (right r) \<noteq> ARE_MIN \<and>
     edge_in B (left r) \<and> edge_in B (right r) \<and> place (left r) \<le> place (right r)"

lemma part_okD:
  assumes "part_ok B r"
  shows "elements r = []" "edge_type (left r) \<noteq> ARE_MAX" "edge_type (right r) \<noteq> ARE_MIN"
    "edge_in B (left r)" "edge_in B (right r)" "place (left r) \<le> place (right r)"
  using assms by (simp_all add: part_ok_def)

lemma edge_in_mono: "edge_in B e \<Longrightarrow> B \<le> C \<Longrightarrow> edge_in C e"
  by (auto simp: edge_in_def)

lemma part_ok_mono: "part_ok B r \<Longrightarrow> B \<le> C \<Longrightarrow> part_ok C r"
  by (auto simp: part_ok_def intro: edge_in_mono)

lemma numbers_simps [simp]:
  "numbers [] = {}" "numbers (r # rs) = interval r \<union> numbers rs" "numbers (rs @ ss) = numbers rs \<union> numbers ss"
  by (simp_all add: numbers_def)

lemma edge_compare_place:
  assumes "edge_in B a" "edge_in B b" "B < 2 ^ 127"
  shows "edge_compare a b = sgn (place a - place b)"
  using assms by (auto simp: edge_compare_def place_def edge_in_def abs_le_iff split: edge_kind.splits)

lemma place_bounds: "edge_in B e \<Longrightarrow> B < 2 ^ 127 \<Longrightarrow> - (2 ^ 127) \<le> place e \<and> place e \<le> 2 ^ 127"
  by (auto simp: place_def edge_in_def abs_le_iff split: edge_kind.splits)

lemma with_info_simps [simp]: "info (with_info f r) = f (info r)" "elements (with_info f r) = elements r"
  by (cases r; simp)+

lemma new_part_simps [simp]: "left (new_part l r) = l" "right (new_part l r) = r" "elements (new_part l r) = []"
  by (simp_all add: new_part_def range_new_def)

lemma range_new_simps [simp]: "elements range_new = []"
  by (simp add: range_new_def)

lemma range_insert_simp [simp]: "elements cr = [] \<Longrightarrow> range_insert into cr = Some (Range (info into) (elements into @ [cr]))"
  by (simp add: range_insert_def)

lemma part_ok_new_part:
  "part_ok B (new_part l r) \<longleftrightarrow> edge_type l \<noteq> ARE_MAX \<and> edge_type r \<noteq> ARE_MIN \<and> edge_in B l \<and> edge_in B r \<and> place l \<le> place r"
  by (simp add: part_ok_def)

lemma interval_new_part [simp]: "interval (new_part l r) = {place l..place r}"
  by (simp add: interval_def)

lemma range_overlap_ok:
  assumes "part_ok B a" "part_ok B b" "B < 2 ^ 127"
  shows "range_overlap a b = Some (interval a \<inter> interval b \<noteq> {})"
proof -
  note a = part_okD [OF assms(1)] and b = part_okD [OF assms(2)]
  note c = edge_compare_place [OF _ _ assms(3)]
  show ?thesis
    unfolding range_overlap_def c [OF a(4,5)] c [OF b(4,5)] c [OF a(4) b(5)] c [OF a(5) b(4)] interval_def
    using a(6) b(6) by (auto simp: sgn_if)
qed

section \<open>Splitting\<close>

definition crosses :: "crange \<Rightarrow> crange \<Rightarrow> bool" where
  "crosses e w \<longleftrightarrow> interval e \<inter> interval w \<noteq> {} \<and> \<not> interval e \<subseteq> interval w"

lemma crosses_iff:
  assumes "part_ok B e" "part_ok B w"
  shows "crosses e w \<longleftrightarrow> place (left e) \<le> place (right w) \<and> place (left w) \<le> place (right e) \<and>
    (place (left e) < place (left w) \<or> place (right w) < place (right e))"
  using part_okD(6) [OF assms(1)] part_okD(6) [OF assms(2)] by (auto simp: crosses_def interval_def)

lemma set_qsort_insert [simp]: "set (qsort_insert cmp x ys) = insert x (set ys)"
  by (induction ys) auto

lemma mset_qsort_insert [simp]: "mset (qsort_insert cmp x ys) = add_mset x (mset ys)"
  by (induction ys) auto

lemma mset_qsort [simp]: "mset (qsort cmp xs) = mset xs"
  unfolding qsort_def by (induction xs) auto

lemma set_qsort [simp]: "set (qsort cmp xs) = set xs"
  by (metis mset_qsort set_mset_mset)

lemma length_qsort [simp]: "length (qsort cmp xs) = length xs"
  by (metis mset_qsort size_mset)

lemma qsort_Nil_iff [simp]: "qsort cmp xs = [] \<longleftrightarrow> xs = []"
  by (metis length_0_conv length_qsort)

lemma numbers_qsort [simp]: "numbers (qsort cmp xs) = numbers xs"
  by (simp add: numbers_def)

text \<open>The numbers a split may lose: those beyond a \<open>with\<close> edge at the end of \<open>intmax_t\<close>.\<close>

definition lost :: "crange \<Rightarrow> int set" where
  "lost w = (if edge_type (left w) = ARE_VALUE \<and> edge_value (left w) = INTMAX_MIN then {..<INTMAX_MIN} else {}) \<union>
     (if edge_type (right w) = ARE_VALUE \<and> edge_value (right w) = INTMAX_MAX then {INTMAX_MAX<..} else {})"

lemma split_left_ok:
  assumes "part_ok C a" "part_ok B w" "B + 1 \<le> C" "C < 2 ^ 127" "place (left a) < place (left w)" "place (left w) \<le> place (right a)"
  shows "\<exists>ps. split_left a w r = Some (Range (info r) (elements r @ ps)) \<and> length ps \<le> 1 \<and> (\<forall>p \<in> set ps. part_ok C p) \<and>
    numbers ps \<subseteq> {place (left a)..<place (left w)} \<and> {place (left a)..<place (left w)} \<subseteq> numbers ps \<union> lost w"
proof -
  note a = part_okD [OF assms(1)] and w = part_okD [OF assms(2)]
  have wl: "edge_type (left w) = ARE_VALUE" "place (left w) = edge_value (left w)" "\<bar>edge_value (left w)\<bar> \<le> B"
    using w(2,4) assms(5) place_bounds [OF a(4) assms(4)]
    by (cases "edge_type (left w)"; simp add: place_def edge_in_def)+
  show ?thesis
  proof (cases "edge_value (left w) = INTMAX_MIN")
    case True
    then show ?thesis using wl by (intro exI [of _ "[]"]) (cases r; auto simp: split_left_def lost_def)
  next
    case False
    define l where "l = (left w)\<lparr>edge_value := edge_value (left w) - 1\<rparr>"
    have l: "place l = place (left w) - 1" "edge_in C l" "edge_type l = ARE_VALUE"
      using wl assms(3) by (auto simp: l_def place_def edge_in_def)
    have "s128 (edge_value (left w) - 1) = Some (edge_value (left w) - 1)"
      using wl(3) assms(3,4) by (simp add: s128_def abs_le_iff)
    then show ?thesis using False wl a l assms(5)
      by (intro exI [of _ "[new_part (left a) l]"])
        (auto simp: split_left_def part_ok_new_part l_def [symmetric])
  qed
qed

lemma split_right_ok:
  assumes "part_ok C a" "part_ok B w" "B + 1 \<le> C" "C < 2 ^ 127" "place (right w) < place (right a)" "place (left a) \<le> place (right w)"
  shows "\<exists>ps. split_right a w r = Some (Range (info r) (elements r @ ps)) \<and> length ps \<le> 1 \<and> (\<forall>p \<in> set ps. part_ok C p) \<and>
    numbers ps \<subseteq> {place (right w)<..place (right a)} \<and> {place (right w)<..place (right a)} \<subseteq> numbers ps \<union> lost w"
proof -
  note a = part_okD [OF assms(1)] and w = part_okD [OF assms(2)]
  have wr: "edge_type (right w) = ARE_VALUE" "place (right w) = edge_value (right w)" "\<bar>edge_value (right w)\<bar> \<le> B"
    using w(3,5) assms(5) place_bounds [OF a(5) assms(4)]
    by (cases "edge_type (right w)"; simp add: place_def edge_in_def)+
  show ?thesis
  proof (cases "edge_value (right w) = INTMAX_MAX")
    case True
    then show ?thesis using wr by (intro exI [of _ "[]"]) (cases r; auto simp: split_right_def lost_def)
  next
    case False
    define l where "l = (right w)\<lparr>edge_value := edge_value (right w) + 1\<rparr>"
    have l: "place l = place (right w) + 1" "edge_in C l" "edge_type l = ARE_VALUE"
      using wr assms(3) by (auto simp: l_def place_def edge_in_def)
    have "s128 (edge_value (right w) + 1) = Some (edge_value (right w) + 1)"
      using wr(3) assms(3,4) by (simp add: s128_def abs_le_iff)
    then show ?thesis using False wr a l assms(5)
      by (intro exI [of _ "[new_part l (right a)]"])
        (auto simp: split_right_def part_ok_new_part l_def [symmetric])
  qed
qed

text \<open>What a split yields: pieces of the element that no longer cross the other range.\<close>

definition split_into :: "int \<Rightarrow> crange \<Rightarrow> crange \<Rightarrow> crange list \<Rightarrow> bool" where
  "split_into C a w ps \<longleftrightarrow> ps \<noteq> [] \<and> length ps \<le> 3 \<and> (\<forall>p \<in> set ps. part_ok C p \<and> interval p \<subseteq> interval a \<and> \<not> crosses p w) \<and>
     interval a \<subseteq> numbers ps \<union> lost w"

lemma range_split_ok:
  assumes "part_ok C a" "part_ok B w" "B + 1 \<le> C" "C < 2 ^ 127"
  shows "if crosses a w then \<exists>r. range_split a w = Some (Some r) \<and> split_into C a w (elements r)
    else range_split a w = Some None"
proof -
  have w': "part_ok C w" using assms(2,3) by (auto intro: part_ok_mono)
  note a = part_okD [OF assms(1)] and w = part_okD [OF w']
  note c = edge_compare_place [OF _ _ assms(4)]
  note ov = range_overlap_ok [OF assms(1) w' assms(4)]
  note cr = crosses_iff [OF assms(1) w']
  define la lw ra rw where d: "la = place (left a)" "lw = place (left w)" "ra = place (right a)" "rw = place (right w)"
  have ll: "edge_compare (left a) (left w) = sgn (la - lw)" and rr: "edge_compare (right a) (right w) = sgn (ra - rw)"
    unfolding d by (rule c [OF a(4) w(4)], rule c [OF a(5) w(5)])
  show ?thesis
  proof (cases "crosses a w")
    case False
    then have "range_split a w = Some None"
      unfolding range_split_def ov ll rr Let_def using a(1,6) w(1) cr by (auto simp: interval_def d sgn_if)
    with False show ?thesis by simp
  next
    case True
    then have le: "la \<le> rw" "lw \<le> ra" "la \<le> ra" "lw \<le> rw" and or: "la < lw \<or> rw < ra" using cr a(6) w(6) by (auto simp: d)
    define es1 where "es1 = (if la < lw then split_left a w range_new else Some range_new)"
    obtain ps where p1: "es1 = Some (Range (info range_new) ps)" "length ps \<le> 1" "\<forall>p \<in> set ps. part_ok C p"
      "numbers ps \<subseteq> {la..<lw}" "{la..<lw} \<subseteq> numbers ps \<union> lost w"
    proof (cases "la < lw")
      case True
      from split_left_ok [OF assms True [unfolded d] le(2) [unfolded d], of range_new] that True show ?thesis
        by (auto simp: es1_def d)
    next
      case False
      with that [of "[]"] show ?thesis by (simp add: es1_def) (simp add: range_new_def)
    qed
    define es2 where "es2 = (if rw < ra then split_right a w (Range (info range_new) ps) else Some (Range (info range_new) ps))"
    obtain qs where p2: "es2 = Some (Range (info range_new) (ps @ qs))" "length qs \<le> 1" "\<forall>p \<in> set qs. part_ok C p"
      "numbers qs \<subseteq> {rw<..ra}" "{rw<..ra} \<subseteq> numbers qs \<union> lost w"
    proof (cases "rw < ra")
      case True
      from split_right_ok [OF assms True [unfolded d] le(1) [unfolded d], of "Range (info range_new) ps"] that True show ?thesis
        by (auto simp: es2_def d)
    next
      case False
      with that [of "[]"] show ?thesis by (simp add: es2_def)
    qed
    define m where "m = new_part (if la < lw then left w else left a) (if rw < ra then right w else right a)"
    have m: "part_ok C m" "interval m = {max la lw..min ra rw}" "elements m = []"
      using a w le by (auto simp: m_def part_ok_new_part d)
    define es where "es = qsort range_partial_compare (ps @ qs @ [m])"
    have r: "range_split a w = Some (Some (Range (info range_new) es))"
      unfolding range_split_def ov ll rr Let_def using a(1) w(1) le or p1(1) p2(1) m(3)
      by (auto simp: interval_def d sgn_if es1_def es2_def m_def es_def range_partial_sort_elements_def split: if_splits)
    have i: "interval p \<subseteq> interval a \<and> \<not> crosses p w" if p: "p \<in> set es" for p
    proof -
      consider "p \<in> set ps" | "p \<in> set qs" | "p = m" using p by (auto simp: es_def)
      then show ?thesis
      proof cases
        case 1
        then have "interval p \<subseteq> {la..<lw}" using p1(4) by (auto simp: numbers_def)
        then show ?thesis using le by (fastforce simp: crosses_def interval_def d)
      next
        case 2
        then have "interval p \<subseteq> {rw<..ra}" using p2(4) by (auto simp: numbers_def)
        then show ?thesis using le by (fastforce simp: crosses_def interval_def d)
      next
        case 3
        then show ?thesis unfolding crosses_def m(2) 3 by (auto simp: interval_def d)
      qed
    qed
    have "interval a \<subseteq> numbers es \<union> lost w"
    proof
      fix x assume "x \<in> interval a"
      then have x: "la \<le> x" "x \<le> ra" by (simp_all add: interval_def d)
      then consider "x \<in> {la..<lw}" | "x \<in> {rw<..ra}" | "x \<in> interval m" unfolding m(2) by force
      then show "x \<in> numbers es \<union> lost w" using p1(5) p2(5) by (cases, auto simp: es_def)
    qed
    then have "split_into C a w es"
      using i p1(2,3) p2(2,3) m(1) by (auto simp: split_into_def es_def)
    with r True show ?thesis by auto
  qed
qed

section \<open>The loops of the intersection\<close>

lemma first_split_ok:
  assumes "part_ok C e" "\<forall>w \<in> set wels. part_ok B w" "B + 1 \<le> C" "C < 2 ^ 127"
  shows "first_split e wels = Some None \<and> (\<forall>w \<in> set wels. \<not> crosses e w) \<or>
    (\<exists>r. \<exists>w \<in> set wels. first_split e wels = Some (Some r) \<and> crosses e w \<and> split_into C e w (elements r))"
  using assms(2)
proof (induction wels)
  case (Cons w wels)
  then have "part_ok B w" by simp
  from range_split_ok [OF assms(1) this assms(3,4)] Cons show ?case by (auto split: if_splits)
qed simp

text \<open>Every split takes a crossing away, and no piece crosses what its element did not.\<close>

definition crossings :: "crange list \<Rightarrow> crange \<Rightarrow> nat" where
  "crossings wels e = length (filter (crosses e) wels)"

lemma filter_less:
  "\<lbrakk>\<forall>x \<in> set xs. P x \<longrightarrow> Q x; x \<in> set xs; Q x; \<not> P x\<rbrakk> \<Longrightarrow> length (filter P xs) < length (filter Q xs)"
proof (induction xs)
  case (Cons y xs)
  have "length (filter P xs) \<le> length (filter Q xs)" if "\<forall>x \<in> set xs. P x \<longrightarrow> Q x" for xs
    using that by (induction xs) auto
  from this [of xs] Cons show ?case by auto
qed simp

lemma crossings_less:
  assumes "split_into C e w ps" "w \<in> set wels" "crosses e w" "p \<in> set ps"
  shows "crossings wels p < crossings wels e"
proof -
  have p: "interval p \<subseteq> interval e" "\<not> crosses p w" using assms(1,4) by (auto simp: split_into_def)
  then have "crosses p v \<Longrightarrow> crosses e v" for v by (auto simp: crosses_def)
  with p(2) assms(2,3) show ?thesis unfolding crossings_def by (intro filter_less [of _ _ _ w]) auto
qed

definition loop_weight :: "crange list \<Rightarrow> crange list \<Rightarrow> nat" where
  "loop_weight wels es = sum_list (map (\<lambda>e. 4 ^ crossings wels e) es)"

lemma sum_list_bound: "\<forall>x \<in> set xs. f x \<le> (k :: nat) \<Longrightarrow> sum_list (map f xs) \<le> length xs * k"
  by (induction xs) auto

lemma loop_weight_split:
  assumes "split_into C e w ps" "w \<in> set wels" "crosses e w"
  shows "loop_weight wels ps < 4 ^ crossings wels e"
proof -
  have c: "crossings wels p < crossings wels e" if "p \<in> set ps" for p by (rule crossings_less [OF assms that])
  obtain n where n: "crossings wels e = Suc n" using c assms(1) by (cases "crossings wels e"; cases ps) (auto simp: split_into_def)
  have "4 ^ crossings wels p \<le> (4 :: nat) ^ n" if "p \<in> set ps" for p using c [OF that] n by (intro power_increasing) simp_all
  then have "loop_weight wels ps \<le> length ps * 4 ^ n" unfolding loop_weight_def by (intro sum_list_bound) simp
  also have "\<dots> \<le> 3 * 4 ^ n" using assms(1) by (simp add: split_into_def)
  finally have "loop_weight wels ps \<le> 3 * 4 ^ n" .
  moreover have "(3 :: nat) * 4 ^ n < 4 ^ Suc n" by simp
  ultimately show ?thesis unfolding n by (rule order.strict_trans1)
qed

lemma insert_all_ok:
  "\<forall>e \<in> set es. elements e = [] \<Longrightarrow> insert_all rg es = Some (Range (info rg) (elements rg @ es))"
  by (induction es arbitrary: rg) simp_all

lemma range_remove_element_ok:
  "i < length (elements rg) \<Longrightarrow> elements (elements rg ! i) = [] \<Longrightarrow>
     range_remove_element rg i = Some (Range (info rg) (take i (elements rg) @ drop (i + 1) (elements rg)))"
  by (simp add: range_remove_element_def)

text \<open>What the splitting loop leaves: pieces that no longer cross any part of \<open>with\<close>, and no number of it lost.\<close>

definition split_out :: "int \<Rightarrow> crange list \<Rightarrow> crange list \<Rightarrow> crange list \<Rightarrow> bool" where
  "split_out C wels es ps \<longleftrightarrow> ps \<noteq> [] \<and> (\<forall>e \<in> set ps. part_ok C e \<and> (\<forall>w \<in> set wels. \<not> crosses e w)) \<and>
     numbers ps \<subseteq> numbers es \<and> numbers es \<inter> numbers wels \<subseteq> numbers ps"

lemma split_out_trans:
  assumes "split_out C wels es' ps" "numbers es' \<subseteq> numbers es" "numbers es \<inter> numbers wels \<subseteq> numbers es'"
  shows "split_out C wels es ps"
  using assms unfolding split_out_def by blast

lemma split_loop_ok:
  assumes "\<forall>w \<in> set wels. part_ok B w \<and> lost w \<inter> numbers wels = {}" "B + 1 \<le> C" "C < 2 ^ 127"
    and "\<forall>e \<in> set (elements rg). part_ok C e" "elements rg \<noteq> []"
    and "\<forall>e \<in> set (take i (elements rg)). \<forall>w \<in> set wels. \<not> crosses e w"
  shows "\<exists>ps. split_loop wels i rg = Some (Range (info rg) ps) \<and> split_out C wels (elements rg) ps"
  using assms(4-6)
proof (induction "loop_weight wels (drop i (elements rg))" arbitrary: i rg rule: less_induct)
  case less
  define es where "es = elements rg"
  have rg: "rg = Range (info rg) es" by (simp add: es_def)
  show ?case
  proof (cases "i < length es")
    case False
    then show ?thesis using less.prems
      by (subst split_loop.simps) (intro exI [of _ es], auto simp: es_def split_out_def)
  next
    case True
    define e where "e = es ! i"
    have d: "drop i es = e # drop (i + 1) es" using True by (simp add: e_def Cons_nth_drop_Suc)
    have wd: "loop_weight wels (drop i es) = 4 ^ crossings wels e + loop_weight wels (drop (i + 1) es)"
      unfolding d by (simp add: loop_weight_def)
    have es: "es = take i es @ e # drop (i + 1) es" using True by (simp add: e_def id_take_nth_drop)
    have e: "part_ok C e" using less.prems(1) True by (simp add: es_def e_def)
    have "\<forall>w \<in> set wels. part_ok B w" using assms(1) by blast
    from first_split_ok [OF e this assms(2,3)] show ?thesis
    proof (elim disjE exE bexE conjE)
      assume f: "first_split e wels = Some None" "\<forall>w \<in> set wels. \<not> crosses e w"
      have "split_loop wels i rg = split_loop wels (i + 1) rg"
        using f(1) True by (subst split_loop.simps) (simp add: es_def e_def)
      moreover have "\<forall>e \<in> set (take (i + 1) es). \<forall>w \<in> set wels. \<not> crosses e w"
        using less.prems(3) f(2) True by (simp add: es_def e_def take_Suc_conv_app_nth)
      ultimately show ?thesis using less.hyps [of "i + 1" rg] less.prems wd by (simp add: es_def)
    next
      fix r w assume f: "w \<in> set wels" "first_split e wels = Some (Some r)" "crosses e w" "split_into C e w (elements r)"
      define ps where "ps = elements r"
      define es' where "es' = take i es @ drop (i + 1) es @ ps"
      have ps: "ps \<noteq> []" "\<forall>p \<in> set ps. part_ok C p \<and> interval p \<subseteq> interval e" "interval e \<subseteq> numbers ps \<union> lost w"
        using f(4) by (auto simp: split_into_def ps_def)
      have fl: "\<forall>p \<in> set ps. elements p = []" using ps(2) by (auto dest: part_okD(1))
      have "split_loop wels i rg = split_loop wels i (Range (info rg) es')"
        using f(2) True ps(1) insert_all_ok [OF fl] part_okD(1) [OF e]
        by (subst split_loop.simps) (simp add: es_def e_def es'_def ps_def range_remove_element_ok)
      moreover have "loop_weight wels (drop i es') < loop_weight wels (drop i es)"
        using loop_weight_split [OF f(4,1,3)] True unfolding wd by (simp add: es'_def ps_def loop_weight_def)
      moreover have "\<forall>e \<in> set es'. part_ok C e"
        using less.prems(1) ps(2) by (auto simp: es'_def es_def dest: in_set_takeD in_set_dropD)
      moreover have "\<forall>e \<in> set (take i es'). \<forall>w \<in> set wels. \<not> crosses e w" using less.prems(3) True by (simp add: es'_def es_def)
      ultimately obtain qs where q: "split_loop wels i rg = Some (Range (info rg) qs)" "split_out C wels es' qs"
        using less.hyps [of i "Range (info rg) es'"] ps(1) by (auto simp: es_def [symmetric] es'_def)
      have ne: "numbers es = numbers (take i es) \<union> interval e \<union> numbers (drop (i + 1) es)"
        by (subst es, simp add: Un_assoc)
      have "numbers ps \<subseteq> interval e" using ps(2) by (auto simp: numbers_def)
      moreover have "lost w \<inter> numbers wels = {}" using assms(1) f(1) by blast
      ultimately have "split_out C wels es qs" using ps(3)
        by (intro split_out_trans [OF q(2)]) (auto simp: ne es'_def)
      with q(1) show ?thesis by (auto simp: es_def)
    qed
  qed
qed

lemma overlaps_some_ok:
  assumes "part_ok C e" "\<forall>w \<in> set wels. part_ok C w" "C < 2 ^ 127"
  shows "overlaps_some e wels = Some (interval e \<inter> numbers wels \<noteq> {})"
  using assms(2)
proof (induction wels)
  case (Cons w wels)
  then have "range_overlap e w = Some (interval e \<inter> interval w \<noteq> {})" by (intro range_overlap_ok [OF assms(1) _ assms(3)]) simp
  with Cons show ?case by auto
qed simp

lemma remove_loop_ok:
  assumes "\<forall>w \<in> set wels. part_ok C w" "C < 2 ^ 127" "\<forall>e \<in> set (elements rg). part_ok C e"
  shows "remove_loop wels i rg = Some (Range (info rg)
    (take i (elements rg) @ filter (\<lambda>e. interval e \<inter> numbers wels \<noteq> {}) (drop i (elements rg))))"
  using assms(3,1)
proof (induction wels i rg rule: remove_loop.induct)
  case (1 wels i rg)
  show ?case
  proof (cases "i < length (elements rg)")
    case True
    define e where "e = elements rg ! i"
    have e: "part_ok C e" "drop i (elements rg) = e # drop (i + 1) (elements rg)"
      using 1(3) True by (simp_all add: e_def Cons_nth_drop_Suc)
    have o: "overlaps_some e wels = Some (interval e \<inter> numbers wels \<noteq> {})" by (rule overlaps_some_ok [OF e(1) 1(4) assms(2)])
    show ?thesis
    proof (cases "interval e \<inter> numbers wels = {}")
      case True
      define rg' where "rg' = Range (info rg) (take i (elements rg) @ drop (i + 1) (elements rg))"
      have r: "range_remove_element rg i = Some rg'"
        using \<open>i < length (elements rg)\<close> part_okD(1) [OF e(1)] by (simp add: e_def rg'_def range_remove_element_ok)
      have "remove_loop wels i rg = remove_loop wels i rg'"
        using \<open>i < length (elements rg)\<close> o r True by (subst remove_loop.simps) (simp add: e_def)
      moreover have "\<forall>e \<in> set (elements rg'). part_ok C e" using 1(3) by (auto simp: rg'_def dest: in_set_takeD in_set_dropD)
      ultimately show ?thesis
        using 1(2) [of False rg'] 1(4) o r True \<open>i < length (elements rg)\<close> e(2) by (simp add: e_def rg'_def)
    next
      case False
      have "remove_loop wels i rg = remove_loop wels (i + 1) rg"
        using \<open>i < length (elements rg)\<close> o False by (subst remove_loop.simps) (simp add: e_def)
      then show ?thesis
        using 1(1) [of True] 1(3,4) o False \<open>i < length (elements rg)\<close> e(2) by (simp add: e_def take_Suc_conv_app_nth)
    qed
  qed (subst remove_loop.simps, simp)
qed

section \<open>Intersection and canonical form\<close>

definition range_ok :: "int \<Rightarrow> crange \<Rightarrow> bool" where
  "range_ok B r \<longleftrightarrow> (\<forall>p \<in> set (parts r). part_ok B p)"

definition denotes :: "crange \<Rightarrow> int set" where
  "denotes r = numbers (parts r)"

lemma parts_nonempty [simp]: "parts r \<noteq> []"
  by (simp add: parts_def)

lemma edge_is_within_ok:
  assumes "range_ok B r" "edge_in B e" "B < 2 ^ 127"
  shows "edge_is_within r e \<longleftrightarrow> place e \<in> denotes r"
proof -
  have "edge_compare (left p) e \<le> 0 \<and> 0 \<le> edge_compare (right p) e \<longleftrightarrow> place e \<in> interval p" if "p \<in> set (parts r)" for p
  proof -
    have p: "edge_in B (left p)" "edge_in B (right p)" using assms(1) that by (auto simp: range_ok_def part_ok_def)
    show ?thesis unfolding edge_compare_place [OF p(1) assms(2,3)] edge_compare_place [OF p(2) assms(2,3)] interval_def
      by (auto simp: sgn_if)
  qed
  then show ?thesis by (auto simp: edge_is_within_def denotes_def numbers_def list_ex_iff)
qed

definition edges_inside :: "crange \<Rightarrow> crange \<Rightarrow> bool" where
  "edges_inside r w \<longleftrightarrow> (\<forall>p \<in> set (parts w). place (left p) \<in> denotes r \<and> place (right p) \<in> denotes r)"

lemma check_edges_all_ok:
  assumes "range_ok B r" "\<forall>p \<in> set ps. part_ok B p" "B < 2 ^ 127"
  shows "check_edges_all r ps = (if \<forall>p \<in> set ps. place (left p) \<in> denotes r \<and> place (right p) \<in> denotes r then 0 else -1)"
  using assms(2)
proof (induction ps)
  case (Cons p ps)
  then have p: "edge_in B (left p)" "edge_in B (right p)" by (simp_all add: part_ok_def)
  from Cons show ?case
    by (auto simp: check_edges_within_def edge_is_within_ok [OF assms(1) p(1) assms(3)] edge_is_within_ok [OF assms(1) p(2) assms(3)])
qed simp

text \<open>No number of \<open>with\<close> lies beyond an edge of it at the end of \<open>intmax_t\<close>.\<close>

definition keeps_all :: "crange \<Rightarrow> bool" where
  "keeps_all w \<longleftrightarrow> (\<forall>p \<in> set (parts w). lost p \<inter> denotes w = {})"

definition no_flags :: "crange \<Rightarrow> bool" where
  "no_flags r \<longleftrightarrow> \<not> extensible (info r) \<and> \<not> not_OER_visible (info r) \<and> \<not> not_JER_visible (info r)"

lemma single_part:
  assumes "part_ok C r" "rg = Range i [new_part (left r) (right r)]"
  shows "\<forall>p \<in> set (elements rg). part_ok C p" "numbers (elements rg) = interval r"
  using assms by (auto simp: part_ok_def interval_def)

text \<open>The flags of an intersection that has something to intersect.\<close>

lemma intersection_flags_ok:
  assumes "\<not> incompatible (info rg)" "oer \<Longrightarrow> no_flags rg \<and> no_flags w"
  obtains i where "intersection_flags rg w oer = Some (Range i (elements rg))"
    "left_edge i = left rg" "right_edge i = right rg" "\<not> incompatible i"
    "empty_constraint i \<longleftrightarrow> empty_constraint (info rg) \<or> empty_constraint (info w)"
    "extensible i \<longleftrightarrow> extensible (info rg) \<or> extensible (info w)"
proof -
  define i where "i = info (the (intersection_flags rg w oer))"
  have f: "intersection_flags rg w oer = Some (Range i (elements rg))"
    using assms by (cases rg; cases oer) (simp_all add: i_def intersection_flags_def no_flags_def)
  then have "i = info (the (intersection_flags rg w oer))" by (simp add: i_def)
  with f assms show thesis
    by (cases rg; cases oer) (auto intro!: that simp: intersection_flags_def no_flags_def)
qed

lemma intersect_parts_ok:
  assumes "range_ok C rg" "range_ok B w" "B + 1 \<le> C" "C < 2 ^ 127" "keeps_all w"
    and "\<not> empty_constraint (info rg)" "strict \<Longrightarrow> edges_inside rg w"
  obtains qs where "intersect_parts rg w strict = Some (0, Range ((info rg)\<lparr>empty_constraint := qs = []\<rparr>) qs)"
    "qs = [] \<longleftrightarrow> denotes rg \<inter> denotes w = {}" "\<forall>p \<in> set qs. part_ok C p" "numbers qs = denotes rg \<inter> denotes w"
proof -
  have wC: "\<forall>p \<in> set (parts w). part_ok C p" "range_ok C w"
    using assms(2,3) by (auto simp: range_ok_def intro: part_ok_mono)
  define i where "i = info rg"
  define rg1 where "rg1 = Range i (if elements rg = [] then [new_part (left rg) (right rg)] else elements rg)"
  have e1: "\<forall>p \<in> set (elements rg1). part_ok C p" "numbers (elements rg1) = denotes rg" "elements rg1 \<noteq> []"
    using assms(1) single_part [of C rg] by (auto simp: rg1_def range_ok_def parts_def denotes_def)
  have d1: "denotes rg1 = denotes rg" "range_ok C rg1" using e1 by (simp_all add: denotes_def parts_def range_ok_def)
  have "\<forall>p \<in> set (parts w). part_ok B p \<and> lost p \<inter> numbers (parts w) = {}"
    using assms(2,5) by (auto simp: range_ok_def keeps_all_def denotes_def)
  from split_loop_ok [OF this assms(3,4) e1(1,3), of 0]
  obtain ps where ps: "split_loop (parts w) 0 rg1 = Some (Range i ps)" "split_out C (parts w) (elements rg1) ps"
    by (auto simp: rg1_def)
  define qs where "qs = filter (\<lambda>e. interval e \<inter> denotes w \<noteq> {}) ps"
  have pc: "\<forall>e \<in> set ps. part_ok C e" "ps \<noteq> []" using ps(2) by (simp_all add: split_out_def)
  have rm: "remove_loop (parts w) 0 (Range i ps) = Some (Range i qs)"
    using remove_loop_ok [OF wC(1) assms(4), of "Range i ps" 0] pc(1) by (simp add: qs_def denotes_def)
  have in_w: "interval e \<subseteq> denotes w" if e: "e \<in> set qs" for e
  proof -
    obtain p where "p \<in> set (parts w)" "interval e \<inter> interval p \<noteq> {}"
      using e by (auto simp: qs_def denotes_def numbers_def)
    moreover have "\<not> crosses e p" using e ps(2) calculation(1) by (auto simp: qs_def split_out_def)
    ultimately show ?thesis unfolding crosses_def denotes_def numbers_def by blast
  qed
  have nq: "numbers qs = denotes rg \<inter> denotes w"
  proof -
    have "numbers qs \<subseteq> numbers ps" by (auto simp: qs_def numbers_def)
    moreover have "numbers ps \<inter> denotes w \<subseteq> numbers qs" by (fastforce simp: qs_def numbers_def)
    moreover have "numbers ps \<subseteq> denotes rg" "denotes rg \<inter> denotes w \<subseteq> numbers ps"
      using ps(2) e1(2) by (auto simp: split_out_def denotes_def [of w])
    moreover have "numbers qs \<subseteq> denotes w" using in_w by (auto simp: numbers_def)
    ultimately show ?thesis by blast
  qed
  have qe: "qs = [] \<longleftrightarrow> denotes rg \<inter> denotes w = {}"
  proof
    assume "denotes rg \<inter> denotes w = {}"
    then have "interval q = {}" if "q \<in> set qs" for q using that nq by (auto simp: numbers_def)
    moreover have "interval q \<noteq> {}" if "q \<in> set qs" for q using that pc by (auto simp: qs_def interval_def part_ok_def)
    ultimately show "qs = []" by (cases qs) auto
  qed (use nq in simp)
  have strict: "\<not> (strict \<and> check_edges_all rg1 (parts w) \<noteq> 0)"
    using check_edges_all_ok [OF d1(2) wC(1) assms(4)] assms(7) by (auto simp: d1(1) edges_inside_def)
  have r1: "(if elements rg = [] then range_insert rg (new_part (left rg) (right rg)) else Some rg) = Some rg1"
    by (cases rg) (simp add: rg1_def i_def)
  have "intersect_parts rg w strict = Some (0, if qs = [] then with_info (\<lambda>i. i\<lparr>empty_constraint := True\<rparr>) (Range i qs) else Range i qs)"
    unfolding intersect_parts_def r1 Option.bind.simps using strict pc(2) by (simp add: ps(1) rm del: with_info_simps)
  moreover have "i\<lparr>empty_constraint := False\<rparr> = i" using assms(6) by (simp add: i_def)
  ultimately have "intersect_parts rg w strict = Some (0, Range (i\<lparr>empty_constraint := qs = []\<rparr>) qs)" by (cases "qs = []") simp_all
  then show thesis using pc(1) by (intro that [OF _ qe _ nq]) (auto simp: i_def qs_def)
qed

lemma intersect_parts_refused:
  assumes "range_ok B rg" "range_ok B w" "B < 2 ^ 127" "\<not> edges_inside rg w"
  obtains r where "intersect_parts rg w True = Some (-1, r)"
proof -
  define rg1 where "rg1 = Range (info rg) (if elements rg = [] then [new_part (left rg) (right rg)] else elements rg)"
  have r1: "(if elements rg = [] then range_insert rg (new_part (left rg) (right rg)) else Some rg) = Some rg1"
    by (cases rg) (simp add: rg1_def)
  have "range_ok B rg1" "denotes rg1 = denotes rg"
    using assms(1) single_part [of B rg] by (auto simp: rg1_def range_ok_def parts_def denotes_def)
  moreover have "\<forall>p \<in> set (parts w). part_ok B p" using assms(2) by (simp add: range_ok_def)
  ultimately have "check_edges_all rg1 (parts w) \<noteq> 0"
    using check_edges_all_ok [of B rg1 "parts w"] assms(3,4) by (auto simp: edges_inside_def)
  then have "intersect_parts rg w True = Some (-1, rg1)"
    unfolding intersect_parts_def r1 Option.bind.simps by simp
  then show thesis by (rule that)
qed

lemma qsort_sorted:
  assumes "\<And>x y. x \<in> set xs \<Longrightarrow> y \<in> set xs \<Longrightarrow> cmp x y \<le> 0 \<Longrightarrow> R x y"
    and "\<And>x y. x \<in> set xs \<Longrightarrow> y \<in> set xs \<Longrightarrow> 0 < cmp x y \<Longrightarrow> R y x"
    and "\<And>x y z. R x y \<Longrightarrow> R y z \<Longrightarrow> R x z"
  shows "sorted_wrt R (qsort cmp xs)"
proof -
  have ins: "sorted_wrt R (qsort_insert cmp x ys)" if "x \<in> set xs" "set ys \<subseteq> set xs" "sorted_wrt R ys" for x ys
    using that
  proof (induction ys)
    case (Cons y ys)
    show ?case
    proof (cases "cmp x y \<le> 0")
      case True
      then have "R x y" using assms(1) [of x y] Cons.prems by simp
      with True Cons.prems show ?thesis using assms(3) [of x y] by auto
    next
      case False
      then have "R y x" using assms(2) [of x y] Cons.prems by simp
      with False Cons show ?thesis by auto
    qed
  qed simp
  have "set ys \<subseteq> set xs \<Longrightarrow> sorted_wrt R (foldr (qsort_insert cmp) ys [])" for ys
  proof (induction ys)
    case (Cons y ys)
    have "set (foldr (qsort_insert cmp) ys []) = set ys" using set_qsort [of cmp ys] by (simp add: qsort_def)
    with Cons show ?case by (simp add: ins)
  qed simp
  then show ?thesis by (simp add: qsort_def)
qed

text \<open>Canonical parts: in order, with a number missing between neighbours.\<close>

definition separated :: "crange list \<Rightarrow> bool" where
  "separated rs \<longleftrightarrow> sorted_wrt (\<lambda>a b. place (right a) + 1 < place (left b)) rs"

definition left_sorted :: "crange list \<Rightarrow> bool" where
  "left_sorted rs \<longleftrightarrow> sorted_wrt (\<lambda>a b. place (left a) \<le> place (left b)) rs"

lemma left_sorted_qsort:
  assumes "\<forall>r \<in> set rs. part_ok B r" "B < 2 ^ 127"
  shows "left_sorted (qsort range_compare rs)"
proof -
  have c: "range_compare x y = (if place (left x) = place (left y) then sgn (place (right x) - place (right y)) else sgn (place (left x) - place (left y)))"
    if "x \<in> set rs" "y \<in> set rs" for x y
  proof -
    have o: "part_ok B x" "part_ok B y" using assms(1) that by blast+
    note e = edge_compare_place [OF _ _ assms(2)]
    have "edge_compare (left x) (left y) = sgn (place (left x) - place (left y))" "edge_compare (right x) (right y) = sgn (place (right x) - place (right y))"
      by (rule e [OF part_okD(4) [OF o(1)] part_okD(4) [OF o(2)]], rule e [OF part_okD(5) [OF o(1)] part_okD(5) [OF o(2)]])
    then show ?thesis by (auto simp: range_compare_def Let_def sgn_if)
  qed
  show ?thesis unfolding left_sorted_def
    by (rule qsort_sorted) (auto simp: c sgn_if split: if_splits)
qed

lemma join_left_simps [simp]:
  "info (join_left ra rb) = (info rb)\<lparr>left_edge := left ra\<rparr>" "elements (join_left ra rb) = elements rb"
  by (simp_all add: join_left_def)

lemma part_ok_with_left:
  "part_ok B ra \<Longrightarrow> part_ok B rb \<Longrightarrow> place (left ra) \<le> place (right rb) \<Longrightarrow> part_ok B (join_left ra rb)"
  by (simp add: part_ok_def join_left_def)

lemma part_ok_with_right:
  "part_ok B ra \<Longrightarrow> part_ok B rb \<Longrightarrow> place (left rb) \<le> place (right ra) \<Longrightarrow>
     part_ok B (with_info (\<lambda>i. i\<lparr>right_edge := right ra\<rparr>) rb)"
  by (simp add: part_ok_def)

lemma union_step:
  assumes "part_ok B ra" "part_ok B rb" "2 * B < 2 ^ 127" "place (left ra) \<le> place (left rb)"
  obtains m where "union_loop (ra # rb # rest) = union_loop (m # rest)" "part_ok B m"
      "interval m = interval ra \<union> interval rb" "place (left m) = place (left ra)"
    | "union_loop (ra # rb # rest) = map_option (\<lambda>rs. ra # rs) (union_loop (rb # rest))" "place (right ra) + 1 < place (left rb)"
proof -
  have B: "B < 2 ^ 127" using assms(3) by simp
  note a = part_okD [OF assms(1)] and b = part_okD [OF assms(2)]
  note ov = range_overlap_ok [OF assms(1,2) B]
  have l: "edge_compare (left ra) (left rb) = sgn (place (left ra) - place (left rb))"
    and r: "edge_compare (right ra) (right rb) = sgn (place (right ra) - place (right rb))"
    by (rule edge_compare_place [OF a(4) b(4) B], rule edge_compare_place [OF a(5) b(5) B])
  show thesis
  proof (cases "interval ra \<inter> interval rb = {}")
    case False
    then have o: "place (left rb) \<le> place (right ra)" using a(6) b(6) assms(4) by (auto simp: interval_def)
    define m1 where "m1 = (if place (left ra) < place (left rb) then join_left ra rb else rb)"
    define m where "m = (if place (right rb) < place (right ra) then with_info (\<lambda>i. i\<lparr>right_edge := right ra\<rparr>) m1 else m1)"
    have u: "union_loop (ra # rb # rest) = union_loop (m # rest)"
      using False a(1) by (simp add: ov l r Let_def m_def m1_def)
    have m1: "part_ok B m1" "place (left m1) = place (left ra)" "right m1 = right rb"
      using part_ok_with_left [OF assms(1,2)] assms(2,4) b(6) by (auto simp: m1_def join_left_def)
    have m: "part_ok B m" "place (left m) = place (left ra)" "place (right m) = max (place (right ra)) (place (right rb))"
      using part_ok_with_right [OF assms(1) m1(1)] m1 a(6) by (auto simp: m_def)
    have "interval m = interval ra \<union> interval rb" using m(2,3) o assms(4) a(6) b(6) by (auto simp: interval_def)
    with that(1) u m show thesis by blast
  next
    case True
    then have o: "place (right ra) < place (left rb)" using a(6) b(6) assms(4) by (auto simp: interval_def not_less)
    have t: "edge_type (right ra) = ARE_VALUE" "edge_type (left rb) = ARE_VALUE"
      using o a(3,6) b(2) assms(4) place_bounds [OF b(4) B] place_bounds [OF a(5) B] place_bounds [OF a(4) B]
      by (cases "edge_type (right ra)"; cases "edge_type (left rb)"; simp add: place_def)+
    then have p: "place (right ra) = edge_value (right ra)" "place (left rb) = edge_value (left rb)"
      "\<bar>edge_value (right ra)\<bar> \<le> B" "\<bar>edge_value (left rb)\<bar> \<le> B"
      using a(5) b(4) by (simp_all add: place_def edge_in_def)
    have g: "s128 (edge_value (left rb) - edge_value (right ra)) = Some (edge_value (left rb) - edge_value (right ra))"
      using p(3,4) assms(3) by (simp add: s128_def abs_le_iff)
    show thesis
    proof (cases "place (left rb) - place (right ra) = 1")
      case True
      have "union_loop (ra # rb # rest) = union_loop (join_left ra rb # rest)"
        using o \<open>interval ra \<inter> interval rb = {}\<close> True a(1) by (simp add: ov t p(1,2) s128_def)
      moreover have "interval (join_left ra rb) = interval ra \<union> interval rb"
        using True a(6) b(6) by (auto simp: interval_def join_left_def)
      moreover have "part_ok B (join_left ra rb)" using part_ok_with_left [OF assms(1,2)] assms(4) b(6) by simp
      ultimately show thesis using that(1) by (simp add: join_left_def)
    next
      case False
      have "union_loop (ra # rb # rest) = map_option (\<lambda>rs. ra # rs) (union_loop (rb # rest))"
        using \<open>interval ra \<inter> interval rb = {}\<close> False by (simp add: ov t g p(1,2))
      then show thesis using that(2) o False by simp
    qed
  qed
qed

definition union_out :: "int \<Rightarrow> crange list \<Rightarrow> crange list \<Rightarrow> bool" where
  "union_out B rs us \<longleftrightarrow> numbers us = numbers rs \<and> (\<forall>u \<in> set us. part_ok B u) \<and> separated us \<and> (us = [] \<longleftrightarrow> rs = [])"

lemma part_inside: "part_ok B u \<Longrightarrow> u \<in> set us \<Longrightarrow> place (left u) \<in> numbers us"
  by (auto simp: part_ok_def numbers_def interval_def)

lemma union_loop_ok:
  assumes "\<forall>r \<in> set rs. part_ok B r" "2 * B < 2 ^ 127" "left_sorted rs"
  shows "\<exists>us. union_loop rs = Some us \<and> union_out B rs us"
  using assms(1,3)
proof (induction "length rs" arbitrary: rs rule: less_induct)
  case less
  consider "rs = []" | r where "rs = [r]" | ra rb rest where "rs = ra # rb # rest" by (cases rs; cases "tl rs") auto
  then show ?case
  proof cases
    case 3
    then have o: "part_ok B ra" "part_ok B rb" "place (left ra) \<le> place (left rb)"
      using less.prems by (auto simp: left_sorted_def)
    from o(1,2) assms(2) o(3) show ?thesis
    proof (rule union_step [where rest = rest])
      fix m assume m: "union_loop (ra # rb # rest) = union_loop (m # rest)" "part_ok B m"
        "interval m = interval ra \<union> interval rb" "place (left m) = place (left ra)"
      have "left_sorted (m # rest)" using less.prems(2) by (simp add: 3 left_sorted_def m(4))
      with less.hyps [of "m # rest"] less.prems(1) m show ?thesis by (auto simp: 3 union_out_def)
    next
      assume m: "union_loop (ra # rb # rest) = map_option (\<lambda>rs. ra # rs) (union_loop (rb # rest))" "place (right ra) + 1 < place (left rb)"
      have "left_sorted (rb # rest)" using less.prems(2) by (simp add: 3 left_sorted_def)
      with less.hyps [of "rb # rest"] less.prems(1) obtain us where u: "union_loop (rb # rest) = Some us" "union_out B (rb # rest) us"
        by (auto simp: 3)
      have "place (left rb) \<le> x" if x: "x \<in> numbers (rb # rest)" for x
        using x less.prems(2) by (auto simp: 3 left_sorted_def numbers_def interval_def intro: order_trans)
      then have "place (left rb) \<le> place (left v)" if "v \<in> set us" for v
        using part_inside [of B v us] that u(2) by (auto simp: union_out_def)
      then have "separated (ra # us)" using u(2) m(2) by (fastforce simp: union_out_def separated_def)
      with u m(1) o(1) show ?thesis by (auto simp: 3 union_out_def)
    qed
  qed (use less.prems in \<open>auto simp: union_out_def separated_def\<close>)
qed

text \<open>
  The canonical form: one part, or several in order with gaps between them, and the edges of the range
  are the outermost ones.
\<close>

definition canonical :: "int \<Rightarrow> crange \<Rightarrow> bool" where
  "canonical B r \<longleftrightarrow> range_ok B r \<and> separated (parts r) \<and> length (elements r) \<noteq> 1 \<and>
     left r = left (hd (parts r)) \<and> right r = right (last (parts r))"

lemma range_canonicalize_single:
  assumes "elements r = []" "part_ok B r" "B < 2 ^ 127"
  shows "range_canonicalize r = Some r" "canonical B r"
proof -
  have "edge_compare (left r) (right r) = sgn (place (left r) - place (right r))"
    using edge_compare_place [OF part_okD(4,5) [OF assms(2)] assms(3)] .
  then show "range_canonicalize r = Some r" using part_okD(6) [OF assms(2)] assms(1) by (simp add: range_canonicalize_def sgn_if)
  show "canonical B r" using assms by (simp add: canonical_def range_ok_def parts_def separated_def)
qed

lemma range_canonicalize_elements:
  assumes "elements r \<noteq> []" "\<forall>p \<in> set (elements r). part_ok B p" "2 * B < 2 ^ 127"
  obtains r' where "range_canonicalize r = Some r'" "canonical B r'" "denotes r' = numbers (elements r)"
    "info r' = (info r)\<lparr>left_edge := left r', right_edge := right r'\<rparr>"
proof -
  define es where "es = qsort range_compare (elements r)"
  have "\<forall>p \<in> set es. part_ok B p" "left_sorted es"
    using assms(2,3) left_sorted_qsort [of "elements r" B] by (simp_all add: es_def)
  then obtain us where u: "union_loop es = Some us" "union_out B es us" using union_loop_ok [of es B] assms(3) by blast
  have us: "us \<noteq> []" "numbers us = numbers (elements r)" "\<forall>u \<in> set us. part_ok B u" "separated us"
    using u(2) assms(1) by (auto simp: union_out_def es_def)
  define i where "i = (info r)\<lparr>left_edge := left (hd us), right_edge := right (last us)\<rparr>"
  have c: "range_canonicalize r = (if length us = 1 then range_remove_element (Range i us) 0 else Some (Range i us))"
    using assms(1) u(1) by (simp add: range_canonicalize_def range_union_def es_def i_def)
  show thesis
  proof (cases "length us = 1")
    case True
    then obtain p where p: "us = [p]" by (cases us) auto
    then have "range_canonicalize r = Some (Range i [])" using c us(3) by (simp add: range_remove_element_def part_ok_def)
    then show thesis
      by (rule that) (use us p in \<open>auto simp: canonical_def range_ok_def parts_def part_ok_def separated_def denotes_def interval_def i_def\<close>)
  next
    case False
    then have "range_canonicalize r = Some (Range i us)" using c by simp
    then show thesis
      by (rule that) (use us False in \<open>auto simp: canonical_def range_ok_def parts_def denotes_def i_def\<close>)
  qed
qed

text \<open>Separated parts are determined by what they denote.\<close>

definition edges :: "crange \<Rightarrow> int \<times> int" where
  "edges r = (place (left r), place (right r))"

lemma separated_Cons:
  assumes "separated (a # us)" "\<forall>u \<in> set (a # us). part_ok B u" "x \<in> numbers us"
  shows "place (right a) + 1 < x" "place (left a) < x"
  using assms by (auto simp: separated_def numbers_def interval_def part_ok_def; fastforce)+

lemma separated_head:
  assumes "separated (a # us)" "separated (b # vs)" "\<forall>u \<in> set (a # us). part_ok B u" "\<forall>v \<in> set (b # vs). part_ok B v"
    and "numbers (a # us) = numbers (b # vs)"
  shows "place (left b) \<le> place (left a)" "place (right b) \<le> place (right a)"
proof -
  note ia = separated_Cons [OF assms(1,3)] and ib = separated_Cons [OF assms(2,4)]
  have o: "place (left a) \<le> place (right a)" "place (left b) \<le> place (right b)" using assms(3,4) by (simp_all add: part_ok_def)
  have "place (left a) \<in> numbers (b # vs)" unfolding assms(5) [symmetric] using o by (simp add: interval_def)
  then show l: "place (left b) \<le> place (left a)" using ib(2) by (force simp: interval_def)
  show "place (right b) \<le> place (right a)"
  proof (rule ccontr)
    assume "\<not> ?thesis"
    then have "place (right a) + 1 \<in> numbers (b # vs)" using l o by (simp add: interval_def)
    then have "place (right a) + 1 \<in> numbers (a # us)" unfolding assms(5) .
    then show False using ia(1) by (auto simp: interval_def)
  qed
qed

lemma separated_unique:
  assumes "separated us" "separated vs" "\<forall>u \<in> set us. part_ok B u" "\<forall>v \<in> set vs. part_ok B v" "numbers us = numbers vs"
  shows "map edges us = map edges vs"
  using assms
proof (induction us arbitrary: vs)
  case Nil
  then show ?case by (cases vs) (auto simp: part_ok_def interval_def)
next
  case (Cons a us)
  obtain b vs' where v: "vs = b # vs'" using Cons.prems by (cases vs) (auto simp: part_ok_def interval_def)
  note h = separated_head [OF Cons.prems(1) Cons.prems(2) [unfolded v] Cons.prems(3) Cons.prems(4) [unfolded v] Cons.prems(5) [unfolded v]]
    separated_head [OF Cons.prems(2) [unfolded v] Cons.prems(1) Cons.prems(4) [unfolded v] Cons.prems(3) Cons.prems(5) [unfolded v, symmetric]]
  have e: "edges a = edges b" using h by (simp add: edges_def)
  then have i: "interval a = interval b" by (simp add: edges_def interval_def)
  have d: "interval a \<inter> numbers us = {}" "interval b \<inter> numbers vs' = {}"
    using separated_Cons(1) [OF Cons.prems(1,3)] separated_Cons(1) [OF Cons.prems(2,4) [unfolded v]] by (force simp: interval_def)+
  have "numbers us = numbers vs'" using Cons.prems(5) d unfolding v i numbers_simps by blast
  with Cons.IH [of vs'] Cons.prems e show ?case by (auto simp: v separated_def)
qed

section \<open>Properties\<close>

definition number_edge :: "int \<Rightarrow> edge" where
  "number_edge v = \<lparr>edge_type = ARE_VALUE, edge_lineno = 0, edge_value = v\<rparr>"

definition max_edge :: edge where
  "max_edge = \<lparr>edge_type = ARE_MAX, edge_lineno = 0, edge_value = 0\<rparr>"

definition min_edge :: edge where
  "min_edge = \<lparr>edge_type = ARE_MIN, edge_lineno = 0, edge_value = 0\<rparr>"

lemma sample_edges [simp]:
  "edge_type (number_edge v) = ARE_VALUE" "edge_value (number_edge v) = v" "place (number_edge v) = v" "edge_in B (number_edge v) \<longleftrightarrow> \<bar>v\<bar> \<le> B"
  "edge_type max_edge = ARE_MAX" "place max_edge = 2 ^ 127" "edge_in B max_edge"
  "edge_type min_edge = ARE_MIN" "place min_edge = - (2 ^ 127)" "edge_in B min_edge"
  by (simp_all add: number_edge_def max_edge_def min_edge_def place_def edge_in_def)

lemma parts_new_part [simp]: "parts (new_part l r) = [new_part l r]"
  by (simp add: parts_def)

lemma new_part_flags [simp]:
  "\<not> empty_constraint (info (new_part l r))" "\<not> incompatible (info (new_part l r))" "no_flags (new_part l r)"
  by (simp_all add: new_part_def range_new_def no_flags_def)

lemma same_range:
  assumes "left a = left b" "right a = right b" "elements a = elements b"
  shows "denotes a = denotes b" "range_ok C a = range_ok C b"
  using assms by (cases "elements b = []"; simp add: denotes_def range_ok_def parts_def interval_def part_ok_def)+

text \<open>
  C33: the intersection of two ranges is the intersection of the sets of numbers they denote. The
  loops of \<open>_range_intersection\<close> end, no assertion fails and nothing overflows; with the strict check
  the result is \<open>-1\<close> exactly when an edge of \<open>with\<close> lies outside, and the range is marked empty
  exactly when nothing is left. The values keep away from the ends of 128 bits, and \<open>keeps_all\<close>
  excludes parts beyond an edge at the end of \<open>intmax_t\<close>.
\<close>

theorem range_intersection_exact:
  assumes "range_ok C rg" "range_ok B w" "B + 1 \<le> C" "C < 2 ^ 127" "keeps_all w"
    and "\<not> incompatible (info rg)" "oer \<Longrightarrow> no_flags rg \<and> no_flags w"
    and "\<not> empty_constraint (info rg)" "\<not> empty_constraint (info w)"
  shows "\<exists>r. range_intersection rg w strict oer = Some (if strict \<and> \<not> edges_inside rg w then -1 else 0, r) \<and>
    (\<not> strict \<or> edges_inside rg w \<longrightarrow>
       numbers (elements r) = denotes rg \<inter> denotes w \<and> (empty_constraint (info r) \<longleftrightarrow> denotes rg \<inter> denotes w = {}))"
proof -
  from intersection_flags_ok [OF assms(6,7)]
  obtain i where i: "intersection_flags rg w oer = Some (Range i (elements rg))" "left_edge i = left rg" "right_edge i = right rg"
    "\<not> empty_constraint i" using assms(8,9) by metis
  define rg' where "rg' = Range i (elements rg)"
  have "left rg' = left rg" "right rg' = right rg" "elements rg' = elements rg" using i(2,3) by (simp_all add: rg'_def)
  from same_range [OF this] assms(1) have r: "range_ok C rg'" "denotes rg' = denotes rg" "edges_inside rg' w = edges_inside rg w" by (simp_all add: edges_inside_def)
  have u: "range_intersection rg w strict oer = intersect_parts rg' w strict"
    using i(1,4) by (simp add: range_intersection_def rg'_def)
  show ?thesis
  proof (cases "strict \<and> \<not> edges_inside rg w")
    case True
    have "range_ok C w" using assms(2,3) by (auto simp: range_ok_def intro: part_ok_mono)
    with intersect_parts_refused [OF r(1) _ assms(4), of w] True r(3) u show ?thesis by auto
  next
    case False
    then have e: "\<not> empty_constraint (info rg')" "strict \<Longrightarrow> edges_inside rg' w" using i(4) r(3) by (auto simp: rg'_def)
    obtain qs where "intersect_parts rg' w strict = Some (0, Range ((info rg')\<lparr>empty_constraint := qs = []\<rparr>) qs)"
      "qs = [] \<longleftrightarrow> denotes rg' \<inter> denotes w = {}" "\<forall>p \<in> set qs. part_ok C p" "numbers qs = denotes rg' \<inter> denotes w"
      by (rule intersect_parts_ok [OF r(1) assms(2-5) e])
    with False u r(2) show ?thesis by auto
  qed
qed

theorem range_intersection_exact_witness:
  "\<exists>r. range_intersection (new_part min_edge (number_edge 20)) (new_part (number_edge 10) (number_edge 15)) True False = Some (0, r) \<and>
    numbers (elements r) = {10..15}"
  using range_intersection_exact [of 21 "new_part min_edge (number_edge 20)" 20 "new_part (number_edge 10) (number_edge 15)" False True]
  by (auto simp: range_ok_def part_ok_new_part keeps_all_def lost_def INTMAX_MIN_def INTMAX_MAX_def edges_inside_def denotes_def min_def max_def)

text \<open>
  C34: \<open>_range_canonicalize\<close> computes a normal form. Ranges split into parts are brought into order with
  touching and overlapping parts joined, nothing added and nothing lost; and two ranges get the
  same edges, part by part, exactly when they denote the same numbers.
\<close>

theorem range_canonicalize_normal_form:
  assumes "elements r \<noteq> []" "\<forall>p \<in> set (elements r). part_ok B p"
    and "elements s \<noteq> []" "\<forall>p \<in> set (elements s). part_ok B p" "2 * B < 2 ^ 127"
  shows "\<exists>r' s'. range_canonicalize r = Some r' \<and> range_canonicalize s = Some s' \<and>
    canonical B r' \<and> denotes r' = numbers (elements r) \<and>
    (map edges (parts r') = map edges (parts s') \<longleftrightarrow> numbers (elements r) = numbers (elements s))"
proof -
  obtain r' where r: "range_canonicalize r = Some r'" "canonical B r'" "denotes r' = numbers (elements r)"
    by (rule range_canonicalize_elements [OF assms(1,2,5)])
  obtain s' where s: "range_canonicalize s = Some s'" "canonical B s'" "denotes s' = numbers (elements s)"
    by (rule range_canonicalize_elements [OF assms(3,4,5)])
  have "denotes r' = (\<Union>(a, b) \<in> set (map edges (parts r')). {a..b})" for r'
    by (auto simp: denotes_def numbers_def interval_def edges_def)
  then have "map edges (parts r') = map edges (parts s') \<Longrightarrow> denotes r' = denotes s'" by metis
  moreover have "denotes r' = denotes s' \<Longrightarrow> map edges (parts r') = map edges (parts s')"
    using r(2) s(2) by (intro separated_unique [of _ _ B]) (simp_all add: canonical_def range_ok_def denotes_def)
  ultimately show ?thesis using r s by auto
qed

theorem range_canonicalize_normal_form_witness:
  "\<exists>r' s'. range_canonicalize (Range (info range_new) [new_part (number_edge 5) (number_edge 9), new_part (number_edge 1) (number_edge 4)]) = Some r' \<and>
    range_canonicalize (Range (info range_new) [new_part (number_edge 1) (number_edge 9)]) = Some s' \<and>
    map edges (parts r') = map edges (parts s')"
proof -
  have "{5..9} \<union> {1..4} = {1..9::int}" by auto
  then show ?thesis
    using range_canonicalize_normal_form [of "Range (info range_new) [new_part (number_edge 5) (number_edge 9), new_part (number_edge 1) (number_edge 4)]" 9
      "Range (info range_new) [new_part (number_edge 1) (number_edge 9)]"]
    by (auto simp: part_ok_new_part)
qed

text \<open>
  The splitting loop need not end. When the element \<open>(MIN..MAX)\<close> meets a part that starts at
  \<open>MAX\<close>, as \<open>(MAX..MAX)\<close> does, \<open>_range_split\<close> puts \<open>(MIN..MAX)\<close> itself among the pieces: the loop
  never returns.
\<close>

lemma max_part_splits:
  "range_split (new_part min_edge max_edge) (new_part max_edge max_edge) =
     Some (Some (Range (info range_new) [new_part min_edge max_edge, new_part max_edge max_edge]))"
  "range_split (new_part max_edge max_edge) (new_part max_edge max_edge) = Some None"
  by (simp_all add: range_split_def range_overlap_def edge_compare_def Let_def split_left_def range_partial_sort_elements_def qsort_def
      range_partial_compare_def)

lemma split_loop_never:
  assumes "split_loop wels i rg = Some r" "wels = [new_part max_edge max_edge]"
    "set (elements rg) \<subseteq> {new_part min_edge max_edge, new_part max_edge max_edge}" "new_part min_edge max_edge \<in> set (drop i (elements rg))"
  shows False
proof -
  define P where "P = (\<lambda>wels i rg (r :: crange). wels = [new_part max_edge max_edge] \<longrightarrow>
    set (elements rg) \<subseteq> {new_part min_edge max_edge, new_part max_edge max_edge} \<longrightarrow> new_part min_edge max_edge \<notin> set (drop i (elements rg)))"
  have "P wels i rg r"
  proof (rule split_loop.raw_induct [OF _ assms(1)])
    fix f wels i rg r
    assume ih: "\<And>wels i rg r. f wels i rg = Some r \<Longrightarrow> P wels i rg r"
      and step: "(if i < length (elements rg) then first_split (elements rg ! i) wels \<bind>
           (\<lambda>r. case r of None \<Rightarrow> f wels (i + 1) rg
             | Some r \<Rightarrow> range_remove_element rg i \<bind> (\<lambda>rg. c_assert (elements r \<noteq> []) \<bind> (\<lambda>_. insert_all rg (elements r) \<bind> f wels i)))
         else Some rg) = Some r"
    show "P wels i rg r" unfolding P_def
    proof (intro impI notI)
      assume w: "wels = [new_part max_edge max_edge]" and es: "set (elements rg) \<subseteq> {new_part min_edge max_edge, new_part max_edge max_edge}"
        and "new_part min_edge max_edge \<in> set (drop i (elements rg))"
      then have l: "i < length (elements rg)" by (cases "i < length (elements rg)") auto
      then have m: "new_part min_edge max_edge = elements rg ! i \<or> new_part min_edge max_edge \<in> set (drop (i + 1) (elements rg))"
        using \<open>_ \<in> set (drop i _)\<close> by (simp add: Cons_nth_drop_Suc [symmetric])
      have "elements rg ! i \<in> set (elements rg)" using l by simp
      with es consider "elements rg ! i = new_part min_edge max_edge" | "elements rg ! i = new_part max_edge max_edge" by blast
      then show False
      proof cases
        case 1
        define es' where "es' = take i (elements rg) @ drop (i + 1) (elements rg) @ [new_part min_edge max_edge, new_part max_edge max_edge]"
        have "f wels i (Range (info rg) es') = Some r"
          using step l 1 max_part_splits by (simp add: w range_remove_element_def es'_def)
        moreover have "set es' \<subseteq> {new_part min_edge max_edge, new_part max_edge max_edge}"
          using es by (auto simp: es'_def dest: in_set_takeD in_set_dropD)
        ultimately show False using ih [of wels i "Range (info rg) es'" r] w l by (simp add: P_def es'_def)
      next
        case 2
        have "new_part min_edge max_edge \<noteq> new_part max_edge max_edge" by (metis edge_kind.distinct(1) new_part_simps(1) sample_edges(5) sample_edges(8))
        then have "new_part min_edge max_edge \<in> set (drop (i + 1) (elements rg))" using m 2 by auto
        moreover have "f wels (i + 1) rg = Some r" using step l 2 max_part_splits by (simp add: w)
        ultimately show False using ih [of wels "i + 1" rg r] w es by (simp add: P_def)
      qed
    qed
  qed
  then show False using assms(2-4) by (simp add: P_def)
qed

theorem split_loop_diverges:
  "split_loop [new_part max_edge max_edge] 0 (Range i [new_part min_edge max_edge]) = None"
  using split_loop_never [of "[new_part max_edge max_edge]" 0 "Range i [new_part min_edge max_edge]"]
  by (cases "split_loop [new_part max_edge max_edge] 0 (Range i [new_part min_edge max_edge])") auto

text \<open>
  With integers of 128 bits an intersection can lose numbers. The limit of \<open>intmax_t\<close> stops
  \<open>_range_split\<close> from keeping what lies above an upper edge of \<open>INTMAX_MAX\<close>, so the second part of
  \<open>with\<close> has nothing left to intersect: the result denotes only the numbers of the first part.
\<close>

theorem range_intersection_loses:
  "\<exists>r. range_intersection (new_part min_edge max_edge)
      (Range (info range_new) [new_part (number_edge 0) (number_edge INTMAX_MAX), new_part (number_edge (2 ^ 70)) (number_edge (2 ^ 80))])
      False False = Some (0, r) \<and> map edges (elements r) = [(0, INTMAX_MAX)]"
  by (simp add: range_intersection_def intersection_flags_def intersect_parts_def split_loop.simps remove_loop.simps range_split_def range_overlap_def
    edge_compare_def Let_def split_left_def split_right_def s128_def INTMAX_MAX_def INTMAX_MIN_def range_partial_sort_elements_def
    qsort_def range_partial_compare_def parts_def edges_def range_new_def range_remove_element_def new_part_def)

end
