(* ===== verification/Constraint_Range.thy ===== *)
theory Constraint_Range
  imports Crange
begin

unbundle bit_operations_syntax

text \<open>
  The effective range of a constraint: \<open>_range_fill\<close>, \<open>asn1f_real_range_from_WCOMPS\<close> and
  \<open>asn1constraint_compute_constraint_range\<close> of \<open>libasn1fix/asn1fix_crange.c\<close>, with
  \<open>asn1fix_constraint_compat.c\<close>. The compiler walks the tree of a constraint and computes the range of
  values, sizes or characters that it leaves.
\<close>

section \<open>Trees\<close>

text \<open>
  \<open>asn1p_value_t\<close>, with the data of the values looked at here; a reference is the text that
  \<open>asn1p_ref_string\<close> makes of it.
\<close>

datatype asn1p_value =
    ATV_NOVALUE | ATV_TYPE | ATV_NULL | ATV_REAL | ATV_INTEGER int | ATV_MAX | ATV_MIN | ATV_TRUE | ATV_FALSE
  | ATV_TUPLE int | ATV_QUADRUPLE int | ATV_STRING "u8 list" | ATV_UNPARSED | ATV_BITVECTOR | ATV_VALUESET
  | ATV_REFERENCED string | ATV_CHOICE_IDENTIFIER

datatype constraint_type =
    ACT_INVALID | ACT_EL_TYPE | ACT_EL_VALUE | ACT_EL_RANGE | ACT_EL_LLRANGE | ACT_EL_RLRANGE | ACT_EL_ULRANGE | ACT_EL_EXT
  | ACT_CT_SIZE | ACT_CT_FROM | ACT_CT_WCOMP | ACT_CT_WCOMPS | ACT_CT_CTDBY | ACT_CT_CTNG | ACT_CT_PATTERN
  | ACT_CA_SET | ACT_CA_CRC | ACT_CA_CSV | ACT_CA_UNI | ACT_CA_INT | ACT_CA_EXC | ACT_CA_AEX

record constraint_info =
  ct_type :: constraint_type
  ct_value :: "asn1p_value option"
  ct_range_start :: "asn1p_value option"
  ct_range_stop :: "asn1p_value option"
  ct_lineno :: int

datatype asn1p_constraint = Constraint (ct_info: constraint_info) (ct_elements: "asn1p_constraint list")

text \<open>\<open>asn1p_expr_type_e\<close> is an enumeration of numbers whose bits tell the group of the type.\<close>

type_synonym expr_type = u32

abbreviation A1TC_INSTANCE :: expr_type where "A1TC_INSTANCE \<equiv> 10"
abbreviation ASN_CONSTR_SEQUENCE :: expr_type where "ASN_CONSTR_SEQUENCE \<equiv> 0x20"
abbreviation ASN_CONSTR_CHOICE :: expr_type where "ASN_CONSTR_CHOICE \<equiv> 0x21"
abbreviation ASN_CONSTR_SET :: expr_type where "ASN_CONSTR_SET \<equiv> 0x22"
abbreviation ASN_CONSTR_SEQUENCE_OF :: expr_type where "ASN_CONSTR_SEQUENCE_OF \<equiv> 0x23"
abbreviation ASN_CONSTR_SET_OF :: expr_type where "ASN_CONSTR_SET_OF \<equiv> 0x24"
abbreviation ASN_BASIC_BOOLEAN :: expr_type where "ASN_BASIC_BOOLEAN \<equiv> 0x41"
abbreviation ASN_BASIC_INTEGER :: expr_type where "ASN_BASIC_INTEGER \<equiv> 0x43"
abbreviation ASN_BASIC_REAL :: expr_type where "ASN_BASIC_REAL \<equiv> 0x44"
abbreviation ASN_BASIC_ENUMERATED :: expr_type where "ASN_BASIC_ENUMERATED \<equiv> 0x45"
abbreviation ASN_BASIC_BIT_STRING :: expr_type where "ASN_BASIC_BIT_STRING \<equiv> 0x46"
abbreviation ASN_BASIC_OCTET_STRING :: expr_type where "ASN_BASIC_OCTET_STRING \<equiv> 0x47"
abbreviation ASN_BASIC_EXTERNAL :: expr_type where "ASN_BASIC_EXTERNAL \<equiv> 0x4A"
abbreviation ASN_BASIC_EMBEDDED_PDV :: expr_type where "ASN_BASIC_EMBEDDED_PDV \<equiv> 0x4B"
abbreviation ASN_BASIC_CHARACTER_STRING :: expr_type where "ASN_BASIC_CHARACTER_STRING \<equiv> 0x4C"
abbreviation ASN_BASIC_UTCTime :: expr_type where "ASN_BASIC_UTCTime \<equiv> 0x4D"
abbreviation ASN_BASIC_GeneralizedTime :: expr_type where "ASN_BASIC_GeneralizedTime \<equiv> 0x4E"
abbreviation ASN_STRING_NKM_MASK :: u32 where "ASN_STRING_NKM_MASK \<equiv> 0x200"
abbreviation ASN_STRING_MASK :: u32 where "ASN_STRING_MASK \<equiv> 0x300"
abbreviation ASN_STRING_IA5String :: expr_type where "ASN_STRING_IA5String \<equiv> 0x100"
abbreviation ASN_STRING_PrintableString :: expr_type where "ASN_STRING_PrintableString \<equiv> 0x101"
abbreviation ASN_STRING_VisibleString :: expr_type where "ASN_STRING_VisibleString \<equiv> 0x102"
abbreviation ASN_STRING_NumericString :: expr_type where "ASN_STRING_NumericString \<equiv> 0x104"
abbreviation ASN_STRING_UniversalString :: expr_type where "ASN_STRING_UniversalString \<equiv> 0x105"
abbreviation ASN_STRING_BMPString :: expr_type where "ASN_STRING_BMPString \<equiv> 0x106"
abbreviation ASN_STRING_UTF8String :: expr_type where "ASN_STRING_UTF8String \<equiv> 0x200"

definition asn1constraint_compatible :: "expr_type \<Rightarrow> constraint_type \<Rightarrow> bool \<Rightarrow> int" where
  "asn1constraint_compatible expr_type constr_type fbless_SIZE =
     (let string = (expr_type AND ASN_STRING_MASK \<noteq> 0) in
      case constr_type of
        ACT_INVALID \<Rightarrow> 0
      | ACT_EL_TYPE \<Rightarrow> 1
      | ACT_EL_VALUE \<Rightarrow> 1
      | ACT_EL_EXT \<Rightarrow> -1
      | ACT_CT_FROM \<Rightarrow> (if string then 1 else 0)
      | ACT_CT_SIZE \<Rightarrow>
          (if expr_type = ASN_BASIC_INTEGER \<or> expr_type = ASN_BASIC_ENUMERATED then (if fbless_SIZE then 1 else 0)
           else if expr_type \<in> {ASN_BASIC_BIT_STRING, ASN_BASIC_OCTET_STRING, ASN_BASIC_CHARACTER_STRING,
                                ASN_CONSTR_SEQUENCE_OF, ASN_CONSTR_SET_OF} then 1
           else if string then 1 else 0)
      | ACT_CT_WCOMP \<Rightarrow> (if expr_type \<in> {A1TC_INSTANCE, ASN_BASIC_EXTERNAL, ASN_BASIC_EMBEDDED_PDV, ASN_BASIC_REAL,
            ASN_BASIC_CHARACTER_STRING, ASN_CONSTR_CHOICE, ASN_CONSTR_SEQUENCE, ASN_CONSTR_SEQUENCE_OF, ASN_CONSTR_SET,
            ASN_CONSTR_SET_OF} then 1 else 0)
      | ACT_CT_WCOMPS \<Rightarrow> (if expr_type \<in> {A1TC_INSTANCE, ASN_BASIC_EXTERNAL, ASN_BASIC_EMBEDDED_PDV, ASN_BASIC_REAL,
            ASN_BASIC_CHARACTER_STRING, ASN_CONSTR_CHOICE, ASN_CONSTR_SEQUENCE, ASN_CONSTR_SEQUENCE_OF, ASN_CONSTR_SET,
            ASN_CONSTR_SET_OF} then 1 else 0)
      | ACT_CT_CTDBY \<Rightarrow> 1
      | ACT_CT_CTNG \<Rightarrow> (if expr_type = ASN_BASIC_OCTET_STRING \<or> expr_type = ASN_BASIC_BIT_STRING then 1 else 0)
      | ACT_CT_PATTERN \<Rightarrow> (if string then 1 else 0)
      | ACT_CA_SET \<Rightarrow> 1 | ACT_CA_CRC \<Rightarrow> 1 | ACT_CA_CSV \<Rightarrow> 1 | ACT_CA_UNI \<Rightarrow> 1 | ACT_CA_INT \<Rightarrow> 1
      | ACT_CA_EXC \<Rightarrow> 1 | ACT_CA_AEX \<Rightarrow> 1
      | _ \<comment> \<open>the four ranges\<close> \<Rightarrow>
          (if expr_type \<in> {ASN_BASIC_ENUMERATED, ASN_BASIC_BOOLEAN, ASN_BASIC_INTEGER, ASN_BASIC_REAL} then 1
           else if string then 1 else 0))"

section \<open>Alphabets\<close>

text \<open>A range between two values, as the macro \<open>DECL_RANGE\<close> declares it.\<close>

definition value_edge :: "int \<Rightarrow> edge" where
  "value_edge v = \<lparr>edge_type = ARE_VALUE, edge_lineno = 0, edge_value = v\<rparr>"

definition DECL_RANGE :: "int \<Rightarrow> int \<Rightarrow> bool \<Rightarrow> bool \<Rightarrow> crange list \<Rightarrow> crange" where
  "DECL_RANGE lb ub ov pv es =
     Range ((info range_new)\<lparr>left_edge := value_edge lb, right_edge := value_edge ub, not_OER_visible := ov, not_PER_visible := pv\<rparr>) es"

abbreviation DECL :: "int \<Rightarrow> int \<Rightarrow> crange" where "DECL lb ub \<equiv> DECL_RANGE lb ub False False []"

definition asn1constraint_default_alphabet :: "expr_type \<Rightarrow> crange option option" where
  "asn1constraint_default_alphabet expr_type =
     (if expr_type = ASN_STRING_NumericString then
        Some (Some (DECL_RANGE 0x20 0x39 False False [DECL 0x20 0x20, DECL 0x30 0x39]))
      else if expr_type = ASN_STRING_PrintableString then
        Some (Some (DECL_RANGE 0x20 0x7a False False
          [DECL 0x20 0x20, DECL 0x27 0x29, DECL 0x2b 0x3a, DECL 0x3d 0x3d, DECL 0x3f 0x3f, DECL 0x41 0x5a, DECL 0x61 0x7a]))
      else if expr_type = ASN_STRING_VisibleString then Some (Some (DECL 0x20 0x7e))
      else if expr_type = ASN_STRING_IA5String then Some (Some (DECL 0x00 0x7f))
      else if expr_type = ASN_STRING_BMPString then Some (Some (DECL 0x00 65533))
      else if expr_type = ASN_STRING_UTF8String then Some (Some (DECL_RANGE 0x00 0x7fffffff True True []))
      else if expr_type = ASN_STRING_UniversalString then Some (Some (DECL 0x00 0xffffffff))
      else if expr_type = ASN_BASIC_UTCTime then
        Some (Some (DECL_RANGE 0x2b 0x5a False True [DECL 0x2b 0x2b, DECL 0x2d 0x2e, DECL 0x30 0x39, DECL 0x5a 0x5a]))
      else if expr_type = ASN_BASIC_GeneralizedTime then
        Some (Some (DECL_RANGE 0x2b 0x5a False True [DECL 0x2b 0x2e, DECL 0x30 0x39, DECL 0x5a 0x5a]))
      else if expr_type = ASN_BASIC_OCTET_STRING then Some (Some (DECL_RANGE 0x00 0xff True True []))
      else if expr_type AND ASN_STRING_MASK = 0 then Some None
      else do {
        c_assert (expr_type AND ASN_STRING_NKM_MASK \<noteq> 0);
        Some (Some (with_info (\<lambda>i. i\<lparr>not_PER_visible := True\<rparr>) range_new)) })"

section \<open>Edges from values\<close>

datatype range_fill_result = RFR_OK | RFR_FAIL | RFR_INCOMPATIBLE

text \<open>\<open>edge\<close> points to the left or the right edge of \<open>range\<close>.\<close>

definition get_edge :: "bool \<Rightarrow> crange \<Rightarrow> edge" where
  "get_edge is_right r = (if is_right then right r else left r)"

definition set_edge :: "bool \<Rightarrow> edge \<Rightarrow> crange \<Rightarrow> crange" where
  "set_edge is_right e = with_info (\<lambda>i. if is_right then i\<lparr>right_edge := e\<rparr> else i\<lparr>left_edge := e\<rparr>)"

text \<open>The loop over the characters of a set, \<open>FROM("abcdef")\<close>.\<close>

fun fill_characters :: "u8 list \<Rightarrow> int \<Rightarrow> crange \<Rightarrow> int \<Rightarrow> int \<Rightarrow> (int \<times> int \<times> crange) option" where
  "fill_characters [] lineno rng vmin vmax = Some (vmin, vmax, rng)"
| "fill_characters (p # ps) lineno rng vmin vmax = do {
     let c = uint p;
     let e = \<lparr>edge_type = ARE_VALUE, edge_lineno = lineno, edge_value = c\<rparr>;
     rng \<leftarrow> range_insert rng (new_part e e);
     fill_characters ps lineno rng (if c < vmin then c else vmin) (if vmax < c then c else vmax) }"

definition range_fill ::
  "asn1p_value \<Rightarrow> crange option \<Rightarrow> bool \<Rightarrow> crange \<Rightarrow> constraint_type \<Rightarrow> int \<Rightarrow> (range_fill_result \<times> crange) option" where
  "range_fill val minmax is_right rng type lineno =
     (let edge = (get_edge is_right rng)\<lparr>edge_lineno := lineno\<rparr>;
          put = (\<lambda>e. set_edge is_right e rng);
          valued = (\<lambda>v. edge\<lparr>edge_type := ARE_VALUE, edge_value := v\<rparr>);
          number_type = (type = ACT_EL_RANGE \<or> type = ACT_CT_SIZE)
      in case val of
        ATV_INTEGER v \<Rightarrow> Some (if number_type then (RFR_OK, put (valued v)) else (RFR_FAIL, put edge))
      | ATV_MIN \<Rightarrow> Some (if number_type
          then (RFR_OK, put (case minmax of Some m \<Rightarrow> (left m)\<lparr>edge_lineno := lineno\<rparr> | None \<Rightarrow> edge\<lparr>edge_type := ARE_MIN\<rparr>))
          else (RFR_FAIL, put edge))
      | ATV_MAX \<Rightarrow> Some (if number_type
          then (RFR_OK, put (case minmax of Some m \<Rightarrow> (right m)\<lparr>edge_lineno := lineno\<rparr> | None \<Rightarrow> edge\<lparr>edge_type := ARE_MAX\<rparr>))
          else (RFR_FAIL, put edge))
      | ATV_FALSE \<Rightarrow> Some (if type = ACT_EL_RANGE then (RFR_OK, put (valued 0)) else (RFR_FAIL, put edge))
      | ATV_TRUE \<Rightarrow> Some (if type = ACT_EL_RANGE then (RFR_OK, put (valued 1)) else (RFR_FAIL, put edge))
      | ATV_TUPLE v \<Rightarrow> Some (RFR_OK, put (valued v))
      | ATV_QUADRUPLE v \<Rightarrow> Some (RFR_OK, put (valued v))
      | ATV_STRING s \<Rightarrow>
          (if type \<noteq> ACT_CT_FROM then Some (RFR_OK, put edge)
           else case s of
             [] \<Rightarrow> Some (RFR_OK, put edge)
           | [p] \<Rightarrow> Some (RFR_OK, put (valued (uint p)))
           | p # ps \<Rightarrow> do {
               (vmin, vmax, rng) \<leftarrow> fill_characters s lineno (put (edge\<lparr>edge_type := ARE_VALUE\<rparr>)) (uint p) (uint p);
               Some (RFR_OK, set_edge is_right (valued (if is_right then vmin else vmax)) rng) })
      | ATV_BITVECTOR \<Rightarrow> Some (RFR_INCOMPATIBLE, put edge)
      | _ \<Rightarrow> Some (RFR_FAIL, put edge))"

section \<open>The range of a constraint\<close>

datatype errno = EINVAL | EPERM | ERANGE

record cpr_flags =
  CPR_strict_OER_visibility :: bool
  CPR_strict_PER_visibility :: bool
  CPR_strict_JER_visibility :: bool
  CPR_simulate_fbless_SIZE :: bool

definition CPR_noflags :: cpr_flags where
  "CPR_noflags = \<lparr>CPR_strict_OER_visibility = False, CPR_strict_PER_visibility = False,
     CPR_strict_JER_visibility = False, CPR_simulate_fbless_SIZE = False\<rparr>"

text \<open>\<open>static asn1cnst_range_t mm\<close>: sizes start at 0.\<close>

definition size_minmax :: crange where
  "size_minmax = with_info (\<lambda>i. i\<lparr>left_edge := value_edge 0\<rparr>) range_new"

definition mark_extensible :: "crange \<Rightarrow> crange" where
  "mark_extensible = with_info (\<lambda>i. i\<lparr>extensible := True, not_OER_visible := True, not_JER_visible := True\<rparr>)"

definition mark_incompatible :: "crange \<Rightarrow> crange" where
  "mark_incompatible = with_info (\<lambda>i. i\<lparr>incompatible := True\<rparr>)"

text \<open>
  The checks at the entry and the range to start from: an error, or \<open>minmax\<close> with its default and the
  copy of it.
\<close>

definition constraint_start ::
  "expr_type \<Rightarrow> constraint_type \<Rightarrow> cpr_flags \<Rightarrow> crange option \<Rightarrow> (errno + crange option \<times> crange) option" where
  "constraint_start expr_type req fl minmax = do {
     if asn1constraint_compatible expr_type req (CPR_simulate_fbless_SIZE fl) \<noteq> 1 then Some (Inl EINVAL)
     else do {
       mm \<leftarrow> (case req of
            ACT_EL_RANGE \<Rightarrow> Some (Inr minmax)
          | ACT_CT_FROM \<Rightarrow>
              (if CPR_strict_OER_visibility fl then Some (Inl EINVAL)
               else case minmax of
                 Some m \<Rightarrow> Some (Inr minmax)
               | None \<Rightarrow> do {
                   alphabet \<leftarrow> asn1constraint_default_alphabet expr_type;
                   Some (Inr (Some (case alphabet of Some a \<Rightarrow> a | None \<Rightarrow> size_minmax))) })
          | ACT_CT_SIZE \<Rightarrow> Some (Inr (Some (case minmax of Some m \<Rightarrow> m | None \<Rightarrow> size_minmax)))
          | _ \<Rightarrow> Some (Inl EINVAL));
       case mm of
         Inl e \<Rightarrow> Some (Inl e)
       | Inr minmax \<Rightarrow> do {
           rng \<leftarrow> (case minmax of Some m \<Rightarrow> range_clone m | None \<Rightarrow> Some range_new);
           Some (Inr (minmax,
             if expr_type AND ASN_STRING_NKM_MASK \<noteq> 0 then with_info (\<lambda>i. i\<lparr>not_PER_visible := True\<rparr>) rng else rng)) } } }"

text \<open>The two returns that leave the tree alone, and the flag between them.\<close>

definition visibility :: "expr_type \<Rightarrow> constraint_type \<Rightarrow> cpr_flags \<Rightarrow> crange \<Rightarrow> crange + crange" where
  "visibility expr_type req fl rng =
     (if not_PER_visible (info rng) \<and> CPR_strict_PER_visibility fl then Inl rng
      else let rng = (if req = ACT_CT_SIZE \<and> expr_type AND ASN_STRING_NKM_MASK \<noteq> 0
                      then with_info (\<lambda>i. i\<lparr>not_OER_visible := True\<rparr>) rng else rng) in
        if not_OER_visible (info rng) \<and> CPR_strict_OER_visibility fl then Inl rng
        else if not_JER_visible (info rng) \<and> CPR_strict_JER_visibility fl then Inl rng
        else Inr rng)"

text \<open>What follows the \<open>switch\<close>: a single value or a pair of edges.\<close>

definition constraint_edges ::
  "expr_type \<Rightarrow> constraint_type \<Rightarrow> cpr_flags \<Rightarrow> crange option \<Rightarrow> bool \<Rightarrow> crange \<Rightarrow> int \<Rightarrow>
     asn1p_value option \<Rightarrow> asn1p_value option \<Rightarrow> (errno + crange) option" where
  "constraint_edges expr_type req fl minmax exmet rng lineno vmin vmax = do {
     if \<not> exmet then Some (Inr (mark_incompatible rng))
     else do {
       vmin \<leftarrow> vmin;
       vmax \<leftarrow> vmax;
       if expr_type = ASN_BASIC_REAL \<and> (vmin = ATV_REAL \<or> vmax = ATV_REAL) then Some (Inr (mark_incompatible rng))
       else do {
         (rfr, rng) \<leftarrow> range_fill vmin minmax False range_new req lineno;
         (rfr, rng) \<leftarrow> (if rfr = RFR_OK then range_fill vmax minmax True rng req lineno else Some (rfr, rng));
         case rfr of
           RFR_FAIL \<Rightarrow> Some (Inl EPERM)
         | RFR_INCOMPATIBLE \<Rightarrow> Some (Inr (mark_incompatible rng))
         | RFR_OK \<Rightarrow>
             (case minmax of
                None \<Rightarrow> map_option Inr (range_canonicalize rng)
              | Some m \<Rightarrow> do {
                  clone \<leftarrow> range_clone m;
                  (ret, clone) \<leftarrow> range_intersection clone rng True (CPR_strict_OER_visibility fl);
                  if ret \<noteq> 0 then Some (Inl EPERM) else map_option Inr (range_canonicalize clone) }) } } }"

definition set_flags_from :: "crange \<Rightarrow> crange \<Rightarrow> crange" where
  "set_flags_from tmp = with_info (\<lambda>i. i\<lparr>extensible := extensible i \<or> extensible (info tmp),
     not_OER_visible := not_OER_visible i \<or> not_OER_visible (info tmp),
     not_JER_visible := not_JER_visible i \<or> not_JER_visible (info tmp)\<rparr>)"

text \<open>What follows the union: visibility of alphabets, and of the whole result.\<close>

definition union_visibility ::
  "constraint_type \<Rightarrow> cpr_flags \<Rightarrow> crange option \<Rightarrow> crange \<Rightarrow> crange option" where
  "union_visibility req fl minmax rng =
     (let rng = (if req = ACT_CT_FROM then
            let rng = with_info (\<lambda>i. i\<lparr>not_OER_visible := True, not_JER_visible := True\<rparr>) rng in
            if extensible (info rng) then with_info (\<lambda>i. i\<lparr>not_PER_visible := True\<rparr>) rng else rng
          else rng) in
      if not_PER_visible (info rng) \<and> CPR_strict_PER_visibility fl then do {
        rng \<leftarrow> (case minmax of Some m \<Rightarrow> range_clone m | None \<Rightarrow> Some range_new);
        Some (with_info (\<lambda>i. i\<lparr>not_PER_visible := True, incompatible := True\<rparr>) rng) }
      else Some rng)"

text \<open>\<open>asn1f_real_range_from_WCOMPS\<close>: the ranges of mantissa, exponent and base.\<close>

record real_ranges =
  mantissa :: crange
  exponent :: crange
  base :: crange

definition real_defaults :: real_ranges where
  "real_defaults = \<lparr>mantissa = range_new, exponent = range_new,
     base = Range ((info range_new)\<lparr>left_edge := value_edge 2, right_edge := \<lparr>edge_type = ARE_MAX, edge_lineno = 0, edge_value = 10\<rparr>\<rparr>)
       [DECL 2 2, DECL 10 10]\<rparr>"

definition real_narrowing :: "real_ranges \<Rightarrow> range_narrowing" where
  "real_narrowing m =
     (let values = (\<lambda>r. edge_type (left r) = ARE_VALUE \<and> edge_type (right r) = ARE_VALUE);
          inside = (\<lambda>r lo hi. values r \<and> lo \<le> edge_value (left r) \<and> edge_value (right r) \<le> hi);
          binary = (values (base m) \<and> edge_value (left (base m)) = 2 \<and> edge_value (right (base m)) = 2)
      in if inside (mantissa m) (-16777215) 16777215 \<and> binary \<and> inside (exponent m) (-149) 104 then NARROW_FLOAT32
         else if inside (mantissa m) (-9007199254740991) 9007199254740991 \<and> binary \<and> inside (exponent m) (-1074) 971 then NARROW_DOUBLE64
         else NOT_NARROW)"

text \<open>The range that a value of the tree names, with the update of it.\<close>

definition real_component :: "string \<Rightarrow> real_ranges \<Rightarrow> (crange \<times> (crange \<Rightarrow> real_ranges)) option" where
  "real_component name m =
     (if name = ''mantissa'' then Some (mantissa m, \<lambda>r. m\<lparr>mantissa := r\<rparr>)
      else if name = ''exponent'' then Some (exponent m, \<lambda>r. m\<lparr>exponent := r\<rparr>)
      else if name = ''base'' then Some (base m, \<lambda>r. m\<lparr>base := r\<rparr>)
      else None)"

text \<open>
  The recursion over the tree. \<open>exmet\<close> is the null pointer or points to whether the expected kind of
  constraint was met; the result is the range, or the error left in \<open>errno\<close> beside a null pointer, and
  what \<open>*exmet\<close> is then. The loops over the elements of a node are the functions behind the first:
  over the parts of an \<open>AND\<close>, up to the first valid part of an \<open>OR\<close> (with its index), over the rest of
  the \<open>OR\<close> (which says with its second component whether it returned early), and over the components
  of a \<open>REAL\<close> (\<open>None\<close> inside is an early return).
\<close>

lemma size_list_drop: "size_list f (drop n xs) \<le> size_list f xs"
proof (induction xs arbitrary: n)
  case (Cons x xs)
  show ?case using Cons.IH [of "n - 1"] by (cases n) auto
qed simp

lemma size_elements:
  "Suc (2 * size_list size (ct_elements ct)) < 2 * size ct"
  "Suc (2 * size_list size (drop n (ct_elements ct))) < 2 * size ct"
  "ct_elements ct = c # cs \<Longrightarrow> size c < size ct"
proof -
  show e: "Suc (2 * size_list size (ct_elements ct)) < 2 * size ct" by (cases ct) simp
  then show "Suc (2 * size_list size (drop n (ct_elements ct))) < 2 * size ct"
    using size_list_drop [of size n "ct_elements ct"] by linarith
  show "ct_elements ct = c # cs \<Longrightarrow> size c < size ct" using e by simp
qed

function (sequential)
  compute_range :: "expr_type \<Rightarrow> constraint_type \<Rightarrow> cpr_flags \<Rightarrow> crange option \<Rightarrow> bool option \<Rightarrow> asn1p_constraint \<Rightarrow>
    ((errno + crange) \<times> bool) option"
  and and_loop :: "expr_type \<Rightarrow> constraint_type \<Rightarrow> cpr_flags \<Rightarrow> crange option \<Rightarrow> bool \<Rightarrow> bool \<Rightarrow> crange \<Rightarrow> asn1p_constraint list \<Rightarrow>
    ((errno + crange) \<times> bool) option"
  and or_first :: "expr_type \<Rightarrow> constraint_type \<Rightarrow> cpr_flags \<Rightarrow> crange option \<Rightarrow> bool \<Rightarrow> crange \<Rightarrow> nat \<Rightarrow> asn1p_constraint list \<Rightarrow>
    ((errno + crange option \<times> crange \<times> nat) \<times> bool) option"
  and or_rest :: "expr_type \<Rightarrow> constraint_type \<Rightarrow> cpr_flags \<Rightarrow> crange option \<Rightarrow> bool \<Rightarrow> crange \<Rightarrow> asn1p_constraint list \<Rightarrow>
    ((errno + crange \<times> bool) \<times> bool) option"
  and real_loop :: "real_ranges \<Rightarrow> asn1p_constraint list \<Rightarrow> real_ranges option option" where
  "compute_range et req fl minmax exmet_ptr ct = do {
     let exmet = (case exmet_ptr of Some b \<Rightarrow> b | None \<Rightarrow> req = ACT_EL_RANGE);
     start \<leftarrow> constraint_start et req fl minmax;
     case start of Inl e \<Rightarrow> Some (Inl e, exmet) | Inr (minmax, rng) \<Rightarrow>
     (case visibility et req fl rng of Inl rng \<Rightarrow> Some (Inr rng, exmet) | Inr rng \<Rightarrow>
      let i = ct_info ct; type = ct_type i;
          edges = (\<lambda>vmin vmax. map_option (\<lambda>res. (res, exmet)) (constraint_edges et req fl minmax exmet rng (ct_lineno i) vmin vmax)) in
      if type = ACT_EL_VALUE then edges (ct_value i) (ct_value i)
      else if type = ACT_EL_RANGE \<or> type = ACT_EL_LLRANGE \<or> type = ACT_EL_RLRANGE \<or> type = ACT_EL_ULRANGE
        then edges (ct_range_start i) (ct_range_stop i)
      else if type = ACT_EL_EXT then Some (if \<not> exmet then Inr (mark_extensible rng) else Inl ERANGE, exmet)
      else if type = ACT_CT_SIZE \<or> type = ACT_CT_FROM then
        if req \<noteq> type then Some (Inr (mark_incompatible rng), exmet)
        else (case ct_elements ct of
            [c] \<Rightarrow> do {
              (tmp, exmet) \<leftarrow> compute_range et req fl minmax (Some True) c;
              Some (case tmp of
                  Inr tmp \<Rightarrow> Inr tmp
                | Inl e \<Rightarrow> if e = ERANGE
                    then Inr (with_info (\<lambda>i. i\<lparr>empty_constraint := True, extensible := True, not_OER_visible := True, not_PER_visible := True\<rparr>) rng)
                    else Inl e, exmet) }
          | _ \<Rightarrow> None)
      else if type = ACT_CA_SET \<or> type = ACT_CA_INT then and_loop et req fl minmax (type = ACT_CA_SET) exmet rng (ct_elements ct)
      else if type = ACT_CA_CSV \<or> type = ACT_CA_UNI then do {
        (first, exmet) \<leftarrow> or_first et req fl minmax exmet rng 0 (ct_elements ct);
        case first of Inl e \<Rightarrow> Some (Inl e, exmet) | Inr (tmp, rng, n) \<Rightarrow>
        (case tmp of
           None \<Rightarrow> Some (Inr (mark_incompatible rng), exmet)
         | Some tmp \<Rightarrow> do {
             let tmp = with_info (\<lambda>i. i\<lparr>empty_constraint := empty_constraint i \<or> empty_constraint (info rng)\<rparr>) (set_flags_from rng tmp);
             (rest, exmet) \<leftarrow> or_rest et req fl minmax exmet tmp (drop n (ct_elements ct));
             case rest of
               Inl e \<Rightarrow> Some (Inl e, exmet)
             | Inr (rng, early) \<Rightarrow>
                 if early then Some (Inr rng, exmet)
                 else do {
                   rng \<leftarrow> range_canonicalize rng;
                   rng \<leftarrow> union_visibility req fl minmax rng;
                   Some (Inr rng, exmet) } }) }
      else if type = ACT_CA_EXC then
        (case ct_elements ct of c # _ \<Rightarrow> compute_range et req fl minmax (Some exmet) c | [] \<Rightarrow> None)
      else if type = ACT_CT_WCOMPS \<and> et = ASN_BASIC_REAL then do {
        res \<leftarrow> real_loop real_defaults (ct_elements ct);
        Some (Inr (case res of
            None \<Rightarrow> mark_incompatible range_new
          | Some m \<Rightarrow> with_info (\<lambda>i. i\<lparr>narrowing := real_narrowing m\<rparr>) range_new), exmet) }
      else Some (Inr (mark_incompatible rng), exmet)) }"
| "and_loop et req fl minmax is_set exmet rng [] = Some (Inr rng, exmet)"
| "and_loop et req fl minmax is_set exmet rng (c # cs) = do {
     (tmp, exmet) \<leftarrow> compute_range et req fl (if is_set then Some rng else minmax) (Some exmet) c;
     case tmp of
       Inl e \<Rightarrow> if e = ERANGE then and_loop et req fl minmax is_set exmet (mark_extensible rng) cs else Some (Inl e, exmet)
     | Inr tmp \<Rightarrow>
         if incompatible (info tmp) \<or> not_OER_visible (info tmp) \<and> CPR_strict_OER_visibility fl \<or>
            not_PER_visible (info tmp) \<and> CPR_strict_PER_visibility fl \<or> not_JER_visible (info tmp) \<and> CPR_strict_JER_visibility fl
         then and_loop et req fl minmax is_set exmet rng cs
         else do {
           (ret, rng) \<leftarrow> range_intersection rng tmp is_set (CPR_strict_OER_visibility fl \<or> CPR_strict_JER_visibility fl);
           if ret \<noteq> 0 then Some (Inl EPERM, exmet)
           else do {
             rng \<leftarrow> range_canonicalize rng;
             and_loop et req fl minmax is_set exmet rng cs } } }"
| "or_first et req fl minmax exmet rng n [] = Some (Inr (None, rng, n), exmet)"
| "or_first et req fl minmax exmet rng n (c # cs) = do {
     (tmp, exmet) \<leftarrow> compute_range et req fl minmax (Some exmet) c;
     case tmp of
       Inl e \<Rightarrow> if e = ERANGE then or_first et req fl minmax exmet (mark_extensible rng) (n + 1) cs else Some (Inl e, exmet)
     | Inr tmp \<Rightarrow> Some (Inr (if incompatible (info tmp) then None else Some tmp, rng, n), exmet) }"
| "or_rest et req fl minmax exmet rng [] = Some (Inr (rng, False), exmet)"
| "or_rest et req fl minmax exmet rng (c # cs) = do {
     (tmp, exmet) \<leftarrow> compute_range et req fl minmax (Some exmet) c;
     case tmp of
       Inl e \<Rightarrow> if e = ERANGE then or_rest et req fl minmax exmet (mark_extensible rng) cs else Some (Inl e, exmet)
     | Inr tmp \<Rightarrow>
         if incompatible (info tmp) then do {
           rng \<leftarrow> range_canonicalize rng;
           Some (Inr (mark_incompatible rng, True), exmet) }
         else if empty_constraint (info tmp) then or_rest et req fl minmax exmet (set_flags_from tmp rng) cs
         else do {
           rng \<leftarrow> range_merge_in rng tmp;
           or_rest et req fl minmax exmet rng cs } }"
| "real_loop m [] = Some (Some m)"
| "real_loop m (el # els) =
     (if ct_type (ct_info el) \<noteq> ACT_EL_VALUE then Some None
      else case ct_value (ct_info el) of
        None \<Rightarrow> None
      | Some (ATV_REFERENCED name) \<Rightarrow>
          (case real_component name m of
             None \<Rightarrow> Some None
           | Some (dst, put) \<Rightarrow>
               (case ct_elements el of
                  [] \<Rightarrow> real_loop m els
                | [c] \<Rightarrow> do {
                    (tmp, ignored) \<leftarrow> compute_range ASN_BASIC_INTEGER ACT_EL_RANGE CPR_noflags (Some dst) None c;
                    case tmp of
                      Inl e \<Rightarrow> None
                    | Inr tmp \<Rightarrow> if incompatible (info tmp) then Some None else real_loop (put tmp) els }
                | _ \<Rightarrow> Some None))
      | Some v \<Rightarrow> Some None)"
  by pat_completeness auto
termination
proof (relation "measure (\<lambda>x. case x of
      Inl (Inl (_, _, _, _, _, ct)) \<Rightarrow> 2 * size ct
    | Inl (Inr (_, _, _, _, _, _, _, cs)) \<Rightarrow> Suc (2 * size_list size cs)
    | Inr (Inl (_, _, _, _, _, _, _, cs)) \<Rightarrow> Suc (2 * size_list size cs)
    | Inr (Inr (Inl (_, _, _, _, _, _, cs))) \<Rightarrow> Suc (2 * size_list size cs)
    | Inr (Inr (Inr (_, cs))) \<Rightarrow> Suc (2 * size_list size cs))", goal_cases)
  case 1
  show ?case by simp
qed (simp_all add: size_elements less_Suc_eq_le trans_le_add1 less_imp_le)

text \<open>A null tree leaves the range to start from. The three entries choose the visibility.\<close>

definition asn1constraint_compute_constraint_range ::
  "expr_type \<Rightarrow> asn1p_constraint option \<Rightarrow> constraint_type \<Rightarrow> crange option \<Rightarrow> bool option \<Rightarrow> cpr_flags \<Rightarrow>
     ((errno + crange) \<times> bool) option" where
  "asn1constraint_compute_constraint_range et ct req minmax exmet fl =
     (case ct of
        Some ct \<Rightarrow> compute_range et req fl minmax exmet ct
      | None \<Rightarrow> do {
          start \<leftarrow> constraint_start et req fl minmax;
          Some (case start of Inl e \<Rightarrow> Inl e | Inr (minmax, rng) \<Rightarrow> Inr rng,
            case exmet of Some b \<Rightarrow> b | None \<Rightarrow> req = ACT_EL_RANGE) })"

definition asn1constraint_compute_OER_range where
  "asn1constraint_compute_OER_range et ct req minmax exmet fl =
     asn1constraint_compute_constraint_range et ct req minmax exmet (fl\<lparr>CPR_strict_OER_visibility := True\<rparr>)"

definition asn1constraint_compute_PER_range where
  "asn1constraint_compute_PER_range et ct req minmax exmet fl =
     asn1constraint_compute_constraint_range et ct req minmax exmet fl"

definition asn1constraint_compute_JER_range where
  "asn1constraint_compute_JER_range et ct req minmax exmet fl =
     asn1constraint_compute_constraint_range et ct req minmax exmet (fl\<lparr>CPR_strict_JER_visibility := True\<rparr>)"

section \<open>What a constraint allows\<close>

text \<open>
  The abstract specification: the numbers that a tree of values, closed ranges, \<open>AND\<close> and \<open>OR\<close> nodes
  allows among the numbers \<open>U\<close> of the parent. \<open>MIN\<close> and \<open>MAX\<close> are the ends of \<open>U\<close>; in a set of
  constraints \<open>(c1)(c2)\<close> the second sees what the first allows; of \<open>EXCEPT\<close> only the first operand
  counts (X.691 9.3.19).
\<close>

fun end_of :: "int set \<Rightarrow> asn1p_value \<Rightarrow> int" where
  "end_of U (ATV_INTEGER v) = v"
| "end_of U ATV_MIN = Min U"
| "end_of U ATV_MAX = Max U"
| "end_of U _ = 0"

fun allowed :: "int set \<Rightarrow> asn1p_constraint \<Rightarrow> int set"
  and allowed_set :: "int set \<Rightarrow> asn1p_constraint list \<Rightarrow> int set"
  and allowed_and :: "int set \<Rightarrow> int set \<Rightarrow> asn1p_constraint list \<Rightarrow> int set"
  and allowed_or :: "int set \<Rightarrow> asn1p_constraint list \<Rightarrow> int set"
  and allowed_first :: "int set \<Rightarrow> asn1p_constraint list \<Rightarrow> int set" where
  "allowed U (Constraint i cs) =
     (case ct_type i of
        ACT_EL_VALUE \<Rightarrow> U \<inter> {end_of U (the (ct_value i))}
      | ACT_EL_RANGE \<Rightarrow> U \<inter> {end_of U (the (ct_range_start i))..end_of U (the (ct_range_stop i))}
      | ACT_CA_SET \<Rightarrow> allowed_set U cs
      | ACT_CA_INT \<Rightarrow> allowed_and U U cs
      | ACT_CA_CSV \<Rightarrow> allowed_or U cs
      | ACT_CA_UNI \<Rightarrow> allowed_or U cs
      | ACT_CA_EXC \<Rightarrow> allowed_first U cs
      | _ \<Rightarrow> U)"
| "allowed_set U [] = U"
| "allowed_set U (c # cs) = allowed_set (allowed U c) cs"
| "allowed_and U A [] = A"
| "allowed_and U A (c # cs) = allowed_and U (A \<inter> allowed U c) cs"
| "allowed_or U [] = {}"
| "allowed_or U (c # cs) = allowed U c \<union> allowed_or U cs"
| "allowed_first U [] = U"
| "allowed_first U (c # cs) = allowed U c"

definition in_limits :: "int \<Rightarrow> bool" where
  "in_limits v \<longleftrightarrow> INTMAX_MIN \<le> v \<and> v \<le> INTMAX_MAX"

fun number_value :: "asn1p_value \<Rightarrow> bool" where
  "number_value (ATV_INTEGER v) = in_limits v"
| "number_value ATV_MIN = True"
| "number_value ATV_MAX = True"
| "number_value _ = False"

text \<open>
  The trees it speaks of: edges lie in the parent, in order and within \<open>intmax_t\<close>; nothing empty is
  constrained further, and an \<open>OR\<close> does not start with an alternative that allows nothing.
\<close>

definition regular_edges :: "int set \<Rightarrow> asn1p_value option \<Rightarrow> asn1p_value option \<Rightarrow> bool" where
  "regular_edges U s t \<longleftrightarrow> (case (s, t) of
     (Some s, Some t) \<Rightarrow> number_value s \<and> number_value t \<and> end_of U s \<in> U \<and> end_of U t \<in> U \<and> end_of U s \<le> end_of U t \<and>
       (end_of U s = - (2 ^ 127) \<or> in_limits (end_of U s)) \<and> (end_of U t = 2 ^ 127 \<or> in_limits (end_of U t))
   | _ \<Rightarrow> False)"

fun regular :: "int set \<Rightarrow> asn1p_constraint \<Rightarrow> bool"
  and regular_set :: "int set \<Rightarrow> asn1p_constraint list \<Rightarrow> bool"
  and regular_all :: "int set \<Rightarrow> asn1p_constraint list \<Rightarrow> bool"
  and regular_first :: "int set \<Rightarrow> asn1p_constraint list \<Rightarrow> bool" where
  "regular U (Constraint i cs) =
     (case ct_type i of
        ACT_EL_VALUE \<Rightarrow> regular_edges U (ct_value i) (ct_value i)
      | ACT_EL_RANGE \<Rightarrow> regular_edges U (ct_range_start i) (ct_range_stop i)
      | ACT_CA_SET \<Rightarrow> regular_set U cs
      | ACT_CA_INT \<Rightarrow> regular_all U cs
      | ACT_CA_CSV \<Rightarrow> allowed_first U cs \<noteq> {} \<and> cs \<noteq> [] \<and> regular_all U cs
      | ACT_CA_UNI \<Rightarrow> allowed_first U cs \<noteq> {} \<and> cs \<noteq> [] \<and> regular_all U cs
      | ACT_CA_EXC \<Rightarrow> regular_first U cs
      | _ \<Rightarrow> False)"
| "regular_set U [] = True"
| "regular_set U (c # cs) = (regular U c \<and> (cs = [] \<or> allowed U c \<noteq> {} \<and> regular_set (allowed U c) cs))"
| "regular_all U [] = True"
| "regular_all U (c # cs) = (regular U c \<and> regular_all U cs)"
| "regular_first U [] = False"
| "regular_first U (c # cs) = regular U c"

lemma allowed_subset:
  "regular U c \<Longrightarrow> allowed U c \<subseteq> U"
  "regular_set U cs \<Longrightarrow> allowed_set U cs \<subseteq> U"
  "allowed_and U A cs \<subseteq> A"
  "regular_all U cs \<Longrightarrow> allowed_or U cs \<subseteq> U"
  "regular_first U cs \<Longrightarrow> allowed_first U cs \<subseteq> U"
proof (induction U c and U cs and U A cs and U cs and U cs rule: allowed_allowed_set_allowed_and_allowed_or_allowed_first.induct)
  case (1 U i cs)
  then show ?case by (cases "ct_type i") auto
next
  case (3 U c cs)
  then show ?case by (cases "cs = []") auto
qed auto

section \<open>Normal ranges\<close>

definition limited :: "crange \<Rightarrow> bool" where
  "limited p \<longleftrightarrow> (place (left p) = - (2 ^ 127) \<or> in_limits (place (left p))) \<and> (place (right p) = 2 ^ 127 \<or> in_limits (place (right p)))"

definition normal :: "crange \<Rightarrow> bool" where
  "normal r \<longleftrightarrow> canonical (2 ^ 63) r \<and> (\<forall>p \<in> set (parts r). limited p)"

lemma end_of_numbers:
  assumes "x \<in> numbers ps"
  shows "x - 1 \<notin> numbers ps \<Longrightarrow> \<exists>p \<in> set ps. x = place (left p)" "x + 1 \<notin> numbers ps \<Longrightarrow> \<exists>p \<in> set ps. x = place (right p)"
proof -
  from assms obtain p where p: "p \<in> set ps" "place (left p) \<le> x" "x \<le> place (right p)" by (auto simp: numbers_def interval_def)
  show "x - 1 \<notin> numbers ps \<Longrightarrow> \<exists>p \<in> set ps. x = place (left p)"
    using p by (intro bexI [of _ p]) (force simp: numbers_def interval_def)+
  show "x + 1 \<notin> numbers ps \<Longrightarrow> \<exists>p \<in> set ps. x = place (right p)"
    using p by (intro bexI [of _ p]) (force simp: numbers_def interval_def)+
qed

lemma separated_ends:
  assumes "separated ps" "\<forall>p \<in> set ps. part_ok B p" "p \<in> set ps"
  shows "place (left p) \<in> numbers ps" "place (left p) - 1 \<notin> numbers ps" "place (right p) \<in> numbers ps" "place (right p) + 1 \<notin> numbers ps"
proof -
  have o: "place (left p) \<le> place (right p)" using assms(2,3) by (simp add: part_ok_def)
  show "place (left p) \<in> numbers ps" "place (right p) \<in> numbers ps" using o assms(3) by (auto simp: numbers_def interval_def)
  have "interval q \<inter> {place (left p) - 1, place (right p) + 1} = {}" if "q \<in> set ps" for q
  proof (cases "q = p")
    case False
    then have "place (right q) + 1 < place (left p) \<or> place (right p) + 1 < place (left q)"
      using assms(1,3) that unfolding separated_def by (induction ps) auto
    moreover have "place (left q) \<le> place (right q)" using assms(2) that by (simp add: part_ok_def)
    ultimately show ?thesis using o by (auto simp: interval_def)
  qed (use o in \<open>auto simp: interval_def\<close>)
  then show "place (left p) - 1 \<notin> numbers ps" "place (right p) + 1 \<notin> numbers ps" by (auto simp: numbers_def)
qed

lemma canonical_part:
  assumes "canonical B r" "p \<in> set (parts r)"
  shows "part_ok B p" "place (left p) \<in> denotes r" "place (left p) - 1 \<notin> denotes r" "place (right p) \<in> denotes r" "place (right p) + 1 \<notin> denotes r"
  using assms separated_ends [of "parts r" B p] by (auto simp: canonical_def range_ok_def denotes_def)

lemma normalI:
  assumes "canonical B r" "B < 2 ^ 127" "\<forall>p \<in> set (parts r). limited p"
  shows "normal r"
proof -
  have "part_ok (2 ^ 63) p" if p: "p \<in> set (parts r)" for p
  proof -
    have o: "part_ok B p" and l: "limited p" using assms p by (auto simp: canonical_def range_ok_def)
    have "edge_in (2 ^ 63) (left p)" "edge_in (2 ^ 63) (right p)"
      using l part_okD(2-5) [OF o] assms(2) by (auto simp: limited_def edge_in_def place_def in_limits_def INTMAX_MIN_def INTMAX_MAX_def abs_le_iff)
    with o show ?thesis by (simp add: part_ok_def)
  qed
  with assms show ?thesis by (simp add: normal_def canonical_def range_ok_def)
qed

lemma limited_of:
  assumes "canonical B r" "denotes r = numbers ps" "\<forall>p \<in> set ps. limited p" "p \<in> set (parts r)"
  shows "limited p"
  using end_of_numbers [of "place (left p)" ps] end_of_numbers [of "place (right p)" ps] canonical_part [OF assms(1,4)] assms(2,3)
  by (auto simp: limited_def)

lemma limited_inter:
  assumes "canonical B r" "denotes r = denotes x \<inter> denotes y" "normal x" "normal y" "p \<in> set (parts r)"
  shows "limited p"
proof -
  have l: "\<forall>q \<in> set (parts x) \<union> set (parts y). limited q" using assms(3,4) by (auto simp: normal_def)
  note c = canonical_part [OF assms(1,5), unfolded assms(2)]
  have "\<exists>q \<in> set (parts x) \<union> set (parts y). place (left p) = place (left q)"
    using c(2,3) end_of_numbers(1) [of "place (left p)" "parts x"] end_of_numbers(1) [of "place (left p)" "parts y"]
    unfolding denotes_def by blast
  moreover have "\<exists>q \<in> set (parts x) \<union> set (parts y). place (right p) = place (right q)"
    using c(4,5) end_of_numbers(2) [of "place (right p)" "parts x"] end_of_numbers(2) [of "place (right p)" "parts y"]
    unfolding denotes_def by blast
  ultimately show ?thesis using l by (auto simp: limited_def)
qed

lemma normal_keeps_all:
  assumes "normal w"
  shows "keeps_all w"
proof -
  have c: "canonical (2 ^ 63) w" and l: "\<And>p. p \<in> set (parts w) \<Longrightarrow> limited p" using assms by (auto simp: normal_def)
  have "lost p \<inter> interval q = {}" if p: "p \<in> set (parts w)" and q: "q \<in> set (parts w)" for p q
  proof -
    have n: "interval q \<subseteq> denotes w" using q by (auto simp: denotes_def numbers_def)
    have o: "place (left q) \<le> place (right q)" using canonical_part(1) [OF c q] by (simp add: part_ok_def)
    note cp = canonical_part(3,5) [OF c p]
    have "interval q \<inter> {..<INTMAX_MIN} = {}" if "place (left p) = INTMAX_MIN"
    proof -
      have "INTMAX_MIN - 1 \<notin> interval q" using cp(1) n that by auto
      then show ?thesis using l [OF q] o by (auto simp: interval_def limited_def in_limits_def INTMAX_MIN_def INTMAX_MAX_def)
    qed
    moreover have "interval q \<inter> {INTMAX_MAX<..} = {}" if "place (right p) = INTMAX_MAX"
    proof -
      have "INTMAX_MAX + 1 \<notin> interval q" using cp(2) n that by auto
      then show ?thesis using l [OF q] o by (auto simp: interval_def limited_def in_limits_def INTMAX_MIN_def INTMAX_MAX_def)
    qed
    ultimately show ?thesis by (auto simp: lost_def place_def split: if_splits)
  qed
  then show ?thesis unfolding keeps_all_def denotes_def numbers_def by blast
qed

lemma canonical_ends:
  assumes "canonical B r"
  shows "finite (denotes r)" "denotes r \<noteq> {}" "Min (denotes r) = place (left r)" "Max (denotes r) = place (right r)"
proof -
  have s: "separated (parts r)" and o: "\<And>p. p \<in> set (parts r) \<Longrightarrow> part_ok B p"
    and h: "left r = left (hd (parts r))" "right r = right (last (parts r))" using assms by (auto simp: canonical_def range_ok_def)
  show f: "finite (denotes r)" by (simp add: denotes_def numbers_def interval_def)
  have m: "hd (parts r) \<in> set (parts r)" "last (parts r) \<in> set (parts r)" by simp_all
  show "denotes r \<noteq> {}" using canonical_part(2) [OF assms m(1)] by auto
  have lo: "place (left (hd (parts r))) \<le> place (left p)" if "p \<in> set (parts r)" for p
  proof (cases "parts r")
    case (Cons q qs)
    then have "p = q \<or> place (right q) + 1 < place (left p)" using s that by (auto simp: separated_def)
    then show ?thesis using o [of q] Cons by (auto simp: part_ok_def)
  qed (use that in simp)
  have hi: "place (right p) \<le> place (right (last (parts r)))" if p: "p \<in> set (parts r)" for p
  proof -
    obtain qs q where q: "parts r = qs @ [q]" by (metis parts_nonempty rev_exhaust)
    then have "p = q \<or> place (right p) + 1 < place (left q)" using s p by (auto simp: separated_def sorted_wrt_append)
    then show ?thesis using o [of q] q by (auto simp: part_ok_def)
  qed
  show "Min (denotes r) = place (left r)"
    unfolding h(1) by (rule Min_eqI [OF f]) (use lo canonical_part(2) [OF assms m(1)] in \<open>fastforce simp: denotes_def numbers_def interval_def\<close>)+
  show "Max (denotes r) = place (right r)"
    unfolding h(2) by (rule Max_eqI [OF f]) (use hi canonical_part(4) [OF assms m(2)] in \<open>fastforce simp: denotes_def numbers_def interval_def\<close>)+
qed

lemma range_clone_elements_ok:
  "\<forall>p \<in> set es. elements p = [] \<Longrightarrow> range_clone_elements es c = Some (Range (info c) (elements c @ es))"
proof (induction es arbitrary: c)
  case (Cons e es)
  have "range_clone e = Some e" using Cons.prems by (cases e) simp
  with Cons show ?case by simp
qed simp

lemma range_clone_ok: "\<forall>p \<in> set (elements r). elements p = [] \<Longrightarrow> range_clone r = Some r"
  by (cases r) (simp add: range_clone_elements_ok)

text \<open>A range without flags, and the range of a set of numbers.\<close>

definition clean :: "crange \<Rightarrow> bool" where
  "clean r \<longleftrightarrow> \<not> extensible (info r) \<and> \<not> incompatible (info r) \<and> \<not> not_OER_visible (info r) \<and>
     \<not> not_PER_visible (info r) \<and> \<not> not_JER_visible (info r)"

definition represents :: "crange \<Rightarrow> int set \<Rightarrow> bool" where
  "represents r S \<longleftrightarrow> clean r \<and> (empty_constraint (info r) \<longleftrightarrow> S = {}) \<and> (\<forall>p \<in> set (elements r). part_ok (2 ^ 63) p) \<and>
     (S \<noteq> {} \<longrightarrow> normal r \<and> denotes r = S)"

lemma representsI: "\<lbrakk>clean r; \<not> empty_constraint (info r); normal r; denotes r = S\<rbrakk> \<Longrightarrow> represents r S"
  using canonical_ends(2) [of "2 ^ 63" r]
  by (auto simp: represents_def normal_def canonical_def range_ok_def parts_def split: if_splits)

lemma representsD:
  assumes "represents r S" "S \<noteq> {}"
  shows "clean r" "\<not> empty_constraint (info r)" "normal r" "denotes r = S" "range_clone r = Some r"
  using assms by (auto simp: represents_def part_ok_def intro: range_clone_ok)

lemma canonicalize_kept:
  assumes "\<forall>p \<in> set (elements r). part_ok (2 ^ 63) p" "clean r"
  obtains r' where "range_canonicalize r = Some r'" "clean r'" "empty_constraint (info r') = empty_constraint (info r)"
    "\<forall>p \<in> set (elements r'). part_ok (2 ^ 63) p"
proof (cases "elements r = []")
  case True
  show thesis by (rule that [of "the (range_canonicalize r)"]) (use True assms in \<open>auto simp: range_canonicalize_def clean_def\<close>)
next
  case False
  from range_canonicalize_elements [OF this assms(1)] obtain r' where r: "range_canonicalize r = Some r'" "canonical (2 ^ 63) r'"
    "info r' = (info r)\<lparr>left_edge := left r', right_edge := right r'\<rparr>" by auto
  have "clean r'" using assms(2) unfolding clean_def by (subst r(3), simp)+
  moreover have "empty_constraint (info r') = empty_constraint (info r)" by (subst r(3), simp)
  moreover have "\<forall>p \<in> set (elements r'). part_ok (2 ^ 63) p"
    using r(2) by (auto simp: canonical_def range_ok_def parts_def split: if_splits)
  ultimately show thesis by (rule that [OF r(1)])
qed

lemma intersection_flags_clean:
  assumes "clean rg" "clean w"
  obtains i where "intersection_flags rg w oer = Some (Range i (elements rg))" "left_edge i = left rg" "right_edge i = right rg"
    "clean (Range i (elements rg))" "empty_constraint i \<longleftrightarrow> empty_constraint (info rg) \<or> empty_constraint (info w)"
  using assms by (cases rg; cases oer) (auto simp: intersection_flags_def clean_def)

text \<open>One step of an \<open>AND\<close>: intersection, then canonical form.\<close>

lemma intersection_step:
  assumes "represents rg A" "represents w S" "A \<noteq> {} \<Longrightarrow> S \<noteq> {} \<Longrightarrow> strict \<Longrightarrow> edges_inside rg w"
  obtains r r' where "range_intersection rg w strict oer = Some (0, r)" "range_canonicalize r = Some r'" "represents r' (A \<inter> S)"
proof -
  have cl: "clean rg" "clean w" using assms by (simp_all add: represents_def)
  obtain i where i: "intersection_flags rg w oer = Some (Range i (elements rg))" "left_edge i = left rg" "right_edge i = right rg"
    "clean (Range i (elements rg))" "empty_constraint i \<longleftrightarrow> empty_constraint (info rg) \<or> empty_constraint (info w)"
    by (rule intersection_flags_clean [OF cl])
  define rg' where "rg' = Range i (elements rg)"
  have u: "range_intersection rg w strict oer = (if empty_constraint i then Some (0, rg') else intersect_parts rg' w strict)"
    using i(1) by (simp add: range_intersection_def rg'_def)
  have el: "\<forall>p \<in> set (elements rg'). part_ok (2 ^ 63) p" using assms(1) by (simp add: represents_def rg'_def)
  show thesis
  proof (cases "A = {} \<or> S = {}")
    case True
    then have e: "empty_constraint i" using assms i(5) by (auto simp: represents_def)
    obtain r' where "range_canonicalize rg' = Some r'" "clean r'" "empty_constraint (info r') = empty_constraint (info rg')"
      "\<forall>p \<in> set (elements r'). part_ok (2 ^ 63) p"
      by (rule canonicalize_kept [OF el]) (use i(4) in \<open>auto simp: rg'_def\<close>)
    with u e True show thesis by (intro that [of rg' r']) (auto simp: represents_def rg'_def)
  next
    case False
    then have ne: "A \<noteq> {}" "S \<noteq> {}" by simp_all
    note a = representsD [OF assms(1) ne(1)] and s = representsD [OF assms(2) ne(2)]
    have e: "\<not> empty_constraint i" using a(2) s(2) i(5) by simp
    have "left rg' = left rg" "right rg' = right rg" "elements rg' = elements rg" using i(2,3) by (simp_all add: rg'_def)
    note sr = same_range [OF this]
    have ro: "range_ok (2 ^ 63 + 1) rg'" "range_ok (2 ^ 63) w"
      using a(3) s(3) unfolding sr(2) by (auto simp: normal_def canonical_def range_ok_def intro: part_ok_mono)
    have st: "strict \<Longrightarrow> edges_inside rg' w" using assms(3) [OF ne] by (simp add: edges_inside_def sr(1))
    have e': "\<not> empty_constraint (info rg')" using e by (simp add: rg'_def)
    obtain qs where q: "intersect_parts rg' w strict = Some (0, Range ((info rg')\<lparr>empty_constraint := qs = []\<rparr>) qs)"
      "qs = [] \<longleftrightarrow> denotes rg' \<inter> denotes w = {}" "\<forall>p \<in> set qs. part_ok (2 ^ 63 + 1) p" "numbers qs = denotes rg' \<inter> denotes w"
      by (rule intersect_parts_ok [OF ro _ _ normal_keeps_all [OF s(3)] e' st]) simp_all
    define r where "r = Range (i\<lparr>empty_constraint := qs = []\<rparr>) qs"
    have r: "range_intersection rg w strict oer = Some (0, r)" using u e q(1) by (simp add: r_def rg'_def)
    have n: "numbers qs = A \<inter> S" using q(4) a(4) s(4) by (simp add: sr(1))
    have rc: "clean r" using i(4) by (simp add: r_def clean_def)
    show thesis
    proof (cases "qs = []")
      case True
      then obtain r' where "range_canonicalize r = Some r'" "clean r'" "empty_constraint (info r') = empty_constraint (info r)"
        "\<forall>p \<in> set (elements r'). part_ok (2 ^ 63) p"
        using canonicalize_kept [of r] rc by (auto simp: r_def)
      with r True n show thesis by (intro that [of r r']) (auto simp: represents_def r_def)
    next
      case False
      then obtain r' where r': "range_canonicalize r = Some r'" "canonical (2 ^ 63 + 1) r'" "denotes r' = numbers (elements r)"
        "info r' = (info r)\<lparr>left_edge := left r', right_edge := right r'\<rparr>"
        using range_canonicalize_elements [of r "2 ^ 63 + 1"] q(3) by (auto simp: r_def)
      have d: "denotes r' = denotes rg \<inter> denotes w" using r'(3) q(4) by (simp add: r_def sr(1))
      have "normal r'"
        by (rule normalI [OF r'(2)]) (use limited_inter [OF r'(2) d a(3) s(3)] in \<open>auto\<close>)
      moreover have "clean r'" using rc unfolding clean_def by (subst r'(4), simp)+
      moreover have "\<not> empty_constraint (info r')" using False by (subst r'(4)) (simp add: r_def)
      moreover have "denotes r' = A \<inter> S" using d a(4) s(4) by simp
      ultimately have "represents r' (A \<inter> S)" by (intro representsI)
      with r r'(1) show thesis by (rule that)
    qed
  qed
qed

section \<open>The walk over the tree\<close>

text \<open>A request for values or sizes on a type that has them, under any of the visibility rules.\<close>

definition plain :: "expr_type \<Rightarrow> constraint_type \<Rightarrow> cpr_flags \<Rightarrow> bool" where
  "plain et req fl \<longleftrightarrow> (req = ACT_EL_RANGE \<or> req = ACT_CT_SIZE) \<and>
     asn1constraint_compatible et req (CPR_simulate_fbless_SIZE fl) = 1 \<and> et AND ASN_STRING_NKM_MASK = 0"

definition all_numbers :: "int set" where
  "all_numbers = {- (2 ^ 127)..2 ^ 127}"

definition parent :: "constraint_type \<Rightarrow> crange option \<Rightarrow> int set \<Rightarrow> bool" where
  "parent req minmax U \<longleftrightarrow> U \<noteq> {} \<and> (case minmax of None \<Rightarrow> req = ACT_EL_RANGE \<and> U = all_numbers | Some m \<Rightarrow> represents m U)"

lemma range_new_ok: "represents range_new all_numbers"
proof -
  have "part_ok (2 ^ 63) range_new" by (simp add: part_ok_def range_new_def place_def edge_in_def)
  then have "canonical (2 ^ 63) range_new" by (intro range_canonicalize_single(2)) simp_all
  then show ?thesis
    by (intro representsI) (auto simp: normal_def limited_def clean_def range_new_def parts_def denotes_def numbers_def interval_def
        place_def all_numbers_def)
qed

lemma all_ends: "Min all_numbers = - (2 ^ 127)" "Max all_numbers = 2 ^ 127"
proof -
  have n: "all_numbers \<noteq> {}" by (simp add: all_numbers_def)
  have "canonical (2 ^ 63) range_new" "denotes range_new = all_numbers"
    using representsD(3,4) [OF range_new_ok n] by (simp_all add: normal_def)
  from canonical_ends(3,4) [OF this(1)] this(2) show "Min all_numbers = - (2 ^ 127)" "Max all_numbers = 2 ^ 127"
    by (simp_all add: range_new_def place_def)
qed

lemma constraint_start_ok:
  assumes "plain et req fl" "parent req minmax U"
  obtains rng where "constraint_start et req fl minmax = Some (Inr (minmax, rng))" "represents rng U"
proof (cases minmax)
  case None
  then show thesis using assms range_new_ok by (intro that) (auto simp: constraint_start_def plain_def parent_def)
next
  case (Some m)
  then have m: "represents m U" "U \<noteq> {}" using assms(2) by (simp_all add: parent_def)
  with representsD(5) [OF m] assms(1) Some show thesis by (intro that [of m]) (auto simp: constraint_start_def plain_def)
qed

lemma visibility_ok: "plain et req fl \<Longrightarrow> represents rng U \<Longrightarrow> visibility et req fl rng = Inr rng"
  by (auto simp: visibility_def plain_def represents_def clean_def)

lemma edge_lineno_simps [simp]:
  "place (e\<lparr>edge_lineno := n\<rparr>) = place e" "edge_in B (e\<lparr>edge_lineno := n\<rparr>) \<longleftrightarrow> edge_in B e"
  by (simp_all add: place_def edge_in_def cong: edge_kind.case_cong)

lemma range_fill_ok:
  assumes "plain et req fl" "parent req minmax U" "number_value v" "get_edge is_right rng = get_edge is_right range_new"
    "if is_right then end_of U v \<noteq> - (2 ^ 127) else end_of U v \<noteq> 2 ^ 127"
  obtains e where "range_fill v minmax is_right rng req lineno = Some (RFR_OK, set_edge is_right e rng)"
    "place e = end_of U v" "edge_in (2 ^ 63) e" "edge_type e \<noteq> (if is_right then ARE_MIN else ARE_MAX)"
proof -
  have req: "req = ACT_EL_RANGE \<or> req = ACT_CT_SIZE" using assms(1) by (simp add: plain_def)
  define ed where "ed = (get_edge is_right rng)\<lparr>edge_lineno := lineno\<rparr>"
  have ty: "place e = end_of U v \<Longrightarrow> edge_in (2 ^ 63) e \<Longrightarrow> edge_type e \<noteq> (if is_right then ARE_MIN else ARE_MAX)" for e
    using assms(5) by (auto simp: place_def split: if_splits)
  have rep: "place (left m) = Min U \<and> place (right m) = Max U \<and> edge_in (2 ^ 63) (left m) \<and> edge_in (2 ^ 63) (right m)" if "minmax = Some m" for m
  proof -
    have m: "normal m" "denotes m = U" using that assms(2) by (auto simp: parent_def represents_def)
    then have c: "canonical (2 ^ 63) m" by (simp add: normal_def)
    have "part_ok (2 ^ 63) (hd (parts m))" "part_ok (2 ^ 63) (last (parts m))" using canonical_part(1) [OF c] by simp_all
    then show ?thesis using canonical_ends(3,4) [OF c] c m(2) by (auto simp: part_ok_def canonical_def)
  qed
  have all: "minmax = None \<Longrightarrow> Min U = - (2 ^ 127) \<and> Max U = 2 ^ 127"
    using assms(2) all_ends by (auto simp: parent_def)
  consider k where "v = ATV_INTEGER k" "in_limits k" | "v = ATV_MIN" | "v = ATV_MAX" using assms(3) by (cases v) auto
  then show thesis
  proof cases
    case 1
    define e where "e = ed\<lparr>edge_type := ARE_VALUE, edge_value := k\<rparr>"
    have "range_fill v minmax is_right rng req lineno = Some (RFR_OK, set_edge is_right e rng)"
      using req by (auto simp: range_fill_def 1 Let_def e_def ed_def)
    moreover have p: "place e = end_of U v" by (simp add: 1 e_def place_def)
    moreover have "edge_in (2 ^ 63) e"
      using assms(3) by (auto simp: 1 e_def edge_in_def in_limits_def INTMAX_MIN_def INTMAX_MAX_def)
    ultimately show thesis using that ty by blast
  next
    case 2
    define e where "e = (case minmax of Some m \<Rightarrow> (left m)\<lparr>edge_lineno := lineno\<rparr> | None \<Rightarrow> ed\<lparr>edge_type := ARE_MIN\<rparr>)"
    have "range_fill v minmax is_right rng req lineno = Some (RFR_OK, set_edge is_right e rng)"
      using req by (cases minmax; auto simp: range_fill_def 2 Let_def e_def ed_def)
    moreover have "place e = end_of U v \<and> edge_in (2 ^ 63) e"
      using rep all
      by (cases minmax; simp add: 2 e_def) (simp add: place_def edge_in_def)
    ultimately show thesis using that ty by blast
  next
    case 3
    define e where "e = (case minmax of Some m \<Rightarrow> (right m)\<lparr>edge_lineno := lineno\<rparr> | None \<Rightarrow> ed\<lparr>edge_type := ARE_MAX\<rparr>)"
    have "range_fill v minmax is_right rng req lineno = Some (RFR_OK, set_edge is_right e rng)"
      using req by (cases minmax; auto simp: range_fill_def 3 Let_def e_def ed_def)
    moreover have "place e = end_of U v \<and> edge_in (2 ^ 63) e"
      using rep all
      by (cases minmax; simp add: 3 e_def) (simp add: place_def edge_in_def)
    ultimately show thesis using that ty by blast
  qed
qed

text \<open>A leaf: two edges, intersected with the parent.\<close>

lemma represents_single:
  assumes "part_ok (2 ^ 63) r" "limited r" "clean r" "\<not> empty_constraint (info r)"
  shows "range_canonicalize r = Some r" "represents r (interval r)"
proof -
  have e: "elements r = []" using assms(1) by (rule part_okD)
  show "range_canonicalize r = Some r" by (rule range_canonicalize_single(1) [OF e assms(1)]) simp
  have "canonical (2 ^ 63) r" by (rule range_canonicalize_single(2) [OF e assms(1)]) simp
  then show "represents r (interval r)"
    using assms e by (intro representsI) (auto simp: normal_def parts_def denotes_def)
qed

lemma constraint_edges_ok:
  assumes "plain et req fl" "parent req minmax U" "regular_edges U s t"
  obtains r where "constraint_edges et req fl minmax True rng lineno s t = Some (Inr r)"
    "represents r (U \<inter> {end_of U (the s)..end_of U (the t)})"
proof -
  obtain v w where st: "s = Some v" "t = Some w" using assms(3) by (auto simp: regular_edges_def split: option.splits)
  define a b where ab: "a = end_of U v" "b = end_of U w"
  have r: "number_value v" "number_value w" "a \<in> U" "b \<in> U" "a \<le> b" "a = - (2 ^ 127) \<or> in_limits a" "b = 2 ^ 127 \<or> in_limits b"
    using assms(3) by (auto simp: regular_edges_def st ab)
  have ne: "a \<noteq> 2 ^ 127" "b \<noteq> - (2 ^ 127)" using r(6,7) by (auto simp: in_limits_def INTMAX_MIN_def INTMAX_MAX_def)
  obtain e where e: "range_fill v minmax False range_new req lineno = Some (RFR_OK, set_edge False e range_new)"
    "place e = a" "edge_in (2 ^ 63) e" "edge_type e \<noteq> ARE_MAX"
    using range_fill_ok [OF assms(1,2) r(1), of False range_new lineno] ne(1) by (auto simp: ab)
  have "get_edge True (set_edge False e range_new) = get_edge True range_new" by (simp add: get_edge_def set_edge_def)
  then obtain f where f: "range_fill w minmax True (set_edge False e range_new) req lineno = Some (RFR_OK, set_edge True f (set_edge False e range_new))"
    "place f = b" "edge_in (2 ^ 63) f" "edge_type f \<noteq> ARE_MIN"
    using range_fill_ok [OF assms(1,2) r(2), of True "set_edge False e range_new" lineno] ne(2) by (auto simp: ab)
  define p where "p = new_part e f"
  have pe: "set_edge True f (set_edge False e range_new) = p" by (simp add: p_def set_edge_def new_part_def range_new_def)
  have po: "part_ok (2 ^ 63) p" "limited p" "clean p" "\<not> empty_constraint (info p)" "interval p = {a..b}"
    using e(2-4) f(2-4) r(5-7) by (simp_all add: p_def part_ok_new_part limited_def) (simp_all add: clean_def new_part_def range_new_def)
  note rp = represents_single [OF po(1-4)]
  have real: "v \<noteq> ATV_REAL" "w \<noteq> ATV_REAL" using r(1,2) by auto
  have step: "constraint_edges et req fl minmax True rng lineno s t = (case minmax of
      None \<Rightarrow> map_option Inr (range_canonicalize p)
    | Some m \<Rightarrow> do {
        clone \<leftarrow> range_clone m;
        (ret, clone) \<leftarrow> range_intersection clone p True (CPR_strict_OER_visibility fl);
        if ret \<noteq> 0 then Some (Inl EPERM) else map_option Inr (range_canonicalize clone) })"
    using e(1) f(1) real by (simp add: constraint_edges_def st pe cong: option.case_cong)
  show thesis
  proof (cases minmax)
    case None
    then have U: "U = all_numbers" using assms(2) by (simp add: parent_def)
    have "U \<inter> {a..b} = {a..b}" using r(3,4) by (auto simp: U all_numbers_def)
    then show thesis using rp step None by (intro that [of p]) (simp_all add: st ab [symmetric] po(5))
  next
    case (Some m)
    then have m: "represents m U" "U \<noteq> {}" using assms(2) by (simp_all add: parent_def)
    note md = representsD [OF m]
    have "edges_inside m p" using r(3,4) e(2) f(2) md(4) by (simp add: edges_inside_def p_def)
    then obtain q r' where q: "range_intersection m p True (CPR_strict_OER_visibility fl) = Some (0, q)" "range_canonicalize q = Some r'" "represents r' (U \<inter> {a..b})"
      using intersection_step [OF m(1) rp(2), of True "CPR_strict_OER_visibility fl"] po(5) by auto
    show thesis using q md(5) step Some by (intro that [of r']) (simp_all add: st ab [symmetric])
  qed
qed

text \<open>What is to be shown of every node; the loops need it of the elements.\<close>

definition node_ok :: "expr_type \<Rightarrow> constraint_type \<Rightarrow> cpr_flags \<Rightarrow> asn1p_constraint \<Rightarrow> bool" where
  "node_ok et req fl c \<longleftrightarrow> (\<forall>U minmax. parent req minmax U \<longrightarrow> regular U c \<longrightarrow>
     (\<exists>r. compute_range et req fl minmax (Some True) c = Some (Inr r, True) \<and> represents r (allowed U c)))"

lemma node_okE:
  assumes "node_ok et req fl c" "parent req minmax U" "regular U c"
  obtains r where "compute_range et req fl minmax (Some True) c = Some (Inr r, True)" "represents r (allowed U c)"
  using assms unfolding node_ok_def by blast

lemma represents_clean: "represents r S \<Longrightarrow> clean r"
  by (simp add: represents_def)

lemma and_step:
  assumes "plain et req fl" "represents rng A" "represents tmp S" "is_set \<longrightarrow> S \<subseteq> A"
    and "compute_range et req fl (if is_set then Some rng else minmax) (Some met) c = Some (Inr tmp, met)"
  obtains rng' where "and_loop et req fl minmax is_set met rng (c # cs) = and_loop et req fl minmax is_set met rng' cs"
    "represents rng' (A \<inter> S)"
proof -
  have "edges_inside rng tmp" if "A \<noteq> {}" "S \<noteq> {}" "is_set"
    using representsD(4) [OF assms(2) that(1)] representsD(3,4) [OF assms(3) that(2)] assms(4) that
      canonical_part(2,4) [of "2 ^ 63" tmp]
    by (auto simp: edges_inside_def normal_def)
  from intersection_step [OF assms(2,3) this, of is_set "CPR_strict_OER_visibility fl \<or> CPR_strict_JER_visibility fl"]
  obtain r rng' where r: "range_intersection rng tmp is_set (CPR_strict_OER_visibility fl \<or> CPR_strict_JER_visibility fl) = Some (0, r)" "range_canonicalize r = Some rng'" "represents rng' (A \<inter> S)"
    by auto
  have "and_loop et req fl minmax is_set met rng (c # cs) = and_loop et req fl minmax is_set met rng' cs"
    using assms(1,5) r(1,2) represents_clean [OF assms(3)] by (simp add: plain_def clean_def)
  then show thesis using r(3) by (rule that)
qed

lemma and_loop_all:
  assumes "plain et req fl" "parent req minmax U" "\<forall>c \<in> set cs. node_ok et req fl c" "regular_all U cs" "represents rng A"
  shows "\<exists>r. and_loop et req fl minmax False True rng cs = Some (Inr r, True) \<and> represents r (allowed_and U A cs)"
  using assms(3-5)
proof (induction cs arbitrary: rng A)
  case (Cons c cs)
  then have c: "node_ok et req fl c" "regular U c" by simp_all
  obtain tmp where t: "compute_range et req fl minmax (Some True) c = Some (Inr tmp, True)" "represents tmp (allowed U c)"
    by (rule node_okE [OF c(1) assms(2) c(2)])
  have v: "False \<longrightarrow> allowed U c \<subseteq> A" by simp
  from t(1) have "compute_range et req fl (if False then Some rng else minmax) (Some True) c = Some (Inr tmp, True)" by simp
  then obtain rng' where "and_loop et req fl minmax False True rng (c # cs) = and_loop et req fl minmax False True rng' cs"
    "represents rng' (A \<inter> allowed U c)"
    by (rule and_step [OF assms(1) Cons.prems(3) t(2) v, where cs = cs])
  with Cons.IH [of rng' "A \<inter> allowed U c"] Cons.prems show ?case by simp
qed simp

lemma and_loop_set:
  assumes "plain et req fl" "\<forall>c \<in> set cs. node_ok et req fl c" "regular_set U cs" "represents rng U" "cs \<noteq> [] \<longrightarrow> U \<noteq> {}"
  shows "\<exists>r. and_loop et req fl minmax True True rng cs = Some (Inr r, True) \<and> represents r (allowed_set U cs)"
  using assms(2-5)
proof (induction cs arbitrary: rng U)
  case (Cons c cs)
  then have c: "node_ok et req fl c" "regular U c" and p: "parent req (Some rng) U" by (simp_all add: parent_def)
  obtain tmp where t: "compute_range et req fl (Some rng) (Some True) c = Some (Inr tmp, True)" "represents tmp (allowed U c)"
    by (rule node_okE [OF c(1) p c(2)])
  have v: "True \<longrightarrow> allowed U c \<subseteq> U" using allowed_subset(1) [OF c(2)] by simp
  from t(1) have "compute_range et req fl (if True then Some rng else minmax) (Some True) c = Some (Inr tmp, True)" by simp
  then obtain rng' where r: "and_loop et req fl minmax True True rng (c # cs) = and_loop et req fl minmax True True rng' cs"
    "represents rng' (U \<inter> allowed U c)"
    by (rule and_step [OF assms(1) Cons.prems(3) t(2) v, where cs = cs])
  have "U \<inter> allowed U c = allowed U c" using allowed_subset(1) [OF c(2)] by blast
  with Cons.IH [of "allowed U c" rng'] Cons.prems r show ?case by (cases "cs = []") auto
qed simp

lemma insert_all_parts:
  "\<forall>p \<in> set ps. part_ok B p \<Longrightarrow> insert_all rg ps = Some (Range (info rg) (elements rg @ ps))"
  by (rule insert_all_ok) (auto simp: part_ok_def)

lemma merge_step:
  assumes "clean rng" "represents tmp S" "S \<noteq> {}" "\<not> empty_constraint (info rng)"
  obtains rng' where "range_merge_in rng tmp = Some rng'" "elements rng' = elements rng @ parts tmp" "clean rng'" "\<not> empty_constraint (info rng')"
proof -
  note t = representsD [OF assms(2,3)]
  have p: "\<forall>p \<in> set (parts tmp). part_ok (2 ^ 63) p" using t(3) by (auto simp: normal_def canonical_def range_ok_def)
  define rng1 where "rng1 = with_info (\<lambda>i. i\<lparr>
            not_OER_visible := not_OER_visible i \<or> not_OER_visible (info tmp),
            not_PER_visible := not_PER_visible i \<or> not_PER_visible (info tmp),
            not_JER_visible := not_JER_visible i \<or> not_JER_visible (info tmp),
            extensible := extensible i \<or> extensible (info tmp)\<rparr>) rng"
  have "\<not> extensible (info rng1)" using assms(1) t(1) by (cases rng) (simp add: rng1_def clean_def)
  then have "range_merge_in rng tmp = insert_all (with_info (\<lambda>i. i\<lparr>narrowing := softest_narrowing rng1 tmp\<rparr>) rng1) (parts tmp)"
    unfolding range_merge_in_def rng1_def [symmetric] Let_def by simp
  then have m: "range_merge_in rng tmp = Some (Range ((info rng1)\<lparr>narrowing := softest_narrowing rng1 tmp\<rparr>) (elements rng @ parts tmp))"
    by (simp add: insert_all_parts [OF p] rng1_def)
  show thesis by (rule that [OF m]) (use assms(1,4) t(1) in \<open>auto simp: rng1_def clean_def\<close>)
qed

definition merged :: "crange \<Rightarrow> int set \<Rightarrow> bool" where
  "merged rng S \<longleftrightarrow> clean rng \<and> \<not> empty_constraint (info rng) \<and> (\<forall>p \<in> set (elements rng). part_ok (2 ^ 63) p \<and> limited p) \<and>
     numbers (elements rng) = S"

lemma or_rest_ok:
  assumes "plain et req fl" "parent req minmax U" "\<forall>c \<in> set cs. node_ok et req fl c" "regular_all U cs" "merged rng S"
  shows "\<exists>r. or_rest et req fl minmax True rng cs = Some (Inr (r, False), True) \<and> merged r (S \<union> allowed_or U cs)"
  using assms(3-5)
proof (induction cs arbitrary: rng S)
  case (Cons c cs)
  then have c: "node_ok et req fl c" "regular U c" by simp_all
  obtain tmp where t: "compute_range et req fl minmax (Some True) c = Some (Inr tmp, True)" "represents tmp (allowed U c)"
    by (rule node_okE [OF c(1) assms(2) c(2)])
  have i: "\<not> incompatible (info tmp)" using represents_clean [OF t(2)] by (simp add: clean_def)
  show ?case
  proof (cases "allowed U c = {}")
    case True
    then have "or_rest et req fl minmax True rng (c # cs) = or_rest et req fl minmax True (set_flags_from tmp rng) cs"
      using t i by (simp add: represents_def)
    moreover have "merged (set_flags_from tmp rng) S"
      using Cons.prems(3) represents_clean [OF t(2)] by (auto simp: merged_def set_flags_from_def clean_def)
    ultimately show ?thesis using Cons.IH [of "set_flags_from tmp rng" S] Cons.prems True by simp
  next
    case False
    have m: "clean rng" "\<not> empty_constraint (info rng)" using Cons.prems(3) by (simp_all add: merged_def)
    note td = representsD [OF t(2) False]
    obtain rng' where r: "range_merge_in rng tmp = Some rng'" "elements rng' = elements rng @ parts tmp" "clean rng'" "\<not> empty_constraint (info rng')"
      by (rule merge_step [OF m(1) t(2) False m(2)])
    have "or_rest et req fl minmax True rng (c # cs) = or_rest et req fl minmax True rng' cs"
      using t(1) i td(2) r(1) by simp
    moreover have "merged rng' (S \<union> allowed U c)"
      using Cons.prems(3) r(2-4) td(3,4) by (auto simp: merged_def normal_def canonical_def range_ok_def denotes_def)
    ultimately show ?thesis using Cons.IH [of rng' "S \<union> allowed U c"] Cons.prems by (simp add: Un_assoc)
  qed
qed simp

lemma merged_canonical:
  assumes "merged rng S" "S \<noteq> {}"
  obtains r where "range_canonicalize rng = Some r" "represents r S"
proof -
  have m: "clean rng" "\<not> empty_constraint (info rng)" "\<forall>p \<in> set (elements rng). part_ok (2 ^ 63) p" "\<forall>p \<in> set (elements rng). limited p"
    "numbers (elements rng) = S" "elements rng \<noteq> []" using assms by (auto simp: merged_def)
  obtain r where r: "range_canonicalize rng = Some r" "canonical (2 ^ 63) r" "denotes r = numbers (elements rng)"
    "info r = (info rng)\<lparr>left_edge := left r, right_edge := right r\<rparr>"
    by (rule range_canonicalize_elements [OF m(6,3)]) simp
  have "clean r" using m(1) unfolding clean_def by (subst r(4), simp)+
  moreover have "\<not> empty_constraint (info r)" using m(2) by (subst r(4)) simp
  moreover have "normal r" by (rule normalI [OF r(2)]) (use limited_of [OF r(2,3) m(4)] in auto)
  ultimately have "represents r S" using r(3) m(5) by (intro representsI) simp_all
  with r(1) show thesis by (rule that)
qed

lemma merged_start:
  assumes "represents tmp S" "S \<noteq> {}" "represents rng U" "U \<noteq> {}"
  shows "merged (with_info (\<lambda>i. i\<lparr>empty_constraint := empty_constraint i \<or> empty_constraint (info rng)\<rparr>) (set_flags_from rng tmp)) (numbers (elements tmp))"
    "numbers (elements tmp) \<subseteq> S"
proof -
  note t = representsD [OF assms(1,2)] and r = representsD [OF assms(3,4)]
  have "\<forall>p \<in> set (elements tmp). part_ok (2 ^ 63) p \<and> limited p"
    using t(3) by (auto simp: normal_def canonical_def range_ok_def parts_def split: if_splits)
  then show "merged (with_info (\<lambda>i. i\<lparr>empty_constraint := empty_constraint i \<or> empty_constraint (info rng)\<rparr>) (set_flags_from rng tmp)) (numbers (elements tmp))"
    using t(1,2) r(1,2) by (auto simp: merged_def set_flags_from_def clean_def)
  show "numbers (elements tmp) \<subseteq> S" using t(4) by (auto simp: denotes_def parts_def split: if_splits)
qed

declare compute_range.simps [simp del]

lemma compute_range_null: "compute_range et ACT_EL_RANGE fl minmax None ct = compute_range et ACT_EL_RANGE fl minmax (Some True) ct"
  unfolding compute_range.simps [of et ACT_EL_RANGE fl minmax None ct] compute_range.simps [of et ACT_EL_RANGE fl minmax "Some True" ct]
  by simp

lemma compute_node:
  assumes "plain et req fl" "parent req minmax U"
  obtains rng where "represents rng U"
    "ct_type i = ACT_EL_VALUE \<longrightarrow> compute_range et req fl minmax (Some True) (Constraint i cs) =
       map_option (\<lambda>res. (res, True)) (constraint_edges et req fl minmax True rng (ct_lineno i) (ct_value i) (ct_value i))"
    "ct_type i = ACT_EL_RANGE \<longrightarrow> compute_range et req fl minmax (Some True) (Constraint i cs) =
       map_option (\<lambda>res. (res, True)) (constraint_edges et req fl minmax True rng (ct_lineno i) (ct_range_start i) (ct_range_stop i))"
    "ct_type i = ACT_CA_SET \<longrightarrow> compute_range et req fl minmax (Some True) (Constraint i cs) = and_loop et req fl minmax True True rng cs"
    "ct_type i = ACT_CA_INT \<longrightarrow> compute_range et req fl minmax (Some True) (Constraint i cs) = and_loop et req fl minmax False True rng cs"
proof -
  obtain rng where r: "constraint_start et req fl minmax = Some (Inr (minmax, rng))" "represents rng U"
    by (rule constraint_start_ok [OF assms])
  have v: "visibility et req fl rng = Inr rng" by (rule visibility_ok [OF assms(1) r(2)])
  show thesis by (rule that [OF r(2)]; intro impI; subst compute_range.simps; simp add: r(1) v)
qed

lemma compute_or:
  assumes "plain et req fl" "parent req minmax U" "ct_type i = ACT_CA_CSV \<or> ct_type i = ACT_CA_UNI" "regular U (Constraint i cs)"
    "\<forall>c \<in> set cs. node_ok et req fl c"
  shows "\<exists>r. compute_range et req fl minmax (Some True) (Constraint i cs) = Some (Inr r, True) \<and> represents r (allowed U (Constraint i cs))"
proof -
  obtain rng where r: "constraint_start et req fl minmax = Some (Inr (minmax, rng))" "represents rng U"
    by (rule constraint_start_ok [OF assms(1,2)])
  have v: "visibility et req fl rng = Inr rng" by (rule visibility_ok [OF assms(1) r(2)])
  have U: "U \<noteq> {}" using assms(2) by (simp add: parent_def)
  obtain c cs' where cs: "cs = c # cs'" "allowed U c \<noteq> {}" "regular U c" "regular_all U cs"
    using assms(3,4) by (cases cs) auto
  have al: "allowed U (Constraint i cs) = allowed_or U cs" using assms(3) by auto
  have "node_ok et req fl c" using assms(5) cs(1) by simp
  then obtain tmp where t: "compute_range et req fl minmax (Some True) c = Some (Inr tmp, True)" "represents tmp (allowed U c)"
    by (rule node_okE [OF _ assms(2) cs(3)])
  have first: "or_first et req fl minmax True rng 0 cs = Some (Inr (Some tmp, rng, 0), True)"
    using t(1) represents_clean [OF t(2)] by (simp add: cs(1) clean_def)
  define acc where "acc = with_info (\<lambda>i. i\<lparr>empty_constraint := empty_constraint i \<or> empty_constraint (info rng)\<rparr>) (set_flags_from rng tmp)"
  note ms = merged_start [OF t(2) cs(2) r(2) U, folded acc_def]
  obtain acc' where a: "or_rest et req fl minmax True acc cs = Some (Inr (acc', False), True)" "merged acc' (numbers (elements tmp) \<union> allowed_or U cs)"
    using or_rest_ok [OF assms(1,2,5) cs(4) ms(1)] by blast
  have n: "numbers (elements tmp) \<union> allowed_or U cs = allowed_or U cs" "allowed_or U cs \<noteq> {}" using ms(2) cs(2) by (auto simp: cs(1))
  obtain r' where r': "range_canonicalize acc' = Some r'" "represents r' (allowed_or U cs)"
    using merged_canonical [OF a(2)] n by auto
  have u: "union_visibility req fl minmax r' = Some r'" using assms(1) represents_clean [OF r'(2)] by (auto simp: union_visibility_def plain_def clean_def)
  have "compute_range et req fl minmax (Some True) (Constraint i cs) = Some (Inr r', True)"
    using assms(3) by (elim disjE; subst compute_range.simps; simp add: r(1) v first a(1) [unfolded acc_def] r'(1) u Let_def)
  with r'(2) al show ?thesis by auto
qed

lemma compute_exc:
  assumes "plain et req fl" "parent req minmax U" "ct_type i = ACT_CA_EXC"
  shows "compute_range et req fl minmax (Some True) (Constraint i (c # cs)) = compute_range et req fl minmax (Some True) c"
proof -
  obtain rng where r: "constraint_start et req fl minmax = Some (Inr (minmax, rng))" "represents rng U"
    by (rule constraint_start_ok [OF assms(1,2)])
  have v: "visibility et req fl rng = Inr rng" by (rule visibility_ok [OF assms(1) r(2)])
  show ?thesis using assms(3) by (subst compute_range.simps) (simp add: r(1) v)
qed

lemma compute_range_ok: "plain et req fl \<Longrightarrow> node_ok et req fl ct"
proof (induction ct)
  case (Constraint i cs)
  then have cs: "\<forall>c \<in> set cs. node_ok et req fl c" by blast
  show ?case unfolding node_ok_def
  proof (intro allI impI)
    fix U minmax assume p: "parent req minmax U" and g: "regular U (Constraint i cs)"
    obtain rng where r: "represents rng U"
      and e1: "ct_type i = ACT_EL_VALUE \<longrightarrow> compute_range et req fl minmax (Some True) (Constraint i cs) =
        map_option (\<lambda>res. (res, True)) (constraint_edges et req fl minmax True rng (ct_lineno i) (ct_value i) (ct_value i))"
      and e2: "ct_type i = ACT_EL_RANGE \<longrightarrow> compute_range et req fl minmax (Some True) (Constraint i cs) =
        map_option (\<lambda>res. (res, True)) (constraint_edges et req fl minmax True rng (ct_lineno i) (ct_range_start i) (ct_range_stop i))"
      and e3: "ct_type i = ACT_CA_SET \<longrightarrow> compute_range et req fl minmax (Some True) (Constraint i cs) = and_loop et req fl minmax True True rng cs"
      and e4: "ct_type i = ACT_CA_INT \<longrightarrow> compute_range et req fl minmax (Some True) (Constraint i cs) = and_loop et req fl minmax False True rng cs"
      by (rule compute_node [OF Constraint.prems p, where i = i and cs = cs])
    note edges = constraint_edges_ok [OF Constraint.prems p, of _ _ rng "ct_lineno i"]
    consider "ct_type i = ACT_EL_VALUE" | "ct_type i = ACT_EL_RANGE" | "ct_type i = ACT_CA_SET" | "ct_type i = ACT_CA_INT"
      | "ct_type i = ACT_CA_CSV \<or> ct_type i = ACT_CA_UNI" | c cs' where "ct_type i = ACT_CA_EXC" "cs = c # cs'"
      using g by (cases "ct_type i"; cases cs) auto
    then show "\<exists>r. compute_range et req fl minmax (Some True) (Constraint i cs) = Some (Inr r, True) \<and> represents r (allowed U (Constraint i cs))"
    proof cases
      case 1
      then have "regular_edges U (ct_value i) (ct_value i)" using g by simp
      from edges [OF this] 1 e1 show ?thesis by auto
    next
      case 2
      then have "regular_edges U (ct_range_start i) (ct_range_stop i)" using g by simp
      from edges [OF this] 2 e2 show ?thesis by auto
    next
      case 3
      then show ?thesis using and_loop_set [OF Constraint.prems cs _ r, of minmax] e3 g p by (simp add: parent_def)
    next
      case 4
      then show ?thesis using and_loop_all [OF Constraint.prems p cs _ r] e4 g by simp
    next
      case 5
      then show ?thesis by (rule compute_or [OF Constraint.prems p _ g cs])
    next
      case 6
      then have "node_ok et req fl c" "regular U c" using cs g by simp_all
      then show ?thesis using p 6 by (auto simp: node_ok_def compute_exc [OF Constraint.prems p 6(1)])
    qed
  qed
qed

text \<open>The entries.\<close>

lemma plain_flags [simp]:
  "plain et req (fl\<lparr>CPR_strict_OER_visibility := b\<rparr>) = plain et req fl" "plain et req (fl\<lparr>CPR_strict_JER_visibility := b\<rparr>) = plain et req fl"
  by (simp_all add: plain_def)

lemma entry_ok:
  assumes "plain et req fl" "parent req minmax U" "regular U ct" "exmet = Some True \<or> exmet = None \<and> req = ACT_EL_RANGE"
    and "compute \<in> {asn1constraint_compute_PER_range, asn1constraint_compute_OER_range, asn1constraint_compute_JER_range}"
  obtains r where "compute et (Some ct) req minmax exmet fl = Some (Inr r, True)" "represents r (allowed U ct)"
proof -
  have e: "\<exists>r. asn1constraint_compute_constraint_range et (Some ct) req minmax exmet fl = Some (Inr r, True) \<and> represents r (allowed U ct)"
    if pl: "plain et req fl" for fl
  proof -
    have "compute_range et req fl minmax exmet ct = compute_range et req fl minmax (Some True) ct"
      using assms(4) compute_range_null by auto
    moreover obtain r where "compute_range et req fl minmax (Some True) ct = Some (Inr r, True)" "represents r (allowed U ct)"
      by (rule node_okE [OF compute_range_ok [OF pl] assms(2,3)])
    ultimately show ?thesis by (auto simp: asn1constraint_compute_constraint_range_def)
  qed
  from e [OF assms(1)] e [of "fl\<lparr>CPR_strict_OER_visibility := True\<rparr>"] e [of "fl\<lparr>CPR_strict_JER_visibility := True\<rparr>"] assms(1,5) that
  show thesis
    by (auto simp: asn1constraint_compute_PER_range_def asn1constraint_compute_OER_range_def asn1constraint_compute_JER_range_def)
qed

section \<open>Properties of the walk\<close>

text \<open>
  C3: the compiler computes the range that a constraint means, for PER, OER and JER alike. On every regular
  tree of values, closed ranges, sets of constraints, intersections, unions and exceptions the walk returns,
  without a failed assertion, an overflow or a loop that does not end; the range is in canonical form and
  denotes exactly the numbers that the tree allows, and it is marked empty exactly when it allows
  none.
\<close>

theorem constraint_range_exact:
  assumes "plain et req fl" "parent req minmax U" "regular U ct" "exmet = Some True \<or> exmet = None \<and> req = ACT_EL_RANGE"
    and "compute \<in> {asn1constraint_compute_PER_range, asn1constraint_compute_OER_range, asn1constraint_compute_JER_range}"
  shows "\<exists>r. compute et (Some ct) req minmax exmet fl = Some (Inr r, True) \<and>
    (empty_constraint (info r) \<longleftrightarrow> allowed U ct = {}) \<and>
    (allowed U ct \<noteq> {} \<longrightarrow> canonical (2 ^ 63) r \<and> denotes r = allowed U ct)"
proof -
  from entry_ok [OF assms] obtain r where "compute et (Some ct) req minmax exmet fl = Some (Inr r, True)" "represents r (allowed U ct)" .
  then show ?thesis by (auto simp: represents_def normal_def)
qed

definition leaf_info :: constraint_info where
  "leaf_info = \<lparr>ct_type = ACT_EL_RANGE, ct_value = None, ct_range_start = None, ct_range_stop = None, ct_lineno = 0\<rparr>"

definition range_ct :: "asn1p_value \<Rightarrow> asn1p_value \<Rightarrow> asn1p_constraint" where
  "range_ct s t = Constraint (leaf_info\<lparr>ct_range_start := Some s, ct_range_stop := Some t\<rparr>) []"

definition node_ct :: "constraint_type \<Rightarrow> asn1p_constraint list \<Rightarrow> asn1p_constraint" where
  "node_ct type cs = Constraint (leaf_info\<lparr>ct_type := type\<rparr>) cs"

lemma sample_trees:
  "allowed U (range_ct s t) = U \<inter> {end_of U s..end_of U t}" "regular U (range_ct s t) = regular_edges U (Some s) (Some t)"
  "allowed U (node_ct ACT_CA_SET cs) = allowed_set U cs" "regular U (node_ct ACT_CA_SET cs) = regular_set U cs"
  "allowed U (node_ct ACT_CA_UNI cs) = allowed_or U cs"
  "regular U (node_ct ACT_CA_UNI cs) = (allowed_first U cs \<noteq> {} \<and> cs \<noteq> [] \<and> regular_all U cs)"
  by (simp_all add: range_ct_def node_ct_def leaf_info_def)

text \<open>The constraint \<open>(0..100)(1..5 | 10..MAX)\<close> of an INTEGER.\<close>

definition sample_ct :: asn1p_constraint where
  "sample_ct = node_ct ACT_CA_SET [range_ct (ATV_INTEGER 0) (ATV_INTEGER 100),
     node_ct ACT_CA_UNI [range_ct (ATV_INTEGER 1) (ATV_INTEGER 5), range_ct (ATV_INTEGER 10) ATV_MAX]]"

lemma sample_ct_ok: "regular all_numbers sample_ct" "allowed all_numbers sample_ct = {1..5} \<union> {10..100}"
proof -
  have a: "all_numbers \<inter> {0..100} = {0..100}" by (auto simp: all_numbers_def)
  have m: "Max {0..100::int} = 100" by (rule Max_eqI) auto
  have l: "in_limits x" if "0 \<le> x" "x \<le> 100" for x using that by (simp add: in_limits_def INTMAX_MIN_def INTMAX_MAX_def)
  show "regular all_numbers sample_ct"
    by (simp add: sample_ct_def sample_trees regular_edges_def a m l)
      (simp add: all_numbers_def)
  show "allowed all_numbers sample_ct = {1..5} \<union> {10..100}"
    by (auto simp: sample_ct_def sample_trees a m)
qed

theorem constraint_range_exact_witness:
  "\<exists>r. asn1constraint_compute_OER_range ASN_BASIC_INTEGER (Some sample_ct) ACT_EL_RANGE None None CPR_noflags = Some (Inr r, True) \<and>
    canonical (2 ^ 63) r \<and> denotes r = {1..5} \<union> {10..100}"
proof -
  have "plain ASN_BASIC_INTEGER ACT_EL_RANGE CPR_noflags"
    by (simp add: plain_def asn1constraint_compatible_def CPR_noflags_def)
  moreover have "parent ACT_EL_RANGE None all_numbers" by (simp add: parent_def all_numbers_def)
  ultimately show ?thesis
    using constraint_range_exact [of ASN_BASIC_INTEGER ACT_EL_RANGE CPR_noflags None all_numbers sample_ct None asn1constraint_compute_OER_range]
      sample_ct_ok by auto
qed

text \<open>
  Where the tree is not regular. The open ends of \<open>1<..<5\<close> are not looked at: the range is that of
  \<open>1..5\<close>.
\<close>

theorem open_ends_ignored:
  assumes "type \<in> {ACT_EL_LLRANGE, ACT_EL_RLRANGE, ACT_EL_ULRANGE}"
  shows "compute_range et req fl minmax exmet (Constraint (i\<lparr>ct_type := type\<rparr>) cs) =
    compute_range et req fl minmax exmet (Constraint (i\<lparr>ct_type := ACT_EL_RANGE\<rparr>) cs)"
  using assms by (auto simp: compute_range.simps [of _ _ _ _ _ "Constraint _ _"] Let_def cong: sum.case_cong)

lemma range_new_edges: "left range_new = min_edge" "right range_new = max_edge"
  by (simp_all add: range_new_def min_edge_def max_edge_def)

text \<open>
  The constraint \<open>(MAX..MAX)\<close> on a type without an upper bound sends the compiler into the loop that
  does not end: the walk has no value at all, where it should be an error or an empty range.
\<close>

theorem max_range_hangs:
  "constraint_edges ASN_BASIC_INTEGER ACT_EL_RANGE CPR_noflags (Some range_new) True rng 0 (Some ATV_MAX) (Some ATV_MAX) = None"
proof -
  have p: "set_edge True max_edge (set_edge False max_edge range_new) = new_part max_edge max_edge"
    by (simp add: set_edge_def new_part_def range_new_def)
  have l: "max_edge\<lparr>edge_lineno := 0\<rparr> = max_edge" by (simp add: max_edge_def)
  have f: "range_fill ATV_MAX (Some range_new) False range_new ACT_EL_RANGE 0 = Some (RFR_OK, set_edge False max_edge range_new)"
    "range_fill ATV_MAX (Some range_new) True (set_edge False max_edge range_new) ACT_EL_RANGE 0 = Some (RFR_OK, new_part max_edge max_edge)"
    by (simp_all add: range_fill_def Let_def range_new_edges l p)
  obtain i where i: "intersection_flags range_new (new_part max_edge max_edge) False = Some (Range i [])" "left_edge i = min_edge" "right_edge i = max_edge"
    "\<not> empty_constraint i"
    by (simp add: intersection_flags_def range_new_def new_part_def min_edge_def max_edge_def)
  have w: "edge_compare min_edge max_edge = -1" "edge_compare max_edge max_edge = 0" by (simp_all add: edge_compare_def)
  have "intersect_parts (Range i []) (new_part max_edge max_edge) True = None"
    by (simp add: intersect_parts_def i(2,3) check_edges_within_def edge_is_within_def parts_def w split_loop_diverges)
  then have "range_intersection range_new (new_part max_edge max_edge) True False = None" using i(1,4) by (simp add: range_intersection_def)
  moreover have "range_clone range_new = Some range_new" by (simp add: range_new_def)
  ultimately show ?thesis by (simp add: constraint_edges_def f CPR_noflags_def)
qed

text \<open>A range with its edges in the wrong order, \<open>(1..10)(5..2)\<close>, ends in a failed assertion.\<close>

theorem reversed_range_asserts:
  "range_intersection (new_part (number_edge 1) (number_edge 10)) (new_part (number_edge 5) (number_edge 2)) True False = None"
  by (simp add: range_intersection_def intersection_flags_def intersect_parts_def split_loop.simps range_split_def range_overlap_def
    edge_compare_def parts_def range_new_def new_part_def edge_is_within_def check_edges_within_def)

end
