(* ===== verification/Oer_Support.thy ===== *)
theory Oer_Support
  imports Ber_Tlv Integer
begin

unbundle bit_operations_syntax

text \<open>
  Octet Encoding Rules (X.696): the length determinants of \<open>skeletons/oer_support.c\<close> and the entry
  points, primitive types and open types of \<open>oer_encoder.c\<close> and \<open>oer_decoder.c\<close>. An encoder or
  decoder of a type descriptor is a function parameter; the contract between the two, and what open
  types and buffers make of it, is the locale \<open>oer_type\<close>.
\<close>

section \<open>Length determinants\<close>

text \<open>The result is the return value with \<open>*len_r\<close>.\<close>

definition oer_fetch_length :: "u8 list \<Rightarrow> int \<times> nat" where
  "oer_fetch_length bufptr =
     (case bufptr of
        [] \<Rightarrow> (0, 0)
      | first_byte # b \<Rightarrow>
          if first_byte AND 0x80 = 0 then (1, unat first_byte)
          else
            let len_len = unat (first_byte AND 0x7F) in
            if length bufptr < 1 + len_len then (0, 0)
            else
              let b = dropWhile (\<lambda>b. b = 0) (take len_len b) in
              if 8 < length b then (-1, 0)
              else
                let len = foldl (\<lambda>len b. push_bit 8 len + ucast b) (0 :: u64) b in
                if RSIZE_MAX < unat len then (-1, 0) else (int (len_len + 1), unat len))"

text \<open>
  \<open>oer_serialize_length\<close> reads the octets of the object \<open>length\<close> from the most significant one on.
  \<open>places\<close> are the values of the pointer \<open>p\<close>, relative to the object, from \<open>pstart\<close> to \<open>pend\<close>; both
  loops end when \<open>p\<close> is \<open>pend\<close>. \<open>little_endian\<close> is the outcome of the run-time detection.
\<close>

definition size_object :: "bool \<Rightarrow> nat \<Rightarrow> u8 list" where
  "size_object little_endian n = (if little_endian then rev (be_octets 8 n) else be_octets 8 n)"

fun skip_zeros :: "u8 list \<Rightarrow> nat list \<Rightarrow> nat list option" where
  "skip_zeros obj (p # q # places) = do {
     b \<leftarrow> rd obj p;
     if b \<noteq> 0 then Some (p # q # places) else skip_zeros obj (q # places) }"
| "skip_zeros obj places = Some places"

fun copy_octets :: "u8 list \<Rightarrow> nat list \<Rightarrow> u8 list option" where
  "copy_octets obj [] = Some []"
| "copy_octets obj (p # places) = do {
     b \<leftarrow> rd obj p;
     bs \<leftarrow> copy_octets obj places;
     Some (b # bs) }"

definition oer_serialize_length :: "bool \<Rightarrow> nat \<Rightarrow> 'k consumer \<Rightarrow> 'k \<Rightarrow> (int \<times> 'k) option" where
  "oer_serialize_length little_endian len cb app_key =
     (if len \<le> 127 then do {
        (r, app_key) \<leftarrow> cb app_key [of_nat len];
        Some (if r < 0 then -1 else 1, app_key) }
      else do {
        let obj = size_object little_endian len;
        places \<leftarrow> skip_zeros obj (if little_endian then rev [0..<8] else [0..<9]);
        sp \<leftarrow> copy_octets obj places;
        scratch \<leftarrow> mem_store (replicate (1 + 8) 0) 1 sp;
        c_assert (length sp \<le> 0x7F);
        scratch \<leftarrow> wr scratch 0 (of_nat (0x80 + length sp));
        (r, app_key) \<leftarrow> cb app_key (take (1 + length sp) scratch);
        Some (if r < 0 then -1 else int (1 + length sp), app_key) })"

text \<open>X.696 #8.6: the octets of a length, the long form with the shortest number.\<close>

definition oer_length_octets :: "nat \<Rightarrow> u8 list" where
  "oer_length_octets n =
     (if n \<le> 127 then [of_nat n]
      else let os = dropWhile (\<lambda>b. b = 0) (be_octets 8 n) in of_nat (128 + length os) # os)"

lemma octets_val_dropWhile: "octets_val (dropWhile (\<lambda>b. b = 0) bs) = octets_val bs"
  by (induction bs) (simp_all add: octets_val_Cons)

lemma dropWhile_nonzero: "octets_val bs \<noteq> 0 \<Longrightarrow> dropWhile (\<lambda>b. b = 0) bs \<noteq> []"
  using octets_val_dropWhile [of bs] by force

lemma skip_zeros_ok:
  assumes "\<forall>p \<in> set places. p < length obj" "octets_val (map ((!) obj) places) \<noteq> 0"
  shows "\<exists>ps. skip_zeros obj places = Some ps \<and>
    map ((!) obj) ps = dropWhile (\<lambda>b. b = 0) (map ((!) obj) places) \<and> set ps \<subseteq> set places"
  using assms
proof (induction obj places rule: skip_zeros.induct)
  case (1 obj p q places)
  show ?case
  proof (cases "obj ! p = 0")
    case True
    with 1 obtain ps where "skip_zeros obj (q # places) = Some ps" "set ps \<subseteq> set (q # places)"
      "map ((!) obj) ps = dropWhile (\<lambda>b. b = 0) (map ((!) obj) (q # places))" by (auto simp: octets_val_Cons)
    with True 1 show ?thesis by auto
  qed (use 1 in simp)
qed (auto simp: octets_val_Cons)

lemma copy_octets_ok: "\<forall>p \<in> set places. p < length obj \<Longrightarrow> copy_octets obj places = Some (map ((!) obj) places)"
  by (induction places) simp_all

lemma length_dropWhile_8: "length (dropWhile (\<lambda>b. b = 0) (be_octets 8 n)) \<le> 8"
  using length_dropWhile_le [of "\<lambda>b. b = 0" "be_octets 8 n"] by simp

lemma little_places: "map ((!) (rev xs)) (rev [0..<length xs]) = xs"
  by (rule nth_equalityI) (auto simp: rev_nth nth_append)

context octet_sink begin

lemma serialize_length_ok:
  assumes "holds k xs" "n < 2 ^ 64"
  shows "sink_puts cb holds xs (oer_length_octets n) (oer_serialize_length True n cb k)"
proof (cases "n \<le> 127")
  case True
  from cb_step [OF assms(1), of "[of_nat n]"] show ?thesis
    by (rule) (use True in \<open>auto simp: oer_serialize_length_def oer_length_octets_def sink_puts_def\<close>)
next
  case False
  define os where "os = dropWhile (\<lambda>b. b = 0) (be_octets 8 n)"
  have "octets_val (be_octets 8 n) \<noteq> 0" using False assms(2) by simp
  moreover have "map ((!) (size_object True n)) (rev [0..<8]) = be_octets 8 n"
    using little_places [of "be_octets 8 n"] by (simp add: size_object_def)
  ultimately obtain ps where ps: "skip_zeros (size_object True n) (rev [0..<8]) = Some ps"
    "map ((!) (size_object True n)) ps = os" "set ps \<subseteq> set (rev [0..<8])"
    using skip_zeros_ok [of "rev [0..<8]" "size_object True n"] by (auto simp: os_def size_object_def)
  then have "copy_octets (size_object True n) ps = Some os"
    using copy_octets_ok [of ps "size_object True n"] by (simp add: size_object_def subset_iff)
  moreover have l: "length os \<le> 8" unfolding os_def by (rule length_dropWhile_8)
  moreover have "mem_store (replicate (1 + 8) 0) 1 os = Some (0 # os @ replicate (8 - length os) 0)"
    using l by (simp add: mem_store_def)
  ultimately have "oer_serialize_length True n cb k = do {
      (r, k) \<leftarrow> cb k (of_nat (128 + length os) # os);
      Some (if r < 0 then -1 else int (1 + length os), k) }"
    using False ps(1) by (simp add: oer_serialize_length_def wr_def)
  with False show ?thesis
    using cb_step [OF assms(1), of "of_nat (128 + length os) # os" "sink_puts cb holds xs (oer_length_octets n) (oer_serialize_length True n cb k)"]
    by (simp add: oer_length_octets_def os_def [symmetric] sink_puts_def)
qed

end

lemma foldl_length_octets:
  "foldl (\<lambda>len b. push_bit 8 len + ucast b) (v :: u64) bs = v * 256 ^ length bs + of_nat (octets_val bs)"
  by (induction bs rule: rev_induct) (simp_all add: push_bit_eq_mult algebra_simps unsigned_ucast_eq)

lemma fetch_length_ok:
  assumes "n \<le> RSIZE_MAX"
  shows "oer_fetch_length (oer_length_octets n @ rest) = (int (length (oer_length_octets n)), n)"
proof (cases "n \<le> 127")
  case True
  then have "unat (of_nat n :: u8) = n" by (simp add: unat_of_nat)
  with True show ?thesis by (simp add: oer_fetch_length_def oer_length_octets_def top_bit_u8)
next
  case False
  define os where "os = dropWhile (\<lambda>b. b = 0) (be_octets 8 n)"
  have l: "length os \<le> 8" unfolding os_def by (rule length_dropWhile_8)
  have v: "octets_val os = n" using assms by (simp add: os_def octets_val_dropWhile RSIZE_MAX_def)
  have d: "dropWhile (\<lambda>b. b = 0) os = os" by (simp add: os_def)
  have u: "unat (of_nat n :: u64) = n" using assms by (simp add: RSIZE_MAX_def unat_of_nat)
  define b where "b = (of_nat (128 + length os) :: u8)"
  have b: "b AND 0x80 \<noteq> 0" "unat (b AND 0x7F) = length os" unfolding b_def by (intro octet_flag; use l in simp)+
  have "oer_fetch_length (b # os @ rest) = (int (1 + length os), n)"
    using b l d u assms by (simp add: oer_fetch_length_def foldl_length_octets v)
  with False show ?thesis by (simp add: oer_length_octets_def os_def [symmetric] b_def)
qed

lemma oer_fetch_bounds:
  assumes "oer_fetch_length ptr = (r, n)"
  shows "r = -1 \<or> r = 0 \<or> 0 < r \<and> r \<le> int (length ptr)" "n \<le> RSIZE_MAX"
proof -
  have u: "unat (b :: u8) \<le> RSIZE_MAX" for b
    by (rule order_trans [OF less_imp_le [OF unsigned_less]]) (simp add: RSIZE_MAX_def)
  show "n \<le> RSIZE_MAX" using assms u by (auto simp: oer_fetch_length_def Let_def split: list.splits if_splits)
  show "r = -1 \<or> r = 0 \<or> 0 < r \<and> r \<le> int (length ptr)"
  proof (cases ptr)
    case (Cons b bs)
    define m where "m = unat (b AND 0x7F)"
    show ?thesis using assms unfolding Cons oer_fetch_length_def list.case m_def [symmetric]
      by (auto simp: Let_def split: if_splits)
  qed (use assms in \<open>simp add: oer_fetch_length_def\<close>)
qed

section \<open>Entry points and primitive types\<close>

text \<open>
  The operations \<open>td->op->oer_encoder\<close> and \<open>td->op->oer_decoder\<close> of a type: an encoder returns
  \<open>er.encoded\<close>, a decoder the code, \<open>rval.consumed\<close> and \<open>*sptr\<close> afterwards.
\<close>

type_synonym ('v, 'k) oer_encoder = "'v \<Rightarrow> 'k consumer \<Rightarrow> 'k \<Rightarrow> (int \<times> 'k) option"
type_synonym 'v oer_decoder = "'v option \<Rightarrow> u8 list \<Rightarrow> (asn_dec_rval_code \<times> nat \<times> 'v option) option"

definition oer_encode_to_buffer ::
  "('v, enc_to_buf_arg) oer_encoder option \<Rightarrow> 'v \<Rightarrow> u8 list \<Rightarrow> nat \<Rightarrow> (int \<times> enc_to_buf_arg) option" where
  "oer_encode_to_buffer op sptr buffer buffer_size =
     (let arg = \<lparr>tb_mem = buffer, tb_buffer = 0, tb_left = buffer_size\<rparr> in
      case op of
        None \<Rightarrow> Some (-1, arg)
      | Some encoder \<Rightarrow> do {
          (encoded, arg) \<leftarrow> encoder sptr encode_to_buffer_cb arg;
          (if encoded \<noteq> -1 then c_assert (encoded = int (buffer_size - tb_left arg)) else Some ());
          Some (encoded, arg) })"

definition oer_encode_primitive :: "bool \<Rightarrow> INTEGER_t option \<Rightarrow> 'k consumer \<Rightarrow> 'k \<Rightarrow> (int \<times> 'k) option" where
  "oer_encode_primitive little_endian sptr cb app_key =
     (case sptr of
        None \<Rightarrow> Some (-1, app_key)
      | Some st \<Rightarrow> do {
          (ret, app_key) \<leftarrow> oer_serialize_length little_endian (int_size st) cb app_key;
          if ret < 0 then Some (-1, app_key)
          else do {
            octets \<leftarrow> mem_load (case int_buf st of Some buf \<Rightarrow> buf | None \<Rightarrow> []) 0 (int_size st);
            (r, app_key) \<leftarrow> cb app_key octets;
            Some (if r < 0 then -1 else ret + int (int_size st), app_key) } })"

definition oer_decode_primitive :: "(nat \<Rightarrow> bool) \<Rightarrow> INTEGER_t oer_decoder" where
  "oer_decode_primitive can_alloc sptr ptr =
     (if sptr = None \<and> \<not> can_alloc 16 then Some (RC_FAIL, 0, None)
      else do {
        let st = (case sptr of Some st \<Rightarrow> st | None \<Rightarrow> \<lparr>int_buf = None, int_size = 0\<rparr>);
        let (len_len, expected_length) = oer_fetch_length ptr;
        if len_len = 0 then Some (RC_WMORE, 0, Some st)
        else if len_len < 0 then Some (RC_FAIL, 0, Some st)
        else do {
          let ptr = drop (nat len_len) ptr;
          if length ptr < expected_length then Some (RC_WMORE, 0, Some st)
          else if \<not> can_alloc (expected_length + 1) then Some (RC_FAIL, 0, Some st)
          else do {
            octets \<leftarrow> mem_load ptr 0 expected_length;
            Some (RC_OK, nat len_len + expected_length,
                  Some \<lparr>int_buf = Some (octets @ [0]), int_size = expected_length\<rparr>) } } })"

section \<open>Open types\<close>

definition oer__count_bytes :: "nat consumer" where
  "oer__count_bytes bytes buffer = Some (0, bytes + length buffer)"

interpretation count: octet_sink oer__count_bytes "\<lambda>k xs. k = length xs"
  by unfold_locales (simp add: oer__count_bytes_def)

text \<open>The type's encoder runs twice: \<open>count_encoder\<close> and \<open>encoder\<close> are its two uses.\<close>

definition oer_open_type_put ::
  "bool \<Rightarrow> ('v, nat) oer_encoder \<Rightarrow> ('v, 'k) oer_encoder \<Rightarrow> 'v \<Rightarrow> 'k consumer \<Rightarrow> 'k \<Rightarrow> (int \<times> 'k) option" where
  "oer_open_type_put little_endian count_encoder encoder sptr cb app_key = do {
     (encoded, serialized_byte_count) \<leftarrow> count_encoder sptr oer__count_bytes 0;
     if encoded < 0 then Some (-1, app_key)
     else do {
       c_assert (int serialized_byte_count = encoded);
       (len_len, app_key) \<leftarrow> oer_serialize_length little_endian serialized_byte_count cb app_key;
       if len_len = -1 then Some (-1, app_key)
       else do {
         (encoded, app_key) \<leftarrow> encoder sptr cb app_key;
         if encoded < 0 then Some (-1, app_key)
         else do {
           c_assert (int serialized_byte_count = encoded);
           Some (len_len + encoded, app_key) } } } }"

definition oer_open_type_skip :: "u8 list \<Rightarrow> int" where
  "oer_open_type_skip bufptr = fst (oer_fetch_length bufptr)"

definition oer_open_type_get :: "'v oer_decoder \<Rightarrow> 'v option \<Rightarrow> u8 list \<Rightarrow> (int \<times> 'v option) option" where
  "oer_open_type_get decoder sptr bufptr =
     (let (len_len, container_len) = oer_fetch_length bufptr in
      if len_len \<le> 0 then Some (len_len, sptr)
      else if length (drop (nat len_len) bufptr) < container_len then Some (0, sptr)
      else do {
        (code, consumed, st) \<leftarrow> decoder sptr (take container_len (drop (nat len_len) bufptr));
        Some (if code = RC_OK then (len_len + int container_len, st) else (-1, None)) })"

section \<open>The contract of a type\<close>

text \<open>
  \<open>repr v\<close> is the encoding of \<open>v\<close>, when it has one; \<open>val\<close> is what a decoder restores of it. The
  encoder delivers exactly \<open>repr v\<close>, and the decoder reads it with anything behind it.
\<close>

locale oer_type = octet_sink cb holds
  for cb :: "'k consumer" and holds +
  fixes count_encoder :: "('v, nat) oer_encoder" and encoder :: "('v, 'k) oer_encoder" and decoder :: "'v oer_decoder"
    and repr :: "'v \<Rightarrow> u8 list option" and val :: "'v \<Rightarrow> 'a"
  assumes encodes: "repr v = Some bs \<Longrightarrow> holds k xs \<Longrightarrow> sink_puts cb holds xs bs (encoder v cb k)"
    and counts: "repr v = Some bs \<Longrightarrow> count_encoder v oer__count_bytes 0 = Some (int (length bs), length bs)"
    and decodes: "repr v = Some bs \<Longrightarrow> \<exists>w. decoder sptr (bs @ rest) = Some (RC_OK, length bs, Some w) \<and> val w = val v"
begin

lemma open_type_put_ok:
  assumes "repr v = Some bs" "holds k xs" "length bs < 2 ^ 64"
  shows "sink_puts cb holds xs (oer_length_octets (length bs) @ bs) (oer_open_type_put True count_encoder encoder v cb k)"
proof -
  note c = counts [OF assms(1)]
  show ?thesis
  proof (rule sink_putsE [OF serialize_length_ok [OF assms(2,3)]])
    fix k1 assume 1: "oer_serialize_length True (length bs) cb k = Some (int (length (oer_length_octets (length bs))), k1)"
      "holds k1 (xs @ oer_length_octets (length bs))"
    show ?thesis
      by (rule sink_putsE [OF encodes [OF assms(1) 1(2)]]) (auto simp: oer_open_type_put_def sink_puts_def c 1)
  next
    fix k1 assume "oer_serialize_length True (length bs) cb k = Some (-1, k1)" "sink_refuses cb holds"
    then show ?thesis by (simp add: oer_open_type_put_def sink_puts_def c)
  qed
qed

lemma open_type_get_ok:
  assumes "repr v = Some bs" "length bs \<le> RSIZE_MAX"
  shows "\<exists>w. oer_open_type_get decoder sptr ((oer_length_octets (length bs) @ bs) @ rest) =
    Some (int (length (oer_length_octets (length bs) @ bs)), Some w) \<and> val w = val v"
proof -
  from decodes [OF assms(1), of sptr "[]"] obtain w where "decoder sptr bs = Some (RC_OK, length bs, Some w)" "val w = val v"
    by auto
  moreover have "oer_fetch_length ((oer_length_octets (length bs) @ bs) @ rest) = (int (length (oer_length_octets (length bs))), length bs)"
    using fetch_length_ok [OF assms(2), of "bs @ rest"] by simp
  moreover have "0 < length (oer_length_octets (length bs))" by (simp add: oer_length_octets_def Let_def)
  ultimately show ?thesis by (simp add: oer_open_type_get_def)
qed


end

text \<open>Every use of a codec with a counting callback delivers the count.\<close>

lemma count_exact: "sink_puts oer__count_bytes (\<lambda>k xs. k = length xs) [] bs res \<Longrightarrow> res = Some (int (length bs), length bs)"
  by (erule sink_putsE) (simp_all add: sink_refuses_def oer__count_bytes_def)

section \<open>Primitive types\<close>

context octet_sink begin

lemma primitive_encodes:
  assumes "INTEGER_inv st" "int_size st < 2 ^ 64" "holds k xs"
  shows "sink_puts cb holds xs (oer_length_octets (int_size st) @ INTEGER_octets st) (oer_encode_primitive True (Some st) cb k)"
proof -
  obtain buf where buf: "int_buf st = Some buf" "int_size st \<le> length buf"
    using assms(1) by (auto simp: INTEGER_inv_def split: option.splits)
  then have o: "mem_load buf 0 (int_size st) = Some (INTEGER_octets st)" "length (INTEGER_octets st) = int_size st"
    by (simp_all add: mem_load_def INTEGER_octets_def)
  show ?thesis
  proof (rule sink_putsE [OF serialize_length_ok [OF assms(3,2)]])
    fix k1 assume 1: "oer_serialize_length True (int_size st) cb k = Some (int (length (oer_length_octets (int_size st))), k1)"
      "holds k1 (xs @ oer_length_octets (int_size st))"
    show ?thesis by (rule cb_step [OF 1(2), of "INTEGER_octets st"]) (auto simp: oer_encode_primitive_def sink_puts_def buf(1) o 1)
  next
    fix k1 assume "oer_serialize_length True (int_size st) cb k = Some (-1, k1)" "sink_refuses cb holds"
    then show ?thesis by (simp add: oer_encode_primitive_def sink_puts_def)
  qed
qed

end

lemma primitive_decodes:
  assumes "length os \<le> RSIZE_MAX"
  shows "oer_decode_primitive (\<lambda>_. True) sptr ((oer_length_octets (length os) @ os) @ rest) =
    Some (RC_OK, length (oer_length_octets (length os) @ os), Some \<lparr>int_buf = Some (os @ [0]), int_size = length os\<rparr>)"
proof -
  have "oer_fetch_length ((oer_length_octets (length os) @ os) @ rest) = (int (length (oer_length_octets (length os))), length os)"
    using fetch_length_ok [OF assms, of "os @ rest"] by simp
  moreover have "0 < length (oer_length_octets (length os))" by (simp add: oer_length_octets_def Let_def)
  ultimately show ?thesis by (simp add: oer_decode_primitive_def mem_load_def Let_def)
qed

definition primitive_octets :: "INTEGER_t \<Rightarrow> u8 list option" where
  "primitive_octets st =
     (if INTEGER_inv st \<and> int_size st \<le> RSIZE_MAX then Some (oer_length_octets (int_size st) @ INTEGER_octets st) else None)"

context octet_sink begin

lemma primitive_type:
  "oer_type cb holds (oer_encode_primitive True \<circ> Some) (oer_encode_primitive True \<circ> Some)
     (oer_decode_primitive (\<lambda>_. True)) primitive_octets INTEGER_octets"
proof unfold_locales
  fix v bs k xs sptr rest
  assume r: "primitive_octets v = Some bs"
  then have v: "INTEGER_inv v" "int_size v \<le> RSIZE_MAX" "bs = oer_length_octets (int_size v) @ INTEGER_octets v"
    by (auto simp: primitive_octets_def split: if_splits)
  then have s: "int_size v < 2 ^ 64" by (simp add: RSIZE_MAX_def)
  show "holds k xs \<Longrightarrow> sink_puts cb holds xs bs ((oer_encode_primitive True \<circ> Some) v cb k)"
    using primitive_encodes [OF v(1) s] by (simp add: v(3))
  show "(oer_encode_primitive True \<circ> Some) v oer__count_bytes 0 = Some (int (length bs), length bs)"
    using count_exact [OF count.primitive_encodes [OF v(1) s, of 0 "[]"]] by (simp add: v(3))
  have "length (INTEGER_octets v) = int_size v" by (rule INTEGER_accessors(2) [OF v(1)])
  then show "\<exists>w. oer_decode_primitive (\<lambda>_. True) sptr (bs @ rest) = Some (RC_OK, length bs, Some w) \<and> INTEGER_octets w = INTEGER_octets v"
    using primitive_decodes [of "INTEGER_octets v" sptr rest] v by (simp add: INTEGER_octets_def)
qed

end


interpretation primitive_oer: oer_type "encode_dyn_cb ca" "\<lambda>k xs. dyn_inv k \<and> dyn_taken k = xs"
    "oer_encode_primitive True \<circ> Some" "oer_encode_primitive True \<circ> Some" "oer_decode_primitive (\<lambda>_. True)" primitive_octets INTEGER_octets
  for ca
  by (rule dyn.sink.primitive_type)

end
