(* ===== verification/Oer_Types.thy ===== *)
theory Oer_Types
  imports Oer_Support Uper_Types
begin

unbundle bit_operations_syntax

text \<open>
  The OER codecs of the simple types: \<open>skeletons/INTEGER_oer.c\<close>, \<open>NativeInteger_oer.c\<close>,
  \<open>NativeEnumerated_oer.c\<close>, \<open>ENUMERATED_oer.c\<close>, \<open>BOOLEAN_oer.c\<close> and \<open>NULL_oer.c\<close>. Each meets the
  contract \<open>oer_type\<close> of \<open>Oer_Support\<close>.
\<close>

section \<open>INTEGER\<close>

text \<open>\<open>asn_oer_constraint_number_t\<close> and \<open>asn_oer_constraints_t\<close>; \<open>width\<close> 0 is a length determinant.\<close>

record asn_oer_constraint_number =
  ct_width :: nat
  ct_positive :: bool

record asn_oer_constraints =
  oc_value :: asn_oer_constraint_number
  oc_size :: int

text \<open>The constraint in force: that of the caller, else that of the type (\<open>td_constraints\<close>), else none.\<close>

definition oer_constraint :: "asn_oer_constraints option \<Rightarrow> asn_oer_constraints option \<Rightarrow> asn_oer_constraint_number" where
  "oer_constraint td_constraints constraints =
     (case (case constraints of None \<Rightarrow> td_constraints | Some c \<Rightarrow> Some c) of
        None \<Rightarrow> \<lparr>ct_width = 0, ct_positive = False\<rparr>
      | Some c \<Rightarrow> oc_value c)"

definition INTEGER_decode_oer ::
  "(nat \<Rightarrow> bool) \<Rightarrow> asn_oer_constraints option \<Rightarrow> asn_oer_constraints option \<Rightarrow> INTEGER_t oer_decoder" where
  "INTEGER_decode_oer can_alloc td_constraints constraints sptr ptr =
     (if sptr = None \<and> \<not> can_alloc 16 then Some (RC_FAIL, 0, None)
      else do {
        let st = \<lparr>int_buf = None, int_size = 0\<rparr>;
        let ct = oer_constraint td_constraints constraints;
        let fetched =
          (if ct_width ct \<noteq> 0 then Inr (0, ct_width ct)
           else let (consumed, req_bytes) = oer_fetch_length ptr in
             if consumed = 0 then Inl RC_WMORE else if consumed = -1 then Inl RC_FAIL
             else Inr (nat consumed, req_bytes));
        case fetched of
          Inl code \<Rightarrow> Some (code, 0, Some st)
        | Inr (consumed, req_bytes) \<Rightarrow> do {
            let ptr = drop consumed ptr;
            if length ptr < req_bytes then Some (RC_WMORE, 0, Some st)
            else if ct_positive ct then do {
              b \<leftarrow> rd ptr 0;
              let msb = unat (drop_bit 7 b);
              let useful_size = msb + req_bytes;
              if \<not> can_alloc (useful_size + 1) then Some (RC_FAIL, 0, Some st)
              else do {
                octets \<leftarrow> mem_load ptr 0 req_bytes;
                Some (RC_OK, consumed + req_bytes,
                      Some \<lparr>int_buf = Some (replicate msb 0 @ octets @ [0]), int_size = useful_size\<rparr>) } }
            else if \<not> can_alloc (req_bytes + 1) then Some (RC_FAIL, 0, Some st)
            else do {
              octets \<leftarrow> mem_load ptr 0 req_bytes;
              Some (RC_OK, consumed + req_bytes, Some \<lparr>int_buf = Some (octets @ [0]), int_size = req_bytes\<rparr>) } } })"

text \<open>The two loops that skip leading octets (the second is \<open>skip_insignificant\<close>), and the padding.\<close>

fun strip_zeros :: "u8 list \<Rightarrow> u8 list" where
  "strip_zeros (b # c # buf) = (if b \<noteq> 0 then b # c # buf else strip_zeros (c # buf))"
| "strip_zeros buf = buf"

fun pad_octets :: "nat \<Rightarrow> u8 \<Rightarrow> 'k consumer \<Rightarrow> 'k \<Rightarrow> (bool \<times> 'k) option" where
  "pad_octets 0 b cb app_key = Some (True, app_key)"
| "pad_octets (Suc n) b cb app_key = do {
     (r, app_key) \<leftarrow> cb app_key [b];
     if r < 0 then Some (False, app_key) else pad_octets n b cb app_key }"

definition INTEGER_encode_oer ::
  "bool \<Rightarrow> asn_oer_constraints option \<Rightarrow> asn_oer_constraints option \<Rightarrow> (INTEGER_t, 'k) oer_encoder" where
  "INTEGER_encode_oer little_endian td_constraints constraints st cb app_key =
     (if int_size st = 0 then Some (-1, app_key)
      else do {
        let ct = oer_constraint td_constraints constraints;
        buf \<leftarrow> int_buf st;
        buf \<leftarrow> mem_load buf 0 (int_size st);
        let sign = hd buf AND 0x80;
        if ct_positive ct \<and> sign \<noteq> 0 then Some (-1, app_key)
        else do {
          let buf = (if ct_positive ct then strip_zeros buf else skip_insignificant buf);
          let useful_bytes = length buf;
          (r, app_key) \<leftarrow> (if ct_width ct \<noteq> 0 then Some (0, app_key)
                          else oer_serialize_length little_endian useful_bytes cb app_key);
          if r < 0 then Some (-1, app_key)
          else do {
            let req_bytes = (if ct_width ct \<noteq> 0 then ct_width ct else useful_bytes);
            if req_bytes < useful_bytes then Some (-1, app_key)
            else do {
              (ok, app_key) \<leftarrow> pad_octets (req_bytes - useful_bytes) (if sign \<noteq> 0 then 0xFF else 0) cb app_key;
              if \<not> ok then Some (-1, app_key)
              else do {
                (r2, app_key) \<leftarrow> cb app_key buf;
                Some (if r2 < 0 then -1 else r + int req_bytes, app_key) } } } } })"

text \<open>
  X.696 #10: the contents, unsigned or two's complement, filled up to the width; without a width
  the shortest ones behind a length determinant.
\<close>

definition oer_contents :: "asn_oer_constraint_number \<Rightarrow> u8 list \<Rightarrow> u8 list option" where
  "oer_contents ct os =
     (if os = [] \<or> ct_positive ct \<and> twos_val os < 0 then None
      else let useful = (if ct_positive ct then strip_zeros os else skip_insignificant os) in
        if ct_width ct = 0 then if length useful \<le> RSIZE_MAX then Some useful else None
        else if ct_width ct < length useful then None
        else Some (replicate (ct_width ct - length useful) (if twos_val os < 0 then 0xFF else 0) @ useful))"

definition oer_integer_octets :: "asn_oer_constraint_number \<Rightarrow> u8 list \<Rightarrow> u8 list option" where
  "oer_integer_octets ct os =
     map_option (\<lambda>c. (if ct_width ct = 0 then oer_length_octets (length c) else []) @ c) (oer_contents ct os)"

lemma strip_zeros_facts:
  "octets_val (strip_zeros os) = octets_val os" "strip_zeros os = [] \<longleftrightarrow> os = []" "length (strip_zeros os) \<le> length os"
  by (induction os rule: strip_zeros.induct) (auto simp: octets_val_Cons)

text \<open>Sign extension keeps the value.\<close>

lemma twos_val_pad:
  assumes "os \<noteq> []"
  shows "twos_val (replicate n (if twos_val os < 0 then 0xFF else 0) @ os) = twos_val os"
proof (induction n)
  case (Suc n)
  define p where "p = (if twos_val os < 0 then 0xFF else (0 :: u8))"
  define t where "t = replicate n p @ os"
  have t: "t \<noteq> []" "twos_val t = twos_val os" using assms Suc by (simp_all add: t_def p_def)
  then obtain c r where c: "t = c # r" by (cases t) auto
  have "twos_val t < 0 \<longleftrightarrow> c AND 0x80 \<noteq> 0" using t(1) by (simp add: twos_val_neg c top_bit_u8 not_less)
  then have "twos_val (p # c # r) = twos_val (c # r)" using t(2) by (intro twos_val_skip1) (simp add: p_def c)
  then show ?case using t(2) by (simp add: t_def [symmetric] c p_def [symmetric])
qed simp

lemma oer_contents_val:
  assumes "oer_contents ct os = Some c"
  shows "c \<noteq> []" "length c \<le> RSIZE_MAX \<or> ct_width ct \<noteq> 0" "ct_width ct \<noteq> 0 \<Longrightarrow> length c = ct_width ct"
    "ct_positive ct \<Longrightarrow> int (octets_val c) = twos_val os" "\<not> ct_positive ct \<Longrightarrow> twos_val c = twos_val os"
proof -
  define useful where "useful = (if ct_positive ct then strip_zeros os else skip_insignificant os)"
  have os: "os \<noteq> []" "\<not> (ct_positive ct \<and> twos_val os < 0)" using assms by (auto simp: oer_contents_def split: if_splits)
  then have u: "useful \<noteq> []" by (simp add: useful_def strip_zeros_facts)
  have c: "c = (if ct_width ct = 0 then useful
      else replicate (ct_width ct - length useful) (if twos_val os < 0 then 0xFF else 0) @ useful)"
    "ct_width ct \<noteq> 0 \<Longrightarrow> length useful \<le> ct_width ct" "ct_width ct = 0 \<Longrightarrow> length useful \<le> RSIZE_MAX"
    using assms by (auto simp: oer_contents_def useful_def [symmetric] Let_def split: if_splits)
  show "c \<noteq> []" "length c \<le> RSIZE_MAX \<or> ct_width ct \<noteq> 0" "ct_width ct \<noteq> 0 \<Longrightarrow> length c = ct_width ct" using c u by auto
  show "int (octets_val c) = twos_val os" if p: "ct_positive ct"
  proof -
    have "octets_val useful = octets_val os" using p by (simp add: useful_def strip_zeros_facts)
    moreover have "octets_val (replicate n 0 @ bs) = octets_val bs" for n and bs :: "u8 list"
      by (induction n) (simp_all add: octets_val_Cons)
    ultimately show ?thesis using os p twos_val_nonneg [of os] by (simp add: c(1))
  qed
  show "twos_val c = twos_val os" if "\<not> ct_positive ct"
  proof -
    have v: "twos_val useful = twos_val os" using that by (simp add: useful_def)
    show ?thesis using twos_val_pad [OF u] by (simp add: c(1) v)
  qed
qed

lemma INTEGER_decode_oer_ok:
  assumes "oer_integer_octets (oer_constraint tdc cs) os = Some bs"
  shows "\<exists>w. INTEGER_decode_oer (\<lambda>_. True) tdc cs sptr (bs @ rest) = Some (RC_OK, length bs, Some w) \<and>
    INTEGER_inv w \<and> INTEGER_val w = twos_val os \<and>
    (ct_positive (oer_constraint tdc cs) \<longrightarrow> int (octets_val (INTEGER_octets w)) = twos_val os)"
proof -
  define ct where "ct = oer_constraint tdc cs"
  obtain c where c: "oer_contents ct os = Some c" and bs: "bs = (if ct_width ct = 0 then oer_length_octets (length c) else []) @ c"
    using assms by (auto simp: oer_integer_octets_def ct_def)
  note cv = oer_contents_val [OF c]
  define l where "l = (if ct_width ct = 0 then oer_length_octets (length c) else [])"
  have f: "ct_width ct = 0 \<Longrightarrow> oer_fetch_length (l @ c @ rest) = (int (length l), length c)"
    using fetch_length_ok [of "length c" "c @ rest"] cv(2) by (auto simp: l_def)
  have l: "ct_width ct = 0 \<Longrightarrow> 0 < length l" by (simp add: l_def oer_length_octets_def Let_def)
  have ld: "mem_load (c @ rest) 0 (length c) = Some c" by (simp add: mem_load_def)
  obtain b r where b: "c = b # r" using cv(1) by (cases c) auto
  define msb where "msb = unat (drop_bit 7 b)"
  have msb: "msb = (if 128 \<le> unat b then 1 else 0)"
  proof -
    define nb where "nb = unat b"
    have "msb = drop_bit 7 nb" by (simp only: msb_def nb_def unat_drop_bit_eq)
    moreover have "nb < 256" unfolding nb_def by (rule order_less_le_trans [OF unsigned_less]) simp
    ultimately show ?thesis unfolding nb_def [symmetric] by (auto simp: drop_bit_eq_div)
  qed
  have w: "INTEGER_decode_oer (\<lambda>_. True) tdc cs sptr (bs @ rest) = Some (RC_OK, length bs,
      Some (if ct_positive ct then \<lparr>int_buf = Some (replicate msb 0 @ c @ [0]), int_size = msb + length c\<rparr>
            else \<lparr>int_buf = Some (c @ [0]), int_size = length c\<rparr>))"
  proof -
    have "rd (c @ rest) 0 = Some b" by (simp add: b)
    then show ?thesis using f l ld cv(3)
      by (simp add: INTEGER_decode_oer_def bs l_def [symmetric] ct_def [symmetric] msb_def [symmetric] Let_def del: rd_in)
         (auto simp: l_def msb_def)
  qed
  have t: "twos_val (replicate msb 0 @ c) = int (octets_val c)" "octets_val (replicate msb 0 @ c) = octets_val c"
    using unsigned_less [of b, where ?'a = nat] by (simp_all add: msb twos_val_def b octets_val_Cons)
  show ?thesis
  proof (cases "ct_positive ct")
    case True
    with w cv(4) t show ?thesis by (simp add: ct_def [symmetric] INTEGER_inv_def INTEGER_octets_def INTEGER_val_def)
  next
    case False
    with w cv(5) show ?thesis by (simp add: ct_def [symmetric] INTEGER_inv_def INTEGER_octets_def INTEGER_val_def)
  qed
qed

context octet_sink begin

lemma pad_ok: "holds k xs \<Longrightarrow> \<exists>r k'. pad_octets n b cb k = Some (r, k') \<and>
  (r \<and> holds k' (xs @ replicate n b) \<or> \<not> r \<and> sink_refuses cb holds)"
proof (induction n arbitrary: k xs)
  case (Suc n)
  show ?case
  proof (rule cb_step [OF Suc.prems, of "[b]"])
    fix r k1 assume 1: "cb k [b] = Some (r, k1)" "0 \<le> r" "holds k1 (xs @ [b])"
    from Suc.IH [OF 1(3)] 1 show ?thesis by simp
  qed auto
qed auto

lemma INTEGER_encode_oer_ok:
  assumes "INTEGER_inv st" "holds k xs" "oer_integer_octets (oer_constraint tdc cs) (INTEGER_octets st) = Some bs"
  shows "sink_puts cb holds xs bs (INTEGER_encode_oer True tdc cs st cb k)"
proof -
  define os where "os = INTEGER_octets st"
  define ct where "ct = oer_constraint tdc cs"
  obtain buf where buf: "int_buf st = Some buf" "int_size st \<le> length buf"
    using assms(1) by (auto simp: INTEGER_inv_def split: option.splits)
  have ld: "mem_load buf 0 (int_size st) = Some os" and sz: "length os = int_size st"
    using buf by (simp_all add: mem_load_def os_def INTEGER_octets_def)
  define useful where "useful = (if ct_positive ct then strip_zeros os else skip_insignificant os)"
  define pad where "pad = (if twos_val os < 0 then 0xFF else (0 :: u8))"
  define l where "l = (if ct_width ct = 0 then oer_length_octets (length useful) else [])"
  define n where "n = (if ct_width ct \<noteq> 0 then ct_width ct else length useful) - length useful"
  obtain c where c: "oer_contents ct os = Some c" "bs = (if ct_width ct = 0 then oer_length_octets (length c) else []) @ c"
    using assms(3) by (auto simp: oer_integer_octets_def ct_def os_def)
  then have g: "os \<noteq> []" "\<not> (ct_positive ct \<and> twos_val os < 0)" "ct_width ct = 0 \<longrightarrow> length useful \<le> RSIZE_MAX"
    "\<not> (if ct_width ct \<noteq> 0 then ct_width ct else length useful) < length useful" "bs = l @ replicate n pad @ useful"
    by (auto simp: oer_contents_def useful_def [symmetric] pad_def [symmetric] Let_def l_def n_def split: if_splits)
  have sign: "hd os AND 0x80 \<noteq> 0 \<longleftrightarrow> twos_val os < 0" using g(1) by (simp add: twos_val_neg top_bit_u8 not_less)
  define more where "more = (\<lambda>(r :: int, k). if r < 0 then Some (-1, k)
      else do { (ok, k) \<leftarrow> pad_octets n pad cb k;
                if \<not> ok then Some (-1, k)
                else do { (r2, k) \<leftarrow> cb k useful; Some (if r2 < 0 then -1 else r + int (n + length useful), k) } })"
  have e: "INTEGER_encode_oer True tdc cs st cb k =
      (if ct_width ct \<noteq> 0 then Some (0, k) else oer_serialize_length True (length useful) cb k) \<bind> more"
    using g sz by (auto simp: INTEGER_encode_oer_def buf(1) ld ct_def [symmetric] useful_def [symmetric] sign
      pad_def [symmetric] n_def more_def Let_def intro!: Option.bind_cong)
  have m: "sink_puts cb holds xs bs (more (int (length l), k1))" if "holds k1 (xs @ l)" for k1
  proof -
    from pad_ok [OF that, of n pad] obtain r k2 where p: "pad_octets n pad cb k1 = Some (r, k2)"
      "r \<and> holds k2 ((xs @ l) @ replicate n pad) \<or> \<not> r \<and> sink_refuses cb holds" by blast
    show ?thesis
    proof (cases r)
      case True
      with p(2) have h: "holds k2 ((xs @ l) @ replicate n pad)" by simp
      show ?thesis by (rule cb_step [OF h, of useful]) (use p True in \<open>auto simp: more_def sink_puts_def g(5)\<close>)
    qed (use p in \<open>auto simp: more_def sink_puts_def\<close>)
  qed
  show ?thesis
  proof (cases "ct_width ct = 0")
    case True
    have "length useful < 2 ^ 64" using g(3) True by (simp add: RSIZE_MAX_def)
    from serialize_length_ok [OF assms(2) this] show ?thesis
      by (rule sink_putsE) (use m True in \<open>auto simp: e l_def more_def sink_puts_def\<close>)
  next
    case False
    with m [of k] assms(2) show ?thesis by (simp add: e l_def)
  qed
qed

end

section \<open>Native integers\<close>

text \<open>\<open>uns\<close>: the type has specifics with \<open>field_unsigned\<close>. The native \<open>long\<close> is never a null pointer.\<close>

definition NativeInteger_decode_oer ::
  "(nat \<Rightarrow> bool) \<Rightarrow> bool \<Rightarrow> asn_oer_constraints option \<Rightarrow> asn_oer_constraints option \<Rightarrow> int oer_decoder" where
  "NativeInteger_decode_oer can_alloc uns td_constraints constraints nint_ptr ptr =
     (if nint_ptr = None \<and> \<not> can_alloc 8 then Some (RC_FAIL, 0, None)
      else do {
        let native = (case nint_ptr of Some n \<Rightarrow> n | None \<Rightarrow> 0);
        (code, consumed, st) \<leftarrow> INTEGER_decode_oer can_alloc td_constraints constraints
                                  (Some \<lparr>int_buf = None, int_size = 0\<rparr>) ptr;
        if code \<noteq> RC_OK then Some (code, consumed, Some native)
        else do {
          tmpint \<leftarrow> st;
          if uns then do {
            (r, ul) \<leftarrow> asn_INTEGER2ulong tmpint 0;
            Some (if r = 0 then (code, consumed, Some (sint ul)) else (RC_FAIL, consumed, Some native)) }
          else do {
            (r, l) \<leftarrow> asn_INTEGER2long tmpint 0;
            Some (if r = 0 then (code, consumed, Some l) else (RC_FAIL, consumed, Some native)) } } })"

definition NativeInteger_encode_oer ::
  "bool \<Rightarrow> (nat \<Rightarrow> bool) \<Rightarrow> bool \<Rightarrow> asn_oer_constraints option \<Rightarrow> asn_oer_constraints option \<Rightarrow> (int, 'k) oer_encoder" where
  "NativeInteger_encode_oer little_endian can_alloc uns td_constraints constraints native cb app_key =
     (let tmpint = \<lparr>int_buf = None, int_size = 0\<rparr>;
          (r, tmpint) = (if uns then asn_ulong2INTEGER can_alloc tmpint (of_int native)
                         else asn_long2INTEGER can_alloc tmpint native)
      in if r \<noteq> 0 then Some (-1, app_key)
         else INTEGER_encode_oer little_endian td_constraints constraints tmpint cb app_key)"

text \<open>The octets of a \<open>long\<close> that the encoder starts from, and its encoding.\<close>

definition long_octets :: "int \<Rightarrow> u8 list" where
  "long_octets n = skip_insignificant (be_octets 8 (unat (of_int n :: u64)))"

definition oer_native_octets :: "bool \<Rightarrow> asn_oer_constraint_number \<Rightarrow> int \<Rightarrow> u8 list option" where
  "oer_native_octets uns ct n =
     (if INTMAX_MIN \<le> n \<and> n \<le> INTMAX_MAX \<and> (uns \<longrightarrow> 0 \<le> n)
      then oer_integer_octets ct (long_octets n) else None)"

lemma long_octets_val: "INTMAX_MIN \<le> n \<Longrightarrow> n \<le> INTMAX_MAX \<Longrightarrow> twos_val (long_octets n) = n"
  by (simp add: long_octets_def twos_val_be8)

lemma native_to_INTEGER:
  assumes "INTMAX_MIN \<le> n" "n \<le> INTMAX_MAX"
  shows "(if uns then asn_ulong2INTEGER (\<lambda>_. True) tmp (of_int n) else asn_long2INTEGER (\<lambda>_. True) tmp n) =
    (0, tmp\<lparr>int_buf := Some (long_octets n), int_size := length (long_octets n)\<rparr>)"
  using sint_of_int_64 [OF assms]
  by (simp add: asn_ulong2INTEGER_def asn_long2INTEGER_def asn_imax2INTEGER_def long_octets_def Let_def)

lemma native_decodes:
  assumes "oer_native_octets uns (oer_constraint tdc cs) n = Some bs"
  shows "NativeInteger_decode_oer (\<lambda>_. True) uns tdc cs sptr (bs @ rest) = Some (RC_OK, length bs, Some n)"
proof -
  have n: "INTMAX_MIN \<le> n" "n \<le> INTMAX_MAX" "uns \<Longrightarrow> 0 \<le> n"
    and o: "oer_integer_octets (oer_constraint tdc cs) (long_octets n) = Some bs"
    using assms by (auto simp: oer_native_octets_def split: if_splits)
  from INTEGER_decode_oer_ok [OF o, of "Some \<lparr>int_buf = None, int_size = 0\<rparr>" rest] obtain w where
    w: "INTEGER_decode_oer (\<lambda>_. True) tdc cs (Some \<lparr>int_buf = None, int_size = 0\<rparr>) (bs @ rest) = Some (RC_OK, length bs, Some w)"
      "INTEGER_inv w" "INTEGER_val w = n" by (auto simp: long_octets_val n)
  have "asn_INTEGER2long w 0 = Some (0, n)" using INTEGER2imax [OF w(2), of 0] n w(3) by (simp add: asn_INTEGER2long_def)
  moreover have "asn_INTEGER2ulong w 0 = Some (0, of_int n)" if "uns"
  proof -
    have v: "octets_val (INTEGER_octets w) = nat n"
      using twos_val_nonneg [of "INTEGER_octets w"] w(3) n(3) that by (simp add: INTEGER_val_def)
    have "octets_val (INTEGER_octets w) < 2 ^ 64" using n(2) by (simp add: v limits_defs nat_less_iff)
    then show ?thesis using INTEGER2umax [OF w(2), of 0] n(3) that by (simp add: asn_INTEGER2ulong_def v)
  qed
  moreover have "sint (of_int n :: u64) = n" by (rule sint_of_int_64 [OF n(1,2)])
  ultimately show ?thesis by (simp add: NativeInteger_decode_oer_def w(1) Let_def)
qed

context octet_sink begin

lemma native_encodes:
  assumes "oer_native_octets uns (oer_constraint tdc cs) n = Some bs" "holds k xs"
  shows "sink_puts cb holds xs bs (NativeInteger_encode_oer True (\<lambda>_. True) uns tdc cs n cb k)"
proof -
  have n: "INTMAX_MIN \<le> n" "n \<le> INTMAX_MAX" and o: "oer_integer_octets (oer_constraint tdc cs) (long_octets n) = Some bs"
    using assms by (auto simp: oer_native_octets_def split: if_splits)
  define st where "st = \<lparr>int_buf = Some (long_octets n), int_size = length (long_octets n)\<rparr>"
  have "INTEGER_inv st" "INTEGER_octets st = long_octets n" by (simp_all add: st_def INTEGER_inv_def INTEGER_octets_def)
  with INTEGER_encode_oer_ok [of st k xs tdc cs bs] o assms(2) show ?thesis
    by (simp add: NativeInteger_encode_oer_def native_to_INTEGER [OF n] st_def Let_def)
qed

lemma native_oer_type:
  "oer_type cb holds (NativeInteger_encode_oer True (\<lambda>_. True) uns tdc cs) (NativeInteger_encode_oer True (\<lambda>_. True) uns tdc cs)
     (NativeInteger_decode_oer (\<lambda>_. True) uns tdc cs) (oer_native_octets uns (oer_constraint tdc cs)) (\<lambda>n. n)"
  using native_encodes count_exact [OF count.native_encodes [where xs = "[]"]] native_decodes by unfold_locales auto

end

interpretation native_oer: oer_type "encode_dyn_cb ca" "\<lambda>k xs. dyn_inv k \<and> dyn_taken k = xs"
    "NativeInteger_encode_oer True (\<lambda>_. True) uns tdc cs" "NativeInteger_encode_oer True (\<lambda>_. True) uns tdc cs"
    "NativeInteger_decode_oer (\<lambda>_. True) uns tdc cs" "oer_native_octets uns (oer_constraint tdc cs)" "\<lambda>n. n"
  for ca uns tdc cs
  by (rule dyn.sink.native_oer_type)

section \<open>BOOLEAN and NULL\<close>

definition BOOLEAN_encode_oer :: "(int, 'k) oer_encoder" where
  "BOOLEAN_encode_oer st cb app_key = do {
     (r, app_key) \<leftarrow> cb app_key [if st \<noteq> 0 then 0xFF else 0];
     Some (if r < 0 then -1 else 1, app_key) }"

definition BOOLEAN_decode_oer :: "(nat \<Rightarrow> bool) \<Rightarrow> int oer_decoder" where
  "BOOLEAN_decode_oer can_alloc sptr ptr =
     (case ptr of
        [] \<Rightarrow> Some (RC_WMORE, 0, sptr)
      | b # _ \<Rightarrow>
          if sptr = None \<and> \<not> can_alloc 4 then Some (RC_FAIL, 0, None)
          else Some (RC_OK, 1, Some (uint b)))"

definition NULL_encode_oer :: "(int, 'k) oer_encoder" where
  "NULL_encode_oer sptr cb app_key = Some (0, app_key)"

definition NULL_decode_oer :: "(nat \<Rightarrow> bool) \<Rightarrow> int oer_decoder" where
  "NULL_decode_oer can_alloc sptr ptr =
     (case sptr of
        Some v \<Rightarrow> Some (RC_OK, 0, Some v)
      | None \<Rightarrow> if can_alloc 4 then Some (RC_OK, 0, Some 0) else Some (RC_FAIL, 0, None))"

context octet_sink begin

lemma boolean_encodes: "holds k xs \<Longrightarrow> sink_puts cb holds xs [if v \<noteq> 0 then 0xFF else 0] (BOOLEAN_encode_oer v cb k)"
  by (rule cb_step [of k xs "[if v \<noteq> 0 then 0xFF else 0]"]) (auto simp: BOOLEAN_encode_oer_def sink_puts_def)

lemma boolean_oer_type:
  "oer_type cb holds BOOLEAN_encode_oer BOOLEAN_encode_oer (BOOLEAN_decode_oer (\<lambda>_. True))
     (\<lambda>v. Some [if v \<noteq> 0 then 0xFF else 0]) (\<lambda>v. v \<noteq> 0)"
  using boolean_encodes count_exact [OF count.boolean_encodes [where xs = "[]"]]
  by unfold_locales (auto simp: BOOLEAN_decode_oer_def)

lemma null_oer_type:
  "oer_type cb holds NULL_encode_oer NULL_encode_oer (NULL_decode_oer (\<lambda>_. True)) (\<lambda>v. Some []) (\<lambda>v. ())"
  by unfold_locales (auto simp: NULL_encode_oer_def NULL_decode_oer_def sink_puts_def split: option.splits)

end

interpretation boolean_oer: oer_type "encode_dyn_cb ca" "\<lambda>k xs. dyn_inv k \<and> dyn_taken k = xs"
    BOOLEAN_encode_oer BOOLEAN_encode_oer "BOOLEAN_decode_oer (\<lambda>_. True)" "\<lambda>v. Some [if v \<noteq> 0 then 0xFF else 0]" "\<lambda>v. v \<noteq> 0"
  for ca
  by (rule dyn.sink.boolean_oer_type)

interpretation null_oer: oer_type "encode_dyn_cb ca" "\<lambda>k xs. dyn_inv k \<and> dyn_taken k = xs"
    NULL_encode_oer NULL_encode_oer "NULL_decode_oer (\<lambda>_. True)" "\<lambda>v. Some []" "\<lambda>v. ()"
  for ca
  by (rule dyn.sink.null_oer_type)

section \<open>Enumerations\<close>

definition asn__nativeenumerated_convert :: "u8 list \<Rightarrow> int option" where
  "asn__nativeenumerated_convert b = do {
     b0 \<leftarrow> rd b 0;
     let value = (if drop_bit 7 b0 \<noteq> 0 then - 1 else 0 :: u64);
     Some (sint (foldl (\<lambda>value b. push_bit 8 value OR ucast b) value b)) }"

definition NativeEnumerated_decode_oer :: "(nat \<Rightarrow> bool) \<Rightarrow> bool \<Rightarrow> int oer_decoder" where
  "NativeEnumerated_decode_oer can_alloc uns nint_ptr ptr =
     (case ptr of
        [] \<Rightarrow> Some (RC_WMORE, 0, nint_ptr)
      | b # bs \<Rightarrow>
          if b AND 0x80 = 0 then
            if nint_ptr = None \<and> \<not> can_alloc 8 then Some (RC_FAIL, 0, None) else Some (RC_OK, 1, Some (uint b))
          else
            let len = unat (b AND 0x7F) in
            if len < 1 \<or> 8 < len then Some (RC_FAIL, 0, nint_ptr)
            else if length ptr < 1 + len then Some (RC_WMORE, 0, nint_ptr)
            else do {
              octets \<leftarrow> mem_load bs 0 len;
              v \<leftarrow> asn__nativeenumerated_convert octets;
              if v < 0 \<and> uns then Some (RC_FAIL, 0, nint_ptr)
              else if nint_ptr = None \<and> \<not> can_alloc 8 then Some (RC_FAIL, 0, None)
              else Some (RC_OK, 1 + len, Some v) })"

text \<open>
  The loop that fills \<open>buf\<close> from its last octet back; \<open>room\<close> octets are left in front of \<open>b\<close>, \<open>os\<close>
  are stored. Storing without room is a fault.
\<close>

fun enum_fill :: "int \<Rightarrow> int \<Rightarrow> nat \<Rightarrow> u8 list \<Rightarrow> (nat \<times> u8 list) option" where
  "enum_fill final_pattern native 0 os = None"
| "enum_fill final_pattern native (Suc room) os =
     (let b = of_int native :: u8; native = drop_bit 8 native in
      if native = final_pattern \<and> (if final_pattern \<noteq> 0 then b AND 0x80 \<noteq> 0 else b AND 0x80 = 0)
      then Some (room, b # os)
      else enum_fill final_pattern native room (b # os))"

definition NativeEnumerated_encode_oer :: "(int, 'k) oer_encoder" where
  "NativeEnumerated_encode_oer native cb app_key =
     (if 0 \<le> native \<and> native \<le> 127 then do {
        (r, app_key) \<leftarrow> cb app_key [of_int native];
        Some (if r < 0 then -1 else 1, app_key) }
      else do {
        let final_pattern = (if native < 0 then -1 else 0);
        (room, os) \<leftarrow> enum_fill final_pattern native (1 + 8) [];
        c_assert (0 < room);
        let encoded = 1 + length os;
        (r, app_key) \<leftarrow> cb app_key ((0x80 OR of_nat (length os)) # os);
        Some (if r < 0 then -1 else int encoded, app_key) })"

definition ENUMERATED_decode_oer :: "(nat \<Rightarrow> bool) \<Rightarrow> bool \<Rightarrow> INTEGER_t oer_decoder" where
  "ENUMERATED_decode_oer can_alloc uns sptr ptr =
     (if sptr = None \<and> \<not> can_alloc 16 then Some (RC_FAIL, 0, None)
      else do {
        let st = (case sptr of Some st \<Rightarrow> st | None \<Rightarrow> \<lparr>int_buf = None, int_size = 0\<rparr>);
        (code, consumed, v) \<leftarrow> NativeEnumerated_decode_oer can_alloc uns (Some 0) ptr;
        if code = RC_OK then do {
          v \<leftarrow> v;
          let (r, st) = asn_long2INTEGER can_alloc st v;
          Some (if r \<noteq> 0 then RC_FAIL else RC_OK, consumed, Some st) }
        else Some (code, consumed, Some st) })"

definition ENUMERATED_encode_oer :: "(INTEGER_t, 'k) oer_encoder" where
  "ENUMERATED_encode_oer st cb app_key = do {
     (r, v) \<leftarrow> asn_INTEGER2long st 0;
     if r \<noteq> 0 then Some (-1, app_key) else NativeEnumerated_encode_oer v cb app_key }"


text \<open>The loop stores the shortest two's complement octets of a \<open>long\<close>.\<close>

lemma twos_val_snoc: "bs \<noteq> [] \<Longrightarrow> twos_val (bs @ [b]) = 256 * twos_val bs + int (unat b)"
  by (simp add: twos_val_def)

lemma unat_of_int_u8: "int (unat (of_int n :: u8)) = n mod 256"
proof -
  have "uint (of_int n :: u8) = n mod 256" by (subst unsigned_of_int) (simp add: take_bit_eq_mod)
  then show ?thesis by (simp only: uint_nat)
qed

lemma minimal_unique:
  assumes "minimal_twos xs" "minimal_twos ys" "twos_val xs = twos_val ys"
  shows "xs = ys"
proof -
  have s: "\<not> length us < length vs" if "minimal_twos us" "minimal_twos vs" "twos_val us = twos_val vs" for us vs
    using shorter_is_smaller [OF that(1,2)] that(3) by (auto split: if_splits)
  have l: "length xs = length ys" using s [OF assms] s [OF assms(2,1) assms(3) [symmetric]] by simp
  have "128 \<le> unat (hd xs) \<longleftrightarrow> 128 \<le> unat (hd ys)"
    using assms twos_val_neg [of xs] twos_val_neg [of ys] by (auto simp: minimal_twos_def)
  moreover have "xs = [] \<longleftrightarrow> ys = []" using l by auto
  ultimately have "octets_val xs = octets_val ys" using assms(3) l by (simp add: twos_val_def split: if_splits)
  with l show ?thesis by (metis be_octets_octets_val)
qed

lemma enum_fill_ok:
  assumes "- (128 * 256 ^ j) \<le> n" "n < 128 * 256 ^ j" "j < room"
  shows "\<exists>ts. enum_fill (if n < 0 then -1 else 0) n room os = Some (room - length ts, ts @ os) \<and>
    twos_val ts = n \<and> minimal_twos ts \<and> length ts \<le> j + 1"
  using assms
proof (induction j arbitrary: n room os)
  case 0
  then obtain room' where r: "room = Suc room'" by (cases room) auto
  define b where "b = (of_int n :: u8)"
  obtain nb where nb: "unat b = nb" and b: "int nb = n mod 256"
    using unat_of_int_u8 [of n] unfolding b_def by blast
  have "drop_bit 8 n = (if n < 0 then -1 else 0)" using 0 by (auto simp: drop_bit_eq_div)
  moreover have m: "int nb = (if n < 0 then n + 256 else n)"
    using 0 b mod_pos_pos_trivial [of n 256] mod_pos_pos_trivial [of "n + 256" 256] by auto
  then have "128 \<le> nb \<longleftrightarrow> n < 0" using 0 by (cases "n < 0") auto
  moreover from this have "twos_val [b] = n" using m by (auto simp: twos_val_def octets_val_Cons nb)
  ultimately show ?case by (intro exI [of _ "[b]"]) (auto simp: r b_def [symmetric] top_bit_u8 nb)
next
  case (Suc j)
  then obtain room' where r: "room = Suc room'" by (cases room) auto
  define b where "b = (of_int n :: u8)"
  obtain nb where nb: "unat b = nb" and b: "int nb = n mod 256"
    using unat_of_int_u8 [of n] unfolding b_def by blast
  define n' where "n' = drop_bit 8 n"
  have n': "n' = n div 256" by (simp add: n'_def drop_bit_eq_div)
  show ?case
  proof (cases "n' = (if n < 0 then -1 else 0) \<and> (n < 0 \<longleftrightarrow> 128 \<le> nb)")
    case True
    have "n = 256 * n' + int nb" by (simp add: n' b)
    then have "twos_val [b] = n" using True by (auto simp: twos_val_def octets_val_Cons nb)
    then show ?thesis using True by (intro exI [of _ "[b]"]) (auto simp: r b_def [symmetric] n'_def [symmetric] top_bit_u8 nb)
  next
    case False
    have s: "(n' < 0) = (n < 0)" "- (128 * 256 ^ j) \<le> n'" "n' < 128 * 256 ^ j" using Suc.prems by (auto simp: n')
    from Suc.IH [OF s(2,3), of room' "b # os"] Suc.prems(3) obtain ts where
      ts: "enum_fill (if n < 0 then -1 else 0) n' room' (b # os) = Some (room' - length ts, ts @ b # os)"
        "twos_val ts = n'" "minimal_twos ts" "length ts \<le> j + 1" by (auto simp: r s(1))
    then have ne: "ts \<noteq> []" by (simp add: minimal_twos_def)
    have "twos_val (ts @ [b]) = n" unfolding twos_val_snoc [OF ne] ts(2) n' nb b by simp
    moreover have "enum_fill (if n < 0 then -1 else 0) n room os = enum_fill (if n < 0 then -1 else 0) n' room' (b # os)"
      using False by (auto simp: r b_def [symmetric] n'_def [symmetric] top_bit_u8 nb)
    moreover have "minimal_twos (ts @ [b])"
    proof (cases ts)
      case (Cons c cs)
      have "twos_val [c] = n' \<Longrightarrow> (c = 0 \<longrightarrow> n' = 0) \<and> (c = 0xFF \<longrightarrow> n' = -1)" by (auto simp: twos_val_def octets_val_Cons)
      with ts(2,3) False s(1) show ?thesis unfolding Cons
        by (cases cs) (auto simp: top_bit_u8 nb not_less)
    qed (use ne in simp)
    ultimately show ?thesis using ts by (intro exI [of _ "ts @ [b]"]) (auto simp: r)
  qed
qed


text \<open>X.696 #11: a value from 0 to 127 in one octet, any other one behind the number of its octets.\<close>

definition oer_enum_octets :: "bool \<Rightarrow> int \<Rightarrow> u8 list option" where
  "oer_enum_octets uns n =
     (if 0 \<le> n \<and> n \<le> 127 then Some [of_int n]
      else if INTMAX_MIN \<le> n \<and> n \<le> INTMAX_MAX \<and> (uns \<longrightarrow> 0 \<le> n)
      then Some (of_nat (128 + length (long_octets n)) # long_octets n) else None)"

lemma long_octets_facts:
  assumes "INTMAX_MIN \<le> n" "n \<le> INTMAX_MAX"
  shows "minimal_twos (long_octets n)" "twos_val (long_octets n) = n" "length (long_octets n) \<le> 8" "long_octets n \<noteq> []"
  using native_octets [OF assms] by (simp_all only: long_octets_def not_False_eq_True)

lemma enum_fill_long:
  assumes "INTMAX_MIN \<le> n" "n \<le> INTMAX_MAX"
  shows "enum_fill (if n < 0 then -1 else 0) n 9 [] = Some (9 - length (long_octets n), long_octets n)"
proof -
  have "- (128 * 256 ^ 7) \<le> n" "n < 128 * 256 ^ 7" using assms by (simp_all add: limits_defs)
  from enum_fill_ok [OF this, of 9 "[]"] obtain ts where
    "enum_fill (if n < 0 then -1 else 0) n 9 [] = Some (9 - length ts, ts)" "twos_val ts = n" "minimal_twos ts" by auto
  moreover from this have "ts = long_octets n" using minimal_unique long_octets_facts [OF assms] by metis
  ultimately show ?thesis by simp
qed


lemma length_octet: "n \<le> 8 \<Longrightarrow> 0x80 OR of_nat n = (of_nat (128 + n) :: u8)"
proof -
  assume "n \<le> 8"
  then have "take_bit 7 (of_nat n :: u8) = of_nat n" by (simp add: take_bit_of_nat take_bit_nat_eq_self)
  then show ?thesis using or_low_add [of 7 "of_nat n :: u8" 1] by simp
qed

lemma enum_decodes:
  assumes "oer_enum_octets uns n = Some bs"
  shows "NativeEnumerated_decode_oer (\<lambda>_. True) uns sptr (bs @ rest) = Some (RC_OK, length bs, Some n)"
proof (cases "0 \<le> n \<and> n \<le> 127")
  case True
  then have "unat (of_int n :: u8) = nat n" "uint (of_int n :: u8) = n"
    by (simp_all add: unsigned_of_int take_bit_eq_mod)
  then show ?thesis using assms True by (auto simp: oer_enum_octets_def NativeEnumerated_decode_oer_def top_bit_u8)
next
  case False
  then have n: "INTMAX_MIN \<le> n" "n \<le> INTMAX_MAX" "uns \<Longrightarrow> 0 \<le> n"
    and bs: "bs = of_nat (128 + length (long_octets n)) # long_octets n"
    using assms unfolding oer_enum_octets_def by (auto split: if_splits)
  note l = long_octets_facts [OF n(1,2)]
  define b where "b = (of_nat (128 + length (long_octets n)) :: u8)"
  have b: "b AND 0x80 \<noteq> 0" "unat (b AND 0x7F) = length (long_octets n)" unfolding b_def by (intro octet_flag; use l(3) in simp)+
  have "asn__nativeenumerated_convert (long_octets n) = do { v \<leftarrow> asn__integer_convert (long_octets n); Some (sint v) }"
    by (simp add: asn__nativeenumerated_convert_def asn__integer_convert_def Let_def bind_assoc)
  also have "\<dots> = Some n" using l(2) sint_of_int_64 [OF n(1,2)] by (simp add: integer_convert l(4))
  finally have c: "asn__nativeenumerated_convert (long_octets n) = Some n" .
  have m: "mem_load (long_octets n @ rest) 0 (length (long_octets n)) = Some (long_octets n)" by (simp add: mem_load_def)
  have "NativeEnumerated_decode_oer (\<lambda>_. True) uns sptr (b # long_octets n @ rest) = Some (RC_OK, 1 + length (long_octets n), Some n)"
    using b l(3,4) m c n(3) by (auto simp: NativeEnumerated_decode_oer_def Let_def)
  then show ?thesis by (simp add: bs b_def)
qed

context octet_sink begin

lemma enum_encodes:
  assumes "oer_enum_octets uns n = Some bs" "holds k xs"
  shows "sink_puts cb holds xs bs (NativeEnumerated_encode_oer n cb k)"
proof (cases "0 \<le> n \<and> n \<le> 127")
  case True
  then have bs: "bs = [of_int n]" using assms(1) by (simp add: oer_enum_octets_def)
  show ?thesis by (rule cb_step [OF assms(2), of bs]) (use True bs in \<open>simp_all add: NativeEnumerated_encode_oer_def sink_puts_def\<close>)
next
  case False
  then have n: "INTMAX_MIN \<le> n" "n \<le> INTMAX_MAX"
    and bs: "bs = of_nat (128 + length (long_octets n)) # long_octets n"
    using assms(1) unfolding oer_enum_octets_def by (auto split: if_splits)
  note l = long_octets_facts [OF n]
  have e: "NativeEnumerated_encode_oer n cb k = do { (r, k) \<leftarrow> cb k bs; Some (if r < 0 then -1 else int (length bs), k) }"
    using False enum_fill_long [OF n] l(3) length_octet [OF l(3)]
    by (auto simp: NativeEnumerated_encode_oer_def bs Let_def cong del: if_weak_cong)
  show ?thesis by (rule cb_step [OF assms(2), of bs]) (simp_all add: e sink_puts_def)
qed

lemma enum_oer_type:
  "oer_type cb holds NativeEnumerated_encode_oer NativeEnumerated_encode_oer (NativeEnumerated_decode_oer (\<lambda>_. True) uns)
     (oer_enum_octets uns) (\<lambda>n. n)"
  using enum_encodes count_exact [OF count.enum_encodes [where xs = "[]"]] enum_decodes by unfold_locales auto

lemma INTEGER_oer_type:
  "oer_type cb holds (INTEGER_encode_oer True tdc cs) (INTEGER_encode_oer True tdc cs) (INTEGER_decode_oer (\<lambda>_. True) tdc cs)
     (\<lambda>st. if INTEGER_inv st then oer_integer_octets (oer_constraint tdc cs) (INTEGER_octets st) else None) INTEGER_val"
proof unfold_locales
  fix st bs k xs sptr rest
  assume "(if INTEGER_inv st then oer_integer_octets (oer_constraint tdc cs) (INTEGER_octets st) else None) = Some bs"
  then have st: "INTEGER_inv st" "oer_integer_octets (oer_constraint tdc cs) (INTEGER_octets st) = Some bs" by (auto split: if_splits)
  show "holds k xs \<Longrightarrow> sink_puts cb holds xs bs (INTEGER_encode_oer True tdc cs st cb k)"
    by (rule INTEGER_encode_oer_ok [OF st(1) _ st(2)])
  show "INTEGER_encode_oer True tdc cs st oer__count_bytes 0 = Some (int (length bs), length bs)"
    using count_exact [OF count.INTEGER_encode_oer_ok [OF st(1) _ st(2), of 0 "[]"]] by simp
  show "\<exists>w. INTEGER_decode_oer (\<lambda>_. True) tdc cs sptr (bs @ rest) = Some (RC_OK, length bs, Some w) \<and> INTEGER_val w = INTEGER_val st"
    using INTEGER_decode_oer_ok [OF st(2), of sptr rest] by (auto simp: INTEGER_val_def)
qed

end

interpretation enum_oer: oer_type "encode_dyn_cb ca" "\<lambda>k xs. dyn_inv k \<and> dyn_taken k = xs"
    NativeEnumerated_encode_oer NativeEnumerated_encode_oer "NativeEnumerated_decode_oer (\<lambda>_. True) uns" "oer_enum_octets uns" "\<lambda>n. n"
  for ca uns
  by (rule dyn.sink.enum_oer_type)

interpretation INTEGER_oer: oer_type "encode_dyn_cb ca" "\<lambda>k xs. dyn_inv k \<and> dyn_taken k = xs"
    "INTEGER_encode_oer True tdc cs" "INTEGER_encode_oer True tdc cs" "INTEGER_decode_oer (\<lambda>_. True) tdc cs"
    "\<lambda>st. if INTEGER_inv st then oer_integer_octets (oer_constraint tdc cs) (INTEGER_octets st) else None" INTEGER_val
  for ca tdc cs
  by (rule dyn.sink.INTEGER_oer_type)

section \<open>Properties\<close>

text \<open>
  C30: the length determinant of OER round trips for every length that \<open>size_t\<close> objects can have:
  \<open>oer_serialize_length\<close> delivers octets that \<open>oer_fetch_length\<close> reads as the same number, in front
  of anything else, and both return their count.
\<close>

theorem oer_length_roundtrip:
  assumes "n \<le> RSIZE_MAX" "dyn_inv k" "oer_serialize_length True n (encode_dyn_cb ca) k = Some (r, k')" "0 \<le> r"
  shows "\<exists>bs. dyn_taken k' = dyn_taken k @ bs \<and> r = int (length bs) \<and> oer_fetch_length (bs @ rest) = (r, n)"
proof -
  have "n < 2 ^ 64" using assms(1) by (simp add: RSIZE_MAX_def)
  then have "sink_puts (encode_dyn_cb ca) (\<lambda>k xs. dyn_inv k \<and> dyn_taken k = xs) (dyn_taken k) (oer_length_octets n) (Some (r, k'))"
    unfolding assms(3) [symmetric] by (intro dyn.sink.serialize_length_ok) (simp_all add: assms(2))
  from dyn_delivered [OF this assms(4)] fetch_length_ok [OF assms(1), of rest] show ?thesis by auto
qed

theorem oer_length_roundtrip_witness:
  "\<exists>r k' bs. oer_serialize_length True 300 (encode_dyn_cb (\<lambda>_. True)) dyn_start = Some (r, k') \<and>
    dyn_taken k' = bs \<and> oer_fetch_length (bs @ [7]) = (r, 300)"
proof -
  obtain k' where e: "oer_serialize_length True 300 (encode_dyn_cb (\<lambda>_. True)) dyn_start = Some (int (length (oer_length_octets 300)), k')"
    by (rule dyn_puts_total [OF dyn.sink.serialize_length_ok [OF dyn_holds_start, where n = 300]]) simp_all
  have "300 \<le> RSIZE_MAX" by (simp add: RSIZE_MAX_def)
  from oer_length_roundtrip [OF this dyn_start_inv(1) e, of "[7]"] e show ?thesis by auto
qed

text \<open>
  On a big-endian machine \<open>oer_serialize_length\<close> reads the octet behind the object \<open>length\<close>
  for every length above 127: \<open>pend\<close> is set to the end of the object there, but both loops treat it
  as the last octet.
\<close>

lemma skip_zeros_last: "skip_zeros obj (ps @ [q]) = Some qs \<Longrightarrow> \<exists>rs. qs = rs @ [q]"
proof (induction ps arbitrary: qs)
  case (Cons p ps)
  obtain p' ps' where p': "ps @ [q] = p' # ps'" by (cases "ps @ [q]") auto
  with Cons show ?case by (cases "rd obj p") (auto split: if_splits intro: exI [of _ "p # ps"])
qed auto

lemma copy_octets_last: "rd obj q = None \<Longrightarrow> copy_octets obj (ps @ [q]) = None"
  by (induction ps) auto

theorem oer_length_big_endian_overread:
  assumes "127 < n"
  shows "oer_serialize_length False n cb k = None"
proof (cases "skip_zeros (size_object False n) [0..<9]")
  case (Some ps)
  have "[0..<9] = [0..<8] @ [8]" by (simp add: upt_rec)
  with Some obtain qs where qs: "ps = qs @ [8]" using skip_zeros_last by metis
  have "rd (size_object False n) 8 = None" by (simp add: rd_def size_object_def)
  from copy_octets_last [OF this, of qs] Some assms show ?thesis by (simp add: oer_serialize_length_def qs)
qed (use assms in \<open>simp add: oer_serialize_length_def\<close>)

theorem oer_length_big_endian_overread_witness:
  "oer_serialize_length False 128 (encode_dyn_cb (\<lambda>_. True)) dyn_start = None"
  by (rule oer_length_big_endian_overread) simp

text \<open>An encoder of INTEGER that does not fail had an encoding to deliver.\<close>

lemma INTEGER_encode_oer_has:
  assumes "INTEGER_inv st" "int_size st \<le> RSIZE_MAX" "INTEGER_encode_oer True tdc cs st cb k = Some (r, k')" "0 \<le> r"
  shows "\<exists>bs. oer_integer_octets (oer_constraint tdc cs) (INTEGER_octets st) = Some bs"
proof -
  define os where "os = INTEGER_octets st"
  define ct where "ct = oer_constraint tdc cs"
  define useful where "useful = (if ct_positive ct then strip_zeros os else skip_insignificant os)"
  obtain buf where buf: "int_buf st = Some buf" "int_size st \<le> length buf"
    using assms(1) by (auto simp: INTEGER_inv_def split: option.splits)
  have ld: "mem_load buf 0 (int_size st) = Some os" and sz: "length os = int_size st"
    using buf by (simp_all add: mem_load_def os_def INTEGER_octets_def)
  have ne: "os \<noteq> []" using assms(3,4) sz by (auto simp: INTEGER_encode_oer_def)
  have sign: "hd os AND 0x80 \<noteq> 0 \<longleftrightarrow> twos_val os < 0" using ne by (simp add: twos_val_neg top_bit_u8 not_less)
  have nz: "int_size st \<noteq> 0" using ne sz by (cases os) auto
  have "\<not> (ct_positive ct \<and> twos_val os < 0)"
  proof
    assume "ct_positive ct \<and> twos_val os < 0"
    then have "INTEGER_encode_oer True tdc cs st cb k = Some (-1, k)"
      using nz sign by (simp add: INTEGER_encode_oer_def buf(1) ld ct_def [symmetric] Let_def)
    with assms(3,4) show False by simp
  qed
  moreover have "\<not> (ct_width ct \<noteq> 0 \<and> ct_width ct < length useful)"
  proof
    assume "ct_width ct \<noteq> 0 \<and> ct_width ct < length useful"
    then have "INTEGER_encode_oer True tdc cs st cb k = Some (-1, k)"
      using nz by (simp add: INTEGER_encode_oer_def buf(1) ld ct_def [symmetric] Let_def useful_def [symmetric])
    with assms(3,4) show False by simp
  qed
  moreover have "length useful \<le> RSIZE_MAX"
    using length_skip [of os] strip_zeros_facts(3) [of os] assms(2) sz by (auto simp: useful_def)
  ultimately show ?thesis using ne
    by (auto simp: oer_integer_octets_def oer_contents_def os_def [symmetric] ct_def [symmetric] useful_def [symmetric] Let_def)
qed


text \<open>
  C29: an INTEGER that \<open>INTEGER_encode_oer\<close> accepts round trips, under every constraint: unsigned
  or signed, of a fixed width or behind a length determinant. The return value is the number of
  octets delivered, \<open>INTEGER_decode_oer\<close> consumes exactly these in front of anything else, and
  the numbers are equal.
\<close>

theorem INTEGER_oer_roundtrip:
  assumes "INTEGER_inv st" "int_size st \<le> RSIZE_MAX"
    and "dyn_inv k" "INTEGER_encode_oer True tdc cs st (encode_dyn_cb ca) k = Some (r, k')" "0 \<le> r"
  shows "\<exists>bs w. dyn_taken k' = dyn_taken k @ bs \<and> r = int (length bs) \<and>
    INTEGER_decode_oer (\<lambda>_. True) tdc cs sptr (bs @ rest) = Some (RC_OK, length bs, Some w) \<and>
    INTEGER_inv w \<and> INTEGER_val w = INTEGER_val st"
proof -
  from INTEGER_encode_oer_has [OF assms(1,2,4,5)] obtain bs where
    bs: "oer_integer_octets (oer_constraint tdc cs) (INTEGER_octets st) = Some bs" ..
  have "sink_puts (encode_dyn_cb ca) (\<lambda>k xs. dyn_inv k \<and> dyn_taken k = xs) (dyn_taken k) bs (Some (r, k'))"
    unfolding assms(4) [symmetric] by (rule dyn.sink.INTEGER_encode_oer_ok [OF assms(1) _ bs]) (simp add: assms(3))
  from dyn_delivered [OF this assms(5)] INTEGER_decode_oer_ok [OF bs, of sptr rest] show ?thesis
    by (auto simp: INTEGER_val_def)
qed

theorem INTEGER_oer_roundtrip_witness:
  "\<exists>r k' bs w. INTEGER_encode_oer True None (Some \<lparr>oc_value = \<lparr>ct_width = 2, ct_positive = False\<rparr>, oc_size = -1\<rparr>)
      (INTEGER_of [0xFF, 0xFF, 0xFE]) (encode_dyn_cb (\<lambda>_. True)) dyn_start = Some (r, k') \<and> dyn_taken k' = bs \<and>
    INTEGER_decode_oer (\<lambda>_. True) None (Some \<lparr>oc_value = \<lparr>ct_width = 2, ct_positive = False\<rparr>, oc_size = -1\<rparr>)
      None (bs @ [1]) = Some (RC_OK, length bs, Some w) \<and> INTEGER_val w = -2"
proof -
  define c where "c = \<lparr>oc_value = \<lparr>ct_width = 2, ct_positive = False\<rparr>, oc_size = -1\<rparr>"
  define st where "st = INTEGER_of [0xFF, 0xFF, 0xFE]"
  have st: "INTEGER_inv st" "int_size st \<le> RSIZE_MAX" by (simp add: st_def) (simp add: st_def INTEGER_of_def RSIZE_MAX_def)
  have v: "INTEGER_val st = -2" by (simp add: st_def twos_val_def octets_val_Cons)
  have "oer_integer_octets (oer_constraint None (Some c)) (INTEGER_octets st) = Some [0xFF, 0xFE]"
    by (simp add: oer_integer_octets_def oer_constraint_def c_def oer_contents_def st_def twos_val_def octets_val_Cons)
  then obtain k' where e: "INTEGER_encode_oer True None (Some c) st (encode_dyn_cb (\<lambda>_. True)) dyn_start = Some (int (length [0xFF :: u8, 0xFE]), k')"
    by (rule dyn_puts_total [OF dyn.sink.INTEGER_encode_oer_ok [OF st(1) dyn_holds_start]])
  from INTEGER_oer_roundtrip [OF st dyn_start_inv(1) e, of None "[1]"] e v
  have "\<exists>r k' bs w. INTEGER_encode_oer True None (Some c) st (encode_dyn_cb (\<lambda>_. True)) dyn_start = Some (r, k') \<and>
      dyn_taken k' = bs \<and> INTEGER_decode_oer (\<lambda>_. True) None (Some c) None (bs @ [1]) = Some (RC_OK, length bs, Some w) \<and>
      INTEGER_val w = -2" by auto
  then show ?thesis by (simp only: c_def st_def)
qed

text \<open>
  The only fault of \<open>INTEGER_decode_oer\<close> on any input: an unsigned type without a width whose
  length determinant is zero and ends the input. The most significant bit is read from the contents
  without checking that there are any, one octet behind the input.
\<close>

theorem INTEGER_decode_oer_fault:
  assumes "can_alloc 16"
  shows "INTEGER_decode_oer can_alloc tdc cs sptr ptr = None \<longleftrightarrow>
    ct_positive (oer_constraint tdc cs) \<and> ct_width (oer_constraint tdc cs) = 0 \<and> ptr \<noteq> [] \<and>
    oer_fetch_length ptr = (int (length ptr), 0)"
proof -
  define ct where "ct = oer_constraint tdc cs"
  obtain r n where f: "oer_fetch_length ptr = (r, n)" by fastforce
  note b = oer_fetch_bounds [OF f]
  have ld: "\<not> length p < m \<Longrightarrow> mem_load p 0 m = Some (take m p)" for p :: "u8 list" and m by (simp add: mem_load_def)
  show ?thesis
  proof (cases "ct_width ct = 0")
    case True
    consider "r = -1" | "r = 0" | "0 < r" "r \<le> int (length ptr)" using b(1) by blast
    then show ?thesis
    proof cases
      case 3
      define p where "p = drop (nat r) ptr"
      have p: "p = [] \<longleftrightarrow> r = int (length ptr)" using 3 by (auto simp: p_def)
      have "INTEGER_decode_oer can_alloc tdc cs sptr ptr = None \<longleftrightarrow> ct_positive ct \<and> p = [] \<and> n = 0"
        using True 3 assms unfolding INTEGER_decode_oer_def ct_def [symmetric] f Let_def prod.case
        by (cases "length p < n"; cases p) (auto simp: p_def [symmetric] ld rd_def simp del: length_drop)
      then show ?thesis using True 3 f p by (auto simp: ct_def)
    qed (use True assms f in \<open>auto simp: INTEGER_decode_oer_def ct_def [symmetric] Let_def\<close>)
  next
    case False
    have "INTEGER_decode_oer can_alloc tdc cs sptr ptr \<noteq> None"
      using False assms by (cases "length ptr < ct_width ct"; cases ptr) (auto simp: INTEGER_decode_oer_def ct_def [symmetric] Let_def ld rd_def)
    then show ?thesis using False by (simp add: ct_def)
  qed
qed

theorem INTEGER_decode_oer_fault_witness:
  "INTEGER_decode_oer (\<lambda>_. True) None (Some \<lparr>oc_value = \<lparr>ct_width = 0, ct_positive = True\<rparr>, oc_size = -1\<rparr>) None [0] = None"
  using INTEGER_decode_oer_fault [of "\<lambda>_. True" None "Some \<lparr>oc_value = \<lparr>ct_width = 0, ct_positive = True\<rparr>, oc_size = -1\<rparr>" None "[0]"]
  by (simp add: oer_constraint_def oer_fetch_length_def)

text \<open>
  A NativeInteger and everything behind it survive an open type: what \<open>oer_open_type_put\<close>
  delivers is the length of the encoding and the encoding, \<open>oer_open_type_get\<close> reads the number back
  and returns the octets of both, under every constraint.
\<close>

theorem native_oer_open_type_roundtrip:
  assumes "oer_native_octets uns (oer_constraint tdc cs) n = Some bs" "length bs \<le> RSIZE_MAX" "dyn_inv k"
    and "oer_open_type_put True (NativeInteger_encode_oer True (\<lambda>_. True) uns tdc cs) (NativeInteger_encode_oer True (\<lambda>_. True) uns tdc cs)
      n (encode_dyn_cb ca) k = Some (r, k')" "0 \<le> r"
  shows "\<exists>out. dyn_taken k' = dyn_taken k @ out \<and> r = int (length out) \<and>
    oer_open_type_get (NativeInteger_decode_oer (\<lambda>_. True) uns tdc cs) sptr (out @ rest) = Some (r, Some n)"
proof -
  have "length bs < 2 ^ 64" using assms(2) by (simp add: RSIZE_MAX_def)
  from native_oer.open_type_put_ok [OF assms(1) _ this, of k "dyn_taken k" ca] assms(3,4)
  have "sink_puts (encode_dyn_cb ca) (\<lambda>k xs. dyn_inv k \<and> dyn_taken k = xs) (dyn_taken k) (oer_length_octets (length bs) @ bs) (Some (r, k'))"
    by simp
  from dyn_delivered [OF this assms(5)] native_oer.open_type_get_ok [OF assms(1,2), of sptr rest] show ?thesis by auto
qed

theorem native_oer_open_type_roundtrip_witness:
  "\<exists>r k' out. oer_open_type_put True (NativeInteger_encode_oer True (\<lambda>_. True) False None None)
      (NativeInteger_encode_oer True (\<lambda>_. True) False None None) 5 (encode_dyn_cb (\<lambda>_. True)) dyn_start = Some (r, k') \<and>
    dyn_taken k' = out \<and>
    oer_open_type_get (NativeInteger_decode_oer (\<lambda>_. True) False None None) None (out @ [9]) = Some (r, Some 5)"
proof -
  have "long_octets 5 = [5]"
    by (rule minimal_unique; use long_octets_facts(1,2) [of 5] in \<open>simp add: limits_defs twos_val_def octets_val_Cons\<close>)
  then have bs: "oer_native_octets False (oer_constraint None None) 5 = Some [1, 5]"
    by (simp add: oer_native_octets_def oer_integer_octets_def oer_contents_def oer_constraint_def limits_defs
        twos_val_def octets_val_Cons RSIZE_MAX_def oer_length_octets_def)
  have l: "length [1 :: u8, 5] \<le> RSIZE_MAX" "length [1 :: u8, 5] < 2 ^ 64" by (simp_all add: RSIZE_MAX_def)
  obtain k' where e: "oer_open_type_put True (NativeInteger_encode_oer True (\<lambda>_. True) False None None)
      (NativeInteger_encode_oer True (\<lambda>_. True) False None None) 5 (encode_dyn_cb (\<lambda>_. True)) dyn_start =
      Some (int (length (oer_length_octets (length [1 :: u8, 5]) @ [1, 5])), k')"
    by (rule dyn_puts_total [OF native_oer.open_type_put_ok [OF bs dyn_holds_start l(2)]])
  from native_oer_open_type_roundtrip [OF bs l(1) dyn_start_inv(1) e, of None "[9]"] e show ?thesis by auto
qed

text \<open>
  \<open>Oer_open_type_skip\<close> does not skip an open type. It returns the octets of the length
  determinant alone, so a caller that advances by its result goes on in the middle of the value.
  For every value of a primitive type that \<open>oer_open_type_put\<close> wrote the result is too small.
\<close>

theorem oer_open_type_skip_short:
  assumes "primitive_octets st = Some bs" "length bs \<le> RSIZE_MAX" "dyn_inv k"
    and "oer_open_type_put True (oer_encode_primitive True \<circ> Some) (oer_encode_primitive True \<circ> Some) st (encode_dyn_cb ca) k = Some (r, k')" "0 \<le> r"
  shows "\<exists>out. dyn_taken k' = dyn_taken k @ out \<and> r = int (length out) \<and>
    0 < oer_open_type_skip (out @ rest) \<and> oer_open_type_skip (out @ rest) < r"
proof -
  have "length bs < 2 ^ 64" using assms(2) by (simp add: RSIZE_MAX_def)
  from primitive_oer.open_type_put_ok [OF assms(1) _ this, of k "dyn_taken k" ca] assms(3,4)
  have "sink_puts (encode_dyn_cb ca) (\<lambda>k xs. dyn_inv k \<and> dyn_taken k = xs) (dyn_taken k) (oer_length_octets (length bs) @ bs) (Some (r, k'))"
    by simp
  note d = dyn_delivered [OF this assms(5)]
  have "bs \<noteq> []" using assms(1) by (auto simp: primitive_octets_def oer_length_octets_def Let_def split: if_splits)
  moreover have "oer_length_octets (length bs) \<noteq> []" by (simp add: oer_length_octets_def Let_def)
  ultimately show ?thesis using d fetch_length_ok [OF assms(2), of "bs @ rest"] by (auto simp: oer_open_type_skip_def)
qed

theorem oer_open_type_skip_short_witness:
  "\<exists>r k' out. oer_open_type_put True (oer_encode_primitive True \<circ> Some) (oer_encode_primitive True \<circ> Some) (INTEGER_of [1, 2])
      (encode_dyn_cb (\<lambda>_. True)) dyn_start = Some (r, k') \<and> dyn_taken k' = out \<and> oer_open_type_skip (out @ []) < r"
proof -
  have bs: "primitive_octets (INTEGER_of [1, 2]) = Some [2, 1, 2]"
    by (simp add: primitive_octets_def RSIZE_MAX_def oer_length_octets_def) (simp add: INTEGER_of_def)
  have l: "length [2 :: u8, 1, 2] \<le> RSIZE_MAX" "length [2 :: u8, 1, 2] < 2 ^ 64" by (simp_all add: RSIZE_MAX_def)
  obtain k' where e: "oer_open_type_put True (oer_encode_primitive True \<circ> Some) (oer_encode_primitive True \<circ> Some) (INTEGER_of [1, 2])
      (encode_dyn_cb (\<lambda>_. True)) dyn_start = Some (int (length (oer_length_octets (length [2 :: u8, 1, 2]) @ [2, 1, 2])), k')"
    by (rule dyn_puts_total [OF primitive_oer.open_type_put_ok [OF bs dyn_holds_start l(2)]])
  from oer_open_type_skip_short [OF bs l(1) dyn_start_inv(1) e, of "[]"] e show ?thesis by auto
qed

text \<open>An unsigned field above \<open>LONG_MAX\<close> cannot be encoded: it became a negative INTEGER on the way.\<close>

lemma unsigned_oer_refused:
  assumes "INTMAX_MIN \<le> n" "n < 0" "ct_positive (oer_constraint tdc cs)"
  shows "NativeInteger_encode_oer le (\<lambda>_. True) True tdc cs n cb k = Some (-1, k)"
proof -
  have n: "n \<le> INTMAX_MAX" using assms(2) by (simp add: limits_defs)
  note l = long_octets_facts [OF assms(1) n]
  have "hd (long_octets n) AND 0x80 \<noteq> 0" using twos_val_neg [of "long_octets n"] l assms(2) by (simp add: top_bit_u8 not_less)
  moreover have "mem_load (long_octets n) 0 (length (long_octets n)) = Some (long_octets n)" by (simp add: mem_load_def)
  ultimately show ?thesis using native_to_INTEGER [OF assms(1) n, of True] assms(3) l(4)
    by (simp add: NativeInteger_encode_oer_def INTEGER_encode_oer_def Let_def)
qed

end
