(* ===== verification/Constraint_Table.thy ===== *)
theory Constraint_Table
  imports Uper_Robust Constraint_Range Oer_Types
begin

unbundle bit_operations_syntax

text \<open>
  The tables of constraints that the compiler prints for the decoders and encoders: the initializers of
  \<open>asn_per_constraints_t\<close> and \<open>asn_oer_constraints_t\<close> of \<open>libasn1compiler/asn1c_C.c\<close>, and the choice of the C type
  of an INTEGER by \<open>asn1c_type_fits_long\<close> of \<open>asn1c_misc.c\<close>. The end to end theorems join the walk over the tree
  (\<open>Constraint_Range\<close>), the table and the run time (\<open>Uper_Schema\<close>, \<open>Oer_Types\<close>).
\<close>

section \<open>The PER table\<close>

text \<open>The number of characters of an alphabet, over the parts of a range.\<close>

fun PER_FROM_alphabet_characters :: "crange \<Rightarrow> int option"
  and alphabet_sum :: "crange list \<Rightarrow> int \<Rightarrow> int option" where
  "PER_FROM_alphabet_characters (Range i es) =
     (if es \<noteq> [] then alphabet_sum es 0
      else do {
        c_assert (edge_type (left_edge i) = ARE_VALUE);
        c_assert (edge_type (right_edge i) = ARE_VALUE);
        d \<leftarrow> s128 (edge_value (right_edge i) - edge_value (left_edge i));
        s128 (1 + d) })"
| "alphabet_sum [] numchars = Some numchars"
| "alphabet_sum (e # es) numchars = do {
     n \<leftarrow> PER_FROM_alphabet_characters e;
     numchars \<leftarrow> s128 (numchars + n);
     alphabet_sum es numchars }"

text \<open>The loop that doubles \<open>cover\<close> until it covers the range \<open>r\<close>; \<open>k\<close> is what is left of its 128 rounds.\<close>

fun range_bits_loop :: "nat \<Rightarrow> int \<Rightarrow> int \<Rightarrow> int \<Rightarrow> int option" where
  "range_bits_loop 0 rbits cover r = Some rbits"
| "range_bits_loop (Suc k) rbits cover r =
     (if r \<le> cover then Some rbits
      else do {
        cover \<leftarrow> s128 (cover * 2);
        if cover < 0 then Some 16 else range_bits_loop k (rbits + 1) cover r })"

text \<open>\<open>for(ebits = 0; ebits <= 16; ebits++) if(r <= 1 << ebits) break;\<close> with \<open>k\<close> rounds left.\<close>

fun effective_bits_loop :: "nat \<Rightarrow> nat \<Rightarrow> int \<Rightarrow> nat" where
  "effective_bits_loop 0 ebits r = ebits"
| "effective_bits_loop (Suc k) ebits r = (if r \<le> push_bit ebits 1 then ebits else effective_bits_loop k (Suc ebits) r)"

text \<open>
  \<open>emit_single_member_PER_constraint\<close>: the initializer of an \<open>asn_per_constraint_t\<close> that it prints, with the
  numbers as they are printed. \<open>rng\<close> is \<open>None\<close> for the null pointer.
\<close>

definition unconstrained :: asn_per_constraint where
  "unconstrained = \<lparr>ct_flags = APC_UNCONSTRAINED, ct_range_bits = -1, ct_effective_bits = -1, ct_lower_bound = 0, ct_upper_bound = 0\<rparr>"

definition emit_single_member_PER_constraint :: "expr_type \<Rightarrow> crange option \<Rightarrow> bool \<Rightarrow> asn_per_constraint option" where
  "emit_single_member_PER_constraint et rng alphabetsize =
     (case rng of
        None \<Rightarrow> Some unconstrained
      | Some rg \<Rightarrow>
          let lv = edge_value (left rg); rv = edge_value (right rg);
              ext = (if extensible (info rg) then APC_EXTENSIBLE else 0) in
          if incompatible (info rg) \<or> not_PER_visible (info rg) then Some unconstrained
          else if et = ASN_BASIC_REAL then Some unconstrained
          else if edge_type (left rg) \<noteq> ARE_VALUE then Some unconstrained
          else if edge_type (right rg) \<noteq> ARE_VALUE then
            Some \<lparr>ct_flags = APC_SEMI_CONSTRAINED OR ext, ct_range_bits = -1, ct_effective_bits = -1, ct_lower_bound = lv, ct_upper_bound = rv\<rparr>
          else do {
            r \<leftarrow> s128 (1 + rv);
            r \<leftarrow> s128 (r - lv);
            r \<leftarrow> (if alphabetsize then PER_FROM_alphabet_characters rg else Some (if empty_constraint (info rg) then 0 else r));
            rbits \<leftarrow> range_bits_loop 128 0 1 r;
            let ebits = effective_bits_loop 17 0 r;
            Some (if alphabetsize
              then \<lparr>ct_flags = APC_CONSTRAINED OR ext, ct_range_bits = rbits, ct_effective_bits = rbits,
                     ct_lower_bound = (if 0x7fffffff < lv then 0x7fffffff else lv), ct_upper_bound = (if 0x7fffffff < rv then 0x7fffffff else rv)\<rparr>
              else \<lparr>ct_flags = APC_CONSTRAINED OR ext, ct_range_bits = rbits,
                     ct_effective_bits = (if ebits = 17 \<or> 65536 \<le> rv then -1 else int ebits), ct_lower_bound = lv, ct_upper_bound = rv\<rparr>) })"

text \<open>
  \<open>emit_member_PER_constraints\<close>. Of the members of an ENUMERATED or CHOICE it looks at the places of
  extension marks. \<open>maps\<close> are the functions on the tables of a permitted alphabet, which another part of the
  compiler emits when the alphabet is not contiguous. A range that could not be computed is a null pointer.
\<close>

abbreviation ASN_STRING_KM_MASK :: u32 where "ASN_STRING_KM_MASK \<equiv> 0x100"

definition or_null :: "((errno + crange) \<times> bool) option \<Rightarrow> crange option option" where
  "or_null res = map_option (\<lambda>(res, exmet). case res of Inr r \<Rightarrow> Some r | Inl e \<Rightarrow> None) res"

definition member_range :: "bool list \<Rightarrow> crange" where
  "member_range marks =
     (let eidx = int (length (takeWhile Not marks)) - 1 in
      Range ((info range_new)\<lparr>left_edge := value_edge 0, right_edge := value_edge (if eidx < 0 then 0 else eidx),
        extensible := True \<in> set marks, empty_constraint := eidx < 0\<rparr>) [])"

definition alphabet_range :: "expr_type \<Rightarrow> crange \<Rightarrow> crange option" where
  "alphabet_range et rg =
     (if edge_type (left rg) = ARE_MIN \<and> edge_type (right rg) = ARE_MAX \<or> not_PER_visible (info rg) then
        if et = ASN_STRING_BMPString
        then Some (with_info (\<lambda>i. i\<lparr>left_edge := (left_edge i)\<lparr>edge_type := ARE_VALUE, edge_value := 0\<rparr>,
               right_edge := (right_edge i)\<lparr>edge_type := ARE_VALUE, edge_value := 65535\<rparr>,
               not_PER_visible := False, extensible := False\<rparr>) rg)
        else if et = ASN_STRING_UniversalString then None
        else Some rg
      else Some rg)"

text \<open>
  For an ENUMERATED and a CHOICE the code goes on with the terminal type of the expression, the constraint of which it
  then asks for a SIZE; both types are incompatible with one, so that \<open>ct\<close> can stand for the constraints of either.
\<close>

definition emit_member_PER_constraints ::
  "bool \<Rightarrow> expr_type \<Rightarrow> asn1p_constraint option \<Rightarrow> bool list \<Rightarrow> ((nat \<Rightarrow> int) \<times> (nat \<Rightarrow> int)) option \<Rightarrow> asn_per_constraints option option" where
  "emit_member_PER_constraints gen_PER et ct marks maps =
     (let known_multiplier = (et AND ASN_STRING_KM_MASK \<noteq> 0);
          compute = (\<lambda>req. or_null (asn1constraint_compute_PER_range et ct req None None CPR_noflags)) in
      if \<not> (gen_PER \<and> (ct \<noteq> None \<or> et = ASN_BASIC_ENUMERATED \<or> et = ASN_CONSTR_CHOICE \<or> known_multiplier)) then Some None
      else do {
        val \<leftarrow> (if et = ASN_BASIC_ENUMERATED \<or> et = ASN_CONSTR_CHOICE
              then emit_single_member_PER_constraint et (Some (member_range marks)) False
              else if known_multiplier then do {
                rng \<leftarrow> compute ACT_CT_FROM;
                rng \<leftarrow> rng;
                (case alphabet_range et rng of
                   Some rng \<Rightarrow> emit_single_member_PER_constraint et (Some rng) True
                 | None \<Rightarrow> Some \<lparr>ct_flags = APC_CONSTRAINED, ct_range_bits = 32, ct_effective_bits = 32,
                     ct_lower_bound = 0, ct_upper_bound = 2147483647\<rparr>) }
              else do {
                rng \<leftarrow> compute ACT_EL_RANGE;
                emit_single_member_PER_constraint et rng False });
        rng \<leftarrow> compute ACT_CT_SIZE;
        sz \<leftarrow> emit_single_member_PER_constraint et rng False;
        Some (Some \<lparr>pc_value = val, pc_size = sz,
          pc_value2code = (if known_multiplier then map_option fst maps else None),
          pc_code2value = (if known_multiplier then map_option snd maps else None)\<rparr>) })"

section \<open>The OER table\<close>

definition emit_single_member_OER_constraint_value :: "expr_type \<Rightarrow> crange option \<Rightarrow> asn_oer_constraint_number" where
  "emit_single_member_OER_constraint_value et rng =
     (case rng of
        None \<Rightarrow> \<lparr>ct_width = 0, ct_positive = False\<rparr>
      | Some rg \<Rightarrow>
          let lb = edge_value (left rg); ub = edge_value (right rg) in
          if incompatible (info rg) \<or> not_OER_visible (info rg) then \<lparr>ct_width = 0, ct_positive = False\<rparr>
          else if et = ASN_BASIC_REAL then
            \<lparr>ct_width = (case narrowing (info rg) of NARROW_FLOAT32 \<Rightarrow> 4 | NARROW_DOUBLE64 \<Rightarrow> 8 | NOT_NARROW \<Rightarrow> 0), ct_positive = False\<rparr>
          else if edge_type (left rg) = ARE_VALUE \<and> 0 \<le> lb \<and> edge_type (right rg) = ARE_MAX then \<lparr>ct_width = 0, ct_positive = True\<rparr>
          else if edge_type (left rg) = ARE_VALUE \<and> edge_type (right rg) = ARE_VALUE then
            if 0 \<le> lb then
              \<lparr>ct_width = (if ub \<le> 255 then 1 else if ub \<le> 65535 then 2 else if (word_of_int ub :: u64) \<le> 4294967295 then 4
                 else if (word_of_int ub :: u64) \<le> 18446744073709551615 then 8 else 0), ct_positive = True\<rparr>
            else
              \<lparr>ct_width = (if -128 \<le> lb \<and> ub \<le> 127 then 1 else if -32768 \<le> lb \<and> ub \<le> 32767 then 2
                 else if -2147483648 \<le> lb \<and> ub \<le> 2147483647 then 4
                 else if -9223372036854775807 - 1 \<le> lb \<and> ub \<le> 9223372036854775807 then 8 else 0), ct_positive = False\<rparr>
          else \<lparr>ct_width = 0, ct_positive = False\<rparr>)"



section \<open>The C type of an integer\<close>

datatype asn1c_fitslong = FL_NOTFIT | FL_FITS_SIGNED | FL_FITS_UNSIGN | FL_PRESUMED

text \<open>
  What \<open>asn1c_type_fits_long\<close> reads of the terminal type: its members, of which those with a number
  (\<open>A1TC_UNIVERVAL\<close>) count, and its constraints.
\<close>

record terminal_type =
  tt_type :: expr_type
  tt_numbers :: "int list"
  tt_constraints :: "asn1p_constraint option"

definition asn1c_type_fits_long :: "bool \<Rightarrow> terminal_type option \<Rightarrow> asn1c_fitslong option" where
  "asn1c_type_fits_long wide_types terminal =
     (let RIGHTMAX = 2147483647; LEFTMIN = - 2147483648; presumed = (if wide_types then FL_NOTFIT else FL_PRESUMED) in
      case terminal of
        None \<Rightarrow> Some FL_NOTFIT
      | Some expr \<Rightarrow>
          if tt_type expr \<noteq> ASN_BASIC_INTEGER \<and> tt_type expr \<noteq> ASN_BASIC_ENUMERATED then Some FL_NOTFIT
          else if list_ex (\<lambda>v. v < LEFTMIN \<or> RIGHTMAX < v) (tt_numbers expr) then Some FL_NOTFIT
          else if tt_constraints expr = None then Some presumed
          else do {
            sized \<leftarrow> or_null (asn1constraint_compute_constraint_range (tt_type expr) (tt_constraints expr) ACT_CT_SIZE None None
              (CPR_noflags\<lparr>CPR_simulate_fbless_SIZE := True\<rparr>));
            if (case sized of Some r \<Rightarrow> \<not> incompatible (info r) \<and> edge_type (right r) = ARE_VALUE \<and> edge_value (right r) \<le> 4 | None \<Rightarrow> False)
            then Some FL_FITS_SIGNED
            else do {
              rng \<leftarrow> or_null (asn1constraint_compute_PER_range (tt_type expr) (tt_constraints expr) ACT_EL_RANGE None None CPR_noflags);
              Some (case rng of
                None \<Rightarrow> presumed
              | Some r \<Rightarrow>
                  let l = left r; h = right r in
                  if extensible (info r) \<and> wide_types \<or> empty_constraint (info r) \<or> incompatible (info r) \<or> not_PER_visible (info r)
                  then presumed
                  else if \<not> wide_types \<and> edge_type l = ARE_VALUE \<and> 0 \<le> edge_value l \<and> edge_value l \<le> 2147483647 \<and> edge_type h = ARE_MAX
                  then FL_FITS_UNSIGN
                  else if edge_type l = ARE_VALUE \<and> 0 \<le> edge_value l \<and> edge_type h = ARE_VALUE \<and> 2147483647 < edge_value h \<and>
                    edge_value h \<le> 4294967295
                  then FL_FITS_UNSIGN
                  else if edge_type l = ARE_VALUE \<and> (edge_value l < LEFTMIN \<or> RIGHTMAX < edge_value l) then FL_NOTFIT
                  else if edge_type h = ARE_VALUE \<and> (RIGHTMAX < edge_value h \<or> edge_value h < LEFTMIN) then FL_NOTFIT
                  else if edge_type l \<noteq> ARE_VALUE \<or> edge_type h \<noteq> ARE_VALUE then presumed
                  else FL_FITS_SIGNED) } })"


section \<open>The number of bits\<close>

lemma range_bits_loop_ok:
  "\<lbrakk>i \<le> n; n \<le> i + k; n \<le> 126; r \<le> 2 ^ n; \<forall>j < n. 2 ^ j < r\<rbrakk> \<Longrightarrow> range_bits_loop k (int i) (2 ^ i) r = Some (int n)"
proof (induction k arbitrary: i)
  case (Suc k)
  show ?case
  proof (cases "i = n")
    case False
    then have i: "i < n" using Suc.prems(1) by simp
    then have c: "\<not> r \<le> 2 ^ i" using Suc.prems(5) by (simp add: not_le)
    have "(2 :: int) ^ Suc i \<le> 2 ^ 126" using i Suc.prems(3) by (intro power_increasing) simp_all
    also have "\<dots> < 2 ^ 127" by simp
    finally have "(2 :: int) ^ Suc i < 2 ^ 127" .
    moreover have "- (2 ^ 127) \<le> (2 :: int) ^ Suc i" by (rule order_trans [of _ 0]) simp_all
    ultimately have "s128 (2 ^ Suc i) = Some (2 ^ Suc i)" unfolding s128_def by (intro if_P conjI)
    then have "s128 (2 ^ i * 2) = Some (2 ^ Suc i)" by (simp add: mult.commute)
    moreover have "range_bits_loop k (int (Suc i)) (2 ^ Suc i) r = Some (int n)"
      using Suc.prems i by (intro Suc.IH) simp_all
    moreover have "\<not> (2 :: int) ^ Suc i < 0" by simp
    ultimately show ?thesis using c by (simp add: add.commute)
  qed (use Suc.prems in simp)
qed simp

lemma effective_bits_loop_ok:
  "\<lbrakk>i \<le> n; r \<le> 2 ^ n; \<forall>j < n. 2 ^ j < r\<rbrakk> \<Longrightarrow> effective_bits_loop k i r = min n (i + k)"
proof (induction k arbitrary: i)
  case (Suc k)
  show ?case
  proof (cases "i = n")
    case False
    then have i: "i < n" using Suc.prems(1) by simp
    then have "\<not> r \<le> push_bit i 1" using Suc.prems(3) by (simp add: push_bit_eq_mult not_le)
    then show ?thesis using Suc.IH [of "Suc i"] Suc.prems i by simp
  qed (use Suc.prems in \<open>simp add: push_bit_eq_mult\<close>)
qed simp

text \<open>The least number of bits for a range of \<open>r\<close> numbers.\<close>

definition bits_for :: "int \<Rightarrow> nat" where
  "bits_for r = (LEAST n. r \<le> 2 ^ n)"

lemma bits_for:
  assumes "r \<le> 2 ^ k"
  shows "r \<le> 2 ^ bits_for r" "\<forall>j < bits_for r. 2 ^ j < r" "bits_for r \<le> k"
  unfolding bits_for_def using assms by (auto intro: LeastI Least_le dest: not_less_Least simp: not_le [symmetric])

section \<open>The table of a range\<close>

lemma edge_of_place:
  assumes "edge_in (2 ^ 63) e" "place e = v"
  shows "in_limits v \<Longrightarrow> edge_type e = ARE_VALUE \<and> edge_value e = v" "v = - (2 ^ 127) \<Longrightarrow> edge_type e = ARE_MIN" "v = 2 ^ 127 \<Longrightarrow> edge_type e = ARE_MAX"
  using assms by (auto simp: edge_in_def place_def in_limits_def INTMAX_MIN_def INTMAX_MAX_def split: edge_kind.splits)

lemma represents_edges:
  assumes "represents r S" "S \<noteq> {}"
  shows "place (left r) = Min S" "place (right r) = Max S" "edge_in (2 ^ 63) (left r)" "edge_in (2 ^ 63) (right r)"
    "finite S" "Min S = - (2 ^ 127) \<or> in_limits (Min S)" "Max S = 2 ^ 127 \<or> in_limits (Max S)"
proof -
  note rep = representsD [OF assms]
  have c: "canonical (2 ^ 63) r" using rep(3) by (simp add: normal_def)
  have hl: "hd (parts r) \<in> set (parts r)" "last (parts r) \<in> set (parts r)" by simp_all
  have lr: "left r = left (hd (parts r))" "right r = right (last (parts r))" using c by (simp_all add: canonical_def)
  show "edge_in (2 ^ 63) (left r)" "edge_in (2 ^ 63) (right r)"
    using canonical_part(1) [OF c hl(1)] canonical_part(1) [OF c hl(2)] by (simp_all add: lr part_ok_def)
  show e: "place (left r) = Min S" "place (right r) = Max S" "finite S" using canonical_ends [OF c] rep(4) by simp_all
  have "limited (hd (parts r))" "limited (last (parts r))" using rep(3) hl by (auto simp: normal_def)
  then show "Min S = - (2 ^ 127) \<or> in_limits (Min S)" "Max S = 2 ^ 127 \<or> in_limits (Max S)"
    by (auto simp: limited_def e(1,2) [symmetric] lr)
qed

definition effective_bits :: "int \<Rightarrow> int \<Rightarrow> int" where
  "effective_bits r ub = (if bits_for r \<le> 16 \<and> ub < 65536 then int (bits_for r) else -1)"

lemma value_range_table:
  assumes "edge_type (left r) = ARE_VALUE" "edge_type (right r) = ARE_VALUE"
    and "\<not> incompatible (info r)" "\<not> not_PER_visible (info r)" "\<not> empty_constraint (info r)" "et \<noteq> ASN_BASIC_REAL"
    and "edge_value (left r) = a" "edge_value (right r) = b" "in_limits a" "in_limits b" "a \<le> b"
  shows "emit_single_member_PER_constraint et (Some r) False =
    Some \<lparr>ct_flags = APC_CONSTRAINED OR (if extensible (info r) then APC_EXTENSIBLE else 0), ct_range_bits = int (bits_for (b - a + 1)),
      ct_effective_bits = effective_bits (b - a + 1) b, ct_lower_bound = a, ct_upper_bound = b\<rparr>" "bits_for (b - a + 1) \<le> 64"
proof -
  define d where "d = b - a + 1"
  have lim: "- (2 ^ 63) \<le> a" "b < 2 ^ 63" using assms(9,10) by (simp_all add: in_limits_def INTMAX_MIN_def INTMAX_MAX_def)
  have d: "d \<le> 2 ^ 64" "0 < d" using lim assms(11) by (simp_all add: d_def)
  note n = bits_for [OF d(1)]
  then show "bits_for (b - a + 1) \<le> 64" by (simp add: d_def)
  have s: "s128 (1 + b) = Some (1 + b)" "s128 (1 + b - a) = Some d" using lim assms(11) by (simp_all add: s128_def d_def)
  have rb: "range_bits_loop 128 0 1 d = Some (int (bits_for d))"
    using range_bits_loop_ok [of 0 "bits_for d" 128 d] n by simp
  have eb: "effective_bits_loop 17 0 d = min (bits_for d) 17" using effective_bits_loop_ok [of 0 "bits_for d" d 17] n by simp
  have ef: "(if min (bits_for d) 17 = 17 \<or> 65536 \<le> b then -1 else int (min (bits_for d) 17)) = effective_bits d b"
    by (auto simp: effective_bits_def)
  show "emit_single_member_PER_constraint et (Some r) False =
    Some \<lparr>ct_flags = APC_CONSTRAINED OR (if extensible (info r) then APC_EXTENSIBLE else 0), ct_range_bits = int (bits_for (b - a + 1)),
      ct_effective_bits = effective_bits (b - a + 1) b, ct_lower_bound = a, ct_upper_bound = b\<rparr>"
    unfolding emit_single_member_PER_constraint_def option.case Let_def assms(7,8)
    using assms(1-6) by (simp add: s rb eb ef [symmetric] d_def [symmetric])
qed


lemma integer_range_ok:
  assumes "regular all_numbers ct"
    and "compute \<in> {asn1constraint_compute_PER_range, asn1constraint_compute_OER_range, asn1constraint_compute_JER_range}"
  obtains r where "compute ASN_BASIC_INTEGER (Some ct) ACT_EL_RANGE None None CPR_noflags = Some (Inr r, True)"
    "represents r (allowed all_numbers ct)"
proof -
  have "plain ASN_BASIC_INTEGER ACT_EL_RANGE CPR_noflags" by (simp add: plain_def asn1constraint_compatible_def CPR_noflags_def)
  moreover have "parent ACT_EL_RANGE None all_numbers" by (simp add: parent_def all_numbers_def)
  ultimately show thesis using entry_ok [OF _ _ assms(1) _ assms(2), of ASN_BASIC_INTEGER ACT_EL_RANGE CPR_noflags None None] that by blast
qed

lemmas PER_range_ok = integer_range_ok [where compute = asn1constraint_compute_PER_range, simplified]

lemma no_size_of_integer:
  "compute \<in> {asn1constraint_compute_PER_range, asn1constraint_compute_OER_range} \<Longrightarrow>
     compute ASN_BASIC_INTEGER (Some ct) ACT_CT_SIZE None None CPR_noflags = Some (Inl EINVAL, False)"
  by (auto simp: asn1constraint_compute_PER_range_def asn1constraint_compute_OER_range_def asn1constraint_compute_constraint_range_def
    compute_range.simps [of _ _ _ _ _ ct] constraint_start_def asn1constraint_compatible_def CPR_noflags_def)

text \<open>The value constraint of an INTEGER that may be any number of \<open>S\<close>.\<close>

definition integer_table :: "int set \<Rightarrow> asn_per_constraint" where
  "integer_table S =
     (if \<not> in_limits (Min S) then unconstrained
      else if \<not> in_limits (Max S) then
        \<lparr>ct_flags = APC_SEMI_CONSTRAINED, ct_range_bits = -1, ct_effective_bits = -1, ct_lower_bound = Min S, ct_upper_bound = 0\<rparr>
      else \<lparr>ct_flags = APC_CONSTRAINED, ct_range_bits = int (bits_for (Max S - Min S + 1)),
        ct_effective_bits = effective_bits (Max S - Min S + 1) (Max S), ct_lower_bound = Min S, ct_upper_bound = Max S\<rparr>)"

text \<open>Of a range without an upper bound the table has the number that lies in the edge \<open>MAX\<close>, which nothing reads.\<close>

definition same_table :: "asn_per_constraint \<Rightarrow> asn_per_constraint \<Rightarrow> bool" where
  "same_table c d \<longleftrightarrow> (if ct_flags d = APC_SEMI_CONSTRAINED then c\<lparr>ct_upper_bound := 0\<rparr> = d else c = d)"

lemma represents_table:
  assumes "represents r S" "S \<noteq> {}"
  obtains c where "emit_single_member_PER_constraint ASN_BASIC_INTEGER (Some r) False = Some c" "same_table c (integer_table S)"
proof -
  note e = represents_edges [OF assms] and d = representsD [OF assms]
  have fl: "\<not> incompatible (info r)" "\<not> not_PER_visible (info r)" "\<not> extensible (info r)" using d(1) by (simp_all add: clean_def)
  note l = edge_of_place [OF e(3,1)] and h = edge_of_place [OF e(4,2)]
  show thesis
  proof (cases "in_limits (Min S)")
    case False
    then have "edge_type (left r) \<noteq> ARE_VALUE" using e(6) l by auto
    then have "emit_single_member_PER_constraint ASN_BASIC_INTEGER (Some r) False = Some unconstrained"
      using fl by (simp add: emit_single_member_PER_constraint_def)
    then show thesis by (rule that) (simp add: same_table_def integer_table_def False unconstrained_def)
  next
    case True
    note lo = l(1) [OF True]
    show thesis
    proof (cases "in_limits (Max S)")
      case False
      then have "edge_type (right r) \<noteq> ARE_VALUE" using e(7) h by auto
      then have "emit_single_member_PER_constraint ASN_BASIC_INTEGER (Some r) False = Some \<lparr>ct_flags = APC_SEMI_CONSTRAINED,
          ct_range_bits = -1, ct_effective_bits = -1, ct_lower_bound = Min S, ct_upper_bound = edge_value (right r)\<rparr>"
        using fl lo by (simp add: emit_single_member_PER_constraint_def Let_def)
      then show thesis by (rule that) (simp add: same_table_def integer_table_def False True)
    next
      case hi: True
      have "Min S \<le> Max S" using e(5) assms(2) by simp
      from value_range_table(1) [of r, OF _ _ fl(1,2) d(2) _ _ _ True hi this] lo h(1) [OF hi] fl(3)
      show thesis by (intro that) (simp_all add: same_table_def integer_table_def True hi)
    qed
  qed
qed

lemma emitted:
  assumes "regular all_numbers ct" "allowed all_numbers ct \<noteq> {}"
  obtains c where "emit_member_PER_constraints True ASN_BASIC_INTEGER (Some ct) marks maps =
      Some (Some \<lparr>pc_value = c, pc_size = unconstrained, pc_value2code = None, pc_code2value = None\<rparr>)"
    "same_table c (integer_table (allowed all_numbers ct))"
proof -
  obtain r where r: "asn1constraint_compute_PER_range ASN_BASIC_INTEGER (Some ct) ACT_EL_RANGE None None CPR_noflags = Some (Inr r, True)"
    "represents r (allowed all_numbers ct)" by (rule PER_range_ok [OF assms(1)])
  obtain c where c: "emit_single_member_PER_constraint ASN_BASIC_INTEGER (Some r) False = Some c"
    "same_table c (integer_table (allowed all_numbers ct))" by (rule represents_table [OF r(2) assms(2)])
  have n: "emit_single_member_PER_constraint ASN_BASIC_INTEGER None False = Some unconstrained"
    by (simp add: emit_single_member_PER_constraint_def)
  show thesis by (rule that [OF _ c(2)])
    (unfold emit_member_PER_constraints_def, use c in \<open>simp add: r(1) no_size_of_integer or_null_def n\<close>)
qed

section \<open>The integer type\<close>

definition INTEGER_specifics :: "asn1c_fitslong \<Rightarrow> asn_INTEGER_specifics option" where
  "INTEGER_specifics fits =
     (if fits = FL_FITS_UNSIGN
      then Some \<lparr>value2enum = [], enum2value = [], map_count = 0, extension = 0, strict_enumeration = False, field_width = 0, field_unsigned = True\<rparr>
      else None)"

lemma unsigned_of_range:
  assumes "asn1c_type_fits_long wide (Some tt) = Some FL_FITS_UNSIGN" "tt_type tt = ASN_BASIC_INTEGER" "tt_constraints tt = Some ct"
    "regular all_numbers ct"
  shows "allowed all_numbers ct \<noteq> {}" "0 \<le> Min (allowed all_numbers ct)"
proof -
  obtain r where r: "asn1constraint_compute_PER_range ASN_BASIC_INTEGER (Some ct) ACT_EL_RANGE None None CPR_noflags = Some (Inr r, True)"
    "represents r (allowed all_numbers ct)" by (rule PER_range_ok [OF assms(4)])
  have u: "\<not> empty_constraint (info r)" "edge_type (left r) = ARE_VALUE" "0 \<le> edge_value (left r)"
    using assms(1) unfolding asn1c_type_fits_long_def Let_def
    by (auto simp: assms(2,3) r(1) or_null_def split: if_splits bind_splits option.splits)
  then show ne: "allowed all_numbers ct \<noteq> {}" using r(2) by (simp add: represents_def)
  show "0 \<le> Min (allowed all_numbers ct)" using represents_edges(1) [OF r(2) ne] u(2,3) by (simp add: place_def)
qed


lemma integer_table_bits:
  assumes "finite S" "v \<in> S" "in_limits v" "same_table c (integer_table S)" "uns \<Longrightarrow> 0 \<le> Min S"
    and "in_limits (Max S) \<or> \<not> in_limits (Min S) \<or> Min S = 0"
  obtains bs where "integer_bits uns (Some c) v os = Some bs"
    "in_limits (Min S) \<Longrightarrow> in_limits (Max S) \<Longrightarrow> bs = be_bits (bits_for (Max S - Min S + 1)) (nat (v - Min S))"
proof -
  have v: "Min S \<le> v" "v \<le> Max S" using assms(1,2) by simp_all
  have vu: "if uns then 0 \<le> v \<and> v < 2 ^ 64 else INTMAX_MIN \<le> v \<and> v \<le> INTMAX_MAX"
    using assms(3,5) v(1) by (auto simp: in_limits_def INTMAX_MAX_def)
  show thesis
  proof (cases "in_limits (Min S) \<and> in_limits (Max S)")
    case True
    define d where "d = Max S - Min S + 1"
    have c: "c = \<lparr>ct_flags = 2, ct_range_bits = int (bits_for d), ct_effective_bits = effective_bits d (Max S),
        ct_lower_bound = Min S, ct_upper_bound = Max S\<rparr>"
      using assms(4) True by (simp add: same_table_def integer_table_def d_def)
    have "d \<le> 2 ^ 64" using True by (simp add: d_def in_limits_def INTMAX_MIN_def INTMAX_MAX_def)
    note n = bits_for [OF this]
    have ok: "int_constraint_ok uns c"
      using n(1,3) True v assms(5) by (auto simp: int_constraint_ok_def c d_def in_limits_def)
    have "integer_bits uns (Some c) v os = Some (be_bits (bits_for d) (nat (v - Min S)))"
      using ok vu v by (simp add: integer_bits_def ext_bit_def c ct_has_def Let_def)
    then show thesis by (rule that) (simp add: d_def)
  next
    case False
    then have lb: "ct_lower_bound c = 0" "ct_range_bits c = -1" "\<not> ct_has c APC_EXTENSIBLE" "ct_has c APC_SEMI_CONSTRAINED \<Longrightarrow> Min S = 0"
      using assms(4,6) by (cases c; auto simp: same_table_def integer_table_def unconstrained_def ct_has_def split: if_splits)+
    have "int_constraint_ok uns c" using lb by (simp add: int_constraint_ok_def)
    then have "integer_bits uns (Some c) v os = Some (fragments_bits os)"
      using vu v(1) lb by (auto simp: integer_bits_def ext_bit_def Let_def)
    with False show thesis by (intro that) auto
  qed
qed

text \<open>
  A lower bound without an upper one: \<open>INTEGER_encode_uper\<close> gives up unless the bound is 0 (the TODO at line 217 of
  \<open>INTEGER_uper.c\<close>).
\<close>

definition no_upper_bound :: "int set \<Rightarrow> bool" where
  "no_upper_bound S \<longleftrightarrow> in_limits (Min S) \<and> \<not> in_limits (Max S) \<and> Min S \<noteq> 0"

lemma new_buffer_refused:
  "(\<And>po. enc v po = Some (-1, po)) \<Longrightarrow> uper_encode_to_new_buffer can_alloc (Some enc) v = Some (-1, None)"
  by (simp add: uper_encode_to_new_buffer_def uper_encode_def Let_def)

lemma semi_constrained_refused:
  assumes "no_upper_bound S" "same_table c (integer_table S)" "value_constraint td cs = Some c"
    and "INTEGER_inv st" "int_size st \<noteq> 0" "in_limits (INTEGER_val st)" "Min S \<le> INTEGER_val st" "field_is_unsigned td \<Longrightarrow> 0 \<le> Min S"
  shows "INTEGER_encode_uper td cs st po = Some (-1, po)"
proof -
  have "ct_flags c = 1 \<and> ct_range_bits c = -1 \<and> ct_lower_bound c = Min S"
    using assms(1,2) by (cases c) (auto simp: same_table_def integer_table_def no_upper_bound_def)
  then have c: "ct_has c APC_SEMI_CONSTRAINED" "\<not> ct_has c APC_EXTENSIBLE" "ct_range_bits c = -1" "ct_lower_bound c = Min S" "Min S \<noteq> 0"
    using assms(1) by (simp_all add: ct_has_def no_upper_bound_def)
  have s: "asn_INTEGER2imax st 0 = Some (0, INTEGER_val st)"
    using INTEGER2imax [OF assms(4), of 0] assms(6) by (simp add: in_limits_def)
  have u: "\<exists>u. asn_INTEGER2umax st 0 = Some (0, u) \<and> \<not> u < of_int (Min S)" if "field_is_unsigned td"
  proof -
    have m: "0 \<le> Min S" "0 \<le> INTEGER_val st" using assms(7,8) that by auto
    then have e: "int (octets_val (INTEGER_octets st)) = INTEGER_val st"
      using twos_val_nonneg [of "INTEGER_octets st"] by (simp add: INTEGER_val_def)
    have small: "Min S < 2 ^ 64" "INTEGER_val st < 2 ^ 64" using assms(6,7) by (simp_all add: in_limits_def INTMAX_MAX_def)
    then have "octets_val (INTEGER_octets st) < 2 ^ 64" using e by simp
    moreover have "(of_nat (octets_val (INTEGER_octets st)) :: u64) = of_int (INTEGER_val st)" using e by (metis of_int_of_nat_eq)
    moreover have "\<not> (of_int (INTEGER_val st) :: u64) < of_int (Min S)"
      using assms(7) m small by (simp add: word_less_def uint_of_int_u64)
    ultimately show ?thesis using INTEGER2umax [OF assms(4)] by simp
  qed
  show ?thesis
  proof (cases "field_is_unsigned td")
    case True
    from u [OF True] obtain u where "asn_INTEGER2umax st 0 = Some (0, u)" "\<not> u < of_int (Min S)" by blast
    with True c assms(3,5) show ?thesis by (simp add: INTEGER_encode_uper_def Let_def)
  next
    case False
    with s c assms(3,5,7) show ?thesis by (simp add: INTEGER_encode_uper_def Let_def)
  qed
qed

text \<open>The structure that a \<open>long\<close> goes through.\<close>

lemma native_through_INTEGER:
  assumes "in_limits v"
  shows "\<exists>st. INTEGER_inv st \<and> int_size st \<noteq> 0 \<and> INTEGER_val st = v \<and>
    (\<forall>po :: enc_dyn_arg bit_outp. NativeInteger_encode_uper (\<lambda>_. True) td cs v po = INTEGER_encode_uper td cs st po)"
proof -
  have v: "INTMAX_MIN \<le> v" "v \<le> INTMAX_MAX" using assms by (simp_all add: in_limits_def)
  define st where "st = \<lparr>int_buf = Some (int_octets v), int_size = length (int_octets v)\<rparr>"
  have "INTEGER_inv st" "int_size st \<noteq> 0" "INTEGER_octets st = int_octets v" "INTEGER_val st = v"
    using int_octets(1,3) [OF v] by (simp_all add: st_def INTEGER_inv_def INTEGER_octets_def INTEGER_val_def)
  moreover have "NativeInteger_encode_uper (\<lambda>_. True) td cs v po = INTEGER_encode_uper td cs st po" for po :: "enc_dyn_arg bit_outp"
    using int_octets(4) [OF v] sint_of_int_long [OF v]
    by (simp add: NativeInteger_encode_uper_def asn_ulong2INTEGER_def asn_long2INTEGER_def st_def Let_def)
  ultimately show ?thesis by blast
qed

text \<open>A number of any size in an \<open>INTEGER_t\<close>, in a new buffer and back.\<close>

lemma INTEGER_complete:
  assumes "INTEGER_inv st" "int_size st \<noteq> 0"
    and "integer_bits (field_is_unsigned td) (value_constraint td cs) (INTEGER_val st) (INTEGER_octets st) = Some bs"
  shows "\<exists>n buf st'. uper_encode_to_new_buffer (\<lambda>_. True) (Some (INTEGER_encode_uper td cs)) st = Some (int n, Some buf) \<and>
    take n buf = per_complete bs \<and>
    uper_decode_complete (Some (INTEGER_decode_uper (\<lambda>_. True) td cs)) buf n = Some (RC_OK, n, Some st') \<and> INTEGER_val st' = INTEGER_val st"
proof -
  have "writes (INTEGER_encode_uper td cs) st bs" unfolding writes_def by (intro allI impI dyn.INTEGER_encode_ok assms)
  from writes_new_buffer [OF this] obtain buf where b:
    "uper_encode_to_new_buffer (\<lambda>_. True) (Some (INTEGER_encode_uper td cs)) st = Some (int (length (per_complete bs)), Some buf)"
    "length (per_complete bs) \<le> length buf" "take (length (per_complete bs)) buf = per_complete bs" .
  have "uper_reader (INTEGER_decode_uper (\<lambda>_. True) td cs) INTEGER_val (\<lambda>m. if m = INTEGER_val st then Some bs else None)"
  proof
    fix m xs and pd :: bit_data and rest
    assume "(if m = INTEGER_val st then Some bs else None) = Some xs" "pd_inv pd" "pd_bits pd = xs @ rest"
    with INTEGER_decode_ok [OF assms(3) [unfolded INTEGER_val_def], of pd rest]
    show "\<exists>w pd'. INTEGER_decode_uper (\<lambda>_. True) td cs pd = Some (RC_OK, Some w, pd') \<and> INTEGER_val w = m \<and> pd_consumes pd xs pd'"
      by (auto simp: INTEGER_val_def split: if_splits)
  qed
  from uper_reader.decode_whole [OF this _ b(3) order_refl b(2), of "INTEGER_val st"] b show ?thesis by auto
qed


text \<open>What the codecs make of a number of \<open>S\<close> under its table, in both C types.\<close>

definition emitted_td :: "asn1c_fitslong \<Rightarrow> asn_per_constraints option \<Rightarrow> asn_TYPE_descriptor" where
  "emitted_td fits cs = \<lparr>td_specifics = INTEGER_specifics fits, td_per_constraints = cs\<rparr>"

lemma table_codes:
  assumes "finite S" "v \<in> S" "in_limits v" "same_table c (integer_table S)" "value_constraint td None = Some c"
    and "field_is_unsigned td \<Longrightarrow> 0 \<le> Min S" "\<not> no_upper_bound S"
  shows "\<exists>bs. integer_bits (field_is_unsigned td) (value_constraint td None) v os = Some bs \<and>
    (in_limits (Min S) \<and> in_limits (Max S) \<longrightarrow> bs = be_bits (bits_for (Max S - Min S + 1)) (nat (v - Min S)))"
  using integer_table_bits [OF assms(1-4,6)] assms(5,7) unfolding no_upper_bound_def by metis

lemma INTEGER_on_table:
  assumes "finite S" "v \<in> S" "in_limits v" "same_table c (integer_table S)" "value_constraint td None = Some c"
    and "field_is_unsigned td \<Longrightarrow> 0 \<le> Min S" and st: "INTEGER_inv st" "int_size st \<noteq> 0" "INTEGER_val st = v"
  shows "if no_upper_bound S then uper_encode_to_new_buffer (\<lambda>_. True) (Some (INTEGER_encode_uper td None)) st = Some (-1, None)
    else \<exists>n buf st'. uper_encode_to_new_buffer (\<lambda>_. True) (Some (INTEGER_encode_uper td None)) st = Some (int n, Some buf) \<and>
      uper_decode_complete (Some (INTEGER_decode_uper (\<lambda>_. True) td None)) buf n = Some (RC_OK, n, Some st') \<and> INTEGER_val st' = v \<and>
      (in_limits (Min S) \<and> in_limits (Max S) \<longrightarrow> take n buf = per_complete (be_bits (bits_for (Max S - Min S + 1)) (nat (v - Min S))))"
proof (cases "no_upper_bound S")
  case True
  have "Min S \<le> v" using assms(1,2) by simp
  with semi_constrained_refused [OF True assms(4,5) st(1,2)] st(3) assms(3,6)
  have "INTEGER_encode_uper td None st po = Some (-1, po)" for po :: "enc_dyn_arg bit_outp" by simp
  from new_buffer_refused [of "INTEGER_encode_uper td None" st, OF this] True show ?thesis by simp
next
  case False
  from table_codes [OF assms(1-6) False, of "INTEGER_octets st"] st INTEGER_complete [of st td None] False show ?thesis by auto
qed

lemma native_on_table:
  assumes "finite S" "v \<in> S" "in_limits v" "same_table c (integer_table S)" "value_constraint td None = Some c"
    and "field_is_unsigned td \<Longrightarrow> 0 \<le> Min S"
  shows "if no_upper_bound S then uper_encode_to_new_buffer (\<lambda>_. True) (Some (NativeInteger_encode_uper (\<lambda>_. True) td None)) v = Some (-1, None)
    else \<exists>n buf. uper_encode_to_new_buffer (\<lambda>_. True) (Some (NativeInteger_encode_uper (\<lambda>_. True) td None)) v = Some (int n, Some buf) \<and>
      uper_decode_complete (Some (NativeInteger_decode_uper (\<lambda>_. True) td None)) buf n = Some (RC_OK, n, Some v) \<and>
      (in_limits (Min S) \<and> in_limits (Max S) \<longrightarrow> take n buf = per_complete (be_bits (bits_for (Max S - Min S + 1)) (nat (v - Min S))))"
proof (cases "no_upper_bound S")
  case True
  have m: "Min S \<le> v" using assms(1,2) by simp
  obtain st where st: "INTEGER_inv st" "int_size st \<noteq> 0" "INTEGER_val st = v"
    "\<forall>po :: enc_dyn_arg bit_outp. NativeInteger_encode_uper (\<lambda>_. True) td None v po = INTEGER_encode_uper td None st po"
    using native_through_INTEGER [OF assms(3)] by blast
  with semi_constrained_refused [OF True assms(4,5) st(1,2)] m assms(3,6)
  have "NativeInteger_encode_uper (\<lambda>_. True) td None v po = Some (-1, po)" for po :: "enc_dyn_arg bit_outp" by simp
  from new_buffer_refused [of "NativeInteger_encode_uper (\<lambda>_. True) td None" v, OF this] True show ?thesis by simp
next
  case False
  from table_codes [OF assms False, of "int_octets v"] obtain bs where
    bs: "integer_bits (field_is_unsigned td) (value_constraint td None) v (int_octets v) = Some bs"
    "in_limits (Min S) \<and> in_limits (Max S) \<longrightarrow> bs = be_bits (bits_for (Max S - Min S + 1)) (nat (v - Min S))" by blast
  have "Min S \<le> v" using assms(1,2) by simp
  with bs(1) assms(3,6) have "native_bits td None v = Some bs" by (auto simp: native_bits_def in_limits_def)
  from native_uper.complete_roundtrip [OF this] bs(2) False show ?thesis by auto
qed

text \<open>
  C4: an INTEGER from its constraint to its bits. For every regular tree of a constraint, every number of 64 bits that
  it allows, the table that the compiler prints and the C type that it chooses (an \<open>INTEGER_t\<close> for
  \<open>FL_NOTFIT\<close>, else a \<open>long\<close>): when the constraint has a lower bound other than 0 and no upper bound, the encoder
  refuses the number; otherwise it accepts it, the decoder returns it, and with a lower and an upper bound
  the encoding is the offset from the least number allowed, in the least number of bits that holds all offsets.
\<close>

theorem compiled_integer_roundtrip:
  assumes "regular all_numbers ct" "v \<in> allowed all_numbers ct" "in_limits v"
    and "tt_type tt = ASN_BASIC_INTEGER" "tt_constraints tt = Some ct" "asn1c_type_fits_long wide (Some tt) = Some fits"
    and "a = Min (allowed all_numbers ct)" "b = Max (allowed all_numbers ct)"
  shows "\<exists>cs. emit_member_PER_constraints True ASN_BASIC_INTEGER (Some ct) marks maps = Some cs \<and>
    (if fits = FL_NOTFIT
     then \<forall>st. INTEGER_inv st \<and> int_size st \<noteq> 0 \<and> INTEGER_val st = v \<longrightarrow>
       (if in_limits a \<and> \<not> in_limits b \<and> a \<noteq> 0
        then uper_encode_to_new_buffer (\<lambda>_. True) (Some (INTEGER_encode_uper (emitted_td fits cs) None)) st = Some (-1, None)
        else \<exists>n buf st'.
          uper_encode_to_new_buffer (\<lambda>_. True) (Some (INTEGER_encode_uper (emitted_td fits cs) None)) st = Some (int n, Some buf) \<and>
          uper_decode_complete (Some (INTEGER_decode_uper (\<lambda>_. True) (emitted_td fits cs) None)) buf n = Some (RC_OK, n, Some st') \<and>
          INTEGER_val st' = v \<and> (in_limits a \<and> in_limits b \<longrightarrow> take n buf = per_complete (be_bits (bits_for (b - a + 1)) (nat (v - a)))))
     else if in_limits a \<and> \<not> in_limits b \<and> a \<noteq> 0
     then uper_encode_to_new_buffer (\<lambda>_. True) (Some (NativeInteger_encode_uper (\<lambda>_. True) (emitted_td fits cs) None)) v = Some (-1, None)
     else \<exists>n buf.
       uper_encode_to_new_buffer (\<lambda>_. True) (Some (NativeInteger_encode_uper (\<lambda>_. True) (emitted_td fits cs) None)) v = Some (int n, Some buf) \<and>
       uper_decode_complete (Some (NativeInteger_decode_uper (\<lambda>_. True) (emitted_td fits cs) None)) buf n = Some (RC_OK, n, Some v) \<and>
       (in_limits a \<and> in_limits b \<longrightarrow> take n buf = per_complete (be_bits (bits_for (b - a + 1)) (nat (v - a)))))"
proof -
  define S where "S = allowed all_numbers ct"
  have S: "v \<in> S" "S \<noteq> {}" "a = Min S" "b = Max S" using assms(2,7,8) by (auto simp: S_def)
  obtain r where r: "asn1constraint_compute_PER_range ASN_BASIC_INTEGER (Some ct) ACT_EL_RANGE None None CPR_noflags = Some (Inr r, True)"
    "represents r S" by (rule PER_range_ok [OF assms(1), folded S_def])
  note fin = represents_edges(5) [OF r(2) S(2)]
  obtain c where c: "emit_member_PER_constraints True ASN_BASIC_INTEGER (Some ct) marks maps =
      Some (Some \<lparr>pc_value = c, pc_size = unconstrained, pc_value2code = None, pc_code2value = None\<rparr>)" "same_table c (integer_table S)"
    by (rule emitted [OF assms(1) S(2) [unfolded S_def], folded S_def])
  define cs where "cs = Some \<lparr>pc_value = c, pc_size = unconstrained, pc_value2code = None, pc_code2value = None\<rparr>"
  have vc: "value_constraint (emitted_td fits cs) None = Some c" by (simp add: value_constraint_def emitted_td_def cs_def)
  have "fits = FL_FITS_UNSIGN" if "field_is_unsigned (emitted_td fits cs)"
    using that by (simp add: emitted_td_def field_is_unsigned_def INTEGER_specifics_def split: if_splits)
  then have pos: "0 \<le> Min S" if "field_is_unsigned (emitted_td fits cs)"
    using unsigned_of_range(2) [OF _ assms(4,5,1), folded S_def] assms(6) that by simp
  have semi: "in_limits a \<and> \<not> in_limits b \<and> a \<noteq> 0 \<longleftrightarrow> no_upper_bound S" by (auto simp: no_upper_bound_def S(3,4))
  note table = fin S(1) assms(3) c(2) vc pos
  show ?thesis
  proof (cases "fits = FL_NOTFIT")
    case True
    show ?thesis unfolding if_P [OF True] semi unfolding S(3,4)
      by (intro exI [of _ cs] conjI allI impI c(1) [folded cs_def] INTEGER_on_table [OF table]) simp_all
  next
    case False
    show ?thesis unfolding if_not_P [OF False] semi unfolding S(3,4)
      by (intro exI [of _ cs] conjI c(1) [folded cs_def] native_on_table [OF table])
  qed
qed


section \<open>The OER table\<close>












section \<open>Additions behind the extension mark\<close>

lemma extension_mark:
  "ct_type i = ACT_EL_EXT \<Longrightarrow> compute_range ASN_BASIC_INTEGER ACT_EL_RANGE CPR_noflags None (Some True) (Constraint i cs) = Some (Inl ERANGE, True)"
  by (simp add: compute_range.simps [of _ _ _ _ _ "Constraint _ _"] constraint_start_def asn1constraint_compatible_def CPR_noflags_def
    visibility_def range_new_def)

lemma additions_range:
  assumes "regular all_numbers c" "regular all_numbers d" "allowed all_numbers c \<noteq> {}" "allowed all_numbers d \<noteq> {}"
    and "ct_type i = ACT_CA_CSV" "ct_type e = ACT_EL_EXT"
  obtains r where "asn1constraint_compute_PER_range ASN_BASIC_INTEGER (Some (Constraint i [c, Constraint e es, d])) ACT_EL_RANGE None None CPR_noflags =
      Some (Inr r, True)" "extensible (info r)" "\<not> incompatible (info r)" "\<not> not_PER_visible (info r)" "\<not> empty_constraint (info r)"
    "canonical (2 ^ 63) r" "denotes r = allowed all_numbers c \<union> allowed all_numbers d"
proof -
  have p: "plain ASN_BASIC_INTEGER ACT_EL_RANGE CPR_noflags" by (simp add: plain_def asn1constraint_compatible_def CPR_noflags_def)
  have u: "parent ACT_EL_RANGE None all_numbers" by (simp add: parent_def all_numbers_def)
  note node = node_okE [OF compute_range_ok [OF p] u]
  obtain tc where tc: "compute_range ASN_BASIC_INTEGER ACT_EL_RANGE CPR_noflags None (Some True) c = Some (Inr tc, True)"
    "represents tc (allowed all_numbers c)" by (rule node [OF assms(1)])
  obtain td where td: "compute_range ASN_BASIC_INTEGER ACT_EL_RANGE CPR_noflags None (Some True) d = Some (Inr td, True)"
    "represents td (allowed all_numbers d)" by (rule node [OF assms(2)])
  note c = representsD [OF tc(2) assms(3)] and d = representsD [OF td(2) assms(4)]
  have n: "\<not> incompatible (info tc)" "\<not> incompatible (info td)" using c(1) d(1) by (simp_all add: clean_def)
  define acc where "acc = with_info (\<lambda>i. i\<lparr>empty_constraint := empty_constraint i \<or> empty_constraint (info range_new)\<rparr>) (set_flags_from range_new tc)"
  have "all_numbers \<noteq> {}" by (simp add: all_numbers_def)
  note ms = merged_start [OF tc(2) assms(3) range_new_ok this, folded acc_def]
  obtain r1 where r1: "range_merge_in acc tc = Some r1" "elements r1 = elements acc @ parts tc" "clean r1" "\<not> empty_constraint (info r1)"
    using ms(1) by (auto simp: merged_def intro: merge_step [OF _ tc(2) assms(3)])
  have e1: "numbers (elements r1) = allowed all_numbers c" "\<forall>q \<in> set (elements r1). part_ok (2 ^ 63) q"
    using ms r1(2) c(3,4) by (auto simp: merged_def normal_def canonical_def range_ok_def denotes_def)
  have pd: "\<forall>q \<in> set (parts td). part_ok (2 ^ 63) q" using d(3) by (auto simp: normal_def canonical_def range_ok_def)
  obtain r2 where r2: "range_merge_in (mark_extensible r1) td = Some r2" "elements r2 = elements r1 @ parts td" "extensible (info r2)"
    "\<not> incompatible (info r2)" "\<not> not_PER_visible (info r2)" "\<not> empty_constraint (info r2)"
    using r1(3,4) d(1) by (simp add: range_merge_in_def Let_def insert_all_parts [OF pd] mark_extensible_def clean_def)
  have el: "elements r2 \<noteq> []" "\<forall>q \<in> set (elements r2). part_ok (2 ^ 63) q" using e1(2) pd by (auto simp: r2(2))
  obtain r where r: "range_canonicalize r2 = Some r" "canonical (2 ^ 63) r" "denotes r = numbers (elements r2)"
    "info r = (info r2)\<lparr>left_edge := left r, right_edge := right r\<rparr>"
    by (rule range_canonicalize_elements [OF el]) simp
  have rest: "or_rest ASN_BASIC_INTEGER ACT_EL_RANGE CPR_noflags None True acc [c, Constraint e es, d] = Some (Inr (r2, False), True)"
    using r1(1) r2(1) n c(2) d(2) by (simp add: tc(1) td(1) extension_mark [OF assms(6)])
  have first: "or_first ASN_BASIC_INTEGER ACT_EL_RANGE CPR_noflags None True range_new 0 [c, Constraint e es, d] = Some (Inr (Some tc, range_new, 0), True)"
    using n by (simp add: tc(1))
  have start: "constraint_start ASN_BASIC_INTEGER ACT_EL_RANGE CPR_noflags None = Some (Inr (None, range_new))"
    by (simp add: constraint_start_def asn1constraint_compatible_def CPR_noflags_def)
  have vis: "visibility ASN_BASIC_INTEGER ACT_EL_RANGE CPR_noflags range_new = Inr range_new" by (rule visibility_ok [OF p range_new_ok])
  have union: "union_visibility ACT_EL_RANGE CPR_noflags None r = Some r" by (simp add: union_visibility_def CPR_noflags_def)
  have "compute_range ASN_BASIC_INTEGER ACT_EL_RANGE CPR_noflags None (Some True) (Constraint i [c, Constraint e es, d]) = Some (Inr r, True)"
    using assms(5) r(1) by (subst compute_range.simps)
      (simp add: start vis first rest [unfolded acc_def] union Let_def del: or_first.simps or_rest.simps)
  moreover have "extensible (info r)" "\<not> incompatible (info r)" "\<not> not_PER_visible (info r)" "\<not> empty_constraint (info r)"
    using r2(3-6) by (subst r(4), simp)+
  moreover have "denotes r = allowed all_numbers c \<union> allowed all_numbers d"
    using r(3) e1(1) d(4) by (simp add: r2(2) denotes_def)
  ultimately show thesis using r(2)
    by (intro that [of r]) (simp_all add: asn1constraint_compute_PER_range_def asn1constraint_compute_constraint_range_def compute_range_null)
qed

text \<open>
  C39: the additions behind an extension mark become part of the root. The table of \<open>(c, ..., d)\<close> is marked extensible,
  but its bounds and its number of bits are those of \<open>c\<close> and \<open>d\<close> together, where X.691 takes those of \<open>c\<close> alone;
  a number of \<open>d\<close> is so encoded as a number of the root.
\<close>

theorem additions_in_root:
  assumes "regular all_numbers c" "regular all_numbers d" "allowed all_numbers c \<noteq> {}" "allowed all_numbers d \<noteq> {}"
    and "ct_type i = ACT_CA_CSV" "ct_type e = ACT_EL_EXT"
    and "U = allowed all_numbers c \<union> allowed all_numbers d" "in_limits (Min U)" "in_limits (Max U)"
  shows "emit_member_PER_constraints True ASN_BASIC_INTEGER (Some (Constraint i [c, Constraint e es, d])) marks maps =
    Some (Some \<lparr>pc_value = \<lparr>ct_flags = 6, ct_range_bits = int (bits_for (Max U - Min U + 1)),
        ct_effective_bits = effective_bits (Max U - Min U + 1) (Max U), ct_lower_bound = Min U, ct_upper_bound = Max U\<rparr>,
      pc_size = unconstrained, pc_value2code = None, pc_code2value = None\<rparr>)"
proof -
  from additions_range [OF assms(1-6), of es] obtain r where
    r: "asn1constraint_compute_PER_range ASN_BASIC_INTEGER (Some (Constraint i [c, Constraint e es, d])) ACT_EL_RANGE None None CPR_noflags =
      Some (Inr r, True)" and f: "extensible (info r)" "\<not> incompatible (info r)" "\<not> not_PER_visible (info r)" "\<not> empty_constraint (info r)"
    and d: "canonical (2 ^ 63) r" "denotes r = U" using assms(7) by auto
  have "hd (parts r) \<in> set (parts r)" "last (parts r) \<in> set (parts r)" by simp_all
  then have "part_ok (2 ^ 63) (hd (parts r))" "part_ok (2 ^ 63) (last (parts r))" using canonical_part(1) [OF d(1)] by simp_all
  then have ed: "edge_in (2 ^ 63) (left r)" "edge_in (2 ^ 63) (right r)" using d(1) by (simp_all add: canonical_def part_ok_def)
  note pl = canonical_ends [OF d(1), unfolded d(2)]
  have o: "Min U \<le> Max U" using pl(1,2) by simp
  note l = edge_of_place(1) [OF ed(1) pl(3) [symmetric] assms(8)] and h = edge_of_place(1) [OF ed(2) pl(4) [symmetric] assms(9)]
  have "emit_single_member_PER_constraint ASN_BASIC_INTEGER (Some r) False =
    Some \<lparr>ct_flags = APC_CONSTRAINED OR (if extensible (info r) then APC_EXTENSIBLE else 0), ct_range_bits = int (bits_for (Max U - Min U + 1)),
      ct_effective_bits = effective_bits (Max U - Min U + 1) (Max U), ct_lower_bound = Min U, ct_upper_bound = Max U\<rparr>"
    by (rule value_range_table(1) [OF _ _ f(2-4) _ _ _ assms(8,9) o]) (use l h in simp_all)
  then show ?thesis
    by (simp add: emit_member_PER_constraints_def r no_size_of_integer or_null_def f(1) emit_single_member_PER_constraint_def [of _ None])
qed

section \<open>Sizes of a constraint that has none\<close>

text \<open>
  A request for the size under constraints without \<open>SIZE\<close>: the walk never meets one (\<open>exmet\<close> stays false), so a value
  or a range is incompatible, and what a node makes of incompatible parts is either incompatible or the
  range of the parent.
\<close>

definition size_free :: "expr_type \<Rightarrow> cpr_flags \<Rightarrow> int set \<Rightarrow> asn1p_constraint \<Rightarrow> bool" where
  "size_free et fl M c \<longleftrightarrow> (\<forall>m. represents m M \<longrightarrow>
     (\<exists>r. compute_range et ACT_CT_SIZE fl (Some m) (Some False) c = Some (Inr r, False) \<and>
        (incompatible (info r) \<or> represents r M)))"

lemma size_and_loop:
  assumes "plain et ACT_CT_SIZE fl" "M \<noteq> {}" "\<forall>c \<in> set cs. size_free et fl M c" "represents m M" "represents rng M"
  shows "\<exists>r. and_loop et ACT_CT_SIZE fl (Some m) is_set False rng cs = Some (Inr r, False) \<and> represents r M"
  using assms(3,5)
proof (induction cs arbitrary: rng)
  case (Cons c cs)
  define mm where "mm = (if is_set then Some rng else Some m)"
  have "\<exists>q. mm = Some q \<and> represents q M" using Cons.prems(2) assms(4) by (simp add: mm_def)
  then obtain tmp where t: "compute_range et ACT_CT_SIZE fl mm (Some False) c = Some (Inr tmp, False)"
    "incompatible (info tmp) \<or> represents tmp M" using Cons.prems(1) unfolding size_free_def by auto
  show ?case
  proof (cases "incompatible (info tmp)")
    case True
    then show ?thesis using Cons.IH [of rng] Cons.prems t(1) by (simp add: mm_def)
  next
    case False
    with t(2) have r: "represents tmp M" by simp
    have v: "is_set \<longrightarrow> M \<subseteq> M" by simp
    obtain rng' where "and_loop et ACT_CT_SIZE fl (Some m) is_set False rng (c # cs) = and_loop et ACT_CT_SIZE fl (Some m) is_set False rng' cs"
      "represents rng' (M \<inter> M)"
      by (rule and_step [OF assms(1) Cons.prems(2) r v, of "Some m" False c cs]) (use t(1) in \<open>simp add: mm_def\<close>)
    then show ?thesis using Cons.IH [of rng'] Cons.prems(1) by simp
  qed
qed simp

lemma size_or_rest:
  assumes "M \<noteq> {}" "\<forall>c \<in> set cs. size_free et fl M c" "represents m M" "merged rng S" "S \<subseteq> M"
  shows "\<exists>r early. or_rest et ACT_CT_SIZE fl (Some m) False rng cs = Some (Inr (r, early), False) \<and>
    (if early then incompatible (info r) else merged r (if cs = [] then S else M))"
  using assms(2,4,5)
proof (induction cs arbitrary: rng S)
  case (Cons c cs)
  obtain tmp where t: "compute_range et ACT_CT_SIZE fl (Some m) (Some False) c = Some (Inr tmp, False)"
    "incompatible (info tmp) \<or> represents tmp M" using Cons.prems(1) assms(3) unfolding size_free_def by fastforce
  have rng: "clean rng" "\<not> empty_constraint (info rng)" "\<forall>p \<in> set (elements rng). part_ok (2 ^ 63) p"
    using Cons.prems(2) by (simp_all add: merged_def)
  show ?case
  proof (cases "incompatible (info tmp)")
    case True
    obtain rng' where "range_canonicalize rng = Some rng'" by (rule canonicalize_kept [OF rng(3,1)])
    with t(1) True show ?thesis
      by (intro exI [of _ "mark_incompatible rng'"] exI [of _ True]) (simp add: mark_incompatible_def)
  next
    case False
    with t(2) have r: "represents tmp M" by simp
    note td = representsD [OF r assms(1)]
    obtain rng' where rng': "range_merge_in rng tmp = Some rng'" "elements rng' = elements rng @ parts tmp" "clean rng'" "\<not> empty_constraint (info rng')"
      by (rule merge_step [OF rng(1) r assms(1) rng(2)])
    have "or_rest et ACT_CT_SIZE fl (Some m) False rng (c # cs) = or_rest et ACT_CT_SIZE fl (Some m) False rng' cs"
      using t(1) False td(2) rng'(1) by simp
    moreover have "merged rng' (S \<union> M)"
      using Cons.prems(2) rng'(2-4) td(3,4) by (auto simp: merged_def normal_def canonical_def range_ok_def denotes_def)
    moreover have "S \<union> M = M" using Cons.prems(3) by blast
    moreover obtain r early where "or_rest et ACT_CT_SIZE fl (Some m) False rng' cs = Some (Inr (r, early), False)"
      "if early then incompatible (info r) else merged r M"
      using Cons.IH [of rng' M, unfolded if_cancel] Cons.prems(1) calculation(2,3) by auto
    ultimately show ?thesis by (intro exI [of _ r] exI [of _ early]) (simp only: list.discI if_False simp_thms)
  qed
next
  case Nil
  then show ?case by (intro exI [of _ rng] exI [of _ False]) simp
qed

lemma size_or:
  assumes "plain et ACT_CT_SIZE fl" "M \<noteq> {}" "\<forall>c \<in> set cs. size_free et fl M c" "ct_type i = ACT_CA_CSV \<or> ct_type i = ACT_CA_UNI"
  shows "size_free et fl M (Constraint i cs)"
  unfolding size_free_def
proof (intro allI impI)
  fix m assume m: "represents m M"
  then have p: "parent ACT_CT_SIZE (Some m) M" using assms(2) by (simp add: parent_def)
  obtain rng where r: "constraint_start et ACT_CT_SIZE fl (Some m) = Some (Inr (Some m, rng))" "represents rng M"
    by (rule constraint_start_ok [OF assms(1) p])
  have v: "visibility et ACT_CT_SIZE fl rng = Inr rng" by (rule visibility_ok [OF assms(1) r(2)])
  have none: "compute_range et ACT_CT_SIZE fl (Some m) (Some False) (Constraint i cs) = Some (Inr (mark_incompatible rng), False)"
    if "or_first et ACT_CT_SIZE fl (Some m) False rng 0 cs = Some (Inr (None, rng, 0), False)"
    using assms(4) by (elim disjE; subst compute_range.simps; simp add: r(1) v that)
  show "\<exists>r. compute_range et ACT_CT_SIZE fl (Some m) (Some False) (Constraint i cs) = Some (Inr r, False) \<and>
      (incompatible (info r) \<or> represents r M)"
  proof (cases cs)
    case Nil
    with none show ?thesis by (simp add: mark_incompatible_def)
  next
    case (Cons c cs')
    obtain tmp where t: "compute_range et ACT_CT_SIZE fl (Some m) (Some False) c = Some (Inr tmp, False)"
      "incompatible (info tmp) \<or> represents tmp M" using assms(3) m Cons unfolding size_free_def by fastforce
    show ?thesis
    proof (cases "incompatible (info tmp)")
      case True
      with none t(1) Cons show ?thesis by (simp add: mark_incompatible_def)
    next
      case False
      with t(2) have tm: "represents tmp M" by simp
      have first: "or_first et ACT_CT_SIZE fl (Some m) False rng 0 cs = Some (Inr (Some tmp, rng, 0), False)"
        using t(1) False by (simp add: Cons)
      define acc where "acc = with_info (\<lambda>i. i\<lparr>empty_constraint := empty_constraint i \<or> empty_constraint (info rng)\<rparr>) (set_flags_from rng tmp)"
      have ne: "(if cs = [] then T else M) = M" for T using Cons by simp
      obtain q early where a: "or_rest et ACT_CT_SIZE fl (Some m) False acc cs = Some (Inr (q, early), False)"
        "if early then incompatible (info q) else merged q M"
        using size_or_rest [OF assms(2,3) m merged_start [OF tm assms(2) r(2) assms(2), folded acc_def]] unfolding ne by blast
      show ?thesis
      proof (cases early)
        case True
        have "compute_range et ACT_CT_SIZE fl (Some m) (Some False) (Constraint i cs) = Some (Inr q, False)"
          using assms(4) by (elim disjE; subst compute_range.simps; simp add: r(1) v first a(1) [unfolded acc_def] True Let_def)
        with a(2) True show ?thesis by simp
      next
        case False
        with a(2) have "merged q M" by simp
        then obtain r' where r': "range_canonicalize q = Some r'" "represents r' M" by (rule merged_canonical [OF _ assms(2)])
        have u: "union_visibility ACT_CT_SIZE fl (Some m) r' = Some r'" using represents_clean [OF r'(2)] by (simp add: union_visibility_def clean_def)
        have "compute_range et ACT_CT_SIZE fl (Some m) (Some False) (Constraint i cs) = Some (Inr r', False)"
          using assms(4) by (elim disjE; subst compute_range.simps; simp add: r(1) v first a(1) [unfolded acc_def] False r'(1) u Let_def)
        with r'(2) show ?thesis by blast
      qed
    qed
  qed
qed

lemma regular_parts:
  "regular U (Constraint i cs) \<Longrightarrow> ct_type i \<noteq> ACT_CA_EXC \<Longrightarrow> ct_type i \<notin> {ACT_EL_VALUE, ACT_EL_RANGE} \<Longrightarrow> c \<in> set cs \<Longrightarrow> \<exists>V. regular V c"
proof -
  have s: "regular_set U cs \<Longrightarrow> c \<in> set cs \<Longrightarrow> \<exists>V. regular V c" for U c
    by (induction cs arbitrary: U) auto
  have a: "regular_all U cs \<Longrightarrow> c \<in> set cs \<Longrightarrow> \<exists>V. regular V c" for U c
    by (induction cs) auto
  show "regular U (Constraint i cs) \<Longrightarrow> ct_type i \<noteq> ACT_CA_EXC \<Longrightarrow> ct_type i \<notin> {ACT_EL_VALUE, ACT_EL_RANGE} \<Longrightarrow> c \<in> set cs \<Longrightarrow> \<exists>V. regular V c"
    using s a by (cases "ct_type i") auto
qed

lemma regular_size_free:
  assumes "plain et ACT_CT_SIZE fl" "M \<noteq> {}"
  shows "\<exists>U. regular U ct \<Longrightarrow> size_free et fl M ct"
proof (induction ct)
  case (Constraint i cs)
  then obtain U where g: "regular U (Constraint i cs)" by blast
  show ?case
  proof (cases "ct_type i = ACT_CA_CSV \<or> ct_type i = ACT_CA_UNI")
    case True
    then have "\<forall>c \<in> set cs. size_free et fl M c" using regular_parts [OF g] Constraint.IH by fastforce
    then show ?thesis by (rule size_or [OF assms _ True])
  next
    case False
    show ?thesis unfolding size_free_def
    proof (intro allI impI)
      fix m assume m: "represents m M"
      then have p: "parent ACT_CT_SIZE (Some m) M" using assms(2) by (simp add: parent_def)
      obtain rng where r: "constraint_start et ACT_CT_SIZE fl (Some m) = Some (Inr (Some m, rng))" "represents rng M"
        by (rule constraint_start_ok [OF assms(1) p])
      have v: "visibility et ACT_CT_SIZE fl rng = Inr rng" by (rule visibility_ok [OF assms(1) r(2)])
      let ?run = "compute_range et ACT_CT_SIZE fl (Some m) (Some False) (Constraint i cs)"
      consider "ct_type i = ACT_EL_VALUE \<or> ct_type i = ACT_EL_RANGE" | "ct_type i = ACT_CA_SET \<or> ct_type i = ACT_CA_INT"
        | c cs' where "ct_type i = ACT_CA_EXC" "cs = c # cs'"
        using g False by (cases "ct_type i"; cases cs) auto
      then show "\<exists>r. ?run = Some (Inr r, False) \<and> (incompatible (info r) \<or> represents r M)"
      proof cases
        case 1
        then have "?run = Some (Inr (mark_incompatible rng), False)"
          by (elim disjE; subst compute_range.simps; simp add: r(1) v constraint_edges_def)
        then show ?thesis by (simp add: mark_incompatible_def)
      next
        case 2
        then have "\<forall>c \<in> set cs. size_free et fl M c" using regular_parts [OF g] Constraint.IH by fastforce
        from size_and_loop [OF assms this m r(2), of "ct_type i = ACT_CA_SET"]
        obtain q where q: "and_loop et ACT_CT_SIZE fl (Some m) (ct_type i = ACT_CA_SET) False rng cs = Some (Inr q, False)" "represents q M" by blast
        have "?run = and_loop et ACT_CT_SIZE fl (Some m) (ct_type i = ACT_CA_SET) False rng cs"
          using 2 by (elim disjE; subst compute_range.simps; simp add: r(1) v)
        with q show ?thesis by auto
      next
        case 3
        then have "size_free et fl M c" using Constraint.IH g by auto
        moreover have "?run = compute_range et ACT_CT_SIZE fl (Some m) (Some False) c"
          using 3 by (subst compute_range.simps) (simp add: r(1) v)
        ultimately show ?thesis using m unfolding size_free_def by simp
      qed
    qed
  qed
qed

lemma size_minmax_ok: "represents size_minmax {0..2 ^ 127}"
proof -
  have "part_ok (2 ^ 63) size_minmax" by (simp add: part_ok_def size_minmax_def range_new_def place_def edge_in_def value_edge_def)
  moreover have "limited size_minmax" "clean size_minmax" "\<not> empty_constraint (info size_minmax)" "interval size_minmax = {0..2 ^ 127}"
    by (simp_all add: limited_def clean_def size_minmax_def range_new_def place_def value_edge_def interval_def in_limits_def
        INTMAX_MIN_def INTMAX_MAX_def)
  ultimately show ?thesis using represents_single(2) by metis
qed

abbreviation fbless_SIZE :: cpr_flags where
  "fbless_SIZE \<equiv> CPR_noflags\<lparr>CPR_simulate_fbless_SIZE := True\<rparr>"

lemma size_of_integer:
  assumes "regular U ct"
  obtains sz where "asn1constraint_compute_constraint_range ASN_BASIC_INTEGER (Some ct) ACT_CT_SIZE None None fbless_SIZE = Some (Inr sz, False)"
    "incompatible (info sz) \<or> edge_type (right sz) = ARE_MAX"
proof -
  have p: "plain ASN_BASIC_INTEGER ACT_CT_SIZE fbless_SIZE" by (simp add: plain_def asn1constraint_compatible_def CPR_noflags_def)
  have ne: "{0..2 ^ 127 :: int} \<noteq> {}" by simp
  have "size_free ASN_BASIC_INTEGER fbless_SIZE {0..2 ^ 127} ct" using regular_size_free [OF p ne] assms by blast
  then obtain sz where s: "compute_range ASN_BASIC_INTEGER ACT_CT_SIZE fbless_SIZE (Some size_minmax) (Some False) ct = Some (Inr sz, False)"
    "incompatible (info sz) \<or> represents sz {0..2 ^ 127}" using size_minmax_ok unfolding size_free_def by blast
  have "constraint_start ASN_BASIC_INTEGER ACT_CT_SIZE fbless_SIZE None = constraint_start ASN_BASIC_INTEGER ACT_CT_SIZE fbless_SIZE (Some size_minmax)"
    by (simp add: constraint_start_def)
  then have "compute_range ASN_BASIC_INTEGER ACT_CT_SIZE fbless_SIZE None None ct =
      compute_range ASN_BASIC_INTEGER ACT_CT_SIZE fbless_SIZE (Some size_minmax) (Some False) ct"
    by (simp add: compute_range.simps [of _ _ _ _ _ ct])
  moreover have "Max {0..2 ^ 127 :: int} = 2 ^ 127" by (rule Max_eqI) simp_all
  then have "edge_type (right sz) = ARE_MAX" if "represents sz {0..2 ^ 127}"
    using represents_edges(2,4) [OF that ne] edge_of_place(3) [of "right sz" "2 ^ 127"] by simp
  ultimately show thesis using s by (intro that [of sz]) (auto simp: asn1constraint_compute_constraint_range_def)
qed

section \<open>A sample\<close>

definition sample_terminal :: terminal_type where
  "sample_terminal = \<lparr>tt_type = ASN_BASIC_INTEGER, tt_numbers = [], tt_constraints = Some sample_ct\<rparr>"

lemma ends: "Min ({1..5} \<union> {10..100}) = (1 :: int)" "Max ({1..5} \<union> {10..100}) = (100 :: int)"
  by (rule Min_eqI Max_eqI; auto)+

text \<open>The constraint \<open>(1..MAX)\<close>.\<close>

definition open_ct :: asn1p_constraint where
  "open_ct = range_ct (ATV_INTEGER 1) ATV_MAX"

lemma open_ct_ok: "regular all_numbers open_ct" "allowed all_numbers open_ct = {1..2 ^ 127}"
  by (auto simp: open_ct_def sample_trees regular_edges_def all_ends)
     (auto simp: all_numbers_def in_limits_def INTMAX_MIN_def INTMAX_MAX_def)

lemma open_ends: "Min {1..2 ^ 127} = (1 :: int)" "Max {1..2 ^ 127} = (2 ^ 127 :: int)"
  by (rule Min_eqI Max_eqI; auto)+

definition open_terminal :: terminal_type where
  "open_terminal = \<lparr>tt_type = ASN_BASIC_INTEGER, tt_numbers = [], tt_constraints = Some open_ct\<rparr>"

lemma edges_of_integer:
  assumes "regular all_numbers ct" "allowed all_numbers ct \<noteq> {}"
  obtains r sz where "asn1constraint_compute_PER_range ASN_BASIC_INTEGER (Some ct) ACT_EL_RANGE None None CPR_noflags = Some (Inr r, True)"
    "represents r (allowed all_numbers ct)" "clean r" "\<not> empty_constraint (info r)"
    "asn1constraint_compute_constraint_range ASN_BASIC_INTEGER (Some ct) ACT_CT_SIZE None None fbless_SIZE = Some (Inr sz, False)"
    "(\<not> incompatible (info sz) \<and> edge_type (right sz) = ARE_VALUE \<and> edge_value (right sz) \<le> 4) \<longleftrightarrow> False"
proof -
  obtain r where r: "asn1constraint_compute_PER_range ASN_BASIC_INTEGER (Some ct) ACT_EL_RANGE None None CPR_noflags = Some (Inr r, True)"
    "represents r (allowed all_numbers ct)" by (rule PER_range_ok [OF assms(1)])
  obtain sz where sz: "asn1constraint_compute_constraint_range ASN_BASIC_INTEGER (Some ct) ACT_CT_SIZE None None fbless_SIZE = Some (Inr sz, False)"
    "incompatible (info sz) \<or> edge_type (right sz) = ARE_MAX" by (rule size_of_integer [OF assms(1)])
  from sz(2) have "(\<not> incompatible (info sz) \<and> edge_type (right sz) = ARE_VALUE \<and> edge_value (right sz) \<le> 4) \<longleftrightarrow> False" by auto
  with r sz(1) representsD(1,2) [OF r(2) assms(2)] show thesis by (intro that)
qed

lemma sample_fits: "asn1c_type_fits_long False (Some sample_terminal) = Some FL_FITS_SIGNED"
proof -
  have ne: "allowed all_numbers sample_ct \<noteq> {}" by (simp add: sample_ct_ok(2))
  from edges_of_integer [OF sample_ct_ok(1) ne] obtain r sz where
    r: "asn1constraint_compute_PER_range ASN_BASIC_INTEGER (Some sample_ct) ACT_EL_RANGE None None CPR_noflags = Some (Inr r, True)"
    "represents r (allowed all_numbers sample_ct)" "clean r" "\<not> empty_constraint (info r)"
    and s: "asn1constraint_compute_constraint_range ASN_BASIC_INTEGER (Some sample_ct) ACT_CT_SIZE None None fbless_SIZE = Some (Inr sz, False)"
    "(\<not> incompatible (info sz) \<and> edge_type (right sz) = ARE_VALUE \<and> edge_value (right sz) \<le> 4) \<longleftrightarrow> False" by blast
  note e = represents_edges [OF r(2) ne, unfolded sample_ct_ok(2) ends]
  have l: "edge_type (left r) = ARE_VALUE \<and> edge_value (left r) = 1" "edge_type (right r) = ARE_VALUE \<and> edge_value (right r) = 100"
    using edge_of_place(1) [OF e(3,1)] edge_of_place(1) [OF e(4,2)] by (simp_all add: in_limits_def INTMAX_MIN_def INTMAX_MAX_def)
  show ?thesis using r(3,4) l
    by (simp add: asn1c_type_fits_long_def sample_terminal_def or_null_def s r(1) Let_def clean_def)
qed

lemma open_fits: "asn1c_type_fits_long False (Some open_terminal) = Some FL_FITS_UNSIGN"
proof -
  have ne: "allowed all_numbers open_ct \<noteq> {}" by (simp add: open_ct_ok(2))
  from edges_of_integer [OF open_ct_ok(1) ne] obtain r sz where
    r: "asn1constraint_compute_PER_range ASN_BASIC_INTEGER (Some open_ct) ACT_EL_RANGE None None CPR_noflags = Some (Inr r, True)"
    "represents r (allowed all_numbers open_ct)" "clean r" "\<not> empty_constraint (info r)"
    and s: "asn1constraint_compute_constraint_range ASN_BASIC_INTEGER (Some open_ct) ACT_CT_SIZE None None fbless_SIZE = Some (Inr sz, False)"
    "(\<not> incompatible (info sz) \<and> edge_type (right sz) = ARE_VALUE \<and> edge_value (right sz) \<le> 4) \<longleftrightarrow> False" by blast
  note e = represents_edges [OF r(2) ne, unfolded open_ct_ok(2) open_ends]
  have l: "edge_type (left r) = ARE_VALUE \<and> edge_value (left r) = 1" "edge_type (right r) = ARE_MAX"
    using edge_of_place(1) [OF e(3,1)] edge_of_place(3) [OF e(4,2)] by (simp_all add: in_limits_def INTMAX_MIN_def INTMAX_MAX_def)
  show ?thesis using r(3,4) l
    by (simp add: asn1c_type_fits_long_def open_terminal_def or_null_def s r(1) Let_def clean_def)
qed

text \<open>The number 12 under \<open>(1..5 | 10..100)\<close> and under \<open>(1..MAX)\<close>.\<close>

theorem compiled_integer_roundtrip_witness:
  "(\<exists>cs n buf. emit_member_PER_constraints True ASN_BASIC_INTEGER (Some sample_ct) [] None = Some cs \<and>
     uper_encode_to_new_buffer (\<lambda>_. True) (Some (NativeInteger_encode_uper (\<lambda>_. True) (emitted_td FL_FITS_SIGNED cs) None)) 12 =
       Some (int n, Some buf) \<and>
     uper_decode_complete (Some (NativeInteger_decode_uper (\<lambda>_. True) (emitted_td FL_FITS_SIGNED cs) None)) buf n = Some (RC_OK, n, Some 12) \<and>
     take n buf = per_complete (be_bits (bits_for 100) 11)) \<and>
   (\<exists>cs. emit_member_PER_constraints True ASN_BASIC_INTEGER (Some open_ct) [] None = Some cs \<and>
     uper_encode_to_new_buffer (\<lambda>_. True) (Some (NativeInteger_encode_uper (\<lambda>_. True) (emitted_td FL_FITS_UNSIGN cs) None)) 12 = Some (-1, None))"
proof -
  have l: "in_limits k" if "0 \<le> k" "k \<le> 100" for k using that by (simp add: in_limits_def INTMAX_MIN_def INTMAX_MAX_def)
  have u: "\<not> in_limits (2 ^ 127)" by (simp add: in_limits_def INTMAX_MAX_def)
  have s: "12 \<in> allowed all_numbers sample_ct" "12 \<in> allowed all_numbers open_ct" by (simp_all add: sample_ct_ok(2) open_ct_ok(2))
  show ?thesis
    using compiled_integer_roundtrip [OF sample_ct_ok(1) s(1) _ _ _ sample_fits refl refl, of "[]" None, unfolded sample_ct_ok(2) ends]
      compiled_integer_roundtrip [OF open_ct_ok(1) s(2) _ _ _ open_fits refl refl, of "[]" None, unfolded open_ct_ok(2) open_ends] u
    by (simp add: sample_terminal_def open_terminal_def l)
qed


text \<open>The constraint \<open>(5..10, ..., 1..4)\<close>.\<close>

theorem additions_in_root_witness:
  "emit_member_PER_constraints True ASN_BASIC_INTEGER
    (Some (node_ct ACT_CA_CSV [range_ct (ATV_INTEGER 5) (ATV_INTEGER 10), node_ct ACT_EL_EXT [], range_ct (ATV_INTEGER 1) (ATV_INTEGER 4)])) [] None =
    Some (Some \<lparr>pc_value = \<lparr>ct_flags = 6, ct_range_bits = int (bits_for 10), ct_effective_bits = effective_bits 10 10,
      ct_lower_bound = 1, ct_upper_bound = 10\<rparr>, pc_size = unconstrained, pc_value2code = None, pc_code2value = None\<rparr>)"
proof -
  have a: "allowed all_numbers (range_ct (ATV_INTEGER x) (ATV_INTEGER y)) = {x..y}" "regular all_numbers (range_ct (ATV_INTEGER x) (ATV_INTEGER y))"
    if "0 \<le> x" "x \<le> y" "y \<le> 10" for x y
    using that by (auto simp: sample_trees regular_edges_def all_numbers_def in_limits_def INTMAX_MIN_def INTMAX_MAX_def)
  have m: "Min ({5..10} \<union> {1..4}) = (1 :: int)" "Max ({5..10} \<union> {1..4}) = (10 :: int)" by (rule Min_eqI Max_eqI; auto)+
  have l: "in_limits 1" "in_limits 10" by (simp_all add: in_limits_def INTMAX_MIN_def INTMAX_MAX_def)
  show ?thesis unfolding node_ct_def
    using additions_in_root [of "range_ct (ATV_INTEGER 5) (ATV_INTEGER 10)" "range_ct (ATV_INTEGER 1) (ATV_INTEGER 4)"
        "leaf_info\<lparr>ct_type := ACT_CA_CSV\<rparr>" "leaf_info\<lparr>ct_type := ACT_EL_EXT\<rparr>" "{5..10} \<union> {1..4}" "[]" "[]" None] a l
    by (simp add: m leaf_info_def)
qed

text \<open>The upper bound that the table for OER looks at has 64 bits: \<open>(0..18446744073709551616)\<close> gets the width of the bound 0.\<close>

theorem oer_width_truncated:
  "emit_single_member_OER_constraint_value ASN_BASIC_INTEGER (Some (new_part (number_edge 0) (number_edge (2 ^ 64)))) =
    \<lparr>ct_width = 4, ct_positive = True\<rparr>"
  by (simp add: emit_single_member_OER_constraint_value_def new_part_def number_edge_def range_new_def Let_def)




end
