(* ===== verification/Enum_Table.thy ===== *)
theory Enum_Table
  imports Constraint_Table
begin

unbundle bit_operations_syntax

text \<open>
  Enumerations in the compiler: the check and the numbering of the items in \<open>libasn1fix/asn1fix_enum.c\<close>, and the
  maps that \<open>asn1c_lang_C_type_common_INTEGER\<close> of \<open>libasn1compiler/asn1c_C.c\<close> prints for the run time. The end to
  end theorem joins them with the table of the constraint and the codec of \<open>NativeEnumerated_uper.c\<close>.
\<close>

section \<open>Numbering the items\<close>

text \<open>What is looked at of the members of an ENUMERATED: \<open>A1TC_EXTENSIBLE\<close> is the extension mark, \<open>A1TC_UNIVERVAL\<close> an item.\<close>

abbreviation A1TC_UNIVERVAL :: expr_type where "A1TC_UNIVERVAL \<equiv> 3"
abbreviation A1TC_EXTENSIBLE :: expr_type where "A1TC_EXTENSIBLE \<equiv> 6"

record asn1p_item =
  it_type :: expr_type
  it_Identifier :: "string option"
  it_value :: "asn1p_value option"

fun strcmp :: "string \<Rightarrow> string \<Rightarrow> int" where
  "strcmp [] [] = 0"
| "strcmp [] (d # ds) = -1"
| "strcmp (c # cs) [] = 1"
| "strcmp (c # cs) (d # ds) = (if c = d then strcmp cs ds else if of_char c < (of_char d :: nat) then -1 else 1)"

text \<open>\<open>asn1f_check_unique_expr_child\<close> without a function to compare: the members in front of \<open>child\<close>.\<close>

fun unique_in :: "asn1p_item list \<Rightarrow> string \<Rightarrow> int" where
  "unique_in [] name = 0"
| "unique_in (e # es) name =
     (case it_Identifier e of
        None \<Rightarrow> unique_in es name
      | Some n \<Rightarrow> if it_type e = A1TC_EXTENSIBLE then unique_in es name
          else if strcmp n name = 0 then -1 else unique_in es name)"

definition asn1f_check_unique_expr_child :: "asn1p_item list \<Rightarrow> asn1p_item \<Rightarrow> int option" where
  "asn1f_check_unique_expr_child before child = do {
     c_assert (it_Identifier child \<noteq> None);
     name \<leftarrow> it_Identifier child;
     Some (unique_in before name) }"

text \<open>The variables of \<open>asn1f_fix_enum\<close>; the memory it asks for is granted.\<close>

record fix_state =
  max_value :: int
  max_value_ext :: int
  rvalue :: int
  ext_marker :: bool
  used_vals :: "int list"

definition RET2RVAL :: "int \<Rightarrow> int \<Rightarrow> int option" where
  "RET2RVAL ret rv =
     (if ret = 0 then Some rv
      else if ret = 1 \<and> rv \<noteq> 0 then Some rv
      else if ret = 1 \<or> ret = -1 then Some ret
      else None)"

definition fix_item :: "asn1p_item list \<Rightarrow> fix_state \<Rightarrow> asn1p_item \<Rightarrow> (fix_state \<times> asn1p_item) option" where
  "fix_item before st ev =
     (if it_type ev = A1TC_EXTENSIBLE then Some (if ext_marker st then st\<lparr>rvalue := -1\<rparr> else st\<lparr>ext_marker := True\<rparr>, ev)
      else if it_Identifier ev = None \<or> it_type ev \<noteq> A1TC_UNIVERVAL then Some (st\<lparr>rvalue := -1\<rparr>, ev)
      else do {
        evaluated \<leftarrow> (case it_value ev of
            Some (ATV_INTEGER v) \<Rightarrow> Some (Some (v, ev))
          | Some _ \<Rightarrow> Some None
          | None \<Rightarrow> do {
              eval \<leftarrow> s128 (max_value st + 1);
              Some (Some (eval, ev\<lparr>it_value := Some (ATV_INTEGER eval)\<rparr>)) });
        (case evaluated of
           None \<Rightarrow> Some (st\<lparr>rvalue := -1\<rparr>, ev)
         | Some (eval, ev) \<Rightarrow> do {
             let st = (if ext_marker st then if max_value_ext st < eval then st\<lparr>max_value_ext := eval\<rparr> else st\<lparr>rvalue := -1\<rparr> else st);
             let st = (if max_value st < eval then st\<lparr>max_value := eval\<rparr> else st);
             let st = (if eval \<in> set (used_vals st) then st\<lparr>rvalue := -1\<rparr> else st\<lparr>used_vals := used_vals st @ [eval]\<rparr>);
             ret \<leftarrow> asn1f_check_unique_expr_child before ev;
             rv \<leftarrow> RET2RVAL ret (rvalue st);
             Some (st\<lparr>rvalue := rv\<rparr>, ev) }) })"

fun fix_items :: "asn1p_item list \<Rightarrow> fix_state \<Rightarrow> asn1p_item list \<Rightarrow> (fix_state \<times> asn1p_item list) option" where
  "fix_items before st [] = Some (st, before)"
| "fix_items before st (ev # evs) = do {
     (st, ev) \<leftarrow> fix_item before st ev;
     fix_items (before @ [ev]) st evs }"

definition asn1f_fix_enum :: "expr_type \<Rightarrow> asn1p_item list \<Rightarrow> (int \<times> asn1p_item list) option" where
  "asn1f_fix_enum et members =
     (if et \<noteq> ASN_BASIC_ENUMERATED then Some (0, members)
      else do {
        (st, members) \<leftarrow> fix_items [] \<lparr>max_value = -1, max_value_ext = -1, rvalue = 0, ext_marker = False, used_vals = []\<rparr> members;
        Some (rvalue st, members) })"

section \<open>The maps\<close>

record enum_entry =
  ve_value :: int
  ve_name :: string
  ve_idx :: nat

definition compar_enumMap_byName :: "enum_entry \<Rightarrow> enum_entry \<Rightarrow> int" where
  "compar_enumMap_byName a b = strcmp (ve_name a) (ve_name b)"

definition compar_enumMap_byValue :: "enum_entry \<Rightarrow> enum_entry \<Rightarrow> int" where
  "compar_enumMap_byValue a b = (if ve_value a < ve_value b then -1 else if ve_value a = ve_value b then 0 else 1)"

definition expr_elements_count :: "asn1p_item list \<Rightarrow> nat" where
  "expr_elements_count members = length (filter (\<lambda>v. it_type v \<noteq> A1TC_EXTENSIBLE) members)"

text \<open>
  \<open>asn1c_lang_C_type_common_INTEGER\<close> for an ENUMERATED, without the C enumeration that it prints: the
  entries with the position of the extension mark, and the specifics. \<open>Some None\<close> is its return value -1.
\<close>

fun enum_entries :: "asn1p_item list \<Rightarrow> enum_entry list \<Rightarrow> nat \<Rightarrow> (enum_entry list \<times> nat) option option" where
  "enum_entries [] v2e map_extensions = Some (Some (v2e, map_extensions))"
| "enum_entries (v # vs) v2e map_extensions =
     (if it_type v = A1TC_UNIVERVAL then
        (case (it_Identifier v, it_value v) of
           (Some name, Some (ATV_INTEGER n)) \<Rightarrow> enum_entries vs (v2e @ [\<lparr>ve_value = n, ve_name = name, ve_idx = 0\<rparr>]) map_extensions
         | _ \<Rightarrow> None)
      else if it_type v = A1TC_EXTENSIBLE then
        enum_entries vs v2e (if map_extensions = 0 then length v2e + 1 else map_extensions)
      else Some None)"

definition numbered :: "enum_entry list \<Rightarrow> enum_entry list" where
  "numbered es = map (\<lambda>i. (es ! i)\<lparr>ve_idx := i\<rparr>) [0..<length es]"

definition enumerated_specifics :: "asn1p_item list \<Rightarrow> asn_INTEGER_specifics option option" where
  "enumerated_specifics members = do {
     entries \<leftarrow> enum_entries members [] 0;
     (case entries of
        None \<Rightarrow> Some None
      | Some (v2e, map_extensions) \<Rightarrow> do {
          c_assert (length v2e = expr_elements_count members);
          let by_value = numbered (qsort compar_enumMap_byValue v2e);
          let by_name = qsort compar_enumMap_byName by_value;
          Some (Some \<lparr>value2enum = map (\<lambda>e. \<lparr>nat_value = ve_value e, enum_len = length (ve_name e), enum_name = ve_name e\<rparr>) by_value,
            enum2value = map ve_idx by_name, map_count = expr_elements_count members, extension = int map_extensions,
            strict_enumeration = True, field_width = 0, field_unsigned = False\<rparr>) }) }"


section \<open>What is accepted\<close>

definition is_mark :: "asn1p_item \<Rightarrow> bool" where
  "is_mark m \<longleftrightarrow> it_type m = A1TC_EXTENSIBLE"

definition item_number :: "asn1p_item \<Rightarrow> int" where
  "item_number m = (case it_value m of Some (ATV_INTEGER v) \<Rightarrow> v | _ \<Rightarrow> 0)"

definition items :: "asn1p_item list \<Rightarrow> asn1p_item list" where
  "items ms = filter (\<lambda>m. \<not> is_mark m) ms"

definition roots :: "asn1p_item list \<Rightarrow> asn1p_item list" where
  "roots ms = takeWhile (\<lambda>m. \<not> is_mark m) ms"

definition additions :: "asn1p_item list \<Rightarrow> asn1p_item list" where
  "additions ms = items (dropWhile (\<lambda>m. \<not> is_mark m) ms)"

definition item_ok :: "asn1p_item \<Rightarrow> bool" where
  "item_ok m \<longleftrightarrow> is_mark m \<or> it_type m = A1TC_UNIVERVAL \<and> (\<exists>n v. it_Identifier m = Some n \<and> it_value m = Some (ATV_INTEGER v))"

definition enumeration_ok :: "asn1p_item list \<Rightarrow> bool" where
  "enumeration_ok ms \<longleftrightarrow> (\<forall>m \<in> set ms. item_ok m) \<and> length (filter is_mark ms) \<le> 1 \<and>
     distinct (map item_number (items ms)) \<and> distinct (map it_Identifier (items ms)) \<and>
     sorted_wrt (<) (map item_number (additions ms)) \<and> (\<forall>m \<in> set (additions ms). 0 \<le> item_number m)"

lemma items_simps [simp]: "items [] = []" "items (ms @ [m]) = items ms @ (if is_mark m then [] else [m])"
  by (simp_all add: items_def)

lemma roots_additions: "items ms = roots ms @ additions ms"
proof -
  have "items (takeWhile (\<lambda>m. \<not> is_mark m) ms) = takeWhile (\<lambda>m. \<not> is_mark m) ms"
    unfolding items_def by (rule filter_True) (auto dest: set_takeWhileD)
  then show ?thesis unfolding roots_def additions_def
    by (metis (no_types) items_def filter_append takeWhile_dropWhile_id)
qed

lemma no_mark: "(\<exists>x \<in> set ms. is_mark x) \<Longrightarrow> additions (ms @ [m]) = additions ms @ (if is_mark m then [] else [m])"
  "\<not> (\<exists>x \<in> set ms. is_mark x) \<Longrightarrow> additions (ms @ [m]) = []"
  by (auto simp: additions_def dropWhile_append items_def)

lemma strcmp_eq: "strcmp xs ys = 0 \<longleftrightarrow> xs = ys"
  by (induction xs ys rule: strcmp.induct) auto

lemma unique_in_ok:
  "\<forall>m \<in> set ms. item_ok m \<Longrightarrow> unique_in ms name = (if Some name \<in> it_Identifier ` set (items ms) then -1 else 0)"
  by (induction ms) (auto simp: item_ok_def is_mark_def items_def strcmp_eq split: option.splits)

text \<open>The loop: what holds of the members passed as long as there was no error.\<close>

definition fixing :: "asn1p_item list \<Rightarrow> fix_state \<Rightarrow> bool" where
  "fixing before st \<longleftrightarrow> (rvalue st = 0 \<longrightarrow>
     enumeration_ok before \<and> used_vals st = map item_number (items before) \<and> ext_marker st = (\<exists>m \<in> set before. is_mark m) \<and>
     -1 \<le> max_value_ext st \<and> (\<forall>m \<in> set (additions before). item_number m \<le> max_value_ext st))"

lemma fixing_item:
  assumes "fixing before st" "fix_item before st ev = Some (st', ev')"
  shows "fixing (before @ [ev']) st'" "rvalue st \<noteq> 0 \<Longrightarrow> rvalue st' \<noteq> 0"
    "it_type ev' = it_type ev \<and> it_Identifier ev' = it_Identifier ev \<and> (it_value ev \<noteq> None \<longrightarrow> ev' = ev)"
proof -
  show t: "it_type ev' = it_type ev \<and> it_Identifier ev' = it_Identifier ev \<and> (it_value ev \<noteq> None \<longrightarrow> ev' = ev)"
    using assms(2) by (auto simp: fix_item_def Let_def split: if_splits option.splits asn1p_value.splits bind_splits)
  show "rvalue st \<noteq> 0 \<Longrightarrow> rvalue st' \<noteq> 0"
    using assms(2) by (auto simp: fix_item_def Let_def RET2RVAL_def split: if_splits option.splits asn1p_value.splits bind_splits)
  show "fixing (before @ [ev']) st'"
  proof (cases "rvalue st' = 0")
    case True
    then have "rvalue st = 0"
      using assms(2) by (auto simp: fix_item_def Let_def RET2RVAL_def split: if_splits option.splits asn1p_value.splits bind_splits)
    with assms(1) have f: "enumeration_ok before" "used_vals st = map item_number (items before)" "ext_marker st = (\<exists>m \<in> set before. is_mark m)"
      "-1 \<le> max_value_ext st" "\<forall>m \<in> set (additions before). item_number m \<le> max_value_ext st" by (simp_all add: fixing_def)
    note ok = f(1) [unfolded enumeration_ok_def]
    show ?thesis
    proof (cases "is_mark ev")
      case mark: True
      then have e: "ev' = ev" "\<not> ext_marker st" "st' = st\<lparr>ext_marker := True\<rparr>"
        using assms(2) True by (auto simp: fix_item_def is_mark_def split: if_splits)
      then have n: "\<not> (\<exists>x \<in> set before. is_mark x)" using f(3) by simp
      then have "filter is_mark before = []" by simp
      with ok f n mark show ?thesis by (simp add: fixing_def enumeration_ok_def e no_mark(2) item_ok_def)
    next
      case item: False
      obtain v n where ev': "it_type ev' = A1TC_UNIVERVAL" "it_Identifier ev' = Some n" "it_value ev' = Some (ATV_INTEGER v)"
        and st': "v \<notin> set (used_vals st)" "used_vals st' = used_vals st @ [v]" "unique_in before n = 0"
          "ext_marker st' = ext_marker st" "if ext_marker st then max_value_ext st < v \<and> max_value_ext st' = v else max_value_ext st' = max_value_ext st"
        using assms(2) True item
        by (auto simp: fix_item_def is_mark_def Let_def RET2RVAL_def asn1f_check_unique_expr_child_def split: if_splits option.splits asn1p_value.splits bind_splits)
      have m: "\<not> is_mark ev'" "item_number ev' = v" "item_ok ev'" using ev' by (simp_all add: is_mark_def item_number_def item_ok_def)
      have u: "Some n \<notin> it_Identifier ` set (items before)" using st'(3) ok by (auto simp: unique_in_ok split: if_splits)
      have ad: "additions (before @ [ev']) = (if ext_marker st then additions before @ [ev'] else [])"
        using no_mark [of before ev'] m(1) f(3) by auto
      have "length (filter is_mark (before @ [ev'])) \<le> 1" "\<forall>x \<in> set (before @ [ev']). item_ok x" using ok m by simp_all
      moreover have "distinct (map item_number (items (before @ [ev'])))" "distinct (map it_Identifier (items (before @ [ev'])))"
        using ok m st'(1) u f(2) ev'(2) by auto
      moreover have "sorted_wrt (<) (map item_number (additions (before @ [ev'])))" "\<forall>x \<in> set (additions (before @ [ev'])). 0 \<le> item_number x"
        using ok m(2) f(4,5) st'(5) by (auto simp: ad sorted_wrt_append split: if_splits)
      ultimately have "enumeration_ok (before @ [ev'])" unfolding enumeration_ok_def by blast
      moreover have "\<forall>x \<in> set (additions (before @ [ev'])). item_number x \<le> max_value_ext st'" "-1 \<le> max_value_ext st'"
        using f(4,5) st'(5) m(2) by (auto simp: ad split: if_splits)
      moreover have "used_vals st' = map item_number (items (before @ [ev']))" using f(2) st'(2) m by simp
      moreover have "ext_marker st' = (\<exists>x \<in> set (before @ [ev']). is_mark x)" using st'(4) f(3) m(1) by auto
      ultimately show ?thesis by (simp add: fixing_def)
    qed
  qed (simp add: fixing_def)
qed

lemma fixing_items:
  assumes "fix_items before st ms = Some (st', ms')" "fixing before st"
  shows "fixing ms' st' \<and> (\<exists>new. ms' = before @ new \<and>
    list_all2 (\<lambda>m m'. it_type m' = it_type m \<and> it_Identifier m' = it_Identifier m \<and> (it_value m \<noteq> None \<longrightarrow> m' = m)) ms new)"
  using assms
proof (induction ms arbitrary: before st)
  case (Cons ev evs)
  then obtain st1 ev' where e: "fix_item before st ev = Some (st1, ev')" "fix_items (before @ [ev']) st1 evs = Some (st', ms')"
    by (auto split: bind_splits)
  note fi = fixing_item [OF Cons.prems(2) e(1)]
  from Cons.IH [OF e(2) fi(1)] fi(3) show ?case by auto
qed simp

lemma accepted:
  assumes "asn1f_fix_enum ASN_BASIC_ENUMERATED ms = Some (0, ms')"
  shows "enumeration_ok ms' \<and>
    list_all2 (\<lambda>m m'. it_type m' = it_type m \<and> it_Identifier m' = it_Identifier m \<and> (it_value m \<noteq> None \<longrightarrow> m' = m)) ms ms'"
proof -
  define st where "st = \<lparr>max_value = -1, max_value_ext = -1, rvalue = 0, ext_marker = False, used_vals = []\<rparr>"
  from assms obtain st' where "fix_items [] st ms = Some (st', ms')" "rvalue st' = 0"
    by (auto simp: asn1f_fix_enum_def st_def split: bind_splits)
  moreover have "fixing [] st" by (simp add: fixing_def enumeration_ok_def st_def additions_def)
  ultimately show ?thesis using fixing_items [of "[]" st ms st' ms'] by (auto simp: fixing_def)
qed


text \<open>Conversely, a list of items that is in order is accepted.\<close>

lemma additions_append: "additions (xs @ ys) = (if \<exists>x \<in> set xs. is_mark x then additions xs @ items ys else additions ys)"
  by (auto simp: additions_def dropWhile_append items_def)

lemma no_additions: "\<not> (\<exists>x \<in> set xs. is_mark x) \<Longrightarrow> additions xs = []"
  by (induction xs) (simp_all add: additions_def)

lemma enumeration_ok_prefix: "enumeration_ok (xs @ ys) \<Longrightarrow> enumeration_ok xs"
proof -
  assume ok: "enumeration_ok (xs @ ys)"
  obtain zs where "additions (xs @ ys) = additions xs @ zs" using additions_append [of xs ys] no_additions [of xs] by (auto split: if_splits)
  moreover have "items (xs @ ys) = items xs @ items ys" by (simp add: items_def)
  ultimately show "enumeration_ok xs" using ok by (auto simp: enumeration_ok_def sorted_wrt_append)
qed

definition reached :: "asn1p_item list \<Rightarrow> fix_state \<Rightarrow> bool" where
  "reached before st \<longleftrightarrow> rvalue st = 0 \<and> (max_value_ext st = -1 \<or> max_value_ext st \<in> item_number ` set (additions before))"

lemma accept_item:
  assumes "fixing before st" "reached before st" "enumeration_ok (before @ [ev])"
  obtains st' where "fix_item before st ev = Some (st', ev)" "reached (before @ [ev]) st'"
proof -
  from assms(1,2) have f: "used_vals st = map item_number (items before)" "ext_marker st = (\<exists>m \<in> set before. is_mark m)"
    and r: "rvalue st = 0" "max_value_ext st = -1 \<or> max_value_ext st \<in> item_number ` set (additions before)"
    by (simp_all add: fixing_def reached_def)
  note ok = assms(3) [unfolded enumeration_ok_def]
  have ib: "\<forall>m \<in> set before. item_ok m" using ok by simp
  show thesis
  proof (cases "is_mark ev")
    case True
    then have n: "\<not> (\<exists>m \<in> set before. is_mark m)" using ok by (auto simp: filter_empty_conv)
    show thesis
      by (rule that [of "st\<lparr>ext_marker := True\<rparr>"]) (use True n f(2) r no_additions [OF n] in \<open>simp_all add: fix_item_def is_mark_def [symmetric] reached_def\<close>)
  next
    case False
    then obtain n v where e: "it_type ev = A1TC_UNIVERVAL" "it_Identifier ev = Some n" "it_value ev = Some (ATV_INTEGER v)"
      using ok by (auto simp: item_ok_def)
    have nv: "item_number ev = v" by (simp add: item_number_def e)
    have "v \<notin> set (used_vals st)" using ok False nv f(1) by auto
    moreover have "unique_in before n = 0" using ok False e(2) by (auto simp: unique_in_ok [OF ib])
    moreover have "max_value_ext st < v" if "ext_marker st"
      using ok f(2) that False nv r(2) by (auto simp: additions_append sorted_wrt_append items_def split: if_splits)
    moreover have "additions (before @ [ev]) = (if ext_marker st then additions before @ [ev] else [])"
      using no_mark [of before ev] False f(2) by auto
    moreover have "\<not> ext_marker st \<Longrightarrow> max_value_ext st = -1"
      using r(2) f(2) no_additions [of before] by auto
    ultimately show thesis using r(1)
      by (intro that [of "(if max_value st < v then st\<lparr>max_value := v\<rparr> else st)\<lparr>max_value_ext := (if ext_marker st then v else max_value_ext st),
          used_vals := used_vals st @ [v]\<rparr>"])
        (auto simp: fix_item_def e Let_def asn1f_check_unique_expr_child_def RET2RVAL_def reached_def nv image_iff bex_disj_distrib)
  qed
qed

lemma accept_items:
  assumes "fixing before st" "reached before st" "enumeration_ok (before @ evs)"
  shows "\<exists>st'. fix_items before st evs = Some (st', before @ evs) \<and> rvalue st' = 0"
  using assms
proof (induction evs arbitrary: before st)
  case Nil
  then show ?case by (simp add: reached_def)
next
  case (Cons ev evs)
  have "enumeration_ok (before @ [ev])" using Cons.prems(3) by (rule_tac enumeration_ok_prefix [of _ evs]) simp
  then obtain st' where s: "fix_item before st ev = Some (st', ev)" "reached (before @ [ev]) st'"
    by (rule accept_item [OF Cons.prems(1,2)])
  have "enumeration_ok ((before @ [ev]) @ evs)" using Cons.prems(3) by simp
  from Cons.IH [OF fixing_item(1) [OF Cons.prems(1) s(1)] s(2) this] s(1) show ?case by simp
qed

text \<open>
  C13: of an enumeration that numbers all its items, \<open>asn1f_fix_enum\<close> accepts exactly those with distinct numbers and
  names, at most one extension mark and increasing numbers from 0 on behind it; it leaves the members as they are.
\<close>

theorem fix_enum_exact:
  assumes "\<forall>m \<in> set ms. it_value m \<noteq> None \<or> is_mark m"
  shows "asn1f_fix_enum ASN_BASIC_ENUMERATED ms = Some (0, ms) \<longleftrightarrow> enumeration_ok ms"
proof
  assume "enumeration_ok ms"
  define st where "st = \<lparr>max_value = -1, max_value_ext = -1, rvalue = 0, ext_marker = False, used_vals = []\<rparr>"
  have "fixing [] st" "reached [] st" by (simp_all add: fixing_def enumeration_ok_def st_def additions_def reached_def)
  from accept_items [OF this, of ms] \<open>enumeration_ok ms\<close> obtain st' where "fix_items [] st ms = Some (st', ms)" "rvalue st' = 0" by auto
  then show "asn1f_fix_enum ASN_BASIC_ENUMERATED ms = Some (0, ms)"
    unfolding asn1f_fix_enum_def st_def by simp
qed (use accepted in blast)

section \<open>The maps are right\<close>

definition entry_of :: "asn1p_item \<Rightarrow> enum_entry" where
  "entry_of m = \<lparr>ve_value = item_number m, ve_name = the (it_Identifier m), ve_idx = 0\<rparr>"

lemma enum_entries_ok:
  assumes "\<forall>m \<in> set ms. item_ok m" "length (filter is_mark ms) \<le> 1" "e = 0 \<or> filter is_mark ms = []"
  shows "enum_entries ms v2e e = Some (Some (v2e @ map entry_of (items ms),
    if filter is_mark ms = [] then e else length v2e + length (roots ms) + 1))"
  using assms
proof (induction ms arbitrary: v2e e)
  case (Cons m ms)
  show ?case
  proof (cases "is_mark m")
    case True
    then have n: "filter is_mark ms = []" using Cons.prems(2) by simp
    with True Cons show ?thesis by (auto simp: is_mark_def roots_def items_def)
  next
    case False
    then obtain n v where e: "it_type m = A1TC_UNIVERVAL" "it_Identifier m = Some n" "it_value m = Some (ATV_INTEGER v)"
      using Cons.prems(1) by (auto simp: item_ok_def)
    then have "entry_of m = \<lparr>ve_value = v, ve_name = n, ve_idx = 0\<rparr>" by (simp add: entry_of_def item_number_def)
    moreover have "items (m # ms) = m # items ms" "roots (m # ms) = m # roots ms" using False by (simp_all add: items_def roots_def)
    ultimately show ?thesis using Cons False e by auto
  qed
qed (simp add: items_def)

lemma numbered_simps [simp]: "length (numbered es) = length es" "map ve_value (numbered es) = map ve_value es"
  "map ve_idx (numbered es) = [0..<length es]" "map ve_name (numbered es) = map ve_name es"
  by (simp add: numbered_def, (rule nth_equalityI; simp add: numbered_def)+)

lemma sorted_rank:
  fixes xs :: "int list"
  assumes "sorted_wrt (<) xs" "k < length xs"
  shows "card {x \<in> set xs. x < xs ! k} = k"
proof -
  have i: "inj_on (\<lambda>i. xs ! i) {..<k}" using assms by (intro inj_onI) (metis lessThan_iff less_irrefl linorder_neqE_nat order_less_trans sorted_wrt_nth_less)
  have "{x \<in> set xs. x < xs ! k} = (\<lambda>i. xs ! i) ` {..<k}"
  proof (intro set_eqI iffI)
    fix x assume "x \<in> {x \<in> set xs. x < xs ! k}"
    then obtain i where "i < length xs" "x = xs ! i" "xs ! i < xs ! k" by (auto simp: in_set_conv_nth)
    moreover have "i < k"
    proof (rule ccontr)
      assume "\<not> i < k"
      then have "i = k \<or> k < i" by linarith
      then have "i = k \<or> xs ! k < xs ! i" using sorted_wrt_nth_less [OF assms(1), of k i] \<open>i < length xs\<close> by blast
      with \<open>xs ! i < xs ! k\<close> show False by auto
    qed
    ultimately show "x \<in> (\<lambda>i. xs ! i) ` {..<k}" by blast
  qed (use assms sorted_wrt_nth_less [OF assms(1)] in auto)
  then show ?thesis using card_image [OF i] by simp
qed

text \<open>The specifics of an accepted enumeration: the map in the order of the numbers, and the number of roots.\<close>

lemma specifics_ok:
  assumes "enumeration_ok ms"
  obtains specs where "enumerated_specifics ms = Some (Some specs)"
    "sorted_wrt (<) (map nat_value (value2enum specs))" "mset (map nat_value (value2enum specs)) = mset (map item_number (items ms))"
    "map_count specs = length (value2enum specs)" "extension specs = (if filter is_mark ms = [] then 0 else int (length (roots ms)) + 1)"
    "mset (enum2value specs) = mset [0..<length (items ms)]"
proof -
  note ok = assms [unfolded enumeration_ok_def]
  define v2e where "v2e = map entry_of (items ms)"
  define e where "e = (if filter is_mark ms = [] then 0 else length (roots ms) + 1)"
  have en: "enum_entries ms [] 0 = Some (Some (v2e, e))" using enum_entries_ok [of ms 0 "[]"] ok by (simp add: v2e_def e_def)
  have c: "expr_elements_count ms = length v2e"
    by (simp add: expr_elements_count_def v2e_def items_def is_mark_def)
  define bv where "bv = numbered (qsort compar_enumMap_byValue v2e)"
  define specs where "specs = \<lparr>value2enum = map (\<lambda>e. \<lparr>nat_value = ve_value e, enum_len = length (ve_name e), enum_name = ve_name e\<rparr>) bv,
            enum2value = map ve_idx (qsort compar_enumMap_byName bv), map_count = length v2e, extension = int e,
            strict_enumeration = True, field_width = 0, field_unsigned = False\<rparr>"
  have nums: "map nat_value (value2enum specs) = map ve_value (qsort compar_enumMap_byValue v2e)"
    by (simp add: specs_def o_def bv_def)
  have m: "mset (map nat_value (value2enum specs)) = mset (map item_number (items ms))"
    unfolding nums by (simp add: v2e_def multiset.map_comp o_def entry_of_def)
  have "sorted_wrt (\<lambda>x y. ve_value x \<le> ve_value y) (qsort compar_enumMap_byValue v2e)"
    by (rule qsort_sorted) (auto simp: compar_enumMap_byValue_def split: if_splits)
  then have "sorted (map nat_value (value2enum specs))" unfolding nums by (simp add: sorted_map)
  moreover have "distinct (map nat_value (value2enum specs))" using m ok by (metis mset_eq_imp_distinct_iff)
  ultimately have s: "sorted_wrt (<) (map nat_value (value2enum specs))" by (simp add: strict_sorted_iff)
  have "map ve_idx bv = [0..<length (items ms)]" by (simp add: bv_def v2e_def)
  then have "image_mset ve_idx (mset bv) = mset [0..<length (items ms)]" by (metis mset_map)
  then have x: "mset (enum2value specs) = mset [0..<length (items ms)]" by (simp add: specs_def del: mset_upt)
  have "enumerated_specifics ms = Some (Some specs)"
    by (simp add: enumerated_specifics_def en c Let_def specs_def bv_def)
  then show thesis
    by (rule that) (use s m x in \<open>simp_all add: specs_def bv_def e_def\<close>)
qed


lemma no_size_of_enumerated: "asn1constraint_compute_PER_range ASN_BASIC_ENUMERATED ct ACT_CT_SIZE None None CPR_noflags = Some (Inl EINVAL, False)"
  by (cases ct) (simp_all add: asn1constraint_compute_PER_range_def asn1constraint_compute_constraint_range_def
    compute_range.simps [of _ _ _ _ _ "the ct"] compute_range.simps constraint_start_def asn1constraint_compatible_def CPR_noflags_def)

definition enumerated_table :: "asn1p_item list \<Rightarrow> asn_per_constraint" where
  "enumerated_table ms =
     (let n = int (length (roots ms)) in
      \<lparr>ct_flags = (if filter is_mark ms = [] then APC_CONSTRAINED else APC_CONSTRAINED + APC_EXTENSIBLE), ct_range_bits = int (bits_for n),
        ct_effective_bits = effective_bits n (n - 1), ct_lower_bound = 0, ct_upper_bound = n - 1\<rparr>)"

lemma emitted_enum:
  assumes "roots ms \<noteq> []" "length (roots ms) \<le> 2 ^ 31"
  shows "emit_member_PER_constraints True ASN_BASIC_ENUMERATED ct (map is_mark ms) maps =
    Some (Some \<lparr>pc_value = enumerated_table ms, pc_size = unconstrained, pc_value2code = None, pc_code2value = None\<rparr>)"
proof -
  define n where "n = int (length (roots ms))"
  define r where "r = member_range (map is_mark ms)"
  have l: "length (takeWhile Not (map is_mark ms)) = length (roots ms)" by (simp add: roots_def takeWhile_map o_def)
  have n: "1 \<le> n" "n \<le> 2 ^ 31" using assms by (simp_all add: n_def Suc_le_eq flip: length_greater_0_conv)
  then have e: "edge_type (left r) = ARE_VALUE" "edge_type (right r) = ARE_VALUE" "edge_value (left r) = 0" "edge_value (right r) = n - 1"
    "\<not> incompatible (info r)" "\<not> not_PER_visible (info r)" "\<not> empty_constraint (info r)" "extensible (info r) = (filter is_mark ms \<noteq> [])"
    unfolding r_def member_range_def Let_def l n_def [symmetric] by (auto simp: value_edge_def range_new_def filter_empty_conv)
  have lim: "in_limits 0" "in_limits (n - 1)" "0 \<le> n - 1" using n by (simp_all add: in_limits_def INTMAX_MIN_def INTMAX_MAX_def)
  have t: "emit_single_member_PER_constraint ASN_BASIC_ENUMERATED (Some r) False = Some (enumerated_table ms)"
    using value_range_table(1) [OF e(1,2,5,6,7) _ e(3,4) lim, of ASN_BASIC_ENUMERATED] by (simp add: e(8) enumerated_table_def n_def Let_def)
  show ?thesis
    by (simp add: emit_member_PER_constraints_def t [unfolded r_def] no_size_of_enumerated or_null_def emit_single_member_PER_constraint_def [of _ None])
qed

text \<open>X.691 14: a root is the number of roots below it, an addition the number of additions below it.\<close>

definition enumerated_bits :: "asn1p_item list \<Rightarrow> int \<Rightarrow> bool list" where
  "enumerated_bits ms v =
     (if v \<in> item_number ` set (roots ms)
      then (if filter is_mark ms = [] then [] else [False]) @
        be_bits (bits_for (int (length (roots ms)))) (card {x \<in> item_number ` set (roots ms). x < v})
      else True # be_bits 7 (card {x \<in> item_number ` set (additions ms). x < v}))"

text \<open>The two groups of numbers, and the number of items below one.\<close>

lemma item_numbers:
  assumes "enumeration_ok ms" "R = item_number ` set (roots ms)" "A = item_number ` set (additions ms)"
  shows "item_number ` set (items ms) = R \<union> A" "R \<inter> A = {}" "finite R" "finite A" "card R = length (roots ms)"
    "card {x \<in> R \<union> A. x < v} = card {x \<in> R. x < v} + card {x \<in> A. x < v}"
    "A \<noteq> {} \<Longrightarrow> filter is_mark ms \<noteq> []"
proof -
  have d: "distinct (map item_number (roots ms @ additions ms))"
    using assms(1) by (simp add: enumeration_ok_def roots_additions del: map_append)
  show "item_number ` set (items ms) = R \<union> A" by (simp add: roots_additions assms(2,3) image_Un)
  show i: "R \<inter> A = {}" using d by (simp add: assms(2,3))
  show f: "finite R" "finite A" by (simp_all add: assms(2,3))
  show "card R = length (roots ms)" using d by (simp add: assms(2) distinct_card [of "map item_number (roots ms)", simplified])
  have "{x \<in> R \<union> A. x < v} = {x \<in> R. x < v} \<union> {x \<in> A. x < v}" by auto
  then show "card {x \<in> R \<union> A. x < v} = card {x \<in> R. x < v} + card {x \<in> A. x < v}"
    using i f card_Un_disjoint [of "{x \<in> R. x < v}" "{x \<in> A. x < v}"] by fastforce
  show "A \<noteq> {} \<Longrightarrow> filter is_mark ms \<noteq> []" using no_additions [of ms] by (auto simp: assms(3) filter_empty_conv)
qed

text \<open>The bits of an item under the emitted maps and table: its place among all items decides, as in the code.\<close>

lemma emitted_bits:
  assumes "enumeration_ok ms" "length (roots ms) \<le> 2 ^ 31"
    and "m \<in> set (items ms)" "enumerated_specifics ms = Some (Some specs)"
    and "cs = Some \<lparr>pc_value = enumerated_table ms, pc_size = unconstrained, pc_value2code = None, pc_code2value = None\<rparr>"
    and "k = card {x \<in> item_number ` set (items ms). x < item_number m}"
  shows "enum_bits \<lparr>td_specifics = Some specs, td_per_constraints = cs\<rparr> None (item_number m) =
    (if k < length (roots ms)
     then Some ((if filter is_mark ms = [] then [] else [False]) @ be_bits (bits_for (int (length (roots ms)))) k)
     else if k - length (roots ms) < 64 then Some (True # be_bits 7 (k - length (roots ms))) else None)"
proof -
  obtain specs' where sp: "enumerated_specifics ms = Some (Some specs')"
    "sorted_wrt (<) (map nat_value (value2enum specs'))" "mset (map nat_value (value2enum specs')) = mset (map item_number (items ms))"
    "map_count specs' = length (value2enum specs')" "extension specs' = (if filter is_mark ms = [] then 0 else int (length (roots ms)) + 1)"
    "mset (enum2value specs') = mset [0..<length (items ms)]" by (rule specifics_ok [OF assms(1)])
  have specs: "specs' = specs" using sp(1) assms(4) by simp
  note sp = sp [unfolded specs]
  define ns where "ns = map nat_value (value2enum specs)"
  have len: "length ns = length (items ms)" using sp(3) by (metis length_map size_mset ns_def)
  have sn: "set ns = item_number ` set (items ms)" using sp(3) by (metis set_map set_mset_mset ns_def)
  have n: "length (roots ms) \<le> length ns" by (simp add: len roots_additions)
  have nomark: "length ns = length (roots ms)" if "filter is_mark ms = []"
    using item_numbers(7) [OF assms(1) refl refl] that by (auto simp: len roots_additions)
  have root: "enum_root specs = length (roots ms)"
    using nomark sp(4,5) by (auto simp: enum_root_def ns_def)
  have "int (length (roots ms)) \<le> int (2 ^ 31)" using assms(2) by (simp only: of_nat_le_iff)
  then have "int (length (roots ms)) \<le> 2 ^ 31" by simp
  note b = bits_for [OF this]
  have "int (length (roots ms)) \<le> int (2 ^ bits_for (int (length (roots ms))))" using b(1) by simp
  then have "length (roots ms) \<le> 2 ^ bits_for (int (length (roots ms)))" by (simp only: of_nat_le_iff)
  then have eok: "enum_ok (enumerated_table ms) specs"
    using sp(2,4,5) b(3) n unfolding enum_ok_def root
    by (simp add: enumerated_table_def Let_def ns_def sorted_wrt_map del: of_nat_power)
  have "sorted_wrt (\<lambda>x y. nat_value x < nat_value y) (value2enum specs)" using sp(2) by (simp add: sorted_wrt_map)
  note bs = bsearch_spec [OF this order_refl, where a = "item_number m" and lo = 0]
  obtain i where "i \<in> {0..<length (value2enum specs)}" "nat_value (value2enum specs ! i) = item_number m"
    using assms(3) sn by (force simp: ns_def in_set_conv_nth image_def)
  then obtain j where j: "enum_index specs (item_number m) = Some j" "j < length ns" "ns ! j = item_number m"
    using bs by (cases "enum_index specs (item_number m)") (auto simp: enum_index_def sp(4) ns_def)
  have "j = k" using sorted_rank [OF sp(2) [folded ns_def] j(2)] by (simp add: sn j(3) assms(6))
  with j nomark show ?thesis
    by (auto simp: enum_bits_def value_constraint_def assms(5) eok root)
      (simp_all add: enumerated_table_def Let_def ext_bit_def ct_has_def)
qed

lemma compiled_enum_bits:
  assumes "enumeration_ok ms" "length (roots ms) \<le> 2 ^ 31"
    and "\<forall>r \<in> set (roots ms). \<forall>a \<in> set (additions ms). item_number r < item_number a"
    and "m \<in> set (items ms)" "card {a \<in> item_number ` set (additions ms). a < item_number m} < 64"
    and "enumerated_specifics ms = Some (Some specs)"
    and "cs = Some \<lparr>pc_value = enumerated_table ms, pc_size = unconstrained, pc_value2code = None, pc_code2value = None\<rparr>"
  shows "enum_bits \<lparr>td_specifics = Some specs, td_per_constraints = cs\<rparr> None (item_number m) = Some (enumerated_bits ms (item_number m))"
proof -
  define R where "R = item_number ` set (roots ms)"
  define A where "A = item_number ` set (additions ms)"
  note n = item_numbers [OF assms(1) R_def A_def]
  note bits = emitted_bits [OF assms(1,2,4,6,7) refl, unfolded n(1) n(6)]
  show ?thesis
  proof (cases "item_number m \<in> R")
    case True
    then have none: "{x \<in> A. x < item_number m} = {}" using assms(3) by (force simp: R_def A_def)
    have "{x \<in> R. x < item_number m} \<subset> R" using True by auto
    then have "card {x \<in> R. x < item_number m} < length (roots ms)" unfolding n(5) [symmetric] by (rule psubset_card_mono [OF n(3)])
    then show ?thesis using bits True by (simp add: none enumerated_bits_def R_def [symmetric])
  next
    case False
    then have "item_number m \<in> A" using assms(4) n(1) by auto
    then have all: "{x \<in> R. x < item_number m} = R" using assms(3) by (auto simp: R_def A_def)
    show ?thesis using bits False assms(5) by (simp add: all n(5) enumerated_bits_def R_def [symmetric] A_def [symmetric])
  qed
qed

text \<open>A codec for the bits of an ENUMERATED writes an item and reads it back.\<close>

lemma enum_coded:
  assumes "enum_bits td None v = Some bs" "t = TNativeEnumerated td None"
  shows "\<exists>n buf w. uper_encode_to_new_buffer (\<lambda>_. True) (Some (op_uper_encoder (uper_ops t))) (VInt v) = Some (int n, Some buf) \<and>
    take n buf = per_complete bs \<and> uper_decode_complete (Some (op_uper_decoder (uper_ops t))) buf n = Some (RC_OK, n, Some (VInt v, w))"
proof -
  have "type_coding t (VInt v) = Some (bs, False, VInt v)" using assms by (simp add: type_coding.simps int_coding_def)
  from coded_roundtrip [OF codec_forD [OF type_codec this]] show ?thesis by blast
qed


text \<open>
  C5: an ENUMERATED from its items to its bits. When the compiler accepts the items, there are a root and at most
  \<open>2 ^ 31\<close> of them, every addition is above the roots, and fewer than 64 additions are below the item, then the maps
  and the table that it prints make the encoder write what X.691 gives the item, a root as the number of roots below
  it in the least number of bits, an addition as the number of additions below it, and the decoder returns the item.
  An addition below a root is the subject of C40; the code has no form for an addition behind 64 others.
\<close>

theorem compiled_enum_roundtrip:
  assumes "asn1f_fix_enum ASN_BASIC_ENUMERATED ms = Some (0, ms')" "roots ms' \<noteq> []" "length (roots ms') \<le> 2 ^ 31"
    and "\<forall>r \<in> set (roots ms'). \<forall>a \<in> set (additions ms'). item_number r < item_number a"
    and "m \<in> set (items ms')" "card {a \<in> item_number ` set (additions ms'). a < item_number m} < 64"
    and "t = (\<lambda>specs cs. TNativeEnumerated \<lparr>td_specifics = specs, td_per_constraints = cs\<rparr> None)"
  shows "\<exists>cs specs n buf w. emit_member_PER_constraints True ASN_BASIC_ENUMERATED ct (map is_mark ms') maps = Some cs \<and>
    enumerated_specifics ms' = Some specs \<and>
    uper_encode_to_new_buffer (\<lambda>_. True) (Some (op_uper_encoder (uper_ops (t specs cs)))) (VInt (item_number m)) = Some (int n, Some buf) \<and>
    take n buf = per_complete (enumerated_bits ms' (item_number m)) \<and>
    uper_decode_complete (Some (op_uper_decoder (uper_ops (t specs cs)))) buf n = Some (RC_OK, n, Some (VInt (item_number m), w))"
proof -
  have ok: "enumeration_ok ms'" using accepted [OF assms(1)] by blast
  obtain specs where sp: "enumerated_specifics ms' = Some (Some specs)" by (rule specifics_ok [OF ok])
  define cs where "cs = Some \<lparr>pc_value = enumerated_table ms', pc_size = unconstrained, pc_value2code = None, pc_code2value = None\<rparr>"
  have "enum_bits \<lparr>td_specifics = Some specs, td_per_constraints = cs\<rparr> None (item_number m) = Some (enumerated_bits ms' (item_number m))"
    by (rule compiled_enum_bits [OF ok assms(3-6) sp cs_def])
  from enum_coded [OF this refl] show ?thesis using emitted_enum [OF assms(2,3), of ct maps] sp
    unfolding assms(7) by (simp add: cs_def)
qed

section \<open>Samples\<close>

definition item :: "string \<Rightarrow> int option \<Rightarrow> asn1p_item" where
  "item name v = \<lparr>it_type = A1TC_UNIVERVAL, it_Identifier = Some name, it_value = map_option ATV_INTEGER v\<rparr>"

definition dots :: asn1p_item where
  "dots = \<lparr>it_type = A1TC_EXTENSIBLE, it_Identifier = None, it_value = None\<rparr>"

lemma item_simps [simp]:
  "it_type (item name v) = A1TC_UNIVERVAL" "it_Identifier (item name v) = Some name" "it_value (item name v) = map_option ATV_INTEGER v"
  "item_number (item name (Some n)) = n" "\<not> is_mark (item name v)" "item_ok (item name (Some n))"
  "item name None\<lparr>it_value := Some (ATV_INTEGER n)\<rparr> = item name (Some n)"
  "it_type dots = A1TC_EXTENSIBLE" "it_Identifier dots = None" "it_value dots = None" "is_mark dots" "item_ok dots" "item name v = item name' v' \<longleftrightarrow> name = name' \<and> v = v'"
  by (auto simp: item_def dots_def item_number_def is_mark_def item_ok_def option.map_sel split: option.splits) (cases v; cases v'; simp)+

lemma bits_for_2 [simp]: "bits_for 2 = 1"
  unfolding bits_for_def by (rule Least_equality) (auto simp: not_less_eq_eq [symmetric] intro: ccontr)

text \<open>Enum4 and Enum3 of \<open>tests/tests-asn1c-compiler/03-enum-OK.asn1\<close>.\<close>

definition enum4 :: "asn1p_item list" where
  "enum4 = [item ''a'' None, item ''b'' None, dots, item ''c'' (Some 3), item ''d'' None]"

definition enum3 :: "asn1p_item list" where
  "enum3 = [item ''a'' None, item ''b'' (Some 3), dots, item ''c'' (Some 1)]"

text \<open>The loop on items without errors.\<close>

definition fix_start :: "int \<Rightarrow> int \<Rightarrow> bool \<Rightarrow> int list \<Rightarrow> fix_state" where
  "fix_start m e x u = \<lparr>max_value = m, max_value_ext = e, rvalue = 0, ext_marker = x, used_vals = u\<rparr>"

lemma fix_item_numbered:
  "\<lbrakk>v \<notin> set u; unique_in before n = 0; x \<longrightarrow> e < v\<rbrakk> \<Longrightarrow>
     fix_item before (fix_start m e x u) (item n (Some v)) = Some (fix_start (max m v) (if x then v else e) x (u @ [v]), item n (Some v))"
  by (simp add: fix_item_def fix_start_def Let_def asn1f_check_unique_expr_child_def RET2RVAL_def max_def)

lemma fix_item_next:
  "\<lbrakk>-1 \<le> m; m < 2 ^ 64; m + 1 \<notin> set u; unique_in before n = 0; x \<longrightarrow> e < m + 1\<rbrakk> \<Longrightarrow>
     fix_item before (fix_start m e x u) (item n None) = Some (fix_start (m + 1) (if x then m + 1 else e) x (u @ [m + 1]), item n (Some (m + 1)))"
  by (simp add: fix_item_def fix_start_def Let_def asn1f_check_unique_expr_child_def RET2RVAL_def s128_def)

lemma fix_item_dots: "fix_item before (fix_start m e False u) dots = Some (fix_start m e True u, dots)"
  by (simp add: fix_item_def fix_start_def)

lemma fix_enum_start: "asn1f_fix_enum ASN_BASIC_ENUMERATED ms = map_option (\<lambda>(st, ms). (rvalue st, ms)) (fix_items [] (fix_start (-1) (-1) False []) ms)"
  by (simp add: asn1f_fix_enum_def fix_start_def map_option_case split: bind_splits option.splits)

lemmas fix_run = fix_enum_start fix_item_numbered fix_item_next fix_item_dots

lemma enum_fixed:
  "asn1f_fix_enum ASN_BASIC_ENUMERATED enum4 =
     Some (0, [item ''a'' (Some 0), item ''b'' (Some 1), dots, item ''c'' (Some 3), item ''d'' (Some 4)])"
  "asn1f_fix_enum ASN_BASIC_ENUMERATED enum3 = Some (0, [item ''a'' (Some 0), item ''b'' (Some 3), dots, item ''c'' (Some 1)])"
  by (simp_all add: enum4_def enum3_def fix_run) (simp_all add: fix_start_def)

theorem fix_enum_exact_witness:
  "asn1f_fix_enum ASN_BASIC_ENUMERATED [item ''a'' (Some 0), item ''b'' (Some 3), dots, item ''c'' (Some 1)] =
     Some (0, [item ''a'' (Some 0), item ''b'' (Some 3), dots, item ''c'' (Some 1)])"
proof -
  have "enumeration_ok [item ''a'' (Some 0), item ''b'' (Some 3), dots, item ''c'' (Some 1)]"
    by (simp add: enumeration_ok_def items_def additions_def)
  with fix_enum_exact [of "[item ''a'' (Some 0), item ''b'' (Some 3), dots, item ''c'' (Some 1)]"] show ?thesis by simp
qed

theorem compiled_enum_roundtrip_witness:
  "\<exists>ms cs specs n buf w. asn1f_fix_enum ASN_BASIC_ENUMERATED enum4 = Some (0, ms) \<and>
    emit_member_PER_constraints True ASN_BASIC_ENUMERATED None (map is_mark ms) None = Some cs \<and>
    enumerated_specifics ms = Some specs \<and>
    uper_encode_to_new_buffer (\<lambda>_. True) (Some (op_uper_encoder (uper_ops
      (TNativeEnumerated \<lparr>td_specifics = specs, td_per_constraints = cs\<rparr> None)))) (VInt 1) = Some (int n, Some buf) \<and>
    take n buf = per_complete [False, True] \<and>
    uper_decode_complete (Some (op_uper_decoder (uper_ops
      (TNativeEnumerated \<lparr>td_specifics = specs, td_per_constraints = cs\<rparr> None)))) buf n = Some (RC_OK, n, Some (VInt 1, w))"
proof -
  define ms where "ms = [item ''a'' (Some 0), item ''b'' (Some 1), dots, item ''c'' (Some 3), item ''d'' (Some 4)]"
  have ra: "roots ms = [item ''a'' (Some 0), item ''b'' (Some 1)]" "additions ms = [item ''c'' (Some 3), item ''d'' (Some 4)]"
    "item ''b'' (Some 1) \<in> set (items ms)" "filter is_mark ms \<noteq> []"
    by (simp_all add: ms_def roots_def additions_def items_def)
  have i: "{x \<in> {0, 1 :: int}. x < 1} = {0}" "{x \<in> {3, 4 :: int}. x < 1} = {}" by auto
  have n: "item_number ` set (roots ms) = {0, 1}" "item_number ` set (additions ms) = {3, 4}" by (simp_all add: ra)
  have b: "enumerated_bits ms 1 = [False, True]" unfolding enumerated_bits_def n i by (simp add: ra be_bits_rec)
  have c: "card {a \<in> item_number ` set (additions ms). a < item_number (item ''b'' (Some 1))} < 64" unfolding n by (simp only: item_simps i(2)) simp
  show ?thesis
    using compiled_enum_roundtrip [OF enum_fixed(1) [folded ms_def] _ _ _ ra(3) c refl, of None None, unfolded item_simps b] enum_fixed(1) [folded ms_def]
    by (simp add: ra(1,2))
qed

text \<open>The ranks of the greatest root and of the least addition when some addition is below some root.\<close>

lemma crossed_groups:
  fixes R A :: "int set"
  assumes "finite R" "finite A" "R \<inter> A = {}" "\<exists>r \<in> R. \<exists>a \<in> A. a < r" "c = card {x \<in> A. x < Max R}"
  obtains a r where "a \<in> A" "card {x \<in> A. x < a} = c - 1" "0 < c" "r \<in> R" "Min A < r" "card {x \<in> R. x < r} = card {x \<in> R. x < Min A}"
    "Max R \<in> R" "card {x \<in> R. x < Max R} = card R - 1" "Min A \<in> A" "{x \<in> A. x < Min A} = {}" "card {x \<in> R. x < Min A} < card R"
proof -
  have ne: "Max R \<in> R" "Min A \<in> A" using Max_in [OF assms(1)] Min_in [OF assms(2)] assms(4) by blast+
  have below: "Min A < Max R" using assms(4) Min_le [OF assms(2)] Max_ge [OF assms(1)] by (meson le_less_trans less_le_trans)
  have notR: "Min A \<notin> R" using assms(3) ne by blast
  define a where "a = Max {x \<in> A. x < Max R}"
  define r where "r = Min {x \<in> R. Min A < x}"
  have a: "a \<in> {x \<in> A. x < Max R}" unfolding a_def by (rule Max_in) (use assms(2) below ne in auto)
  have r: "r \<in> {x \<in> R. Min A < x}" unfolding r_def by (rule Min_in) (use assms(1) below ne in auto)
  have "{x \<in> A. x < a} = {x \<in> A. x < Max R} - {a}"
    using a Max_ge [of "{x \<in> A. x < Max R}"] assms(2) by (force simp: a_def [symmetric])
  then have ca: "card {x \<in> A. x < a} = c - 1" using a by (simp add: assms(5))
  have c: "0 < c" unfolding assms(5) using a assms(2) by (auto simp: card_gt_0_iff)
  have "r \<le> x" if "x \<in> R" "Min A < x" for x unfolding r_def by (rule Min_le) (use that assms(1) in simp_all)
  then have "x < r \<longleftrightarrow> x < Min A" if "x \<in> R" for x
    using that r notR by (metis (mono_tags, lifting) less_trans linorder_neqE mem_Collect_eq not_less)
  then have cr: "{x \<in> R. x < r} = {x \<in> R. x < Min A}" by blast
  have "x < Max R \<longleftrightarrow> x \<noteq> Max R" if "x \<in> R" for x using Max_ge [OF assms(1) that] by auto
  then have "{x \<in> R. x < Max R} = R - {Max R}" by auto
  then have cR: "card {x \<in> R. x < Max R} = card R - 1" using ne by simp
  have cA: "{x \<in> A. x < Min A} = {}" using Min_le [OF assms(2)] by (metis (mono_tags, lifting) Collect_empty_eq not_less)
  have "r \<in> R \<and> \<not> r < Min A" using r by simp
  then have "{x \<in> R. x < Min A} \<subset> R" by blast
  then have few: "card {x \<in> R. x < Min A} < card R" by (rule psubset_card_mono [OF assms(1)])
  have ar: "a \<in> A" "r \<in> R" "Min A < r" using a r by simp_all
  show thesis by (rule that [OF ar(1) ca c ar(2,3) _ ne(1) cR ne(2) cA few]) (simp only: cr)
qed

text \<open>
  C40: an addition below a root, which X.680 and the check above allow. The map is in the order of all numbers, and the
  code takes the first of them, as many as there are roots, for the roots. For every accepted list of items with an
  addition below some root (and at most 64 below the greatest) the printed maps and table make the encoder write the
  greatest root with the bits that X.691 gives an addition, and the least addition with those of a root above it, so
  that a peer reads another item.
\<close>

theorem additions_below_roots:
  assumes "asn1f_fix_enum ASN_BASIC_ENUMERATED ms = Some (0, ms')" "length (roots ms') \<le> 2 ^ 31"
    and "R = item_number ` set (roots ms')" "A = item_number ` set (additions ms')" "\<exists>r \<in> R. \<exists>a \<in> A. a < r"
    and "c = card {a \<in> A. a < Max R}" "c \<le> 64"
    and "enc = (\<lambda>specs cs. uper_encode_to_new_buffer (\<lambda>_. True)
      (Some (op_uper_encoder (uper_ops (TNativeEnumerated \<lparr>td_specifics = specs, td_per_constraints = cs\<rparr> None)))))"
  shows "\<exists>cs specs a r n buf n' buf'. emit_member_PER_constraints True ASN_BASIC_ENUMERATED ct (map is_mark ms') maps = Some cs \<and>
    enumerated_specifics ms' = Some specs \<and> a \<in> A \<and> r \<in> R \<and> Min A < r \<and>
    enc specs cs (VInt (Max R)) = Some (int n, Some buf) \<and> take n buf = per_complete (enumerated_bits ms' a) \<and>
    enumerated_bits ms' a = True # be_bits 7 (c - 1) \<and>
    enumerated_bits ms' (Max R) = False # be_bits (bits_for (int (length (roots ms')))) (length (roots ms') - 1) \<and>
    enc specs cs (VInt (Min A)) = Some (int n', Some buf') \<and> take n' buf' = per_complete (enumerated_bits ms' r) \<and>
    enumerated_bits ms' r = False # be_bits (bits_for (int (length (roots ms')))) (card {x \<in> R. x < Min A}) \<and>
    enumerated_bits ms' (Min A) = True # be_bits 7 0"
proof -
  have ok: "enumeration_ok ms'" using accepted [OF assms(1)] by blast
  note n = item_numbers [OF ok assms(3,4)]
  obtain specs where sp: "enumerated_specifics ms' = Some (Some specs)" by (rule specifics_ok [OF ok])
  define cs where "cs = Some \<lparr>pc_value = enumerated_table ms', pc_size = unconstrained, pc_value2code = None, pc_code2value = None\<rparr>"
  have ne1: "R \<noteq> {}" "A \<noteq> {}" using assms(5) by blast+
  then have ne: "R \<noteq> {}" "A \<noteq> {}" "filter is_mark ms' \<noteq> []" "roots ms' \<noteq> []" using n(7) assms(3) by (blast, blast, blast, force)
  obtain a r where a: "a \<in> A" "card {x \<in> A. x < a} = c - 1" "0 < c"
    and r: "r \<in> R" "Min A < r" "card {x \<in> R. x < r} = card {x \<in> R. x < Min A}"
    and M: "Max R \<in> R" "card {x \<in> R. x < Max R} = card R - 1" "Min A \<in> A" "{x \<in> A. x < Min A} = {}" "card {x \<in> R. x < Min A} < card R"
    by (rule crossed_groups [OF n(3,4,2) assms(5,6)])
  note e = enumerated_bits_def [of ms', folded assms(3,4)]
  have groups: "a \<notin> R" "Min A \<notin> R" using n(2) a(1) M(3) by blast+
  have bits: "enumerated_bits ms' a = True # be_bits 7 (c - 1)"
    "enumerated_bits ms' (Max R) = False # be_bits (bits_for (int (length (roots ms')))) (length (roots ms') - 1)"
    "enumerated_bits ms' r = False # be_bits (bits_for (int (length (roots ms')))) (card {x \<in> R. x < Min A})"
    "enumerated_bits ms' (Min A) = True # be_bits 7 0"
    unfolding e by (simp_all only: groups a(2) r(1,3) M(1,2,4) n(5) ne(3) if_True if_False append.simps card.empty)
  have "\<exists>m \<in> set (items ms'). item_number m = v" if "v \<in> R \<union> A" for v using that unfolding n(1) [symmetric] by blast
  then obtain x y where x: "x \<in> set (items ms')" "item_number x = Max R" and y: "y \<in> set (items ms')" "item_number y = Min A"
    using M(1,3) by (metis UnCI)
  note eb = emitted_bits [OF ok assms(2) _ sp cs_def refl, unfolded n(1) n(6)]
  have ix: "card {x \<in> R. x < Max R} + card {x \<in> A. x < Max R} = length (roots ms') + (c - 1)"
    using a(3) ne(4) by (cases "roots ms'") (simp_all add: M(2) n(5) assms(6) [symmetric])
  have w: "enum_bits \<lparr>td_specifics = Some specs, td_per_constraints = cs\<rparr> None (Max R) = Some (enumerated_bits ms' a)"
    "enum_bits \<lparr>td_specifics = Some specs, td_per_constraints = cs\<rparr> None (Min A) = Some (enumerated_bits ms' r)"
    using eb [OF x(1), unfolded x(2) ix] eb [OF y(1), unfolded y(2) M(4)] M(5) assms(7) ne(3) by (simp_all only: bits n(5)) simp_all
  have "emit_member_PER_constraints True ASN_BASIC_ENUMERATED ct (map is_mark ms') maps = Some cs"
    using emitted_enum [OF ne(4) assms(2)] by (simp add: cs_def)
  then show ?thesis using enum_coded [OF w(1) refl] enum_coded [OF w(2) refl] sp a(1) r(1,2) bits unfolding assms(8) by fast
qed

theorem additions_below_roots_witness:
  "\<exists>ms cs specs n buf n' buf'. asn1f_fix_enum ASN_BASIC_ENUMERATED enum3 = Some (0, ms) \<and>
    emit_member_PER_constraints True ASN_BASIC_ENUMERATED None (map is_mark ms) None = Some cs \<and> enumerated_specifics ms = Some specs \<and>
    uper_encode_to_new_buffer (\<lambda>_. True) (Some (op_uper_encoder (uper_ops
      (TNativeEnumerated \<lparr>td_specifics = specs, td_per_constraints = cs\<rparr> None)))) (VInt 3) = Some (int n, Some buf) \<and>
    take n buf = per_complete (True # be_bits 7 0) \<and>
    uper_encode_to_new_buffer (\<lambda>_. True) (Some (op_uper_encoder (uper_ops
      (TNativeEnumerated \<lparr>td_specifics = specs, td_per_constraints = cs\<rparr> None)))) (VInt 1) = Some (int n', Some buf') \<and>
    take n' buf' = per_complete [False, True]"
proof -
  define ms where "ms = [item ''a'' (Some 0), item ''b'' (Some 3), dots, item ''c'' (Some 1)]"
  have ra: "roots ms = [item ''a'' (Some 0), item ''b'' (Some 3)]" "additions ms = [item ''c'' (Some 1)]"
    by (simp_all add: ms_def roots_def additions_def items_def)
  have n: "item_number ` set (roots ms) = {0, 3}" "item_number ` set (additions ms) = {1}" by (simp_all add: ra)
  have m: "Max {0, 3 :: int} = 3" "Min {1 :: int} = 1" by simp_all
  have i: "{x \<in> {0, 3 :: int}. x < 1} = {0}" "{x \<in> {1 :: int}. x < 3} = {1}" by auto
  have c: "1 = card {a \<in> {1 :: int}. a < Max {0, 3}}" unfolding m i by simp
  have "be_bits 1 1 = [True]" by (simp add: be_bits_rec)
  then show ?thesis
    using additions_below_roots [OF enum_fixed(2) [folded ms_def] _ n(1) [symmetric] n(2) [symmetric] _ c _ refl, where ct = None and maps = None]
      enum_fixed(2) [folded ms_def] unfolding m i by (simp add: ra) metis
qed

text \<open>
  X.680 20.3 numbers the items without a number from 0 on, past the numbers that other roots have. Here they continue
  behind the largest number so far: \<open>b\<close> of \<open>{a(5), b}\<close> is 6 and not 0, and \<open>{a, b(0)}\<close> is refused for a collision.
\<close>

theorem implicit_numbers:
  "asn1f_fix_enum ASN_BASIC_ENUMERATED [item ''a'' (Some 5), item ''b'' None] = Some (0, [item ''a'' (Some 5), item ''b'' (Some 6)]) \<and>
   asn1f_fix_enum ASN_BASIC_ENUMERATED [item ''a'' None, item ''b'' (Some 0)] = Some (-1, [item ''a'' (Some 0), item ''b'' (Some 0)])"
proof -
  have "fix_item [item ''a'' (Some 0)] (fix_start 0 (-1) False [0]) (item ''b'' (Some 0)) =
      Some ((fix_start 0 (-1) False [0])\<lparr>rvalue := -1\<rparr>, item ''b'' (Some 0))"
    by (simp add: fix_item_def fix_start_def Let_def asn1f_check_unique_expr_child_def RET2RVAL_def)
  then show ?thesis by (simp add: fix_run) (simp add: fix_start_def)
qed

end
